(* ===== verification/Hal_Prelude.thy ===== *)
theory Hal_Prelude
  imports Main "HOL-Library.Word" "HOL-Library.Monad_Syntax"
begin

unbundle bit_operations_syntax

text \<open>
  Shared vocabulary of the development: the integer types of \<open>CommonLib/inc/data_type.h\<close>, the
  macros of \<open>CommonLib/inc/base.h\<close>, the status codes of \<open>CommonLib/inc/status.h\<close> and the way a
  halting operation is modelled.

  An operation that can stop the machine returns an option. \<open>None\<close> stands for every outcome after
  which the C function does not return to its caller: a failed \<^verbatim>\<open>ASSERT\<close> (the registered assert
  function ends in \<^verbatim>\<open>__halt\<close>), an access to an address that is not mapped, or a loop that never
  ends. A theorem of the form \<open>f x = Some y\<close> therefore says that none of these happens.
\<close>

section \<open>Integer types\<close>

type_synonym BYTE = "8 word"
type_synonym WORD = "16 word"
type_synonym DWORD = "32 word"
type_synonym QWORD = "64 word"
type_synonym INT64 = "64 word"
type_synonym ptr = "64 word"
type_synonym STATUS = "32 word"

abbreviation NULL :: ptr where "NULL \<equiv> 0"
abbreviation MAX_BYTE :: BYTE where "MAX_BYTE \<equiv> 0xFF"
abbreviation MAX_DWORD :: DWORD where "MAX_DWORD \<equiv> 0xFFFFFFFF"
abbreviation MAX_QWORD :: QWORD where "MAX_QWORD \<equiv> 0xFFFFFFFFFFFFFFFF"
abbreviation PAGE_SIZE :: QWORD where "PAGE_SIZE \<equiv> 0x1000"

named_theorems heap_simps \<open>reads and writes of the modelled memory\<close>
named_theorems word_nat \<open>machine arithmetic in terms of natural numbers\<close>

section \<open>Status codes\<close>

definition FAIL_MASK :: STATUS where "FAIL_MASK = push_bit 31 1"

definition SUCCEEDED :: "STATUS \<Rightarrow> bool" where
  "SUCCEEDED x = (0 = x AND FAIL_MASK)"

abbreviation STATUS_SUCCESS :: STATUS where "STATUS_SUCCESS \<equiv> 0"
abbreviation STATUS_UNSUPPORTED :: STATUS where "STATUS_UNSUPPORTED \<equiv> 0xE8000001"
abbreviation STATUS_ELEMENT_NOT_FOUND :: STATUS where "STATUS_ELEMENT_NOT_FOUND \<equiv> 0xE8000004"
abbreviation STATUS_INVALID_PARAMETER1 :: STATUS where "STATUS_INVALID_PARAMETER1 \<equiv> 0xE8000011"
abbreviation STATUS_INVALID_PARAMETER2 :: STATUS where "STATUS_INVALID_PARAMETER2 \<equiv> 0xE8000012"
abbreviation STATUS_INVALID_PARAMETER3 :: STATUS where "STATUS_INVALID_PARAMETER3 \<equiv> 0xE8000013"
abbreviation STATUS_INVALID_PARAMETER4 :: STATUS where "STATUS_INVALID_PARAMETER4 \<equiv> 0xE8000014"
abbreviation STATUS_JOB_INTERRUPTED :: STATUS where "STATUS_JOB_INTERRUPTED \<equiv> 0xE8000022"

lemma SUCCEEDED_SUCCESS [simp]: "SUCCEEDED STATUS_SUCCESS"
  by (simp add: SUCCEEDED_def)

section \<open>Operations that may halt\<close>

definition ASSERT :: "bool \<Rightarrow> unit option" where
  "ASSERT c = (if c then Some () else None)"

lemma ASSERT_True [simp]: "ASSERT True = Some ()"
  by (simp add: ASSERT_def)

lemma ASSERT_False [simp]: "ASSERT False = None"
  by (simp add: ASSERT_def)

lemma ASSERT_eq_Some [simp]: "ASSERT c = Some u \<longleftrightarrow> c"
  by (simp add: ASSERT_def)

lemma bind_ASSERT: "(ASSERT c \<bind> f) = (if c then f () else None)"
  by (simp add: ASSERT_def)

lemma bind_eq_SomeD: "(m \<bind> f) = Some y \<Longrightarrow> \<exists>x. m = Some x \<and> f x = Some y"
  by (cases m) auto

section \<open>Macros of base.h\<close>

definition IsFlagOn :: "'a::len word \<Rightarrow> 'a word \<Rightarrow> bool" where
  "IsFlagOn x f = (0 \<noteq> x AND f)"

definition IsBooleanFlagOn :: "'a::len word \<Rightarrow> 'a word \<Rightarrow> bool" where
  "IsBooleanFlagOn x f = (f = x AND f)"

definition AlignAddressLower :: "QWORD \<Rightarrow> QWORD \<Rightarrow> QWORD" where
  "AlignAddressLower addr alig = addr AND NOT (alig - 1)"

definition AlignAddressUpper :: "QWORD \<Rightarrow> QWORD \<Rightarrow> QWORD" where
  "AlignAddressUpper addr alig = AlignAddressLower (addr + alig - 1) alig"

definition IsAddressAligned :: "QWORD \<Rightarrow> QWORD \<Rightarrow> bool" where
  "IsAddressAligned addr alig = (0 = addr AND (alig - 1))"

definition CHECK_BOUNDS :: "QWORD \<Rightarrow> QWORD \<Rightarrow> QWORD \<Rightarrow> QWORD \<Rightarrow> bool" where
  "CHECK_BOUNDS p ps b s = (b \<le> p \<and> p + ps \<le> b + s)"

section \<open>Words as natural numbers\<close>

lemma and_not_mask_unat:
  fixes a :: "'a::len word"
  shows "unat (a AND NOT (mask n)) = unat a div 2 ^ n * 2 ^ n"
proof -
  have "a AND NOT (mask n) = push_bit n (drop_bit n a)"
    by (rule bit_word_eqI) (auto simp: bit_simps)
  moreover have "unat a div 2 ^ n * 2 ^ n < 2 ^ LENGTH('a)"
    using unsigned_less [of a] div_times_less_eq_dividend order_le_less_trans by blast
  moreover have "unat (push_bit n (drop_bit n a)) = take_bit LENGTH('a) (unat a div 2 ^ n * 2 ^ n)"
    unfolding unsigned_push_bit_eq unsigned_drop_bit_eq
    by (simp only: push_bit_eq_mult drop_bit_eq_div take_bit_nat_eq_self unsigned_less)
  ultimately show ?thesis
    by (simp only: take_bit_nat_eq_self)
qed

lemma AlignAddressLower_page [word_nat]:
  "unat (AlignAddressLower a PAGE_SIZE) = unat a div 4096 * 4096"
proof -
  have "PAGE_SIZE - 1 = mask 12"
    by (simp add: mask_eq_exp_minus_1)
  then show ?thesis
    using and_not_mask_unat [of a 12] by (simp add: AlignAddressLower_def)
qed

lemma AlignAddressUpper_page [word_nat]:
  assumes "unat a + 4095 < 2 ^ 64"
  shows "unat (AlignAddressUpper a PAGE_SIZE) = (unat a + 4095) div 4096 * 4096"
proof -
  have "unat (a + 4095) = unat a + 4095"
    using assms by (simp add: unat_add_lem [THEN iffD1])
  then show ?thesis
    by (simp add: AlignAddressUpper_def AlignAddressLower_page add.commute)
qed

lemma IsAddressAligned_page [word_nat]:
  "IsAddressAligned a PAGE_SIZE \<longleftrightarrow> unat a mod 4096 = 0"
proof -
  have m: "PAGE_SIZE - 1 = mask 12"
    by (simp add: mask_eq_exp_minus_1)
  have "unat (a AND mask 12) = unat a mod 4096"
    by (simp add: take_bit_eq_mod unat_mod flip: take_bit_eq_mask)
  then show ?thesis
    by (metis IsAddressAligned_def m unat_eq_zero)
qed

lemma unat_div_page [word_nat]: "unat (a div PAGE_SIZE) = unat a div 4096"
  by (simp add: unat_div)

lemma unat_plus_if_small:
  fixes a b :: "'a::len word"
  assumes "unat a + unat b < 2 ^ LENGTH('a)"
  shows "unat (a + b) = unat a + unat b"
  using assms by (simp add: unat_add_lem [THEN iffD1])

lemma unat_DWORD_less [simp]: "unat (x::DWORD) < 4294967296"
  using unsigned_less [of x] by simp

lemma unat_QWORD_less [simp]: "unat (x::QWORD) < 18446744073709551616"
  using unsigned_less [of x] by simp

lemma unat_ucast_QWORD [word_nat]: "unat (ucast (x::DWORD) :: QWORD) = unat x"
proof -
  have "unat x < 2 ^ 64" using unat_DWORD_less [of x] by (simp del: unat_DWORD_less)
  then show ?thesis by (simp add: unsigned_ucast_eq take_bit_nat_eq_self)
qed

lemma unat_ucast_DWORD [word_nat]:
  "unat x < 4294967296 \<Longrightarrow> unat (ucast (x::QWORD) :: DWORD) = unat x"
  by (simp add: unsigned_ucast_eq take_bit_nat_eq_self)

lemma sint_word_of_int_small [word_nat]:
  "- (2 ^ (LENGTH('a) - 1)) \<le> r \<Longrightarrow> r < 2 ^ (LENGTH('a) - 1) \<Longrightarrow> sint (word_of_int r :: 'a::len word) = r"
  by (simp add: sint_sbintrunc' signed_take_bit_int_eq_self)

section \<open>Arrays with checked access\<close>

text \<open>An array is a list; an access outside of it is an access to memory the caller does not own.\<close>

definition rd_at :: "'a list \<Rightarrow> nat \<Rightarrow> 'a option" where
  "rd_at xs i = (if i < length xs then Some (xs ! i) else None)"

definition wr_at :: "'a list \<Rightarrow> nat \<Rightarrow> 'a \<Rightarrow> 'a list option" where
  "wr_at xs i v = (if i < length xs then Some (xs[i := v]) else None)"

lemma rd_at_in [simp]: "i < length xs \<Longrightarrow> rd_at xs i = Some (xs ! i)"
  by (simp add: rd_at_def)

lemma rd_at_out [simp]: "length xs \<le> i \<Longrightarrow> rd_at xs i = None"
  by (simp add: rd_at_def)

lemma wr_at_in [simp]: "i < length xs \<Longrightarrow> wr_at xs i v = Some (xs[i := v])"
  by (simp add: wr_at_def)

lemma wr_at_out [simp]: "length xs \<le> i \<Longrightarrow> wr_at xs i v = None"
  by (simp add: wr_at_def)

section \<open>Counting loops\<close>

text \<open>
  \<open>for_upto n f s\<close> is the loop \<^verbatim>\<open>for (i = 0; i < n; ++i) s = f(i, s)\<close>: the body runs for
  \<open>0, 1, \<dots>, n - 1\<close> in this order and the loop halts when a body halts.
\<close>

primrec for_upto :: "nat \<Rightarrow> (nat \<Rightarrow> 's \<Rightarrow> 's option) \<Rightarrow> 's \<Rightarrow> 's option" where
  "for_upto 0 f s = Some s"
| "for_upto (Suc n) f s = do { s \<leftarrow> for_upto n f s; f n s }"

lemma for_upto_rule:
  assumes "P 0 s" and "\<And>i s. i < n \<Longrightarrow> P i s \<Longrightarrow> \<exists>s'. f i s = Some s' \<and> P (Suc i) s'"
  shows "\<exists>s'. for_upto n f s = Some s' \<and> P n s'"
  using assms
proof (induction n)
  case (Suc n)
  then obtain s' where "for_upto n f s = Some s'" "P n s'" by auto
  with Suc.prems(2) [of n s'] show ?case by auto
qed simp

end
