(* ===== verification/Lists.thy ===== *)
theory Lists
  imports Hal_Prelude
begin

text \<open>
  The intrusive doubly linked list of \<open>CommonLib/src/list.c\<close>. A \<open>LIST_ENTRY\<close> lives at an address;
  the memory of all entries is a partial map from addresses to entries (an address outside of its
  domain is not mapped). Every function reads and writes that map pointer by pointer, in the order
  of the C code, and includes the validation that the Debug configuration performs. The predicate
  \<open>is_list h head xs\<close> is the abstraction: from \<open>head\<close> the forward links visit \<open>xs\<close> and come back,
  and the backward links are their inverse. The lemmas show what each operation does to \<open>xs\<close>.
\<close>

section \<open>Memory of list entries\<close>

record LIST_ENTRY =
  Flink :: ptr
  Blink :: ptr

type_synonym lheap = "ptr \<rightharpoonup> LIST_ENTRY"

definition rd_Flink :: "lheap \<Rightarrow> ptr \<Rightarrow> ptr option" where
  "rd_Flink h p = map_option Flink (h p)"

definition rd_Blink :: "lheap \<Rightarrow> ptr \<Rightarrow> ptr option" where
  "rd_Blink h p = map_option Blink (h p)"

definition wr_Flink :: "lheap \<Rightarrow> ptr \<Rightarrow> ptr \<Rightarrow> lheap option" where
  "wr_Flink h p v = (case h p of None \<Rightarrow> None | Some e \<Rightarrow> Some (h(p \<mapsto> e\<lparr>Flink := v\<rparr>)))"

definition wr_Blink :: "lheap \<Rightarrow> ptr \<Rightarrow> ptr \<Rightarrow> lheap option" where
  "wr_Blink h p v = (case h p of None \<Rightarrow> None | Some e \<Rightarrow> Some (h(p \<mapsto> e\<lparr>Blink := v\<rparr>)))"

section \<open>The operations of list.c\<close>

definition ValidateListEntry :: "lheap \<Rightarrow> ptr \<Rightarrow> bool option" where
  "ValidateListEntry h Entry = do {
     f \<leftarrow> rd_Flink h Entry;
     fb \<leftarrow> rd_Blink h f;
     if fb \<noteq> Entry then Some False
     else do {
       b \<leftarrow> rd_Blink h Entry;
       bf \<leftarrow> rd_Flink h b;
       if bf \<noteq> Entry then Some False else Some True
     }
   }"

definition InitializeListHead :: "lheap \<Rightarrow> ptr \<Rightarrow> lheap option" where
  "InitializeListHead h ListHead = do {
     h \<leftarrow> wr_Blink h ListHead ListHead;
     wr_Flink h ListHead ListHead
   }"

definition IsListEmpty :: "lheap \<Rightarrow> ptr \<Rightarrow> bool option" where
  "IsListEmpty h ListHead = do {
     v \<leftarrow> ValidateListEntry h ListHead; ASSERT v;
     f \<leftarrow> rd_Flink h ListHead;
     Some (f = ListHead)
   }"

definition RemoveEntryList :: "lheap \<Rightarrow> ptr \<Rightarrow> (bool \<times> lheap) option" where
  "RemoveEntryList h Entry = do {
     v \<leftarrow> ValidateListEntry h Entry; ASSERT v;
     f \<leftarrow> rd_Flink h Entry;
     b \<leftarrow> rd_Blink h Entry;
     h \<leftarrow> wr_Flink h b f;
     h \<leftarrow> wr_Blink h f b;
     Some (f = b, h)
   }"

definition RemoveHeadList :: "lheap \<Rightarrow> ptr \<Rightarrow> (ptr \<times> lheap) option" where
  "RemoveHeadList h ListHead = do {
     v \<leftarrow> ValidateListEntry h ListHead; ASSERT v;
     Entry \<leftarrow> rd_Flink h ListHead;
     f \<leftarrow> rd_Flink h Entry;
     h \<leftarrow> wr_Flink h ListHead f;
     h \<leftarrow> wr_Blink h f ListHead;
     Some (Entry, h)
   }"

definition RemoveTailList :: "lheap \<Rightarrow> ptr \<Rightarrow> (ptr \<times> lheap) option" where
  "RemoveTailList h ListHead = do {
     v \<leftarrow> ValidateListEntry h ListHead; ASSERT v;
     Entry \<leftarrow> rd_Blink h ListHead;
     b \<leftarrow> rd_Blink h Entry;
     h \<leftarrow> wr_Blink h ListHead b;
     h \<leftarrow> wr_Flink h b ListHead;
     Some (Entry, h)
   }"

definition InsertTailList :: "lheap \<Rightarrow> ptr \<Rightarrow> ptr \<Rightarrow> lheap option" where
  "InsertTailList h ListHead Entry = do {
     v \<leftarrow> ValidateListEntry h ListHead; ASSERT v;
     b \<leftarrow> rd_Blink h ListHead;
     h \<leftarrow> wr_Flink h Entry ListHead;
     h \<leftarrow> wr_Blink h Entry b;
     h \<leftarrow> wr_Flink h b Entry;
     wr_Blink h ListHead Entry
   }"

definition InsertHeadList :: "lheap \<Rightarrow> ptr \<Rightarrow> ptr \<Rightarrow> lheap option" where
  "InsertHeadList h ListHead Entry = do {
     v \<leftarrow> ValidateListEntry h ListHead; ASSERT v;
     f \<leftarrow> rd_Flink h ListHead;
     h \<leftarrow> wr_Flink h Entry f;
     h \<leftarrow> wr_Blink h Entry ListHead;
     h \<leftarrow> wr_Blink h f Entry;
     wr_Flink h ListHead Entry
   }"

text \<open>
  A comparison function receives two entries and the context; it may update the context (the hash
  table does), and it may halt.
\<close>

type_synonym 'c compare = "ptr \<Rightarrow> ptr \<Rightarrow> 'c \<Rightarrow> (INT64 \<times> 'c) option"

partial_function (option) InsertOrderedList_loop ::
  "lheap \<Rightarrow> ptr \<Rightarrow> ptr \<Rightarrow> 'c compare \<Rightarrow> ptr \<Rightarrow> 'c \<Rightarrow> (ptr \<times> 'c) option" where
  "InsertOrderedList_loop h ListHead Entry cmp cur c =
     (if cur = ListHead then Some (cur, c)
      else do {
        (r, c) \<leftarrow> cmp Entry cur c;
        if sint r < 0 then Some (cur, c)
        else do {
          nxt \<leftarrow> rd_Flink h cur;
          InsertOrderedList_loop h ListHead Entry cmp nxt c
        }
      })"

definition InsertOrderedList ::
  "lheap \<Rightarrow> ptr \<Rightarrow> ptr \<Rightarrow> 'c compare \<Rightarrow> 'c \<Rightarrow> (lheap \<times> 'c) option" where
  "InsertOrderedList h ListHead Entry cmp c = do {
     v \<leftarrow> ValidateListEntry h ListHead; ASSERT v;
     first \<leftarrow> rd_Flink h ListHead;
     (cur, c) \<leftarrow> InsertOrderedList_loop h ListHead Entry cmp first c;
     h \<leftarrow> InsertTailList h cur Entry;
     Some (h, c)
   }"

partial_function (option) GetListElemByIndex_loop ::
  "lheap \<Rightarrow> ptr \<Rightarrow> DWORD \<Rightarrow> ptr \<Rightarrow> DWORD \<Rightarrow> ptr option" where
  "GetListElemByIndex_loop h ListHead ListIndex cur index =
     (if cur = ListHead then Some NULL
      else do {
        ASSERT (NULL \<noteq> cur);
        if index = ListIndex then Some cur
        else do {
          nxt \<leftarrow> rd_Flink h cur;
          GetListElemByIndex_loop h ListHead ListIndex nxt (index + 1)
        }
      })"

definition GetListElemByIndex :: "lheap \<Rightarrow> ptr \<Rightarrow> DWORD \<Rightarrow> ptr option" where
  "GetListElemByIndex h ListHead ListIndex =
     (if NULL = ListHead then Some NULL
      else do {
        v \<leftarrow> ValidateListEntry h ListHead; ASSERT v;
        first \<leftarrow> rd_Flink h ListHead;
        GetListElemByIndex_loop h ListHead ListIndex first 0
      })"

abbreviation INVALID_LIST_SIZE :: DWORD where "INVALID_LIST_SIZE \<equiv> MAX_DWORD"

partial_function (option) ListSize_loop :: "lheap \<Rightarrow> ptr \<Rightarrow> ptr \<Rightarrow> DWORD \<Rightarrow> DWORD option" where
  "ListSize_loop h ListHead cur count =
     (if cur = ListHead then Some count
      else do {
        ASSERT (NULL \<noteq> cur);
        nxt \<leftarrow> rd_Flink h cur;
        ListSize_loop h ListHead nxt (count + 1)
      })"

definition ListSize :: "lheap \<Rightarrow> ptr \<Rightarrow> DWORD option" where
  "ListSize h ListHead =
     (if NULL = ListHead then Some INVALID_LIST_SIZE
      else do {
        v \<leftarrow> ValidateListEntry h ListHead; ASSERT v;
        first \<leftarrow> rd_Flink h ListHead;
        ListSize_loop h ListHead first 0
      })"

text \<open>
  The function executed for each element may change the memory and its context; a null function
  pointer is \<open>None\<close>.
\<close>

type_synonym 'c list_function = "ptr \<Rightarrow> lheap \<times> 'c \<Rightarrow> (STATUS \<times> lheap \<times> 'c) option"

partial_function (option) ForEachElementExecute_loop ::
  "ptr \<Rightarrow> 'c list_function \<Rightarrow> bool \<Rightarrow> ptr \<Rightarrow> STATUS \<Rightarrow> lheap \<times> 'c \<Rightarrow> (STATUS \<times> lheap \<times> 'c) option" where
  "ForEachElementExecute_loop ListHead Function AllMustSucceed cur status s =
     (if cur = ListHead then Some (status, s)
      else do {
        ASSERT (NULL \<noteq> cur);
        (status, s) \<leftarrow> Function cur s;
        if AllMustSucceed \<and> \<not> SUCCEEDED status then Some (status, s)
        else do {
          nxt \<leftarrow> rd_Flink (fst s) cur;
          ForEachElementExecute_loop ListHead Function AllMustSucceed nxt status s
        }
      })"

definition ForEachElementExecute ::
  "lheap \<times> 'c \<Rightarrow> ptr \<Rightarrow> 'c list_function option \<Rightarrow> bool \<Rightarrow> (STATUS \<times> lheap \<times> 'c) option" where
  "ForEachElementExecute s ListHead Function AllMustSucceed =
     (if NULL = ListHead then Some (STATUS_INVALID_PARAMETER1, s)
      else case Function of None \<Rightarrow> Some (STATUS_INVALID_PARAMETER2, s)
      | Some f \<Rightarrow> do {
          v \<leftarrow> ValidateListEntry (fst s) ListHead; ASSERT v;
          first \<leftarrow> rd_Flink (fst s) ListHead;
          ForEachElementExecute_loop ListHead f AllMustSucceed first STATUS_SUCCESS s
        })"

partial_function (option) ListSearchForElement_loop ::
  "lheap \<Rightarrow> ptr \<Rightarrow> ptr \<Rightarrow> bool \<Rightarrow> 'c compare \<Rightarrow> ptr \<Rightarrow> 'c \<Rightarrow> (ptr \<times> 'c) option" where
  "ListSearchForElement_loop h ListHead Element IsListOrdered cmp cur c =
     (if cur = ListHead then Some (NULL, c)
      else do {
        (cmpResult, c) \<leftarrow> cmp cur Element c;
        if cmpResult = 0 then Some (cur, c)
        else if IsListOrdered \<and> sint cmpResult > 0 then Some (NULL, c)
        else do {
          nxt \<leftarrow> rd_Flink h cur;
          ListSearchForElement_loop h ListHead Element IsListOrdered cmp nxt c
        }
      })"

definition ListSearchForElement ::
  "lheap \<Rightarrow> ptr \<Rightarrow> ptr \<Rightarrow> bool \<Rightarrow> 'c compare option \<Rightarrow> 'c \<Rightarrow> (ptr \<times> 'c) option" where
  "ListSearchForElement h ListHead Element IsListOrdered CompareFunction c =
     (if NULL = ListHead then Some (NULL, c)
      else if NULL = Element then Some (NULL, c)
      else case CompareFunction of None \<Rightarrow> Some (NULL, c)
      | Some cmp \<Rightarrow> do {
          v \<leftarrow> ValidateListEntry h ListHead; ASSERT v;
          first \<leftarrow> rd_Flink h ListHead;
          ListSearchForElement_loop h ListHead Element IsListOrdered cmp first c
        })"

record LIST_ITERATOR =
  ListHead :: ptr
  CurrentEntry :: ptr

definition ListIteratorInit :: "lheap \<Rightarrow> ptr \<Rightarrow> LIST_ITERATOR option" where
  "ListIteratorInit h List = do {
     ASSERT (List \<noteq> NULL);
     f \<leftarrow> rd_Flink h List;
     Some \<lparr>ListHead = List, CurrentEntry = f\<rparr>
   }"

definition ListIteratorNext :: "lheap \<Rightarrow> LIST_ITERATOR \<Rightarrow> (ptr \<times> LIST_ITERATOR) option" where
  "ListIteratorNext h it =
     (if CurrentEntry it \<noteq> ListHead it
      then do {
        f \<leftarrow> rd_Flink h (CurrentEntry it);
        Some (CurrentEntry it, it\<lparr>CurrentEntry := f\<rparr>)
      }
      else Some (NULL, it))"

section \<open>Abstraction: the sequence of entries behind a list head\<close>

definition link :: "lheap \<Rightarrow> ptr \<Rightarrow> ptr \<Rightarrow> bool" where
  "link h p q = (rd_Flink h p = Some q \<and> rd_Blink h q = Some p)"

fun lseg :: "lheap \<Rightarrow> ptr \<Rightarrow> ptr list \<Rightarrow> ptr \<Rightarrow> bool" where
  "lseg h p [] q = link h p q"
| "lseg h p (x # xs) q = (link h p x \<and> lseg h x xs q)"

definition is_list :: "lheap \<Rightarrow> ptr \<Rightarrow> ptr list \<Rightarrow> bool" where
  "is_list h head xs = (lseg h head xs head \<and> distinct (head # xs))"

lemma rd_Flink_eq_Some [heap_simps]:
  "rd_Flink h p = Some v \<longleftrightarrow> (\<exists>e. h p = Some e \<and> Flink e = v)"
  by (auto simp: rd_Flink_def)

lemma rd_Blink_eq_Some [heap_simps]:
  "rd_Blink h p = Some v \<longleftrightarrow> (\<exists>e. h p = Some e \<and> Blink e = v)"
  by (auto simp: rd_Blink_def)

lemma wr_Flink_Some: "p \<in> dom h \<Longrightarrow> wr_Flink h p v = Some (h(p \<mapsto> (the (h p))\<lparr>Flink := v\<rparr>))"
  by (auto simp: wr_Flink_def)

lemma wr_Blink_Some: "p \<in> dom h \<Longrightarrow> wr_Blink h p v = Some (h(p \<mapsto> (the (h p))\<lparr>Blink := v\<rparr>))"
  by (auto simp: wr_Blink_def)

lemma link_dom: "link h p q \<Longrightarrow> p \<in> dom h \<and> q \<in> dom h"
  by (auto simp: link_def heap_simps)

lemma lseg_append: "lseg h p (xs @ x # ys) q \<longleftrightarrow> lseg h p xs x \<and> lseg h x ys q"
  by (induction xs arbitrary: p) auto

lemma lseg_dom: "lseg h p xs q \<Longrightarrow> set (p # q # xs) \<subseteq> dom h"
  by (induction xs arbitrary: p) (auto dest: link_dom)

lemma lseg_frame:
  "lseg h p xs q \<Longrightarrow> (\<And>a. a = p \<or> a \<in> set xs \<Longrightarrow> rd_Flink h' a = rd_Flink h a) \<Longrightarrow>
   (\<And>a. a = q \<or> a \<in> set xs \<Longrightarrow> rd_Blink h' a = rd_Blink h a) \<Longrightarrow> lseg h' p xs q"
  by (induction xs arbitrary: p) (auto simp: link_def)

lemma lseg_first: "lseg h p xs q \<Longrightarrow> rd_Flink h p = Some (hd (xs @ [q]))"
  by (cases xs) (auto simp: link_def)

lemma lseg_last: "lseg h p xs q \<Longrightarrow> rd_Blink h q = Some (last (p # xs))"
  by (induction xs arbitrary: p) (auto simp: link_def)

lemma is_list_dom: "is_list h head xs \<Longrightarrow> set (head # xs) \<subseteq> dom h"
  using lseg_dom [of h head xs head] by (auto simp: is_list_def)

lemma is_list_frame:
  "is_list h head xs \<Longrightarrow> (\<And>a. a \<in> set (head # xs) \<Longrightarrow> h' a = h a) \<Longrightarrow> is_list h' head xs"
  using lseg_frame [of h head xs head h'] by (auto simp: is_list_def rd_Flink_def rd_Blink_def)

text \<open>A circular list may be looked at from any of its entries.\<close>

lemma is_list_rotate: "is_list h head (xs @ p # ys) \<longleftrightarrow> is_list h p (ys @ head # xs)"
  by (auto simp: is_list_def lseg_append)

lemma is_list_valid: "is_list h head xs \<Longrightarrow> ValidateListEntry h head = Some True"
proof -
  assume l: "is_list h head xs"
  then have f: "rd_Flink h head = Some (hd (xs @ [head]))"
    and b: "rd_Blink h head = Some (last (head # xs))"
    using lseg_first lseg_last by (auto simp: is_list_def)
  have fb: "rd_Blink h (hd (xs @ [head])) = Some head"
    using l by (cases xs) (auto simp: is_list_def link_def)
  have bf: "rd_Flink h (last (head # xs)) = Some head"
    using l by (cases xs rule: rev_cases) (auto simp: is_list_def lseg_append link_def)
  show ?thesis
    using f b fb bf by (simp add: ValidateListEntry_def)
qed

lemma is_list_Flink: "is_list h head xs \<Longrightarrow> rd_Flink h head = Some (hd (xs @ [head]))"
  by (auto simp: is_list_def dest: lseg_first)

lemma is_list_Blink: "is_list h head xs \<Longrightarrow> rd_Blink h head = Some (last (head # xs))"
  by (auto simp: is_list_def dest: lseg_last)

lemma is_list_valid_any:
  assumes "is_list h head xs" and "p \<in> set (head # xs)"
  shows "ValidateListEntry h p = Some True"
proof (cases "p = head")
  case False
  with assms obtain us vs where "xs = us @ p # vs"
    by (auto dest: split_list)
  with assms(1) show ?thesis
    by (metis is_list_rotate is_list_valid)
qed (use assms is_list_valid in auto)

section \<open>Initialisation, insertion and removal\<close>

text \<open>
  What a heap operation leaves alone: the same addresses are mapped, and an entry outside of \<open>A\<close>
  keeps its contents.
\<close>

definition only_changes :: "ptr set \<Rightarrow> lheap \<Rightarrow> lheap \<Rightarrow> bool" where
  "only_changes A h h' = (dom h' = dom h \<and> (\<forall>a. a \<notin> A \<longrightarrow> h' a = h a))"

lemma only_changes_trans:
  "only_changes A h h' \<Longrightarrow> only_changes B h' h'' \<Longrightarrow> only_changes (A \<union> B) h h''"
  by (simp add: only_changes_def)

lemma only_changes_mono: "only_changes A h h' \<Longrightarrow> A \<subseteq> B \<Longrightarrow> only_changes B h h'"
  by (auto simp: only_changes_def)

lemma only_changes_is_list:
  "only_changes A h h' \<Longrightarrow> is_list h head xs \<Longrightarrow> A \<inter> set (head # xs) = {} \<Longrightarrow> is_list h' head xs"
  by (erule is_list_frame) (auto simp: only_changes_def)

lemma InitializeListHead_ok:
  assumes "head \<in> dom h"
  shows "\<exists>h'. InitializeListHead h head = Some h' \<and> is_list h' head [] \<and> only_changes {head} h h'"
  using assms
  by (auto simp: InitializeListHead_def wr_Flink_def wr_Blink_def is_list_def link_def
      rd_Flink_def rd_Blink_def only_changes_def)

text \<open>Inserting before an entry \<open>p\<close> of the list; \<open>p = head\<close> is insertion at the tail.\<close>

lemma InsertTailList_ok:
  assumes l: "is_list h head xs" and e: "e \<in> dom h" "e \<notin> set (head # xs)"
  shows "\<exists>h'. InsertTailList h head e = Some h' \<and> is_list h' head (xs @ [e])
     \<and> only_changes (set (e # head # xs)) h h'"
proof (cases xs rule: rev_cases)
  case Nil
  then show ?thesis
    using l e is_list_valid [OF l]
    by (auto simp: InsertTailList_def is_list_def link_def wr_Flink_def wr_Blink_def
        rd_Flink_def rd_Blink_def only_changes_def)
next
  case (snoc ys b)
  have v: "ValidateListEntry h head = Some True" and bl: "rd_Blink h head = Some b"
    using l is_list_valid is_list_Blink by (auto simp: snoc)
  from l have seg: "lseg h head ys b" and lk: "link h b head" and d: "distinct (head # b # ys)"
    by (auto simp: is_list_def snoc lseg_append)
  from lk obtain eb eh ee where m: "h b = Some eb" "h head = Some eh" "h e = Some ee"
    using e by (auto dest: link_dom)
  define h' where "h' = h(e \<mapsto> ee\<lparr>Flink := head, Blink := b\<rparr>,
    b \<mapsto> eb\<lparr>Flink := e\<rparr>, head \<mapsto> eh\<lparr>Blink := e\<rparr>)"
  have ne: "e \<noteq> b" "e \<noteq> head" "b \<noteq> head" "e \<notin> set ys" using e d snoc by auto
  have "InsertTailList h head e = Some h'"
    using m ne v bl by (simp add: InsertTailList_def wr_Flink_def wr_Blink_def h'_def)
  moreover have "lseg h' head ys b"
    by (rule lseg_frame [OF seg]) (use d ne m in \<open>auto simp: h'_def rd_Flink_def rd_Blink_def\<close>)
  moreover have "link h' b e" "link h' e head"
    using ne by (auto simp: h'_def link_def rd_Flink_def rd_Blink_def)
  moreover have "only_changes (set (e # head # xs)) h h'"
    using m snoc by (auto simp: only_changes_def h'_def)
  ultimately show ?thesis
    using d ne e by (auto simp: is_list_def snoc lseg_append)
qed

lemma InsertTailList_before:
  assumes "is_list h head (xs @ p # ys)" and "e \<in> dom h" "e \<notin> set (head # xs @ p # ys)"
  shows "\<exists>h'. InsertTailList h p e = Some h' \<and> is_list h' head (xs @ e # p # ys)
     \<and> only_changes (set (e # head # xs @ p # ys)) h h'"
proof -
  from assms have "is_list h p (ys @ head # xs)"
    by (simp add: is_list_rotate)
  from InsertTailList_ok [OF this, of e] assms obtain h'
    where h': "InsertTailList h p e = Some h'" "is_list h' p ((ys @ head # xs) @ [e])"
      and c: "only_changes (set (e # p # ys @ head # xs)) h h'"
    by auto
  from h'(2) have "is_list h' head (xs @ e # p # ys)"
    using is_list_rotate [of h' head "xs @ [e]" p ys] by simp
  moreover have "only_changes (set (e # head # xs @ p # ys)) h h'"
    using c by (rule only_changes_mono) auto
  ultimately show ?thesis
    using h'(1) by auto
qed

text \<open>\<open>InsertHeadList\<close> after \<open>p\<close> performs the writes of \<open>InsertTailList\<close> before the successor of \<open>p\<close>.\<close>

lemma InsertHeadList_eq:
  assumes "ValidateListEntry h p = Some True" "ValidateListEntry h f = Some True" "link h p f"
    and "e \<noteq> p" "e \<noteq> f" "e \<in> dom h"
  shows "InsertHeadList h p e = InsertTailList h f e"
proof -
  from assms obtain ep ef ee where "h p = Some ep" "h f = Some ef" "h e = Some ee"
    and "Flink ep = f" "Blink ef = p"
    by (auto simp: link_def heap_simps)
  then show ?thesis
    using assms by (cases "p = f")
      (auto simp: InsertHeadList_def InsertTailList_def wr_Flink_def wr_Blink_def
        rd_Flink_def rd_Blink_def fun_upd_twist)
qed

lemma is_list_succ:
  assumes "is_list h head (xs @ ys)"
  shows "link h (last (head # xs)) (hd (ys @ [head]))"
  using assms
  by (cases xs rule: rev_cases; cases ys) (auto simp: is_list_def lseg_append)

lemma InsertHeadList_after:
  assumes l: "is_list h head (xs @ ys)" and e: "e \<in> dom h" "e \<notin> set (head # xs @ ys)"
  shows "\<exists>h'. InsertHeadList h (last (head # xs)) e = Some h' \<and> is_list h' head (xs @ e # ys)
     \<and> only_changes (set (e # head # xs @ ys)) h h'"
proof -
  let ?p = "last (head # xs)" and ?f = "hd (ys @ [head])"
  have in_l: "?p \<in> set (head # xs @ ys)" "?f \<in> set (head # xs @ ys)"
    using last_in_set [of "head # xs"] by (auto simp: hd_append)
  then have eq: "InsertHeadList h ?p e = InsertTailList h ?f e"
    by (intro InsertHeadList_eq is_list_valid_any [OF l] is_list_succ [OF l])
      (use e in auto)
  show ?thesis
  proof (cases ys)
    case Nil
    then show ?thesis
      using eq InsertTailList_ok [of h head xs e] l e by simp
  next
    case (Cons f zs)
    then show ?thesis
      using eq InsertTailList_before [of h head xs f zs e] l e by simp
  qed
qed

lemma lseg_bypass:
  assumes seg: "lseg h s xs p" "lseg h p ys t"
    and d: "distinct (p # xs @ ys)" "s \<notin> set (p # xs @ ys)" "t \<notin> set (p # xs @ ys)"
    and fl: "\<And>a. rd_Flink h' a = (if a = last (s # xs) then Some (hd (ys @ [t])) else rd_Flink h a)"
    and bl: "\<And>a. rd_Blink h' a = (if a = hd (ys @ [t]) then Some (last (s # xs)) else rd_Blink h a)"
  shows "lseg h' s (xs @ ys) t"
proof -
  have out: "last (s # xs) \<notin> set ys"
    using last_in_set [of "s # xs"] d by auto
  have left: "lseg h' s us b" if "xs = us @ [b]" for us b
    by (rule lseg_frame [of h]) (use that seg d fl bl in \<open>auto simp: lseg_append hd_append split: if_splits\<close>)
  have right: "lseg h' f vs t" if "ys = f # vs" for f vs
    by (rule lseg_frame [of h]) (use that seg d fl bl out in \<open>auto split: if_splits\<close>)
  have mid: "link h' (last (s # xs)) (hd (ys @ [t]))"
    by (simp add: link_def fl bl)
  show ?thesis
    using left right mid by (cases xs rule: rev_cases; cases ys) (auto simp: lseg_append)
qed

lemma RemoveEntryList_ok:
  assumes l: "is_list h head (xs @ p # ys)"
  shows "\<exists>h'. RemoveEntryList h p = Some (xs @ ys = [], h') \<and> is_list h' head (xs @ ys)
     \<and> only_changes (set (head # xs @ ys)) h h'"
proof -
  obtain b f where bf: "b = last (head # xs)" "f = hd (ys @ [head])" by blast
  from l have d: "distinct (head # xs @ p # ys)"
    and seg: "lseg h head xs p" "lseg h p ys head"
    by (auto simp: is_list_def lseg_append)
  have v: "ValidateListEntry h p = Some True" and fl: "rd_Flink h p = Some f"
    and bl: "rd_Blink h p = Some b"
    using is_list_valid_any [OF l] lseg_first [OF seg(2)] lseg_last [OF seg(1)] by (auto simp: bf)
  have in_l: "b \<in> set (head # xs)" "f \<in> set (head # ys)"
    using last_in_set [of "head # xs"] by (auto simp: bf hd_append)
  then have "b \<in> dom h" "f \<in> dom h"
    using is_list_dom [OF l] by auto
  then obtain eb ef where m: "h b = Some eb" "h f = Some ef"
    by blast
  define h1 where "h1 = h(b \<mapsto> eb\<lparr>Flink := f\<rparr>)"
  define h' where "h' = h1(f \<mapsto> (the (h1 f))\<lparr>Blink := b\<rparr>)"
  have "RemoveEntryList h p = Some (f = b, h')"
    using v fl bl m by (auto simp: RemoveEntryList_def wr_Flink_def wr_Blink_def h1_def h'_def)
  moreover have "f = b \<longleftrightarrow> xs @ ys = []"
    using d in_l bf by (cases xs rule: rev_cases; cases ys) auto
  moreover have "rd_Flink h' a = (if a = b then Some f else rd_Flink h a)"
    and "rd_Blink h' a = (if a = f then Some b else rd_Blink h a)" for a
    using m by (auto simp: h'_def h1_def rd_Flink_def rd_Blink_def)
  then have "lseg h' head (xs @ ys) head"
    by (intro lseg_bypass [OF seg]) (use d bf in simp_all)
  moreover have "only_changes (set (head # xs @ ys)) h h'"
    using m in_l by (auto simp: only_changes_def h'_def h1_def)
  ultimately show ?thesis
    using d by (simp add: is_list_def)
qed

lemma RemoveHeadList_empty:
  assumes "is_list h head []"
  shows "RemoveHeadList h head = Some (head, h)"
proof -
  from assms obtain e where "h head = Some e" "Flink e = head" "Blink e = head"
    by (auto simp: is_list_def link_def heap_simps)
  then show ?thesis
    using is_list_valid [OF assms]
    by (auto simp: RemoveHeadList_def wr_Flink_def wr_Blink_def rd_Flink_def)
qed

lemma RemoveTailList_empty:
  assumes "is_list h head []"
  shows "RemoveTailList h head = Some (head, h)"
proof -
  from assms obtain e where "h head = Some e" "Flink e = head" "Blink e = head"
    by (auto simp: is_list_def link_def heap_simps)
  then show ?thesis
    using is_list_valid [OF assms]
    by (auto simp: RemoveTailList_def wr_Flink_def wr_Blink_def rd_Blink_def)
qed

text \<open>Removing the first (last) entry writes what \<open>RemoveEntryList\<close> of that entry writes.\<close>

lemma RemoveHeadList_ok:
  assumes l: "is_list h head (x # xs)"
  shows "\<exists>h'. RemoveHeadList h head = Some (x, h') \<and> is_list h' head xs
     \<and> only_changes (set (head # xs)) h h'"
proof -
  from l have "rd_Flink h head = Some x" "rd_Blink h x = Some head"
    by (auto simp: is_list_def link_def)
  moreover have "ValidateListEntry h head = Some True" "ValidateListEntry h x = Some True"
    using is_list_valid_any [OF l] by auto
  ultimately have "RemoveHeadList h head = map_option (\<lambda>(_, h'). (x, h')) (RemoveEntryList h x)"
    by (auto simp: RemoveHeadList_def RemoveEntryList_def map_option_bind split: Option.bind_splits)
  with RemoveEntryList_ok [of h head "[]" x xs] l show ?thesis
    by auto
qed

lemma wr_Flink_Blink_commute:
  "(wr_Flink h p u \<bind> (\<lambda>h. wr_Blink h q v)) = (wr_Blink h q v \<bind> (\<lambda>h. wr_Flink h p u))"
  by (cases "p = q") (auto simp: wr_Flink_def wr_Blink_def fun_upd_twist split: option.splits)

lemma RemoveTailList_ok:
  assumes l: "is_list h head (xs @ [x])"
  shows "\<exists>h'. RemoveTailList h head = Some (x, h') \<and> is_list h' head xs
     \<and> only_changes (set (head # xs)) h h'"
proof -
  obtain b where b: "rd_Blink h x = Some b" and "rd_Blink h head = Some x" "rd_Flink h x = Some head"
    using l lseg_last [of h head xs x] by (auto simp: is_list_def link_def lseg_append)
  moreover have "ValidateListEntry h head = Some True" "ValidateListEntry h x = Some True"
    using is_list_valid_any [OF l] by auto
  ultimately have "RemoveTailList h head = map_option (\<lambda>(_, h'). (x, h')) (RemoveEntryList h x)"
    using wr_Flink_Blink_commute [of h b head head b]
    by (auto simp: RemoveTailList_def RemoveEntryList_def map_option_bind split: Option.bind_splits)
  with RemoveEntryList_ok [of h head xs x "[]"] l show ?thesis
    by auto
qed

section \<open>Traversals\<close>

text \<open>The pure traversals the loops are compared with.\<close>

fun search_list :: "bool \<Rightarrow> (ptr \<Rightarrow> 'c \<Rightarrow> (INT64 \<times> 'c) option) \<Rightarrow> ptr list \<Rightarrow> 'c \<Rightarrow> (ptr \<times> 'c) option" where
  "search_list ord g [] c = Some (NULL, c)"
| "search_list ord g (x # xs) c = do {
     (r, c) \<leftarrow> g x c;
     if r = 0 then Some (x, c)
     else if ord \<and> sint r > 0 then Some (NULL, c)
     else search_list ord g xs c
   }"

fun foreach_list :: "'c list_function \<Rightarrow> bool \<Rightarrow> ptr list \<Rightarrow> STATUS \<Rightarrow> lheap \<times> 'c \<Rightarrow> (STATUS \<times> lheap \<times> 'c) option" where
  "foreach_list f all [] st s = Some (st, s)"
| "foreach_list f all (x # xs) st s = do {
     (st, s) \<leftarrow> f x s;
     if all \<and> \<not> SUCCEEDED st then Some (st, s) else foreach_list f all xs st s
   }"

lemma ListSize_loop_lseg:
  assumes "lseg h p xs head" "head \<notin> set xs" "NULL \<notin> set xs"
  shows "ListSize_loop h head (hd (xs @ [head])) n = Some (n + of_nat (length xs))"
  using assms
proof (induction xs arbitrary: p n)
  case Nil
  then show ?case by (simp add: ListSize_loop.simps)
next
  case (Cons x xs)
  then have "rd_Flink h x = Some (hd (xs @ [head]))"
    using lseg_first by auto
  with Cons show ?case
    by (auto simp: ListSize_loop.simps [of h head x] ac_simps)
qed

lemma GetListElemByIndex_loop_lseg:
  assumes "lseg h p xs head" "head \<notin> set xs" "NULL \<notin> set xs"
  shows "GetListElemByIndex_loop h head i (hd (xs @ [head])) n =
    Some (if unat (i - n) < length xs then xs ! unat (i - n) else NULL)"
  using assms
proof (induction xs arbitrary: p n)
  case Nil
  then show ?case by (simp add: GetListElemByIndex_loop.simps)
next
  case (Cons x xs)
  then have f: "rd_Flink h x = Some (hd (xs @ [head]))"
    using lseg_first by auto
  show ?case
  proof (cases "i = n")
    case True
    with Cons show ?thesis by (auto simp: GetListElemByIndex_loop.simps [of h head n x])
  next
    case False
    then have "unat (i - n) = Suc (unat (i - (n + 1)))"
      by (simp add: unat_minus_one diff_diff_eq [symmetric] unat_gt_0)
    with False Cons f show ?thesis
      by (auto simp: GetListElemByIndex_loop.simps [of h head i x])
  qed
qed

lemma ListSearchForElement_loop_lseg:
  assumes "lseg h p xs head" "head \<notin> set xs"
  shows "ListSearchForElement_loop h head el ord cmp (hd (xs @ [head])) c =
    search_list ord (\<lambda>x. cmp x el) xs c"
  using assms
proof (induction xs arbitrary: p c)
  case Nil
  then show ?case by (simp add: ListSearchForElement_loop.simps)
next
  case (Cons x xs)
  then have "rd_Flink h x = Some (hd (xs @ [head]))"
    using lseg_first by auto
  with Cons show ?case
    by (cases "cmp x el c") (auto simp: ListSearchForElement_loop.simps [of h head el ord cmp x])
qed

lemma InsertOrderedList_loop_lseg:
  assumes "lseg h p xs head" "head \<notin> set xs"
    and "\<And>x. x \<in> set xs \<Longrightarrow> cmp e x c = Some (r x, c)"
  shows "InsertOrderedList_loop h head e cmp (hd (xs @ [head])) c =
    Some (hd (dropWhile (\<lambda>x. \<not> sint (r x) < 0) xs @ [head]), c)"
  using assms
proof (induction xs arbitrary: p)
  case Nil
  then show ?case by (simp add: InsertOrderedList_loop.simps)
next
  case (Cons x xs)
  then have "rd_Flink h x = Some (hd (xs @ [head]))"
    using lseg_first by auto
  with Cons show ?case
    by (auto simp: InsertOrderedList_loop.simps [of h head e cmp x])
qed

lemma ForEachElementExecute_loop_lseg:
  assumes "is_list (fst s) head (ys @ xs)" "NULL \<notin> set xs"
    and "\<And>x s st s'. f x s = Some (st, s') \<Longrightarrow> is_list (fst s) head (ys @ xs) \<Longrightarrow>
      is_list (fst s') head (ys @ xs)"
  shows "ForEachElementExecute_loop head f all (hd (xs @ [head])) st s = foreach_list f all xs st s"
  using assms
proof (induction xs arbitrary: ys st s)
  case Nil
  then show ?case by (simp add: ForEachElementExecute_loop.simps)
next
  case (Cons x xs)
  have ne: "x \<noteq> head" using Cons.prems(1) by (auto simp: is_list_def)
  show ?case
  proof (cases "f x s")
    case None
    with Cons.prems(2) ne show ?thesis
      by (simp add: ForEachElementExecute_loop.simps [of head f all x])
  next
    case (Some r)
    obtain st' s' where r: "r = (st', s')" by (cases r)
    with Some Cons.prems have l: "is_list (fst s') head (ys @ x # xs)" by blast
    then have "rd_Flink (fst s') x = Some (hd (xs @ [head]))"
      using lseg_first by (fastforce simp: is_list_def lseg_append)
    moreover have "ForEachElementExecute_loop head f all (hd (xs @ [head])) st' s' =
        foreach_list f all xs st' s'"
      by (rule Cons.IH [of s' "ys @ [x]"]) (use l Cons.prems in auto)
    ultimately show ?thesis
      using Some r ne Cons.prems(2) by (simp add: ForEachElementExecute_loop.simps [of head f all x])
  qed
qed

lemma is_list_lseg: "is_list h head xs \<Longrightarrow> lseg h head xs head \<and> head \<notin> set xs"
  by (simp add: is_list_def)

lemma ListSize_ok:
  assumes "is_list h head xs" "NULL \<notin> set (head # xs)"
  shows "ListSize h head = Some (of_nat (length xs))"
  using assms is_list_lseg [OF assms(1)]
  by (auto simp: ListSize_def is_list_valid is_list_Flink ListSize_loop_lseg)

lemma GetListElemByIndex_ok:
  assumes "is_list h head xs" "NULL \<notin> set (head # xs)"
  shows "GetListElemByIndex h head i = Some (if unat i < length xs then xs ! unat i else NULL)"
  using assms is_list_lseg [OF assms(1)]
  by (auto simp: GetListElemByIndex_def is_list_valid is_list_Flink GetListElemByIndex_loop_lseg)

lemma ListSearchForElement_ok:
  assumes "is_list h head xs" "NULL \<noteq> head" "NULL \<noteq> el"
  shows "ListSearchForElement h head el ord (Some cmp) c = search_list ord (\<lambda>x. cmp x el) xs c"
  using assms is_list_lseg [OF assms(1)]
  by (auto simp: ListSearchForElement_def is_list_valid is_list_Flink ListSearchForElement_loop_lseg)

lemma ForEachElementExecute_ok:
  assumes "is_list (fst s) head xs" "NULL \<notin> set (head # xs)"
    and "\<And>x s st s'. f x s = Some (st, s') \<Longrightarrow> is_list (fst s) head xs \<Longrightarrow> is_list (fst s') head xs"
  shows "ForEachElementExecute s head (Some f) all = foreach_list f all xs STATUS_SUCCESS s"
  using assms ForEachElementExecute_loop_lseg [of s head "[]" xs f all]
  by (auto simp: ForEachElementExecute_def is_list_valid is_list_Flink)

text \<open>
  \<open>InsertOrderedList\<close> with a comparison that has no effect on its context: the new entry goes in
  front of the first entry it is smaller than.
\<close>

lemma InsertOrderedList_ok:
  assumes l: "is_list h head xs" and e: "e \<in> dom h" "e \<notin> set (head # xs)"
    and cmp: "\<And>x. x \<in> set xs \<Longrightarrow> cmp e x c = Some (r x, c)"
  shows "\<exists>h'. InsertOrderedList h head e cmp c = Some (h', c)
    \<and> is_list h' head (takeWhile (\<lambda>x. \<not> sint (r x) < 0) xs @ e # dropWhile (\<lambda>x. \<not> sint (r x) < 0) xs)
    \<and> only_changes (set (e # head # xs)) h h'"
proof -
  define us vs where uv: "us = takeWhile (\<lambda>x. \<not> sint (r x) < 0) xs" "vs = dropWhile (\<lambda>x. \<not> sint (r x) < 0) xs"
  have xs: "xs = us @ vs" by (simp add: uv)
  have loop: "InsertOrderedList_loop h head e cmp (hd (xs @ [head])) c = Some (hd (vs @ [head]), c)"
    unfolding uv using is_list_lseg [OF l] cmp by (intro InsertOrderedList_loop_lseg) auto
  have "\<exists>h'. InsertTailList h (hd (vs @ [head])) e = Some h' \<and> is_list h' head (us @ e # vs)
    \<and> only_changes (set (e # head # xs)) h h'"
    using InsertTailList_ok [of h head us e] InsertTailList_before [of h head us "hd vs" "tl vs" e] l e
    by (cases vs) (auto simp: xs)
  with loop show ?thesis
    using l by (auto simp: InsertOrderedList_def is_list_valid is_list_Flink uv)
qed

lemma sorted_insert_point:
  fixes key :: "ptr \<Rightarrow> 'k::linorder"
  assumes "sorted (map key xs)"
  shows "sorted (map key (takeWhile (\<lambda>x. key x \<le> key e) xs @ e # dropWhile (\<lambda>x. key x \<le> key e) xs))"
proof -
  have "key e \<le> key y" if "y \<in> set (dropWhile (\<lambda>x. key x \<le> key e) xs)" for y
    using assms that by (induction xs) (auto split: if_splits intro: order_trans)
  moreover have "key x \<le> key e" if "x \<in> set (takeWhile (\<lambda>x. key x \<le> key e) xs)" for x
    using that set_takeWhileD by metis
  moreover have "sorted (map key (takeWhile (\<lambda>x. key x \<le> key e) xs))"
    "sorted (map key (dropWhile (\<lambda>x. key x \<le> key e) xs))"
    using assms sorted_append takeWhile_dropWhile_id [of _ xs] by (metis map_append)+
  ultimately show ?thesis
    by (force simp: sorted_append)
qed

section \<open>Iterators\<close>

definition iter_rest :: "LIST_ITERATOR \<Rightarrow> ptr \<Rightarrow> ptr list \<Rightarrow> bool" where
  "iter_rest it head zs = (ListHead it = head \<and> CurrentEntry it = hd (zs @ [head]))"

lemma ListIteratorInit_ok:
  assumes "is_list h head xs" "head \<noteq> NULL"
  shows "\<exists>it. ListIteratorInit h head = Some it \<and> iter_rest it head xs"
  using assms by (auto simp: ListIteratorInit_def iter_rest_def is_list_Flink)

lemma ListIteratorNext_end: "iter_rest it head [] \<Longrightarrow> ListIteratorNext h it = Some (NULL, it)"
  by (simp add: ListIteratorNext_def iter_rest_def)

lemma ListIteratorNext_Cons:
  assumes "is_list h head (ys @ z # zs)" "iter_rest it head (z # zs)"
  shows "\<exists>it'. ListIteratorNext h it = Some (z, it') \<and> iter_rest it' head zs"
proof -
  from assms(1) have "rd_Flink h z = Some (hd (zs @ [head]))" "z \<noteq> head"
    using lseg_first by (auto simp: is_list_def lseg_append)
  with assms(2) show ?thesis
    by (auto simp: ListIteratorNext_def iter_rest_def)
qed

text \<open>
  The idiom that the header \<open>list.h\<close> documents: walk over the list with an iterator and remove the
  entries that satisfy a condition.
\<close>

partial_function (option) remove_matching :: "(ptr \<Rightarrow> bool) \<Rightarrow> lheap \<Rightarrow> LIST_ITERATOR \<Rightarrow> lheap option" where
  "remove_matching P h it = do {
     (e, it) \<leftarrow> ListIteratorNext h it;
     if e = NULL then Some h
     else if P e then do {
       (_, h) \<leftarrow> RemoveEntryList h e;
       remove_matching P h it
     }
     else remove_matching P h it
   }"

lemma remove_matching_ok:
  assumes "is_list h head (ys @ zs)" "iter_rest it head zs" "NULL \<notin> set zs"
  shows "\<exists>h'. remove_matching P h it = Some h' \<and> is_list h' head (ys @ filter (\<lambda>z. \<not> P z) zs)"
  using assms
proof (induction zs arbitrary: h ys it)
  case Nil
  then show ?case
    by (subst remove_matching.simps) (simp add: ListIteratorNext_end)
next
  case (Cons z zs)
  then obtain it' where it': "ListIteratorNext h it = Some (z, it')" "iter_rest it' head zs"
    using ListIteratorNext_Cons by blast
  show ?case
  proof (cases "P z")
    case True
    from RemoveEntryList_ok [OF Cons.prems(1)] obtain b h1
      where "RemoveEntryList h z = Some (b, h1)" "is_list h1 head (ys @ zs)"
      by blast
    moreover from Cons.IH [OF this(2) it'(2)] Cons.prems(3) obtain h'
      where "remove_matching P h1 it' = Some h'" "is_list h' head (ys @ filter (\<lambda>z. \<not> P z) zs)"
      by auto
    ultimately show ?thesis
      using it'(1) True Cons.prems(3) by (subst remove_matching.simps) auto
  next
    case False
    from Cons.IH [of h "ys @ [z]" it'] Cons.prems it' obtain h'
      where "remove_matching P h it' = Some h'" "is_list h' head (ys @ z # filter (\<lambda>z. \<not> P z) zs)"
      by auto
    then show ?thesis
      using it'(1) False Cons.prems(3) by (subst remove_matching.simps) auto
  qed
qed

section \<open>The queue interface\<close>

text \<open>
  The ready list of the scheduler and the waiting lists of mutexes and events use a list head as a
  queue: entries go in with \<open>InsertTailList\<close> and come out with \<open>RemoveHeadList\<close>, which returns the
  list head itself when the list is empty. The locale states the laws the clients rely on.
\<close>

fun enq_all :: "('h \<Rightarrow> 'p \<Rightarrow> 'p \<Rightarrow> 'h option) \<Rightarrow> 'h \<Rightarrow> 'p \<Rightarrow> 'p list \<Rightarrow> 'h option" where
  "enq_all enq h q [] = Some h"
| "enq_all enq h q (x # xs) = do { h \<leftarrow> enq h q x; enq_all enq h q xs }"

fun deq_all :: "('h \<Rightarrow> 'p \<Rightarrow> ('p \<times> 'h) option) \<Rightarrow> nat \<Rightarrow> 'h \<Rightarrow> 'p \<Rightarrow> ('p list \<times> 'h) option" where
  "deq_all deq 0 h q = Some ([], h)"
| "deq_all deq (Suc n) h q = do {
     (x, h) \<leftarrow> deq h q;
     (xs, h) \<leftarrow> deq_all deq n h q;
     Some (x # xs, h)
   }"

locale fifo =
  fixes abs :: "'h \<Rightarrow> 'p \<Rightarrow> 'p list \<Rightarrow> bool"
    and mapped :: "'h \<Rightarrow> 'p set"
    and enq :: "'h \<Rightarrow> 'p \<Rightarrow> 'p \<Rightarrow> 'h option"
    and deq :: "'h \<Rightarrow> 'p \<Rightarrow> ('p \<times> 'h) option"
  assumes enq_law: "abs h q xs \<Longrightarrow> e \<in> mapped h \<Longrightarrow> e \<notin> set (q # xs) \<Longrightarrow>
      \<exists>h'. enq h q e = Some h' \<and> abs h' q (xs @ [e]) \<and> mapped h' = mapped h"
    and deq_law: "abs h q (x # xs) \<Longrightarrow> \<exists>h'. deq h q = Some (x, h') \<and> abs h' q xs \<and> mapped h' = mapped h"
    and deq_empty: "abs h q [] \<Longrightarrow> deq h q = Some (q, h)"
begin

lemma enq_all_ok:
  assumes "abs h q xs" "set es \<subseteq> mapped h" "distinct es" "set es \<inter> set (q # xs) = {}"
  shows "\<exists>h'. enq_all enq h q es = Some h' \<and> abs h' q (xs @ es) \<and> mapped h' = mapped h"
  using assms
proof (induction es arbitrary: h xs)
  case (Cons e es)
  then obtain h1 where h1: "enq h q e = Some h1" "abs h1 q (xs @ [e])" "mapped h1 = mapped h"
    using enq_law [of h q xs e] by auto
  with Cons.IH [of h1 "xs @ [e]"] Cons.prems show ?case by auto
qed simp

lemma deq_all_ok:
  assumes "abs h q (xs @ ys)"
  shows "\<exists>h'. deq_all deq (length xs) h q = Some (xs, h') \<and> abs h' q ys \<and> mapped h' = mapped h"
  using assms
proof (induction xs arbitrary: h)
  case (Cons x xs)
  then obtain h1 where "deq h q = Some (x, h1)" "abs h1 q (xs @ ys)" "mapped h1 = mapped h"
    using deq_law [of h q x "xs @ ys"] by auto
  with Cons.IH [of h1] show ?case by auto
qed simp

lemma fifo_order:
  assumes "abs h q []" "set es \<subseteq> mapped h" "distinct es" "q \<notin> set es"
  shows "\<exists>h1 h2. enq_all enq h q es = Some h1 \<and> deq_all deq (length es) h1 q = Some (es, h2)
    \<and> deq h2 q = Some (q, h2)"
proof -
  from enq_all_ok [OF assms(1-3)] assms(4) obtain h1
    where h1: "enq_all enq h q es = Some h1" "abs h1 q es" by auto
  from deq_all_ok [of h1 q es "[]"] h1(2) obtain h2
    where "deq_all deq (length es) h1 q = Some (es, h2)" "abs h2 q []" by auto
  with h1(1) show ?thesis by (auto simp: deq_empty)
qed

end

interpretation list_queue: fifo is_list dom InsertTailList RemoveHeadList
proof
  fix h q xs e
  assume "is_list h q xs" "e \<in> dom h" "e \<notin> set (q # xs)"
  then show "\<exists>h'. InsertTailList h q e = Some h' \<and> is_list h' q (xs @ [e]) \<and> dom h' = dom h"
    using InsertTailList_ok by (fastforce simp: only_changes_def)
next
  fix h q x xs
  assume "is_list h q (x # xs)"
  then show "\<exists>h'. RemoveHeadList h q = Some (x, h') \<and> is_list h' q xs \<and> dom h' = dom h"
    using RemoveHeadList_ok by (fastforce simp: only_changes_def)
qed (rule RemoveHeadList_empty)

section \<open>Properties\<close>

text \<open>A concrete memory for the witnesses: a list of two entries and a third entry not yet linked.\<close>

definition ex_lheap :: lheap where
  "ex_lheap = [0x100 \<mapsto> \<lparr>Flink = 0x110, Blink = 0x120\<rparr>, 0x110 \<mapsto> \<lparr>Flink = 0x120, Blink = 0x100\<rparr>,
     0x120 \<mapsto> \<lparr>Flink = 0x100, Blink = 0x110\<rparr>, 0x130 \<mapsto> \<lparr>Flink = 0, Blink = 0\<rparr>]"

lemma ex_lheap_list:
  "is_list ex_lheap 0x100 [0x110, 0x120]" "0x130 \<in> dom ex_lheap" "0x130 \<notin> set [0x100, 0x110, 0x120 :: ptr]"
  by (auto simp: ex_lheap_def is_list_def link_def rd_Flink_def rd_Blink_def)

text \<open>
  C1: \<open>InsertTailList\<close> appends and \<open>InsertHeadList\<close> prepends a mapped entry that is not yet in the
  list: both return (no validation fails, no unmapped address is touched), the list keeps its links
  in both directions, and no entry outside of the list is written.
\<close>

theorem insert_list_spec:
  assumes "is_list h head xs" and "e \<in> dom h" and "e \<notin> set (head # xs)"
  shows "(\<exists>h'. InsertTailList h head e = Some h' \<and> is_list h' head (xs @ [e])
       \<and> only_changes (set (e # head # xs)) h h')
    \<and> (\<exists>h'. InsertHeadList h head e = Some h' \<and> is_list h' head (e # xs)
       \<and> only_changes (set (e # head # xs)) h h')"
  using InsertTailList_ok [OF assms] InsertHeadList_after [of h head "[]" xs e] assms by simp

theorem insert_list_spec_witness:
  "is_list ex_lheap 0x100 [0x110, 0x120]
   \<and> (\<exists>h'. InsertTailList ex_lheap 0x100 0x130 = Some h' \<and> is_list h' 0x100 [0x110, 0x120, 0x130])
   \<and> (\<exists>h'. InsertHeadList ex_lheap 0x100 0x130 = Some h' \<and> is_list h' 0x100 [0x130, 0x110, 0x120])"
  using insert_list_spec [OF ex_lheap_list(1,2)] ex_lheap_list by fastforce

text \<open>
  C2: \<open>RemoveEntryList\<close> unlinks exactly the given entry and reports whether the list became empty;
  \<open>RemoveHeadList\<close> and \<open>RemoveTailList\<close> return and unlink the first and the last entry.
\<close>

theorem remove_list_spec:
  assumes "is_list h head (xs @ p # ys)"
  shows "(\<exists>h'. RemoveEntryList h p = Some (xs @ ys = [], h') \<and> is_list h' head (xs @ ys)
       \<and> only_changes (set (head # xs @ ys)) h h')
    \<and> (\<exists>h'. RemoveHeadList h head = Some (hd (xs @ [p]), h') \<and> is_list h' head (tl (xs @ p # ys)))
    \<and> (\<exists>h'. RemoveTailList h head = Some (last (p # ys), h') \<and> is_list h' head (butlast (xs @ p # ys)))"
proof (intro conjI)
  show "\<exists>h'. RemoveHeadList h head = Some (hd (xs @ [p]), h') \<and> is_list h' head (tl (xs @ p # ys))"
    using assms RemoveHeadList_ok by (cases xs) fastforce+
  have "xs @ p # ys = butlast (xs @ p # ys) @ [last (p # ys)]"
    by (simp add: butlast_append)
  then show "\<exists>h'. RemoveTailList h head = Some (last (p # ys), h') \<and> is_list h' head (butlast (xs @ p # ys))"
    using assms RemoveTailList_ok by metis
qed (rule RemoveEntryList_ok [OF assms])

theorem remove_list_spec_witness:
  "is_list ex_lheap 0x100 ([0x110] @ 0x120 # [])
   \<and> (\<exists>h'. RemoveEntryList ex_lheap 0x120 = Some (False, h') \<and> is_list h' 0x100 [0x110])"
  using remove_list_spec [of ex_lheap "0x100" "[0x110]" "0x120" "[]"] ex_lheap_list(1) by fastforce

text \<open>
  \<open>InsertOrderedList\<close> with a comparison that agrees with a linear key keeps a sorted list
  sorted, and is stable: the new entry goes behind the entries with an equal key.
\<close>

theorem insert_ordered_sorted:
  fixes key :: "ptr \<Rightarrow> 'k::linorder"
  assumes "is_list h head xs" and "e \<in> dom h" and "e \<notin> set (head # xs)" and "sorted (map key xs)"
    and "\<And>x. x \<in> set xs \<Longrightarrow> cmp e x c = Some (r x, c) \<and> (sint (r x) < 0 \<longleftrightarrow> key e < key x)"
  shows "\<exists>h' us vs. InsertOrderedList h head e cmp c = Some (h', c) \<and> is_list h' head (us @ e # vs)
    \<and> xs = us @ vs \<and> sorted (map key (us @ e # vs)) \<and> (\<forall>v \<in> set vs. key e < key v)
    \<and> only_changes (set (e # head # xs)) h h'"
proof -
  let ?P = "\<lambda>x. key x \<le> key e"
  have cmp: "\<And>x. x \<in> set xs \<Longrightarrow> cmp e x c = Some (r x, c)"
    and P: "\<And>x. x \<in> set xs \<Longrightarrow> (\<not> sint (r x) < 0) = ?P x"
    using assms(5) by (auto simp: not_less)
  have w: "takeWhile (\<lambda>x. \<not> sint (r x) < 0) xs = takeWhile ?P xs"
      "dropWhile (\<lambda>x. \<not> sint (r x) < 0) xs = dropWhile ?P xs"
    using P by (auto intro!: takeWhile_cong dropWhile_cong)
  have "\<forall>v \<in> set (dropWhile ?P xs). key e < key v"
    using assms(4) by (induction xs) (auto simp: not_le split: if_splits intro: less_le_trans)
  moreover obtain h' where "InsertOrderedList h head e cmp c = Some (h', c)"
      "is_list h' head (takeWhile ?P xs @ e # dropWhile ?P xs)" "only_changes (set (e # head # xs)) h h'"
    using InsertOrderedList_ok [of h head xs e cmp c r, OF assms(1-3) cmp] by (auto simp: w)
  ultimately show ?thesis
    using sorted_insert_point [OF assms(4), of e]
    by (intro exI [of _ h'] exI [of _ "takeWhile ?P xs"] exI [of _ "dropWhile ?P xs"]) simp
qed

theorem insert_ordered_sorted_witness:
  "\<exists>h' us vs. InsertOrderedList ex_lheap 0x100 0x130 (\<lambda>a b c. Some (a - b, c)) () = Some (h', ())
    \<and> is_list h' 0x100 (us @ 0x130 # vs) \<and> [0x110, 0x120] = us @ vs \<and> sorted (map sint (us @ 0x130 # vs))"
  using insert_ordered_sorted [OF ex_lheap_list, where key = sint and r = "\<lambda>x. 0x130 - x" and c = "()"
      and cmp = "\<lambda>a b c. Some (a - b, c)"] by fastforce

text \<open>
  \<open>ListSize\<close> returns the number of entries (modulo the width of DWORD), and
  \<open>GetListElemByIndex\<close> the entry at a position, or NULL when the list is shorter; both loops end.
\<close>

theorem list_size_and_index:
  assumes "is_list h head xs" and "NULL \<notin> set (head # xs)"
  shows "ListSize h head = Some (of_nat (length xs))
    \<and> GetListElemByIndex h head i = Some (if unat i < length xs then xs ! unat i else NULL)"
  using ListSize_ok [OF assms] GetListElemByIndex_ok [OF assms] by simp

theorem list_size_and_index_witness:
  "ListSize ex_lheap 0x100 = Some 2 \<and> GetListElemByIndex ex_lheap 0x100 1 = Some 0x120
   \<and> GetListElemByIndex ex_lheap 0x100 2 = Some NULL"
  using list_size_and_index [OF ex_lheap_list(1), of 1] list_size_and_index [OF ex_lheap_list(1), of 2]
  by simp

text \<open>
  C3: the iterator tolerates the removal of the entry it has just returned: the documented loop that
  removes every entry satisfying a condition ends and leaves exactly the others, in order.
\<close>

theorem iterate_and_remove:
  assumes "is_list h head xs" and "NULL \<notin> set (head # xs)"
  shows "\<exists>it h'. ListIteratorInit h head = Some it \<and> remove_matching P h it = Some h'
    \<and> is_list h' head (filter (\<lambda>x. \<not> P x) xs)"
proof -
  from assms obtain it where it: "ListIteratorInit h head = Some it" "iter_rest it head xs"
    using ListIteratorInit_ok [of h head xs] by auto
  with remove_matching_ok [of h head "[]" xs it P] assms show ?thesis by auto
qed

theorem iterate_and_remove_witness:
  "\<exists>it h'. ListIteratorInit ex_lheap 0x100 = Some it \<and> remove_matching (\<lambda>x. x = 0x110) ex_lheap it = Some h'
    \<and> is_list h' 0x100 [0x120]"
  using iterate_and_remove [OF ex_lheap_list(1), of "\<lambda>x. x = 0x110"] by simp

text \<open>
  a list used as a queue is first-in first-out: distinct entries inserted with \<open>InsertTailList\<close>
  into an empty list come out of \<open>RemoveHeadList\<close> in the same order, after which it returns the list
  head to signal that the list is empty.
\<close>

theorem list_is_fifo:
  assumes "is_list h head []" and "set es \<subseteq> dom h" and "distinct es" and "head \<notin> set es"
  shows "\<exists>h1 h2. enq_all InsertTailList h head es = Some h1
    \<and> deq_all RemoveHeadList (length es) h1 head = Some (es, h2) \<and> RemoveHeadList h2 head = Some (head, h2)"
  by (rule list_queue.fifo_order [OF assms])

theorem list_is_fifo_witness:
  "\<exists>h1 h2. enq_all InsertTailList (ex_lheap(0x130 \<mapsto> \<lparr>Flink = 0x130, Blink = 0x130\<rparr>)) 0x130 [0x120, 0x110] = Some h1
    \<and> deq_all RemoveHeadList 2 h1 0x130 = Some ([0x120, 0x110], h2)"
proof -
  let ?h = "ex_lheap(0x130 \<mapsto> \<lparr>Flink = 0x130, Blink = 0x130\<rparr>)"
  have "is_list ?h 0x130 []"
    by (simp add: is_list_def link_def rd_Flink_def rd_Blink_def)
  moreover have "set [0x120, 0x110] \<subseteq> dom ?h" "distinct [0x120, 0x110 :: ptr]" "0x130 \<notin> set [0x120, 0x110 :: ptr]"
    by (auto simp: ex_lheap_def)
  ultimately obtain h1 h2 where "enq_all InsertTailList ?h 0x130 [0x120, 0x110] = Some h1"
      "deq_all RemoveHeadList (length [0x120, 0x110 :: ptr]) h1 0x130 = Some ([0x120, 0x110], h2)"
    using list_is_fifo by blast
  then show ?thesis
    by (metis length_Cons list.size(3) numeral_2_eq_2)
qed

text \<open>
  \<open>ForEachElementExecute\<close> with \<open>AllMustSucceed\<close> false returns the status of the call on the
  last element: one earlier success is not enough, although the comment in \<open>list.h\<close> says so.
\<close>

theorem foreach_last_status:
  assumes "is_list h head (xs @ [x])" and "NULL \<notin> set (head # xs @ [x])"
    and "\<And>y s. f y s = Some (st y, s)"
  shows "ForEachElementExecute (h, c) head (Some f) False = Some (st x, h, c)"
proof -
  have "foreach_list f False (ys @ [x]) s0 s = Some (st x, s)" for ys s0 s
    using assms(3) by (induction ys arbitrary: s0) auto
  moreover have "ForEachElementExecute (h, c) head (Some f) False
      = foreach_list f False (xs @ [x]) STATUS_SUCCESS (h, c)"
    using assms by (intro ForEachElementExecute_ok) auto
  ultimately show ?thesis by simp
qed

theorem foreach_last_status_witness:
  "ForEachElementExecute (ex_lheap, ()) 0x100
     (Some (\<lambda>y s. Some (if y = 0x120 then STATUS_UNSUPPORTED else STATUS_SUCCESS, s))) False
   = Some (STATUS_UNSUPPORTED, ex_lheap, ())"
  using foreach_last_status [where h = ex_lheap and head = "0x100" and xs = "[0x110]" and x = "0x120" and c = "()"
      and f = "\<lambda>y s. Some (if y = 0x120 then STATUS_UNSUPPORTED else STATUS_SUCCESS, s)"
      and st = "\<lambda>y. if y = 0x120 then STATUS_UNSUPPORTED else STATUS_SUCCESS"] ex_lheap_list(1)
  by simp

end
