(* ===== verification/ClHeap.thy ===== *)
theory ClHeap
  imports Lists
begin

text \<open>
  The heap of \<open>CommonLib/src/cl_heap.c\<close>. An allocation is a header (\<open>HEAP_ENTRY\<close>, 32 bytes), the data and a tail of 4
  bytes; the headers are linked in the order of their addresses, and the heap grows at its end until there is no room
  left, then gaps are searched. The memory of the heap is given by its headers, its tails and its list entries, by their
  addresses; the list entry of a header lies 16 bytes after it. The data belongs to the callers. What is zeroed for a
  caller is recorded. A header that was freed holds the pattern.
\<close>

section \<open>State\<close>

record HEAP_HEADER =
  HeaderMagic :: DWORD
  HeapSizeMaximum :: QWORD
  HeapSizeRemaining :: QWORD
  HeapBaseAddress :: QWORD
  FreeAddress :: QWORD
  HeapNumberOfAllocations :: QWORD
  EntryToRestartSearch :: ptr

record HEAP_ENTRY =
  EntryMagic :: DWORD
  EntryTag :: DWORD
  EntrySize :: DWORD
  EntryOffset :: DWORD

record HEAP_STATE =
  Header :: HEAP_HEADER
  HeapEntries :: "ptr \<Rightarrow> HEAP_ENTRY"
  HeapTails :: "ptr \<Rightarrow> DWORD"
  HeapLinks :: lheap
  HeapZeroed :: "(ptr \<times> DWORD) list"

abbreviation HEAP_MINIMUM_SIZE :: QWORD where "HEAP_MINIMUM_SIZE \<equiv> 0x10000"
abbreviation HEAP_MAGIC :: DWORD where "HEAP_MAGIC \<equiv> 0xACE2302E"
abbreviation HEAP_FREE_DWORD :: DWORD where "HEAP_FREE_DWORD \<equiv> 0xAFAFAFAF"
abbreviation HEAP_FREE_QWORD :: QWORD where "HEAP_FREE_QWORD \<equiv> 0xAFAFAFAFAFAFAFAF"
abbreviation HEAP_DEFAULT_ALIGNMENT :: DWORD where "HEAP_DEFAULT_ALIGNMENT \<equiv> 16"
abbreviation PoolAllocateZeroMemory :: DWORD where "PoolAllocateZeroMemory \<equiv> 2"
abbreviation PoolAllocatePanicIfFail :: DWORD where "PoolAllocatePanicIfFail \<equiv> 4"
abbreviation STATUS_HEAP_TOO_SMALL :: STATUS where "STATUS_HEAP_TOO_SMALL \<equiv> 0xE0200001"

abbreviation SIZEOF_HEAP_HEADER :: QWORD where "SIZEOF_HEAP_HEADER \<equiv> 0x48"
abbreviation SIZEOF_HEAP_ENTRY :: QWORD where "SIZEOF_HEAP_ENTRY \<equiv> 0x20"
abbreviation SIZEOF_HEAP_TAIL :: QWORD where "SIZEOF_HEAP_TAIL \<equiv> 4"

text \<open>The head of the list is in the header of the heap; the list entry of an allocation and back.\<close>

definition HeapAllocations :: "HEAP_STATE \<Rightarrow> ptr" where
  "HeapAllocations st = HeapBaseAddress (Header st) + 0x38"

definition ListEntryOf :: "ptr \<Rightarrow> ptr" where "ListEntryOf e = e + 0x10"
definition HeapEntryOf :: "ptr \<Rightarrow> ptr" where "HeapEntryOf l = l - 0x10"

section \<open>Operations\<close>

text \<open>\<open>HeapHeaderGiven\<close> says if there is a place for the result. The second component of the result says if it was stored.\<close>

definition ClHeapInit :: "ptr \<Rightarrow> QWORD \<Rightarrow> bool \<Rightarrow> HEAP_STATE \<Rightarrow> (STATUS \<times> bool \<times> HEAP_STATE) option" where
  "ClHeapInit Base MemoryAvailable HeapHeaderGiven st =
     (if Base = NULL then Some (STATUS_INVALID_PARAMETER1, False, st)
      else if MemoryAvailable < HEAP_MINIMUM_SIZE then Some (STATUS_HEAP_TOO_SMALL, False, st)
      else if \<not> HeapHeaderGiven then Some (STATUS_INVALID_PARAMETER3, False, st)
      else do {
        let st = st\<lparr>Header := \<lparr>HeaderMagic = HEAP_MAGIC, HeapSizeMaximum = MemoryAvailable, HeapSizeRemaining = MemoryAvailable - SIZEOF_HEAP_HEADER,
          HeapBaseAddress = Base, FreeAddress = Base + SIZEOF_HEAP_HEADER, HeapNumberOfAllocations = 0, EntryToRestartSearch = Base + 0x38\<rparr>\<rparr>;
        links \<leftarrow> InitializeListHead (HeapLinks st) (HeapAllocations st);
        Some (STATUS_SUCCESS, True, st\<lparr>HeapLinks := links\<rparr>)
      })"

definition upd_header :: "(HEAP_HEADER \<Rightarrow> HEAP_HEADER) \<Rightarrow> HEAP_STATE \<Rightarrow> HEAP_STATE" where
  "upd_header f st = st\<lparr>Header := f (Header st)\<rparr>"

text \<open>The result is the end of the new entry, 0 if there is not enough space, and the entry.\<close>

definition InitHeapEntry :: "ptr \<Rightarrow> DWORD \<Rightarrow> DWORD \<Rightarrow> DWORD \<Rightarrow> bool \<Rightarrow> QWORD \<Rightarrow> HEAP_STATE \<Rightarrow> (QWORD \<times> ptr \<times> HEAP_STATE) option" where
  "InitHeapEntry pHeapEntry Tag Size Alignment AddToLinkedList SizeAvailable st = do {
     let unalignedDataAddress = pHeapEntry + SIZEOF_HEAP_ENTRY;
     let dataAddress = AlignAddressUpper unalignedDataAddress (ucast Alignment);
     let heapEntrySize = (ucast (ucast Size + SIZEOF_HEAP_ENTRY + SIZEOF_HEAP_TAIL) :: DWORD);
     if SizeAvailable < dataAddress - unalignedDataAddress + ucast heapEntrySize then Some (0, pHeapEntry, st)
     else do {
       let pHeapEntry = dataAddress - SIZEOF_HEAP_ENTRY;
       let st = st\<lparr>HeapEntries := (HeapEntries st)(pHeapEntry := (HeapEntries st pHeapEntry)\<lparr>EntryMagic := HEAP_MAGIC, EntrySize := Size, EntryTag := Tag\<rparr>)\<rparr>;
       links \<leftarrow> (if AddToLinkedList then InsertTailList (HeapLinks st) (HeapAllocations st) (ListEntryOf pHeapEntry) else Some (HeapLinks st));
       let st = st\<lparr>HeapLinks := links\<rparr>;
       let st = st\<lparr>HeapEntries := (HeapEntries st)(pHeapEntry := (HeapEntries st pHeapEntry)\<lparr>EntryOffset := ucast (dataAddress - pHeapEntry)\<rparr>)\<rparr>;
       let pHeapTail = dataAddress + ucast (EntrySize (HeapEntries st pHeapEntry));
       let st = st\<lparr>HeapTails := (HeapTails st)(pHeapTail := HEAP_MAGIC)\<rparr>;
       let st = upd_header (\<lambda>h. h\<lparr>HeapSizeRemaining := HeapSizeRemaining h - ucast heapEntrySize\<rparr>) st;
       let st = upd_header (\<lambda>h. h\<lparr>HeapNumberOfAllocations := HeapNumberOfAllocations h + 1\<rparr>) st;
       Some (pHeapTail + SIZEOF_HEAP_TAIL, pHeapEntry, st)
     }
   }"

text \<open>The total size is a 32-bit number.\<close>

definition ValidateHeapEntry :: "ptr \<Rightarrow> DWORD \<Rightarrow> HEAP_STATE \<Rightarrow> bool option" where
  "ValidateHeapEntry HeapEntry Tag st = do {
     ASSERT (NULL \<noteq> HeapEntry);
     ASSERT (0 \<noteq> Tag);
     let e = HeapEntries st HeapEntry;
     let totalSize = (ucast (SIZEOF_HEAP_ENTRY + ucast (EntrySize e) + SIZEOF_HEAP_TAIL) :: DWORD);
     let pHeapTail = HeapEntry + ucast totalSize - SIZEOF_HEAP_TAIL;
     Some (HEAP_MAGIC = EntryMagic e \<and> HEAP_MAGIC = HeapTails st pHeapTail \<and> 0 \<noteq> EntryTag e \<and> Tag = EntryTag e)
   }"

text \<open>
  The search for a gap. The loop has the pointers \<open>pPreviousEntry\<close>, \<open>pPreviousHeapEntry\<close>, \<open>pCurEntry\<close> and
  \<open>pCurHeapEntry\<close>; the latter is only assigned when no entry is the head of the list. The result is the new entry, if a gap was found.
\<close>

partial_function (option) ClHeapSearch_loop ::
  "QWORD \<Rightarrow> DWORD \<Rightarrow> DWORD \<Rightarrow> DWORD \<Rightarrow> ptr \<Rightarrow> ptr \<Rightarrow> ptr \<Rightarrow> ptr \<Rightarrow> HEAP_STATE \<Rightarrow> (ptr option \<times> HEAP_STATE) option" where
  "ClHeapSearch_loop sizeRequired Tag AllocationSize alignment pPreviousEntry pPreviousHeapEntry pCurEntry pCurHeapEntry st =
     (if EntryToRestartSearch (Header st) = pCurEntry then Some (None, st)
      else if pCurEntry = HeapAllocations st \<or> pPreviousEntry = HeapAllocations st then do {
        nxt \<leftarrow> rd_Flink (HeapLinks st) pCurEntry;
        ClHeapSearch_loop sizeRequired Tag AllocationSize alignment pCurEntry pCurHeapEntry nxt pCurHeapEntry st
      }
      else do {
        ASSERT (NULL \<noteq> pPreviousHeapEntry);
        let pCurHeapEntry = HeapEntryOf pCurEntry;
        let startAddress = pPreviousHeapEntry + SIZEOF_HEAP_ENTRY + ucast (EntrySize (HeapEntries st pPreviousHeapEntry)) + SIZEOF_HEAP_TAIL;
        let sizeBetweenEntries = pCurHeapEntry - startAddress;
        (tempAddress, pNewHeapEntry, st) \<leftarrow> (if sint sizeRequired \<le> sint sizeBetweenEntries
           then InitHeapEntry startAddress Tag AllocationSize alignment False sizeBetweenEntries st else Some (0, NULL, st));
        if 0 = tempAddress then do {
          nxt \<leftarrow> rd_Flink (HeapLinks st) pCurEntry;
          ClHeapSearch_loop sizeRequired Tag AllocationSize alignment pCurEntry pCurHeapEntry nxt pCurHeapEntry st
        }
        else do {
          v \<leftarrow> ValidateHeapEntry pPreviousHeapEntry (EntryTag (HeapEntries st pPreviousHeapEntry)) st;
          ASSERT v;
          links \<leftarrow> InsertHeadList (HeapLinks st) pPreviousEntry (ListEntryOf pNewHeapEntry);
          Some (Some pNewHeapEntry, upd_header (\<lambda>h. h\<lparr>EntryToRestartSearch := ListEntryOf pNewHeapEntry\<rparr>) (st\<lparr>HeapLinks := links\<rparr>))
        }
      })"

text \<open>The part of \<open>ClHeapAllocatePoolWithTag\<close> after the checks of the arguments: at the end of the heap if there is room, and in a gap otherwise.\<close>

definition ClHeapPlace :: "DWORD \<Rightarrow> DWORD \<Rightarrow> DWORD \<Rightarrow> HEAP_STATE \<Rightarrow> (ptr option \<times> HEAP_STATE) option" where
  "ClHeapPlace AllocationSize Tag alignment st = do {
     let sizeRequired = ucast AllocationSize + SIZEOF_HEAP_ENTRY + SIZEOF_HEAP_TAIL;
     let h0 = Header st;
     if sizeRequired > HeapSizeRemaining h0 then Some (None, st)
     else do {
       let remainingSizeUntilEnd = HeapBaseAddress h0 + HeapSizeMaximum h0 - FreeAddress h0 - SIZEOF_HEAP_ENTRY;
       (tempAddress, pNewHeapEntry, st) \<leftarrow> (if sint sizeRequired \<le> sint remainingSizeUntilEnd
          then InitHeapEntry (FreeAddress h0) Tag AllocationSize alignment True remainingSizeUntilEnd st else Some (0, NULL, st));
       if 0 \<noteq> tempAddress then Some (Some pNewHeapEntry, upd_header (\<lambda>h. h\<lparr>FreeAddress := tempAddress\<rparr>) st)
       else do {
         let remainingSizeBeforeCurrent = HeapSizeRemaining h0 - remainingSizeUntilEnd - SIZEOF_HEAP_ENTRY;
         if sint sizeRequired > sint remainingSizeBeforeCurrent then Some (None, st)
         else do {
           empty \<leftarrow> IsListEmpty (HeapLinks st) (HeapAllocations st);
           ASSERT (\<not> empty);
           pPreviousEntry \<leftarrow> rd_Flink (HeapLinks st) (EntryToRestartSearch h0);
           pCurEntry \<leftarrow> rd_Flink (HeapLinks st) pPreviousEntry;
           ClHeapSearch_loop sizeRequired Tag AllocationSize alignment pPreviousEntry (HeapEntryOf pPreviousEntry) pCurEntry NULL st
         }
       }
     }
   }"

definition ClHeapAllocatePoolWithTag :: "DWORD \<Rightarrow> DWORD \<Rightarrow> DWORD \<Rightarrow> DWORD \<Rightarrow> HEAP_STATE \<Rightarrow> (ptr \<times> HEAP_STATE) option" where
  "ClHeapAllocatePoolWithTag Flags AllocationSize Tag AllocationAlignment st = do {
     (placed, st) \<leftarrow> (if 0 = AllocationSize then Some (None, st)
        else if 0 = Tag then Some (None, st)
        else ClHeapPlace AllocationSize Tag (if 0 = AllocationAlignment then HEAP_DEFAULT_ALIGNMENT else AllocationAlignment) st);
     let mappedAddress = (case placed of None \<Rightarrow> NULL | Some pNewHeapEntry \<Rightarrow> pNewHeapEntry + ucast (EntryOffset (HeapEntries st pNewHeapEntry)));
     ASSERT (IsFlagOn Flags PoolAllocatePanicIfFail \<longrightarrow> placed \<noteq> None \<and> NULL \<noteq> mappedAddress);
     Some (mappedAddress, if placed \<noteq> None \<and> IsFlagOn Flags PoolAllocateZeroMemory then st\<lparr>HeapZeroed := HeapZeroed st @ [(mappedAddress, AllocationSize)]\<rparr> else st)
   }"

definition ClHeapFreePoolWithTag :: "ptr \<Rightarrow> DWORD \<Rightarrow> HEAP_STATE \<Rightarrow> HEAP_STATE option" where
  "ClHeapFreePoolWithTag MemoryAddress Tag st = do {
     ASSERT (NULL \<noteq> MemoryAddress);
     ASSERT (0 \<noteq> Tag);
     let pHeapEntry = MemoryAddress - SIZEOF_HEAP_ENTRY;
     let Size = EntrySize (HeapEntries st pHeapEntry);
     let endAddress = MemoryAddress + ucast Size + SIZEOF_HEAP_TAIL;
     v \<leftarrow> ValidateHeapEntry pHeapEntry Tag st;
     ASSERT v;
     pListEntry \<leftarrow> rd_Blink (HeapLinks st) (ListEntryOf pHeapEntry);
     let previousAddress =
       (if HeapAllocations st = pListEntry \<or> NULL = pListEntry then HeapBaseAddress (Header st) + SIZEOF_HEAP_HEADER
        else HeapEntryOf pListEntry + SIZEOF_HEAP_ENTRY + ucast (EntrySize (HeapEntries st (HeapEntryOf pListEntry))) + SIZEOF_HEAP_TAIL);
     (b, links) \<leftarrow> RemoveEntryList (HeapLinks st) (ListEntryOf pHeapEntry);
     let heapEntrySize = ucast Size + SIZEOF_HEAP_ENTRY + SIZEOF_HEAP_TAIL;
     ASSERT (heapEntrySize \<le> ucast MAX_DWORD);
     let st = st\<lparr>HeapLinks := links(ListEntryOf pHeapEntry \<mapsto> \<lparr>Flink = HEAP_FREE_QWORD, Blink = HEAP_FREE_QWORD\<rparr>),
       HeapEntries := (HeapEntries st)(pHeapEntry := \<lparr>EntryMagic = HEAP_FREE_DWORD, EntryTag = HEAP_FREE_DWORD, EntrySize = HEAP_FREE_DWORD, EntryOffset = HEAP_FREE_DWORD\<rparr>),
       HeapTails := (HeapTails st)(MemoryAddress + ucast Size := HEAP_FREE_DWORD)\<rparr>;
     let st = upd_header (\<lambda>h. h\<lparr>HeapSizeRemaining := HeapSizeRemaining h + heapEntrySize, HeapNumberOfAllocations := HeapNumberOfAllocations h - 1\<rparr>) st;
     Some (if endAddress = FreeAddress (Header st) then upd_header (\<lambda>h. h\<lparr>FreeAddress := previousAddress\<rparr>) st else st)
   }"

section \<open>Rounding up\<close>

lemma align_up_bounds:
  fixes x a :: QWORD
  assumes "a \<noteq> 0" and "unat x + unat a \<le> 2 ^ 64"
  shows "unat x \<le> unat (AlignAddressUpper x a)" "unat (AlignAddressUpper x a) < unat x + unat a"
proof -
  define mk where "mk = a - 1"
  define s where "s = x + a - 1"
  have a1: "1 \<le> unat a" using assms(1) by (simp add: unat_gt_0 Suc_le_eq)
  then have mk: "unat mk = unat a - 1" by (simp add: mk_def unat_sub word_le_nat_alt)
  have s: "unat s = unat x + unat a - 1"
  proof -
    have "s = x + mk" by (simp add: s_def mk_def)
    moreover have "unat x + unat mk < 2 ^ 64" using mk a1 assms(2) by simp
    ultimately show ?thesis using mk a1 by (simp add: unat_add_lem [THEN iffD1])
  qed
  have up: "AlignAddressUpper x a = s AND NOT mk" by (simp only: AlignAddressUpper_def AlignAddressLower_def s_def mk_def)
  have "(s AND mk) + (s AND NOT mk) = s"
    using disjunctive_add_eq_or [of "s AND mk" "s AND NOT mk"] by (simp add: and.assoc and.left_commute bit_eq_iff bit_simps) (auto intro: bit_word_eqI simp: bit_simps)
  then have "s AND NOT mk = s - (s AND mk)" by (metis add_diff_cancel_left')
  moreover have le: "s AND mk \<le> s" "s AND mk \<le> mk" by (rule word_and_le2, rule word_and_le1)
  ultimately have "unat (AlignAddressUpper x a) = unat s - unat (s AND mk)" by (simp add: up unat_sub)
  moreover have "unat (s AND mk) \<le> unat mk" using le(2) by (simp add: word_le_nat_alt)
  ultimately show "unat x \<le> unat (AlignAddressUpper x a)" "unat (AlignAddressUpper x a) < unat x + unat a" using s mk a1 by linarith+
qed

lemma align_up_multiple:
  fixes x a :: QWORD
  assumes "unat a = 2 ^ k" and "k < 64"
  shows "unat (AlignAddressUpper x a) mod unat a = 0"
proof -
  have "of_nat (unat a) = (2 ^ k :: QWORD)" unfolding assms(1) by simp
  then have "a = 2 ^ k" by simp
  then have "a - 1 = mask k" by (simp add: mask_eq_exp_minus_1)
  then show ?thesis unfolding AlignAddressUpper_def AlignAddressLower_def assms(1) by (simp add: and_not_mask_unat)
qed

section \<open>The invariant\<close>

text \<open>The size and the end of an entry, with its header and its tail.\<close>

definition e_size :: "HEAP_STATE \<Rightarrow> ptr \<Rightarrow> nat" where
  "e_size st e = unat (EntrySize (HeapEntries st e))"

definition e_end :: "HEAP_STATE \<Rightarrow> ptr \<Rightarrow> nat" where
  "e_end st e = unat e + e_size st e + 36"

definition entry_ok :: "HEAP_STATE \<Rightarrow> ptr \<Rightarrow> bool" where
  "entry_ok st e \<longleftrightarrow> (let x = HeapEntries st e in EntryMagic x = HEAP_MAGIC \<and> EntryTag x \<noteq> 0 \<and> EntryOffset x = 0x20
     \<and> HeapTails st (e + 0x20 + ucast (EntrySize x)) = HEAP_MAGIC)"

text \<open>
  The entries \<open>es\<close> are in the order of their addresses and do not overlap; the free address is the end of the last one,
  the counters are exact, and the search restarts at an entry or at the head.
\<close>

definition area_ok :: "HEAP_STATE \<Rightarrow> bool" where
  "area_ok st \<longleftrightarrow> (let B = unat (HeapBaseAddress (Header st)); M = unat (HeapSizeMaximum (Header st)) in
     0 < B \<and> 0x48 \<le> M \<and> M \<le> 2 ^ 31 \<and> B + M + 2 ^ 33 \<le> 2 ^ 64 \<and> (\<forall>a. B \<le> unat a \<and> unat a < B + M \<longrightarrow> a \<in> dom (HeapLinks st)))"

definition entries_ok :: "HEAP_STATE \<Rightarrow> ptr list \<Rightarrow> bool" where
  "entries_ok st es \<longleftrightarrow> (let B = unat (HeapBaseAddress (Header st)); M = unat (HeapSizeMaximum (Header st)) in
     sorted_wrt (\<lambda>e e'. e_end st e \<le> unat e') es \<and> (\<forall>e \<in> set es. entry_ok st e \<and> B + 0x48 \<le> unat e \<and> e_end st e \<le> B + M))"

definition counters_ok :: "HEAP_STATE \<Rightarrow> ptr list \<Rightarrow> bool" where
  "counters_ok st es \<longleftrightarrow> (let h = Header st in
     unat (FreeAddress h) = (if es = [] then unat (HeapBaseAddress h) + 0x48 else e_end st (last es))
     \<and> HeapNumberOfAllocations h = of_nat (length es) \<and> unat (HeapSizeRemaining h) + (\<Sum>e\<leftarrow>es. e_size st e + 36) + 0x48 = unat (HeapSizeMaximum h))"

definition heap_inv :: "HEAP_STATE \<Rightarrow> ptr list \<Rightarrow> bool" where
  "heap_inv st es \<longleftrightarrow> area_ok st \<and> is_list (HeapLinks st) (HeapAllocations st) (map ListEntryOf es) \<and> entries_ok st es \<and> counters_ok st es
     \<and> EntryToRestartSearch (Header st) \<in> set (HeapAllocations st # map ListEntryOf es)"

text \<open>The allocations as the callers see them: the address of the data, its size and the tag.\<close>

definition blocks :: "HEAP_STATE \<Rightarrow> ptr list \<Rightarrow> (ptr \<times> nat \<times> DWORD) set" where
  "blocks st es = (\<lambda>e. (e + 0x20, e_size st e, EntryTag (HeapEntries st e))) ` set es"

section \<open>A new entry\<close>

definition placed :: "HEAP_STATE \<Rightarrow> ptr \<Rightarrow> DWORD \<Rightarrow> DWORD \<Rightarrow> lheap \<Rightarrow> HEAP_STATE" where
  "placed st e Tag Size links = st\<lparr>HeapEntries := (HeapEntries st)(e := \<lparr>EntryMagic = HEAP_MAGIC, EntryTag = Tag, EntrySize = Size, EntryOffset = 0x20\<rparr>),
     HeapTails := (HeapTails st)(e + 0x20 + ucast Size := HEAP_MAGIC), HeapLinks := links,
     Header := (Header st)\<lparr>HeapSizeRemaining := HeapSizeRemaining (Header st) - (ucast Size + 36), HeapNumberOfAllocations := HeapNumberOfAllocations (Header st) + 1\<rparr>\<rparr>"

text \<open>The entry that is placed in \<open>avail\<close> bytes from \<open>a\<close> on, if it fits: its data starts at the next multiple of the alignment.\<close>

definition place_at :: "ptr \<Rightarrow> DWORD \<Rightarrow> ptr" where
  "place_at a al = AlignAddressUpper (a + 0x20) (ucast al) - 0x20"

definition fits :: "ptr \<Rightarrow> DWORD \<Rightarrow> DWORD \<Rightarrow> nat \<Rightarrow> bool" where
  "fits a al Size avail \<longleftrightarrow> unat (place_at a al) + unat Size + 36 \<le> unat a + avail"

lemma place_at_bounds:
  assumes "unat a + 2 ^ 33 \<le> 2 ^ 64" and "al \<noteq> 0"
  shows "unat a \<le> unat (place_at a al)" "unat (place_at a al + 0x20) = unat (place_at a al) + 32" "unat (place_at a al) < unat a + 2 ^ 32"
    and "unat (AlignAddressUpper (a + 0x20) (ucast al)) = unat (place_at a al) + 32"
proof -
  have a32: "unat (a + 0x20) = unat a + 32" using assms(1) by (simp add: unat_plus_if_small)
  have al: "unat (ucast al :: QWORD) = unat al" by (simp add: unat_ucast_QWORD)
  have al32: "unat al < 4294967296" by (rule unat_DWORD_less)
  have "ucast al \<noteq> (0 :: QWORD)" using assms(2) al(1) by (metis unat_0 unat_eq_zero)
  moreover have "unat (a + 0x20) + unat (ucast al :: QWORD) \<le> 2 ^ 64" using assms(1) a32 al al32 by (simp del: unat_DWORD_less)
  ultimately have b: "unat (a + 0x20) \<le> unat (AlignAddressUpper (a + 0x20) (ucast al))" "unat (AlignAddressUpper (a + 0x20) (ucast al)) < unat (a + 0x20) + unat al"
    using align_up_bounds [of "ucast al" "a + 0x20"] al by simp_all
  then have "0x20 \<le> AlignAddressUpper (a + 0x20) (ucast al)" using a32 by (simp add: word_le_nat_alt)
  then have "unat (place_at a al) = unat (AlignAddressUpper (a + 0x20) (ucast al)) - 32" by (simp add: place_at_def unat_sub)
  then show "unat a \<le> unat (place_at a al)" "unat (place_at a al + 0x20) = unat (place_at a al) + 32" "unat (place_at a al) < unat a + 2 ^ 32"
    "unat (AlignAddressUpper (a + 0x20) (ucast al)) = unat (place_at a al) + 32"
    using b a32 al32 by (simp_all add: place_at_def del: unat_DWORD_less)
qed

lemma entry_written:
  "(x :: HEAP_ENTRY)\<lparr>EntryMagic := m, EntrySize := s, EntryTag := t, EntryOffset := f\<rparr> = \<lparr>EntryMagic = m, EntryTag = t, EntrySize = s, EntryOffset = f\<rparr>"
  by (cases x) simp

lemma InitHeapEntry_eq:
  assumes "unat a + 2 ^ 33 \<le> 2 ^ 64" and "al \<noteq> 0" and "unat Size + 36 < 2 ^ 32"
  shows "InitHeapEntry a Tag Size al add avail st = (if fits a al Size (unat avail) then
       map_option (\<lambda>links. (place_at a al + 0x20 + ucast Size + 4, place_at a al, placed st (place_at a al) Tag Size links))
         (if add then InsertTailList (HeapLinks st) (HeapAllocations st) (ListEntryOf (place_at a al)) else Some (HeapLinks st))
     else Some (0, a, st))"
proof -
  note b = place_at_bounds [OF assms(1,2)]
  have a32: "unat (a + 0x20) = unat a + 32" using assms(1) by (simp add: unat_plus_if_small)
  have e: "AlignAddressUpper (a + 0x20) (ucast al) = place_at a al + 0x20" by (simp add: place_at_def)
  let ?hs = "ucast (ucast Size + SIZEOF_HEAP_ENTRY + SIZEOF_HEAP_TAIL) :: DWORD"
  have s: "unat (ucast Size + SIZEOF_HEAP_ENTRY + SIZEOF_HEAP_TAIL) = unat Size + 36"
    using assms(3) unat_word_ariths(1) [of "ucast Size :: QWORD" 36] by (simp add: unat_ucast_QWORD add.assoc)
  then have hs: "unat ?hs = unat Size + 36" using assms(3) by (simp add: unsigned_ucast_eq take_bit_nat_eq_self)
  then have hq: "ucast ?hs = (ucast Size + 36 :: QWORD)" using s by (simp add: word_unat_eq_iff unat_ucast_QWORD add.assoc)
  then have hq': "ucast (ucast (ucast Size + 36 :: QWORD) :: DWORD) = (ucast Size + 36 :: QWORD)" by (simp add: add.assoc)
  have "unat (place_at a al + 0x20 - (a + 0x20)) = unat (place_at a al) - unat a"
    using b(1,2) a32 by (simp add: unat_sub word_le_nat_alt)
  moreover have "unat (place_at a al) - unat a + (unat Size + 36) < 2 ^ 64" using b(3) assms(3) by simp
  ultimately have d: "unat (place_at a al + 0x20 - (a + 0x20) + ucast ?hs) = unat (place_at a al) - unat a + (unat Size + 36)"
    using hs by (simp add: unat_plus_if_small unat_ucast_QWORD)
  have f: "avail < place_at a al + 0x20 - (a + 0x20) + ucast ?hs \<longleftrightarrow> \<not> fits a al Size (unat avail)"
    unfolding word_less_nat_alt d fits_def using b(1) by auto
  show ?thesis
    unfolding InitHeapEntry_def Let_def e f
    by (cases "fits a al Size (unat avail)"; cases add)
      (auto simp: placed_def upd_header_def HeapAllocations_def hq' entry_written add.assoc bind_eq_Some_conv map_option_case split: option.splits)
qed

section \<open>Inserting and removing keep the invariant\<close>

lemma e_end_gt: "unat e < e_end st e" by (simp add: e_end_def)

lemma entry_tail_unat:
  assumes "e_end st e < 2 ^ 64"
  shows "unat (e + 0x20 + ucast (EntrySize (HeapEntries st e))) = e_end st e - 4"
proof -
  have "unat (e + 0x20) = unat e + 32" using assms by (intro unat_plus_if_small [THEN trans]) (auto simp: e_end_def)
  then show ?thesis using assms unat_plus_if_small [of "e + 0x20" "ucast (EntrySize (HeapEntries st e))"]
    by (simp add: unat_ucast_QWORD e_end_def e_size_def)
qed

lemma placed_other:
  assumes "e' \<noteq> e"
  shows "HeapEntries (placed st e Tag Size links) e' = HeapEntries st e'" "e_size (placed st e Tag Size links) e' = e_size st e'"
    "e_end (placed st e Tag Size links) e' = e_end st e'"
  using assms by (simp_all add: placed_def e_size_def e_end_def)

lemma placed_self:
  "e_size (placed st e Tag Size links) e = unat Size" "e_end (placed st e Tag Size links) e = unat e + unat Size + 36"
  by (simp_all add: placed_def e_size_def e_end_def)

lemma upd_header_simps [simp]:
  "HeapEntries (upd_header f st) = HeapEntries st" "HeapTails (upd_header f st) = HeapTails st" "HeapLinks (upd_header f st) = HeapLinks st"
  "Header (upd_header f st) = f (Header st)" "e_size (upd_header f st) = e_size st" "e_end (upd_header f st) = e_end st" "entry_ok (upd_header f st) = entry_ok st"
  by (auto simp: upd_header_def e_size_def e_end_def entry_ok_def fun_eq_iff)

lemma entries_okD:
  assumes "entries_ok st es" and "e \<in> set es"
  shows "entry_ok st e" "unat (HeapBaseAddress (Header st)) + 0x48 \<le> unat e"
    "e_end st e \<le> unat (HeapBaseAddress (Header st)) + unat (HeapSizeMaximum (Header st))"
  using assms by (simp_all add: entries_ok_def Let_def)

lemma area_top: "area_ok st \<Longrightarrow> unat (HeapBaseAddress (Header st)) + unat (HeapSizeMaximum (Header st)) + 2 ^ 33 \<le> 2 ^ 64"
  by (simp add: area_ok_def Let_def)

lemma entry_end_lt:
  assumes "area_ok st" "entries_ok st es" "e \<in> set es"
  shows "e_end st e + 2 ^ 33 \<le> 2 ^ 64"
  using area_top [OF assms(1)] entries_okD(3) [OF assms(2,3)] by linarith

text \<open>The new entry \<open>e\<close> lies between the entries \<open>xs\<close> and \<open>ys\<close>.\<close>

definition gap_ok :: "HEAP_STATE \<Rightarrow> ptr list \<Rightarrow> ptr list \<Rightarrow> ptr \<Rightarrow> DWORD \<Rightarrow> bool" where
  "gap_ok st xs ys e Size \<longleftrightarrow> (\<forall>x \<in> set xs. e_end st x \<le> unat e) \<and> (\<forall>y \<in> set ys. unat e + unat Size + 36 \<le> unat y)
     \<and> unat (HeapBaseAddress (Header st)) + 0x48 \<le> unat e
     \<and> unat e + unat Size + 36 \<le> unat (HeapBaseAddress (Header st)) + unat (HeapSizeMaximum (Header st))"

lemma gap_ok_new: "gap_ok st xs ys e Size \<Longrightarrow> x \<in> set (xs @ ys) \<Longrightarrow> x \<noteq> e"
  using e_end_gt [of e st] by (fastforce simp: gap_ok_def)

lemma gap_entries_ok:
  assumes inv: "area_ok st" "entries_ok st (xs @ ys)" and g: "gap_ok st xs ys e Size" and t: "Tag \<noteq> 0"
  shows "entries_ok (placed st e Tag Size links) (xs @ e # ys)"
proof -
  let ?p = "placed st e Tag Size links"
  have hd: "HeapBaseAddress (Header ?p) = HeapBaseAddress (Header st)" "HeapSizeMaximum (Header ?p) = HeapSizeMaximum (Header st)"
    by (simp_all add: placed_def)
  note new = gap_ok_new [OF g]
  have same: "e_end ?p x = e_end st x" "HeapEntries ?p x = HeapEntries st x" if "x \<in> set (xs @ ys)" for x
    using new [OF that] by (simp_all add: placed_other)
  have top: "unat (HeapBaseAddress (Header st)) + unat (HeapSizeMaximum (Header st)) < 2 ^ 64"
    using inv(1) by (simp add: area_ok_def Let_def)
  have et: "unat (e + 0x20 + ucast Size) = unat e + 32 + unat Size"
    using entry_tail_unat [of ?p e] g top placed_self(2) [of st e Tag Size links] by (simp add: gap_ok_def placed_def)
  have ok: "entry_ok ?p x" if x: "x \<in> set (xs @ ys)" for x
  proof -
    have le: "entry_ok st x" "e_end st x < 2 ^ 64" using entries_okD(1) [OF inv(2) x] entry_end_lt [OF inv x] by simp_all
    have "e_end st x \<le> unat e \<or> unat e + unat Size + 36 \<le> unat x" using g x by (auto simp: gap_ok_def)
    then have "unat (x + 0x20 + ucast (EntrySize (HeapEntries st x))) \<noteq> unat (e + 0x20 + ucast Size)"
      using entry_tail_unat [OF le(2)] et e_end_gt [of x st] by (auto simp: e_end_def)
    then have "x + 0x20 + ucast (EntrySize (HeapEntries st x)) \<noteq> e + 0x20 + ucast Size" by metis
    then show ?thesis using le(1) new [OF x] by (simp add: entry_ok_def placed_def Let_def)
  qed
  have "entry_ok ?p e" using t by (simp add: entry_ok_def placed_def)
  moreover have "sorted_wrt (\<lambda>a b. e_end ?p a \<le> unat b) (xs @ e # ys)"
  proof -
    have "sorted_wrt (\<lambda>a b. e_end st a \<le> unat b) (xs @ ys)" using inv(2) by (simp add: entries_ok_def Let_def)
    then have "sorted_wrt (\<lambda>a b. e_end ?p a \<le> unat b) (xs @ ys)" by (rule sorted_wrt_mono_rel [rotated]) (simp add: same)
    then show ?thesis using g by (auto simp: sorted_wrt_append gap_ok_def same placed_self)
  qed
  ultimately show ?thesis using inv(2) g ok by (auto simp: entries_ok_def Let_def hd same placed_self gap_ok_def)
qed

lemma gap_counters_ok:
  assumes c: "counters_ok st (xs @ ys)" and g: "gap_ok st xs ys e Size" "unat Size + 36 \<le> unat (HeapSizeRemaining (Header st))"
    and f: "unat f = (if ys = [] then unat e + unat Size + 36 else unat (FreeAddress (Header st)))"
  shows "counters_ok (upd_header (\<lambda>h. h\<lparr>FreeAddress := f, EntryToRestartSearch := r\<rparr>) (placed st e Tag Size links)) (xs @ e # ys)"
proof -
  let ?p = "placed st e Tag Size links"
  note new = gap_ok_new [OF g(1)]
  have sum: "(\<Sum>x\<leftarrow>zs. e_size ?p x + 36) = (\<Sum>x\<leftarrow>zs. e_size st x + 36)" if "set zs \<subseteq> set (xs @ ys)" for zs
    using that new by (intro arg_cong [where f = sum_list] map_cong refl) (auto simp: placed_other)
  have s36: "unat (ucast Size + 36 :: QWORD) = unat Size + 36"
    using g(2) unat_QWORD_less [of "HeapSizeRemaining (Header st)"] unat_plus_if_small [of "ucast Size :: QWORD" 36] unat_DWORD_less [of Size]
    by (simp add: unat_ucast_QWORD del: unat_DWORD_less)
  have rem: "unat (HeapSizeRemaining (Header st) - (ucast Size + 36)) = unat (HeapSizeRemaining (Header st)) - (unat Size + 36)"
    using g(2) s36 by (simp add: unat_sub word_le_nat_alt)
  have "ys \<noteq> [] \<Longrightarrow> last ys \<noteq> e" using new [of "last ys"] by simp
  then have fr: "unat f = e_end ?p (last (xs @ e # ys))"
    using c f by (cases "ys = []") (simp_all add: counters_ok_def Let_def placed_self placed_other)
  have hdr: "HeapSizeRemaining (Header ?p) = HeapSizeRemaining (Header st) - (ucast Size + 36)"
    "HeapNumberOfAllocations (Header ?p) = HeapNumberOfAllocations (Header st) + 1" "HeapSizeMaximum (Header ?p) = HeapSizeMaximum (Header st)"
    by (simp_all add: placed_def)
  show ?thesis
    using c g(2) fr sum [of xs] sum [of ys] by (simp add: counters_ok_def Let_def hdr rem placed_self)
qed

lemma insert_heap_inv:
  assumes inv: "heap_inv st (xs @ ys)" and g: "gap_ok st xs ys e Size" "unat Size + 36 \<le> unat (HeapSizeRemaining (Header st))" "Tag \<noteq> 0"
    and l: "is_list links (HeapAllocations st) (map ListEntryOf (xs @ e # ys))" "dom links = dom (HeapLinks st)"
    and f: "unat f = (if ys = [] then unat e + unat Size + 36 else unat (FreeAddress (Header st)))"
    and r: "r \<in> {EntryToRestartSearch (Header st), ListEntryOf e}"
  shows "heap_inv (upd_header (\<lambda>h. h\<lparr>FreeAddress := f, EntryToRestartSearch := r\<rparr>) (placed st e Tag Size links)) (xs @ e # ys)"
proof -
  let ?s = "upd_header (\<lambda>h. h\<lparr>FreeAddress := f, EntryToRestartSearch := r\<rparr>) (placed st e Tag Size links)"
  have i: "area_ok st" "entries_ok st (xs @ ys)" "counters_ok st (xs @ ys)" "EntryToRestartSearch (Header st) \<in> set (HeapAllocations st # map ListEntryOf (xs @ ys))"
    using inv by (simp_all only: heap_inv_def)
  have a: "HeapAllocations ?s = HeapAllocations st" by (simp add: HeapAllocations_def placed_def)
  have "area_ok ?s" using i(1) l(2) by (simp add: area_ok_def placed_def Let_def)
  moreover have "entries_ok ?s (xs @ e # ys)" using gap_entries_ok [OF i(1,2) g(1,3), of links] by (simp add: entries_ok_def Let_def)
  moreover have "is_list (HeapLinks ?s) (HeapAllocations ?s) (map ListEntryOf (xs @ e # ys))" unfolding a using l(1) by (simp add: placed_def)
  moreover have "EntryToRestartSearch (Header ?s) \<in> set (HeapAllocations ?s # map ListEntryOf (xs @ e # ys))" unfolding a using i(4) r by auto
  ultimately show ?thesis using gap_counters_ok [OF i(3) g(1,2) f] by (simp only: heap_inv_def)
qed

lemma insert_blocks:
  assumes "gap_ok st xs ys e Size"
  shows "blocks (upd_header f (placed st e Tag Size links)) (xs @ e # ys) = insert (e + 0x20, unat Size, Tag) (blocks st (xs @ ys))"
proof -
  have "(\<lambda>x. (x + 0x20, e_size (placed st e Tag Size links) x, EntryTag (HeapEntries (placed st e Tag Size links) x))) ` set (xs @ ys)
      = (\<lambda>x. (x + 0x20, e_size st x, EntryTag (HeapEntries st x))) ` set (xs @ ys)"
    by (intro image_cong refl) (simp add: placed_other [OF gap_ok_new [OF assms]])
  moreover have "EntryTag (HeapEntries (placed st e Tag Size links) e) = Tag" by (simp add: placed_def)
  ultimately show ?thesis by (simp add: blocks_def placed_self image_Un)
qed

text \<open>The list entry of a new allocation is mapped and not yet linked.\<close>

lemma new_list_entry:
  assumes inv: "heap_inv st (xs @ ys)" and g: "gap_ok st xs ys e Size"
  shows "ListEntryOf e \<in> dom (HeapLinks st)" "ListEntryOf e \<notin> set (HeapAllocations st # map ListEntryOf (xs @ ys))"
proof -
  let ?B = "HeapBaseAddress (Header st)" and ?M = "HeapSizeMaximum (Header st)"
  have ar: "area_ok st" using inv by (simp add: heap_inv_def)
  then have top: "unat ?B + unat ?M + 2 ^ 33 \<le> 2 ^ 64" by (rule area_top)
  have ge: "unat ?B + 0x48 \<le> unat e" "unat e + unat Size + 36 \<le> unat ?B + unat ?M" using g by (simp_all add: gap_ok_def)
  have le: "unat (ListEntryOf e) = unat e + 16" using ge top by (simp add: ListEntryOf_def unat_plus_if_small)
  have "unat ?B \<le> unat (ListEntryOf e)" "unat (ListEntryOf e) < unat ?B + unat ?M" unfolding le using ge by linarith+
  then show "ListEntryOf e \<in> dom (HeapLinks st)" using ar unfolding area_ok_def Let_def by blast
  have "unat (HeapAllocations st) = unat ?B + 56" using ge top by (simp add: HeapAllocations_def unat_plus_if_small)
  then have "ListEntryOf e \<noteq> HeapAllocations st" using le ge(1) by auto
  moreover have "ListEntryOf e \<noteq> ListEntryOf x" if "x \<in> set (xs @ ys)" for x using gap_ok_new [OF g that] by (simp add: ListEntryOf_def)
  ultimately show "ListEntryOf e \<notin> set (HeapAllocations st # map ListEntryOf (xs @ ys))" by fastforce
qed

section \<open>Allocating at the end\<close>

lemma sint_diff:
  fixes x y :: QWORD
  assumes "unat x < unat y + 0x8000000000000000" and "unat y \<le> unat x + 0x8000000000000000"
  shows "sint (x - y) = int (unat x) - int (unat y)"
proof -
  define d where "d = int (unat x) - int (unat y)"
  have "x - y = word_of_int d" by (simp add: d_def)
  then have "sint (x - y) = signed_take_bit (LENGTH(64) - 1) d" by (simp only: sint_sbintrunc')
  moreover have "d < 0x8000000000000000" "- 0x8000000000000000 \<le> d" using assms unfolding d_def by linarith+
  then have "signed_take_bit 63 d = d" by (intro signed_take_bit_int_eq_self) simp_all
  ultimately show ?thesis by (simp add: d_def)
qed

lemma sint_small: "unat (x :: QWORD) < 2 ^ 63 \<Longrightarrow> sint x = int (unat x)"
  using sint_diff [of x 0] by simp

text \<open>There is room at the end of the heap, where a header of slack is kept.\<close>

definition end_room :: "DWORD \<Rightarrow> DWORD \<Rightarrow> HEAP_STATE \<Rightarrow> bool" where
  "end_room Size al st \<longleftrightarrow> unat (place_at (FreeAddress (Header st)) al) + unat Size + 36 + 32
     \<le> unat (HeapBaseAddress (Header st)) + unat (HeapSizeMaximum (Header st))"

definition size_fits :: "DWORD \<Rightarrow> HEAP_STATE \<Rightarrow> bool" where
  "size_fits Size st \<longleftrightarrow> unat Size + 36 \<le> unat (HeapSizeRemaining (Header st))"

lemma size_required: "unat (ucast (Size :: DWORD) + SIZEOF_HEAP_ENTRY + SIZEOF_HEAP_TAIL) = unat Size + 36"
  using unat_plus_if_small [of "ucast Size :: QWORD" 36] unat_DWORD_less [of Size]
  by (simp add: unat_ucast_QWORD add.assoc del: unat_DWORD_less)

lemma size_required_sint: "sint (ucast (Size :: DWORD) + SIZEOF_HEAP_ENTRY + SIZEOF_HEAP_TAIL) = int (unat Size) + 36"
  using size_required [of Size] unat_DWORD_less [of Size] sint_small [of "ucast Size + SIZEOF_HEAP_ENTRY + SIZEOF_HEAP_TAIL"]
  by (simp del: unat_DWORD_less)

lemma free_bounds:
  assumes "heap_inv st es"
  shows "unat (HeapBaseAddress (Header st)) + 0x48 \<le> unat (FreeAddress (Header st))"
    "unat (FreeAddress (Header st)) \<le> unat (HeapBaseAddress (Header st)) + unat (HeapSizeMaximum (Header st))"
proof -
  have i: "area_ok st" "entries_ok st es" "counters_ok st es" using assms by (simp_all add: heap_inv_def)
  have "es \<noteq> [] \<Longrightarrow> unat (HeapBaseAddress (Header st)) + 0x48 \<le> unat (last es) \<and> e_end st (last es) \<le> unat (HeapBaseAddress (Header st)) + unat (HeapSizeMaximum (Header st))"
    using entries_okD [OF i(2), of "last es"] by simp
  then show "unat (HeapBaseAddress (Header st)) + 0x48 \<le> unat (FreeAddress (Header st))"
    "unat (FreeAddress (Header st)) \<le> unat (HeapBaseAddress (Header st)) + unat (HeapSizeMaximum (Header st))"
    using i(1,3) e_end_gt [of "last es" st] by (auto simp: counters_ok_def area_ok_def Let_def)
qed

lemma size_fits_bound:
  assumes "heap_inv st es" and "size_fits Size st"
  shows "unat Size + 36 < 2 ^ 31"
proof -
  have "unat (HeapSizeRemaining (Header st)) + 0x48 \<le> unat (HeapSizeMaximum (Header st))" "unat (HeapSizeMaximum (Header st)) \<le> 2 ^ 31"
    using assms(1) by (simp_all add: heap_inv_def counters_ok_def area_ok_def Let_def)
  then show ?thesis using assms(2) unfolding size_fits_def by linarith
qed

text \<open>What is left until the end, as a signed number.\<close>

lemma remaining_end:
  assumes "heap_inv st es"
  defines "rem \<equiv> HeapBaseAddress (Header st) + HeapSizeMaximum (Header st) - FreeAddress (Header st) - SIZEOF_HEAP_ENTRY"
  shows "sint rem = int (unat (HeapBaseAddress (Header st)) + unat (HeapSizeMaximum (Header st))) - int (unat (FreeAddress (Header st))) - 32"
    and "0 \<le> sint rem \<Longrightarrow> int (unat rem) = sint rem"
proof -
  let ?B = "HeapBaseAddress (Header st)" and ?M = "HeapSizeMaximum (Header st)" and ?F = "FreeAddress (Header st)"
  have ar: "area_ok st" using assms by (simp add: heap_inv_def)
  have M: "unat ?M \<le> 2 ^ 31" using ar by (simp add: area_ok_def Let_def)
  note t = area_top [OF ar] and f = free_bounds [OF assms(1)]
  have BM: "unat (?B + ?M) = unat ?B + unat ?M" using t by (simp add: unat_plus_if_small)
  have F: "unat (?F + 0x20) = unat ?F + 32" using t f by (simp add: unat_plus_if_small)
  have r: "rem = (?B + ?M) - (?F + 0x20)" by (simp add: rem_def)
  have "sint rem = int (unat (?B + ?M)) - int (unat (?F + 0x20))" unfolding r using BM F f M by (intro sint_diff) simp_all
  then show s: "sint rem = int (unat ?B + unat ?M) - int (unat ?F) - 32" using BM F by simp
  assume "0 \<le> sint rem"
  then have "unat (?F + 0x20) \<le> unat (?B + ?M)" using s BM F by linarith
  then show "int (unat rem) = sint rem" unfolding r using s r BM F by (simp add: unat_sub word_le_nat_alt)
qed

text \<open>What an allocation does: the entry \<open>e\<close> is new and lies in a gap, and the rest of the heap is as before.\<close>

definition allocated :: "DWORD \<Rightarrow> DWORD \<Rightarrow> DWORD \<Rightarrow> ptr list \<Rightarrow> HEAP_STATE \<Rightarrow> ptr \<Rightarrow> HEAP_STATE \<Rightarrow> bool" where
  "allocated Size Tag al es st e st' \<longleftrightarrow> (\<exists>xs ys a. es = xs @ ys \<and> gap_ok st xs ys e Size \<and> e = place_at a al \<and> unat a + 2 ^ 33 \<le> 2 ^ 64
     \<and> heap_inv st' (xs @ e # ys) \<and> blocks st' (xs @ e # ys) = insert (e + 0x20, unat Size, Tag) (blocks st es)
     \<and> EntryOffset (HeapEntries st' e) = 0x20 \<and> HeapZeroed st' = HeapZeroed st)"

definition ClHeapGap :: "DWORD \<Rightarrow> DWORD \<Rightarrow> DWORD \<Rightarrow> HEAP_STATE \<Rightarrow> (ptr option \<times> HEAP_STATE) option" where
  "ClHeapGap Size Tag al st = do {
     pPreviousEntry \<leftarrow> rd_Flink (HeapLinks st) (EntryToRestartSearch (Header st));
     pCurEntry \<leftarrow> rd_Flink (HeapLinks st) pPreviousEntry;
     ClHeapSearch_loop (ucast Size + SIZEOF_HEAP_ENTRY + SIZEOF_HEAP_TAIL) Tag Size al pPreviousEntry (HeapEntryOf pPreviousEntry) pCurEntry NULL st
   }"

lemma InsertTail_allocated:
  assumes inv: "heap_inv st es" and fit: "size_fits Size st" and g: "gap_ok st es [] e Size" and t: "Tag \<noteq> 0" and e: "e = place_at a al" "unat a + 2 ^ 33 \<le> 2 ^ 64"
  shows "\<exists>links. InsertTailList (HeapLinks st) (HeapAllocations st) (ListEntryOf e) = Some links
     \<and> allocated Size Tag al es st e (upd_header (\<lambda>h. h\<lparr>FreeAddress := e + 0x20 + ucast Size + 4\<rparr>) (placed st e Tag Size links))"
proof -
  have inv': "heap_inv st (es @ [])" using inv by simp
  have ar: "area_ok st" using inv by (simp add: heap_inv_def)
  have "is_list (HeapLinks st) (HeapAllocations st) (map ListEntryOf es)" using inv by (simp add: heap_inv_def)
  from InsertTailList_ok [OF this, of "ListEntryOf e"] new_list_entry [OF inv' g] obtain links
    where l: "InsertTailList (HeapLinks st) (HeapAllocations st) (ListEntryOf e) = Some links" "is_list links (HeapAllocations st) (map ListEntryOf (es @ [e]))"
      "dom links = dom (HeapLinks st)"
    by (auto simp: only_changes_def)
  let ?p = "placed st e Tag Size links"
  have lt: "unat e + unat Size + 36 < 2 ^ 64" using g area_top [OF ar] by (simp add: gap_ok_def)
  then have "unat (e + 0x20 + ucast Size) = unat e + 32 + unat Size" using entry_tail_unat [of ?p e] placed_self(2) [of st e Tag Size links] by (simp add: placed_def)
  then have "unat (e + 0x20 + ucast Size + 4) = unat e + unat Size + 36" using lt by (subst unat_plus_if_small) simp_all
  then have "heap_inv (upd_header (\<lambda>h. h\<lparr>FreeAddress := e + 0x20 + ucast Size + 4, EntryToRestartSearch := EntryToRestartSearch (Header st)\<rparr>) ?p) (es @ [e])"
    using insert_heap_inv [OF inv' g _ t l(2,3)] fit by (simp add: size_fits_def)
  moreover have "upd_header (\<lambda>h. h\<lparr>FreeAddress := e + 0x20 + ucast Size + 4, EntryToRestartSearch := EntryToRestartSearch (Header st)\<rparr>) ?p
      = upd_header (\<lambda>h. h\<lparr>FreeAddress := e + 0x20 + ucast Size + 4\<rparr>) ?p" by (simp add: upd_header_def placed_def)
  ultimately have "heap_inv (upd_header (\<lambda>h. h\<lparr>FreeAddress := e + 0x20 + ucast Size + 4\<rparr>) ?p) (es @ [e])" by simp
  moreover have "EntryOffset (HeapEntries (upd_header f ?p) e) = 0x20" "HeapZeroed (upd_header f ?p) = HeapZeroed st" for f by (simp_all add: placed_def upd_header_def)
  ultimately show ?thesis using l(1) g e insert_blocks [OF g, of _ Tag links] unfolding allocated_def by (metis append_Nil2)
qed

lemma ClHeapPlace_too_big: "\<not> size_fits Size st \<Longrightarrow> ClHeapPlace Size Tag al st = Some (None, st)"
  unfolding ClHeapPlace_def Let_def size_fits_def word_less_nat_alt size_required by simp

lemma ClHeapPlace_step:
  assumes inv: "heap_inv st es" and fit: "size_fits Size st" and al: "al \<noteq> 0"
  defines "F \<equiv> FreeAddress (Header st)"
  defines "rem \<equiv> HeapBaseAddress (Header st) + HeapSizeMaximum (Header st) - F - SIZEOF_HEAP_ENTRY"
  shows "(if sint (ucast Size + SIZEOF_HEAP_ENTRY + SIZEOF_HEAP_TAIL) \<le> sint rem then InitHeapEntry F Tag Size al True rem st else Some (0, NULL, st))
    = (if end_room Size al st then map_option (\<lambda>links. (place_at F al + 0x20 + ucast Size + 4, place_at F al, placed st (place_at F al) Tag Size links))
         (InsertTailList (HeapLinks st) (HeapAllocations st) (ListEntryOf (place_at F al)))
       else Some (0, if sint (ucast Size + SIZEOF_HEAP_ENTRY + SIZEOF_HEAP_TAIL) \<le> sint rem then F else NULL, st))"
proof -
  have ar: "area_ok st" using inv by (simp add: heap_inv_def)
  have F33: "unat F + 2 ^ 33 \<le> 2 ^ 64" using free_bounds [OF inv] area_top [OF ar] unfolding F_def by linarith
  have S: "unat Size + 36 < 2 ^ 32" using size_fits_bound [OF inv fit] by simp
  note r = remaining_end [OF inv, folded F_def, folded rem_def]
  have c: "end_room Size al st \<longleftrightarrow> int (unat Size) + 36 \<le> sint rem \<and> fits F al Size (unat rem)"
  proof (cases "0 \<le> sint rem")
    case True
    then have "int (unat rem) = int (unat (HeapBaseAddress (Header st)) + unat (HeapSizeMaximum (Header st))) - int (unat F) - 32" using r by simp
    then show ?thesis unfolding end_room_def fits_def F_def [symmetric] using place_at_bounds(1) [OF F33 al] r(1) by linarith
  next
    case False
    then show ?thesis unfolding end_room_def F_def [symmetric] using place_at_bounds(1) [OF F33 al] r(1) by linarith
  qed
  show ?thesis unfolding size_required_sint InitHeapEntry_eq [OF F33 al S] c by auto
qed

lemma end_gap_ok:
  assumes inv: "heap_inv st es" and al: "al \<noteq> 0" and room: "end_room Size al st"
  shows "gap_ok st es [] (place_at (FreeAddress (Header st)) al) Size" "unat (FreeAddress (Header st)) + 2 ^ 33 \<le> 2 ^ 64"
proof -
  have i: "area_ok st" "entries_ok st es" "counters_ok st es" using inv by (simp_all add: heap_inv_def)
  note f = free_bounds [OF inv]
  show F33: "unat (FreeAddress (Header st)) + 2 ^ 33 \<le> 2 ^ 64" using f area_top [OF i(1)] by linarith
  have "e_end st x \<le> unat (FreeAddress (Header st))" if x: "x \<in> set es" for x
  proof -
    obtain ys z where es: "es = ys @ [z]" using x by (cases es rule: rev_cases) auto
    then have "unat (FreeAddress (Header st)) = e_end st z" using i(3) by (simp add: counters_ok_def Let_def)
    moreover have "x = z \<or> e_end st x \<le> unat z" using i(2) es x by (auto simp: entries_ok_def Let_def sorted_wrt_append)
    ultimately show ?thesis using e_end_gt [of z st] by auto
  qed
  then show "gap_ok st es [] (place_at (FreeAddress (Header st)) al) Size"
    using f(1) room place_at_bounds(1) [OF F33 al] by (fastforce simp: gap_ok_def end_room_def)
qed

lemma new_end_nz:
  assumes ar: "area_ok st" and g: "gap_ok st xs ys e Size"
  shows "e + 0x20 + ucast Size + 4 \<noteq> 0"
proof -
  let ?p = "placed st e 0 Size Map.empty"
  have "unat e + unat Size + 36 < 2 ^ 64" using g area_top [OF ar] by (simp add: gap_ok_def)
  then show ?thesis
    using entry_tail_unat [of ?p e] placed_self(2) [of st e 0 Size Map.empty] unat_plus_if_small [of "e + 0x20 + ucast Size" 4]
    by (auto simp: placed_def)
qed

lemma ClHeapPlace_end:
  assumes inv: "heap_inv st es" and fit: "size_fits Size st" and t: "Tag \<noteq> 0" "al \<noteq> 0" and room: "end_room Size al st"
  shows "\<exists>e st'. ClHeapPlace Size Tag al st = Some (Some e, st') \<and> allocated Size Tag al es st e st'"
proof -
  let ?F = "FreeAddress (Header st)"
  let ?e = "place_at ?F al"
  note g = end_gap_ok [OF inv t(2) room]
  obtain links where l: "InsertTailList (HeapLinks st) (HeapAllocations st) (ListEntryOf ?e) = Some links"
    "allocated Size Tag al es st ?e (upd_header (\<lambda>h. h\<lparr>FreeAddress := ?e + 0x20 + ucast Size + 4\<rparr>) (placed st ?e Tag Size links))"
    using InsertTail_allocated [OF inv fit g(1) t(1) refl g(2)] by blast
  have le: "\<not> HeapSizeRemaining (Header st) < ucast Size + SIZEOF_HEAP_ENTRY + SIZEOF_HEAP_TAIL"
    using fit unfolding size_fits_def word_less_nat_alt size_required by simp
  have "area_ok st" using inv by (simp add: heap_inv_def)
  from new_end_nz [OF this g(1)] have nz: "?e + 0x20 + ucast Size + 4 \<noteq> 0" .
  have "ClHeapPlace Size Tag al st = Some (Some ?e, upd_header (\<lambda>h. h\<lparr>FreeAddress := ?e + 0x20 + ucast Size + 4\<rparr>) (placed st ?e Tag Size links))"
    unfolding ClHeapPlace_def Let_def ClHeapPlace_step [OF inv fit t(2)] using le room l(1) nz by simp
  then show ?thesis using l(2) by blast
qed

lemma ClHeapPlace_no_room:
  assumes inv: "heap_inv st es" and fit: "size_fits Size st" and al: "al \<noteq> 0" and room: "\<not> end_room Size al st"
  shows "ClHeapPlace Size Tag al st = Some (None, st) \<or> es \<noteq> [] \<and> ClHeapPlace Size Tag al st = ClHeapGap Size Tag al st"
proof -
  have le: "\<not> HeapSizeRemaining (Header st) < ucast Size + SIZEOF_HEAP_ENTRY + SIZEOF_HEAP_TAIL"
    using fit unfolding size_fits_def word_less_nat_alt size_required by simp
  have l: "is_list (HeapLinks st) (HeapAllocations st) (map ListEntryOf es)" using inv by (simp add: heap_inv_def)
  have emp: "IsListEmpty (HeapLinks st) (HeapAllocations st) = Some (es = [])" using is_list_valid [OF l] is_list_Flink [OF l] l by (cases es) (auto simp: IsListEmpty_def ASSERT_def is_list_def)
  let ?h = "Header st"
  let ?before = "HeapSizeRemaining ?h - (HeapBaseAddress ?h + HeapSizeMaximum ?h - FreeAddress ?h - SIZEOF_HEAP_ENTRY) - SIZEOF_HEAP_ENTRY"
  have "?before = 0" if "es = []"
  proof -
    have c: "counters_ok st []" "area_ok st" using inv that by (simp_all add: heap_inv_def)
    have "unat (FreeAddress ?h) = unat (HeapBaseAddress ?h + 0x48)"
      using c area_top [OF c(2)] by (simp add: counters_ok_def Let_def unat_plus_if_small)
    then have "FreeAddress ?h = HeapBaseAddress ?h + 0x48" by (simp add: word_unat_eq_iff)
    moreover have "unat (HeapSizeMaximum ?h) = unat (HeapSizeRemaining ?h + 0x48)"
      using c unat_QWORD_less [of "HeapSizeMaximum ?h"] by (simp add: counters_ok_def Let_def unat_plus_if_small)
    then have "HeapSizeMaximum ?h = HeapSizeRemaining ?h + 0x48" by (simp add: word_unat_eq_iff)
    ultimately show ?thesis by simp
  qed
  moreover have "(0 :: int) < int (unat Size) + 36" by linarith
  ultimately have "es = [] \<Longrightarrow> sint ?before < sint (ucast Size + SIZEOF_HEAP_ENTRY + SIZEOF_HEAP_TAIL)"
    unfolding size_required_sint by simp
  then show ?thesis
    unfolding ClHeapPlace_def Let_def ClHeapPlace_step [OF inv fit al] ClHeapGap_def using le room emp by (auto simp: ASSERT_def)
qed

section \<open>Searching a gap\<close>

lemma ListEntryOf_inj [simp]: "ListEntryOf a = ListEntryOf b \<longleftrightarrow> a = b" by (simp add: ListEntryOf_def)

lemma HeapEntryOf_ListEntryOf [simp]: "HeapEntryOf (ListEntryOf e) = e" by (simp add: HeapEntryOf_def ListEntryOf_def)

text \<open>Two neighbours in the ring are the last entry and the head, or two neighbours of the list.\<close>

lemma ring_pair:
  assumes l: "is_list h head (map ListEntryOf es)" and p: "prev \<in> set (map ListEntryOf es)" and n: "rd_Flink h prev = Some cur"
  shows "if cur = head then es \<noteq> [] \<and> prev = ListEntryOf (last es)
    else \<exists>xs p q ys. es = xs @ p # q # ys \<and> prev = ListEntryOf p \<and> cur = ListEntryOf q"
proof -
  obtain xs e zs where es: "es = xs @ e # zs" "prev = ListEntryOf e" using p by (auto dest!: split_list)
  have ll: "is_list h head (map ListEntryOf (xs @ [e]) @ map ListEntryOf zs)" using l es by simp
  have c: "cur = hd (map ListEntryOf zs @ [head])" using is_list_succ [OF ll] n es(2) by (auto simp: link_def)
  show ?thesis
  proof (cases zs)
    case Nil
    then show ?thesis using c es by simp
  next
    case (Cons q ys)
    then have "cur = ListEntryOf q" "cur \<noteq> head" using c l es by (auto simp: is_list_def)
    then show ?thesis using es Cons by auto
  qed
qed

text \<open>The address after an entry, and a new entry between the neighbours \<open>p\<close> and \<open>q\<close>.\<close>

definition entry_after :: "HEAP_STATE \<Rightarrow> ptr \<Rightarrow> ptr" where
  "entry_after st p = p + SIZEOF_HEAP_ENTRY + ucast (EntrySize (HeapEntries st p)) + SIZEOF_HEAP_TAIL"

lemma entry_after_unat:
  assumes "area_ok st" "entries_ok st es" "p \<in> set es"
  shows "unat (entry_after st p) = e_end st p" "unat (entry_after st p) + 2 ^ 33 \<le> 2 ^ 64"
proof -
  note b = entry_end_lt [OF assms]
  have "unat (p + 0x20 + ucast (EntrySize (HeapEntries st p))) = e_end st p - 4" using b by (intro entry_tail_unat) simp
  then show u: "unat (entry_after st p) = e_end st p" unfolding entry_after_def using b by (subst unat_plus_if_small) (simp_all add: e_end_def)
  show "unat (entry_after st p) + 2 ^ 33 \<le> 2 ^ 64" using u b by simp
qed

definition gap_room :: "DWORD \<Rightarrow> DWORD \<Rightarrow> HEAP_STATE \<Rightarrow> ptr \<Rightarrow> ptr \<Rightarrow> bool" where
  "gap_room Size al st p q \<longleftrightarrow> unat (place_at (entry_after st p) al) + unat Size + 36 \<le> unat q"

lemma neighbours:
  assumes "heap_inv st (xs @ p # q # ys)"
  shows "area_ok st" "entries_ok st (xs @ p # q # ys)" "e_end st p \<le> unat q" "p \<in> set (xs @ p # q # ys)" "q \<in> set (xs @ p # q # ys)"
  using assms by (simp_all add: heap_inv_def entries_ok_def Let_def sorted_wrt_append)

lemma gap_step:
  assumes inv: "heap_inv st (xs @ p # q # ys)" and fit: "size_fits Size st" and al: "al \<noteq> 0"
  defines "a \<equiv> entry_after st p"
  shows "(if sint (ucast Size + SIZEOF_HEAP_ENTRY + SIZEOF_HEAP_TAIL) \<le> sint (q - a) then InitHeapEntry a Tag Size al False (q - a) st else Some (0, NULL, st))
    = Some (if gap_room Size al st p q then (place_at a al + 0x20 + ucast Size + 4, place_at a al, placed st (place_at a al) Tag Size (HeapLinks st))
       else (0, if sint (ucast Size + SIZEOF_HEAP_ENTRY + SIZEOF_HEAP_TAIL) \<le> sint (q - a) then a else NULL, st))"
proof -
  note i = neighbours [OF inv]
  note ea = entry_after_unat [OF i(1,2,4), folded a_def]
  have S: "unat Size + 36 < 2 ^ 32" using size_fits_bound [OF inv fit] by simp
  have q: "e_end st q \<le> unat (HeapBaseAddress (Header st)) + unat (HeapSizeMaximum (Header st))" "unat (HeapBaseAddress (Header st)) \<le> e_end st p"
    using entries_okD(3) [OF i(2,5)] entries_okD(2) [OF i(2,4)] e_end_gt [of p st] by linarith+
  have M: "unat (HeapSizeMaximum (Header st)) \<le> 2 ^ 31" using i(1) by (simp add: area_ok_def Let_def)
  have d: "unat q < unat a + 0x8000000000000000" using q M ea(1) e_end_gt [of q st] by simp
  then have s: "sint (q - a) = int (unat q) - int (unat a)" using ea(1) i(3) by (intro sint_diff) simp_all
  have u: "unat (q - a) = unat q - unat a" using ea(1) i(3) by (simp add: unat_sub word_le_nat_alt)
  have c: "gap_room Size al st p q \<longleftrightarrow> int (unat Size) + 36 \<le> sint (q - a) \<and> fits a al Size (unat (q - a))"
    unfolding gap_room_def fits_def u s a_def [symmetric] using place_at_bounds(1) [OF ea(2) al] ea(1) i(3) by linarith
  show ?thesis unfolding size_required_sint InitHeapEntry_eq [OF ea(2) al S] c by auto
qed

lemma gap_room_ok:
  assumes inv: "heap_inv st (xs @ p # q # ys)" and al: "al \<noteq> 0" and room: "gap_room Size al st p q"
  shows "gap_ok st (xs @ [p]) (q # ys) (place_at (entry_after st p) al) Size"
proof -
  let ?e = "place_at (entry_after st p) al"
  note i = neighbours [OF inv]
  note ea = entry_after_unat [OF i(1,2,4)]
  have ge: "e_end st p \<le> unat ?e" using place_at_bounds(1) [OF ea(2) al] ea(1) by simp
  have sw: "sorted_wrt (\<lambda>e e'. e_end st e \<le> unat e') (xs @ p # q # ys)" using i(2) by (simp add: entries_ok_def Let_def)
  have "e_end st x \<le> unat ?e" if "x \<in> set (xs @ [p])" for x
    using sw that ge e_end_gt [of p st] by (fastforce simp: sorted_wrt_append)
  moreover have "unat ?e + unat Size + 36 \<le> unat y" if "y \<in> set (q # ys)" for y
    using sw that room e_end_gt [of q st] by (fastforce simp: sorted_wrt_append gap_room_def)
  ultimately show ?thesis
    using ge e_end_gt [of p st] e_end_gt [of q st] entries_okD [OF i(2,4)] entries_okD [OF i(2,5)] room by (fastforce simp: gap_ok_def gap_room_def)
qed

lemma ValidateHeapEntry_ok:
  assumes "area_ok st" "entries_ok st es" "e \<in> set es" "Tag \<noteq> 0"
  shows "ValidateHeapEntry e Tag st = Some (Tag = EntryTag (HeapEntries st e))"
proof -
  let ?s = "EntrySize (HeapEntries st e)"
  have k: "entry_ok st e" and b: "unat (HeapBaseAddress (Header st)) + 0x48 \<le> unat e"
    "e_end st e \<le> unat (HeapBaseAddress (Header st)) + unat (HeapSizeMaximum (Header st))" using entries_okD [OF assms(2,3)] by simp_all
  have "unat (HeapSizeMaximum (Header st)) \<le> 2 ^ 31" using assms(1) by (simp add: area_ok_def Let_def)
  then have s: "unat ?s + 36 < 2 ^ 32" using b unfolding e_end_def e_size_def by simp
  have nz: "e \<noteq> 0" using b(1) by auto
  have "unat (SIZEOF_HEAP_ENTRY + ucast ?s + SIZEOF_HEAP_TAIL) = unat ?s + 36" using size_required [of ?s] by (simp add: ac_simps)
  then have "unat (ucast (SIZEOF_HEAP_ENTRY + ucast ?s + SIZEOF_HEAP_TAIL) :: DWORD) = unat ?s + 36"
    using s by (simp add: unat_ucast_DWORD)
  then have "ucast (ucast (SIZEOF_HEAP_ENTRY + ucast ?s + SIZEOF_HEAP_TAIL) :: DWORD) = ucast ?s + (36 :: QWORD)"
    using size_required [of ?s] by (simp add: word_unat_eq_iff unat_ucast_QWORD add.assoc)
  then have "e + ucast (ucast (SIZEOF_HEAP_ENTRY + ucast ?s + SIZEOF_HEAP_TAIL) :: DWORD) - SIZEOF_HEAP_TAIL = e + 0x20 + ucast ?s"
    by (simp only:) simp
  then show ?thesis using k nz assms(4) unfolding ValidateHeapEntry_def Let_def by (auto simp: entry_ok_def Let_def ASSERT_def ac_simps)
qed

lemma gap_fill:
  assumes inv: "heap_inv st (xs @ p # q # ys)" and fit: "size_fits Size st" and t: "Tag \<noteq> 0" "al \<noteq> 0" and room: "gap_room Size al st p q"
  defines "e \<equiv> place_at (entry_after st p) al"
  defines "st1 \<equiv> placed st e Tag Size (HeapLinks st)"
  shows "\<exists>links. ValidateHeapEntry p (EntryTag (HeapEntries st1 p)) st1 = Some True \<and> InsertHeadList (HeapLinks st1) (ListEntryOf p) (ListEntryOf e) = Some links
     \<and> allocated Size Tag al (xs @ p # q # ys) st e (upd_header (\<lambda>h. h\<lparr>EntryToRestartSearch := ListEntryOf e\<rparr>) (st1\<lparr>HeapLinks := links\<rparr>))"
proof -
  note i = neighbours [OF inv]
  note ea = entry_after_unat [OF i(1,2,4)]
  note g = gap_room_ok [OF inv t(2) room, folded e_def]
  have inv': "heap_inv st ((xs @ [p]) @ q # ys)" using inv by simp
  have l: "is_list (HeapLinks st) (HeapAllocations st) (map ListEntryOf (xs @ [p]) @ map ListEntryOf (q # ys))" using inv by (simp add: heap_inv_def)
  have new: "ListEntryOf e \<notin> set (HeapAllocations st # map ListEntryOf (xs @ [p]) @ map ListEntryOf (q # ys))" using new_list_entry(2) [OF inv' g] by simp
  obtain links where k: "InsertHeadList (HeapLinks st) (ListEntryOf p) (ListEntryOf e) = Some links"
    "is_list links (HeapAllocations st) (map ListEntryOf ((xs @ [p]) @ e # q # ys))" "dom links = dom (HeapLinks st)"
    using InsertHeadList_after [OF l new_list_entry(1) [OF inv' g] new] by (auto simp: only_changes_def)
  have "entries_ok st1 ((xs @ [p]) @ e # q # ys)" unfolding st1_def by (rule gap_entries_ok [OF i(1) _ g t(1)]) (use i(2) in simp)
  moreover have "area_ok st1" using i(1) by (simp add: st1_def placed_def area_ok_def Let_def)
  moreover have "EntryTag (HeapEntries st1 p) \<noteq> 0" using entries_okD(1) [OF i(2,4)] gap_ok_new [OF g, of p] by (simp add: st1_def placed_other entry_ok_def Let_def)
  ultimately have v: "ValidateHeapEntry p (EntryTag (HeapEntries st1 p)) st1 = Some True" using ValidateHeapEntry_ok [of st1 _ p] by simp
  let ?f = "\<lambda>h. h\<lparr>FreeAddress := FreeAddress (Header st), EntryToRestartSearch := ListEntryOf e\<rparr>"
  have eq: "upd_header (\<lambda>h. h\<lparr>EntryToRestartSearch := ListEntryOf e\<rparr>) (st1\<lparr>HeapLinks := links\<rparr>) = upd_header ?f (placed st e Tag Size links)"
    by (simp add: st1_def placed_def upd_header_def)
  have "heap_inv (upd_header ?f (placed st e Tag Size links)) ((xs @ [p]) @ e # q # ys)"
    using insert_heap_inv [OF inv' g _ t(1) k(2,3)] fit by (simp add: size_fits_def)
  moreover have "EntryOffset (HeapEntries (upd_header ?f (placed st e Tag Size links)) e) = 0x20" "HeapZeroed (upd_header ?f (placed st e Tag Size links)) = HeapZeroed st"
    by (simp_all add: placed_def upd_header_def)
  ultimately have "allocated Size Tag al (xs @ p # q # ys) st e (upd_header ?f (placed st e Tag Size links))"
    unfolding allocated_def using g insert_blocks [OF g, of ?f Tag links] ea(2) e_def
    by (intro exI [of _ "xs @ [p]"] exI [of _ "q # ys"] exI [of _ "entry_after st p"]) simp
  moreover have "HeapLinks st1 = HeapLinks st" by (simp add: st1_def placed_def)
  ultimately show ?thesis using v k(1) by (intro exI [of _ links]) (simp add: eq)
qed

definition found_ok :: "DWORD \<Rightarrow> DWORD \<Rightarrow> DWORD \<Rightarrow> ptr list \<Rightarrow> HEAP_STATE \<Rightarrow> ptr option \<times> HEAP_STATE \<Rightarrow> bool" where
  "found_ok Size Tag al es st r \<longleftrightarrow> (case r of (None, st') \<Rightarrow> st' = st | (Some e, st') \<Rightarrow> allocated Size Tag al es st e st')"

lemma entry_nonnull: "entries_ok st es \<Longrightarrow> e \<in> set es \<Longrightarrow> e \<noteq> 0"
  using entries_okD(2) [of st es e] by auto

text \<open>The last entry does not lie before another one: the stale pointer never finds a gap.\<close>

lemma stale_step:
  assumes inv: "heap_inv st (xs @ p # q # ys)"
  shows "\<not> sint (ucast (Size :: DWORD) + SIZEOF_HEAP_ENTRY + SIZEOF_HEAP_TAIL) \<le> sint (q - entry_after st (last (q # ys)))"
proof -
  note i = neighbours [OF inv]
  let ?l = "last (q # ys)"
  have l: "?l \<in> set (xs @ p # q # ys)" by simp
  note ea = entry_after_unat [OF i(1,2) l]
  have le: "unat q < e_end st ?l"
    using i(2) e_end_gt [of q st] e_end_gt [of ?l st] by (cases ys rule: rev_cases) (auto simp: entries_ok_def Let_def sorted_wrt_append)
  have "e_end st ?l \<le> unat q + unat (HeapSizeMaximum (Header st))"
    using entries_okD(3) [OF i(2) l] entries_okD(2) [OF i(2,5)] by linarith
  moreover have "unat (HeapSizeMaximum (Header st)) \<le> 2 ^ 31" using i(1) by (simp add: area_ok_def Let_def)
  ultimately have "sint (q - entry_after st ?l) = int (unat q) - int (unat (entry_after st ?l))" using ea(1) le by (intro sint_diff) simp_all
  then show ?thesis unfolding size_required_sint using le ea(1) by linarith
qed

text \<open>
  The search from \<open>pPreviousEntry\<close> through \<open>rest\<close> to the entry where it started: what it finds is an allocation, and it
  returns if the pointers to the headers are not null when they are used.
\<close>

lemma search_loop:
  assumes inv: "heap_inv st es" and ne: "es \<noteq> []" and fit: "size_fits Size st" and t: "Tag \<noteq> 0" "al \<noteq> 0"
    and r: "EntryToRestartSearch (Header st) = r"
    and seg: "lseg (HeapLinks st) prev rest r" "r \<notin> set rest" "set (prev # rest) \<subseteq> set (HeapAllocations st # map ListEntryOf es)"
    and pv: "pHE \<in> {NULL, last es} \<or> prev = HeapAllocations st \<or> pHE = HeapEntryOf prev"
    and cv: "cHE \<in> {NULL, last es} \<or> prev \<noteq> HeapAllocations st \<and> cHE = HeapEntryOf prev"
  shows "(\<forall>res. ClHeapSearch_loop (ucast Size + SIZEOF_HEAP_ENTRY + SIZEOF_HEAP_TAIL) Tag Size al prev pHE (hd (rest @ [r])) cHE st = Some res
       \<longrightarrow> found_ok Size Tag al es st res)
    \<and> (pHE \<noteq> NULL \<and> (cHE \<noteq> NULL \<or> prev \<noteq> HeapAllocations st \<and> hd (rest @ [r]) \<noteq> HeapAllocations st)
       \<longrightarrow> ClHeapSearch_loop (ucast Size + SIZEOF_HEAP_ENTRY + SIZEOF_HEAP_TAIL) Tag Size al prev pHE (hd (rest @ [r])) cHE st \<noteq> None)"
  using seg pv cv
proof (induction rest arbitrary: prev pHE cHE)
  case Nil
  then show ?case using r by (simp add: ClHeapSearch_loop.simps found_ok_def)
next
  case (Cons cur rest)
  let ?H = "HeapAllocations st" and ?loop = "ClHeapSearch_loop (ucast Size + SIZEOF_HEAP_ENTRY + SIZEOF_HEAP_TAIL) Tag Size al"
  have l: "is_list (HeapLinks st) ?H (map ListEntryOf es)" and en: "entries_ok st es" using inv by (simp_all add: heap_inv_def)
  have nx: "rd_Flink (HeapLinks st) prev = Some cur" using Cons.prems(1) by (simp add: link_def)
  have sg: "lseg (HeapLinks st) cur rest r" "r \<notin> set rest" "set (cur # rest) \<subseteq> set (?H # map ListEntryOf es)" "cur \<noteq> r" using Cons.prems(1-3) by auto
  have nc: "rd_Flink (HeapLinks st) cur = Some (hd (rest @ [r]))" using lseg_first [OF sg(1)] .
  note IH = Cons.IH [OF sg(1-3)]
  show ?case
  proof (cases "cur = ?H \<or> prev = ?H")
    case True
    have u: "?loop prev pHE (hd ((cur # rest) @ [r])) cHE st = ?loop cur cHE (hd (rest @ [r])) cHE st"
      using True sg(4) r nc by (subst ClHeapSearch_loop.simps) auto
    have "prev \<noteq> ?H \<Longrightarrow> prev \<in> set (map ListEntryOf es)" using Cons.prems(3) by auto
    then have "prev \<noteq> ?H \<Longrightarrow> HeapEntryOf prev = last es" using True ring_pair [OF l _ nx] by auto
    then have "cHE \<in> {NULL, last es}" using Cons.prems(5) by auto
    then show ?thesis unfolding u using IH [of cHE cHE] True by auto
  next
    case False
    have "prev \<in> set (map ListEntryOf es)" using False Cons.prems(3) by auto
    then obtain xs p q ys where es: "es = xs @ p # q # ys" "prev = ListEntryOf p" "cur = ListEntryOf q" using ring_pair [OF l _ nx] False by auto
    have inv': "heap_inv st (xs @ p # q # ys)" using inv es by simp
    have q: "q \<noteq> 0" using entry_nonnull [OF en, of q] es by simp
    have pc: "pHE = NULL \<or> pHE = last (q # ys) \<or> pHE = p" using Cons.prems(4) False es by auto
    have cont: "(\<forall>res. ?loop cur q (hd (rest @ [r])) q st = Some res \<longrightarrow> found_ok Size Tag al es st res) \<and> ?loop cur q (hd (rest @ [r])) q st \<noteq> None"
      using IH [of q q] es q False by auto
    let ?a = "entry_after st pHE"
    have hc: "hd ((cur # rest) @ [r]) = cur" by simp
    have br: "(EntryToRestartSearch (Header st) = cur) = False" "(cur = ?H \<or> prev = ?H) = False" "HeapEntryOf cur = q" using False sg(4) r es(3) by auto
    have u: "?loop prev pHE (hd ((cur # rest) @ [r])) cHE st = do {
        ASSERT (NULL \<noteq> pHE);
        (tempAddress, pNewHeapEntry, st') \<leftarrow> (if sint (ucast Size + SIZEOF_HEAP_ENTRY + SIZEOF_HEAP_TAIL) \<le> sint (q - ?a)
           then InitHeapEntry ?a Tag Size al False (q - ?a) st else Some (0, NULL, st));
        if 0 = tempAddress then do {
          nxt \<leftarrow> rd_Flink (HeapLinks st') cur;
          ?loop cur q nxt q st'
        }
        else do {
          v \<leftarrow> ValidateHeapEntry pHE (EntryTag (HeapEntries st' pHE)) st';
          ASSERT v;
          links \<leftarrow> InsertHeadList (HeapLinks st') prev (ListEntryOf pNewHeapEntry);
          Some (Some pNewHeapEntry, upd_header (\<lambda>h. h\<lparr>EntryToRestartSearch := ListEntryOf pNewHeapEntry\<rparr>) (st'\<lparr>HeapLinks := links\<rparr>))
        }
      }"
      unfolding hc by (subst ClHeapSearch_loop.simps) (simp only: br if_False Let_def entry_after_def)
    consider "pHE = NULL" | "pHE \<noteq> NULL" "pHE = last (q # ys)" | "pHE = p" "pHE \<noteq> NULL" "gap_room Size al st p q" | "pHE = p" "pHE \<noteq> NULL" "\<not> gap_room Size al st p q"
      using pc by blast
    then show ?thesis
    proof cases
      case 1
      then show ?thesis unfolding u by (simp add: ASSERT_def)
    next
      case 2
      then have "?loop prev pHE (hd ((cur # rest) @ [r])) cHE st = ?loop cur q (hd (rest @ [r])) q st"
        unfolding u using stale_step [OF inv', of Size] nc by (simp add: ASSERT_def del: last.simps)
      then show ?thesis using cont by simp
    next
      case 3
      let ?e = "place_at (entry_after st p) al"
      let ?st1 = "placed st ?e Tag Size (HeapLinks st)"
      obtain links where g: "ValidateHeapEntry p (EntryTag (HeapEntries ?st1 p)) ?st1 = Some True" "InsertHeadList (HeapLinks ?st1) (ListEntryOf p) (ListEntryOf ?e) = Some links"
        "allocated Size Tag al (xs @ p # q # ys) st ?e (upd_header (\<lambda>h. h\<lparr>EntryToRestartSearch := ListEntryOf ?e\<rparr>) (?st1\<lparr>HeapLinks := links\<rparr>))"
        using gap_fill [OF inv' fit t 3(3)] by blast
      have "area_ok st" using inv by (simp add: heap_inv_def)
      note nz = new_end_nz [OF this gap_room_ok [OF inv' t(2) 3(3)]]
      have "NULL \<noteq> p" using 3(1,2) by simp
      then have "?loop prev pHE (hd ((cur # rest) @ [r])) cHE st = Some (Some ?e, upd_header (\<lambda>h. h\<lparr>EntryToRestartSearch := ListEntryOf ?e\<rparr>) (?st1\<lparr>HeapLinks := links\<rparr>))"
        unfolding 3(1) u [unfolded 3(1)] gap_step [OF inv' fit t(2)] using nz g(1,2) 3(3) es(2) by (simp add: ASSERT_def)
      then show ?thesis using g(3) es(1) by (simp add: found_ok_def)
    next
      case 4
      then have "?loop prev pHE (hd ((cur # rest) @ [r])) cHE st = ?loop cur q (hd (rest @ [r])) q st"
        unfolding 4(1) u [unfolded 4(1)] gap_step [OF inv' fit t(2)] using nc by (simp add: ASSERT_def)
      then show ?thesis using cont by simp
    qed
  qed
qed

text \<open>The restart entry is the head, or at least two entries come after it: then the search meets no null pointer.\<close>

definition search_safe :: "HEAP_STATE \<Rightarrow> ptr list \<Rightarrow> bool" where
  "search_safe st es \<longleftrightarrow> EntryToRestartSearch (Header st) \<in> set (HeapAllocations st # map ListEntryOf (take (length es - 2) es))"

lemma ring_from:
  assumes "is_list h head xs" and "r \<in> set (head # xs)"
  shows "\<exists>ring. is_list h r ring \<and> set (r # ring) = set (head # xs) \<and> length ring = length xs
    \<and> (if r = head then ring = xs else \<exists>as bs. xs = as @ r # bs \<and> ring = bs @ head # as)"
proof (cases "r = head")
  case True
  then show ?thesis using assms by auto
next
  case False
  then obtain as bs where "xs = as @ r # bs" using assms(2) by (auto dest!: split_list)
  then show ?thesis using False assms(1) is_list_rotate [of h head as r bs] by (intro exI [of _ "bs @ head # as"]) auto
qed

lemma search_start:
  assumes inv: "heap_inv st es" and ne: "es \<noteq> []"
  defines "r \<equiv> EntryToRestartSearch (Header st)"
  shows "\<exists>prev rest. rd_Flink (HeapLinks st) r = Some prev \<and> lseg (HeapLinks st) prev rest r \<and> r \<notin> set rest
    \<and> set (prev # rest) \<subseteq> set (HeapAllocations st # map ListEntryOf es)
    \<and> (search_safe st es \<longrightarrow> prev \<in> set (map ListEntryOf es) \<and> (rest = [] \<or> hd rest \<noteq> HeapAllocations st))"
proof -
  let ?H = "HeapAllocations st"
  have l: "is_list (HeapLinks st) ?H (map ListEntryOf es)" and rin: "r \<in> set (?H # map ListEntryOf es)" using inv by (simp_all add: heap_inv_def r_def)
  obtain ring where ring: "is_list (HeapLinks st) r ring" "set (r # ring) = set (?H # map ListEntryOf es)" "length ring = length es"
    "if r = ?H then ring = map ListEntryOf es else \<exists>as bs. map ListEntryOf es = as @ r # bs \<and> ring = bs @ ?H # as"
    using ring_from [OF l rin] by auto
  obtain prev rest where pr: "ring = prev # rest" using ring(3) ne by (cases ring) auto
  have d: "?H \<notin> set (map ListEntryOf es)" "distinct (map ListEntryOf es)" using l by (simp_all add: is_list_def)
  have "prev \<in> set (map ListEntryOf es) \<and> (rest = [] \<or> hd rest \<noteq> ?H)" if safe: "search_safe st es"
  proof (cases "r = ?H")
    case True
    then have "map ListEntryOf es = prev # rest" using ring(4) pr by simp
    then show ?thesis using d(1) by (cases rest) auto
  next
    case False
    then obtain as bs where ab: "map ListEntryOf es = as @ r # bs" "ring = bs @ ?H # as" using ring(4) by auto
    have "r \<in> set (take (length (as @ r # bs) - 2) (as @ r # bs))" using safe False ab(1) unfolding search_safe_def r_def by (metis length_map set_ConsD take_map)
    moreover have "distinct (as @ r # bs)" using d(2) ab(1) by simp
    ultimately obtain y0 y1 ys where bs: "bs = y0 # y1 # ys" by (cases bs; cases "tl bs") (auto dest: in_set_takeD)
    then have "prev = y0" "rest = (y1 # ys) @ ?H # as" using pr ab(2) by simp_all
    moreover have "y0 \<in> set (map ListEntryOf es)" "y1 \<in> set (map ListEntryOf es)" unfolding ab(1) bs by simp_all
    ultimately show ?thesis using d(1) by (metis append_Cons list.sel(1))
  qed
  moreover have "rd_Flink (HeapLinks st) r = Some prev" using is_list_Flink [OF ring(1)] pr by simp
  moreover have "lseg (HeapLinks st) prev rest r" "r \<notin> set rest" "set (prev # rest) \<subseteq> set (?H # map ListEntryOf es)" using ring(1,2) pr by (auto simp: is_list_def)
  ultimately show ?thesis by blast
qed

lemma ClHeapGap_ok:
  assumes inv: "heap_inv st es" and ne: "es \<noteq> []" and fit: "size_fits Size st" and t: "Tag \<noteq> 0" "al \<noteq> 0"
  shows "ClHeapGap Size Tag al st = Some res \<Longrightarrow> found_ok Size Tag al es st res" "search_safe st es \<Longrightarrow> ClHeapGap Size Tag al st \<noteq> None"
proof -
  let ?r = "EntryToRestartSearch (Header st)"
  obtain prev rest where s: "rd_Flink (HeapLinks st) ?r = Some prev" "lseg (HeapLinks st) prev rest ?r" "?r \<notin> set rest"
    "set (prev # rest) \<subseteq> set (HeapAllocations st # map ListEntryOf es)"
    "search_safe st es \<longrightarrow> prev \<in> set (map ListEntryOf es) \<and> (rest = [] \<or> hd rest \<noteq> HeapAllocations st)"
    using search_start [OF inv ne] by blast
  note k = search_loop [OF inv ne fit t refl s(2-4), of "HeapEntryOf prev" NULL]
  have eq: "ClHeapGap Size Tag al st = ClHeapSearch_loop (ucast Size + SIZEOF_HEAP_ENTRY + SIZEOF_HEAP_TAIL) Tag Size al prev (HeapEntryOf prev) (hd (rest @ [?r])) NULL st"
    using s(1) lseg_first [OF s(2)] by (simp add: ClHeapGap_def)
  show "ClHeapGap Size Tag al st = Some res \<Longrightarrow> found_ok Size Tag al es st res" unfolding eq using k by simp
  assume "search_safe st es"
  then have p: "prev \<in> set (map ListEntryOf es)" "rest = [] \<or> hd rest \<noteq> HeapAllocations st" using s(5) by auto
  show "ClHeapGap Size Tag al st \<noteq> None"
  proof (cases "rest = []")
    case True
    then show ?thesis unfolding eq by (simp add: ClHeapSearch_loop.simps)
  next
    case False
    have i: "entries_ok st es" "is_list (HeapLinks st) (HeapAllocations st) (map ListEntryOf es)" using inv by (simp_all add: heap_inv_def)
    obtain x where x: "x \<in> set es" "prev = ListEntryOf x" using p(1) by auto
    have "HeapEntryOf prev \<noteq> NULL" using x entry_nonnull [OF i(1)] by simp
    moreover have "prev \<noteq> HeapAllocations st" using p(1) i(2) by (metis distinct.simps(2) is_list_def)
    ultimately show ?thesis unfolding eq using k p(2) False by simp
  qed
qed

lemma ClHeapPlace_ok:
  assumes inv: "heap_inv st es" and t: "Tag \<noteq> 0" "al \<noteq> 0"
  shows "ClHeapPlace Size Tag al st = Some res \<Longrightarrow> found_ok Size Tag al es st res"
    "search_safe st es \<or> size_fits Size st \<and> end_room Size al st \<Longrightarrow> ClHeapPlace Size Tag al st \<noteq> None"
    "size_fits Size st \<Longrightarrow> end_room Size al st \<Longrightarrow> \<exists>e st'. ClHeapPlace Size Tag al st = Some (Some e, st')"
proof -
  let ?P = "ClHeapPlace Size Tag al st"
  consider (no) "?P = Some (None, st)" "\<not> (size_fits Size st \<and> end_room Size al st)" | (e) e st' where "?P = Some (Some e, st')" "allocated Size Tag al es st e st'"
    | (gap) "?P = ClHeapGap Size Tag al st" "es \<noteq> []" "size_fits Size st" "\<not> end_room Size al st"
    using ClHeapPlace_too_big [of Size st Tag al] ClHeapPlace_end [OF inv _ t, of Size] ClHeapPlace_no_room [OF inv _ t(2), of Size Tag] by blast
  note c = this
  show "?P = Some res \<Longrightarrow> found_ok Size Tag al es st res" by (cases rule: c) (auto simp: found_ok_def dest: ClHeapGap_ok(1) [OF inv _ _ t])
  show "search_safe st es \<or> size_fits Size st \<and> end_room Size al st \<Longrightarrow> ?P \<noteq> None" by (cases rule: c) (simp_all add: ClHeapGap_ok(2) [OF inv _ _ t] del: not_None_eq)
  show "size_fits Size st \<Longrightarrow> end_room Size al st \<Longrightarrow> \<exists>e st'. ?P = Some (Some e, st')" by (cases rule: c) simp_all
qed

section \<open>Freeing\<close>

text \<open>The state after the entry \<open>e\<close> was unlinked and overwritten.\<close>

definition freed :: "HEAP_STATE \<Rightarrow> ptr \<Rightarrow> lheap \<Rightarrow> QWORD \<Rightarrow> HEAP_STATE" where
  "freed st e links f = st\<lparr>HeapLinks := links,
     HeapEntries := (HeapEntries st)(e := \<lparr>EntryMagic = HEAP_FREE_DWORD, EntryTag = HEAP_FREE_DWORD, EntrySize = HEAP_FREE_DWORD, EntryOffset = HEAP_FREE_DWORD\<rparr>),
     HeapTails := (HeapTails st)(e + 0x20 + ucast (EntrySize (HeapEntries st e)) := HEAP_FREE_DWORD),
     Header := (Header st)\<lparr>HeapSizeRemaining := HeapSizeRemaining (Header st) + (ucast (EntrySize (HeapEntries st e)) + 36),
       HeapNumberOfAllocations := HeapNumberOfAllocations (Header st) - 1, FreeAddress := f\<rparr>\<rparr>"

lemma freed_other:
  assumes "x \<noteq> e"
  shows "HeapEntries (freed st e links f) x = HeapEntries st x" "e_size (freed st e links f) x = e_size st x" "e_end (freed st e links f) x = e_end st x"
  using assms by (simp_all add: freed_def e_size_def e_end_def)

lemma entries_split:
  assumes "entries_ok st (xs @ e # ys)"
  shows "x \<in> set xs \<Longrightarrow> e_end st x \<le> unat e" "y \<in> set ys \<Longrightarrow> e_end st e \<le> unat y" "x \<in> set (xs @ ys) \<Longrightarrow> x \<noteq> e"
  using assms e_end_gt [of e st] by (auto simp: entries_ok_def Let_def sorted_wrt_append)

lemma free_entries_ok:
  assumes inv: "area_ok st" "entries_ok st (xs @ e # ys)"
  shows "entries_ok (freed st e links f) (xs @ ys)"
proof -
  let ?s = "freed st e links f"
  note sp = entries_split [OF inv(2)]
  have hd: "HeapBaseAddress (Header ?s) = HeapBaseAddress (Header st)" "HeapSizeMaximum (Header ?s) = HeapSizeMaximum (Header st)" by (simp_all add: freed_def)
  have lt: "e_end st x < 2 ^ 64" if "x \<in> set (xs @ e # ys)" for x using entry_end_lt [OF inv that] by simp
  have ok: "entry_ok ?s x" if x: "x \<in> set (xs @ ys)" for x
  proof -
    have x': "x \<in> set (xs @ e # ys)" using x by auto
    have "e_end st x \<le> unat e \<or> e_end st e \<le> unat x" using x sp(1,2) by auto
    then have "e_end st x - 4 \<noteq> e_end st e - 4" by (auto simp: e_end_def)
    then have "x + 0x20 + ucast (EntrySize (HeapEntries st x)) \<noteq> e + 0x20 + ucast (EntrySize (HeapEntries st e))"
      using entry_tail_unat [OF lt [OF x']] entry_tail_unat [OF lt, of e] by (metis in_set_conv_decomp)
    then show ?thesis using entries_okD(1) [OF inv(2) x'] sp(3) [OF x] by (simp add: entry_ok_def freed_def Let_def)
  qed
  have "sorted_wrt (\<lambda>a b. e_end st a \<le> unat b) (xs @ ys)" using inv(2) by (simp add: entries_ok_def Let_def sorted_wrt_append)
  then have "sorted_wrt (\<lambda>a b. e_end ?s a \<le> unat b) (xs @ ys)" by (rule sorted_wrt_mono_rel [rotated]) (simp add: freed_other sp(3))
  then show ?thesis using inv(2) ok by (auto simp: entries_ok_def Let_def hd freed_other sp(3))
qed

lemma free_counters_ok:
  assumes inv: "area_ok st" "entries_ok st (xs @ e # ys)" and c: "counters_ok st (xs @ e # ys)"
    and f: "unat f = (if ys \<noteq> [] then unat (FreeAddress (Header st)) else if xs = [] then unat (HeapBaseAddress (Header st)) + 0x48 else e_end st (last xs))"
  shows "counters_ok (freed st e links f) (xs @ ys)"
proof -
  let ?s = "freed st e links f" and ?S = "EntrySize (HeapEntries st e)"
  note sp = entries_split [OF inv(2)]
  have sum: "(\<Sum>x\<leftarrow>zs. e_size ?s x + 36) = (\<Sum>x\<leftarrow>zs. e_size st x + 36)" if "set zs \<subseteq> set (xs @ ys)" for zs
    using that sp(3) by (intro arg_cong [where f = sum_list] map_cong refl) (auto simp: freed_other)
  have tot: "unat (HeapSizeRemaining (Header st)) + (\<Sum>x\<leftarrow>xs @ ys. e_size st x + 36) + (unat ?S + 36) + 0x48 = unat (HeapSizeMaximum (Header st))"
    using c by (simp add: counters_ok_def Let_def e_size_def)
  have s36: "unat (ucast ?S + 36 :: QWORD) = unat ?S + 36" using size_required [of ?S] by (simp add: add.assoc)
  have "unat (HeapSizeMaximum (Header st)) \<le> 2 ^ 31" using inv(1) by (simp add: area_ok_def Let_def)
  then have "unat (HeapSizeRemaining (Header st)) + (unat ?S + 36) < 2 ^ 64" using tot by simp
  then have rem: "unat (HeapSizeRemaining (Header st) + (ucast ?S + 36)) = unat (HeapSizeRemaining (Header st)) + (unat ?S + 36)"
    using s36 unat_plus_if_small [of "HeapSizeRemaining (Header st)" "ucast ?S + 36"] by simp
  have "xs @ ys \<noteq> [] \<Longrightarrow> e_end ?s (last (xs @ ys)) = e_end st (last (xs @ ys))" using freed_other(3) [OF sp(3) [OF last_in_set]] by blast
  then have fr: "unat f = (if xs @ ys = [] then unat (HeapBaseAddress (Header st)) + 0x48 else e_end ?s (last (xs @ ys)))"
    using f c by (auto simp: counters_ok_def Let_def)
  have hd: "HeapSizeRemaining (Header ?s) = HeapSizeRemaining (Header st) + (ucast ?S + 36)" "HeapNumberOfAllocations (Header ?s) = HeapNumberOfAllocations (Header st) - 1"
    "HeapSizeMaximum (Header ?s) = HeapSizeMaximum (Header st)" "FreeAddress (Header ?s) = f" "HeapBaseAddress (Header ?s) = HeapBaseAddress (Header st)"
    by (simp_all add: freed_def)
  have "HeapNumberOfAllocations (Header st) = of_nat (length (xs @ ys)) + 1" using c by (simp add: counters_ok_def Let_def)
  then show ?thesis unfolding counters_ok_def Let_def hd rem using fr tot sum [of "xs @ ys"] by simp
qed

lemma ClHeapFree_step:
  assumes inv: "heap_inv st (xs @ e # ys)" and t: "Tag = EntryTag (HeapEntries st e)"
  defines "f \<equiv> if ys \<noteq> [] then FreeAddress (Header st) else if xs = [] then HeapBaseAddress (Header st) + SIZEOF_HEAP_HEADER else entry_after st (last xs)"
  shows "\<exists>links. ClHeapFreePoolWithTag (e + 0x20) Tag st = Some (freed st e links f)
     \<and> is_list links (HeapAllocations st) (map ListEntryOf (xs @ ys)) \<and> dom links = dom (HeapLinks st)"
proof -
  let ?S = "EntrySize (HeapEntries st e)" and ?H = "HeapAllocations st"
  have i: "area_ok st" "entries_ok st (xs @ e # ys)" "counters_ok st (xs @ e # ys)" and l: "is_list (HeapLinks st) ?H (map ListEntryOf xs @ ListEntryOf e # map ListEntryOf ys)"
    using inv by (simp_all add: heap_inv_def)
  have e: "e \<in> set (xs @ e # ys)" by simp
  note sp = entries_split [OF i(2)]
  have "unat (e + 0x20) = unat e + 32" using entry_end_lt [OF i(1,2) e] by (simp add: unat_plus_if_small e_end_def)
  then have nz: "e + 0x20 \<noteq> 0" by auto
  have tag: "Tag \<noteq> 0" using entries_okD(1) [OF i(2) e] t by (simp add: entry_ok_def Let_def)
  have v: "ValidateHeapEntry e Tag st = Some True" using ValidateHeapEntry_ok [OF i(1,2) e tag] t by simp
  obtain links0 b where r: "RemoveEntryList (HeapLinks st) (ListEntryOf e) = Some (b, links0)" "is_list links0 ?H (map ListEntryOf (xs @ ys))"
    "only_changes (set (?H # map ListEntryOf (xs @ ys))) (HeapLinks st) links0"
    using RemoveEntryList_ok [OF l] by auto
  let ?links = "links0(ListEntryOf e \<mapsto> \<lparr>Flink = HEAP_FREE_QWORD, Blink = HEAP_FREE_QWORD\<rparr>)"
  have eh: "ListEntryOf e \<noteq> ?H" "ListEntryOf e \<notin> set (map ListEntryOf (xs @ ys))" using l by (auto simp: is_list_def)
  have li: "is_list ?links ?H (map ListEntryOf (xs @ ys))" using r(2) by (rule is_list_frame) (use eh in auto)
  have dm: "dom ?links = dom (HeapLinks st)" using r(3) is_list_dom [OF l] by (auto simp: only_changes_def)
  have bl: "rd_Blink (HeapLinks st) (ListEntryOf e) = Some (last (?H # map ListEntryOf xs))"
    using is_list_Blink [OF is_list_rotate [THEN iffD1, OF l]] by (simp add: last_map)
  have pl: "xs \<noteq> [] \<Longrightarrow> last (?H # map ListEntryOf xs) = ListEntryOf (last xs)" by (simp add: last_map)
  have lx: "xs \<noteq> [] \<Longrightarrow> ListEntryOf (last xs) \<noteq> ?H \<and> ListEntryOf (last xs) \<noteq> 0"
  proof
    assume "xs \<noteq> []"
    then have m: "last xs \<in> set (xs @ e # ys)" by simp
    have "?H \<notin> ListEntryOf ` set (xs @ e # ys)" using l by (simp add: is_list_def image_Un)
    then show "ListEntryOf (last xs) \<noteq> ?H" using m by (metis imageI)
    have "unat (last xs + 0x10) = unat (last xs) + 16" using entry_end_lt [OF i(1,2) m] by (simp add: unat_plus_if_small e_end_def)
    then show "ListEntryOf (last xs) \<noteq> 0" by (auto simp: ListEntryOf_def)
  qed
  have en: "e + 0x20 + ucast ?S + SIZEOF_HEAP_TAIL = FreeAddress (Header st) \<longleftrightarrow> ys = []"
  proof -
    have "unat (e + 0x20 + ucast ?S + SIZEOF_HEAP_TAIL) = e_end st e" using entry_after_unat(1) [OF i(1,2) e] by (simp only: entry_after_def)
    moreover have "unat (FreeAddress (Header st)) = e_end st (last (e # ys))" using i(3) by (simp add: counters_ok_def Let_def)
    moreover have "ys \<noteq> [] \<Longrightarrow> e_end st e < e_end st (last ys)" using sp(2) [OF last_in_set] e_end_gt [of "last ys" st] by (metis order.strict_trans1)
    ultimately show ?thesis by (cases "ys = []") (auto simp: word_unat_eq_iff)
  qed
  have "unat ?S + 36 < 2 ^ 32" using i(1) entries_okD(2,3) [OF i(2) e] by (simp add: e_end_def e_size_def area_ok_def Let_def)
  then have sz: "ucast ?S + SIZEOF_HEAP_ENTRY + SIZEOF_HEAP_TAIL \<le> ucast MAX_DWORD" unfolding word_le_nat_alt size_required by simp
  have d20: "e + 0x20 - SIZEOF_HEAP_ENTRY = e" by simp
  have A: "ASSERT (NULL \<noteq> e + SIZEOF_HEAP_ENTRY) = Some ()" "ASSERT (0 \<noteq> Tag) = Some ()" "ASSERT True = Some ()"
    "ASSERT (ucast ?S + SIZEOF_HEAP_ENTRY + SIZEOF_HEAP_TAIL \<le> ucast MAX_DWORD) = Some ()"
    using nz tag sz by (simp_all add: ASSERT_def)
  let ?P = "last (?H # map ListEntryOf xs)" and ?prev = "if xs = [] then HeapBaseAddress (Header st) + SIZEOF_HEAP_HEADER else entry_after st (last xs)"
  have pa: "(if ?H = ?P \<or> NULL = ?P then HeapBaseAddress (Header st) + SIZEOF_HEAP_HEADER
      else HeapEntryOf ?P + SIZEOF_HEAP_ENTRY + ucast (EntrySize (HeapEntries st (HeapEntryOf ?P))) + SIZEOF_HEAP_TAIL) = ?prev"
    using pl lx by (cases "xs = []") (auto simp: entry_after_def)
  let ?s1 = "upd_header (\<lambda>h. h\<lparr>HeapSizeRemaining := HeapSizeRemaining h + (ucast ?S + SIZEOF_HEAP_ENTRY + SIZEOF_HEAP_TAIL), HeapNumberOfAllocations := HeapNumberOfAllocations h - 1\<rparr>)
      (st\<lparr>HeapLinks := ?links, HeapEntries := (HeapEntries st)(e := \<lparr>EntryMagic = HEAP_FREE_DWORD, EntryTag = HEAP_FREE_DWORD, EntrySize = HEAP_FREE_DWORD, EntryOffset = HEAP_FREE_DWORD\<rparr>),
        HeapTails := (HeapTails st)(e + SIZEOF_HEAP_ENTRY + ucast ?S := HEAP_FREE_DWORD)\<rparr>)"
  have en': "(e + SIZEOF_HEAP_ENTRY + ucast ?S + SIZEOF_HEAP_TAIL = FreeAddress (Header ?s1)) = (ys = [])" using en by (simp add: upd_header_def)
  have st_eq: "(if ys = [] then upd_header (\<lambda>h. h\<lparr>FreeAddress := ?prev\<rparr>) ?s1 else ?s1) = freed st e ?links f"
    by (cases "ys = []") (simp_all add: freed_def upd_header_def f_def)
  have "ClHeapFreePoolWithTag (e + 0x20) Tag st = Some (freed st e ?links f)"
    unfolding ClHeapFreePoolWithTag_def Let_def d20 v
    by (simp only: A bl bind.bind_lunit r(1) prod.case pa en' st_eq)
  then show ?thesis using li dm by blast
qed

lemma ClHeapFree_ok:
  assumes inv: "heap_inv st (xs @ e # ys)" and t: "Tag = EntryTag (HeapEntries st e)" and r: "EntryToRestartSearch (Header st) \<noteq> ListEntryOf e"
  shows "\<exists>st'. ClHeapFreePoolWithTag (e + 0x20) Tag st = Some st' \<and> heap_inv st' (xs @ ys)
     \<and> insert (e + 0x20, e_size st e, Tag) (blocks st' (xs @ ys)) = blocks st (xs @ e # ys)
     \<and> unat (HeapSizeRemaining (Header st')) = unat (HeapSizeRemaining (Header st)) + e_size st e + 36"
proof -
  have i: "area_ok st" "entries_ok st (xs @ e # ys)" "counters_ok st (xs @ e # ys)" using inv by (simp_all add: heap_inv_def)
  note sp = entries_split [OF i(2)]
  define f where "f = (if ys \<noteq> [] then FreeAddress (Header st) else if xs = [] then HeapBaseAddress (Header st) + SIZEOF_HEAP_HEADER else entry_after st (last xs))"
  obtain links where k: "ClHeapFreePoolWithTag (e + 0x20) Tag st = Some (freed st e links f)" "is_list links (HeapAllocations st) (map ListEntryOf (xs @ ys))"
    "dom links = dom (HeapLinks st)"
    using ClHeapFree_step [OF inv t, folded f_def] by blast
  let ?s = "freed st e links f"
  have f: "unat f = (if ys \<noteq> [] then unat (FreeAddress (Header st)) else if xs = [] then unat (HeapBaseAddress (Header st)) + 0x48 else e_end st (last xs))"
    using entry_after_unat(1) [OF i(1,2), of "last xs"] area_top [OF i(1)] by (auto simp: f_def unat_plus_if_small)
  have c: "counters_ok ?s (xs @ ys)" by (rule free_counters_ok [OF i f])
  have a: "HeapAllocations ?s = HeapAllocations st" by (simp add: HeapAllocations_def freed_def)
  have "area_ok ?s" using i(1) k(3) by (simp add: area_ok_def freed_def Let_def)
  moreover have "is_list (HeapLinks ?s) (HeapAllocations ?s) (map ListEntryOf (xs @ ys))" unfolding a using k(2) by (simp add: freed_def)
  moreover have "EntryToRestartSearch (Header ?s) \<in> set (HeapAllocations ?s # map ListEntryOf (xs @ ys))"
    unfolding a using inv r by (auto simp: heap_inv_def freed_def)
  ultimately have "heap_inv ?s (xs @ ys)" using free_entries_ok [OF i(1,2), of links f] c by (simp only: heap_inv_def)
  moreover have "(\<lambda>x. (x + 0x20, e_size ?s x, EntryTag (HeapEntries ?s x))) ` set (xs @ ys) = (\<lambda>x. (x + 0x20, e_size st x, EntryTag (HeapEntries st x))) ` set (xs @ ys)"
    by (intro image_cong refl) (simp add: freed_other [OF sp(3)])
  then have "insert (e + 0x20, e_size st e, Tag) (blocks ?s (xs @ ys)) = blocks st (xs @ e # ys)" by (simp add: blocks_def t image_Un)
  moreover have "(\<Sum>x\<leftarrow>xs @ ys. e_size ?s x + 36) = (\<Sum>x\<leftarrow>xs @ ys. e_size st x + 36)"
    by (intro arg_cong [where f = sum_list] map_cong refl) (simp add: freed_other [OF sp(3)])
  moreover have "HeapSizeMaximum (Header ?s) = HeapSizeMaximum (Header st)" by (simp add: freed_def)
  ultimately show ?thesis using k(1) c i(3) by (simp add: counters_ok_def Let_def)
qed

section \<open>The heap\<close>

lemma ClHeapInit_ok:
  assumes "Base \<noteq> 0" "HEAP_MINIMUM_SIZE \<le> M" "unat M \<le> 2 ^ 31" "unat Base + unat M + 2 ^ 33 \<le> 2 ^ 64"
    and d: "\<And>a. unat Base \<le> unat a \<and> unat a < unat Base + unat M \<Longrightarrow> a \<in> dom (HeapLinks st)"
  shows "\<exists>st'. ClHeapInit Base M True st = Some (STATUS_SUCCESS, True, st') \<and> heap_inv st' [] \<and> HeapBaseAddress (Header st') = Base \<and> HeapSizeMaximum (Header st') = M"
proof -
  have M: "0x10000 \<le> unat M" using assms(2) by (simp add: word_le_nat_alt)
  have b: "unat (Base + 0x38) = unat Base + 56" "unat (Base + 0x48) = unat Base + 72" using assms(4) by (simp_all add: unat_plus_if_small)
  have "Base + 0x38 \<in> dom (HeapLinks st)" using b M by (intro d) simp
  from InitializeListHead_ok [OF this] obtain links where l: "InitializeListHead (HeapLinks st) (Base + 0x38) = Some links" "is_list links (Base + 0x38) []" "dom links = dom (HeapLinks st)"
    by (auto simp: only_changes_def)
  have "unat (M - 0x48) = unat M - 72" using M by (simp add: unat_sub word_le_nat_alt)
  then show ?thesis using assms(1-4) M l b d
    by (auto simp: ClHeapInit_def HeapAllocations_def heap_inv_def area_ok_def entries_ok_def counters_ok_def Let_def word_le_nat_alt word_less_nat_alt unat_gt_0)
qed

text \<open>Two allocations do not overlap, headers and tails included.\<close>

lemma blocks_disjoint:
  assumes g: "gap_ok st xs ys e Size" and inv: "heap_inv st (xs @ ys)" and b: "(a, n, t) \<in> blocks st (xs @ ys)"
  shows "unat a + n + 4 \<le> unat e \<or> unat e + 32 + unat Size + 4 + 32 \<le> unat a"
proof -
  have i: "area_ok st" "entries_ok st (xs @ ys)" using inv by (simp_all add: heap_inv_def)
  obtain x where x: "x \<in> set (xs @ ys)" "a = x + 0x20" "n = e_size st x" using b by (auto simp: blocks_def)
  have "unat (x + 0x20) = unat x + 32" using entry_end_lt [OF i x(1)] by (simp add: unat_plus_if_small e_end_def)
  moreover have "e_end st x \<le> unat e \<or> unat e + unat Size + 36 \<le> unat x" using g x(1) by (auto simp: gap_ok_def)
  ultimately show ?thesis using x by (auto simp: e_end_def)
qed

text \<open>
  When the restart entry is the second to last of four or more, the search passes the head with a null pointer in
  \<open>pCurHeapEntry\<close>, and the assertion on the previous entry fails.
\<close>

lemma ClHeapGap_halts:
  assumes inv: "heap_inv st (x0 # x1 # xs @ [e, z])" and r: "EntryToRestartSearch (Header st) = ListEntryOf e"
  shows "ClHeapGap Size Tag al st = None"
proof -
  let ?H = "HeapAllocations st" and ?h = "HeapLinks st"
  have l: "is_list ?h ?H (map ListEntryOf (x0 # x1 # xs @ [e, z]))" using inv by (simp add: heap_inv_def)
  have f: "rd_Flink ?h (ListEntryOf e) = Some (ListEntryOf z)" "rd_Flink ?h (ListEntryOf z) = Some ?H" "rd_Flink ?h ?H = Some (ListEntryOf x0)"
    "rd_Flink ?h (ListEntryOf x0) = Some (ListEntryOf x1)"
    using l by (auto simp: is_list_def lseg_append link_def)
  have d: "ListEntryOf e \<noteq> ?H" "ListEntryOf e \<noteq> ListEntryOf x0" "ListEntryOf e \<noteq> ListEntryOf x1" "ListEntryOf x0 \<noteq> ?H" "ListEntryOf x1 \<noteq> ?H"
    using l by (auto simp: is_list_def)
  show ?thesis using r f d by (simp add: ClHeapGap_def ClHeapSearch_loop.simps ASSERT_def)
qed

lemma heap_inv_zeroed: "heap_inv (st\<lparr>HeapZeroed := z\<rparr>) es = heap_inv st es"
  by (simp add: heap_inv_def area_ok_def entries_ok_def entry_ok_def counters_ok_def HeapAllocations_def e_end_def e_size_def Let_def)

lemma blocks_zeroed: "blocks (st\<lparr>HeapZeroed := z\<rparr>) es = blocks st es"
  by (simp add: blocks_def e_size_def)

lemma blocks_entry:
  assumes "heap_inv st es" and "(addr, n, t) \<in> blocks st es"
  obtains xs e ys where "es = xs @ e # ys" "addr = e + 0x20" "n = e_size st e" "t = EntryTag (HeapEntries st e)"
  using assms by (auto simp: blocks_def dest!: split_list)

text \<open>What an allocation that was placed at \<open>e\<close> gives.\<close>

lemma alloc_placed:
  assumes inv: "heap_inv st es" and al: "unat (if Alignment = 0 then HEAP_DEFAULT_ALIGNMENT else Alignment) = 2 ^ k" and t: "Size \<noteq> 0" "Tag \<noteq> 0"
    and place: "ClHeapPlace Size Tag (if Alignment = 0 then HEAP_DEFAULT_ALIGNMENT else Alignment) st = Some (Some e, st1)"
  shows "\<exists>st'. ClHeapAllocatePoolWithTag Flags Size Tag Alignment st = Some (e + 0x20, st') \<and> e + 0x20 \<noteq> NULL \<and> unat (e + 0x20) mod 2 ^ k = 0
    \<and> unat (HeapBaseAddress (Header st)) + 0x48 + 0x20 \<le> unat (e + 0x20) \<and> unat (e + 0x20) + unat Size + 4 \<le> unat (HeapBaseAddress (Header st)) + unat (HeapSizeMaximum (Header st))
    \<and> (\<forall>(a, n, t) \<in> blocks st es. unat a + n + 4 + 32 \<le> unat (e + 0x20) \<or> unat (e + 0x20) + unat Size + 4 + 32 \<le> unat a)
    \<and> (\<exists>es'. heap_inv st' es' \<and> blocks st' es' = insert (e + 0x20, unat Size, Tag) (blocks st es))
    \<and> HeapZeroed st' = HeapZeroed st @ (if IsFlagOn Flags PoolAllocateZeroMemory then [(e + 0x20, Size)] else [])"
proof -
  let ?al = "if Alignment = 0 then HEAP_DEFAULT_ALIGNMENT else Alignment"
  have al0: "?al \<noteq> 0" using al by auto
  obtain xs ys a where w: "es = xs @ ys" "gap_ok st xs ys e Size" "e = place_at a ?al" "unat a + 2 ^ 33 \<le> 2 ^ 64" "heap_inv st1 (xs @ e # ys)"
    "blocks st1 (xs @ e # ys) = insert (e + 0x20, unat Size, Tag) (blocks st es)" "EntryOffset (HeapEntries st1 e) = 0x20" "HeapZeroed st1 = HeapZeroed st"
    using ClHeapPlace_ok(1) [OF inv t(2) al0 place] by (auto simp: found_ok_def allocated_def)
  note pb = place_at_bounds [OF w(4) al0, folded w(3)]
  have "(2 :: nat) ^ k < 2 ^ 32" unfolding al [symmetric] using unat_DWORD_less [of ?al] by (simp del: unat_DWORD_less)
  then have k: "k < 32" by (rule power_less_imp_less_exp [rotated]) simp
  have "unat (ucast ?al :: QWORD) = 2 ^ k" using al by (simp add: unat_ucast_QWORD)
  then have mult: "unat (e + 0x20) mod 2 ^ k = 0" using align_up_multiple [of "ucast ?al" k "a + 0x20"] k pb(2,4) by simp
  have nz: "e + 0x20 \<noteq> 0" using pb(2) by auto
  let ?st' = "if IsFlagOn Flags PoolAllocateZeroMemory then st1\<lparr>HeapZeroed := HeapZeroed st1 @ [(e + 0x20, Size)]\<rparr> else st1"
  have run: "ClHeapAllocatePoolWithTag Flags Size Tag Alignment st = Some (e + 0x20, ?st')"
    using t place nz w(7) by (simp add: ClHeapAllocatePoolWithTag_def ASSERT_def Let_def)
  have inv': "heap_inv st (xs @ ys)" using inv w(1) by simp
  have "heap_inv ?st' (xs @ e # ys)" "blocks ?st' (xs @ e # ys) = insert (e + 0x20, unat Size, Tag) (blocks st es)" using w(5,6) by (simp_all add: heap_inv_zeroed blocks_zeroed)
  moreover have "unat a' + n + 4 + 32 \<le> unat (e + 0x20) \<or> unat (e + 0x20) + unat Size + 4 + 32 \<le> unat a'" if "(a', n, t) \<in> blocks st es" for a' n t
    using blocks_disjoint [OF w(2) inv', of a' n t] that w(1) pb(2) by auto
  moreover have "unat (HeapBaseAddress (Header st)) + 0x48 + 0x20 \<le> unat (e + 0x20)" "unat (e + 0x20) + unat Size + 4 \<le> unat (HeapBaseAddress (Header st)) + unat (HeapSizeMaximum (Header st))"
    using w(2) pb(2) by (simp_all add: gap_ok_def)
  ultimately show ?thesis using run nz mult w(8) by (intro exI [of _ ?st'] conjI) (auto simp del: unat_plus_if_small)
qed

text \<open>
  C5: Whenever \<open>ClHeapAllocatePoolWithTag\<close> returns, it has either failed and changed nothing, or it gives an aligned block
  inside the heap that overlaps no block in use, header and tail included; the invariant of the heap is kept, and the
  blocks in use are the old ones and the new one. It returns a block whenever there is room at the end. Without room at
  the end the gaps are searched from the restart entry on: the call returns if the restart entry is the head of the list
  or has two entries behind it (\<open>search_safe\<close>) and a failure is not to halt the machine. Otherwise the search may end in
  a failed assertion (\<open>ClHeapGap_halts\<close>); \<open>search_safe\<close> is not kept by the operations. With \<open>PoolAllocatePanicIfFail\<close> a
  failure halts the machine.
\<close>
theorem heap_alloc_spec:
  assumes inv: "heap_inv st es" and al: "unat (if Alignment = 0 then HEAP_DEFAULT_ALIGNMENT else Alignment) = 2 ^ k"
  shows "(\<forall>addr st'. ClHeapAllocatePoolWithTag Flags Size Tag Alignment st = Some (addr, st') \<longrightarrow>
       (addr = NULL \<longrightarrow> st' = st \<and> \<not> IsFlagOn Flags PoolAllocatePanicIfFail)
     \<and> (addr \<noteq> NULL \<longrightarrow> Size \<noteq> 0 \<and> Tag \<noteq> 0 \<and> unat addr mod 2 ^ k = 0
         \<and> unat (HeapBaseAddress (Header st)) + 0x48 + 0x20 \<le> unat addr \<and> unat addr + unat Size + 4 \<le> unat (HeapBaseAddress (Header st)) + unat (HeapSizeMaximum (Header st))
         \<and> (\<forall>(a, n, t) \<in> blocks st es. unat a + n + 4 + 32 \<le> unat addr \<or> unat addr + unat Size + 4 + 32 \<le> unat a)
         \<and> (\<exists>es'. heap_inv st' es' \<and> blocks st' es' = insert (addr, unat Size, Tag) (blocks st es))
         \<and> HeapZeroed st' = HeapZeroed st @ (if IsFlagOn Flags PoolAllocateZeroMemory then [(addr, Size)] else [])))
   \<and> (search_safe st es \<and> \<not> IsFlagOn Flags PoolAllocatePanicIfFail \<longrightarrow> ClHeapAllocatePoolWithTag Flags Size Tag Alignment st \<noteq> None)
   \<and> (Size \<noteq> 0 \<and> Tag \<noteq> 0 \<and> size_fits Size st \<and> end_room Size (if Alignment = 0 then HEAP_DEFAULT_ALIGNMENT else Alignment) st \<longrightarrow>
       (\<exists>addr st'. ClHeapAllocatePoolWithTag Flags Size Tag Alignment st = Some (addr, st') \<and> addr \<noteq> NULL))"
proof (cases "Size = 0 \<or> Tag = 0")
  case True
  then show ?thesis by (auto simp: ClHeapAllocatePoolWithTag_def ASSERT_def split: if_splits)
next
  case False
  let ?al = "if Alignment = 0 then HEAP_DEFAULT_ALIGNMENT else Alignment" and ?alloc = "ClHeapAllocatePoolWithTag Flags Size Tag Alignment st"
  have al0: "?al \<noteq> 0" using al by auto
  note P = ClHeapPlace_ok [OF inv _ al0, of Tag Size]
  have fails: "?alloc = (if IsFlagOn Flags PoolAllocatePanicIfFail then None else Some (NULL, st))" if "ClHeapPlace Size Tag ?al st = Some (None, st)"
    using that False by (simp add: ClHeapAllocatePoolWithTag_def ASSERT_def)
  consider (halt) "ClHeapPlace Size Tag ?al st = None" "\<not> search_safe st es" "\<not> (size_fits Size st \<and> end_room Size ?al st)"
    | (none) "ClHeapPlace Size Tag ?al st = Some (None, st)" "\<not> (size_fits Size st \<and> end_room Size ?al st)"
    | (some) e st1 where "ClHeapPlace Size Tag ?al st = Some (Some e, st1)"
  proof (cases "ClHeapPlace Size Tag ?al st")
    case None
    then show thesis using P(2) False by (intro halt) auto
  next
    case (Some res)
    show thesis
    proof (cases "fst res")
      case None
      then have "res = (None, st)" using P(1) [OF _ Some] False by (cases res) (auto simp: found_ok_def)
      then show thesis using P(3) False Some by (intro none) auto
    next
      case (Some e)
      then show thesis using \<open>ClHeapPlace Size Tag ?al st = Some res\<close> by (cases res) (auto intro: some)
    qed
  qed
  then show ?thesis
  proof cases
    case halt
    then have "?alloc = None" using False by (simp add: ClHeapAllocatePoolWithTag_def)
    with halt show ?thesis by simp
  next
    case none
    from fails [OF none(1)] none(2) show ?thesis by (auto split: if_splits)
  next
    case some
    have t: "Size \<noteq> 0" "Tag \<noteq> 0" using False by auto
    from alloc_placed [OF inv al t some, of Flags] show ?thesis by (rule exE) (use t in \<open>simp del: unat_plus_if_small\<close>)
  qed
qed

text \<open>A heap of 64 KB at \<open>0x100000\<close> with one allocation of \<open>0x100\<close> bytes.\<close>

definition sample_links :: lheap where
  "sample_links = (\<lambda>_. Some \<lparr>Flink = 0, Blink = 0\<rparr>)(0x100038 \<mapsto> \<lparr>Flink = 0x100070, Blink = 0x100070\<rparr>, 0x100070 \<mapsto> \<lparr>Flink = 0x100038, Blink = 0x100038\<rparr>)"

definition sample_heap :: HEAP_STATE where
  "sample_heap = \<lparr>Header = \<lparr>HeaderMagic = HEAP_MAGIC, HeapSizeMaximum = 0x10000, HeapSizeRemaining = 0xFE94, HeapBaseAddress = 0x100000, FreeAddress = 0x100184,
       HeapNumberOfAllocations = 1, EntryToRestartSearch = 0x100038\<rparr>,
     HeapEntries = (\<lambda>_. \<lparr>EntryMagic = 0, EntryTag = 0, EntrySize = 0, EntryOffset = 0\<rparr>)(0x100060 := \<lparr>EntryMagic = HEAP_MAGIC, EntryTag = 5, EntrySize = 0x100, EntryOffset = 0x20\<rparr>),
     HeapTails = (\<lambda>_. 0)(0x100180 := HEAP_MAGIC), HeapLinks = sample_links, HeapZeroed = []\<rparr>"

lemma sample_heap_inv: "heap_inv sample_heap [0x100060]"
proof -
  have "is_list (HeapLinks sample_heap) (HeapAllocations sample_heap) (map ListEntryOf [0x100060])"
    by (simp add: is_list_def link_def rd_Flink_def rd_Blink_def sample_heap_def sample_links_def HeapAllocations_def ListEntryOf_def)
  moreover have "area_ok sample_heap" by (auto simp: area_ok_def sample_heap_def sample_links_def)
  moreover have "entries_ok sample_heap [0x100060]" by (simp add: entries_ok_def entry_ok_def e_end_def e_size_def sample_heap_def)
  moreover have "counters_ok sample_heap [0x100060]" by (simp add: counters_ok_def e_end_def e_size_def sample_heap_def)
  ultimately show ?thesis by (simp add: heap_inv_def) (simp add: sample_heap_def HeapAllocations_def)
qed

lemma sample_blocks: "blocks sample_heap [0x100060] = {(0x100080, 0x100, 5)}"
  by (simp add: blocks_def e_size_def sample_heap_def)

lemma sample_room: "size_fits 0x80 sample_heap" "end_room 0x80 0x40 sample_heap"
  by (simp_all add: size_fits_def end_room_def place_at_def AlignAddressUpper_def AlignAddressLower_def sample_heap_def)

theorem heap_alloc_spec_witness:
  "\<exists>addr st'. ClHeapAllocatePoolWithTag PoolAllocateZeroMemory 0x80 7 0x40 sample_heap = Some (addr, st') \<and> addr \<noteq> NULL \<and> unat addr mod 64 = 0
     \<and> (\<exists>es'. heap_inv st' es' \<and> blocks st' es' = {(addr, 0x80, 7), (0x100080, 0x100, 5)}) \<and> HeapZeroed st' = [(addr, 0x80)]"
proof -
  have z: "HeapZeroed sample_heap = []" by (simp add: sample_heap_def)
  show ?thesis using z heap_alloc_spec [OF sample_heap_inv, where Flags = PoolAllocateZeroMemory and Alignment = "0x40" and k = 6 and Size = "0x80" and Tag = 7] sample_room
    by (auto simp: IsFlagOn_def sample_blocks)
qed

text \<open>
  C6: \<open>ClHeapFreePoolWithTag\<close> on a block in use other than the one where the search restarts, with its tag: exactly this
  block is given back with its header and tail, the invariant is kept and the remaining size grows by what the allocation
  took; with another tag it halts. (The code does not move \<open>EntryToRestartSearch\<close>: after the block it points at was freed,
  it points into free memory and the invariant is lost.)
\<close>
theorem heap_free_spec:
  assumes inv: "heap_inv st es" and b: "(addr, n, Tag) \<in> blocks st es" and r: "EntryToRestartSearch (Header st) \<noteq> ListEntryOf (addr - 0x20)"
  shows "(\<exists>st' es'. ClHeapFreePoolWithTag addr Tag st = Some st' \<and> heap_inv st' es' \<and> blocks st' es' = blocks st es - {(addr, n, Tag)}
         \<and> unat (HeapSizeRemaining (Header st')) = unat (HeapSizeRemaining (Header st)) + n + 36)
     \<and> (\<forall>t. t \<noteq> Tag \<longrightarrow> ClHeapFreePoolWithTag addr t st = None)"
proof (intro conjI allI impI)
  obtain xs e ys where e: "es = xs @ e # ys" "addr = e + 0x20" "n = e_size st e" "Tag = EntryTag (HeapEntries st e)" by (rule blocks_entry [OF inv b])
  have inv': "heap_inv st (xs @ e # ys)" using inv e(1) by simp
  have i: "area_ok st" "entries_ok st (xs @ e # ys)" using inv' by (simp_all add: heap_inv_def)
  obtain st' where f: "ClHeapFreePoolWithTag addr Tag st = Some st'" "heap_inv st' (xs @ ys)" "insert (addr, n, Tag) (blocks st' (xs @ ys)) = blocks st es"
    "unat (HeapSizeRemaining (Header st')) = unat (HeapSizeRemaining (Header st)) + n + 36"
    using ClHeapFree_ok [OF inv' e(4)] r e by auto
  have "(addr, n, Tag) \<notin> blocks st' (xs @ ys)" using entries_split(3) [OF i(2), of e] by (auto simp: blocks_def e(2))
  then have "blocks st' (xs @ ys) = blocks st es - {(addr, n, Tag)}" unfolding f(3) [symmetric] by simp
  then show "\<exists>st' es'. ClHeapFreePoolWithTag addr Tag st = Some st' \<and> heap_inv st' es' \<and> blocks st' es' = blocks st es - {(addr, n, Tag)}
       \<and> unat (HeapSizeRemaining (Header st')) = unat (HeapSizeRemaining (Header st)) + n + 36"
    using f by blast
  fix t
  assume t: "t \<noteq> Tag"
  show "ClHeapFreePoolWithTag addr t st = None"
  proof (cases "t = 0")
    case False
    then have "ValidateHeapEntry e t st = Some False" using ValidateHeapEntry_ok [OF i _ False, of e] t e(4) by simp
    then show ?thesis using e(2) by (auto simp: ClHeapFreePoolWithTag_def ASSERT_def Let_def)
  qed (simp add: ClHeapFreePoolWithTag_def ASSERT_def)
qed

theorem heap_free_spec_witness:
  "(\<exists>st' es'. ClHeapFreePoolWithTag 0x100080 5 sample_heap = Some st' \<and> heap_inv st' es' \<and> blocks st' es' = {} \<and> unat (HeapSizeRemaining (Header st')) = 0xFFB8)
   \<and> ClHeapFreePoolWithTag 0x100080 6 sample_heap = None"
proof -
  have b: "(0x100080, 0x100, 5) \<in> blocks sample_heap [0x100060]" by (simp add: sample_blocks)
  have r: "EntryToRestartSearch (Header sample_heap) \<noteq> ListEntryOf (0x100080 - 0x20)" by (simp add: sample_heap_def ListEntryOf_def)
  have m: "unat (HeapSizeRemaining (Header sample_heap)) = 0xFE94" by (simp add: sample_heap_def)
  show ?thesis using heap_free_spec [OF sample_heap_inv b r] by (auto simp: sample_blocks m)
qed

end
