(* ===== verification/Bitmaps.thy ===== *)
theory Bitmaps
  imports Hal_Prelude
begin

text \<open>
  The bitmap of \<open>CommonLib/src/bitmap.c\<close>: a buffer of bytes that stores one bit per element, used by
  the physical memory manager and by the virtual memory reservations. The buffer is a list of bytes
  (\<open>None\<close> while the pointer is NULL); an access outside of the list halts. The abstraction of a
  bitmap is the set of the elements whose bit is set; the lemmas express every operation on it.
\<close>

section \<open>Data and operations\<close>

record BITMAP =
  BitmapBuffer :: "BYTE list option"
  BufferSize :: DWORD
  BitCount :: DWORD

definition zero_BITMAP :: BITMAP where
  "zero_BITMAP = \<lparr>BitmapBuffer = None, BufferSize = 0, BitCount = 0\<rparr>"

definition BitmapPreinit :: "DWORD \<Rightarrow> (DWORD \<times> BITMAP) option" where
  "BitmapPreinit NumberOfElements = do {
     ASSERT (0 \<noteq> NumberOfElements);
     let size = ucast (AlignAddressUpper (ucast NumberOfElements) 8 div 8) * 1;
     Some (size, zero_BITMAP\<lparr>BitCount := NumberOfElements, BufferSize := size\<rparr>)
   }"

definition BitmapInitEx :: "BITMAP \<Rightarrow> BYTE list option \<Rightarrow> bool \<Rightarrow> BITMAP option" where
  "BitmapInitEx Bitmap buffer Set = do {
     buf \<leftarrow> buffer;
     let n = unat (BufferSize Bitmap);
     ASSERT (n \<le> length buf);
     Some (Bitmap\<lparr>BitmapBuffer := Some (replicate n (if Set then MAX_BYTE else 0) @ drop n buf)\<rparr>)
   }"

definition BitmapUninit :: "BITMAP \<Rightarrow> BITMAP" where
  "BitmapUninit Bitmap = zero_BITMAP"

definition BitmapGetMaxElementCount :: "BITMAP \<Rightarrow> DWORD" where
  "BitmapGetMaxElementCount Bitmap = BitCount Bitmap"

definition BitmapChangeBit :: "BYTE list option \<Rightarrow> DWORD \<Rightarrow> bool \<Rightarrow> BYTE list option" where
  "BitmapChangeBit buffer Index Set = do {
     buf \<leftarrow> buffer;
     let byteIndex = unat (Index div 8);
     let bitIndex = unat (Index mod 8);
     v \<leftarrow> rd_at buf byteIndex;
     wr_at buf byteIndex (if Set then v OR push_bit bitIndex 1 else v AND NOT (push_bit bitIndex 1))
   }"

definition BitmapChangeBits :: "BYTE list option \<Rightarrow> DWORD \<Rightarrow> bool \<Rightarrow> DWORD \<Rightarrow> BYTE list option" where
  "BitmapChangeBits buffer Index Set Count = do {
     buf \<leftarrow> buffer;
     for_upto (unat Count) (\<lambda>i buf. BitmapChangeBit (Some buf) (Index + of_nat i) Set) buf
   }"

definition BitmapGetBit :: "BYTE list option \<Rightarrow> DWORD \<Rightarrow> bool option" where
  "BitmapGetBit buffer Index = do {
     buf \<leftarrow> buffer;
     v \<leftarrow> rd_at buf (unat (Index div 8));
     Some (IsBooleanFlagOn v (push_bit (unat (Index mod 8)) 1))
   }"

definition BitmapSetBitValue :: "BITMAP \<Rightarrow> DWORD \<Rightarrow> bool \<Rightarrow> BITMAP option" where
  "BitmapSetBitValue Bitmap Index Set = do {
     ASSERT (Index < BitCount Bitmap);
     buf \<leftarrow> BitmapChangeBit (BitmapBuffer Bitmap) Index Set;
     Some (Bitmap\<lparr>BitmapBuffer := Some buf\<rparr>)
   }"

definition BitmapGetBitValue :: "BITMAP \<Rightarrow> DWORD \<Rightarrow> bool option" where
  "BitmapGetBitValue Bitmap Index = do {
     ASSERT (Index < BitCount Bitmap);
     BitmapGetBit (BitmapBuffer Bitmap) Index
   }"

definition BitmapSetBitsValue :: "BITMAP \<Rightarrow> DWORD \<Rightarrow> DWORD \<Rightarrow> bool \<Rightarrow> BITMAP option" where
  "BitmapSetBitsValue Bitmap Index Count Set = do {
     ASSERT (Index < BitCount Bitmap);
     ASSERT (BitCount Bitmap - Count \<ge> Index);
     buf \<leftarrow> BitmapChangeBits (BitmapBuffer Bitmap) Index Set Count;
     Some (Bitmap\<lparr>BitmapBuffer := Some buf\<rparr>)
   }"

text \<open>The two loops of \<open>_BitmapScanInternal\<close>: over the bits of a candidate, and over the candidates.\<close>

primrec BitmapScan_match :: "nat \<Rightarrow> BYTE list option \<Rightarrow> DWORD \<Rightarrow> bool \<Rightarrow> DWORD \<Rightarrow> bool option" where
  "BitmapScan_match 0 buffer i Set j = Some True"
| "BitmapScan_match (Suc n) buffer i Set j = do {
     b \<leftarrow> BitmapGetBit buffer (i + j);
     if Set \<noteq> b then Some False else BitmapScan_match n buffer i Set (j + 1)
   }"

partial_function (option) BitmapScan_loop ::
  "BYTE list option \<Rightarrow> DWORD \<Rightarrow> DWORD \<Rightarrow> bool \<Rightarrow> DWORD \<Rightarrow> DWORD option" where
  "BitmapScan_loop buffer lastIndex ConsecutiveBits Set i =
     (if i \<le> lastIndex then do {
        found \<leftarrow> BitmapScan_match (unat ConsecutiveBits) buffer i Set 0;
        if found then Some i else BitmapScan_loop buffer lastIndex ConsecutiveBits Set (i + 1)
      }
      else Some MAX_DWORD)"

definition BitmapScanInternal :: "BITMAP \<Rightarrow> DWORD \<Rightarrow> DWORD \<Rightarrow> DWORD \<Rightarrow> bool \<Rightarrow> DWORD option" where
  "BitmapScanInternal Bitmap StartIndex FirstInvalidBitIndex ConsecutiveBits Set = do {
     ASSERT (0 \<noteq> ConsecutiveBits);
     ASSERT (StartIndex \<le> FirstInvalidBitIndex);
     ASSERT (FirstInvalidBitIndex \<le> BitCount Bitmap);
     if FirstInvalidBitIndex - StartIndex < ConsecutiveBits then Some MAX_DWORD
     else BitmapScan_loop (BitmapBuffer Bitmap) (FirstInvalidBitIndex - ConsecutiveBits) ConsecutiveBits Set StartIndex
   }"

definition BitmapScanFromTo :: "BITMAP \<Rightarrow> DWORD \<Rightarrow> DWORD \<Rightarrow> DWORD \<Rightarrow> bool \<Rightarrow> DWORD option" where
  "BitmapScanFromTo Bitmap Index FirstInvalidBitIndex ConsecutiveBits Set =
     (if 0 = ConsecutiveBits then Some MAX_DWORD
      else if Index > FirstInvalidBitIndex \<or> FirstInvalidBitIndex > BitCount Bitmap then Some MAX_DWORD
      else BitmapScanInternal Bitmap Index FirstInvalidBitIndex ConsecutiveBits Set)"

definition BitmapScanFrom :: "BITMAP \<Rightarrow> DWORD \<Rightarrow> DWORD \<Rightarrow> bool \<Rightarrow> DWORD option" where
  "BitmapScanFrom Bitmap Index ConsecutiveBits Set =
     BitmapScanFromTo Bitmap Index (BitCount Bitmap) ConsecutiveBits Set"

definition BitmapScan :: "BITMAP \<Rightarrow> DWORD \<Rightarrow> bool \<Rightarrow> DWORD option" where
  "BitmapScan Bitmap ConsecutiveBits Set =
     BitmapScanFromTo Bitmap 0 (BitCount Bitmap) ConsecutiveBits Set"

definition BitmapScanFromToAndFlip ::
  "BITMAP \<Rightarrow> DWORD \<Rightarrow> DWORD \<Rightarrow> DWORD \<Rightarrow> bool \<Rightarrow> (DWORD \<times> BITMAP) option" where
  "BitmapScanFromToAndFlip Bitmap Index FirstInvalidBitIndex ConsecutiveBits Set =
     (if 0 = ConsecutiveBits then Some (MAX_DWORD, Bitmap)
      else if Index > FirstInvalidBitIndex \<or> FirstInvalidBitIndex > BitCount Bitmap then Some (MAX_DWORD, Bitmap)
      else do {
        bitmapIndex \<leftarrow> BitmapScanInternal Bitmap Index FirstInvalidBitIndex ConsecutiveBits Set;
        if MAX_DWORD = bitmapIndex then Some (MAX_DWORD, Bitmap)
        else do {
          buf \<leftarrow> BitmapChangeBits (BitmapBuffer Bitmap) bitmapIndex (\<not> Set) ConsecutiveBits;
          Some (bitmapIndex, Bitmap\<lparr>BitmapBuffer := Some buf\<rparr>)
        }
      })"

definition BitmapScanFromAndFlip :: "BITMAP \<Rightarrow> DWORD \<Rightarrow> DWORD \<Rightarrow> bool \<Rightarrow> (DWORD \<times> BITMAP) option" where
  "BitmapScanFromAndFlip Bitmap Index ConsecutiveBits Set =
     BitmapScanFromToAndFlip Bitmap Index (BitCount Bitmap) ConsecutiveBits Set"

definition BitmapScanAndFlip :: "BITMAP \<Rightarrow> DWORD \<Rightarrow> bool \<Rightarrow> (DWORD \<times> BITMAP) option" where
  "BitmapScanAndFlip Bitmap ConsecutiveBits Set =
     BitmapScanFromToAndFlip Bitmap 0 (BitCount Bitmap) ConsecutiveBits Set"

section \<open>Abstraction: the set of elements whose bit is set\<close>

definition bit_at :: "BYTE list \<Rightarrow> nat \<Rightarrow> bool" where
  "bit_at buf k = bit (buf ! (k div 8)) (k mod 8)"

definition bm_bit :: "BITMAP \<Rightarrow> nat \<Rightarrow> bool" where
  "bm_bit b k = (k < unat (BitCount b) \<and> (case BitmapBuffer b of None \<Rightarrow> False | Some buf \<Rightarrow> bit_at buf k))"

definition bm_set :: "BITMAP \<Rightarrow> nat set" where
  "bm_set b = {k. bm_bit b k}"

definition bitmap_inv :: "BITMAP \<Rightarrow> bool" where
  "bitmap_inv b = (case BitmapBuffer b of None \<Rightarrow> False
     | Some buf \<Rightarrow> unat (BitCount b) \<le> 8 * length buf)"

lemma unat_div8 [word_nat]: "unat ((i::DWORD) div 8) = unat i div 8"
  by (simp add: unat_div)

lemma unat_mod8 [word_nat]: "unat ((i::DWORD) mod 8) = unat i mod 8"
  by (simp add: unat_mod)

lemma BitmapGetBit_ok:
  assumes "unat i < 8 * length buf"
  shows "BitmapGetBit (Some buf) i = Some (bit_at buf (unat i))"
proof -
  have "IsBooleanFlagOn v (push_bit n 1) \<longleftrightarrow> bit v n" if "n < 8" for v :: BYTE and n
  proof
    assume "IsBooleanFlagOn v (push_bit n 1)"
    then have "bit (push_bit n 1 :: BYTE) n = bit (v AND push_bit n 1) n"
      by (simp only: IsBooleanFlagOn_def)
    with that show "bit v n" by (simp add: bit_simps)
  next
    assume "bit v n"
    then show "IsBooleanFlagOn v (push_bit n 1)"
      unfolding IsBooleanFlagOn_def by (intro bit_word_eqI) (auto simp: bit_simps)
  qed
  then show ?thesis
    using assms by (auto simp: BitmapGetBit_def bit_at_def word_nat)
qed

lemma BitmapChangeBit_ok:
  assumes "unat i < 8 * length buf"
  shows "\<exists>buf'. BitmapChangeBit (Some buf) i s = Some buf' \<and> length buf' = length buf
    \<and> (\<forall>k < 8 * length buf. bit_at buf' k = (if k = unat i then s else bit_at buf k))"
proof -
  let ?v = "buf ! (unat i div 8)"
  define buf' where "buf' = buf[unat i div 8 :=
    if s then ?v OR push_bit (unat i mod 8) 1 else ?v AND NOT (push_bit (unat i mod 8) 1)]"
  have j: "unat i div 8 < length buf" using assms by auto
  then have "BitmapChangeBit (Some buf) i s = Some buf'"
    by (simp add: BitmapChangeBit_def buf'_def word_nat Let_def)
  moreover have "bit_at buf' k = (if k = unat i then s else bit_at buf k)" if "k < 8 * length buf" for k
  proof (cases "k div 8 = unat i div 8")
    case True
    then have "k = unat i \<longleftrightarrow> k mod 8 = unat i mod 8"
      by (metis div_mult_mod_eq)
    with True j show ?thesis
      by (auto simp: buf'_def bit_at_def bit_simps)
  next
    case False
    then show ?thesis by (auto simp: buf'_def bit_at_def)
  qed
  ultimately show ?thesis by (auto simp: buf'_def)
qed

lemma unat_plus_of_nat:
  fixes i :: DWORD
  assumes "unat i + k < 2 ^ 32"
  shows "unat (i + of_nat k) = unat i + k"
proof -
  have "unat (of_nat k :: DWORD) = k"
    using assms by (simp add: unat_of_nat)
  with assms show ?thesis by (simp add: unat_plus_if_small)
qed

lemma BitmapChangeBits_ok:
  assumes "unat i + unat n \<le> 8 * length buf" and "unat i + unat n \<le> 2 ^ 32"
  shows "\<exists>buf'. BitmapChangeBits (Some buf) i s n = Some buf' \<and> length buf' = length buf
    \<and> (\<forall>k < 8 * length buf. bit_at buf' k = (if unat i \<le> k \<and> k < unat i + unat n then s else bit_at buf k))"
proof -
  define f where "f j b = BitmapChangeBit (Some b) (i + of_nat j) s" for j b
  define P where "P j b \<longleftrightarrow> length b = length buf \<and> (\<forall>k < 8 * length buf.
    bit_at b k = (if unat i \<le> k \<and> k < unat i + j then s else bit_at buf k))" for j b
  have step: "\<exists>b'. f j b = Some b' \<and> P (Suc j) b'" if j: "j < unat n" and P: "P j b" for j b
  proof -
    have u: "unat (i + of_nat j) = unat i + j"
      using assms(2) j by (intro unat_plus_of_nat) simp
    then have "unat (i + of_nat j) < 8 * length b"
      using assms(1) j P by (simp add: P_def)
    from BitmapChangeBit_ok [OF this, of s] obtain b'
      where b': "f j b = Some b'" "length b' = length b"
        "\<forall>k < 8 * length b. bit_at b' k = (if k = unat i + j then s else bit_at b k)"
      unfolding u f_def by blast
    moreover have "unat i \<le> k \<and> k < unat i + Suc j \<longleftrightarrow> k = unat i + j \<or> unat i \<le> k \<and> k < unat i + j" for k
      by auto
    ultimately show ?thesis
      using P unfolding P_def by (metis (no_types, lifting))
  qed
  have "P 0 buf" by (auto simp: P_def)
  then have "\<exists>b'. for_upto (unat n) f buf = Some b' \<and> P (unat n) b'"
    using step by (rule for_upto_rule)
  moreover have "BitmapChangeBits (Some buf) i s n = for_upto (unat n) f buf"
    by (simp add: BitmapChangeBits_def f_def [abs_def])
  ultimately show ?thesis
    by (simp only: P_def)
qed

lemma BitmapScan_match_ok:
  assumes "unat i + unat j + n \<le> 8 * length buf" and "unat i + unat j + n \<le> 2 ^ 32"
  shows "BitmapScan_match n (Some buf) i s j =
    Some (\<forall>k < n. bit_at buf (unat i + unat j + k) = s)"
  using assms
proof (induction n arbitrary: j)
  case (Suc n)
  have ij: "unat (i + j) = unat i + unat j"
    using Suc.prems(2) by (intro unat_plus_if_small) simp
  have "unat j + 1 < 2 ^ 32 \<or> n = 0"
    using Suc.prems(2) by auto
  then have "n = 0 \<or> unat (j + 1) = unat j + 1"
    using unat_plus_if_small [of j 1] by auto
  then have IH: "BitmapScan_match n (Some buf) i s (j + 1) =
      Some (\<forall>k < n. bit_at buf (unat i + unat j + Suc k) = s)"
    using Suc by auto
  have "(\<forall>k < Suc n. bit_at buf (unat i + unat j + k) = s) \<longleftrightarrow>
      bit_at buf (unat i + unat j) = s \<and> (\<forall>k < n. bit_at buf (unat i + unat j + Suc k) = s)"
    by (auto simp: less_Suc_eq_0_disj)
  then show ?case
    using BitmapGetBit_ok [of "i + j" buf] Suc.prems(1) ij IH by auto
qed simp

text \<open>\<open>run_at buf s n k\<close>: the \<open>n\<close> bits from position \<open>k\<close> on all have the value \<open>s\<close>.\<close>

definition run_at :: "BYTE list \<Rightarrow> bool \<Rightarrow> nat \<Rightarrow> nat \<Rightarrow> bool" where
  "run_at buf s n k = (\<forall>j < n. bit_at buf (k + j) = s)"

lemma BitmapScan_loop_ok:
  assumes "unat l + unat n \<le> 8 * length buf" and "unat l + unat n < 2 ^ 32" and "n \<noteq> 0"
    and "unat i \<le> Suc (unat l)"
  shows "\<exists>r. BitmapScan_loop (Some buf) l n s i = Some r \<and>
    (if r = MAX_DWORD then \<forall>k. unat i \<le> k \<and> k \<le> unat l \<longrightarrow> \<not> run_at buf s (unat n) k
     else i \<le> r \<and> r \<le> l \<and> run_at buf s (unat n) (unat r)
       \<and> (\<forall>k. unat i \<le> k \<and> k < unat r \<longrightarrow> \<not> run_at buf s (unat n) k))"
  using assms(4)
proof (induction "Suc (unat l) - unat i" arbitrary: i)
  case 0
  then have "\<not> i \<le> l" by (simp add: word_le_nat_alt)
  with 0 show ?case by (auto simp: BitmapScan_loop.simps word_le_nat_alt)
next
  case (Suc d)
  then have il: "i \<le> l" by (simp add: word_le_nat_alt)
  have n0: "0 < unat n" using assms(3) by (simp add: unat_gt_0)
  have l_max: "Suc (unat l) < 2 ^ 32" using assms(2) n0 by simp
  have i_le: "unat i \<le> unat l" using il by (simp add: word_le_nat_alt)
  then have i1: "unat (i + 1) = Suc (unat i)"
    using l_max unat_plus_if_small [of i 1] by simp
  have i_ne: "i \<noteq> MAX_DWORD" using i_le l_max by auto
  have m: "BitmapScan_match (unat n) (Some buf) i s 0 = Some (run_at buf s (unat n) (unat i))"
    using BitmapScan_match_ok [of i 0 "unat n" buf s] assms(1,2) i_le by (simp add: run_at_def)
  show ?case
  proof (cases "run_at buf s (unat n) (unat i)")
    case True
    with m il i_ne show ?thesis by (subst BitmapScan_loop.simps) auto
  next
    case False
    with m il have step: "BitmapScan_loop (Some buf) l n s i = BitmapScan_loop (Some buf) l n s (i + 1)"
      by (subst BitmapScan_loop.simps) simp
    obtain r where r: "BitmapScan_loop (Some buf) l n s (i + 1) = Some r"
      "if r = MAX_DWORD then \<forall>k. unat (i + 1) \<le> k \<and> k \<le> unat l \<longrightarrow> \<not> run_at buf s (unat n) k
       else i + 1 \<le> r \<and> r \<le> l \<and> run_at buf s (unat n) (unat r)
         \<and> (\<forall>k. unat (i + 1) \<le> k \<and> k < unat r \<longrightarrow> \<not> run_at buf s (unat n) k)"
    proof -
      have "d = Suc (unat l) - unat (i + 1)" "unat (i + 1) \<le> Suc (unat l)"
        using Suc.hyps(2) i1 i_le by auto
      from Suc.hyps(1) [OF this] that show ?thesis by blast
    qed
    show ?thesis
    proof (cases "r = MAX_DWORD")
      case True
      have "\<not> run_at buf s (unat n) k" if "unat i \<le> k" "k \<le> unat l" for k
        using that r(2) True False i1 by (cases "k = unat i") simp_all
      with r True show ?thesis by (auto simp: step)
    next
      case r_ne: False
      with r(2) i1 have "i \<le> r" by (simp add: word_le_nat_alt)
      moreover have "\<not> run_at buf s (unat n) k" if "unat i \<le> k" "k < unat r" for k
        using that r(2) r_ne False i1 by (cases "k = unat i") simp_all
      ultimately show ?thesis using r r_ne by (auto simp: step)
    qed
  qed
qed

section \<open>Operations on whole bitmaps\<close>

lemma bitmap_invE:
  assumes "bitmap_inv b"
  obtains buf where "BitmapBuffer b = Some buf" "unat (BitCount b) \<le> 8 * length buf"
    "\<forall>k < unat (BitCount b). bm_bit b k = bit_at buf k"
  using assms by (auto simp: bitmap_inv_def bm_bit_def split: option.splits)

lemma BitmapPreinit_ok:
  assumes "n \<noteq> 0"
  shows "\<exists>b. BitmapPreinit n = Some (BufferSize b, b) \<and> BitCount b = n
    \<and> unat (BufferSize b) = (unat n + 7) div 8"
proof -
  have "unat (AlignAddressUpper (ucast n) 8) = (unat n + 7) div 8 * 8"
  proof -
    have "unat (ucast n + 7 :: QWORD) = unat n + 7"
      using unat_plus_if_small [of "ucast n :: QWORD" 7] unat_DWORD_less [of n]
      by (simp add: unat_ucast_QWORD del: unat_DWORD_less)
    then show ?thesis
      using and_not_mask_unat [of "ucast n + 7 :: QWORD" 3]
      by (simp add: AlignAddressUpper_def AlignAddressLower_def mask_eq_exp_minus_1 add.commute)
  qed
  then have "unat (AlignAddressUpper (ucast n) 8 div 8) = (unat n + 7) div 8"
    by (simp add: unat_div)
  moreover have "(unat n + 7) div 8 < 2 ^ 32"
    using unat_DWORD_less [of n] by (simp del: unat_DWORD_less)
  ultimately have "unat (ucast (AlignAddressUpper (ucast n) 8 div 8) :: DWORD) = (unat n + 7) div 8"
    by (simp add: unat_ucast_DWORD)
  with assms show ?thesis
    by (auto simp: BitmapPreinit_def zero_BITMAP_def Let_def)
qed

lemma BitmapInitEx_ok:
  assumes "unat (BufferSize b) \<le> length buf" and "unat (BitCount b) \<le> 8 * unat (BufferSize b)"
  shows "\<exists>b'. BitmapInitEx b (Some buf) s = Some b' \<and> bitmap_inv b' \<and> BitCount b' = BitCount b
    \<and> BufferSize b' = BufferSize b \<and> bm_set b' = (if s then {..<unat (BitCount b)} else {})"
proof -
  let ?n = "unat (BufferSize b)"
  let ?buf = "replicate ?n (if s then MAX_BYTE else 0) @ drop ?n buf"
  have "bit_at ?buf k = s" if "k < unat (BitCount b)" for k
  proof -
    have "k div 8 < ?n" using that assms(2) by auto
    moreover have "bit MAX_BYTE (k mod 8)"
    proof -
      have "MAX_BYTE = mask 8" by (simp add: mask_eq_exp_minus_1)
      then show ?thesis by (simp only: bit_mask_iff) simp
    qed
    ultimately show ?thesis by (simp add: bit_at_def nth_append)
  qed
  then show ?thesis
    using assms by (auto simp: BitmapInitEx_def Let_def bitmap_inv_def bm_set_def bm_bit_def)
qed

lemma BitmapGetBitValue_ok:
  assumes "bitmap_inv b" and "i < BitCount b"
  shows "BitmapGetBitValue b i = Some (unat i \<in> bm_set b)"
proof -
  from assms(1) obtain buf where buf: "BitmapBuffer b = Some buf" "unat (BitCount b) \<le> 8 * length buf"
    "\<forall>k < unat (BitCount b). bm_bit b k = bit_at buf k"
    by (rule bitmap_invE)
  have "unat i < unat (BitCount b)" using assms(2) by (simp add: word_less_nat_alt)
  with buf assms(2) show ?thesis
    by (simp add: BitmapGetBitValue_def BitmapGetBit_ok bm_set_def)
qed

lemma ChangeBits_bitmap:
  assumes "bitmap_inv b" and "unat i + unat n \<le> unat (BitCount b)"
  shows "\<exists>buf. BitmapChangeBits (BitmapBuffer b) i s n = Some buf
    \<and> bitmap_inv (b\<lparr>BitmapBuffer := Some buf\<rparr>)
    \<and> bm_set (b\<lparr>BitmapBuffer := Some buf\<rparr>) =
      (if s then bm_set b \<union> {unat i..<unat i + unat n} else bm_set b - {unat i..<unat i + unat n})"
proof -
  from assms(1) obtain buf0 where buf0: "BitmapBuffer b = Some buf0" "unat (BitCount b) \<le> 8 * length buf0"
    "\<forall>k < unat (BitCount b). bm_bit b k = bit_at buf0 k"
    by (rule bitmap_invE)
  have "unat (BitCount b) \<le> 2 ^ 32"
    using unat_DWORD_less [of "BitCount b"] by (simp del: unat_DWORD_less)
  with BitmapChangeBits_ok [of i n buf0 s] assms(2) buf0(2) obtain buf
    where buf: "BitmapChangeBits (Some buf0) i s n = Some buf" "length buf = length buf0"
      "\<forall>k < 8 * length buf0. bit_at buf k = (if unat i \<le> k \<and> k < unat i + unat n then s else bit_at buf0 k)"
    by auto
  have "bm_bit (b\<lparr>BitmapBuffer := Some buf\<rparr>) k =
      (k < unat (BitCount b) \<and> (if unat i \<le> k \<and> k < unat i + unat n then s else bm_bit b k))" for k
    using buf(3) buf0 by (auto simp: bm_bit_def)
  moreover have "k < unat (BitCount b)" if "bm_bit b k" for k
    using that by (simp add: bm_bit_def)
  ultimately show ?thesis
    using buf(1,2) buf0(1,2) assms(2) by (auto simp: bitmap_inv_def bm_set_def split: if_splits)
qed

lemma BitmapSetBitsValue_ok:
  assumes "bitmap_inv b" and "i < BitCount b" and "unat i + unat n \<le> unat (BitCount b)"
  shows "\<exists>b'. BitmapSetBitsValue b i n s = Some b' \<and> bitmap_inv b' \<and> BitCount b' = BitCount b
    \<and> BufferSize b' = BufferSize b
    \<and> bm_set b' = (if s then bm_set b \<union> {unat i..<unat i + unat n} else bm_set b - {unat i..<unat i + unat n})"
proof -
  have "n \<le> BitCount b" using assms(3) by (simp add: word_le_nat_alt)
  then have "i \<le> BitCount b - n"
    using assms(3) by (simp add: word_le_nat_alt unat_sub)
  with ChangeBits_bitmap [OF assms(1,3), of s] assms(2) show ?thesis
    by (auto simp: BitmapSetBitsValue_def)
qed

text \<open>First fit: the abstract specification of a scan for \<open>n\<close> equal bits in \<open>[from, to)\<close>.\<close>

definition bm_run :: "BITMAP \<Rightarrow> bool \<Rightarrow> nat \<Rightarrow> nat \<Rightarrow> bool" where
  "bm_run b s n k = (\<forall>j < n. bm_bit b (k + j) = s)"

definition first_fit :: "BITMAP \<Rightarrow> nat \<Rightarrow> nat \<Rightarrow> nat \<Rightarrow> bool \<Rightarrow> DWORD \<Rightarrow> bool" where
  "first_fit b from to n s r =
     (if r = MAX_DWORD then \<forall>k. from \<le> k \<and> k + n \<le> to \<longrightarrow> \<not> bm_run b s n k
      else from \<le> unat r \<and> unat r + n \<le> to \<and> bm_run b s n (unat r)
        \<and> (\<forall>k. from \<le> k \<and> k < unat r \<longrightarrow> \<not> bm_run b s n k))"

lemma BitmapScanInternal_ok:
  assumes "bitmap_inv b" and "n \<noteq> 0" and "i \<le> l" and "l \<le> BitCount b"
  shows "\<exists>r. BitmapScanInternal b i l n s = Some r \<and> first_fit b (unat i) (unat l) (unat n) s r"
proof (cases "l - i < n")
  case True
  then have "unat l - unat i < unat n"
    using assms(3) by (simp add: word_less_nat_alt unat_sub)
  with True assms show ?thesis
    by (auto simp: BitmapScanInternal_def first_fit_def)
next
  case False
  from assms(1) obtain buf where buf: "BitmapBuffer b = Some buf" "unat (BitCount b) \<le> 8 * length buf"
    "\<forall>k < unat (BitCount b). bm_bit b k = bit_at buf k"
    by (rule bitmap_invE)
  have le: "unat i \<le> unat l" "unat l \<le> unat (BitCount b)" "unat n \<le> unat l - unat i"
    using assms(3,4) False by (simp_all add: word_le_nat_alt word_less_nat_alt unat_sub)
  then have ln: "unat (l - n) = unat l - unat n"
    by (simp add: unat_sub word_le_nat_alt)
  have run: "bm_run b s (unat n) k = run_at buf s (unat n) k" if "k + unat n \<le> unat l" for k
    using that buf(3) le(2) by (simp add: bm_run_def run_at_def)
  have "unat l < 2 ^ 32" using unat_DWORD_less [of l] by (simp del: unat_DWORD_less)
  then obtain r where r: "BitmapScan_loop (Some buf) (l - n) n s i = Some r"
    "if r = MAX_DWORD then \<forall>k. unat i \<le> k \<and> k \<le> unat (l - n) \<longrightarrow> \<not> run_at buf s (unat n) k
     else i \<le> r \<and> r \<le> l - n \<and> run_at buf s (unat n) (unat r)
       \<and> (\<forall>k. unat i \<le> k \<and> k < unat r \<longrightarrow> \<not> run_at buf s (unat n) k)"
    using BitmapScan_loop_ok [of "l - n" n buf i s] assms(2) buf(2) le ln by force
  have "first_fit b (unat i) (unat l) (unat n) s r"
    using r(2) le run by (auto simp: first_fit_def ln word_le_nat_alt split: if_splits)
  with r(1) False assms buf(1) show ?thesis
    by (auto simp: BitmapScanInternal_def)
qed

lemma BitmapScanFromToAndFlip_ok:
  assumes "bitmap_inv b" and "n \<noteq> 0" and "i \<le> l" and "l \<le> BitCount b"
  shows "\<exists>r b'. BitmapScanFromToAndFlip b i l n s = Some (r, b') \<and> first_fit b (unat i) (unat l) (unat n) s r
    \<and> bitmap_inv b' \<and> BitCount b' = BitCount b
    \<and> bm_set b' = (if r = MAX_DWORD then bm_set b
        else if s then bm_set b - {unat r..<unat r + unat n} else bm_set b \<union> {unat r..<unat r + unat n})"
proof -
  from BitmapScanInternal_ok [OF assms] obtain r
    where r: "BitmapScanInternal b i l n s = Some r" "first_fit b (unat i) (unat l) (unat n) s r" by blast
  have g: "\<not> (i > l \<or> l > BitCount b)" using assms(3,4) by auto
  show ?thesis
  proof (cases "r = MAX_DWORD")
    case True
    with r assms(1,2) g show ?thesis by (simp add: BitmapScanFromToAndFlip_def)
  next
    case False
    then have "unat r + unat n \<le> unat (BitCount b)"
      using r(2) assms(4) by (simp add: first_fit_def word_le_nat_alt)
    from ChangeBits_bitmap [OF assms(1) this, of "\<not> s"] obtain buf
      where "BitmapChangeBits (BitmapBuffer b) r (\<not> s) n = Some buf"
        "bitmap_inv (b\<lparr>BitmapBuffer := Some buf\<rparr>)"
        "bm_set (b\<lparr>BitmapBuffer := Some buf\<rparr>) =
          (if \<not> s then bm_set b \<union> {unat r..<unat r + unat n} else bm_set b - {unat r..<unat r + unat n})"
      by blast
    with r False assms(2) g show ?thesis
      by (intro exI [of _ r] exI [of _ "b\<lparr>BitmapBuffer := Some buf\<rparr>"])
        (simp add: BitmapScanFromToAndFlip_def)
  qed
qed

lemma bm_run_free: "bm_run b False n k \<longleftrightarrow> bm_set b \<inter> {k..<k + n} = {}"
proof -
  have "(\<forall>j<n. \<not> bm_bit b (k + j)) \<longleftrightarrow> (\<forall>x \<in> {k..<k + n}. \<not> bm_bit b x)"
    by (auto simp: le_iff_add)
  then show ?thesis unfolding bm_run_def bm_set_def by blast
qed

section \<open>The interface of the allocators\<close>

text \<open>
  The physical memory manager uses a bitmap as an allocator of ranges of frames. The locale states
  what it relies on, and derives what a caller of the allocator relies on.
\<close>

locale range_allocator =
  fixes inv :: "'b \<Rightarrow> bool"
    and cap :: "'b \<Rightarrow> nat"
    and used :: "'b \<Rightarrow> nat set"
    and alloc :: "'b \<Rightarrow> DWORD \<Rightarrow> DWORD \<Rightarrow> (DWORD \<times> 'b) option"
    and free :: "'b \<Rightarrow> DWORD \<Rightarrow> DWORD \<Rightarrow> 'b option"
  assumes alloc_law: "inv b \<Longrightarrow> n \<noteq> 0 \<Longrightarrow> \<exists>r b'. alloc b i n = Some (r, b') \<and> inv b' \<and> cap b' = cap b \<and>
      (if r = MAX_DWORD
       then used b' = used b \<and> (\<forall>k. unat i \<le> k \<and> k + unat n \<le> cap b \<longrightarrow> used b \<inter> {k..<k + unat n} \<noteq> {})
       else unat i \<le> unat r \<and> unat r + unat n \<le> cap b \<and> used b \<inter> {unat r..<unat r + unat n} = {}
         \<and> used b' = used b \<union> {unat r..<unat r + unat n})"
    and free_law: "inv b \<Longrightarrow> n \<noteq> 0 \<Longrightarrow> unat i + unat n \<le> cap b \<Longrightarrow>
      \<exists>b'. free b i n = Some b' \<and> inv b' \<and> cap b' = cap b \<and> used b' = used b - {unat i..<unat i + unat n}"
begin

lemma alloc_got:
  assumes "inv b" "n \<noteq> 0" "alloc b i n = Some (r, b')" "r \<noteq> MAX_DWORD"
  shows "inv b'" "cap b' = cap b" "unat i \<le> unat r" "unat r + unat n \<le> cap b"
    "used b \<inter> {unat r..<unat r + unat n} = {}" "used b' = used b \<union> {unat r..<unat r + unat n}"
  using alloc_law [OF assms(1,2), of i] assms(3,4) by simp_all

lemma alloc_full:
  assumes "inv b" "n \<noteq> 0" "alloc b i n = Some (MAX_DWORD, b')"
  shows "inv b'" "cap b' = cap b" "used b' = used b"
    "\<forall>k. unat i \<le> k \<and> k + unat n \<le> cap b \<longrightarrow> used b \<inter> {k..<k + unat n} \<noteq> {}"
  using alloc_law [OF assms(1,2), of i] assms(3) by simp_all

lemma alloc_disjoint:
  assumes "inv b" "n \<noteq> 0" "m \<noteq> 0"
    and a: "alloc b i n = Some (r, b1)" "r \<noteq> MAX_DWORD" "alloc b1 j m = Some (t, b2)" "t \<noteq> MAX_DWORD"
  shows "{unat r..<unat r + unat n} \<inter> {unat t..<unat t + unat m} = {}"
proof -
  note g = alloc_got [OF assms(1,2) a(1,2)]
  have "used b1 \<inter> {unat t..<unat t + unat m} = {}"
    using alloc_got(5) [OF g(1) assms(3) a(3,4)] .
  with g(6) show ?thesis by blast
qed

lemma alloc_free_restores:
  assumes "inv b" "n \<noteq> 0" "alloc b i n = Some (r, b1)" "r \<noteq> MAX_DWORD"
  shows "\<exists>b2. free b1 r n = Some b2 \<and> inv b2 \<and> cap b2 = cap b \<and> used b2 = used b"
proof -
  note g = alloc_got [OF assms]
  obtain b2 where "free b1 r n = Some b2" "inv b2" "cap b2 = cap b1"
    "used b2 = used b1 - {unat r..<unat r + unat n}"
    using free_law [OF g(1) assms(2), of r] g(2,4) by auto
  moreover have "used b1 - {unat r..<unat r + unat n} = used b"
    using g(5,6) by blast
  ultimately show ?thesis using g(2) by simp
qed

end

lemma BitmapScanFromAndFlip_free:
  assumes "bitmap_inv b" and "n \<noteq> 0"
  shows "\<exists>r b'. BitmapScanFromAndFlip b i n False = Some (r, b') \<and> bitmap_inv b' \<and> BitCount b' = BitCount b \<and>
      (if r = MAX_DWORD
       then bm_set b' = bm_set b \<and> (\<forall>k. unat i \<le> k \<and> k + unat n \<le> unat (BitCount b) \<longrightarrow> bm_set b \<inter> {k..<k + unat n} \<noteq> {})
       else unat i \<le> unat r \<and> unat r + unat n \<le> unat (BitCount b) \<and> bm_set b \<inter> {unat r..<unat r + unat n} = {}
         \<and> bm_set b' = bm_set b \<union> {unat r..<unat r + unat n})"
proof (cases "i \<le> BitCount b")
  case True
  from BitmapScanFromToAndFlip_ok [OF assms this order_refl, of False] show ?thesis
    by (auto simp: BitmapScanFromAndFlip_def first_fit_def bm_run_free split: if_splits)
next
  case False
  then have "unat (BitCount b) < unat i" by (simp add: word_le_nat_alt)
  with False assms show ?thesis
    by (auto simp: BitmapScanFromAndFlip_def BitmapScanFromToAndFlip_def)
qed

interpretation bitmap_alloc: range_allocator bitmap_inv "\<lambda>b. unat (BitCount b)" bm_set
  "\<lambda>b i n. BitmapScanFromAndFlip b i n False" "\<lambda>b i n. BitmapSetBitsValue b i n False"
proof
  fix b and n i :: DWORD
  assume "bitmap_inv b" "n \<noteq> 0"
  from BitmapScanFromAndFlip_free [OF this, of i]
  show "\<exists>r b'. BitmapScanFromAndFlip b i n False = Some (r, b') \<and> bitmap_inv b' \<and> unat (BitCount b') = unat (BitCount b) \<and>
      (if r = MAX_DWORD
       then bm_set b' = bm_set b \<and> (\<forall>k. unat i \<le> k \<and> k + unat n \<le> unat (BitCount b) \<longrightarrow> bm_set b \<inter> {k..<k + unat n} \<noteq> {})
       else unat i \<le> unat r \<and> unat r + unat n \<le> unat (BitCount b) \<and> bm_set b \<inter> {unat r..<unat r + unat n} = {}
         \<and> bm_set b' = bm_set b \<union> {unat r..<unat r + unat n})"
    by metis
next
  fix b and n i :: DWORD
  assume "bitmap_inv b" "n \<noteq> 0" and le: "unat i + unat n \<le> unat (BitCount b)"
  moreover from this have "i < BitCount b"
    by (simp add: word_less_nat_alt flip: unat_gt_0)
  ultimately show "\<exists>b'. BitmapSetBitsValue b i n False = Some b' \<and> bitmap_inv b'
      \<and> unat (BitCount b') = unat (BitCount b) \<and> bm_set b' = bm_set b - {unat i..<unat i + unat n}"
    using BitmapSetBitsValue_ok [of b i n False] by auto
qed

section \<open>Properties\<close>

definition ex_bitmap :: BITMAP where
  "ex_bitmap = \<lparr>BitmapBuffer = Some [0x0F, 0x81], BufferSize = 2, BitCount = 9\<rparr>"

lemma ex_bitmap_inv: "bitmap_inv ex_bitmap"
  by (simp add: ex_bitmap_def bitmap_inv_def)

text \<open>
  an initialised bitmap uses the least number of bytes that holds its elements, and all of its
  elements are set or all are clear, as asked.
\<close>

theorem bitmap_init_spec:
  assumes "n \<noteq> 0" and "(unat n + 7) div 8 \<le> length buf"
  shows "\<exists>b b'. BitmapPreinit n = Some (BufferSize b, b) \<and> unat (BufferSize b) = (unat n + 7) div 8
    \<and> BitmapInitEx b (Some buf) s = Some b' \<and> bitmap_inv b' \<and> BitmapGetMaxElementCount b' = n
    \<and> bm_set b' = (if s then {..<unat n} else {})"
proof -
  from BitmapPreinit_ok [OF assms(1)] obtain b where b: "BitmapPreinit n = Some (BufferSize b, b)"
    "BitCount b = n" "unat (BufferSize b) = (unat n + 7) div 8" by blast
  with BitmapInitEx_ok [of b buf s] assms(2) show ?thesis
    by (fastforce simp: BitmapGetMaxElementCount_def)
qed

theorem bitmap_init_spec_witness:
  "\<exists>b b'. BitmapPreinit 9 = Some (BufferSize b, b) \<and> unat (BufferSize b) = 2
    \<and> BitmapInitEx b (Some [1, 2, 3]) True = Some b' \<and> bm_set b' = {..<9}"
  using bitmap_init_spec [of 9 "[1, 2, 3]" True] by auto

text \<open>
  \<open>BitmapSetBitsValue\<close> on a range inside the bitmap changes exactly the bits of that range:
  reading any element afterwards returns the new value inside the range and the old one outside.
\<close>

theorem bitmap_set_get:
  assumes "bitmap_inv b" and "i < BitCount b" and "unat i + unat n \<le> unat (BitCount b)" and "j < BitCount b"
  shows "\<exists>b'. BitmapSetBitsValue b i n s = Some b' \<and> bitmap_inv b'
    \<and> BitmapGetBitValue b' j = (if unat i \<le> unat j \<and> unat j < unat i + unat n then Some s else BitmapGetBitValue b j)"
proof -
  from BitmapSetBitsValue_ok [OF assms(1-3), of s] obtain b' where b': "BitmapSetBitsValue b i n s = Some b'"
    "bitmap_inv b'" "BitCount b' = BitCount b"
    "bm_set b' = (if s then bm_set b \<union> {unat i..<unat i + unat n} else bm_set b - {unat i..<unat i + unat n})" by blast
  have "BitmapGetBitValue b' j = Some (unat j \<in> bm_set b')" "BitmapGetBitValue b j = Some (unat j \<in> bm_set b)"
    using BitmapGetBitValue_ok [OF b'(2)] BitmapGetBitValue_ok [OF assms(1)] assms(4) b'(3) by auto
  with b' show ?thesis by auto
qed

theorem bitmap_set_get_witness:
  "\<exists>b'. BitmapSetBitsValue ex_bitmap 4 5 True = Some b' \<and> BitmapGetBitValue b' 7 = Some True"
  using bitmap_set_get [OF ex_bitmap_inv, of 4 5 7 True] by (auto simp: ex_bitmap_def)

text \<open>
  C4: \<open>BitmapScanFromToAndFlip\<close> is first fit: it returns the lowest start of a run of equal bits inside
  the bounds and flips exactly that run, or returns MAX\_DWORD, leaving the bitmap alone, when no such
  run exists; the scan always ends.
\<close>

theorem scan_and_flip_first_fit:
  assumes "bitmap_inv b" and "n \<noteq> 0" and "i \<le> l" and "l \<le> BitCount b"
  shows "\<exists>r b'. BitmapScanFromToAndFlip b i l n s = Some (r, b') \<and> first_fit b (unat i) (unat l) (unat n) s r
    \<and> bitmap_inv b' \<and> BitCount b' = BitCount b
    \<and> bm_set b' = (if r = MAX_DWORD then bm_set b
        else if s then bm_set b - {unat r..<unat r + unat n} else bm_set b \<union> {unat r..<unat r + unat n})"
  by (rule BitmapScanFromToAndFlip_ok [OF assms])

theorem scan_and_flip_first_fit_witness:
  "\<exists>r b'. BitmapScanFromToAndFlip ex_bitmap 0 9 2 False = Some (r, b')
    \<and> first_fit ex_bitmap 0 9 2 False r \<and> bitmap_inv b'"
  using scan_and_flip_first_fit [OF ex_bitmap_inv, of 2 0 9 False] by (auto simp: ex_bitmap_def)

text \<open>
  the guard of \<open>BitmapSetBitsValue\<close> subtracts before it compares, so a count larger than the bitmap
  wraps around and passes: the call succeeds on a range that ends outside of the bitmap.
\<close>

theorem bitmap_set_guard_wraps:
  "\<exists>b i n. bitmap_inv b \<and> unat (BitCount b) < unat i + unat n \<and> BitmapSetBitsValue b i n True \<noteq> None"
proof -
  have "\<exists>buf. BitmapChangeBits (Some [0x0F, 0x81]) 0 True 10 = Some buf"
    using BitmapChangeBits_ok [of 0 10 "[0x0F, 0x81]" True] by auto
  then have "BitmapSetBitsValue ex_bitmap 0 10 True \<noteq> None"
    by (auto simp: BitmapSetBitsValue_def ex_bitmap_def)
  moreover have "unat (BitCount ex_bitmap) < unat (0::DWORD) + unat (10::DWORD)"
    by (simp add: ex_bitmap_def)
  ultimately show ?thesis using ex_bitmap_inv by blast
qed

end
