(* ===== verification/Locks.thy ===== *)
theory Locks
  imports Hal_Prelude
begin

text \<open>
  The exclusive locks of \<open>CommonLib\<close>: the spinlock (\<open>spinlock.c\<close>), the lock that waits with
  \<^verbatim>\<open>monitor\<close>/\<^verbatim>\<open>mwait\<close> (\<open>monlock.c\<close>) and the choice between them (\<open>lock_common.c\<close>).

  Every function is first a function on the lock and on the processor that runs it, as if nothing
  else ran: this is the view the callers of a lock have of it, and a lock that is taken is never
  obtained (\<open>None\<close>). Then the same code is a relation of atomic steps, one per access to the shared
  lock, interleaved between any number of processors: on it mutual exclusion is an invariant.
\<close>

section \<open>The processor\<close>

type_synonym INTR_STATE = bool

abbreviation (input) INTR_OFF :: INTR_STATE where "INTR_OFF \<equiv> False"

record CPU =
  CpuSelf :: ptr
  CpuIntr :: INTR_STATE

definition CpuGetCurrent :: "CPU \<Rightarrow> ptr" where
  "CpuGetCurrent cpu = CpuSelf cpu"

definition CpuIntrGetState :: "CPU \<Rightarrow> INTR_STATE" where
  "CpuIntrGetState cpu = CpuIntr cpu"

definition CpuIntrSetState :: "INTR_STATE \<Rightarrow> CPU \<Rightarrow> CPU" where
  "CpuIntrSetState st cpu = cpu\<lparr>CpuIntr := st\<rparr>"

definition CpuIntrDisable :: "CPU \<Rightarrow> INTR_STATE \<times> CPU" where
  "CpuIntrDisable cpu = (CpuIntr cpu, cpu\<lparr>CpuIntr := INTR_OFF\<rparr>)"

lemmas cpu_defs = CpuGetCurrent_def CpuIntrGetState_def CpuIntrSetState_def CpuIntrDisable_def

section \<open>Spinlock\<close>

abbreviation LOCK_TAKEN :: BYTE where "LOCK_TAKEN \<equiv> 1"
abbreviation LOCK_FREE :: BYTE where "LOCK_FREE \<equiv> 0"

record SPINLOCK =
  State :: BYTE
  Holder :: ptr
  FunctionWhichTookLock :: ptr

text \<open>\<^verbatim>\<open>_InterlockedCompareExchange8(&State, new, old)\<close>: the previous value and the lock.\<close>

definition CompareExchange_State :: "SPINLOCK \<Rightarrow> BYTE \<Rightarrow> BYTE \<Rightarrow> BYTE \<times> SPINLOCK" where
  "CompareExchange_State l new old = (State l, if State l = old then l\<lparr>State := new\<rparr> else l)"

definition SpinlockInit :: "SPINLOCK \<Rightarrow> SPINLOCK" where
  "SpinlockInit Lock = \<lparr>State = LOCK_FREE, Holder = NULL, FunctionWhichTookLock = NULL\<rparr>"

partial_function (option) SpinlockAcquire_loop :: "SPINLOCK \<Rightarrow> SPINLOCK option" where
  "SpinlockAcquire_loop Lock =
     (let (v, Lock) = CompareExchange_State Lock LOCK_TAKEN LOCK_FREE
      in if LOCK_TAKEN = v then SpinlockAcquire_loop Lock else Some Lock)"

definition SpinlockAcquire :: "CPU \<Rightarrow> ptr \<Rightarrow> SPINLOCK \<Rightarrow> (INTR_STATE \<times> CPU \<times> SPINLOCK) option" where
  "SpinlockAcquire cpu ReturnAddress Lock = do {
     let (IntrState, cpu) = CpuIntrDisable cpu;
     let pCurrentCpu = CpuGetCurrent cpu;
     ASSERT (pCurrentCpu \<noteq> Holder Lock);
     Lock \<leftarrow> SpinlockAcquire_loop Lock;
     ASSERT (NULL = FunctionWhichTookLock Lock);
     ASSERT (NULL = Holder Lock);
     let Lock = Lock\<lparr>Holder := pCurrentCpu\<rparr>;
     let Lock = Lock\<lparr>FunctionWhichTookLock := ReturnAddress\<rparr>;
     ASSERT (LOCK_TAKEN = State Lock);
     Some (IntrState, cpu, Lock)
   }"

definition SpinlockTryAcquire :: "CPU \<Rightarrow> ptr \<Rightarrow> SPINLOCK \<Rightarrow> (bool \<times> INTR_STATE \<times> CPU \<times> SPINLOCK) option" where
  "SpinlockTryAcquire cpu ReturnAddress Lock = do {
     let (IntrState, cpu) = CpuIntrDisable cpu;
     let pCurrentCpu = CpuGetCurrent cpu;
     let (v, Lock) = CompareExchange_State Lock LOCK_TAKEN LOCK_FREE;
     let acquired = (LOCK_FREE = v);
     if \<not> acquired then Some (acquired, IntrState, CpuIntrSetState IntrState cpu, Lock)
     else do {
       ASSERT (NULL = FunctionWhichTookLock Lock);
       ASSERT (NULL = Holder Lock);
       let Lock = Lock\<lparr>Holder := pCurrentCpu\<rparr>;
       let Lock = Lock\<lparr>FunctionWhichTookLock := ReturnAddress\<rparr>;
       ASSERT (LOCK_TAKEN = State Lock);
       Some (acquired, IntrState, cpu, Lock)
     }
   }"

definition SpinlockIsOwner :: "CPU \<Rightarrow> SPINLOCK \<Rightarrow> bool" where
  "SpinlockIsOwner cpu Lock = (CpuGetCurrent cpu = Holder Lock)"

definition SpinlockRelease :: "CPU \<Rightarrow> SPINLOCK \<Rightarrow> INTR_STATE \<Rightarrow> (CPU \<times> SPINLOCK) option" where
  "SpinlockRelease cpu Lock OldIntrState = do {
     let pCurrentCpu = CpuGetCurrent cpu;
     ASSERT (pCurrentCpu = Holder Lock);
     ASSERT (INTR_OFF = CpuIntrGetState cpu);
     let Lock = Lock\<lparr>Holder := NULL\<rparr>;
     let Lock = Lock\<lparr>FunctionWhichTookLock := NULL\<rparr>;
     let Lock = Lock\<lparr>State := LOCK_FREE\<rparr>;
     Some (CpuIntrSetState OldIntrState cpu, Lock)
   }"

section \<open>Monitor lock\<close>

text \<open>The other member of the union of MONITOR\_LOCK only pads it to the size of a monitored line.\<close>

record MONITOR_LOCK =
  Lock :: SPINLOCK

definition MonitorLockInit :: "MONITOR_LOCK \<Rightarrow> MONITOR_LOCK" where
  "MonitorLockInit l = \<lparr>Lock = \<lparr>State = LOCK_FREE, Holder = NULL, FunctionWhichTookLock = NULL\<rparr>\<rparr>"

text \<open>\<^verbatim>\<open>_mm_monitor\<close> and \<^verbatim>\<open>_mm_mwait\<close> only delay the processor.\<close>

partial_function (option) MonitorLockAcquire_loop :: "MONITOR_LOCK \<Rightarrow> MONITOR_LOCK option" where
  "MonitorLockAcquire_loop l =
     (let (v, k) = CompareExchange_State (Lock l) LOCK_TAKEN LOCK_FREE; l = l\<lparr>Lock := k\<rparr>
      in if LOCK_FREE = v then Some l else MonitorLockAcquire_loop l)"

definition MonitorLockAcquire :: "CPU \<Rightarrow> ptr \<Rightarrow> MONITOR_LOCK \<Rightarrow> (INTR_STATE \<times> CPU \<times> MONITOR_LOCK) option" where
  "MonitorLockAcquire cpu ReturnAddress l = do {
     let (IntrState, cpu) = CpuIntrDisable cpu;
     let pCurrentCpu = CpuGetCurrent cpu;
     ASSERT (pCurrentCpu \<noteq> Holder (Lock l));
     l \<leftarrow> MonitorLockAcquire_loop l;
     ASSERT (NULL = FunctionWhichTookLock (Lock l));
     ASSERT (NULL = Holder (Lock l));
     let l = l\<lparr>Lock := (Lock l)\<lparr>Holder := pCurrentCpu\<rparr>\<rparr>;
     let l = l\<lparr>Lock := (Lock l)\<lparr>FunctionWhichTookLock := ReturnAddress\<rparr>\<rparr>;
     ASSERT (LOCK_TAKEN = State (Lock l));
     Some (IntrState, cpu, l)
   }"

definition MonitorLockTryAcquire :: "CPU \<Rightarrow> ptr \<Rightarrow> MONITOR_LOCK \<Rightarrow> (bool \<times> INTR_STATE \<times> CPU \<times> MONITOR_LOCK) option" where
  "MonitorLockTryAcquire cpu ReturnAddress l = do {
     let (IntrState, cpu) = CpuIntrDisable cpu;
     let pCurrentCpu = CpuGetCurrent cpu;
     let (v, k) = CompareExchange_State (Lock l) LOCK_TAKEN LOCK_FREE;
     let l = l\<lparr>Lock := k\<rparr>;
     let acquired = (LOCK_FREE = v);
     if \<not> acquired then Some (acquired, IntrState, CpuIntrSetState IntrState cpu, l)
     else do {
       ASSERT (NULL = FunctionWhichTookLock (Lock l));
       ASSERT (NULL = Holder (Lock l));
       let l = l\<lparr>Lock := (Lock l)\<lparr>Holder := pCurrentCpu\<rparr>\<rparr>;
       let l = l\<lparr>Lock := (Lock l)\<lparr>FunctionWhichTookLock := ReturnAddress\<rparr>\<rparr>;
       ASSERT (LOCK_TAKEN = State (Lock l));
       Some (acquired, IntrState, cpu, l)
     }
   }"

definition MonitorLockIsOwner :: "CPU \<Rightarrow> MONITOR_LOCK \<Rightarrow> bool" where
  "MonitorLockIsOwner cpu l = (CpuGetCurrent cpu = Holder (Lock l))"

definition MonitorLockRelease :: "CPU \<Rightarrow> MONITOR_LOCK \<Rightarrow> INTR_STATE \<Rightarrow> (CPU \<times> MONITOR_LOCK) option" where
  "MonitorLockRelease cpu l OldIntrState = do {
     let pCurrentCpu = CpuGetCurrent cpu;
     ASSERT (pCurrentCpu = Holder (Lock l));
     ASSERT (INTR_OFF = CpuIntrGetState cpu);
     let l = l\<lparr>Lock := (Lock l)\<lparr>Holder := NULL\<rparr>\<rparr>;
     let l = l\<lparr>Lock := (Lock l)\<lparr>FunctionWhichTookLock := NULL\<rparr>\<rparr>;
     let l = l\<lparr>Lock := (Lock l)\<lparr>State := LOCK_FREE\<rparr>\<rparr>;
     Some (CpuIntrSetState OldIntrState cpu, l)
   }"

section \<open>The lock interface\<close>

text \<open>
  LOCK is the union of the two, and both begin with a SPINLOCK, so a LOCK is that SPINLOCK. The five
  function pointers of \<open>lock_common.c\<close> are a record that \<open>LockSystemInit\<close> fills.
\<close>

type_synonym LOCK = SPINLOCK

record LOCK_OPS =
  LockInit :: "LOCK \<Rightarrow> LOCK"
  LockAcquire :: "CPU \<Rightarrow> ptr \<Rightarrow> LOCK \<Rightarrow> (INTR_STATE \<times> CPU \<times> LOCK) option"
  LockTryAcquire :: "CPU \<Rightarrow> ptr \<Rightarrow> LOCK \<Rightarrow> (bool \<times> INTR_STATE \<times> CPU \<times> LOCK) option"
  LockIsOwner :: "CPU \<Rightarrow> LOCK \<Rightarrow> bool"
  LockRelease :: "CPU \<Rightarrow> LOCK \<Rightarrow> INTR_STATE \<Rightarrow> (CPU \<times> LOCK) option"

definition LockSystemInit :: "bool \<Rightarrow> LOCK_OPS" where
  "LockSystemInit MonitorSupport =
     (if MonitorSupport
      then \<lparr>LockInit = \<lambda>l. Lock (MonitorLockInit \<lparr>Lock = l\<rparr>),
            LockAcquire = \<lambda>cpu ra l. do { (st, cpu, m) \<leftarrow> MonitorLockAcquire cpu ra \<lparr>Lock = l\<rparr>; Some (st, cpu, Lock m) },
            LockTryAcquire = \<lambda>cpu ra l. do { (b, st, cpu, m) \<leftarrow> MonitorLockTryAcquire cpu ra \<lparr>Lock = l\<rparr>;
                                             Some (b, st, cpu, Lock m) },
            LockIsOwner = \<lambda>cpu l. MonitorLockIsOwner cpu \<lparr>Lock = l\<rparr>,
            LockRelease = \<lambda>cpu l st. do { (cpu, m) \<leftarrow> MonitorLockRelease cpu \<lparr>Lock = l\<rparr> st; Some (cpu, Lock m) }\<rparr>
      else \<lparr>LockInit = SpinlockInit, LockAcquire = SpinlockAcquire, LockTryAcquire = SpinlockTryAcquire,
            LockIsOwner = SpinlockIsOwner, LockRelease = SpinlockRelease\<rparr>)"

definition lock_free :: "LOCK \<Rightarrow> bool" where
  "lock_free l = (State l = LOCK_FREE \<and> Holder l = NULL \<and> FunctionWhichTookLock l = NULL)"

definition lock_held :: "LOCK \<Rightarrow> ptr \<Rightarrow> ptr \<Rightarrow> bool" where
  "lock_held l c ra = (State l = LOCK_TAKEN \<and> Holder l = c \<and> FunctionWhichTookLock l = ra)"

text \<open>What a client of a lock relies on; the laws speak of a processor with a valid address.\<close>

locale exclusive_lock =
  fixes init :: "'l \<Rightarrow> 'l"
    and acquire :: "CPU \<Rightarrow> ptr \<Rightarrow> 'l \<Rightarrow> (INTR_STATE \<times> CPU \<times> 'l) option"
    and try_acquire :: "CPU \<Rightarrow> ptr \<Rightarrow> 'l \<Rightarrow> (bool \<times> INTR_STATE \<times> CPU \<times> 'l) option"
    and is_owner :: "CPU \<Rightarrow> 'l \<Rightarrow> bool"
    and release :: "CPU \<Rightarrow> 'l \<Rightarrow> INTR_STATE \<Rightarrow> (CPU \<times> 'l) option"
    and free :: "'l \<Rightarrow> bool"
    and held :: "'l \<Rightarrow> ptr \<Rightarrow> ptr \<Rightarrow> bool"
  assumes init_free: "free (init l)"
    and acquire_free: "free l \<Longrightarrow> CpuSelf cpu \<noteq> NULL \<Longrightarrow>
      \<exists>l'. acquire cpu ra l = Some (CpuIntr cpu, cpu\<lparr>CpuIntr := INTR_OFF\<rparr>, l') \<and> held l' (CpuSelf cpu) ra"
    and acquire_held: "held l c ra' \<Longrightarrow> c \<noteq> NULL \<Longrightarrow> acquire cpu ra l = None"
    and try_free: "free l \<Longrightarrow> CpuSelf cpu \<noteq> NULL \<Longrightarrow>
      \<exists>l'. try_acquire cpu ra l = Some (True, CpuIntr cpu, cpu\<lparr>CpuIntr := INTR_OFF\<rparr>, l') \<and> held l' (CpuSelf cpu) ra"
    and try_held: "held l c ra' \<Longrightarrow> try_acquire cpu ra l = Some (False, CpuIntr cpu, cpu, l)"
    and owner: "held l c ra \<Longrightarrow> is_owner cpu l \<longleftrightarrow> CpuSelf cpu = c"
    and release_held: "held l c ra \<Longrightarrow> CpuSelf cpu = c \<Longrightarrow> CpuIntr cpu = INTR_OFF \<Longrightarrow>
      \<exists>l'. release cpu l st = Some (cpu\<lparr>CpuIntr := st\<rparr>, l') \<and> free l'"
    and release_other: "held l c ra \<Longrightarrow> CpuSelf cpu \<noteq> c \<Longrightarrow> release cpu l st = None"
begin

text \<open>A critical section whose body keeps the processor: taken, run, released.\<close>

definition locked :: "CPU \<Rightarrow> ptr \<Rightarrow> 'l \<Rightarrow> ('s \<Rightarrow> ('r \<times> 's) option) \<Rightarrow> 's \<Rightarrow> ('r \<times> CPU \<times> 'l \<times> 's) option" where
  "locked cpu ra l body s = do {
     (st, cpu, l) \<leftarrow> acquire cpu ra l;
     (r, s) \<leftarrow> body s;
     (cpu, l) \<leftarrow> release cpu l st;
     Some (r, cpu, l, s)
   }"

lemma locked_free:
  assumes "free l" and "CpuSelf cpu \<noteq> NULL" and "body s = Some (r, s')"
  shows "\<exists>l'. locked cpu ra l body s = Some (r, cpu, l', s') \<and> free l'"
proof -
  from acquire_free [OF assms(1,2)] obtain l1
    where a: "acquire cpu ra l = Some (CpuIntr cpu, cpu\<lparr>CpuIntr := INTR_OFF\<rparr>, l1)" "held l1 (CpuSelf cpu) ra" by blast
  from release_held [OF a(2), of "cpu\<lparr>CpuIntr := INTR_OFF\<rparr>" "CpuIntr cpu"] obtain l2
    where "release (cpu\<lparr>CpuIntr := INTR_OFF\<rparr>) l1 (CpuIntr cpu) = Some (cpu, l2)" "free l2" by auto
  with a assms(3) show ?thesis by (simp add: locked_def)
qed

end

lemma SpinlockAcquire_loop_free [simp]:
  "State l = LOCK_FREE \<Longrightarrow> SpinlockAcquire_loop l = Some (l\<lparr>State := LOCK_TAKEN\<rparr>)"
  by (subst SpinlockAcquire_loop.simps) (simp add: CompareExchange_State_def)

lemma MonitorLockAcquire_loop_free [simp]:
  "State (Lock l) = LOCK_FREE \<Longrightarrow> MonitorLockAcquire_loop l = Some (l\<lparr>Lock := (Lock l)\<lparr>State := LOCK_TAKEN\<rparr>\<rparr>)"
  by (subst MonitorLockAcquire_loop.simps) (simp add: CompareExchange_State_def)

lemma SpinlockAcquire_loop_taken:
  assumes "State l = LOCK_TAKEN"
  shows "SpinlockAcquire_loop l = None"
proof -
  have "State l \<noteq> LOCK_TAKEN" if "SpinlockAcquire_loop l = Some k" for k l
    by (rule SpinlockAcquire_loop.raw_induct [of "\<lambda>l k. State l \<noteq> LOCK_TAKEN", OF _ that])
      (auto simp: CompareExchange_State_def split: if_splits)
  with assms show ?thesis by (cases "SpinlockAcquire_loop l") auto
qed

lemma MonitorLockAcquire_loop_taken:
  assumes "State (Lock l) = LOCK_TAKEN"
  shows "MonitorLockAcquire_loop l = None"
proof -
  have "State (Lock l) \<noteq> LOCK_TAKEN" if "MonitorLockAcquire_loop l = Some k" for k l
    by (rule MonitorLockAcquire_loop.raw_induct [of "\<lambda>l k. State (Lock l) \<noteq> LOCK_TAKEN", OF _ that])
      (auto simp: CompareExchange_State_def split: if_splits)
  with assms show ?thesis by (cases "MonitorLockAcquire_loop l") auto
qed

lemmas lock_defs = SpinlockInit_def SpinlockAcquire_def SpinlockTryAcquire_def SpinlockIsOwner_def SpinlockRelease_def
  MonitorLockInit_def MonitorLockAcquire_def MonitorLockTryAcquire_def MonitorLockIsOwner_def MonitorLockRelease_def
  CompareExchange_State_def cpu_defs

interpretation spin: exclusive_lock SpinlockInit SpinlockAcquire SpinlockTryAcquire SpinlockIsOwner SpinlockRelease
  lock_free lock_held
  by unfold_locales (auto simp: lock_defs lock_free_def lock_held_def SpinlockAcquire_loop_taken)

interpretation monitor: exclusive_lock MonitorLockInit MonitorLockAcquire MonitorLockTryAcquire MonitorLockIsOwner
  MonitorLockRelease "\<lambda>l. lock_free (Lock l)" "\<lambda>l. lock_held (Lock l)"
  by unfold_locales (auto simp: lock_defs lock_free_def lock_held_def MonitorLockAcquire_loop_taken)

interpretation lock_sys: exclusive_lock "LockInit (LockSystemInit m)" "LockAcquire (LockSystemInit m)"
  "LockTryAcquire (LockSystemInit m)" "LockIsOwner (LockSystemInit m)" "LockRelease (LockSystemInit m)"
  lock_free lock_held
  for m
  by (unfold_locales; cases m)
    (auto simp: LockSystemInit_def lock_defs lock_free_def lock_held_def SpinlockAcquire_loop_taken MonitorLockAcquire_loop_taken)

section \<open>Interleaved execution\<close>

text \<open>
  Any number of processors run the functions above on one lock. A program point is the place in
  \<open>SpinlockAcquire\<close>, \<open>SpinlockTryAcquire\<close> or \<open>SpinlockRelease\<close> (the monitor lock has the same ones,
  and \<open>AtWait\<close> for \<^verbatim>\<open>mwait\<close>, which may return at any time); every rule performs at most one access
  to the lock. A failed assertion leads to \<open>Halted\<close>.
\<close>

datatype lock_pc = Outside | AtCas | AtWait | AtTry | AtAssertFn | AtAssertHolder | AtSetHolder | AtSetFn | AtAssertState
  | Critical | AtClearFn | AtFree | Halted

record lock_system =
  lck :: SPINLOCK
  pc :: "ptr \<Rightarrow> lock_pc"
  intr :: "ptr \<Rightarrow> INTR_STATE"
  saved :: "ptr \<Rightarrow> INTR_STATE"

abbreviation goto :: "ptr \<Rightarrow> lock_pc \<Rightarrow> lock_system \<Rightarrow> lock_system" where
  "goto c p s \<equiv> s\<lparr>pc := (pc s)(c := p)\<rparr>"

inductive lock_step :: "bool \<Rightarrow> lock_system \<Rightarrow> lock_system \<Rightarrow> bool" for mon :: bool where
  Acquire: "pc s c = Outside \<Longrightarrow> c \<noteq> NULL \<Longrightarrow>
    lock_step mon s (goto c (if c \<noteq> Holder (lck s) then AtCas else Halted)
      (s\<lparr>saved := (saved s)(c := intr s c), intr := (intr s)(c := INTR_OFF)\<rparr>))"
| Try: "pc s c = Outside \<Longrightarrow> c \<noteq> NULL \<Longrightarrow>
    lock_step mon s (goto c AtTry (s\<lparr>saved := (saved s)(c := intr s c), intr := (intr s)(c := INTR_OFF)\<rparr>))"
| Cas: "pc s c = AtCas \<Longrightarrow> CompareExchange_State (lck s) LOCK_TAKEN LOCK_FREE = (v, l) \<Longrightarrow>
    lock_step mon s (goto c (if v = LOCK_FREE then AtAssertFn else if mon then AtWait else AtCas) (s\<lparr>lck := l\<rparr>))"
| Wait: "pc s c = AtWait \<Longrightarrow> lock_step mon s (goto c AtCas s)"
| TryCas: "pc s c = AtTry \<Longrightarrow> CompareExchange_State (lck s) LOCK_TAKEN LOCK_FREE = (v, l) \<Longrightarrow>
    lock_step mon s (if v = LOCK_FREE then goto c AtAssertFn (s\<lparr>lck := l\<rparr>)
      else goto c Outside (s\<lparr>lck := l, intr := (intr s)(c := saved s c)\<rparr>))"
| AssertFn: "pc s c = AtAssertFn \<Longrightarrow>
    lock_step mon s (goto c (if NULL = FunctionWhichTookLock (lck s) then AtAssertHolder else Halted) s)"
| AssertHolder: "pc s c = AtAssertHolder \<Longrightarrow>
    lock_step mon s (goto c (if NULL = Holder (lck s) then AtSetHolder else Halted) s)"
| SetHolder: "pc s c = AtSetHolder \<Longrightarrow> lock_step mon s (goto c AtSetFn (s\<lparr>lck := (lck s)\<lparr>Holder := c\<rparr>\<rparr>))"
| SetFn: "pc s c = AtSetFn \<Longrightarrow>
    lock_step mon s (goto c AtAssertState (s\<lparr>lck := (lck s)\<lparr>FunctionWhichTookLock := ra\<rparr>\<rparr>))"
| AssertState: "pc s c = AtAssertState \<Longrightarrow>
    lock_step mon s (goto c (if LOCK_TAKEN = State (lck s) then Critical else Halted) s)"
| Release: "pc s c = Critical \<Longrightarrow>
    lock_step mon s (if c = Holder (lck s) \<and> intr s c = INTR_OFF
      then goto c AtClearFn (s\<lparr>lck := (lck s)\<lparr>Holder := NULL\<rparr>\<rparr>) else goto c Halted s)"
| ClearFn: "pc s c = AtClearFn \<Longrightarrow>
    lock_step mon s (goto c AtFree (s\<lparr>lck := (lck s)\<lparr>FunctionWhichTookLock := NULL\<rparr>\<rparr>))"
| Free: "pc s c = AtFree \<Longrightarrow>
    lock_step mon s (goto c Outside (s\<lparr>lck := (lck s)\<lparr>State := LOCK_FREE\<rparr>, intr := (intr s)(c := saved s c)\<rparr>))"

definition lock_init_state :: "SPINLOCK \<Rightarrow> (ptr \<Rightarrow> INTR_STATE) \<Rightarrow> lock_system" where
  "lock_init_state l0 ie = \<lparr>lck = SpinlockInit l0, pc = \<lambda>_. Outside, intr = ie, saved = \<lambda>_. INTR_OFF\<rparr>"

text \<open>The program points at which a processor owns the lock, and those where its fields are set.\<close>

definition owning :: "lock_pc set" where
  "owning = {AtAssertFn, AtAssertHolder, AtSetHolder, AtSetFn, AtAssertState, Critical, AtClearFn, AtFree}"

definition owned_fields :: "lock_pc \<Rightarrow> ptr \<Rightarrow> SPINLOCK \<Rightarrow> bool" where
  "owned_fields p c l = (State l = LOCK_TAKEN
     \<and> Holder l = (if p \<in> {AtSetFn, AtAssertState, Critical} then c else NULL)
     \<and> (p \<notin> {AtAssertState, Critical, AtClearFn} \<longrightarrow> FunctionWhichTookLock l = NULL))"

definition lock_inv_at :: "lock_system \<Rightarrow> ptr option \<Rightarrow> bool" where
  "lock_inv_at s oc = ((\<forall>c. pc s c \<in> owning \<longleftrightarrow> oc = Some c)
     \<and> (case oc of None \<Rightarrow> lock_free (lck s) | Some c \<Rightarrow> owned_fields (pc s c) c (lck s))
     \<and> (\<forall>c. pc s c \<noteq> Outside \<longrightarrow> c \<noteq> NULL \<and> intr s c = INTR_OFF)
     \<and> (\<forall>c. pc s c \<noteq> Halted))"

definition lock_inv :: "lock_system \<Rightarrow> bool" where
  "lock_inv s = (\<exists>oc. lock_inv_at s oc)"

lemma lock_inv_init: "lock_inv (lock_init_state l0 ie)"
  unfolding lock_inv_def
  by (rule exI [of _ None])
    (auto simp: lock_inv_at_def lock_init_state_def SpinlockInit_def owning_def lock_free_def)

lemma owning_simps [simp]:
  "AtAssertFn \<in> owning" "AtAssertHolder \<in> owning" "AtSetHolder \<in> owning" "AtSetFn \<in> owning"
  "AtAssertState \<in> owning" "Critical \<in> owning" "AtClearFn \<in> owning" "AtFree \<in> owning"
  "Outside \<notin> owning" "AtCas \<notin> owning" "AtWait \<notin> owning" "AtTry \<notin> owning" "Halted \<notin> owning"
  by (simp_all add: owning_def)

lemma lock_inv_owner:
  assumes "lock_inv_at s oc" and "pc s c \<in> owning"
  shows "oc = Some c" "owned_fields (pc s c) c (lck s)" "intr s c = INTR_OFF" "c \<noteq> NULL"
  using assms by (auto simp: lock_inv_at_def) (metis owning_simps(9))+

text \<open>A processor that owns the lock moves on to another owning point with fitting fields.\<close>

lemma lock_inv_advance:
  assumes "lock_inv_at s oc" and "pc s c \<in> owning" and "p \<in> owning" and "owned_fields p c l"
  shows "lock_inv_at (goto c p (s\<lparr>lck := l\<rparr>)) (Some c)"
  using assms lock_inv_owner [OF assms(1,2)] by (auto simp: lock_inv_at_def)

text \<open>A processor that does not own the lock moves between points that do not own it.\<close>

lemma lock_inv_idle:
  assumes "lock_inv_at s oc" and "pc s c \<notin> owning" and "p \<notin> owning" and "p \<noteq> Halted"
    and "p \<noteq> Outside \<Longrightarrow> c \<noteq> NULL \<and> i = INTR_OFF"
  shows "lock_inv_at (goto c p (s\<lparr>saved := sv, intr := (intr s)(c := i)\<rparr>)) oc"
  using assms by (auto simp: lock_inv_at_def split: option.splits)

lemma lock_inv_wait:
  assumes "lock_inv_at s oc" and "pc s c \<notin> owning" and "pc s c \<noteq> Outside" and "p \<notin> owning" and "p \<noteq> Halted"
  shows "lock_inv_at (goto c p (s\<lparr>lck := lck s\<rparr>)) oc"
  using assms by (auto simp: lock_inv_at_def split: option.splits)

lemma lock_inv_not_holder:
  assumes "lock_inv_at s oc" and "pc s c \<notin> owning" and "c \<noteq> NULL"
  shows "c \<noteq> Holder (lck s)"
  using assms by (auto simp: lock_inv_at_def lock_free_def owned_fields_def split: option.splits if_splits)

text \<open>The compare-exchange makes a waiting processor the owner of a free lock.\<close>

lemma lock_inv_cas:
  assumes "lock_inv_at s oc" and "pc s c \<notin> owning" and "pc s c \<noteq> Outside" and "State (lck s) = LOCK_FREE"
  shows "lock_inv_at (goto c AtAssertFn (s\<lparr>lck := (lck s)\<lparr>State := LOCK_TAKEN\<rparr>\<rparr>)) (Some c)"
  using assms by (auto simp: lock_inv_at_def lock_free_def owned_fields_def split: option.splits)

lemma lock_inv_state:
  assumes "lock_inv_at s oc"
  shows "State (lck s) = (if oc = None then LOCK_FREE else LOCK_TAKEN)"
  using assms by (auto simp: lock_inv_at_def lock_free_def owned_fields_def split: option.splits)

lemma lock_inv_free:
  assumes "lock_inv_at s oc" and "pc s c = AtFree"
  shows "lock_inv_at (goto c Outside (s\<lparr>lck := (lck s)\<lparr>State := LOCK_FREE\<rparr>, intr := (intr s)(c := i)\<rparr>)) None"
  using assms lock_inv_owner [OF assms(1), of c]
  by (auto simp: lock_inv_at_def lock_free_def owned_fields_def)

lemma lock_inv_step: "lock_step mon s t \<Longrightarrow> lock_inv_at s oc \<Longrightarrow> \<exists>oc'. lock_inv_at t oc'"
proof (induction rule: lock_step.induct)
  case (Acquire s c)
  then have "c \<noteq> Holder (lck s)" by (intro lock_inv_not_holder) auto
  with Acquire lock_inv_idle [of s oc c AtCas INTR_OFF] show ?case by auto
next
  case (Try s c)
  with lock_inv_idle [of s oc c AtTry INTR_OFF] show ?case by auto
next
  case (Cas s c v l)
  show ?case
  proof (cases "State (lck s) = LOCK_FREE")
    case True
    with Cas lock_inv_cas [of s oc c] show ?thesis by (auto simp: CompareExchange_State_def)
  next
    case False
    with Cas lock_inv_wait [of s oc c "if mon then AtWait else AtCas"] show ?thesis
      by (auto simp: CompareExchange_State_def)
  qed
next
  case (Wait s c)
  with lock_inv_wait [of s oc c AtCas] show ?case by auto
next
  case (TryCas s c v l)
  show ?case
  proof (cases "State (lck s) = LOCK_FREE")
    case True
    with TryCas lock_inv_cas [of s oc c] show ?thesis by (auto simp: CompareExchange_State_def)
  next
    case False
    with TryCas lock_inv_idle [of s oc c Outside "saved s c" "saved s"] show ?thesis
      by (auto simp: CompareExchange_State_def)
  qed
next
  case (Free s c)
  with lock_inv_free [of s oc c] show ?case by auto
next
  case (Release s c)
  with lock_inv_owner [of s oc c] lock_inv_advance [of s oc c AtClearFn "(lck s)\<lparr>Holder := NULL\<rparr>"]
  show ?case by (auto simp: owned_fields_def)
next
  case (SetHolder s c)
  with lock_inv_owner [of s oc c] lock_inv_advance [of s oc c AtSetFn "(lck s)\<lparr>Holder := c\<rparr>"]
  show ?case by (auto simp: owned_fields_def)
next
  case (SetFn s c ra)
  with lock_inv_owner [of s oc c] lock_inv_advance [of s oc c AtAssertState "(lck s)\<lparr>FunctionWhichTookLock := ra\<rparr>"]
  show ?case by (auto simp: owned_fields_def)
next
  case (ClearFn s c)
  with lock_inv_owner [of s oc c] lock_inv_advance [of s oc c AtFree "(lck s)\<lparr>FunctionWhichTookLock := NULL\<rparr>"]
  show ?case by (auto simp: owned_fields_def)
next
  case (AssertFn s c)
  with lock_inv_owner [of s oc c] lock_inv_advance [of s oc c AtAssertHolder "lck s"]
  show ?case by (auto simp: owned_fields_def)
next
  case (AssertHolder s c)
  with lock_inv_owner [of s oc c] lock_inv_advance [of s oc c AtSetHolder "lck s"]
  show ?case by (auto simp: owned_fields_def)
next
  case (AssertState s c)
  with lock_inv_owner [of s oc c] lock_inv_advance [of s oc c Critical "lck s"]
  show ?case by (auto simp: owned_fields_def)
qed

lemma lock_reachable_inv: "(lock_step mon)\<^sup>*\<^sup>* (lock_init_state l0 ie) s \<Longrightarrow> \<exists>oc. lock_inv_at s oc"
  by (induction rule: rtranclp_induct) (use lock_inv_init lock_inv_def lock_inv_step in blast)+

text \<open>
  Alone, a processor that calls the function and one that performs the steps do the same: the
  sequential definitions are runs of the interleaved system.
\<close>

definition alone :: "CPU \<Rightarrow> SPINLOCK \<Rightarrow> lock_pc \<Rightarrow> INTR_STATE \<Rightarrow> lock_system \<Rightarrow> bool" where
  "alone cpu l p st s = (lck s = l \<and> pc s (CpuSelf cpu) = p \<and> intr s (CpuSelf cpu) = CpuIntr cpu \<and> saved s (CpuSelf cpu) = st)"

lemma SpinlockAcquire_steps:
  assumes "SpinlockAcquire cpu ra l = Some (st, cpu', l')" and "lock_free l" and "CpuSelf cpu \<noteq> NULL"
    and "alone cpu l Outside x s"
  shows "\<exists>s'. (lock_step mon)\<^sup>*\<^sup>* s s' \<and> alone cpu' l' Critical st s'"
proof -
  define c where "c = CpuSelf cpu"
  note r = converse_rtranclp_into_rtranclp
  have f: "lck s = l" "pc s c = Outside" "intr s c = CpuIntr cpu" "State l = LOCK_FREE" "Holder l = NULL"
    "FunctionWhichTookLock l = NULL" "c \<noteq> NULL"
    using assms by (auto simp: alone_def lock_free_def c_def)
  have "st = CpuIntr cpu" "cpu' = cpu\<lparr>CpuIntr := INTR_OFF\<rparr>"
      "l' = l\<lparr>State := LOCK_TAKEN, Holder := c, FunctionWhichTookLock := ra\<rparr>"
    using assms(1) f(4-7) by (auto simp: SpinlockAcquire_def cpu_defs c_def)
  then show ?thesis
    apply (intro exI conjI)
     apply (rule r, rule Acquire [OF f(2,7)])
     apply (rule r, rule Cas [of _ c], simp add: f, simp add: CompareExchange_State_def)
     apply (rule r, rule AssertFn [of _ c], simp add: f)
     apply (rule r, rule AssertHolder [of _ c], simp add: f)
     apply (rule r, rule SetHolder [of _ c], simp add: f)
     apply (rule r, rule SetFn [of _ c _ ra], simp add: f)
     apply (rule r, rule AssertState [of _ c], simp add: f)
     apply (rule rtranclp.rtrancl_refl)
    apply (simp add: alone_def f c_def [symmetric])
    done
qed

lemma SpinlockRelease_steps:
  assumes "SpinlockRelease cpu l st = Some (cpu', l')" and "alone cpu l Critical st s"
  shows "\<exists>s'. (lock_step mon)\<^sup>*\<^sup>* s s' \<and> alone cpu' l' Outside st s'"
proof -
  define c where "c = CpuSelf cpu"
  note r = converse_rtranclp_into_rtranclp
  have f: "lck s = l" "pc s c = Critical" "intr s c = CpuIntr cpu" "saved s c = st"
    using assms by (auto simp: alone_def c_def)
  have g: "Holder l = c" "\<not> CpuIntr cpu" "cpu' = cpu\<lparr>CpuIntr := st\<rparr>"
      "l' = l\<lparr>State := LOCK_FREE, Holder := NULL, FunctionWhichTookLock := NULL\<rparr>"
    using assms(1) by (auto simp: SpinlockRelease_def cpu_defs c_def bind_ASSERT split: if_splits)
  then show ?thesis
    apply (intro exI conjI)
     apply (rule r, rule Release [OF f(2)], simp add: f g)
     apply (rule r, rule ClearFn [of _ c], simp add: f)
     apply (rule r, rule Free [of _ c], simp add: f)
     apply (rule rtranclp.rtrancl_refl)
    apply (simp add: alone_def f g c_def [symmetric])
    done
qed

section \<open>Properties\<close>

definition ex_cpu :: "ptr \<Rightarrow> CPU" where
  "ex_cpu c = \<lparr>CpuSelf = c, CpuIntr = True\<rparr>"

definition ex_lock :: SPINLOCK where
  "ex_lock = \<lparr>State = 7, Holder = 7, FunctionWhichTookLock = 7\<rparr>"

lemma ex_critical:
  assumes "c \<noteq> NULL"
  shows "\<exists>s. (lock_step mon)\<^sup>*\<^sup>* (lock_init_state ex_lock (\<lambda>_. True)) s \<and> pc s c = Critical"
proof -
  have "\<exists>l. SpinlockAcquire (ex_cpu c) 8 (SpinlockInit ex_lock) = Some (True, (ex_cpu c)\<lparr>CpuIntr := INTR_OFF\<rparr>, l)"
    using spin.acquire_free [OF spin.init_free, where cpu = "ex_cpu c" and ra = 8] assms by (auto simp: ex_cpu_def)
  then obtain l where l: "SpinlockAcquire (ex_cpu c) 8 (SpinlockInit ex_lock) = Some (True, (ex_cpu c)\<lparr>CpuIntr := INTR_OFF\<rparr>, l)" ..
  have "alone (ex_cpu c) (SpinlockInit ex_lock) Outside INTR_OFF (lock_init_state ex_lock (\<lambda>_. True))"
    by (simp add: alone_def lock_init_state_def ex_cpu_def)
  from SpinlockAcquire_steps [OF l spin.init_free _ this] assms show ?thesis
    by (auto simp: alone_def ex_cpu_def)
qed

text \<open>
  C7: mutual exclusion of the spinlock and of the monitor lock. In every state that any interleaving
  of lock, try-lock and unlock operations of any set of processors can reach, at most one processor is
  inside the critical section, the lock records it as its holder, its interrupts are disabled, and no
  assertion of the lock functions has failed on any processor.
\<close>

theorem lock_mutual_exclusion:
  assumes "(lock_step mon)\<^sup>*\<^sup>* (lock_init_state l0 ie) s"
  shows "(\<forall>c d. pc s c = Critical \<and> pc s d = Critical \<longrightarrow> c = d)
    \<and> (\<forall>c. pc s c = Critical \<longrightarrow> Holder (lck s) = c \<and> State (lck s) = LOCK_TAKEN \<and> intr s c = INTR_OFF)
    \<and> (\<forall>c. pc s c \<noteq> Halted)"
proof -
  from lock_reachable_inv [OF assms] obtain oc where i: "lock_inv_at s oc" ..
  have "oc = Some c \<and> owned_fields Critical c (lck s) \<and> intr s c = INTR_OFF" if "pc s c = Critical" for c
    using lock_inv_owner [OF i, of c] that by auto
  with i show ?thesis by (auto simp: owned_fields_def lock_inv_at_def)
qed

theorem lock_mutual_exclusion_witness:
  "\<exists>s. (lock_step True)\<^sup>*\<^sup>* (lock_init_state ex_lock (\<lambda>_. True)) s \<and> pc s 1 = Critical \<and> pc s 2 \<noteq> Critical \<and> Holder (lck s) = 1"
proof -
  from ex_critical [of 1 True] obtain s
    where s: "(lock_step True)\<^sup>*\<^sup>* (lock_init_state ex_lock (\<lambda>_. True)) s" "pc s 1 = Critical" by auto
  with lock_mutual_exclusion [OF s(1)] have "pc s 2 = Critical \<Longrightarrow> (1::ptr) = 2" "Holder (lck s) = 1"
    by blast+
  with s show ?thesis by auto
qed

text \<open>
  C8: the contract of the lock interface, for both implementations \<open>LockSystemInit\<close> can install: a
  free lock is obtained and its previous interrupt state returned; while it is held a second acquire
  never returns (the owner halts on an assertion, another processor spins), a try-acquire fails and
  changes nothing, and only the owner can release; releasing it makes it free again and restores the
  interrupt state the acquire returned.
\<close>

theorem lock_contract:
  assumes "lock_free l" and "CpuSelf cpu \<noteq> NULL"
  shows "\<exists>l1. LockAcquire (LockSystemInit m) cpu ra l = Some (CpuIntr cpu, cpu\<lparr>CpuIntr := INTR_OFF\<rparr>, l1)
    \<and> LockIsOwner (LockSystemInit m) cpu l1
    \<and> LockAcquire (LockSystemInit m) cpu' ra' l1 = None
    \<and> LockTryAcquire (LockSystemInit m) cpu' ra' l1 = Some (False, CpuIntr cpu', cpu', l1)
    \<and> (CpuSelf cpu' \<noteq> CpuSelf cpu \<longrightarrow>
         \<not> LockIsOwner (LockSystemInit m) cpu' l1 \<and> LockRelease (LockSystemInit m) cpu' l1 st = None)
    \<and> (\<exists>l2. LockRelease (LockSystemInit m) (cpu\<lparr>CpuIntr := INTR_OFF\<rparr>) l1 (CpuIntr cpu) = Some (cpu, l2) \<and> lock_free l2)"
proof -
  from lock_sys.acquire_free [OF assms, of m ra] obtain l1
    where l1: "LockAcquire (LockSystemInit m) cpu ra l = Some (CpuIntr cpu, cpu\<lparr>CpuIntr := INTR_OFF\<rparr>, l1)"
      "lock_held l1 (CpuSelf cpu) ra" by blast
  have "\<exists>l2. LockRelease (LockSystemInit m) (cpu\<lparr>CpuIntr := INTR_OFF\<rparr>) l1 (CpuIntr cpu) = Some (cpu, l2) \<and> lock_free l2"
    using lock_sys.release_held [OF l1(2), where cpu = "cpu\<lparr>CpuIntr := INTR_OFF\<rparr>" and st = "CpuIntr cpu" and m = m] by simp
  with l1 lock_sys.acquire_held [OF l1(2) assms(2)] lock_sys.try_held [OF l1(2)] lock_sys.owner [OF l1(2)]
    lock_sys.release_other [OF l1(2), where cpu = cpu'] show ?thesis by auto
qed

theorem lock_contract_witness:
  "\<exists>l1. LockAcquire (LockSystemInit True) (ex_cpu 1) 8 (SpinlockInit ex_lock) = Some (True, (ex_cpu 1)\<lparr>CpuIntr := INTR_OFF\<rparr>, l1)
    \<and> LockTryAcquire (LockSystemInit True) (ex_cpu 2) 8 l1 = Some (False, True, ex_cpu 2, l1)"
  using lock_contract [OF spin.init_free, where cpu = "ex_cpu 1" and m = True and ra = 8 and cpu' = "ex_cpu 2" and ra' = 8]
  by (auto simp: ex_cpu_def)

text \<open>
  the sequential reading of \<open>SpinlockAcquire\<close> and \<open>SpinlockRelease\<close> is a run of the interleaved
  system: when the call returns, the atomic steps of the calling processor lead to the state it returns.
\<close>

theorem lock_functions_are_runs:
  assumes "SpinlockAcquire cpu ra l = Some (st, cpu1, l1)" and "lock_free l" and "CpuSelf cpu \<noteq> NULL"
    and "alone cpu l Outside x s" and "SpinlockRelease cpu1 l1 st = Some (cpu2, l2)"
  shows "\<exists>s1 s2. (lock_step mon)\<^sup>*\<^sup>* s s1 \<and> alone cpu1 l1 Critical st s1
    \<and> (lock_step mon)\<^sup>*\<^sup>* s1 s2 \<and> alone cpu2 l2 Outside st s2"
  using SpinlockAcquire_steps [OF assms(1-4), of mon] SpinlockRelease_steps [OF assms(5), of _ mon] by blast

theorem lock_functions_are_runs_witness:
  "\<exists>s1. (lock_step True)\<^sup>*\<^sup>* (lock_init_state ex_lock (\<lambda>_. True)) s1 \<and> pc s1 1 = Critical"
proof -
  let ?l = "\<lparr>State = LOCK_TAKEN, Holder = 1, FunctionWhichTookLock = 8\<rparr>"
  have "SpinlockAcquire (ex_cpu 1) 8 (SpinlockInit ex_lock) = Some (True, (ex_cpu 1)\<lparr>CpuIntr := INTR_OFF\<rparr>, ?l)"
    "SpinlockRelease ((ex_cpu 1)\<lparr>CpuIntr := INTR_OFF\<rparr>) ?l True = Some (ex_cpu 1, SpinlockInit ex_lock)"
    by (simp_all add: lock_defs ex_cpu_def)
  from lock_functions_are_runs [OF this(1) spin.init_free _ _ this(2), of INTR_OFF "lock_init_state ex_lock (\<lambda>_. True)" True]
  show ?thesis by (auto simp: alone_def lock_init_state_def ex_cpu_def)
qed

end
