(* ===== verification/Pmm.thy ===== *)
theory Pmm
  imports Bitmaps Locks
begin

text \<open>
  The physical memory manager, \<open>HAL9000/src/pmm.c\<close>: at boot it reads the memory map of the firmware,
  marks every frame as reserved and releases the frames of usable RAM above 1 MB; afterwards it hands
  out and takes back ranges of frames. The state is the global \<open>m_pmmData\<close>; the operations that take
  the allocation lock also have the running processor, the return address the lock records and the
  installed lock functions as arguments.
\<close>

section \<open>Data and operations\<close>

type_synonym PHYSICAL_ADDRESS = "64 word"

record INT15_MEMORY_MAP_ENTRY =
  BaseAddress :: QWORD
  Length :: QWORD
  Type :: DWORD
  ExtendedAttributes :: DWORD

abbreviation MemoryMapTypeUsableRAM :: DWORD where "MemoryMapTypeUsableRAM \<equiv> 1"
abbreviation MemoryMapTypeMax :: DWORD where "MemoryMapTypeMax \<equiv> 6"
abbreviation MEMORY_MAP_ENTRY_EA_VALID_ENTRY :: DWORD where "MEMORY_MAP_ENTRY_EA_VALID_ENTRY \<equiv> 1"
abbreviation MB_SIZE :: QWORD where "MB_SIZE \<equiv> 0x100000"

record MEMORY_REGION_LIST =
  RegionType :: DWORD
  NumberOfEntries :: DWORD

record PMM_DATA =
  HighestPhysicalAddressAvailable :: PHYSICAL_ADDRESS
  HighestPhysicalAddressPresent :: PHYSICAL_ADDRESS
  PhysicalMemorySize :: QWORD
  MemoryRegionList :: "MEMORY_REGION_LIST list"
  AllocationLock :: LOCK
  AllocationBitmap :: BITMAP

definition zero_LOCK :: LOCK where
  "zero_LOCK = \<lparr>State = 0, Holder = NULL, FunctionWhichTookLock = NULL\<rparr>"

definition PmmPreinitSystem :: "LOCK_OPS \<Rightarrow> PMM_DATA" where
  "PmmPreinitSystem ops =
     \<lparr>HighestPhysicalAddressAvailable = 0, HighestPhysicalAddressPresent = 0, PhysicalMemorySize = 0,
      MemoryRegionList = map (\<lambda>i. \<lparr>RegionType = if unat MemoryMapTypeUsableRAM \<le> i then of_nat i else 0,
                                    NumberOfEntries = 0\<rparr>) [0..<unat MemoryMapTypeMax],
      AllocationLock = LockInit ops zero_LOCK, AllocationBitmap = zero_BITMAP\<rparr>"

definition PmmReserveMemoryEx ::
  "LOCK_OPS \<Rightarrow> ptr \<Rightarrow> CPU \<Rightarrow> PMM_DATA \<Rightarrow> DWORD \<Rightarrow> PHYSICAL_ADDRESS \<Rightarrow> (PHYSICAL_ADDRESS \<times> CPU \<times> PMM_DATA) option" where
  "PmmReserveMemoryEx ops ra cpu pmm NoOfFrames MinPhysAddr =
     (if 0 = NoOfFrames then Some (NULL, cpu, pmm)
      else if \<not> IsAddressAligned MinPhysAddr PAGE_SIZE then Some (NULL, cpu, pmm)
      else let startIdx = MinPhysAddr div PAGE_SIZE in
      if startIdx > ucast MAX_DWORD then Some (NULL, cpu, pmm)
      else do {
        (oldState, cpu, lock) \<leftarrow> LockAcquire ops cpu ra (AllocationLock pmm);
        let pmm = pmm\<lparr>AllocationLock := lock\<rparr>;
        (idx, bitmap) \<leftarrow> BitmapScanFromAndFlip (AllocationBitmap pmm) (ucast startIdx) NoOfFrames False;
        let pmm = pmm\<lparr>AllocationBitmap := bitmap\<rparr>;
        if MAX_DWORD = idx then do {
          (cpu, lock) \<leftarrow> LockRelease ops cpu (AllocationLock pmm) oldState;
          Some (NULL, cpu, pmm\<lparr>AllocationLock := lock\<rparr>)
        }
        else do {
          (cpu, lock) \<leftarrow> LockRelease ops cpu (AllocationLock pmm) oldState;
          Some (ucast idx * PAGE_SIZE, cpu, pmm\<lparr>AllocationLock := lock\<rparr>)
        }
      })"

definition PmmReserveMemory ::
  "LOCK_OPS \<Rightarrow> ptr \<Rightarrow> CPU \<Rightarrow> PMM_DATA \<Rightarrow> DWORD \<Rightarrow> (PHYSICAL_ADDRESS \<times> CPU \<times> PMM_DATA) option" where
  "PmmReserveMemory ops ra cpu pmm Frames = PmmReserveMemoryEx ops ra cpu pmm Frames NULL"

definition PmmReleaseMemory ::
  "LOCK_OPS \<Rightarrow> ptr \<Rightarrow> CPU \<Rightarrow> PMM_DATA \<Rightarrow> PHYSICAL_ADDRESS \<Rightarrow> DWORD \<Rightarrow> (CPU \<times> PMM_DATA) option" where
  "PmmReleaseMemory ops ra cpu pmm PhysicalAddr NoOfFrames = do {
     ASSERT (IsAddressAligned PhysicalAddr PAGE_SIZE);
     let index = PhysicalAddr div PAGE_SIZE;
     ASSERT (index \<le> ucast MAX_DWORD);
     (oldState, cpu, lock) \<leftarrow> LockAcquire ops cpu ra (AllocationLock pmm);
     let pmm = pmm\<lparr>AllocationLock := lock\<rparr>;
     bitmap \<leftarrow> BitmapSetBitsValue (AllocationBitmap pmm) (ucast index) NoOfFrames False;
     let pmm = pmm\<lparr>AllocationBitmap := bitmap\<rparr>;
     (cpu, lock) \<leftarrow> LockRelease ops cpu (AllocationLock pmm) oldState;
     Some (cpu, pmm\<lparr>AllocationLock := lock\<rparr>)
   }"

definition PmmGetTotalSystemMemory :: "PMM_DATA \<Rightarrow> QWORD" where
  "PmmGetTotalSystemMemory pmm = PhysicalMemorySize pmm"

definition PmmGetHighestPhysicalMemoryAddressPresent :: "PMM_DATA \<Rightarrow> PHYSICAL_ADDRESS" where
  "PmmGetHighestPhysicalMemoryAddressPresent pmm = HighestPhysicalAddressPresent pmm"

definition PmmGetHighestPhysicalMemoryAddressAvailable :: "PMM_DATA \<Rightarrow> PHYSICAL_ADDRESS" where
  "PmmGetHighestPhysicalMemoryAddressAvailable pmm = HighestPhysicalAddressAvailable pmm"

text \<open>The body of the loop of \<open>_PmmDetermineMemoryLimits\<close>; the state is the three limits and the counts.\<close>

definition PmmDetermineMemoryLimits_body :: "INT15_MEMORY_MAP_ENTRY \<Rightarrow> QWORD \<times> QWORD \<times> QWORD \<times> MEMORY_REGION_LIST list
    \<Rightarrow> (QWORD \<times> QWORD \<times> QWORD \<times> MEMORY_REGION_LIST list) option" where
  "PmmDetermineMemoryLimits_body e = (\<lambda>(sizeAvail, highPresent, highAvail, regions).
     let memoryType = Type e;
         highPresent = (if BaseAddress e + Length e > highPresent then BaseAddress e + Length e else highPresent)
     in if \<not> IsBooleanFlagOn (ExtendedAttributes e) MEMORY_MAP_ENTRY_EA_VALID_ENTRY
        then Some (sizeAvail, highPresent, highAvail, regions)
        else do {
          r \<leftarrow> rd_at regions (unat memoryType);
          regions \<leftarrow> wr_at regions (unat memoryType) (r\<lparr>NumberOfEntries := NumberOfEntries r + 1\<rparr>);
          if MemoryMapTypeUsableRAM \<noteq> memoryType then Some (sizeAvail, highPresent, highAvail, regions)
          else Some (sizeAvail + Length e, highPresent,
                     if BaseAddress e + Length e > highAvail then BaseAddress e + Length e else highAvail, regions)
        })"

definition PmmDetermineMemoryLimits :: "INT15_MEMORY_MAP_ENTRY list \<Rightarrow> DWORD \<Rightarrow> PMM_DATA \<Rightarrow> PMM_DATA option" where
  "PmmDetermineMemoryLimits MemoryMap NoOfEntries pmm = do {
     ASSERT (0 \<noteq> NoOfEntries);
     (sizeAvail, highPresent, highAvail, regions) \<leftarrow>
       for_upto (unat NoOfEntries) (\<lambda>i s. do { e \<leftarrow> rd_at MemoryMap i; PmmDetermineMemoryLimits_body e s })
         (0, 0, 0, MemoryRegionList pmm);
     Some (pmm\<lparr>PhysicalMemorySize := sizeAvail, HighestPhysicalAddressPresent := highPresent,
               HighestPhysicalAddressAvailable := highAvail, MemoryRegionList := regions\<rparr>)
   }"

text \<open>The body of the loop of \<open>_PmmInitializeAllocationBitmap\<close> over the memory map.\<close>

definition PmmInitializeAllocationBitmap_body ::
  "LOCK_OPS \<Rightarrow> ptr \<Rightarrow> INT15_MEMORY_MAP_ENTRY \<Rightarrow> CPU \<times> PMM_DATA \<Rightarrow> (CPU \<times> PMM_DATA) option" where
  "PmmInitializeAllocationBitmap_body ops ra e = (\<lambda>(cpu, pmm).
     if \<not> IsBooleanFlagOn (ExtendedAttributes e) MEMORY_MAP_ENTRY_EA_VALID_ENTRY then Some (cpu, pmm)
     else if MemoryMapTypeUsableRAM \<noteq> Type e then Some (cpu, pmm)
     else if BaseAddress e < 1 * MB_SIZE then Some (cpu, pmm)
     else do {
       let physAddr = AlignAddressUpper (BaseAddress e) PAGE_SIZE;
       let noOfFrames = Length e div PAGE_SIZE;
       ASSERT (noOfFrames \<le> ucast MAX_DWORD);
       PmmReleaseMemory ops ra cpu pmm physAddr (ucast noOfFrames)
     })"

definition PmmInitializeAllocationBitmap :: "LOCK_OPS \<Rightarrow> ptr \<Rightarrow> CPU \<Rightarrow> PMM_DATA \<Rightarrow> BYTE list option \<Rightarrow> QWORD
    \<Rightarrow> INT15_MEMORY_MAP_ENTRY list \<Rightarrow> DWORD \<Rightarrow> (DWORD \<times> CPU \<times> PMM_DATA) option" where
  "PmmInitializeAllocationBitmap ops ra cpu pmm CurrentVirtualAddress HighestMemoryAddress MemoryEntries NumberOfMemoryEntries = do {
     ASSERT (CurrentVirtualAddress \<noteq> None);
     ASSERT (0 \<noteq> HighestMemoryAddress);
     let noOfPhysicalFrames = HighestMemoryAddress div PAGE_SIZE;
     ASSERT (noOfPhysicalFrames \<le> ucast MAX_DWORD);
     (bitmapSize, bitmap) \<leftarrow> BitmapPreinit (ucast noOfPhysicalFrames);
     bitmap \<leftarrow> BitmapInitEx bitmap CurrentVirtualAddress False;
     let pmm = pmm\<lparr>AllocationBitmap := bitmap\<rparr>;
     (_, cpu, pmm) \<leftarrow> PmmReserveMemory ops ra cpu pmm (BitmapGetMaxElementCount (AllocationBitmap pmm));
     (cpu, pmm) \<leftarrow> for_upto (unat NumberOfMemoryEntries)
       (\<lambda>i s. do { e \<leftarrow> rd_at MemoryEntries i; PmmInitializeAllocationBitmap_body ops ra e s }) (cpu, pmm);
     Some (bitmapSize, cpu, pmm)
   }"

text \<open>
  The bitmap is placed at \<open>BaseAddress\<close>, whose memory is the list of bytes from there on; the last
  argument tells whether the pointer \<open>SizeReserved\<close>, through which the size is returned, is valid.
\<close>

definition PmmInitSystem :: "LOCK_OPS \<Rightarrow> ptr \<Rightarrow> CPU \<Rightarrow> PMM_DATA \<Rightarrow> BYTE list option \<Rightarrow> INT15_MEMORY_MAP_ENTRY list option
    \<Rightarrow> DWORD \<Rightarrow> bool \<Rightarrow> (STATUS \<times> DWORD option \<times> CPU \<times> PMM_DATA) option" where
  "PmmInitSystem ops ra cpu pmm Base MemoryEntries NumberOfMemoryEntries SizeReserved =
     (if Base = None then Some (STATUS_INVALID_PARAMETER1, None, cpu, pmm)
      else case MemoryEntries of None \<Rightarrow> Some (STATUS_INVALID_PARAMETER2, None, cpu, pmm)
      | Some entries \<Rightarrow>
        if 0 = NumberOfMemoryEntries then Some (STATUS_INVALID_PARAMETER3, None, cpu, pmm)
        else if \<not> SizeReserved then Some (STATUS_INVALID_PARAMETER4, None, cpu, pmm)
        else do {
          pmm \<leftarrow> PmmDetermineMemoryLimits entries NumberOfMemoryEntries pmm;
          (sizeReserved, cpu, pmm) \<leftarrow> PmmInitializeAllocationBitmap ops ra cpu pmm Base
            (HighestPhysicalAddressPresent pmm) entries NumberOfMemoryEntries;
          Some (STATUS_SUCCESS, Some (ucast (AlignAddressUpper (ucast sizeReserved) PAGE_SIZE)), cpu, pmm)
        })"

section \<open>The manager as an allocator of frames\<close>

definition pmm_used :: "PMM_DATA \<Rightarrow> nat set" where
  "pmm_used pmm = bm_set (AllocationBitmap pmm)"

definition pmm_frames :: "PMM_DATA \<Rightarrow> nat" where
  "pmm_frames pmm = unat (BitCount (AllocationBitmap pmm))"

definition pmm_inv :: "PMM_DATA \<Rightarrow> bool" where
  "pmm_inv pmm = (bitmap_inv (AllocationBitmap pmm) \<and> lock_free (AllocationLock pmm))"

definition frame :: "PHYSICAL_ADDRESS \<Rightarrow> nat" where
  "frame pa = unat pa div 4096"

definition pa_frames :: "PHYSICAL_ADDRESS \<Rightarrow> DWORD \<Rightarrow> nat set" where
  "pa_frames pa n = {frame pa..<frame pa + unat n}"

lemma unat_idx_page: "unat (ucast (idx::DWORD) * PAGE_SIZE) = unat idx * 4096"
proof -
  have "unat idx * 4096 < 2 ^ 64" using unat_DWORD_less [of idx] by (simp del: unat_DWORD_less)
  then show ?thesis by (simp add: unat_word_ariths unat_ucast_QWORD)
qed

lemma frame_idx [simp]: "frame (ucast (idx::DWORD) * PAGE_SIZE) = unat idx"
  by (simp add: frame_def unat_idx_page)

lemma index_le_DWORD: "x div PAGE_SIZE \<le> 4294967295 \<longleftrightarrow> frame x < 4294967296"
  by (auto simp: word_le_nat_alt unat_div frame_def)

lemma index_gt_DWORD: "4294967295 < x div PAGE_SIZE \<longleftrightarrow> \<not> frame x < 4294967296"
  by (simp add: index_le_DWORD flip: not_le)

lemma unat_index: "frame x < 4294967296 \<Longrightarrow> unat (ucast (x div PAGE_SIZE) :: DWORD) = frame x"
  by (simp add: unat_ucast_DWORD unat_div frame_def)

text \<open>The lock brackets the work on the bitmap: it is free again on every path.\<close>

lemma lock_bracket:
  assumes "lock_free l" and "CpuSelf cpu \<noteq> NULL"
  obtains l1 l2 where "LockAcquire (LockSystemInit m) cpu ra l = Some (CpuIntr cpu, cpu\<lparr>CpuIntr := INTR_OFF\<rparr>, l1)"
    "LockRelease (LockSystemInit m) (cpu\<lparr>CpuIntr := INTR_OFF\<rparr>) l1 (CpuIntr cpu) = Some (cpu, l2)" "lock_free l2"
proof -
  from lock_sys.acquire_free [OF assms, of m ra] obtain l1
    where l1: "LockAcquire (LockSystemInit m) cpu ra l = Some (CpuIntr cpu, cpu\<lparr>CpuIntr := INTR_OFF\<rparr>, l1)"
      "lock_held l1 (CpuSelf cpu) ra" by blast
  with lock_sys.release_held [OF l1(2), where cpu = "cpu\<lparr>CpuIntr := INTR_OFF\<rparr>" and st = "CpuIntr cpu" and m = m] that
  show ?thesis by auto
qed

lemma PmmReserveMemoryEx_bitmap:
  assumes "lock_free (AllocationLock pmm)" and "CpuSelf cpu \<noteq> NULL" and "n \<noteq> 0"
    and "IsAddressAligned lo PAGE_SIZE" and "frame lo < 4294967296"
    and "BitmapScanFromAndFlip (AllocationBitmap pmm) (ucast (lo div PAGE_SIZE)) n False = Some (idx, b)"
  shows "\<exists>l. PmmReserveMemoryEx (LockSystemInit m) ra cpu pmm n lo =
      Some (if idx = MAX_DWORD then NULL else ucast idx * PAGE_SIZE, cpu, pmm\<lparr>AllocationBitmap := b, AllocationLock := l\<rparr>)
    \<and> lock_free l"
proof -
  from lock_bracket [OF assms(1,2), of m ra] obtain l1 l2
    where "LockAcquire (LockSystemInit m) cpu ra (AllocationLock pmm) = Some (CpuIntr cpu, cpu\<lparr>CpuIntr := INTR_OFF\<rparr>, l1)"
    "LockRelease (LockSystemInit m) (cpu\<lparr>CpuIntr := INTR_OFF\<rparr>) l1 (CpuIntr cpu) = Some (cpu, l2)" "lock_free l2" .
  with assms(3-6) show ?thesis
    by (auto simp: PmmReserveMemoryEx_def Let_def index_gt_DWORD)
qed

lemma PmmReserveMemoryEx_ok:
  assumes "pmm_inv pmm" and "CpuSelf cpu \<noteq> NULL" and "n \<noteq> 0" and "IsAddressAligned lo PAGE_SIZE"
    and "frame lo < 4294967296"
  shows "\<exists>pa pmm'. PmmReserveMemoryEx (LockSystemInit m) ra cpu pmm n lo = Some (pa, cpu, pmm') \<and> pmm_inv pmm'
    \<and> pmm_frames pmm' = pmm_frames pmm \<and> IsAddressAligned pa PAGE_SIZE
    \<and> ((frame lo \<le> frame pa \<and> frame pa + unat n \<le> pmm_frames pmm \<and> pmm_used pmm \<inter> pa_frames pa n = {}
        \<and> pmm_used pmm' = pmm_used pmm \<union> pa_frames pa n)
      \<or> (pa = NULL \<and> pmm_used pmm' = pmm_used pmm
        \<and> (\<forall>k. frame lo \<le> k \<and> k + unat n \<le> pmm_frames pmm \<longrightarrow> pmm_used pmm \<inter> {k..<k + unat n} \<noteq> {})))"
proof -
  have inv: "bitmap_inv (AllocationBitmap pmm)" "lock_free (AllocationLock pmm)"
    using assms(1) by (simp_all add: pmm_inv_def)
  let ?i = "ucast (lo div PAGE_SIZE) :: DWORD"
  from bitmap_alloc.alloc_law [OF inv(1) assms(3)] obtain r b
    where rb: "BitmapScanFromAndFlip (AllocationBitmap pmm) ?i n False = Some (r, b)" by blast
  from PmmReserveMemoryEx_bitmap [OF inv(2) assms(2-5) rb] obtain l where
    l: "PmmReserveMemoryEx (LockSystemInit m) ra cpu pmm n lo =
      Some (if r = MAX_DWORD then NULL else ucast r * PAGE_SIZE, cpu, pmm\<lparr>AllocationBitmap := b, AllocationLock := l\<rparr>)"
    "lock_free l" by blast
  show ?thesis
  proof (cases "r = MAX_DWORD")
    case True
    with bitmap_alloc.alloc_full [OF inv(1) assms(3), of ?i b] rb l show ?thesis
      by (auto simp: pmm_inv_def pmm_frames_def pmm_used_def unat_index [OF assms(5)] IsAddressAligned_page)
  next
    case False
    with bitmap_alloc.alloc_got [OF inv(1) assms(3) rb] l show ?thesis
      by (auto simp: pmm_inv_def pmm_frames_def pmm_used_def pa_frames_def unat_index [OF assms(5)]
          IsAddressAligned_page unat_idx_page)
  qed
qed

lemma PmmReleaseMemory_ok:
  assumes "pmm_inv pmm" and "CpuSelf cpu \<noteq> NULL" and "IsAddressAligned pa PAGE_SIZE"
    and "frame pa < pmm_frames pmm" and "frame pa + unat n \<le> pmm_frames pmm"
  shows "\<exists>pmm'. PmmReleaseMemory (LockSystemInit m) ra cpu pmm pa n = Some (cpu, pmm') \<and> pmm_inv pmm'
    \<and> pmm_frames pmm' = pmm_frames pmm \<and> pmm_used pmm' = pmm_used pmm - pa_frames pa n"
proof -
  have inv: "bitmap_inv (AllocationBitmap pmm)" "lock_free (AllocationLock pmm)"
    using assms(1) by (simp_all add: pmm_inv_def)
  have f: "frame pa < 4294967296"
    using assms(4) unat_DWORD_less [of "BitCount (AllocationBitmap pmm)"]
    unfolding pmm_frames_def by (rule order_less_trans)
  note i = unat_index [OF f]
  from BitmapSetBitsValue_ok [OF inv(1), of "ucast (pa div PAGE_SIZE)" n False] assms(4,5) i obtain b
    where b: "BitmapSetBitsValue (AllocationBitmap pmm) (ucast (pa div PAGE_SIZE)) n False = Some b" "bitmap_inv b"
      "BitCount b = BitCount (AllocationBitmap pmm)" "bm_set b = bm_set (AllocationBitmap pmm) - pa_frames pa n"
    by (auto simp: pmm_frames_def pa_frames_def word_less_nat_alt)
  from lock_bracket [OF inv(2) assms(2), of m ra] obtain l1 l2
    where "LockAcquire (LockSystemInit m) cpu ra (AllocationLock pmm) = Some (CpuIntr cpu, cpu\<lparr>CpuIntr := INTR_OFF\<rparr>, l1)"
    "LockRelease (LockSystemInit m) (cpu\<lparr>CpuIntr := INTR_OFF\<rparr>) l1 (CpuIntr cpu) = Some (cpu, l2)" "lock_free l2" .
  with b assms(3) f show ?thesis
    by (auto simp: PmmReleaseMemory_def index_le_DWORD pmm_inv_def pmm_frames_def pmm_used_def)
qed

section \<open>Initialisation\<close>

definition valid_entry :: "INT15_MEMORY_MAP_ENTRY \<Rightarrow> bool" where
  "valid_entry e = IsBooleanFlagOn (ExtendedAttributes e) MEMORY_MAP_ENTRY_EA_VALID_ENTRY"

definition ram_entry :: "INT15_MEMORY_MAP_ENTRY \<Rightarrow> bool" where
  "ram_entry e = (valid_entry e \<and> Type e = MemoryMapTypeUsableRAM)"

definition entry_end :: "INT15_MEMORY_MAP_ENTRY \<Rightarrow> nat" where
  "entry_end e = unat (BaseAddress e) + unat (Length e)"

text \<open>The frames that the initialisation releases for an entry.\<close>

definition entry_frames :: "INT15_MEMORY_MAP_ENTRY \<Rightarrow> nat set" where
  "entry_frames e = (if ram_entry e \<and> MB_SIZE \<le> BaseAddress e
     then {(unat (BaseAddress e) + 4095) div 4096..<(unat (BaseAddress e) + 4095) div 4096 + unat (Length e) div 4096} else {})"

definition highest_end :: "(INT15_MEMORY_MAP_ENTRY \<Rightarrow> bool) \<Rightarrow> INT15_MEMORY_MAP_ENTRY list \<Rightarrow> nat" where
  "highest_end P es = foldr (\<lambda>e m. max m (if P e then entry_end e else 0)) es 0"

text \<open>A memory map the manager can represent: fewer than $2^{32}$ frames, known types.\<close>

definition map_ok :: "INT15_MEMORY_MAP_ENTRY list \<Rightarrow> bool" where
  "map_ok es = (\<forall>e \<in> set es. entry_end e < 2 ^ 44 \<and> (valid_entry e \<longrightarrow> Type e < MemoryMapTypeMax))"

lemma highest_end_snoc: "highest_end P (es @ [e]) = max (highest_end P es) (if P e then entry_end e else 0)"
proof -
  have "foldr (\<lambda>e m. max m (if P e then entry_end e else 0)) es k
      = max (foldr (\<lambda>e m. max m (if P e then entry_end e else 0)) es 0) k" for k
    by (induction es) auto
  from this [of "max 0 (if P e then entry_end e else 0)"] show ?thesis
    by (simp add: highest_end_def max_def)
qed

lemma highest_end_ge: "e \<in> set es \<Longrightarrow> P e \<Longrightarrow> entry_end e \<le> highest_end P es"
  by (induction es) (auto simp: highest_end_def)

lemma highest_end_less: "(\<And>e. e \<in> set es \<Longrightarrow> entry_end e < b) \<Longrightarrow> 0 < b \<Longrightarrow> highest_end P es < b"
  by (induction es) (auto simp: highest_end_def)

lemma unat_entry_end: "entry_end e < 2 ^ 44 \<Longrightarrow> unat (BaseAddress e + Length e) = entry_end e"
  unfolding entry_end_def by (rule unat_plus_if_small) simp

lemma limits_body:
  assumes "entry_end e < 2 ^ 44" and "valid_entry e \<longrightarrow> Type e < MemoryMapTypeMax" and "length regs = 6"
    and "unat hp = highest_end (\<lambda>_. True) es" and "unat ha = highest_end ram_entry es"
  shows "\<exists>hp' ha' regs'. PmmDetermineMemoryLimits_body e (sz, hp, ha, regs)
      = Some (sz + (if ram_entry e then Length e else 0), hp', ha', regs') \<and> length regs' = 6
    \<and> unat hp' = highest_end (\<lambda>_. True) (es @ [e]) \<and> unat ha' = highest_end ram_entry (es @ [e])"
proof -
  have t: "unat (Type e) < 6" if "valid_entry e"
    using assms(2) that by (simp add: word_less_nat_alt)
  note u = unat_entry_end [OF assms(1)]
  show ?thesis
    using assms(3-5) t unfolding PmmDetermineMemoryLimits_body_def ram_entry_def highest_end_snoc
    by (auto simp: valid_entry_def Let_def word_less_nat_alt u max_def)
qed

lemma PmmDetermineMemoryLimits_ok:
  assumes "map_ok es" and "unat n = length es" and "es \<noteq> []" and "length (MemoryRegionList pmm) = 6"
  shows "\<exists>hp ha regs. PmmDetermineMemoryLimits es n pmm =
      Some (pmm\<lparr>PhysicalMemorySize := sum_list (map Length (filter ram_entry es)), HighestPhysicalAddressPresent := hp,
               HighestPhysicalAddressAvailable := ha, MemoryRegionList := regs\<rparr>)
    \<and> unat hp = highest_end (\<lambda>_. True) es \<and> unat ha = highest_end ram_entry es"
proof -
  define P :: "nat \<Rightarrow> QWORD \<times> QWORD \<times> QWORD \<times> MEMORY_REGION_LIST list \<Rightarrow> bool"
    where "P = (\<lambda>i (sz, hp, ha, regs). sz = sum_list (map Length (filter ram_entry (take i es))) \<and> length regs = 6
    \<and> unat hp = highest_end (\<lambda>_. True) (take i es) \<and> unat ha = highest_end ram_entry (take i es))"
  have "\<exists>s'. for_upto (length es) (\<lambda>i s. do { e \<leftarrow> rd_at es i; PmmDetermineMemoryLimits_body e s })
      (0, 0, 0, MemoryRegionList pmm) = Some s' \<and> P (length es) s'"
  proof (rule for_upto_rule)
    show "P 0 (0, 0, 0, MemoryRegionList pmm)" using assms(4) by (simp add: P_def highest_end_def)
  next
    fix i s assume i: "i < length es" and "P i s"
    then obtain sz hp ha regs where s: "s = (sz, hp, ha, regs)" "P i (sz, hp, ha, regs)" by (cases s) auto
    have "es ! i \<in> set es" using i by simp
    with assms(1) have "entry_end (es ! i) < 2 ^ 44" "valid_entry (es ! i) \<longrightarrow> Type (es ! i) < MemoryMapTypeMax"
      by (auto simp: map_ok_def)
    from limits_body [OF this, of regs hp "take i es" ha sz] s i
    show "\<exists>s'. (do { e \<leftarrow> rd_at es i; PmmDetermineMemoryLimits_body e s }) = Some s' \<and> P (Suc i) s'"
      by (auto simp: P_def take_Suc_conv_app_nth)
  qed
  moreover have "n \<noteq> 0" using assms(2,3) by auto
  ultimately show ?thesis
    using assms(2) by (fastforce simp: PmmDetermineMemoryLimits_def P_def)
qed

lemma entry_release:
  assumes "pmm_inv pmm" and "CpuSelf cpu \<noteq> NULL" and "entry_end e < 2 ^ 44"
    and "entry_frames e \<subseteq> {..<pmm_frames pmm}" and "ram_entry e \<Longrightarrow> MB_SIZE \<le> BaseAddress e \<Longrightarrow> PAGE_SIZE \<le> Length e"
  shows "\<exists>pmm'. PmmInitializeAllocationBitmap_body (LockSystemInit m) ra e (cpu, pmm) = Some (cpu, pmm') \<and> pmm_inv pmm'
    \<and> pmm_frames pmm' = pmm_frames pmm \<and> pmm_used pmm' = pmm_used pmm - entry_frames e"
proof (cases "ram_entry e \<and> MB_SIZE \<le> BaseAddress e")
  case False
  with assms(1) show ?thesis
    by (auto simp: PmmInitializeAllocationBitmap_body_def ram_entry_def valid_entry_def entry_frames_def not_le)
next
  case True
  define pa where "pa = AlignAddressUpper (BaseAddress e) PAGE_SIZE"
  define k where "k = (ucast (Length e div PAGE_SIZE) :: DWORD)"
  have b: "unat (BaseAddress e) + 4095 < 2 ^ 64" and l: "unat (Length e) < 2 ^ 44"
    using assms(3) by (simp_all add: entry_end_def)
  have pa: "unat pa = (unat (BaseAddress e) + 4095) div 4096 * 4096"
    unfolding pa_def using b by (rule AlignAddressUpper_page)
  then have fr: "frame pa = (unat (BaseAddress e) + 4095) div 4096" by (simp add: frame_def)
  have k: "unat k = unat (Length e) div 4096" and kle: "Length e div PAGE_SIZE \<le> 4294967295"
    using l by (auto simp: k_def unat_ucast_DWORD unat_div word_le_nat_alt)
  have "0 < unat (Length e) div 4096"
    using assms(5) True by (simp add: word_le_nat_alt div_greater_zero_iff)
  then have le: "frame pa < pmm_frames pmm" "frame pa + unat k \<le> pmm_frames pmm"
    using assms(4) True by (auto simp: entry_frames_def fr k subset_iff) (metis Suc_pred add_Suc_right le_add1 lessI less_eq_Suc_le)
  from PmmReleaseMemory_ok [OF assms(1,2) _ this, of m ra] True k fr kle pa show ?thesis
    by (auto simp: PmmInitializeAllocationBitmap_body_def ram_entry_def valid_entry_def entry_frames_def pa_def [symmetric]
        k_def [symmetric] IsAddressAligned_page pa_frames_def leD)
qed

definition releasable :: "nat \<Rightarrow> INT15_MEMORY_MAP_ENTRY \<Rightarrow> bool" where
  "releasable frames e = (ram_entry e \<and> MB_SIZE \<le> BaseAddress e \<longrightarrow> PAGE_SIZE \<le> Length e \<and> entry_frames e \<subseteq> {..<frames})"

lemma releasable_iff:
  "releasable k e \<longleftrightarrow> entry_frames e \<subseteq> {..<k} \<and> (ram_entry e \<longrightarrow> MB_SIZE \<le> BaseAddress e \<longrightarrow> PAGE_SIZE \<le> Length e)"
  by (auto simp: releasable_def entry_frames_def)

lemma release_all_entries:
  assumes "pmm_inv pmm" and "CpuSelf cpu \<noteq> NULL" and "map_ok es" and "\<forall>e \<in> set es. releasable (pmm_frames pmm) e"
  shows "\<exists>pmm'. for_upto (length es)
      (\<lambda>i s. do { e \<leftarrow> rd_at es i; PmmInitializeAllocationBitmap_body (LockSystemInit m) ra e s }) (cpu, pmm) = Some (cpu, pmm')
    \<and> pmm_inv pmm' \<and> pmm_frames pmm' = pmm_frames pmm \<and> pmm_used pmm' = pmm_used pmm - (\<Union>e \<in> set es. entry_frames e)"
proof -
  define P :: "nat \<Rightarrow> CPU \<times> PMM_DATA \<Rightarrow> bool" where
    "P = (\<lambda>i (c, p). c = cpu \<and> pmm_inv p \<and> pmm_frames p = pmm_frames pmm
      \<and> pmm_used p = pmm_used pmm - (\<Union>e \<in> set (take i es). entry_frames e))"
  have "\<exists>s'. for_upto (length es)
      (\<lambda>i s. do { e \<leftarrow> rd_at es i; PmmInitializeAllocationBitmap_body (LockSystemInit m) ra e s }) (cpu, pmm) = Some s'
    \<and> P (length es) s'"
  proof (rule for_upto_rule)
    show "P 0 (cpu, pmm)" using assms(1) by (simp add: P_def)
  next
    fix i s assume i: "i < length es" and "P i s"
    then obtain p where p: "s = (cpu, p)" "pmm_inv p" "pmm_frames p = pmm_frames pmm"
      "pmm_used p = pmm_used pmm - (\<Union>e \<in> set (take i es). entry_frames e)" by (cases s) (auto simp: P_def)
    have "es ! i \<in> set es" using i by simp
    with assms(3,4) have "entry_end (es ! i) < 2 ^ 44" "releasable (pmm_frames p) (es ! i)"
      by (auto simp: map_ok_def p(3))
    then obtain p' where "PmmInitializeAllocationBitmap_body (LockSystemInit m) ra (es ! i) (cpu, p) = Some (cpu, p')"
      "pmm_inv p'" "pmm_frames p' = pmm_frames p" "pmm_used p' = pmm_used p - entry_frames (es ! i)"
      using entry_release [OF p(2) assms(2), of "es ! i" m ra] by (auto simp: releasable_iff)
    with p i show "\<exists>s'. (do { e \<leftarrow> rd_at es i; PmmInitializeAllocationBitmap_body (LockSystemInit m) ra e s }) = Some s' \<and> P (Suc i) s'"
      by (auto simp: P_def take_Suc_conv_app_nth)
  qed
  then show ?thesis by (auto simp: P_def)
qed

lemma PmmInitializeAllocationBitmap_ok:
  assumes "lock_free (AllocationLock pmm)" and "CpuSelf cpu \<noteq> NULL" and "map_ok es" and "unat n = length es"
    and "4096 \<le> unat hp" and "unat hp < 2 ^ 44" and "\<forall>e \<in> set es. releasable (unat hp div 4096) e"
    and "(unat hp div 4096 + 7) div 8 \<le> length buf"
  shows "\<exists>sz pmm'. PmmInitializeAllocationBitmap (LockSystemInit m) ra cpu pmm (Some buf) hp es n = Some (sz, cpu, pmm')
    \<and> unat sz = (unat hp div 4096 + 7) div 8 \<and> pmm_inv pmm' \<and> pmm_frames pmm' = unat hp div 4096
    \<and> pmm_used pmm' = {..<unat hp div 4096} - (\<Union>e \<in> set es. entry_frames e)"
proof -
  define k where "k = (ucast (hp div PAGE_SIZE) :: DWORD)"
  have fr: "frame hp < 4294967296" using assms(6) by (auto simp: frame_def)
  have k: "unat k = unat hp div 4096" unfolding k_def using unat_index [OF fr] by (simp add: frame_def)
  then have k0: "k \<noteq> 0" using assms(5) by auto
  from BitmapPreinit_ok [OF k0] obtain b where b: "BitmapPreinit k = Some (BufferSize b, b)" "BitCount b = k"
    "unat (BufferSize b) = (unat k + 7) div 8" by blast
  have "x \<le> 8 * ((x + 7) div 8)" for x :: nat by presburger
  from this [of "unat hp div 4096"] BitmapInitEx_ok [of b buf False] b k assms(8) obtain b1 where b1: "BitmapInitEx b (Some buf) False = Some b1"
    "bitmap_inv b1" "BitCount b1 = k" "bm_set b1 = {}" by auto
  define p1 where "p1 = pmm\<lparr>AllocationBitmap := b1\<rparr>"
  have p1: "pmm_inv p1" "pmm_frames p1 = unat k" "pmm_used p1 = {}"
    using assms(1) b1 by (simp_all add: p1_def pmm_inv_def pmm_frames_def pmm_used_def)
  have n0: "IsAddressAligned NULL PAGE_SIZE" "frame NULL < 4294967296"
    by (simp_all add: IsAddressAligned_page frame_def)
  from PmmReserveMemoryEx_ok [OF p1(1) assms(2) k0 n0, of m ra] p1(2,3) obtain pa p2
    where p2: "PmmReserveMemoryEx (LockSystemInit m) ra cpu p1 k NULL = Some (pa, cpu, p2)" "pmm_inv p2"
      "pmm_frames p2 = unat k" "pmm_used p2 = {..<unat k}"
    by (auto simp: frame_def pa_frames_def lessThan_atLeast0)
  from release_all_entries [OF p2(2) assms(2,3), of m ra] assms(7) p2(3,4) k obtain p3
    where "for_upto (length es)
      (\<lambda>i s. do { e \<leftarrow> rd_at es i; PmmInitializeAllocationBitmap_body (LockSystemInit m) ra e s }) (cpu, p2) = Some (cpu, p3)"
      "pmm_inv p3" "pmm_frames p3 = unat k" "pmm_used p3 = {..<unat k} - (\<Union>e \<in> set es. entry_frames e)" by auto
  moreover have "0 \<noteq> hp" using assms(5) by auto
  ultimately show ?thesis
    using b b1 p2(1) k fr assms(4)
    by (auto simp: PmmInitializeAllocationBitmap_def PmmReserveMemory_def BitmapGetMaxElementCount_def k_def [symmetric]
        p1_def [symmetric] index_le_DWORD)
qed

lemma PmmReserveMemoryEx_total:
  assumes "pmm_inv pmm" and "CpuSelf cpu \<noteq> NULL"
  shows "\<exists>pa pmm'. PmmReserveMemoryEx (LockSystemInit m) ra cpu pmm n lo = Some (pa, cpu, pmm')
    \<and> (pa = NULL \<and> pmm' = pmm \<or> n \<noteq> 0 \<and> IsAddressAligned lo PAGE_SIZE \<and> frame lo < 4294967296)"
proof (cases "n \<noteq> 0 \<and> IsAddressAligned lo PAGE_SIZE \<and> frame lo < 4294967296")
  case True
  with PmmReserveMemoryEx_ok [OF assms, of n lo m ra] show ?thesis by blast
next
  case False
  then show ?thesis by (auto simp: PmmReserveMemoryEx_def Let_def index_gt_DWORD)
qed

section \<open>Clients\<close>

text \<open>
  Every sequence of calls that reserve frames and that release, in any order, what was obtained: the
  state is the manager and the ranges that are handed out.
\<close>

type_synonym allocation = "PHYSICAL_ADDRESS \<times> DWORD"

inductive pmm_step :: "PMM_DATA \<times> allocation list \<Rightarrow> PMM_DATA \<times> allocation list \<Rightarrow> bool" where
  reserve: "CpuSelf cpu \<noteq> NULL \<Longrightarrow> PmmReserveMemoryEx (LockSystemInit m) ra cpu pmm n lo = Some (pa, cpu', pmm') \<Longrightarrow>
    pmm_step (pmm, A) (pmm', if pa = NULL then A else (pa, n) # A)"
| release: "CpuSelf cpu \<noteq> NULL \<Longrightarrow> (pa, n) \<in> set A \<Longrightarrow>
    PmmReleaseMemory (LockSystemInit m) ra cpu pmm pa n = Some (cpu', pmm') \<Longrightarrow>
    pmm_step (pmm, A) (pmm', remove1 (pa, n) A)"

definition disjoint_frames :: "allocation \<Rightarrow> allocation \<Rightarrow> bool" where
  "disjoint_frames a b = (pa_frames (fst a) (snd a) \<inter> pa_frames (fst b) (snd b) = {})"

definition handed_out :: "allocation list \<Rightarrow> nat set" where
  "handed_out A = (\<Union>(pa, n) \<in> set A. pa_frames pa n)"

definition good_allocation :: "PMM_DATA \<Rightarrow> allocation \<Rightarrow> bool" where
  "good_allocation pmm0 = (\<lambda>(pa, n). n \<noteq> 0 \<and> IsAddressAligned pa PAGE_SIZE \<and> frame pa + unat n \<le> pmm_frames pmm0
     \<and> pa_frames pa n \<inter> pmm_used pmm0 = {})"

definition client_inv :: "PMM_DATA \<Rightarrow> PMM_DATA \<times> allocation list \<Rightarrow> bool" where
  "client_inv pmm0 = (\<lambda>(pmm, A). pmm_inv pmm \<and> pmm_frames pmm = pmm_frames pmm0
     \<and> pmm_used pmm = pmm_used pmm0 \<union> handed_out A \<and> sorted_wrt disjoint_frames A \<and> (\<forall>a \<in> set A. good_allocation pmm0 a))"

lemma good_allocation_frames:
  assumes "good_allocation pmm0 (pa, n)"
  shows "frame pa < pmm_frames pmm0" "frame pa \<in> pa_frames pa n"
proof -
  have "0 < unat n" using assms by (simp add: good_allocation_def unat_gt_0)
  then show "frame pa < pmm_frames pmm0" "frame pa \<in> pa_frames pa n"
    using assms by (auto simp: good_allocation_def pa_frames_def)
qed

lemma handed_out_Cons [simp]: "handed_out (a # A) = pa_frames (fst a) (snd a) \<union> handed_out A"
  by (auto simp: handed_out_def split: prod.splits)

lemma handed_out_Nil [simp]: "handed_out [] = {}"
  by (simp add: handed_out_def)

lemma handed_out_mem: "a \<in> set A \<Longrightarrow> pa_frames (fst a) (snd a) \<subseteq> handed_out A"
  by (auto simp: handed_out_def split_beta)

lemma handed_out_remove1:
  assumes "sorted_wrt disjoint_frames A" and "a \<in> set A"
  shows "handed_out (remove1 a A) = handed_out A - pa_frames (fst a) (snd a)"
  using assms
proof (induction A)
  case (Cons b A)
  show ?case
  proof (cases "b = a")
    case True
    then have "handed_out A \<inter> pa_frames (fst a) (snd a) = {}"
      using Cons.prems(1) by (fastforce simp: handed_out_def disjoint_frames_def split_beta)
    with True show ?thesis by auto
  next
    case False
    with Cons have "disjoint_frames b a" "handed_out (remove1 a A) = handed_out A - pa_frames (fst a) (snd a)"
      by auto
    with False show ?thesis by (auto simp: disjoint_frames_def)
  qed
qed simp

lemma sorted_wrt_remove1: "sorted_wrt R A \<Longrightarrow> sorted_wrt R (remove1 a A)"
  by (induction A) (auto dest: notin_set_remove1 [THEN contrapos_nn])

lemma client_inv_reserve:
  assumes "client_inv pmm0 (pmm, A)" and "0 \<in> pmm_used pmm0" and "CpuSelf cpu \<noteq> NULL"
    and "PmmReserveMemoryEx (LockSystemInit m) ra cpu pmm n lo = Some (pa, cpu', pmm')"
  shows "client_inv pmm0 (pmm', if pa = NULL then A else (pa, n) # A)"
proof -
  from assms(1) have inv: "pmm_inv pmm" by (simp add: client_inv_def)
  consider "pa = NULL" "pmm' = pmm" | "n \<noteq> 0" "IsAddressAligned lo PAGE_SIZE" "frame lo < 4294967296"
    using PmmReserveMemoryEx_total [OF inv assms(3), of m ra n lo] assms(4) by auto
  then show ?thesis
  proof cases
    case 2
    note ok = PmmReserveMemoryEx_ok [OF inv assms(3) 2, of m ra, unfolded assms(4), simplified]
    have z: "0 \<in> pa_frames NULL n" using 2(1) by (simp add: pa_frames_def frame_def unat_gt_0)
    show ?thesis
    proof (cases "pa = NULL")
      case True
      then have "pmm_used pmm \<inter> pa_frames pa n \<noteq> {}"
        using z assms(1,2) by (auto simp: client_inv_def)
      with ok True assms(1) show ?thesis by (auto simp: client_inv_def)
    next
      case False
      with ok 2(1) assms(1) have "\<forall>b \<in> set A. disjoint_frames (pa, n) b"
        using handed_out_mem by (fastforce simp: client_inv_def disjoint_frames_def)
      with ok False 2(1) assms(1) show ?thesis
        by (auto simp: client_inv_def good_allocation_def)
    qed
  qed (use assms(1) in auto)
qed

lemma client_inv_release:
  assumes "client_inv pmm0 (pmm, A)" and "CpuSelf cpu \<noteq> NULL" and "(pa, n) \<in> set A"
  shows "\<exists>pmm'. PmmReleaseMemory (LockSystemInit m) ra cpu pmm pa n = Some (cpu, pmm') \<and> client_inv pmm0 (pmm', remove1 (pa, n) A)"
proof -
  from assms(1,3) have g: "good_allocation pmm0 (pa, n)" by (simp add: client_inv_def)
  from PmmReleaseMemory_ok [of pmm cpu pa n m ra] assms g good_allocation_frames [OF g]
  obtain pmm' where r: "PmmReleaseMemory (LockSystemInit m) ra cpu pmm pa n = Some (cpu, pmm')" "pmm_inv pmm'"
    "pmm_frames pmm' = pmm_frames pmm" "pmm_used pmm' = pmm_used pmm - pa_frames pa n"
    by (auto simp: client_inv_def good_allocation_def)
  moreover have "pmm_used pmm - pa_frames pa n = pmm_used pmm0 \<union> handed_out (remove1 (pa, n) A)"
    using assms(1,3) g handed_out_remove1 [of A "(pa, n)"] by (auto simp: client_inv_def good_allocation_def)
  ultimately show ?thesis
    using assms(1) sorted_wrt_remove1 [of disjoint_frames A "(pa, n)"]
    by (auto simp: client_inv_def dest: in_set_remove1 [THEN iffD1, rotated] notin_set_remove1 [THEN contrapos_nn])
qed

lemma client_inv_reachable:
  assumes "pmm_step\<^sup>*\<^sup>* (pmm0, []) s" and "pmm_inv pmm0" and "0 \<in> pmm_used pmm0"
  shows "client_inv pmm0 s"
  using assms(1)
proof (induction rule: rtranclp_induct)
  case base
  with assms(2) show ?case by (simp add: client_inv_def)
next
  case (step s t)
  from step.hyps(2) step.IH show ?case
  proof cases
    case reserve
    with step.IH client_inv_reserve assms(3) show ?thesis by auto
  next
    case (release cpu pa n A m ra pmm cpu' pmm')
    with step.IH client_inv_release [of pmm0 pmm A cpu pa n m ra] show ?thesis by auto
  qed
qed

section \<open>Properties\<close>

definition aligned_map :: "INT15_MEMORY_MAP_ENTRY list \<Rightarrow> bool" where
  "aligned_map es = (\<forall>e \<in> set es. ram_entry e \<and> MB_SIZE \<le> BaseAddress e \<longrightarrow>
     IsAddressAligned (BaseAddress e) PAGE_SIZE \<and> PAGE_SIZE \<le> Length e)"

text \<open>The frame lies inside usable RAM that starts at or above 1 MB.\<close>

definition usable_frame :: "INT15_MEMORY_MAP_ENTRY list \<Rightarrow> nat \<Rightarrow> bool" where
  "usable_frame es f = (\<exists>e \<in> set es. ram_entry e \<and> MB_SIZE \<le> BaseAddress e
     \<and> unat (BaseAddress e) \<le> f * 4096 \<and> (f + 1) * 4096 \<le> entry_end e)"

lemma entry_frames_aligned:
  assumes "unat (BaseAddress e) mod 4096 = 0"
  shows "f \<in> entry_frames e \<longleftrightarrow> ram_entry e \<and> MB_SIZE \<le> BaseAddress e
    \<and> unat (BaseAddress e) \<le> f * 4096 \<and> (f + 1) * 4096 \<le> entry_end e"
proof -
  have "k * 4096 \<le> x \<longleftrightarrow> k \<le> x div 4096" for k x :: nat by (simp add: less_eq_div_iff_mult_less_eq)
  moreover from assms obtain q where "unat (BaseAddress e) = q * 4096" by (metis mult.commute mod_0_imp_dvd dvdE)
  ultimately show ?thesis by (auto simp: entry_frames_def entry_end_def)
qed

lemma aligned_releasable:
  assumes "aligned_map es" and "e \<in> set es"
  shows "releasable (highest_end (\<lambda>_. True) es div 4096) e"
  unfolding releasable_def
proof (intro impI conjI subsetI)
  assume r: "ram_entry e \<and> MB_SIZE \<le> BaseAddress e"
  with assms show "PAGE_SIZE \<le> Length e" by (auto simp: aligned_map_def)
  fix f assume "f \<in> entry_frames e"
  moreover from r assms have "unat (BaseAddress e) mod 4096 = 0" by (auto simp: aligned_map_def IsAddressAligned_page)
  ultimately have "(f + 1) * 4096 \<le> highest_end (\<lambda>_. True) es"
    using highest_end_ge [OF assms(2), of "\<lambda>_. True"] entry_frames_aligned [of e f] by simp
  then show "f \<in> {..<highest_end (\<lambda>_. True) es div 4096}"
    by (simp add: less_eq_div_iff_mult_less_eq flip: Suc_le_eq)
qed

lemma PmmInitSystem_ok:
  assumes "map_ok es" and "unat n = length es" and "CpuSelf cpu \<noteq> NULL"
    and "4096 \<le> highest_end (\<lambda>_. True) es" and "(highest_end (\<lambda>_. True) es div 4096 + 7) div 8 \<le> length buf"
    and "\<forall>e \<in> set es. releasable (highest_end (\<lambda>_. True) es div 4096) e"
  shows "\<exists>sz pmm. PmmInitSystem (LockSystemInit m) ra cpu (PmmPreinitSystem (LockSystemInit m)) (Some buf) (Some es) n True
      = Some (STATUS_SUCCESS, Some sz, cpu, pmm)
    \<and> pmm_inv pmm \<and> pmm_frames pmm = highest_end (\<lambda>_. True) es div 4096
    \<and> pmm_used pmm = {..<highest_end (\<lambda>_. True) es div 4096} - (\<Union>e \<in> set es. entry_frames e)"
proof -
  let ?p0 = "PmmPreinitSystem (LockSystemInit m)"
  have p0: "length (MemoryRegionList ?p0) = 6" "lock_free (AllocationLock ?p0)"
    using lock_sys.init_free [of m zero_LOCK] by (simp_all add: PmmPreinitSystem_def)
  have ne: "es \<noteq> []" using assms(4) by (auto simp: highest_end_def)
  have n0: "n \<noteq> 0" using ne assms(2) by auto
  obtain p1 where p1: "PmmDetermineMemoryLimits es n ?p0 = Some p1"
    "unat (HighestPhysicalAddressPresent p1) = highest_end (\<lambda>_. True) es" "lock_free (AllocationLock p1)"
    using PmmDetermineMemoryLimits_ok [OF assms(1,2) ne p0(1)] p0(2) by force
  have "highest_end (\<lambda>_. True) es < 2 ^ 44"
    by (rule highest_end_less) (use assms(1) in \<open>auto simp: map_ok_def\<close>)
  with PmmInitializeAllocationBitmap_ok [OF p1(3) assms(3,1,2), of "HighestPhysicalAddressPresent p1" buf m ra] assms(4-6) p1 n0
  show ?thesis by (fastforce simp: PmmInitSystem_def)
qed

text \<open>
  C9: after the boot-time initialisation from a page aligned memory map, a frame is free exactly when it
  lies inside a region of usable RAM that starts at or above 1 MB; every other frame up to the highest
  address of the map is reserved, and the allocation lock is free.
\<close>

theorem pmm_init_spec:
  assumes "map_ok es" and "aligned_map es" and "unat n = length es" and "CpuSelf cpu \<noteq> NULL"
    and "4096 \<le> highest_end (\<lambda>_. True) es" and "(highest_end (\<lambda>_. True) es div 4096 + 7) div 8 \<le> length buf"
  shows "\<exists>sz pmm. PmmInitSystem (LockSystemInit m) ra cpu (PmmPreinitSystem (LockSystemInit m)) (Some buf) (Some es) n True
      = Some (STATUS_SUCCESS, Some sz, cpu, pmm)
    \<and> pmm_inv pmm \<and> pmm_frames pmm = highest_end (\<lambda>_. True) es div 4096
    \<and> (\<forall>f. f \<in> pmm_used pmm \<longleftrightarrow> f < pmm_frames pmm \<and> \<not> usable_frame es f)"
proof -
  have "(\<Union>e \<in> set es. entry_frames e) = {f. usable_frame es f}"
  proof -
    have "f \<in> entry_frames e \<longleftrightarrow> ram_entry e \<and> MB_SIZE \<le> BaseAddress e
        \<and> unat (BaseAddress e) \<le> f * 4096 \<and> (f + 1) * 4096 \<le> entry_end e" if "e \<in> set es" for e f
    proof (cases "ram_entry e \<and> MB_SIZE \<le> BaseAddress e")
      case True
      with that assms(2) show ?thesis by (intro entry_frames_aligned) (auto simp: aligned_map_def IsAddressAligned_page)
    qed (auto simp: entry_frames_def)
    then show ?thesis by (auto simp: usable_frame_def)
  qed
  with PmmInitSystem_ok [OF assms(1,3-6), of m ra] aligned_releasable [OF assms(2)] show ?thesis by fastforce
qed

definition ex_map :: "INT15_MEMORY_MAP_ENTRY list" where
  "ex_map = [\<lparr>BaseAddress = 0, Length = 0x9F000, Type = 1, ExtendedAttributes = 1\<rparr>,
     \<lparr>BaseAddress = 0x9F000, Length = 0x61000, Type = 2, ExtendedAttributes = 1\<rparr>,
     \<lparr>BaseAddress = 0x100000, Length = 0x4000, Type = 1, ExtendedAttributes = 1\<rparr>]"

lemma ex_map_ok: "map_ok ex_map" "aligned_map ex_map" "highest_end (\<lambda>_. True) ex_map = 0x104000"
  by (simp_all add: map_ok_def aligned_map_def ex_map_def entry_end_def highest_end_def valid_entry_def ram_entry_def
      IsBooleanFlagOn_def IsAddressAligned_page)

theorem pmm_init_spec_witness:
  "\<exists>sz pmm. PmmInitSystem (LockSystemInit True) 8 (ex_cpu 1) (PmmPreinitSystem (LockSystemInit True))
      (Some (replicate 64 0)) (Some ex_map) 3 True = Some (STATUS_SUCCESS, Some sz, ex_cpu 1, pmm)
    \<and> pmm_frames pmm = 260 \<and> 255 \<in> pmm_used pmm \<and> 257 \<notin> pmm_used pmm"
proof -
  have "\<not> usable_frame ex_map 255" "usable_frame ex_map 257"
    by (auto simp: usable_frame_def ex_map_def ram_entry_def valid_entry_def entry_end_def IsBooleanFlagOn_def)
  moreover have "unat (3::DWORD) = length ex_map" "CpuSelf (ex_cpu 1) \<noteq> NULL" by (simp_all add: ex_map_def ex_cpu_def)
  note i = pmm_init_spec [OF ex_map_ok(1,2) this, of "replicate 64 0" True 8, unfolded ex_map_ok(3), simplified]
  from i obtain sz pmm where "PmmInitSystem (LockSystemInit True) 8 (ex_cpu 1) (PmmPreinitSystem (LockSystemInit True))
      (Some (replicate 64 0)) (Some ex_map) 3 True = Some (STATUS_SUCCESS, Some sz, ex_cpu 1, pmm)"
    "pmm_frames pmm = 260" "\<forall>f. f \<in> pmm_used pmm \<longleftrightarrow> f < pmm_frames pmm \<and> \<not> usable_frame ex_map f" by auto
  moreover from this calculation(1,2) have "255 \<in> pmm_used pmm" "257 \<notin> pmm_used pmm" by auto
  ultimately show ?thesis by blast
qed

text \<open>
  C10: in every sequence of reservations and releases by the clients of the manager, the ranges handed out
  are page aligned, pairwise disjoint, inside the physical memory and were free initially; the frames in
  use are exactly the initial ones and the ones handed out; a reservation never halts and any range that
  is handed out can be released.
\<close>

theorem pmm_client_history:
  assumes "pmm_step\<^sup>*\<^sup>* (pmm0, []) (pmm, A)" and "pmm_inv pmm0" and "0 \<in> pmm_used pmm0" and "CpuSelf cpu \<noteq> NULL"
  shows "sorted_wrt disjoint_frames A \<and> (\<forall>a \<in> set A. good_allocation pmm0 a)
    \<and> pmm_used pmm = pmm_used pmm0 \<union> handed_out A
    \<and> PmmReserveMemoryEx (LockSystemInit m) ra cpu pmm n lo \<noteq> None
    \<and> (\<forall>(pa, k) \<in> set A. PmmReleaseMemory (LockSystemInit m) ra cpu pmm pa k \<noteq> None)"
proof -
  note i = client_inv_reachable [OF assms(1-3)]
  then have "PmmReserveMemoryEx (LockSystemInit m) ra cpu pmm n lo \<noteq> None"
    using PmmReserveMemoryEx_total [OF _ assms(4), of pmm m ra n lo] by (auto simp: client_inv_def)
  with i client_inv_release [OF i assms(4), of _ _ m ra] show ?thesis by (force simp: client_inv_def)
qed

definition ex_pmm :: PMM_DATA where
  "ex_pmm = (PmmPreinitSystem (LockSystemInit True))\<lparr>AllocationBitmap := ex_bitmap\<rparr>"

lemma ex_pmm_inv: "pmm_inv ex_pmm" "0 \<in> pmm_used ex_pmm"
  using ex_bitmap_inv lock_sys.init_free [of True zero_LOCK]
  by (auto simp: ex_pmm_def pmm_inv_def PmmPreinitSystem_def pmm_used_def bm_set_def bm_bit_def bit_at_def ex_bitmap_def)

lemma ex_pmm_history: "\<exists>pmm pa. pmm_step\<^sup>*\<^sup>* (ex_pmm, []) (pmm, [(pa, 2)])"
proof -
  have cpu: "CpuSelf (ex_cpu 1) \<noteq> NULL" by (simp add: ex_cpu_def)
  have "IsAddressAligned 0 PAGE_SIZE" "frame 0 < 4294967296" by (simp_all add: IsAddressAligned_page frame_def)
  from PmmReserveMemoryEx_ok [OF ex_pmm_inv(1) cpu _ this, of 2 True 8] obtain pa pmm
    where r: "PmmReserveMemoryEx (LockSystemInit True) 8 (ex_cpu 1) ex_pmm 2 0 = Some (pa, ex_cpu 1, pmm)"
      "pmm_used ex_pmm \<inter> pa_frames pa 2 = {} \<or> (\<forall>k. k + 2 \<le> pmm_frames ex_pmm \<longrightarrow> pmm_used ex_pmm \<inter> {k..<k + 2} \<noteq> {})"
    by (auto simp: frame_def)
  have "pmm_used ex_pmm \<inter> {4..<4 + 2} = {}"
  proof -
    have "{4..<4 + 2} = {4, 5::nat}" by auto
    then show ?thesis by (simp add: pmm_used_def ex_pmm_def bm_set_def bm_bit_def bit_at_def ex_bitmap_def)
  qed
  moreover have "4 + 2 \<le> pmm_frames ex_pmm" by (simp add: pmm_frames_def ex_pmm_def ex_bitmap_def)
  ultimately have "pmm_used ex_pmm \<inter> pa_frames pa 2 = {}" using r(2) by blast
  then have "pa \<noteq> NULL" using ex_pmm_inv(2) by (auto simp: pa_frames_def frame_def)
  with pmm_step.reserve [OF cpu r(1), of "[]"] show ?thesis by auto
qed

theorem pmm_client_history_witness:
  "\<exists>pmm pa. pmm_step\<^sup>*\<^sup>* (ex_pmm, []) (pmm, [(pa, 2)]) \<and> good_allocation ex_pmm (pa, 2)
    \<and> pmm_used pmm = pmm_used ex_pmm \<union> pa_frames pa 2 \<and> PmmReleaseMemory (LockSystemInit True) 8 (ex_cpu 1) pmm pa 2 \<noteq> None"
proof -
  from ex_pmm_history obtain pmm pa where h: "pmm_step\<^sup>*\<^sup>* (ex_pmm, []) (pmm, [(pa, 2)])" by blast
  from pmm_client_history [OF this ex_pmm_inv, of "ex_cpu 1" True 8 0 0]
  have "good_allocation ex_pmm (pa, 2)" "pmm_used pmm = pmm_used ex_pmm \<union> pa_frames pa 2"
    "PmmReleaseMemory (LockSystemInit True) 8 (ex_cpu 1) pmm pa 2 \<noteq> None" by (auto simp: ex_cpu_def)
  with h show ?thesis by blast
qed

text \<open>
  C11: reserving frames is first fit from the requested address and changes nothing else: the call either
  returns the lowest suitable range above it, which becomes used, or NULL when no free range is large
  enough; releasing the range afterwards restores the set of used frames.
\<close>

theorem pmm_reserve_release:
  assumes "pmm_inv pmm" and "0 \<in> pmm_used pmm" and "CpuSelf cpu \<noteq> NULL" and "n \<noteq> 0"
    and "IsAddressAligned lo PAGE_SIZE" and "frame lo < 4294967296"
  shows "\<exists>pa pmm1. PmmReserveMemoryEx (LockSystemInit m) ra cpu pmm n lo = Some (pa, cpu, pmm1) \<and>
    (if pa = NULL then pmm_used pmm1 = pmm_used pmm
       \<and> (\<forall>k. frame lo \<le> k \<and> k + unat n \<le> pmm_frames pmm \<longrightarrow> pmm_used pmm \<inter> {k..<k + unat n} \<noteq> {})
     else frame lo \<le> frame pa \<and> frame pa + unat n \<le> pmm_frames pmm \<and> pmm_used pmm \<inter> pa_frames pa n = {}
       \<and> pmm_used pmm1 = pmm_used pmm \<union> pa_frames pa n
       \<and> (\<exists>pmm2. PmmReleaseMemory (LockSystemInit m) ra cpu pmm1 pa n = Some (cpu, pmm2) \<and> pmm_used pmm2 = pmm_used pmm))"
proof -
  from PmmReserveMemoryEx_ok [OF assms(1,3-6), of m ra] obtain pa pmm1
    where r: "PmmReserveMemoryEx (LockSystemInit m) ra cpu pmm n lo = Some (pa, cpu, pmm1)" "pmm_inv pmm1"
      "pmm_frames pmm1 = pmm_frames pmm" "IsAddressAligned pa PAGE_SIZE"
      "(frame lo \<le> frame pa \<and> frame pa + unat n \<le> pmm_frames pmm \<and> pmm_used pmm \<inter> pa_frames pa n = {}
        \<and> pmm_used pmm1 = pmm_used pmm \<union> pa_frames pa n)
      \<or> (pa = NULL \<and> pmm_used pmm1 = pmm_used pmm
        \<and> (\<forall>k. frame lo \<le> k \<and> k + unat n \<le> pmm_frames pmm \<longrightarrow> pmm_used pmm \<inter> {k..<k + unat n} \<noteq> {}))" by blast
  have n: "0 < unat n" using assms(4) by (simp add: unat_gt_0)
  show ?thesis
  proof (cases "pa = NULL")
    case True
    with n have "0 \<in> pa_frames pa n" by (simp add: pa_frames_def frame_def)
    with True r assms(2) show ?thesis by auto
  next
    case False
    then have f: "frame pa < pmm_frames pmm1" "frame pa + unat n \<le> pmm_frames pmm1" "pmm_used pmm \<inter> pa_frames pa n = {}"
      "pmm_used pmm1 = pmm_used pmm \<union> pa_frames pa n" using r(3,5) n by auto
    from PmmReleaseMemory_ok [OF r(2) assms(3) r(4) f(1,2), of m ra] f(3,4) False r show ?thesis by auto
  qed
qed

theorem pmm_reserve_release_witness:
  "\<exists>pa pmm1. PmmReserveMemoryEx (LockSystemInit False) 8 (ex_cpu 1) ex_pmm 2 0x1000 = Some (pa, ex_cpu 1, pmm1)"
proof -
  from pmm_reserve_release [OF ex_pmm_inv, of "ex_cpu 1" 2 "0x1000" False 8] show ?thesis
    by (auto simp: ex_cpu_def IsAddressAligned_page frame_def)
qed

text \<open>
  a usable region whose base is not page aligned: the base is rounded up but the number of frames is
  not reduced, so the initialisation can release a frame that no usable region contains.
\<close>

theorem pmm_unaligned_region:
  "\<exists>es buf sz pmm f. map_ok es \<and> PmmInitSystem (LockSystemInit True) 8 (ex_cpu 1) (PmmPreinitSystem (LockSystemInit True))
      (Some buf) (Some es) (of_nat (length es)) True = Some (STATUS_SUCCESS, Some sz, ex_cpu 1, pmm)
    \<and> f < pmm_frames pmm \<and> f \<notin> pmm_used pmm \<and> \<not> usable_frame es f"
proof -
  define es where "es = [\<lparr>BaseAddress = 0x100800, Length = 0x1000, Type = 1, ExtendedAttributes = 1\<rparr>,
    \<lparr>BaseAddress = 0x101800, Length = 0x2800, Type = 2, ExtendedAttributes = 1\<rparr>]"
  have es: "map_ok es" "highest_end (\<lambda>_. True) es = 0x104000" "\<not> usable_frame es 257" "257 \<in> (\<Union>e \<in> set es. entry_frames e)"
    "\<forall>e \<in> set es. releasable 260 e"
    by (auto simp: es_def map_ok_def entry_end_def highest_end_def usable_frame_def entry_frames_def releasable_def
        ram_entry_def valid_entry_def IsBooleanFlagOn_def)
  have "unat (of_nat (length es) :: DWORD) = length es" "CpuSelf (ex_cpu 1) \<noteq> NULL" by (simp_all add: es_def ex_cpu_def)
  from PmmInitSystem_ok [OF es(1) this, of "replicate 64 0" True 8, unfolded es(2), simplified] es(5)
  obtain sz pmm where p: "PmmInitSystem (LockSystemInit True) 8 (ex_cpu 1) (PmmPreinitSystem (LockSystemInit True))
      (Some (replicate 64 0)) (Some es) (of_nat (length es)) True = Some (STATUS_SUCCESS, Some sz, ex_cpu 1, pmm)"
    "pmm_frames pmm = 260" "pmm_used pmm = {..<260} - (\<Union>e \<in> set es. entry_frames e)" by auto
  have "257 < pmm_frames pmm" "257 \<notin> pmm_used pmm" using p(2,3) es(4) by auto
  with es(1,3) p(1) show ?thesis by blast
qed

end
