(* ===== verification/ClMemory.thy ===== *)
theory ClMemory
  imports Hal_Prelude
begin

text \<open>
  The memory primitives of \<open>CommonLib/src/cl_memory.c\<close> on a byte-addressed memory. An address that is
  not mapped is \<open>None\<close>, and accessing it halts. A C \<open>int\<close> is an \<open>int\<close>; the conversions from and to it
  are written out.
\<close>

type_synonym mem = "ptr \<Rightarrow> BYTE option"

section \<open>Operations\<close>

definition st :: "mem \<Rightarrow> ptr \<Rightarrow> BYTE \<Rightarrow> mem option" where
  "st m p v = (if m p = None then None else Some (m(p \<mapsto> v)))"

text \<open>\<^verbatim>\<open>*((T*)dst) = *((T*)src)\<close> for a type \<open>T\<close> of \<open>c\<close> bytes: all are read, then all are written.\<close>

definition mov :: "nat \<Rightarrow> mem \<Rightarrow> ptr \<Rightarrow> ptr \<Rightarrow> mem option" where
  "mov c m dst src =
     (if \<forall>i < c. m (src + of_nat i) \<noteq> None \<and> m (dst + of_nat i) \<noteq> None
      then Some (\<lambda>q. if unat (q - dst) < c then m (src + (q - dst)) else m q) else None)"

definition cl_memset :: "mem \<Rightarrow> ptr \<Rightarrow> BYTE \<Rightarrow> DWORD \<Rightarrow> mem option" where
  "cl_memset m address value sz =
     (if NULL = address then Some m
      else for_upto (unat sz) (\<lambda>i m. st m (address + of_nat i) value) m)"

definition cl_memcpy :: "mem \<Rightarrow> ptr \<Rightarrow> ptr \<Rightarrow> QWORD \<Rightarrow> mem option" where
  "cl_memcpy m Destination Source Count =
     (if NULL = Destination \<or> NULL = Source then Some m
      else do {
        let unalignedCount = Count AND 0x7;
        let alignedCount = Count - unalignedCount;
        let dst = Destination;
        let src = Source;
        (m, dst, src) \<leftarrow> (if unalignedCount AND 0x4 \<noteq> 0
          then do { m \<leftarrow> mov 4 m dst src; Some (m, dst + 4, src + 4) } else Some (m, dst, src));
        (m, dst, src) \<leftarrow> (if unalignedCount AND 0x2 \<noteq> 0
          then do { m \<leftarrow> mov 2 m dst src; Some (m, dst + 2, src + 2) } else Some (m, dst, src));
        (m, dst, src) \<leftarrow> (if unalignedCount AND 0x1 \<noteq> 0
          then do { m \<leftarrow> mov 1 m dst src; Some (m, dst + 1, src + 1) } else Some (m, dst, src));
        if 0 \<noteq> alignedCount then do {
          ASSERT (IsAddressAligned alignedCount 8);
          let dst = Destination + unalignedCount;
          let src = Source + unalignedCount;
          for_upto (unat (alignedCount div 8)) (\<lambda>i m. mov 8 m (dst + of_nat (8 * i)) (src + of_nat (8 * i))) m
        }
        else Some m
      })"

definition cl_memmove :: "mem \<Rightarrow> ptr \<Rightarrow> ptr \<Rightarrow> QWORD \<Rightarrow> mem option" where
  "cl_memmove m Destination Source Count =
     (if NULL = Destination \<or> NULL = Source then Some m
      else for_upto (unat Count) (\<lambda>i m. do {
        v \<leftarrow> m (Source + of_nat i);
        st m (Destination + of_nat i) v
      }) m)"

text \<open>The loop of \<open>cl_memcmp\<close> at index \<open>i\<close> with \<open>n\<close> bytes left, and that of \<open>cl_rmemcmp\<close> below index \<open>n\<close>.\<close>

primrec cl_memcmp_loop :: "nat \<Rightarrow> mem \<Rightarrow> ptr \<Rightarrow> ptr \<Rightarrow> nat \<Rightarrow> int option" where
  "cl_memcmp_loop 0 m p1 p2 i = Some 0"
| "cl_memcmp_loop (Suc n) m p1 p2 i = do {
     a \<leftarrow> m (p1 + of_nat i);
     b \<leftarrow> m (p2 + of_nat i);
     if a \<noteq> b then Some (int (unat a) - int (unat b)) else cl_memcmp_loop n m p1 p2 (Suc i)
   }"

definition cl_memcmp :: "mem \<Rightarrow> ptr \<Rightarrow> ptr \<Rightarrow> DWORD \<Rightarrow> int option" where
  "cl_memcmp m ptr1 ptr2 sz =
     (if NULL = ptr1 \<or> NULL = ptr2 then Some (sint sz) else cl_memcmp_loop (unat sz) m ptr1 ptr2 0)"

primrec cl_rmemcmp_loop :: "nat \<Rightarrow> mem \<Rightarrow> ptr \<Rightarrow> ptr \<Rightarrow> int option" where
  "cl_rmemcmp_loop 0 m p1 p2 = Some 0"
| "cl_rmemcmp_loop (Suc n) m p1 p2 = do {
     a \<leftarrow> m (p1 + of_nat n);
     b \<leftarrow> m (p2 + of_nat n);
     if a \<noteq> b then Some (int (unat a) - int (unat b)) else cl_rmemcmp_loop n m p1 p2
   }"

text \<open>The loop starts at \<^verbatim>\<open>i = size - 1\<close>, which is computed on 32 bits before it becomes an INT64.\<close>

definition cl_rmemcmp :: "mem \<Rightarrow> ptr \<Rightarrow> ptr \<Rightarrow> DWORD \<Rightarrow> int option" where
  "cl_rmemcmp m ptr1 ptr2 sz =
     (if NULL = ptr1 \<or> NULL = ptr2 then Some (sint sz)
      else cl_rmemcmp_loop (Suc (unat (sz - 1))) m ptr1 ptr2)"

primrec cl_memscan_loop :: "nat \<Rightarrow> mem \<Rightarrow> ptr \<Rightarrow> BYTE \<Rightarrow> DWORD \<Rightarrow> DWORD option" where
  "cl_memscan_loop 0 m pData value i = Some i"
| "cl_memscan_loop (Suc n) m pData value i = do {
     v \<leftarrow> m (pData + ucast i);
     if v \<noteq> value then Some i else cl_memscan_loop n m pData value (i + 1)
   }"

definition cl_memscan :: "mem \<Rightarrow> ptr \<Rightarrow> DWORD \<Rightarrow> BYTE \<Rightarrow> int option" where
  "cl_memscan m buffer sz value =
     (if NULL = buffer then Some 0 else do { i \<leftarrow> cl_memscan_loop (unat sz) m buffer value 0; Some (sint i) })"

section \<open>Regions\<close>

text \<open>The \<open>n\<close> bytes from \<open>p\<close> on; addresses wrap around like the pointers of the code.\<close>

definition region :: "ptr \<Rightarrow> nat \<Rightarrow> ptr set" where
  "region p n = {q. unat (q - p) < n}"

definition mapped :: "mem \<Rightarrow> ptr \<Rightarrow> nat \<Rightarrow> bool" where
  "mapped m p n = (\<forall>q \<in> region p n. m q \<noteq> None)"

text \<open>Memory after the region at \<open>dst\<close> was overwritten with the old contents of the one at \<open>src\<close>.\<close>

definition overlay :: "mem \<Rightarrow> ptr \<Rightarrow> ptr \<Rightarrow> nat \<Rightarrow> mem" where
  "overlay m dst src n = (\<lambda>q. if unat (q - dst) < n then m (src + (q - dst)) else m q)"

text \<open>Copying upwards reads no byte that it has already overwritten.\<close>

definition forward_ok :: "ptr \<Rightarrow> ptr \<Rightarrow> nat \<Rightarrow> bool" where
  "forward_ok dst src n = (dst = src \<or> n \<le> unat (dst - src))"

lemma unat_of_nat_QWORD [simp]: "i < 2 ^ 64 \<Longrightarrow> unat (of_nat i :: QWORD) = i"
  by (simp add: unat_of_nat)

lemma in_region [simp]: "i < n \<Longrightarrow> n \<le> 2 ^ 64 \<Longrightarrow> p + of_nat i \<in> region p n"
  by (simp add: region_def)

lemma region_nth: "q \<in> region p n \<Longrightarrow> q = p + of_nat (unat (q - p))"
  by simp

lemma mappedI: "(\<And>i. i < n \<Longrightarrow> m (p + of_nat i) \<noteq> None) \<Longrightarrow> mapped m p n"
  unfolding mapped_def using region_nth by (metis mem_Collect_eq region_def)

lemma mapped_nth: "mapped m p n \<Longrightarrow> i < n \<Longrightarrow> n \<le> 2 ^ 64 \<Longrightarrow> m (p + of_nat i) \<noteq> None"
  by (simp add: mapped_def)

lemma overlay_0 [simp]: "overlay m dst src 0 = m"
  by (simp add: overlay_def)

lemma overlay_mapped:
  assumes "mapped m src n" and "mapped m dst n"
  shows "mapped m p k \<Longrightarrow> mapped (overlay m dst src n) p k"
  using assms by (auto simp: overlay_def mapped_def region_def)

text \<open>One chunk of \<open>c\<close> bytes extends the part that is already copied.\<close>

lemma mov_overlay:
  assumes "forward_ok dst src (a + c)" and "mapped m src (a + c)" and "mapped m dst (a + c)" and "a + c < 2 ^ 64"
  shows "mov c (overlay m dst src a) (dst + of_nat a) (src + of_nat a) = Some (overlay m dst src (a + c))"
proof -
  have src: "overlay m dst src a (src + of_nat (a + i)) = m (src + of_nat (a + i))" if "i < c" for i
  proof (cases "dst = src")
    case False
    with assms(1) have d: "a + c \<le> unat (dst - src)" by (simp add: forward_ok_def)
    have "\<not> unat (src + of_nat (a + i) - dst) < a"
    proof
      let ?k = "src + of_nat (a + i) - dst"
      assume k: "unat ?k < a"
      define w :: QWORD where "w = of_nat (a + i)"
      have w: "unat w = a + i" unfolding w_def using assms(4) that by (intro unat_of_nat_QWORD) simp
      define k where "k = src + w - dst"
      have "k \<le> w" using k w unfolding word_le_nat_alt k_def w_def by linarith
      then have "unat (w - k) = a + i - unat k" using w by (simp add: unat_sub)
      moreover have "w - k = dst - src" by (simp add: k_def)
      ultimately show False using d that by simp
    qed
    then show ?thesis by (simp add: overlay_def)
  qed (simp add: overlay_def)
  have "\<forall>i < c. overlay m dst src a (src + of_nat a + of_nat i) \<noteq> None \<and> overlay m dst src a (dst + of_nat a + of_nat i) \<noteq> None"
  proof (intro allI impI conjI)
    fix i assume i: "i < c"
    then show "overlay m dst src a (src + of_nat a + of_nat i) \<noteq> None"
      using src [OF i] mapped_nth [OF assms(2), of "a + i"] assms(4) by (simp add: add.assoc)
    have "unat (of_nat a + of_nat i :: QWORD) = a + i"
      using i assms(4) unat_of_nat_QWORD [of "a + i"] by simp
    then show "overlay m dst src a (dst + of_nat a + of_nat i) \<noteq> None"
      using i mapped_nth [OF assms(3), of "a + i"] assms(4) by (simp add: overlay_def add.assoc)
  qed
  moreover have "(\<lambda>q. if unat (q - (dst + of_nat a)) < c then overlay m dst src a (src + of_nat a + (q - (dst + of_nat a)))
      else overlay m dst src a q) = overlay m dst src (a + c)"
  proof
    fix q
    let ?d = "q - dst" and ?e = "q - (dst + of_nat a)"
    have de: "?e = ?d - of_nat a" by simp
    show "(if unat ?e < c then overlay m dst src a (src + of_nat a + ?e) else overlay m dst src a q) = overlay m dst src (a + c) q"
    proof (cases "a \<le> unat ?d")
      case True
      have "unat (of_nat a :: QWORD) = a" using assms(4) by simp
      then have e: "unat ?e = unat ?d - a" unfolding de using True by (metis unat_sub word_le_nat_alt)
      show ?thesis
      proof (cases "unat ?e < c")
        case less: True
        have "src + of_nat a + ?e = src + of_nat (a + unat ?e)" by simp
        moreover have "unat ?d < a + c" using less e True by linarith
        moreover have "src + of_nat (a + unat ?e) = src + ?d" by simp
        ultimately show ?thesis using src [OF less] less by (simp add: overlay_def)
      next
        case False
        with e True show ?thesis by (auto simp: overlay_def)
      qed
    next
      case False
      have "\<not> unat ?e < c"
      proof
        assume l: "unat ?e < c"
        have a: "unat (of_nat a :: QWORD) = a" using assms(4) by simp
        with l assms(4) have "unat (of_nat a + ?e) = a + unat ?e"
          using unat_plus_if_small [of "of_nat a" "?e"] by simp
        moreover have "of_nat a + ?e = ?d" by simp
        ultimately show False using False by simp
      qed
      with False show ?thesis by (simp add: overlay_def)
    qed
  qed
  ultimately show ?thesis by (simp add: mov_def)
qed

lemma mov_loop:
  assumes "forward_ok dst src (a + c * n)" and "mapped m src (a + c * n)" and "mapped m dst (a + c * n)" and "a + c * n < 2 ^ 64"
  shows "for_upto n (\<lambda>i m. mov c m (dst + of_nat a + of_nat (c * i)) (src + of_nat a + of_nat (c * i))) (overlay m dst src a)
    = Some (overlay m dst src (a + c * n))"
proof -
  have "\<exists>s'. for_upto n (\<lambda>i m. mov c m (dst + of_nat a + of_nat (c * i)) (src + of_nat a + of_nat (c * i))) (overlay m dst src a)
    = Some s' \<and> s' = overlay m dst src (a + c * n)"
  proof (rule for_upto_rule)
    fix i s assume i: "i < n" and s: "s = overlay m dst src (a + c * i)"
    have le: "a + c * i + c \<le> a + c * n" using mult_le_mono2 [of "Suc i" n c] i by simp
    then have "forward_ok dst src (a + c * i + c)" "mapped m src (a + c * i + c)" "mapped m dst (a + c * i + c)"
      using assms(1-3) by (auto simp: forward_ok_def mapped_def region_def)
    from mov_overlay [OF this] le assms(4) s
    show "\<exists>s'. mov c s (dst + of_nat a + of_nat (c * i)) (src + of_nat a + of_nat (c * i)) = Some s' \<and> s' = overlay m dst src (a + c * Suc i)"
      by (simp add: algebra_simps)
  qed simp
  then show ?thesis by simp
qed

lemma and7:
  fixes x :: QWORD
  shows "unat (x AND 7) = unat x mod 8"
    and "unat (x AND 7) = (if (x AND 7) AND 4 \<noteq> 0 then 4 else 0) + (if (x AND 7) AND 2 \<noteq> 0 then 2 else 0) + (if (x AND 7) AND 1 \<noteq> 0 then 1 else 0)"
proof -
  have "(7::QWORD) = mask 3" by (simp add: mask_eq_exp_minus_1)
  moreover have "unat (x AND mask 3) = unat x mod 8"
    by (simp add: take_bit_eq_mod unat_mod flip: take_bit_eq_mask)
  ultimately show u: "unat (x AND 7) = unat x mod 8" by simp
  then have "unat (x AND 7) \<in> {0, 1, 2, 3, 4, 5, 6, 7}" by auto
  then have "of_nat (unat (x AND 7)) \<in> (of_nat ` {0, 1, 2, 3, 4, 5, 6, 7} :: QWORD set)" by (rule imageI)
  then have "x AND 7 \<in> {0, 1, 2, 3, 4, 5, 6, 7}" by simp
  then show "unat (x AND 7) = (if (x AND 7) AND 4 \<noteq> 0 then 4 else 0) + (if (x AND 7) AND 2 \<noteq> 0 then 2 else 0) + (if (x AND 7) AND 1 \<noteq> 0 then 1 else 0)"
    by auto
qed

lemma mov_if:
  assumes "forward_ok dst src n" and "mapped m src n" and "mapped m dst n" and "n < 2 ^ 64" and "a + (if b then c else 0) \<le> n"
  shows "(if b then do { m \<leftarrow> mov c (overlay m dst src a) (dst + of_nat a) (src + of_nat a);
        Some (m, dst + of_nat a + of_nat c, src + of_nat a + of_nat c) }
      else Some (overlay m dst src a, dst + of_nat a, src + of_nat a)) =
    Some (overlay m dst src (a + (if b then c else 0)), dst + of_nat (a + (if b then c else 0)), src + of_nat (a + (if b then c else 0)))"
proof (cases b)
  case True
  with assms have "forward_ok dst src (a + c)" "mapped m src (a + c)" "mapped m dst (a + c)" "a + c < 2 ^ 64"
    by (auto simp: forward_ok_def mapped_def region_def)
  from mov_overlay [OF this] True show ?thesis by (simp add: add.assoc)
qed simp

section \<open>Copying\<close>

lemma cl_memmove_ok:
  assumes "dst \<noteq> NULL" and "src \<noteq> NULL" and "forward_ok dst src (unat n)" and "mapped m src (unat n)" and "mapped m dst (unat n)"
  shows "cl_memmove m dst src n = Some (overlay m dst src (unat n))"
proof -
  have "(do { v \<leftarrow> m (src + of_nat i); st m (dst + of_nat i) v }) = mov 1 m (dst + of_nat i) (src + of_nat i)" for m i
  proof -
    have "unat (q - d) < 1 \<longleftrightarrow> q = d" for q d :: ptr by (simp add: unat_eq_zero)
    then show ?thesis by (auto simp: mov_def st_def fun_eq_iff split: option.split Option.bind_split)
  qed
  moreover have "unat n < 2 ^ 64" by simp
  ultimately show ?thesis
    using mov_loop [of dst src 0 1 "unat n" m] assms by (simp add: cl_memmove_def)
qed

lemma cl_memcpy_ok:
  assumes "dst \<noteq> NULL" and "src \<noteq> NULL" and "forward_ok dst src (unat n)" and "mapped m src (unat n)" and "mapped m dst (unat n)"
  shows "cl_memcpy m dst src n = Some (overlay m dst src (unat n))"
proof -
  define u where "u = n AND 7"
  define a where "a = (if u AND 4 \<noteq> 0 then 4 else 0 :: nat)"
  define b where "b = a + (if u AND 2 \<noteq> 0 then 2 else 0)"
  have c: "b + (if u AND 1 \<noteq> 0 then 1 else 0) = unat u" unfolding a_def b_def u_def using and7(2) [of n] by simp
  have u: "unat u = unat n mod 8" unfolding u_def by (rule and7(1))
  then have le: "unat u \<le> unat n" "b \<le> unat n" "a \<le> unat n" using c by (auto simp: a_def b_def)
  have n: "unat n < 2 ^ 64" by simp
  note mi = mov_if [OF assms(3-5) n]
  have al: "unat (n - u) = unat n - unat n mod 8" using le(1) u by (simp add: unat_sub word_le_nat_alt)
  then have alig: "IsAddressAligned (n - u) 8"
  proof -
    have "unat ((n - u) AND 7) = 0" unfolding and7(1) al by (simp add: minus_mod_eq_mult_div)
    then show ?thesis by (simp add: IsAddressAligned_def unat_eq_zero)
  qed
  have d8: "unat ((n - u) div 8) = unat n div 8" by (simp add: unat_div al minus_mod_eq_mult_div)
  have nn: "unat u + 8 * (unat n div 8) = unat n" using u by simp
  have loop: "for_upto (unat ((n - u) div 8)) (\<lambda>i m. mov 8 m (dst + u + of_nat (8 * i)) (src + u + of_nat (8 * i))) (overlay m dst src (unat u))
      = Some (overlay m dst src (unat n))"
    using mov_loop [of dst src "unat u" 8 "unat n div 8" m] assms(3-5) n unfolding nn d8 by simp
  have z: "n - u = 0 \<Longrightarrow> unat u = unat n" by (metis eq_iff_diff_eq_0)
  have s1: "(if u AND 4 \<noteq> 0 then do { m \<leftarrow> mov 4 m dst src; Some (m, dst + 4, src + 4) } else Some (m, dst, src))
      = Some (overlay m dst src a, dst + of_nat a, src + of_nat a)"
    using mi [of 0 "u AND 4 \<noteq> 0" 4] le(3) by (cases "u AND 4 = 0") (simp_all add: a_def)
  have s2: "(if u AND 2 \<noteq> 0 then do { m \<leftarrow> mov 2 (overlay m dst src a) (dst + of_nat a) (src + of_nat a);
        Some (m, dst + of_nat a + 2, src + of_nat a + 2) } else Some (overlay m dst src a, dst + of_nat a, src + of_nat a))
      = Some (overlay m dst src b, dst + of_nat b, src + of_nat b)"
    using mi [of a "u AND 2 \<noteq> 0" 2] le(2) by (cases "u AND 2 = 0") (simp_all add: b_def)
  have s3: "(if u AND 1 \<noteq> 0 then do { m \<leftarrow> mov 1 (overlay m dst src b) (dst + of_nat b) (src + of_nat b);
        Some (m, dst + of_nat b + 1, src + of_nat b + 1) } else Some (overlay m dst src b, dst + of_nat b, src + of_nat b))
      = Some (overlay m dst src (unat u), dst + u, src + u)"
    using mi [of b "u AND 1 \<noteq> 0" 1] le(1) unfolding c by (cases "u AND 1 = 0") simp_all
  have "(if 0 \<noteq> n - u then do { ASSERT (IsAddressAligned (n - u) 8);
        for_upto (unat ((n - u) div 8)) (\<lambda>i m. mov 8 m (dst + u + of_nat (8 * i)) (src + u + of_nat (8 * i))) (overlay m dst src (unat u)) }
      else Some (overlay m dst src (unat u))) = Some (overlay m dst src (unat n))"
    unfolding loop using alig z by auto
  then show ?thesis
    unfolding cl_memcpy_def Let_def u_def [symmetric] using assms(1,2)
    by (simp only: s1 s2 s3 bind.bind_lunit split if_False not_False_eq_True eq_commute [of NULL] simp_thms)
qed

lemma cl_memset_ok:
  assumes "p \<noteq> NULL" and "mapped m p (unat n)"
  shows "cl_memset m p v n = Some (\<lambda>q. if q \<in> region p (unat n) then Some v else m q)"
proof -
  have n: "unat n < 2 ^ 64" using unat_DWORD_less [of n] by (simp del: unat_DWORD_less)
  have "\<exists>s'. for_upto (unat n) (\<lambda>i m. st m (p + of_nat i) v) m = Some s'
    \<and> s' = (\<lambda>q. if q \<in> region p (unat n) then Some v else m q)"
  proof (rule for_upto_rule)
    show "m = (\<lambda>q. if q \<in> region p 0 then Some v else m q)" by (simp add: region_def)
  next
    fix i s assume i: "i < unat n" and s: "s = (\<lambda>q. if q \<in> region p i then Some v else m q)"
    have "unat (q - p) < Suc i \<longleftrightarrow> unat (q - p) < i \<or> q = p + of_nat i" for q
    proof -
      have "unat (q - p) = i \<longleftrightarrow> q - p = of_nat i" using i n by (metis unat_of_nat_QWORD less_trans word_unat_eq_iff)
      then show ?thesis by (auto simp: less_Suc_eq algebra_simps)
    qed
    then have "s(p + of_nat i \<mapsto> v) = (\<lambda>q. if q \<in> region p (Suc i) then Some v else m q)"
      by (auto simp: s region_def fun_eq_iff)
    moreover have "s (p + of_nat i) \<noteq> None" using mapped_nth [OF assms(2) i] n s by auto
    ultimately show "\<exists>s'. st s (p + of_nat i) v = Some s' \<and> s' = (\<lambda>q. if q \<in> region p (Suc i) then Some v else m q)"
      by (simp add: st_def)
  qed
  with assms(1) show ?thesis by (simp add: cl_memset_def)
qed

section \<open>Comparing\<close>

primrec ld_bytes :: "mem \<Rightarrow> ptr \<Rightarrow> nat \<Rightarrow> BYTE list option" where
  "ld_bytes m p 0 = Some []"
| "ld_bytes m p (Suc n) = do { bs \<leftarrow> ld_bytes m p n; b \<leftarrow> m (p + of_nat n); Some (bs @ [b]) }"

text \<open>The number that a sequence of bytes represents in little endian order.\<close>

primrec le_value :: "BYTE list \<Rightarrow> nat" where
  "le_value [] = 0"
| "le_value (b # bs) = unat b + 256 * le_value bs"

lemma ld_bytes_length: "ld_bytes m p n = Some bs \<Longrightarrow> length bs = n"
  by (induction n arbitrary: bs) (auto split: Option.bind_splits)

lemma ld_bytes_nth: "ld_bytes m p n = Some bs \<Longrightarrow> i < n \<Longrightarrow> m (p + of_nat i) = Some (bs ! i)"
  by (induction n arbitrary: bs)
    (auto split: Option.bind_splits simp: nth_append less_Suc_eq dest: ld_bytes_length)

lemma ld_bytes_mapped: "mapped m p n \<Longrightarrow> n \<le> 2 ^ 64 \<Longrightarrow> \<exists>bs. ld_bytes m p n = Some bs"
proof (induction n)
  case (Suc n)
  then have "mapped m p n" by (auto simp: mapped_def region_def)
  with Suc mapped_nth [OF Suc.prems(1), of n] show ?case by auto
qed simp

lemma le_value_snoc: "le_value (bs @ [b]) = le_value bs + 256 ^ length bs * unat b"
  by (induction bs) (auto simp: algebra_simps)

lemma unat_BYTE_less [simp]: "unat (b::BYTE) < 256"
  using unsigned_less [of b] by simp

lemma le_value_less: "le_value bs < 256 ^ length bs"
proof (induction bs)
  case (Cons b bs)
  then have "le_value bs + 1 \<le> 256 ^ length bs" by simp
  then have "256 * le_value bs + 256 \<le> 256 * 256 ^ length bs" by linarith
  with unat_BYTE_less [of b] show ?case by (simp del: unat_BYTE_less)
qed simp

lemma le_value_inj: "length as = length bs \<Longrightarrow> le_value as = le_value bs \<Longrightarrow> as = bs"
proof (induction as bs rule: list_induct2)
  case (Cons a as b bs)
  have "(unat a + 256 * le_value as) mod 256 = (unat b + 256 * le_value bs) mod 256" using Cons.prems by simp
  then have "unat a = unat b" using unat_BYTE_less [of a] unat_BYTE_less [of b] by (simp del: unat_BYTE_less)
  moreover from this have "le_value as = le_value bs" using Cons.prems by simp
  ultimately show ?case using Cons by (simp add: word_unat_eq_iff)
qed simp

text \<open>Comparing from the last byte down is comparing the little endian numbers.\<close>

lemma cl_rmemcmp_loop_ok:
  assumes "ld_bytes m p n = Some as" and "ld_bytes m q n = Some bs"
  shows "\<exists>r. cl_rmemcmp_loop n m p q = Some r \<and> -255 \<le> r \<and> r \<le> 255
    \<and> (r = 0 \<longleftrightarrow> as = bs) \<and> (r < 0 \<longleftrightarrow> le_value as < le_value bs)"
  using assms
proof (induction n arbitrary: as bs)
  case (Suc n)
  then obtain as' a bs' b where *: "ld_bytes m p n = Some as'" "m (p + of_nat n) = Some a" "as = as' @ [a]"
    "ld_bytes m q n = Some bs'" "m (q + of_nat n) = Some b" "bs = bs' @ [b]"
    by (auto split: Option.bind_splits)
  have len: "length as' = n" "length bs' = n" using * by (auto dest: ld_bytes_length)
  show ?case
  proof (cases "a = b")
    case True
    with Suc.IH [OF *(1,4)] * len show ?thesis by (auto simp: le_value_snoc)
  next
    case False
    have lt: "le_value xs + 256 ^ n * x < le_value ys + 256 ^ n * y" if "length xs = n" "x < y" for xs ys and x y :: nat
    proof -
      have "256 ^ n * (x + 1) \<le> 256 ^ n * y" using that(2) by (intro mult_le_mono2) simp
      with le_value_less [of xs] that(1) show ?thesis by simp
    qed
    have ne: "unat a \<noteq> unat b" using False by (simp add: word_unat_eq_iff)
    have "le_value as < le_value bs \<longleftrightarrow> unat a < unat b"
      using lt [OF len(1), of "unat a" "unat b" bs'] lt [OF len(2), of "unat b" "unat a" as'] ne *(3,6) len
      by (auto simp: le_value_snoc linorder_neq_iff)
    then have "r < 0 \<longleftrightarrow> le_value as < le_value bs" "r = 0 \<longleftrightarrow> as = bs" "-255 \<le> r" "r \<le> 255"
      if "r = int (unat a) - int (unat b)" for r
      using that ne False *(3,6) len unat_BYTE_less [of a] unat_BYTE_less [of b] by (auto simp del: unat_BYTE_less of_nat_unat)
    then show ?thesis using * False by simp
  qed
qed simp

lemma cl_rmemcmp_ok:
  assumes "p \<noteq> NULL" and "q \<noteq> NULL" and "n \<noteq> 0" and "ld_bytes m p (unat n) = Some as" and "ld_bytes m q (unat n) = Some bs"
  shows "\<exists>r. cl_rmemcmp m p q n = Some r \<and> -255 \<le> r \<and> r \<le> 255
    \<and> (r = 0 \<longleftrightarrow> as = bs) \<and> (r < 0 \<longleftrightarrow> le_value as < le_value bs)"
proof -
  have "unat n \<noteq> 0" using assms(3) by (simp add: unat_eq_zero)
  then have "Suc (unat (n - 1)) = unat n" using unat_minus_one [OF assms(3)] by simp
  with cl_rmemcmp_loop_ok [OF assms(4,5)] assms(1,2) show ?thesis by (simp add: cl_rmemcmp_def del: cl_rmemcmp_loop.simps)
qed

lemma cl_memcmp_loop_ok:
  assumes "\<forall>j < n. m (p + of_nat (i + j)) = Some (as ! (i + j)) \<and> m (q + of_nat (i + j)) = Some (bs ! (i + j))"
    and "length as = i + n" and "length bs = i + n" and "take i as = take i bs"
  shows "\<exists>r. cl_memcmp_loop n m p q i = Some r \<and> (r = 0 \<longleftrightarrow> as = bs)
    \<and> (\<forall>k < i + n. take k as = take k bs \<and> as ! k \<noteq> bs ! k \<longrightarrow> r = int (unat (as ! k)) - int (unat (bs ! k)))"
  using assms
proof (induction n arbitrary: i)
  case 0
  then have "as = bs" by simp
  then show ?case by simp
next
  case (Suc n)
  have ab: "m (p + of_nat i) = Some (as ! i)" "m (q + of_nat i) = Some (bs ! i)"
    using Suc.prems(1) [rule_format, of 0] by simp_all
  show ?case
  proof (cases "as ! i = bs ! i")
    case True
    have "take (Suc i) as = take (Suc i) bs"
      using Suc.prems(2-4) True by (simp add: take_Suc_conv_app_nth)
    moreover have "\<forall>j < n. m (p + of_nat (Suc i + j)) = Some (as ! (Suc i + j)) \<and> m (q + of_nat (Suc i + j)) = Some (bs ! (Suc i + j))"
      using Suc.prems(1) by (metis Suc_less_eq add_Suc_shift)
    ultimately show ?thesis
      using Suc.IH [of "Suc i"] Suc.prems(2,3) True ab by simp
  next
    case False
    have "r = int (unat (as ! i)) - int (unat (bs ! i)) \<Longrightarrow> take k as = take k bs \<and> as ! k \<noteq> bs ! k
        \<Longrightarrow> r = int (unat (as ! k)) - int (unat (bs ! k))" if "k < i + Suc n" for k r
    proof -
      assume r: "r = int (unat (as ! i)) - int (unat (bs ! i))" and k: "take k as = take k bs \<and> as ! k \<noteq> bs ! k"
      have "\<not> k < i" using k Suc.prems(4) by (metis nth_take)
      moreover have "\<not> i < k" using k False by (metis nth_take)
      ultimately show ?thesis using r by (metis linorder_neqE_nat)
    qed
    moreover have "as \<noteq> bs" "int (unat (as ! i)) - int (unat (bs ! i)) \<noteq> 0"
      using False by (auto simp: word_unat_eq_iff simp del: of_nat_unat)
    ultimately show ?thesis using False ab by simp
  qed
qed

lemma cl_memcmp_ok:
  assumes "p \<noteq> NULL" and "q \<noteq> NULL" and "ld_bytes m p (unat n) = Some as" and "ld_bytes m q (unat n) = Some bs"
  shows "\<exists>r. cl_memcmp m p q n = Some r \<and> (r = 0 \<longleftrightarrow> as = bs)
    \<and> (\<forall>k < unat n. take k as = take k bs \<and> as ! k \<noteq> bs ! k \<longrightarrow> r = int (unat (as ! k)) - int (unat (bs ! k)))"
proof -
  have "\<forall>j < unat n. m (p + of_nat (0 + j)) = Some (as ! (0 + j)) \<and> m (q + of_nat (0 + j)) = Some (bs ! (0 + j))"
    using ld_bytes_nth [OF assms(3)] ld_bytes_nth [OF assms(4)] by simp
  from cl_memcmp_loop_ok [OF this] assms show ?thesis by (simp add: cl_memcmp_def ld_bytes_length)
qed

section \<open>Properties\<close>

definition ex_mem :: mem where
  "ex_mem = [0x10 \<mapsto> 1, 0x11 \<mapsto> 2, 0x12 \<mapsto> 3, 0x13 \<mapsto> 4, 0x14 \<mapsto> 5]"

lemma ex_mem_mapped: "mapped ex_mem 0x10 3" "mapped ex_mem 0x12 3" "mapped ex_mem 0x10 2" "mapped ex_mem 0x11 2"
  by (rule mappedI, auto simp: ex_mem_def less_Suc_eq numeral_3_eq_3 numeral_2_eq_2 split: if_splits)+

lemma ld_bytes_2: "ld_bytes m p 2 = do { a \<leftarrow> m p; b \<leftarrow> m (p + 1); Some [a, b] }"
  by (simp add: numeral_2_eq_2 split: Option.bind_split)

lemma for_upto_2: "for_upto 2 f s = do { s \<leftarrow> f 0 s; f 1 s }"
  by (simp add: numeral_2_eq_2)

text \<open>
  C12: \<open>cl_memcpy\<close> (4, 2 and 1 byte moves followed by quad words) and \<open>cl_memmove\<close> (byte by byte) have the
  same effect and it is the documented one: the destination holds the old contents of the source and no
  other byte changes, whenever the regions are disjoint or the destination does not start inside the
  source.
\<close>

theorem memcpy_memmove_spec:
  assumes "dst \<noteq> NULL" and "src \<noteq> NULL" and "forward_ok dst src (unat n)" and "mapped m src (unat n)" and "mapped m dst (unat n)"
  shows "\<exists>m'. cl_memcpy m dst src n = Some m' \<and> cl_memmove m dst src n = Some m'
    \<and> ld_bytes m' dst (unat n) = ld_bytes m src (unat n) \<and> (\<forall>q. q \<notin> region dst (unat n) \<longrightarrow> m' q = m q)"
proof -
  let ?m = "overlay m dst src (unat n)"
  have "ld_bytes ?m dst k = ld_bytes m src k" if "k \<le> unat n" for k
    using that
  proof (induction k)
    case (Suc k)
    have "k < 2 ^ 64" using Suc.prems unat_QWORD_less [of n] by (simp del: unat_QWORD_less)
    with Suc show ?case by (simp add: overlay_def)
  qed simp
  with cl_memcpy_ok [OF assms] cl_memmove_ok [OF assms] show ?thesis
    by (auto simp: overlay_def region_def)
qed

theorem memcpy_memmove_spec_witness:
  "\<exists>m'. cl_memcpy ex_mem 0x10 0x12 3 = Some m' \<and> cl_memmove ex_mem 0x10 0x12 3 = Some m' \<and> m' 0x13 = Some 4"
  using memcpy_memmove_spec [of "0x10" "0x12" 3 ex_mem] ex_mem_mapped
  by (auto simp: forward_ok_def region_def ex_mem_def)

text \<open>
  \<open>cl_memmove\<close> always copies upwards: when the destination starts inside the source it overwrites
  bytes before it reads them, and the destination does not receive the source although the header
  documents it for overlapping regions.
\<close>

theorem memmove_overlap:
  "\<exists>m m' dst src n. mapped m dst (unat n) \<and> mapped m src (unat n) \<and> cl_memmove m dst src n = Some m'
    \<and> ld_bytes m' dst (unat n) \<noteq> ld_bytes m src (unat n)"
proof -
  define m' :: mem where "m' = ex_mem(0x11 \<mapsto> 1, 0x12 \<mapsto> 1)"
  have "mapped ex_mem 0x10 (unat (2::QWORD))" "mapped ex_mem 0x11 (unat (2::QWORD))"
    using ex_mem_mapped by simp_all
  moreover have "cl_memmove ex_mem 0x11 0x10 2 = Some m'"
    by (simp add: cl_memmove_def for_upto_2 st_def ex_mem_def m'_def)
  moreover have "ld_bytes m' 0x11 (unat (2::QWORD)) \<noteq> ld_bytes ex_mem 0x10 (unat (2::QWORD))"
    by (simp add: ld_bytes_2 ex_mem_def m'_def)
  ultimately show ?thesis by blast
qed

text \<open>
  \<open>cl_rmemcmp\<close> compares two non-empty regions as little endian numbers: zero exactly for equal bytes,
  negative exactly when the first number is smaller. It is the order the hash table keeps in a bucket.
\<close>

theorem rmemcmp_compares_numbers:
  assumes "p \<noteq> NULL" and "q \<noteq> NULL" and "n \<noteq> 0" and "ld_bytes m p (unat n) = Some as" and "ld_bytes m q (unat n) = Some bs"
  shows "\<exists>r. cl_rmemcmp m p q n = Some r \<and> (r = 0 \<longleftrightarrow> as = bs) \<and> (r < 0 \<longleftrightarrow> le_value as < le_value bs)
    \<and> (r > 0 \<longleftrightarrow> le_value as > le_value bs)"
proof -
  from cl_rmemcmp_ok [OF assms] obtain r where r: "cl_rmemcmp m p q n = Some r" "r = 0 \<longleftrightarrow> as = bs"
    "r < 0 \<longleftrightarrow> le_value as < le_value bs" by blast
  have "as = bs \<longleftrightarrow> le_value as = le_value bs"
    using le_value_inj [of as bs] assms(4,5) by (auto dest!: ld_bytes_length)
  with r show ?thesis by auto
qed

theorem rmemcmp_compares_numbers_witness:
  "\<exists>r. cl_rmemcmp ex_mem 0x10 0x12 2 = Some r \<and> (r < 0 \<longleftrightarrow> le_value [1, 2] < le_value [3, 4])"
  using rmemcmp_compares_numbers [of "0x10" "0x12" 2 ex_mem "[1, 2]" "[3, 4]"]
  by (auto simp: ld_bytes_2 ex_mem_def)

end
