(* ===== verification/HashTable.thy ===== *)
theory HashTable
  imports Lists ClMemory
begin

text \<open>
  The hash table of \<open>CommonLib/src/hash_table.c\<close>: an array of list heads, one per hash value, whose
  lists are kept sorted by key. The entries live in the memory of list entries of the theory \<open>Lists\<close>
  (an entry or a list head occupies 16 bytes), the keys in the byte memory of \<open>ClMemory\<close>, at a fixed
  offset from their entry. The abstraction is a finite map from keys (sequences of bytes) to entries.
\<close>

section \<open>Data and operations\<close>

type_synonym hash_function = "mem \<Rightarrow> ptr \<Rightarrow> DWORD \<Rightarrow> DWORD \<Rightarrow> QWORD option"

record HASH_TABLE =
  MaxKeys :: DWORD
  KeySize :: DWORD
  NumberOfElements :: DWORD
  OffsetToKey :: "32 word"
  HashFunc :: hash_function
  TableData :: ptr

record HASH_ELEM_SEARCH_CTX =
  PlaceholderEntry :: ptr
  Result :: "32 word"

text \<open>\<^verbatim>\<open>&HashTable->TableData->Entries[i]\<close>\<close>

definition Entries :: "HASH_TABLE \<Rightarrow> QWORD \<Rightarrow> ptr" where
  "Entries HashTable i = TableData HashTable + i * 16"

text \<open>The callers have asserted that the element is not NULL.\<close>

definition HashTableObtainKeyAddress :: "HASH_TABLE \<Rightarrow> ptr \<Rightarrow> ptr" where
  "HashTableObtainKeyAddress HashTable Element = Element + scast (OffsetToKey HashTable)"

definition HashTableSearchElem :: "mem \<Rightarrow> HASH_TABLE \<Rightarrow> HASH_ELEM_SEARCH_CTX compare" where
  "HashTableSearchElem m HashTable FirstElem SecondElem Ctx = do {
     ASSERT (FirstElem \<noteq> NULL);
     ASSERT (SecondElem \<noteq> NULL);
     let Ctx = Ctx\<lparr>PlaceholderEntry := FirstElem\<rparr>;
     r \<leftarrow> cl_rmemcmp m (HashTableObtainKeyAddress HashTable FirstElem) SecondElem (KeySize HashTable);
     let Ctx = Ctx\<lparr>Result := word_of_int r\<rparr>;
     Some (scast (Result Ctx), Ctx)
   }"

definition HashTableSearchKeyInBucket :: "mem \<Rightarrow> lheap \<Rightarrow> HASH_TABLE \<Rightarrow> ptr \<Rightarrow> ptr \<Rightarrow> (bool \<times> ptr) option" where
  "HashTableSearchKeyInBucket m h HashTable Bucket Key = do {
     ASSERT (Bucket \<noteq> NULL);
     ASSERT (Key \<noteq> NULL);
     (pResult, searchCtx) \<leftarrow> ListSearchForElement h Bucket Key True (Some (HashTableSearchElem m HashTable))
       \<lparr>PlaceholderEntry = Bucket, Result = 0\<rparr>;
     ASSERT (pResult \<noteq> NULL \<longrightarrow> pResult = PlaceholderEntry searchCtx);
     ASSERT (pResult \<noteq> NULL \<longrightarrow> Result searchCtx = 0);
     Placeholder \<leftarrow> (if sint (Result searchCtx) > 0 then rd_Blink h (PlaceholderEntry searchCtx)
                     else Some (PlaceholderEntry searchCtx));
     Some (pResult \<noteq> NULL, Placeholder)
   }"

definition HashTablePreinit :: "DWORD \<Rightarrow> DWORD \<Rightarrow> (DWORD \<times> HASH_TABLE) option" where
  "HashTablePreinit maxKeys keySize = do {
     ASSERT (0 < maxKeys \<and> maxKeys < MAX_DWORD div 16);
     let HashTable = \<lparr>MaxKeys = maxKeys, KeySize = keySize, NumberOfElements = 0, OffsetToKey = 0,
                      HashFunc = \<lambda>_ _ _ _. None, TableData = NULL\<rparr>;
     Some (MaxKeys HashTable * 16, HashTable)
   }"

definition HashTableInit :: "lheap \<Rightarrow> HASH_TABLE \<Rightarrow> ptr \<Rightarrow> hash_function \<Rightarrow> 32 word \<Rightarrow> (lheap \<times> HASH_TABLE) option" where
  "HashTableInit h HashTable Data HashFunction Offset = do {
     ASSERT (Data \<noteq> NULL);
     let HashTable = HashTable\<lparr>TableData := Data, HashFunc := HashFunction, OffsetToKey := Offset\<rparr>;
     h \<leftarrow> for_upto (unat (MaxKeys HashTable)) (\<lambda>i h. InitializeListHead h (Entries HashTable (of_nat i))) h;
     Some (h, HashTable)
   }"

definition HashTableSize :: "HASH_TABLE \<Rightarrow> DWORD" where
  "HashTableSize HashTable = NumberOfElements HashTable"

definition HashTableInsert :: "mem \<Rightarrow> lheap \<Rightarrow> HASH_TABLE \<Rightarrow> ptr \<Rightarrow> (ptr \<times> lheap \<times> HASH_TABLE) option" where
  "HashTableInsert m h HashTable Element = do {
     ASSERT (Element \<noteq> NULL);
     let pKey = HashTableObtainKeyAddress HashTable Element;
     hIndex \<leftarrow> HashFunc HashTable m pKey (KeySize HashTable) (MaxKeys HashTable);
     ASSERT (hIndex < ucast (MaxKeys HashTable));
     (bElementAlreadyInHash, pPlaceToInsertInBucket) \<leftarrow>
       HashTableSearchKeyInBucket m h HashTable (Entries HashTable hIndex) pKey;
     h \<leftarrow> InsertHeadList h pPlaceToInsertInBucket Element;
     if bElementAlreadyInHash then do {
       (_, h) \<leftarrow> RemoveEntryList h pPlaceToInsertInBucket;
       Some (pPlaceToInsertInBucket, h, HashTable)
     }
     else Some (NULL, h, HashTable\<lparr>NumberOfElements := NumberOfElements HashTable + 1\<rparr>)
   }"

definition HashTableRemoveEntry :: "lheap \<Rightarrow> HASH_TABLE \<Rightarrow> ptr \<Rightarrow> (lheap \<times> HASH_TABLE) option" where
  "HashTableRemoveEntry h HashTable Element = do {
     ASSERT (Element \<noteq> NULL);
     (_, h) \<leftarrow> RemoveEntryList h Element;
     Some (h, HashTable\<lparr>NumberOfElements := NumberOfElements HashTable - 1\<rparr>)
   }"

definition HashTableLookup :: "mem \<Rightarrow> lheap \<Rightarrow> HASH_TABLE \<Rightarrow> ptr \<Rightarrow> ptr option" where
  "HashTableLookup m h HashTable Key = do {
     ASSERT (Key \<noteq> NULL);
     hIndex \<leftarrow> HashFunc HashTable m Key (KeySize HashTable) (MaxKeys HashTable);
     (bElementInHash, pResult) \<leftarrow> HashTableSearchKeyInBucket m h HashTable (Entries HashTable hIndex) Key;
     Some (if bElementInHash then pResult else NULL)
   }"

definition HashTableRemove :: "mem \<Rightarrow> lheap \<Rightarrow> HASH_TABLE \<Rightarrow> ptr \<Rightarrow> (ptr \<times> lheap \<times> HASH_TABLE) option" where
  "HashTableRemove m h HashTable Key = do {
     ASSERT (Key \<noteq> NULL);
     pHashEntry \<leftarrow> HashTableLookup m h HashTable Key;
     if pHashEntry \<noteq> NULL then do {
       (h, HashTable) \<leftarrow> HashTableRemoveEntry h HashTable pHashEntry;
       Some (pHashEntry, h, HashTable)
     }
     else Some (pHashEntry, h, HashTable)
   }"

text \<open>The iterator refers to the table, which the callers pass along.\<close>

record HASH_ITERATOR =
  KeyIndex :: DWORD
  CurrentKeyIterator :: LIST_ITERATOR

definition HashTableIteratorInit :: "lheap \<Rightarrow> HASH_TABLE \<Rightarrow> HASH_ITERATOR option" where
  "HashTableIteratorInit h HashTable = do {
     it \<leftarrow> ListIteratorInit h (Entries HashTable 0);
     Some \<lparr>KeyIndex = 0, CurrentKeyIterator = it\<rparr>
   }"

partial_function (option) HashTableIteratorNext :: "lheap \<Rightarrow> HASH_TABLE \<Rightarrow> HASH_ITERATOR \<Rightarrow> (ptr \<times> HASH_ITERATOR) option" where
  "HashTableIteratorNext h HashTable HashIterator =
     (if KeyIndex HashIterator < MaxKeys HashTable then do {
        (pResult, it) \<leftarrow> ListIteratorNext h (CurrentKeyIterator HashIterator);
        let HashIterator = HashIterator\<lparr>CurrentKeyIterator := it\<rparr>;
        if pResult \<noteq> NULL then Some (pResult, HashIterator)
        else do {
          let HashIterator = HashIterator\<lparr>KeyIndex := KeyIndex HashIterator + 1\<rparr>;
          it \<leftarrow> ListIteratorInit h (Entries HashTable (ucast (KeyIndex HashIterator)));
          HashTableIteratorNext h HashTable (HashIterator\<lparr>CurrentKeyIterator := it\<rparr>)
        }
      }
      else Some (NULL, HashIterator))"

text \<open>
  \<open>HashTableClear\<close>: the free function, which may be absent, acts on a context and on nothing else the
  table uses.
\<close>

partial_function (option) HashTableClear_loop ::
  "(ptr \<Rightarrow> 'c \<Rightarrow> 'c) option \<Rightarrow> lheap \<Rightarrow> HASH_TABLE \<Rightarrow> HASH_ITERATOR \<Rightarrow> 'c \<Rightarrow> (lheap \<times> HASH_TABLE \<times> 'c) option" where
  "HashTableClear_loop FreeFunction h HashTable it c = do {
     (pEntry, it) \<leftarrow> HashTableIteratorNext h HashTable it;
     if pEntry \<noteq> NULL then do {
       (h, HashTable) \<leftarrow> HashTableRemoveEntry h HashTable pEntry;
       HashTableClear_loop FreeFunction h HashTable it (case FreeFunction of None \<Rightarrow> c | Some f \<Rightarrow> f pEntry c)
     }
     else Some (h, HashTable, c)
   }"

definition HashTableClear ::
  "lheap \<Rightarrow> HASH_TABLE \<Rightarrow> (ptr \<Rightarrow> 'c \<Rightarrow> 'c) option \<Rightarrow> 'c \<Rightarrow> (lheap \<times> HASH_TABLE \<times> 'c) option" where
  "HashTableClear h HashTable FreeFunction FreeContext = do {
     it \<leftarrow> HashTableIteratorInit h HashTable;
     HashTableClear_loop FreeFunction h HashTable it FreeContext
   }"

text \<open>
  The hash functions copy the key into a local QWORD that was cleared: its value is the little endian
  number of the key, and a longer key overruns the local variable.
\<close>

definition local_key_value :: "mem \<Rightarrow> ptr \<Rightarrow> DWORD \<Rightarrow> QWORD option" where
  "local_key_value m Key KeyLength = do {
     bs \<leftarrow> ld_bytes m Key (unat KeyLength);
     ASSERT (length bs \<le> 8);
     Some (of_nat (le_value bs))
   }"

definition HashFuncGenericIncremental :: hash_function where
  "HashFuncGenericIncremental m Key KeyLength maxKeys = do {
     ASSERT (Key \<noteq> NULL);
     ASSERT (ucast KeyLength \<le> MAX_QWORD);
     keyValue \<leftarrow> local_key_value m Key KeyLength;
     Some (keyValue mod ucast maxKeys)
   }"

abbreviation HASH_UNIVERSAL_A :: QWORD where "HASH_UNIVERSAL_A \<equiv> 1701"
abbreviation HASH_UNIVERSAL_B :: QWORD where "HASH_UNIVERSAL_B \<equiv> 59"
abbreviation HASH_UNIVERSAL_P :: QWORD where "HASH_UNIVERSAL_P \<equiv> 10007"

definition HashFuncUniversal :: hash_function where
  "HashFuncUniversal m Key KeyLength maxKeys = do {
     ASSERT (Key \<noteq> NULL);
     ASSERT (ucast KeyLength \<le> MAX_QWORD);
     keyValue \<leftarrow> local_key_value m Key KeyLength;
     let result = keyValue mod HASH_UNIVERSAL_P;
     ASSERT (result < (MAX_QWORD div HASH_UNIVERSAL_A) - HASH_UNIVERSAL_B);
     Some (((HASH_UNIVERSAL_A * result + HASH_UNIVERSAL_B) mod HASH_UNIVERSAL_P) mod ucast maxKeys)
   }"

section \<open>Searching a bucket\<close>

definition key_of :: "mem \<Rightarrow> HASH_TABLE \<Rightarrow> ptr \<Rightarrow> BYTE list" where
  "key_of m t e = the (ld_bytes m (HashTableObtainKeyAddress t e) (unat (KeySize t)))"

text \<open>An entry that the table can hold: it and its key are in memory.\<close>

definition keyed :: "mem \<Rightarrow> HASH_TABLE \<Rightarrow> ptr \<Rightarrow> bool" where
  "keyed m t e = (e \<noteq> NULL \<and> HashTableObtainKeyAddress t e \<noteq> NULL
     \<and> ld_bytes m (HashTableObtainKeyAddress t e) (unat (KeySize t)) \<noteq> None)"

abbreviation kval :: "mem \<Rightarrow> HASH_TABLE \<Rightarrow> ptr \<Rightarrow> nat" where
  "kval m t e \<equiv> le_value (key_of m t e)"

lemma HashTableSearchElem_ok:
  assumes "keyed m t e" and "KeySize t \<noteq> 0" and "k \<noteq> NULL" and "ld_bytes m k (unat (KeySize t)) = Some ks"
  shows "\<exists>r. HashTableSearchElem m t e k c = Some (word_of_int r, \<lparr>PlaceholderEntry = e, Result = word_of_int r\<rparr>)
    \<and> -255 \<le> r \<and> r \<le> 255 \<and> (r = 0 \<longleftrightarrow> key_of m t e = ks) \<and> (r < 0 \<longleftrightarrow> kval m t e < le_value ks)"
proof -
  have "ld_bytes m (HashTableObtainKeyAddress t e) (unat (KeySize t)) = Some (key_of m t e)"
    using assms(1) by (auto simp: keyed_def key_of_def)
  from cl_rmemcmp_ok [OF _ assms(3,2) this assms(4)] assms(1) obtain r
    where r: "cl_rmemcmp m (HashTableObtainKeyAddress t e) k (KeySize t) = Some r" "-255 \<le> r" "r \<le> 255"
      "r = 0 \<longleftrightarrow> key_of m t e = ks" "r < 0 \<longleftrightarrow> kval m t e < le_value ks" by (auto simp: keyed_def)
  have "scast (word_of_int r :: 32 word) = (word_of_int r :: INT64)"
    using r(2,3) by (simp add: scast_eq sint_word_of_int_small)
  with r assms(1,3) show ?thesis by (cases c) (auto simp: HashTableSearchElem_def keyed_def)
qed

lemma small_int_word:
  fixes r :: int
  assumes "-255 \<le> r" and "r \<le> 255"
  shows "(word_of_int r :: INT64) = 0 \<longleftrightarrow> r = 0" "sint (word_of_int r :: INT64) = r" "sint (word_of_int r :: 32 word) = r"
    "(word_of_int r :: 32 word) = 0 \<longleftrightarrow> r = 0"
proof -
  show s: "sint (word_of_int r :: INT64) = r" "sint (word_of_int r :: 32 word) = r"
    using assms by (simp_all add: sint_word_of_int_small)
  show "(word_of_int r :: INT64) = 0 \<longleftrightarrow> r = 0" "(word_of_int r :: 32 word) = 0 \<longleftrightarrow> r = 0"
    using s by (metis signed_0 word_of_int_0)+
qed

text \<open>The entries of a sorted bucket below the key, and the rest.\<close>

definition lower :: "mem \<Rightarrow> HASH_TABLE \<Rightarrow> BYTE list \<Rightarrow> ptr list \<Rightarrow> ptr list" where
  "lower m t ks xs = takeWhile (\<lambda>x. kval m t x < le_value ks) xs"

definition upper :: "mem \<Rightarrow> HASH_TABLE \<Rightarrow> BYTE list \<Rightarrow> ptr list \<Rightarrow> ptr list" where
  "upper m t ks xs = dropWhile (\<lambda>x. kval m t x < le_value ks) xs"

lemma lower_upper: "lower m t ks xs @ upper m t ks xs = xs"
  by (simp add: lower_def upper_def)

lemma search_list_bucket:
  assumes "\<forall>x \<in> set xs. keyed m t x" and "KeySize t \<noteq> 0" and "k \<noteq> NULL" and "ld_bytes m k (unat (KeySize t)) = Some ks"
    and "sint (Result c) \<le> 0"
  shows "\<exists>c'. search_list True (\<lambda>x. HashTableSearchElem m t x k) xs c =
      Some (if upper m t ks xs \<noteq> [] \<and> key_of m t (hd (upper m t ks xs)) = ks then hd (upper m t ks xs) else NULL, c')
    \<and> PlaceholderEntry c' = (if upper m t ks xs = [] then last (PlaceholderEntry c # xs) else hd (upper m t ks xs))
    \<and> (if upper m t ks xs \<noteq> [] \<and> key_of m t (hd (upper m t ks xs)) = ks then Result c' = 0
       else sint (Result c') > 0 \<longleftrightarrow> upper m t ks xs \<noteq> [])"
  using assms(1,5)
proof (induction xs arbitrary: c)
  case Nil
  then show ?case by (simp add: upper_def)
next
  case (Cons x xs)
  from HashTableSearchElem_ok [of m t x k ks c] Cons.prems(1) assms(2-4) obtain r
    where r: "HashTableSearchElem m t x k c = Some (word_of_int r, \<lparr>PlaceholderEntry = x, Result = word_of_int r\<rparr>)"
      "-255 \<le> r" "r \<le> 255" "r = 0 \<longleftrightarrow> key_of m t x = ks" "r < 0 \<longleftrightarrow> kval m t x < le_value ks" by auto
  note w = small_int_word [OF r(2,3)]
  show ?case
  proof (cases "r < 0")
    case True
    with Cons.IH [of "\<lparr>PlaceholderEntry = x, Result = word_of_int r\<rparr>"] Cons.prems r w show ?thesis
      by (auto simp: upper_def)
  next
    case False
    with r w show ?thesis by (auto simp: upper_def)
  qed
qed

lemma SearchKeyInBucket_ok:
  assumes "is_list h B xs" and "B \<noteq> NULL" and "\<forall>x \<in> set xs. keyed m t x" and "KeySize t \<noteq> 0" and "k \<noteq> NULL"
    and "ld_bytes m k (unat (KeySize t)) = Some ks"
  shows "HashTableSearchKeyInBucket m h t B k =
    (if upper m t ks xs \<noteq> [] \<and> key_of m t (hd (upper m t ks xs)) = ks
     then Some (True, hd (upper m t ks xs)) else Some (False, last (B # lower m t ks xs)))"
proof -
  let ?c = "\<lparr>PlaceholderEntry = B, Result = 0\<rparr>"
  from search_list_bucket [OF assms(3-6), of ?c] obtain c'
    where c': "search_list True (\<lambda>x. HashTableSearchElem m t x k) xs ?c =
      Some (if upper m t ks xs \<noteq> [] \<and> key_of m t (hd (upper m t ks xs)) = ks then hd (upper m t ks xs) else NULL, c')"
      "PlaceholderEntry c' = (if upper m t ks xs = [] then last (B # xs) else hd (upper m t ks xs))"
      "if upper m t ks xs \<noteq> [] \<and> key_of m t (hd (upper m t ks xs)) = ks then Result c' = 0
       else sint (Result c') > 0 \<longleftrightarrow> upper m t ks xs \<noteq> []" by auto
  have s: "ListSearchForElement h B k True (Some (HashTableSearchElem m t)) ?c = search_list True (\<lambda>x. HashTableSearchElem m t x k) xs ?c"
    using ListSearchForElement_ok [OF assms(1)] assms(2,5) by metis
  show ?thesis
  proof (cases "upper m t ks xs")
    case Nil
    then have "lower m t ks xs = xs" using lower_upper [of m t ks xs] by simp
    with Nil c' s assms(2,5) show ?thesis by (auto simp: HashTableSearchKeyInBucket_def)
  next
    case (Cons v vs)
    have xs: "xs = lower m t ks xs @ v # vs" using lower_upper [of m t ks xs] Cons by simp
    then have "v \<noteq> NULL" using assms(3) by (metis in_set_conv_decomp keyed_def)
    moreover have "rd_Blink h v = Some (last (B # lower m t ks xs))"
      using assms(1) xs lseg_last by (metis is_list_def lseg_append)
    ultimately show ?thesis using Cons c' s assms(2,5) by (auto simp: HashTableSearchKeyInBucket_def)
  qed
qed

section \<open>Invariant\<close>

abbreviation head :: "HASH_TABLE \<Rightarrow> nat \<Rightarrow> ptr" where
  "head t i \<equiv> Entries t (of_nat i)"

text \<open>What the table needs of a hash function: it depends on the bytes of the key only.\<close>

definition hash_ok :: "mem \<Rightarrow> HASH_TABLE \<Rightarrow> (BYTE list \<Rightarrow> nat) \<Rightarrow> bool" where
  "hash_ok m t f = (\<forall>p ks. p \<noteq> NULL \<and> ld_bytes m p (unat (KeySize t)) = Some ks \<longrightarrow>
     HashFunc t m p (KeySize t) (MaxKeys t) = Some (of_nat (f ks)) \<and> f ks < unat (MaxKeys t))"

text \<open>The bucket \<open>i\<close> holds the entries \<open>xs\<close>, in increasing order of their keys.\<close>

definition bucket_ok :: "mem \<Rightarrow> (BYTE list \<Rightarrow> nat) \<Rightarrow> lheap \<Rightarrow> HASH_TABLE \<Rightarrow> nat \<Rightarrow> ptr list \<Rightarrow> bool" where
  "bucket_ok m f h t i xs = (is_list h (head t i) xs \<and> head t i \<noteq> NULL
     \<and> (\<forall>e \<in> set xs. keyed m t e \<and> f (key_of m t e) = i) \<and> sorted_wrt (<) (map (kval m t) xs))"

definition ht_inv :: "mem \<Rightarrow> (BYTE list \<Rightarrow> nat) \<Rightarrow> lheap \<Rightarrow> HASH_TABLE \<Rightarrow> (nat \<Rightarrow> ptr list) \<Rightarrow> bool" where
  "ht_inv m f h t B = (KeySize t \<noteq> 0 \<and> hash_ok m t f
     \<and> (\<forall>i < unat (MaxKeys t). bucket_ok m f h t i (B i))
     \<and> (\<forall>i < unat (MaxKeys t). \<forall>j < unat (MaxKeys t). i \<noteq> j \<longrightarrow> set (head t i # B i) \<inter> set (head t j # B j) = {})
     \<and> NumberOfElements t = of_nat (\<Sum>i < unat (MaxKeys t). length (B i)))"

lemma NumberOfElements_irrelevant [simp]:
  "Entries (t\<lparr>NumberOfElements := n\<rparr>) = Entries t" "key_of m (t\<lparr>NumberOfElements := n\<rparr>) = key_of m t"
  "keyed m (t\<lparr>NumberOfElements := n\<rparr>) = keyed m t" "hash_ok m (t\<lparr>NumberOfElements := n\<rparr>) = hash_ok m t"
  "bucket_ok m f h (t\<lparr>NumberOfElements := n\<rparr>) = bucket_ok m f h t"
  by (auto simp: Entries_def key_of_def keyed_def hash_ok_def bucket_ok_def HashTableObtainKeyAddress_def fun_eq_iff)

text \<open>Changing one bucket, with at most the entry \<open>e\<close> new in it, keeps the others.\<close>

lemma ht_inv_bucket:
  assumes inv: "ht_inv m f h t B" and i: "i < unat (MaxKeys t)" and ok: "bucket_ok m f h' t i ys"
    and ch: "only_changes (insert e (set (head t i # B i))) h h'" and ys: "set ys \<subseteq> insert e (set (B i))"
    and e: "\<forall>j < unat (MaxKeys t). j \<noteq> i \<longrightarrow> e \<notin> set (head t j # B j)"
    and n: "n + of_nat (length (B i)) = NumberOfElements t + of_nat (length ys)"
  shows "ht_inv m f h' (t\<lparr>NumberOfElements := n\<rparr>) (B(i := ys))"
proof -
  have dis: "\<forall>j < unat (MaxKeys t). i \<noteq> j \<longrightarrow> set (head t i # B i) \<inter> set (head t j # B j) = {}"
    using inv i by (auto simp: ht_inv_def)
  have "bucket_ok m f h' t j ((B(i := ys)) j)" if j: "j < unat (MaxKeys t)" for j
  proof (cases "j = i")
    case False
    with dis e j have "insert e (set (head t i # B i)) \<inter> set (head t j # B j) = {}" by auto
    with only_changes_is_list [OF ch] inv j False show ?thesis by (auto simp: ht_inv_def bucket_ok_def)
  qed (use ok in simp)
  moreover have "set (head t j # (B(i := ys)) j) \<inter> set (head t k # (B(i := ys)) k) = {}"
    if "j < unat (MaxKeys t)" "k < unat (MaxKeys t)" "j \<noteq> k" for j k
  proof -
    have "set (head t j # B j) \<inter> set (head t k # B k) = {}" using inv that by (auto simp: ht_inv_def)
    moreover have "set (head t i # ys) \<subseteq> insert e (set (head t i # B i))" using ys by auto
    ultimately show ?thesis using e that dis by (auto simp: fun_upd_def split: if_splits)
  qed
  moreover have "n = of_nat (\<Sum>j < unat (MaxKeys t). length ((B(i := ys)) j))"
  proof -
    let ?N = "{..<unat (MaxKeys t)}"
    have "(\<Sum>j \<in> ?N. length ((B(i := ys)) j)) = length ys + (\<Sum>j \<in> ?N - {i}. length (B j))"
      using i by (subst sum.remove [of _ i]) (auto intro!: sum.cong)
    moreover have "(\<Sum>j \<in> ?N. length (B j)) = length (B i) + (\<Sum>j \<in> ?N - {i}. length (B j))"
      using i by (subst sum.remove [of _ i]) auto
    moreover have "NumberOfElements t = of_nat (\<Sum>j \<in> ?N. length (B j))" using inv by (simp add: ht_inv_def)
    ultimately show ?thesis using n by (simp add: algebra_simps)
  qed
  ultimately show ?thesis using inv by (auto simp: ht_inv_def)
qed

text \<open>In a sorted bucket an entry with the searched key is the first one that is not below it.\<close>

lemma bucket_key_unique:
  assumes "bucket_ok m f h t i xs" and "x \<in> set xs" and "key_of m t x = ks"
  shows "upper m t ks xs \<noteq> [] \<and> hd (upper m t ks xs) = x"
proof -
  have "x \<notin> set (lower m t ks xs)"
    using assms(3) set_takeWhileD [of x "\<lambda>x. kval m t x < le_value ks" xs] by (auto simp: lower_def)
  with assms(2) have x: "x \<in> set (upper m t ks xs)" using lower_upper [of m t ks xs] by (metis Un_iff set_append)
  then obtain v vs where v: "upper m t ks xs = v # vs" by (cases "upper m t ks xs") auto
  have "sorted_wrt (<) (map (kval m t) (upper m t ks xs))"
    using assms(1) lower_upper [of m t ks xs] by (metis bucket_ok_def map_append sorted_wrt_append)
  moreover have "\<not> kval m t v < le_value ks" using v by (auto simp: upper_def dropWhile_eq_Cons_conv)
  ultimately show ?thesis using x v assms(3) by auto
qed

lemma lower_less: "x \<in> set (lower m t ks xs) \<Longrightarrow> kval m t x < le_value ks"
  by (auto simp: lower_def dest: set_takeWhileD)

lemma upper_greater:
  assumes "bucket_ok m f h t i xs" and "x \<in> set (upper m t ks xs)" and "key_of m t x \<noteq> ks" and "length (key_of m t x) = length ks"
  shows "le_value ks < kval m t x"
proof -
  from assms(2) obtain v vs where v: "upper m t ks xs = v # vs" by (cases "upper m t ks xs") auto
  have "sorted_wrt (<) (map (kval m t) (v # vs))"
    using assms(1) lower_upper [of m t ks xs] v by (metis bucket_ok_def map_append sorted_wrt_append)
  moreover have "\<not> kval m t v < le_value ks" using v by (auto simp: upper_def dropWhile_eq_Cons_conv)
  ultimately have "le_value ks \<le> kval m t x" using assms(2) v by auto
  moreover have "le_value ks \<noteq> kval m t x" using le_value_inj assms(3,4) by metis
  ultimately show ?thesis by simp
qed

definition found :: "mem \<Rightarrow> HASH_TABLE \<Rightarrow> BYTE list \<Rightarrow> ptr list \<Rightarrow> bool" where
  "found m t ks xs = (upper m t ks xs \<noteq> [] \<and> key_of m t (hd (upper m t ks xs)) = ks)"

text \<open>The entries of the bucket whose key is larger.\<close>

definition rest :: "mem \<Rightarrow> HASH_TABLE \<Rightarrow> BYTE list \<Rightarrow> ptr list \<Rightarrow> ptr list" where
  "rest m t ks xs = (if found m t ks xs then tl (upper m t ks xs) else upper m t ks xs)"

lemma bucket_found:
  "found m t ks xs \<Longrightarrow> xs = lower m t ks xs @ hd (upper m t ks xs) # rest m t ks xs \<and> key_of m t (hd (upper m t ks xs)) = ks"
  using lower_upper [of m t ks xs] by (auto simp: rest_def found_def)

lemma bucket_not_found: "\<not> found m t ks xs \<Longrightarrow> xs = lower m t ks xs @ rest m t ks xs"
  using lower_upper [of m t ks xs] by (simp add: rest_def)

lemma bucket_sets:
  "set (lower m t ks xs) \<subseteq> set xs" "set (rest m t ks xs) \<subseteq> set (upper m t ks xs)" "set (upper m t ks xs) \<subseteq> set xs"
proof -
  have "set (lower m t ks xs) \<union> set (upper m t ks xs) = set xs" using lower_upper [of m t ks xs] by (metis set_append)
  then show "set (lower m t ks xs) \<subseteq> set xs" "set (upper m t ks xs) \<subseteq> set xs" by auto
  show "set (rest m t ks xs) \<subseteq> set (upper m t ks xs)" by (auto simp: rest_def found_def dest: list.set_sel(2))
qed

lemma keyed_length: "keyed m t e \<Longrightarrow> length (key_of m t e) = unat (KeySize t)"
  by (auto simp: keyed_def key_of_def dest: ld_bytes_length)

lemma rest_key:
  assumes ok: "bucket_ok m f h t i xs" and x: "x \<in> set (rest m t ks xs)"
  shows "key_of m t x \<noteq> ks"
proof
  assume k: "key_of m t x = ks"
  have "x \<in> set xs" using x bucket_sets [of m t ks xs] by auto
  from bucket_key_unique [OF ok this k] k have a: "hd (upper m t ks xs) = x" "found m t ks xs"
    by (auto simp: found_def)
  have "distinct (map (kval m t) xs)" using ok by (auto simp: bucket_ok_def strict_sorted_iff)
  then have "distinct xs" by (simp add: distinct_map)
  then have "distinct (lower m t ks xs @ x # rest m t ks xs)" using bucket_found [OF a(2)] a(1) by metis
  with x show False by simp
qed

lemma bucket_ok_insert:
  assumes ok: "bucket_ok m f h t i xs" and e: "keyed m t e" "key_of m t e = ks" "f ks = i"
    and l: "is_list h' (head t i) (lower m t ks xs @ e # rest m t ks xs)"
  shows "bucket_ok m f h' t i (lower m t ks xs @ e # rest m t ks xs)"
proof -
  note sub = bucket_sets [of m t ks xs]
  have gr: "le_value ks < kval m t x" if "x \<in> set (rest m t ks xs)" for x
  proof -
    have x: "x \<in> set (upper m t ks xs)" "x \<in> set xs" using that sub by auto
    then have "length (key_of m t x) = length ks" using ok e keyed_length by (metis bucket_ok_def)
    with upper_greater [OF ok x(1) rest_key [OF ok that]] show ?thesis by simp
  qed
  have "sorted_wrt (<) (map (kval m t) (lower m t ks xs @ rest m t ks xs))"
  proof -
    have "sorted_wrt (<) (map (kval m t) (lower m t ks xs @ hd (upper m t ks xs) # rest m t ks xs))
        \<or> sorted_wrt (<) (map (kval m t) (lower m t ks xs @ rest m t ks xs))"
      using ok bucket_found [of m t ks xs] bucket_not_found [of m t ks xs] by (metis bucket_ok_def)
    then show ?thesis by (auto simp: sorted_wrt_append)
  qed
  with gr e(2) lower_less [of _ m t ks xs] have "sorted_wrt (<) (map (kval m t) (lower m t ks xs @ e # rest m t ks xs))"
    by (auto simp: sorted_wrt_append)
  with ok e l sub show ?thesis by (auto simp: bucket_ok_def)
qed

section \<open>The table as a finite map\<close>

definition ht_repr :: "mem \<Rightarrow> (BYTE list \<Rightarrow> nat) \<Rightarrow> lheap \<times> HASH_TABLE \<Rightarrow> (BYTE list \<Rightarrow> ptr option) \<Rightarrow> bool" where
  "ht_repr m f = (\<lambda>(h, t) M. \<exists>B. ht_inv m f h t B
     \<and> (\<forall>k e. M k = Some e \<longleftrightarrow> f k < unat (MaxKeys t) \<and> e \<in> set (B (f k)) \<and> key_of m t e = k))"

text \<open>An entry with key \<open>ks\<close> that is in memory and not in the table, and a pointer to a key.\<close>

definition fresh_entry :: "mem \<Rightarrow> lheap \<times> HASH_TABLE \<Rightarrow> (BYTE list \<Rightarrow> ptr option) \<Rightarrow> BYTE list \<Rightarrow> ptr \<Rightarrow> bool" where
  "fresh_entry m = (\<lambda>(h, t) M ks e. e \<in> dom h \<and> keyed m t e \<and> key_of m t e = ks \<and> e \<notin> ran M
     \<and> (\<forall>i < unat (MaxKeys t). e \<noteq> head t i))"

definition key_at :: "mem \<Rightarrow> lheap \<times> HASH_TABLE \<Rightarrow> BYTE list \<Rightarrow> ptr \<Rightarrow> bool" where
  "key_at m = (\<lambda>(h, t) ks p. p \<noteq> NULL \<and> ld_bytes m p (unat (KeySize t)) = Some ks)"

abbreviation or_null :: "ptr option \<Rightarrow> ptr" where
  "or_null x \<equiv> case x of None \<Rightarrow> NULL | Some e \<Rightarrow> e"

lemma ht_repr_bucket:
  assumes "ht_repr m f (h, t) M" and "p \<noteq> NULL" and "ld_bytes m p (unat (KeySize t)) = Some ks"
  obtains B where "ht_inv m f h t B" "f ks < unat (MaxKeys t)" "bucket_ok m f h t (f ks) (B (f ks))"
    "HashFunc t m p (KeySize t) (MaxKeys t) = Some (of_nat (f ks))"
    "M ks = (if found m t ks (B (f ks)) then Some (hd (upper m t ks (B (f ks)))) else None)"
    "HashTableSearchKeyInBucket m h t (head t (f ks)) p =
      Some (found m t ks (B (f ks)), if found m t ks (B (f ks)) then hd (upper m t ks (B (f ks))) else last (head t (f ks) # lower m t ks (B (f ks))))"
    "\<forall>k e. M k = Some e \<longleftrightarrow> f k < unat (MaxKeys t) \<and> e \<in> set (B (f k)) \<and> key_of m t e = k"
proof -
  from assms(1) obtain B where B: "ht_inv m f h t B"
    "\<forall>k e. M k = Some e \<longleftrightarrow> f k < unat (MaxKeys t) \<and> e \<in> set (B (f k)) \<and> key_of m t e = k" by (auto simp: ht_repr_def)
  from B(1) assms(2,3) have hf: "HashFunc t m p (KeySize t) (MaxKeys t) = Some (of_nat (f ks))" "f ks < unat (MaxKeys t)"
    by (auto simp: ht_inv_def hash_ok_def)
  with B(1) have ok: "bucket_ok m f h t (f ks) (B (f ks))" by (auto simp: ht_inv_def)
  have "M ks = (if found m t ks (B (f ks)) then Some (hd (upper m t ks (B (f ks)))) else None)"
  proof (cases "found m t ks (B (f ks))")
    case True
    then have "hd (upper m t ks (B (f ks))) \<in> set (B (f ks))" "key_of m t (hd (upper m t ks (B (f ks)))) = ks"
      using bucket_sets(3) [of m t ks "B (f ks)"] by (auto simp: found_def)
    with B(2) hf(2) True show ?thesis by simp
  next
    case False
    have "M ks \<noteq> Some e" for e
      using bucket_key_unique [OF ok, of e ks] False B(2) by (auto simp: found_def)
    with False show ?thesis by auto
  qed
  moreover have "HashTableSearchKeyInBucket m h t (head t (f ks)) p =
      Some (found m t ks (B (f ks)), if found m t ks (B (f ks)) then hd (upper m t ks (B (f ks))) else last (head t (f ks) # lower m t ks (B (f ks))))"
    using SearchKeyInBucket_ok [of h "head t (f ks)" "B (f ks)" m t p ks] ok B(1) assms(2,3)
    by (auto simp: bucket_ok_def ht_inv_def found_def)
  ultimately show ?thesis using that B hf ok by blast
qed

lemma HashTableLookup_ok:
  assumes "ht_repr m f (h, t) M" and "p \<noteq> NULL" and "ld_bytes m p (unat (KeySize t)) = Some ks"
  shows "HashTableLookup m h t p = Some (or_null (M ks))"
proof (rule ht_repr_bucket [OF assms])
  fix B
  assume "HashFunc t m p (KeySize t) (MaxKeys t) = Some (of_nat (f ks))"
    "M ks = (if found m t ks (B (f ks)) then Some (hd (upper m t ks (B (f ks)))) else None)"
    "HashTableSearchKeyInBucket m h t (head t (f ks)) p =
      Some (found m t ks (B (f ks)), if found m t ks (B (f ks)) then hd (upper m t ks (B (f ks))) else last (head t (f ks) # lower m t ks (B (f ks))))"
  with assms(2) show ?thesis by (simp add: HashTableLookup_def)
qed

lemma bucket_update:
  assumes inv: "ht_inv m f h t B" and M: "\<forall>k e. M k = Some e \<longleftrightarrow> f k < unat (MaxKeys t) \<and> e \<in> set (B (f k)) \<and> key_of m t e = k"
    and i: "f ks < unat (MaxKeys t)" and inv': "ht_inv m f h' t' (B(f ks := ys))"
    and t': "MaxKeys t' = MaxKeys t" "key_of m t' = key_of m t"
    and other: "\<And>e. key_of m t e \<noteq> ks \<Longrightarrow> e \<in> set ys \<longleftrightarrow> e \<in> set (B (f ks))"
    and same: "\<And>e. e \<in> set ys \<and> key_of m t e = ks \<longleftrightarrow> v = Some e"
  shows "ht_repr m f (h', t') (M(ks := v))"
proof -
  have "(M(ks := v)) k = Some e \<longleftrightarrow> f k < unat (MaxKeys t) \<and> e \<in> set ((B(f ks := ys)) (f k)) \<and> key_of m t e = k" for k e
    using M same [of e] other [of e] i by (cases "k = ks") auto
  with inv' t' show ?thesis by (auto simp: ht_repr_def)
qed

lemma HashTableRemoveEntry_inv:
  assumes B: "ht_inv m f h t B" and i: "i < unat (MaxKeys t)" and uv: "B i = us @ e # vs"
  shows "\<exists>h'. HashTableRemoveEntry h t e = Some (h', t\<lparr>NumberOfElements := NumberOfElements t - 1\<rparr>)
    \<and> ht_inv m f h' (t\<lparr>NumberOfElements := NumberOfElements t - 1\<rparr>) (B(i := us @ vs)) \<and> dom h' = dom h"
proof -
  have ok: "bucket_ok m f h t i (B i)" using B i by (simp add: ht_inv_def)
  from RemoveEntryList_ok [of h "head t i" us e vs] ok uv obtain b h'
    where h': "RemoveEntryList h e = Some (b, h')" "is_list h' (head t i) (us @ vs)"
      "only_changes (set (head t i # us @ vs)) h h'" by (auto simp: bucket_ok_def)
  have ok': "bucket_ok m f h' t i (us @ vs)"
    using ok uv h'(2) by (auto simp: bucket_ok_def sorted_wrt_append)
  have "only_changes (insert e (set (head t i # B i))) h h'"
    using h'(3) by (rule only_changes_mono) (auto simp: uv)
  moreover have "\<forall>j < unat (MaxKeys t). j \<noteq> i \<longrightarrow> e \<notin> set (head t j # B j)"
  proof (intro allI impI)
    fix j assume "j < unat (MaxKeys t)" "j \<noteq> i"
    with B i have "set (head t i # B i) \<inter> set (head t j # B j) = {}" by (auto simp: ht_inv_def)
    then show "e \<notin> set (head t j # B j)" by (auto simp: uv)
  qed
  ultimately have "ht_inv m f h' (t\<lparr>NumberOfElements := NumberOfElements t - 1\<rparr>) (B(i := us @ vs))"
    using ht_inv_bucket [OF B i ok', of e "NumberOfElements t - 1"] by (auto simp: uv)
  moreover have "e \<noteq> NULL" using ok uv by (auto simp: bucket_ok_def keyed_def)
  ultimately show ?thesis using h' by (auto simp: HashTableRemoveEntry_def only_changes_def)
qed

lemma HashTableRemoveEntry_ok:
  assumes "ht_repr m f (h, t) M" and "M ks = Some e"
  shows "\<exists>h' t'. HashTableRemoveEntry h t e = Some (h', t') \<and> ht_repr m f (h', t') (M(ks := None))
    \<and> dom h' = dom h \<and> t' = t\<lparr>NumberOfElements := NumberOfElements t - 1\<rparr>"
proof -
  from assms(1) obtain B where B: "ht_inv m f h t B"
    and M: "\<forall>k e. M k = Some e \<longleftrightarrow> f k < unat (MaxKeys t) \<and> e \<in> set (B (f k)) \<and> key_of m t e = k" by (auto simp: ht_repr_def)
  let ?i = "f ks" and ?t = "t\<lparr>NumberOfElements := NumberOfElements t - 1\<rparr>"
  from M assms(2) have e: "?i < unat (MaxKeys t)" "e \<in> set (B ?i)" "key_of m t e = ks" by auto
  with B have ok: "bucket_ok m f h t ?i (B ?i)" by (auto simp: ht_inv_def)
  from e(2) obtain us vs where uv: "B ?i = us @ e # vs" by (auto dest: split_list)
  from HashTableRemoveEntry_inv [OF B e(1) uv] obtain h' where h': "HashTableRemoveEntry h t e = Some (h', ?t)"
    "ht_inv m f h' ?t (B(?i := us @ vs))" "dom h' = dom h" by blast
  have u: "x = e" if "x \<in> set (B ?i)" "key_of m t x = ks" for x
    using bucket_key_unique [OF ok that] bucket_key_unique [OF ok e(2,3)] by simp
  have d: "distinct (us @ e # vs)" using ok uv by (auto simp: bucket_ok_def is_list_def)
  have "ht_repr m f (h', ?t) (M(ks := None))"
    by (rule bucket_update [OF B M e(1) h'(2)]) (use u d e(3) uv in auto)
  with h' show ?thesis by auto
qed

lemma ht_repr_keyed:
  assumes "ht_repr m f (h, t) M" and "M ks = Some e"
  shows "keyed m t e"
proof -
  from assms obtain B where "ht_inv m f h t B" "f ks < unat (MaxKeys t)" "e \<in> set (B (f ks))" by (auto simp: ht_repr_def)
  then have "bucket_ok m f h t (f ks) (B (f ks))" by (simp add: ht_inv_def)
  with \<open>e \<in> set (B (f ks))\<close> show ?thesis by (simp add: bucket_ok_def)
qed

lemma HashTableRemove_ok:
  assumes "ht_repr m f (h, t) M" and "p \<noteq> NULL" and "ld_bytes m p (unat (KeySize t)) = Some ks"
  shows "\<exists>h' t'. HashTableRemove m h t p = Some (or_null (M ks), h', t') \<and> ht_repr m f (h', t') (M(ks := None)) \<and> dom h' = dom h
    \<and> KeySize t' = KeySize t"
proof (cases "M ks")
  case None
  then have "M(ks := None) = M" by auto
  with None HashTableLookup_ok [OF assms] assms show ?thesis by (simp add: HashTableRemove_def)
next
  case (Some e)
  then have "e \<noteq> NULL" using ht_repr_keyed [OF assms(1)] by (simp add: keyed_def)
  with HashTableRemoveEntry_ok [OF assms(1) Some] HashTableLookup_ok [OF assms] assms(2) Some show ?thesis
    by (auto simp: HashTableRemove_def)
qed

lemma insert_into_bucket:
  assumes l: "is_list h H xs" and e: "e \<in> dom h" "e \<notin> set (H # xs)"
  shows "found m t ks xs \<Longrightarrow> \<exists>h1 b h2. InsertHeadList h (hd (upper m t ks xs)) e = Some h1
      \<and> RemoveEntryList h1 (hd (upper m t ks xs)) = Some (b, h2)
      \<and> is_list h2 H (lower m t ks xs @ e # rest m t ks xs) \<and> only_changes (insert e (set (H # xs))) h h2"
    and "\<not> found m t ks xs \<Longrightarrow> \<exists>h2. InsertHeadList h (last (H # lower m t ks xs)) e = Some h2
      \<and> is_list h2 H (lower m t ks xs @ e # rest m t ks xs) \<and> only_changes (insert e (set (H # xs))) h h2"
proof -
  let ?us = "lower m t ks xs" and ?v = "hd (upper m t ks xs)" and ?vs = "rest m t ks xs"
  show "\<exists>h2. InsertHeadList h (last (H # ?us)) e = Some h2
      \<and> is_list h2 H (?us @ e # ?vs) \<and> only_changes (insert e (set (H # xs))) h h2" if "\<not> found m t ks xs"
    using InsertHeadList_after [of h H ?us ?vs e] l e bucket_not_found [OF that] by (metis list.set(2))
  assume "found m t ks xs"
  then have xs: "xs = (?us @ [?v]) @ ?vs" using bucket_found by fastforce
  from InsertHeadList_after [of h H "?us @ [?v]" ?vs e] l e xs obtain h1
    where h1: "InsertHeadList h ?v e = Some h1" "is_list h1 H (?us @ ?v # e # ?vs)" "only_changes (insert e (set (H # xs))) h h1"
    by (metis append.assoc append_Cons append_Nil last.simps last_snoc list.set(2) snoc_eq_iff_butlast)
  from RemoveEntryList_ok [OF h1(2)] obtain b h2
    where h2: "RemoveEntryList h1 ?v = Some (b, h2)" "is_list h2 H (?us @ e # ?vs)" "only_changes (set (H # ?us @ e # ?vs)) h1 h2" by blast
  have "only_changes (insert e (set (H # xs))) h h2"
    using only_changes_trans [OF h1(3) h2(3)] by (rule only_changes_mono) (use bucket_sets [of m t ks xs] in auto)
  with h1(1) h2 show "\<exists>h1 b h2. InsertHeadList h ?v e = Some h1 \<and> RemoveEntryList h1 ?v = Some (b, h2)
      \<and> is_list h2 H (?us @ e # ?vs) \<and> only_changes (insert e (set (H # xs))) h h2" by blast
qed

lemma new_bucket_entries:
  assumes ok: "bucket_ok m f h t i xs" and e: "key_of m t e = ks"
  shows "key_of m t x \<noteq> ks \<Longrightarrow> x \<in> set (lower m t ks xs @ e # rest m t ks xs) \<longleftrightarrow> x \<in> set xs"
    and "x \<in> set (lower m t ks xs @ e # rest m t ks xs) \<and> key_of m t x = ks \<longleftrightarrow> Some e = Some x"
    and "length (lower m t ks xs @ e # rest m t ks xs) = (if found m t ks xs then length xs else length xs + 1)"
proof -
  have len: "length xs = length (lower m t ks xs) + (if found m t ks xs then 1 else 0) + length (rest m t ks xs)"
    using arg_cong [where f = length, OF bucket_not_found [of m t ks xs]] arg_cong [where f = length, OF conjunct1 [OF bucket_found [of m t ks xs]]]
    by (cases "found m t ks xs") auto
  then show "length (lower m t ks xs @ e # rest m t ks xs) = (if found m t ks xs then length xs else length xs + 1)" by simp
  have xs: "set xs = set (lower m t ks xs) \<union> (if found m t ks xs then {hd (upper m t ks xs)} else {}) \<union> set (rest m t ks xs)"
    using arg_cong [where f = set, OF bucket_not_found [of m t ks xs]] arg_cong [where f = set, OF conjunct1 [OF bucket_found [of m t ks xs]]]
    by (cases "found m t ks xs") auto
  show "x \<in> set (lower m t ks xs @ e # rest m t ks xs) \<longleftrightarrow> x \<in> set xs" if "key_of m t x \<noteq> ks"
    using that e bucket_found [of m t ks xs] unfolding xs by (cases "found m t ks xs") auto
  show "x \<in> set (lower m t ks xs @ e # rest m t ks xs) \<and> key_of m t x = ks \<longleftrightarrow> Some e = Some x"
    using e rest_key [OF ok, of x ks] lower_less [of x m t ks xs] by auto
qed

lemma fresh_entry_out:
  assumes B: "ht_inv m f h t B" and M: "\<forall>k e. M k = Some e \<longleftrightarrow> f k < unat (MaxKeys t) \<and> e \<in> set (B (f k)) \<and> key_of m t e = k"
    and i: "f ks < unat (MaxKeys t)" and e: "fresh_entry m (h, t) M ks e" and j: "j < unat (MaxKeys t)"
  shows "e \<notin> set (head t j # B j)"
proof
  assume "e \<in> set (head t j # B j)"
  with e j have ej: "e \<in> set (B j)" by (auto simp: fresh_entry_def)
  moreover have "bucket_ok m f h t j (B j)" using B j by (simp add: ht_inv_def)
  ultimately have "f ks = j" using e by (auto simp: bucket_ok_def fresh_entry_def)
  with M ej i e have "M ks = Some e" by (auto simp: fresh_entry_def)
  with e show False by (auto simp: ran_def fresh_entry_def)
qed

lemma insert_repr:
  assumes B: "ht_inv m f h t B" and M: "\<forall>k e. M k = Some e \<longleftrightarrow> f k < unat (MaxKeys t) \<and> e \<in> set (B (f k)) \<and> key_of m t e = k"
    and i: "f ks < unat (MaxKeys t)" and e: "keyed m t e" "key_of m t e = ks" and fnd: "M ks = None \<longleftrightarrow> \<not> found m t ks (B (f ks))"
    and l: "is_list h' (head t (f ks)) (lower m t ks (B (f ks)) @ e # rest m t ks (B (f ks)))"
    and ch: "only_changes (insert e (set (head t (f ks) # B (f ks)))) h h'"
    and out: "\<And>j. j < unat (MaxKeys t) \<Longrightarrow> e \<notin> set (head t j # B j)"
  shows "ht_repr m f (h', t\<lparr>NumberOfElements := NumberOfElements t + (if M ks = None then 1 else 0)\<rparr>) (M(ks \<mapsto> e))"
proof -
  let ?xs = "B (f ks)" and ?ys = "lower m t ks (B (f ks)) @ e # rest m t ks (B (f ks))"
  have ok: "bucket_ok m f h t (f ks) ?xs" using B i by (simp add: ht_inv_def)
  note new = new_bucket_entries [OF ok e(2)]
  define n where "n = NumberOfElements t + (if M ks = None then 1 else 0)"
  have n: "n + of_nat (length ?xs) = NumberOfElements t + of_nat (length ?ys)"
    unfolding n_def new(3) fnd by simp
  have "set ?ys \<subseteq> insert e (set ?xs)" using bucket_sets [of m t ks ?xs] by auto
  from ht_inv_bucket [OF B i bucket_ok_insert [OF ok e refl l] ch this _ n] out
  have "ht_inv m f h' (t\<lparr>NumberOfElements := n\<rparr>) (B(f ks := ?ys))" by blast
  from bucket_update [OF B M i this, of "Some e"] new(1,2) show ?thesis by (simp add: n_def)
qed

lemma HashTableInsert_ok:
  assumes r: "ht_repr m f (h, t) M" and "fresh_entry m (h, t) M ks e"
  shows "\<exists>h' t'. HashTableInsert m h t e = Some (or_null (M ks), h', t') \<and> ht_repr m f (h', t') (M(ks \<mapsto> e)) \<and> dom h' = dom h
    \<and> t' = t\<lparr>NumberOfElements := NumberOfElements t + (if M ks = None then 1 else 0)\<rparr>"
proof -
  let ?p = "HashTableObtainKeyAddress t e" and ?i = "f ks"
  have e: "e \<in> dom h" "keyed m t e" "key_of m t e = ks" "e \<notin> ran M" "\<forall>i < unat (MaxKeys t). e \<noteq> head t i"
    using assms(2) by (auto simp: fresh_entry_def)
  then have p: "?p \<noteq> NULL" "ld_bytes m ?p (unat (KeySize t)) = Some ks" by (auto simp: keyed_def key_of_def)
  show ?thesis
  proof (rule ht_repr_bucket [OF r p])
    fix B
    let ?xs = "B ?i" and ?ys = "lower m t ks (B ?i) @ e # rest m t ks (B ?i)" and ?v = "hd (upper m t ks (B ?i))"
    assume B: "ht_inv m f h t B" and i: "?i < unat (MaxKeys t)" and ok: "bucket_ok m f h t ?i ?xs"
      and hf: "HashFunc t m ?p (KeySize t) (MaxKeys t) = Some (of_nat ?i)"
      and Mks: "M ks = (if found m t ks ?xs then Some ?v else None)"
      and s: "HashTableSearchKeyInBucket m h t (head t ?i) ?p =
        Some (found m t ks ?xs, if found m t ks ?xs then ?v else last (head t ?i # lower m t ks ?xs))"
      and M: "\<forall>k e. M k = Some e \<longleftrightarrow> f k < unat (MaxKeys t) \<and> e \<in> set (B (f k)) \<and> key_of m t e = k"
    note out = fresh_entry_out [OF B M i assms(2)]
    define n where "n = NumberOfElements t + (if M ks = None then 1 else 0)"
    have rep: "ht_repr m f (h', t\<lparr>NumberOfElements := n\<rparr>) (M(ks \<mapsto> e))"
      if "is_list h' (head t ?i) ?ys" "only_changes (insert e (set (head t ?i # ?xs))) h h'" for h'
      unfolding n_def using Mks by (intro insert_repr [OF B M i e(2,3) _ that out]) auto
    have "e \<noteq> NULL" using e(2) by (simp add: keyed_def)
    moreover have "(of_nat ?i :: QWORD) < ucast (MaxKeys t)"
    proof -
      have "?i < 2 ^ 64" using i unat_DWORD_less [of "MaxKeys t"] by (simp del: unat_DWORD_less)
      with i show ?thesis by (simp add: word_less_nat_alt unat_ucast_QWORD)
    qed
    moreover have "is_list h (head t ?i) ?xs" using ok by (simp add: bucket_ok_def)
    note ins = insert_into_bucket [OF this e(1) out [OF i], of m t ks]
    ultimately show ?thesis
    proof (cases "found m t ks ?xs")
      case True
      from ins(1) [OF True] obtain h1 b h2 where x: "InsertHeadList h ?v e = Some h1" "RemoveEntryList h1 ?v = Some (b, h2)"
        "is_list h2 (head t ?i) ?ys" "only_changes (insert e (set (head t ?i # ?xs))) h h2" by blast
      have "HashTableInsert m h t e = Some (?v, h2, t)"
        using x(1,2) True hf s \<open>e \<noteq> NULL\<close> \<open>of_nat ?i < ucast (MaxKeys t)\<close> by (simp add: HashTableInsert_def)
      with rep [OF x(3,4)] True Mks x(4) show ?thesis by (simp add: n_def only_changes_def)
    next
      case False
      from ins(2) [OF False] obtain h2 where x: "InsertHeadList h (last (head t ?i # lower m t ks ?xs)) e = Some h2"
        "is_list h2 (head t ?i) ?ys" "only_changes (insert e (set (head t ?i # ?xs))) h h2" by blast
      have "HashTableInsert m h t e = Some (NULL, h2, t\<lparr>NumberOfElements := n\<rparr>)"
        using x(1) False hf s Mks \<open>e \<noteq> NULL\<close> \<open>of_nat ?i < ucast (MaxKeys t)\<close> by (simp add: HashTableInsert_def n_def)
      with rep [OF x(2,3)] False Mks x(3) show ?thesis by (simp add: n_def only_changes_def)
    qed
  qed
qed

section \<open>Initialisation\<close>

text \<open>The array of list heads: distinct addresses that are mapped and not NULL.\<close>

definition heads_ok :: "lheap \<Rightarrow> HASH_TABLE \<Rightarrow> bool" where
  "heads_ok h t = ((\<forall>i < unat (MaxKeys t). head t i \<in> dom h \<and> head t i \<noteq> NULL) \<and> inj_on (head t) {..<unat (MaxKeys t)})"

lemma head_inj: "unat (MaxKeys t) \<le> 2 ^ 28 \<Longrightarrow> inj_on (head t) {..<unat (MaxKeys t)}"
proof (rule inj_onI)
  fix i j assume n: "unat (MaxKeys t) \<le> 2 ^ 28" and ij: "i \<in> {..<unat (MaxKeys t)}" "j \<in> {..<unat (MaxKeys t)}" "head t i = head t j"
  then have "(of_nat (i * 16) :: QWORD) = of_nat (j * 16)" by (simp add: Entries_def)
  moreover have "i * 16 < 2 ^ 64" "j * 16 < 2 ^ 64" using n ij by auto
  ultimately have "i * 16 = j * 16" by (metis unat_of_nat_QWORD)
  then show "i = j" by simp
qed

lemma HashTableInit_ok:
  assumes t: "HashTablePreinit n k = Some (sz, t0)" and d: "d \<noteq> NULL" and k: "k \<noteq> 0"
    and hs: "heads_ok h (t0\<lparr>TableData := d, HashFunc := hf, OffsetToKey := off\<rparr>)"
    and f: "hash_ok m (t0\<lparr>TableData := d, HashFunc := hf, OffsetToKey := off\<rparr>) f"
  shows "\<exists>h'. HashTableInit h t0 d hf off = Some (h', t0\<lparr>TableData := d, HashFunc := hf, OffsetToKey := off\<rparr>)
    \<and> ht_inv m f h' (t0\<lparr>TableData := d, HashFunc := hf, OffsetToKey := off\<rparr>) (\<lambda>_. []) \<and> dom h' = dom h"
proof -
  let ?t = "t0\<lparr>TableData := d, HashFunc := hf, OffsetToKey := off\<rparr>" and ?N = "unat (MaxKeys t0)"
  have t0: "KeySize t0 = k" "NumberOfElements t0 = 0" using t by (auto simp: HashTablePreinit_def bind_ASSERT split: if_splits)
  have "\<exists>h'. for_upto ?N (\<lambda>i h. InitializeListHead h (head ?t i)) h = Some h'
    \<and> (dom h' = dom h \<and> (\<forall>j < ?N. is_list h' (head ?t j) []))"
  proof -
    define P where "P = (\<lambda>i h'. dom h' = dom h \<and> (\<forall>j < i. is_list h' (head ?t j) []))"
    have "\<exists>h'. for_upto ?N (\<lambda>i h. InitializeListHead h (head ?t i)) h = Some h' \<and> P ?N h'"
    proof (rule for_upto_rule)
      fix i s assume i: "i < ?N" and P: "P i s"
      then have "head ?t i \<in> dom s" using hs by (auto simp: P_def heads_ok_def)
      from InitializeListHead_ok [OF this] obtain s' where s': "InitializeListHead s (head ?t i) = Some s'"
        "is_list s' (head ?t i) []" "only_changes {head ?t i} s s'" by blast
      have "is_list s' (head ?t j) []" if "j < i" for j
      proof -
        have "head ?t i \<noteq> head ?t j"
          using hs that i inj_onD [of "head ?t" "{..<?N}" i j] by (auto simp: heads_ok_def)
        with only_changes_is_list [OF s'(3), of "head ?t j" "[]"] P that show ?thesis by (auto simp: P_def)
      qed
      with s' P show "\<exists>s'. InitializeListHead s (head ?t i) = Some s' \<and> P (Suc i) s'"
        by (auto simp: P_def only_changes_def less_Suc_eq)
    qed (simp add: P_def)
    then show ?thesis by (simp add: P_def)
  qed
  then obtain h' where h': "for_upto ?N (\<lambda>i h. InitializeListHead h (head ?t i)) h = Some h'"
    "dom h' = dom h" "\<forall>j < ?N. is_list h' (head ?t j) []" by blast
  have "ht_inv m f h' ?t (\<lambda>_. [])"
    using h' hs f t0 k by (auto simp: ht_inv_def bucket_ok_def heads_ok_def inj_on_def)
  with h' d show ?thesis by (simp add: HashTableInit_def)
qed

lemma ht_repr_empty: "ht_inv m f h t (\<lambda>_. []) \<Longrightarrow> ht_repr m f (h, t) Map.empty"
  by (auto simp: ht_repr_def)

section \<open>Hash functions\<close>

lemma local_key_value_ok:
  assumes "ld_bytes m p (unat k) = Some ks" and "unat k \<le> 8"
  shows "\<exists>v. local_key_value m p k = Some v \<and> unat v = le_value ks"
proof -
  have "length ks \<le> 8" using assms by (auto dest: ld_bytes_length)
  then have "256 ^ length ks \<le> (256 ^ 8 :: nat)" by (intro power_increasing) auto
  with le_value_less [of ks] have "le_value ks < 2 ^ 64" by simp
  with assms \<open>length ks \<le> 8\<close> show ?thesis by (simp add: local_key_value_def)
qed

lemma le_MAX_QWORD: "(x::QWORD) \<le> MAX_QWORD"
  by (simp add: word_le_nat_alt less_Suc_eq_le [symmetric])

lemma unat_of_nat_eq_self: "of_nat (unat x) = (x::QWORD)"
  by simp

lemma HashFuncGenericIncremental_ok:
  assumes "HashFunc t = HashFuncGenericIncremental" and "unat (KeySize t) \<le> 8" and "MaxKeys t \<noteq> 0"
  shows "hash_ok m t (\<lambda>ks. le_value ks mod unat (MaxKeys t))"
  unfolding hash_ok_def
proof (intro allI impI conjI)
  have N: "0 < unat (MaxKeys t)" using assms(3) by (simp add: unat_gt_0)
  fix p ks assume p: "p \<noteq> NULL \<and> ld_bytes m p (unat (KeySize t)) = Some ks"
  show "le_value ks mod unat (MaxKeys t) < unat (MaxKeys t)" using N by simp
  from local_key_value_ok [of m p "KeySize t" ks] p assms(2) obtain v
    where v: "local_key_value m p (KeySize t) = Some v" "unat v = le_value ks" by auto
  have "v mod ucast (MaxKeys t) = of_nat (unat (v mod ucast (MaxKeys t)))" by simp
  also have "\<dots> = of_nat (le_value ks mod unat (MaxKeys t))" by (simp add: unat_mod unat_ucast_QWORD v(2))
  finally show "HashFunc t m p (KeySize t) (MaxKeys t) = Some (of_nat (le_value ks mod unat (MaxKeys t)))"
    using assms(1) v p by (simp add: HashFuncGenericIncremental_def le_MAX_QWORD)
qed

lemma HashFuncUniversal_ok:
  assumes "HashFunc t = HashFuncUniversal" and "unat (KeySize t) \<le> 8" and "MaxKeys t \<noteq> 0"
  shows "hash_ok m t (\<lambda>ks. (1701 * (le_value ks mod 10007) + 59) mod 10007 mod unat (MaxKeys t))"
  unfolding hash_ok_def
proof (intro allI impI conjI)
  have N: "0 < unat (MaxKeys t)" using assms(3) by (simp add: unat_gt_0)
  fix p ks assume p: "p \<noteq> NULL \<and> ld_bytes m p (unat (KeySize t)) = Some ks"
  show "(1701 * (le_value ks mod 10007) + 59) mod 10007 mod unat (MaxKeys t) < unat (MaxKeys t)" using N by simp
  from local_key_value_ok [of m p "KeySize t" ks] p assms(2) obtain v
    where v: "local_key_value m p (KeySize t) = Some v" "unat v = le_value ks" by auto
  define r where "r = v mod 10007"
  have r: "unat r = le_value ks mod 10007" by (simp add: r_def unat_mod v(2))
  then have small: "unat r < 10007" by simp
  have "unat (1701 * r + 59) = 1701 * unat r + 59"
    using small by (simp add: unat_word_ariths)
  then have "unat ((1701 * r + 59) mod 10007 mod ucast (MaxKeys t)) = (1701 * (le_value ks mod 10007) + 59) mod 10007 mod unat (MaxKeys t)"
    by (simp add: unat_mod unat_ucast_QWORD r)
  then have e: "(1701 * r + 59) mod 10007 mod ucast (MaxKeys t) = of_nat ((1701 * (le_value ks mod 10007) + 59) mod 10007 mod unat (MaxKeys t))"
    by (metis unat_of_nat_eq_self)
  have "r < (MAX_QWORD div HASH_UNIVERSAL_A) - HASH_UNIVERSAL_B" using small by (simp add: word_less_nat_alt)
  with e show "HashFunc t m p (KeySize t) (MaxKeys t) = Some (of_nat ((1701 * (le_value ks mod 10007) + 59) mod 10007 mod unat (MaxKeys t)))"
    using assms(1) v p by (simp add: HashFuncUniversal_def le_MAX_QWORD r_def [symmetric])
qed

section \<open>Iteration\<close>

text \<open>
  After the last bucket the iterator initialises itself with the element behind the array of list
  heads, so that memory has to be readable.
\<close>

definition readable_end :: "lheap \<Rightarrow> HASH_TABLE \<Rightarrow> bool" where
  "readable_end h t = (head t (unat (MaxKeys t)) \<noteq> NULL \<and> head t (unat (MaxKeys t)) \<in> dom h)"

text \<open>The entries that an iterator in bucket \<open>i\<close>, in front of \<open>zs\<close>, has still to return.\<close>

definition iter_at :: "HASH_TABLE \<Rightarrow> (nat \<Rightarrow> ptr list) \<Rightarrow> HASH_ITERATOR \<Rightarrow> nat \<Rightarrow> ptr list \<Rightarrow> bool" where
  "iter_at t B it i zs = (KeyIndex it = of_nat i \<and> i < unat (MaxKeys t) \<and> (\<exists>ys. B i = ys @ zs)
     \<and> iter_rest (CurrentKeyIterator it) (head t i) zs)"

abbreviation later :: "HASH_TABLE \<Rightarrow> (nat \<Rightarrow> ptr list) \<Rightarrow> nat \<Rightarrow> ptr list" where
  "later t B i \<equiv> concat (map B [Suc i..<unat (MaxKeys t)])"

lemma later_Suc: "Suc i < unat (MaxKeys t) \<Longrightarrow> later t B i = B (Suc i) @ later t B (Suc i)"
  by (simp add: upt_rec [of "Suc i"])

text \<open>Between the old and the new position all buckets are empty.\<close>

definition skips :: "(nat \<Rightarrow> ptr list) \<Rightarrow> nat \<Rightarrow> ptr list \<Rightarrow> nat \<Rightarrow> ptr list \<Rightarrow> ptr list \<Rightarrow> bool" where
  "skips B i zs j us vs = (if j = i then zs = vs else i < j \<and> zs = [] \<and> us = [] \<and> (\<forall>k. i < k \<and> k < j \<longrightarrow> B k = []))"

lemma skips_Suc: "skips B (Suc i) (B (Suc i)) j us vs \<Longrightarrow> B j = us @ vs \<Longrightarrow> skips B i [] j us vs"
  by (auto simp: skips_def split: if_splits) (metis Suc_lessI)

lemma HashTableIteratorNext_ok:
  assumes "ht_inv m f h t B" and "readable_end h t" and "iter_at t B it i zs"
  shows "zs @ later t B i = [] \<Longrightarrow> \<exists>it'. HashTableIteratorNext h t it = Some (NULL, it')"
    and "zs @ later t B i = z # rs \<Longrightarrow> \<exists>it' j us vs. HashTableIteratorNext h t it = Some (z, it') \<and> B j = us @ z # vs
      \<and> iter_at t B it' j vs \<and> rs = vs @ later t B j \<and> skips B i zs j us (z # vs)"
proof -
  have "(zs @ later t B i = [] \<longrightarrow> (\<exists>it'. HashTableIteratorNext h t it = Some (NULL, it')))
    \<and> (\<forall>z rs. zs @ later t B i = z # rs \<longrightarrow> (\<exists>it' j us vs. HashTableIteratorNext h t it = Some (z, it') \<and> B j = us @ z # vs
      \<and> iter_at t B it' j vs \<and> rs = vs @ later t B j \<and> skips B i zs j us (z # vs)))"
    using assms(3)
  proof (induction "unat (MaxKeys t) - i" arbitrary: i zs it)
    case 0
    then show ?case by (simp add: iter_at_def)
  next
    case (Suc d)
    let ?N = "unat (MaxKeys t)"
    from Suc.prems obtain ys where i: "KeyIndex it = of_nat i" "i < ?N" "B i = ys @ zs"
      "iter_rest (CurrentKeyIterator it) (head t i) zs" by (auto simp: iter_at_def)
    have ok: "bucket_ok m f h t i (B i)" using assms(1) i(2) by (simp add: ht_inv_def)
    have N: "?N < 4294967296" by simp
    have key: "KeyIndex it < MaxKeys t" using i N by (simp add: word_less_nat_alt unat_of_nat)
    show ?case
    proof (cases zs)
      case (Cons z zs')
      from ListIteratorNext_Cons [of h "head t i" ys z zs'] ok i Cons obtain it'
        where it': "ListIteratorNext h (CurrentKeyIterator it) = Some (z, it')" "iter_rest it' (head t i) zs'"
        by (auto simp: bucket_ok_def)
      have "z \<noteq> NULL" using ok i(3) Cons by (auto simp: bucket_ok_def keyed_def)
      with it'(1) key have "HashTableIteratorNext h t it = Some (z, it\<lparr>CurrentKeyIterator := it'\<rparr>)"
        by (subst HashTableIteratorNext.simps) simp
      moreover have "iter_at t B (it\<lparr>CurrentKeyIterator := it'\<rparr>) i zs'"
        using i it'(2) Cons by (auto simp: iter_at_def)
      ultimately show ?thesis using Cons i(3) by (fastforce simp: skips_def)
    next
      case Nil
      have k1: "KeyIndex it + 1 = of_nat (Suc i)" using i(1) by simp
      have u1: "ucast (of_nat (Suc i) :: DWORD) = (of_nat (Suc i) :: QWORD)"
      proof -
        have "Suc i < 2 ^ 32" using Suc_leI [OF i(2)] N by (simp del: unat_DWORD_less)
        then have "take_bit 32 (Suc i) = Suc i" by (rule take_bit_nat_eq_self)
        then show ?thesis by (simp add: unsigned_of_nat del: of_nat_Suc)
      qed
      have step: "HashTableIteratorNext h t it = HashTableIteratorNext h t (it\<lparr>KeyIndex := of_nat (Suc i), CurrentKeyIterator := it'\<rparr>)"
        if "ListIteratorInit h (head t (Suc i)) = Some it'" for it'
      proof -
        have "ListIteratorNext h (CurrentKeyIterator it) = Some (NULL, CurrentKeyIterator it)"
          using i(4) Nil ListIteratorNext_end by simp
        with key that show ?thesis
          by (subst HashTableIteratorNext.simps) (simp add: k1 u1 del: of_nat_Suc)
      qed
      show ?thesis
      proof (cases "Suc i < ?N")
        case True
        then have ok1: "bucket_ok m f h t (Suc i) (B (Suc i))" using assms(1) by (simp add: ht_inv_def)
        from ListIteratorInit_ok [of h "head t (Suc i)" "B (Suc i)"] ok1 obtain it'
          where it': "ListIteratorInit h (head t (Suc i)) = Some it'" "iter_rest it' (head t (Suc i)) (B (Suc i))"
          by (auto simp: bucket_ok_def simp del: of_nat_Suc)
        have "iter_at t B (it\<lparr>KeyIndex := of_nat (Suc i), CurrentKeyIterator := it'\<rparr>) (Suc i) (B (Suc i))"
          using True it'(2) by (simp add: iter_at_def del: of_nat_Suc)
        note IH = Suc.hyps(1) [OF _ this, folded step [OF it'(1)]]
        have eq: "[] @ later t B i = B (Suc i) @ later t B (Suc i)" using later_Suc [OF True] by simp
        have d: "d = ?N - Suc i" using Suc.hyps(2) by simp
        show ?thesis unfolding Nil eq using IH [OF d] skips_Suc [of B i] by fast
      next
        case False
        then have N1: "Suc i = ?N" using i(2) by simp
        then obtain it' where it': "ListIteratorInit h (head t (Suc i)) = Some it'"
          using assms(2) by (auto simp: readable_end_def ListIteratorInit_def rd_Flink_def simp del: of_nat_Suc)
        have "HashTableIteratorNext h t (it\<lparr>KeyIndex := of_nat (Suc i), CurrentKeyIterator := it'\<rparr>)
            = Some (NULL, it\<lparr>KeyIndex := of_nat (Suc i), CurrentKeyIterator := it'\<rparr>)"
          by (subst HashTableIteratorNext.simps) (simp add: N1 del: of_nat_Suc)
        with step [OF it'] N1 Nil show ?thesis by simp
      qed
    qed
  qed
  then show "zs @ later t B i = [] \<Longrightarrow> \<exists>it'. HashTableIteratorNext h t it = Some (NULL, it')"
    and "zs @ later t B i = z # rs \<Longrightarrow> \<exists>it' j us vs. HashTableIteratorNext h t it = Some (z, it') \<and> B j = us @ z # vs
      \<and> iter_at t B it' j vs \<and> rs = vs @ later t B j \<and> skips B i zs j us (z # vs)" by blast+
qed

lemma HashTableClear_loop_ok:
  assumes "ht_inv m f h t B" and "readable_end h t" and "iter_at t B it i zs" and "\<forall>j < unat (MaxKeys t). j \<le> i \<longrightarrow> B j = (if j = i then zs else [])"
  shows "\<exists>h' t' B'. HashTableClear_loop fr h t it c = Some (h', t', fold (case fr of None \<Rightarrow> \<lambda>_ c. c | Some g \<Rightarrow> g) (zs @ later t B i) c)
    \<and> ht_inv m f h' t' B' \<and> (\<forall>j < unat (MaxKeys t). B' j = []) \<and> MaxKeys t' = MaxKeys t"
  using assms
proof (induction "zs @ later t B i" arbitrary: h t B it i zs c)
  case Nil
  from HashTableIteratorNext_ok(1) [OF Nil(2-4)] Nil(1) obtain it' where it': "HashTableIteratorNext h t it = Some (NULL, it')" by auto
  have "B j = []" if "j < unat (MaxKeys t)" for j
  proof (cases "j \<le> i")
    case True
    with Nil(1,5) that show ?thesis by auto
  next
    case False
    then have "j \<in> set [Suc i..<unat (MaxKeys t)]" using that by auto
    with Nil(1) show ?thesis by auto
  qed
  moreover have "fold g (zs @ later t B i) c = c" for g by (simp only: Nil(1) [symmetric] fold_simps)
  ultimately show ?case using it' Nil(2) by (subst HashTableClear_loop.simps) auto
next
  case (Cons z rs)
  from HashTableIteratorNext_ok(2) [OF Cons(3-5) Cons(2) [symmetric]] obtain it' j us vs
    where n: "HashTableIteratorNext h t it = Some (z, it')" "B j = us @ z # vs" "iter_at t B it' j vs" "rs = vs @ later t B j" "skips B i zs j us (z # vs)" by blast
  let ?t = "t\<lparr>NumberOfElements := NumberOfElements t - 1\<rparr>" and ?B = "B(j := us @ vs)"
  have j: "j < unat (MaxKeys t)" using n(3) by (simp add: iter_at_def)
  from HashTableRemoveEntry_inv [OF Cons(3) j n(2)] obtain h1
    where h1: "HashTableRemoveEntry h t z = Some (h1, ?t)" "ht_inv m f h1 ?t ?B" "dom h1 = dom h" by blast
  have us: "us = [] \<and> (\<forall>k < j. B k = [])"
  proof (cases "j = i")
    case True
    with n(2,5) Cons(6) j show ?thesis by (auto simp: skips_def)
  next
    case False
    with n(5) have s: "i < j" "zs = []" "us = []" "\<forall>k. i < k \<and> k < j \<longrightarrow> B k = []" by (auto simp: skips_def)
    have "B k = []" if "k < j" for k
      using s Cons(6) that j by (cases "k \<le> i") auto
    with s(3) show ?thesis by simp
  qed
  have "later ?t ?B j = later t B j" by (auto intro!: arg_cong [where f = concat])
  moreover have "readable_end h1 ?t" using Cons(4) h1(3) by (simp add: readable_end_def)
  moreover have "iter_at ?t ?B it' j vs" using n(3) by (auto simp: iter_at_def)
  moreover have "\<forall>k < unat (MaxKeys ?t). k \<le> j \<longrightarrow> ?B k = (if k = j then vs else [])" using us by auto
  ultimately have "\<exists>h' t' B'. HashTableClear_loop fr h1 ?t it' (case fr of None \<Rightarrow> c | Some g \<Rightarrow> g z c)
      = Some (h', t', fold (case fr of None \<Rightarrow> \<lambda>_ c. c | Some g \<Rightarrow> g) rs (case fr of None \<Rightarrow> c | Some g \<Rightarrow> g z c))
    \<and> ht_inv m f h' t' B' \<and> (\<forall>j < unat (MaxKeys t). B' j = []) \<and> MaxKeys t' = MaxKeys t"
    using Cons(1) [of vs ?B j ?t h1 it' "case fr of None \<Rightarrow> c | Some g \<Rightarrow> g z c"] h1(2) n(4) by simp
  moreover have "z \<noteq> NULL" using Cons(3) j n(2) by (auto simp: ht_inv_def bucket_ok_def keyed_def)
  ultimately show ?case using n(1) h1(1) Cons(2) [symmetric]
    by (subst HashTableClear_loop.simps) (auto split: option.splits)
qed

section \<open>The interface of a finite map\<close>

locale kv_store =
  fixes repr :: "'s \<Rightarrow> ('k \<Rightarrow> 'e option) \<Rightarrow> bool"
    and key_at :: "'k \<Rightarrow> 'p \<Rightarrow> bool"
    and fresh :: "'s \<Rightarrow> ('k \<Rightarrow> 'e option) \<Rightarrow> 'k \<Rightarrow> 'e \<Rightarrow> bool"
    and result :: "'e option \<Rightarrow> 'r"
    and lookup :: "'s \<Rightarrow> 'p \<Rightarrow> 'r option"
    and insert :: "'s \<Rightarrow> 'e \<Rightarrow> ('r \<times> 's) option"
    and remove :: "'s \<Rightarrow> 'p \<Rightarrow> ('r \<times> 's) option"
  assumes lookup_law: "repr s M \<Longrightarrow> key_at k p \<Longrightarrow> lookup s p = Some (result (M k))"
    and insert_law: "repr s M \<Longrightarrow> fresh s M k e \<Longrightarrow> \<exists>s'. insert s e = Some (result (M k), s') \<and> repr s' (M(k \<mapsto> e))"
    and remove_law: "repr s M \<Longrightarrow> key_at k p \<Longrightarrow> \<exists>s'. remove s p = Some (result (M k), s') \<and> repr s' (M(k := None))"
begin

lemma insert_lookup:
  assumes "repr s M" and "fresh s M k e" and "key_at k' p"
  shows "\<exists>s'. insert s e = Some (result (M k), s') \<and> repr s' (M(k \<mapsto> e))
    \<and> lookup s' p = (if k' = k then Some (result (Some e)) else lookup s p)"
proof -
  from insert_law [OF assms(1,2)] obtain s' where s': "insert s e = Some (result (M k), s')" "repr s' (M(k \<mapsto> e))" by blast
  with lookup_law [OF s'(2) assms(3)] lookup_law [OF assms(1,3)] show ?thesis by simp
qed

lemma remove_lookup:
  assumes "repr s M" and "key_at k p" and "key_at k' p'"
  shows "\<exists>s'. remove s p = Some (result (M k), s') \<and> repr s' (M(k := None))
    \<and> lookup s' p' = (if k' = k then Some (result None) else lookup s p')"
proof -
  from remove_law [OF assms(1,2)] obtain s' where s': "remove s p = Some (result (M k), s')" "repr s' (M(k := None))" by blast
  with lookup_law [OF s'(2) assms(3)] lookup_law [OF assms(1,3)] show ?thesis by simp
qed

end

interpretation hash_map: kv_store "\<lambda>s M. ht_repr m f s M \<and> KeySize (snd s) = n"
  "\<lambda>k p. p \<noteq> NULL \<and> ld_bytes m p (unat n) = Some k" "fresh_entry m" or_null
  "\<lambda>(h, t). HashTableLookup m h t" "\<lambda>(h, t). HashTableInsert m h t" "\<lambda>(h, t). HashTableRemove m h t" for m f n
proof
  fix s M k p
  assume r: "ht_repr m f s M \<and> KeySize (snd s) = n"
  { assume "p \<noteq> NULL \<and> ld_bytes m p (unat n) = Some k"
    with r show "(case s of (h, t) \<Rightarrow> HashTableLookup m h t) p = Some (or_null (M k))"
      using HashTableLookup_ok [of m f "fst s" "snd s" M p k] by (cases s) auto }
  { assume "p \<noteq> NULL \<and> ld_bytes m p (unat n) = Some k"
    with r show "\<exists>s'. (case s of (h, t) \<Rightarrow> HashTableRemove m h t) p = Some (or_null (M k), s')
        \<and> ht_repr m f s' (M(k := None)) \<and> KeySize (snd s') = n"
      using HashTableRemove_ok [of m f "fst s" "snd s" M p k] by (cases s) auto }
  { fix e assume "fresh_entry m s M k e"
    with r show "\<exists>s'. (case s of (h, t) \<Rightarrow> HashTableInsert m h t) e = Some (or_null (M k), s')
        \<and> ht_repr m f s' (M(k \<mapsto> e)) \<and> KeySize (snd s') = n"
      using HashTableInsert_ok [of m f "fst s" "snd s" M k e] by (cases s) auto }
qed

section \<open>Properties\<close>

text \<open>A table of two buckets at 0x1000 for entries with a two byte key 16 bytes behind them.\<close>

definition ex_keys :: mem where
  "ex_keys = [0x110 \<mapsto> 5, 0x111 \<mapsto> 0, 0x210 \<mapsto> 5, 0x211 \<mapsto> 1]"

definition ex_heap :: lheap where
  "ex_heap = (\<lambda>p. if p \<in> {0x1000, 0x1010, 0x1020, 0x100, 0x200} then Some \<lparr>Flink = 0, Blink = 0\<rparr> else None)"

definition ex_table0 :: HASH_TABLE where
  "ex_table0 = \<lparr>MaxKeys = 2, KeySize = 2, NumberOfElements = 0, OffsetToKey = 0, HashFunc = \<lambda>_ _ _ _. None, TableData = NULL\<rparr>"

definition ex_table :: HASH_TABLE where
  "ex_table = ex_table0\<lparr>TableData := 0x1000, HashFunc := HashFuncUniversal, OffsetToKey := 16\<rparr>"

lemma ex_table_simps [simp]: "MaxKeys ex_table = 2" "KeySize ex_table = 2" "HashFunc ex_table = HashFuncUniversal"
  "HashTableObtainKeyAddress ex_table e = e + 16"
  by (simp_all add: ex_table_def ex_table0_def HashTableObtainKeyAddress_def)

lemma ex_head: "Entries ex_table 0 = 0x1000" "Entries ex_table 1 = 0x1010" "Entries ex_table 2 = 0x1020"
  by (simp_all add: Entries_def ex_table_def)

lemma ex_table_init:
  "HashTablePreinit 2 2 = Some (32, ex_table0)" "heads_ok ex_heap ex_table"
  using head_inj [of ex_table]
  by (auto simp: HashTablePreinit_def ex_table0_def heads_ok_def less_2_cases_iff ex_head ex_heap_def)

definition ex_hash :: "BYTE list \<Rightarrow> nat" where
  "ex_hash ks = (1701 * (le_value ks mod 10007) + 59) mod 10007 mod 2"

lemma ex_hash_ok: "hash_ok ex_keys ex_table ex_hash"
  using HashFuncUniversal_ok [of ex_table ex_keys] by (simp add: ex_hash_def [abs_def])

lemma ex_table_repr:
  "\<exists>h. HashTableInit ex_heap ex_table0 0x1000 HashFuncUniversal 16 = Some (h, ex_table)
    \<and> ht_repr ex_keys ex_hash (h, ex_table) Map.empty \<and> dom h = dom ex_heap"
  using HashTableInit_ok [OF ex_table_init(1), where d = "0x1000" and h = ex_heap and hf = HashFuncUniversal and off = 16 and m = ex_keys and f = ex_hash]
    ex_table_init(2) ex_hash_ok ht_repr_empty by (auto simp: ex_table_def)

lemma ex_fresh: "dom h = dom ex_heap \<Longrightarrow> fresh_entry ex_keys (h, ex_table) Map.empty [5, 0] 0x100"
  by (auto simp: fresh_entry_def keyed_def key_of_def ex_keys_def ld_bytes_2 less_2_cases_iff ex_head ex_heap_def dom_def split: if_splits)

text \<open>
  C13: the hash table is a finite map. When a table represents the map \<open>M\<close>, looking a key up returns the
  entry of \<open>M\<close> or NULL; inserting an entry with key \<open>k\<close> returns the entry it replaces and leads to a
  table that represents \<open>M\<close> updated at \<open>k\<close>, so the new entry is found and all other keys are as before;
  removing a key returns its entry and deletes it; the element count is maintained.
\<close>

theorem hash_table_is_map:
  assumes "ht_repr m f (h, t) M" and "k2 \<noteq> NULL" and "ld_bytes m k2 (unat (KeySize t)) = Some ks2"
    and "fresh_entry m (h, t) M ks e"
  shows "HashTableLookup m h t k2 = Some (or_null (M ks2))
    \<and> (\<exists>h' t'. HashTableInsert m h t e = Some (or_null (M ks), h', t') \<and> ht_repr m f (h', t') (M(ks \<mapsto> e))
        \<and> HashTableLookup m h' t' k2 = (if ks2 = ks then Some e else HashTableLookup m h t k2)
        \<and> HashTableSize t' = HashTableSize t + (if M ks = None then 1 else 0))
    \<and> (\<exists>h' t'. HashTableRemove m h t k2 = Some (or_null (M ks2), h', t') \<and> ht_repr m f (h', t') (M(ks2 := None))
        \<and> HashTableLookup m h' t' k2 = Some NULL)"
proof -
  have r: "ht_repr m f (h, t) M \<and> KeySize (snd (h, t)) = KeySize t" using assms(1) by simp
  have k: "k2 \<noteq> NULL \<and> ld_bytes m k2 (unat (KeySize t)) = Some ks2" using assms(2,3) by simp
  from hash_map.insert_lookup [OF r assms(4) k] HashTableInsert_ok [OF assms(1,4)]
  have "\<exists>h' t'. HashTableInsert m h t e = Some (or_null (M ks), h', t') \<and> ht_repr m f (h', t') (M(ks \<mapsto> e))
      \<and> HashTableLookup m h' t' k2 = (if ks2 = ks then Some e else HashTableLookup m h t k2)
      \<and> HashTableSize t' = HashTableSize t + (if M ks = None then 1 else 0)"
    by (auto simp: HashTableSize_def split: if_splits)
  with hash_map.remove_lookup [OF r k k] HashTableLookup_ok [OF assms(1-3)] show ?thesis by auto
qed

theorem hash_table_is_map_witness:
  "\<exists>h h' t'. HashTableInit ex_heap ex_table0 0x1000 HashFuncUniversal 16 = Some (h, ex_table)
    \<and> HashTableInsert ex_keys h ex_table 0x100 = Some (NULL, h', t') \<and> HashTableLookup ex_keys h' t' 0x110 = Some 0x100"
proof -
  from ex_table_repr obtain h where h: "HashTableInit ex_heap ex_table0 0x1000 HashFuncUniversal 16 = Some (h, ex_table)"
    "ht_repr ex_keys ex_hash (h, ex_table) Map.empty" "dom h = dom ex_heap" by blast
  have "ld_bytes ex_keys 0x110 (unat (KeySize ex_table)) = Some [5, 0]" by (simp add: ex_keys_def ld_bytes_2)
  from hash_table_is_map [OF h(2) _ this ex_fresh [OF h(3)]] h(1) show ?thesis by auto
qed

text \<open>
  an initialised table represents the empty map with either of the two hash functions of the
  library, for keys of one to eight bytes: both hash functions return an index inside the table that
  depends on the bytes of the key only, without overflow.
\<close>

theorem hash_table_init_empty:
  assumes "HashTablePreinit n k = Some (sz, t0)" and "d \<noteq> NULL" and "k \<noteq> 0" and "unat k \<le> 8"
    and "hf = HashFuncGenericIncremental \<or> hf = HashFuncUniversal"
    and "heads_ok h (t0\<lparr>TableData := d, HashFunc := hf, OffsetToKey := off\<rparr>)"
  shows "sz = n * 16 \<and> (\<exists>f h' t. HashTableInit h t0 d hf off = Some (h', t) \<and> ht_repr m f (h', t) Map.empty \<and> HashTableSize t = 0)"
proof -
  let ?t = "t0\<lparr>TableData := d, HashFunc := hf, OffsetToKey := off\<rparr>"
  have t0: "MaxKeys t0 = n" "KeySize t0 = k" "n \<noteq> 0" "sz = n * 16" "NumberOfElements t0 = 0"
    using assms(1) by (auto simp: HashTablePreinit_def bind_ASSERT split: if_splits)
  have "\<exists>f. hash_ok m ?t f"
    using assms(4,5) t0 HashFuncGenericIncremental_ok [of ?t m] HashFuncUniversal_ok [of ?t m] by auto
  then obtain f where "hash_ok m ?t f" ..
  from HashTableInit_ok [OF assms(1-3,6) this] obtain h'
    where "HashTableInit h t0 d hf off = Some (h', ?t)" "ht_inv m f h' ?t (\<lambda>_. [])" by blast
  with ht_repr_empty t0 show ?thesis by (fastforce simp: HashTableSize_def)
qed

theorem hash_table_init_empty_witness:
  "\<exists>f h' t. HashTableInit ex_heap ex_table0 0x1000 HashFuncUniversal 16 = Some (h', t) \<and> ht_repr ex_keys f (h', t) Map.empty"
  using hash_table_init_empty [OF ex_table_init(1), where d = "0x1000" and h = ex_heap and hf = HashFuncUniversal and off = 16 and m = ex_keys] ex_table_init(2)
  by (auto simp: ex_table_def)

text \<open>
  C14: If the list head behind the array of buckets is readable memory, \<open>HashTableClear\<close> empties the table and calls the
  free function once for every entry it held. (The iterator reads this list head after the last bucket; if it is not
  readable, the access faults: \<open>hash_iterator_overrun\<close>.)
\<close>

theorem hash_table_clear_spec:
  assumes "ht_inv m f h t B" and "readable_end h t" and "MaxKeys t \<noteq> 0"
  shows "\<exists>h' t'. HashTableClear h t (Some g) c = Some (h', t', fold g (concat (map B [0..<unat (MaxKeys t)])) c)
    \<and> ht_repr m f (h', t') Map.empty \<and> HashTableSize t' = 0"
proof -
  have N: "0 < unat (MaxKeys t)" using assms(3) by (simp add: unat_gt_0)
  then have ok: "bucket_ok m f h t 0 (B 0)" using assms(1) by (simp add: ht_inv_def)
  from ListIteratorInit_ok [of h "head t 0" "B 0"] ok obtain it
    where it: "ListIteratorInit h (head t 0) = Some it" "iter_rest it (head t 0) (B 0)" by (auto simp: bucket_ok_def)
  let ?it = "\<lparr>KeyIndex = 0, CurrentKeyIterator = it\<rparr>"
  have "iter_at t B ?it 0 (B 0)" using it(2) N by (auto simp: iter_at_def)
  from HashTableClear_loop_ok [OF assms(1,2) this, of "Some g" c] obtain h' t' B'
    where c: "HashTableClear_loop (Some g) h t ?it c = Some (h', t', fold g (B 0 @ later t B 0) c)"
      "ht_inv m f h' t' B'" "\<forall>j < unat (MaxKeys t). B' j = []" "MaxKeys t' = MaxKeys t" by auto
  have "B 0 @ later t B 0 = concat (map B [0..<unat (MaxKeys t)])" using N by (simp add: upt_rec [of 0])
  moreover have "ht_repr m f (h', t') Map.empty" using c(2-4) by (auto simp: ht_repr_def)
  moreover have "NumberOfElements t' = 0" using c(2-4) by (simp add: ht_inv_def)
  ultimately show ?thesis using it(1) c(1) by (fastforce simp: HashTableClear_def HashTableIteratorInit_def HashTableSize_def)
qed

lemma ex_bucket:
  assumes "ht_repr m f (h, t) [k \<mapsto> e]" and "unat (MaxKeys t) = 2"
  obtains B where "ht_inv m f h t B" "concat (map B [0..<unat (MaxKeys t)]) = [e]"
proof -
  from assms obtain B where B: "ht_inv m f h t B" "\<And>k' e'. [k \<mapsto> e] k' = Some e' \<longleftrightarrow> f k' < 2 \<and> e' \<in> set (B (f k')) \<and> key_of m t e' = k'"
    by (auto simp: ht_repr_def)
  have ok: "bucket_ok m f h t i (B i)" if "i < 2" for i using B(1) that assms(2) by (simp add: ht_inv_def)
  have only: "e' = e \<and> i = f k" if "i < 2" "e' \<in> set (B i)" for i e'
    using ok [OF that(1)] that B(2) [of "key_of m t e'" e'] by (auto simp: bucket_ok_def split: if_splits)
  have e: "f k < 2" "e \<in> set (B (f k))" using B(2) [of k e] by auto
  have "set (B (f k)) = {e}" using e only [OF e(1)] by blast
  moreover have "distinct (B (f k))" using ok [OF e(1)] by (auto simp: bucket_ok_def is_list_def)
  ultimately have "length (B (f k)) = Suc 0" "set (B (f k)) = {e}" using distinct_card [of "B (f k)"] by simp_all
  then have "B (f k) = [e]" by (auto simp: length_Suc_conv)
  moreover have "B j = []" if "j < 2" "j \<noteq> f k" for j using only [OF that(1)] that(2) by (cases "B j") auto
  ultimately have "B 0 @ B 1 = [e]" using e(1) by (cases "f k = 0") (auto simp: less_2_cases_iff)
  then show thesis using B(1) assms(2) by (intro that [of B]) (simp_all add: upt_rec)
qed

theorem hash_table_clear_spec_witness:
  "\<exists>h h1 t1 h' t'. HashTableInit ex_heap ex_table0 0x1000 HashFuncUniversal 16 = Some (h, ex_table)
    \<and> HashTableInsert ex_keys h ex_table 0x100 = Some (NULL, h1, t1)
    \<and> HashTableClear h1 t1 (Some (\<lambda>e freed. freed @ [e])) [] = Some (h', t', [0x100]) \<and> HashTableSize t' = 0"
proof -
  from ex_table_repr obtain h where h: "HashTableInit ex_heap ex_table0 0x1000 HashFuncUniversal 16 = Some (h, ex_table)"
    "ht_repr ex_keys ex_hash (h, ex_table) Map.empty" "dom h = dom ex_heap" by blast
  from HashTableInsert_ok [OF h(2) ex_fresh [OF h(3)]] obtain h1 t1 where t1: "HashTableInsert ex_keys h ex_table 0x100 = Some (NULL, h1, t1)"
    "ht_repr ex_keys ex_hash (h1, t1) [[5, 0] \<mapsto> 0x100]" "dom h1 = dom ex_heap" "t1 = ex_table\<lparr>NumberOfElements := NumberOfElements ex_table + 1\<rparr>"
    using h(3) by auto
  have "readable_end h1 t1" unfolding readable_end_def t1(3,4) by (simp add: Entries_def ex_table_def ex_table0_def ex_heap_def dom_def)
  moreover obtain B where B: "ht_inv ex_keys ex_hash h1 t1 B" "concat (map B [0..<unat (MaxKeys t1)]) = [0x100]"
    by (rule ex_bucket [OF t1(2)]) (simp add: t1(4), rule that)
  ultimately show ?thesis using h(1) t1(1) hash_table_clear_spec [of ex_keys ex_hash h1 t1 B "\<lambda>e freed. freed @ [e]" "[]"] t1(4) by auto
qed

text \<open>
  when the last bucket is exhausted \<open>HashTableIteratorNext\<close> reads the list head behind the array: on
  a table whose array is exactly as large as \<open>HashTablePreinit\<close> asked for, iterating over the empty table
  accesses memory outside of it.
\<close>

theorem hash_iterator_overrun:
  "\<exists>m f h t it. ht_repr m f (h, t) Map.empty \<and> HashTableIteratorInit h t = Some it
    \<and> dom h = {head t i |i. i < unat (MaxKeys t)} \<and> HashTableIteratorNext h t it = None"
proof -
  define t where "t = \<lparr>MaxKeys = 1, KeySize = 1, NumberOfElements = 0, OffsetToKey = 16, HashFunc = HashFuncUniversal, TableData = 0x1000\<rparr>"
  define h :: lheap where "h = [0x1000 \<mapsto> \<lparr>Flink = 0x1000, Blink = 0x1000\<rparr>]"
  define l where "l = \<lparr>ListHead = 0x1000, CurrentEntry = 0x1000\<rparr>"
  have H: "Entries t 0 = 0x1000" "Entries t 1 = 0x1010" by (simp_all add: Entries_def t_def)
  have "ht_inv Map.empty (\<lambda>ks. (1701 * (le_value ks mod 10007) + 59) mod 10007 mod unat (MaxKeys t)) h t (\<lambda>_. [])"
    using HashFuncUniversal_ok [of t Map.empty] H
    by (auto simp: ht_inv_def bucket_ok_def t_def h_def is_list_def link_def rd_Flink_def rd_Blink_def)
  then have "ht_repr Map.empty (\<lambda>ks. (1701 * (le_value ks mod 10007) + 59) mod 10007 mod unat (MaxKeys t)) (h, t) Map.empty"
    by (rule ht_repr_empty)
  moreover have "HashTableIteratorInit h t = Some \<lparr>KeyIndex = 0, CurrentKeyIterator = l\<rparr>"
    using H by (simp add: HashTableIteratorInit_def ListIteratorInit_def rd_Flink_def h_def l_def)
  moreover have "HashTableIteratorNext h t \<lparr>KeyIndex = 0, CurrentKeyIterator = l\<rparr> = None"
    using H by (subst HashTableIteratorNext.simps)
      (simp add: ListIteratorNext_def ListIteratorInit_def rd_Flink_def h_def l_def t_def)
  moreover have "dom h = {head t i |i. i < unat (MaxKeys t)}"
    using H by (auto simp: h_def t_def)
  ultimately show ?thesis by blast
qed

end
