(* ===== verification/Sync.thy ===== *)
theory Sync
  imports Locks
begin

text \<open>
  Three small synchronisation objects of \<open>CommonLib\<close>: reference counts (\<open>ref_cnt.c\<close>), busy-wait
  events (\<open>event.c\<close>) and the check-in queue (\<open>checkin_queue.c\<close>). Every shared access of theirs is a
  single interlocked operation, so a sequence of calls is a sequence of atomic steps.
\<close>

section \<open>Reference counts\<close>

text \<open>The free function acts on the state \<open>'s\<close> of the program that owns the object.\<close>

record 's REF_COUNT =
  ReferenceCount :: DWORD
  FreeFunction :: "(ptr \<Rightarrow> 's \<Rightarrow> 's) option"
  Context :: ptr

definition RfcPreInit :: "'s REF_COUNT \<Rightarrow> 's REF_COUNT" where
  "RfcPreInit Object = \<lparr>ReferenceCount = 0, FreeFunction = None, Context = NULL\<rparr>"

definition RfcInit :: "'s REF_COUNT \<Rightarrow> (ptr \<Rightarrow> 's \<Rightarrow> 's) option \<Rightarrow> ptr \<Rightarrow> STATUS \<times> 's REF_COUNT" where
  "RfcInit Object fr ctx = (STATUS_SUCCESS, Object\<lparr>FreeFunction := fr, Context := ctx, ReferenceCount := 1\<rparr>)"

definition RfcReference :: "'s REF_COUNT \<Rightarrow> (DWORD \<times> 's REF_COUNT) option" where
  "RfcReference Object = do {
     let newRefCount = ReferenceCount Object + 1;
     ASSERT (MAX_DWORD > newRefCount);
     ASSERT (1 \<le> newRefCount);
     Some (newRefCount, Object\<lparr>ReferenceCount := newRefCount\<rparr>)
   }"

definition RfcDereference :: "'s REF_COUNT \<Rightarrow> 's \<Rightarrow> (DWORD \<times> 's REF_COUNT \<times> 's) option" where
  "RfcDereference Object s = do {
     let newRefCount = ReferenceCount Object - 1;
     ASSERT (MAX_DWORD \<noteq> newRefCount);
     let Object = Object\<lparr>ReferenceCount := newRefCount\<rparr>;
     let s = (if 0 = newRefCount then case FreeFunction Object of None \<Rightarrow> s | Some f \<Rightarrow> f (Context Object) s else s);
     Some (newRefCount, Object, s)
   }"

section \<open>Events\<close>

datatype EVENT_TYPE = EventTypeNotification | EventTypeSynchronization | EventTypeReserved

abbreviation EVENT_STATE_NOT_SIGNALED :: BYTE where "EVENT_STATE_NOT_SIGNALED \<equiv> 0"
abbreviation EVENT_STATE_SIGNALED :: BYTE where "EVENT_STATE_SIGNALED \<equiv> 1"

record EVENT =
  EvtState :: BYTE
  EventType :: EVENT_TYPE

definition EvtInitialize :: "EVENT option \<Rightarrow> EVENT_TYPE \<Rightarrow> bool \<Rightarrow> STATUS \<times> EVENT option" where
  "EvtInitialize Event type Signaled = (case Event of None \<Rightarrow> (STATUS_INVALID_PARAMETER1, None)
     | Some e \<Rightarrow>
       if type = EventTypeReserved then (STATUS_INVALID_PARAMETER2, Some e)
       else (STATUS_SUCCESS, Some (e\<lparr>EventType := type,
              EvtState := if Signaled then EVENT_STATE_SIGNALED else EVENT_STATE_NOT_SIGNALED\<rparr>)))"

definition EvtSignal :: "EVENT \<Rightarrow> EVENT" where
  "EvtSignal Event = Event\<lparr>EvtState := EVENT_STATE_SIGNALED\<rparr>"

definition EvtClearSignal :: "EVENT \<Rightarrow> EVENT" where
  "EvtClearSignal Event = Event\<lparr>EvtState := EVENT_STATE_NOT_SIGNALED\<rparr>"

text \<open>The interlocked operation of the two functions below: the previous state and the event.\<close>

definition evt_cmpxchg :: "EVENT \<Rightarrow> BYTE \<times> EVENT" where
  "evt_cmpxchg Event =
     (let exchangeValue = (if EventTypeNotification = EventType Event then EVENT_STATE_SIGNALED else EVENT_STATE_NOT_SIGNALED)
      in (EvtState Event, if EvtState Event = EVENT_STATE_SIGNALED then Event\<lparr>EvtState := exchangeValue\<rparr> else Event))"

partial_function (option) EvtWaitForSignal :: "EVENT \<Rightarrow> EVENT option" where
  "EvtWaitForSignal Event =
     (let (v, Event) = evt_cmpxchg Event
      in if EVENT_STATE_SIGNALED \<noteq> v then EvtWaitForSignal Event else Some Event)"

definition EvtIsSignaled :: "EVENT \<Rightarrow> bool \<times> EVENT" where
  "EvtIsSignaled Event = (let (initialValue, Event) = evt_cmpxchg Event in (initialValue = EVENT_STATE_SIGNALED, Event))"

section \<open>Check-in queue\<close>

record CHECKIN_QUEUE =
  CqArray :: "bool list option"
  NumberOfThreads :: DWORD
  CqBufferSize :: DWORD

definition zero_CHECKIN_QUEUE :: CHECKIN_QUEUE where
  "zero_CHECKIN_QUEUE = \<lparr>CqArray = None, NumberOfThreads = 0, CqBufferSize = 0\<rparr>"

definition CheckinQueuePreInit :: "DWORD \<Rightarrow> (DWORD \<times> CHECKIN_QUEUE) option" where
  "CheckinQueuePreInit n = do {
     ASSERT (0 < n);
     let Queue = zero_CHECKIN_QUEUE\<lparr>NumberOfThreads := n, CqBufferSize := n * 1\<rparr>;
     Some (CqBufferSize Queue, Queue)
   }"

text \<open>The buffer that the caller passes is the array of flags from that address on.\<close>

definition CheckinQueueInit :: "CHECKIN_QUEUE \<Rightarrow> bool list option \<Rightarrow> CHECKIN_QUEUE option" where
  "CheckinQueueInit Queue QueueBuffer = do {
     buf \<leftarrow> QueueBuffer;
     ASSERT (0 < NumberOfThreads Queue);
     let n = unat (NumberOfThreads Queue);
     ASSERT (n \<le> length buf);
     Some (Queue\<lparr>CqArray := Some (replicate n False @ drop n buf)\<rparr>)
   }"

definition CheckinQueueUninit :: "CHECKIN_QUEUE \<Rightarrow> CHECKIN_QUEUE" where
  "CheckinQueueUninit Queue = zero_CHECKIN_QUEUE"

primrec CheckinQueueMarkPresence_loop :: "nat \<Rightarrow> bool list \<Rightarrow> nat \<Rightarrow> bool list option" where
  "CheckinQueueMarkPresence_loop 0 a i = Some a"
| "CheckinQueueMarkPresence_loop (Suc n) a i = do {
     b \<leftarrow> rd_at a i;
     if \<not> b then wr_at a i True else CheckinQueueMarkPresence_loop n a (Suc i)
   }"

definition CheckinQueueMarkPresence :: "CHECKIN_QUEUE \<Rightarrow> CHECKIN_QUEUE option" where
  "CheckinQueueMarkPresence Queue = do {
     ASSERT (0 < NumberOfThreads Queue);
     a \<leftarrow> CqArray Queue;
     a \<leftarrow> CheckinQueueMarkPresence_loop (unat (NumberOfThreads Queue)) a 0;
     Some (Queue\<lparr>CqArray := Some a\<rparr>)
   }"

text \<open>One pass over the flags, and the loop that repeats it until all of them are set.\<close>

definition CheckinQueueWaitOn_pass :: "bool list \<Rightarrow> nat \<Rightarrow> bool option" where
  "CheckinQueueWaitOn_pass a n = for_upto n (\<lambda>i semaphoreGreen. do {
     b \<leftarrow> rd_at a i;
     Some (if \<not> b then False else semaphoreGreen)
   }) True"

partial_function (option) CheckinQueueWaitOn_loop :: "bool list \<Rightarrow> nat \<Rightarrow> unit option" where
  "CheckinQueueWaitOn_loop a n = do {
     semaphoreGreen \<leftarrow> CheckinQueueWaitOn_pass a n;
     if semaphoreGreen then Some () else CheckinQueueWaitOn_loop a n
   }"

definition CheckinQueueWaitOn :: "CPU \<Rightarrow> CHECKIN_QUEUE \<Rightarrow> bool \<Rightarrow> DWORD \<Rightarrow> CPU option" where
  "CheckinQueueWaitOn cpu Queue WaitAll NumberOfCheckinsToWait = do {
     ASSERT (0 < NumberOfThreads Queue);
     let numberOfThreads = (if WaitAll then NumberOfThreads Queue else NumberOfCheckinsToWait);
     let (oldState, cpu) = CpuIntrDisable cpu;
     a \<leftarrow> CqArray Queue;
     CheckinQueueWaitOn_loop a (unat numberOfThreads);
     Some (CpuIntrSetState oldState cpu)
   }"

section \<open>Lemmas\<close>

text \<open>A sequence of calls on a reference count.\<close>

datatype rfc_call = Reference | Dereference

fun rfc_run :: "rfc_call list \<Rightarrow> 's REF_COUNT \<Rightarrow> 's \<Rightarrow> ('s REF_COUNT \<times> 's) option" where
  "rfc_run [] ob s = Some (ob, s)"
| "rfc_run (Reference # cs) ob s = do { (_, ob) \<leftarrow> RfcReference ob; rfc_run cs ob s }"
| "rfc_run (Dereference # cs) ob s = do { (_, ob, s) \<leftarrow> RfcDereference ob s; rfc_run cs ob s }"

text \<open>The references held after a sequence of calls that starts with \<open>n\<close> of them; no call on a dead object.\<close>

fun held_refs :: "nat \<Rightarrow> rfc_call list \<Rightarrow> nat option" where
  "held_refs n [] = Some n"
| "held_refs n (c # cs) = (if n = 0 then None else case c of Reference \<Rightarrow> held_refs (Suc n) cs | Dereference \<Rightarrow> held_refs (n - 1) cs)"

definition rfc_free :: "'s REF_COUNT \<Rightarrow> 's \<Rightarrow> 's" where
  "rfc_free ob s = (case FreeFunction ob of None \<Rightarrow> s | Some f \<Rightarrow> f (Context ob) s)"

lemma rfc_free_count [simp]: "rfc_free (ob\<lparr>ReferenceCount := n\<rparr>) s = rfc_free ob s"
  by (simp add: rfc_free_def split: option.split)

lemma held_refs_0: "held_refs 0 cs = Some k \<Longrightarrow> cs = [] \<and> k = 0"
  by (cases cs) auto

lemma rfc_run_ok:
  assumes "held_refs n cs = Some k" and "ReferenceCount ob = of_nat n" and "n \<noteq> 0" and "n + length cs < 2 ^ 32 - 1"
  shows "rfc_run cs ob s = Some (ob\<lparr>ReferenceCount := of_nat k\<rparr>, if k = 0 then rfc_free ob s else s)"
  using assms
proof (induction cs arbitrary: n ob s)
  case Nil
  then show ?case by simp
next
  case (Cons c cs)
  have n: "n < 2 ^ 32 - 1" using Cons.prems(4) by simp
  show ?case
  proof (cases c)
    case Reference
    have u: "unat (of_nat (Suc n) :: DWORD) = Suc n" using Cons.prems(4) by (simp add: unat_of_nat del: of_nat_Suc)
    then have g: "MAX_DWORD > (of_nat (Suc n) :: DWORD)" "1 \<le> (of_nat (Suc n) :: DWORD)"
      using Cons.prems(4) by (simp_all add: word_less_nat_alt word_le_nat_alt del: of_nat_Suc)
    have "RfcReference ob = Some (of_nat (Suc n), ob\<lparr>ReferenceCount := of_nat (Suc n)\<rparr>)"
      using g Cons.prems(2) by (simp add: RfcReference_def Let_def add.commute)
    with Cons.IH [of "Suc n" "ob\<lparr>ReferenceCount := of_nat (Suc n)\<rparr>"] Cons.prems Reference show ?thesis
      by (simp del: of_nat_Suc)
  next
    case Dereference
    have u: "unat (of_nat (n - 1) :: DWORD) = n - 1" using n by (simp add: unat_of_nat)
    have d: "ReferenceCount ob - 1 = of_nat (n - 1)" using Cons.prems(2,3) by (simp add: of_nat_diff)
    have ne: "(of_nat (n - 1) :: DWORD) \<noteq> MAX_DWORD"
    proof
      assume "(of_nat (n - 1) :: DWORD) = MAX_DWORD"
      then have "unat (of_nat (n - 1) :: DWORD) = unat MAX_DWORD" by (rule arg_cong)
      with u n show False by simp
    qed
    have z: "(of_nat (n - 1) :: DWORD) = 0 \<longleftrightarrow> n - 1 = 0" using u by (metis unat_eq_zero)
    have r: "RfcDereference ob s = Some (of_nat (n - 1), ob\<lparr>ReferenceCount := of_nat (n - 1)\<rparr>, if n - 1 = 0 then rfc_free ob s else s)"
      using ne z unfolding RfcDereference_def d by (auto simp: rfc_free_def Let_def split: option.split)
    have h: "held_refs (n - 1) cs = Some k" using Cons.prems(1,3) Dereference by simp
    show ?thesis
    proof (cases "n - 1 = 0")
      case True
      with h held_refs_0 have "cs = []" "k = 0" by auto
      with r True Dereference show ?thesis by simp
    next
      case False
      with Cons.IH [OF h, of "ob\<lparr>ReferenceCount := of_nat (n - 1)\<rparr>" s] Cons.prems(4) r Dereference show ?thesis
        by simp
    qed
  qed
qed

lemma EvtWaitForSignal_signaled:
  "EvtState e = EVENT_STATE_SIGNALED \<Longrightarrow> EvtWaitForSignal e = Some (snd (evt_cmpxchg e))"
  by (subst EvtWaitForSignal.simps) (simp add: evt_cmpxchg_def Let_def)

lemma EvtWaitForSignal_not_signaled:
  assumes "EvtState e \<noteq> EVENT_STATE_SIGNALED"
  shows "EvtWaitForSignal e = None"
proof -
  have "EvtState e = EVENT_STATE_SIGNALED" if "EvtWaitForSignal e = Some e'" for e e'
    by (rule EvtWaitForSignal.raw_induct [of "\<lambda>e _. EvtState e = EVENT_STATE_SIGNALED", OF _ that])
      (auto simp: evt_cmpxchg_def Let_def split: if_splits)
  with assms show ?thesis by (cases "EvtWaitForSignal e") auto
qed

text \<open>The flags after \<open>k\<close> check-ins.\<close>

definition checked_in :: "CHECKIN_QUEUE \<Rightarrow> nat \<Rightarrow> bool" where
  "checked_in q k = (\<exists>a. CqArray q = Some a \<and> NumberOfThreads q \<noteq> 0 \<and> unat (NumberOfThreads q) \<le> length a
     \<and> (\<forall>i < unat (NumberOfThreads q). a ! i \<longleftrightarrow> i < k))"

lemma MarkPresence_loop_ok:
  assumes "\<forall>j < i + n. a ! j \<longleftrightarrow> j < k" and "i + n \<le> length a" and "i \<le> k"
  shows "CheckinQueueMarkPresence_loop n a i = Some (if k < i + n then a[k := True] else a)"
  using assms
proof (induction n arbitrary: i)
  case (Suc n)
  then have "a ! i \<longleftrightarrow> i < k" by auto
  with Suc show ?case by (cases "i = k") auto
qed simp

lemma CheckinQueueMarkPresence_ok:
  assumes "checked_in q k"
  shows "\<exists>q'. CheckinQueueMarkPresence q = Some q' \<and> checked_in q' (Suc k) \<and> NumberOfThreads q' = NumberOfThreads q"
proof -
  from assms obtain a where a: "CqArray q = Some a" "NumberOfThreads q \<noteq> 0" "unat (NumberOfThreads q) \<le> length a"
    "\<forall>i < unat (NumberOfThreads q). a ! i \<longleftrightarrow> i < k" by (auto simp: checked_in_def)
  have "0 < NumberOfThreads q" using a(2) by (simp add: word_gt_0)
  moreover have "\<forall>i < unat (NumberOfThreads q). (if k < unat (NumberOfThreads q) then a[k := True] else a) ! i \<longleftrightarrow> i < Suc k"
    using a(3,4) by (auto simp: nth_list_update less_Suc_eq)
  ultimately show ?thesis
    using a MarkPresence_loop_ok [of 0 "unat (NumberOfThreads q)" a k] by (auto simp: CheckinQueueMarkPresence_def checked_in_def)
qed

primrec mark_all :: "nat \<Rightarrow> CHECKIN_QUEUE \<Rightarrow> CHECKIN_QUEUE option" where
  "mark_all 0 q = Some q"
| "mark_all (Suc n) q = do { q \<leftarrow> mark_all n q; CheckinQueueMarkPresence q }"

lemma mark_all_ok:
  "checked_in q 0 \<Longrightarrow> \<exists>q'. mark_all k q = Some q' \<and> checked_in q' k \<and> NumberOfThreads q' = NumberOfThreads q"
proof (induction k)
  case (Suc k)
  then obtain q' where "mark_all k q = Some q'" "checked_in q' k" "NumberOfThreads q' = NumberOfThreads q" by auto
  with CheckinQueueMarkPresence_ok [of q' k] show ?case by auto
qed simp

lemma WaitOn_pass_ok:
  assumes "n \<le> length a"
  shows "CheckinQueueWaitOn_pass a n = Some (\<forall>i < n. a ! i)"
proof -
  have "\<exists>g. CheckinQueueWaitOn_pass a n = Some g \<and> g = (\<forall>i < n. a ! i)"
    unfolding CheckinQueueWaitOn_pass_def
    by (rule for_upto_rule) (use assms in \<open>auto simp: less_Suc_eq\<close>)
  then show ?thesis by simp
qed

lemma WaitOn_loop_ok:
  assumes "n \<le> length a"
  shows "CheckinQueueWaitOn_loop a n = (if \<forall>i < n. a ! i then Some () else None)"
proof (cases "\<forall>i < n. a ! i")
  case True
  then show ?thesis by (subst CheckinQueueWaitOn_loop.simps) (simp add: WaitOn_pass_ok [OF assms])
next
  case False
  have "CheckinQueueWaitOn_pass a n = Some True" if "CheckinQueueWaitOn_loop a n = Some u" for u
    by (rule CheckinQueueWaitOn_loop.raw_induct [of "\<lambda>a n _. CheckinQueueWaitOn_pass a n = Some True", OF _ that])
      (auto split: Option.bind_splits if_splits)
  with False WaitOn_pass_ok [OF assms] show ?thesis by (cases "CheckinQueueWaitOn_loop a n") auto
qed

section \<open>Properties\<close>

text \<open>
  the lifetime of a reference counted object. Whatever sequence of references and dereferences runs
  on a freshly initialised object, as long as only holders of a reference make calls, no assertion fails,
  the count is the number of references held, and the free function is called exactly when the last
  reference is dropped, with the registered context.
\<close>

theorem rfc_lifetime:
  assumes "held_refs 1 cs = Some k" and "length cs < 2 ^ 32 - 2"
  shows "\<exists>ob'. rfc_run cs (snd (RfcInit (RfcPreInit ob) (Some f) ctx)) s = Some (ob', if k = 0 then f ctx s else s)
    \<and> ReferenceCount ob' = of_nat k"
proof -
  let ?ob = "snd (RfcInit (RfcPreInit ob) (Some f) ctx)"
  have "rfc_free ?ob s = f ctx s" "ReferenceCount ?ob = of_nat 1" by (simp_all add: rfc_free_def RfcInit_def RfcPreInit_def)
  with rfc_run_ok [OF assms(1), of ?ob s] assms(2) show ?thesis by simp
qed

theorem rfc_lifetime_witness:
  "\<exists>ob'. rfc_run [Reference, Dereference, Dereference]
      (snd (RfcInit (RfcPreInit \<lparr>ReferenceCount = 9, FreeFunction = None, Context = 9\<rparr>) (Some (\<lambda>_ n. n + 1)) 7)) (0::nat) = Some (ob', 1)"
proof -
  have "held_refs 1 [Reference, Dereference, Dereference] = Some 0" by simp
  from rfc_lifetime [OF this, of "\<lparr>ReferenceCount = 9, FreeFunction = None, Context = 9\<rparr>" "\<lambda>_ n. n + 1" 7 "0::nat"]
  show ?thesis by auto
qed

text \<open>
  events. A wait on a signaled event returns at once and on an event that is not signaled never
  returns by itself. A notification event stays signaled for every waiter; the signal of a
  synchronization event is consumed by the first test or wait, so that the next one does not see it.
\<close>

theorem event_semantics:
  assumes "EventType e \<noteq> EventTypeReserved"
  shows "\<exists>e1. EvtWaitForSignal (EvtSignal e) = Some e1 \<and> EvtIsSignaled (EvtSignal e) = (True, e1)
    \<and> fst (EvtIsSignaled e1) = (EventType e = EventTypeNotification)
    \<and> (EvtWaitForSignal e1 = None) = (EventType e = EventTypeSynchronization)
    \<and> EvtWaitForSignal (EvtClearSignal e) = None \<and> EvtIsSignaled (EvtClearSignal e) = (False, EvtClearSignal e)"
proof -
  have "EvtWaitForSignal (EvtSignal e) = Some (snd (evt_cmpxchg (EvtSignal e)))"
    by (rule EvtWaitForSignal_signaled) (simp add: EvtSignal_def)
  moreover have "EvtWaitForSignal (EvtClearSignal e) = None"
    by (rule EvtWaitForSignal_not_signaled) (simp add: EvtClearSignal_def)
  moreover have "(EvtWaitForSignal (snd (evt_cmpxchg (EvtSignal e))) = None) = (EventType e = EventTypeSynchronization)"
    using assms EvtWaitForSignal_signaled [of "snd (evt_cmpxchg (EvtSignal e))"]
      EvtWaitForSignal_not_signaled [of "snd (evt_cmpxchg (EvtSignal e))"]
    by (cases "EventType e") (simp_all add: evt_cmpxchg_def EvtSignal_def)
  ultimately show ?thesis
    using assms by (cases "EventType e") (auto simp: EvtIsSignaled_def evt_cmpxchg_def EvtSignal_def EvtClearSignal_def Let_def)
qed

theorem event_semantics_witness:
  "EvtWaitForSignal (EvtSignal \<lparr>EvtState = 0, EventType = EventTypeSynchronization\<rparr>) \<noteq> None"
  using event_semantics [of "\<lparr>EvtState = 0, EventType = EventTypeSynchronization\<rparr>"] by auto

text \<open>
  the check-in queue counts arrivals. After \<open>k\<close> threads marked their presence, waiting for \<open>n\<close> of them
  (or for all, \<open>n\<close> being the size of the queue) returns exactly when at least \<open>n\<close> have arrived, and
  restores the interrupt state; a larger \<open>n\<close> than the queue has slots is outside of the contract.
\<close>

theorem checkin_counts_arrivals:
  assumes "CheckinQueuePreInit slots = Some (sz, q0)" and "unat slots \<le> length buf"
    and "unat n \<le> unat slots" and "all \<longrightarrow> n = slots"
  shows "\<exists>q qk. sz = slots \<and> CheckinQueueInit q0 (Some buf) = Some q \<and> mark_all k q = Some qk
    \<and> CheckinQueueWaitOn cpu qk all n = (if unat n \<le> k then Some cpu else None)"
proof -
  have q0: "NumberOfThreads q0 = slots" "sz = slots" "0 < slots"
    using assms(1) by (auto simp: CheckinQueuePreInit_def bind_ASSERT split: if_splits)
  define q where "q = q0\<lparr>CqArray := Some (replicate (unat slots) False @ drop (unat slots) buf)\<rparr>"
  have q: "CheckinQueueInit q0 (Some buf) = Some q" "checked_in q 0" "NumberOfThreads q = slots"
    using assms(2) q0 by (auto simp: CheckinQueueInit_def checked_in_def nth_append q_def Let_def)
  from mark_all_ok [OF q(2), of k] obtain qk where qk: "mark_all k q = Some qk" "checked_in qk k" "NumberOfThreads qk = slots"
    using q(3) by auto
  from qk(2,3) obtain a where a: "CqArray qk = Some a" "unat slots \<le> length a" "\<forall>i < unat slots. a ! i \<longleftrightarrow> i < k"
    by (auto simp: checked_in_def)
  have n: "(if all then slots else n) = n" using assms(4) by simp
  have "(\<forall>i < unat n. a ! i) \<longleftrightarrow> unat n \<le> k"
    using a(3) assms(3) by (meson leI less_le_trans not_le order_less_irrefl)
  with WaitOn_loop_ok [of "unat n" a] a(1,2) assms(3) n qk(3) q0(3)
  have "CheckinQueueWaitOn cpu qk all n = (if unat n \<le> k then Some cpu else None)"
    by (auto simp: CheckinQueueWaitOn_def cpu_defs)
  with q(1) qk(1) q0(2) show ?thesis by blast
qed

theorem checkin_counts_arrivals_witness:
  "\<exists>q qk. CheckinQueueInit (zero_CHECKIN_QUEUE\<lparr>NumberOfThreads := 3, CqBufferSize := 3\<rparr>) (Some [True, True, True]) = Some q
    \<and> mark_all 2 q = Some qk \<and> CheckinQueueWaitOn (ex_cpu 1) qk False 2 = Some (ex_cpu 1)"
  using checkin_counts_arrivals [of 3 3 "zero_CHECKIN_QUEUE\<lparr>NumberOfThreads := 3, CqBufferSize := 3\<rparr>" "[True, True, True]" 2 False 2 "ex_cpu 1"]
  by (auto simp: CheckinQueuePreInit_def zero_CHECKIN_QUEUE_def)

end
