(* ===== verification/RwLocks.thy ===== *)
theory RwLocks
  imports Locks
begin

text \<open>
  The reader-writer spinlock (\<open>CommonLib/src/rw_spinlock.c\<close>) and its recursive variant
  (\<open>rec_rw_spinlock.c\<close>). As for the exclusive locks, the functions are given as a caller sees them and
  as a relation of atomic steps that any number of processors interleave.
\<close>

section \<open>Reader-writer spinlock\<close>

record RW_SPINLOCK =
  WaitingWriters :: WORD
  ActiveWriter :: WORD
  ActiveReaders :: WORD

definition RwSpinlockInit :: "RW_SPINLOCK \<Rightarrow> RW_SPINLOCK" where
  "RwSpinlockInit Spinlock = \<lparr>WaitingWriters = 0, ActiveWriter = 0, ActiveReaders = 0\<rparr>"

text \<open>
  The two DWORD compare-exchanges: the one at \<open>ActiveWriter\<close> covers \<open>ActiveWriter\<close> (low) and
  \<open>ActiveReaders\<close> (high), the one at \<open>WaitingWriters\<close> covers \<open>WaitingWriters\<close> and \<open>ActiveWriter\<close>; the
  pseudo writer \<^verbatim>\<open>MAX_WORD + 1\<close> sets the high word to 1. The result tells whether the old value was 0.
\<close>

definition writer_cas :: "RW_SPINLOCK \<Rightarrow> bool \<times> RW_SPINLOCK" where
  "writer_cas l = (if ActiveWriter l = 0 \<and> ActiveReaders l = 0 then (True, l\<lparr>ActiveWriter := 1, ActiveReaders := 0\<rparr>) else (False, l))"

definition reader_cas :: "RW_SPINLOCK \<Rightarrow> bool \<times> RW_SPINLOCK" where
  "reader_cas l = (if WaitingWriters l = 0 \<and> ActiveWriter l = 0 then (True, l\<lparr>WaitingWriters := 0, ActiveWriter := 1\<rparr>) else (False, l))"

partial_function (option) RwSpinlockAcquire_spin :: "(RW_SPINLOCK \<Rightarrow> bool \<times> RW_SPINLOCK) \<Rightarrow> RW_SPINLOCK \<Rightarrow> RW_SPINLOCK option" where
  "RwSpinlockAcquire_spin cas l = (let (ok, l) = cas l in if \<not> ok then RwSpinlockAcquire_spin cas l else Some l)"

definition RwSpinlockAcquire :: "CPU \<Rightarrow> RW_SPINLOCK \<Rightarrow> bool \<Rightarrow> (INTR_STATE \<times> CPU \<times> RW_SPINLOCK) option" where
  "RwSpinlockAcquire cpu l Exclusive = do {
     let (IntrState, cpu) = CpuIntrDisable cpu;
     if Exclusive then do {
       let l = l\<lparr>WaitingWriters := WaitingWriters l + 1\<rparr>;
       l \<leftarrow> RwSpinlockAcquire_spin writer_cas l;
       Some (IntrState, cpu, l\<lparr>WaitingWriters := WaitingWriters l - 1\<rparr>)
     }
     else do {
       l \<leftarrow> RwSpinlockAcquire_spin reader_cas l;
       let l = l\<lparr>ActiveReaders := ActiveReaders l + 1\<rparr>;
       ASSERT (1 = ActiveWriter l);
       Some (IntrState, cpu, l\<lparr>ActiveWriter := ActiveWriter l - 1\<rparr>)
     }
   }"

definition RwSpinlockRelease :: "CPU \<Rightarrow> RW_SPINLOCK \<Rightarrow> INTR_STATE \<Rightarrow> bool \<Rightarrow> (CPU \<times> RW_SPINLOCK) option" where
  "RwSpinlockRelease cpu l IntrState Exclusive = do {
     l \<leftarrow> (if Exclusive then do {
              ASSERT (1 = ActiveWriter l);
              Some (l\<lparr>ActiveWriter := ActiveWriter l - 1\<rparr>)
            }
            else Some (l\<lparr>ActiveReaders := ActiveReaders l - 1\<rparr>));
     Some (CpuIntrSetState IntrState cpu, l)
   }"

section \<open>Recursive reader-writer spinlock\<close>

record REC_RW_SPINLOCK =
  RwSpinlock :: RW_SPINLOCK
  CurrentRecursivityDepth :: BYTE
  MaxRecursivityDepth :: BYTE
  RwHolder :: ptr

definition RecRwSpinlockInit :: "BYTE \<Rightarrow> REC_RW_SPINLOCK \<Rightarrow> REC_RW_SPINLOCK" where
  "RecRwSpinlockInit RecursivityDepth Spinlock =
     (let recursivityDepth = (if 0 = RecursivityDepth then 2 else RecursivityDepth)
      in \<lparr>RwSpinlock = RwSpinlockInit (RwSpinlock Spinlock), CurrentRecursivityDepth = 0,
          MaxRecursivityDepth = recursivityDepth, RwHolder = NULL\<rparr>)"

definition RecRwSpinlockAcquire :: "CPU \<Rightarrow> REC_RW_SPINLOCK \<Rightarrow> bool \<Rightarrow> (INTR_STATE \<times> CPU \<times> REC_RW_SPINLOCK) option" where
  "RecRwSpinlockAcquire cpu l Exclusive = do {
     let (IntrState, cpu) = CpuIntrDisable cpu;
     let pCurrentCpu = CpuGetCurrent cpu;
     if Exclusive \<and> RwHolder l = pCurrentCpu then do {
       ASSERT (CurrentRecursivityDepth l < MaxRecursivityDepth l);
       Some (IntrState, cpu, l\<lparr>CurrentRecursivityDepth := CurrentRecursivityDepth l + 1\<rparr>)
     }
     else do {
       (dummy, cpu, rw) \<leftarrow> RwSpinlockAcquire cpu (RwSpinlock l) Exclusive;
       let l = l\<lparr>RwSpinlock := rw\<rparr>;
       ASSERT (NULL = RwHolder l);
       ASSERT (0 = CurrentRecursivityDepth l);
       if Exclusive
       then Some (IntrState, cpu, l\<lparr>CurrentRecursivityDepth := 1, RwHolder := CpuGetCurrent cpu\<rparr>)
       else Some (IntrState, cpu, l)
     }
   }"

definition RecRwSpinlockRelease :: "CPU \<Rightarrow> REC_RW_SPINLOCK \<Rightarrow> INTR_STATE \<Rightarrow> bool \<Rightarrow> (CPU \<times> REC_RW_SPINLOCK) option" where
  "RecRwSpinlockRelease cpu l IntrState Exclusive = do {
     ASSERT (INTR_OFF = CpuIntrGetState cpu);
     let pCurrentCpu = CpuGetCurrent cpu;
     l \<leftarrow> (if Exclusive then do {
              ASSERT (pCurrentCpu = RwHolder l);
              Some (l\<lparr>CurrentRecursivityDepth := CurrentRecursivityDepth l - 1\<rparr>)
            }
            else Some l);
     if 0 = CurrentRecursivityDepth l \<or> \<not> Exclusive then do {
       let l = l\<lparr>RwHolder := NULL\<rparr>;
       (cpu, rw) \<leftarrow> RwSpinlockRelease cpu (RwSpinlock l) IntrState Exclusive;
       Some (cpu, l\<lparr>RwSpinlock := rw\<rparr>)
     }
     else Some (cpu, l)
   }"

section \<open>Interleaved execution\<close>

text \<open>
  The program points of \<open>RwSpinlockAcquire\<close> and \<open>RwSpinlockRelease\<close>. A writer spins at \<open>WSpin\<close>, has
  taken the lock but still counts as waiting at \<open>WGot\<close> and releases from \<open>WRelease\<close>; a reader spins at
  \<open>RSpin\<close>, holds the lock as a pseudo writer at \<open>RGot\<close>, \<open>RAssert\<close> and \<open>RConfess\<close>.
\<close>

datatype rw_pc = RwOutside | WSpin | WGot | Writing | WRelease | RSpin | RGot | RAssert | RConfess | Reading | RwHalted

inductive rw_step :: "ptr set \<Rightarrow> RW_SPINLOCK \<times> (ptr \<Rightarrow> rw_pc) \<Rightarrow> RW_SPINLOCK \<times> (ptr \<Rightarrow> rw_pc) \<Rightarrow> bool" for cpus :: "ptr set" where
  WEnter: "c \<in> cpus \<Longrightarrow> at c = RwOutside \<Longrightarrow>
    rw_step cpus (l, at) (l\<lparr>WaitingWriters := WaitingWriters l + 1\<rparr>, at(c := WSpin))"
| WCas: "c \<in> cpus \<Longrightarrow> at c = WSpin \<Longrightarrow> writer_cas l = (ok, l') \<Longrightarrow> rw_step cpus (l, at) (l', at(c := if ok then WGot else WSpin))"
| WDone: "c \<in> cpus \<Longrightarrow> at c = WGot \<Longrightarrow>
    rw_step cpus (l, at) (l\<lparr>WaitingWriters := WaitingWriters l - 1\<rparr>, at(c := Writing))"
| WAssert: "c \<in> cpus \<Longrightarrow> at c = Writing \<Longrightarrow> rw_step cpus (l, at) (l, at(c := if 1 = ActiveWriter l then WRelease else RwHalted))"
| WLeave: "c \<in> cpus \<Longrightarrow> at c = WRelease \<Longrightarrow>
    rw_step cpus (l, at) (l\<lparr>ActiveWriter := ActiveWriter l - 1\<rparr>, at(c := RwOutside))"
| REnter: "c \<in> cpus \<Longrightarrow> at c = RwOutside \<Longrightarrow> rw_step cpus (l, at) (l, at(c := RSpin))"
| RCas: "c \<in> cpus \<Longrightarrow> at c = RSpin \<Longrightarrow> reader_cas l = (ok, l') \<Longrightarrow> rw_step cpus (l, at) (l', at(c := if ok then RGot else RSpin))"
| RCount: "c \<in> cpus \<Longrightarrow> at c = RGot \<Longrightarrow>
    rw_step cpus (l, at) (l\<lparr>ActiveReaders := ActiveReaders l + 1\<rparr>, at(c := RAssert))"
| RCheck: "c \<in> cpus \<Longrightarrow> at c = RAssert \<Longrightarrow> rw_step cpus (l, at) (l, at(c := if 1 = ActiveWriter l then RConfess else RwHalted))"
| RDone: "c \<in> cpus \<Longrightarrow> at c = RConfess \<Longrightarrow>
    rw_step cpus (l, at) (l\<lparr>ActiveWriter := ActiveWriter l - 1\<rparr>, at(c := Reading))"
| RLeave: "c \<in> cpus \<Longrightarrow> at c = Reading \<Longrightarrow>
    rw_step cpus (l, at) (l\<lparr>ActiveReaders := ActiveReaders l - 1\<rparr>, at(c := RwOutside))"

text \<open>Every counter of the lock is the number of processors at certain program points.\<close>

definition cnt :: "ptr set \<Rightarrow> (ptr \<Rightarrow> rw_pc) \<Rightarrow> rw_pc set \<Rightarrow> nat" where
  "cnt cpus at S = card {c \<in> cpus. at c \<in> S}"

abbreviation (input) at_writer :: "rw_pc set" where "at_writer \<equiv> {WGot, Writing, WRelease}"
abbreviation (input) at_active :: "rw_pc set" where "at_active \<equiv> {WGot, Writing, WRelease, RGot, RAssert, RConfess}"
abbreviation (input) at_reader :: "rw_pc set" where "at_reader \<equiv> {RAssert, RConfess, Reading}"
abbreviation (input) at_waiting :: "rw_pc set" where "at_waiting \<equiv> {WSpin, WGot}"

definition rw_inv :: "ptr set \<Rightarrow> RW_SPINLOCK \<times> (ptr \<Rightarrow> rw_pc) \<Rightarrow> bool" where
  "rw_inv cpus = (\<lambda>(l, at).
     WaitingWriters l = of_nat (cnt cpus at at_waiting) \<and> ActiveWriter l = of_nat (cnt cpus at at_active)
   \<and> ActiveReaders l = of_nat (cnt cpus at at_reader)
   \<and> cnt cpus at at_active \<le> 1 \<and> (0 < cnt cpus at at_writer \<longrightarrow> cnt cpus at at_reader = 0)
   \<and> cnt cpus at {RwHalted} = 0)"

lemma cnt_upd:
  assumes "finite cpus" and "c \<in> cpus"
  shows "cnt cpus (at(c := p)) S + (if at c \<in> S then 1 else 0) = cnt cpus at S + (if p \<in> S then 1 else 0)"
proof -
  let ?R = "{d \<in> cpus - {c}. at d \<in> S}"
  have fin: "finite ?R" and nin: "c \<notin> ?R" using assms by auto
  have "{d \<in> cpus. q d \<in> S} = (if q c \<in> S then insert c ?R else ?R)" if "\<And>d. d \<noteq> c \<Longrightarrow> q d = at d" for q
  proof -
    have "d \<in> {d \<in> cpus. q d \<in> S} \<longleftrightarrow> d \<in> (if q c \<in> S then insert c ?R else ?R)" for d
      using assms(2) that [of d] by (cases "d = c") auto
    then show ?thesis by blast
  qed
  then have "cnt cpus q S = (if q c \<in> S then 1 else 0) + card ?R" if "\<And>d. d \<noteq> c \<Longrightarrow> q d = at d" for q
    using fin nin that by (simp add: cnt_def)
  from this [of at] this [of "at(c := p)"] show ?thesis by simp
qed

lemma cnt_le: "finite cpus \<Longrightarrow> cnt cpus at S \<le> card cpus"
  by (simp add: cnt_def card_mono)

lemma cnt_mono: "finite cpus \<Longrightarrow> S \<subseteq> T \<Longrightarrow> cnt cpus at S \<le> cnt cpus at T"
  unfolding cnt_def by (rule card_mono) auto

lemma cnt_pos: "finite cpus \<Longrightarrow> c \<in> cpus \<Longrightarrow> at c \<in> S \<Longrightarrow> 0 < cnt cpus at S"
  by (auto simp: cnt_def card_gt_0_iff)

lemma cnt_word:
  assumes "finite cpus" and "card cpus < 2 ^ 16"
  shows "(of_nat (cnt cpus at S) :: WORD) = 0 \<longleftrightarrow> cnt cpus at S = 0"
    and "(of_nat (cnt cpus at S) :: WORD) = 1 \<longleftrightarrow> cnt cpus at S = 1"
proof -
  have "cnt cpus at S < 2 ^ 16" using cnt_le [OF assms(1), of at S] assms(2) by linarith
  then have u: "unat (of_nat (cnt cpus at S) :: WORD) = cnt cpus at S" by (simp add: unat_of_nat)
  show "(of_nat (cnt cpus at S) :: WORD) = 0 \<longleftrightarrow> cnt cpus at S = 0" using u by (metis unat_eq_zero of_nat_0)
  show "(of_nat (cnt cpus at S) :: WORD) = 1 \<longleftrightarrow> cnt cpus at S = 1" using u by (metis unat_1 of_nat_1)
qed

lemma cnt_disjoint:
  assumes "finite cpus" and "S \<inter> T = {}"
  shows "cnt cpus at (S \<union> T) = cnt cpus at S + cnt cpus at T"
proof -
  have "{c \<in> cpus. at c \<in> S \<union> T} = {c \<in> cpus. at c \<in> S} \<union> {c \<in> cpus. at c \<in> T}" by auto
  then show ?thesis unfolding cnt_def using assms by (simp add: card_Un_disjoint disjoint_iff)
qed

lemma cnt_active:
  "finite cpus \<Longrightarrow> cnt cpus at at_active = cnt cpus at at_writer + cnt cpus at {RGot} + cnt cpus at {RAssert, RConfess}"
  using cnt_disjoint [of cpus at_writer "{RGot}" at] cnt_disjoint [of cpus "at_writer \<union> {RGot}" "{RAssert, RConfess}" at]
  by (simp add: insert_commute)

lemma rw_inv_step:
  assumes fin: "finite cpus" "card cpus < 2 ^ 16"
  shows "rw_step cpus s t \<Longrightarrow> rw_inv cpus s \<Longrightarrow> rw_inv cpus t"
proof (induction rule: rw_step.induct)
  case (WEnter c at l)
  note u = cnt_upd [OF fin(1) WEnter(1), of at WSpin]
  from u [of at_waiting] u [of at_active] u [of at_reader] u [of at_writer] u [of "{RwHalted}"] WEnter show ?case
    by (simp add: rw_inv_def)
next
  case (WCas c at l ok l')
  note u = cnt_upd [OF fin(1) WCas(1), of at "if ok then WGot else WSpin"]
  from u [of at_waiting] u [of at_active] u [of at_reader] u [of at_writer] u [of "{RwHalted}"] WCas show ?case
    by (auto simp: rw_inv_def writer_cas_def cnt_word [OF fin] split: if_splits)
next
  case (WDone c at l)
  note u = cnt_upd [OF fin(1) WDone(1), of at Writing]
  have "cnt cpus at at_waiting = Suc (cnt cpus (at(c := Writing)) at_waiting)" using u [of at_waiting] WDone(2) by simp
  with u [of at_active] u [of at_reader] u [of at_writer] u [of "{RwHalted}"] WDone show ?case by (simp add: rw_inv_def)
next
  case (WAssert c at l)
  have "ActiveWriter l = 1"
    using cnt_pos [OF fin(1) WAssert(1), of at at_active] WAssert by (simp add: rw_inv_def cnt_word [OF fin])
  note u = cnt_upd [OF fin(1) WAssert(1), of at WRelease]
  from u [of at_waiting] u [of at_active] u [of at_reader] u [of at_writer] u [of "{RwHalted}"] WAssert \<open>ActiveWriter l = 1\<close>
  show ?case by (simp add: rw_inv_def)
next
  case (WLeave c at l)
  note u = cnt_upd [OF fin(1) WLeave(1), of at RwOutside]
  have "cnt cpus at at_active = Suc (cnt cpus (at(c := RwOutside)) at_active)" using u [of at_active] WLeave(2) by simp
  with u [of at_waiting] u [of at_reader] u [of at_writer] u [of "{RwHalted}"] WLeave show ?case by (simp add: rw_inv_def)
next
  case (REnter c at l)
  note u = cnt_upd [OF fin(1) REnter(1), of at RSpin]
  from u [of at_waiting] u [of at_active] u [of at_reader] u [of at_writer] u [of "{RwHalted}"] REnter show ?case
    by (simp add: rw_inv_def)
next
  case (RCas c at l ok l')
  note u = cnt_upd [OF fin(1) RCas(1), of at "if ok then RGot else RSpin"]
  from u [of at_waiting] u [of at_active] u [of at_reader] u [of at_writer] u [of "{RwHalted}"] RCas show ?case
    by (auto simp: rw_inv_def reader_cas_def cnt_word [OF fin] split: if_splits)
next
  case (RCount c at l)
  note u = cnt_upd [OF fin(1) RCount(1), of at RAssert]
  have "0 < cnt cpus at {RGot}" using cnt_pos [OF fin(1) RCount(1)] RCount(2) by simp
  moreover have "cnt cpus at at_active = cnt cpus at at_writer + cnt cpus at {RGot} + cnt cpus at {RAssert, RConfess}"
    by (rule cnt_active [OF fin(1)])
  ultimately have "cnt cpus at at_writer = 0" using RCount by (simp add: rw_inv_def)
  with u [of at_waiting] u [of at_active] u [of at_reader] u [of at_writer] u [of "{RwHalted}"] RCount show ?case
    by (simp add: rw_inv_def)
next
  case (RCheck c at l)
  have "ActiveWriter l = 1"
    using cnt_pos [OF fin(1) RCheck(1), of at at_active] RCheck by (simp add: rw_inv_def cnt_word [OF fin])
  note u = cnt_upd [OF fin(1) RCheck(1), of at RConfess]
  from u [of at_waiting] u [of at_active] u [of at_reader] u [of at_writer] u [of "{RwHalted}"] RCheck \<open>ActiveWriter l = 1\<close>
  show ?case by (simp add: rw_inv_def)
next
  case (RDone c at l)
  note u = cnt_upd [OF fin(1) RDone(1), of at Reading]
  have "cnt cpus at at_active = Suc (cnt cpus (at(c := Reading)) at_active)" using u [of at_active] RDone(2) by simp
  with u [of at_waiting] u [of at_reader] u [of at_writer] u [of "{RwHalted}"] RDone show ?case by (simp add: rw_inv_def)
next
  case (RLeave c at l)
  note u = cnt_upd [OF fin(1) RLeave(1), of at RwOutside]
  have "cnt cpus at at_reader = Suc (cnt cpus (at(c := RwOutside)) at_reader)" using u [of at_reader] RLeave(2) by simp
  with u [of at_waiting] u [of at_active] u [of at_writer] u [of "{RwHalted}"] RLeave show ?case by (simp add: rw_inv_def)
qed

lemma rw_reachable_inv:
  assumes "finite cpus" and "card cpus < 2 ^ 16" and "(rw_step cpus)\<^sup>*\<^sup>* (RwSpinlockInit l0, \<lambda>_. RwOutside) s"
  shows "rw_inv cpus s"
  using assms(3)
  by (induction rule: rtranclp_induct)
    (use rw_inv_step [OF assms(1,2)] in \<open>auto simp: rw_inv_def RwSpinlockInit_def cnt_def\<close>)

lemma cnt_one:
  assumes "finite cpus" and "cnt cpus at S \<le> 1" and "c \<in> cpus" "at c \<in> S" and "d \<in> cpus" "at d \<in> S"
  shows "c = d"
  using assms unfolding cnt_def by (auto simp: card_le_Suc0_iff_eq)

section \<open>Nested use of the recursive lock\<close>

text \<open>
  \<open>rec_rw_nest n\<close> is the body of a processor that enters \<open>n\<close> nested exclusive sections of a recursive
  lock and leaves them in the opposite order, handing every release the state its acquire returned.
\<close>

primrec rec_rw_nest :: "nat \<Rightarrow> CPU \<Rightarrow> REC_RW_SPINLOCK \<Rightarrow> (CPU \<times> REC_RW_SPINLOCK) option" where
  "rec_rw_nest 0 cpu l = Some (cpu, l)"
| "rec_rw_nest (Suc n) cpu l = do {
     (IntrState, cpu, l) \<leftarrow> RecRwSpinlockAcquire cpu l True;
     (cpu, l) \<leftarrow> rec_rw_nest n cpu l;
     RecRwSpinlockRelease cpu l IntrState True
   }"

definition rec_rw_held :: "CPU \<Rightarrow> REC_RW_SPINLOCK \<Rightarrow> bool" where
  "rec_rw_held cpu l = (CpuIntr cpu = INTR_OFF \<and> RwHolder l = CpuSelf cpu \<and> 0 < CurrentRecursivityDepth l)"

lemma word_plus_one_pos: "(x::BYTE) < y \<Longrightarrow> 0 < x + 1" "(x::BYTE) < y \<Longrightarrow> unat (x + 1) = unat x + 1"
proof -
  assume "x < y"
  then have "unat x + 1 < 256" using unsigned_less [of y, where 'a = nat] by (simp add: word_less_nat_alt)
  then show "unat (x + 1) = unat x + 1" by (simp add: unat_plus_if_small)
  then show "0 < x + 1" by (simp add: word_less_nat_alt)
qed

lemma rec_rw_nest_inner:
  "rec_rw_held cpu l \<Longrightarrow> unat (CurrentRecursivityDepth l) \<le> unat (MaxRecursivityDepth l) \<Longrightarrow>
   rec_rw_nest n cpu l = (if unat (CurrentRecursivityDepth l) + n \<le> unat (MaxRecursivityDepth l) then Some (cpu, l) else None)"
proof (induction n arbitrary: l)
  case (Suc n)
  obtain self where cpu: "cpu = \<lparr>CpuSelf = self, CpuIntr = INTR_OFF\<rparr>"
    using Suc.prems(1) by (cases cpu) (auto simp: rec_rw_held_def)
  let ?l = "l\<lparr>CurrentRecursivityDepth := CurrentRecursivityDepth l + 1\<rparr>"
  show ?case
  proof (cases "CurrentRecursivityDepth l < MaxRecursivityDepth l")
    case True
    note w = word_plus_one_pos [OF True]
    have "rec_rw_held cpu ?l" "unat (CurrentRecursivityDepth ?l) \<le> unat (MaxRecursivityDepth ?l)"
      using Suc.prems w True by (simp_all add: rec_rw_held_def word_less_nat_alt)
    moreover have "CurrentRecursivityDepth l \<noteq> 0" using Suc.prems(1) by (auto simp: rec_rw_held_def)
    ultimately show ?thesis using Suc.IH [of ?l] Suc.prems True w cpu
      by (simp add: RecRwSpinlockAcquire_def RecRwSpinlockRelease_def CpuIntrDisable_def CpuGetCurrent_def
          CpuIntrGetState_def rec_rw_held_def bind_ASSERT Let_def)
  next
    case False
    then show ?thesis using Suc.prems
      by (simp add: RecRwSpinlockAcquire_def CpuIntrDisable_def CpuGetCurrent_def rec_rw_held_def word_less_nat_alt)
  qed
qed simp

section \<open>Properties\<close>

text \<open>
  C15: in every interleaving of any number of processors (fewer than 65536, so that the counters of the
  lock do not wrap around) that use one reader-writer spinlock, a writer is alone: no other processor
  writes and none reads. No assertion of the lock fails, and the lock counts its readers exactly.
\<close>

theorem rw_exclusion:
  assumes "finite cpus" and "card cpus < 65536"
    and "(rw_step cpus)\<^sup>*\<^sup>* (RwSpinlockInit l0, \<lambda>_. RwOutside) (l, at)"
    and "c \<in> cpus" and "d \<in> cpus"
  shows "(at c = Writing \<longrightarrow> at d = Writing \<longrightarrow> c = d) \<and> (at c = Writing \<longrightarrow> at d \<noteq> Reading)
    \<and> at c \<noteq> RwHalted \<and> unat (ActiveReaders l) = card {c \<in> cpus. at c \<in> {RAssert, RConfess, Reading}}"
proof (intro conjI impI)
  have small: "card cpus < 2 ^ 16" using assms(2) by simp
  have inv: "rw_inv cpus (l, at)" by (rule rw_reachable_inv [OF assms(1) small assms(3)])
  note pos = cnt_pos [OF assms(1)]
  show "c = d" if "at c = Writing" and "at d = Writing"
    using that cnt_one [OF assms(1), of at at_active c d] inv assms(4,5) by (simp add: rw_inv_def)
  show "at d \<noteq> Reading" if "at c = Writing"
    using that pos [OF assms(4), of at at_writer] pos [OF assms(5), of at at_reader] inv by (auto simp: rw_inv_def)
  show "at c \<noteq> RwHalted" using pos [OF assms(4), of at "{RwHalted}"] inv by (auto simp: rw_inv_def)
  show "unat (ActiveReaders l) = card {c \<in> cpus. at c \<in> {RAssert, RConfess, Reading}}"
    using cnt_le [OF assms(1), of at at_reader] inv small by (simp add: rw_inv_def unat_of_nat cnt_def)
qed

definition ex_rw :: RW_SPINLOCK where
  "ex_rw = \<lparr>WaitingWriters = 7, ActiveWriter = 7, ActiveReaders = 7\<rparr>"

definition ex_rw_reading :: "ptr \<Rightarrow> rw_pc" where
  "ex_rw_reading = (\<lambda>_. RwOutside)(1 := Writing, 2 := WSpin)"

theorem rw_exclusion_witness:
  "(rw_step {1, 2})\<^sup>*\<^sup>* (RwSpinlockInit ex_rw, \<lambda>_. RwOutside)
     (\<lparr>WaitingWriters = 1, ActiveWriter = 1, ActiveReaders = 0\<rparr>, ex_rw_reading)
   \<and> ex_rw_reading 1 = Writing \<and> ex_rw_reading 2 \<noteq> Writing \<and> ex_rw_reading 2 \<noteq> Reading \<and> ex_rw_reading 2 \<noteq> RwHalted"
proof -
  let ?L = "\<lambda>w a. \<lparr>WaitingWriters = w, ActiveWriter = a, ActiveReaders = 0\<rparr>"
  let ?o = "\<lambda>_::ptr. RwOutside"
  note [simp] = writer_cas_def
  have "rw_step {1, 2} (?L 0 0, ?o) (?L 1 0, ?o(1 := WSpin))"
    using rw_step.WEnter [of 1 "{1, 2}" ?o "?L 0 0"] by simp
  moreover have "rw_step {1, 2} (?L 1 0, ?o(1 := WSpin)) (?L 1 1, ?o(1 := WGot))"
    using rw_step.WCas [of 1 "{1, 2}" "?o(1 := WSpin)" "?L 1 0" True "?L 1 1"] by simp
  moreover have "rw_step {1, 2} (?L 1 1, ?o(1 := WGot)) (?L 0 1, ?o(1 := Writing))"
    using rw_step.WDone [of 1 "{1, 2}" "?o(1 := WGot)" "?L 1 1"] by simp
  moreover have "rw_step {1, 2} (?L 0 1, ?o(1 := Writing)) (?L 1 1, ex_rw_reading)"
    using rw_step.WEnter [of 2 "{1, 2}" "?o(1 := Writing)" "?L 0 1"] by (simp add: ex_rw_reading_def)
  ultimately have run: "(rw_step {1, 2})\<^sup>*\<^sup>* (RwSpinlockInit ex_rw, ?o) (?L 1 1, ex_rw_reading)"
    by (auto simp: RwSpinlockInit_def intro: converse_rtranclp_into_rtranclp)
  have w: "ex_rw_reading 1 = Writing" by (simp add: ex_rw_reading_def)
  show ?thesis using run w rw_exclusion [OF _ _ run, of 1 2] rw_exclusion [OF _ _ run, of 2 2] by auto
qed

text \<open>
  a processor that enters \<open>n\<close> nested exclusive sections of a freshly initialised recursive
  reader-writer spinlock and leaves them again gets back the unlocked lock and its own interrupt state
  if \<open>n\<close> is at most the recursion depth the lock was given (2 when it was given 0); with one more
  level the assertion on the depth halts the machine, even for the largest depth a byte can hold.
\<close>

theorem rec_rw_nesting:
  assumes "CpuSelf cpu \<noteq> NULL"
  shows "rec_rw_nest n cpu (RecRwSpinlockInit depth l0)
       = (if n \<le> (if depth = 0 then 2 else unat depth) then Some (cpu, RecRwSpinlockInit depth l0) else None)"
proof (cases n)
  case (Suc k)
  let ?l = "RecRwSpinlockInit depth l0"
  let ?cpu = "cpu\<lparr>CpuIntr := INTR_OFF\<rparr>"
  let ?h = "?l\<lparr>RwSpinlock := \<lparr>WaitingWriters = 0, ActiveWriter = 1, ActiveReaders = 0\<rparr>,
                CurrentRecursivityDepth := 1, RwHolder := CpuSelf cpu\<rparr>"
  have M: "unat (MaxRecursivityDepth ?l) = (if depth = 0 then 2 else unat depth)" "1 \<le> unat (MaxRecursivityDepth ?l)"
    by (auto simp: RecRwSpinlockInit_def Let_def Suc_le_eq unat_gt_0)
  have acq: "RecRwSpinlockAcquire cpu ?l True = Some (CpuIntr cpu, ?cpu, ?h)" using assms
    by (simp add: RecRwSpinlockAcquire_def RwSpinlockAcquire_def RwSpinlockAcquire_spin.simps writer_cas_def
        RecRwSpinlockInit_def RwSpinlockInit_def cpu_defs Let_def)
  have "rec_rw_nest k ?cpu ?h = (if 1 + k \<le> unat (MaxRecursivityDepth ?h) then Some (?cpu, ?h) else None)"
    using rec_rw_nest_inner [of ?cpu ?h k] M by (simp add: rec_rw_held_def)
  moreover have "RecRwSpinlockRelease ?cpu ?h (CpuIntr cpu) True = Some (cpu, ?l)"
    by (simp add: RecRwSpinlockRelease_def RwSpinlockRelease_def RecRwSpinlockInit_def RwSpinlockInit_def cpu_defs Let_def)
  ultimately show ?thesis using M Suc by (simp add: acq)
qed simp

theorem rec_rw_nesting_witness:
  "rec_rw_nest 3 (ex_cpu 1) (RecRwSpinlockInit 3 (RecRwSpinlockInit 0 \<lparr>RwSpinlock = ex_rw, CurrentRecursivityDepth = 9, MaxRecursivityDepth = 9, RwHolder = 9\<rparr>))
   \<noteq> None"
  using rec_rw_nesting [of "ex_cpu 1" 3 3 "RecRwSpinlockInit 0 \<lparr>RwSpinlock = ex_rw, CurrentRecursivityDepth = 9, MaxRecursivityDepth = 9, RwHolder = 9\<rparr>"]
  by (simp add: ex_cpu_def)

end
