(* ===== verification/Threads.thy ===== *)
theory Threads
  imports Lists Sync
begin

text \<open>
  The thread scheduler of \<open>HAL9000/src/thread.c\<close>, the executive events of \<open>ex_event.c\<close> and the thread
  accounting of \<open>process.c\<close>, on one state that holds the objects of the kernel by address. The list
  entries embedded in the objects live in the memory of \<open>Lists\<close>, so that
  \<^verbatim>\<open>CONTAINING_RECORD\<close> is a subtraction. A function models what the calling processor executes; when
  it switches threads it continues in the thread that was chosen, at the point where that thread gave up
  the processor.
\<close>

section \<open>Kernel objects\<close>

datatype THREAD_STATE = ThreadStateRunning | ThreadStateReady | ThreadStateBlocked | ThreadStateDying

abbreviation THREAD_FLAG_FORCE_TERMINATE_PENDING :: DWORD where "THREAD_FLAG_FORCE_TERMINATE_PENDING \<equiv> 1"
abbreviation THREAD_FLAG_FORCE_TERMINATED :: DWORD where "THREAD_FLAG_FORCE_TERMINATED \<equiv> 2"
abbreviation ThreadPriorityLowest :: DWORD where "ThreadPriorityLowest \<equiv> 0"
abbreviation ThreadPriorityMaximum :: DWORD where "ThreadPriorityMaximum \<equiv> 31"
abbreviation THREAD_TIME_SLICE :: DWORD where "THREAD_TIME_SLICE \<equiv> 1"

text \<open>
  THREAD without its list entries and its event, which are found at their offsets (the structure is
  naturally aligned; LOCK has 64 bytes, EX\_EVENT 88).
\<close>

record THREAD =
  RefCnt :: DWORD
  Self :: ptr
  Id :: QWORD
  Name :: "string option"
  Priority :: DWORD
  TState :: THREAD_STATE
  ExitStatus :: STATUS
  Flags :: DWORD
  BlockLock :: LOCK
  TickCountCompleted :: QWORD
  UninterruptedTicks :: QWORD
  TickCountEarly :: QWORD
  InitialStackBase :: ptr
  StackSize :: DWORD
  Stack :: ptr
  UserStack :: ptr
  Process :: ptr

definition TerminationEvt :: "ptr \<Rightarrow> ptr" where "TerminationEvt Thread = Thread + 0x40"
definition AllList :: "ptr \<Rightarrow> ptr" where "AllList Thread = Thread + 0xE0"
definition ReadyList :: "ptr \<Rightarrow> ptr" where "ReadyList Thread = Thread + 0xF0"
definition ProcessList :: "ptr \<Rightarrow> ptr" where "ProcessList Thread = Thread + 0x100"

text \<open>\<^verbatim>\<open>CONTAINING_RECORD(pEntry, THREAD, ReadyList)\<close>\<close>

definition ReadyThread :: "ptr \<Rightarrow> ptr" where "ReadyThread pEntry = pEntry - 0xF0"

datatype EX_EVT_TYPE = ExEventTypeNotification | ExEventTypeSynchronization | ExEventTypeReserved

record EX_EVENT =
  EventLock :: LOCK
  ExEvtType :: EX_EVT_TYPE
  Signaled :: BYTE

definition EventWaitingList :: "ptr \<Rightarrow> ptr" where "EventWaitingList Event = Event + 0x40"

record MUTEX =
  MutexLock :: LOCK
  MutexRecursivityDepth :: BYTE
  MutexMaxRecursivityDepth :: BYTE
  MutexHolder :: ptr

definition MutexWaitingList :: "ptr \<Rightarrow> ptr" where "MutexWaitingList Mutex = Mutex + 0x48"

record PROCESS =
  ProcRefCnt :: DWORD
  TerminationStatus :: STATUS
  ThreadListLock :: LOCK
  NumberOfThreads :: DWORD
  ActiveThreads :: DWORD
  ProcId :: QWORD
  KernelSpace :: bool
  AddressOfEntryPoint :: ptr
  NumberOfArguments :: DWORD

definition ProcTerminationEvt :: "ptr \<Rightarrow> ptr" where "ProcTerminationEvt Proc = Proc + 0x38"
definition ThreadList :: "ptr \<Rightarrow> ptr" where "ThreadList Proc = Proc + 0xD8"

text \<open>
  PCPU with its THREADING\_DATA, as far as threads use it, and two registers of the processor: the FS
  base, through which the current thread is found, and the stack pointer.
\<close>

record PCPU =
  ApicId :: BYTE
  StackTop :: ptr
  CpuStackSize :: DWORD
  TssRsp0 :: QWORD
  RunningThreadTicks :: DWORD
  IdleThread :: ptr
  CurrentThread :: ptr
  PreviousThread :: ptr
  YieldOnInterruptReturn :: bool
  IdleTicks :: QWORD
  KernelTicks :: QWORD
  FsBase :: ptr
  Rsp :: ptr

text \<open>
  Where a thread continues when it is switched to: in \<open>ThreadStart\<close>, behind the \<open>_ThreadSchedule\<close> of
  \<open>ThreadYield\<close> (with the interrupt state to restore) or of \<open>ThreadBlock\<close>; a thread that called
  \<open>ThreadExit\<close> never continues.
\<close>

datatype resume_point = Fresh | AfterYield INTR_STATE | AfterBlock | Gone

text \<open>Calls into parts of the kernel that are not modelled, in the order they are made.\<close>

datatype kernel_call = MmuChangeProcessSpace ptr | CoreUpdateIdleTime bool | MmuFreeStack ptr ptr
  | ExFreePool_Name ptr | ExFreePool_Thread ptr | ProcessDestroy ptr

text \<open>
  The state: the objects by address, the memory of list entries, THREAD\_SYSTEM\_DATA (the addresses of its
  two list heads do not change), the lock functions chosen at boot, the resume points and the quadwords of
  the memory that holds the stacks. Every lock
  records the return address of its acquire for debugging; the calls here do not distinguish theirs.
\<close>

record SYS =
  threads :: "ptr \<rightharpoonup> THREAD"
  pcpus :: "ptr \<rightharpoonup> PCPU"
  events :: "ptr \<rightharpoonup> EX_EVENT"
  mutexes :: "ptr \<rightharpoonup> MUTEX"
  processes :: "ptr \<rightharpoonup> PROCESS"
  entries :: lheap
  AllThreadsLock :: LOCK
  AllThreadsList :: ptr
  ReadyThreadsLock :: LOCK
  ReadyThreadsList :: ptr
  SystemProcess :: ptr
  CurrentTid :: QWORD
  LockOps :: LOCK_OPS
  CallSite :: ptr
  resume :: "ptr \<Rightarrow> resume_point"
  calls :: "kernel_call list"
  StackMem :: "ptr \<Rightarrow> QWORD"

definition upd_thr :: "ptr \<Rightarrow> (THREAD \<Rightarrow> THREAD) \<Rightarrow> SYS \<Rightarrow> SYS option" where
  "upd_thr p f s = (case threads s p of None \<Rightarrow> None | Some t \<Rightarrow> Some (s\<lparr>threads := (threads s)(p \<mapsto> f t)\<rparr>))"

definition upd_cpu :: "ptr \<Rightarrow> (PCPU \<Rightarrow> PCPU) \<Rightarrow> SYS \<Rightarrow> SYS option" where
  "upd_cpu p f s = (case pcpus s p of None \<Rightarrow> None | Some c \<Rightarrow> Some (s\<lparr>pcpus := (pcpus s)(p \<mapsto> f c)\<rparr>))"

definition upd_evt :: "ptr \<Rightarrow> (EX_EVENT \<Rightarrow> EX_EVENT) \<Rightarrow> SYS \<Rightarrow> SYS option" where
  "upd_evt p f s = (case events s p of None \<Rightarrow> None | Some e \<Rightarrow> Some (s\<lparr>events := (events s)(p \<mapsto> f e)\<rparr>))"

definition upd_mutex :: "ptr \<Rightarrow> (MUTEX \<Rightarrow> MUTEX) \<Rightarrow> SYS \<Rightarrow> SYS option" where
  "upd_mutex p f s = (case mutexes s p of None \<Rightarrow> None | Some e \<Rightarrow> Some (s\<lparr>mutexes := (mutexes s)(p \<mapsto> f e)\<rparr>))"

definition upd_proc :: "ptr \<Rightarrow> (PROCESS \<Rightarrow> PROCESS) \<Rightarrow> SYS \<Rightarrow> SYS option" where
  "upd_proc p f s = (case processes s p of None \<Rightarrow> None | Some e \<Rightarrow> Some (s\<lparr>processes := (processes s)(p \<mapsto> f e)\<rparr>))"

definition call :: "kernel_call \<Rightarrow> SYS \<Rightarrow> SYS" where
  "call k s = s\<lparr>calls := calls s @ [k]\<rparr>"

section \<open>The locks of the state\<close>

definition acquire :: "CPU \<Rightarrow> SYS \<Rightarrow> LOCK \<Rightarrow> (INTR_STATE \<times> CPU \<times> LOCK) option" where
  "acquire cpu s l = LockAcquire (LockOps s) cpu (CallSite s) l"

definition release :: "CPU \<Rightarrow> SYS \<Rightarrow> LOCK \<Rightarrow> INTR_STATE \<Rightarrow> (CPU \<times> LOCK) option" where
  "release cpu s l st = LockRelease (LockOps s) cpu l st"

definition AcquireReady :: "CPU \<Rightarrow> SYS \<Rightarrow> (INTR_STATE \<times> CPU \<times> SYS) option" where
  "AcquireReady cpu s = do { (st, cpu, l) \<leftarrow> acquire cpu s (ReadyThreadsLock s); Some (st, cpu, s\<lparr>ReadyThreadsLock := l\<rparr>) }"

definition ReleaseReady :: "CPU \<Rightarrow> SYS \<Rightarrow> INTR_STATE \<Rightarrow> (CPU \<times> SYS) option" where
  "ReleaseReady cpu s st = do { (cpu, l) \<leftarrow> release cpu s (ReadyThreadsLock s) st; Some (cpu, s\<lparr>ReadyThreadsLock := l\<rparr>) }"

definition OwnsReady :: "CPU \<Rightarrow> SYS \<Rightarrow> bool" where
  "OwnsReady cpu s = LockIsOwner (LockOps s) cpu (ReadyThreadsLock s)"

definition AcquireAll :: "CPU \<Rightarrow> SYS \<Rightarrow> (INTR_STATE \<times> CPU \<times> SYS) option" where
  "AcquireAll cpu s = do { (st, cpu, l) \<leftarrow> acquire cpu s (AllThreadsLock s); Some (st, cpu, s\<lparr>AllThreadsLock := l\<rparr>) }"

definition ReleaseAll :: "CPU \<Rightarrow> SYS \<Rightarrow> INTR_STATE \<Rightarrow> (CPU \<times> SYS) option" where
  "ReleaseAll cpu s st = do { (cpu, l) \<leftarrow> release cpu s (AllThreadsLock s) st; Some (cpu, s\<lparr>AllThreadsLock := l\<rparr>) }"

definition AcquireBlock :: "CPU \<Rightarrow> SYS \<Rightarrow> ptr \<Rightarrow> (INTR_STATE \<times> CPU \<times> SYS) option" where
  "AcquireBlock cpu s p = do {
     t \<leftarrow> threads s p;
     (st, cpu, l) \<leftarrow> acquire cpu s (BlockLock t);
     s \<leftarrow> upd_thr p (\<lambda>t. t\<lparr>BlockLock := l\<rparr>) s;
     Some (st, cpu, s)
   }"

definition ReleaseBlock :: "CPU \<Rightarrow> SYS \<Rightarrow> ptr \<Rightarrow> INTR_STATE \<Rightarrow> (CPU \<times> SYS) option" where
  "ReleaseBlock cpu s p st = do {
     t \<leftarrow> threads s p;
     (cpu, l) \<leftarrow> release cpu s (BlockLock t) st;
     s \<leftarrow> upd_thr p (\<lambda>t. t\<lparr>BlockLock := l\<rparr>) s;
     Some (cpu, s)
   }"

definition OwnsBlock :: "CPU \<Rightarrow> SYS \<Rightarrow> ptr \<Rightarrow> bool option" where
  "OwnsBlock cpu s p = do { t \<leftarrow> threads s p; Some (LockIsOwner (LockOps s) cpu (BlockLock t)) }"

definition AcquireEvent :: "CPU \<Rightarrow> SYS \<Rightarrow> ptr \<Rightarrow> (INTR_STATE \<times> CPU \<times> SYS) option" where
  "AcquireEvent cpu s p = do {
     e \<leftarrow> events s p;
     (st, cpu, l) \<leftarrow> acquire cpu s (EventLock e);
     s \<leftarrow> upd_evt p (\<lambda>e. e\<lparr>EventLock := l\<rparr>) s;
     Some (st, cpu, s)
   }"

definition ReleaseEvent :: "CPU \<Rightarrow> SYS \<Rightarrow> ptr \<Rightarrow> INTR_STATE \<Rightarrow> (CPU \<times> SYS) option" where
  "ReleaseEvent cpu s p st = do {
     e \<leftarrow> events s p;
     (cpu, l) \<leftarrow> release cpu s (EventLock e) st;
     s \<leftarrow> upd_evt p (\<lambda>e. e\<lparr>EventLock := l\<rparr>) s;
     Some (cpu, s)
   }"

definition AcquireMutex :: "CPU \<Rightarrow> SYS \<Rightarrow> ptr \<Rightarrow> (INTR_STATE \<times> CPU \<times> SYS) option" where
  "AcquireMutex cpu s p = do {
     e \<leftarrow> mutexes s p;
     (st, cpu, l) \<leftarrow> acquire cpu s (MutexLock e);
     s \<leftarrow> upd_mutex p (\<lambda>e. e\<lparr>MutexLock := l\<rparr>) s;
     Some (st, cpu, s)
   }"

definition ReleaseMutex :: "CPU \<Rightarrow> SYS \<Rightarrow> ptr \<Rightarrow> INTR_STATE \<Rightarrow> (CPU \<times> SYS) option" where
  "ReleaseMutex cpu s p st = do {
     e \<leftarrow> mutexes s p;
     (cpu, l) \<leftarrow> release cpu s (MutexLock e) st;
     s \<leftarrow> upd_mutex p (\<lambda>e. e\<lparr>MutexLock := l\<rparr>) s;
     Some (cpu, s)
   }"

definition AcquireThreadList :: "CPU \<Rightarrow> SYS \<Rightarrow> ptr \<Rightarrow> (INTR_STATE \<times> CPU \<times> SYS) option" where
  "AcquireThreadList cpu s p = do {
     e \<leftarrow> processes s p;
     (st, cpu, l) \<leftarrow> acquire cpu s (ThreadListLock e);
     s \<leftarrow> upd_proc p (\<lambda>e. e\<lparr>ThreadListLock := l\<rparr>) s;
     Some (st, cpu, s)
   }"

definition ReleaseThreadList :: "CPU \<Rightarrow> SYS \<Rightarrow> ptr \<Rightarrow> INTR_STATE \<Rightarrow> (CPU \<times> SYS) option" where
  "ReleaseThreadList cpu s p st = do {
     e \<leftarrow> processes s p;
     (cpu, l) \<leftarrow> release cpu s (ThreadListLock e) st;
     s \<leftarrow> upd_proc p (\<lambda>e. e\<lparr>ThreadListLock := l\<rparr>) s;
     Some (cpu, s)
   }"

definition InsertTail :: "ptr \<Rightarrow> ptr \<Rightarrow> SYS \<Rightarrow> SYS option" where
  "InsertTail head e s = do { h \<leftarrow> InsertTailList (entries s) head e; Some (s\<lparr>entries := h\<rparr>) }"

definition RemoveHead :: "ptr \<Rightarrow> SYS \<Rightarrow> (ptr \<times> SYS) option" where
  "RemoveHead head s = do { (e, h) \<leftarrow> RemoveHeadList (entries s) head; Some (e, s\<lparr>entries := h\<rparr>) }"

definition RemoveEntry :: "ptr \<Rightarrow> SYS \<Rightarrow> SYS option" where
  "RemoveEntry e s = do { (_, h) \<leftarrow> RemoveEntryList (entries s) e; Some (s\<lparr>entries := h\<rparr>) }"

section \<open>The current thread\<close>

definition GetCurrentThread :: "CPU \<Rightarrow> SYS \<Rightarrow> ptr option" where
  "GetCurrentThread cpu s = do { c \<leftarrow> pcpus s (CpuSelf cpu); t \<leftarrow> threads s (FsBase c); Some (Self t) }"

definition SetCurrentThread :: "CPU \<Rightarrow> ptr \<Rightarrow> SYS \<Rightarrow> SYS option" where
  "SetCurrentThread cpu Thread s = do {
     s \<leftarrow> upd_cpu (CpuSelf cpu) (\<lambda>c. c\<lparr>FsBase := Thread\<rparr>) s;
     ASSERT (CpuSelf cpu \<noteq> NULL);
     t \<leftarrow> threads s Thread;
     s \<leftarrow> upd_cpu (CpuSelf cpu) (\<lambda>c. c\<lparr>CurrentThread := Self t\<rparr>) s;
     if NULL \<noteq> Self t
     then upd_cpu (CpuSelf cpu) (\<lambda>c. c\<lparr>StackTop := InitialStackBase t, CpuStackSize := StackSize t, TssRsp0 := InitialStackBase t\<rparr>) s
     else Some s
   }"

definition ThreadGetName :: "CPU \<Rightarrow> ptr \<Rightarrow> SYS \<Rightarrow> string option option" where
  "ThreadGetName cpu Thread s = do {
     pThread \<leftarrow> (if NULL \<noteq> Thread then Some Thread else GetCurrentThread cpu s);
     if NULL \<noteq> pThread then do { t \<leftarrow> threads s pThread; Some (Name t) } else Some (Some '''')
   }"

definition ThreadGetId :: "CPU \<Rightarrow> ptr \<Rightarrow> SYS \<Rightarrow> QWORD option" where
  "ThreadGetId cpu Thread s = do {
     pThread \<leftarrow> (if NULL \<noteq> Thread then Some Thread else GetCurrentThread cpu s);
     if NULL \<noteq> pThread then do { t \<leftarrow> threads s pThread; Some (Id t) } else Some 0
   }"

definition ThreadGetPriority :: "CPU \<Rightarrow> ptr \<Rightarrow> SYS \<Rightarrow> DWORD option" where
  "ThreadGetPriority cpu Thread s = do {
     pThread \<leftarrow> (if NULL \<noteq> Thread then Some Thread else GetCurrentThread cpu s);
     if NULL \<noteq> pThread then do { t \<leftarrow> threads s pThread; Some (Priority t) } else Some 0
   }"

definition ThreadSetPriority :: "CPU \<Rightarrow> DWORD \<Rightarrow> SYS \<Rightarrow> SYS option" where
  "ThreadSetPriority cpu NewPriority s = do {
     ASSERT (ThreadPriorityLowest \<le> NewPriority \<and> NewPriority \<le> ThreadPriorityMaximum);
     p \<leftarrow> GetCurrentThread cpu s;
     upd_thr p (\<lambda>t. t\<lparr>Priority := NewPriority\<rparr>) s
   }"

definition ThreadTerminate :: "ptr \<Rightarrow> SYS \<Rightarrow> SYS option" where
  "ThreadTerminate Thread s = do {
     ASSERT (NULL \<noteq> Thread);
     upd_thr Thread (\<lambda>t. t\<lparr>Flags := Flags t OR THREAD_FLAG_FORCE_TERMINATE_PENDING\<rparr>) s
   }"

definition ThreadYieldOnInterrupt :: "CPU \<Rightarrow> SYS \<Rightarrow> bool option" where
  "ThreadYieldOnInterrupt cpu s = do { c \<leftarrow> pcpus s (CpuSelf cpu); Some (YieldOnInterruptReturn c) }"

definition ThreadTick :: "CPU \<Rightarrow> SYS \<Rightarrow> SYS option" where
  "ThreadTick cpu s = do {
     pThread \<leftarrow> GetCurrentThread cpu s;
     ASSERT (INTR_OFF = CpuIntrGetState cpu);
     c \<leftarrow> pcpus s (CpuSelf cpu);
     ASSERT (CpuSelf cpu \<noteq> NULL);
     s \<leftarrow> (if IdleThread c = pThread
           then upd_cpu (CpuSelf cpu) (\<lambda>c. c\<lparr>IdleTicks := IdleTicks c + 1\<rparr>) s
           else upd_cpu (CpuSelf cpu) (\<lambda>c. c\<lparr>KernelTicks := KernelTicks c + 1\<rparr>) s);
     s \<leftarrow> upd_thr pThread (\<lambda>t. t\<lparr>TickCountCompleted := TickCountCompleted t + 1\<rparr>) s;
     s \<leftarrow> upd_cpu (CpuSelf cpu) (\<lambda>c. c\<lparr>RunningThreadTicks := RunningThreadTicks c + 1\<rparr>) s;
     c \<leftarrow> pcpus s (CpuSelf cpu);
     if THREAD_TIME_SLICE \<le> RunningThreadTicks c
     then upd_cpu (CpuSelf cpu) (\<lambda>c. c\<lparr>YieldOnInterruptReturn := True\<rparr>) s
     else Some s
   }"

section \<open>Waking threads and executive events\<close>

definition ThreadUnblock :: "CPU \<Rightarrow> ptr \<Rightarrow> SYS \<Rightarrow> (CPU \<times> SYS) option" where
  "ThreadUnblock cpu Thread s = do {
     ASSERT (NULL \<noteq> Thread);
     (oldState, cpu, s) \<leftarrow> AcquireBlock cpu s Thread;
     t \<leftarrow> threads s Thread;
     ASSERT (ThreadStateBlocked = TState t);
     (dummyState, cpu, s) \<leftarrow> AcquireReady cpu s;
     s \<leftarrow> InsertTail (ReadyThreadsList s) (ReadyList Thread) s;
     s \<leftarrow> upd_thr Thread (\<lambda>t. t\<lparr>TState := ThreadStateReady\<rparr>) s;
     (cpu, s) \<leftarrow> ReleaseReady cpu s dummyState;
     ReleaseBlock cpu s Thread oldState
   }"

definition ExEventInit :: "ptr \<Rightarrow> EX_EVT_TYPE \<Rightarrow> bool \<Rightarrow> SYS \<Rightarrow> (STATUS \<times> SYS) option" where
  "ExEventInit Event type isSignaled s =
     (if NULL = Event then Some (STATUS_INVALID_PARAMETER1, s)
      else if type = ExEventTypeReserved then Some (STATUS_INVALID_PARAMETER2, s)
      else do {
        s \<leftarrow> upd_evt Event (\<lambda>e. e\<lparr>EventLock := LockInit (LockOps s) (EventLock e)\<rparr>) s;
        h \<leftarrow> InitializeListHead (entries s) (EventWaitingList Event);
        let s = s\<lparr>entries := h\<rparr>;
        s \<leftarrow> upd_evt Event (\<lambda>e. e\<lparr>ExEvtType := type\<rparr>) s;
        s \<leftarrow> upd_evt Event (\<lambda>e. e\<lparr>Signaled := if isSignaled then 1 else 0\<rparr>) s;
        Some (STATUS_SUCCESS, s)
      })"

partial_function (option) ExEventSignal_loop :: "CPU \<Rightarrow> ptr \<Rightarrow> SYS \<Rightarrow> (CPU \<times> SYS) option" where
  "ExEventSignal_loop cpu Event s = do {
     (pEntry, s) \<leftarrow> RemoveHead (EventWaitingList Event) s;
     if pEntry = EventWaitingList Event then Some (cpu, s)
     else do {
       let pThreadToSignal = ReadyThread pEntry;
       (cpu, s) \<leftarrow> ThreadUnblock cpu pThreadToSignal s;
       e \<leftarrow> events s Event;
       if ExEventTypeSynchronization = ExEvtType e then Some (cpu, s) else ExEventSignal_loop cpu Event s
     }
   }"

definition ExEventSignal :: "CPU \<Rightarrow> ptr \<Rightarrow> SYS \<Rightarrow> (CPU \<times> SYS) option" where
  "ExEventSignal cpu Event s = do {
     ASSERT (NULL \<noteq> Event);
     (oldState, cpu, s) \<leftarrow> AcquireEvent cpu s Event;
     s \<leftarrow> upd_evt Event (\<lambda>e. e\<lparr>Signaled := 1\<rparr>) s;
     (cpu, s) \<leftarrow> ExEventSignal_loop cpu Event s;
     ReleaseEvent cpu s Event oldState
   }"

definition ExEventClearSignal :: "ptr \<Rightarrow> SYS \<Rightarrow> SYS option" where
  "ExEventClearSignal Event s = do { ASSERT (NULL \<noteq> Event); upd_evt Event (\<lambda>e. e\<lparr>Signaled := 0\<rparr>) s }"

section \<open>Threads of a process\<close>

text \<open>
  The reference counts of processes and threads use \<open>RfcReference\<close> and \<open>RfcDereference\<close>; the count is
  stored before the free function runs on the state. Only the first part of \<open>_ProcessDestroy\<close> is given:
  what it releases belongs to the memory manager.
\<close>

definition ProcessDestroyed :: "ptr \<Rightarrow> SYS \<Rightarrow> SYS option" where
  "ProcessDestroyed Proc s = do {
     ASSERT (NULL \<noteq> Proc);
     ASSERT (Proc \<noteq> SystemProcess s);
     e \<leftarrow> processes s Proc;
     ASSERT (NumberOfThreads e = 0);
     let s = call (ProcessDestroy Proc) s;
     Some (s\<lparr>processes := (processes s)(Proc := None)\<rparr>)
   }"

definition ProcessReference :: "ptr \<Rightarrow> SYS \<Rightarrow> SYS option" where
  "ProcessReference Proc s = do {
     ASSERT (NULL \<noteq> Proc);
     e \<leftarrow> processes s Proc;
     (n, obj) \<leftarrow> RfcReference \<lparr>ReferenceCount = ProcRefCnt e, FreeFunction = (None :: (ptr \<Rightarrow> unit \<Rightarrow> unit) option), Context = NULL\<rparr>;
     upd_proc Proc (\<lambda>e. e\<lparr>ProcRefCnt := n\<rparr>) s
   }"

definition ProcessDereference :: "ptr \<Rightarrow> SYS \<Rightarrow> SYS option" where
  "ProcessDereference Proc s = do {
     ASSERT (NULL \<noteq> Proc);
     e \<leftarrow> processes s Proc;
     s \<leftarrow> upd_proc Proc (\<lambda>e. e\<lparr>ProcRefCnt := ProcRefCnt e - 1\<rparr>) s;
     (n, obj, r) \<leftarrow> RfcDereference \<lparr>ReferenceCount = ProcRefCnt e,
       FreeFunction = Some (\<lambda>ctx r. r \<bind> ProcessDestroyed Proc), Context = NULL\<rparr> (Some s);
     r
   }"

definition ProcessInsertThreadInList :: "CPU \<Rightarrow> ptr \<Rightarrow> ptr \<Rightarrow> SYS \<Rightarrow> (CPU \<times> SYS) option" where
  "ProcessInsertThreadInList cpu Proc Thread s = do {
     ASSERT (Proc \<noteq> NULL);
     ASSERT (Thread \<noteq> NULL);
     s \<leftarrow> upd_thr Thread (\<lambda>t. t\<lparr>Process := Proc\<rparr>) s;
     (oldState, cpu, s) \<leftarrow> AcquireThreadList cpu s Proc;
     e \<leftarrow> processes s Proc;
     ASSERT (NumberOfThreads e < MAX_DWORD);
     s \<leftarrow> upd_proc Proc (\<lambda>e. e\<lparr>NumberOfThreads := NumberOfThreads e + 1\<rparr>) s;
     s \<leftarrow> upd_proc Proc (\<lambda>e. e\<lparr>ActiveThreads := ActiveThreads e + 1\<rparr>) s;
     e \<leftarrow> processes s Proc;
     ASSERT (ActiveThreads e \<le> NumberOfThreads e);
     s \<leftarrow> InsertTail (ThreadList Proc) (ProcessList Thread) s;
     s \<leftarrow> ProcessReference Proc s;
     ReleaseThreadList cpu s Proc oldState
   }"

definition ProcessNotifyThreadTermination :: "CPU \<Rightarrow> ptr \<Rightarrow> SYS \<Rightarrow> (CPU \<times> SYS) option" where
  "ProcessNotifyThreadTermination cpu Thread s = do {
     ASSERT (Thread \<noteq> NULL);
     t \<leftarrow> threads s Thread;
     let pProcess = Process t;
     ASSERT (pProcess \<noteq> NULL);
     s \<leftarrow> upd_proc pProcess (\<lambda>e. e\<lparr>ActiveThreads := ActiveThreads e - 1\<rparr>) s;
     e \<leftarrow> processes s pProcess;
     if ActiveThreads e = 0 then do {
       s \<leftarrow> upd_proc pProcess (\<lambda>e. e\<lparr>TerminationStatus := ExitStatus t\<rparr>) s;
       ExEventSignal cpu (ProcTerminationEvt pProcess) s
     }
     else Some (cpu, s)
   }"

definition ProcessRemoveThreadFromList :: "CPU \<Rightarrow> ptr \<Rightarrow> SYS \<Rightarrow> (CPU \<times> SYS) option" where
  "ProcessRemoveThreadFromList cpu Thread s = do {
     ASSERT (Thread \<noteq> NULL);
     t \<leftarrow> threads s Thread;
     let pProcess = Process t;
     ASSERT (pProcess \<noteq> NULL);
     (oldState, cpu, s) \<leftarrow> AcquireThreadList cpu s pProcess;
     s \<leftarrow> upd_proc pProcess (\<lambda>e. e\<lparr>NumberOfThreads := NumberOfThreads e - 1\<rparr>) s;
     e \<leftarrow> processes s pProcess;
     let remainingThreads = NumberOfThreads e;
     ASSERT (remainingThreads \<noteq> MAX_DWORD);
     s \<leftarrow> RemoveEntry (ProcessList Thread) s;
     s \<leftarrow> ProcessDereference pProcess s;
     (cpu, s) \<leftarrow> ReleaseThreadList cpu s pProcess oldState;
     s \<leftarrow> (if remainingThreads = 0 then ProcessDereference pProcess s else Some s);
     Some (cpu, s)
   }"

section \<open>Destruction of threads\<close>

definition FreeThread :: "ptr \<Rightarrow> SYS \<Rightarrow> SYS" where
  "FreeThread p s = s\<lparr>threads := (threads s)(p := None), events := (events s)(TerminationEvt p := None),
     entries := (entries s)(EventWaitingList (TerminationEvt p) := None, AllList p := None, ReadyList p := None, ProcessList p := None)\<rparr>"

definition ThreadDestroy :: "CPU \<Rightarrow> ptr \<Rightarrow> SYS \<Rightarrow> (CPU \<times> SYS) option" where
  "ThreadDestroy cpu pThread s = do {
     ASSERT (NULL \<noteq> pThread);
     (oldState, cpu, s) \<leftarrow> AcquireAll cpu s;
     s \<leftarrow> RemoveEntry (AllList pThread) s;
     (cpu, s) \<leftarrow> ReleaseAll cpu s oldState;
     t \<leftarrow> threads s pThread;
     s \<leftarrow> (if NULL \<noteq> UserStack t then upd_thr pThread (\<lambda>t. t\<lparr>UserStack := NULL\<rparr>) (call (MmuFreeStack (UserStack t) (Process t)) s)
           else Some s);
     (cpu, s) \<leftarrow> ProcessRemoveThreadFromList cpu pThread s;
     s \<leftarrow> (if Name t \<noteq> None then upd_thr pThread (\<lambda>t. t\<lparr>Name := None\<rparr>) (call (ExFreePool_Name pThread) s) else Some s);
     s \<leftarrow> (if NULL \<noteq> Stack t then upd_thr pThread (\<lambda>t. t\<lparr>Stack := NULL\<rparr>) (call (MmuFreeStack (Stack t) NULL) s) else Some s);
     Some (cpu, FreeThread pThread (call (ExFreePool_Thread pThread) s))
   }"

definition ThreadReference :: "ptr \<Rightarrow> SYS \<Rightarrow> SYS option" where
  "ThreadReference Thread s = do {
     ASSERT (NULL \<noteq> Thread);
     t \<leftarrow> threads s Thread;
     (n, obj) \<leftarrow> RfcReference \<lparr>ReferenceCount = RefCnt t, FreeFunction = (None :: (ptr \<Rightarrow> unit \<Rightarrow> unit) option), Context = NULL\<rparr>;
     upd_thr Thread (\<lambda>t. t\<lparr>RefCnt := n\<rparr>) s
   }"

definition ThreadDereference :: "CPU \<Rightarrow> ptr \<Rightarrow> SYS \<Rightarrow> (CPU \<times> SYS) option" where
  "ThreadDereference cpu Thread s = do {
     ASSERT (NULL \<noteq> Thread);
     t \<leftarrow> threads s Thread;
     s \<leftarrow> upd_thr Thread (\<lambda>t. t\<lparr>RefCnt := RefCnt t - 1\<rparr>) s;
     (n, obj, r) \<leftarrow> RfcDereference \<lparr>ReferenceCount = RefCnt t,
       FreeFunction = Some (\<lambda>ctx r. r \<bind> (\<lambda>(cpu, s). ThreadDestroy cpu Thread s)), Context = NULL\<rparr> (Some (cpu, s));
     r
   }"

definition ThreadCloseHandle :: "CPU \<Rightarrow> ptr \<Rightarrow> SYS \<Rightarrow> (CPU \<times> SYS) option" where
  "ThreadCloseHandle cpu Thread s = do { ASSERT (NULL \<noteq> Thread); ThreadDereference cpu Thread s }"

section \<open>Scheduling\<close>

definition ThreadGetReadyThread :: "CPU \<Rightarrow> SYS \<Rightarrow> (ptr \<times> SYS) option" where
  "ThreadGetReadyThread cpu s = do {
     ASSERT (INTR_OFF = CpuIntrGetState cpu);
     ASSERT (OwnsReady cpu s);
     (pEntry, s) \<leftarrow> RemoveHead (ReadyThreadsList s) s;
     if pEntry = ReadyThreadsList s then do {
       c \<leftarrow> pcpus s (CpuSelf cpu);
       Some (IdleThread c, call (CoreUpdateIdleTime True) s)
     }
     else do {
       let pNextThread = ReadyThread pEntry;
       t \<leftarrow> threads s pNextThread;
       ASSERT (TState t = ThreadStateReady);
       Some (pNextThread, call (CoreUpdateIdleTime False) s)
     }
   }"

text \<open>
  \<open>ThreadSwitch\<close> of \<open>_thread.yasm\<close>: the registers are saved in a COMPLETE\_PROCESSOR\_STATE of \<open>sz\<close> bytes
  below the stack pointer of the old thread, which is stored; the new one is loaded and its frame popped.
\<close>

definition ThreadSwitch :: "CPU \<Rightarrow> QWORD \<Rightarrow> ptr \<Rightarrow> ptr \<Rightarrow> SYS \<Rightarrow> SYS option" where
  "ThreadSwitch cpu sz Old NewStack s = do {
     c \<leftarrow> pcpus s (CpuSelf cpu);
     s \<leftarrow> upd_thr Old (\<lambda>t. t\<lparr>Stack := Rsp c - sz\<rparr>) s;
     upd_cpu (CpuSelf cpu) (\<lambda>c. c\<lparr>Rsp := NewStack + sz\<rparr>) s
   }"

definition ThreadCleanupPostSchedule :: "CPU \<Rightarrow> SYS \<Rightarrow> (CPU \<times> SYS) option" where
  "ThreadCleanupPostSchedule cpu s = do {
     ASSERT (INTR_OFF = CpuIntrGetState cpu);
     s \<leftarrow> upd_cpu (CpuSelf cpu) (\<lambda>c. c\<lparr>RunningThreadTicks := 0\<rparr>) s;
     c \<leftarrow> pcpus s (CpuSelf cpu);
     let prevThread = PreviousThread c;
     (cpu, s) \<leftarrow> ReleaseReady cpu s INTR_OFF;
     if NULL \<noteq> prevThread then do {
       owner \<leftarrow> OwnsBlock cpu s prevThread;
       t \<leftarrow> threads s prevThread;
       if owner then do {
         ASSERT (TState t = ThreadStateBlocked \<or> prevThread = IdleThread c);
         ReleaseBlock cpu s prevThread INTR_OFF
       }
       else if TState t = ThreadStateDying then do {
         (cpu, s) \<leftarrow> ThreadDereference cpu prevThread s;
         s \<leftarrow> upd_cpu (CpuSelf cpu) (\<lambda>c. c\<lparr>PreviousThread := NULL\<rparr>) s;
         Some (cpu, s)
       }
       else Some (cpu, s)
     }
     else Some (cpu, s)
   }"

text \<open>What the thread that now runs does when its call of \<open>_ThreadSchedule\<close> returns.\<close>

definition ReturnFromSchedule :: "CPU \<Rightarrow> SYS \<Rightarrow> (CPU \<times> SYS) option" where
  "ReturnFromSchedule cpu s = do {
     pThread \<leftarrow> GetCurrentThread cpu s;
     case resume s pThread of
       Fresh \<Rightarrow> Some (CpuIntrSetState True cpu, s)
     | AfterYield oldState \<Rightarrow> do { ASSERT (\<not> OwnsReady cpu s); Some (CpuIntrSetState oldState cpu, s) }
     | AfterBlock \<Rightarrow> do { ASSERT (\<not> OwnsReady cpu s); Some (cpu, s) }
     | Gone \<Rightarrow> None
   }"

definition ThreadSchedule :: "CPU \<Rightarrow> QWORD \<Rightarrow> SYS \<Rightarrow> (CPU \<times> SYS) option" where
  "ThreadSchedule cpu sz s = do {
     ASSERT (INTR_OFF = CpuIntrGetState cpu);
     ASSERT (OwnsReady cpu s);
     pCurrentThread \<leftarrow> GetCurrentThread cpu s;
     ASSERT (NULL \<noteq> pCurrentThread);
     s \<leftarrow> upd_cpu (CpuSelf cpu) (\<lambda>c. c\<lparr>PreviousThread := pCurrentThread\<rparr>) s;
     (pNextThread, s) \<leftarrow> ThreadGetReadyThread cpu s;
     ASSERT (NULL \<noteq> pNextThread);
     s \<leftarrow> (if pNextThread \<noteq> pCurrentThread then do {
              cur \<leftarrow> threads s pCurrentThread;
              nxt \<leftarrow> threads s pNextThread;
              let s = (if Process cur \<noteq> Process nxt then call (MmuChangeProcessSpace (Process nxt)) s else s);
              s \<leftarrow> upd_thr pCurrentThread (\<lambda>t. t\<lparr>UninterruptedTicks := 0\<rparr>) s;
              s \<leftarrow> SetCurrentThread cpu pNextThread s;
              ThreadSwitch cpu sz pCurrentThread (Stack nxt) s
            }
            else upd_thr pCurrentThread (\<lambda>t. t\<lparr>UninterruptedTicks := UninterruptedTicks t + 1\<rparr>) s);
     (cpu, s) \<leftarrow> ThreadCleanupPostSchedule cpu s;
     ReturnFromSchedule cpu s
   }"

definition ThreadExit :: "CPU \<Rightarrow> QWORD \<Rightarrow> STATUS \<Rightarrow> SYS \<Rightarrow> (CPU \<times> SYS) option" where
  "ThreadExit cpu sz status s = do {
     pThread \<leftarrow> GetCurrentThread cpu s;
     let (_, cpu) = CpuIntrDisable cpu;
     owner \<leftarrow> OwnsBlock cpu s pThread;
     (cpu, s) \<leftarrow> (if owner then ReleaseBlock cpu s pThread INTR_OFF else Some (cpu, s));
     s \<leftarrow> upd_thr pThread (\<lambda>t. t\<lparr>TState := ThreadStateDying, ExitStatus := status\<rparr>) s;
     (cpu, s) \<leftarrow> ExEventSignal cpu (TerminationEvt pThread) s;
     (cpu, s) \<leftarrow> ProcessNotifyThreadTermination cpu pThread s;
     (oldState, cpu, s) \<leftarrow> AcquireReady cpu s;
     ThreadSchedule cpu sz (s\<lparr>resume := (resume s)(pThread := Gone)\<rparr>)
   }"

definition ThreadForcedExit :: "CPU \<Rightarrow> QWORD \<Rightarrow> SYS \<Rightarrow> (CPU \<times> SYS) option" where
  "ThreadForcedExit cpu sz s = do {
     pCurrentThread \<leftarrow> GetCurrentThread cpu s;
     s \<leftarrow> upd_thr pCurrentThread (\<lambda>t. t\<lparr>Flags := Flags t OR THREAD_FLAG_FORCE_TERMINATED\<rparr>) s;
     ThreadExit cpu sz STATUS_JOB_INTERRUPTED s
   }"

definition ThreadYield :: "CPU \<Rightarrow> QWORD \<Rightarrow> SYS \<Rightarrow> (CPU \<times> SYS) option" where
  "ThreadYield cpu sz s = do {
     pThread \<leftarrow> GetCurrentThread cpu s;
     ASSERT (NULL \<noteq> pThread);
     let (oldState, cpu) = CpuIntrDisable cpu;
     ASSERT (NULL \<noteq> CpuSelf cpu);
     pCpu \<leftarrow> pcpus s (CpuSelf cpu);
     let bForcedYield = YieldOnInterruptReturn pCpu;
     s \<leftarrow> upd_cpu (CpuSelf cpu) (\<lambda>c. c\<lparr>YieldOnInterruptReturn := False\<rparr>) s;
     t \<leftarrow> threads s pThread;
     if THREAD_FLAG_FORCE_TERMINATE_PENDING = Flags t then ThreadForcedExit cpu sz s
     else do {
       (dummyState, cpu, s) \<leftarrow> AcquireReady cpu s;
       s \<leftarrow> (if pThread \<noteq> IdleThread pCpu then InsertTail (ReadyThreadsList s) (ReadyList pThread) s else Some s);
       s \<leftarrow> (if \<not> bForcedYield then upd_thr pThread (\<lambda>t. t\<lparr>TickCountEarly := TickCountEarly t + 1\<rparr>) s else Some s);
       s \<leftarrow> upd_thr pThread (\<lambda>t. t\<lparr>TState := ThreadStateReady\<rparr>) s;
       ThreadSchedule cpu sz (s\<lparr>resume := (resume s)(pThread := AfterYield oldState)\<rparr>)
     }
   }"

definition ThreadBlock :: "CPU \<Rightarrow> QWORD \<Rightarrow> SYS \<Rightarrow> (CPU \<times> SYS) option" where
  "ThreadBlock cpu sz s = do {
     pCurrentThread \<leftarrow> GetCurrentThread cpu s;
     ASSERT (INTR_OFF = CpuIntrGetState cpu);
     owner \<leftarrow> OwnsBlock cpu s pCurrentThread;
     ASSERT owner;
     t \<leftarrow> threads s pCurrentThread;
     if THREAD_FLAG_FORCE_TERMINATE_PENDING = Flags t then ThreadForcedExit cpu sz s
     else do {
       s \<leftarrow> upd_thr pCurrentThread (\<lambda>t. t\<lparr>TickCountEarly := TickCountEarly t + 1, TState := ThreadStateBlocked\<rparr>) s;
       (oldState, cpu, s) \<leftarrow> AcquireReady cpu s;
       ThreadSchedule cpu sz (s\<lparr>resume := (resume s)(pCurrentThread := AfterBlock)\<rparr>)
     }
   }"

definition ThreadTakeBlockLock :: "CPU \<Rightarrow> SYS \<Rightarrow> (CPU \<times> SYS) option" where
  "ThreadTakeBlockLock cpu s = do {
     p \<leftarrow> GetCurrentThread cpu s;
     (dummyState, cpu, s) \<leftarrow> AcquireBlock cpu s p;
     Some (cpu, s)
   }"

definition ThreadSystemPreinit :: "SYS \<Rightarrow> SYS option" where
  "ThreadSystemPreinit s = do {
     let s = s\<lparr>AllThreadsLock := \<lparr>State = 0, Holder = NULL, FunctionWhichTookLock = NULL\<rparr>,
               ReadyThreadsLock := \<lparr>State = 0, Holder = NULL, FunctionWhichTookLock = NULL\<rparr>,
               entries := (entries s)(AllThreadsList s \<mapsto> \<lparr>Flink = NULL, Blink = NULL\<rparr>, ReadyThreadsList s \<mapsto> \<lparr>Flink = NULL, Blink = NULL\<rparr>)\<rparr>;
     h \<leftarrow> InitializeListHead (entries s) (AllThreadsList s);
     let s = s\<lparr>entries := h, AllThreadsLock := LockInit (LockOps s) (AllThreadsLock s)\<rparr>;
     h \<leftarrow> InitializeListHead (entries s) (ReadyThreadsList s);
     Some (s\<lparr>entries := h, ReadyThreadsLock := LockInit (LockOps s) (ReadyThreadsLock s)\<rparr>)
   }"

definition ThreadExecuteForEachThreadEntry ::
  "CPU \<Rightarrow> 'c list_function option \<Rightarrow> 'c \<Rightarrow> SYS \<Rightarrow> (STATUS \<times> 'c \<times> CPU \<times> SYS) option" where
  "ThreadExecuteForEachThreadEntry cpu Function ctx s = (case Function of None \<Rightarrow> Some (STATUS_INVALID_PARAMETER1, ctx, cpu, s)
     | Some f \<Rightarrow> do {
        (oldState, cpu, s) \<leftarrow> AcquireAll cpu s;
        (status, h, ctx) \<leftarrow> ForEachElementExecute (entries s, ctx) (AllThreadsList s) (Some f) False;
        (cpu, s) \<leftarrow> ReleaseAll cpu (s\<lparr>entries := h\<rparr>) oldState;
        Some (status, ctx, cpu, s)
      })"

text \<open>
  The timer interrupt: its routine ends in \<open>ExSystemTimerTick\<close>, and the last thing that
  \<open>_IsrInterruptHandler\<close> does, behind acknowledging the interrupt, is to yield when this was asked for.
\<close>

definition ExSystemTimerTick :: "CPU \<Rightarrow> SYS \<Rightarrow> SYS option" where
  "ExSystemTimerTick cpu s = ThreadTick cpu s"

definition IsrYield :: "CPU \<Rightarrow> QWORD \<Rightarrow> SYS \<Rightarrow> (CPU \<times> SYS) option" where
  "IsrYield cpu sz s = do {
     b \<leftarrow> ThreadYieldOnInterrupt cpu s;
     if b then ThreadYield cpu sz s else Some (cpu, s)
   }"

end
