(* ===== verification/Scheduler.thy ===== *)
theory Scheduler
  imports Threads
begin

text \<open>
  Correctness of the scheduler: what the operations of \<open>Threads\<close> do to the queue of ready threads, to the
  processors and to the threads, and that they never fail an assertion on a well-formed state.
\<close>

section \<open>Evaluation of the lock operations\<close>

definition FREE :: LOCK where
  "FREE = \<lparr>State = LOCK_FREE, Holder = NULL, FunctionWhichTookLock = NULL\<rparr>"

definition HELD :: "ptr \<Rightarrow> ptr \<Rightarrow> LOCK" where
  "HELD c ra = \<lparr>State = LOCK_TAKEN, Holder = c, FunctionWhichTookLock = ra\<rparr>"

lemma lock_free_eq: "lock_free l \<longleftrightarrow> l = FREE"
  by (cases l) (simp add: lock_free_def FREE_def)

lemma lock_held_eq: "lock_held l c ra \<longleftrightarrow> l = HELD c ra"
  by (cases l) (simp add: lock_held_def HELD_def)

named_theorems kernel_simps \<open>evaluation of the operations on kernel objects\<close>

lemma acquire_FREE [kernel_simps]:
  "LockOps s = LockSystemInit m \<Longrightarrow> CpuSelf cpu \<noteq> NULL \<Longrightarrow>
   acquire cpu s FREE = Some (CpuIntr cpu, cpu\<lparr>CpuIntr := INTR_OFF\<rparr>, HELD (CpuSelf cpu) (CallSite s))"
  using lock_sys.acquire_free [of FREE cpu m "CallSite s"]
  by (auto simp: acquire_def lock_free_eq lock_held_eq)

lemma release_HELD [kernel_simps]:
  "LockOps s = LockSystemInit m \<Longrightarrow> CpuSelf cpu = c \<Longrightarrow> CpuIntr cpu = INTR_OFF \<Longrightarrow>
   release cpu s (HELD c ra) st = Some (cpu\<lparr>CpuIntr := st\<rparr>, FREE)"
  using lock_sys.release_held [of "HELD c ra" c ra cpu m st]
  by (auto simp: release_def lock_free_eq lock_held_eq)

lemma owner_HELD [kernel_simps]: "LockIsOwner (LockSystemInit m) cpu (HELD c ra) \<longleftrightarrow> CpuSelf cpu = c"
  using lock_sys.owner [of "HELD c ra" c ra m cpu] by (simp add: lock_held_eq)

lemma owner_FREE [kernel_simps]: "LockIsOwner (LockSystemInit m) cpu FREE \<longleftrightarrow> CpuSelf cpu = NULL"
  by (cases m) (auto simp: LockSystemInit_def lock_defs FREE_def)

lemmas upd_defs [kernel_simps] = upd_thr_def upd_cpu_def upd_evt_def upd_mutex_def upd_proc_def call_def

lemmas lock_op_defs [kernel_simps] = AcquireReady_def ReleaseReady_def OwnsReady_def AcquireAll_def ReleaseAll_def
  AcquireBlock_def ReleaseBlock_def OwnsBlock_def AcquireEvent_def ReleaseEvent_def AcquireMutex_def ReleaseMutex_def AcquireThreadList_def ReleaseThreadList_def

lemmas cur_defs [kernel_simps] = GetCurrentThread_def SetCurrentThread_def CpuIntrGetState_def CpuIntrSetState_def CpuIntrDisable_def

lemma CPU_intr_same [simp]: "CpuIntr cpu = b \<Longrightarrow> cpu\<lparr>CpuIntr := b\<rparr> = cpu"
  by (cases cpu) simp

lemma ReadyThread_ReadyList [simp]: "ReadyThread (ReadyList t) = t"
  by (simp add: ReadyThread_def ReadyList_def)

lemma inj_ReadyList [simp]: "ReadyList t = ReadyList u \<longleftrightarrow> t = u"
  by (simp add: ReadyList_def)

lemma in_ReadyList_image [simp]: "ReadyList t \<in> ReadyList ` A \<longleftrightarrow> t \<in> A"
  by (auto simp: image_iff)

lemma RemoveHead_empty:
  "is_list (entries s) head [] \<Longrightarrow> RemoveHead head s = Some (head, s)"
  by (simp add: RemoveHead_def RemoveHeadList_empty)

section \<open>The scheduler\<close>

text \<open>The thread that \<open>_ThreadGetReadyThread\<close> chooses, and the interrupt state it continues with.\<close>

definition next_thread :: "ptr \<Rightarrow> ptr list \<Rightarrow> ptr" where
  "next_thread idle q = (if q = [] then idle else hd q)"

fun resume_intr :: "resume_point \<Rightarrow> INTR_STATE" where
  "resume_intr Fresh = True"
| "resume_intr (AfterYield st) = st"
| "resume_intr AfterBlock = INTR_OFF"
| "resume_intr Gone = INTR_OFF"

lemma ThreadGetReadyThread_ok:
  assumes "LockOps s = LockSystemInit m" and "CpuIntr cpu = INTR_OFF" and "ReadyThreadsLock s = HELD (CpuSelf cpu) ra"
    and "is_list (entries s) (ReadyThreadsList s) (map ReadyList q)" and "pcpus s (CpuSelf cpu) = Some C"
    and "\<And>t. t \<in> set q \<Longrightarrow> \<exists>T. threads s t = Some T \<and> TState T = ThreadStateReady"
  shows "\<exists>h. ThreadGetReadyThread cpu s = Some (next_thread (IdleThread C) q,
      s\<lparr>entries := h, calls := calls s @ [CoreUpdateIdleTime (q = [])]\<rparr>)
    \<and> is_list h (ReadyThreadsList s) (map ReadyList (tl q))
    \<and> only_changes (set (ReadyThreadsList s # map ReadyList (tl q))) (entries s) h"
proof (cases q)
  case Nil
  then show ?thesis using assms
    by (intro exI [of _ "entries s"])
      (simp add: ThreadGetReadyThread_def RemoveHead_empty kernel_simps next_thread_def only_changes_def)
next
  case (Cons t ts)
  with RemoveHeadList_ok [of "entries s" "ReadyThreadsList s" "ReadyList t" "map ReadyList ts"] assms(4)
  obtain h where h: "RemoveHeadList (entries s) (ReadyThreadsList s) = Some (ReadyList t, h)"
    "is_list h (ReadyThreadsList s) (map ReadyList ts)" "only_changes (set (ReadyThreadsList s # map ReadyList ts)) (entries s) h" by auto
  have "ReadyList t \<noteq> ReadyThreadsList s" using assms(4) Cons by (auto simp: is_list_def)
  with h Cons assms(1-3,5) assms(6) [of t] show ?thesis
    by (auto simp: ThreadGetReadyThread_def RemoveHead_def kernel_simps next_thread_def)
qed

text \<open>The processor and the thread that gave it up, after a switch to the thread \<open>nxt\<close> with record \<open>N\<close>.\<close>

definition switch_cpu :: "QWORD \<Rightarrow> ptr \<Rightarrow> ptr \<Rightarrow> THREAD \<Rightarrow> PCPU \<Rightarrow> PCPU" where
  "switch_cpu sz cur nxt N C =
     (if nxt = cur then C\<lparr>PreviousThread := cur\<rparr>
      else C\<lparr>PreviousThread := cur, FsBase := nxt, CurrentThread := nxt, StackTop := InitialStackBase N,
             CpuStackSize := StackSize N, TssRsp0 := InitialStackBase N, Rsp := Stack N + sz\<rparr>)"

definition switch_thr :: "QWORD \<Rightarrow> ptr \<Rightarrow> ptr \<Rightarrow> PCPU \<Rightarrow> THREAD \<Rightarrow> THREAD" where
  "switch_thr sz cur nxt C T =
     (if nxt = cur then T\<lparr>UninterruptedTicks := UninterruptedTicks T + 1\<rparr> else T\<lparr>UninterruptedTicks := 0, Stack := Rsp C - sz\<rparr>)"

definition switched_cpu :: "QWORD \<Rightarrow> ptr \<Rightarrow> ptr \<Rightarrow> THREAD \<Rightarrow> PCPU \<Rightarrow> PCPU" where
  "switched_cpu sz cur nxt N C = (switch_cpu sz cur nxt N C)\<lparr>RunningThreadTicks := 0\<rparr>"

definition switched_thr :: "QWORD \<Rightarrow> ptr \<Rightarrow> ptr \<Rightarrow> PCPU \<Rightarrow> THREAD \<Rightarrow> THREAD" where
  "switched_thr sz cur nxt C T = (switch_thr sz cur nxt C T)\<lparr>BlockLock := FREE\<rparr>"

lemma switch_sel [simp]:
  "BlockLock (switch_thr sz cur nxt C T) = BlockLock T" "TState (switch_thr sz cur nxt C T) = TState T" "Self (switch_thr sz cur nxt C T) = Self T"
  "Flags (switch_thr sz cur nxt C T) = Flags T" "TickCountEarly (switch_thr sz cur nxt C T) = TickCountEarly T"
  "RefCnt (switch_thr sz cur nxt C T) = RefCnt T"
  "PreviousThread (switch_cpu sz cur nxt N C) = cur" "IdleThread (switch_cpu sz cur nxt N C) = IdleThread C"
  "YieldOnInterruptReturn (switch_cpu sz cur nxt N C) = YieldOnInterruptReturn C"
  "CurrentThread C = cur \<Longrightarrow> CurrentThread (switch_cpu sz cur nxt N C) = nxt" "FsBase C = cur \<Longrightarrow> FsBase (switch_cpu sz cur nxt N C) = nxt"
  by (simp_all add: switch_thr_def switch_cpu_def)

definition switch_calls :: "ptr list \<Rightarrow> THREAD \<Rightarrow> THREAD \<Rightarrow> kernel_call list" where
  "switch_calls q T N = CoreUpdateIdleTime (q = []) # (if Process T \<noteq> Process N then [MmuChangeProcessSpace (Process N)] else [])"

lemma ThreadCleanup_ok:
  assumes "LockOps s = LockSystemInit m" and "CpuIntr cpu = INTR_OFF" and "CpuSelf cpu \<noteq> NULL"
    and "ReadyThreadsLock s = HELD (CpuSelf cpu) ra" and "pcpus s (CpuSelf cpu) = Some C" and "PreviousThread C = prev" "prev \<noteq> NULL"
    and "threads s prev = Some T" "TState T \<noteq> ThreadStateDying"
    and "BlockLock T = FREE \<or> BlockLock T = HELD (CpuSelf cpu) ra' \<and> (TState T = ThreadStateBlocked \<or> prev = IdleThread C)"
  shows "ThreadCleanupPostSchedule cpu s = Some (cpu, s\<lparr>threads := (threads s)(prev \<mapsto> T\<lparr>BlockLock := FREE\<rparr>),
     pcpus := (pcpus s)(CpuSelf cpu \<mapsto> C\<lparr>RunningThreadTicks := 0\<rparr>), ReadyThreadsLock := FREE\<rparr>)"
proof (cases "BlockLock T = FREE")
  case True
  then have "(threads s)(prev \<mapsto> T\<lparr>BlockLock := FREE\<rparr>) = threads s" using assms(8) by (cases T) (simp add: fun_upd_idem)
  then show ?thesis using True assms by (simp add: ThreadCleanupPostSchedule_def kernel_simps)
next
  case False
  then show ?thesis using assms by (simp add: ThreadCleanupPostSchedule_def kernel_simps)
qed

lemma ReturnFromSchedule_ok:
  assumes "LockOps s = LockSystemInit m" and "CpuIntr cpu = INTR_OFF" and "CpuSelf cpu \<noteq> NULL" and "ReadyThreadsLock s = FREE"
    and "GetCurrentThread cpu s = Some nxt" and "resume s nxt \<noteq> Gone"
  shows "ReturnFromSchedule cpu s = Some (cpu\<lparr>CpuIntr := resume_intr (resume s nxt)\<rparr>, s)"
  using assms by (cases "resume s nxt") (simp_all add: ReturnFromSchedule_def OwnsReady_def owner_FREE CpuIntrSetState_def)

text \<open>\<open>_ThreadSchedule\<close> up to the switch, in the state that the chosen thread finds.\<close>

definition after_switch :: "CPU \<Rightarrow> QWORD \<Rightarrow> ptr list \<Rightarrow> ptr \<Rightarrow> ptr \<Rightarrow> PCPU \<Rightarrow> THREAD \<Rightarrow> THREAD \<Rightarrow> lheap \<Rightarrow> SYS \<Rightarrow> SYS" where
  "after_switch cpu sz q cur nxt C T N h s = s\<lparr>pcpus := (pcpus s)(CpuSelf cpu \<mapsto> switch_cpu sz cur nxt N C), entries := h,
     calls := calls s @ switch_calls q T N, threads := (threads s)(cur \<mapsto> switch_thr sz cur nxt C T)\<rparr>"

lemma ThreadSchedule_split:
  assumes ops: "LockOps s = LockSystemInit m" and intr: "CpuIntr cpu = INTR_OFF" "CpuSelf cpu \<noteq> NULL"
    and lock: "ReadyThreadsLock s = HELD (CpuSelf cpu) ra"
    and q: "is_list (entries s) (ReadyThreadsList s) (map ReadyList q)"
      "\<And>t. t \<in> set q \<Longrightarrow> \<exists>T. threads s t = Some T \<and> TState T = ThreadStateReady"
    and cpu: "pcpus s (CpuSelf cpu) = Some C" "FsBase C = cur"
    and cur: "threads s cur = Some T" "Self T = cur" "cur \<noteq> NULL"
    and nxt: "nxt = next_thread (IdleThread C) q" "threads s nxt = Some N" "Self N = nxt" "nxt \<noteq> NULL"
  shows "\<exists>h. ThreadSchedule cpu sz s = do { (cpu, s) \<leftarrow> ThreadCleanupPostSchedule cpu (after_switch cpu sz q cur nxt C T N h s);
                                           ReturnFromSchedule cpu s }
    \<and> is_list h (ReadyThreadsList s) (map ReadyList (tl q))
    \<and> only_changes (set (ReadyThreadsList s # map ReadyList (tl q))) (entries s) h"
proof -
  let ?s = "s\<lparr>pcpus := (pcpus s)(CpuSelf cpu \<mapsto> C\<lparr>PreviousThread := cur\<rparr>)\<rparr>"
  obtain h where h: "ThreadGetReadyThread cpu ?s = Some (nxt, ?s\<lparr>entries := h, calls := calls s @ [CoreUpdateIdleTime (q = [])]\<rparr>)"
    "is_list h (ReadyThreadsList s) (map ReadyList (tl q))" "only_changes (set (ReadyThreadsList s # map ReadyList (tl q))) (entries s) h"
    using ThreadGetReadyThread_ok [of ?s m cpu ra q "C\<lparr>PreviousThread := cur\<rparr>"] ops intr lock q nxt(1) by auto
  have "ThreadSchedule cpu sz s = do { (cpu, s) \<leftarrow> ThreadCleanupPostSchedule cpu (after_switch cpu sz q cur nxt C T N h s); ReturnFromSchedule cpu s }"
    using h(1) ops intr lock cpu cur nxt
    by (cases "nxt = cur"; cases s)
      (simp_all add: ThreadSchedule_def ThreadSwitch_def kernel_simps after_switch_def switch_thr_def switch_cpu_def switch_calls_def)
  then show ?thesis using h(2,3) by blast
qed

lemma ThreadSchedule_ok:
  assumes ops: "LockOps s = LockSystemInit m" and intr: "CpuIntr cpu = INTR_OFF" "CpuSelf cpu \<noteq> NULL"
    and lock: "ReadyThreadsLock s = HELD (CpuSelf cpu) ra"
    and q: "is_list (entries s) (ReadyThreadsList s) (map ReadyList q)"
      "\<And>t. t \<in> set q \<Longrightarrow> \<exists>T. threads s t = Some T \<and> TState T = ThreadStateReady"
    and cpu: "pcpus s (CpuSelf cpu) = Some C" "FsBase C = cur"
    and cur: "threads s cur = Some T" "Self T = cur" "cur \<noteq> NULL" "TState T \<noteq> ThreadStateDying"
    and block: "BlockLock T = FREE \<or> BlockLock T = HELD (CpuSelf cpu) ra' \<and> (TState T = ThreadStateBlocked \<or> cur = IdleThread C)"
    and nxt: "nxt = next_thread (IdleThread C) q" "threads s nxt = Some N" "Self N = nxt" "nxt \<noteq> NULL" "resume s nxt \<noteq> Gone"
  shows "\<exists>h. ThreadSchedule cpu sz s = Some (cpu\<lparr>CpuIntr := resume_intr (resume s nxt)\<rparr>,
      s\<lparr>entries := h, calls := calls s @ switch_calls q T N, threads := (threads s)(cur \<mapsto> switched_thr sz cur nxt C T),
        pcpus := (pcpus s)(CpuSelf cpu \<mapsto> switched_cpu sz cur nxt N C), ReadyThreadsLock := FREE\<rparr>)
    \<and> is_list h (ReadyThreadsList s) (map ReadyList (tl q))
    \<and> only_changes (set (ReadyThreadsList s # map ReadyList (tl q))) (entries s) h"
proof -
  obtain h where h: "ThreadSchedule cpu sz s = do { (cpu, s) \<leftarrow> ThreadCleanupPostSchedule cpu (after_switch cpu sz q cur nxt C T N h s); ReturnFromSchedule cpu s }"
    "is_list h (ReadyThreadsList s) (map ReadyList (tl q))" "only_changes (set (ReadyThreadsList s # map ReadyList (tl q))) (entries s) h"
    using ThreadSchedule_split [OF ops intr lock q cpu cur(1-3) nxt(1-4), of sz] by blast
  define s1 where "s1 = after_switch cpu sz q cur nxt C T N h s"
  define s2 where "s2 = s\<lparr>entries := h, calls := calls s @ switch_calls q T N, threads := (threads s)(cur \<mapsto> switched_thr sz cur nxt C T),
     pcpus := (pcpus s)(CpuSelf cpu \<mapsto> switched_cpu sz cur nxt N C), ReadyThreadsLock := FREE\<rparr>"
  have "ThreadCleanupPostSchedule cpu s1 = Some (cpu, s2)"
    using ThreadCleanup_ok [of s1 m cpu ra "switch_cpu sz cur nxt N C" cur "switch_thr sz cur nxt C T" ra'] ops intr lock cur block
    by (simp add: s1_def after_switch_def s2_def switched_thr_def switched_cpu_def)
  moreover have "ReturnFromSchedule cpu s2 = Some (cpu\<lparr>CpuIntr := resume_intr (resume s nxt)\<rparr>, s2)"
    using ReturnFromSchedule_ok [of s2 m cpu nxt] ops intr cpu cur nxt
    by (cases "nxt = cur") (simp_all add: s2_def switched_cpu_def switched_thr_def GetCurrentThread_def)
  ultimately show ?thesis using h by (intro exI [of _ h]) (simp add: s1_def s2_def)
qed

text \<open>
  The states between two operations. \<open>q\<close> is the queue of ready threads; the lock of the queue is free.
  Every processor runs a thread of its own and has an idle thread of its own, which are not queued. A
  thread that is queued or an idle thread that does not run can be resumed.
\<close>

definition thread_at :: "SYS \<Rightarrow> ptr \<Rightarrow> THREAD \<Rightarrow> bool" where
  "thread_at s t T = (threads s t = Some T \<and> Self T = t \<and> t \<noteq> NULL \<and> ReadyList t \<in> dom (entries s) \<and> ReadyList t \<noteq> ReadyThreadsList s)"

definition resumable :: "SYS \<Rightarrow> ptr \<Rightarrow> bool" where
  "resumable s t = (\<exists>T. thread_at s t T \<and> TState T \<noteq> ThreadStateDying \<and> BlockLock T = FREE \<and> resume s t \<noteq> Gone)"

definition cpu_inv :: "SYS \<Rightarrow> ptr list \<Rightarrow> ptr \<Rightarrow> PCPU \<Rightarrow> bool" where
  "cpu_inv s q c C = (c \<noteq> NULL \<and> FsBase C = CurrentThread C \<and> (\<exists>T. thread_at s (CurrentThread C) T)
     \<and> (IdleThread C \<noteq> CurrentThread C \<longrightarrow> resumable s (IdleThread C)) \<and> CurrentThread C \<notin> set q \<and> IdleThread C \<notin> set q)"

definition sched_inv :: "bool \<Rightarrow> SYS \<Rightarrow> ptr list \<Rightarrow> bool" where
  "sched_inv m s q = (LockOps s = LockSystemInit m \<and> ReadyThreadsLock s = FREE
     \<and> is_list (entries s) (ReadyThreadsList s) (map ReadyList q)
     \<and> (\<forall>t \<in> set q. resumable s t \<and> (\<exists>T. threads s t = Some T \<and> TState T = ThreadStateReady))
     \<and> (\<forall>c C. pcpus s c = Some C \<longrightarrow> cpu_inv s q c C)
     \<and> (\<forall>c C d D. pcpus s c = Some C \<longrightarrow> pcpus s d = Some D \<longrightarrow> c \<noteq> d \<longrightarrow>
          {CurrentThread C, IdleThread C} \<inter> {CurrentThread D, IdleThread D} = {}))"

text \<open>The queue after the running thread was put back, and the thread that runs next.\<close>

definition requeue :: "PCPU \<Rightarrow> ptr list \<Rightarrow> ptr list" where
  "requeue C q = (if CurrentThread C = IdleThread C then q else q @ [CurrentThread C])"

text \<open>The state in which \<open>_ThreadSchedule\<close> is called by a thread that will run again.\<close>

definition sched_entry :: "bool \<Rightarrow> CPU \<Rightarrow> PCPU \<Rightarrow> THREAD \<Rightarrow> SYS \<Rightarrow> ptr list \<Rightarrow> bool" where
  "sched_entry m cpu C T s q = (LockOps s = LockSystemInit m \<and> ReadyThreadsLock s = HELD (CpuSelf cpu) (CallSite s)
     \<and> CpuIntr cpu = INTR_OFF \<and> CpuSelf cpu \<noteq> NULL \<and> pcpus s (CpuSelf cpu) = Some C
     \<and> is_list (entries s) (ReadyThreadsList s) (map ReadyList q)
     \<and> (\<forall>t \<in> set q. resumable s t \<and> (\<exists>T. threads s t = Some T \<and> TState T = ThreadStateReady))
     \<and> FsBase C = CurrentThread C \<and> thread_at s (CurrentThread C) T \<and> TState T \<noteq> ThreadStateDying \<and> resume s (CurrentThread C) \<noteq> Gone
     \<and> (BlockLock T = FREE \<or> BlockLock T = HELD (CpuSelf cpu) (CallSite s) \<and> TState T = ThreadStateBlocked)
     \<and> (IdleThread C \<noteq> CurrentThread C \<longrightarrow> resumable s (IdleThread C)) \<and> IdleThread C \<notin> set q
     \<and> (\<forall>d D. pcpus s d = Some D \<longrightarrow> d \<noteq> CpuSelf cpu \<longrightarrow> cpu_inv s q d D)
     \<and> (\<forall>c C d D. pcpus s c = Some C \<longrightarrow> pcpus s d = Some D \<longrightarrow> c \<noteq> d \<longrightarrow>
          {CurrentThread C, IdleThread C} \<inter> {CurrentThread D, IdleThread D} = {}))"

text \<open>Changing one thread in a way that keeps it usable keeps what the invariant says of all others.\<close>

lemma thread_at_upd:
  assumes "thread_at s t X" and "threads s' = (threads s)(u \<mapsto> U')" and "dom (entries s') = dom (entries s)"
    "ReadyThreadsList s' = ReadyThreadsList s" and "t = u \<Longrightarrow> Self U' = u"
  shows "thread_at s' t (if t = u then U' else X)"
  using assms by (auto simp: thread_at_def)

lemma resumable_upd:
  assumes "resumable s t" and "threads s' = (threads s)(u \<mapsto> U')" and "dom (entries s') = dom (entries s)"
    "ReadyThreadsList s' = ReadyThreadsList s" and "t \<noteq> u \<Longrightarrow> resume s' t = resume s t"
    and "t = u \<Longrightarrow> Self U' = u \<and> TState U' \<noteq> ThreadStateDying \<and> BlockLock U' = FREE \<and> resume s' u \<noteq> Gone"
  shows "resumable s' t"
proof -
  obtain X where X: "thread_at s t X" "TState X \<noteq> ThreadStateDying" "BlockLock X = FREE" "resume s t \<noteq> Gone"
    using assms(1) by (auto simp: resumable_def)
  have "thread_at s' t (if t = u then U' else X)" by (rule thread_at_upd [OF X(1) assms(2-4)]) (use assms(6) in auto)
  then show ?thesis using X assms(5,6) by (cases "t = u") (auto simp: resumable_def)
qed

lemma cpu_inv_upd:
  assumes "cpu_inv s q d D" and "threads s' = (threads s)(u \<mapsto> U')" and "dom (entries s') = dom (entries s)"
    "ReadyThreadsList s' = ReadyThreadsList s" and "\<And>t. t \<noteq> u \<Longrightarrow> resume s' t = resume s t"
    and "u \<noteq> CurrentThread D" and "u \<noteq> IdleThread D" and "CurrentThread D \<notin> set q'" and "IdleThread D \<notin> set q'"
  shows "cpu_inv s' q' d D"
proof -
  obtain X where X: "thread_at s (CurrentThread D) X" using assms(1) by (auto simp: cpu_inv_def)
  have "thread_at s' (CurrentThread D) X" using thread_at_upd [OF X assms(2-4)] assms(6) by auto
  moreover have "resumable s' (IdleThread D)" if "IdleThread D \<noteq> CurrentThread D"
    by (rule resumable_upd [OF _ assms(2-5)]) (use that assms(1,6,7) in \<open>auto simp: cpu_inv_def\<close>)
  ultimately show ?thesis using assms(1,8,9) by (auto simp: cpu_inv_def)
qed

text \<open>The state behind a switch satisfies the invariant again.\<close>

lemma switch_sched_inv:
  fixes ks :: "kernel_call list" and sz :: QWORD and N :: THREAD
  assumes e: "sched_entry m cpu C T s q" and nxt: "nxt = next_thread (IdleThread C) q"
    and h: "is_list h (ReadyThreadsList s) (map ReadyList (tl q))" "dom h = dom (entries s)"
  defines "cur \<equiv> CurrentThread C"
  defines "s' \<equiv> s\<lparr>entries := h, calls := ks, threads := (threads s)(cur \<mapsto> switched_thr sz cur nxt C T),
        pcpus := (pcpus s)(CpuSelf cpu \<mapsto> switched_cpu sz cur nxt N C), ReadyThreadsLock := FREE\<rparr>"
  shows "sched_inv m s' (tl q)"
proof -
  let ?T' = "switched_thr sz cur nxt C T"
  have th: "threads s' = (threads s)(cur \<mapsto> ?T')" "dom (entries s') = dom (entries s)" "ReadyThreadsList s' = ReadyThreadsList s"
    using h(2) by (simp_all add: s'_def)
  have T': "Self ?T' = cur" "TState ?T' = TState T" "BlockLock ?T' = FREE" "TState T \<noteq> ThreadStateDying" "resume s cur \<noteq> Gone"
    using e by (auto simp: switched_thr_def sched_entry_def thread_at_def cur_def)
  have keep: "resumable s' t" if "resumable s t" for t
    by (rule resumable_upd [OF that th]) (use T' in \<open>auto simp: s'_def\<close>)
  have cur: "resumable s' cur"
    using thread_at_upd [of s cur T, OF _ th] T' e unfolding resumable_def by (auto simp: sched_entry_def s'_def cur_def)
  have dist: "distinct q" using e by (auto simp: sched_entry_def is_list_def distinct_map)
  have nq: "nxt \<notin> set (tl q)" "IdleThread C \<notin> set (tl q)" "set (tl q) \<subseteq> set q"
    using e nxt dist by (cases q; auto simp: sched_entry_def next_thread_def)+
  have nC: "CurrentThread (switched_cpu sz cur nxt N C) = nxt" "IdleThread (switched_cpu sz cur nxt N C) = IdleThread C"
    "FsBase (switched_cpu sz cur nxt N C) = nxt" using e by (auto simp: switched_cpu_def sched_entry_def cur_def)
  have cd: "{cur, IdleThread C} \<inter> {CurrentThread D, IdleThread D} = {}" if "pcpus s d = Some D" "d \<noteq> CpuSelf cpu" for d D
    using e that unfolding sched_entry_def cur_def by (metis (no_types))
  have res: "resumable s' nxt" using e nxt keep cur by (cases q) (auto simp: sched_entry_def next_thread_def cur_def)
  have self: "cpu_inv s' (tl q) (CpuSelf cpu) (switched_cpu sz cur nxt N C)"
  proof -
    obtain X where "thread_at s' nxt X" using res by (auto simp: resumable_def)
    moreover have "resumable s' (IdleThread C)" using e keep cur by (cases "IdleThread C = cur") (auto simp: sched_entry_def cur_def)
    ultimately show ?thesis using e nq unfolding cpu_inv_def nC by (auto simp: sched_entry_def)
  qed
  have other: "cpu_inv s' (tl q) d D" if "pcpus s d = Some D" "d \<noteq> CpuSelf cpu" for d D
  proof (rule cpu_inv_upd [OF _ th])
    show "cpu_inv s q d D" using e that by (auto simp: sched_entry_def)
    then show "CurrentThread D \<notin> set (tl q)" "IdleThread D \<notin> set (tl q)" using nq(3) by (auto simp: cpu_inv_def)
    show "cur \<noteq> CurrentThread D" "cur \<noteq> IdleThread D" using cd [OF that] by auto
  qed (simp add: s'_def)
  have disj: "{nxt, IdleThread C} \<inter> {CurrentThread D, IdleThread D} = {}" if "pcpus s d = Some D" "d \<noteq> CpuSelf cpu" for d D
  proof -
    have "cpu_inv s q d D" using e that by (auto simp: sched_entry_def)
    then show ?thesis using cd [OF that] nxt by (cases q) (auto simp: cpu_inv_def next_thread_def)
  qed
  show ?thesis
    unfolding sched_inv_def
  proof (intro conjI allI impI ballI)
    fix t assume "t \<in> set (tl q)"
    then have t: "resumable s t" "\<exists>T. threads s t = Some T \<and> TState T = ThreadStateReady" using e nq(3) by (auto simp: sched_entry_def)
    show "resumable s' t" by (rule keep [OF t(1)])
    show "\<exists>T. threads s' t = Some T \<and> TState T = ThreadStateReady"
      using t(2) T'(2) e unfolding th by (auto simp: sched_entry_def thread_at_def cur_def)
  next
    fix c D assume "pcpus s' c = Some D"
    then show "cpu_inv s' (tl q) c D" using self other by (cases "c = CpuSelf cpu") (auto simp: s'_def)
  next
    fix c D d E assume a: "pcpus s' c = Some D" "pcpus s' d = Some E" "c \<noteq> d"
    show "{CurrentThread D, IdleThread D} \<inter> {CurrentThread E, IdleThread E} = {}"
    proof (cases "c = CpuSelf cpu \<or> d = CpuSelf cpu")
      case True
      then show ?thesis using a disj [of c D] disj [of d E] nC by (auto simp: s'_def)
    next
      case False
      then show ?thesis using a e unfolding sched_entry_def s'_def by simp
    qed
  qed (use e h(1) in \<open>simp_all add: sched_entry_def s'_def\<close>)
qed

lemma schedule_sched_inv:
  assumes e: "sched_entry m cpu C T s q" and nxt: "nxt = next_thread (IdleThread C) q"
  shows "\<exists>s'. ThreadSchedule cpu sz s = Some (cpu\<lparr>CpuIntr := resume_intr (resume s nxt)\<rparr>, s') \<and> sched_inv m s' (tl q)
    \<and> (\<exists>N. threads s nxt = Some N \<and> pcpus s' = (pcpus s)(CpuSelf cpu \<mapsto> switched_cpu sz (CurrentThread C) nxt N C))
    \<and> threads s' = (threads s)(CurrentThread C \<mapsto> switched_thr sz (CurrentThread C) nxt C T)
    \<and> resume s' = resume s \<and> only_changes (set (ReadyThreadsList s # map ReadyList (tl q))) (entries s) (entries s')
    \<and> ReadyThreadsList s' = ReadyThreadsList s \<and> events s' = events s \<and> mutexes s' = mutexes s \<and> CallSite s' = CallSite s"
proof -
  let ?cur = "CurrentThread C" and ?T' = "switched_thr sz (CurrentThread C) nxt C T"
  have "nxt = ?cur \<or> resumable s nxt" using e nxt by (cases q) (auto simp: sched_entry_def next_thread_def)
  then obtain N where N: "thread_at s nxt N" "TState N \<noteq> ThreadStateDying" "resume s nxt \<noteq> Gone"
    using e by (auto simp: sched_entry_def resumable_def)
  obtain h where h: "ThreadSchedule cpu sz s = Some (cpu\<lparr>CpuIntr := resume_intr (resume s nxt)\<rparr>,
      s\<lparr>entries := h, calls := calls s @ switch_calls q T N, threads := (threads s)(?cur \<mapsto> ?T'),
        pcpus := (pcpus s)(CpuSelf cpu \<mapsto> switched_cpu sz ?cur nxt N C), ReadyThreadsLock := FREE\<rparr>)"
    "is_list h (ReadyThreadsList s) (map ReadyList (tl q))"
    "only_changes (set (ReadyThreadsList s # map ReadyList (tl q))) (entries s) h"
    using ThreadSchedule_ok [of s m cpu "CallSite s" q C ?cur T "CallSite s" nxt N sz] e N nxt
    by (auto simp: sched_entry_def thread_at_def)
  have "dom h = dom (entries s)" using h(3) by (simp add: only_changes_def)
  from switch_sched_inv [OF e nxt h(2) this, where ks = "calls s @ switch_calls q T N" and sz = sz and N = N] h N(1) show ?thesis
    by (auto simp: thread_at_def)
qed

lemma sched_inv_dest:
  assumes "sched_inv m s q" and "pcpus s c = Some C"
  shows "LockOps s = LockSystemInit m" and "ReadyThreadsLock s = FREE"
    and "is_list (entries s) (ReadyThreadsList s) (map ReadyList q)" and "cpu_inv s q c C"
  using assms by (auto simp: sched_inv_def)

text \<open>Entering the scheduler: the current thread becomes \<open>T'\<close>, and the queue \<open>q'\<close>.\<close>

lemma sched_entryI:
  assumes inv: "sched_inv m s q" and C: "pcpus s (CpuSelf cpu) = Some C" and T: "threads s (CurrentThread C) = Some T"
    and s': "LockOps s' = LockOps s" "CallSite s' = CallSite s" "ReadyThreadsList s' = ReadyThreadsList s"
      "ReadyThreadsLock s' = HELD (CpuSelf cpu) (CallSite s)" "pcpus s' = (pcpus s)(CpuSelf cpu \<mapsto> C')"
      "threads s' = (threads s)(CurrentThread C \<mapsto> T')" "dom (entries s') = dom (entries s)"
      "\<And>t. t \<noteq> CurrentThread C \<Longrightarrow> resume s' t = resume s t" "resume s' (CurrentThread C) \<noteq> Gone"
    and C': "FsBase C' = FsBase C" "CurrentThread C' = CurrentThread C" "IdleThread C' = IdleThread C"
    and T': "Self T' = Self T" "TState T' \<noteq> ThreadStateDying"
      "BlockLock T' = FREE \<or> BlockLock T' = HELD (CpuSelf cpu) (CallSite s) \<and> TState T' = ThreadStateBlocked"
    and q': "is_list (entries s') (ReadyThreadsList s) (map ReadyList q')"
      "q' = q \<or> q' = q @ [CurrentThread C] \<and> CurrentThread C \<noteq> IdleThread C \<and> TState T' = ThreadStateReady \<and> BlockLock T' = FREE"
    and off: "CpuIntr cpu = INTR_OFF"
  shows "sched_entry m cpu C' T' s' q'"
proof -
  let ?cur = "CurrentThread C"
  note ci = sched_inv_dest(4) [OF inv C]
  have th: "threads s' = (threads s)(?cur \<mapsto> T')" "dom (entries s') = dom (entries s)" "ReadyThreadsList s' = ReadyThreadsList s"
    using s' by auto
  have T0: "thread_at s ?cur T" using ci T by (auto simp: cpu_inv_def thread_at_def)
  then have cur: "thread_at s' ?cur T'" using thread_at_upd [OF T0 th] T'(1) by (auto simp: thread_at_def)
  have keep: "resumable s' t" if "resumable s t" "t \<noteq> ?cur" for t
    by (rule resumable_upd [OF that(1) th]) (use that s' in auto)
  have disj: "{?cur, IdleThread C} \<inter> {CurrentThread D, IdleThread D} = {}" if "pcpus s d = Some D" "d \<noteq> CpuSelf cpu" for d D
    using inv that C unfolding sched_inv_def by (metis (no_types))
  have q: "resumable s' t \<and> (\<exists>T. threads s' t = Some T \<and> TState T = ThreadStateReady)" if "t \<in> set q'" for t
  proof (cases "t = ?cur")
    case True
    then have "q' \<noteq> q" using that ci by (auto simp: cpu_inv_def)
    then show ?thesis using True q'(2) cur s' T' by (auto simp: resumable_def thread_at_def)
  next
    case False
    then have "t \<in> set q" using that q'(2) by auto
    then show ?thesis using inv keep [of t] False s'(6) by (auto simp: sched_inv_def)
  qed
  have "cpu_inv s' q' d D" if "pcpus s' d = Some D" "d \<noteq> CpuSelf cpu" for d D
  proof (rule cpu_inv_upd [OF _ th])
    have d: "pcpus s d = Some D" using that s' by auto
    then show "cpu_inv s q d D" using inv by (auto simp: sched_inv_def)
    then show "CurrentThread D \<notin> set q'" "IdleThread D \<notin> set q'" using q'(2) disj [OF d that(2)] by (auto simp: cpu_inv_def)
    show "?cur \<noteq> CurrentThread D" "?cur \<noteq> IdleThread D" using disj [OF d that(2)] by auto
  qed (use s' in auto)
  moreover have "{CurrentThread D, IdleThread D} \<inter> {CurrentThread E, IdleThread E} = {}"
    if cd: "pcpus s' c = Some D" "pcpus s' d = Some E" "c \<noteq> d" for c D d E
  proof -
    obtain D0 E0 where "pcpus s c = Some D0" "pcpus s d = Some E0" "CurrentThread D0 = CurrentThread D" "CurrentThread E0 = CurrentThread E"
      "IdleThread D0 = IdleThread D" "IdleThread E0 = IdleThread E"
      using cd s'(5) C C' by (cases "c = CpuSelf cpu"; cases "d = CpuSelf cpu") auto
    then show ?thesis using inv cd(3) unfolding sched_inv_def by (metis (no_types))
  qed
  moreover have "IdleThread C \<noteq> ?cur \<longrightarrow> resumable s' (IdleThread C)" using ci keep by (auto simp: cpu_inv_def)
  moreover have "IdleThread C \<notin> set q'" using ci q'(2) by (auto simp: cpu_inv_def)
  ultimately show ?thesis
    unfolding sched_entry_def using inv ci s' C' T' q q'(1) off cur by (auto simp: sched_inv_def cpu_inv_def)
qed

text \<open>A processor yields: its thread goes to the end of the queue and the first thread of the queue runs.\<close>

lemma ThreadYield_ok:
  assumes inv: "sched_inv m s q" and C: "pcpus s (CpuSelf cpu) = Some C" and T: "threads s (CurrentThread C) = Some T"
    and flags: "Flags T \<noteq> THREAD_FLAG_FORCE_TERMINATE_PENDING" and block: "BlockLock T = FREE"
  defines "nxt \<equiv> next_thread (IdleThread C) (requeue C q)"
  shows "\<exists>s' C'. ThreadYield cpu sz s = Some (cpu\<lparr>CpuIntr := if nxt = CurrentThread C then CpuIntr cpu else resume_intr (resume s nxt)\<rparr>, s')
    \<and> sched_inv m s' (tl (requeue C q)) \<and> pcpus s' = (pcpus s)(CpuSelf cpu \<mapsto> C') \<and> CurrentThread C' = nxt \<and> IdleThread C' = IdleThread C
    \<and> RunningThreadTicks C' = 0 \<and> \<not> YieldOnInterruptReturn C'
    \<and> resume s' = (resume s)(CurrentThread C := AfterYield (CpuIntr cpu))
    \<and> (\<forall>t. t \<noteq> CurrentThread C \<longrightarrow> threads s' t = threads s t)
    \<and> (\<exists>T'. threads s' (CurrentThread C) = Some T' \<and> Flags T' = Flags T \<and> BlockLock T' = FREE \<and> TState T' = ThreadStateReady
          \<and> TickCountEarly T' = TickCountEarly T + (if YieldOnInterruptReturn C then 0 else 1))"
proof -
  let ?cur = "CurrentThread C"
  note d = sched_inv_dest [OF inv C]
  have cpu: "CpuSelf cpu \<noteq> NULL" "thread_at s ?cur T" "FsBase C = ?cur" using d(4) T by (auto simp: cpu_inv_def thread_at_def)
  define cpu' where "cpu' = cpu\<lparr>CpuIntr := INTR_OFF\<rparr>"
  obtain h where h: "(if ?cur \<noteq> IdleThread C then InsertTailList (entries s) (ReadyThreadsList s) (ReadyList ?cur) else Some (entries s)) = Some h"
    "is_list h (ReadyThreadsList s) (map ReadyList (requeue C q))" "dom h = dom (entries s)"
  proof (cases "?cur = IdleThread C")
    case False
    have "ReadyList ?cur \<notin> set (ReadyThreadsList s # map ReadyList q)" using cpu d(4) by (auto simp: thread_at_def cpu_inv_def)
    with InsertTailList_ok [OF d(3), of "ReadyList ?cur"] cpu False that show ?thesis
      by (auto simp: thread_at_def requeue_def only_changes_def)
  qed (use d(3) that in \<open>auto simp: requeue_def\<close>)
  define C1 where "C1 = C\<lparr>YieldOnInterruptReturn := False\<rparr>"
  define T1 where "T1 = T\<lparr>TickCountEarly := TickCountEarly T + (if YieldOnInterruptReturn C then 0 else 1), TState := ThreadStateReady\<rparr>"
  define s1 where "s1 = s\<lparr>pcpus := (pcpus s)(CpuSelf cpu \<mapsto> C1), ReadyThreadsLock := HELD (CpuSelf cpu) (CallSite s), entries := h,
     threads := (threads s)(?cur \<mapsto> T1), resume := (resume s)(?cur := AfterYield (CpuIntr cpu))\<rparr>"
  have entry: "sched_entry m cpu' C1 T1 s1 (requeue C q)"
    by (rule sched_entryI [OF inv _ T]) (use C h cpu block in \<open>auto simp: s1_def C1_def T1_def cpu'_def thread_at_def requeue_def\<close>)
  have "ThreadYield cpu sz s = ThreadSchedule cpu' sz s1"
    using d(1,2) C T cpu flags h(1) unfolding thread_at_def
    by (cases "?cur = IdleThread C"; cases "YieldOnInterruptReturn C"; cases s)
      (simp_all add: ThreadYield_def InsertTail_def kernel_simps s1_def C1_def T1_def cpu'_def)
  moreover obtain s' N where r: "ThreadSchedule cpu' sz s1 = Some (cpu'\<lparr>CpuIntr := resume_intr (resume s1 nxt)\<rparr>, s')"
    "sched_inv m s' (tl (requeue C q))" "pcpus s' = (pcpus s1)(CpuSelf cpu' \<mapsto> switched_cpu sz ?cur nxt N C1)"
    "threads s' = (threads s1)(?cur \<mapsto> switched_thr sz ?cur nxt C1 T1)" "resume s' = resume s1"
    using schedule_sched_inv [OF entry refl, of sz] by (auto simp: C1_def nxt_def)
  ultimately show ?thesis
    by (intro exI [of _ s'] exI [of _ "switched_cpu sz ?cur nxt N C1"])
      (simp add: s1_def C1_def cpu'_def switched_cpu_def switched_thr_def T1_def)
qed

text \<open>A thread that holds its block lock blocks: it leaves the processor and releases the lock behind the switch.\<close>

lemma ThreadBlock_ok:
  assumes inv: "sched_inv m s q" and C: "pcpus s (CpuSelf cpu) = Some C" and T: "threads s (CurrentThread C) = Some T"
    and flags: "Flags T \<noteq> THREAD_FLAG_FORCE_TERMINATE_PENDING" and block: "BlockLock T = HELD (CpuSelf cpu) (CallSite s)"
    and off: "CpuIntr cpu = INTR_OFF"
  defines "nxt \<equiv> next_thread (IdleThread C) q"
  shows "\<exists>s' C'. ThreadBlock cpu sz s = Some (cpu\<lparr>CpuIntr := if nxt = CurrentThread C then INTR_OFF else resume_intr (resume s nxt)\<rparr>, s')
    \<and> sched_inv m s' (tl q) \<and> pcpus s' = (pcpus s)(CpuSelf cpu \<mapsto> C') \<and> CurrentThread C' = nxt \<and> IdleThread C' = IdleThread C
    \<and> resume s' = (resume s)(CurrentThread C := AfterBlock) \<and> (\<forall>t. t \<noteq> CurrentThread C \<longrightarrow> threads s' t = threads s t)
    \<and> only_changes (set (ReadyThreadsList s # map ReadyList (tl q))) (entries s) (entries s') \<and> ReadyThreadsList s' = ReadyThreadsList s
    \<and> events s' = events s \<and> mutexes s' = mutexes s \<and> CallSite s' = CallSite s
    \<and> (\<exists>T'. threads s' (CurrentThread C) = Some T' \<and> Flags T' = Flags T \<and> BlockLock T' = FREE \<and> TState T' = ThreadStateBlocked \<and> Self T' = Self T)"
proof -
  let ?cur = "CurrentThread C"
  note d = sched_inv_dest [OF inv C]
  have cpu: "CpuSelf cpu \<noteq> NULL" "thread_at s ?cur T" "FsBase C = ?cur" using d(4) T by (auto simp: cpu_inv_def thread_at_def)
  define T1 where "T1 = T\<lparr>TickCountEarly := TickCountEarly T + 1, TState := ThreadStateBlocked\<rparr>"
  define s1 where "s1 = s\<lparr>threads := (threads s)(?cur \<mapsto> T1), ReadyThreadsLock := HELD (CpuSelf cpu) (CallSite s),
     resume := (resume s)(?cur := AfterBlock)\<rparr>"
  have entry: "sched_entry m cpu C T1 s1 q"
    by (rule sched_entryI [OF inv _ T]) (use C d(3) off block in \<open>auto simp: s1_def T1_def\<close>)
  have "ThreadBlock cpu sz s = ThreadSchedule cpu sz s1"
    using d(1,2) C T cpu flags block off unfolding thread_at_def by (simp add: ThreadBlock_def kernel_simps s1_def T1_def)
  moreover obtain s' N where r: "ThreadSchedule cpu sz s1 = Some (cpu\<lparr>CpuIntr := resume_intr (resume s1 nxt)\<rparr>, s')"
    "sched_inv m s' (tl q)" "pcpus s' = (pcpus s1)(CpuSelf cpu \<mapsto> switched_cpu sz ?cur nxt N C)"
    "threads s' = (threads s1)(?cur \<mapsto> switched_thr sz ?cur nxt C T1)" "resume s' = resume s1"
    "only_changes (set (ReadyThreadsList s1 # map ReadyList (tl q))) (entries s1) (entries s')" "ReadyThreadsList s' = ReadyThreadsList s1"
    "events s' = events s1" "mutexes s' = mutexes s1" "CallSite s' = CallSite s1"
    using schedule_sched_inv [OF entry refl, of sz] by (auto simp: nxt_def)
  ultimately show ?thesis
    by (intro exI [of _ s'] exI [of _ "switched_cpu sz ?cur nxt N C"])
      (simp add: s1_def switched_cpu_def switched_thr_def T1_def)
qed

lemma ThreadUnblock_ok:
  assumes inv: "sched_inv m s q" and cpu: "CpuSelf cpu \<noteq> NULL" and U: "thread_at s u U" "TState U = ThreadStateBlocked" "BlockLock U = FREE"
      "resume s u \<noteq> Gone" "u \<notin> set q" and free: "\<And>c C. pcpus s c = Some C \<Longrightarrow> u \<noteq> CurrentThread C \<and> u \<noteq> IdleThread C"
  shows "\<exists>h. ThreadUnblock cpu u s = Some (cpu, s\<lparr>entries := h, threads := (threads s)(u \<mapsto> U\<lparr>TState := ThreadStateReady\<rparr>)\<rparr>)
    \<and> sched_inv m (s\<lparr>entries := h, threads := (threads s)(u \<mapsto> U\<lparr>TState := ThreadStateReady\<rparr>)\<rparr>) (q @ [u])
    \<and> only_changes (set (ReadyList u # ReadyThreadsList s # map ReadyList q)) (entries s) h"
proof -
  have d: "LockOps s = LockSystemInit m" "ReadyThreadsLock s = FREE" "is_list (entries s) (ReadyThreadsList s) (map ReadyList q)"
    using inv by (auto simp: sched_inv_def)
  from InsertTailList_ok [OF d(3), of "ReadyList u"] U obtain h
    where h: "InsertTailList (entries s) (ReadyThreadsList s) (ReadyList u) = Some h" "is_list h (ReadyThreadsList s) (map ReadyList q @ [ReadyList u])"
      "only_changes (set (ReadyList u # ReadyThreadsList s # map ReadyList q)) (entries s) h"
    by (auto simp: thread_at_def)
  define s' where "s' = s\<lparr>entries := h, threads := (threads s)(u \<mapsto> U\<lparr>TState := ThreadStateReady\<rparr>)\<rparr>"
  have e1: "U\<lparr>TState := x, BlockLock := FREE\<rparr> = U\<lparr>TState := x\<rparr>" for x using U(3) by (cases U) simp
  have e2: "s\<lparr>ReadyThreadsLock := FREE\<rparr> = s" using d(2) by (cases s) simp
  have "ThreadUnblock cpu u s = Some (cpu, s')"
    using d(1,2) U h(1) cpu unfolding thread_at_def
    by (cases s) (simp add: ThreadUnblock_def InsertTail_def kernel_simps s'_def e1)
  moreover have "sched_inv m s' (q @ [u])"
    unfolding sched_inv_def
  proof (intro conjI allI impI ballI)
    have th: "threads s' = (threads s)(u \<mapsto> U\<lparr>TState := ThreadStateReady\<rparr>)" "dom (entries s') = dom (entries s)"
      "ReadyThreadsList s' = ReadyThreadsList s" using h(3) by (auto simp: s'_def only_changes_def)
    { fix t assume "t \<in> set (q @ [u])"
      then consider "t = u" | "t \<noteq> u" "t \<in> set q" by auto
      then have "resumable s' t \<and> (\<exists>T. threads s' t = Some T \<and> TState T = ThreadStateReady)"
      proof cases
        case 1
        have "thread_at s' u (U\<lparr>TState := ThreadStateReady\<rparr>)" using thread_at_upd [OF U(1) th] U(1) by (auto simp: thread_at_def)
        then show ?thesis using 1 U th by (auto simp: resumable_def s'_def)
      next
        case 2
        have "resumable s t" using inv 2(2) by (auto simp: sched_inv_def)
        then have "resumable s' t" by (rule resumable_upd [OF _ th]) (use 2(1) in \<open>auto simp: s'_def\<close>)
        then show ?thesis using inv 2 by (auto simp: sched_inv_def s'_def)
      qed }
    then show "resumable s' t" "\<exists>T. threads s' t = Some T \<and> TState T = ThreadStateReady" if "t \<in> set (q @ [u])" for t
      using that by auto
    show "cpu_inv s' (q @ [u]) c C" if "pcpus s' c = Some C" for c C
    proof -
      have c: "pcpus s c = Some C" using that by (simp add: s'_def)
      then have i: "cpu_inv s q c C" using inv by (auto simp: sched_inv_def)
      show ?thesis by (rule cpu_inv_upd [OF i th]) (use free [OF c] i in \<open>auto simp: s'_def cpu_inv_def\<close>)
    qed
    show "{CurrentThread C, IdleThread C} \<inter> {CurrentThread D, IdleThread D} = {}"
      if "pcpus s' c = Some C" "pcpus s' d = Some D" "c \<noteq> d" for c C d D
      using inv that unfolding sched_inv_def s'_def by simp
  qed (use d h in \<open>simp_all add: s'_def\<close>)
  ultimately show ?thesis using h(3) by (auto simp: s'_def)
qed

text \<open>A change of the thread a processor runs, and of its own bookkeeping, keeps the invariant.\<close>

lemma sched_inv_upd_cur:
  assumes inv: "sched_inv m s q" and C: "pcpus s c = Some C" and T: "threads s (CurrentThread C) = Some T"
    and C': "FsBase C' = FsBase C" "CurrentThread C' = CurrentThread C" "IdleThread C' = IdleThread C"
    and T': "Self T' = Self T"
    and s': "LockOps s' = LockOps s" "ReadyThreadsLock s' = ReadyThreadsLock s" "ReadyThreadsList s' = ReadyThreadsList s"
      "pcpus s' = (pcpus s)(c \<mapsto> C')" "threads s' = (threads s)(CurrentThread C \<mapsto> T')" "dom (entries s') = dom (entries s)"
      "is_list (entries s') (ReadyThreadsList s) (map ReadyList q)" "\<And>t. t \<noteq> CurrentThread C \<Longrightarrow> resume s' t = resume s t"
  shows "sched_inv m s' q"
proof -
  let ?cur = "CurrentThread C"
  note ci = sched_inv_dest(4) [OF inv C]
  have th: "threads s' = (threads s)(?cur \<mapsto> T')" "dom (entries s') = dom (entries s)" "ReadyThreadsList s' = ReadyThreadsList s"
    using s' by auto
  have keep: "resumable s' t" if "resumable s t" "t \<noteq> ?cur" for t
    by (rule resumable_upd [OF that(1) th]) (use that s' in auto)
  have disj: "{CurrentThread D, IdleThread D} \<inter> {CurrentThread E, IdleThread E} = {}"
    if de: "pcpus s' d = Some D" "pcpus s' e = Some E" "d \<noteq> e" for d D e E
  proof -
    obtain D0 E0 where "pcpus s d = Some D0" "pcpus s e = Some E0" "CurrentThread D0 = CurrentThread D" "CurrentThread E0 = CurrentThread E"
      "IdleThread D0 = IdleThread D" "IdleThread E0 = IdleThread E"
      using de s'(4) C C' by (cases "d = c"; cases "e = c") auto
    then show ?thesis using inv de(3) unfolding sched_inv_def by (metis (no_types))
  qed
  have "cpu_inv s' q d D" if d: "pcpus s' d = Some D" for d D
  proof (cases "d = c")
    case True
    have "thread_at s ?cur T" using ci T by (auto simp: cpu_inv_def thread_at_def)
    from thread_at_upd [OF this th] have "thread_at s' ?cur T'" using T' ci T by (auto simp: cpu_inv_def thread_at_def)
    moreover have "resumable s' (IdleThread C)" if "IdleThread C \<noteq> ?cur" using ci keep that by (auto simp: cpu_inv_def)
    ultimately show ?thesis using True d s'(4) ci C' by (auto simp: cpu_inv_def)
  next
    case False
    then have d': "pcpus s d = Some D" using d s'(4) by simp
    then have "cpu_inv s q d D" using inv by (auto simp: sched_inv_def)
    moreover have "{?cur, IdleThread C} \<inter> {CurrentThread D, IdleThread D} = {}" using inv C d' False unfolding sched_inv_def by (metis (no_types))
    ultimately show ?thesis by (intro cpu_inv_upd [OF _ th s'(8)]) (auto simp: cpu_inv_def)
  qed
  moreover have "resumable s' t \<and> (\<exists>T. threads s' t = Some T \<and> TState T = ThreadStateReady)" if "t \<in> set q" for t
  proof -
    have "t \<noteq> ?cur" using that ci by (auto simp: cpu_inv_def)
    then show ?thesis using inv that keep [of t] s'(5) by (auto simp: sched_inv_def)
  qed
  ultimately show ?thesis using inv s' disj unfolding sched_inv_def by auto
qed

lemma ThreadTakeBlockLock_ok:
  assumes inv: "sched_inv m s q" and C: "pcpus s (CpuSelf cpu) = Some C" and T: "threads s (CurrentThread C) = Some T" "BlockLock T = FREE"
  defines "s' \<equiv> s\<lparr>threads := (threads s)(CurrentThread C \<mapsto> T\<lparr>BlockLock := HELD (CpuSelf cpu) (CallSite s)\<rparr>)\<rparr>"
  shows "ThreadTakeBlockLock cpu s = Some (cpu\<lparr>CpuIntr := INTR_OFF\<rparr>, s') \<and> sched_inv m s' q"
proof
  note d = sched_inv_dest [OF inv C]
  show "ThreadTakeBlockLock cpu s = Some (cpu\<lparr>CpuIntr := INTR_OFF\<rparr>, s')"
    using d C T by (auto simp: ThreadTakeBlockLock_def kernel_simps cpu_inv_def thread_at_def s'_def)
  show "sched_inv m s' q"
    by (rule sched_inv_upd_cur [OF inv C T(1), where C' = C]) (use d C T in \<open>auto simp: s'_def cpu_inv_def thread_at_def fun_upd_idem\<close>)
qed

section \<open>Round robin\<close>

primrec yields :: "nat \<Rightarrow> CPU \<Rightarrow> QWORD \<Rightarrow> SYS \<Rightarrow> (CPU \<times> SYS) option" where
  "yields 0 cpu sz s = Some (cpu, s)"
| "yields (Suc n) cpu sz s = do { (cpu, s) \<leftarrow> yields n cpu sz s; ThreadYield cpu sz s }"

definition cur_of :: "SYS \<Rightarrow> ptr \<Rightarrow> ptr option" where
  "cur_of s c = map_option CurrentThread (pcpus s c)"

definition undisturbed :: "SYS \<Rightarrow> ptr \<Rightarrow> bool" where
  "undisturbed s t = (\<exists>T. threads s t = Some T \<and> Flags T \<noteq> THREAD_FLAG_FORCE_TERMINATE_PENDING \<and> BlockLock T = FREE)"

lemma yields_rotate:
  assumes "sched_inv m s q" and "pcpus s (CpuSelf cpu) = Some C" and "CurrentThread C \<noteq> IdleThread C"
    and "\<And>t. t \<in> set (CurrentThread C # q) \<Longrightarrow> undisturbed s t"
  shows "\<exists>cpu' s' C'. yields n cpu sz s = Some (cpu', s') \<and> CpuSelf cpu' = CpuSelf cpu \<and> pcpus s' (CpuSelf cpu) = Some C'
    \<and> IdleThread C' = IdleThread C \<and> sched_inv m s' (tl (rotate n (CurrentThread C # q)))
    \<and> CurrentThread C' = hd (rotate n (CurrentThread C # q)) \<and> (\<forall>t \<in> set (CurrentThread C # q). undisturbed s' t)"
proof (induction n)
  case (Suc n)
  let ?L = "CurrentThread C # q"
  from Suc obtain cpu' s' C' where r: "yields n cpu sz s = Some (cpu', s')" "CpuSelf cpu' = CpuSelf cpu" "pcpus s' (CpuSelf cpu) = Some C'"
    "IdleThread C' = IdleThread C" "sched_inv m s' (tl (rotate n ?L))" "CurrentThread C' = hd (rotate n ?L)" "\<forall>t \<in> set ?L. undisturbed s' t"
    by blast
  obtain x xs where x: "rotate n ?L = x # xs" by (cases "rotate n ?L") auto
  then have sx: "set (x # xs) = set ?L" using set_rotate [of n ?L] by simp
  have "x \<noteq> IdleThread C"
  proof -
    have "IdleThread C \<notin> set q" using sched_inv_dest(4) [OF assms(1,2)] by (auto simp: cpu_inv_def)
    then show ?thesis using sx assms(3) by (metis list.set_intros(1) set_ConsD)
  qed
  then have q': "requeue C' xs = xs @ [x]" "next_thread (IdleThread C') (xs @ [x]) = hd (xs @ [x])"
    using r x by (auto simp: requeue_def next_thread_def)
  obtain T where T: "threads s' (CurrentThread C') = Some T" "Flags T \<noteq> THREAD_FLAG_FORCE_TERMINATE_PENDING" "BlockLock T = FREE"
  proof -
    have "x \<in> set ?L" using sx by auto
    then have "undisturbed s' x" using r(7) by blast
    then show ?thesis using that r(6) x by (auto simp: undisturbed_def)
  qed
  have inv: "sched_inv m s' xs" and c: "pcpus s' (CpuSelf cpu') = Some C'" using r x by auto
  from ThreadYield_ok [OF inv c T, of sz] obtain s'' C'' st where y: "ThreadYield cpu' sz s' = Some (cpu'\<lparr>CpuIntr := st\<rparr>, s'')"
    "sched_inv m s'' (tl (xs @ [x]))" "pcpus s'' = (pcpus s')(CpuSelf cpu' \<mapsto> C'')" "CurrentThread C'' = hd (xs @ [x])" "IdleThread C'' = IdleThread C'"
    "\<forall>t. t \<noteq> CurrentThread C' \<longrightarrow> threads s'' t = threads s' t"
    "\<exists>T'. threads s'' (CurrentThread C') = Some T' \<and> Flags T' = Flags T \<and> BlockLock T' = FREE"
    unfolding q' by blast
  have u: "undisturbed s'' t" if "t \<in> set ?L" for t
    using r(7) that y(6,7) T(2) by (cases "t = CurrentThread C'") (auto simp: undisturbed_def)
  show ?case using r y u x
    by (intro exI [of _ "cpu'\<lparr>CpuIntr := st\<rparr>"] exI [of _ s''] exI [of _ C'']) simp
qed (use assms in \<open>auto simp: undisturbed_def\<close>)

section \<open>An example system\<close>

text \<open>Two processors; thread \<open>0x2000\<close> is ready, \<open>0x1000\<close> and \<open>0x4000\<close> run, \<open>0x3000\<close> and \<open>0x5000\<close> are
  the idle threads. Thread \<open>0x4000\<close> holds a mutex, and an event is not signaled.\<close>

definition ex_thread :: "ptr \<Rightarrow> THREAD_STATE \<Rightarrow> THREAD" where
  "ex_thread t st = \<lparr>RefCnt = 1, Self = t, Id = 4, Name = Some ''t'', Priority = 16, TState = st, ExitStatus = 0, Flags = 0, BlockLock = FREE,
     TickCountCompleted = 0, UninterruptedTicks = 0, TickCountEarly = 0, InitialStackBase = t + 0x800, StackSize = 0x8000, Stack = t + 0x700,
     UserStack = NULL, Process = 0x600\<rparr>"

definition ex_pcpu :: "ptr \<Rightarrow> ptr \<Rightarrow> PCPU" where
  "ex_pcpu cur idle = \<lparr>ApicId = 0, StackTop = cur + 0x800, CpuStackSize = 0x8000, TssRsp0 = cur + 0x800, RunningThreadTicks = 0, IdleThread = idle,
     CurrentThread = cur, PreviousThread = NULL, YieldOnInterruptReturn = False, IdleTicks = 0, KernelTicks = 0, FsBase = cur, Rsp = cur + 0x780\<rparr>"

definition ex_sys :: SYS where
  "ex_sys = \<lparr>threads = [0x1000 \<mapsto> ex_thread 0x1000 ThreadStateRunning, 0x2000 \<mapsto> ex_thread 0x2000 ThreadStateReady,
       0x3000 \<mapsto> ex_thread 0x3000 ThreadStateReady, 0x4000 \<mapsto> ex_thread 0x4000 ThreadStateRunning, 0x5000 \<mapsto> ex_thread 0x5000 ThreadStateReady],
     pcpus = [0x10 \<mapsto> ex_pcpu 0x1000 0x3000, 0x20 \<mapsto> ex_pcpu 0x4000 0x5000], events = [0x800 \<mapsto> \<lparr>EventLock = FREE, ExEvtType = ExEventTypeSynchronization, Signaled = 0\<rparr>],
     mutexes = [0x700 \<mapsto> \<lparr>MutexLock = FREE, MutexRecursivityDepth = 1, MutexMaxRecursivityDepth = 1, MutexHolder = 0x4000\<rparr>], processes = Map.empty,
     entries = [0x500 \<mapsto> \<lparr>Flink = 0x20F0, Blink = 0x20F0\<rparr>, 0x20F0 \<mapsto> \<lparr>Flink = 0x500, Blink = 0x500\<rparr>,
       0x10F0 \<mapsto> \<lparr>Flink = 0, Blink = 0\<rparr>, 0x30F0 \<mapsto> \<lparr>Flink = 0, Blink = 0\<rparr>, 0x40F0 \<mapsto> \<lparr>Flink = 0, Blink = 0\<rparr>, 0x50F0 \<mapsto> \<lparr>Flink = 0, Blink = 0\<rparr>,
       0x748 \<mapsto> \<lparr>Flink = 0x748, Blink = 0x748\<rparr>, 0x840 \<mapsto> \<lparr>Flink = 0x840, Blink = 0x840\<rparr>],
     AllThreadsLock = FREE, AllThreadsList = 0x400, ReadyThreadsLock = FREE, ReadyThreadsList = 0x500, SystemProcess = 0x600, CurrentTid = 0,
     LockOps = LockSystemInit False, CallSite = 8, resume = \<lambda>_. Fresh, calls = [], StackMem = \<lambda>_. 0\<rparr>"

lemma ex_sys_inv: "sched_inv False ex_sys [0x2000]"
proof -
  have res: "resumable ex_sys t" if "t \<in> {0x2000, 0x3000, 0x5000}" for t
    using that by (auto simp: resumable_def thread_at_def ex_sys_def ReadyList_def ex_thread_def)
  have "cpu_inv ex_sys [0x2000] c C" if "pcpus ex_sys c = Some C" for c C
    using that res [of "0x3000"] res [of "0x5000"]
    by (auto simp: cpu_inv_def ex_sys_def ex_pcpu_def thread_at_def ReadyList_def ex_thread_def split: if_splits)
  moreover have "is_list (entries ex_sys) 0x500 (map ReadyList [0x2000])"
    by (simp add: is_list_def link_def rd_Flink_def rd_Blink_def ReadyList_def ex_sys_def)
  ultimately show ?thesis
    unfolding sched_inv_def using res [of "0x2000"]
    by (auto simp: ex_sys_def ex_pcpu_def ex_thread_def split: if_splits)
qed

lemma ex_sys_run: "pcpus ex_sys 0x10 = Some (ex_pcpu 0x1000 0x3000)" "threads ex_sys 0x1000 = Some (ex_thread 0x1000 ThreadStateRunning)"
  by (simp_all add: ex_sys_def)

section \<open>Properties\<close>

text \<open>
  C16: in a well-formed state a processor whose thread yields puts the thread at the end of the ready
  queue (unless it is the idle thread) and runs the first thread of the queue, or the idle thread when
  the queue is empty, with the interrupt state of the thread that now runs. The state is well-formed
  again, every lock is free, the other processors are not touched, and no assertion fails.
\<close>

theorem yield_spec:
  assumes "sched_inv m s q" and "pcpus s (CpuSelf cpu) = Some C" and "threads s (CurrentThread C) = Some T"
    and "Flags T \<noteq> THREAD_FLAG_FORCE_TERMINATE_PENDING" and "BlockLock T = FREE"
    and "nxt = next_thread (IdleThread C) (requeue C q)"
  shows "\<exists>cpu' s'. ThreadYield cpu sz s = Some (cpu', s') \<and> sched_inv m s' (tl (requeue C q))
    \<and> cur_of s' (CpuSelf cpu) = Some nxt \<and> (\<forall>d. d \<noteq> CpuSelf cpu \<longrightarrow> pcpus s' d = pcpus s d)
    \<and> CpuSelf cpu' = CpuSelf cpu \<and> CpuIntr cpu' = (if nxt = CurrentThread C then CpuIntr cpu else resume_intr (resume s nxt))"
  using ThreadYield_ok [OF assms(1-5), of sz] assms(6) by (auto simp: cur_of_def)

theorem yield_spec_witness:
  "\<exists>cpu' s'. ThreadYield (ex_cpu 0x10) 0x400 ex_sys = Some (cpu', s') \<and> sched_inv False s' [0x1000] \<and> cur_of s' 0x10 = Some 0x2000"
  using yield_spec [OF ex_sys_inv, of "ex_cpu 0x10" "ex_pcpu 0x1000 0x3000" "ex_thread 0x1000 ThreadStateRunning" "0x2000" "0x400"] ex_sys_run
  by (auto simp: ex_cpu_def ex_pcpu_def ex_thread_def next_thread_def requeue_def)

text \<open>
  C17: a thread that blocks (holding its block lock, interrupts off) hands the processor to the first
  ready thread; its block lock is free when the call is over on that processor. From then on any
  processor can wake it with \<open>ThreadUnblock\<close>, which succeeds and puts it at the end of the ready queue.
\<close>

theorem block_unblock_spec:
  assumes inv: "sched_inv m s q" and C: "pcpus s (CpuSelf cpu) = Some C" and T: "threads s (CurrentThread C) = Some T"
    and f: "Flags T \<noteq> THREAD_FLAG_FORCE_TERMINATE_PENDING" and b: "BlockLock T = HELD (CpuSelf cpu) (CallSite s)"
    and off: "CpuIntr cpu = INTR_OFF" and idle: "CurrentThread C \<noteq> IdleThread C" and cpu2: "CpuSelf cpu2 \<noteq> NULL"
  shows "\<exists>cpu1 s1 s2. ThreadBlock cpu sz s = Some (cpu1, s1) \<and> sched_inv m s1 (tl q)
    \<and> cur_of s1 (CpuSelf cpu) = Some (next_thread (IdleThread C) q)
    \<and> ThreadUnblock cpu2 (CurrentThread C) s1 = Some (cpu2, s2) \<and> sched_inv m s2 (tl q @ [CurrentThread C])"
proof -
  let ?cur = "CurrentThread C"
  note d = sched_inv_dest [OF inv C]
  obtain cpu1 s1 C' T' where r: "ThreadBlock cpu sz s = Some (cpu1, s1)" "sched_inv m s1 (tl q)" "pcpus s1 = (pcpus s)(CpuSelf cpu \<mapsto> C')"
    "CurrentThread C' = next_thread (IdleThread C) q" "IdleThread C' = IdleThread C" "resume s1 = (resume s)(?cur := AfterBlock)"
    "dom (entries s1) = dom (entries s)" "ReadyThreadsList s1 = ReadyThreadsList s"
    "threads s1 ?cur = Some T'" "BlockLock T' = FREE" "TState T' = ThreadStateBlocked" "Self T' = Self T"
    using ThreadBlock_ok [OF inv C T f b off, of sz] by (auto simp: only_changes_def)
  have at: "thread_at s1 ?cur T'" using d(4) T r by (auto simp: thread_at_def cpu_inv_def)
  have nq: "?cur \<notin> set q" using d(4) by (simp add: cpu_inv_def)
  then have nq1: "?cur \<notin> set (tl q)" "next_thread (IdleThread C) q \<noteq> ?cur" using idle by (cases q; auto simp: next_thread_def)+
  have "?cur \<noteq> CurrentThread D \<and> ?cur \<noteq> IdleThread D" if D: "pcpus s1 e = Some D" for e D
  proof (cases "e = CpuSelf cpu")
    case False
    then have "pcpus s e = Some D" using D r(3) by simp
    then have "{?cur, IdleThread C} \<inter> {CurrentThread D, IdleThread D} = {}"
      using inv C False unfolding sched_inv_def by (metis (no_types))
    then show ?thesis by auto
  qed (use D r nq1 idle in auto)
  then obtain h where "ThreadUnblock cpu2 ?cur s1 = Some (cpu2, s1\<lparr>entries := h, threads := (threads s1)(?cur \<mapsto> T'\<lparr>TState := ThreadStateReady\<rparr>)\<rparr>)"
    "sched_inv m (s1\<lparr>entries := h, threads := (threads s1)(?cur \<mapsto> T'\<lparr>TState := ThreadStateReady\<rparr>)\<rparr>) (tl q @ [?cur])"
    using ThreadUnblock_ok [OF r(2) cpu2 at r(11,10) _ nq1(1)] r(6) by auto
  then show ?thesis using r by (auto simp: cur_of_def)
qed

theorem block_unblock_spec_witness:
  "\<exists>s0 cpu1 s1 s2. ThreadTakeBlockLock (ex_cpu 0x10) ex_sys = Some ((ex_cpu 0x10)\<lparr>CpuIntr := INTR_OFF\<rparr>, s0)
    \<and> ThreadBlock ((ex_cpu 0x10)\<lparr>CpuIntr := INTR_OFF\<rparr>) 0x400 s0 = Some (cpu1, s1)
    \<and> ThreadUnblock (ex_cpu 0x20) 0x1000 s1 = Some (ex_cpu 0x20, s2) \<and> sched_inv False s2 [0x1000]"
proof -
  let ?cpu = "(ex_cpu 0x10)\<lparr>CpuIntr := INTR_OFF\<rparr>" and ?T = "(ex_thread 0x1000 ThreadStateRunning)\<lparr>BlockLock := HELD 0x10 8\<rparr>"
  let ?s = "ex_sys\<lparr>threads := (threads ex_sys)(0x1000 \<mapsto> ?T)\<rparr>"
  have t: "ThreadTakeBlockLock (ex_cpu 0x10) ex_sys = Some (?cpu, ?s)" "sched_inv False ?s [0x2000]"
    using ThreadTakeBlockLock_ok [OF ex_sys_inv, of "ex_cpu 0x10" "ex_pcpu 0x1000 0x3000" "ex_thread 0x1000 ThreadStateRunning"] ex_sys_run
    by (auto simp: ex_cpu_def ex_pcpu_def ex_thread_def ex_sys_def)
  show ?thesis
    using block_unblock_spec [OF t(2), of ?cpu "ex_pcpu 0x1000 0x3000" ?T "ex_cpu 0x20" "0x400"] t(1) ex_sys_run
    by (auto simp: ex_cpu_def ex_pcpu_def ex_thread_def ex_sys_def)
qed

text \<open>
  C18: round robin. When the threads of a processor only yield, the processor goes through the running
  thread and the ready queue in order, again and again: after \<open>n\<close> yields it runs the thread at
  position \<open>n\<close> modulo the number of threads, so every ready thread gets the processor.
\<close>

theorem round_robin:
  assumes "sched_inv m s q" and "pcpus s (CpuSelf cpu) = Some C" and "CurrentThread C \<noteq> IdleThread C"
    and "\<forall>t \<in> set (CurrentThread C # q). undisturbed s t"
  shows "\<exists>cpu' s'. yields n cpu sz s = Some (cpu', s')
    \<and> cur_of s' (CpuSelf cpu) = Some ((CurrentThread C # q) ! (n mod (length q + 1)))"
proof -
  have "hd (rotate n (CurrentThread C # q)) = (CurrentThread C # q) ! (n mod (length q + 1))"
    using hd_rotate_conv_nth [of "CurrentThread C # q" n] by simp
  then show ?thesis using yields_rotate [OF assms(1-3), of n sz] assms(4) unfolding cur_of_def
    by (metis (mono_tags, lifting) option.simps(9))
qed

theorem round_robin_witness:
  "\<exists>cpu' s'. yields 3 (ex_cpu 0x10) 0x400 ex_sys = Some (cpu', s') \<and> cur_of s' 0x10 = Some 0x2000"
proof -
  have "undisturbed ex_sys 0x1000" "undisturbed ex_sys 0x2000" by (simp_all add: undisturbed_def ex_sys_def ex_thread_def)
  moreover have "(3::nat) mod Suc (Suc 0) = 1" by (simp add: numeral_3_eq_3 mod_Suc)
  ultimately show ?thesis
    using round_robin [OF ex_sys_inv, of "ex_cpu 0x10" "ex_pcpu 0x1000 0x3000" 3 "0x400"] ex_sys_run(1)
    by (simp add: ex_cpu_def ex_pcpu_def)
qed

text \<open>
  the timer preempts. A timer tick charges the running thread and processor with one tick, and the
  time slice of one tick being used up, the interrupt handler makes the processor yield on its return:
  the first ready thread runs, and the yield is not counted as an early one.
\<close>

theorem time_slice_preempts:
  assumes inv: "sched_inv m s q" and C: "pcpus s (CpuSelf cpu) = Some C" and T: "threads s (CurrentThread C) = Some T"
    and f: "Flags T \<noteq> THREAD_FLAG_FORCE_TERMINATE_PENDING" and b: "BlockLock T = FREE" and off: "CpuIntr cpu = INTR_OFF"
    and ticks: "RunningThreadTicks C < MAX_DWORD"
  shows "\<exists>s1 cpu2 s2 C2 T2. ExSystemTimerTick cpu s = Some s1 \<and> IsrYield cpu sz s1 = Some (cpu2, s2)
    \<and> sched_inv m s2 (tl (requeue C q)) \<and> pcpus s2 (CpuSelf cpu) = Some C2 \<and> CurrentThread C2 = next_thread (IdleThread C) (requeue C q)
    \<and> RunningThreadTicks C2 = 0 \<and> threads s2 (CurrentThread C) = Some T2 \<and> TickCountEarly T2 = TickCountEarly T"
proof -
  let ?cur = "CurrentThread C"
  note d = sched_inv_dest [OF inv C]
  have cpu: "CpuSelf cpu \<noteq> NULL" "Self T = ?cur" "FsBase C = ?cur"
    using d(4) T by (auto simp: cpu_inv_def thread_at_def)
  have "unat (RunningThreadTicks C) < 4294967295" using ticks by (simp add: word_less_nat_alt)
  then have "unat (RunningThreadTicks C + 1) = unat (RunningThreadTicks C) + 1" by (simp add: unat_plus_if_small)
  then have slice: "THREAD_TIME_SLICE \<le> RunningThreadTicks C + 1" by (simp add: word_le_nat_alt)
  define T1 where "T1 = T\<lparr>TickCountCompleted := TickCountCompleted T + 1\<rparr>"
  define C1 where "C1 = (if IdleThread C = ?cur then C\<lparr>IdleTicks := IdleTicks C + 1\<rparr> else C\<lparr>KernelTicks := KernelTicks C + 1\<rparr>)
     \<lparr>RunningThreadTicks := RunningThreadTicks C + 1, YieldOnInterruptReturn := True\<rparr>"
  define s1 where "s1 = s\<lparr>threads := (threads s)(?cur \<mapsto> T1), pcpus := (pcpus s)(CpuSelf cpu \<mapsto> C1)\<rparr>"
  have tick: "ExSystemTimerTick cpu s = Some s1"
    using C T cpu off slice by (cases s; cases "IdleThread C = ?cur")
      (simp_all add: ExSystemTimerTick_def ThreadTick_def kernel_simps s1_def T1_def C1_def)
  have inv1: "sched_inv m s1 q"
    by (rule sched_inv_upd_cur [OF inv C T, of C1 T1]) (use d cpu in \<open>auto simp: s1_def C1_def T1_def\<close>)
  have C1: "pcpus s1 (CpuSelf cpu) = Some C1" and T1: "threads s1 (CurrentThread C1) = Some T1" "Flags T1 \<noteq> 1" "BlockLock T1 = FREE"
    and e: "CurrentThread C1 = ?cur" "IdleThread C1 = IdleThread C" "YieldOnInterruptReturn C1"
    using f b by (auto simp: s1_def C1_def T1_def)
  obtain cpu2 s2 C2 T2 where y: "ThreadYield cpu sz s1 = Some (cpu2, s2)" "sched_inv m s2 (tl (requeue C1 q))" "pcpus s2 = (pcpus s1)(CpuSelf cpu \<mapsto> C2)"
    "CurrentThread C2 = next_thread (IdleThread C1) (requeue C1 q)" "RunningThreadTicks C2 = 0" "threads s2 (CurrentThread C1) = Some T2"
    "TickCountEarly T2 = TickCountEarly T1 + (if YieldOnInterruptReturn C1 then 0 else 1)"
    using ThreadYield_ok [OF inv1 C1 T1, of sz] by blast
  have "requeue C1 q = requeue C q" by (simp add: requeue_def e)
  then show ?thesis using tick y C1 e by (auto simp: IsrYield_def ThreadYieldOnInterrupt_def T1_def)
qed

theorem time_slice_preempts_witness:
  "\<exists>s1 cpu2 s2 C2. ExSystemTimerTick ((ex_cpu 0x10)\<lparr>CpuIntr := INTR_OFF\<rparr>) ex_sys = Some s1
    \<and> IsrYield ((ex_cpu 0x10)\<lparr>CpuIntr := INTR_OFF\<rparr>) 0x400 s1 = Some (cpu2, s2) \<and> pcpus s2 0x10 = Some C2 \<and> CurrentThread C2 = 0x2000"
  using time_slice_preempts [OF ex_sys_inv, of "(ex_cpu 0x10)\<lparr>CpuIntr := INTR_OFF\<rparr>" "ex_pcpu 0x1000 0x3000"
      "ex_thread 0x1000 ThreadStateRunning" "0x400"] ex_sys_run
  by (auto simp: ex_cpu_def ex_pcpu_def ex_thread_def next_thread_def requeue_def)

end
