(* ===== verification/ExSync.thy ===== *)
theory ExSync
  imports Scheduler
begin

text \<open>
  The blocking synchronisation objects: the mutex (\<open>HAL9000/src/mutex.c\<close>) and waiting for an executive
  event (\<open>ex_event.c\<close>). A call that has to wait gives the processor to another thread, so it is given in
  two parts: the code up to \<open>ThreadBlock\<close>, and the code the thread executes when it runs again. The result
  says whether the calling thread has passed (True) or is blocked and another thread runs (False).
\<close>

section \<open>Mutexes\<close>

definition MutexInit :: "ptr \<Rightarrow> bool \<Rightarrow> SYS \<Rightarrow> SYS option" where
  "MutexInit Mutex Recursive s = do {
     ASSERT (NULL \<noteq> Mutex);
     s \<leftarrow> upd_mutex Mutex (\<lambda>e. \<lparr>MutexLock = \<lparr>State = 0, Holder = NULL, FunctionWhichTookLock = NULL\<rparr>, MutexRecursivityDepth = 0,
           MutexMaxRecursivityDepth = 0, MutexHolder = NULL\<rparr>) s;
     s \<leftarrow> upd_mutex Mutex (\<lambda>e. e\<lparr>MutexLock := LockInit (LockOps s) (MutexLock e)\<rparr>) s;
     h \<leftarrow> InitializeListHead (entries s) (MutexWaitingList Mutex);
     upd_mutex Mutex (\<lambda>e. e\<lparr>MutexMaxRecursivityDepth := if Recursive then MAX_BYTE else 1\<rparr>) (s\<lparr>entries := h\<rparr>)
   }"

text \<open>One test of the loop of \<open>MutexAcquire\<close>, with the lock of the mutex held.\<close>

definition MutexAcquire_pass :: "CPU \<Rightarrow> QWORD \<Rightarrow> ptr \<Rightarrow> INTR_STATE \<Rightarrow> INTR_STATE \<Rightarrow> SYS \<Rightarrow> (bool \<times> CPU \<times> SYS) option" where
  "MutexAcquire_pass cpu sz Mutex oldState dummyState s = do {
     pCurrentThread \<leftarrow> GetCurrentThread cpu s;
     e \<leftarrow> mutexes s Mutex;
     if MutexHolder e \<noteq> pCurrentThread then do {
       s \<leftarrow> InsertTail (MutexWaitingList Mutex) (ReadyList pCurrentThread) s;
       (cpu, s) \<leftarrow> ThreadTakeBlockLock cpu s;
       (cpu, s) \<leftarrow> ReleaseMutex cpu s Mutex dummyState;
       (cpu, s) \<leftarrow> ThreadBlock cpu sz s;
       Some (False, cpu, s)
     }
     else do {
       (cpu, s) \<leftarrow> ReleaseMutex cpu s Mutex dummyState;
       Some (True, CpuIntrSetState oldState cpu, s)
     }
   }"

definition MutexAcquire :: "CPU \<Rightarrow> QWORD \<Rightarrow> ptr \<Rightarrow> SYS \<Rightarrow> (bool \<times> CPU \<times> SYS) option" where
  "MutexAcquire cpu sz Mutex s = do {
     pCurrentThread \<leftarrow> GetCurrentThread cpu s;
     ASSERT (NULL \<noteq> Mutex);
     ASSERT (NULL \<noteq> pCurrentThread);
     e \<leftarrow> mutexes s Mutex;
     if pCurrentThread = MutexHolder e then do {
       ASSERT (MutexRecursivityDepth e < MutexMaxRecursivityDepth e);
       s \<leftarrow> upd_mutex Mutex (\<lambda>e. e\<lparr>MutexRecursivityDepth := MutexRecursivityDepth e + 1\<rparr>) s;
       Some (True, cpu, s)
     }
     else do {
       let (oldState, cpu) = CpuIntrDisable cpu;
       (dummyState, cpu, s) \<leftarrow> AcquireMutex cpu s Mutex;
       e \<leftarrow> mutexes s Mutex;
       s \<leftarrow> (if NULL = MutexHolder e
             then upd_mutex Mutex (\<lambda>e. e\<lparr>MutexHolder := pCurrentThread, MutexRecursivityDepth := 1\<rparr>) s
             else Some s);
       MutexAcquire_pass cpu sz Mutex oldState dummyState s
     }
   }"

text \<open>The thread was woken: its \<open>ThreadBlock\<close> returns and the loop goes on.\<close>

definition MutexAcquire_resume :: "CPU \<Rightarrow> QWORD \<Rightarrow> ptr \<Rightarrow> INTR_STATE \<Rightarrow> SYS \<Rightarrow> (bool \<times> CPU \<times> SYS) option" where
  "MutexAcquire_resume cpu sz Mutex oldState s = do {
     (dummyState, cpu, s) \<leftarrow> AcquireMutex cpu s Mutex;
     MutexAcquire_pass cpu sz Mutex oldState dummyState s
   }"

definition MutexRelease :: "CPU \<Rightarrow> ptr \<Rightarrow> SYS \<Rightarrow> (CPU \<times> SYS) option" where
  "MutexRelease cpu Mutex s = do {
     ASSERT (NULL \<noteq> Mutex);
     e \<leftarrow> mutexes s Mutex;
     cur \<leftarrow> GetCurrentThread cpu s;
     ASSERT (cur = MutexHolder e);
     if 1 < MutexRecursivityDepth e then do {
       s \<leftarrow> upd_mutex Mutex (\<lambda>e. e\<lparr>MutexRecursivityDepth := MutexRecursivityDepth e - 1\<rparr>) s;
       Some (cpu, s)
     }
     else do {
       (oldState, cpu, s) \<leftarrow> AcquireMutex cpu s Mutex;
       (pEntry, s) \<leftarrow> RemoveHead (MutexWaitingList Mutex) s;
       (cpu, s) \<leftarrow> (if pEntry \<noteq> MutexWaitingList Mutex then do {
           let pThread = ReadyThread pEntry;
           s \<leftarrow> upd_mutex Mutex (\<lambda>e. e\<lparr>MutexHolder := pThread, MutexRecursivityDepth := 1\<rparr>) s;
           ThreadUnblock cpu pThread s
         }
         else do {
           s \<leftarrow> upd_mutex Mutex (\<lambda>e. e\<lparr>MutexHolder := NULL\<rparr>) s;
           Some (cpu, s)
         });
       ReleaseMutex cpu s Mutex oldState
     }
   }"

section \<open>Waiting for an executive event\<close>

definition ExEventWait_pass :: "CPU \<Rightarrow> QWORD \<Rightarrow> ptr \<Rightarrow> BYTE \<Rightarrow> INTR_STATE \<Rightarrow> SYS \<Rightarrow> (bool \<times> CPU \<times> SYS) option" where
  "ExEventWait_pass cpu sz Event newState oldState s = do {
     pCurrentThread \<leftarrow> GetCurrentThread cpu s;
     e \<leftarrow> events s Event;
     if 1 \<noteq> Signaled e then do {
       (dummyState, cpu, s) \<leftarrow> AcquireEvent cpu s Event;
       s \<leftarrow> InsertTail (EventWaitingList Event) (ReadyList pCurrentThread) s;
       (cpu, s) \<leftarrow> ThreadTakeBlockLock cpu s;
       (cpu, s) \<leftarrow> ReleaseEvent cpu s Event dummyState;
       (cpu, s) \<leftarrow> ThreadBlock cpu sz s;
       Some (False, cpu, s)
     }
     else do {
       s \<leftarrow> upd_evt Event (\<lambda>e. e\<lparr>Signaled := newState\<rparr>) s;
       Some (True, CpuIntrSetState oldState cpu, s)
     }
   }"

definition ExEventWaitForSignal :: "CPU \<Rightarrow> QWORD \<Rightarrow> ptr \<Rightarrow> SYS \<Rightarrow> (bool \<times> CPU \<times> SYS) option" where
  "ExEventWaitForSignal cpu sz Event s = do {
     ASSERT (NULL \<noteq> Event);
     pCurrentThread \<leftarrow> GetCurrentThread cpu s;
     ASSERT (NULL \<noteq> pCurrentThread);
     e \<leftarrow> events s Event;
     let newState = (if ExEventTypeNotification = ExEvtType e then 1 else 0);
     let (oldState, cpu) = CpuIntrDisable cpu;
     ExEventWait_pass cpu sz Event newState oldState s
   }"

definition ExEventWaitForSignal_resume :: "CPU \<Rightarrow> QWORD \<Rightarrow> ptr \<Rightarrow> BYTE \<Rightarrow> INTR_STATE \<Rightarrow> SYS \<Rightarrow> (bool \<times> CPU \<times> SYS) option" where
  "ExEventWaitForSignal_resume cpu sz Event newState oldState s = do {
     e \<leftarrow> events s Event;
     if ExEventTypeNotification = ExEvtType e then Some (True, CpuIntrSetState oldState cpu, s)
     else ExEventWait_pass cpu sz Event newState oldState s
   }"

text \<open>\<open>ThreadWaitForTermination\<close> and \<open>ProcessWaitForTermination\<close> wait for the event of the object and then read its status.\<close>

definition ThreadWaitForTermination :: "CPU \<Rightarrow> QWORD \<Rightarrow> ptr \<Rightarrow> SYS \<Rightarrow> (STATUS option \<times> CPU \<times> SYS) option" where
  "ThreadWaitForTermination cpu sz Thread s = do {
     ASSERT (NULL \<noteq> Thread);
     (passed, cpu, s) \<leftarrow> ExEventWaitForSignal cpu sz (TerminationEvt Thread) s;
     if passed then do { t \<leftarrow> threads s Thread; Some (Some (ExitStatus t), cpu, s) } else Some (None, cpu, s)
   }"

definition ProcessWaitForTermination :: "CPU \<Rightarrow> QWORD \<Rightarrow> ptr \<Rightarrow> SYS \<Rightarrow> (STATUS option \<times> CPU \<times> SYS) option" where
  "ProcessWaitForTermination cpu sz Proc s = do {
     ASSERT (NULL \<noteq> Proc);
     (passed, cpu, s) \<leftarrow> ExEventWaitForSignal cpu sz (ProcTerminationEvt Proc) s;
     if passed then do { e \<leftarrow> processes s Proc; Some (Some (TerminationStatus e), cpu, s) } else Some (None, cpu, s)
   }"

section \<open>Lists of waiting threads\<close>

text \<open>A blocked thread that nobody runs or has queued, and the list behind a head whose members are such threads.\<close>

definition waiting :: "SYS \<Rightarrow> ptr list \<Rightarrow> ptr \<Rightarrow> bool" where
  "waiting s q w = (\<exists>W. thread_at s w W \<and> TState W = ThreadStateBlocked \<and> BlockLock W = FREE \<and> resume s w \<noteq> Gone \<and> w \<notin> set q
     \<and> (\<forall>c C. pcpus s c = Some C \<longrightarrow> w \<noteq> CurrentThread C \<and> w \<noteq> IdleThread C))"

definition wait_head :: "SYS \<Rightarrow> ptr \<Rightarrow> bool" where
  "wait_head s head = (head \<noteq> ReadyThreadsList s \<and> (\<forall>t. threads s t \<noteq> None \<longrightarrow> ReadyList t \<noteq> head))"

definition wait_list :: "SYS \<Rightarrow> ptr list \<Rightarrow> ptr \<Rightarrow> ptr list \<Rightarrow> bool" where
  "wait_list s q head ws = (is_list (entries s) head (map ReadyList ws) \<and> wait_head s head \<and> (\<forall>w \<in> set ws. waiting s q w))"

lemma sched_inv_entries:
  assumes "sched_inv m s q" and "only_changes A (entries s) h" and "A \<inter> set (ReadyThreadsList s # map ReadyList q) = {}"
  shows "sched_inv m (s\<lparr>entries := h\<rparr>) q"
proof -
  have "is_list h (ReadyThreadsList s) (map ReadyList q)"
    using only_changes_is_list [OF assms(2)] assms(1,3) by (auto simp: sched_inv_def)
  moreover have "dom h = dom (entries s)" using assms(2) by (simp add: only_changes_def)
  ultimately show ?thesis using assms(1) unfolding sched_inv_def cpu_inv_def resumable_def thread_at_def by simp
qed

lemma sched_inv_queued: "sched_inv m s q \<Longrightarrow> t \<in> set q \<Longrightarrow> threads s t \<noteq> None"
  by (auto simp: sched_inv_def)

lemma waiting_entries: "dom h = dom (entries s) \<Longrightarrow> waiting (s\<lparr>entries := h\<rparr>) q w \<longleftrightarrow> waiting s q w"
  by (simp add: waiting_def thread_at_def)

lemma waiting_unblock:
  assumes "waiting s q w" and "w \<noteq> u" and "threads s' = (threads s)(u := X)" "dom (entries s') = dom (entries s)"
    "ReadyThreadsList s' = ReadyThreadsList s" "pcpus s' = pcpus s" "resume s' = resume s"
  shows "waiting s' (q @ [u]) w"
  using assms by (auto simp: waiting_def thread_at_def)

text \<open>Taking the first thread off a list and waking it.\<close>

lemma pop_unblock:
  assumes inv: "sched_inv m s q" and wl: "wait_list s q head (w # ws)" and cpu: "CpuSelf cpu \<noteq> NULL"
  shows "\<exists>h h' W. RemoveHead head s = Some (ReadyList w, s\<lparr>entries := h\<rparr>) \<and> threads s w = Some W
    \<and> ThreadUnblock cpu w (s\<lparr>entries := h\<rparr>) = Some (cpu, s\<lparr>entries := h', threads := (threads s)(w \<mapsto> W\<lparr>TState := ThreadStateReady\<rparr>)\<rparr>)
    \<and> sched_inv m (s\<lparr>entries := h', threads := (threads s)(w \<mapsto> W\<lparr>TState := ThreadStateReady\<rparr>)\<rparr>) (q @ [w])
    \<and> wait_list (s\<lparr>entries := h', threads := (threads s)(w \<mapsto> W\<lparr>TState := ThreadStateReady\<rparr>)\<rparr>) (q @ [w]) head ws
    \<and> only_changes (set (ReadyThreadsList s # head # map ReadyList (w # ws @ q))) (entries s) h'"
proof -
  have l: "is_list (entries s) head (ReadyList w # map ReadyList ws)" and hd: "wait_head s head" and ww: "waiting s q w"
    and rest: "\<forall>v \<in> set ws. waiting s q v" using wl by (auto simp: wait_list_def)
  from RemoveHeadList_ok [OF l] obtain h where h: "RemoveHeadList (entries s) head = Some (ReadyList w, h)"
    "is_list h head (map ReadyList ws)" "only_changes (set (head # map ReadyList ws)) (entries s) h" by blast
  have dom1: "dom h = dom (entries s)" using h(3) by (simp add: only_changes_def)
  obtain W where W: "thread_at s w W" "TState W = ThreadStateBlocked" "BlockLock W = FREE" "resume s w \<noteq> Gone" "w \<notin> set q"
    "\<And>c C. pcpus s c = Some C \<Longrightarrow> w \<noteq> CurrentThread C \<and> w \<noteq> IdleThread C" using ww by (auto simp: waiting_def)
  have nq: "set ws \<inter> set q = {}" "ReadyThreadsList s \<notin> ReadyList ` set ws" using rest by (auto simp: waiting_def thread_at_def)
  have hq: "head \<notin> ReadyList ` set q" using hd sched_inv_queued [OF inv] by (auto simp: wait_head_def)
  have d: "w \<notin> set ws" using l by (auto simp: is_list_def)
  have inv1: "sched_inv m (s\<lparr>entries := h\<rparr>) q"
    by (rule sched_inv_entries [OF inv h(3)]) (use nq hd hq in \<open>auto simp: wait_head_def\<close>)
  from ThreadUnblock_ok [OF inv1 cpu, of w W] W dom1 obtain h'
    where u: "ThreadUnblock cpu w (s\<lparr>entries := h\<rparr>) = Some (cpu, s\<lparr>entries := h', threads := (threads s)(w \<mapsto> W\<lparr>TState := ThreadStateReady\<rparr>)\<rparr>)"
      "sched_inv m (s\<lparr>entries := h', threads := (threads s)(w \<mapsto> W\<lparr>TState := ThreadStateReady\<rparr>)\<rparr>) (q @ [w])"
      "only_changes (set (ReadyList w # ReadyThreadsList s # map ReadyList q)) h h'"
    by (auto simp: thread_at_def)
  let ?s = "s\<lparr>entries := h', threads := (threads s)(w \<mapsto> W\<lparr>TState := ThreadStateReady\<rparr>)\<rparr>"
  have dom2: "dom h' = dom (entries s)" using u(3) dom1 by (simp add: only_changes_def)
  have "is_list h' head (map ReadyList ws)"
    by (rule only_changes_is_list [OF u(3) h(2)]) (use hd hq nq W(1) d in \<open>auto simp: wait_head_def thread_at_def\<close>)
  moreover have "wait_head ?s head" using hd W(1) by (auto simp: wait_head_def thread_at_def)
  moreover have "\<forall>v \<in> set ws. waiting ?s (q @ [w]) v"
  proof
    fix v assume "v \<in> set ws"
    then have "waiting s q v" "v \<noteq> w" using rest d by auto
    then show "waiting ?s (q @ [w]) v" by (rule waiting_unblock) (use dom2 in simp_all)
  qed
  ultimately have "wait_list ?s (q @ [w]) head ws" by (simp add: wait_list_def)
  moreover have "only_changes (set (ReadyThreadsList s # head # map ReadyList (w # ws @ q))) (entries s) h'"
    by (rule only_changes_mono [OF only_changes_trans [OF h(3) u(3)]]) auto
  ultimately show ?thesis using h(1) u W(1) by (auto simp: RemoveHead_def thread_at_def)
qed

text \<open>Joining a list and blocking; \<open>mx\<close> and \<open>ev\<close> are the objects after the lock of the list was released.\<close>

lemma push_block:
  assumes inv: "sched_inv m s q" and C: "pcpus s (CpuSelf cpu) = Some C" and T: "threads s (CurrentThread C) = Some T" "BlockLock T = FREE"
    and f: "Flags T \<noteq> THREAD_FLAG_FORCE_TERMINATE_PENDING" and off: "CpuIntr cpu = INTR_OFF" and idle: "CurrentThread C \<noteq> IdleThread C"
    and wl: "wait_list s q head ws"
  defines "cur \<equiv> CurrentThread C" and "nxt \<equiv> next_thread (IdleThread C) q"
  shows "\<exists>h s2. InsertTail head (ReadyList cur) s = Some (s\<lparr>entries := h\<rparr>) \<and> ThreadTakeBlockLock cpu (s\<lparr>entries := h\<rparr>) = Some (cpu, s2)
    \<and> mutexes s2 = mutexes s \<and> events s2 = events s \<and> LockOps s2 = LockOps s
    \<and> (\<forall>mx ev. \<exists>s4. ThreadBlock cpu sz (s2\<lparr>mutexes := mx, events := ev\<rparr>) = Some (cpu\<lparr>CpuIntr := resume_intr (resume s nxt)\<rparr>, s4)
        \<and> sched_inv m s4 (tl q) \<and> wait_list s4 (tl q) head (ws @ [cur]) \<and> cur_of s4 (CpuSelf cpu) = Some nxt
        \<and> mutexes s4 = mx \<and> events s4 = ev \<and> resume s4 cur = AfterBlock)"
proof -
  note d = sched_inv_dest [OF inv C]
  have at: "thread_at s cur T" and nq: "cur \<notin> set q" using d(4) T by (auto simp: cpu_inv_def thread_at_def cur_def)
  have l: "is_list (entries s) head (map ReadyList ws)" "wait_head s head" "\<forall>w \<in> set ws. waiting s q w" using wl by (auto simp: wait_list_def)
  have nws: "cur \<notin> set ws" "set ws \<inter> set q = {}" "ReadyThreadsList s \<notin> ReadyList ` set ws"
    using l(3) C by (auto simp: waiting_def cur_def thread_at_def)
  have hq: "head \<notin> ReadyList ` set q" using l(2) sched_inv_queued [OF inv] by (auto simp: wait_head_def)
  have "ReadyList cur \<notin> set (head # map ReadyList ws)" using nws l(2) at by (auto simp: wait_head_def thread_at_def)
  with InsertTailList_ok [OF l(1), of "ReadyList cur"] at obtain h
    where h: "InsertTailList (entries s) head (ReadyList cur) = Some h" "is_list h head (map ReadyList (ws @ [cur]))"
      "only_changes (set (ReadyList cur # head # map ReadyList ws)) (entries s) h" by (auto simp: thread_at_def)
  have inv1: "sched_inv m (s\<lparr>entries := h\<rparr>) q"
    by (rule sched_inv_entries [OF inv h(3)]) (use nws nq l(2) hq at in \<open>auto simp: wait_head_def thread_at_def\<close>)
  define T2 where "T2 = T\<lparr>BlockLock := HELD (CpuSelf cpu) (CallSite s)\<rparr>"
  define s2 where "s2 = s\<lparr>entries := h, threads := (threads s)(cur \<mapsto> T2)\<rparr>"
  have take: "ThreadTakeBlockLock cpu (s\<lparr>entries := h\<rparr>) = Some (cpu, s2)" and inv2: "sched_inv m s2 q"
    using ThreadTakeBlockLock_ok [OF inv1, of cpu C T] C T off by (auto simp: s2_def T2_def cur_def)
  have blk: "\<exists>s4. ThreadBlock cpu sz (s2\<lparr>mutexes := mx, events := ev\<rparr>) = Some (cpu\<lparr>CpuIntr := resume_intr (resume s nxt)\<rparr>, s4)
        \<and> sched_inv m s4 (tl q) \<and> wait_list s4 (tl q) head (ws @ [cur]) \<and> cur_of s4 (CpuSelf cpu) = Some nxt
        \<and> mutexes s4 = mx \<and> events s4 = ev \<and> resume s4 cur = AfterBlock" for mx ev
  proof -
    let ?s3 = "s2\<lparr>mutexes := mx, events := ev\<rparr>"
    have inv3: "sched_inv m ?s3 q" using inv2 unfolding sched_inv_def cpu_inv_def resumable_def thread_at_def by simp
    have nn: "nxt \<noteq> cur" "nxt \<notin> set ws" "cur \<notin> set (tl q)" "set (tl q) \<subseteq> set q"
      using nq nws idle l(3) C by (cases q; auto simp: nxt_def next_thread_def cur_def waiting_def)+
    obtain s4 C4 T4 where r: "ThreadBlock cpu sz ?s3 = Some (cpu\<lparr>CpuIntr := resume_intr (resume s nxt)\<rparr>, s4)" "sched_inv m s4 (tl q)"
      "pcpus s4 = (pcpus s)(CpuSelf cpu \<mapsto> C4)" "CurrentThread C4 = nxt" "IdleThread C4 = IdleThread C" "resume s4 = (resume s)(cur := AfterBlock)"
      "\<forall>t. t \<noteq> cur \<longrightarrow> threads s4 t = threads s t"
      "only_changes (set (ReadyThreadsList s # map ReadyList (tl q))) h (entries s4)" "ReadyThreadsList s4 = ReadyThreadsList s"
      "mutexes s4 = mx" "events s4 = ev" "threads s4 cur = Some T4" "BlockLock T4 = FREE" "TState T4 = ThreadStateBlocked" "Self T4 = Self T"
      using ThreadBlock_ok [OF inv3, of cpu C T2 sz] C f off nn(1) unfolding nxt_def [symmetric] cur_def [symmetric]
      by (auto simp: s2_def T2_def cur_def)
    have dom4: "dom (entries s4) = dom (entries s)" using r(8) h(3) by (simp add: only_changes_def)
    have "is_list (entries s4) head (map ReadyList (ws @ [cur]))"
      by (rule only_changes_is_list [OF r(8) h(2)]) (use nn nws l(2) hq at in \<open>auto simp: wait_head_def thread_at_def\<close>)
    moreover have "wait_head s4 head"
      unfolding wait_head_def
    proof (intro conjI allI impI)
      fix t assume "threads s4 t \<noteq> None"
      then have "threads s t \<noteq> None" using r(7) T(1) by (cases "t = cur") (auto simp: cur_def)
      then show "ReadyList t \<noteq> head" using l(2) by (auto simp: wait_head_def)
    qed (use l(2) r(9) in \<open>auto simp: wait_head_def\<close>)
    moreover have "waiting s4 (tl q) v" if v: "v \<in> set ws" for v
    proof -
      have vs: "waiting s q v" "v \<noteq> cur" using l(3) v nws by auto
      then have "v \<noteq> CurrentThread D \<and> v \<noteq> IdleThread D" if "pcpus s4 e = Some D" for e D
        using that r(3-5) nn(2) v C by (cases "e = CpuSelf cpu") (auto simp: waiting_def)
      then show ?thesis using vs r(6,7,9) dom4 nn(4) by (auto simp: waiting_def thread_at_def)
    qed
    moreover have "waiting s4 (tl q) cur"
    proof -
      have "cur \<noteq> CurrentThread D \<and> cur \<noteq> IdleThread D" if "pcpus s4 e = Some D" for e D
      proof (cases "e = CpuSelf cpu")
        case False
        then have "pcpus s e = Some D" using that r(3) by simp
        then have "{cur, IdleThread C} \<inter> {CurrentThread D, IdleThread D} = {}"
          using inv C False unfolding sched_inv_def cur_def by (metis (no_types))
        then show ?thesis by auto
      qed (use that r(3-5) nn(1) idle in \<open>auto simp: cur_def\<close>)
      then show ?thesis using r at dom4 nn(3) by (auto simp: waiting_def thread_at_def)
    qed
    ultimately show ?thesis using r by (auto simp: wait_list_def cur_of_def)
  qed
  show ?thesis using h(1) take blk by (intro exI [of _ h] exI [of _ s2]) (simp add: InsertTail_def s2_def)
qed

section \<open>The mutex as a queue lock\<close>

text \<open>
  Abstractly a mutex is its holder, the number of times the holder has acquired it and the queue of the
  threads that wait for it. The invariant ties this to the state between two operations.
\<close>

definition mutex_inv :: "SYS \<Rightarrow> ptr list \<Rightarrow> ptr \<Rightarrow> ptr \<Rightarrow> BYTE \<Rightarrow> ptr list \<Rightarrow> bool" where
  "mutex_inv s q M holder depth ws = (M \<noteq> NULL \<and> wait_list s q (MutexWaitingList M) ws \<and> (holder = NULL \<longrightarrow> ws = [])
     \<and> (\<exists>E. mutexes s M = Some E \<and> MutexLock E = FREE \<and> MutexHolder E = holder \<and> (holder \<noteq> NULL \<longrightarrow> MutexRecursivityDepth E = depth)))"

lemma sched_inv_cong:
  "sched_inv m s q \<Longrightarrow> threads s = threads s' \<Longrightarrow> pcpus s = pcpus s' \<Longrightarrow> entries s = entries s' \<Longrightarrow> ReadyThreadsLock s = ReadyThreadsLock s'
   \<Longrightarrow> ReadyThreadsList s = ReadyThreadsList s' \<Longrightarrow> LockOps s = LockOps s' \<Longrightarrow> resume s = resume s' \<Longrightarrow> sched_inv m s' q"
  unfolding sched_inv_def cpu_inv_def resumable_def thread_at_def by simp

lemma wait_list_cong:
  "wait_list s q head ws \<Longrightarrow> threads s = threads s' \<Longrightarrow> pcpus s = pcpus s' \<Longrightarrow> entries s = entries s'
   \<Longrightarrow> ReadyThreadsList s = ReadyThreadsList s' \<Longrightarrow> resume s = resume s' \<Longrightarrow> wait_list s' q head ws"
  unfolding wait_list_def waiting_def wait_head_def thread_at_def by simp

lemma sched_inv_objects: "sched_inv m (s\<lparr>mutexes := mx\<rparr>) q \<longleftrightarrow> sched_inv m s q" "sched_inv m (s\<lparr>events := ev\<rparr>) q \<longleftrightarrow> sched_inv m s q"
  by (auto elim: sched_inv_cong)

lemma wait_list_objects: "wait_list (s\<lparr>mutexes := mx\<rparr>) q head ws \<longleftrightarrow> wait_list s q head ws"
  "wait_list (s\<lparr>events := ev\<rparr>) q head ws \<longleftrightarrow> wait_list s q head ws"
  by (auto elim: wait_list_cong)

text \<open>A processor that runs the thread \<open>cur\<close>, which is not its idle thread.\<close>

definition runs :: "SYS \<Rightarrow> CPU \<Rightarrow> PCPU \<Rightarrow> THREAD \<Rightarrow> ptr \<Rightarrow> bool" where
  "runs s cpu C T cur = (pcpus s (CpuSelf cpu) = Some C \<and> CurrentThread C = cur \<and> threads s cur = Some T \<and> BlockLock T = FREE \<and> cur \<noteq> IdleThread C)"

lemma runs_current:
  assumes "sched_inv m s q" and "runs s cpu C T cur"
  shows "GetCurrentThread cpu s = Some cur" "cur \<noteq> NULL" "CpuSelf cpu \<noteq> NULL"
  using sched_inv_dest(4) [OF assms(1), of "CpuSelf cpu" C] assms(2) by (auto simp: runs_def cpu_inv_def thread_at_def GetCurrentThread_def)

lemma MutexAcquire_free:
  assumes inv: "sched_inv m s q" and r: "runs s cpu C T cur" and mi: "mutex_inv s q M NULL d []"
  shows "\<exists>s'. MutexAcquire cpu sz M s = Some (True, cpu, s') \<and> sched_inv m s' q \<and> mutex_inv s' q M cur 1 []
    \<and> cur_of s' (CpuSelf cpu) = Some cur"
proof -
  note c = runs_current [OF inv r]
  have ops: "LockOps s = LockSystemInit m" using inv by (simp add: sched_inv_def)
  obtain E where E: "mutexes s M = Some E" "MutexLock E = FREE" "MutexHolder E = NULL" "M \<noteq> NULL" "wait_list s q (MutexWaitingList M) []"
    using mi by (auto simp: mutex_inv_def)
  let ?s = "s\<lparr>mutexes := (mutexes s)(M \<mapsto> E\<lparr>MutexHolder := cur, MutexRecursivityDepth := 1\<rparr>)\<rparr>"
  have e: "E\<lparr>MutexHolder := cur, MutexRecursivityDepth := 1, MutexLock := FREE\<rparr> = E\<lparr>MutexHolder := cur, MutexRecursivityDepth := 1\<rparr>"
    using E(2) by (cases E) simp
  have "MutexAcquire cpu sz M s = Some (True, cpu, ?s)"
    using c ops E r by (simp add: MutexAcquire_def MutexAcquire_pass_def kernel_simps runs_def e)
  then show ?thesis using inv E r by (auto simp: sched_inv_objects mutex_inv_def wait_list_objects cur_of_def runs_def)
qed

lemma MutexAcquire_busy:
  assumes inv: "sched_inv m s q" and r: "runs s cpu C T cur" and f: "Flags T \<noteq> THREAD_FLAG_FORCE_TERMINATE_PENDING"
    and mi: "mutex_inv s q M holder d ws" and h: "holder \<noteq> NULL" "holder \<noteq> cur"
  shows "\<exists>cpu' s'. MutexAcquire cpu sz M s = Some (False, cpu', s') \<and> sched_inv m s' (tl q) \<and> mutex_inv s' (tl q) M holder d (ws @ [cur])
    \<and> cur_of s' (CpuSelf cpu) = Some (next_thread (IdleThread C) q) \<and> CpuSelf cpu' = CpuSelf cpu"
proof -
  note c = runs_current [OF inv r]
  have ops: "LockOps s = LockSystemInit m" using inv by (simp add: sched_inv_def)
  obtain E where E: "mutexes s M = Some E" "MutexLock E = FREE" "MutexHolder E = holder" "MutexRecursivityDepth E = d" "M \<noteq> NULL"
    "wait_list s q (MutexWaitingList M) ws" using mi h by (auto simp: mutex_inv_def)
  let ?cpu = "cpu\<lparr>CpuIntr := INTR_OFF\<rparr>"
  let ?s = "s\<lparr>mutexes := (mutexes s)(M \<mapsto> E\<lparr>MutexLock := HELD (CpuSelf cpu) (CallSite s)\<rparr>)\<rparr>"
  have inv1: "sched_inv m ?s q" and wl: "wait_list ?s q (MutexWaitingList M) ws" and C: "pcpus ?s (CpuSelf ?cpu) = Some C"
    and T: "threads ?s (CurrentThread C) = Some T" "BlockLock T = FREE" "CurrentThread C \<noteq> IdleThread C" "CurrentThread C = cur"
    using inv E(6) r by (simp_all add: sched_inv_objects wait_list_objects runs_def)
  have e: "E\<lparr>MutexLock := FREE\<rparr> = E" using E(2) by (cases E) simp
  from push_block [OF inv1 C T(1,2) f _ T(3) wl, of sz] obtain h s2 s4
    where p: "InsertTail (MutexWaitingList M) (ReadyList cur) ?s = Some (?s\<lparr>entries := h\<rparr>)" "ThreadTakeBlockLock ?cpu (?s\<lparr>entries := h\<rparr>) = Some (?cpu, s2)"
      "mutexes s2 = mutexes ?s" "events s2 = events s" "LockOps s2 = LockOps s"
      "ThreadBlock ?cpu sz (s2\<lparr>mutexes := (mutexes s2)(M \<mapsto> E\<lparr>MutexLock := FREE\<rparr>), events := events s2\<rparr>)
         = Some (?cpu\<lparr>CpuIntr := resume_intr (resume s (next_thread (IdleThread C) q))\<rparr>, s4)"
      "sched_inv m s4 (tl q)" "wait_list s4 (tl q) (MutexWaitingList M) (ws @ [cur])" "cur_of s4 (CpuSelf cpu) = Some (next_thread (IdleThread C) q)"
      "mutexes s4 = (mutexes s2)(M \<mapsto> E\<lparr>MutexLock := FREE\<rparr>)"
    using T(4) by simp blast
  have s2: "s2\<lparr>mutexes := x, events := events s2\<rparr> = s2\<lparr>mutexes := x\<rparr>" for x by (cases s2) simp
  have "MutexAcquire cpu sz M s = Some (False, cpu\<lparr>CpuIntr := resume_intr (resume s (next_thread (IdleThread C) q))\<rparr>, s4)"
    using c ops E h p(1-3,5) p(6) [unfolded s2] r
    by (simp add: MutexAcquire_def MutexAcquire_pass_def kernel_simps runs_def)
  then show ?thesis using p(7-10) E h by (auto simp: mutex_inv_def e)
qed

lemma MutexAcquire_recursive:
  assumes inv: "sched_inv m s q" and r: "runs s cpu C T cur" and mi: "mutex_inv s q M cur d ws"
    and E: "mutexes s M = Some E" and d: "d < MutexMaxRecursivityDepth E"
  shows "\<exists>s'. MutexAcquire cpu sz M s = Some (True, cpu, s') \<and> sched_inv m s' q \<and> mutex_inv s' q M cur (d + 1) ws
    \<and> cur_of s' (CpuSelf cpu) = Some cur"
proof -
  note c = runs_current [OF inv r]
  have E': "MutexLock E = FREE" "MutexHolder E = cur" "MutexRecursivityDepth E = d" "M \<noteq> NULL" "wait_list s q (MutexWaitingList M) ws"
    using mi E c(2) by (auto simp: mutex_inv_def)
  then have "MutexAcquire cpu sz M s = Some (True, cpu, s\<lparr>mutexes := (mutexes s)(M \<mapsto> E\<lparr>MutexRecursivityDepth := d + 1\<rparr>)\<rparr>)"
    using c E d by (simp add: MutexAcquire_def upd_mutex_def)
  then show ?thesis using inv E' r c(2) by (auto simp: sched_inv_objects mutex_inv_def wait_list_objects cur_of_def runs_def)
qed

lemma MutexRelease_nested:
  assumes inv: "sched_inv m s q" and r: "runs s cpu C T cur" and mi: "mutex_inv s q M cur d ws" and d: "1 < d"
  shows "\<exists>s'. MutexRelease cpu M s = Some (cpu, s') \<and> sched_inv m s' q \<and> mutex_inv s' q M cur (d - 1) ws"
proof -
  note c = runs_current [OF inv r]
  obtain E where E: "mutexes s M = Some E" "MutexLock E = FREE" "MutexHolder E = cur" "MutexRecursivityDepth E = d" "M \<noteq> NULL"
    "wait_list s q (MutexWaitingList M) ws" using mi c(2) by (auto simp: mutex_inv_def)
  then have "MutexRelease cpu M s = Some (cpu, s\<lparr>mutexes := (mutexes s)(M \<mapsto> E\<lparr>MutexRecursivityDepth := d - 1\<rparr>)\<rparr>)"
    using c d by (simp add: MutexRelease_def upd_mutex_def)
  then show ?thesis using inv E c(2) by (auto simp: sched_inv_objects mutex_inv_def wait_list_objects)
qed

lemma MutexRelease_empty:
  assumes inv: "sched_inv m s q" and r: "runs s cpu C T cur" and mi: "mutex_inv s q M cur d []" and d: "\<not> 1 < d"
  shows "\<exists>s'. MutexRelease cpu M s = Some (cpu, s') \<and> sched_inv m s' q \<and> mutex_inv s' q M NULL 0 []"
proof -
  note c = runs_current [OF inv r]
  have ops: "LockOps s = LockSystemInit m" using inv by (simp add: sched_inv_def)
  obtain E where E: "mutexes s M = Some E" "MutexLock E = FREE" "MutexHolder E = cur" "MutexRecursivityDepth E = d" "M \<noteq> NULL"
    "wait_list s q (MutexWaitingList M) []" using mi c(2) by (auto simp: mutex_inv_def)
  have e: "E\<lparr>MutexHolder := NULL, MutexLock := FREE\<rparr> = E\<lparr>MutexHolder := NULL\<rparr>" using E(2) by (cases E) simp
  have "is_list (entries (s\<lparr>mutexes := x\<rparr>)) (MutexWaitingList M) []" for x using E(6) by (simp add: wait_list_def)
  then have "MutexRelease cpu M s = Some (cpu, s\<lparr>mutexes := (mutexes s)(M \<mapsto> E\<lparr>MutexHolder := NULL\<rparr>)\<rparr>)"
    using c d ops E r by (simp add: MutexRelease_def kernel_simps RemoveHead_empty e runs_def)
  then show ?thesis using inv E by (auto simp: sched_inv_objects mutex_inv_def wait_list_objects)
qed

lemma MutexRelease_handoff:
  assumes inv: "sched_inv m s q" and r: "runs s cpu C T cur" and mi: "mutex_inv s q M cur d (w # ws)" and d: "\<not> 1 < d"
  shows "\<exists>s'. MutexRelease cpu M s = Some (cpu, s') \<and> sched_inv m s' (q @ [w]) \<and> mutex_inv s' (q @ [w]) M w 1 ws
    \<and> pcpus s' = pcpus s \<and> resume s' = resume s"
proof -
  note c = runs_current [OF inv r]
  have ops: "LockOps s = LockSystemInit m" using inv by (simp add: sched_inv_def)
  obtain E where E: "mutexes s M = Some E" "MutexLock E = FREE" "MutexHolder E = cur" "MutexRecursivityDepth E = d" "M \<noteq> NULL"
    "wait_list s q (MutexWaitingList M) (w # ws)" using mi c(2) by (auto simp: mutex_inv_def)
  let ?E = "E\<lparr>MutexLock := HELD (CpuSelf cpu) (CallSite s), MutexHolder := w, MutexRecursivityDepth := 1\<rparr>"
  let ?cpu = "cpu\<lparr>CpuIntr := INTR_OFF\<rparr>"
  let ?t = "s\<lparr>mutexes := (mutexes s)(M \<mapsto> ?E)\<rparr>"
  have "sched_inv m ?t q" "wait_list ?t q (MutexWaitingList M) (w # ws)" "CpuSelf ?cpu \<noteq> NULL"
    using inv E c by (simp_all add: sched_inv_objects wait_list_objects)
  from pop_unblock [OF this] obtain h h' W
    where u: "RemoveHead (MutexWaitingList M) ?t = Some (ReadyList w, ?t\<lparr>entries := h\<rparr>)"
      "ThreadUnblock ?cpu w (?t\<lparr>entries := h\<rparr>) = Some (?cpu, ?t\<lparr>entries := h', threads := (threads s)(w \<mapsto> W\<lparr>TState := ThreadStateReady\<rparr>)\<rparr>)"
      "sched_inv m (?t\<lparr>entries := h', threads := (threads s)(w \<mapsto> W\<lparr>TState := ThreadStateReady\<rparr>)\<rparr>) (q @ [w])"
      "wait_list (?t\<lparr>entries := h', threads := (threads s)(w \<mapsto> W\<lparr>TState := ThreadStateReady\<rparr>)\<rparr>) (q @ [w]) (MutexWaitingList M) ws"
    by auto
  have rh: "RemoveHead (MutexWaitingList M) (s\<lparr>mutexes := x\<rparr>) = Some (ReadyList w, s\<lparr>mutexes := x, entries := h\<rparr>)" for x
    using u(1) by (cases s) (auto simp: RemoveHead_def split: bind_splits)
  have "ReadyList w \<noteq> MutexWaitingList M" using E(6) by (auto simp: wait_list_def is_list_def)
  moreover have com: "s\<lparr>mutexes := x, entries := h\<rparr> = s\<lparr>entries := h, mutexes := x\<rparr>" for x by (cases s) simp
  ultimately have "MutexRelease cpu M s = Some (cpu, ?t\<lparr>entries := h', threads := (threads s)(w \<mapsto> W\<lparr>TState := ThreadStateReady\<rparr>),
       mutexes := (mutexes s)(M \<mapsto> ?E\<lparr>MutexLock := FREE\<rparr>)\<rparr>)"
    using c d ops E r u(2) [unfolded com] by (simp add: MutexRelease_def kernel_simps rh [unfolded com] runs_def com)
  moreover have "w \<noteq> NULL" using E(6) by (auto simp: wait_list_def waiting_def thread_at_def)
  moreover have "sched_inv m (s\<lparr>entries := h', threads := (threads s)(w \<mapsto> W\<lparr>TState := ThreadStateReady\<rparr>)\<rparr>) (q @ [w])"
    by (rule sched_inv_cong [OF u(3)]) simp_all
  moreover have "wait_list (s\<lparr>entries := h', threads := (threads s)(w \<mapsto> W\<lparr>TState := ThreadStateReady\<rparr>)\<rparr>) (q @ [w]) (MutexWaitingList M) ws"
    by (rule wait_list_cong [OF u(4)]) simp_all
  ultimately show ?thesis using E by (auto simp: sched_inv_objects mutex_inv_def wait_list_objects)
qed

section \<open>Signalling an event\<close>

definition signal_wakes :: "EX_EVT_TYPE \<Rightarrow> ptr list \<Rightarrow> ptr list" where
  "signal_wakes ty ws = (if ty = ExEventTypeSynchronization then take 1 ws else ws)"

definition event_inv :: "SYS \<Rightarrow> ptr list \<Rightarrow> ptr \<Rightarrow> EX_EVT_TYPE \<Rightarrow> BYTE \<Rightarrow> ptr list \<Rightarrow> bool" where
  "event_inv s q e ty sg ws = (e \<noteq> NULL \<and> wait_list s q (EventWaitingList e) ws \<and> events s e = Some \<lparr>EventLock = FREE, ExEvtType = ty, Signaled = sg\<rparr>)"

text \<open>A signal only moves threads from the list of the event to the ready queue.\<close>

definition only_wakes :: "SYS \<Rightarrow> SYS \<Rightarrow> bool" where
  "only_wakes s s' = (pcpus s' = pcpus s \<and> resume s' = resume s \<and> mutexes s' = mutexes s \<and> processes s' = processes s \<and> LockOps s' = LockOps s
     \<and> CallSite s' = CallSite s \<and> ReadyThreadsList s' = ReadyThreadsList s \<and> AllThreadsLock s' = AllThreadsLock s
     \<and> dom (threads s') = dom (threads s) \<and> dom (entries s') = dom (entries s))"

lemma only_wakes_refl: "only_wakes s s" by (simp add: only_wakes_def)

lemma only_wakes_trans: "only_wakes s s' \<Longrightarrow> only_wakes s' s'' \<Longrightarrow> only_wakes s s''" by (simp add: only_wakes_def)

lemma ExEventSignal_loop_ok:
  assumes "sched_inv m s q" and "wait_list s q (EventWaitingList e) ws" and "events s e = Some E" and "CpuSelf cpu \<noteq> NULL"
  shows "\<exists>s'. ExEventSignal_loop cpu e s = Some (cpu, s') \<and> sched_inv m s' (q @ signal_wakes (ExEvtType E) ws)
    \<and> wait_list s' (q @ signal_wakes (ExEvtType E) ws) (EventWaitingList e) (drop (length (signal_wakes (ExEvtType E) ws)) ws)
    \<and> events s' = events s \<and> only_wakes s s'
    \<and> (\<forall>t. t \<notin> set ws \<longrightarrow> threads s' t = threads s t)
    \<and> only_changes (set (ReadyThreadsList s # EventWaitingList e # map ReadyList (ws @ q))) (entries s) (entries s')"
  using assms
proof (induction ws arbitrary: s q)
  case Nil
  then have "is_list (entries s) (EventWaitingList e) []" by (simp add: wait_list_def)
  then show ?case using Nil by (subst ExEventSignal_loop.simps) (simp add: RemoveHead_empty signal_wakes_def only_wakes_refl only_changes_def)
next
  case (Cons w ws)
  obtain h h' W where p: "RemoveHead (EventWaitingList e) s = Some (ReadyList w, s\<lparr>entries := h\<rparr>)" "threads s w = Some W"
    "ThreadUnblock cpu w (s\<lparr>entries := h\<rparr>) = Some (cpu, s\<lparr>entries := h', threads := (threads s)(w \<mapsto> W\<lparr>TState := ThreadStateReady\<rparr>)\<rparr>)"
    "sched_inv m (s\<lparr>entries := h', threads := (threads s)(w \<mapsto> W\<lparr>TState := ThreadStateReady\<rparr>)\<rparr>) (q @ [w])"
    "wait_list (s\<lparr>entries := h', threads := (threads s)(w \<mapsto> W\<lparr>TState := ThreadStateReady\<rparr>)\<rparr>) (q @ [w]) (EventWaitingList e) ws"
    "only_changes (set (ReadyThreadsList s # EventWaitingList e # map ReadyList (w # ws @ q))) (entries s) h'"
    using pop_unblock [OF Cons.prems(1,2,4)] by blast
  let ?s = "s\<lparr>entries := h', threads := (threads s)(w \<mapsto> W\<lparr>TState := ThreadStateReady\<rparr>)\<rparr>"
  have ne: "ReadyList w \<noteq> EventWaitingList e" using Cons.prems(2) by (auto simp: wait_list_def is_list_def)
  have ow: "only_wakes s ?s" using p(2,6) by (auto simp: only_wakes_def only_changes_def)
  have step: "ExEventSignal_loop cpu e s = (if ExEvtType E = ExEventTypeSynchronization then Some (cpu, ?s) else ExEventSignal_loop cpu e ?s)"
    using p(1,3) ne Cons.prems(3) by (subst ExEventSignal_loop.simps) simp
  show ?case
  proof (cases "ExEvtType E = ExEventTypeSynchronization")
    case True
    then show ?thesis using step p(4-6) ow by (auto simp: signal_wakes_def)
  next
    case False
    from Cons.IH [OF p(4,5) _ Cons.prems(4)] Cons.prems(3) obtain s'
      where "ExEventSignal_loop cpu e ?s = Some (cpu, s')" "sched_inv m s' (q @ w # ws)" "wait_list s' (q @ w # ws) (EventWaitingList e) []"
        "events s' = events s" "only_wakes ?s s'" "\<forall>t. t \<notin> set ws \<longrightarrow> threads s' t = threads ?s t"
        "only_changes (set (ReadyThreadsList s # EventWaitingList e # map ReadyList (ws @ q @ [w]))) h' (entries s')"
      using False by (auto simp: signal_wakes_def)
    moreover have "only_changes (set (ReadyThreadsList s # EventWaitingList e # map ReadyList (w # ws @ q))) (entries s) (entries s')"
      by (rule only_changes_mono [OF only_changes_trans [OF p(6) calculation(7)]]) auto
    ultimately show ?thesis using False step only_wakes_trans [OF ow] by (auto simp: signal_wakes_def)
  qed
qed

lemma ExEventSignal_ok:
  assumes inv: "sched_inv m s q" and ei: "event_inv s q e ty sg ws" and cpu: "CpuSelf cpu \<noteq> NULL"
  defines "q' \<equiv> q @ signal_wakes ty ws"
  shows "\<exists>s'. ExEventSignal cpu e s = Some (cpu, s') \<and> sched_inv m s' q' \<and> event_inv s' q' e ty 1 (drop (length (signal_wakes ty ws)) ws)
    \<and> only_wakes s s' \<and> (\<forall>t. t \<notin> set ws \<longrightarrow> threads s' t = threads s t) \<and> (\<forall>d. d \<noteq> e \<longrightarrow> events s' d = events s d)
    \<and> only_changes (set (ReadyThreadsList s # EventWaitingList e # map ReadyList (ws @ q))) (entries s) (entries s')"
proof -
  have ops: "LockOps s = LockSystemInit m" using inv by (simp add: sched_inv_def)
  let ?E = "\<lparr>EventLock = HELD (CpuSelf cpu) (CallSite s), ExEvtType = ty, Signaled = 1\<rparr>" and ?cpu = "cpu\<lparr>CpuIntr := INTR_OFF\<rparr>"
  let ?s = "s\<lparr>events := (events s)(e \<mapsto> ?E)\<rparr>"
  have "sched_inv m ?s q" "wait_list ?s q (EventWaitingList e) ws" "events ?s e = Some ?E" "CpuSelf ?cpu \<noteq> NULL"
    using inv ei cpu by (simp_all add: sched_inv_objects wait_list_objects event_inv_def)
  from ExEventSignal_loop_ok [OF this] obtain s' where l: "ExEventSignal_loop ?cpu e ?s = Some (?cpu, s')" "sched_inv m s' q'"
    "wait_list s' q' (EventWaitingList e) (drop (length (signal_wakes ty ws)) ws)" "events s' = events ?s" "only_wakes ?s s'"
    "\<forall>t. t \<notin> set ws \<longrightarrow> threads s' t = threads s t"
    "only_changes (set (ReadyThreadsList s # EventWaitingList e # map ReadyList (ws @ q))) (entries s) (entries s')" by (auto simp: q'_def)
  have "LockOps s' = LockSystemInit m" using l(5) ops by (simp add: only_wakes_def)
  then have "ExEventSignal cpu e s = Some (cpu, s'\<lparr>events := (events s)(e \<mapsto> \<lparr>EventLock = FREE, ExEvtType = ty, Signaled = 1\<rparr>)\<rparr>)"
    using ei ops cpu l(1,4) by (simp add: ExEventSignal_def kernel_simps event_inv_def)
  then show ?thesis using l ei by (auto simp: event_inv_def sched_inv_objects wait_list_objects only_wakes_def)
qed

lemma ExEventWait_signaled:
  assumes inv: "sched_inv m s q" and r: "runs s cpu C T cur" and ei: "event_inv s q e ty 1 ws"
  shows "\<exists>s'. ExEventWaitForSignal cpu sz e s = Some (True, cpu, s') \<and> sched_inv m s' q
    \<and> event_inv s' q e ty (if ty = ExEventTypeNotification then 1 else 0) ws \<and> cur_of s' (CpuSelf cpu) = Some cur"
proof -
  note c = runs_current [OF inv r]
  have "GetCurrentThread (cpu\<lparr>CpuIntr := INTR_OFF\<rparr>) s = Some cur" using c(1) by (simp add: GetCurrentThread_def)
  then have "ExEventWaitForSignal cpu sz e s = Some (True, cpu, s\<lparr>events := (events s)
       (e \<mapsto> \<lparr>EventLock = FREE, ExEvtType = ty, Signaled = if ty = ExEventTypeNotification then 1 else 0\<rparr>)\<rparr>)"
    using c ei by (auto simp: ExEventWaitForSignal_def ExEventWait_pass_def event_inv_def upd_evt_def CpuIntrDisable_def CpuIntrSetState_def)
  then show ?thesis using inv ei r by (auto simp: sched_inv_objects event_inv_def wait_list_objects cur_of_def runs_def)
qed

lemma ExEventWait_blocks:
  assumes inv: "sched_inv m s q" and r: "runs s cpu C T cur" and f: "Flags T \<noteq> THREAD_FLAG_FORCE_TERMINATE_PENDING"
    and ei: "event_inv s q e ty sg ws" and sg: "sg \<noteq> 1"
  shows "\<exists>cpu' s'. ExEventWaitForSignal cpu sz e s = Some (False, cpu', s') \<and> sched_inv m s' (tl q) \<and> event_inv s' (tl q) e ty sg (ws @ [cur])
    \<and> cur_of s' (CpuSelf cpu) = Some (next_thread (IdleThread C) q)"
proof -
  note c = runs_current [OF inv r]
  have ops: "LockOps s = LockSystemInit m" using inv by (simp add: sched_inv_def)
  let ?cpu = "cpu\<lparr>CpuIntr := INTR_OFF\<rparr>" and ?E = "\<lambda>l. \<lparr>EventLock = l, ExEvtType = ty, Signaled = sg\<rparr>"
  let ?s = "s\<lparr>events := (events s)(e \<mapsto> ?E (HELD (CpuSelf cpu) (CallSite s)))\<rparr>"
  have E: "events s e = Some (?E FREE)" "e \<noteq> NULL" "wait_list s q (EventWaitingList e) ws" using ei by (auto simp: event_inv_def)
  have inv1: "sched_inv m ?s q" and wl: "wait_list ?s q (EventWaitingList e) ws" and C: "pcpus ?s (CpuSelf ?cpu) = Some C"
    and T: "threads ?s (CurrentThread C) = Some T" "BlockLock T = FREE" "CurrentThread C \<noteq> IdleThread C" "CurrentThread C = cur"
    using inv E(3) r by (simp_all add: sched_inv_objects wait_list_objects runs_def)
  from push_block [OF inv1 C T(1,2) f _ T(3) wl, of sz] obtain h s2
    where p: "InsertTail (EventWaitingList e) (ReadyList cur) ?s = Some (?s\<lparr>entries := h\<rparr>)" "ThreadTakeBlockLock ?cpu (?s\<lparr>entries := h\<rparr>) = Some (?cpu, s2)"
      "events s2 = events ?s" "LockOps s2 = LockOps s"
    and all: "\<forall>mx ev. \<exists>s4. ThreadBlock ?cpu sz (s2\<lparr>mutexes := mx, events := ev\<rparr>)
         = Some (?cpu\<lparr>CpuIntr := resume_intr (resume s (next_thread (IdleThread C) q))\<rparr>, s4)
        \<and> sched_inv m s4 (tl q) \<and> wait_list s4 (tl q) (EventWaitingList e) (ws @ [cur])
        \<and> cur_of s4 (CpuSelf cpu) = Some (next_thread (IdleThread C) q) \<and> mutexes s4 = mx \<and> events s4 = ev \<and> resume s4 cur = AfterBlock"
    unfolding T(4) by auto
  from spec [OF spec [OF all, of "mutexes s2"], of "(events s2)(e \<mapsto> ?E FREE)"] obtain s4
    where b: "ThreadBlock ?cpu sz (s2\<lparr>mutexes := mutexes s2, events := (events s2)(e \<mapsto> ?E FREE)\<rparr>)
         = Some (?cpu\<lparr>CpuIntr := resume_intr (resume s (next_thread (IdleThread C) q))\<rparr>, s4)"
      "sched_inv m s4 (tl q)" "wait_list s4 (tl q) (EventWaitingList e) (ws @ [cur])" "cur_of s4 (CpuSelf cpu) = Some (next_thread (IdleThread C) q)"
      "events s4 = (events s2)(e \<mapsto> ?E FREE)" by blast
  have g: "GetCurrentThread ?cpu s = Some cur" using c(1) by (simp add: GetCurrentThread_def)
  have s2: "s2\<lparr>mutexes := mutexes s2, events := x\<rparr> = s2\<lparr>events := x\<rparr>" for x by (cases s2) simp
  have "ExEventWaitForSignal cpu sz e s = Some (False, cpu\<lparr>CpuIntr := resume_intr (resume s (next_thread (IdleThread C) q))\<rparr>, s4)"
    using c g ops E sg p b(1) [unfolded s2] r
    by (simp add: ExEventWaitForSignal_def ExEventWait_pass_def kernel_simps runs_def del: GetCurrentThread_def)
  then show ?thesis using b E by (auto simp: event_inv_def)
qed

text \<open>The abstract queue lock: holder, depth and waiting threads. \<open>None\<close> is a use that the assertions reject.\<close>

type_synonym qlock = "ptr \<times> BYTE \<times> ptr list"

fun qacquire :: "ptr \<Rightarrow> BYTE \<Rightarrow> qlock \<Rightarrow> (bool \<times> qlock) option" where
  "qacquire t mx (h, d, ws) =
     (if h = NULL then Some (True, t, 1, [])
      else if h = t then (if d < mx then Some (True, h, d + 1, ws) else None)
      else Some (False, h, d, ws @ [t]))"

fun qrelease :: "ptr \<Rightarrow> qlock \<Rightarrow> qlock option" where
  "qrelease t (h, d, ws) =
     (if h \<noteq> t then None else if 1 < d then Some (h, d - 1, ws)
      else case ws of [] \<Rightarrow> Some (NULL, 0, []) | w # ws' \<Rightarrow> Some (w, 1, ws'))"

definition woken :: "BYTE \<Rightarrow> ptr list \<Rightarrow> ptr list" where
  "woken d ws = (if 1 < d then [] else take 1 ws)"

section \<open>Properties\<close>

text \<open>
  C19: the mutex implements the abstract queue lock. Acquiring a free mutex takes it, the holder can
  acquire it again up to the depth of the mutex, and any other thread is put at the end of the queue and
  blocked, its processor running the next ready thread. Releasing hands the mutex to the first waiting
  thread, which becomes ready, and only the holder can release. Acquiring too often or releasing without
  holding halts. The invariants of the scheduler and the mutex are kept.
\<close>

theorem mutex_refines_queue_lock:
  assumes inv: "sched_inv m s q" and r: "runs s cpu C T cur" and f: "Flags T \<noteq> THREAD_FLAG_FORCE_TERMINATE_PENDING"
    and mi: "mutex_inv s q M h d ws" and E: "mutexes s M = Some E"
  shows "(case qacquire cur (MutexMaxRecursivityDepth E) (h, d, ws) of None \<Rightarrow> MutexAcquire cpu sz M s = None
      | Some (passed, h', d', ws') \<Rightarrow> \<exists>cpu' s' q'. MutexAcquire cpu sz M s = Some (passed, cpu', s') \<and> q' = (if passed then q else tl q)
          \<and> sched_inv m s' q' \<and> mutex_inv s' q' M h' d' ws'
          \<and> cur_of s' (CpuSelf cpu) = Some (if passed then cur else next_thread (IdleThread C) q))
    \<and> (case qrelease cur (h, d, ws) of None \<Rightarrow> MutexRelease cpu M s = None
      | Some (h', d', ws') \<Rightarrow> \<exists>s' q'. MutexRelease cpu M s = Some (cpu, s') \<and> q' = q @ woken d ws \<and> sched_inv m s' q' \<and> mutex_inv s' q' M h' d' ws')"
proof -
  note c = runs_current [OF inv r]
  have E': "MutexHolder E = h" "M \<noteq> NULL" "h = cur \<Longrightarrow> MutexRecursivityDepth E = d" using mi E c by (auto simp: mutex_inv_def)
  have acq: "case qacquire cur (MutexMaxRecursivityDepth E) (h, d, ws) of None \<Rightarrow> MutexAcquire cpu sz M s = None
      | Some (passed, h', d', ws') \<Rightarrow> \<exists>cpu' s' q'. MutexAcquire cpu sz M s = Some (passed, cpu', s') \<and> q' = (if passed then q else tl q)
          \<and> sched_inv m s' q' \<and> mutex_inv s' q' M h' d' ws'
          \<and> cur_of s' (CpuSelf cpu) = Some (if passed then cur else next_thread (IdleThread C) q)"
  proof (cases "h = NULL")
    case True
    then have "ws = []" using mi by (simp add: mutex_inv_def)
    then show ?thesis using True MutexAcquire_free [OF inv r, of M d sz] mi by auto
  next
    case False
    show ?thesis
    proof (cases "h = cur")
      case True
      then show ?thesis using False MutexAcquire_recursive [OF inv r, of M d ws E sz] mi E E' c
        by (cases "d < MutexMaxRecursivityDepth E") (auto simp: MutexAcquire_def)
    next
      case neq: False
      then show ?thesis using False MutexAcquire_busy [OF inv r f mi False neq, of sz] by auto
    qed
  qed
  have rel: "case qrelease cur (h, d, ws) of None \<Rightarrow> MutexRelease cpu M s = None
      | Some (h', d', ws') \<Rightarrow> \<exists>s' q'. MutexRelease cpu M s = Some (cpu, s') \<and> q' = q @ woken d ws \<and> sched_inv m s' q' \<and> mutex_inv s' q' M h' d' ws'"
  proof (cases "h = cur")
    case True
    then show ?thesis
      using mi MutexRelease_nested [OF inv r, of M d ws] MutexRelease_empty [OF inv r, of M d] MutexRelease_handoff [OF inv r, of M d]
      by (cases ws) (auto simp: woken_def)
  next
    case False
    then show ?thesis using E E' c by (simp add: MutexRelease_def)
  qed
  show ?thesis using acq rel by (rule conjI)
qed

lemma ex_runs: "runs ex_sys (ex_cpu 0x10) (ex_pcpu 0x1000 0x3000) (ex_thread 0x1000 ThreadStateRunning) 0x1000"
  by (simp add: runs_def ex_sys_def ex_cpu_def ex_pcpu_def ex_thread_def)

lemma ex_mutex_inv: "mutex_inv ex_sys [0x2000] 0x700 0x4000 1 []"
  by (auto simp: mutex_inv_def wait_list_def wait_head_def ex_sys_def MutexWaitingList_def ReadyList_def is_list_def link_def rd_Flink_def rd_Blink_def
      split: if_splits)

theorem mutex_refines_queue_lock_witness:
  "(\<exists>cpu' s'. MutexAcquire (ex_cpu 0x10) 0x400 0x700 ex_sys = Some (False, cpu', s') \<and> mutex_inv s' [] 0x700 0x4000 1 [0x1000])
   \<and> MutexRelease (ex_cpu 0x10) 0x700 ex_sys = None"
  using mutex_refines_queue_lock [OF ex_sys_inv ex_runs _ ex_mutex_inv, of _ "0x400"] by (auto simp: ex_thread_def ex_sys_def)

text \<open>
  C20: executive events. Waiting for a signaled event passes, and takes the signal of a synchronization
  event away; waiting for an event that is not signaled blocks the thread at the end of the list of the
  event, and the next ready thread runs. A signal moves all waiting threads (for a synchronization event
  the first one) to the end of the ready queue in their order and leaves the event signaled.
\<close>

theorem ex_event_spec:
  assumes "sched_inv m s q" and "runs s cpu C T cur" and "Flags T \<noteq> THREAD_FLAG_FORCE_TERMINATE_PENDING" and "event_inv s q e ty sg ws"
  shows "(\<exists>cpu' s' q'. ExEventWaitForSignal cpu sz e s = Some (sg = 1, cpu', s') \<and> q' = (if sg = 1 then q else tl q) \<and> sched_inv m s' q'
      \<and> (if sg = 1 then event_inv s' q' e ty (if ty = ExEventTypeNotification then 1 else 0) ws else event_inv s' q' e ty sg (ws @ [cur]))
      \<and> cur_of s' (CpuSelf cpu) = Some (if sg = 1 then cur else next_thread (IdleThread C) q))
    \<and> (\<exists>s' q'. ExEventSignal cpu e s = Some (cpu, s') \<and> q' = q @ signal_wakes ty ws \<and> sched_inv m s' q'
      \<and> event_inv s' q' e ty 1 (drop (length (signal_wakes ty ws)) ws))"
proof
  show "\<exists>cpu' s' q'. ExEventWaitForSignal cpu sz e s = Some (sg = 1, cpu', s') \<and> q' = (if sg = 1 then q else tl q) \<and> sched_inv m s' q'
      \<and> (if sg = 1 then event_inv s' q' e ty (if ty = ExEventTypeNotification then 1 else 0) ws else event_inv s' q' e ty sg (ws @ [cur]))
      \<and> cur_of s' (CpuSelf cpu) = Some (if sg = 1 then cur else next_thread (IdleThread C) q)"
    using ExEventWait_signaled [OF assms(1,2), of e ty ws sz] ExEventWait_blocks [OF assms(1-3), of e ty sg ws sz] assms(4)
    by (cases "sg = 1") auto
  show "\<exists>s' q'. ExEventSignal cpu e s = Some (cpu, s') \<and> q' = q @ signal_wakes ty ws \<and> sched_inv m s' q'
      \<and> event_inv s' q' e ty 1 (drop (length (signal_wakes ty ws)) ws)"
    using ExEventSignal_ok [OF assms(1,4) runs_current(3) [OF assms(1,2)]] by auto
qed

lemma ex_event_inv: "event_inv ex_sys [0x2000] 0x800 ExEventTypeSynchronization 0 []"
  by (auto simp: event_inv_def wait_list_def wait_head_def ex_sys_def EventWaitingList_def ReadyList_def is_list_def link_def rd_Flink_def rd_Blink_def
      split: if_splits)

theorem ex_event_spec_witness:
  "(\<exists>cpu' s'. ExEventWaitForSignal (ex_cpu 0x10) 0x400 0x800 ex_sys = Some (False, cpu', s')
      \<and> event_inv s' [] 0x800 ExEventTypeSynchronization 0 [0x1000])
   \<and> (\<exists>s'. ExEventSignal (ex_cpu 0x10) 0x800 ex_sys = Some (ex_cpu 0x10, s') \<and> event_inv s' [0x2000] 0x800 ExEventTypeSynchronization 1 [])"
  using ex_event_spec [OF ex_sys_inv ex_runs _ ex_event_inv, of "0x400"] by (auto simp: ex_thread_def signal_wakes_def)

end
