(* ===== verification/ThreadLife.thy ===== *)
theory ThreadLife
  imports ExSync
begin

text \<open>
  The life of a thread (\<open>HAL9000/src/thread.c\<close>): creation, the first stack frame, termination and
  destruction, with the selectors of \<open>gdtmu.c\<close> that the first frame uses and the termination of a whole
  process (\<open>process.c\<close>). The heap and the memory manager appear through their results: a record of the
  addresses they return, NULL where an allocation fails.
\<close>

section \<open>Creating threads\<close>

abbreviation STATUS_INVALID_PARAMETER5 :: STATUS where "STATUS_INVALID_PARAMETER5 \<equiv> 0xE8000015"
abbreviation STATUS_INVALID_PARAMETER6 :: STATUS where "STATUS_INVALID_PARAMETER6 \<equiv> 0xE8000016"
abbreviation STATUS_HEAP_INSUFFICIENT_RESOURCES :: STATUS where "STATUS_HEAP_INSUFFICIENT_RESOURCES \<equiv> 0xE0200004"
abbreviation STATUS_MEMORY_CANNOT_BE_COMMITED :: STATUS where "STATUS_MEMORY_CANNOT_BE_COMMITED \<equiv> 0xE010000B"
abbreviation ThreadPriorityDefault :: DWORD where "ThreadPriorityDefault \<equiv> 16"
abbreviation TID_INCREMENT :: QWORD where "TID_INCREMENT \<equiv> 4"
abbreviation STACK_DEFAULT_SIZE :: DWORD where "STACK_DEFAULT_SIZE \<equiv> 0x8000"
abbreviation SHADOW_STACK_SIZE :: QWORD where "SHADOW_STACK_SIZE \<equiv> 0x20"

text \<open>
  The addresses of the two functions that appear in the first frame, and the results of
  \<open>ExAllocatePoolWithTag\<close> for the thread and for its name and of \<open>MmuAllocStack\<close> for the kernel and the
  user stack.
\<close>

record CODE =
  ThreadStart_address :: ptr
  ThreadKernelFunction_address :: ptr

record ALLOCATIONS =
  NewThread :: ptr
  NewName :: bool
  NewStack :: ptr
  NewUserStack :: ptr

definition zero_entry :: LIST_ENTRY where "zero_entry = \<lparr>Flink = NULL, Blink = NULL\<rparr>"

definition zero_LOCK :: LOCK where "zero_LOCK = \<lparr>State = 0, Holder = NULL, FunctionWhichTookLock = NULL\<rparr>"

definition zero_THREAD :: THREAD where
  "zero_THREAD = \<lparr>RefCnt = 0, Self = NULL, Id = 0, Name = None, Priority = 0, TState = ThreadStateRunning, ExitStatus = 0, Flags = 0,
     BlockLock = zero_LOCK, TickCountCompleted = 0, UninterruptedTicks = 0, TickCountEarly = 0, InitialStackBase = NULL, StackSize = 0,
     Stack = NULL, UserStack = NULL, Process = NULL\<rparr>"

text \<open>The zeroed memory of a new thread at \<open>p\<close>; a thread that was not switched to yet starts in \<open>ThreadStart\<close>.\<close>

definition AllocThread :: "ptr \<Rightarrow> SYS \<Rightarrow> SYS" where
  "AllocThread p s = s\<lparr>threads := (threads s)(p \<mapsto> zero_THREAD),
     events := (events s)(TerminationEvt p \<mapsto> \<lparr>EventLock = zero_LOCK, ExEvtType = ExEventTypeNotification, Signaled = 0\<rparr>),
     entries := (entries s)(EventWaitingList (TerminationEvt p) \<mapsto> zero_entry, AllList p \<mapsto> zero_entry, ReadyList p \<mapsto> zero_entry,
       ProcessList p \<mapsto> zero_entry), resume := (resume s)(p := Fresh)\<rparr>"

definition ThreadSystemGetNextTid :: "SYS \<Rightarrow> QWORD \<times> SYS" where
  "ThreadSystemGetNextTid s = (CurrentTid s, s\<lparr>CurrentTid := CurrentTid s + TID_INCREMENT\<rparr>)"

text \<open>The failure path of \<open>_ThreadInit\<close> behind the allocation of the thread.\<close>

definition ThreadInit_fail :: "CPU \<Rightarrow> ptr \<Rightarrow> STATUS \<Rightarrow> SYS \<Rightarrow> (STATUS \<times> ptr \<times> CPU \<times> SYS) option" where
  "ThreadInit_fail cpu pThread status s = do {
     (cpu, s) \<leftarrow> ThreadDereference cpu pThread s;
     Some (status, NULL, cpu, s)
   }"

definition ThreadInit :: "CPU \<Rightarrow> ALLOCATIONS \<Rightarrow> string \<Rightarrow> DWORD \<Rightarrow> bool \<Rightarrow> SYS \<Rightarrow> (STATUS \<times> ptr \<times> CPU \<times> SYS) option" where
  "ThreadInit cpu a Name0 Priority0 AllocateKernelStack s = do {
     ASSERT (ThreadPriorityLowest \<le> Priority0 \<and> Priority0 \<le> ThreadPriorityMaximum);
     let pThread = NewThread a;
     if NULL = pThread then Some (STATUS_HEAP_INSUFFICIENT_RESOURCES, NULL, cpu, s)
     else do {
       let s = AllocThread pThread s;
       s \<leftarrow> upd_thr pThread (\<lambda>t. t\<lparr>RefCnt := 1\<rparr>) s;
       s \<leftarrow> upd_thr pThread (\<lambda>t. t\<lparr>Self := pThread\<rparr>) s;
       (status, s) \<leftarrow> ExEventInit (TerminationEvt pThread) ExEventTypeNotification False s;
       if \<not> SUCCEEDED status then ThreadInit_fail cpu pThread status s
       else if AllocateKernelStack \<and> NULL = NewStack a then ThreadInit_fail cpu pThread STATUS_MEMORY_CANNOT_BE_COMMITED s
       else do {
         s \<leftarrow> (if AllocateKernelStack
               then upd_thr pThread (\<lambda>t. t\<lparr>Stack := NewStack a, InitialStackBase := NewStack a, StackSize := STACK_DEFAULT_SIZE\<rparr>) s
               else Some s);
         if \<not> NewName a then ThreadInit_fail cpu pThread STATUS_HEAP_INSUFFICIENT_RESOURCES s
         else do {
           s \<leftarrow> upd_thr pThread (\<lambda>t. t\<lparr>Name := Some Name0\<rparr>) s;
           let (tid, s) = ThreadSystemGetNextTid s;
           s \<leftarrow> upd_thr pThread (\<lambda>t. t\<lparr>Id := tid, TState := ThreadStateBlocked, Priority := Priority0\<rparr>) s;
           s \<leftarrow> upd_thr pThread (\<lambda>t. t\<lparr>BlockLock := LockInit (LockOps s) (BlockLock t)\<rparr>) s;
           (oldIntrState, cpu, s) \<leftarrow> AcquireAll cpu s;
           s \<leftarrow> InsertTail (AllThreadsList s) (AllList pThread) s;
           (cpu, s) \<leftarrow> ReleaseAll cpu s oldIntrState;
           Some (status, pThread, cpu, s)
         }
       }
     }
   }"

section \<open>The first stack frame\<close>

datatype SEL_OP_MODE = SelOpMode32 | SelOpMode64 | SelOpMode16
datatype SEL_PRIV = SelPrivillegeSupervisor | SelPrivillegeUsermode
datatype SEL_TYPE = SelTypeCode | SelTypeData

primrec op_mode :: "SEL_OP_MODE \<Rightarrow> WORD" where "op_mode SelOpMode32 = 0" | "op_mode SelOpMode64 = 1" | "op_mode SelOpMode16 = 2"
primrec priv :: "SEL_PRIV \<Rightarrow> WORD" where "priv SelPrivillegeSupervisor = 0" | "priv SelPrivillegeUsermode = 1"
primrec sel_type :: "SEL_TYPE \<Rightarrow> WORD" where "sel_type SelTypeCode = 0" | "sel_type SelTypeData = 1"

definition GdtMuRetrieveSelectorIndex :: "SEL_PRIV \<Rightarrow> SEL_OP_MODE \<Rightarrow> SEL_TYPE \<Rightarrow> WORD" where
  "GdtMuRetrieveSelectorIndex Privillege Mode Type = 8 + (priv Privillege * 3 * 2 + op_mode Mode * 2 + sel_type Type) * 8"

abbreviation RFLAGS_RESERVED_BIT :: QWORD where "RFLAGS_RESERVED_BIT \<equiv> 0x2"
abbreviation RFLAGS_INTERRUPT_FLAG_BIT :: QWORD where "RFLAGS_INTERRUPT_FLAG_BIT \<equiv> 0x200"
abbreviation RING_THREE_PL :: WORD where "RING_THREE_PL \<equiv> 3"

text \<open>
  COMPLETE\_PROCESSOR\_STATE: \<^verbatim>\<open>0x400\<close> bytes of extended state and 18 quadwords of registers, RCX and RDX at
  index 1 and 2. INTERRUPT\_STACK is five quadwords.
\<close>

abbreviation COMPLETE_PROCESSOR_STATE_size :: QWORD where "COMPLETE_PROCESSOR_STATE_size \<equiv> 0x490"
abbreviation REGISTER_AREA_offset :: QWORD where "REGISTER_AREA_offset \<equiv> 0x400"
abbreviation INTERRUPT_STACK_size :: QWORD where "INTERRUPT_STACK_size \<equiv> 40"

text \<open>\<open>memzero\<close> on \<open>n\<close> quadwords.\<close>

definition zero_qwords :: "ptr \<Rightarrow> nat \<Rightarrow> (ptr \<Rightarrow> QWORD) \<Rightarrow> ptr \<Rightarrow> QWORD" where
  "zero_qwords p n mem = fold (\<lambda>i mem. mem(p + 8 * of_nat i := 0)) [0..<n] mem"

definition ThreadSetupInitialState :: "CODE \<Rightarrow> ptr \<Rightarrow> ptr \<Rightarrow> QWORD \<Rightarrow> QWORD \<Rightarrow> bool \<Rightarrow> SYS \<Rightarrow> (STATUS \<times> SYS) option" where
  "ThreadSetupInitialState code Thread StartFunction FirstArgument SecondArgument KernelStack s = do {
     ASSERT (NULL \<noteq> Thread);
     ASSERT (NULL \<noteq> StartFunction);
     t \<leftarrow> threads s Thread;
     let pIst = Stack t - (4 + 1) * 8 - INTERRUPT_STACK_size;
     let mem = (StackMem s)(pIst := StartFunction);
     ASSERT (KernelStack \<or> UserStack t \<noteq> NULL);
     let mem = (if KernelStack
       then mem(pIst + 8 := ucast (GdtMuRetrieveSelectorIndex SelPrivillegeSupervisor SelOpMode64 SelTypeCode),
                pIst + 24 := pIst + INTERRUPT_STACK_size,
                pIst + 32 := ucast (GdtMuRetrieveSelectorIndex SelPrivillegeSupervisor SelOpMode64 SelTypeData))
       else mem(pIst + 8 := ucast (GdtMuRetrieveSelectorIndex SelPrivillegeUsermode SelOpMode64 SelTypeCode OR RING_THREE_PL),
                pIst + 24 := UserStack t,
                pIst + 32 := ucast (GdtMuRetrieveSelectorIndex SelPrivillegeUsermode SelOpMode64 SelTypeData OR RING_THREE_PL)));
     let mem = mem(pIst + 16 := RFLAGS_INTERRUPT_FLAG_BIT OR RFLAGS_RESERVED_BIT);
     let pStack = pIst - 8;
     let mem = mem(pStack := ThreadStart_address code);
     let pState = pStack - COMPLETE_PROCESSOR_STATE_size;
     let mem = zero_qwords pState 146 mem;
     let mem = mem(pState + REGISTER_AREA_offset + 8 := FirstArgument);
     let mem = mem(pState + REGISTER_AREA_offset + 16 := SecondArgument);
     s \<leftarrow> upd_thr Thread (\<lambda>t. t\<lparr>Stack := pState\<rparr>) (s\<lparr>StackMem := mem\<rparr>);
     Some (STATUS_SUCCESS, s)
   }"

definition ThreadSetupMainThreadUserStack :: "ptr \<Rightarrow> ptr \<Rightarrow> (STATUS \<times> ptr) option" where
  "ThreadSetupMainThreadUserStack InitialStack Proc = do {
     ASSERT (InitialStack \<noteq> NULL);
     ASSERT (Proc \<noteq> NULL);
     Some (STATUS_SUCCESS, InitialStack)
   }"

text \<open>
  \<open>ThreadCreateEx\<close> returns the thread through its parameter \<open>Thread\<close>; here it is part of the result, NULL
  where the parameter is not written.
\<close>

definition ThreadCreateEx :: "CPU \<Rightarrow> CODE \<Rightarrow> ALLOCATIONS \<Rightarrow> string option \<Rightarrow> DWORD \<Rightarrow> ptr \<Rightarrow> ptr \<Rightarrow> ptr \<Rightarrow> ptr \<Rightarrow> SYS
    \<Rightarrow> (STATUS \<times> ptr \<times> CPU \<times> SYS) option" where
  "ThreadCreateEx cpu code a Name0 Priority0 Function Context0 ThreadOut Proc s = (case Name0 of
      None \<Rightarrow> Some (STATUS_INVALID_PARAMETER1, NULL, cpu, s)
    | Some name \<Rightarrow>
      if NULL = Function then Some (STATUS_INVALID_PARAMETER3, NULL, cpu, s)
      else if NULL = ThreadOut then Some (STATUS_INVALID_PARAMETER5, NULL, cpu, s)
      else if NULL = Proc then Some (STATUS_INVALID_PARAMETER6, NULL, cpu, s)
      else do {
        ASSERT (NULL \<noteq> CpuSelf cpu);
        (status, pThread, cpu, s) \<leftarrow> ThreadInit cpu a name Priority0 True s;
        if \<not> SUCCEEDED status then Some (status, NULL, cpu, s)
        else do {
          (cpu, s) \<leftarrow> ProcessInsertThreadInList cpu Proc pThread s;
          s \<leftarrow> ThreadReference pThread s;
          P \<leftarrow> processes s Proc;
          if \<not> KernelSpace P \<and> NULL = NewUserStack a then Some (STATUS_MEMORY_CANNOT_BE_COMMITED, NULL, cpu, s)
          else do {
            let bProcessIniialThread = (\<not> KernelSpace P \<and> Function = AddressOfEntryPoint P);
            ASSERT (\<not> bProcessIniialThread \<or> NumberOfThreads P = 1);
            (pStartFunction, firstArg, secondArg, s) \<leftarrow> (if KernelSpace P then Some (ThreadKernelFunction_address code, Function, Context0, s)
              else do {
                userStack \<leftarrow> (if bProcessIniialThread
                    then do { (_, st) \<leftarrow> ThreadSetupMainThreadUserStack (NewUserStack a) Proc; Some st }
                    else Some (NewUserStack a - (SHADOW_STACK_SIZE + 8)));
                s \<leftarrow> upd_thr pThread (\<lambda>t. t\<lparr>UserStack := userStack\<rparr>) s;
                Some (if bProcessIniialThread then (AddressOfEntryPoint P, ucast (NumberOfArguments P), userStack + (SHADOW_STACK_SIZE + 8), s)
                      else (Function, Context0, 0, s))
              });
            (status, s) \<leftarrow> ThreadSetupInitialState code pThread pStartFunction firstArg secondArg (KernelSpace P) s;
            C \<leftarrow> pcpus s (CpuSelf cpu);
            if NULL = IdleThread C then do {
              s \<leftarrow> upd_thr pThread (\<lambda>t. t\<lparr>TState := ThreadStateReady\<rparr>) s;
              s \<leftarrow> upd_cpu (CpuSelf cpu) (\<lambda>C. C\<lparr>IdleThread := pThread\<rparr>) s;
              Some (status, pThread, cpu, s)
            }
            else do {
              (cpu, s) \<leftarrow> ThreadUnblock cpu pThread s;
              Some (status, pThread, cpu, s)
            }
          }
        }
      })"

definition ThreadCreate :: "CPU \<Rightarrow> CODE \<Rightarrow> ALLOCATIONS \<Rightarrow> string option \<Rightarrow> DWORD \<Rightarrow> ptr \<Rightarrow> ptr \<Rightarrow> ptr \<Rightarrow> SYS
    \<Rightarrow> (STATUS \<times> ptr \<times> CPU \<times> SYS) option" where
  "ThreadCreate cpu code a Name0 Priority0 Function Context0 ThreadOut s =
     ThreadCreateEx cpu code a Name0 Priority0 Function Context0 ThreadOut (SystemProcess s) s"

text \<open>\<^verbatim>\<open>snprintf(name, MAX_PATH, "%s-%02x", prefix, ApicId)\<close>\<close>

definition hex_digit :: "nat \<Rightarrow> char" where "hex_digit n = ''0123456789ABCDEF'' ! (n mod 16)"

definition cpu_name :: "string \<Rightarrow> BYTE \<Rightarrow> string" where
  "cpu_name prefix apic = prefix @ ''-'' @ [hex_digit (unat apic div 16), hex_digit (unat apic)]"

definition ThreadSystemInitMainForCurrentCPU :: "CPU \<Rightarrow> ALLOCATIONS \<Rightarrow> SYS \<Rightarrow> (STATUS \<times> CPU \<times> SYS) option" where
  "ThreadSystemInitMainForCurrentCPU cpu a s = do {
     let pProcess = SystemProcess s;
     ASSERT (NULL \<noteq> CpuSelf cpu);
     C \<leftarrow> pcpus s (CpuSelf cpu);
     (status, pThread, cpu, s) \<leftarrow> ThreadInit cpu a (cpu_name ''main'' (ApicId C)) ThreadPriorityDefault False s;
     if \<not> SUCCEEDED status then Some (status, cpu, s)
     else do {
       s \<leftarrow> upd_thr pThread (\<lambda>t. t\<lparr>InitialStackBase := StackTop C, StackSize := CpuStackSize C, TState := ThreadStateRunning\<rparr>) s;
       s \<leftarrow> SetCurrentThread cpu pThread s;
       (cpu, s) \<leftarrow> (if pProcess \<noteq> NULL then ProcessInsertThreadInList cpu pProcess pThread s else Some (cpu, s));
       Some (status, cpu, s)
     }
   }"

text \<open>The boolean result says whether the wait for the idle thread passed, see \<open>ExEventWaitForSignal\<close>.\<close>

definition ThreadSystemInitIdleForCurrentCPU :: "CPU \<Rightarrow> QWORD \<Rightarrow> CODE \<Rightarrow> ALLOCATIONS \<Rightarrow> ptr \<Rightarrow> ptr \<Rightarrow> ptr \<Rightarrow> SYS
    \<Rightarrow> (STATUS \<times> bool \<times> CPU \<times> SYS) option" where
  "ThreadSystemInitIdleForCurrentCPU cpu sz code a idleFunction idleStarted idleThread s = do {
     ASSERT (INTR_OFF = CpuIntrGetState cpu);
     ASSERT (NULL \<noteq> CpuSelf cpu);
     C \<leftarrow> pcpus s (CpuSelf cpu);
     (status, s) \<leftarrow> ExEventInit idleStarted ExEventTypeSynchronization False s;
     if \<not> SUCCEEDED status then Some (status, True, cpu, s)
     else do {
       (status, pThread, cpu, s) \<leftarrow> ThreadCreate cpu code a (Some (cpu_name ''idle'' (ApicId C))) ThreadPriorityDefault idleFunction idleStarted idleThread s;
       if \<not> SUCCEEDED status then Some (status, True, cpu, s)
       else do {
         (cpu, s) \<leftarrow> ThreadCloseHandle cpu pThread s;
         let cpu = CpuIntrSetState True cpu;
         (passed, cpu, s) \<leftarrow> ExEventWaitForSignal cpu sz idleStarted s;
         Some (status, passed, cpu, s)
       }
     }
   }"

text \<open>
  \<open>_IdleThread\<close> up to its first \<open>ThreadBlock\<close>, and one pass of its loop from \<open>__sti_and_hlt\<close> on (the interrupt
  that wakes the processor is taken in between).
\<close>

definition IdleThread_block :: "CPU \<Rightarrow> QWORD \<Rightarrow> SYS \<Rightarrow> (CPU \<times> SYS) option" where
  "IdleThread_block cpu sz s = do {
     let (_, cpu) = CpuIntrDisable cpu;
     (cpu, s) \<leftarrow> ThreadTakeBlockLock cpu s;
     ThreadBlock cpu sz s
   }"

definition IdleThread_start :: "CPU \<Rightarrow> QWORD \<Rightarrow> ptr \<Rightarrow> SYS \<Rightarrow> (CPU \<times> SYS) option" where
  "IdleThread_start cpu sz pEvent s = do {
     ASSERT (NULL \<noteq> pEvent);
     (cpu, s) \<leftarrow> ExEventSignal cpu pEvent s;
     IdleThread_block cpu sz s
   }"

definition IdleThread_pass :: "CPU \<Rightarrow> QWORD \<Rightarrow> SYS \<Rightarrow> (CPU \<times> SYS) option" where
  "IdleThread_pass cpu sz s = IdleThread_block (CpuIntrSetState True cpu) sz s"

text \<open>\<open>_ThreadKernelFunction\<close>, where a kernel thread starts: it runs the function of the thread and exits with its result.\<close>

definition ThreadKernelFunction :: "CPU \<Rightarrow> QWORD \<Rightarrow> (ptr \<Rightarrow> CPU \<Rightarrow> SYS \<Rightarrow> (STATUS \<times> CPU \<times> SYS) option) option \<Rightarrow> ptr \<Rightarrow> SYS \<Rightarrow> (CPU \<times> SYS) option" where
  "ThreadKernelFunction cpu sz Function Context0 s = do {
     f \<leftarrow> Function;
     ASSERT (CpuIntrGetState cpu);
     (exitStatus, cpu, s) \<leftarrow> f Context0 cpu s;
     ThreadExit cpu sz exitStatus s
   }"

section \<open>Terminating a process\<close>

definition GetCurrentProcess :: "CPU \<Rightarrow> SYS \<Rightarrow> ptr option" where
  "GetCurrentProcess cpu s = do {
     pThread \<leftarrow> GetCurrentThread cpu s;
     ASSERT (pThread \<noteq> NULL);
     t \<leftarrow> threads s pThread;
     Some (Process t)
   }"

definition ProcessGetId :: "CPU \<Rightarrow> ptr \<Rightarrow> SYS \<Rightarrow> QWORD option" where
  "ProcessGetId cpu Proc s = do {
     p \<leftarrow> (if Proc = NULL then do { c \<leftarrow> GetCurrentThread cpu s; t \<leftarrow> threads s c; Some (Process t) } else Some Proc);
     P \<leftarrow> processes s p;
     Some (ProcId P)
   }"

definition ProcessIsSystem :: "CPU \<Rightarrow> ptr \<Rightarrow> SYS \<Rightarrow> bool option" where
  "ProcessIsSystem cpu Proc s = do {
     pid \<leftarrow> ProcessGetId cpu Proc s;
     S \<leftarrow> processes s (SystemProcess s);
     Some (ProcId S = pid)
   }"

definition ProcessCloseHandle :: "ptr \<Rightarrow> SYS \<Rightarrow> SYS option" where
  "ProcessCloseHandle Proc s = do { ASSERT (Proc \<noteq> NULL); ProcessDereference Proc s }"

text \<open>\<^verbatim>\<open>CONTAINING_RECORD(pEntry, THREAD, ProcessList)\<close>\<close>

definition ProcessThread :: "ptr \<Rightarrow> ptr" where "ProcessThread pEntry = pEntry - 0x100"

partial_function (option) ProcessTerminate_loop :: "ptr \<Rightarrow> ptr \<Rightarrow> ptr \<Rightarrow> bool \<Rightarrow> SYS \<Rightarrow> (bool \<times> SYS) option" where
  "ProcessTerminate_loop Proc pCurrentThread pEntry bFound s =
     (if pEntry = ThreadList Proc then Some (bFound, s)
      else do {
        let pThread = ProcessThread pEntry;
        (bFound, s) \<leftarrow> (if pThread = pCurrentThread then Some (True, s)
           else do { s \<leftarrow> ThreadTerminate pThread s; Some (bFound, s) });
        pEntry \<leftarrow> rd_Flink (entries s) pEntry;
        ProcessTerminate_loop Proc pCurrentThread pEntry bFound s
      })"

definition ProcessTerminate :: "CPU \<Rightarrow> QWORD \<Rightarrow> ptr \<Rightarrow> SYS \<Rightarrow> (CPU \<times> SYS) option" where
  "ProcessTerminate cpu sz Proc s = do {
     Proc \<leftarrow> (if NULL = Proc then GetCurrentProcess cpu s else Some Proc);
     ASSERT (Proc \<noteq> NULL);
     sys \<leftarrow> ProcessIsSystem cpu Proc s;
     ASSERT (\<not> sys);
     pCurrentThread \<leftarrow> GetCurrentThread cpu s;
     (oldState, cpu, s) \<leftarrow> AcquireThreadList cpu s Proc;
     pEntry \<leftarrow> rd_Flink (entries s) (ThreadList Proc);
     (bFound, s) \<leftarrow> ProcessTerminate_loop Proc pCurrentThread pEntry False s;
     (cpu, s) \<leftarrow> ReleaseThreadList cpu s Proc oldState;
     if bFound then ThreadExit cpu sz STATUS_JOB_INTERRUPTED s else Some (cpu, s)
   }"

section \<open>Threads outside of the scheduler\<close>

text \<open>A thread that is neither queued nor running nor an idle thread can change or go away.\<close>

definition off_cpu :: "SYS \<Rightarrow> ptr list \<Rightarrow> ptr \<Rightarrow> bool" where
  "off_cpu s q u = (u \<notin> set q \<and> (\<forall>c C. pcpus s c = Some C \<longrightarrow> u \<noteq> CurrentThread C \<and> u \<noteq> IdleThread C))"

definition cpu_view :: "SYS \<Rightarrow> ptr \<Rightarrow> (ptr \<times> ptr \<times> ptr) option" where
  "cpu_view s c = map_option (\<lambda>C. (FsBase C, CurrentThread C, IdleThread C)) (pcpus s c)"

lemma sched_inv_other:
  assumes inv: "sched_inv m s q" and u: "off_cpu s q u"
    and s': "LockOps s' = LockOps s" "ReadyThreadsLock s' = ReadyThreadsLock s" "ReadyThreadsList s' = ReadyThreadsList s"
      "cpu_view s' = cpu_view s" "threads s' = (threads s)(u := X)" "resume s' = (resume s)(u := r)"
    and h: "is_list (entries s') (ReadyThreadsList s) (map ReadyList q)"
      "\<And>t. t \<noteq> u \<Longrightarrow> threads s t \<noteq> None \<Longrightarrow> ReadyList t \<in> dom (entries s) \<Longrightarrow> ReadyList t \<in> dom (entries s')"
  shows "sched_inv m s' q"
proof -
  have at: "thread_at s' t T" if "thread_at s t T" "t \<noteq> u" for t T
    using that s' h(2) [of t] by (auto simp: thread_at_def)
  have res: "resumable s' t" if "resumable s t" "t \<noteq> u" for t
    using that at s' unfolding resumable_def by (metis fun_upd_other)
  have view: "\<exists>C. pcpus s c = Some C \<and> FsBase C = FsBase C' \<and> CurrentThread C = CurrentThread C' \<and> IdleThread C = IdleThread C'"
    if "pcpus s' c = Some C'" for c C'
    using fun_cong [OF s'(4), of c] that by (cases "pcpus s c") (auto simp: cpu_view_def)
  have "cpu_inv s' q c C'" if c: "pcpus s' c = Some C'" for c C'
  proof -
    obtain C where C: "pcpus s c = Some C" "FsBase C = FsBase C'" "CurrentThread C = CurrentThread C'" "IdleThread C = IdleThread C'"
      using view [OF c] by blast
    have "cpu_inv s q c C" using inv C(1) by (simp add: sched_inv_def)
    moreover have "CurrentThread C \<noteq> u" "IdleThread C \<noteq> u" using u C(1) unfolding off_cpu_def by blast+
    ultimately show ?thesis using at res C unfolding cpu_inv_def by metis
  qed
  moreover have "resumable s' t \<and> (\<exists>T. threads s' t = Some T \<and> TState T = ThreadStateReady)" if "t \<in> set q" for t
    using that inv u res [of t] s'(5) by (auto simp: sched_inv_def off_cpu_def)
  moreover have "{CurrentThread C, IdleThread C} \<inter> {CurrentThread D, IdleThread D} = {}"
    if cd: "pcpus s' c = Some C" "pcpus s' d = Some D" "c \<noteq> d" for c C d D
  proof -
    obtain C0 D0 where "pcpus s c = Some C0" "CurrentThread C0 = CurrentThread C" "IdleThread C0 = IdleThread C"
      "pcpus s d = Some D0" "CurrentThread D0 = CurrentThread D" "IdleThread D0 = IdleThread D"
      using view [OF cd(1)] view [OF cd(2)] by blast
    then show ?thesis using inv cd(3) unfolding sched_inv_def by (metis (no_types))
  qed
  ultimately show ?thesis using inv s' h(1) unfolding sched_inv_def by simp
qed

lemma switch_thr_sel: "ExitStatus (switch_thr sz cur nxt C T) = ExitStatus T" "Process (switch_thr sz cur nxt C T) = Process T"
  by (simp_all add: switch_thr_def)

text \<open>Scheduling away from a thread that has exited while somebody else still holds a reference to it.\<close>

lemma minus_one_eq: "r - 1 = x \<longleftrightarrow> r = x + 1" for r x :: DWORD
  by (auto simp: algebra_simps)

lemma minus_one_MAX: "r - 1 = MAX_DWORD \<longleftrightarrow> r = 0" for r :: DWORD
proof -
  have e: "MAX_DWORD + 1 = (0 :: DWORD)" by simp
  show ?thesis unfolding minus_one_eq e by (rule refl)
qed

lemma ref_minus_one:
  fixes r :: DWORD
  assumes "1 < r"
  shows "r - 1 \<noteq> 0" "r - 1 \<noteq> MAX_DWORD"
  using assms minus_one_MAX [of r] minus_one_eq [of r 0] by auto

lemma ThreadDereference_shared:
  assumes "threads s t = Some T" "t \<noteq> NULL" "1 < RefCnt T"
  shows "ThreadDereference cpu t s = Some (cpu, s\<lparr>threads := (threads s)(t \<mapsto> T\<lparr>RefCnt := RefCnt T - 1\<rparr>)\<rparr>)"
  using assms ref_minus_one [OF assms(3)] by (simp add: ThreadDereference_def RfcDereference_def upd_thr_def Let_def)

lemma ThreadSchedule_dying:
  assumes inv: "sched_inv m s q" and C: "pcpus s (CpuSelf cpu) = Some C" and T: "threads s (CurrentThread C) = Some T" "TState T = ThreadStateDying"
      "BlockLock T = FREE" "1 < RefCnt T" and idle: "CurrentThread C \<noteq> IdleThread C" and off: "CpuIntr cpu = INTR_OFF"
  defines "cur \<equiv> CurrentThread C" and "nxt \<equiv> next_thread (IdleThread C) q"
  shows "\<exists>N h s'. ThreadSchedule cpu sz (s\<lparr>ReadyThreadsLock := HELD (CpuSelf cpu) (CallSite s), resume := (resume s)(cur := Gone)\<rparr>)
      = Some (cpu\<lparr>CpuIntr := resume_intr (resume s nxt)\<rparr>, s') \<and> sched_inv m s' (tl q) \<and> off_cpu s' (tl q) cur
    \<and> s' = s\<lparr>entries := h, calls := calls s @ switch_calls q T N, resume := (resume s)(cur := Gone),
          threads := (threads s)(cur \<mapsto> (switch_thr sz cur nxt C T)\<lparr>RefCnt := RefCnt T - 1\<rparr>),
          pcpus := (pcpus s)(CpuSelf cpu \<mapsto> (switched_cpu sz cur nxt N C)\<lparr>PreviousThread := NULL\<rparr>)\<rparr>
    \<and> threads s nxt = Some N \<and> only_changes (set (ReadyThreadsList s # map ReadyList (tl q))) (entries s) h"
proof -
  note d = sched_inv_dest [OF inv C]
  have at: "thread_at s cur T" and nq: "cur \<notin> set q" and cpu: "CpuSelf cpu \<noteq> NULL" "FsBase C = cur" using d(4) T by (auto simp: cpu_inv_def thread_at_def cur_def)
  define T2 where "T2 = T\<lparr>TState := ThreadStateBlocked\<rparr>"
  define s1 where "s1 = s\<lparr>ReadyThreadsLock := HELD (CpuSelf cpu) (CallSite s), resume := (resume s)(cur := Gone)\<rparr>"
  define s2 where "s2 = s\<lparr>ReadyThreadsLock := HELD (CpuSelf cpu) (CallSite s), resume := (resume s)(cur := AfterBlock), threads := (threads s)(cur \<mapsto> T2)\<rparr>"
  have entry: "sched_entry m cpu C T2 s2 q"
    by (rule sched_entryI [OF inv C T(1)]) (use C d(3) off T(3) in \<open>auto simp: s2_def T2_def cur_def\<close>)
  have ne: "nxt \<noteq> cur" using idle nq by (cases q) (auto simp: nxt_def next_thread_def cur_def)
  have "resumable s nxt" using d(4) inv idle by (cases q) (auto simp: nxt_def next_thread_def cpu_inv_def sched_inv_def)
  then obtain N where N: "threads s nxt = Some N" "Self N = nxt" "nxt \<noteq> NULL" "resume s nxt \<noteq> Gone" by (auto simp: resumable_def thread_at_def)
  have ready: "\<exists>T. threads s1 t = Some T \<and> TState T = ThreadStateReady" if "t \<in> set q" for t using inv that by (auto simp: sched_inv_def s1_def)
  from ThreadSchedule_split [of s1 m cpu "CallSite s" q C cur T nxt N sz] d off cpu C T(1) at N ready nxt_def obtain h
    where h: "ThreadSchedule cpu sz s1 = do { (cpu, s) \<leftarrow> ThreadCleanupPostSchedule cpu (after_switch cpu sz q cur nxt C T N h s1); ReturnFromSchedule cpu s }"
      "is_list h (ReadyThreadsList s) (map ReadyList (tl q))" "only_changes (set (ReadyThreadsList s # map ReadyList (tl q))) (entries s) h"
    by (auto simp: s1_def thread_at_def cur_def)
  define s' where "s' = s\<lparr>entries := h, calls := calls s @ switch_calls q T N, resume := (resume s)(cur := Gone),
          threads := (threads s)(cur \<mapsto> (switch_thr sz cur nxt C T)\<lparr>RefCnt := RefCnt T - 1\<rparr>),
          pcpus := (pcpus s)(CpuSelf cpu \<mapsto> (switched_cpu sz cur nxt N C)\<lparr>PreviousThread := NULL\<rparr>)\<rparr>"
  have "ThreadCleanupPostSchedule cpu (after_switch cpu sz q cur nxt C T N h s1) = Some (cpu, s')"
    using d(1,2) off cpu T at
    by (simp add: ThreadCleanupPostSchedule_def kernel_simps after_switch_def s1_def ThreadDereference_shared thread_at_def s'_def switched_cpu_def)
  moreover have "ReturnFromSchedule cpu s' = Some (cpu\<lparr>CpuIntr := resume_intr (resume s nxt)\<rparr>, s')"
    using ReturnFromSchedule_ok [of s' m cpu nxt] d off cpu N ne
    by (simp add: s'_def switched_cpu_def GetCurrentThread_def)
  moreover have others: "{CurrentThread C, IdleThread C} \<inter> {CurrentThread D, IdleThread D} = {}" if "pcpus s d = Some D" "d \<noteq> CpuSelf cpu" for d D
    using inv that C unfolding sched_inv_def by (metis (no_types))
  have offc: "off_cpu s' (tl q) cur"
    using others nq ne idle cpu(2) list.set_sel(2) [of q] by (cases q) (auto simp: off_cpu_def s'_def switched_cpu_def cur_def; metis)+
  moreover have "sched_inv m s' (tl q)"
  proof (rule sched_inv_other)
    have h': "is_list h (ReadyThreadsList s2) (map ReadyList (tl q))" "dom h = dom (entries s2)"
      using h(2,3) by (simp_all add: s2_def only_changes_def)
    show "sched_inv m (s2\<lparr>entries := h, calls := calls s', threads := (threads s2)(cur \<mapsto> switched_thr sz cur nxt C T2),
        pcpus := (pcpus s2)(CpuSelf cpu \<mapsto> switched_cpu sz cur nxt N C), ReadyThreadsLock := FREE\<rparr>) (tl q)" (is "sched_inv m ?s2 _")
      unfolding cur_def by (rule switch_sched_inv [OF entry _ h']) (simp add: nxt_def)
    show "off_cpu ?s2 (tl q) cur" using offc by (auto simp: off_cpu_def s'_def s2_def split: if_splits)
  qed (use h d(2) in \<open>auto simp: s2_def s'_def cpu_view_def switched_cpu_def fun_eq_iff\<close>)
  ultimately have "ThreadSchedule cpu sz s1 = Some (cpu\<lparr>CpuIntr := resume_intr (resume s nxt)\<rparr>, s')" "sched_inv m s' (tl q)"
    using h(1) by simp_all
  with offc show ?thesis using h(3) N(1) unfolding s1_def s'_def by blast
qed

section \<open>Exit\<close>

lemma event_inv_upd:
  assumes "event_inv s q e ty sg ws" "u \<notin> set ws" "threads s u \<noteq> None"
  shows "event_inv (s\<lparr>threads := (threads s)(u \<mapsto> U), processes := x\<rparr>) q e ty sg ws"
proof -
  have "waiting (s\<lparr>threads := (threads s)(u \<mapsto> U), processes := x\<rparr>) q w" if "waiting s q w" "w \<noteq> u" for w
    using that by (auto simp: waiting_def thread_at_def)
  then show ?thesis using assms by (auto simp: event_inv_def wait_list_def wait_head_def)
qed

lemma event_inv_woken:
  assumes inv: "sched_inv m s q" and e: "event_inv s q e ty sg ws" and d: "event_inv s q d ty' sg' vs" and ne: "d \<noteq> e" "set ws \<inter> set vs = {}"
    and s': "only_wakes s s'" "\<forall>t. t \<notin> set ws \<longrightarrow> threads s' t = threads s t" "events s' d = events s d"
      "only_changes (set (ReadyThreadsList s # EventWaitingList e # map ReadyList (ws @ q))) (entries s) (entries s')" and wk: "set wk \<subseteq> set ws"
  shows "event_inv s' (q @ wk) d ty' sg' vs"
proof -
  have l: "is_list (entries s) (EventWaitingList d) (map ReadyList vs)" "wait_head s (EventWaitingList d)" "wait_head s (EventWaitingList e)"
    using e d by (auto simp: event_inv_def wait_list_def)
  have ws: "threads s w \<noteq> None" if "w \<in> set ws" for w using e that by (auto simp: event_inv_def wait_list_def waiting_def thread_at_def)
  have vs: "threads s v \<noteq> None" "v \<notin> set q" "ReadyList v \<noteq> ReadyThreadsList s" "waiting s q v" if "v \<in> set vs" for v
    using d that by (auto simp: event_inv_def wait_list_def waiting_def thread_at_def)
  have "EventWaitingList d \<notin> ReadyList ` (set ws \<union> set q)" "EventWaitingList e \<notin> ReadyList ` set vs" "ReadyThreadsList s \<notin> ReadyList ` set vs"
    "set vs \<inter> set q = {}" using l(2,3) ws vs sched_inv_queued [OF inv] unfolding wait_head_def by fastforce+
  then have "set (ReadyThreadsList s # EventWaitingList e # map ReadyList (ws @ q)) \<inter> set (EventWaitingList d # map ReadyList vs) = {}"
    using l(2) ne by (auto simp: wait_head_def EventWaitingList_def)
  then have "is_list (entries s') (EventWaitingList d) (map ReadyList vs)" using only_changes_is_list [OF s'(4) l(1)] by (simp add: Int_commute)
  moreover have "wait_head s' (EventWaitingList d)" using l(2) s'(1) unfolding wait_head_def only_wakes_def by (metis domIff)
  moreover have "waiting s' (q @ wk) v" if v: "v \<in> set vs" for v
  proof -
    have "threads s' v = threads s v" "v \<notin> set (q @ wk)" using s'(2) v vs(2) [OF v] wk ne(2) by auto
    then show ?thesis using vs(4) [OF v] s'(1) by (auto simp: waiting_def thread_at_def only_wakes_def)
  qed
  ultimately show ?thesis using d s'(3) by (auto simp: event_inv_def wait_list_def)
qed

lemma only_changes_refl: "only_changes A h h" by (simp add: only_changes_def)

lemma sched_inv_processes: "sched_inv m (s\<lparr>processes := x\<rparr>) q \<longleftrightarrow> sched_inv m s q"
  by (auto elim: sched_inv_cong)

lemma event_inv_processes: "event_inv (s\<lparr>processes := x\<rparr>) q e ty sg ws \<longleftrightarrow> event_inv s q e ty sg ws"
  unfolding event_inv_def by (auto elim: wait_list_cong)

text \<open>The last thread of a process sets its status and signals its event.\<close>

lemma ProcessNotify_ok:
  assumes inv: "sched_inv m s q" and T: "threads s t = Some T" "t \<noteq> NULL" "Process T \<noteq> NULL" and P: "processes s (Process T) = Some P" and cpu: "CpuSelf cpu \<noteq> NULL"
    and pe: "ActiveThreads P = 1 \<Longrightarrow> event_inv s q (ProcTerminationEvt (Process T)) ExEventTypeNotification sg ws"
  defines "wk \<equiv> if ActiveThreads P = 1 then ws else []"
    and "P' \<equiv> P\<lparr>ActiveThreads := ActiveThreads P - 1, TerminationStatus := if ActiveThreads P = 1 then ExitStatus T else TerminationStatus P\<rparr>"
  shows "\<exists>s'. ProcessNotifyThreadTermination cpu t s = Some (cpu, s') \<and> sched_inv m s' (q @ wk) \<and> only_wakes (s\<lparr>processes := (processes s)(Process T \<mapsto> P')\<rparr>) s'
    \<and> (\<forall>u. u \<notin> set wk \<longrightarrow> threads s' u = threads s u) \<and> (\<forall>d. d \<noteq> ProcTerminationEvt (Process T) \<longrightarrow> events s' d = events s d)"
proof (cases "ActiveThreads P = 1")
  case True
  let ?s = "s\<lparr>processes := (processes s)(Process T \<mapsto> P')\<rparr>"
  have "sched_inv m ?s q" "event_inv ?s q (ProcTerminationEvt (Process T)) ExEventTypeNotification sg ws"
    using inv pe [OF True] by (simp_all add: sched_inv_processes event_inv_processes)
  from ExEventSignal_ok [OF this cpu] True show ?thesis
    using T P by (auto simp: ProcessNotifyThreadTermination_def upd_proc_def Let_def P'_def wk_def signal_wakes_def)
next
  case False
  have "ActiveThreads P - 1 \<noteq> 0" using False by simp
  moreover have "P' = P\<lparr>ActiveThreads := ActiveThreads P - 1\<rparr>" using False by (cases P) (simp add: P'_def)
  ultimately show ?thesis using False T P inv
    by (simp add: ProcessNotifyThreadTermination_def upd_proc_def Let_def wk_def sched_inv_processes only_wakes_refl)
qed

lemma ThreadExit_ok:
  fixes st :: STATUS
  assumes inv: "sched_inv m s q" and r: "runs s cpu C T cur" and ref: "1 < RefCnt T"
    and te: "event_inv s q (TerminationEvt cur) ExEventTypeNotification sg ws" and P: "processes s (Process T) = Some P" "Process T \<noteq> NULL"
    and pe: "ActiveThreads P = 1 \<Longrightarrow> event_inv s q (ProcTerminationEvt (Process T)) ExEventTypeNotification sg' vs" "set ws \<inter> set vs = {}"
      "ProcTerminationEvt (Process T) \<noteq> TerminationEvt cur"
  defines "q' \<equiv> q @ ws @ (if ActiveThreads P = 1 then vs else [])"
    and "P' \<equiv> P\<lparr>ActiveThreads := ActiveThreads P - 1, TerminationStatus := if ActiveThreads P = 1 then st else TerminationStatus P\<rparr>"
  shows "\<exists>cpu' s' T'. ThreadExit cpu sz st s = Some (cpu', s') \<and> sched_inv m s' (tl q') \<and> cur_of s' (CpuSelf cpu) = Some (next_thread (IdleThread C) q')
    \<and> processes s' = (processes s)(Process T \<mapsto> P') \<and> off_cpu s' (tl q') cur \<and> resume s' cur = Gone
    \<and> threads s' cur = Some T' \<and> TState T' = ThreadStateDying \<and> ExitStatus T' = st \<and> RefCnt T' = RefCnt T - 1 \<and> Process T' = Process T
    \<and> events s' (TerminationEvt cur) = Some \<lparr>EventLock = FREE, ExEvtType = ExEventTypeNotification, Signaled = 1\<rparr>"
proof -
  note c = runs_current [OF inv r]
  have C: "pcpus s (CpuSelf cpu) = Some C" "CurrentThread C = cur" "threads s cur = Some T" "BlockLock T = FREE" "cur \<noteq> IdleThread C"
    using r by (auto simp: runs_def)
  have ops: "LockOps s = LockSystemInit m" using inv by (simp add: sched_inv_def)
  have nws: "cur \<notin> set ws" "ActiveThreads P = 1 \<Longrightarrow> cur \<notin> set vs"
    using te pe(1) C(1,2) by (auto simp: event_inv_def wait_list_def waiting_def)
  let ?cpu = "cpu\<lparr>CpuIntr := INTR_OFF\<rparr>"
  define T1 where "T1 = T\<lparr>TState := ThreadStateDying, ExitStatus := st\<rparr>"
  define s1 where "s1 = s\<lparr>threads := (threads s)(cur \<mapsto> T1)\<rparr>"
  have inv1: "sched_inv m s1 q"
    by (rule sched_inv_upd_cur [OF inv C(1) C(3) [folded C(2)], where C' = C and T' = T1])
      (use C inv in \<open>auto simp: s1_def T1_def sched_inv_def\<close>)
  have up: "event_inv s1 q e ExEventTypeNotification g us" if "event_inv s q e ExEventTypeNotification g us" "cur \<notin> set us" for e g us
    using event_inv_upd [OF that, where U = T1 and x = "processes s"] C(3) by (simp add: s1_def)
  from ExEventSignal_ok [OF inv1 up [OF te nws(1)], of ?cpu] c obtain s2
    where s2: "ExEventSignal ?cpu (TerminationEvt cur) s1 = Some (?cpu, s2)" "sched_inv m s2 (q @ ws)"
      "event_inv s2 (q @ ws) (TerminationEvt cur) ExEventTypeNotification 1 []" "only_wakes s1 s2" "\<forall>t. t \<notin> set ws \<longrightarrow> threads s2 t = threads s1 t"
      "\<forall>d. d \<noteq> TerminationEvt cur \<longrightarrow> events s2 d = events s1 d"
      "only_changes (set (ReadyThreadsList s1 # EventWaitingList (TerminationEvt cur) # map ReadyList (ws @ q))) (entries s1) (entries s2)"
    by (auto simp: signal_wakes_def)
  have T2: "threads s2 cur = Some T1" "processes s2 (Process T1) = Some P" "Process T1 \<noteq> NULL" "Process T1 = Process T" "ExitStatus T1 = st"
    using s2(4,5) nws(1) P by (auto simp: s1_def T1_def only_wakes_def)
  have pe2: "event_inv s2 (q @ ws) (ProcTerminationEvt (Process T1)) ExEventTypeNotification sg' vs" if a: "ActiveThreads P = 1"
    by (rule event_inv_woken [OF inv1 up [OF te nws(1)] up [OF pe(1) [OF a] nws(2) [OF a], folded T2(4)]]) (use pe(2,3) s2 T2(4) in auto)
  from ProcessNotify_ok [OF s2(2) T2(1) c(2) T2(3,2) _ pe2, of ?cpu, unfolded T2(4,5)] c(3) obtain s3
    where s3: "ProcessNotifyThreadTermination ?cpu cur s2 = Some (?cpu, s3)" "sched_inv m s3 q'" "only_wakes (s2\<lparr>processes := (processes s2)(Process T \<mapsto> P')\<rparr>) s3"
      "threads s3 cur = Some T1" "events s3 (TerminationEvt cur) = events s2 (TerminationEvt cur)"
    using T2(1) nws(2) pe(3) unfolding q'_def P'_def by auto
  have keep: "pcpus s3 = pcpus s" "CallSite s3 = CallSite s" "LockOps s3 = LockOps s" "ReadyThreadsLock s3 = FREE" "processes s3 = (processes s)(Process T \<mapsto> P')"
    using s2(4) s3(2,3) by (auto simp: only_wakes_def s1_def sched_inv_def)
  have T1: "TState T1 = ThreadStateDying" "BlockLock T1 = FREE" "1 < RefCnt T1" "RefCnt T1 = RefCnt T" "ExitStatus T1 = st" using C(4) ref by (simp_all add: T1_def)
  have "pcpus s3 (CpuSelf ?cpu) = Some C" "threads s3 (CurrentThread C) = Some T1" "CurrentThread C \<noteq> IdleThread C" using keep(1) C s3(4) by simp_all
  from ThreadSchedule_dying [OF s3(2) this(1,2) T1(1-3) this(3), of sz] obtain N h s4
    where s4: "ThreadSchedule ?cpu sz (s3\<lparr>ReadyThreadsLock := HELD (CpuSelf cpu) (CallSite s), resume := (resume s3)(cur := Gone)\<rparr>)
        = Some (cpu\<lparr>CpuIntr := resume_intr (resume s3 (next_thread (IdleThread C) q'))\<rparr>, s4)" "sched_inv m s4 (tl q')"
      "off_cpu s4 (tl q') cur" "s4 = s3\<lparr>entries := h, calls := calls s3 @ switch_calls q' T1 N, resume := (resume s3)(cur := Gone),
          threads := (threads s3)(cur \<mapsto> (switch_thr sz cur (next_thread (IdleThread C) q') C T1)\<lparr>RefCnt := RefCnt T1 - 1\<rparr>),
          pcpus := (pcpus s3)(CpuSelf cpu \<mapsto> (switched_cpu sz cur (next_thread (IdleThread C) q') N C)\<lparr>PreviousThread := NULL\<rparr>)\<rparr>"
    using C(2) keep(2) by auto
  have "AcquireReady ?cpu s3 = Some (INTR_OFF, ?cpu, s3\<lparr>ReadyThreadsLock := HELD (CpuSelf cpu) (CallSite s)\<rparr>)"
    using keep ops c(3) by (simp add: AcquireReady_def acquire_FREE)
  moreover have "OwnsBlock ?cpu s cur = Some False" using C(3,4) ops c(3) by (simp add: OwnsBlock_def owner_FREE)
  ultimately have "ThreadExit cpu sz st s = Some (cpu\<lparr>CpuIntr := resume_intr (resume s3 (next_thread (IdleThread C) q'))\<rparr>, s4)"
    using c C(3) s2(1) s3(1) s4(1) by (simp add: ThreadExit_def CpuIntrDisable_def CpuIntrSetState_def upd_thr_def s1_def T1_def)
  moreover have "threads s4 cur = Some ((switch_thr sz cur (next_thread (IdleThread C) q') C T1)\<lparr>RefCnt := RefCnt T1 - 1\<rparr>)" by (simp add: s4(4))
  moreover have "cur_of s4 (CpuSelf cpu) = Some (next_thread (IdleThread C) q')" "processes s4 = (processes s)(Process T \<mapsto> P')"
    "resume s4 cur = Gone" "events s4 (TerminationEvt cur) = Some \<lparr>EventLock = FREE, ExEvtType = ExEventTypeNotification, Signaled = 1\<rparr>"
    using keep(5) s3(5) s2(3) C(2) by (simp_all add: s4(4) cur_of_def switched_cpu_def event_inv_def)
  ultimately show ?thesis using s4(2,3) T1 T2(4)
    by (intro exI [of _ "cpu\<lparr>CpuIntr := resume_intr (resume s3 (next_thread (IdleThread C) q'))\<rparr>"] exI [of _ s4]
        exI [of _ "(switch_thr sz cur (next_thread (IdleThread C) q') C T1)\<lparr>RefCnt := RefCnt T1 - 1\<rparr>"]) (simp add: switch_thr_sel)
qed

section \<open>Creation\<close>

lemma LockInit_FREE: "LockInit (LockSystemInit m) l = FREE"
  by (simp add: LockSystemInit_def MonitorLockInit_def SpinlockInit_def FREE_def)

text \<open>The list entries inside of a thread, and a piece of memory that can become a thread.\<close>

lemma is_list_frame_set:
  assumes "is_list h head xs" "\<forall>x. x \<notin> A \<longrightarrow> h' x = h x" "A \<inter> set (head # xs) = {}"
  shows "is_list h' head xs"
  by (rule is_list_frame [OF assms(1)]) (use assms(2,3) in blast)

definition own_entries :: "ptr \<Rightarrow> ptr set" where
  "own_entries p = {EventWaitingList (TerminationEvt p), AllList p, ReadyList p, ProcessList p}"

definition fresh_thread :: "SYS \<Rightarrow> ptr \<Rightarrow> bool" where
  "fresh_thread s p = (p \<noteq> NULL \<and> TerminationEvt p \<noteq> NULL \<and> threads s p = None \<and> own_entries p \<inter> dom (entries s) = {})"

definition all_list :: "SYS \<Rightarrow> ptr list \<Rightarrow> bool" where
  "all_list s ts = (AllThreadsLock s = FREE \<and> is_list (entries s) (AllThreadsList s) (map AllList ts))"

definition proc_list :: "SYS \<Rightarrow> ptr \<Rightarrow> PROCESS \<Rightarrow> ptr list \<Rightarrow> bool" where
  "proc_list s Pr P ts = (Pr \<noteq> NULL \<and> processes s Pr = Some P \<and> ThreadListLock P = FREE \<and> is_list (entries s) (ThreadList Pr) (map ProcessList ts)
     \<and> NumberOfThreads P = of_nat (length ts) \<and> length ts < 2 ^ 32 \<and> ActiveThreads P \<le> NumberOfThreads P)"

text \<open>A thread behind \<open>_ThreadInit\<close>.\<close>

definition init_THREAD :: "ptr \<Rightarrow> ptr \<Rightarrow> string \<Rightarrow> QWORD \<Rightarrow> DWORD \<Rightarrow> THREAD" where
  "init_THREAD p stack name tid prio = zero_THREAD\<lparr>RefCnt := 1, Self := p, Id := tid, Name := Some name, Priority := prio, TState := ThreadStateBlocked,
     BlockLock := FREE, InitialStackBase := stack, StackSize := STACK_DEFAULT_SIZE, Stack := stack\<rparr>"

lemma own_distinct [simp]:
  "EventWaitingList (TerminationEvt p) \<noteq> AllList p" "EventWaitingList (TerminationEvt p) \<noteq> ReadyList p" "EventWaitingList (TerminationEvt p) \<noteq> ProcessList p"
  "AllList p \<noteq> ReadyList p" "AllList p \<noteq> ProcessList p" "ReadyList p \<noteq> ProcessList p"
  "AllList p \<noteq> EventWaitingList (TerminationEvt p)" "ReadyList p \<noteq> EventWaitingList (TerminationEvt p)" "ProcessList p \<noteq> EventWaitingList (TerminationEvt p)"
  "ReadyList p \<noteq> AllList p" "ProcessList p \<noteq> AllList p" "ProcessList p \<noteq> ReadyList p"
  by (simp_all add: EventWaitingList_def TerminationEvt_def AllList_def ReadyList_def ProcessList_def)

lemma ThreadInit_ok:
  assumes ops: "LockOps s = LockSystemInit m" and all: "all_list s ts" and p: "fresh_thread s p" "NewThread a = p" and al: "NewName a" "NewStack a \<noteq> NULL"
    and prio: "prio \<le> ThreadPriorityMaximum" and cpu: "CpuSelf cpu \<noteq> NULL"
  shows "\<exists>h. ThreadInit cpu a name prio True s = Some (STATUS_SUCCESS, p, cpu, s\<lparr>threads := (threads s)(p \<mapsto> init_THREAD p (NewStack a) name (CurrentTid s) prio),
      events := (events s)(TerminationEvt p \<mapsto> \<lparr>EventLock = FREE, ExEvtType = ExEventTypeNotification, Signaled = 0\<rparr>),
      entries := h, CurrentTid := CurrentTid s + TID_INCREMENT, resume := (resume s)(p := Fresh)\<rparr>)
    \<and> is_list h (AllThreadsList s) (map AllList (ts @ [p])) \<and> is_list h (EventWaitingList (TerminationEvt p)) []
    \<and> dom h = dom (entries s) \<union> own_entries p
    \<and> (\<forall>x. x \<notin> set (AllThreadsList s # map AllList ts) \<union> own_entries p \<longrightarrow> h x = entries s x)"
proof -
  let ?s = "AllocThread p s"
  have l: "is_list (entries s) (AllThreadsList s) (map AllList ts)" "AllThreadsLock s = FREE" using all by (auto simp: all_list_def)
  have own: "own_entries p \<inter> set (AllThreadsList s # map AllList ts) = {}" using p(1) is_list_dom [OF l(1)] unfolding fresh_thread_def by blast
  have dom0: "dom (entries ?s) = dom (entries s) \<union> own_entries p" by (auto simp: AllocThread_def own_entries_def)
  from InitializeListHead_ok [of "EventWaitingList (TerminationEvt p)" "entries ?s"] dom0 obtain h1
    where h1: "InitializeListHead (entries ?s) (EventWaitingList (TerminationEvt p)) = Some h1" "is_list h1 (EventWaitingList (TerminationEvt p)) []"
      "only_changes {EventWaitingList (TerminationEvt p)} (entries ?s) h1" by (auto simp: own_entries_def)
  have h1x: "h1 x = entries s x" if "x \<notin> own_entries p" for x
    using h1(3) that by (auto simp: only_changes_def AllocThread_def own_entries_def)
  have l1: "is_list h1 (AllThreadsList s) (map AllList ts)" by (rule is_list_frame [OF l(1)]) (use h1x own in auto)
  have "AllList p \<notin> set (AllThreadsList s # map AllList ts)" using own by (auto simp: own_entries_def)
  moreover have "AllList p \<in> dom h1" using h1(3) dom0 by (auto simp: only_changes_def own_entries_def)
  ultimately obtain h2 where h2: "InsertTailList h1 (AllThreadsList s) (AllList p) = Some h2" "is_list h2 (AllThreadsList s) (map AllList ts @ [AllList p])"
    "only_changes (set (AllList p # AllThreadsList s # map AllList ts)) h1 h2" using InsertTailList_ok [OF l1] by blast
  have "EventWaitingList (TerminationEvt p) \<notin> set (AllList p # AllThreadsList s # map AllList ts)" using own by (auto simp: own_entries_def)
  then have "is_list h2 (EventWaitingList (TerminationEvt p)) []" by (intro only_changes_is_list [OF h2(3) h1(2)]) simp
  moreover have "dom h2 = dom (entries s) \<union> own_entries p" using h2(3) h1(3) dom0 by (simp add: only_changes_def)
  moreover have "h2 x = entries s x" if "x \<notin> set (AllThreadsList s # map AllList ts) \<union> own_entries p" for x
    using that h2(3) h1x [of x] by (auto simp: only_changes_def own_entries_def)
  moreover have "ThreadInit cpu a name prio True s = Some (STATUS_SUCCESS, p, cpu, s\<lparr>threads := (threads s)(p \<mapsto> init_THREAD p (NewStack a) name (CurrentTid s) prio),
      events := (events s)(TerminationEvt p \<mapsto> \<lparr>EventLock = FREE, ExEvtType = ExEventTypeNotification, Signaled = 0\<rparr>),
      entries := h2, CurrentTid := CurrentTid s + TID_INCREMENT, resume := (resume s)(p := Fresh)\<rparr>)"
    using h1(1) h2(1) l(2) p al prio cpu ops
    by (cases s) (simp add: ThreadInit_def AllocThread_def ExEventInit_def ThreadSystemGetNextTid_def InsertTail_def kernel_simps fresh_thread_def
        init_THREAD_def zero_THREAD_def LockInit_FREE Let_def)
  ultimately show ?thesis using h2(2) by (intro exI [of _ h2]) auto
qed

lemma succ_le_succ:
  fixes a n :: DWORD
  assumes "a \<le> n" "n < MAX_DWORD"
  shows "a + 1 \<le> n + 1"
proof -
  have "unat n < 2 ^ 32 - 1" "unat a \<le> unat n" using assms by (simp_all add: word_less_nat_alt word_le_nat_alt)
  moreover have "unat (x + 1) = unat x + 1" if "unat x < 2 ^ 32 - 1" for x :: DWORD using that by (simp add: unat_word_ariths)
  ultimately show ?thesis by (simp add: word_le_nat_alt)
qed

definition joined :: "PROCESS \<Rightarrow> PROCESS" where
  "joined P = P\<lparr>NumberOfThreads := NumberOfThreads P + 1, ActiveThreads := ActiveThreads P + 1, ProcRefCnt := ProcRefCnt P + 1\<rparr>"

lemma ProcessInsert_ok:
  assumes ops: "LockOps s = LockSystemInit m" and pl: "proc_list s Pr P ts" "length ts < 2 ^ 32 - 1" and ref: "ProcRefCnt P < MAX_DWORD - 1" and cpu: "CpuSelf cpu \<noteq> NULL"
    and t: "threads s t = Some T" "t \<noteq> NULL" "ProcessList t \<in> dom (entries s)" "ProcessList t \<notin> set (ThreadList Pr # map ProcessList ts)"
  shows "\<exists>h. ProcessInsertThreadInList cpu Pr t s = Some (cpu, s\<lparr>threads := (threads s)(t \<mapsto> T\<lparr>Process := Pr\<rparr>), entries := h,
        processes := (processes s)(Pr \<mapsto> joined P)\<rparr>)
    \<and> is_list h (ThreadList Pr) (map ProcessList (ts @ [t])) \<and> only_changes (set (ProcessList t # ThreadList Pr # map ProcessList ts)) (entries s) h"
proof -
  have P: "Pr \<noteq> NULL" "processes s Pr = Some P" "ThreadListLock P = FREE" "is_list (entries s) (ThreadList Pr) (map ProcessList ts)"
    "NumberOfThreads P = of_nat (length ts)" "ActiveThreads P \<le> NumberOfThreads P" using pl(1) by (auto simp: proc_list_def)
  have N: "NumberOfThreads P < MAX_DWORD" using P(5) pl(2) by (simp add: word_less_nat_alt unat_of_nat take_bit_nat_eq_self)
  have A: "ActiveThreads P + 1 \<le> NumberOfThreads P + 1" by (rule succ_le_succ [OF P(6) N])
  have "unat (ProcRefCnt P + 1) = unat (ProcRefCnt P) + 1" using ref by (simp add: word_less_nat_alt unat_word_ariths)
  then have R: "ProcRefCnt P + 1 < MAX_DWORD" "1 \<le> ProcRefCnt P + 1" using ref by (simp_all add: word_less_nat_alt word_le_nat_alt)
  from InsertTailList_ok [OF P(4) t(3,4)] obtain h where h: "InsertTailList (entries s) (ThreadList Pr) (ProcessList t) = Some h"
    "is_list h (ThreadList Pr) (map ProcessList ts @ [ProcessList t])" "only_changes (set (ProcessList t # ThreadList Pr # map ProcessList ts)) (entries s) h" by blast
  have "ProcessInsertThreadInList cpu Pr t s = Some (cpu, s\<lparr>threads := (threads s)(t \<mapsto> T\<lparr>Process := Pr\<rparr>), entries := h, processes := (processes s)(Pr \<mapsto> joined P)\<rparr>)"
    using ops P t(1,2) N A R h(1) cpu
    by (cases P; cases s) (simp add: ProcessInsertThreadInList_def ProcessReference_def RfcReference_def InsertTail_def AcquireThreadList_def ReleaseThreadList_def
        kernel_simps joined_def Let_def)
  then show ?thesis using h(2,3) by auto
qed

section \<open>The first run of a thread\<close>

lemma zero_qwords_apply: "zero_qwords p n mem x = (if \<exists>i < n. x = p + 8 * of_nat i then 0 else mem x)"
proof (induction n)
  case (Suc n)
  have "zero_qwords p (Suc n) mem = (zero_qwords p n mem)(p + 8 * of_nat n := 0)" by (simp add: zero_qwords_def)
  then show ?case using Suc by (auto simp: less_Suc_eq)
qed (simp add: zero_qwords_def)

text \<open>
  What \<open>ThreadSwitch\<close> and \<open>ThreadStart\<close> (\<open>_thread.yasm\<close>) take from the stack of a thread that was never
  run: the argument registers, the address to which \<^verbatim>\<open>ret\<close> goes behind the processor state, and the five
  values of \<^verbatim>\<open>iretq\<close>.
\<close>

record FIRST_RUN =
  RunRet :: QWORD
  RunRcx :: QWORD
  RunRdx :: QWORD
  RunRip :: QWORD
  RunCs :: QWORD
  RunRflags :: QWORD
  RunRsp :: QWORD
  RunSs :: QWORD

definition first_run :: "(ptr \<Rightarrow> QWORD) \<Rightarrow> ptr \<Rightarrow> FIRST_RUN" where
  "first_run mem rsp = (let ret = rsp + COMPLETE_PROCESSOR_STATE_size; iret = ret + 8 in
     \<lparr>RunRet = mem ret, RunRcx = mem (rsp + REGISTER_AREA_offset + 8), RunRdx = mem (rsp + REGISTER_AREA_offset + 16),
      RunRip = mem iret, RunCs = mem (iret + 8), RunRflags = mem (iret + 16), RunRsp = mem (iret + 24), RunSs = mem (iret + 32)\<rparr>)"

definition first_frame_size :: QWORD where "first_frame_size = 0x4E8"

definition expected_run :: "CODE \<Rightarrow> ptr \<Rightarrow> ptr \<Rightarrow> ptr \<Rightarrow> QWORD \<Rightarrow> QWORD \<Rightarrow> bool \<Rightarrow> FIRST_RUN" where
  "expected_run code base user start a1 a2 kern = \<lparr>RunRet = ThreadStart_address code, RunRcx = a1, RunRdx = a2, RunRip = start,
     RunCs = (if kern then 0x18 else 0x4B), RunRflags = 0x202, RunRsp = (if kern then base - 40 else user), RunSs = (if kern then 0x20 else 0x53)\<rparr>"

lemma outside_state:
  fixes p :: ptr
  assumes "i < 146" "0x490 \<le> d" "d < 0x1000"
  shows "p + 8 * of_nat i \<noteq> p + of_nat d"
proof -
  have "8 * of_nat i \<noteq> (of_nat d :: ptr)"
  proof
    assume "8 * of_nat i = (of_nat d :: ptr)"
    then have "(of_nat (8 * i) :: ptr) = of_nat d" by simp
    then have "take_bit 64 (8 * i) = take_bit 64 d" unfolding word_of_nat_eq_iff by simp
    then show False using assms by (simp add: take_bit_nat_eq_self)
  qed
  then show ?thesis by simp
qed

lemma ThreadSetup_ok:
  assumes T: "threads s t = Some T" "t \<noteq> NULL" "start \<noteq> NULL" "kern \<or> UserStack T \<noteq> NULL"
  defines "base \<equiv> Stack T"
  shows "\<exists>mem. ThreadSetupInitialState code t start a1 a2 kern s = Some (STATUS_SUCCESS, s\<lparr>threads := (threads s)(t \<mapsto> T\<lparr>Stack := base - first_frame_size\<rparr>), StackMem := mem\<rparr>)
    \<and> first_run mem (base - first_frame_size) = expected_run code base (UserStack T) start a1 a2 kern
    \<and> (\<forall>x. (\<forall>i < 152. x \<noteq> base - first_frame_size + 8 * of_nat i) \<longrightarrow> mem x = StackMem s x)"
proof -
  define p where "p = base - first_frame_size"
  have base: "Stack T = p + 0x4E8" by (simp add: p_def first_frame_size_def base_def)
  let ?mem = "StackMem (snd (the (ThreadSetupInitialState code t start a1 a2 kern s)))"
  have out: "(\<exists>i < 146. 8 * of_nat i = (of_nat k :: ptr)) = False" if "0x490 \<le> k" "k < 0x1000" for k
    using outside_state [of _ k p] that by simp
  have o: "(\<exists>i < 146. 8 * of_nat i = (0x490 :: ptr)) = False" "(\<exists>i < 146. 8 * of_nat i = (0x498 :: ptr)) = False" "(\<exists>i < 146. 8 * of_nat i = (0x4A0 :: ptr)) = False"
    "(\<exists>i < 146. 8 * of_nat i = (0x4A8 :: ptr)) = False" "(\<exists>i < 146. 8 * of_nat i = (0x4B0 :: ptr)) = False" "(\<exists>i < 146. 8 * of_nat i = (0x4B8 :: ptr)) = False"
    using out [of "0x490"] out [of "0x498"] out [of "0x4A0"] out [of "0x4A8"] out [of "0x4B0"] out [of "0x4B8"] by simp_all
  have far: "\<not> (\<exists>i < 146. x = p + 8 * of_nat i)" if "\<forall>i < 152. x \<noteq> p + 8 * of_nat i" for x
  proof
    assume "\<exists>i < 146. x = p + 8 * of_nat i"
    then obtain i where "i < 146" "x = p + 8 * of_nat i" by blast
    with that [rule_format, of i] show False by simp
  qed
  have eq: "ThreadSetupInitialState code t start a1 a2 kern s = Some (STATUS_SUCCESS, s\<lparr>threads := (threads s)(t \<mapsto> T\<lparr>Stack := p\<rparr>), StackMem := ?mem\<rparr>)"
    using T by (simp add: ThreadSetupInitialState_def Let_def upd_thr_def base)
  have "first_run ?mem p = expected_run code (p + 0x4E8) (UserStack T) start a1 a2 kern"
    using T by (simp add: ThreadSetupInitialState_def Let_def upd_thr_def base first_run_def expected_run_def zero_qwords_apply
        GdtMuRetrieveSelectorIndex_def o)
  moreover have "?mem x = StackMem s x" if x: "\<forall>i < 152. x \<noteq> p + 8 * of_nat i" for x
    using T far [OF x] x [rule_format, of 129] x [rule_format, of 130] x [rule_format, of 146] x [rule_format, of 147] x [rule_format, of 148] x [rule_format, of 149] x [rule_format, of 150] x [rule_format, of 151]
    by (simp add: ThreadSetupInitialState_def Let_def upd_thr_def base zero_qwords_apply add.commute [of p]) blast
  moreover have "base - first_frame_size = p" "base = p + 0x4E8" by (simp_all add: p_def first_frame_size_def)
  ultimately show ?thesis using eq by (intro exI [of _ ?mem] conjI allI impI) simp_all
qed

section \<open>The lists of threads\<close>

text \<open>
  The memory of different threads does not overlap and does not contain the list heads \<open>hs\<close>, so lists
  through different entries of the threads have no entry in common.
\<close>

definition separate :: "ptr set \<Rightarrow> ptr list \<Rightarrow> bool" where
  "separate X hs = (distinct hs \<and> (\<forall>t \<in> X. own_entries t \<inter> set hs = {}) \<and> (\<forall>t \<in> X. \<forall>u \<in> X. t \<noteq> u \<longrightarrow> own_entries t \<inter> own_entries u = {}))"

lemma separate_insert:
  assumes "separate X hs" "own_entries p \<inter> set hs = {}" "\<And>t. t \<in> X \<Longrightarrow> own_entries p \<inter> own_entries t = {}"
  shows "separate (insert p X) hs"
  using assms unfolding separate_def by (auto simp: Int_commute)

lemma separate_mono: "separate X hs \<Longrightarrow> Y \<subseteq> X \<Longrightarrow> separate Y hs"
  unfolding separate_def by blast

lemma separate_lists:
  assumes s: "separate X hs" and h: "a \<in> set hs" "b \<in> set hs" "a \<noteq> b" and x: "set xs \<subseteq> X" "set ys \<subseteq> X"
    and f: "\<And>t. f t \<in> own_entries t" "\<And>t. g t \<in> own_entries t" "\<And>t. f t \<noteq> g t"
  shows "set (a # map f xs) \<inter> set (b # map g ys) = {}"
proof -
  have "a \<noteq> g y" if "y \<in> set ys" for y using s h(1) x(2) f(2) [of y] that unfolding separate_def by blast
  moreover have "f y \<noteq> b" if "y \<in> set xs" for y using s h(2) x(1) f(1) [of y] that unfolding separate_def by blast
  moreover have "f y \<noteq> g z" if "y \<in> set xs" "z \<in> set ys" for y z
  proof (cases "y = z")
    case False
    then have "own_entries y \<inter> own_entries z = {}" using s x that unfolding separate_def by blast
    then show ?thesis using f(1) [of y] f(2) [of z] by auto
  qed (use f(3) in simp)
  ultimately show ?thesis using h(3) by auto
qed

lemma own_mem [simp]: "AllList t \<in> own_entries t" "ReadyList t \<in> own_entries t" "ProcessList t \<in> own_entries t"
  by (simp_all add: own_entries_def)

definition list_heads :: "SYS \<Rightarrow> ptr \<Rightarrow> ptr list" where
  "list_heads s Pr = [AllThreadsList s, ReadyThreadsList s, ThreadList Pr]"

text \<open>
  Every thread is in the list of all threads, and the threads of the process \<open>Pr\<close> are those in its list and
  are counted.
\<close>

definition life_inv :: "bool \<Rightarrow> SYS \<Rightarrow> ptr list \<Rightarrow> ptr list \<Rightarrow> ptr \<Rightarrow> PROCESS \<Rightarrow> ptr list \<Rightarrow> bool" where
  "life_inv m s q ts Pr P us = (sched_inv m s q \<and> all_list s ts \<and> proc_list s Pr P us \<and> set ts = dom (threads s)
     \<and> set us = {t. \<exists>T. threads s t = Some T \<and> Process T = Pr} \<and> separate (dom (threads s)) (list_heads s Pr)
     \<and> (\<forall>t \<in> dom (threads s). own_entries t \<subseteq> dom (entries s)))"

lemma life_lists_disjoint:
  assumes "separate X (list_heads s Pr)" "set q \<subseteq> X" "set ts \<subseteq> X" "set us \<subseteq> X"
  shows "set (AllThreadsList s # map AllList ts) \<inter> set (ReadyThreadsList s # map ReadyList q) = {}"
    "set (AllThreadsList s # map AllList ts) \<inter> set (ThreadList Pr # map ProcessList us) = {}"
    "set (ReadyThreadsList s # map ReadyList q) \<inter> set (ThreadList Pr # map ProcessList us) = {}"
  using assms(1) by (intro separate_lists [OF assms(1)]; use assms in \<open>simp add: list_heads_def separate_def\<close>)+

lemma life_inv_dest:
  assumes "life_inv m s q ts Pr P us"
  shows "sched_inv m s q" "all_list s ts" "proc_list s Pr P us" "separate (dom (threads s)) (list_heads s Pr)"
    "set q \<subseteq> dom (threads s)" "set ts \<subseteq> dom (threads s)" "set us \<subseteq> dom (threads s)" "set (list_heads s Pr) \<subseteq> dom (entries s)"
    "LockOps s = LockSystemInit m"
proof -
  show i: "sched_inv m s q" "all_list s ts" "proc_list s Pr P us" "separate (dom (threads s)) (list_heads s Pr)"
    "set ts \<subseteq> dom (threads s)" "set us \<subseteq> dom (threads s)" using assms by (auto simp: life_inv_def)
  show "set q \<subseteq> dom (threads s)" using sched_inv_queued [OF i(1)] by auto
  show "LockOps s = LockSystemInit m" using i(1) by (simp add: sched_inv_def)
  have "is_list (entries s) (AllThreadsList s) (map AllList ts)" "is_list (entries s) (ReadyThreadsList s) (map ReadyList q)"
    "is_list (entries s) (ThreadList Pr) (map ProcessList us)" using i(1-3) by (auto simp: all_list_def proc_list_def sched_inv_def)
  from this [THEN is_list_dom] show "set (list_heads s Pr) \<subseteq> dom (entries s)" by (simp add: list_heads_def)
qed

lemma fresh_separate:
  assumes l: "life_inv m s q ts Pr P us" and p: "fresh_thread s p"
  shows "separate (insert p (dom (threads s))) (list_heads s Pr)" "off_cpu s q p"
proof -
  show "separate (insert p (dom (threads s))) (list_heads s Pr)"
  proof (rule separate_insert)
    show "separate (dom (threads s)) (list_heads s Pr)" by (rule life_inv_dest(4) [OF l])
    show "own_entries p \<inter> set (list_heads s Pr) = {}" using p life_inv_dest(8) [OF l] unfolding fresh_thread_def by blast
    show "own_entries p \<inter> own_entries t = {}" if "t \<in> dom (threads s)" for t
      using p l that unfolding fresh_thread_def life_inv_def by blast
  qed
  have "p \<notin> set q" using life_inv_dest(5) [OF l] p by (auto simp: fresh_thread_def)
  moreover have "p \<noteq> CurrentThread C \<and> p \<noteq> IdleThread C" if "pcpus s c = Some C" for c C
    using sched_inv_dest(4) [OF life_inv_dest(1) [OF l] that] p by (auto simp: cpu_inv_def thread_at_def resumable_def fresh_thread_def)
  ultimately show "off_cpu s q p" by (auto simp: off_cpu_def)
qed

text \<open>The user stack of a new thread and where it starts with which two arguments.\<close>

definition thread_start :: "CODE \<Rightarrow> ALLOCATIONS \<Rightarrow> PROCESS \<Rightarrow> ptr \<Rightarrow> ptr \<Rightarrow> ptr \<times> ptr \<times> QWORD \<times> QWORD" where
  "thread_start code a P f ctx =
     (if KernelSpace P then (NULL, ThreadKernelFunction_address code, f, ctx)
      else if f = AddressOfEntryPoint P then (NewUserStack a, f, ucast (NumberOfArguments P), NewUserStack a + (SHADOW_STACK_SIZE + 8))
      else (NewUserStack a - (SHADOW_STACK_SIZE + 8), f, ctx, 0))"

text \<open>The conditions under which a thread can be created.\<close>

definition can_create :: "SYS \<Rightarrow> CPU \<Rightarrow> CODE \<Rightarrow> ALLOCATIONS \<Rightarrow> DWORD \<Rightarrow> ptr \<Rightarrow> ptr \<Rightarrow> PROCESS \<Rightarrow> ptr list \<Rightarrow> bool" where
  "can_create s cpu code a prio f out P us = (fresh_thread s (NewThread a) \<and> NewName a \<and> NewStack a \<noteq> NULL
     \<and> (KernelSpace P \<or> NewUserStack a \<noteq> NULL \<and> NewUserStack a \<noteq> SHADOW_STACK_SIZE + 8 \<and> (f = AddressOfEntryPoint P \<longrightarrow> us = []))
     \<and> prio \<le> ThreadPriorityMaximum \<and> CpuSelf cpu \<noteq> NULL \<and> (\<exists>C. pcpus s (CpuSelf cpu) = Some C \<and> IdleThread C \<noteq> NULL)
     \<and> f \<noteq> NULL \<and> out \<noteq> NULL \<and> ThreadKernelFunction_address code \<noteq> NULL \<and> length us < 2 ^ 32 - 1 \<and> ProcRefCnt P < MAX_DWORD - 1)"

lemma ThreadCreate_prepared:
  fixes name :: string
  assumes l: "life_inv m s q ts Pr P us" and can: "can_create s cpu code a prio f out P us" and st: "thread_start code a P f ctx = (user, start, a1, a2)"
  defines "p \<equiv> NewThread a"
  defines "T \<equiv> (init_THREAD p (NewStack a) name (CurrentTid s) prio)\<lparr>Process := Pr, RefCnt := 2, UserStack := user, Stack := NewStack a - first_frame_size\<rparr>"
  shows "\<exists>h mem s4. ThreadCreateEx cpu code a (Some name) prio f ctx out Pr s = do { (cpu, s) \<leftarrow> ThreadUnblock cpu p s4; Some (STATUS_SUCCESS, p, cpu, s) }
    \<and> s4 = s\<lparr>threads := (threads s)(p \<mapsto> T), events := (events s)(TerminationEvt p \<mapsto> \<lparr>EventLock = FREE, ExEvtType = ExEventTypeNotification, Signaled = 0\<rparr>),
        entries := h, CurrentTid := CurrentTid s + TID_INCREMENT, resume := (resume s)(p := Fresh), processes := (processes s)(Pr \<mapsto> joined P), StackMem := mem\<rparr>
    \<and> is_list h (AllThreadsList s) (map AllList (ts @ [p])) \<and> is_list h (ThreadList Pr) (map ProcessList (us @ [p]))
    \<and> is_list h (EventWaitingList (TerminationEvt p)) [] \<and> dom h = dom (entries s) \<union> own_entries p
    \<and> (\<forall>x. x \<notin> set (AllThreadsList s # map AllList ts) \<union> set (ThreadList Pr # map ProcessList us) \<union> own_entries p \<longrightarrow> h x = entries s x)
    \<and> first_run mem (Stack T) = expected_run code (NewStack a) user start a1 a2 (KernelSpace P)"
proof -
  note d = life_inv_dest [OF l]
  have c: "fresh_thread s p" "NewName a" "NewStack a \<noteq> NULL" "prio \<le> ThreadPriorityMaximum" "CpuSelf cpu \<noteq> NULL" "f \<noteq> NULL" "out \<noteq> NULL"
    "ThreadKernelFunction_address code \<noteq> NULL" "length us < 2 ^ 32 - 1" "ProcRefCnt P < MAX_DWORD - 1"
    "KernelSpace P \<or> NewUserStack a \<noteq> NULL \<and> NewUserStack a \<noteq> SHADOW_STACK_SIZE + 8 \<and> (f = AddressOfEntryPoint P \<longrightarrow> us = [])"
    using can by (simp_all add: can_create_def p_def)
  obtain C where C: "pcpus s (CpuSelf cpu) = Some C" "IdleThread C \<noteq> NULL" using can by (auto simp: can_create_def)
  note dis = life_lists_disjoint [OF d(4-7)]
  note sep = fresh_separate(1) [OF l c(1)]
  have sub: "set q \<subseteq> insert p (dom (threads s))" "set (ts @ [p]) \<subseteq> insert p (dom (threads s))" "set (us @ [p]) \<subseteq> insert p (dom (threads s))"
    using d(5-7) by auto
  have own: "own_entries p \<inter> set (ThreadList Pr # map ProcessList us) = {}"
    using is_list_dom [of "entries s" "ThreadList Pr" "map ProcessList us"] d(3) c(1) unfolding fresh_thread_def proc_list_def by blast
  have pn: "p \<noteq> NULL" "NewThread a = p" using c(1) by (simp_all add: fresh_thread_def p_def)
  let ?T0 = "init_THREAD p (NewStack a) name (CurrentTid s) prio"
  from ThreadInit_ok [OF d(9) d(2) c(1) pn(2) c(2-5), of name] obtain h1
    where h1: "ThreadInit cpu a name prio True s = Some (STATUS_SUCCESS, p, cpu, s\<lparr>threads := (threads s)(p \<mapsto> ?T0),
      events := (events s)(TerminationEvt p \<mapsto> \<lparr>EventLock = FREE, ExEvtType = ExEventTypeNotification, Signaled = 0\<rparr>),
      entries := h1, CurrentTid := CurrentTid s + TID_INCREMENT, resume := (resume s)(p := Fresh)\<rparr>)" (is "_ = Some (_, _, _, ?s1)")
    "is_list h1 (AllThreadsList s) (map AllList (ts @ [p]))" "is_list h1 (EventWaitingList (TerminationEvt p)) []"
    "dom h1 = dom (entries s) \<union> own_entries p" "\<forall>x. x \<notin> set (AllThreadsList s # map AllList ts) \<union> own_entries p \<longrightarrow> h1 x = entries s x" by blast
  have "is_list h1 (ThreadList Pr) (map ProcessList us)"
    by (rule is_list_frame_set [OF _ h1(5)]) (use d(3) dis(2) own in \<open>auto simp: proc_list_def\<close>)
  then have pl: "proc_list ?s1 Pr P us" using d(3) by (auto simp: proc_list_def)
  have "ProcessList p \<in> dom (entries ?s1)" "ProcessList p \<notin> set (ThreadList Pr # map ProcessList us)" using h1(4) own by (auto simp: own_entries_def)
  from ProcessInsert_ok [of ?s1 m Pr P us cpu p ?T0, OF _ pl c(9,10,5) _ pn(1) this] d(9) obtain h2
    where h2: "ProcessInsertThreadInList cpu Pr p ?s1 = Some (cpu, ?s1\<lparr>threads := (threads ?s1)(p \<mapsto> ?T0\<lparr>Process := Pr\<rparr>), entries := h2,
        processes := (processes s)(Pr \<mapsto> joined P)\<rparr>)" (is "_ = Some (_, ?s2)")
    "is_list h2 (ThreadList Pr) (map ProcessList (us @ [p]))" "only_changes (set (ProcessList p # ThreadList Pr # map ProcessList us)) h1 h2" by auto
  define T2 where "T2 = ?T0\<lparr>Process := Pr, RefCnt := 2, UserStack := user\<rparr>"
  define s3 where "s3 = ?s2\<lparr>threads := (threads s)(p \<mapsto> T2)\<rparr>"
  have T2: "threads s3 p = Some T2" "start \<noteq> NULL" "KernelSpace P \<or> UserStack T2 \<noteq> NULL" "Stack T2 = NewStack a" "UserStack T2 = user"
    using st c(6,8,11) by (auto simp: s3_def T2_def thread_start_def init_THREAD_def split: if_splits)
  from ThreadSetup_ok [OF T2(1) pn(1) T2(2,3), of code a1 a2] obtain mem
    where mem: "ThreadSetupInitialState code p start a1 a2 (KernelSpace P) s3
        = Some (STATUS_SUCCESS, s3\<lparr>threads := (threads s3)(p \<mapsto> T2\<lparr>Stack := NewStack a - first_frame_size\<rparr>), StackMem := mem\<rparr>)"
      "first_run mem (NewStack a - first_frame_size) = expected_run code (NewStack a) user start a1 a2 (KernelSpace P)" unfolding T2(4,5) by blast
  have k: "KernelSpace (joined P) = KernelSpace P" "AddressOfEntryPoint (joined P) = AddressOfEntryPoint P" "NumberOfArguments (joined P) = NumberOfArguments P"
    "NumberOfThreads (joined P) = NumberOfThreads P + 1" by (simp_all add: joined_def)
  have u1: "us = [] \<Longrightarrow> NumberOfThreads P = 0" using d(3) by (simp add: proc_list_def)
  have ref: "ThreadReference p ?s2 = Some (?s2\<lparr>threads := (threads s)(p \<mapsto> ?T0\<lparr>Process := Pr, RefCnt := 2\<rparr>)\<rparr>)"
    using pn(1) by (simp add: ThreadReference_def RfcReference_def upd_thr_def init_THREAD_def zero_THREAD_def)
  have "ThreadCreateEx cpu code a (Some name) prio f ctx out Pr s = do { (cpu, s) \<leftarrow> ThreadUnblock cpu p
      (s3\<lparr>threads := (threads s3)(p \<mapsto> T2\<lparr>Stack := NewStack a - first_frame_size\<rparr>), StackMem := mem\<rparr>); Some (STATUS_SUCCESS, p, cpu, s) }"
    using h1(1) h2(1) ref mem(1) c st C d(3) k u1 unfolding proc_list_def
    by (auto simp: ThreadCreateEx_def thread_start_def ThreadSetupMainThreadUserStack_def upd_thr_def s3_def T2_def init_THREAD_def zero_THREAD_def split: if_splits)
  moreover have "is_list h2 (AllThreadsList s) (map AllList (ts @ [p]))"
    by (rule only_changes_is_list [OF h2(3) h1(2)])
      (use life_lists_disjoint(2) [OF sep sub] in auto)
  moreover have "is_list h2 (EventWaitingList (TerminationEvt p)) []"
    by (rule only_changes_is_list [OF h2(3) h1(3)]) (use own in \<open>auto simp: own_entries_def\<close>)
  moreover have "dom h2 = dom (entries s) \<union> own_entries p" using h2(3) h1(4) by (simp add: only_changes_def)
  moreover have "h2 x = entries s x" if "x \<notin> set (AllThreadsList s # map AllList ts) \<union> set (ThreadList Pr # map ProcessList us) \<union> own_entries p" for x
    using that h2(3) h1(5) by (auto simp: only_changes_def own_entries_def)
  moreover have "s3\<lparr>threads := (threads s3)(p \<mapsto> T2\<lparr>Stack := NewStack a - first_frame_size\<rparr>), StackMem := mem\<rparr>
      = s\<lparr>threads := (threads s)(p \<mapsto> T), events := (events s)(TerminationEvt p \<mapsto> \<lparr>EventLock = FREE, ExEvtType = ExEventTypeNotification, Signaled = 0\<rparr>),
        entries := h2, CurrentTid := CurrentTid s + TID_INCREMENT, resume := (resume s)(p := Fresh), processes := (processes s)(Pr \<mapsto> joined P), StackMem := mem\<rparr>"
    by (simp add: s3_def T2_def T_def)
  moreover have "Stack T = NewStack a - first_frame_size" by (simp add: T_def)
  ultimately show ?thesis using h2(2) mem(2) by (intro exI [of _ h2] exI [of _ mem]) auto
qed

lemma proc_list_joined:
  assumes "proc_list s Pr P us" "length us < 2 ^ 32 - 1" "processes s' = (processes s)(Pr \<mapsto> joined P)"
    "is_list (entries s') (ThreadList Pr) (map ProcessList (us @ [p]))"
  shows "proc_list s' Pr (joined P) (us @ [p])"
proof -
  have "NumberOfThreads P < MAX_DWORD" using assms(1,2) by (simp add: proc_list_def word_less_nat_alt unat_of_nat take_bit_nat_eq_self)
  then have "ActiveThreads P + 1 \<le> NumberOfThreads P + 1" using assms(1) by (intro succ_le_succ) (auto simp: proc_list_def)
  then show ?thesis using assms by (auto simp: proc_list_def joined_def add.commute)
qed

lemma ThreadCreateEx_ok:
  fixes name :: string
  assumes l: "life_inv m s q ts Pr P us" and can: "can_create s cpu code a prio f out P us" and st: "thread_start code a P f ctx = (user, start, a1, a2)"
  defines "p \<equiv> NewThread a"
  shows "\<exists>s' T. ThreadCreateEx cpu code a (Some name) prio f ctx out Pr s = Some (STATUS_SUCCESS, p, cpu, s')
    \<and> life_inv m s' (q @ [p]) (ts @ [p]) Pr (joined P) (us @ [p]) \<and> threads s' = (threads s)(p \<mapsto> T)
    \<and> RefCnt T = 2 \<and> TState T = ThreadStateReady \<and> Id T = CurrentTid s \<and> Name T = Some name \<and> Priority T = prio \<and> CurrentTid s' = CurrentTid s + TID_INCREMENT
    \<and> event_inv s' (q @ [p]) (TerminationEvt p) ExEventTypeNotification 0 []
    \<and> first_run (StackMem s') (Stack T) = expected_run code (NewStack a) user start a1 a2 (KernelSpace P)"
proof -
  note d = life_inv_dest [OF l]
  have c: "fresh_thread s p" "CpuSelf cpu \<noteq> NULL" "length us < 2 ^ 32 - 1" using can by (simp_all add: can_create_def p_def)
  define T where "T = (init_THREAD p (NewStack a) name (CurrentTid s) prio)\<lparr>Process := Pr, RefCnt := 2, UserStack := user, Stack := NewStack a - first_frame_size\<rparr>"
  from ThreadCreate_prepared [OF l can st, of name, folded p_def, folded T_def] obtain h mem s4
    where cr: "ThreadCreateEx cpu code a (Some name) prio f ctx out Pr s = do { (cpu, s) \<leftarrow> ThreadUnblock cpu p s4; Some (STATUS_SUCCESS, p, cpu, s) }"
      and s4: "s4 = s\<lparr>threads := (threads s)(p \<mapsto> T), events := (events s)(TerminationEvt p \<mapsto> \<lparr>EventLock = FREE, ExEvtType = ExEventTypeNotification, Signaled = 0\<rparr>),
        entries := h, CurrentTid := CurrentTid s + TID_INCREMENT, resume := (resume s)(p := Fresh), processes := (processes s)(Pr \<mapsto> joined P), StackMem := mem\<rparr>"
      and h: "is_list h (AllThreadsList s) (map AllList (ts @ [p]))" "is_list h (ThreadList Pr) (map ProcessList (us @ [p]))"
        "is_list h (EventWaitingList (TerminationEvt p)) []" "dom h = dom (entries s) \<union> own_entries p"
        "\<forall>x. x \<notin> set (AllThreadsList s # map AllList ts) \<union> set (ThreadList Pr # map ProcessList us) \<union> own_entries p \<longrightarrow> h x = entries s x"
      and fr: "first_run mem (Stack T) = expected_run code (NewStack a) user start a1 a2 (KernelSpace P)" by blast
  note sep = fresh_separate [OF l c(1)]
  have sub: "set q \<subseteq> insert p (dom (threads s))" "set (q @ [p]) \<subseteq> insert p (dom (threads s))" "set (ts @ [p]) \<subseteq> insert p (dom (threads s))" "set (us @ [p]) \<subseteq> insert p (dom (threads s))"
    using d(5-7) by auto
  note dis = life_lists_disjoint [OF sep(1) sub(2-4)]
  have ready: "is_list (entries s) (ReadyThreadsList s) (map ReadyList q)" using d(1) by (simp add: sched_inv_def)
  have own: "own_entries p \<inter> set (ReadyThreadsList s # map ReadyList q) = {}" using is_list_dom [OF ready] c(1) unfolding fresh_thread_def by blast
  then have "is_list h (ReadyThreadsList s) (map ReadyList q)" by (intro is_list_frame_set [OF ready h(5)]) (use dis in auto)
  then have inv4: "sched_inv m s4 q" by (intro sched_inv_other [OF d(1) sep(2), where X = "Some T" and r = Fresh]) (use h(4) in \<open>auto simp: s4 cpu_view_def\<close>)
  have "ReadyList p \<noteq> ReadyThreadsList s" using dis(3) sep(1) by (auto simp: separate_def list_heads_def own_entries_def)
  then have at: "thread_at s4 p T" "TState T = ThreadStateBlocked" "BlockLock T = FREE" "resume s4 p \<noteq> Gone" "p \<notin> set q"
    using c(1) sep(2) h(4) by (auto simp: thread_at_def s4 T_def init_THREAD_def fresh_thread_def off_cpu_def own_entries_def)
  from ThreadUnblock_ok [OF inv4 c(2) at] sep(2) obtain h'
    where u: "ThreadUnblock cpu p s4 = Some (cpu, s4\<lparr>entries := h', threads := (threads s4)(p \<mapsto> T\<lparr>TState := ThreadStateReady\<rparr>)\<rparr>)"
      "sched_inv m (s4\<lparr>entries := h', threads := (threads s4)(p \<mapsto> T\<lparr>TState := ThreadStateReady\<rparr>)\<rparr>) (q @ [p])"
      "only_changes (set (ReadyList p # ReadyThreadsList s # map ReadyList q)) h h'" by (auto simp: s4 off_cpu_def)
  define s5 where "s5 = s4\<lparr>entries := h', threads := (threads s4)(p \<mapsto> T\<lparr>TState := ThreadStateReady\<rparr>)\<rparr>"
  have ch: "is_list h' (AllThreadsList s) (map AllList (ts @ [p]))" "is_list h' (ThreadList Pr) (map ProcessList (us @ [p]))"
    by (rule only_changes_is_list [OF u(3) h(1)] only_changes_is_list [OF u(3) h(2)]; use dis in auto)+
  have th: "threads s5 = (threads s)(p \<mapsto> T\<lparr>TState := ThreadStateReady\<rparr>)" "dom h' = dom (entries s) \<union> own_entries p"
    using u(3) h(4) by (auto simp: s5_def s4 only_changes_def)
  have e: "entries s5 = h'" "list_heads s5 Pr = list_heads s Pr" "AllThreadsLock s5 = AllThreadsLock s" "AllThreadsList s5 = AllThreadsList s"
    "ReadyThreadsList s5 = ReadyThreadsList s" "processes s5 = (processes s)(Pr \<mapsto> joined P)" "Process T = Pr"
    "events s5 (TerminationEvt p) = Some \<lparr>EventLock = FREE, ExEvtType = ExEventTypeNotification, Signaled = 0\<rparr>"
    by (simp_all add: s5_def s4 list_heads_def T_def)
  have "dom (threads s5) = insert p (dom (threads s))" using th(1) by simp
  moreover have "{t. \<exists>U. threads s5 t = Some U \<and> Process U = Pr} = insert p {t. \<exists>U. threads s t = Some U \<and> Process U = Pr}"
    using c(1) e(7) by (auto simp: th(1) fresh_thread_def)
  moreover have "proc_list s5 Pr (joined P) (us @ [p])" using proc_list_joined [OF d(3) c(3)] ch(2) e by simp
  ultimately have "life_inv m s5 (q @ [p]) (ts @ [p]) Pr (joined P) (us @ [p])"
    using l u(2) [folded s5_def] ch(1) sep(1) th(2) e unfolding life_inv_def all_list_def by auto
  moreover have "event_inv s5 (q @ [p]) (TerminationEvt p) ExEventTypeNotification 0 []"
  proof -
    have "EventWaitingList (TerminationEvt p) \<in> own_entries p" by (simp add: own_entries_def)
    then have hd: "EventWaitingList (TerminationEvt p) \<notin> set (ReadyThreadsList s # map ReadyList q)" using own by blast
    then have "is_list h' (EventWaitingList (TerminationEvt p)) []" by (intro only_changes_is_list [OF u(3) h(3)]) auto
    moreover have "ReadyList t \<noteq> EventWaitingList (TerminationEvt p)" if "threads s5 t \<noteq> None" for t
    proof (cases "t = p")
      case False
      then have "own_entries p \<inter> own_entries t = {}" using sep(1) that unfolding separate_def by (auto simp: th(1))
      then show ?thesis by (auto simp: own_entries_def)
    qed simp
    ultimately show ?thesis using hd c(1) e by (auto simp: event_inv_def wait_list_def wait_head_def fresh_thread_def)
  qed
  moreover have "ThreadCreateEx cpu code a (Some name) prio f ctx out Pr s = Some (STATUS_SUCCESS, p, cpu, s5)" using cr u(1) by (simp add: s5_def)
  ultimately show ?thesis using th(1) fr
    by (intro exI [of _ s5] exI [of _ "T\<lparr>TState := ThreadStateReady\<rparr>"]) (simp add: s5_def s4 T_def init_THREAD_def)
qed

section \<open>Destruction\<close>

lemma RemoveEntry_ok:
  assumes l: "is_list (entries s) head (map f ts)" and t: "t \<in> set ts"
  shows "\<exists>h. (\<forall>s'. entries s' = entries s \<longrightarrow> RemoveEntry (f t) s' = Some (s'\<lparr>entries := h\<rparr>)) \<and> is_list h head (map f (remove1 t ts)) \<and> only_changes (set (head # map f ts)) (entries s) h"
proof -
  obtain xs ys where ts: "ts = xs @ t # ys" "t \<notin> set xs" using split_list_first [OF t] by blast
  from RemoveEntryList_ok [of "entries s" head "map f xs" "f t" "map f ys"] l obtain h
    where h: "RemoveEntryList (entries s) (f t) = Some (map f xs @ map f ys = [], h)" "is_list h head (map f xs @ map f ys)"
      "only_changes (set (head # map f xs @ map f ys)) (entries s) h" by (auto simp: ts(1))
  have "only_changes (set (head # map f ts)) (entries s) h" using h(3) by (rule only_changes_mono) (auto simp: ts(1))
  then show ?thesis using h ts by (auto simp: RemoveEntry_def remove1_append)
qed

lemma ProcessDereference_shared:
  assumes "processes s Pr = Some P" "Pr \<noteq> NULL" "1 < ProcRefCnt P"
  shows "ProcessDereference Pr s = Some (s\<lparr>processes := (processes s)(Pr \<mapsto> P\<lparr>ProcRefCnt := ProcRefCnt P - 1\<rparr>)\<rparr>)"
  using assms ref_minus_one [OF assms(3)] by (simp add: ProcessDereference_def RfcDereference_def upd_proc_def Let_def)

text \<open>The process loses a thread and, with its last thread, the reference that its threads share.\<close>

definition left_proc :: "PROCESS \<Rightarrow> PROCESS" where
  "left_proc P = P\<lparr>NumberOfThreads := NumberOfThreads P - 1, ProcRefCnt := ProcRefCnt P - (if NumberOfThreads P = 1 then 2 else 1)\<rparr>"

lemma ProcessRemove_ok:
  assumes ops: "LockOps s = LockSystemInit m" and pl: "proc_list s Pr P us" "t \<in> set us" and t: "threads s t = Some T" "t \<noteq> NULL" "Process T = Pr"
    and cpu: "CpuSelf cpu \<noteq> NULL" and ref: "(if NumberOfThreads P = 1 then 2 else 1) < ProcRefCnt P"
  shows "\<exists>h. ProcessRemoveThreadFromList cpu t s = Some (cpu, s\<lparr>entries := h, processes := (processes s)(Pr \<mapsto> left_proc P)\<rparr>)
    \<and> is_list h (ThreadList Pr) (map ProcessList (remove1 t us)) \<and> only_changes (set (ThreadList Pr # map ProcessList us)) (entries s) h"
proof -
  have P: "Pr \<noteq> NULL" "processes s Pr = Some P" "ThreadListLock P = FREE" "is_list (entries s) (ThreadList Pr) (map ProcessList us)"
    "NumberOfThreads P = of_nat (length us)" "length us < 2 ^ 32" using pl(1) by (auto simp: proc_list_def)
  have "length us \<noteq> 0" using pl(2) by auto
  then have "unat (NumberOfThreads P) \<noteq> 0" using P(5,6) by (simp add: unat_of_nat take_bit_nat_eq_self)
  then have N: "NumberOfThreads P - 1 \<noteq> MAX_DWORD" unfolding minus_one_MAX by auto
  from RemoveEntry_ok [OF P(4) pl(2)] obtain h
    where h: "\<forall>s'. entries s' = entries s \<longrightarrow> RemoveEntry (ProcessList t) s' = Some (s'\<lparr>entries := h\<rparr>)" "is_list h (ThreadList Pr) (map ProcessList (remove1 t us))"
      "only_changes (set (ThreadList Pr # map ProcessList us)) (entries s) h" by blast
  have P2: "1 < ProcRefCnt P" "NumberOfThreads P = 1 \<Longrightarrow> 1 < ProcRefCnt P - 1" "NumberOfThreads P = 1 \<longleftrightarrow> NumberOfThreads P - 1 = 0"
    using ref by (cases "NumberOfThreads P = 1"; simp; unat_arith)+
  have "ProcessRemoveThreadFromList cpu t s = Some (cpu, s\<lparr>entries := h, processes := (processes s)(Pr \<mapsto> left_proc P)\<rparr>)"
    using ops P(1-3) t cpu N P2 h(1)
    by (cases "NumberOfThreads P = 1"; cases P; cases s)
      (simp_all add: ProcessRemoveThreadFromList_def ProcessDereference_shared AcquireThreadList_def ReleaseThreadList_def kernel_simps left_proc_def Let_def)
  then show ?thesis using h(2,3) by blast
qed

text \<open>What is released together with a thread.\<close>

definition free_calls :: "ptr \<Rightarrow> THREAD \<Rightarrow> kernel_call list" where
  "free_calls t T = (if UserStack T \<noteq> NULL then [MmuFreeStack (UserStack T) (Process T)] else []) @ (if Name T \<noteq> None then [ExFreePool_Name t] else [])
     @ (if Stack T \<noteq> NULL then [MmuFreeStack (Stack T) NULL] else []) @ [ExFreePool_Thread t]"

lemma ThreadClose_last:
  assumes l: "life_inv m s q ts Pr P us" and t: "threads s t = Some T" "Process T = Pr" "RefCnt T = 1" "t \<noteq> NULL" and cpu: "CpuSelf cpu \<noteq> NULL"
    and ref: "(if NumberOfThreads P = 1 then 2 else 1) < ProcRefCnt P"
  shows "\<exists>h s'. ThreadCloseHandle cpu t s = Some (cpu, s') \<and> is_list h (AllThreadsList s) (map AllList (remove1 t ts)) \<and> is_list h (ThreadList Pr) (map ProcessList (remove1 t us))
    \<and> only_changes (set (AllThreadsList s # map AllList ts) \<union> set (ThreadList Pr # map ProcessList us)) (entries s) h
    \<and> s' = s\<lparr>threads := (threads s)(t := None), events := (events s)(TerminationEvt t := None), entries := (\<lambda>x. if x \<in> own_entries t then None else h x),
        processes := (processes s)(Pr \<mapsto> left_proc P), calls := calls s @ free_calls t T\<rparr>"
proof -
  note d = life_inv_dest [OF l]
  have al: "is_list (entries s) (AllThreadsList s) (map AllList ts)" "AllThreadsLock s = FREE" using d(2) by (auto simp: all_list_def)
  have mem: "t \<in> set ts" "t \<in> set us" using l t(1,2) by (auto simp: life_inv_def)
  note dis = life_lists_disjoint(2) [OF d(4-7)]
  from RemoveEntry_ok [OF al(1) mem(1)] obtain h1 where h1: "\<forall>s'. entries s' = entries s \<longrightarrow> RemoveEntry (AllList t) s' = Some (s'\<lparr>entries := h1\<rparr>)"
    "is_list h1 (AllThreadsList s) (map AllList (remove1 t ts))" "only_changes (set (AllThreadsList s # map AllList ts)) (entries s) h1" by blast
  define T1 where "T1 = T\<lparr>RefCnt := 0, UserStack := NULL\<rparr>"
  define s1 where "s1 = s\<lparr>entries := h1, threads := (threads s)(t \<mapsto> T1),
     calls := calls s @ (if UserStack T \<noteq> NULL then [MmuFreeStack (UserStack T) (Process T)] else [])\<rparr>"
  have "is_list h1 (ThreadList Pr) (map ProcessList us)" by (rule only_changes_is_list [OF h1(3)]) (use dis d(3) in \<open>auto simp: proc_list_def\<close>)
  then have "proc_list s1 Pr P us" using d(3) by (auto simp: proc_list_def s1_def)
  from ProcessRemove_ok [of s1 m, OF _ this mem(2), of T1 cpu] d(9) t cpu ref obtain h2
    where h2: "ProcessRemoveThreadFromList cpu t s1 = Some (cpu, s1\<lparr>entries := h2, processes := (processes s)(Pr \<mapsto> left_proc P)\<rparr>)"
      "is_list h2 (ThreadList Pr) (map ProcessList (remove1 t us))" "only_changes (set (ThreadList Pr # map ProcessList us)) h1 h2"
    by (auto simp: s1_def T1_def)
  have "is_list h2 (AllThreadsList s) (map AllList (remove1 t ts))"
  proof (rule only_changes_is_list [OF h2(3) h1(2)])
    have "set (AllThreadsList s # map AllList (remove1 t ts)) \<subseteq> set (AllThreadsList s # map AllList ts)" using set_remove1_subset [of t ts] by auto
    then show "set (ThreadList Pr # map ProcessList us) \<inter> set (AllThreadsList s # map AllList (remove1 t ts)) = {}" using dis by blast
  qed
  moreover note only_changes_trans [OF h1(3) h2(3)]
  moreover have "ThreadCloseHandle cpu t s = Some (cpu, s\<lparr>threads := (threads s)(t := None), events := (events s)(TerminationEvt t := None),
      entries := (\<lambda>x. if x \<in> own_entries t then None else h2 x), processes := (processes s)(Pr \<mapsto> left_proc P), calls := calls s @ free_calls t T\<rparr>)"
  proof -
    let ?s0 = "s\<lparr>threads := (threads s)(t \<mapsto> T\<lparr>RefCnt := 0\<rparr>)\<rparr>" and ?cpu = "cpu\<lparr>CpuIntr := INTR_OFF\<rparr>" and ?L = "HELD (CpuSelf cpu) (CallSite s)"
    let ?s2 = "s1\<lparr>entries := h2, processes := (processes s)(Pr \<mapsto> left_proc P)\<rparr>"
    have a1: "AcquireAll cpu ?s0 = Some (CpuIntr cpu, ?cpu, ?s0\<lparr>AllThreadsLock := ?L\<rparr>)" using al(2) d(9) cpu by (simp add: AcquireAll_def acquire_FREE)
    have a2: "RemoveEntry (AllList t) (?s0\<lparr>AllThreadsLock := ?L\<rparr>) = Some (?s0\<lparr>AllThreadsLock := ?L, entries := h1\<rparr>)" using h1(1) by simp
    have a3: "ReleaseAll ?cpu (?s0\<lparr>AllThreadsLock := ?L, entries := h1\<rparr>) (CpuIntr cpu) = Some (cpu, ?s0\<lparr>entries := h1\<rparr>)"
      using al(2) d(9) by (cases s) (simp add: ReleaseAll_def release_HELD)
    have a4: "(if NULL \<noteq> UserStack T then upd_thr t (\<lambda>t. t\<lparr>UserStack := NULL\<rparr>) (call (MmuFreeStack (UserStack T) (Process T)) (?s0\<lparr>entries := h1\<rparr>))
        else Some (?s0\<lparr>entries := h1\<rparr>)) = Some s1"
      by (cases T; cases "UserStack T = NULL") (simp_all add: upd_thr_def call_def s1_def T1_def)
    have f1: "threads s1 t = Some T1" "UserStack T1 = NULL" "Name T1 = Name T" "Stack T1 = Stack T" by (simp_all add: s1_def T1_def)
    have "ThreadCloseHandle cpu t s = ThreadDestroy cpu t ?s0"
      using t by (simp add: ThreadCloseHandle_def ThreadDereference_def RfcDereference_def upd_thr_def Let_def)
    also have "\<dots> = do { s \<leftarrow> (if Name T \<noteq> None then upd_thr t (\<lambda>t. t\<lparr>Name := None\<rparr>) (call (ExFreePool_Name t) ?s2) else Some ?s2);
        s \<leftarrow> (if NULL \<noteq> Stack T then upd_thr t (\<lambda>t. t\<lparr>Stack := NULL\<rparr>) (call (MmuFreeStack (Stack T) NULL) s) else Some s);
        Some (cpu, FreeThread t (call (ExFreePool_Thread t) s)) }"
      using t(4) a4 by (cases "UserStack T = NULL") (simp_all add: ThreadDestroy_def a1 a2 a3 h2(1) f1 split del: if_split cong: if_cong)
    also have "\<dots> = Some (cpu, s\<lparr>threads := (threads s)(t := None), events := (events s)(TerminationEvt t := None),
      entries := (\<lambda>x. if x \<in> own_entries t then None else h2 x), processes := (processes s)(Pr \<mapsto> left_proc P), calls := calls s @ free_calls t T\<rparr>)"
      by (simp add: upd_thr_def call_def FreeThread_def free_calls_def s1_def own_entries_def fun_eq_iff)
    finally show ?thesis .
  qed
  ultimately show ?thesis using h2(2) by blast
qed

lemma own_disjoint_list:
  assumes sep: "separate X hs" and t: "t \<in> X" and a: "a \<in> set hs" and xs: "set xs \<subseteq> X - {t}" and f: "\<And>u. f u \<in> own_entries u"
  shows "own_entries t \<inter> set (a # map f xs) = {}"
proof -
  have "a \<notin> own_entries t" using sep t a unfolding separate_def by blast
  moreover have "f u \<notin> own_entries t" if "u \<in> set xs" for u
    using sep t xs that f [of u] unfolding separate_def by blast
  ultimately show ?thesis by auto
qed

lemma is_list_distinct: "is_list h head (map f xs) \<Longrightarrow> distinct xs"
  by (auto simp: is_list_def distinct_map)

lemma ThreadClose_life:
  fixes cs :: "kernel_call list"
  assumes l: "life_inv m s q ts Pr P us" and t: "threads s t = Some T" "Process T = Pr" "off_cpu s q t" and act: "ActiveThreads P < NumberOfThreads P"
    and h: "is_list h (AllThreadsList s) (map AllList (remove1 t ts))" "is_list h (ThreadList Pr) (map ProcessList (remove1 t us))"
      "only_changes (set (AllThreadsList s # map AllList ts) \<union> set (ThreadList Pr # map ProcessList us)) (entries s) h"
  defines "s' \<equiv> s\<lparr>threads := (threads s)(t := None), events := (events s)(TerminationEvt t := None), entries := (\<lambda>x. if x \<in> own_entries t then None else h x),
        processes := (processes s)(Pr \<mapsto> left_proc P), calls := cs\<rparr>"
  shows "life_inv m s' q (remove1 t ts) Pr (left_proc P) (remove1 t us)"
proof -
  note d = life_inv_dest [OF l]
  note dis = life_lists_disjoint [OF d(4-7)]
  let ?h = "\<lambda>x. if x \<in> own_entries t then None else h x"
  have al: "is_list (entries s) (AllThreadsList s) (map AllList ts)" "is_list (entries s) (ThreadList Pr) (map ProcessList us)"
    "is_list (entries s) (ReadyThreadsList s) (map ReadyList q)" using d(1-3) by (auto simp: all_list_def proc_list_def sched_inv_def)
  note dist = al(1,2) [THEN is_list_distinct]
  have tX: "t \<in> dom (threads s)" using t(1) by auto
  have sub: "set (remove1 t ts) \<subseteq> dom (threads s) - {t}" "set (remove1 t us) \<subseteq> dom (threads s) - {t}" "set q \<subseteq> dom (threads s) - {t}"
    using d(5-7) dist t(3) by (auto simp: off_cpu_def)
  have frame: "is_list ?h a (map f xs)" if "is_list h a (map f xs)" "a \<in> set (list_heads s Pr)" "set xs \<subseteq> dom (threads s) - {t}" "\<And>u. f u \<in> own_entries u" for a f xs
    by (rule is_list_frame_set [OF that(1), where A = "own_entries t"]) (use own_disjoint_list [OF d(4) tX that(2-4)] in auto)
  have "is_list h (ReadyThreadsList s) (map ReadyList q)" by (rule only_changes_is_list [OF h(3) al(3)]) (use dis in auto)
  then have lists: "is_list ?h (AllThreadsList s) (map AllList (remove1 t ts))" "is_list ?h (ThreadList Pr) (map ProcessList (remove1 t us))"
    "is_list ?h (ReadyThreadsList s) (map ReadyList q)" using h(1,2) sub by (auto intro!: frame simp: list_heads_def)
  have own: "own_entries u \<inter> own_entries t = {}" if "u \<in> dom (threads s)" "u \<noteq> t" for u using d(4) that tX unfolding separate_def by blast
  have dom: "own_entries u \<subseteq> dom ?h" if "u \<in> dom (threads s)" "u \<noteq> t" for u
  proof -
    have "own_entries u \<subseteq> dom h" using l that h(3) by (auto simp: life_inv_def only_changes_def)
    moreover have "dom ?h = dom h - own_entries t" by (auto simp: dom_def)
    ultimately show ?thesis using own [OF that] by auto
  qed
  have inv: "sched_inv m s' q"
  proof (rule sched_inv_other [OF d(1) t(3), where X = None and r = "resume s t"])
    have e: "entries s' = ?h" by (simp add: s'_def)
    show "ReadyList u \<in> dom (entries s')" if "u \<noteq> t" "threads s u \<noteq> None" for u
      unfolding e using dom [of u] that own_mem(2) [of u] by blast
  qed (use lists in \<open>auto simp: s'_def cpu_view_def\<close>)
  have us: "NumberOfThreads P = of_nat (length us)" "length us < 2 ^ 32" "t \<in> set us" using d(3) l t(1,2) by (auto simp: proc_list_def life_inv_def)
  have "ActiveThreads P \<le> NumberOfThreads P - 1" using act by unat_arith
  moreover have "NumberOfThreads P - 1 = of_nat (length us - 1)" using us(1,3) by (cases us) auto
  ultimately have "proc_list s' Pr (left_proc P) (remove1 t us)"
    using us(2,3) d(3) lists(2) by (auto simp: proc_list_def left_proc_def s'_def length_remove1)
  moreover have "set (remove1 t us) = {u. \<exists>U. threads s' u = Some U \<and> Process U = Pr}"
    using dist(2) l by (auto simp: life_inv_def s'_def)
  ultimately show ?thesis
    using inv lists(1) d(2) dist l dom separate_mono [OF d(4), of "dom (threads s) - {t}"]
    unfolding life_inv_def all_list_def by (auto simp: s'_def list_heads_def)
qed

section \<open>Termination of a process\<close>

lemma ProcessThread_ProcessList [simp]: "ProcessThread (ProcessList t) = t"
  by (simp add: ProcessThread_def ProcessList_def)

text \<open>The threads of a list get the flag, except the current one.\<close>

definition flagged :: "ptr \<Rightarrow> ptr list \<Rightarrow> (ptr \<rightharpoonup> THREAD) \<Rightarrow> ptr \<rightharpoonup> THREAD" where
  "flagged cur us th = (\<lambda>t. if t \<in> set us \<and> t \<noteq> cur then map_option (\<lambda>T. T\<lparr>Flags := Flags T OR THREAD_FLAG_FORCE_TERMINATE_PENDING\<rparr>) (th t) else th t)"

lemma ProcessTerminate_loop_ok:
  assumes "lseg (entries s) a (map ProcessList us) (ThreadList Pr)" "ThreadList Pr \<notin> set (map ProcessList us)" "distinct us"
    "\<forall>t \<in> set us. threads s t \<noteq> None \<and> t \<noteq> NULL"
  shows "ProcessTerminate_loop Pr cur (hd (map ProcessList us @ [ThreadList Pr])) b s
     = Some (b \<or> cur \<in> set us, s\<lparr>threads := flagged cur us (threads s)\<rparr>)"
  using assms
proof (induction us arbitrary: a b s)
  case Nil
  then show ?case by (subst ProcessTerminate_loop.simps) (simp add: flagged_def)
next
  case (Cons u us)
  have fl: "rd_Flink (entries s) (ProcessList u) = Some (hd (map ProcessList us @ [ThreadList Pr]))"
    using Cons.prems(1) by (auto dest: lseg_first)
  define s1 where "s1 = (if u = cur then s else s\<lparr>threads := (threads s)(u \<mapsto> (the (threads s u))\<lparr>Flags := Flags (the (threads s u)) OR THREAD_FLAG_FORCE_TERMINATE_PENDING\<rparr>)\<rparr>)"
  have "(if u = cur then Some (True, s) else do { s \<leftarrow> ThreadTerminate u s; Some (b, s) }) = Some (b \<or> u = cur, s1)"
    using Cons.prems(4) by (auto simp: ThreadTerminate_def upd_thr_def s1_def)
  then have "ProcessTerminate_loop Pr cur (ProcessList u) b s = ProcessTerminate_loop Pr cur (hd (map ProcessList us @ [ThreadList Pr])) (b \<or> u = cur) s1"
    using fl Cons.prems(2) by (subst ProcessTerminate_loop.simps) (auto simp: s1_def split: if_splits)
  also have "\<dots> = Some ((b \<or> u = cur) \<or> cur \<in> set us, s1\<lparr>threads := flagged cur us (threads s1)\<rparr>)"
    by (rule Cons.IH [where a = "ProcessList u"]) (use Cons.prems in \<open>auto simp: s1_def\<close>)
  also have "s1\<lparr>threads := flagged cur us (threads s1)\<rparr> = s\<lparr>threads := flagged cur (u # us) (threads s)\<rparr>"
    using Cons.prems(3,4) by (cases s) (auto simp: s1_def flagged_def fun_eq_iff)
  finally show ?case by auto
qed

lemma ProcessTerminate_ok:
  assumes ops: "LockOps s = LockSystemInit m" and pl: "proc_list s Pr P us" and us: "\<forall>t \<in> set us. threads s t \<noteq> None \<and> t \<noteq> NULL"
    and S: "processes s (SystemProcess s) = Some S" "ProcId S \<noteq> ProcId P" and cur: "GetCurrentThread cpu s = Some cur" and cpu: "CpuSelf cpu \<noteq> NULL"
  defines "s' \<equiv> s\<lparr>threads := flagged cur us (threads s)\<rparr>"
  shows "ProcessTerminate cpu sz Pr s = (if cur \<in> set us then ThreadExit cpu sz STATUS_JOB_INTERRUPTED s' else Some (cpu, s'))"
proof -
  have P: "Pr \<noteq> NULL" "processes s Pr = Some P" "ThreadListLock P = FREE" "is_list (entries s) (ThreadList Pr) (map ProcessList us)"
    using pl by (auto simp: proc_list_def)
  have l: "lseg (entries s) (ThreadList Pr) (map ProcessList us) (ThreadList Pr)" "ThreadList Pr \<notin> set (map ProcessList us)" "distinct us"
    using P(4) by (auto simp: is_list_def distinct_map)
  let ?s = "s\<lparr>processes := (processes s)(Pr \<mapsto> P\<lparr>ThreadListLock := HELD (CpuSelf cpu) (CallSite s)\<rparr>)\<rparr>"
  have "ProcessTerminate_loop Pr cur (hd (map ProcessList us @ [ThreadList Pr])) False ?s = Some (cur \<in> set us, ?s\<lparr>threads := flagged cur us (threads s)\<rparr>)"
    using ProcessTerminate_loop_ok [of ?s "ThreadList Pr" us Pr cur False] l us by simp
  moreover have "rd_Flink (entries s) (ThreadList Pr) = Some (hd (map ProcessList us @ [ThreadList Pr]))" using lseg_first [OF l(1)] .
  moreover have "(processes s)(Pr \<mapsto> P\<lparr>ThreadListLock := FREE\<rparr>) = processes s" using P(2,3) by (cases P) (simp add: fun_upd_idem)
  ultimately show ?thesis
    using ops P S cur cpu
    by (cases s) (simp add: ProcessTerminate_def ProcessIsSystem_def ProcessGetId_def AcquireThreadList_def ReleaseThreadList_def kernel_simps s'_def del: GetCurrentThread_def)
qed

text \<open>
  The failure path of \<open>_ThreadInit\<close>: when the stack or the name cannot be allocated, the reference is given
  back and \<open>_ThreadDestroy\<close> takes the entry of the thread out of the list of all threads, into which it was
  never put: it follows the NULL links of the zeroed entry instead of returning the status.
\<close>

lemma thread_init_failure_halts:
  assumes "LockOps s = LockSystemInit m" "AllThreadsLock s = FREE" "CpuSelf cpu \<noteq> NULL" "prio \<le> ThreadPriorityMaximum"
    and p: "NewThread a = p" "p \<noteq> NULL" "TerminationEvt p \<noteq> NULL" "NULL \<notin> own_entries p" "entries s NULL = None"
    and fail: "\<not> NewName a \<or> NewStack a = NULL"
  shows "ThreadInit cpu a name prio True s = None"
proof -
  have rm: "RemoveEntry (AllList p) s' = None" if "entries s' NULL = None" "entries s' (AllList p) = Some zero_entry" for s'
    using that by (simp add: RemoveEntry_def RemoveEntryList_def ValidateListEntry_def rd_Flink_def rd_Blink_def zero_entry_def)
  have destroy: "ThreadDereference cpu p s' = None" if "entries s' NULL = None" "entries s' (AllList p) = Some zero_entry"
      "threads s' p = Some T" "RefCnt T = 1" "LockOps s' = LockSystemInit m" "AllThreadsLock s' = FREE" for s' T
    using that p(2) assms(3) rm [of "s'\<lparr>threads := (threads s')(p \<mapsto> T\<lparr>RefCnt := 0\<rparr>), AllThreadsLock := HELD (CpuSelf cpu) (CallSite s')\<rparr>"]
    by (simp add: ThreadDereference_def RfcDereference_def upd_thr_def Let_def ThreadDestroy_def AcquireAll_def acquire_FREE)
  obtain h where h: "InitializeListHead (entries (AllocThread p s)) (EventWaitingList (TerminationEvt p)) = Some h" "h NULL = None" "h (AllList p) = Some zero_entry"
    using InitializeListHead_ok [of "EventWaitingList (TerminationEvt p)" "entries (AllocThread p s)"] p(4,5)
    by (auto simp: AllocThread_def only_changes_def own_entries_def)
  show ?thesis
    using assms h destroy
    by (auto simp: ThreadInit_def ThreadInit_fail_def AllocThread_def upd_thr_def upd_evt_def ExEventInit_def zero_THREAD_def Let_def)
qed

section \<open>A small system with its lists\<close>

text \<open>
  One processor at \<open>0x10\<close> runs the thread \<open>0x1000\<close>, its idle thread is \<open>0x3000\<close>; the thread \<open>0x2000\<close> has
  exited and one handle to it is open. All belong to the process \<open>0x600\<close>.
\<close>

definition ring3 :: "ptr \<Rightarrow> ptr \<Rightarrow> ptr \<Rightarrow> ptr \<Rightarrow> lheap" where
  "ring3 h a b c = [h \<mapsto> \<lparr>Flink = a, Blink = c\<rparr>, a \<mapsto> \<lparr>Flink = b, Blink = h\<rparr>, b \<mapsto> \<lparr>Flink = c, Blink = a\<rparr>, c \<mapsto> \<lparr>Flink = h, Blink = b\<rparr>]"

definition ex_life :: SYS where
  "ex_life = \<lparr>threads = [0x1000 \<mapsto> (ex_thread 0x1000 ThreadStateRunning)\<lparr>RefCnt := 2\<rparr>, 0x2000 \<mapsto> ex_thread 0x2000 ThreadStateDying, 0x3000 \<mapsto> ex_thread 0x3000 ThreadStateReady],
     pcpus = [0x10 \<mapsto> ex_pcpu 0x1000 0x3000],
     events = [0x1040 \<mapsto> \<lparr>EventLock = FREE, ExEvtType = ExEventTypeNotification, Signaled = 0\<rparr>, 0x638 \<mapsto> \<lparr>EventLock = FREE, ExEvtType = ExEventTypeNotification, Signaled = 0\<rparr>],
     mutexes = Map.empty,
     processes = [0x600 \<mapsto> \<lparr>ProcRefCnt = 4, TerminationStatus = 0, ThreadListLock = FREE, NumberOfThreads = 3, ActiveThreads = 2, ProcId = 8, KernelSpace = True,
        AddressOfEntryPoint = 0, NumberOfArguments = 0\<rparr>, 0x300 \<mapsto> \<lparr>ProcRefCnt = 1, TerminationStatus = 0, ThreadListLock = FREE, NumberOfThreads = 0, ActiveThreads = 0,
        ProcId = 4, KernelSpace = True, AddressOfEntryPoint = 0, NumberOfArguments = 0\<rparr>],
     entries = ring3 0x400 0x10E0 0x20E0 0x30E0 ++ ring3 0x6D8 0x1100 0x2100 0x3100 ++ [0x500 \<mapsto> \<lparr>Flink = 0x500, Blink = 0x500\<rparr>, 0x10F0 \<mapsto> zero_entry, 0x20F0 \<mapsto> zero_entry,
        0x30F0 \<mapsto> zero_entry, 0x1080 \<mapsto> \<lparr>Flink = 0x1080, Blink = 0x1080\<rparr>, 0x2080 \<mapsto> \<lparr>Flink = 0x2080, Blink = 0x2080\<rparr>, 0x3080 \<mapsto> \<lparr>Flink = 0x3080, Blink = 0x3080\<rparr>,
        0x678 \<mapsto> \<lparr>Flink = 0x678, Blink = 0x678\<rparr>],
     AllThreadsLock = FREE, AllThreadsList = 0x400, ReadyThreadsLock = FREE, ReadyThreadsList = 0x500, SystemProcess = 0x300, CurrentTid = 0x10,
     LockOps = LockSystemInit False, CallSite = 8, resume = \<lambda>_. Fresh, calls = [], StackMem = \<lambda>_. 0\<rparr>"

definition ex_process :: PROCESS where
  "ex_process = \<lparr>ProcRefCnt = 4, TerminationStatus = 0, ThreadListLock = FREE, NumberOfThreads = 3, ActiveThreads = 2, ProcId = 8, KernelSpace = True,
        AddressOfEntryPoint = 0, NumberOfArguments = 0\<rparr>"

lemmas ex_addresses = ReadyList_def AllList_def ProcessList_def ThreadList_def EventWaitingList_def TerminationEvt_def ProcTerminationEvt_def

lemma ex_life_lists:
  "is_list (entries ex_life) 0x400 (map AllList [0x1000, 0x2000, 0x3000])" "is_list (entries ex_life) 0x6D8 (map ProcessList [0x1000, 0x2000, 0x3000])"
  "is_list (entries ex_life) 0x500 (map ReadyList [])"
  by (simp_all add: is_list_def link_def rd_Flink_def rd_Blink_def ex_addresses ex_life_def ring3_def)

lemma ex_life_sched: "sched_inv False ex_life []"
proof -
  have "resumable ex_life 0x3000" by (simp add: resumable_def thread_at_def ex_life_def ReadyList_def ex_thread_def)
  then have "cpu_inv ex_life [] c C" if "pcpus ex_life c = Some C" for c C
    using that by (auto simp: cpu_inv_def ex_life_def ex_pcpu_def thread_at_def ReadyList_def ex_thread_def split: if_splits)
  then show ?thesis unfolding sched_inv_def using ex_life_lists(3) by (auto simp: ex_life_def split: if_splits)
qed

lemma ex_life_inv: "life_inv False ex_life [] [0x1000, 0x2000, 0x3000] 0x600 ex_process [0x1000, 0x2000, 0x3000]"
proof -
  have "proc_list ex_life 0x600 ex_process [0x1000, 0x2000, 0x3000]"
    using ex_life_lists(2) by (simp add: proc_list_def ex_life_def ex_process_def ThreadList_def)
  moreover have "all_list ex_life [0x1000, 0x2000, 0x3000]" using ex_life_lists(1) by (simp add: all_list_def ex_life_def)
  moreover have "dom (threads ex_life) = {0x1000, 0x2000, 0x3000}" by (auto simp: ex_life_def split: if_splits)
  moreover have "separate {0x1000, 0x2000, 0x3000} (list_heads ex_life 0x600)"
    by (simp add: separate_def list_heads_def own_entries_def ex_addresses ex_life_def)
  moreover have "{t. \<exists>T. threads ex_life t = Some T \<and> Process T = 0x600} = {0x1000, 0x2000, 0x3000}"
    by (auto simp: ex_life_def ex_thread_def split: if_splits)
  moreover have "own_entries t \<subseteq> dom (entries ex_life)" if "t \<in> {0x1000, 0x2000, 0x3000}" for t
    using that by (auto simp: own_entries_def ex_addresses ex_life_def ring3_def)
  ultimately show ?thesis using ex_life_sched unfolding life_inv_def by simp
qed

section \<open>Properties\<close>

text \<open>
  C21: creating a thread. When the allocations succeed, \<open>ThreadCreateEx\<close> returns success and the new thread: it is
  at the end of the ready queue, of the list of all threads and of the list of its process, which counts it
  and holds one more reference; the thread has two references (one for the handle), an unused identifier and
  an unsignaled termination event without waiters, nothing else changes for the other threads, and its stack
  is such that its first run starts the requested function. The invariants are kept.
\<close>

theorem thread_create_spec:
  assumes "life_inv m s q ts Pr P us" and "can_create s cpu code a prio f out P us" and "thread_start code a P f ctx = (user, start, a1, a2)"
  shows "\<exists>s' T. ThreadCreateEx cpu code a (Some name) prio f ctx out Pr s = Some (STATUS_SUCCESS, NewThread a, cpu, s')
    \<and> life_inv m s' (q @ [NewThread a]) (ts @ [NewThread a]) Pr (joined P) (us @ [NewThread a]) \<and> threads s' = (threads s)(NewThread a \<mapsto> T)
    \<and> RefCnt T = 2 \<and> TState T = ThreadStateReady \<and> Id T = CurrentTid s \<and> Name T = Some name \<and> Priority T = prio \<and> CurrentTid s' = CurrentTid s + TID_INCREMENT
    \<and> event_inv s' (q @ [NewThread a]) (TerminationEvt (NewThread a)) ExEventTypeNotification 0 []
    \<and> first_run (StackMem s') (Stack T) = expected_run code (NewStack a) user start a1 a2 (KernelSpace P)"
  by (rule ThreadCreateEx_ok [OF assms])

definition ex_code :: CODE where "ex_code = \<lparr>ThreadStart_address = 0x8000, ThreadKernelFunction_address = 0x8100\<rparr>"

definition ex_allocations :: ALLOCATIONS where "ex_allocations = \<lparr>NewThread = 0x7000, NewName = True, NewStack = 0x9000, NewUserStack = NULL\<rparr>"

theorem thread_create_spec_witness:
  "\<exists>s' T. ThreadCreateEx (ex_cpu 0x10) ex_code ex_allocations (Some ''w'') 16 0x8200 0x42 0x50 0x600 ex_life = Some (STATUS_SUCCESS, 0x7000, ex_cpu 0x10, s')
    \<and> life_inv False s' [0x7000] [0x1000, 0x2000, 0x3000, 0x7000] 0x600 (joined ex_process) [0x1000, 0x2000, 0x3000, 0x7000]
    \<and> threads s' 0x7000 = Some T \<and> first_run (StackMem s') (Stack T) = expected_run ex_code 0x9000 NULL 0x8100 0x8200 0x42 True"
proof -
  have "fresh_thread ex_life 0x7000"
    by (auto simp: fresh_thread_def own_entries_def ex_addresses ex_life_def ring3_def)
  then have "can_create ex_life (ex_cpu 0x10) ex_code ex_allocations 16 0x8200 0x50 ex_process [0x1000, 0x2000, 0x3000]"
    by (simp add: can_create_def ex_allocations_def ex_code_def ex_process_def ex_life_def ex_pcpu_def ex_cpu_def)
  from thread_create_spec [OF ex_life_inv this, of "0x42" NULL "0x8100" "0x8200" "0x42" "''w''"] show ?thesis
    by (auto simp: thread_start_def ex_process_def ex_code_def ex_allocations_def)
qed

text \<open>
  C22: a thread that exits while a handle to it is open never runs again: it is dying with its status, its
  processor runs the next thread, and one reference is given back. Every thread that waited for it is ready
  again, in order, and if it was the last active thread of its process so are the threads that waited for the
  process, whose status becomes the status of the thread.
\<close>

theorem thread_exit_spec:
  assumes "sched_inv m s q" and "runs s cpu C T cur" and "1 < RefCnt T"
    and "event_inv s q (TerminationEvt cur) ExEventTypeNotification sg ws" and "processes s (Process T) = Some P" and "Process T \<noteq> NULL"
    and "ActiveThreads P = 1 \<Longrightarrow> event_inv s q (ProcTerminationEvt (Process T)) ExEventTypeNotification sg' vs" and "set ws \<inter> set vs = {}"
    and "ProcTerminationEvt (Process T) \<noteq> TerminationEvt cur" and "q' = q @ ws @ (if ActiveThreads P = 1 then vs else [])"
  shows "\<exists>cpu' s' T'. ThreadExit cpu sz st s = Some (cpu', s') \<and> sched_inv m s' (tl q') \<and> cur_of s' (CpuSelf cpu) = Some (next_thread (IdleThread C) q')
    \<and> processes s' = (processes s)(Process T \<mapsto> P\<lparr>ActiveThreads := ActiveThreads P - 1, TerminationStatus := if ActiveThreads P = 1 then st else TerminationStatus P\<rparr>)
    \<and> off_cpu s' (tl q') cur \<and> resume s' cur = Gone
    \<and> threads s' cur = Some T' \<and> TState T' = ThreadStateDying \<and> ExitStatus T' = st \<and> RefCnt T' = RefCnt T - 1 \<and> Process T' = Process T
    \<and> events s' (TerminationEvt cur) = Some \<lparr>EventLock = FREE, ExEvtType = ExEventTypeNotification, Signaled = 1\<rparr>"
  using ThreadExit_ok [OF assms(1-9), where st = st and sz = sz] unfolding assms(10) .

theorem thread_exit_spec_witness:
  "\<exists>cpu' s' T'. ThreadExit (ex_cpu 0x10) 0x490 7 ex_life = Some (cpu', s') \<and> cur_of s' 0x10 = Some 0x3000 \<and> threads s' 0x1000 = Some T'
     \<and> TState T' = ThreadStateDying \<and> ExitStatus T' = 7 \<and> RefCnt T' = 1"
proof -
  have r: "runs ex_life (ex_cpu 0x10) (ex_pcpu 0x1000 0x3000) ((ex_thread 0x1000 ThreadStateRunning)\<lparr>RefCnt := 2\<rparr>) 0x1000"
    by (simp add: runs_def ex_life_def ex_pcpu_def ex_cpu_def ex_thread_def)
  have e: "event_inv ex_life [] (TerminationEvt 0x1000) ExEventTypeNotification 0 []"
    by (simp add: event_inv_def wait_list_def wait_head_def is_list_def link_def rd_Flink_def rd_Blink_def ex_addresses ex_life_def ring3_def)
  have P: "processes ex_life (Process ((ex_thread 0x1000 ThreadStateRunning)\<lparr>RefCnt := 2\<rparr>)) = Some ex_process"
    by (simp add: ex_life_def ex_thread_def ex_process_def)
  from thread_exit_spec [OF ex_life_sched r _ e P, of 0 "[]" _ "0x490" 7] show ?thesis
    by (auto simp: ex_thread_def ex_process_def ex_addresses ex_pcpu_def ex_cpu_def next_thread_def)
qed

text \<open>
  C23: closing the last handle of a thread that has exited destroys it: it disappears from the list of all
  threads and from its process, whose counts go down, its stacks, its name and its memory are released
  exactly once, and the invariants hold for the remaining threads.
\<close>

theorem thread_close_spec:
  assumes l: "life_inv m s q ts Pr P us" and t: "threads s t = Some T" "Process T = Pr" "RefCnt T = 1" "t \<noteq> NULL" "off_cpu s q t"
    and cpu: "CpuSelf cpu \<noteq> NULL" and ref: "(if NumberOfThreads P = 1 then 2 else 1) < ProcRefCnt P" and act: "ActiveThreads P < NumberOfThreads P"
  shows "\<exists>s'. ThreadCloseHandle cpu t s = Some (cpu, s') \<and> life_inv m s' q (remove1 t ts) Pr (left_proc P) (remove1 t us)
    \<and> threads s' = (threads s)(t := None) \<and> own_entries t \<inter> dom (entries s') = {} \<and> calls s' = calls s @ free_calls t T"
proof -
  obtain h s' where h: "ThreadCloseHandle cpu t s = Some (cpu, s')" "is_list h (AllThreadsList s) (map AllList (remove1 t ts))" "is_list h (ThreadList Pr) (map ProcessList (remove1 t us))"
    "only_changes (set (AllThreadsList s # map AllList ts) \<union> set (ThreadList Pr # map ProcessList us)) (entries s) h"
    "s' = s\<lparr>threads := (threads s)(t := None), events := (events s)(TerminationEvt t := None), entries := (\<lambda>x. if x \<in> own_entries t then None else h x),
        processes := (processes s)(Pr \<mapsto> left_proc P), calls := calls s @ free_calls t T\<rparr>"
    using ThreadClose_last [OF l t(1-4) cpu ref] by blast
  have "life_inv m s' q (remove1 t ts) Pr (left_proc P) (remove1 t us)"
    unfolding h(5) by (rule ThreadClose_life [OF l t(1,2,5) act h(2-4)])
  moreover have "threads s' = (threads s)(t := None)" "own_entries t \<inter> dom (entries s') = {}" "calls s' = calls s @ free_calls t T"
    by (auto simp: h(5))
  ultimately show ?thesis using h(1) by blast
qed

theorem thread_close_spec_witness:
  "\<exists>s'. ThreadCloseHandle (ex_cpu 0x10) 0x2000 ex_life = Some (ex_cpu 0x10, s') \<and> life_inv False s' [] [0x1000, 0x3000] 0x600 (left_proc ex_process) [0x1000, 0x3000]
    \<and> threads s' 0x2000 = None \<and> calls s' = [ExFreePool_Name 0x2000, MmuFreeStack 0x2700 NULL, ExFreePool_Thread 0x2000]"
proof -
  have t: "threads ex_life 0x2000 = Some (ex_thread 0x2000 ThreadStateDying)" by (simp add: ex_life_def)
  have "off_cpu ex_life [] 0x2000" by (auto simp: off_cpu_def ex_life_def ex_pcpu_def split: if_splits)
  from thread_close_spec [OF ex_life_inv t _ _ _ this, of "ex_cpu 0x10"] show ?thesis
    by (auto simp: ex_thread_def ex_process_def ex_cpu_def free_calls_def ex_life_def)
qed

text \<open>
  C24: the first frame of a thread. After \<open>_ThreadSetupInitialState\<close> the stack pointer of the thread lies one
  frame below its stack base, and what \<open>ThreadSwitch\<close> and \<open>ThreadStart\<close> take from there runs the start function
  with the two arguments in RCX and RDX and interrupts enabled: in ring 0 on the kernel stack, at an address
  that is 8 modulo 16 as behind a call if the base is aligned, or in ring 3 on the user stack. Nothing outside
  of the 152 quadwords of the frame is written.
\<close>

theorem thread_first_frame:
  assumes T: "threads s t = Some T" "t \<noteq> NULL" "start \<noteq> NULL" "kern \<or> UserStack T \<noteq> NULL"
  shows "\<exists>s'. ThreadSetupInitialState code t start a1 a2 kern s = Some (STATUS_SUCCESS, s') \<and> threads s' = (threads s)(t \<mapsto> T\<lparr>Stack := Stack T - 0x4E8\<rparr>)
    \<and> first_run (StackMem s') (Stack T - 0x4E8) = \<lparr>RunRet = ThreadStart_address code, RunRcx = a1, RunRdx = a2, RunRip = start, RunCs = (if kern then 0x18 else 0x4B),
        RunRflags = 0x202, RunRsp = (if kern then Stack T - 40 else UserStack T), RunSs = (if kern then 0x20 else 0x53)\<rparr>
    \<and> (\<forall>k. kern \<and> Stack T = 16 * k \<longrightarrow> (\<exists>j. RunRsp (first_run (StackMem s') (Stack T - 0x4E8)) = 16 * j + 8))
    \<and> (\<forall>x. (\<forall>i < 152. x \<noteq> Stack T - 0x4E8 + 8 * of_nat i) \<longrightarrow> StackMem s' x = StackMem s x)"
proof -
  obtain mem where mem: "ThreadSetupInitialState code t start a1 a2 kern s = Some (STATUS_SUCCESS, s\<lparr>threads := (threads s)(t \<mapsto> T\<lparr>Stack := Stack T - first_frame_size\<rparr>), StackMem := mem\<rparr>)"
    "first_run mem (Stack T - first_frame_size) = expected_run code (Stack T) (UserStack T) start a1 a2 kern"
    "\<forall>x. (\<forall>i < 152. x \<noteq> Stack T - first_frame_size + 8 * of_nat i) \<longrightarrow> mem x = StackMem s x"
    using ThreadSetup_ok [OF T, of code a1 a2] by blast
  have "\<exists>j. RunRsp (first_run mem (Stack T - first_frame_size)) = 16 * j + 8" if "kern \<and> Stack T = 16 * k" for k
    unfolding mem(2) using that by (intro exI [of _ "k - 3"]) (simp add: expected_run_def algebra_simps)
  then show ?thesis using mem by (simp add: first_frame_size_def expected_run_def)
qed

theorem thread_first_frame_witness:
  "\<exists>s'. ThreadSetupInitialState ex_code 0x1000 0x8100 1 2 True ex_life = Some (STATUS_SUCCESS, s') \<and> RunRip (first_run (StackMem s') (0x1700 - 0x4E8)) = 0x8100"
proof -
  have "threads ex_life 0x1000 = Some ((ex_thread 0x1000 ThreadStateRunning)\<lparr>RefCnt := 2\<rparr>)" by (simp add: ex_life_def)
  from thread_first_frame [OF this, of "0x8100" True ex_code 1 2] show ?thesis by (auto simp: ex_thread_def)
qed

text \<open>
  C25: terminating a process other than the system process visits its whole list of threads and asks every
  thread but the current one to terminate; the current thread, if it belongs to the process, then exits.
\<close>

theorem process_terminate_spec:
  assumes "life_inv m s q ts Pr P us" and "\<forall>t \<in> set us. t \<noteq> NULL" and "processes s (SystemProcess s) = Some S" "ProcId S \<noteq> ProcId P"
    and "GetCurrentThread cpu s = Some cur" and "CpuSelf cpu \<noteq> NULL"
  shows "\<exists>s'. ProcessTerminate cpu sz Pr s = (if cur \<in> set us then ThreadExit cpu sz STATUS_JOB_INTERRUPTED s' else Some (cpu, s'))
    \<and> (\<forall>t T. threads s t = Some T \<longrightarrow> threads s' t = Some (if Process T = Pr \<and> t \<noteq> cur then T\<lparr>Flags := Flags T OR THREAD_FLAG_FORCE_TERMINATE_PENDING\<rparr> else T))
    \<and> s' = s\<lparr>threads := threads s'\<rparr>"
proof -
  have pl: "proc_list s Pr P us" "LockOps s = LockSystemInit m" "\<forall>t \<in> set us. threads s t \<noteq> None \<and> t \<noteq> NULL"
    using life_inv_dest [OF assms(1)] assms(2) by auto
  have "set us = {t. \<exists>T. threads s t = Some T \<and> Process T = Pr}" using assms(1) by (simp add: life_inv_def)
  then show ?thesis using ProcessTerminate_ok [OF pl(2,1,3) assms(3-6), of sz]
    by (intro exI [of _ "s\<lparr>threads := flagged cur us (threads s)\<rparr>"]) (auto simp: flagged_def)
qed

theorem process_terminate_spec_witness:
  "\<exists>s' T. ProcessTerminate (ex_cpu 0x10) 0x490 0x600 ex_life = ThreadExit (ex_cpu 0x10) 0x490 STATUS_JOB_INTERRUPTED s' \<and> threads s' 0x3000 = Some T \<and> Flags T = 1"
proof -
  have "GetCurrentThread (ex_cpu 0x10) ex_life = Some 0x1000"
    by (simp add: GetCurrentThread_def ex_life_def ex_cpu_def ex_pcpu_def ex_thread_def)
  from process_terminate_spec [OF ex_life_inv _ _ _ this, of _ "0x490"] obtain s' where
    s': "ProcessTerminate (ex_cpu 0x10) 0x490 0x600 ex_life = ThreadExit (ex_cpu 0x10) 0x490 STATUS_JOB_INTERRUPTED s'"
      "\<forall>t T. threads ex_life t = Some T \<longrightarrow> threads s' t = Some (if Process T = 0x600 \<and> t \<noteq> 0x1000 then T\<lparr>Flags := Flags T OR THREAD_FLAG_FORCE_TERMINATE_PENDING\<rparr> else T)"
    by (auto simp: ex_life_def ex_process_def ex_cpu_def)
  have "threads ex_life 0x3000 = Some (ex_thread 0x3000 ThreadStateReady)" by (simp add: ex_life_def)
  with s'(2) have "threads s' 0x3000 = Some ((ex_thread 0x3000 ThreadStateReady)\<lparr>Flags := 1\<rparr>)" by (auto simp: ex_thread_def)
  with s'(1) show ?thesis by auto
qed

end
