(* ===== verification/Strings.thy ===== *)
theory Strings
  imports ClMemory
begin

text \<open>
  The string functions of \<open>CommonLib/src/cl_string.c\<close> and \<open>strutils.c\<close> on the byte memory of \<open>ClMemory\<close>. A
  \<^verbatim>\<open>char\<close> is a signed byte; indices are 32-bit numbers, so a scan that finds no terminator in 4 GB starts
  over and never ends (\<open>None\<close>).
\<close>

section \<open>Characters\<close>

abbreviation INVALID_STRING_SIZE :: DWORD where "INVALID_STRING_SIZE \<equiv> MAX_DWORD"
abbreviation STATUS_PARSE_FAILED :: STATUS where "STATUS_PARSE_FAILED \<equiv> 0xE8000021"
abbreviation STATUS_BUFFER_TOO_SMALL :: STATUS where "STATUS_BUFFER_TOO_SMALL \<equiv> 0xE0100002"

definition tolower :: "BYTE \<Rightarrow> BYTE" where "tolower c = c OR 0x20"

definition isspace :: "BYTE \<Rightarrow> bool" where "isspace c = (c = 0x20 \<or> c = 9 \<or> c = 10 \<or> c = 13)"

definition isascii :: "BYTE \<Rightarrow> bool" where "isascii c = (0x1F < sint c \<and> sint c < 0x80)"

text \<open>The character at index \<open>i\<close> of the string at \<open>p\<close>.\<close>

definition chr :: "mem \<Rightarrow> ptr \<Rightarrow> DWORD \<Rightarrow> BYTE option" where "chr m p i = m (p + ucast i)"

section \<open>Comparison\<close>

text \<open>
  \<open>cl_strcmp\<close> and \<open>cl_stricmp\<close> (\<open>cl_strncmp\<close> and \<open>cl_strnicmp\<close>) are the same loop, with the conversion \<open>cv\<close> of the
  characters.
\<close>

partial_function (option) strcmp_loop :: "(BYTE \<Rightarrow> BYTE) \<Rightarrow> mem \<Rightarrow> ptr \<Rightarrow> ptr \<Rightarrow> DWORD \<Rightarrow> int option" where
  "strcmp_loop cv m str1 str2 i = do {
     c1 \<leftarrow> chr m str1 i;
     c2 \<leftarrow> (if c1 \<noteq> 0 then chr m str2 i else Some 0);
     if c1 \<noteq> 0 \<and> c2 \<noteq> 0 then
       (if sint (cv c1) > sint (cv c2) then Some 1
        else if sint (cv c1) < sint (cv c2) then Some (- 1)
        else strcmp_loop cv m str1 str2 (i + 1))
     else if c1 \<noteq> 0 then Some 1
     else do {
       c2 \<leftarrow> chr m str2 i;
       Some (if c2 \<noteq> 0 then - 1 else 0)
     }
   }"

definition cl_strcmp :: "mem \<Rightarrow> ptr \<Rightarrow> ptr \<Rightarrow> int option" where
  "cl_strcmp m str1 str2 =
     (if NULL = str1 then Some (sint STATUS_INVALID_PARAMETER1)
      else if NULL = str2 then Some (sint STATUS_INVALID_PARAMETER2)
      else strcmp_loop id m str1 str2 0)"

definition cl_stricmp :: "mem \<Rightarrow> ptr \<Rightarrow> ptr \<Rightarrow> int option" where
  "cl_stricmp m str1 str2 =
     (if NULL = str1 then Some (sint STATUS_INVALID_PARAMETER1)
      else if NULL = str2 then Some (sint STATUS_INVALID_PARAMETER2)
      else strcmp_loop tolower m str1 str2 0)"

text \<open>The bounded loop at index \<open>i\<close>; the first argument is the number of characters left.\<close>

primrec strncmp_loop :: "nat \<Rightarrow> (BYTE \<Rightarrow> BYTE) \<Rightarrow> mem \<Rightarrow> ptr \<Rightarrow> ptr \<Rightarrow> DWORD \<Rightarrow> int option" where
  "strncmp_loop 0 cv m str1 str2 i = Some 0"
| "strncmp_loop (Suc n) cv m str1 str2 i = do {
     c1 \<leftarrow> chr m str1 i;
     c2 \<leftarrow> (if c1 \<noteq> 0 then chr m str2 i else Some 0);
     if c1 \<noteq> 0 \<and> c2 \<noteq> 0 then
       (if sint (cv c1) > sint (cv c2) then Some 1
        else if sint (cv c1) < sint (cv c2) then Some (- 1)
        else strncmp_loop n cv m str1 str2 (i + 1))
     else Some (if c1 \<noteq> 0 then 1 else - 1)
   }"

definition cl_strncmp :: "mem \<Rightarrow> ptr \<Rightarrow> ptr \<Rightarrow> DWORD \<Rightarrow> int option" where
  "cl_strncmp m str1 str2 len =
     (if NULL = str1 then Some (sint STATUS_INVALID_PARAMETER1)
      else if NULL = str2 then Some (sint STATUS_INVALID_PARAMETER2)
      else if 0 = len then Some (sint STATUS_INVALID_PARAMETER3)
      else strncmp_loop (unat len) id m str1 str2 0)"

definition cl_strnicmp :: "mem \<Rightarrow> ptr \<Rightarrow> ptr \<Rightarrow> DWORD \<Rightarrow> int option" where
  "cl_strnicmp m str1 str2 len =
     (if NULL = str1 then Some (sint STATUS_INVALID_PARAMETER1)
      else if NULL = str2 then Some (sint STATUS_INVALID_PARAMETER2)
      else if 0 = len then Some (sint STATUS_INVALID_PARAMETER3)
      else strncmp_loop (unat len) tolower m str1 str2 0)"

section \<open>Searching and measuring\<close>

partial_function (option) strchr_loop :: "mem \<Rightarrow> ptr \<Rightarrow> BYTE \<Rightarrow> DWORD \<Rightarrow> ptr option" where
  "strchr_loop m str c i = do {
     x \<leftarrow> chr m str i;
     if x = 0 then Some str else if x = c then Some (str + ucast i) else strchr_loop m str c (i + 1)
   }"

definition cl_strchr :: "mem \<Rightarrow> ptr \<Rightarrow> BYTE \<Rightarrow> ptr option" where
  "cl_strchr m str c = (if NULL = str then Some NULL else strchr_loop m str c 0)"

partial_function (option) strrchr_loop :: "mem \<Rightarrow> ptr \<Rightarrow> BYTE \<Rightarrow> DWORD \<Rightarrow> ptr \<Rightarrow> ptr option" where
  "strrchr_loop m str c i charIndex = do {
     x \<leftarrow> chr m str i;
     if x = 0 then Some charIndex else strrchr_loop m str c (i + 1) (if x = c then str + ucast i else charIndex)
   }"

definition cl_strrchr :: "mem \<Rightarrow> ptr \<Rightarrow> BYTE \<Rightarrow> ptr option" where
  "cl_strrchr m str c = (if NULL = str then Some NULL else strrchr_loop m str c 0 str)"

partial_function (option) strlen_loop :: "mem \<Rightarrow> ptr \<Rightarrow> DWORD \<Rightarrow> DWORD option" where
  "strlen_loop m str i = do { x \<leftarrow> chr m str i; if x \<noteq> 0 then strlen_loop m str (i + 1) else Some i }"

definition cl_strlen :: "mem \<Rightarrow> ptr \<Rightarrow> DWORD option" where
  "cl_strlen m str = (if NULL = str then Some INVALID_STRING_SIZE else strlen_loop m str 0)"

primrec strlen_s_loop :: "nat \<Rightarrow> mem \<Rightarrow> ptr \<Rightarrow> DWORD \<Rightarrow> DWORD option" where
  "strlen_s_loop 0 m str i = Some i"
| "strlen_s_loop (Suc n) m str i = do { x \<leftarrow> chr m str i; if x \<noteq> 0 then strlen_s_loop n m str (i + 1) else Some i }"

definition cl_strlen_s :: "mem \<Rightarrow> ptr \<Rightarrow> DWORD \<Rightarrow> DWORD option" where
  "cl_strlen_s m str maxLen = (if NULL = str then Some INVALID_STRING_SIZE else strlen_s_loop (unat maxLen) m str 0)"

section \<open>Copying\<close>

partial_function (option) strcpy_loop :: "mem \<Rightarrow> ptr \<Rightarrow> ptr \<Rightarrow> DWORD \<Rightarrow> mem option" where
  "strcpy_loop m dst src i = do {
     x \<leftarrow> chr m src i;
     if x \<noteq> 0 then do { m \<leftarrow> st m (dst + ucast i) x; strcpy_loop m dst src (i + 1) }
     else st m (dst + ucast i) 0
   }"

definition cl_strcpy :: "mem \<Rightarrow> ptr \<Rightarrow> ptr \<Rightarrow> mem option" where
  "cl_strcpy m dst src = do { ASSERT (NULL \<noteq> dst); ASSERT (NULL \<noteq> src); strcpy_loop m dst src 0 }"

primrec strncpy_loop :: "nat \<Rightarrow> mem \<Rightarrow> ptr \<Rightarrow> ptr \<Rightarrow> DWORD \<Rightarrow> mem option" where
  "strncpy_loop 0 m dst src i = st m (dst + ucast i) 0"
| "strncpy_loop (Suc n) m dst src i = do {
     x \<leftarrow> chr m src i;
     if x \<noteq> 0 then do { m \<leftarrow> st m (dst + ucast i) x; strncpy_loop n m dst src (i + 1) }
     else st m (dst + ucast i) 0
   }"

definition cl_strncpy :: "mem \<Rightarrow> ptr \<Rightarrow> ptr \<Rightarrow> DWORD \<Rightarrow> mem option" where
  "cl_strncpy m dst src len = do { ASSERT (NULL \<noteq> dst); ASSERT (NULL \<noteq> src); ASSERT (0 \<noteq> len); strncpy_loop (unat len) m dst src 0 }"

section \<open>Numbers\<close>

definition swap :: "mem \<Rightarrow> ptr \<Rightarrow> ptr \<Rightarrow> mem option" where
  "swap m a b = do {
     x \<leftarrow> m a; y \<leftarrow> m b; m \<leftarrow> st m a (x XOR y);
     x \<leftarrow> m a; y \<leftarrow> m b; m \<leftarrow> st m b (y XOR x);
     x \<leftarrow> m a; y \<leftarrow> m b; st m a (x XOR y)
   }"

partial_function (option) itoa_digits :: "mem \<Rightarrow> ptr \<Rightarrow> DWORD \<Rightarrow> QWORD \<Rightarrow> DWORD \<Rightarrow> (mem \<times> DWORD) option" where
  "itoa_digits m buffer base value index =
     (if 0 \<noteq> value then do {
        let digit = (ucast (value mod ucast base) :: DWORD);
        m \<leftarrow> st m (buffer + ucast index) (if sint digit > 9 then ucast (digit - 10) + 0x41 else ucast digit + 0x30);
        itoa_digits m buffer base (value div ucast base) (index + 1)
      }
      else Some (m, index))"

text \<open>\<open>v\<close> is the quadword at \<open>valueAddress\<close>; a 32-bit value is its lower half.\<close>

definition itoa :: "mem \<Rightarrow> QWORD \<Rightarrow> bool \<Rightarrow> ptr \<Rightarrow> DWORD \<Rightarrow> bool \<Rightarrow> mem option" where
  "itoa m v signedValue buffer base is64BitValue = do {
     ASSERT (NULL \<noteq> buffer);
     ASSERT (0 \<noteq> base);
     let v32 = (ucast v :: DWORD);
     let negative = (signedValue \<and> (if is64BitValue then sint v < 0 else sint v32 < 0));
     let value = (if is64BitValue then if negative then - v else v
                  else if negative then scast (- v32) else ucast v32);
     (m, index) \<leftarrow> (if 0 = value then do { m \<leftarrow> st m buffer 0x30; Some (m, 1) } else Some (m, 0));
     (m, index) \<leftarrow> itoa_digits m buffer base value index;
     (m, index) \<leftarrow> (if negative then do { m \<leftarrow> st m (buffer + ucast index) 0x2D; Some (m, index + 1) } else Some (m, index));
     m \<leftarrow> st m (buffer + ucast index) 0;
     for_upto (unat (index div 2)) (\<lambda>i m. swap m (buffer + of_nat i) (buffer + ucast (index - of_nat i - 1))) m
   }"

definition char_value :: "BYTE \<Rightarrow> BYTE" where
  "char_value c = (if 0x30 \<le> sint c \<and> sint c \<le> 0x39 then c - 0x30
     else if 0x61 \<le> sint c \<and> sint c \<le> 0x7A then c - 0x61 + 10 else MAX_BYTE)"

partial_function (option) atoi_loop :: "mem \<Rightarrow> ptr \<Rightarrow> DWORD \<Rightarrow> DWORD \<Rightarrow> QWORD \<Rightarrow> QWORD option" where
  "atoi_loop m buffer base i value = do {
     x \<leftarrow> chr m buffer i;
     if x = 0 then Some value
     else do {
       ASSERT (isascii x);
       let currentCharValue = char_value (tolower x);
       ASSERT (ucast currentCharValue < base);
       atoi_loop m buffer base (i + 1) (value * ucast base + ucast currentCharValue)
     }
   }"

text \<open>The number that is stored, as a quadword or in the lower half of one.\<close>

definition atoi :: "mem \<Rightarrow> ptr \<Rightarrow> DWORD \<Rightarrow> bool \<Rightarrow> QWORD option" where
  "atoi m buffer base is64BitValue = do {
     ASSERT (NULL \<noteq> buffer);
     ASSERT (0 \<noteq> base);
     x \<leftarrow> chr m buffer 0;
     let negative = (x = 0x2D);
     value \<leftarrow> atoi_loop m buffer base (if negative then 1 else 0) 0;
     let value = (if negative then - value else value);
     if is64BitValue then Some value
     else do { ASSERT (negative \<or> value \<le> ucast MAX_DWORD); Some (ucast (ucast value :: DWORD)) }
   }"

section \<open>Formatting\<close>

text \<open>
  The width in front of a conversion: the index at its end, the conversion character, the width and the
  character to fill with.
\<close>

partial_function (option) vsnprintf_width :: "mem \<Rightarrow> ptr \<Rightarrow> DWORD \<Rightarrow> DWORD \<Rightarrow> BYTE \<Rightarrow> bool \<Rightarrow> (DWORD \<times> BYTE \<times> DWORD \<times> BYTE) option" where
  "vsnprintf_width m inputBuffer index digits fillChar firstSpecificator = do {
     nxt \<leftarrow> chr m inputBuffer (index + 1);
     if 0x30 \<le> sint nxt \<and> sint nxt \<le> 0x39
     then vsnprintf_width m inputBuffer (index + 1) (digits * 10 + scast nxt - 0x30) (if firstSpecificator \<and> nxt = 0x30 then 0x30 else fillChar) False
     else Some (index, nxt, digits, fillChar)
   }"

text \<open>The conversions of numbers: signed or not, the base, 64 or 32 bits.\<close>

definition number_format :: "BYTE \<Rightarrow> (bool \<times> DWORD \<times> bool) option" where
  "number_format c =
     (if c = 0x62 then Some (False, 2, False) else if c = 0x42 then Some (False, 2, True)
      else if c = 0x75 then Some (False, 10, False) else if c = 0x55 then Some (False, 10, True)
      else if c = 0x64 then Some (True, 10, False) else if c = 0x44 then Some (True, 10, True)
      else if c = 0x78 then Some (False, 16, False) else if c = 0x58 then Some (False, 16, True) else None)"

text \<open>
  One argument: the string to print and the arguments left, or a parse error. The arguments are the
  quadwords behind \<open>argptr\<close>; reading past them is not defined.
\<close>

definition vsnprintf_arg :: "mem \<Rightarrow> ptr \<Rightarrow> BYTE \<Rightarrow> QWORD list \<Rightarrow> (mem \<times> (ptr \<times> QWORD list) option) option" where
  "vsnprintf_arg m temp c va = (case number_format c of
      Some (sgned, base, is64) \<Rightarrow> (case va of [] \<Rightarrow> None | v # va \<Rightarrow> do {
         m \<leftarrow> itoa m (if is64 then v else ucast (ucast v :: DWORD)) sgned temp base is64;
         Some (m, Some (temp, va)) })
    | None \<Rightarrow>
       if c = 0x63 then (case va of [] \<Rightarrow> None | v # va \<Rightarrow> do {
         m \<leftarrow> (if (ucast v :: BYTE) \<noteq> 0 then do { m \<leftarrow> st m temp (ucast v); st m (temp + 1) 0 } else st m temp 0);
         Some (m, Some (temp, va)) })
       else if c = 0x73 \<or> c = 0x53 then (case va of [] \<Rightarrow> None | v # va \<Rightarrow> Some (m, Some (v, va)))
       else Some (m, None))"

partial_function (option) vsnprintf_loop :: "mem \<Rightarrow> ptr \<Rightarrow> DWORD \<Rightarrow> ptr \<Rightarrow> ptr \<Rightarrow> QWORD list \<Rightarrow> DWORD \<Rightarrow> DWORD \<Rightarrow> DWORD \<Rightarrow> (STATUS \<times> mem) option" where
  "vsnprintf_loop m outputBuffer buffSize inputBuffer temp va index param_index outBufferOffset = do {
     c \<leftarrow> chr m inputBuffer index;
     if c = 0 then do { m \<leftarrow> st m (outputBuffer + ucast outBufferOffset) 0; Some (param_index - 1, m) }
     else if c = 0x25 then do {
       (index, nxt, digits, fillChar) \<leftarrow> vsnprintf_width m inputBuffer index 0 0x20 True;
       (m, arg) \<leftarrow> vsnprintf_arg m temp nxt va;
       (case arg of None \<Rightarrow> Some (STATUS_PARSE_FAILED, m)
        | Some (temp_str, va) \<Rightarrow> do {
            temp_len \<leftarrow> cl_strlen m temp_str;
            ASSERT (temp_len \<noteq> INVALID_STRING_SIZE);
            let charsToCopy = (if nxt = 0x53 then min digits temp_len else temp_len);
            let fillSpaces = (if digits > temp_len then digits - temp_len else 0);
            if outBufferOffset + temp_len \<ge> buffSize \<or> outBufferOffset + temp_len + fillSpaces \<ge> buffSize
            then Some (STATUS_BUFFER_TOO_SMALL, m)
            else do {
              m \<leftarrow> (if 0 \<noteq> fillSpaces then cl_memset m (outputBuffer + ucast outBufferOffset) fillChar fillSpaces else Some m);
              let outBufferOffset = outBufferOffset + fillSpaces;
              m \<leftarrow> (if charsToCopy \<noteq> 0 then cl_strncpy m (outputBuffer + ucast outBufferOffset) temp_str charsToCopy else Some m);
              vsnprintf_loop m outputBuffer buffSize inputBuffer temp va (index + 2) (param_index + 1) (outBufferOffset + charsToCopy)
            }
          })
     }
     else if outBufferOffset + 1 \<ge> buffSize then do {
       m \<leftarrow> st m (outputBuffer + ucast outBufferOffset) 0;
       Some (STATUS_BUFFER_TOO_SMALL, m)
     }
     else do {
       m \<leftarrow> st m (outputBuffer + ucast outBufferOffset) c;
       vsnprintf_loop m outputBuffer buffSize inputBuffer temp va (index + 1) param_index (outBufferOffset + 1)
     }
   }"

text \<open>\<open>temp\<close> is the address of the local buffer of 65 bytes.\<close>

definition cl_vsnprintf :: "mem \<Rightarrow> ptr \<Rightarrow> ptr \<Rightarrow> DWORD \<Rightarrow> ptr \<Rightarrow> QWORD list \<Rightarrow> (STATUS \<times> mem) option" where
  "cl_vsnprintf m temp outputBuffer buffSize inputBuffer va =
     (if NULL = outputBuffer then Some (STATUS_INVALID_PARAMETER1, m)
      else if 0 = buffSize then Some (STATUS_INVALID_PARAMETER2, m)
      else if NULL = inputBuffer then Some (STATUS_INVALID_PARAMETER3, m)
      else vsnprintf_loop m outputBuffer buffSize inputBuffer temp va 0 1 0)"

definition cl_snprintf :: "mem \<Rightarrow> ptr \<Rightarrow> ptr \<Rightarrow> DWORD \<Rightarrow> ptr \<Rightarrow> QWORD list \<Rightarrow> (STATUS \<times> mem) option" where
  "cl_snprintf m temp outputBuffer buffSize inputBuffer va = cl_vsnprintf m temp outputBuffer buffSize inputBuffer va"

section \<open>Tokens and trimming\<close>

partial_function (option) is_delimiter :: "mem \<Rightarrow> ptr \<Rightarrow> BYTE \<Rightarrow> DWORD \<Rightarrow> bool option" where
  "is_delimiter m delimiters c j = do {
     d \<leftarrow> chr m delimiters j;
     if d = 0 then Some False else if c = d then Some True else is_delimiter m delimiters c (j + 1)
   }"

text \<open>The index of the first delimiter, or of the end of the string, and which of the two it is.\<close>

partial_function (option) strtok_scan :: "mem \<Rightarrow> ptr \<Rightarrow> ptr \<Rightarrow> DWORD \<Rightarrow> (DWORD \<times> bool) option" where
  "strtok_scan m pStr delimiters i = do {
     c \<leftarrow> chr m pStr i;
     if c = 0 then Some (i, False)
     else do {
       d \<leftarrow> is_delimiter m delimiters c 0;
       if d then Some (i, True) else strtok_scan m pStr delimiters (i + 1)
     }
   }"

text \<open>The parameter \<open>context\<close> is the value behind the pointer, if it is not NULL; the results are the token and the new context.\<close>

definition cl_strtok_s :: "mem \<Rightarrow> ptr \<Rightarrow> ptr \<Rightarrow> ptr option \<Rightarrow> (ptr \<times> ptr option \<times> mem) option" where
  "cl_strtok_s m strToken delimiters ctx =
     (if NULL = delimiters then Some (NULL, ctx, m)
      else case ctx of None \<Rightarrow> Some (NULL, ctx, m)
      | Some context \<Rightarrow>
         if NULL = context \<and> NULL = strToken then Some (NULL, ctx, m)
         else do {
           let pStr = (if NULL = context then strToken else context);
           c \<leftarrow> chr m pStr 0;
           if c = 0 then Some (NULL, ctx, m)
           else do {
             (i, found) \<leftarrow> strtok_scan m pStr delimiters 0;
             if found then do {
               m \<leftarrow> st m (pStr + ucast i) 0;
               Some (pStr, Some (pStr + ucast (i + 1)), m)
             }
             else Some (pStr, Some (pStr + ucast i), m)
           }
         })"

partial_function (option) strcelem_loop :: "mem \<Rightarrow> BYTE \<Rightarrow> ptr \<Rightarrow> ptr \<Rightarrow> DWORD \<Rightarrow> DWORD option" where
  "strcelem_loop m delimiter curPosition pPrevValue noOfElements =
     (if curPosition \<noteq> pPrevValue then do {
        p \<leftarrow> cl_strchr m (curPosition + 1) delimiter;
        strcelem_loop m delimiter p (curPosition + 1) (noOfElements + 1)
      }
      else Some noOfElements)"

definition cl_strcelem :: "mem \<Rightarrow> ptr \<Rightarrow> BYTE \<Rightarrow> DWORD option" where
  "cl_strcelem m str delimiter =
     (if str = NULL then Some INVALID_STRING_SIZE
      else do { p \<leftarrow> cl_strchr m str delimiter; strcelem_loop m delimiter p str 1 })"

partial_function (option) first_nonspace :: "mem \<Rightarrow> ptr \<Rightarrow> DWORD \<Rightarrow> DWORD option" where
  "first_nonspace m str i = do {
     c \<leftarrow> chr m str i;
     if c = 0 then Some MAX_DWORD else if \<not> isspace c then Some i else first_nonspace m str (i + 1)
   }"

text \<open>The loop that cuts off the trailing spaces: from index \<open>i\<close> down to above \<open>startIndex\<close>, with the length so far.\<close>

partial_function (option) right_trim :: "mem \<Rightarrow> ptr \<Rightarrow> DWORD \<Rightarrow> DWORD \<Rightarrow> DWORD \<Rightarrow> (mem \<times> DWORD) option" where
  "right_trim m str startIndex i len =
     (if i > startIndex then do {
        c \<leftarrow> chr m str (i - 1);
        if \<not> isspace c then do { m \<leftarrow> st m (str + ucast i) 0; Some (m, i) } else right_trim m str startIndex (i - 1) len
      }
      else Some (m, len))"

definition cl_strtrim :: "mem \<Rightarrow> ptr \<Rightarrow> mem option" where
  "cl_strtrim m str = do {
     ASSERT (NULL \<noteq> str);
     startIndex \<leftarrow> first_nonspace m str 0;
     if MAX_DWORD = startIndex then st m str 0
     else do {
       len \<leftarrow> cl_strlen m str;
       (m, lengthAfterRightTrim) \<leftarrow> right_trim m str startIndex len len;
       if 0 \<noteq> startIndex then do {
         ASSERT (lengthAfterRightTrim \<noteq> 0);
         cl_memmove m str (str + ucast startIndex) (ucast lengthAfterRightTrim)
       }
       else Some m
     }
   }"

section \<open>Bytes in memory\<close>

text \<open>Memory after the bytes \<open>xs\<close> were written from \<open>p\<close> on, and a terminated string.\<close>

definition put :: "mem \<Rightarrow> ptr \<Rightarrow> BYTE list \<Rightarrow> mem" where
  "put m p xs = (\<lambda>q. if unat (q - p) < length xs then Some (xs ! unat (q - p)) else m q)"

definition cstr :: "mem \<Rightarrow> ptr \<Rightarrow> BYTE list \<Rightarrow> bool" where
  "cstr m p s = ((\<forall>i \<le> length s. m (p + of_nat i) = Some ((s @ [0]) ! i)) \<and> 0 \<notin> set s \<and> length s < 2 ^ 32 - 1)"

lemma ucast_of_nat_DWORD [simp]: "i < 2 ^ 32 \<Longrightarrow> (ucast (of_nat i :: DWORD) :: QWORD) = of_nat i"
  by (simp add: word_unat_eq_iff unat_ucast_QWORD unat_of_nat)

lemma chr_of_nat: "i < 2 ^ 32 \<Longrightarrow> chr m p (of_nat i) = m (p + of_nat i)"
  by (simp add: chr_def)

lemma cstr_chr:
  assumes "cstr m p s" and "i \<le> length s"
  shows "chr m p (of_nat i) = Some ((s @ [0]) ! i)"
  using assms chr_of_nat [of i m p] by (simp add: cstr_def)

lemma cstr_nth_nonzero: "cstr m p s \<Longrightarrow> i < length s \<Longrightarrow> s ! i \<noteq> 0"
  unfolding cstr_def by (metis nth_mem)

lemma put_Nil [simp]: "put m p [] = m"
  by (simp add: put_def)

lemma put_nth [simp]: "i < length xs \<Longrightarrow> i < 2 ^ 64 \<Longrightarrow> put m p xs (p + of_nat i) = Some (xs ! i)"
  by (simp add: put_def)

lemma put_outside [simp]: "q \<notin> region p (length xs) \<Longrightarrow> put m p xs q = m q"
  by (simp add: put_def region_def)

lemma put_mapped: "mapped m p n \<Longrightarrow> mapped (put m p xs) p n"
  by (auto simp: put_def mapped_def)

lemma put_cstr: "0 \<notin> set s \<Longrightarrow> length s < 2 ^ 32 - 1 \<Longrightarrow> cstr (put m p (s @ [0])) p s"
  by (simp add: cstr_def)

lemma st_put:
  assumes "mapped m p n" and "length xs < n" and "n \<le> 2 ^ 64"
  shows "st (put m p xs) (p + of_nat (length xs)) v = Some (put m p (xs @ [v]))"
proof -
  have l: "length xs < 2 ^ 64" using assms by linarith
  have "unat (q - p) = length xs \<longleftrightarrow> q = p + of_nat (length xs)" for q
  proof
    assume "unat (q - p) = length xs"
    then have "of_nat (length xs) = q - p" by (metis of_nat_unat ucast_id)
    then show "q = p + of_nat (length xs)" by simp
  qed (use l in simp)
  then have "put m p (xs @ [v]) = (put m p xs)(p + of_nat (length xs) \<mapsto> v)"
    using l by (auto simp: put_def fun_eq_iff nth_append less_Suc_eq)
  moreover have "put m p xs (p + of_nat (length xs)) \<noteq> None"
    using mapped_nth [OF put_mapped [OF assms(1)] assms(2,3)] .
  ultimately show ?thesis by (simp add: st_def)
qed

lemma st_put_at:
  assumes "i < length xs" and "i < 2 ^ 64"
  shows "st (put m p xs) (p + of_nat i) v = Some (put m p (xs[i := v]))"
proof -
  have "unat (q - p) = i \<longleftrightarrow> q = p + of_nat i" for q
  proof
    assume "unat (q - p) = i"
    then have "of_nat i = q - p" by (metis of_nat_unat ucast_id)
    then show "q = p + of_nat i" by simp
  qed (use assms in simp)
  then have "put m p (xs[i := v]) = (put m p xs)(p + of_nat i \<mapsto> v)"
    using assms by (auto simp: put_def fun_eq_iff nth_list_update)
  then show ?thesis using assms by (simp add: st_def)
qed

section \<open>Scanning\<close>

lemma strlen_loop_ok:
  assumes "cstr m p s" and "i \<le> length s"
  shows "strlen_loop m p (of_nat i) = Some (of_nat (length s))"
  using assms(2)
proof (induction "length s - i" arbitrary: i)
  case 0
  with cstr_chr [OF assms(1) 0(2)] show ?case by (subst strlen_loop.simps) (simp add: nth_append)
next
  case (Suc n)
  then have "strlen_loop m p (of_nat (Suc i)) = Some (of_nat (length s))" by (intro Suc.hyps) auto
  with cstr_chr [OF assms(1) Suc.prems] Suc cstr_nth_nonzero [OF assms(1), of i] show ?case
    by (subst strlen_loop.simps) (simp add: nth_append add.commute)
qed

lemma cl_strlen_ok: "cstr m p s \<Longrightarrow> p \<noteq> NULL \<Longrightarrow> cl_strlen m p = Some (of_nat (length s))"
  using strlen_loop_ok [of m p s 0] by (simp add: cl_strlen_def)

text \<open>The comparison of two strings that the loop computes.\<close>

fun compare :: "(BYTE \<Rightarrow> BYTE) \<Rightarrow> BYTE list \<Rightarrow> BYTE list \<Rightarrow> int" where
  "compare cv (a # as) (b # bs) =
     (if sint (cv a) > sint (cv b) then 1 else if sint (cv a) < sint (cv b) then - 1 else compare cv as bs)"
| "compare cv (a # as) [] = 1"
| "compare cv [] (b # bs) = - 1"
| "compare cv [] [] = 0"

lemma word_sint_eq: "sint (b :: BYTE) = sint a \<Longrightarrow> a = b"
  by (metis of_int_sint scast_id)

lemma compare_zero: "compare cv s t = 0 \<longleftrightarrow> map cv s = map cv t"
  by (induction cv s t rule: compare.induct) (auto simp: word_sint_eq)

lemma compare_neg: "compare cv s t < 0 \<longleftrightarrow> (map cv s, map cv t) \<in> lexord {(a, b). sint a < sint b}"
  by (induction cv s t rule: compare.induct) (auto simp: word_sint_eq)

lemma compare_swap: "compare cv t s = - compare cv s t"
  by (induction cv s t rule: compare.induct) auto

lemma strcmp_loop_ok:
  assumes "cstr m p s" and "cstr m q t" and "i \<le> length s" and "i \<le> length t"
  shows "strcmp_loop cv m p q (of_nat i) = Some (compare cv (drop i s) (drop i t))"
  using assms(3,4)
proof (induction "length s - i" arbitrary: i)
  case 0
  then have "drop i s = []" by simp
  with 0 cstr_chr [OF assms(1) 0(2)] cstr_chr [OF assms(2) 0(3)] cstr_nth_nonzero [OF assms(2), of i] show ?case
    by (subst strcmp_loop.simps) (cases "drop i t", auto simp: nth_append)
next
  case (Suc n)
  then have i: "i < length s" by linarith
  show ?case
  proof (cases "i < length t")
    case True
    then have "strcmp_loop cv m p q (of_nat (Suc i)) = Some (compare cv (drop (Suc i) s) (drop (Suc i) t))"
      using Suc i by (intro Suc.hyps) auto
    with cstr_chr [OF assms(1) Suc.prems(1)] cstr_chr [OF assms(2) Suc.prems(2)] i True
      cstr_nth_nonzero [OF assms(1), of i] cstr_nth_nonzero [OF assms(2), of i] show ?thesis
      by (subst strcmp_loop.simps) (simp add: nth_append add.commute Cons_nth_drop_Suc [symmetric])
  next
    case False
    with Suc.prems have "i = length t" by simp
    with cstr_chr [OF assms(1) Suc.prems(1)] cstr_chr [OF assms(2) Suc.prems(2)] i
      cstr_nth_nonzero [OF assms(1), of i] show ?thesis
      by (subst strcmp_loop.simps) (simp add: nth_append Cons_nth_drop_Suc [symmetric])
  qed
qed

lemma strcmp_ok:
  assumes "cstr m p s" and "cstr m q t" and "p \<noteq> NULL" and "q \<noteq> NULL"
  shows "cl_strcmp m p q = Some (compare id s t)" and "cl_stricmp m p q = Some (compare tolower s t)"
  using assms strcmp_loop_ok [OF assms(1,2), of 0] by (simp_all add: cl_strcmp_def cl_stricmp_def)

section \<open>Copying strings\<close>

lemma strcpy_loop_ok:
  assumes "cstr m src s" and "mapped m dst (Suc (length s))" and "region dst (Suc (length s)) \<inter> region src (Suc (length s)) = {}"
    and "i \<le> length s"
  shows "strcpy_loop (put m dst (take i s)) dst src (of_nat i) = Some (put m dst (s @ [0]))"
  using assms(4)
proof (induction "length s - i" arbitrary: i)
  have len: "length s < 2 ^ 32 - 1" using assms(1) by (simp add: cstr_def)
  have rd: "chr (put m dst (take i s)) src (of_nat i) = Some ((s @ [0]) ! i)" if "i \<le> length s" for i
  proof -
    have "src + of_nat i \<in> region src (Suc (length s))" using that len by (intro in_region) auto
    then have "src + of_nat i \<notin> region dst (Suc (length s))" using assms(3) by blast
    then have "src + of_nat i \<notin> region dst (length (take i s))" by (simp add: region_def)
    then show ?thesis using cstr_chr [OF assms(1) that] that len by (simp add: chr_of_nat)
  qed
  have wr: "st (put m dst (take i s)) (dst + of_nat i) v = Some (put m dst (take i s @ [v]))" if "i \<le> length s" for i v
    using st_put [OF assms(2), of "take i s" v] that len by simp
  {
    case 0
    with rd [OF 0(2)] wr [OF 0(2)] len show ?case by (subst strcpy_loop.simps) (simp add: nth_append)
  next
    case (Suc n)
    then have i: "i < length s" by linarith
    then have "strcpy_loop (put m dst (take (Suc i) s)) dst src (of_nat (Suc i)) = Some (put m dst (s @ [0]))"
      using Suc by (intro Suc.hyps) auto
    with rd [of i] wr [of i] i len cstr_nth_nonzero [OF assms(1) i] show ?case
      by (subst strcpy_loop.simps) (simp add: nth_append add.commute take_Suc_conv_app_nth)
  }
qed

lemma cl_strcpy_ok:
  assumes "cstr m src s" and "mapped m dst (Suc (length s))" and "region dst (Suc (length s)) \<inter> region src (Suc (length s)) = {}"
    and "dst \<noteq> NULL" and "src \<noteq> NULL"
  shows "cl_strcpy m dst src = Some (put m dst (s @ [0]))"
  using strcpy_loop_ok [OF assms(1-3), of 0] assms(4,5) by (simp add: cl_strcpy_def)

section \<open>Numerals\<close>

text \<open>The numeral of \<open>n\<close> in base \<open>b\<close>, lowest digit first.\<close>

definition digit_char :: "nat \<Rightarrow> BYTE" where
  "digit_char d = (if 9 < d then of_nat (d - 10) + 0x41 else of_nat d + 0x30)"

function digits :: "nat \<Rightarrow> nat \<Rightarrow> nat list" where
  "digits b n = (if b < 2 \<or> n = 0 then [] else n mod b # digits b (n div b))"
  by auto
termination by (relation "measure snd") auto

declare digits.simps [simp del]

definition numeral_of :: "nat \<Rightarrow> nat \<Rightarrow> BYTE list" where
  "numeral_of b n = (if n = 0 then [0x30] else map digit_char (rev (digits b n)))"

lemma digits_0 [simp]: "digits b 0 = []"
  by (simp add: digits.simps)

lemma digits_less: "2 \<le> b \<Longrightarrow> d \<in> set (digits b n) \<Longrightarrow> d < b"
proof (induction b n rule: digits.induct)
  case (1 b n)
  then show ?case by (cases "n = 0") (auto simp: digits.simps [of b n])
qed

lemma digits_length: "n < 2 ^ k \<Longrightarrow> length (digits b n) \<le> k"
proof (induction b n arbitrary: k rule: digits.induct)
  case (1 b n)
  show ?case
  proof (cases "b < 2 \<or> n = 0")
    case False
    with 1(2) obtain j where k: "k = Suc j" by (cases k) auto
    have "n div b \<le> n div 2" using False by (intro div_le_mono2) auto
    then have "n div b < 2 ^ j" using 1(2) k by auto
    from 1(1) [OF False this] False k show ?thesis by (simp add: digits.simps [of b n])
  qed (auto simp: digits.simps)
qed

lemma digits_value: "2 \<le> b \<Longrightarrow> foldr (\<lambda>d v. v * b + d) (digits b n) 0 = n"
  by (induction b n rule: digits.induct) (subst digits.simps, simp)

lemma digit_char_facts:
  assumes "d < 36"
  shows "digit_char d \<noteq> 0" and "digit_char d \<noteq> 0x2D" and "isascii (digit_char d)" and "char_value (tolower (digit_char d)) = of_nat d"
proof -
  have "\<forall>d \<in> set [0..<36]. digit_char d \<noteq> 0 \<and> digit_char d \<noteq> 0x2D \<and> isascii (digit_char d) \<and> char_value (tolower (digit_char d)) = of_nat d"
    by code_simp
  then have "digit_char d \<noteq> 0 \<and> digit_char d \<noteq> 0x2D \<and> isascii (digit_char d) \<and> char_value (tolower (digit_char d)) = of_nat d"
    using assms by simp
  then show "digit_char d \<noteq> 0" and "digit_char d \<noteq> 0x2D" and "isascii (digit_char d)" and "char_value (tolower (digit_char d)) = of_nat d"
    by blast+
qed

lemma digit_char_word:
  assumes "d < 36"
  shows "(if sint (of_nat d :: DWORD) > 9 then ucast (of_nat d - 10 :: DWORD) + 0x41 else ucast (of_nat d :: DWORD) + 0x30) = digit_char d"
proof -
  have "\<forall>d \<in> set [0..<36]. (if sint (of_nat d :: DWORD) > 9 then ucast (of_nat d - 10 :: DWORD) + 0x41 else ucast (of_nat d :: DWORD) + 0x30) = digit_char d"
    by code_simp
  with assms show ?thesis by simp
qed

text \<open>One more digit: the digit loop stores the digits after what is in the buffer.\<close>

lemma itoa_digits_ok:
  assumes "mapped m buffer n" and "n < 2 ^ 32" and "2 \<le> base" and "base \<le> 36"
    and "length xs + length (digits (unat base) (unat v)) \<le> n"
  shows "itoa_digits (put m buffer xs) buffer base v (of_nat (length xs)) =
    Some (put m buffer (xs @ map digit_char (digits (unat base) (unat v))), of_nat (length xs + length (digits (unat base) (unat v))))"
  using assms(5)
proof (induction "unat v" arbitrary: v xs rule: less_induct)
  case less
  have b: "2 \<le> unat base" "unat base \<le> 36" using assms(3,4) by (simp_all add: word_le_nat_alt)
  show ?case
  proof (cases "v = 0")
    case True
    then show ?thesis by (subst itoa_digits.simps) simp
  next
    case False
    then have pos: "0 < unat v" by (simp add: unat_gt_0)
    define d where "d = unat v mod unat base"
    have d: "d < 36" using b mod_less_divisor [of "unat base" "unat v"] by (simp add: d_def del: mod_less_divisor)
    have dv: "unat (v div ucast base) = unat v div unat base" by (simp add: unat_div unat_ucast_QWORD)
    have ds: "digits (unat base) (unat v) = d # digits (unat base) (unat v div unat base)"
      using pos b by (simp add: digits.simps [of _ "unat v"] d_def)
    have um: "unat (v mod ucast base) = d" by (simp add: unat_mod unat_ucast_QWORD d_def)
    then have dd: "(ucast (v mod ucast base) :: DWORD) = of_nat d" by (metis of_nat_unat)
    have "itoa_digits (put m buffer (xs @ [digit_char d])) buffer base (v div ucast base) (of_nat (length (xs @ [digit_char d]))) =
        Some (put m buffer ((xs @ [digit_char d]) @ map digit_char (digits (unat base) (unat (v div ucast base)))),
          of_nat (length (xs @ [digit_char d]) + length (digits (unat base) (unat (v div ucast base)))))"
      using pos b less.prems ds dv by (intro less.hyps) auto
    moreover have "st (put m buffer xs) (buffer + of_nat (length xs)) (digit_char d) = Some (put m buffer (xs @ [digit_char d]))"
      using st_put [OF assms(1), of xs] assms(2) less.prems ds by simp
    moreover have "(if sint (of_nat d :: DWORD) > 9 then ucast (of_nat d - 10 :: DWORD) + 0x41 else ucast (of_nat d :: DWORD) + 0x30) = digit_char d"
      using d by (rule digit_char_word)
    ultimately show ?thesis
      using False ds dv dd less.prems assms(2) by (subst itoa_digits.simps) (simp add: Let_def add.commute)
  qed
qed

text \<open>The loop of swaps reverses the first \<open>n\<close> bytes.\<close>

lemma swap_put:
  assumes "i < length xs" and "j < length xs" and "i \<noteq> j" and "length xs < 2 ^ 64"
  shows "swap (put m p xs) (p + of_nat i) (p + of_nat j) = Some (put m p (xs[i := xs ! j, j := xs ! i]))"
proof -
  have [simp]: "i < 2 ^ 64" "j < 2 ^ 64" using assms by auto
  have "(a XOR b) XOR (b XOR (a XOR b)) = b" "b XOR (a XOR b) = a" for a b :: BYTE
    by (simp_all add: xor.commute xor.left_commute)
  with assms show ?thesis
    by (simp add: swap_def st_put_at nth_list_update xor.left_commute xor.commute list_update_swap)
qed

lemma swap_loop:
  assumes "length xs = n" and "n < 2 ^ 32 - 1"
  shows "for_upto (n div 2) (\<lambda>i m. swap m (p + of_nat i) (p + ucast (of_nat n - of_nat i - 1 :: DWORD))) (put m p (xs @ [0]))
    = Some (put m p (rev xs @ [0]))"
proof -
  define Q where "Q = (\<lambda>i m'. \<exists>ys. m' = put m p (ys @ [0]) \<and> length ys = n
    \<and> (\<forall>j < n. ys ! j = (if j < i \<or> n - i \<le> j then rev xs ! j else xs ! j)))"
  have "\<exists>m'. for_upto (n div 2) (\<lambda>i m. swap m (p + of_nat i) (p + ucast (of_nat n - of_nat i - 1 :: DWORD))) (put m p (xs @ [0])) = Some m' \<and> Q (n div 2) m'"
  proof (rule for_upto_rule)
    show "Q 0 (put m p (xs @ [0]))" using assms by (auto simp: Q_def)
    fix i m' assume i: "i < n div 2" and "Q i m'"
    then obtain ys where ys: "m' = put m p (ys @ [0])" "length ys = n"
      "\<forall>j < n. ys ! j = (if j < i \<or> n - i \<le> j then rev xs ! j else xs ! j)" by (auto simp: Q_def)
    define k where "k = n - i - 1"
    have k: "k < n" "i < k" "i < n" using i by (auto simp: k_def)
    have "of_nat n - of_nat i - 1 = (of_nat k :: DWORD)" using k by (simp add: k_def of_nat_diff)
    then have a: "(ucast (of_nat n - of_nat i - 1 :: DWORD) :: QWORD) = of_nat k"
      using k assms by simp
    have "swap m' (p + of_nat i) (p + of_nat k) = Some (put m p ((ys @ [0])[i := (ys @ [0]) ! k, k := (ys @ [0]) ! i]))"
      unfolding ys(1) using k ys(2) assms by (intro swap_put) auto
    moreover have "(ys @ [0])[i := (ys @ [0]) ! k, k := (ys @ [0]) ! i] = ys[i := ys ! k, k := ys ! i] @ [0]"
      using k ys(2) by (simp add: list_update_append nth_append)
    moreover have "\<forall>j < n. ys[i := ys ! k, k := ys ! i] ! j = (if j < Suc i \<or> n - Suc i \<le> j then rev xs ! j else xs ! j)"
      using k ys(2,3) assms(1) by (auto simp: nth_list_update rev_nth k_def)
    ultimately show "\<exists>m''. swap m' (p + of_nat i) (p + ucast (of_nat n - of_nat i - 1 :: DWORD)) = Some m'' \<and> Q (Suc i) m''"
      unfolding Q_def a using ys(2) by (metis length_list_update)
  qed
  moreover have "m' = put m p (rev xs @ [0])" if "Q (n div 2) m'" for m'
  proof -
    from that obtain ys where ys: "m' = put m p (ys @ [0])" "length ys = n"
      "\<forall>j < n. ys ! j = (if j < n div 2 \<or> n - n div 2 \<le> j then rev xs ! j else xs ! j)" by (auto simp: Q_def)
    have "ys = rev xs"
    proof (rule nth_equalityI)
      fix j assume j: "j < length ys"
      show "ys ! j = rev xs ! j"
      proof (cases "j < n div 2 \<or> n - n div 2 \<le> j")
        case False
        then have "n - Suc j = j" using j ys(2) by linarith
        with False ys j assms(1) show ?thesis by (simp add: rev_nth)
      qed (use ys j in auto)
    qed (use ys(2) assms(1) in simp)
    with ys(1) show ?thesis by simp
  qed
  ultimately show ?thesis by auto
qed

section \<open>Printing and reading numbers\<close>

text \<open>The number that \<open>itoa\<close> is asked to print and the text of a number.\<close>

definition number_of :: "QWORD \<Rightarrow> bool \<Rightarrow> bool \<Rightarrow> int" where
  "number_of v sgned is64 = (if is64 then if sgned then sint v else uint v
     else if sgned then sint (ucast v :: DWORD) else uint (ucast v :: DWORD))"

definition number_text :: "nat \<Rightarrow> int \<Rightarrow> BYTE list" where
  "number_text b x = (if x < 0 then [0x2D] else []) @ numeral_of b (nat \<bar>x\<bar>)"

lemma unat_word_of_int: "0 \<le> r \<Longrightarrow> r < 2 ^ LENGTH('a) \<Longrightarrow> unat (word_of_int r :: 'a::len word) = nat r"
  by (simp add: uint_word_of_int flip: nat_uint_eq)

lemma of_sint: "word_of_int (sint w) = (w :: 'a::len word)"
  by simp

lemma unat_neg:
  fixes w :: "'a::len word"
  assumes "sint w < 0"
  shows "unat (- w) = nat (- sint w)"
proof -
  have "- sint w \<le> 2 ^ (LENGTH('a) - 1)" using sint_greater_eq [of w] by simp
  moreover have "(2::int) ^ (LENGTH('a) - 1) < 2 ^ LENGTH('a)" by (intro power_strict_increasing) auto
  ultimately have "- sint w < 2 ^ LENGTH('a)" by linarith
  then show ?thesis using assms unat_word_of_int [of "- sint w", where 'a = 'a] by simp
qed

lemma unat_nonneg:
  fixes w :: "'a::len word"
  assumes "0 \<le> sint w"
  shows "nat (sint w) = unat w"
proof -
  have "(2::int) ^ (LENGTH('a) - 1) < 2 ^ LENGTH('a)" by (intro power_strict_increasing) auto
  then have "sint w < 2 ^ LENGTH('a)" using sint_lt [of w] by linarith
  then show ?thesis using assms unat_word_of_int [of "sint w", where 'a = 'a] by simp
qed

lemma unat_scast_pos:
  fixes w :: DWORD
  assumes "0 \<le> sint w"
  shows "unat (scast w :: QWORD) = nat (sint w)"
  using assms sint_less [of w] unat_word_of_int [of "sint w", where 'a = 64] by simp

lemma sint_minus:
  fixes w :: DWORD
  assumes "w \<noteq> 0x80000000"
  shows "sint (- w) = - sint w"
proof -
  have "sint w \<noteq> - (2 ^ 31)"
  proof
    assume "sint w = - (2 ^ 31)"
    then have "w = word_of_int (- (2 ^ 31))" by (metis of_sint)
    with assms show False by simp
  qed
  then have "- (2 ^ 31) < sint w" using sint_greater_eq [of w] by simp
  then have "sint (word_of_int (- sint w) :: DWORD) = - sint w"
    using sint_less [of w] by (intro sint_word_of_int_small) simp_all
  then show ?thesis by simp
qed

lemma itoa_magnitude:
  assumes "is64 \<or> \<not> sgned \<or> (ucast v :: DWORD) \<noteq> 0x80000000"
  defines "v32 \<equiv> (ucast v :: DWORD)"
  defines "negative \<equiv> sgned \<and> (if is64 then sint v < 0 else sint v32 < 0)"
  shows "unat (if is64 then if negative then - v else v else if negative then scast (- v32) else ucast v32) = nat \<bar>number_of v sgned is64\<bar>"
    and "negative \<longleftrightarrow> number_of v sgned is64 < 0"
proof -
  show "negative \<longleftrightarrow> number_of v sgned is64 < 0" by (auto simp: negative_def number_of_def v32_def)
  show "unat (if is64 then if negative then - v else v else if negative then scast (- v32) else ucast v32) = nat \<bar>number_of v sgned is64\<bar>"
    using assms(1) unat_nonneg [of v] unat_nonneg [of v32] unat_neg [of v] sint_minus [of v32] unat_scast_pos [of "- v32"]
    by (auto simp: negative_def number_of_def v32_def unat_ucast_QWORD)
qed

lemma numeral_of_length: "n < 2 ^ k \<Longrightarrow> 0 < k \<Longrightarrow> length (numeral_of b n) \<le> k"
  using digits_length [of n k b] by (auto simp: numeral_of_def)

lemma number_bound: "nat \<bar>number_of v sgned is64\<bar> < 2 ^ 64"
  using sint_less [of v] sint_greater_eq [of v] uint_lt2p [of v] sint_less [of "ucast v :: DWORD"]
    sint_greater_eq [of "ucast v :: DWORD"] uint_lt2p [of "ucast v :: DWORD"]
  by (auto simp: number_of_def nat_less_iff)

lemma itoa_ok:
  assumes "buffer \<noteq> NULL" and "2 \<le> base" and "base \<le> 36" and "mapped m buffer 66"
    and "is64 \<or> \<not> sgned \<or> (ucast v :: DWORD) \<noteq> 0x80000000"
  shows "itoa m v sgned buffer base is64 = Some (put m buffer (number_text (unat base) (number_of v sgned is64) @ [0]))"
proof -
  define x where "x = number_of v sgned is64"
  define b where "b = unat base"
  define v32 where "v32 = (ucast v :: DWORD)"
  define negative where "negative \<longleftrightarrow> sgned \<and> (if is64 then sint v < 0 else sint v32 < 0)"
  define val where "val = (if is64 then if negative then - v else v else if negative then scast (- v32) else ucast v32)"
  have val: "unat val = nat \<bar>x\<bar>" and neg: "negative \<longleftrightarrow> x < 0"
    using itoa_magnitude [OF assms(5)] by (auto simp: val_def negative_def v32_def x_def)
  define xs where "xs = (if x = 0 then [0x30] else map digit_char (digits b (nat \<bar>x\<bar>)))"
  have xs: "rev xs = numeral_of b (nat \<bar>x\<bar>)" by (simp add: xs_def numeral_of_def rev_map)
  then have lx: "length xs \<le> 64"
    using numeral_of_length [OF number_bound [of v sgned is64], of b] by (metis length_rev x_def zero_less_numeral)
  have x0: "0 = val \<longleftrightarrow> x = 0" using val by (auto simp: unat_eq_zero [symmetric])
  note stp = st_put [OF assms(4)]
  let ?z = "if x = 0 then [0x30] else []"
  have z: "(if 0 = val then do { m \<leftarrow> st m buffer 0x30; Some (m, 1) } else Some (m, 0)) = Some (put m buffer ?z, of_nat (length ?z) :: DWORD)"
    using stp [of "[]" "0x30"] by (simp add: x0)
  have d: "itoa_digits (put m buffer ?z) buffer base val (of_nat (length ?z)) = Some (put m buffer xs, of_nat (length xs))"
    using itoa_digits_ok [OF assms(4) _ assms(2,3), of ?z val] lx by (auto simp: xs_def val b_def)
  define ys where "ys = xs @ (if negative then [0x2D] else [])"
  have ly: "length ys \<le> 65" using lx by (simp add: ys_def)
  have s: "(if negative then do { m \<leftarrow> st (put m buffer xs) (buffer + ucast (of_nat (length xs) :: DWORD)) 0x2D; Some (m, of_nat (length xs) + 1) }
      else Some (put m buffer xs, of_nat (length xs))) = Some (put m buffer ys, of_nat (length ys))"
    using stp [of xs "0x2D"] lx by (simp add: ys_def add.commute)
  have t: "st (put m buffer ys) (buffer + ucast (of_nat (length ys) :: DWORD)) 0 = Some (put m buffer (ys @ [0]))"
    using stp [of ys 0] ly by simp
  have h: "unat ((of_nat (length ys) :: DWORD) div 2) = length ys div 2"
    using ly by (simp add: unat_div unat_of_nat)
  have sw: "for_upto (length ys div 2) (\<lambda>i m. swap m (buffer + of_nat i) (buffer + ucast (of_nat (length ys) - of_nat i - 1 :: DWORD)))
      (put m buffer (ys @ [0])) = Some (put m buffer (rev ys @ [0]))"
    using ly by (intro swap_loop) auto
  have nz: "NULL \<noteq> buffer" "0 \<noteq> base" using assms(1,2) by auto
  have "itoa m v sgned buffer base is64 = Some (put m buffer (rev ys @ [0]))"
    unfolding itoa_def Let_def v32_def [symmetric] negative_def [symmetric] val_def [symmetric]
    using nz by (subst z) (simp add: d s t h sw bind_ASSERT del: of_nat_add)
  then show ?thesis by (simp add: number_text_def x_def b_def ys_def neg xs)
qed

lemma atoi_loop_ok:
  assumes "cstr m p s" and "\<forall>c \<in> set (drop i s). isascii c \<and> ucast (char_value (tolower c)) < base" and "i \<le> length s"
  shows "atoi_loop m p base (of_nat i) acc = Some (foldl (\<lambda>v c. v * ucast base + ucast (char_value (tolower c))) acc (drop i s))"
  using assms(2,3)
proof (induction "length s - i" arbitrary: i acc)
  case 0
  with cstr_chr [OF assms(1) 0(3)] show ?case by (subst atoi_loop.simps) (simp add: nth_append)
next
  case (Suc n)
  then have i: "i < length s" by linarith
  have d: "drop i s = s ! i # drop (Suc i) s" using i by (simp add: Cons_nth_drop_Suc)
  have "atoi_loop m p base (of_nat (Suc i)) (acc * ucast base + ucast (char_value (tolower (s ! i)))) =
      Some (foldl (\<lambda>v c. v * ucast base + ucast (char_value (tolower c))) (acc * ucast base + ucast (char_value (tolower (s ! i)))) (drop (Suc i) s))"
    using Suc i d by (intro Suc.hyps) auto
  with cstr_chr [OF assms(1) Suc.prems(2)] Suc.prems(1) d i cstr_nth_nonzero [OF assms(1) i] show ?case
    by (subst atoi_loop.simps) (simp add: nth_append add.commute)
qed

lemma number_text_chars:
  assumes "2 \<le> b" and "b \<le> 36" and "c \<in> set (numeral_of b n)"
  shows "\<exists>d < b. c = digit_char d"
proof (cases "n = 0")
  case True
  with assms show ?thesis by (intro exI [of _ 0]) (simp add: numeral_of_def digit_char_def)
next
  case False
  with assms digits_less [of b _ n] show ?thesis by (auto simp: numeral_of_def)
qed

lemma numeral_of_value:
  fixes base :: DWORD
  assumes "2 \<le> base" and "base \<le> 36"
  shows "foldl (\<lambda>v c. v * ucast base + ucast (char_value (tolower c))) 0 (numeral_of (unat base) n) = (of_nat n :: QWORD)"
proof (cases "n = 0")
  case True
  then show ?thesis using digit_char_facts(4) [of 0] by (simp add: numeral_of_def digit_char_def)
next
  case False
  have b: "2 \<le> unat base" "unat base \<le> 36" using assms by (simp_all add: word_le_nat_alt)
  have *: "foldr (\<lambda>d v. v * ucast base + ucast (char_value (tolower (digit_char d)))) ds 0 = (of_nat (foldr (\<lambda>d v. v * unat base + d) ds 0) :: QWORD)"
    if "\<forall>d \<in> set ds. d < 36" for ds
    using that
  proof (induction ds)
    case (Cons d ds)
    then have "(ucast (char_value (tolower (digit_char d))) :: QWORD) = of_nat d"
      by (simp add: digit_char_facts word_unat_eq_iff unsigned_ucast_eq unat_of_nat take_bit_nat_eq_self)
    with Cons show ?case by (simp add: of_nat_unat)
  qed simp
  have "\<forall>d \<in> set (digits (unat base) n). d < 36" using digits_less [OF b(1)] b(2) by fastforce
  from * [OF this] digits_value [OF b(1), of n] False show ?thesis
    by (simp add: numeral_of_def foldl_map foldr_conv_foldl)
qed

lemma atoi_ok:
  assumes "cstr m p (number_text (unat base) x)" and "p \<noteq> NULL" and "2 \<le> base" and "base \<le> 36"
    and "is64 \<or> x < 2 ^ 32"
  shows "atoi m p base is64 = Some (if is64 then word_of_int x else ucast (word_of_int x :: DWORD))"
proof -
  let ?n = "numeral_of (unat base) (nat \<bar>x\<bar>)"
  have b: "2 \<le> unat base" "unat base \<le> 36" using assms(3,4) by (simp_all add: word_le_nat_alt)
  have ch: "c \<noteq> 0x2D \<and> isascii c \<and> ucast (char_value (tolower c)) < base" if "c \<in> set ?n" for c
  proof -
    from number_text_chars [OF b that] obtain d where d: "d < unat base" "c = digit_char d" by auto
    with b have "char_value (tolower c) = of_nat d" by (simp add: digit_char_facts)
    then have "(ucast (char_value (tolower c)) :: DWORD) = of_nat d"
      using d(1) b by (simp add: word_unat_eq_iff [of _ "of_nat d :: DWORD"] unsigned_ucast_eq unat_of_nat take_bit_nat_eq_self)
    with d b show ?thesis by (simp add: digit_char_facts word_less_nat_alt unat_of_nat)
  qed
  have ne: "?n \<noteq> []" using b by (auto simp: numeral_of_def digits.simps)
  then have hd: "?n ! 0 \<noteq> 0x2D" using ch [of "?n ! 0"] by simp
  define i :: nat where "i = (if x < 0 then 1 else 0)"
  have t: "drop i (number_text (unat base) x) = ?n" by (simp add: i_def number_text_def)
  have neg: "(number_text (unat base) x @ [0]) ! 0 = 0x2D \<longleftrightarrow> x < 0" using hd ne by (simp add: number_text_def nth_append)
  have "chr m p 0 = Some ((number_text (unat base) x @ [0]) ! 0)" using cstr_chr [OF assms(1), of 0] by simp
  moreover have "atoi_loop m p base (of_nat i) 0 = Some (of_nat (nat \<bar>x\<bar>))"
    using atoi_loop_ok [OF assms(1), of i base 0] ch t numeral_of_value [OF assms(3,4), of "nat \<bar>x\<bar>"]
    by (simp add: i_def number_text_def)
  moreover have "(if x < 0 then - of_nat (nat \<bar>x\<bar>) else of_nat (nat \<bar>x\<bar>)) = (word_of_int x :: QWORD)" by simp
  moreover have "(ucast (word_of_int x :: QWORD) :: DWORD) = word_of_int x"
    by (rule bit_word_eqI) (simp add: bit_simps)
  moreover have "(word_of_int x :: QWORD) \<le> ucast MAX_DWORD" if "\<not> x < 0" "x < 2 ^ 32"
    using that unat_word_of_int [of x, where 'a = 64] by (simp add: word_le_nat_alt)
  moreover have "(if x < 0 then 1 else 0 :: DWORD) = of_nat i" by (simp add: i_def)
  ultimately show ?thesis
    using assms(2-5) neg by (auto simp: atoi_def bind_ASSERT Let_def)
qed

lemma number_of_word: "word_of_int (number_of v sgned True) = v" "word_of_int (number_of v sgned False) = (ucast v :: DWORD)"
  by (simp_all add: number_of_def)

lemma number_text_length: "length (number_text b (number_of v sgned is64)) \<le> 65"
  using numeral_of_length [OF number_bound [of v sgned is64], of b] by (auto simp: number_text_def abs_if)

lemma number_text_nonzero: "2 \<le> b \<Longrightarrow> b \<le> 36 \<Longrightarrow> 0 \<notin> set (number_text b x)"
  using number_text_chars [of b 0 "nat \<bar>x\<bar>"] digit_char_facts(1) by (auto simp: number_text_def)

section \<open>Properties\<close>

text \<open>
  C26: Printing and reading a number are inverse to each other, for every number but the smallest signed 32-bit number
  (\<open>0x80000000\<close> as a signed 32-bit number, whose sign \<open>itoa\<close> extends so that it prints a different number). In every base
  from 2 to 36 \<open>itoa\<close> writes the numeral of the number, with a minus sign if it is negative, and a terminator, and nothing
  outside of the first 66 bytes of the buffer; \<open>atoi\<close> reads back the number that was printed, as 64 or as 32 bits.
\<close>

theorem itoa_atoi_roundtrip:
  assumes "buffer \<noteq> NULL" and "2 \<le> base" and "base \<le> 36" and "mapped m buffer 66"
    and "is64 \<or> \<not> sgned \<or> (ucast v :: DWORD) \<noteq> 0x80000000"
  shows "\<exists>m'. itoa m v sgned buffer base is64 = Some m' \<and> cstr m' buffer (number_text (unat base) (number_of v sgned is64))
    \<and> (\<forall>q. q \<notin> region buffer 66 \<longrightarrow> m' q = m q)
    \<and> atoi m' buffer base is64 = Some (if is64 then v else ucast (ucast v :: DWORD))"
proof -
  define x where "x = number_of v sgned is64"
  let ?m = "put m buffer (number_text (unat base) x @ [0])"
  have b: "2 \<le> unat base" "unat base \<le> 36" using assms(2,3) by (simp_all add: word_le_nat_alt)
  have c: "cstr ?m buffer (number_text (unat base) x)"
    using number_text_nonzero [OF b] number_text_length [of "unat base" v sgned is64] by (intro put_cstr) (auto simp: x_def)
  have "is64 \<or> x < 2 ^ 32"
    using uint_lt2p [of "ucast v :: DWORD"] sint_less [of "ucast v :: DWORD"] by (auto simp: x_def number_of_def)
  from atoi_ok [OF c assms(1-3) this] have "atoi ?m buffer base is64 = Some (if is64 then v else ucast (ucast v :: DWORD))"
    using number_of_word [of v sgned] by (cases is64) (simp_all add: x_def)
  moreover have "?m q = m q" if "q \<notin> region buffer 66" for q
    using that number_text_length [of "unat base" v sgned is64] by (auto simp: put_def region_def x_def)
  ultimately show ?thesis using itoa_ok [OF assms] c by (auto simp: x_def)
qed

theorem itoa_atoi_roundtrip_witness:
  "\<exists>m'. itoa (\<lambda>q. Some 0) (- 255) True 0x1000 16 False = Some m' \<and> cstr m' 0x1000 [0x2D, 0x46, 0x46]
    \<and> atoi m' 0x1000 16 False = Some 0xFFFFFF01"
proof -
  have "number_text 16 (- 255) = [0x2D, 0x46, 0x46]"
    by (simp add: number_text_def numeral_of_def digits.simps digit_char_def)
  moreover have "number_of (- 255) True False = - 255" by (simp add: number_of_def)
  ultimately show ?thesis
    using itoa_atoi_roundtrip [of "0x1000" 16 "\<lambda>q. Some 0" False True "- 255"] by (auto simp: mapped_def)
qed

text \<open>
  \<open>cl_strcmp\<close> and \<open>cl_stricmp\<close> return for any two terminated strings. The result is 0 exactly for equal
  strings, negative exactly when the first comes before the second in the lexicographic order of the
  signed characters, and positive exactly in the opposite case; \<open>cl_stricmp\<close> does the same on the lower
  case of the strings.
\<close>

theorem strcmp_lexicographic:
  assumes "cstr m p s" and "cstr m q t" and "p \<noteq> NULL" and "q \<noteq> NULL"
  shows "\<exists>r r'. cl_strcmp m p q = Some r \<and> cl_stricmp m p q = Some r'
    \<and> (r = 0 \<longleftrightarrow> s = t) \<and> (r < 0 \<longleftrightarrow> (s, t) \<in> lexord {(a, b). sint a < sint b}) \<and> (r > 0 \<longleftrightarrow> (t, s) \<in> lexord {(a, b). sint a < sint b})
    \<and> (r' = 0 \<longleftrightarrow> map tolower s = map tolower t)
    \<and> (r' < 0 \<longleftrightarrow> (map tolower s, map tolower t) \<in> lexord {(a, b). sint a < sint b})"
proof -
  have "compare id s t > 0 \<longleftrightarrow> compare id t s < 0" by (simp add: compare_swap [of id t])
  then show ?thesis
    using strcmp_ok [OF assms] compare_zero [of id s t] compare_neg [of id s t] compare_neg [of id t s]
      compare_zero [of tolower s t] compare_neg [of tolower s t] by simp
qed

lemma ex_string:
  "cstr (put (put (\<lambda>q. Some 0) 0x2000 [0x61, 0x62, 0]) 0x1000 [0x61, 0x43, 0]) 0x1000 [0x61, 0x43]"
  "cstr (put (put (\<lambda>q. Some 0) 0x2000 [0x61, 0x62, 0]) 0x1000 [0x61, 0x43, 0]) 0x2000 [0x61, 0x62]"
  by (auto simp: cstr_def put_def le_Suc_eq)

theorem strcmp_lexicographic_witness:
  "\<exists>r. cl_strcmp (put (put (\<lambda>q. Some 0) 0x2000 [0x61, 0x62, 0]) 0x1000 [0x61, 0x43, 0]) 0x1000 0x2000 = Some r \<and> r < 0"
  using strcmp_lexicographic [OF ex_string] by auto

text \<open>
  Copying a terminated string to a place that does not overlap it writes the string and its terminator
  and nothing else: the copy has the length of the original and compares equal to it.
\<close>

theorem strcpy_copies:
  assumes "cstr m src s" and "mapped m dst (Suc (length s))" and "region dst (Suc (length s)) \<inter> region src (Suc (length s)) = {}"
    and "dst \<noteq> NULL" and "src \<noteq> NULL"
  shows "\<exists>m'. cl_strcpy m dst src = Some m' \<and> cstr m' dst s \<and> (\<forall>q. q \<notin> region dst (Suc (length s)) \<longrightarrow> m' q = m q)
    \<and> cl_strlen m' dst = Some (of_nat (length s)) \<and> cl_strcmp m' dst src = Some 0"
proof -
  let ?m = "put m dst (s @ [0])"
  have s: "0 \<notin> set s" "length s < 2 ^ 32 - 1" using assms(1) by (auto simp: cstr_def)
  then have d: "cstr ?m dst s" by (rule put_cstr)
  have "?m (src + of_nat i) = m (src + of_nat i)" if "i \<le> length s" for i
  proof -
    have "src + of_nat i \<in> region src (Suc (length s))" using that s by (intro in_region) auto
    with assms(3) show ?thesis by (intro put_outside) auto
  qed
  then have c: "cstr ?m src s" using assms(1) by (simp add: cstr_def)
  have "compare id s s = 0" by (simp add: compare_zero)
  with cl_strcpy_ok [OF assms] d cl_strlen_ok [OF d assms(4)] strcmp_ok(1) [OF d c assms(4,5)] show ?thesis by auto
qed

lemma region_3: "region p 3 = {p, p + 1, p + 2}"
proof -
  have "unat w < 3 \<longleftrightarrow> w = 0 \<or> w = 1 \<or> w = 2" for w :: QWORD by unat_arith
  then have "unat (q - p) < 3 \<longleftrightarrow> q = p \<or> q = p + 1 \<or> q = p + 2" for q
    by (simp add: diff_eq_eq add.commute)
  then show ?thesis by (auto simp: region_def)
qed

theorem strcpy_copies_witness:
  "\<exists>m'. cl_strcpy (put (\<lambda>q. Some 0) 0x2000 [0x61, 0x62, 0]) 0x1000 0x2000 = Some m' \<and> cstr m' 0x1000 [0x61, 0x62]
    \<and> cl_strlen m' 0x1000 = Some 2"
proof -
  let ?m = "put (\<lambda>q. Some 0) 0x2000 [0x61, 0x62, 0]"
  have s: "Suc (length [0x61, 0x62 :: BYTE]) = 3" by simp
  have "cstr ?m 0x2000 [0x61, 0x62]" by (auto simp: cstr_def put_def le_Suc_eq)
  moreover have "mapped ?m 0x1000 3" by (simp add: mapped_def put_def)
  moreover have "region 0x1000 3 \<inter> region 0x2000 3 = {}" by (simp add: region_3)
  ultimately show ?thesis
    using strcpy_copies [of ?m "0x2000" "[0x61, 0x62]" "0x1000", unfolded s] by auto
qed

end
