(* ===== verification/VmReservation.thy ===== *)
theory VmReservation
  imports Bitmaps RwLocks
begin

text \<open>
  The virtual memory reservations of a process or of the kernel
  (\<open>HAL9000/src/vm_reservation_space.c\<close>) and the checks on a buffer of a caller (\<open>VmmIsBufferValid\<close> of
  \<open>vmm.c\<close>). A reservation is a slot of an array at the start of the metadata area; the array ends at the
  first slot whose state is \<open>Last\<close>. Each used slot has a bitmap of its committed pages, whose buffer lies
  behind the array.

  The array is the list of the slots that start below \<open>BitmapAddressStart\<close>, where the loops end. The memory
  behind it holds the bitmaps. The code writes there once the array is full: the flag \<open>Overrun\<close> records that a
  part of a slot was written at \<open>BitmapAddressStart\<close> or above. From then on the bitmaps of the model need not be
  those in memory, so the invariant demands that it has not happened. The functions of the memory manager and
  of the file system that are called when a reservation is released are recorded as a list of effects.
\<close>

section \<open>Data\<close>

type_synonym PAGE_RIGHTS = DWORD

abbreviation PAGE_RIGHTS_WRITE :: PAGE_RIGHTS where "PAGE_RIGHTS_WRITE \<equiv> 1"
abbreviation PAGE_RIGHTS_EXECUTE :: PAGE_RIGHTS where "PAGE_RIGHTS_EXECUTE \<equiv> 2"
abbreviation PAGE_RIGHTS_READWRITE :: PAGE_RIGHTS where "PAGE_RIGHTS_READWRITE \<equiv> 1"

type_synonym VMM_ALLOC_TYPE = DWORD

abbreviation VMM_ALLOC_TYPE_RESERVE :: VMM_ALLOC_TYPE where "VMM_ALLOC_TYPE_RESERVE \<equiv> 1"
abbreviation VMM_ALLOC_TYPE_COMMIT :: VMM_ALLOC_TYPE where "VMM_ALLOC_TYPE_COMMIT \<equiv> 2"

type_synonym VMM_FREE_TYPE = DWORD

abbreviation VMM_FREE_TYPE_DECOMMIT :: VMM_FREE_TYPE where "VMM_FREE_TYPE_DECOMMIT \<equiv> 1"
abbreviation VMM_FREE_TYPE_RELEASE :: VMM_FREE_TYPE where "VMM_FREE_TYPE_RELEASE \<equiv> 2"

abbreviation STATUS_MEMORY_IS_NOT_RESERVED :: STATUS where "STATUS_MEMORY_IS_NOT_RESERVED \<equiv> 0xE0100006"
abbreviation STATUS_MEMORY_CANNOT_BE_RESERVED :: STATUS where "STATUS_MEMORY_CANNOT_BE_RESERVED \<equiv> 0xE0100009"
abbreviation STATUS_MEMORY_CONFLICTING_ACCESS_RIGHTS :: STATUS where "STATUS_MEMORY_CONFLICTING_ACCESS_RIGHTS \<equiv> 0xE010000C"
abbreviation STATUS_MEMORY_CONFLICTING_CACHEABILITY :: STATUS where "STATUS_MEMORY_CONFLICTING_CACHEABILITY \<equiv> 0xE010000D"
abbreviation STATUS_MEMORY_ALREADY_RESERVED :: STATUS where "STATUS_MEMORY_ALREADY_RESERVED \<equiv> 0xE010000F"
abbreviation STATUS_MEMORY_IS_NOT_COMMITED :: STATUS where "STATUS_MEMORY_IS_NOT_COMMITED \<equiv> 0xE0100010"
abbreviation STATUS_MEMORY_PREVENTS_USERMODE_ACCESS :: STATUS where "STATUS_MEMORY_PREVENTS_USERMODE_ACCESS \<equiv> 0xE0100011"
abbreviation STATUS_MEMORY_INSUFFICIENT_ACCESS_RIGHTS :: STATUS where "STATUS_MEMORY_INSUFFICIENT_ACCESS_RIGHTS \<equiv> 0xE0100012"

datatype VMM_RESERVATION_STATE = VmmReservationStateFree | VmmReservationStateUsed | VmmReservationStateLast

text \<open>\<open>CommitBitmapAddress\<close> is the pointer to the buffer of \<open>CommitBitmap\<close>, whose bytes the bitmap holds.\<close>

record VMM_RESERVATION =
  StartVa :: ptr
  ReservationSize :: QWORD
  PageRights :: PAGE_RIGHTS
  ReservationState :: VMM_RESERVATION_STATE
  Uncacheable :: bool
  BackingFile :: ptr
  CommitBitmap :: BITMAP
  CommitBitmapAddress :: ptr

definition zero_VMM_RESERVATION :: VMM_RESERVATION where
  "zero_VMM_RESERVATION = \<lparr>StartVa = NULL, ReservationSize = 0, PageRights = 0, ReservationState = VmmReservationStateFree,
     Uncacheable = False, BackingFile = NULL, CommitBitmap = zero_BITMAP, CommitBitmapAddress = NULL\<rparr>"

text \<open>
  \<open>ReservationList\<close> is the address of the array, \<open>Reservations\<close> holds its slots, and \<open>Overrun\<close> tells whether a slot
  was written over the memory of the bitmaps.
\<close>

record VMM_RESERVATION_SPACE =
  FreeVirtualAddressPointer :: ptr
  StartOfVirtualAddressSpace :: ptr
  BitmapAddressStart :: ptr
  ReservedAreaSize :: QWORD
  ReservationLock :: RW_SPINLOCK
  FreeBitmapAddress :: ptr
  ReservationList :: ptr
  Reservations :: "VMM_RESERVATION list"
  Overrun :: bool

datatype vm_effect = MmuUnmapMemory ptr DWORD | IoCloseFile ptr

section \<open>Operations\<close>

definition CalculatePercentage :: "QWORD \<Rightarrow> WORD \<Rightarrow> QWORD option" where
  "CalculatePercentage WholeValue HundredsOfPercentage = do {
     ASSERT (HundredsOfPercentage \<le> 10000);
     ASSERT (HundredsOfPercentage \<noteq> 0);
     ASSERT (MAX_QWORD div ucast HundredsOfPercentage \<ge> WholeValue);
     Some (WholeValue * ucast HundredsOfPercentage div 10000)
   }"

text \<open>A slot has 56 bytes; \<open>slots\<close> is what the metadata area holds before it is used as the array.\<close>

definition slots_below :: "QWORD \<Rightarrow> nat" where
  "slots_below n = (unat n + 55) div 56"

definition VmReservationSpaceInit ::
  "(nat \<Rightarrow> VMM_RESERVATION) \<Rightarrow> ptr \<Rightarrow> ptr \<Rightarrow> QWORD \<Rightarrow> VMM_RESERVATION_SPACE \<Rightarrow> VMM_RESERVATION_SPACE option" where
  "VmReservationSpaceInit slots ReservationMetadataBaseAddress ReservationBaseAddress ReservationMetadataSize sp = do {
     ASSERT (NULL \<noteq> ReservationMetadataBaseAddress);
     ASSERT (IsAddressAligned ReservationMetadataBaseAddress PAGE_SIZE);
     ASSERT (ReservationMetadataSize \<noteq> 0);
     sizeForReservationList \<leftarrow> CalculatePercentage ReservationMetadataSize (20 * 100);
     let sp = sp\<lparr>ReservationList := ReservationMetadataBaseAddress, Reservations := map slots [0..<slots_below sizeForReservationList]\<rparr>;
     let sp = sp\<lparr>BitmapAddressStart := ReservationMetadataBaseAddress + sizeForReservationList\<rparr>;
     let sp = sp\<lparr>FreeBitmapAddress := BitmapAddressStart sp\<rparr>;
     let sp = sp\<lparr>FreeVirtualAddressPointer :=
       (if ReservationBaseAddress = NULL then ReservationMetadataBaseAddress + ReservationMetadataSize else ReservationBaseAddress)\<rparr>;
     let sp = sp\<lparr>StartOfVirtualAddressSpace := FreeVirtualAddressPointer sp\<rparr>;
     let sp = sp\<lparr>ReservedAreaSize := ReservationMetadataSize\<rparr>;
     Some (sp\<lparr>ReservationLock := RwSpinlockInit (ReservationLock sp), Overrun := False\<rparr>)
   }"

text \<open>
  Slot \<open>i\<close> starts \<open>56 * i\<close> bytes behind the start of the array, and its first \<open>n\<close> bytes end below the bitmaps. The
  field \<open>State\<close> is in the bytes 20 to 23.
\<close>

definition slot_below :: "VMM_RESERVATION_SPACE \<Rightarrow> nat \<Rightarrow> nat \<Rightarrow> bool" where
  "slot_below sp i n = (56 * i + n \<le> unat (BitmapAddressStart sp - ReservationList sp))"

text \<open>Writing \<open>Last\<close> into the state of slot \<open>i\<close>, which may lie in the memory of the bitmaps.\<close>

definition VmSetLast :: "VMM_RESERVATION_SPACE \<Rightarrow> nat \<Rightarrow> VMM_RESERVATION_SPACE" where
  "VmSetLast sp i = sp\<lparr>Reservations := (if i < length (Reservations sp)
       then (Reservations sp)[i := (Reservations sp ! i)\<lparr>ReservationState := VmmReservationStateLast\<rparr>] else Reservations sp),
     Overrun := (Overrun sp \<or> \<not> slot_below sp i 24)\<rparr>"

definition VmReservationSpaceFinishInit :: "VMM_RESERVATION_SPACE \<Rightarrow> VMM_RESERVATION_SPACE option" where
  "VmReservationSpaceFinishInit sp = Some (VmSetLast sp 0)"

definition VmReservationSpaceDetermineNextFreeVirtualAddress :: "VMM_RESERVATION_SPACE \<Rightarrow> QWORD \<Rightarrow> ptr \<times> VMM_RESERVATION_SPACE" where
  "VmReservationSpaceDetermineNextFreeVirtualAddress sp Size =
     (FreeVirtualAddressPointer sp, sp\<lparr>FreeVirtualAddressPointer := FreeVirtualAddressPointer sp + Size\<rparr>)"

text \<open>
  The search for the slot that covers a range, from slot \<open>i\<close> on; the list holds the slots that are left. The
  result is the index of the slot, or none.
\<close>

fun VmFindReservation_loop :: "VMM_RESERVATION list \<Rightarrow> nat \<Rightarrow> ptr \<Rightarrow> QWORD \<Rightarrow> nat option" where
  "VmFindReservation_loop [] i Address Size = None"
| "VmFindReservation_loop (r # rs) i Address Size =
     (if VmmReservationStateLast = ReservationState r then None
      else if VmmReservationStateFree = ReservationState r then VmFindReservation_loop rs (Suc i) Address Size
      else if CHECK_BOUNDS Address Size (StartVa r) (ReservationSize r) then Some i
      else VmFindReservation_loop rs (Suc i) Address Size)"

definition VmFindReservation :: "VMM_RESERVATION_SPACE \<Rightarrow> ptr \<Rightarrow> QWORD \<Rightarrow> (STATUS \<times> nat option) option" where
  "VmFindReservation sp Address Size = do {
     ASSERT (NULL \<noteq> Address);
     ASSERT (0 \<noteq> Size);
     Some (case VmFindReservation_loop (Reservations sp) 0 Address Size of
         None \<Rightarrow> (STATUS_ELEMENT_NOT_FOUND, None) | Some i \<Rightarrow> (STATUS_SUCCESS, Some i))
   }"

definition VmInitializeReservation ::
  "VMM_RESERVATION_SPACE \<Rightarrow> ptr \<Rightarrow> QWORD \<Rightarrow> PAGE_RIGHTS \<Rightarrow> bool \<Rightarrow> ptr \<Rightarrow> nat \<Rightarrow> VMM_RESERVATION_SPACE option" where
  "VmInitializeReservation sp Address Size Rights Uncached FileObject i = do {
     ASSERT (NULL \<noteq> Address);
     ASSERT (0 \<noteq> Size);
     ASSERT (IsAddressAligned Address PAGE_SIZE);
     ASSERT (IsAddressAligned Size PAGE_SIZE);
     let noOfPages = Size div PAGE_SIZE;
     r \<leftarrow> rd_at (Reservations sp) i;
     let r = r\<lparr>ReservationState := VmmReservationStateUsed, StartVa := Address, ReservationSize := Size, PageRights := Rights,
       Uncacheable := Uncached, BackingFile := FileObject\<rparr>;
     ASSERT (noOfPages \<le> ucast MAX_DWORD);
     (bitmapSize, b) \<leftarrow> BitmapPreinit (ucast noOfPages);
     ASSERT (0 \<noteq> bitmapSize);
     ASSERT (IsAddressAligned (FreeBitmapAddress sp) PAGE_SIZE);
     b \<leftarrow> BitmapInitEx b (Some (replicate (unat bitmapSize) 0)) False;
     let r = r\<lparr>CommitBitmap := b, CommitBitmapAddress := FreeBitmapAddress sp\<rparr>;
     let bitmapPages = AlignAddressUpper (ucast bitmapSize) PAGE_SIZE;
     ASSERT (CHECK_BOUNDS (FreeBitmapAddress sp) bitmapPages (ReservationList sp) (ReservedAreaSize sp));
     rs \<leftarrow> wr_at (Reservations sp) i r;
     Some (sp\<lparr>Reservations := rs, FreeBitmapAddress := FreeBitmapAddress sp + bitmapPages,
       Overrun := (Overrun sp \<or> \<not> slot_below sp i 56)\<rparr>)
   }"

fun VmFindFirstFreeReservation_loop :: "VMM_RESERVATION list \<Rightarrow> nat \<Rightarrow> nat option" where
  "VmFindFirstFreeReservation_loop [] i = None"
| "VmFindFirstFreeReservation_loop (r # rs) i =
     (if ReservationState r = VmmReservationStateFree \<or> ReservationState r = VmmReservationStateLast then Some i
      else VmFindFirstFreeReservation_loop rs (Suc i))"

text \<open>
  The loop stops at a free slot or at the last one. The mark of the last one then moves up by one slot, also if
  there is no further slot.
\<close>

definition VmFindFirstFreeReservation :: "VMM_RESERVATION_SPACE \<Rightarrow> (nat option \<times> VMM_RESERVATION_SPACE) option" where
  "VmFindFirstFreeReservation sp =
     (case VmFindFirstFreeReservation_loop (Reservations sp) 0 of
        None \<Rightarrow> Some (None, sp)
      | Some i \<Rightarrow> do {
          r \<leftarrow> rd_at (Reservations sp) i;
          if VmmReservationStateLast = ReservationState r then do {
            rs \<leftarrow> wr_at (Reservations sp) i (r\<lparr>ReservationState := VmmReservationStateFree\<rparr>);
            Some (Some i, VmSetLast (sp\<lparr>Reservations := rs\<rparr>) (Suc i))
          }
          else Some (Some i, sp)
        })"

text \<open>\<^verbatim>\<open>PtrDiff(x, y) / PAGE_SIZE\<close>: the difference of two pointers is signed and the division truncates.\<close>

definition PtrDiffPages :: "ptr \<Rightarrow> ptr \<Rightarrow> QWORD" where
  "PtrDiffPages x y = (let d = sint (x - y) in word_of_int (if 0 \<le> d then d div 4096 else - ((- d) div 4096)))"

text \<open>\<open>_VmCommitReservation\<close> and \<open>_VmDecommitReservation\<close> differ in the value of the bits.\<close>

definition VmChangeCommit :: "bool \<Rightarrow> ptr \<Rightarrow> QWORD \<Rightarrow> VMM_RESERVATION \<Rightarrow> VMM_RESERVATION option" where
  "VmChangeCommit v Address Size r = do {
     ASSERT (NULL \<noteq> Address);
     ASSERT (0 \<noteq> Size);
     ASSERT (IsAddressAligned Address PAGE_SIZE);
     ASSERT (IsAddressAligned Size PAGE_SIZE);
     let noOfPages = Size div PAGE_SIZE;
     let startIndex = PtrDiffPages Address (StartVa r);
     ASSERT (noOfPages \<le> ucast MAX_DWORD);
     ASSERT (startIndex \<le> ucast MAX_DWORD);
     b \<leftarrow> BitmapSetBitsValue (CommitBitmap r) (ucast startIndex) (ucast noOfPages) v;
     Some (r\<lparr>CommitBitmap := b\<rparr>)
   }"

definition VmCommitReservation :: "ptr \<Rightarrow> QWORD \<Rightarrow> VMM_RESERVATION \<Rightarrow> VMM_RESERVATION option" where
  "VmCommitReservation = VmChangeCommit True"

definition VmDecommitReservation :: "ptr \<Rightarrow> QWORD \<Rightarrow> VMM_RESERVATION \<Rightarrow> VMM_RESERVATION option" where
  "VmDecommitReservation = VmChangeCommit False"

definition VmIsVaCommited :: "VMM_RESERVATION \<Rightarrow> ptr \<Rightarrow> bool option" where
  "VmIsVaCommited r Address = do {
     ASSERT (NULL \<noteq> Address);
     let pageNo = PtrDiffPages Address (StartVa r);
     ASSERT (pageNo \<le> ucast MAX_DWORD);
     BitmapGetBitValue (CommitBitmap r) (ucast pageNo)
   }"

definition VmChangeVaReservationState ::
  "VMM_RESERVATION_SPACE \<Rightarrow> ptr \<Rightarrow> QWORD \<Rightarrow> VMM_ALLOC_TYPE \<Rightarrow> PAGE_RIGHTS \<Rightarrow> bool \<Rightarrow> ptr \<Rightarrow> (STATUS \<times> VMM_RESERVATION_SPACE) option" where
  "VmChangeVaReservationState sp Address Size AllocationType Rights Uncached FileObject = do {
     ASSERT (NULL \<noteq> Address);
     ASSERT (0 \<noteq> Size);
     ASSERT ((AllocationType = VMM_ALLOC_TYPE_RESERVE) \<noteq> (AllocationType = VMM_ALLOC_TYPE_COMMIT));
     ASSERT (IsAddressAligned Address PAGE_SIZE);
     ASSERT (IsAddressAligned Size PAGE_SIZE);
     (status, found) \<leftarrow> VmFindReservation sp Address Size;
     if STATUS_ELEMENT_NOT_FOUND = status \<and> VMM_ALLOC_TYPE_RESERVE \<noteq> AllocationType then Some (STATUS_MEMORY_IS_NOT_RESERVED, sp)
     else if STATUS_ELEMENT_NOT_FOUND \<noteq> status \<and> SUCCEEDED status \<and> VMM_ALLOC_TYPE_RESERVE = AllocationType
     then Some (STATUS_MEMORY_ALREADY_RESERVED, sp)
     else if STATUS_ELEMENT_NOT_FOUND \<noteq> status \<and> \<not> SUCCEEDED status then Some (status, sp)
     else if AllocationType = VMM_ALLOC_TYPE_RESERVE then do {
       (slot, sp) \<leftarrow> VmFindFirstFreeReservation sp;
       i \<leftarrow> slot;
       sp \<leftarrow> VmInitializeReservation sp Address Size Rights Uncached FileObject i;
       Some (STATUS_SUCCESS, sp)
     }
     else do {
       i \<leftarrow> found;
       r \<leftarrow> rd_at (Reservations sp) i;
       if PageRights r \<noteq> Rights then Some (STATUS_MEMORY_CONFLICTING_ACCESS_RIGHTS, sp)
       else if Uncacheable r \<noteq> Uncached then Some (STATUS_MEMORY_CONFLICTING_CACHEABILITY, sp)
       else do {
         r \<leftarrow> VmCommitReservation Address Size r;
         rs \<leftarrow> wr_at (Reservations sp) i r;
         Some (STATUS_SUCCESS, sp\<lparr>Reservations := rs\<rparr>)
       }
     }
   }"

text \<open>It is applied to a copy of the slot; the results are the calls that are made.\<close>

definition VmUninitializeReservation :: "VMM_RESERVATION \<Rightarrow> vm_effect list option" where
  "VmUninitializeReservation r = do {
     ASSERT (IsAddressAligned (CommitBitmapAddress r) PAGE_SIZE);
     let bitmapSize = BufferSize (CommitBitmap r);
     Some (MmuUnmapMemory (CommitBitmapAddress r) bitmapSize # (if BackingFile r \<noteq> NULL then [IoCloseFile (BackingFile r)] else []))
   }"

text \<open>What a page fault gets to know of the page: its rights, the caching, the file and the offset in it.\<close>

record PAGE_DESCRIPTION =
  MemoryRights :: PAGE_RIGHTS
  PageUncacheable :: bool
  PageFile :: ptr
  FileOffset :: QWORD

text \<open>
  The flag \<open>VmmMemoryAccess\<close> of the structure of the processor, if there is one. The result is the description
  if the access is allowed, with the processor and the space after the lock is released.
\<close>

type_synonym pcpu = "bool option"

definition VmReservationCanAddressBeAccessed ::
  "CPU \<Rightarrow> pcpu \<Rightarrow> VMM_RESERVATION_SPACE \<Rightarrow> ptr \<Rightarrow> PAGE_RIGHTS \<Rightarrow> (PAGE_DESCRIPTION option \<times> CPU \<times> VMM_RESERVATION_SPACE) option" where
  "VmReservationCanAddressBeAccessed cpu pCpu sp FaultingAddress RightsRequested = do {
     ASSERT (INTR_OFF = CpuIntrGetState cpu);
     if NULL = FaultingAddress then Some (None, cpu, sp)
     else if CHECK_BOUNDS FaultingAddress 1 (ReservationList sp) (ReservedAreaSize sp) then
       Some (if (pCpu = None \<or> pCpu = Some True) \<and> \<not> IsBooleanFlagOn RightsRequested PAGE_RIGHTS_EXECUTE
         then Some \<lparr>MemoryRights = PAGE_RIGHTS_READWRITE, PageUncacheable = False, PageFile = NULL, FileOffset = 0\<rparr> else None, cpu, sp)
     else do {
       (dummyState, cpu, l) \<leftarrow> RwSpinlockAcquire cpu (ReservationLock sp) False;
       let sp = sp\<lparr>ReservationLock := l\<rparr>;
       (status, found) \<leftarrow> VmFindReservation sp FaultingAddress 1;
       d \<leftarrow> (if \<not> SUCCEEDED status then Some None
            else do {
              i \<leftarrow> found;
              r \<leftarrow> rd_at (Reservations sp) i;
              bIsVaCommited \<leftarrow> VmIsVaCommited r FaultingAddress;
              let fileOffset = (if BackingFile r \<noteq> NULL then AlignAddressLower (FaultingAddress - StartVa r) PAGE_SIZE else 0);
              Some (if bIsVaCommited \<and> IsBooleanFlagOn (PageRights r) RightsRequested
                then Some \<lparr>MemoryRights = PageRights r, PageUncacheable = Uncacheable r, PageFile = BackingFile r, FileOffset = fileOffset\<rparr>
                else None)
            });
       (cpu, l) \<leftarrow> RwSpinlockRelease cpu (ReservationLock sp) INTR_OFF False;
       Some (d, cpu, sp\<lparr>ReservationLock := l\<rparr>)
     }
   }"

definition VmReservationSpaceAllocRegion ::
  "CPU \<Rightarrow> pcpu \<Rightarrow> VMM_RESERVATION_SPACE \<Rightarrow> ptr \<Rightarrow> QWORD \<Rightarrow> VMM_ALLOC_TYPE \<Rightarrow> PAGE_RIGHTS \<Rightarrow> bool \<Rightarrow> ptr
    \<Rightarrow> (STATUS \<times> (ptr \<times> QWORD) option \<times> CPU \<times> pcpu \<times> VMM_RESERVATION_SPACE) option" where
  "VmReservationSpaceAllocRegion cpu pCpu sp BaseAddress Size AllocType Rights Uncached FileObject = do {
     ASSERT (Size \<noteq> 0);
     ASSERT (IsFlagOn AllocType (VMM_ALLOC_TYPE_COMMIT OR VMM_ALLOC_TYPE_RESERVE));
     let (pBaseAddress, alignedSize, sp) =
       (if NULL \<noteq> BaseAddress
        then let b = AlignAddressLower BaseAddress PAGE_SIZE in (b, AlignAddressUpper (Size + (BaseAddress - b)) PAGE_SIZE, sp)
        else let n = AlignAddressUpper Size PAGE_SIZE; (b, sp) = VmReservationSpaceDetermineNextFreeVirtualAddress sp n in (b, n, sp));
     if NULL \<noteq> BaseAddress \<and> pBaseAddress < StartOfVirtualAddressSpace sp then Some (STATUS_MEMORY_CANNOT_BE_RESERVED, None, cpu, pCpu, sp)
     else do {
       (oldState, cpu, l) \<leftarrow> RwSpinlockAcquire cpu (ReservationLock sp) True;
       let sp = sp\<lparr>ReservationLock := l\<rparr>;
       let pCpu = map_option (\<lambda>_. True) pCpu;
       (status, sp) \<leftarrow> (if IsBooleanFlagOn AllocType VMM_ALLOC_TYPE_RESERVE
          then VmChangeVaReservationState sp pBaseAddress alignedSize VMM_ALLOC_TYPE_RESERVE Rights Uncached FileObject
          else Some (STATUS_SUCCESS, sp));
       (status, sp) \<leftarrow> (if SUCCEEDED status \<and> IsBooleanFlagOn AllocType VMM_ALLOC_TYPE_COMMIT
          then VmChangeVaReservationState sp pBaseAddress alignedSize VMM_ALLOC_TYPE_COMMIT Rights Uncached FileObject
          else Some (status, sp));
       let pCpu = map_option (\<lambda>_. False) pCpu;
       (cpu, l) \<leftarrow> RwSpinlockRelease cpu (ReservationLock sp) oldState True;
       let sp = sp\<lparr>ReservationLock := l\<rparr>;
       Some (status, if SUCCEEDED status then Some (pBaseAddress, alignedSize) else None, cpu, pCpu, sp)
     }
   }"

definition VmReservationSpaceFreeRegion ::
  "CPU \<Rightarrow> pcpu \<Rightarrow> VMM_RESERVATION_SPACE \<Rightarrow> ptr \<Rightarrow> QWORD \<Rightarrow> VMM_FREE_TYPE
    \<Rightarrow> (ptr \<times> QWORD \<times> vm_effect list \<times> CPU \<times> pcpu \<times> VMM_RESERVATION_SPACE) option" where
  "VmReservationSpaceFreeRegion cpu pCpu sp Address Size FreeType = do {
     ASSERT (Address \<noteq> NULL);
     ASSERT (IsBooleanFlagOn FreeType VMM_FREE_TYPE_RELEASE \<and> Size = 0 \<or> IsBooleanFlagOn FreeType VMM_FREE_TYPE_DECOMMIT \<and> Size \<noteq> 0);
     ASSERT (IsBooleanFlagOn FreeType VMM_FREE_TYPE_RELEASE \<noteq> IsBooleanFlagOn FreeType VMM_FREE_TYPE_DECOMMIT);
     (oldState, cpu, l) \<leftarrow> RwSpinlockAcquire cpu (ReservationLock sp) True;
     let sp = sp\<lparr>ReservationLock := l\<rparr>;
     let pCpu = map_option (\<lambda>_. True) pCpu;
     (status, found) \<leftarrow> VmFindReservation sp Address 1;
     ASSERT (SUCCEEDED status);
     i \<leftarrow> found;
     r \<leftarrow> rd_at (Reservations sp) i;
     if IsBooleanFlagOn FreeType VMM_FREE_TYPE_RELEASE then do {
       rs \<leftarrow> wr_at (Reservations sp) i zero_VMM_RESERVATION;
       let sp = sp\<lparr>Reservations := rs\<rparr>;
       (cpu, l) \<leftarrow> RwSpinlockRelease cpu (ReservationLock sp) oldState True;
       let sp = sp\<lparr>ReservationLock := l\<rparr>;
       effects \<leftarrow> VmUninitializeReservation r;
       Some (StartVa r, ReservationSize r, effects, cpu, map_option (\<lambda>_. False) pCpu, sp)
     }
     else do {
       let alignedAddress = AlignAddressLower Address PAGE_SIZE;
       let alignedSize = AlignAddressUpper (Size + (Address - alignedAddress)) PAGE_SIZE;
       r \<leftarrow> VmDecommitReservation alignedAddress alignedSize r;
       rs \<leftarrow> wr_at (Reservations sp) i r;
       let sp = sp\<lparr>Reservations := rs\<rparr>;
       (cpu, l) \<leftarrow> RwSpinlockRelease cpu (ReservationLock sp) oldState True;
       Some (alignedAddress, alignedSize, [], cpu, map_option (\<lambda>_. False) pCpu, sp\<lparr>ReservationLock := l\<rparr>)
     }
   }"

text \<open>The loop over the pages of a buffer at offset \<open>i\<close>; the offset is a 64-bit number.\<close>

partial_function (option) VmReturnRights_loop :: "VMM_RESERVATION \<Rightarrow> ptr \<Rightarrow> QWORD \<Rightarrow> QWORD \<Rightarrow> bool option" where
  "VmReturnRights_loop r Address Size i =
     (if i < Size then do {
        c \<leftarrow> VmIsVaCommited r (Address + i);
        if \<not> c then Some False else VmReturnRights_loop r Address Size (i + PAGE_SIZE)
      }
      else Some True)"

definition VmReservationReturnRightsForAddress ::
  "CPU \<Rightarrow> VMM_RESERVATION_SPACE \<Rightarrow> ptr \<Rightarrow> QWORD \<Rightarrow> (STATUS \<times> PAGE_RIGHTS option \<times> CPU \<times> VMM_RESERVATION_SPACE) option" where
  "VmReservationReturnRightsForAddress cpu sp Address Size = do {
     ASSERT (Address \<noteq> NULL);
     ASSERT (Size \<noteq> 0);
     (oldState, cpu, l) \<leftarrow> RwSpinlockAcquire cpu (ReservationLock sp) False;
     let sp = sp\<lparr>ReservationLock := l\<rparr>;
     (status, found) \<leftarrow> VmFindReservation sp Address Size;
     (bFullyCommited, rights) \<leftarrow> (if \<not> SUCCEEDED status then Some (False, None)
        else do {
          i \<leftarrow> found;
          r \<leftarrow> rd_at (Reservations sp) i;
          c \<leftarrow> VmReturnRights_loop r Address Size 0;
          Some (c, Some (PageRights r))
        });
     (cpu, l) \<leftarrow> RwSpinlockRelease cpu (ReservationLock sp) oldState False;
     Some (if bFullyCommited then STATUS_SUCCESS else STATUS_MEMORY_IS_NOT_COMMITED, rights, cpu, sp\<lparr>ReservationLock := l\<rparr>)
   }"

section \<open>Buffers of a caller\<close>

definition VmIsKernelAddress :: "ptr \<Rightarrow> bool" where
  "VmIsKernelAddress Address = IsBooleanFlagOn Address (push_bit 47 1)"

definition VmIsKernelRange :: "ptr \<Rightarrow> QWORD \<Rightarrow> bool option" where
  "VmIsKernelRange Address RangeSize = do {
     ASSERT (RangeSize \<noteq> 0);
     Some (VmIsKernelAddress Address \<or> VmIsKernelAddress (Address + (RangeSize - 1)))
   }"

definition VmmIsBufferValid ::
  "CPU \<Rightarrow> VMM_RESERVATION_SPACE \<Rightarrow> ptr \<Rightarrow> QWORD \<Rightarrow> PAGE_RIGHTS \<Rightarrow> bool \<Rightarrow> (STATUS \<times> CPU \<times> VMM_RESERVATION_SPACE) option" where
  "VmmIsBufferValid cpu sp Buffer BufferSz RightsRequested KernelAccess = do {
     ASSERT (Buffer \<noteq> NULL);
     ASSERT (BufferSz \<noteq> 0);
     kernelRange \<leftarrow> (if KernelAccess then Some False else VmIsKernelRange Buffer BufferSz);
     if kernelRange then Some (STATUS_MEMORY_PREVENTS_USERMODE_ACCESS, cpu, sp)
     else do {
       (status, rightsGranted, cpu, sp) \<leftarrow> VmReservationReturnRightsForAddress cpu sp Buffer BufferSz;
       if \<not> SUCCEEDED status then Some (status, cpu, sp)
       else do {
         rights \<leftarrow> rightsGranted;
         Some (if \<not> IsBooleanFlagOn rights RightsRequested then STATUS_MEMORY_INSUFFICIENT_ACCESS_RIGHTS else STATUS_SUCCESS, cpu, sp)
       }
     }
   }"

section \<open>The lock around an operation\<close>

definition rw_free :: "RW_SPINLOCK \<Rightarrow> bool" where
  "rw_free l = (WaitingWriters l = 0 \<and> ActiveWriter l = 0 \<and> ActiveReaders l = 0)"

lemma RwSpinlockAcquire_free:
  assumes "rw_free l"
  shows "RwSpinlockAcquire cpu l True = Some (CpuIntr cpu, cpu\<lparr>CpuIntr := INTR_OFF\<rparr>, l\<lparr>ActiveWriter := 1\<rparr>)"
    and "RwSpinlockAcquire cpu l False = Some (CpuIntr cpu, cpu\<lparr>CpuIntr := INTR_OFF\<rparr>, l\<lparr>ActiveReaders := 1\<rparr>)"
proof -
  have w: "RwSpinlockAcquire_spin writer_cas l' = Some (l'\<lparr>ActiveWriter := 1, ActiveReaders := 0\<rparr>)"
    if "ActiveWriter l' = 0" "ActiveReaders l' = 0" for l'
    using that by (subst RwSpinlockAcquire_spin.simps) (simp add: writer_cas_def)
  have r: "RwSpinlockAcquire_spin reader_cas l' = Some (l'\<lparr>WaitingWriters := 0, ActiveWriter := 1\<rparr>)"
    if "WaitingWriters l' = 0" "ActiveWriter l' = 0" for l'
    using that by (subst RwSpinlockAcquire_spin.simps) (simp add: reader_cas_def)
  show "RwSpinlockAcquire cpu l True = Some (CpuIntr cpu, cpu\<lparr>CpuIntr := INTR_OFF\<rparr>, l\<lparr>ActiveWriter := 1\<rparr>)"
    using assms by (cases l) (simp add: RwSpinlockAcquire_def w cpu_defs rw_free_def)
  show "RwSpinlockAcquire cpu l False = Some (CpuIntr cpu, cpu\<lparr>CpuIntr := INTR_OFF\<rparr>, l\<lparr>ActiveReaders := 1\<rparr>)"
    using assms by (cases l) (simp add: RwSpinlockAcquire_def r cpu_defs rw_free_def)
qed

lemma RwSpinlockRelease_held:
  assumes "rw_free l"
  shows "RwSpinlockRelease (cpu\<lparr>CpuIntr := b\<rparr>) (l\<lparr>ActiveWriter := 1\<rparr>) st True = Some (cpu\<lparr>CpuIntr := st\<rparr>, l)"
    and "RwSpinlockRelease (cpu\<lparr>CpuIntr := b\<rparr>) (l\<lparr>ActiveReaders := 1\<rparr>) st False = Some (cpu\<lparr>CpuIntr := st\<rparr>, l)"
  using assms by (cases l, simp add: RwSpinlockRelease_def cpu_defs rw_free_def)+

lemmas rw_section = RwSpinlockAcquire_free RwSpinlockRelease_held

section \<open>Reservations\<close>

text \<open>The slots in use: those before the last one that are not free.\<close>

definition active :: "VMM_RESERVATION list \<Rightarrow> nat \<Rightarrow> bool" where
  "active rs i = (i < length rs \<and> ReservationState (rs ! i) = VmmReservationStateUsed
     \<and> (\<forall>j < i. ReservationState (rs ! j) \<noteq> VmmReservationStateLast))"

definition last_slot :: "VMM_RESERVATION list \<Rightarrow> nat \<Rightarrow> bool" where
  "last_slot rs k = (k < length rs \<and> ReservationState (rs ! k) = VmmReservationStateLast
     \<and> (\<forall>j < k. ReservationState (rs ! j) \<noteq> VmmReservationStateLast))"

definition va_range :: "ptr \<Rightarrow> QWORD \<Rightarrow> ptr set" where
  "va_range p n = {a. unat p \<le> unat a \<and> unat a < unat p + unat n}"

definition covers :: "VMM_RESERVATION \<Rightarrow> ptr set" where
  "covers r = va_range (StartVa r) (ReservationSize r)"

definition page_of :: "VMM_RESERVATION \<Rightarrow> ptr \<Rightarrow> nat" where
  "page_of r a = (unat a - unat (StartVa r)) div 4096"

definition committed :: "VMM_RESERVATION \<Rightarrow> ptr set" where
  "committed r = {a \<in> covers r. page_of r a \<in> bm_set (CommitBitmap r)}"

text \<open>A reservation is a range of whole pages that does not wrap around, with one bit per page.\<close>

definition reservation_inv :: "VMM_RESERVATION \<Rightarrow> bool" where
  "reservation_inv r = (StartVa r \<noteq> NULL \<and> unat (StartVa r) mod 4096 = 0 \<and> ReservationSize r \<noteq> 0 \<and> unat (ReservationSize r) mod 4096 = 0
     \<and> unat (StartVa r) + unat (ReservationSize r) < 2 ^ 64 \<and> bitmap_inv (CommitBitmap r)
     \<and> unat (BitCount (CommitBitmap r)) = unat (ReservationSize r) div 4096 \<and> unat (CommitBitmapAddress r) mod 4096 = 0)"

text \<open>
  The invariants of a space. The reservations do not overlap, the array is the one below the bitmaps, and
  nothing was written behind it. As long as no caller has chosen an address above the next free one, the
  reservations also lie below it.
\<close>

definition metadata_inv :: "VMM_RESERVATION_SPACE \<Rightarrow> bool" where
  "metadata_inv sp = (unat (ReservationList sp) \<le> unat (FreeBitmapAddress sp) \<and> unat (ReservationList sp) + unat (ReservedAreaSize sp) + 2 ^ 32 \<le> 2 ^ 64
     \<and> unat (FreeBitmapAddress sp) mod 4096 = 0 \<and> unat (FreeBitmapAddress sp) \<le> unat (ReservationList sp) + unat (ReservedAreaSize sp)
     \<and> length (Reservations sp) = slots_below (BitmapAddressStart sp - ReservationList sp))"

lemma metadata_inv_upd [simp]:
  "length rs = length (Reservations sp) \<Longrightarrow> metadata_inv (sp\<lparr>Reservations := rs\<rparr>) = metadata_inv sp"
  "metadata_inv (sp\<lparr>Overrun := ov\<rparr>) = metadata_inv sp"
  "metadata_inv (sp\<lparr>ReservationLock := l\<rparr>) = metadata_inv sp"
  "metadata_inv (sp\<lparr>FreeVirtualAddressPointer := p\<rparr>) = metadata_inv sp"
  by (simp_all add: metadata_inv_def)

definition slots_ok :: "VMM_RESERVATION list \<Rightarrow> bool" where
  "slots_ok rs = ((\<forall>i. active rs i \<longrightarrow> reservation_inv (rs ! i))
     \<and> (\<forall>i j. active rs i \<longrightarrow> active rs j \<longrightarrow> i \<noteq> j \<longrightarrow> covers (rs ! i) \<inter> covers (rs ! j) = {}))"

definition slots_inv :: "VMM_RESERVATION_SPACE \<Rightarrow> bool" where
  "slots_inv sp = (slots_ok (Reservations sp) \<and> (\<exists>k. last_slot (Reservations sp) k) \<and> \<not> Overrun sp
     \<and> unat (FreeVirtualAddressPointer sp) mod 4096 = 0 \<and> FreeVirtualAddressPointer sp \<noteq> NULL \<and> metadata_inv sp)"

definition below_free :: "VMM_RESERVATION_SPACE \<Rightarrow> bool" where
  "below_free sp = (\<forall>i. active (Reservations sp) i \<longrightarrow>
     unat (StartVa (Reservations sp ! i)) + unat (ReservationSize (Reservations sp ! i)) \<le> unat (FreeVirtualAddressPointer sp))"

definition space_ok :: "VMM_RESERVATION_SPACE \<Rightarrow> bool" where
  "space_ok sp = (rw_free (ReservationLock sp) \<and> slots_inv sp)"

definition space_inv :: "VMM_RESERVATION_SPACE \<Rightarrow> bool" where
  "space_inv sp = (space_ok sp \<and> below_free sp)"

lemma slots_inv_lock [simp]: "slots_inv (sp\<lparr>ReservationLock := l\<rparr>) = slots_inv sp"
  by (simp add: slots_inv_def)

lemma slots_inv_ok: "slots_inv sp \<Longrightarrow> slots_ok (Reservations sp)"
  by (simp add: slots_inv_def)

lemma PtrDiffPages_ok:
  assumes "unat y \<le> unat x" and "unat x - unat y < 2 ^ 63"
  shows "unat (PtrDiffPages x y) = (unat x - unat y) div 4096"
proof -
  define d where "d = unat x - unat y"
  have "x - y = of_nat d" using assms(1) unfolding d_def by (simp add: of_nat_diff)
  then have "sint (x - y) = int d"
    using assms(2) sint_word_of_int_small [of "int d", where 'a = 64] by (simp add: d_def)
  then have "PtrDiffPages x y = of_nat (d div 4096)" by (simp add: PtrDiffPages_def) (metis of_int_of_nat_eq of_nat_div of_nat_numeral)
  moreover have "d div 4096 < 2 ^ 64" using assms(2) by (simp add: d_def)
  ultimately show ?thesis by (simp add: unat_of_nat d_def)
qed

lemma CHECK_BOUNDS_nat:
  assumes "unat p + unat n < 2 ^ 64" and "unat b + unat s < 2 ^ 64"
  shows "CHECK_BOUNDS p n b s \<longleftrightarrow> unat b \<le> unat p \<and> unat p + unat n \<le> unat b + unat s"
  using assms by (simp add: CHECK_BOUNDS_def word_le_nat_alt unat_plus_if_small)

lemma CHECK_BOUNDS_covers:
  assumes "a \<noteq> MAX_QWORD" and "reservation_inv r"
  shows "CHECK_BOUNDS a 1 (StartVa r) (ReservationSize r) \<longleftrightarrow> a \<in> covers r"
proof -
  have "unat a \<noteq> 2 ^ 64 - 1" using assms(1) by (auto simp: word_unat_eq_iff)
  then have "unat a + unat (1 :: QWORD) < 2 ^ 64" using unat_QWORD_less [of a] by (simp del: unat_QWORD_less)
  with assms(2) show ?thesis by (auto simp: CHECK_BOUNDS_nat reservation_inv_def covers_def va_range_def)
qed

lemma va_range_subset:
  assumes "n \<noteq> 0" and "unat p + unat n < 2 ^ 64"
  shows "va_range p n \<subseteq> va_range q k \<longleftrightarrow> unat q \<le> unat p \<and> unat p + unat n \<le> unat q + unat k"
proof
  assume sub: "va_range p n \<subseteq> va_range q k"
  have n0: "0 < unat n" using assms(1) by (simp add: unat_gt_0)
  have l: "unat (p + (n - 1)) = unat p + (unat n - 1)"
    using n0 assms unat_plus_if_small [of p "n - 1"] by (simp add: unat_minus_one)
  have "p \<in> va_range p n" "p + (n - 1) \<in> va_range p n" using n0 l by (auto simp: va_range_def)
  then have "p \<in> va_range q k" "p + (n - 1) \<in> va_range q k" using sub by blast+
  then show "unat q \<le> unat p \<and> unat p + unat n \<le> unat q + unat k" using l n0 by (auto simp: va_range_def)
qed (auto simp: va_range_def)

lemma CHECK_BOUNDS_range:
  assumes "n \<noteq> 0" and "unat p + unat n < 2 ^ 64" and "reservation_inv r"
  shows "CHECK_BOUNDS p n (StartVa r) (ReservationSize r) \<longleftrightarrow> va_range p n \<subseteq> covers r"
  using assms by (simp add: CHECK_BOUNDS_nat va_range_subset covers_def reservation_inv_def)

section \<open>The search for a slot\<close>

lemma active_Cons:
  "active (r # rs) (Suc i) \<longleftrightarrow> ReservationState r \<noteq> VmmReservationStateLast \<and> active rs i"
  "active (r # rs) 0 \<longleftrightarrow> ReservationState r = VmmReservationStateUsed"
  by (auto simp: active_def less_Suc_eq_0_disj)

lemma find_loop_Some:
  "VmFindReservation_loop rs i a n = Some k \<Longrightarrow>
    \<exists>j. k = i + j \<and> active rs j \<and> CHECK_BOUNDS a n (StartVa (rs ! j)) (ReservationSize (rs ! j))"
proof (induction rs arbitrary: i)
  case (Cons r rs)
  show ?case
  proof (cases "ReservationState r = VmmReservationStateUsed \<and> CHECK_BOUNDS a n (StartVa r) (ReservationSize r)")
    case True
    with Cons.prems show ?thesis by (intro exI [of _ 0]) (auto simp: active_Cons)
  next
    case False
    with Cons.prems have "ReservationState r \<noteq> VmmReservationStateLast" "VmFindReservation_loop rs (Suc i) a n = Some k"
      by (cases "ReservationState r"; auto split: if_splits)+
    with Cons.IH obtain j where "k = Suc i + j" "active rs j" "CHECK_BOUNDS a n (StartVa (rs ! j)) (ReservationSize (rs ! j))"
      by blast
    with \<open>ReservationState r \<noteq> VmmReservationStateLast\<close> show ?thesis by (intro exI [of _ "Suc j"]) (auto simp: active_Cons)
  qed
qed simp

lemma find_loop_None:
  "VmFindReservation_loop rs i a n = None \<Longrightarrow> active rs j \<Longrightarrow> \<not> CHECK_BOUNDS a n (StartVa (rs ! j)) (ReservationSize (rs ! j))"
proof (induction rs arbitrary: i j)
  case (Cons r rs)
  then show ?case by (cases j) (auto simp: active_Cons split: if_splits)
qed (simp add: active_def)

lemma first_free_loop_Some:
  "VmFindFirstFreeReservation_loop rs i = Some k \<Longrightarrow>
    \<exists>j < length rs. k = i + j \<and> ReservationState (rs ! j) \<noteq> VmmReservationStateUsed
      \<and> (\<forall>l < j. ReservationState (rs ! l) = VmmReservationStateUsed)"
proof (induction rs arbitrary: i)
  case (Cons r rs)
  show ?case
  proof (cases "ReservationState r = VmmReservationStateUsed")
    case True
    with Cons.prems have "VmFindFirstFreeReservation_loop rs (Suc i) = Some k" by simp
    from Cons.IH [OF this] obtain j where "j < length rs" "k = Suc i + j" "ReservationState (rs ! j) \<noteq> VmmReservationStateUsed"
      "\<forall>l < j. ReservationState (rs ! l) = VmmReservationStateUsed" by blast
    with True show ?thesis by (intro exI [of _ "Suc j"]) (auto simp: less_Suc_eq_0_disj)
  next
    case False
    with Cons.prems show ?thesis by (cases "ReservationState r") auto
  qed
qed simp

lemma first_free_loop_None:
  "VmFindFirstFreeReservation_loop rs i = None \<Longrightarrow> j < length rs \<Longrightarrow> ReservationState (rs ! j) = VmmReservationStateUsed"
proof (induction rs arbitrary: i j)
  case (Cons r rs)
  then show ?case
    by (cases "ReservationState r"; cases j) (auto split: if_splits)
qed simp

text \<open>The outcome of the search for one address, and what it means for the address.\<close>

lemma find_address:
  assumes "slots_ok (Reservations sp)" and "a \<noteq> NULL" and "a \<noteq> MAX_QWORD"
  shows "(\<exists>i. VmFindReservation sp a 1 = Some (STATUS_SUCCESS, Some i) \<and> active (Reservations sp) i \<and> a \<in> covers (Reservations sp ! i))
    \<or> VmFindReservation sp a 1 = Some (STATUS_ELEMENT_NOT_FOUND, None) \<and> (\<forall>i. active (Reservations sp) i \<longrightarrow> a \<notin> covers (Reservations sp ! i))"
proof (cases "VmFindReservation_loop (Reservations sp) 0 a 1")
  case None
  have "a \<notin> covers (Reservations sp ! i)" if "active (Reservations sp) i" for i
    using find_loop_None [OF None that] CHECK_BOUNDS_covers [OF assms(3), of "Reservations sp ! i"] assms(1) that
    by (auto simp: slots_ok_def)
  with None assms show ?thesis by (simp add: VmFindReservation_def)
next
  case (Some k)
  from find_loop_Some [OF this] have "active (Reservations sp) k"
    "CHECK_BOUNDS a 1 (StartVa (Reservations sp ! k)) (ReservationSize (Reservations sp ! k))" by auto
  with assms Some CHECK_BOUNDS_covers [OF assms(3), of "Reservations sp ! k"] show ?thesis
    by (simp add: VmFindReservation_def slots_ok_def)
qed

lemma find_range:
  assumes "slots_ok (Reservations sp)" and "p \<noteq> NULL" and "n \<noteq> 0" and "unat p + unat n < 2 ^ 64"
  shows "(\<exists>i. VmFindReservation sp p n = Some (STATUS_SUCCESS, Some i) \<and> active (Reservations sp) i \<and> va_range p n \<subseteq> covers (Reservations sp ! i))
    \<or> VmFindReservation sp p n = Some (STATUS_ELEMENT_NOT_FOUND, None) \<and> (\<forall>i. active (Reservations sp) i \<longrightarrow> \<not> va_range p n \<subseteq> covers (Reservations sp ! i))"
proof (cases "VmFindReservation_loop (Reservations sp) 0 p n")
  case None
  have "\<not> va_range p n \<subseteq> covers (Reservations sp ! i)" if "active (Reservations sp) i" for i
    using find_loop_None [OF None that] CHECK_BOUNDS_range [OF assms(3,4), of "Reservations sp ! i"] assms(1) that
    by (auto simp: slots_ok_def)
  with None assms show ?thesis by (simp add: VmFindReservation_def)
next
  case (Some k)
  from find_loop_Some [OF this] have "active (Reservations sp) k"
    "CHECK_BOUNDS p n (StartVa (Reservations sp ! k)) (ReservationSize (Reservations sp ! k))" by auto
  with assms Some CHECK_BOUNDS_range [OF assms(3,4), of "Reservations sp ! k"] show ?thesis
    by (simp add: VmFindReservation_def slots_ok_def)
qed

lemma va_range_nonempty: "n \<noteq> 0 \<Longrightarrow> p \<in> va_range p n"
  by (simp add: va_range_def unat_gt_0)

text \<open>The regions do not overlap, so a range lies in one at most.\<close>

lemma find_range_in:
  assumes "slots_ok (Reservations sp)" and "p \<noteq> NULL" and "n \<noteq> 0" and "unat p + unat n < 2 ^ 64"
    and "active (Reservations sp) i" and "va_range p n \<subseteq> covers (Reservations sp ! i)"
  shows "VmFindReservation sp p n = Some (STATUS_SUCCESS, Some i)"
proof -
  have "j = i" if "active (Reservations sp) j" "va_range p n \<subseteq> covers (Reservations sp ! j)" for j
    using that assms va_range_nonempty [OF assms(3), of p] unfolding slots_ok_def by blast
  then show ?thesis using find_range [OF assms(1-4)] assms(5,6) by blast
qed

section \<open>Committing pages\<close>

lemma reservation_pages:
  assumes "reservation_inv r"
  shows "unat (ReservationSize r) = 4096 * unat (BitCount (CommitBitmap r))"
    and "unat (ReservationSize r) < 2 ^ 44"
  using assms unat_DWORD_less [of "BitCount (CommitBitmap r)"] by (auto simp: reservation_inv_def simp del: unat_DWORD_less)

lemma unat_ucast_small: "unat (q::QWORD) \<le> 0xFFFFFFFF \<Longrightarrow> unat (ucast q :: DWORD) = unat q"
  by (simp add: unat_ucast_DWORD)

lemma le_MAX_DWORD: "(q::QWORD) \<le> 0xFFFFFFFF \<longleftrightarrow> unat q \<le> 0xFFFFFFFF"
  by (simp add: word_le_nat_alt)

lemma VmIsVaCommited_ok:
  assumes "reservation_inv r" and "a \<in> covers r"
  shows "VmIsVaCommited r a = Some (a \<in> committed r)"
proof -
  let ?b = "CommitBitmap r"
  have le: "unat (StartVa r) \<le> unat a" "unat a - unat (StartVa r) < unat (ReservationSize r)"
    using assms(2) by (auto simp: covers_def va_range_def)
  then have p: "unat (PtrDiffPages a (StartVa r)) = page_of r a"
    using reservation_pages(2) [OF assms(1)] by (simp add: PtrDiffPages_ok page_of_def)
  have lt: "page_of r a < unat (BitCount ?b)"
    using le reservation_pages(1) [OF assms(1)] by (simp add: page_of_def less_mult_imp_div_less mult.commute)
  then have s: "page_of r a \<le> 0xFFFFFFFF" using unat_DWORD_less [of "BitCount ?b"] by (simp del: unat_DWORD_less)
  then have u: "unat (ucast (PtrDiffPages a (StartVa r)) :: DWORD) = page_of r a" using p by (simp add: unat_ucast_small)
  have "a \<noteq> NULL" using le assms(1) by (auto simp: reservation_inv_def unat_eq_zero)
  moreover have "BitmapGetBitValue ?b (ucast (PtrDiffPages a (StartVa r))) = Some (page_of r a \<in> bm_set ?b)"
    using BitmapGetBitValue_ok [of ?b "ucast (PtrDiffPages a (StartVa r))"] assms(1) u lt
    by (simp add: reservation_inv_def word_less_nat_alt)
  ultimately show ?thesis
    using p s assms(2) by (auto simp: VmIsVaCommited_def bind_ASSERT le_MAX_DWORD committed_def Let_def)
qed

lemma page_range:
  assumes "unat (StartVa r) \<le> unat p" and "(unat p - unat (StartVa r)) mod 4096 = 0" and "unat n mod 4096 = 0" and "a \<in> covers r"
  shows "page_of r a \<in> {(unat p - unat (StartVa r)) div 4096..<(unat p - unat (StartVa r)) div 4096 + unat n div 4096} \<longleftrightarrow> a \<in> va_range p n"
proof -
  obtain i where i: "unat p - unat (StartVa r) = 4096 * i" using assms(2) by (auto simp: mod_eq_0_iff_dvd)
  obtain k where k: "unat n = 4096 * k" using assms(3) by (auto simp: mod_eq_0_iff_dvd)
  have "unat (StartVa r) \<le> unat a" using assms(4) by (simp add: covers_def va_range_def)
  then obtain d where d: "unat a = unat (StartVa r) + d" using le_Suc_ex by blast
  have p: "unat p = unat (StartVa r) + 4096 * i" using i assms(1) by simp
  have "d div 4096 < i + k \<longleftrightarrow> d < 4096 * (i + k)" "i \<le> d div 4096 \<longleftrightarrow> 4096 * i \<le> d"
    by (simp_all add: div_less_iff_less_mult less_eq_div_iff_mult_less_eq mult.commute)
  then show ?thesis by (simp add: page_of_def va_range_def d p k distrib_left)
qed

lemma VmChangeCommit_ok:
  assumes "reservation_inv r" and "va_range p n \<subseteq> covers r" and "p \<in> covers r" and "n \<noteq> 0" and "unat p + unat n < 2 ^ 64"
    and "unat p mod 4096 = 0" and "unat n mod 4096 = 0"
  shows "\<exists>b. VmChangeCommit v p n r = Some (r\<lparr>CommitBitmap := b\<rparr>) \<and> reservation_inv (r\<lparr>CommitBitmap := b\<rparr>)
    \<and> committed (r\<lparr>CommitBitmap := b\<rparr>) = (if v then committed r \<union> va_range p n else committed r - va_range p n)"
proof -
  let ?b = "CommitBitmap r" and ?i = "(unat p - unat (StartVa r)) div 4096" and ?n = "unat n div 4096"
  have le: "unat (StartVa r) \<le> unat p" using assms(3) by (simp add: covers_def va_range_def)
  have n0: "0 < unat n" using assms(4) by (simp add: unat_gt_0)
  have ub: "unat p + unat n \<le> unat (StartVa r) + unat (ReservationSize r)"
    using assms(2) va_range_subset [OF assms(4,5)] by (simp add: covers_def)
  have al: "(unat p - unat (StartVa r)) mod 4096 = 0"
    using assms(1,6) le by (auto simp: reservation_inv_def mod_eq_0_iff_dvd)
  note pages = reservation_pages [OF assms(1)]
  have idx: "unat (PtrDiffPages p (StartVa r)) = ?i"
    using le ub pages(2) n0 by (intro PtrDiffPages_ok) auto
  have cnt: "?i + ?n \<le> unat (BitCount ?b)"
  proof -
    obtain k where "unat n = 4096 * k" using assms(7) by (auto simp: mod_eq_0_iff_dvd)
    moreover obtain i where "unat p - unat (StartVa r) = 4096 * i" using al by (auto simp: mod_eq_0_iff_dvd)
    ultimately show ?thesis using ub le pages(1) by simp
  qed
  have np: "0 < ?n" using n0 assms(7) by (auto simp: mod_eq_0_iff_dvd)
  have small: "?i \<le> 0xFFFFFFFF" "?n \<le> 0xFFFFFFFF" "?i < unat (BitCount ?b)"
    using cnt np unat_DWORD_less [of "BitCount ?b"] by (auto simp del: unat_DWORD_less)
  have ui: "unat (ucast (PtrDiffPages p (StartVa r)) :: DWORD) = ?i" using idx small by (simp add: unat_ucast_small)
  have un: "unat (ucast (n div PAGE_SIZE) :: DWORD) = ?n" using small by (simp add: unat_ucast_small unat_div)
  obtain b where b: "BitmapSetBitsValue ?b (ucast (PtrDiffPages p (StartVa r))) (ucast (n div PAGE_SIZE)) v = Some b"
    "bitmap_inv b" "BitCount b = BitCount ?b" "bm_set b = (if v then bm_set ?b \<union> {?i..<?i + ?n} else bm_set ?b - {?i..<?i + ?n})"
    using BitmapSetBitsValue_ok [of ?b "ucast (PtrDiffPages p (StartVa r))" "ucast (n div PAGE_SIZE)" v] assms(1) cnt small
    unfolding ui un word_less_nat_alt by (auto simp: reservation_inv_def)
  have "p \<noteq> NULL" using le assms(1) by (auto simp: reservation_inv_def unat_eq_zero)
  then have "VmChangeCommit v p n r = Some (r\<lparr>CommitBitmap := b\<rparr>)"
    using assms(4,6,7) b(1) idx small
    by (simp add: VmChangeCommit_def bind_ASSERT IsAddressAligned_page le_MAX_DWORD unat_div Let_def)
  moreover have "reservation_inv (r\<lparr>CommitBitmap := b\<rparr>)" using assms(1) b(2,3) by (simp add: reservation_inv_def)
  moreover have "committed (r\<lparr>CommitBitmap := b\<rparr>) = (if v then committed r \<union> va_range p n else committed r - va_range p n)"
    using page_range [OF le al assms(7)] assms(2) by (auto simp: committed_def b(4) page_of_def covers_def)
  ultimately show ?thesis by blast
qed

section \<open>Regions\<close>

text \<open>The abstract state: the regions that are reserved, each with its attributes and its committed addresses.\<close>

type_synonym region = "ptr \<times> QWORD \<times> PAGE_RIGHTS \<times> bool \<times> ptr \<times> ptr set"

definition region_of :: "VMM_RESERVATION \<Rightarrow> region" where
  "region_of r = (StartVa r, ReservationSize r, PageRights r, Uncacheable r, BackingFile r, committed r)"

section \<open>Reserving\<close>

text \<open>The bytes of the metadata area that the bitmap of a region takes, and that there is room for them and for a slot.\<close>

definition bitmap_bytes :: "QWORD \<Rightarrow> nat" where
  "bitmap_bytes n = 4096 * (((unat n div 4096 + 7) div 8 + 4095) div 4096)"

definition bitmap_room :: "VMM_RESERVATION_SPACE \<Rightarrow> QWORD \<Rightarrow> bool" where
  "bitmap_room sp n = (unat (ReservationList sp) \<le> unat (FreeBitmapAddress sp)
     \<and> unat (FreeBitmapAddress sp) + bitmap_bytes n \<le> unat (ReservationList sp) + unat (ReservedAreaSize sp)
     \<and> unat (ReservationList sp) + unat (ReservedAreaSize sp) < 2 ^ 64)"

definition slot_room :: "VMM_RESERVATION_SPACE \<Rightarrow> bool" where
  "slot_room sp = (\<exists>k. last_slot (Reservations sp) k
     \<and> (slot_below sp (Suc k) 24 \<or> (\<exists>j < k. ReservationState (Reservations sp ! j) = VmmReservationStateFree)))"

lemma slot_below_simps [simp]:
  "slot_below (sp\<lparr>Reservations := rs\<rparr>) = slot_below sp" "slot_below (sp\<lparr>Overrun := ov\<rparr>) = slot_below sp"
  "slot_below (sp\<lparr>ReservationLock := l\<rparr>) = slot_below sp" "slot_below (sp\<lparr>FreeVirtualAddressPointer := p\<rparr>) = slot_below sp"
  "slot_below (sp\<lparr>FreeBitmapAddress := q\<rparr>) = slot_below sp"
  by (simp_all add: slot_below_def fun_eq_iff)

text \<open>A slot with a slot of the array behind it ends below the bitmaps.\<close>

lemma slot_below_less:
  assumes "metadata_inv sp" and "j < k" and "k < length (Reservations sp)"
  shows "slot_below sp j 56"
  using assms by (auto simp: metadata_inv_def slots_below_def slot_below_def)

lemma slot_below_length:
  assumes "metadata_inv sp" and "slot_below sp k 24"
  shows "k < length (Reservations sp)"
  using assms by (auto simp: metadata_inv_def slots_below_def slot_below_def)

lemma last_slot_unique: "last_slot rs k \<Longrightarrow> last_slot rs k' \<Longrightarrow> k = k'"
  by (meson last_slot_def linorder_neqE_nat)

lemma active_less_last: "last_slot rs k \<Longrightarrow> active rs j \<Longrightarrow> j < k"
  unfolding last_slot_def active_def by (metis VMM_RESERVATION_STATE.distinct(5) linorder_neqE_nat)

text \<open>
  A slot is found; once it is in use it has joined the active ones, and no other has changed. If there was no
  room for it, memory of the bitmaps is overwritten.
\<close>

lemma first_free_ok:
  assumes "metadata_inv sp" and "last_slot (Reservations sp) k"
  shows "\<exists>i rs' ov. VmFindFirstFreeReservation sp = Some (Some i, sp\<lparr>Reservations := rs', Overrun := ov\<rparr>)
    \<and> ((ov \<or> \<not> slot_below sp i 56) \<longleftrightarrow> (Overrun sp \<or> \<not> slot_room sp)) \<and> length rs' = length (Reservations sp) \<and> i < length rs' \<and> \<not> active (Reservations sp) i
    \<and> (\<forall>r. ReservationState r = VmmReservationStateUsed \<longrightarrow> (slot_room sp \<longrightarrow> (\<exists>k. last_slot (rs'[i := r]) k))
      \<and> (\<forall>j. active (rs'[i := r]) j \<longleftrightarrow> j = i \<or> active (Reservations sp) j)
      \<and> (\<forall>j. active (Reservations sp) j \<longrightarrow> rs'[i := r] ! j = Reservations sp ! j))"
proof -
  let ?rs = "Reservations sp" and ?last = "\<lambda>r. r\<lparr>ReservationState := VmmReservationStateLast\<rparr>"
  have kl: "k < length ?rs" "ReservationState (?rs ! k) = VmmReservationStateLast" using assms(2) by (auto simp: last_slot_def)
  obtain i where fi: "VmFindFirstFreeReservation_loop ?rs 0 = Some i"
    using first_free_loop_None [OF _ kl(1), of 0] kl(2) by (cases "VmFindFirstFreeReservation_loop ?rs 0") auto
  from first_free_loop_Some [OF this] have i: "i < length ?rs" "ReservationState (?rs ! i) \<noteq> VmmReservationStateUsed"
    "\<forall>l < i. ReservationState (?rs ! l) = VmmReservationStateUsed" by auto
  have ik: "i \<le> k" using i(3) kl(2) by (metis VMM_RESERVATION_STATE.distinct(5) not_le)
  have na: "\<not> active ?rs i" using i(2) by (simp add: active_def)
  have room: "slot_room sp \<longleftrightarrow> slot_below sp (Suc k) 24 \<or> (\<exists>j < k. ReservationState (?rs ! j) = VmmReservationStateFree)"
    unfolding slot_room_def using last_slot_unique [OF _ assms(2)] assms(2) by blast
  show ?thesis
  proof (cases "i = k")
    case True
    then have sr: "slot_room sp \<longleftrightarrow> slot_below sp (Suc k) 24" using i(3) room by auto
    define rs0 where "rs0 = ?rs[k := (?rs ! k)\<lparr>ReservationState := VmmReservationStateFree\<rparr>]"
    define rs' where "rs' = (if Suc k < length ?rs then rs0[Suc k := ?last (?rs ! Suc k)] else rs0)"
    have len: "length rs' = length ?rs" by (simp add: rs'_def rs0_def)
    have ff: "VmFindFirstFreeReservation sp = Some (Some k, sp\<lparr>Reservations := rs', Overrun := Overrun sp \<or> \<not> slot_below sp (Suc k) 24\<rparr>)"
      using fi kl True by (simp add: VmFindFirstFreeReservation_def VmSetLast_def rs'_def rs0_def)
    have lst: "last_slot (rs'[k := r]) (Suc k)" if "ReservationState r = VmmReservationStateUsed" "Suc k < length ?rs" for r
      using that i(3) True by (auto simp: rs'_def rs0_def last_slot_def nth_list_update less_Suc_eq)
    have act: "active (rs'[k := r]) j \<longleftrightarrow> j = k \<or> active ?rs j" if r: "ReservationState r = VmmReservationStateUsed" for r j
    proof
      assume a: "active (rs'[k := r]) j"
      have "j < Suc k"
      proof (cases "Suc k < length ?rs")
        case True
        then show ?thesis using active_less_last [OF lst [OF r] a] by blast
      next
        case False
        then show ?thesis using a len by (simp add: active_def)
      qed
      then show "j = k \<or> active ?rs j" using a i(3) True kl by (auto simp: rs'_def rs0_def active_def nth_list_update less_Suc_eq split: if_splits)
    next
      assume "j = k \<or> active ?rs j"
      then have "j \<le> k" using active_less_last [OF assms(2), of j] by auto
      then show "active (rs'[k := r]) j"
        using r kl i(3) True by (auto simp: rs'_def rs0_def active_def nth_list_update less_Suc_eq le_less)
    qed
    have same: "rs'[k := r] ! j = ?rs ! j" if "active ?rs j" for r j
      using active_less_last [OF assms(2) that] by (auto simp: rs'_def rs0_def nth_list_update)
    have lst': "slot_room sp \<longrightarrow> (\<exists>m. last_slot (rs'[k := r]) m)" if "ReservationState r = VmmReservationStateUsed" for r
      using lst [OF that] sr slot_below_length [OF assms(1)] by blast
    have "slot_room sp \<Longrightarrow> slot_below sp k 56" using sr by (simp add: slot_below_def)
    then have "(Overrun sp \<or> \<not> slot_below sp (Suc k) 24) \<or> \<not> slot_below sp k 56 \<longleftrightarrow> Overrun sp \<or> \<not> slot_room sp" using sr by blast
    moreover have "k < length rs'" "\<not> active ?rs k" using kl(1) len na True by simp_all
    moreover have "\<forall>r. ReservationState r = VmmReservationStateUsed \<longrightarrow> (slot_room sp \<longrightarrow> (\<exists>m. last_slot (rs'[k := r]) m))
      \<and> (\<forall>j. active (rs'[k := r]) j \<longleftrightarrow> j = k \<or> active ?rs j) \<and> (\<forall>j. active ?rs j \<longrightarrow> rs'[k := r] ! j = ?rs ! j)"
      using lst' act same by blast
    ultimately show ?thesis using ff len by blast
  next
    case False
    then have lt: "i < k" using ik by simp
    with assms(2) i(2) have fr: "ReservationState (?rs ! i) = VmmReservationStateFree"
      by (cases "ReservationState (?rs ! i)") (auto simp: last_slot_def)
    then have "VmFindFirstFreeReservation sp = Some (Some i, sp\<lparr>Reservations := ?rs, Overrun := Overrun sp\<rparr>)"
      using fi i(1) by (simp add: VmFindFirstFreeReservation_def)
    moreover have "slot_room sp" using lt fr room by blast
    moreover have "slot_below sp i 56" by (rule slot_below_less [OF assms(1) lt kl(1)])
    moreover have "last_slot (?rs[i := r]) k" if "ReservationState r = VmmReservationStateUsed" for r
      using that assms(2) lt by (auto simp: last_slot_def nth_list_update)
    moreover have "active (?rs[i := r]) j \<longleftrightarrow> j = i \<or> active ?rs j" if "ReservationState r = VmmReservationStateUsed" for r j
      using that i(1,3) fr by (auto simp: active_def nth_list_update) (metis VMM_RESERVATION_STATE.distinct(3))
    moreover have "?rs[i := r] ! j = ?rs ! j" if "active ?rs j" for r j
      using that na by (metis nth_list_update_neq)
    ultimately show ?thesis using na i(1) by (intro exI [of _ i] exI [of _ ?rs] exI [of _ "Overrun sp"]) auto
  qed
qed

text \<open>The slot of a new reservation.\<close>

lemma bitmap_bytes_less: "unat n div 4096 \<le> 0xFFFFFFFF \<Longrightarrow> bitmap_bytes n < 2 ^ 32"
  by (simp add: bitmap_bytes_def)

lemma VmInitializeReservation_eq:
  assumes "i < length (Reservations sp)" and "p \<noteq> NULL" and "n \<noteq> 0" and "unat p mod 4096 = 0" and "unat n mod 4096 = 0"
    and "unat p + unat n < 2 ^ 64" and "metadata_inv sp"
  shows "\<exists>r q. VmInitializeReservation sp p n rights uc file i = (if unat n div 4096 \<le> 0xFFFFFFFF \<and> bitmap_room sp n
      then Some (sp\<lparr>Reservations := (Reservations sp)[i := r], FreeBitmapAddress := q, Overrun := (Overrun sp \<or> \<not> slot_below sp i 56)\<rparr>) else None)
    \<and> (unat n div 4096 \<le> 0xFFFFFFFF \<and> bitmap_room sp n \<longrightarrow> reservation_inv r \<and> ReservationState r = VmmReservationStateUsed
      \<and> region_of r = (p, n, rights, uc, file, {}) \<and> unat q = unat (FreeBitmapAddress sp) + bitmap_bytes n)"
proof (cases "unat n div 4096 \<le> 0xFFFFFFFF")
  case False
  then have "\<not> n div PAGE_SIZE \<le> 0xFFFFFFFF" by (simp add: le_MAX_DWORD unat_div)
  then show ?thesis using assms(1-5) False by (simp add: VmInitializeReservation_def Let_def bind_ASSERT)
next
  case le: True
  let ?d = "ucast (n div PAGE_SIZE) :: DWORD"
  have n: "unat ?d = unat n div 4096" using le by (simp add: unat_ucast_small unat_div)
  have "unat n \<noteq> 0" using assms(3) by (simp add: unat_eq_zero)
  then have n0: "unat n div 4096 \<noteq> 0" using assms(5) div_mult_mod_eq [of "unat n" 4096] by simp
  then have "?d \<noteq> 0" using n by (metis unat_0)
  from BitmapPreinit_ok [OF this] obtain b where b: "BitmapPreinit ?d = Some (BufferSize b, b)" "BitCount b = ?d"
    "unat (BufferSize b) = (unat n div 4096 + 7) div 8" by (auto simp: n)
  have "unat (BitCount b) \<le> 8 * unat (BufferSize b)" using b(2,3) n by simp
  with BitmapInitEx_ok [of b "replicate (unat (BufferSize b)) 0" False] obtain b' where
    b': "BitmapInitEx b (Some (replicate (unat (BufferSize b)) 0)) False = Some b'" "bitmap_inv b'" "BitCount b' = ?d" "bm_set b' = {}"
    using b(2) by auto
  have nz: "0 \<noteq> BufferSize b" using b(3) n0 by (auto simp: unat_eq_zero [symmetric])
  let ?w = "AlignAddressUpper (ucast (BufferSize b)) PAGE_SIZE"
  have w: "unat ?w = bitmap_bytes n"
    using AlignAddressUpper_page [of "ucast (BufferSize b)"] b(3) unat_DWORD_less [of "BufferSize b"]
    by (simp add: unat_ucast_QWORD bitmap_bytes_def mult.commute del: unat_DWORD_less)
  have fit: "unat (FreeBitmapAddress sp) + unat ?w < 2 ^ 64"
    using assms(7) w bitmap_bytes_less [OF le] by (simp add: metadata_inv_def)
  then have cb: "CHECK_BOUNDS (FreeBitmapAddress sp) ?w (ReservationList sp) (ReservedAreaSize sp) \<longleftrightarrow> bitmap_room sp n"
    using assms(7) w by (subst CHECK_BOUNDS_nat) (auto simp: metadata_inv_def bitmap_room_def)
  let ?r = "(Reservations sp ! i)\<lparr>ReservationState := VmmReservationStateUsed, StartVa := p, ReservationSize := n, PageRights := rights,
       Uncacheable := uc, BackingFile := file, CommitBitmap := b', CommitBitmapAddress := FreeBitmapAddress sp\<rparr>"
  have "n div PAGE_SIZE \<le> 0xFFFFFFFF" using le by (simp add: le_MAX_DWORD unat_div)
  then have "VmInitializeReservation sp p n rights uc file i = (if bitmap_room sp n then
      Some (sp\<lparr>Reservations := (Reservations sp)[i := ?r], FreeBitmapAddress := FreeBitmapAddress sp + ?w, Overrun := (Overrun sp \<or> \<not> slot_below sp i 56)\<rparr>) else None)"
    using assms(1-5,7) b(1) b'(1) nz cb by (simp add: VmInitializeReservation_def Let_def bind_ASSERT IsAddressAligned_page metadata_inv_def)
  moreover have "reservation_inv ?r" using assms(2-7) b'(2,3) n by (simp add: reservation_inv_def metadata_inv_def)
  moreover have "region_of ?r = (p, n, rights, uc, file, {})" using b'(4) by (simp add: region_of_def committed_def)
  moreover have "unat (FreeBitmapAddress sp + ?w) = unat (FreeBitmapAddress sp) + bitmap_bytes n"
    using fit w by (simp add: unat_plus_if_small)
  ultimately show ?thesis using le by (intro exI [of _ ?r] exI [of _ "FreeBitmapAddress sp + ?w"]) simp
qed

section \<open>The regions of a space\<close>

definition regions :: "VMM_RESERVATION_SPACE \<Rightarrow> region set" where
  "regions sp = (\<lambda>i. region_of (Reservations sp ! i)) ` {i. active (Reservations sp) i}"

lemma regions_lock [simp]: "regions (sp\<lparr>ReservationLock := l\<rparr>) = regions sp"
  by (simp add: regions_def)

lemma slots_inv_active: "slots_inv sp \<Longrightarrow> active (Reservations sp) i \<Longrightarrow> reservation_inv (Reservations sp ! i)"
  by (simp add: slots_inv_def slots_ok_def)

lemma reservation_start: "reservation_inv r \<Longrightarrow> StartVa r \<in> covers r"
  by (simp add: reservation_inv_def covers_def va_range_def unat_gt_0)

lemma active_start_inj:
  assumes "slots_inv sp" and "active (Reservations sp) i" and "active (Reservations sp) j"
    and "StartVa (Reservations sp ! i) = StartVa (Reservations sp ! j)"
  shows "i = j"
proof (rule ccontr)
  assume "i \<noteq> j"
  with assms have "covers (Reservations sp ! i) \<inter> covers (Reservations sp ! j) = {}" by (simp add: slots_inv_def slots_ok_def)
  with assms reservation_start [OF slots_inv_active, of sp] show False by (metis IntI empty_iff)
qed

lemma regions_remove:
  assumes "slots_inv sp" and "active (Reservations sp) i"
  shows "regions sp - {region_of (Reservations sp ! i)} = (\<lambda>j. region_of (Reservations sp ! j)) ` {j. active (Reservations sp) j \<and> j \<noteq> i}"
proof -
  have "\<forall>j. active (Reservations sp) j \<and> j \<noteq> i \<longrightarrow> region_of (Reservations sp ! j) \<noteq> region_of (Reservations sp ! i)"
    using active_start_inj [OF assms(1) _ assms(2)] by (auto simp: region_of_def)
  then show ?thesis by (auto simp: regions_def)
qed

text \<open>Changing the pages of a slot and giving up a slot.\<close>

lemma update_slot:
  assumes "slots_inv sp" and "active (Reservations sp) i" and "reservation_inv r" and "ReservationState r = VmmReservationStateUsed"
    and "StartVa r = StartVa (Reservations sp ! i)" and "ReservationSize r = ReservationSize (Reservations sp ! i)"
  shows "slots_inv (sp\<lparr>Reservations := (Reservations sp)[i := r]\<rparr>)"
    and "regions (sp\<lparr>Reservations := (Reservations sp)[i := r]\<rparr>) = insert (region_of r) (regions sp - {region_of (Reservations sp ! i)})"
proof -
  let ?rs = "Reservations sp"
  have i: "i < length ?rs" "ReservationState (?rs ! i) = VmmReservationStateUsed" using assms(2) by (auto simp: active_def)
  have st: "ReservationState (?rs[i := r] ! j) = ReservationState (?rs ! j)" for j
    using i assms(4) by (cases "j = i") auto
  then have act: "active (?rs[i := r]) = active ?rs" and lst: "last_slot (?rs[i := r]) = last_slot ?rs"
    by (auto simp: active_def last_slot_def fun_eq_iff)
  have eq: "?rs[i := r] ! j = (if j = i then r else ?rs ! j)" for j using i by simp
  have cov: "covers (?rs[i := r] ! j) = covers (?rs ! j)" for j using assms(5,6) by (simp add: eq covers_def)
  show "slots_inv (sp\<lparr>Reservations := ?rs[i := r]\<rparr>)"
    using assms(1,3,5,6) unfolding slots_inv_def slots_ok_def by (simp add: act lst cov) (simp add: eq)
  show "regions (sp\<lparr>Reservations := ?rs[i := r]\<rparr>) = insert (region_of r) (regions sp - {region_of (?rs ! i)})"
    unfolding regions_remove [OF assms(1,2)] using assms(2) by (auto simp: regions_def act eq image_iff split: if_splits)
qed

lemma release_slot:
  assumes "slots_inv sp" and "active (Reservations sp) i"
  shows "slots_inv (sp\<lparr>Reservations := (Reservations sp)[i := zero_VMM_RESERVATION]\<rparr>)"
    and "regions (sp\<lparr>Reservations := (Reservations sp)[i := zero_VMM_RESERVATION]\<rparr>) = regions sp - {region_of (Reservations sp ! i)}"
proof -
  let ?rs = "Reservations sp" and ?z = "zero_VMM_RESERVATION"
  have i: "i < length ?rs" "ReservationState (?rs ! i) = VmmReservationStateUsed" using assms(2) by (auto simp: active_def)
  have z: "ReservationState ?z = VmmReservationStateFree" by (simp add: zero_VMM_RESERVATION_def)
  have "ReservationState (?rs[i := ?z] ! j) = VmmReservationStateLast \<longleftrightarrow> ReservationState (?rs ! j) = VmmReservationStateLast" for j
    using i z by (cases "j = i") auto
  then have act: "active (?rs[i := ?z]) j \<longleftrightarrow> active ?rs j \<and> j \<noteq> i" and lst: "last_slot (?rs[i := ?z]) = last_slot ?rs" for j
    using i z by (auto simp: active_def last_slot_def nth_list_update fun_eq_iff)
  have eq: "?rs[i := ?z] ! j = ?rs ! j" if "j \<noteq> i" for j using that by simp
  show "slots_inv (sp\<lparr>Reservations := ?rs[i := ?z]\<rparr>)"
    using assms(1) unfolding slots_inv_def slots_ok_def by (simp add: act lst eq cong: conj_cong)
  show "regions (sp\<lparr>Reservations := ?rs[i := ?z]\<rparr>) = regions sp - {region_of (?rs ! i)}"
    unfolding regions_remove [OF assms] by (auto simp: regions_def act eq image_iff)
qed

text \<open>Reserving a range that no region has an address of.\<close>

definition alloc_room :: "VMM_RESERVATION_SPACE \<Rightarrow> QWORD \<Rightarrow> bool" where
  "alloc_room sp n = (unat n div 4096 \<le> 0xFFFFFFFF \<and> bitmap_room sp n \<and> slot_room sp)"

definition unused :: "VMM_RESERVATION_SPACE \<Rightarrow> ptr \<Rightarrow> QWORD \<Rightarrow> bool" where
  "unused sp p n = (\<forall>i. active (Reservations sp) i \<longrightarrow> va_range p n \<inter> covers (Reservations sp ! i) = {})"

lemma unused_not_found:
  assumes "slots_ok (Reservations sp)" and "p \<noteq> NULL" and "n \<noteq> 0" and "unat p + unat n < 2 ^ 64" and "unused sp p n"
  shows "VmFindReservation sp p n = Some (STATUS_ELEMENT_NOT_FOUND, None)"
  using find_range [OF assms(1-4)] assms(5) va_range_nonempty [OF assms(3), of p] unfolding unused_def by blast

lemma reserve_ok:
  assumes "slots_inv sp" and "p \<noteq> NULL" and "n \<noteq> 0" and "unat p mod 4096 = 0" and "unat n mod 4096 = 0"
    and "unat p + unat n < 2 ^ 64" and "unused sp p n" and "unat n div 4096 \<le> 0xFFFFFFFF" and "bitmap_room sp n"
  shows "\<exists>sp' i. VmChangeVaReservationState sp p n VMM_ALLOC_TYPE_RESERVE rights uc file = Some (STATUS_SUCCESS, sp')
    \<and> Overrun sp' = (\<not> slot_room sp) \<and> slots_ok (Reservations sp') \<and> (slot_room sp \<longrightarrow> slots_inv sp')
    \<and> regions sp' = insert (p, n, rights, uc, file, {}) (regions sp)
    \<and> active (Reservations sp') i \<and> region_of (Reservations sp' ! i) = (p, n, rights, uc, file, {}) \<and> (p, n, rights, uc, file, {}) \<notin> regions sp
    \<and> FreeVirtualAddressPointer sp' = FreeVirtualAddressPointer sp \<and> ReservationLock sp' = ReservationLock sp"
proof -
  let ?rs = "Reservations sp"
  have inv: "slots_ok ?rs" "metadata_inv sp" "\<not> Overrun sp" and "\<exists>k. last_slot ?rs k" using assms(1) by (auto simp: slots_inv_def)
  then obtain k where "last_slot ?rs k" by blast
  from first_free_ok [OF inv(2) this] obtain i rs' ov where
    ff: "VmFindFirstFreeReservation sp = Some (Some i, sp\<lparr>Reservations := rs', Overrun := ov\<rparr>)"
      "(ov \<or> \<not> slot_below sp i 56) \<longleftrightarrow> \<not> slot_room sp" "length rs' = length ?rs" "i < length rs'" "\<not> active ?rs i"
    and new: "\<And>r. ReservationState r = VmmReservationStateUsed \<Longrightarrow> (slot_room sp \<longrightarrow> (\<exists>k. last_slot (rs'[i := r]) k))
      \<and> (\<forall>j. active (rs'[i := r]) j \<longleftrightarrow> j = i \<or> active ?rs j) \<and> (\<forall>j. active ?rs j \<longrightarrow> rs'[i := r] ! j = ?rs ! j)"
    using inv(3) by blast
  have "bitmap_room (sp\<lparr>Reservations := rs', Overrun := ov\<rparr>) n" "metadata_inv (sp\<lparr>Reservations := rs', Overrun := ov\<rparr>)"
    using assms(9) inv(2) ff(3) by (auto simp: bitmap_room_def)
  with VmInitializeReservation_eq [of i "sp\<lparr>Reservations := rs', Overrun := ov\<rparr>" p n rights uc "file", OF _ assms(2-6)] ff(4) assms(8)
  obtain r q where r: "VmInitializeReservation (sp\<lparr>Reservations := rs', Overrun := ov\<rparr>) p n rights uc file i =
      Some (sp\<lparr>Reservations := rs'[i := r], FreeBitmapAddress := q, Overrun := \<not> slot_room sp\<rparr>)" "reservation_inv r" "ReservationState r = VmmReservationStateUsed"
    "region_of r = (p, n, rights, uc, file, {})" "unat q = unat (FreeBitmapAddress sp) + bitmap_bytes n" using ff(2) by auto
  have rs: "StartVa r = p" "ReservationSize r = n" using r(4) by (simp_all add: region_of_def)
  define rs2 where "rs2 = rs'[i := r]"
  have new: "slot_room sp \<longrightarrow> (\<exists>k. last_slot rs2 k)" "\<forall>j. active rs2 j \<longleftrightarrow> j = i \<or> active ?rs j" "\<forall>j. active ?rs j \<longrightarrow> rs2 ! j = ?rs ! j"
    using new [OF r(3)] by (simp_all add: rs2_def)
  let ?sp = "sp\<lparr>Reservations := rs2, FreeBitmapAddress := q, Overrun := \<not> slot_room sp\<rparr>"
  have ri: "rs2 ! i = r" using ff(4) by (simp add: rs2_def)
  have un: "covers r \<inter> covers (?rs ! j) = {}" if "active ?rs j" for j
    using assms(7) that rs by (simp add: covers_def unused_def)
  have ok: "slots_ok rs2"
  proof -
    have "covers (rs2 ! j) \<inter> covers (rs2 ! l) = {}" if "active rs2 j" "active rs2 l" "j \<noteq> l" for j l
    proof (cases "j = i \<or> l = i")
      case True
      with that new(2,3) ri un [of j] un [of l] show ?thesis by (auto simp: Int_commute)
    next
      case False
      with that new(2,3) inv(1) show ?thesis by (simp add: slots_ok_def)
    qed
    moreover have "reservation_inv (rs2 ! j)" if "active rs2 j" for j
      using that new(2,3) ri r(2) inv(1) by (cases "j = i") (auto simp: slots_ok_def)
    ultimately show ?thesis by (simp add: slots_ok_def)
  qed
  have "metadata_inv ?sp"
    using inv(2) assms(9) r(5) ff(3) by (simp add: metadata_inv_def bitmap_room_def bitmap_bytes_def rs2_def mod_add_left_eq [symmetric])
  then have "slot_room sp \<longrightarrow> slots_inv ?sp" using assms(1) ok new(1) by (simp add: slots_inv_def)
  moreover have "VmChangeVaReservationState sp p n VMM_ALLOC_TYPE_RESERVE rights uc file = Some (STATUS_SUCCESS, ?sp)"
    using assms(2-5) unused_not_found [OF inv(1) assms(2,3,6,7)] ff(1) r(1) by (simp add: rs2_def VmChangeVaReservationState_def bind_ASSERT IsAddressAligned_page)
  moreover have reg: "region_of (rs2 ! i) = (p, n, rights, uc, file, {})" using ri r(4) by simp
  moreover have "(p, n, rights, uc, file, {}) \<notin> regions sp"
  proof
    assume "(p, n, rights, uc, file, {}) \<in> regions sp"
    then obtain j where "active ?rs j" "covers (?rs ! j) = va_range p n" by (auto simp: regions_def region_of_def covers_def)
    with un [of j] rs va_range_nonempty [OF assms(3), of p] show False by (auto simp: covers_def)
  qed
  moreover have "regions ?sp = insert (p, n, rights, uc, file, {}) (regions sp)"
  proof -
    have "{j. active rs2 j} = insert i {j. active ?rs j}" using new(2) by auto
    moreover note reg
    moreover have "(\<lambda>j. region_of (rs2 ! j)) ` {j. active ?rs j} = regions sp" using new(3) by (auto simp: regions_def)
    ultimately show ?thesis by (simp add: regions_def)
  qed
  ultimately show ?thesis using new(2) ok by (intro exI [of _ ?sp] exI [of _ i]) simp
qed

lemma reserve_halts:
  assumes "slots_inv sp" and "p \<noteq> NULL" and "n \<noteq> 0" and "unat p mod 4096 = 0" and "unat n mod 4096 = 0"
    and "unat p + unat n < 2 ^ 64" and "unused sp p n" and "\<not> (unat n div 4096 \<le> 0xFFFFFFFF \<and> bitmap_room sp n)"
  shows "VmChangeVaReservationState sp p n VMM_ALLOC_TYPE_RESERVE rights uc file = None"
proof -
  have inv: "slots_ok (Reservations sp)" "metadata_inv sp" and "\<exists>k. last_slot (Reservations sp) k" using assms(1) by (auto simp: slots_inv_def)
  then obtain k where "last_slot (Reservations sp) k" by blast
  from first_free_ok [OF inv(2) this] obtain i rs' ov where ff: "VmFindFirstFreeReservation sp = Some (Some i, sp\<lparr>Reservations := rs', Overrun := ov\<rparr>)"
    "length rs' = length (Reservations sp)" "i < length rs'" by blast
  have "bitmap_room (sp\<lparr>Reservations := rs', Overrun := ov\<rparr>) n \<longleftrightarrow> bitmap_room sp n" "metadata_inv (sp\<lparr>Reservations := rs', Overrun := ov\<rparr>)"
    using inv(2) ff(2) by (auto simp: bitmap_room_def)
  with VmInitializeReservation_eq [of i "sp\<lparr>Reservations := rs', Overrun := ov\<rparr>" p n rights uc "file", OF _ assms(2-6)] ff(3) assms(8)
  have "VmInitializeReservation (sp\<lparr>Reservations := rs', Overrun := ov\<rparr>) p n rights uc file i = None" by auto
  with ff(1) unused_not_found [OF inv(1) assms(2,3,6,7)] assms(2-5) show ?thesis
    by (simp add: VmChangeVaReservationState_def bind_ASSERT IsAddressAligned_page)
qed

text \<open>Committing a part of a region.\<close>

lemma commit_slot:
  assumes "slots_ok (Reservations sp)" and "active (Reservations sp) i" and "va_range p n \<subseteq> covers (Reservations sp ! i)"
    and "n \<noteq> 0" and "unat p + unat n < 2 ^ 64" and "unat p mod 4096 = 0" and "unat n mod 4096 = 0"
    and "PageRights (Reservations sp ! i) = rights" and "Uncacheable (Reservations sp ! i) = uc"
  shows "\<exists>b r. r = (Reservations sp ! i)\<lparr>CommitBitmap := b\<rparr> \<and> reservation_inv r \<and> committed r = committed (Reservations sp ! i) \<union> va_range p n
    \<and> VmChangeVaReservationState sp p n VMM_ALLOC_TYPE_COMMIT rights uc file = Some (STATUS_SUCCESS, sp\<lparr>Reservations := (Reservations sp)[i := r]\<rparr>)"
proof -
  let ?rs = "Reservations sp"
  have pr: "p \<in> covers (?rs ! i)" using assms(3) va_range_nonempty [OF assms(4)] by blast
  have inv: "reservation_inv (?rs ! i)" using assms(1,2) by (simp add: slots_ok_def)
  have p0: "p \<noteq> NULL" using pr inv by (auto simp: covers_def va_range_def reservation_inv_def unat_eq_zero)
  note fnd = find_range_in [OF assms(1) p0 assms(4,5,2,3)]
  from VmChangeCommit_ok [OF inv assms(3) pr assms(4-7), of True] obtain b where
    b: "VmCommitReservation p n (?rs ! i) = Some ((?rs ! i)\<lparr>CommitBitmap := b\<rparr>)" "reservation_inv ((?rs ! i)\<lparr>CommitBitmap := b\<rparr>)"
    "committed ((?rs ! i)\<lparr>CommitBitmap := b\<rparr>) = committed (?rs ! i) \<union> va_range p n"
    by (auto simp: VmCommitReservation_def)
  have "i < length ?rs" using assms(2) by (auto simp: active_def)
  then have "VmChangeVaReservationState sp p n VMM_ALLOC_TYPE_COMMIT rights uc file =
      Some (STATUS_SUCCESS, sp\<lparr>Reservations := ?rs[i := (?rs ! i)\<lparr>CommitBitmap := b\<rparr>]\<rparr>)"
    using p0 assms(4,6-9) fnd b(1) by (simp add: VmChangeVaReservationState_def bind_ASSERT IsAddressAligned_page)
  with b(2,3) show ?thesis by blast
qed

lemma commit_ok:
  assumes "slots_inv sp" and "active (Reservations sp) i" and "va_range p n \<subseteq> covers (Reservations sp ! i)"
    and "n \<noteq> 0" and "unat p + unat n < 2 ^ 64" and "unat p mod 4096 = 0" and "unat n mod 4096 = 0"
    and "PageRights (Reservations sp ! i) = rights" and "Uncacheable (Reservations sp ! i) = uc"
  shows "\<exists>sp' b r. VmChangeVaReservationState sp p n VMM_ALLOC_TYPE_COMMIT rights uc file = Some (STATUS_SUCCESS, sp')
    \<and> r = (Reservations sp ! i)\<lparr>CommitBitmap := b\<rparr> \<and> committed r = committed (Reservations sp ! i) \<union> va_range p n
    \<and> sp' = sp\<lparr>Reservations := (Reservations sp)[i := r]\<rparr> \<and> slots_inv sp'
    \<and> regions sp' = insert (region_of r) (regions sp - {region_of (Reservations sp ! i)})"
proof -
  from commit_slot [OF slots_inv_ok [OF assms(1)] assms(2-9), of "file"] obtain b r where
    r: "r = (Reservations sp ! i)\<lparr>CommitBitmap := b\<rparr>" "reservation_inv r" "committed r = committed (Reservations sp ! i) \<union> va_range p n"
    "VmChangeVaReservationState sp p n VMM_ALLOC_TYPE_COMMIT rights uc file = Some (STATUS_SUCCESS, sp\<lparr>Reservations := (Reservations sp)[i := r]\<rparr>)" by blast
  have "ReservationState r = VmmReservationStateUsed" using assms(2) r(1) by (simp add: active_def)
  from update_slot [OF assms(1,2) r(2) this] r show ?thesis by auto
qed

section \<open>Allocating and freeing regions\<close>

lemma cpu_intr_same [simp]: "cpu\<lparr>CpuIntr := CpuIntr cpu\<rparr> = cpu"
  by simp

lemma alloc_type_flag:
  assumes "IsBooleanFlagOn t VMM_ALLOC_TYPE_RESERVE \<or> IsBooleanFlagOn t VMM_ALLOC_TYPE_COMMIT"
  shows "IsFlagOn t (VMM_ALLOC_TYPE_COMMIT OR VMM_ALLOC_TYPE_RESERVE)"
proof -
  have "t AND 1 = (t AND 3) AND 1" "t AND 2 = (t AND 3) AND 2" by (simp_all add: and.assoc)
  then show ?thesis using assms by (auto simp: IsBooleanFlagOn_def IsFlagOn_def)
qed

lemma rw_restore:
  assumes "rw_free l"
  shows "RwSpinlockRelease (cpu\<lparr>CpuIntr := INTR_OFF\<rparr>) (l\<lparr>ActiveWriter := 1\<rparr>) (CpuIntr cpu) True = Some (cpu, l)"
    and "RwSpinlockRelease (cpu\<lparr>CpuIntr := INTR_OFF\<rparr>) (l\<lparr>ActiveReaders := 1\<rparr>) (CpuIntr cpu) False = Some (cpu, l)"
  using rw_section(3,4) [OF assms, of INTR_OFF cpu "CpuIntr cpu"] by simp_all

lemma space_okD: "space_ok sp \<Longrightarrow> slots_inv sp" "space_ok sp \<Longrightarrow> rw_free (ReservationLock sp)"
  by (simp_all add: space_ok_def)

lemma space_invD: "space_inv sp \<Longrightarrow> slots_inv sp" "space_inv sp \<Longrightarrow> rw_free (ReservationLock sp)"
  "space_inv sp \<Longrightarrow> space_ok sp" "space_inv sp \<Longrightarrow> below_free sp"
  by (simp_all add: space_inv_def space_ok_def)

lemma below_free_regions:
  "below_free sp \<longleftrightarrow> (\<forall>R \<in> regions sp. unat (fst R) + unat (fst (snd R)) \<le> unat (FreeVirtualAddressPointer sp))"
  by (auto simp: below_free_def regions_def region_of_def)

lemma unused_regions: "unused sp p n \<longleftrightarrow> (\<forall>R \<in> regions sp. va_range p n \<inter> va_range (fst R) (fst (snd R)) = {})"
  by (auto simp: unused_def regions_def region_of_def covers_def)

text \<open>Rounding a request to whole pages.\<close>

lemma aligned_request:
  assumes "Size \<noteq> 0" and "p = AlignAddressLower base PAGE_SIZE" and "n = AlignAddressUpper (Size + (base - p)) PAGE_SIZE"
    and "unat base + unat Size + 4095 < 2 ^ 64"
  shows "n \<noteq> 0" and "unat p + unat n < 2 ^ 64" and "unat p mod 4096 = 0" and "unat n mod 4096 = 0"
    and "va_range base Size \<subseteq> va_range p n"
proof -
  have p: "unat p = unat base div 4096 * 4096" using assms(2) by (simp add: AlignAddressLower_page)
  have off: "unat (base - p) = unat base mod 4096" using p by (simp add: unat_sub word_le_nat_alt minus_div_mult_eq_mod)
  have sz: "unat (Size + (base - p)) = unat Size + unat base mod 4096"
    using assms(4) off mod_less_eq_dividend [of "unat base" 4096] by (subst unat_plus_if_small) auto
  have "unat (Size + (base - p)) + 4095 < 2 ^ 64" using assms(4) sz mod_less_eq_dividend [of "unat base" 4096] by linarith
  then have n: "unat n = (unat Size + unat base mod 4096 + 4095) div 4096 * 4096"
    using AlignAddressUpper_page [of "Size + (base - p)"] assms(3) sz by simp
  have "unat Size + unat base mod 4096 \<le> unat n" "unat n \<le> unat Size + unat base mod 4096 + 4095"
    using n div_mult_mod_eq [of "unat Size + unat base mod 4096 + 4095" 4096]
      mod_less_divisor [of 4096 "unat Size + unat base mod 4096 + 4095"] by linarith+
  moreover have "unat p + unat base mod 4096 = unat base" using p by simp
  moreover have "0 < unat Size" using assms(1) by (simp add: unat_gt_0)
  ultimately show "n \<noteq> 0" "unat p + unat n < 2 ^ 64" "va_range base Size \<subseteq> va_range p n"
    using assms(4) by (auto simp: unat_eq_zero [symmetric] va_range_def)
  show "unat p mod 4096 = 0" "unat n mod 4096 = 0" using p n by simp_all
qed

text \<open>
  The range of a request and the next free address afterwards: the caller chooses the address, or it is the next
  free one.
\<close>

definition requested :: "VMM_RESERVATION_SPACE \<Rightarrow> ptr \<Rightarrow> QWORD \<Rightarrow> ptr \<times> QWORD \<times> ptr" where
  "requested sp base Size = (if base = NULL
     then let n = AlignAddressUpper Size PAGE_SIZE in (FreeVirtualAddressPointer sp, n, FreeVirtualAddressPointer sp + n)
     else let p = AlignAddressLower base PAGE_SIZE in (p, AlignAddressUpper (Size + (base - p)) PAGE_SIZE, FreeVirtualAddressPointer sp))"

text \<open>The space after its free pointer has moved over a request and while the lock is held.\<close>

definition held :: "VMM_RESERVATION_SPACE \<Rightarrow> ptr \<Rightarrow> VMM_RESERVATION_SPACE" where
  "held sp F = sp\<lparr>FreeVirtualAddressPointer := F, ReservationLock := (ReservationLock sp)\<lparr>ActiveWriter := 1\<rparr>\<rparr>"

lemma held_simps [simp]:
  "Reservations (held sp F) = Reservations sp" "FreeVirtualAddressPointer (held sp F) = F" "Overrun (held sp F) = Overrun sp"
  "ReservationLock (held sp F) = (ReservationLock sp)\<lparr>ActiveWriter := 1\<rparr>" "metadata_inv (held sp F) = metadata_inv sp"
  "bitmap_room (held sp F) n = bitmap_room sp n" "slot_room (held sp F) = slot_room sp" "unused (held sp F) p n = unused sp p n"
  "regions (held sp F) = regions sp" "(held sp F)\<lparr>ReservationLock := l\<rparr> = sp\<lparr>FreeVirtualAddressPointer := F, ReservationLock := l\<rparr>"
  by (simp_all add: held_def bitmap_room_def slot_room_def unused_def regions_def)

lemma slots_inv_held: "slots_inv sp \<Longrightarrow> F \<noteq> NULL \<Longrightarrow> unat F mod 4096 = 0 \<Longrightarrow> slots_inv (held sp F)"
  by (simp add: slots_inv_def)

lemma request_pages:
  assumes "slots_inv sp" and "Size \<noteq> 0" and "requested sp base Size = (p, n, F)"
    and "unat (if base = NULL then FreeVirtualAddressPointer sp else base) + unat Size + 4095 < 2 ^ 64"
  shows "n \<noteq> 0" and "unat n mod 4096 = 0" and "unat p mod 4096 = 0" and "unat p + unat n < 2 ^ 64"
    and "F \<noteq> NULL" and "unat F mod 4096 = 0" and "base = NULL \<Longrightarrow> p \<noteq> NULL \<and> unat F = unat p + unat n"
proof -
  have f: "FreeVirtualAddressPointer sp \<noteq> NULL" "unat (FreeVirtualAddressPointer sp) mod 4096 = 0" using assms(1) by (auto simp: slots_inv_def)
  let ?b = "if base = NULL then FreeVirtualAddressPointer sp else base"
  have "AlignAddressLower (FreeVirtualAddressPointer sp) PAGE_SIZE = FreeVirtualAddressPointer sp"
    using f(2) by (simp add: word_unat_eq_iff AlignAddressLower_page minus_mod_eq_div_mult [symmetric])
  then have p: "p = AlignAddressLower ?b PAGE_SIZE" "n = AlignAddressUpper (Size + (?b - p)) PAGE_SIZE"
    using assms(3) by (auto simp: requested_def Let_def split: if_splits)
  note req = aligned_request [OF assms(2) p assms(4)]
  show "n \<noteq> 0" "unat n mod 4096 = 0" "unat p mod 4096 = 0" and fit: "unat p + unat n < 2 ^ 64" by (rule req)+
  show null: "p \<noteq> NULL \<and> unat F = unat p + unat n" if "base = NULL"
    using that assms(3) f(1) fit by (auto simp: requested_def Let_def unat_plus_if_small)
  have free: "F = FreeVirtualAddressPointer sp" if "base \<noteq> NULL" using that assms(3) by (auto simp: requested_def Let_def)
  have "unat F mod 4096 = 0 \<and> F \<noteq> NULL" if "base = NULL"
    using null [OF that] req(3,4) by (auto simp: mod_add_left_eq [symmetric] unat_eq_zero)
  then show "unat F mod 4096 = 0" "F \<noteq> NULL" using f free by metis+
qed

text \<open>A request that reserves, in terms of the two changes of the state of its range.\<close>

lemma alloc_request:
  assumes "space_ok sp" and "Size \<noteq> 0" and "IsBooleanFlagOn t VMM_ALLOC_TYPE_RESERVE" and "requested sp base Size = (p, n, F)"
    and "base \<noteq> NULL \<Longrightarrow> StartOfVirtualAddressSpace sp \<le> p"
  shows "VmReservationSpaceAllocRegion cpu pCpu sp base Size t rights uc file = do {
      (st, sp1) \<leftarrow> VmChangeVaReservationState (held sp F) p n VMM_ALLOC_TYPE_RESERVE rights uc file;
      (st, sp1) \<leftarrow> (if SUCCEEDED st \<and> IsBooleanFlagOn t VMM_ALLOC_TYPE_COMMIT
        then VmChangeVaReservationState sp1 p n VMM_ALLOC_TYPE_COMMIT rights uc file else Some (st, sp1));
      (cpu, l) \<leftarrow> RwSpinlockRelease (cpu\<lparr>CpuIntr := INTR_OFF\<rparr>) (ReservationLock sp1) (CpuIntr cpu) True;
      Some (st, if SUCCEEDED st then Some (p, n) else None, cpu, map_option (\<lambda>_. False) pCpu, sp1\<lparr>ReservationLock := l\<rparr>)
    }"
proof -
  have flag: "IsFlagOn t (VMM_ALLOC_TYPE_COMMIT OR VMM_ALLOC_TYPE_RESERVE)" using assms(3) alloc_type_flag by blast
  note alloc = VmReservationSpaceAllocRegion_def VmReservationSpaceDetermineNextFreeVirtualAddress_def bind_ASSERT
  show ?thesis
  proof (cases "base = NULL")
    case True
    then have r: "p = FreeVirtualAddressPointer sp" "n = AlignAddressUpper Size PAGE_SIZE" "F = FreeVirtualAddressPointer sp + AlignAddressUpper Size PAGE_SIZE"
      using assms(4) by (auto simp: requested_def Let_def)
    show ?thesis using assms(2,3) True flag rw_section(1) [OF space_okD(2) [OF assms(1)]] unfolding r
      by (simp add: alloc Let_def held_def option.map_comp comp_def)
  next
    case False
    then have r: "p = AlignAddressLower base PAGE_SIZE" "n = AlignAddressUpper (Size + (base - AlignAddressLower base PAGE_SIZE)) PAGE_SIZE" "F = FreeVirtualAddressPointer sp"
      using assms(4) by (auto simp: requested_def Let_def)
    show ?thesis using assms(2,3) assms(5) [OF False, THEN leD] False flag rw_section(1) [OF space_okD(2) [OF assms(1)]] unfolding r
      by (simp add: alloc Let_def held_def option.map_comp comp_def)
  qed
qed

text \<open>
  A region at an unused range: reserved, and committed as a whole if it is asked for. Without a slot for it memory
  of the bitmaps is overwritten, and without room for its bitmap an assertion fails.
\<close>

lemma alloc_reserve_ok:
  assumes "space_ok sp" and "Size \<noteq> 0" and "IsBooleanFlagOn t VMM_ALLOC_TYPE_RESERVE" and "requested sp base Size = (p, n, F)"
    and "unat (if base = NULL then FreeVirtualAddressPointer sp else base) + unat Size + 4095 < 2 ^ 64" and "p \<noteq> NULL"
    and "base \<noteq> NULL \<Longrightarrow> StartOfVirtualAddressSpace sp \<le> p" and "unused sp p n"
    and "unat n div 4096 \<le> 0xFFFFFFFF" and "bitmap_room sp n"
  shows "\<exists>sp'. VmReservationSpaceAllocRegion cpu pCpu sp base Size t rights uc file =
      Some (STATUS_SUCCESS, Some (p, n), cpu, map_option (\<lambda>_. False) pCpu, sp')
    \<and> Overrun sp' = (\<not> slot_room sp) \<and> FreeVirtualAddressPointer sp' = F
    \<and> (slot_room sp \<longrightarrow> space_ok sp' \<and> regions sp' = insert (p, n, rights, uc, file,
        if IsBooleanFlagOn t VMM_ALLOC_TYPE_COMMIT then va_range p n else {}) (regions sp))"
proof -
  let ?l = "ReservationLock sp"
  note inv = space_okD [OF assms(1)]
  note pg = request_pages [OF inv(1) assms(2,4,5)]
  obtain sp2 i where sp2: "VmChangeVaReservationState (held sp F) p n VMM_ALLOC_TYPE_RESERVE rights uc file = Some (STATUS_SUCCESS, sp2)"
    "Overrun sp2 = (\<not> slot_room sp)" "slots_ok (Reservations sp2)" "slot_room sp \<longrightarrow> slots_inv sp2"
    "regions sp2 = insert (p, n, rights, uc, file, {}) (regions sp)" "active (Reservations sp2) i"
    "region_of (Reservations sp2 ! i) = (p, n, rights, uc, file, {})" "(p, n, rights, uc, file, {}) \<notin> regions sp"
    "FreeVirtualAddressPointer sp2 = F" "ReservationLock sp2 = ?l\<lparr>ActiveWriter := 1\<rparr>"
    using reserve_ok [OF slots_inv_held [OF inv(1) pg(5,6)] assms(6) pg(1,3,2,4), of rights uc "file"] assms(8-10) by auto
  note eq = alloc_request [OF assms(1-4,7), of cpu pCpu rights uc "file"] and sec = rw_restore(1) [OF inv(2), of cpu]
  show ?thesis
  proof (cases "IsBooleanFlagOn t VMM_ALLOC_TYPE_COMMIT")
    case False
    then show ?thesis using eq sp2 inv(2) sec by (intro exI [of _ "sp2\<lparr>ReservationLock := ?l\<rparr>"]) (simp add: space_ok_def)
  next
    case True
    let ?r = "Reservations sp2 ! i"
    have ri: "StartVa ?r = p" "ReservationSize ?r = n" "PageRights ?r = rights" "Uncacheable ?r = uc" "committed ?r = {}" "BackingFile ?r = file"
      using sp2(7) by (auto simp: region_of_def)
    have "va_range p n \<subseteq> covers ?r" using ri by (simp add: covers_def)
    from commit_slot [OF sp2(3,6) this pg(1,4,3,2) ri(3,4), of "file"] obtain b r where
      r: "r = ?r\<lparr>CommitBitmap := b\<rparr>" "reservation_inv r" "committed r = va_range p n"
      "VmChangeVaReservationState sp2 p n VMM_ALLOC_TYPE_COMMIT rights uc file = Some (STATUS_SUCCESS, sp2\<lparr>Reservations := (Reservations sp2)[i := r]\<rparr>)"
      using ri(5) by auto
    let ?sp = "sp2\<lparr>Reservations := (Reservations sp2)[i := r]\<rparr>"
    have "slots_inv ?sp \<and> regions ?sp = insert (p, n, rights, uc, file, va_range p n) (regions sp)" if "slot_room sp"
    proof -
      have used: "ReservationState r = VmmReservationStateUsed" using sp2(6) r(1) by (simp add: active_def)
      have "region_of r = (p, n, rights, uc, file, va_range p n)" using ri r(1,3) by (simp add: region_of_def)
      then show ?thesis using update_slot [OF sp2(4) [THEN mp, OF that] sp2(6) r(2) used] r(1) ri sp2(5,7,8) by simp
    qed
    then show ?thesis using eq sp2 inv(2) sec r(4) True
      by (intro exI [of _ "?sp\<lparr>ReservationLock := ?l\<rparr>"]) (simp add: space_ok_def)
  qed
qed

lemma alloc_reserve_halts:
  assumes "space_ok sp" and "Size \<noteq> 0" and "IsBooleanFlagOn t VMM_ALLOC_TYPE_RESERVE" and "requested sp base Size = (p, n, F)"
    and "unat (if base = NULL then FreeVirtualAddressPointer sp else base) + unat Size + 4095 < 2 ^ 64" and "p \<noteq> NULL"
    and "base \<noteq> NULL \<Longrightarrow> StartOfVirtualAddressSpace sp \<le> p" and "unused sp p n"
    and "\<not> (unat n div 4096 \<le> 0xFFFFFFFF \<and> bitmap_room sp n)"
  shows "VmReservationSpaceAllocRegion cpu pCpu sp base Size t rights uc file = None"
proof -
  note inv = space_okD [OF assms(1)]
  note pg = request_pages [OF inv(1) assms(2,4,5)]
  have "VmChangeVaReservationState (held sp F) p n VMM_ALLOC_TYPE_RESERVE rights uc file = None"
    using reserve_halts [OF slots_inv_held [OF inv(1) pg(5,6)] assms(6) pg(1,3,2,4)] assms(8,9) by simp
  then show ?thesis using alloc_request [OF assms(1-4,7), of cpu pCpu rights uc "file"] by simp
qed

text \<open>At the next free address, above all regions.\<close>

lemma fresh_request:
  assumes "space_inv sp" and "Size \<noteq> 0" and "n = AlignAddressUpper Size PAGE_SIZE" and "unat (FreeVirtualAddressPointer sp) + unat Size + 4095 < 2 ^ 64"
  shows "requested sp NULL Size = (FreeVirtualAddressPointer sp, n, FreeVirtualAddressPointer sp + n)" and "FreeVirtualAddressPointer sp \<noteq> NULL"
    and "unused sp (FreeVirtualAddressPointer sp) n"
  using assms(3) space_invD(1,4) [OF assms(1)]
  by (auto simp: requested_def Let_def slots_inv_def unused_def below_free_def covers_def va_range_def)

lemma alloc_fresh_ok:
  assumes "space_inv sp" and "Size \<noteq> 0" and "IsBooleanFlagOn t VMM_ALLOC_TYPE_RESERVE" and "n = AlignAddressUpper Size PAGE_SIZE"
    and "unat (FreeVirtualAddressPointer sp) + unat Size + 4095 < 2 ^ 64" and "alloc_room sp n"
  shows "\<exists>sp'. VmReservationSpaceAllocRegion cpu pCpu sp NULL Size t rights uc file =
      Some (STATUS_SUCCESS, Some (FreeVirtualAddressPointer sp, n), cpu, map_option (\<lambda>_. False) pCpu, sp')
    \<and> space_inv sp' \<and> FreeVirtualAddressPointer sp' = FreeVirtualAddressPointer sp + n
    \<and> regions sp' = insert (FreeVirtualAddressPointer sp, n, rights, uc, file,
        if IsBooleanFlagOn t VMM_ALLOC_TYPE_COMMIT then va_range (FreeVirtualAddressPointer sp) n else {}) (regions sp)"
proof -
  let ?p = "FreeVirtualAddressPointer sp" and ?C = "if IsBooleanFlagOn t VMM_ALLOC_TYPE_COMMIT then va_range (FreeVirtualAddressPointer sp) n else {}"
  note fresh = fresh_request [OF assms(1,2,4,5)] and ok = space_invD(3) [OF assms(1)] and room = assms(6) [unfolded alloc_room_def]
  from alloc_reserve_ok [OF ok assms(2,3) fresh(1) _ fresh(2) _ fresh(3), of cpu pCpu rights uc "file"] assms(5) room obtain sp' where
    sp': "VmReservationSpaceAllocRegion cpu pCpu sp NULL Size t rights uc file = Some (STATUS_SUCCESS, Some (?p, n), cpu, map_option (\<lambda>_. False) pCpu, sp')"
    "space_ok sp'" "FreeVirtualAddressPointer sp' = ?p + n" "regions sp' = insert (?p, n, rights, uc, file, ?C) (regions sp)" by auto
  have "unat (?p + n) = unat ?p + unat n"
    using request_pages(7) [OF space_invD(1) [OF assms(1)] assms(2) fresh(1)] assms(5) by simp
  then have "below_free sp'" using space_invD(4) [OF assms(1)] sp'(3,4) by (auto simp: below_free_regions)
  with sp' show ?thesis by (auto simp: space_inv_def)
qed

text \<open>A region that the caller has chosen: only committing a part of what is reserved.\<close>

lemma alloc_commit_ok:
  assumes "space_ok sp" and "Size \<noteq> 0" and "\<not> IsBooleanFlagOn t VMM_ALLOC_TYPE_RESERVE" and "IsBooleanFlagOn t VMM_ALLOC_TYPE_COMMIT"
    and "base \<noteq> NULL" and "p = AlignAddressLower base PAGE_SIZE" and "n = AlignAddressUpper (Size + (base - p)) PAGE_SIZE"
    and "unat base + unat Size + 4095 < 2 ^ 64" and "StartOfVirtualAddressSpace sp \<le> p"
    and "active (Reservations sp) i" and "va_range p n \<subseteq> covers (Reservations sp ! i)"
    and "PageRights (Reservations sp ! i) = rights" and "Uncacheable (Reservations sp ! i) = uc"
  shows "\<exists>sp' b r. VmReservationSpaceAllocRegion cpu pCpu sp base Size t rights uc file =
      Some (STATUS_SUCCESS, Some (p, n), cpu, map_option (\<lambda>_. False) pCpu, sp')
    \<and> space_ok sp' \<and> r = (Reservations sp ! i)\<lparr>CommitBitmap := b\<rparr> \<and> committed r = committed (Reservations sp ! i) \<union> va_range p n
    \<and> regions sp' = insert (region_of r) (regions sp - {region_of (Reservations sp ! i)})"
proof -
  let ?l = "ReservationLock sp"
  have inv: "slots_inv (sp\<lparr>ReservationLock := ?l\<lparr>ActiveWriter := 1\<rparr>\<rparr>)" "rw_free ?l" using assms(1) by (auto simp: space_ok_def)
  note req = aligned_request [OF assms(2,6,7,8)]
  from commit_ok [OF inv(1), of i p n rights uc "file"] assms(10-13) req obtain sp2 b r where
    sp2: "VmChangeVaReservationState (sp\<lparr>ReservationLock := ?l\<lparr>ActiveWriter := 1\<rparr>\<rparr>) p n VMM_ALLOC_TYPE_COMMIT rights uc file = Some (STATUS_SUCCESS, sp2)"
      "r = (Reservations sp ! i)\<lparr>CommitBitmap := b\<rparr>" "committed r = committed (Reservations sp ! i) \<union> va_range p n"
      "sp2 = sp\<lparr>ReservationLock := ?l\<lparr>ActiveWriter := 1\<rparr>, Reservations := (Reservations sp)[i := r]\<rparr>"
      "slots_inv sp2" "regions sp2 = insert (region_of r) (regions sp - {region_of (Reservations sp ! i)})" by auto
  have flag: "IsFlagOn t (VMM_ALLOC_TYPE_COMMIT OR VMM_ALLOC_TYPE_RESERVE)" using assms(4) alloc_type_flag by blast
  have "VmReservationSpaceAllocRegion cpu pCpu sp base Size t rights uc file =
      Some (STATUS_SUCCESS, Some (p, n), cpu, map_option (\<lambda>_. False) pCpu, sp2\<lparr>ReservationLock := ?l\<rparr>)"
    using assms(2-5,9) flag sp2(1,4) rw_section(1) [OF inv(2)] rw_restore(1) [OF inv(2)]
    by (simp add: VmReservationSpaceAllocRegion_def Let_def bind_ASSERT assms(6,7)[symmetric] not_less option.map_comp comp_def)
  then show ?thesis using sp2(2,3,5,6) inv(2) by (intro exI [of _ "sp2\<lparr>ReservationLock := ?l\<rparr>"] exI [of _ b] exI [of _ r]) (simp add: space_ok_def)
qed

lemma find_in_region:
  assumes "slots_inv sp" and "active (Reservations sp) i" and "a \<in> covers (Reservations sp ! i)"
  shows "a \<noteq> NULL \<and> VmFindReservation (sp\<lparr>ReservationLock := l\<rparr>) a 1 = Some (STATUS_SUCCESS, Some i)"
proof -
  have a: "a \<noteq> NULL" "a \<noteq> MAX_QWORD"
    using slots_inv_active [OF assms(1,2)] assms(3) by (auto simp: covers_def va_range_def reservation_inv_def unat_eq_zero)
  then show ?thesis using find_address [of "sp\<lparr>ReservationLock := l\<rparr>" a] assms by (auto simp: slots_inv_def slots_ok_def)
qed

text \<open>Releasing a region, and taking back the pages of a part of it.\<close>

lemma free_release_ok:
  assumes "space_ok sp" and "active (Reservations sp) i" and "a \<in> covers (Reservations sp ! i)"
  shows "\<exists>sp'. VmReservationSpaceFreeRegion cpu pCpu sp a 0 VMM_FREE_TYPE_RELEASE =
      Some (StartVa (Reservations sp ! i), ReservationSize (Reservations sp ! i),
        MmuUnmapMemory (CommitBitmapAddress (Reservations sp ! i)) (BufferSize (CommitBitmap (Reservations sp ! i)))
          # (if BackingFile (Reservations sp ! i) \<noteq> NULL then [IoCloseFile (BackingFile (Reservations sp ! i))] else []),
        cpu, map_option (\<lambda>_. False) pCpu, sp')
    \<and> space_ok sp' \<and> regions sp' = regions sp - {region_of (Reservations sp ! i)}
    \<and> FreeVirtualAddressPointer sp' = FreeVirtualAddressPointer sp"
proof -
  let ?rs = "Reservations sp" and ?l = "ReservationLock sp"
  note inv = space_okD [OF assms(1)]
  have r: "reservation_inv (?rs ! i)" by (rule slots_inv_active [OF inv(1) assms(2)])
  have i: "i < length ?rs" using assms(2) by (simp add: active_def)
  have "IsAddressAligned (CommitBitmapAddress (?rs ! i)) PAGE_SIZE" using r by (simp add: reservation_inv_def IsAddressAligned_page)
  moreover have fl: "IsBooleanFlagOn VMM_FREE_TYPE_RELEASE VMM_FREE_TYPE_RELEASE" "\<not> IsBooleanFlagOn VMM_FREE_TYPE_RELEASE VMM_FREE_TYPE_DECOMMIT"
    by (simp_all add: IsBooleanFlagOn_def)
  ultimately show ?thesis
    using find_in_region [OF inv(1) assms(2,3), of "?l\<lparr>ActiveWriter := 1\<rparr>"] i rw_section(1) [OF inv(2)] rw_restore(1) [OF inv(2)] release_slot [OF inv(1) assms(2)] inv(2)
    by (simp add: VmReservationSpaceFreeRegion_def Let_def bind_ASSERT VmUninitializeReservation_def option.map_comp comp_def space_ok_def)
qed

lemma free_decommit_ok:
  assumes "space_ok sp" and "active (Reservations sp) i" and "Size \<noteq> 0" and "a \<in> covers (Reservations sp ! i)"
    and "p = AlignAddressLower a PAGE_SIZE" and "n = AlignAddressUpper (Size + (a - p)) PAGE_SIZE"
    and "unat a + unat Size + 4095 < 2 ^ 64" and "va_range p n \<subseteq> covers (Reservations sp ! i)"
  shows "\<exists>sp' b r. VmReservationSpaceFreeRegion cpu pCpu sp a Size VMM_FREE_TYPE_DECOMMIT = Some (p, n, [], cpu, map_option (\<lambda>_. False) pCpu, sp')
    \<and> space_ok sp' \<and> r = (Reservations sp ! i)\<lparr>CommitBitmap := b\<rparr> \<and> committed r = committed (Reservations sp ! i) - va_range p n
    \<and> regions sp' = insert (region_of r) (regions sp - {region_of (Reservations sp ! i)})"
proof -
  let ?rs = "Reservations sp" and ?l = "ReservationLock sp"
  note inv = space_okD [OF assms(1)] and req = aligned_request [OF assms(3,5,6,7)]
  have r: "reservation_inv (?rs ! i)" by (rule slots_inv_active [OF inv(1) assms(2)])
  have "p \<in> va_range p n" using req(1) by (simp add: va_range_def unat_gt_0)
  then have pr: "p \<in> covers (?rs ! i)" using assms(8) by blast
  from VmChangeCommit_ok [OF r assms(8) pr req(1-4), of False] obtain b where
    b: "VmDecommitReservation p n (?rs ! i) = Some ((?rs ! i)\<lparr>CommitBitmap := b\<rparr>)" "reservation_inv ((?rs ! i)\<lparr>CommitBitmap := b\<rparr>)"
    "committed ((?rs ! i)\<lparr>CommitBitmap := b\<rparr>) = committed (?rs ! i) - va_range p n"
    by (auto simp: VmDecommitReservation_def)
  let ?r = "(?rs ! i)\<lparr>CommitBitmap := b\<rparr>"
  have i: "i < length ?rs" "ReservationState ?r = VmmReservationStateUsed" using assms(2) by (auto simp: active_def)
  have fl: "\<not> IsBooleanFlagOn VMM_FREE_TYPE_DECOMMIT VMM_FREE_TYPE_RELEASE" "IsBooleanFlagOn VMM_FREE_TYPE_DECOMMIT VMM_FREE_TYPE_DECOMMIT"
    by (simp_all add: IsBooleanFlagOn_def)
  note upd = update_slot [OF inv(1) assms(2) b(2) i(2)]
  have "VmReservationSpaceFreeRegion cpu pCpu sp a Size VMM_FREE_TYPE_DECOMMIT =
      Some (p, n, [], cpu, map_option (\<lambda>_. False) pCpu, sp\<lparr>Reservations := ?rs[i := ?r]\<rparr>)"
    using find_in_region [OF inv(1) assms(2,4), of "?l\<lparr>ActiveWriter := 1\<rparr>"] i(1) rw_section(1) [OF inv(2)] rw_restore(1) [OF inv(2)] b(1) fl assms(3)
    by (simp add: VmReservationSpaceFreeRegion_def Let_def bind_ASSERT option.map_comp comp_def assms(5,6)[symmetric])
  then show ?thesis using upd b(3) inv(2) by (intro exI [of _ "sp\<lparr>Reservations := ?rs[i := ?r]\<rparr>"] exI [of _ b] exI [of _ ?r]) (simp add: space_ok_def)
qed

text \<open>Releasing leaves the other regions where they are, below the next free address if they were.\<close>

lemma release_inv:
  assumes "space_inv sp" and "active (Reservations sp) i" and "a \<in> covers (Reservations sp ! i)"
  shows "\<exists>sp'. VmReservationSpaceFreeRegion cpu pCpu sp a 0 VMM_FREE_TYPE_RELEASE =
      Some (StartVa (Reservations sp ! i), ReservationSize (Reservations sp ! i),
        MmuUnmapMemory (CommitBitmapAddress (Reservations sp ! i)) (BufferSize (CommitBitmap (Reservations sp ! i)))
          # (if BackingFile (Reservations sp ! i) \<noteq> NULL then [IoCloseFile (BackingFile (Reservations sp ! i))] else []),
        cpu, map_option (\<lambda>_. False) pCpu, sp')
    \<and> space_inv sp' \<and> regions sp' = regions sp - {region_of (Reservations sp ! i)}"
  using free_release_ok [OF space_invD(3) [OF assms(1)] assms(2,3), of cpu pCpu] space_invD(4) [OF assms(1)]
  by (auto simp: space_inv_def below_free_regions)

section \<open>Accesses\<close>

text \<open>Access to a set of addresses is granted by a region that has committed all of them, with sufficient rights.\<close>

definition granted :: "VMM_RESERVATION_SPACE \<Rightarrow> PAGE_RIGHTS \<Rightarrow> ptr set \<Rightarrow> bool" where
  "granted sp q A = (\<exists>p n rights uc file C. (p, n, rights, uc, file, C) \<in> regions sp \<and> A \<subseteq> C \<and> IsBooleanFlagOn rights q)"

lemma granted_iff:
  assumes "slots_inv sp" and "active (Reservations sp) i" and "a \<in> A" and "a \<in> covers (Reservations sp ! i)"
  shows "granted sp q A \<longleftrightarrow> A \<subseteq> committed (Reservations sp ! i) \<and> IsBooleanFlagOn (PageRights (Reservations sp ! i)) q"
proof
  let ?rs = "Reservations sp"
  assume "granted sp q A"
  then obtain p n rights uc f C where R: "(p, n, rights, uc, f, C) \<in> regions sp" "A \<subseteq> C" "IsBooleanFlagOn rights q"
    by (auto simp: granted_def)
  from R(1) obtain j where j: "active ?rs j" "region_of (?rs ! j) = (p, n, rights, uc, f, C)" by (auto simp: regions_def)
  then have "a \<in> covers (?rs ! j)" using R(2) assms(3) by (auto simp: region_of_def committed_def)
  then have "j = i" using assms j(1) unfolding slots_inv_def slots_ok_def by blast
  then show "A \<subseteq> committed (?rs ! i) \<and> IsBooleanFlagOn (PageRights (?rs ! i)) q" using R j by (simp add: region_of_def)
next
  assume "A \<subseteq> committed (Reservations sp ! i) \<and> IsBooleanFlagOn (PageRights (Reservations sp ! i)) q"
  moreover have "region_of (Reservations sp ! i) \<in> regions sp" using assms(2) by (auto simp: regions_def)
  ultimately show "granted sp q A" unfolding granted_def region_of_def by blast
qed

lemma not_granted:
  assumes "\<And>i. active (Reservations sp) i \<Longrightarrow> \<not> A \<subseteq> covers (Reservations sp ! i)"
  shows "\<not> granted sp q A"
  using assms by (fastforce simp: granted_def regions_def region_of_def committed_def)

lemma SUCCEEDED_NOT_FOUND [simp]: "\<not> SUCCEEDED STATUS_ELEMENT_NOT_FOUND"
  by (simp add: SUCCEEDED_def FAIL_MASK_def)

lemma can_access_ok:
  assumes "space_ok sp" and "CpuIntr cpu = INTR_OFF" and "a \<noteq> NULL" and "a \<noteq> MAX_QWORD"
    and "\<not> CHECK_BOUNDS a 1 (ReservationList sp) (ReservedAreaSize sp)"
  shows "\<exists>d. VmReservationCanAddressBeAccessed cpu pCpu sp a q = Some (d, cpu, sp) \<and> (d \<noteq> None \<longleftrightarrow> granted sp q {a})
    \<and> (\<forall>D. d = Some D \<longrightarrow> (\<exists>p n C. (p, n, MemoryRights D, PageUncacheable D, PageFile D, C) \<in> regions sp \<and> a \<in> C
      \<and> IsBooleanFlagOn (MemoryRights D) q \<and> FileOffset D = (if PageFile D \<noteq> NULL then AlignAddressLower (a - p) PAGE_SIZE else 0)))"
proof -
  let ?rs = "Reservations sp" and ?l = "ReservationLock sp"
  note inv = space_okD [OF assms(1)]
  note sec = rw_section(2) [OF inv(2), of cpu] rw_restore(2) [OF inv(2), of cpu]
  have cpu: "cpu\<lparr>CpuIntr := INTR_OFF\<rparr> = cpu" using assms(2) by simp
  consider (found) i where "active ?rs i" "a \<in> covers (?rs ! i)" | (none) "\<forall>i. active ?rs i \<longrightarrow> a \<notin> covers (?rs ! i)" by blast
  then show ?thesis
  proof cases
    case (found i)
    let ?r = "?rs ! i"
    have i: "i < length ?rs" using found by (simp add: active_def)
    have mem: "region_of ?r \<in> regions sp" using found by (auto simp: regions_def)
    have acc: "granted sp q {a} \<longleftrightarrow> a \<in> committed ?r \<and> IsBooleanFlagOn (PageRights ?r) q"
      using granted_iff [OF inv(1) found(1) _ found(2), of "{a}" q] by simp
    let ?D = "\<lparr>MemoryRights = PageRights ?r, PageUncacheable = Uncacheable ?r, PageFile = BackingFile ?r,
      FileOffset = (if BackingFile ?r \<noteq> NULL then AlignAddressLower (a - StartVa ?r) PAGE_SIZE else 0)\<rparr>"
    have "VmReservationCanAddressBeAccessed cpu pCpu sp a q =
        Some (if a \<in> committed ?r \<and> IsBooleanFlagOn (PageRights ?r) q then Some ?D else None, cpu, sp)"
      using find_in_region [OF inv(1) found, of "?l\<lparr>ActiveReaders := 1\<rparr>"] VmIsVaCommited_ok [OF slots_inv_active [OF inv(1) found(1)] found(2)]
        i sec cpu assms(2,3,5) by (simp add: VmReservationCanAddressBeAccessed_def Let_def bind_ASSERT CpuIntrGetState_def)
    moreover have "\<exists>p n C. (p, n, MemoryRights ?D, PageUncacheable ?D, PageFile ?D, C) \<in> regions sp \<and> a \<in> C
      \<and> IsBooleanFlagOn (MemoryRights ?D) q \<and> FileOffset ?D = (if PageFile ?D \<noteq> NULL then AlignAddressLower (a - p) PAGE_SIZE else 0)"
      if "a \<in> committed ?r" "IsBooleanFlagOn (PageRights ?r) q"
      using mem that by (intro exI [of _ "StartVa ?r"] exI [of _ "ReservationSize ?r"] exI [of _ "committed ?r"]) (simp add: region_of_def)
    ultimately show ?thesis using acc by auto
  next
    case none
    then have "VmFindReservation (sp\<lparr>ReservationLock := ?l\<lparr>ActiveReaders := 1\<rparr>\<rparr>) a 1 = Some (STATUS_ELEMENT_NOT_FOUND, None)"
      using find_address [of "sp\<lparr>ReservationLock := ?l\<lparr>ActiveReaders := 1\<rparr>\<rparr>" a] slots_inv_ok [OF inv(1)] assms(3,4) by auto
    then have "VmReservationCanAddressBeAccessed cpu pCpu sp a q = Some (None, cpu, sp)"
      using sec cpu assms(2,3,5) by (simp add: VmReservationCanAddressBeAccessed_def Let_def bind_ASSERT CpuIntrGetState_def)
    moreover have "\<not> granted sp q {a}" using none by (intro not_granted) auto
    ultimately show ?thesis by simp
  qed
qed

text \<open>The loop over a buffer looks at one address in every 4096 bytes.\<close>

lemma return_rights_loop:
  assumes "reservation_inv r" and "va_range a n \<subseteq> covers r" and "n \<noteq> 0" and "unat a + unat n < 2 ^ 64" and "4096 * k < 2 ^ 45"
  shows "VmReturnRights_loop r a n (of_nat (4096 * k)) = Some (\<forall>j \<ge> k. 4096 * j < unat n \<longrightarrow> a + of_nat (4096 * j) \<in> committed r)"
  using assms(5)
proof (induction "unat n - 4096 * k" arbitrary: k rule: less_induct)
  case less
  have n: "unat n < 2 ^ 44"
    using reservation_pages(2) [OF assms(1)] va_range_subset [OF assms(3,4)] assms(2) by (simp add: covers_def)
  have u: "unat (of_nat (4096 * k) :: QWORD) = 4096 * k" using less.prems by (subst unat_of_nat) simp
  show ?case
  proof (cases "4096 * k < unat n")
    case False
    then have "\<not> (of_nat (4096 * k) :: QWORD) < n" using u by (simp add: word_less_nat_alt)
    moreover have "\<forall>j \<ge> k. \<not> 4096 * j < unat n" using False by auto
    ultimately show ?thesis by (subst VmReturnRights_loop.simps) simp
  next
    case True
    then have lt: "(of_nat (4096 * k) :: QWORD) < n" using u by (simp add: word_less_nat_alt)
    have "unat (a + of_nat (4096 * k)) = unat a + 4096 * k"
      using u True assms(4) by (subst unat_plus_if_small) auto
    then have "a + of_nat (4096 * k) \<in> covers r" using assms(2) True by (auto simp: va_range_def)
    then have v: "VmIsVaCommited r (a + of_nat (4096 * k)) = Some (a + of_nat (4096 * k) \<in> committed r)"
      by (rule VmIsVaCommited_ok [OF assms(1)])
    have next_k: "(of_nat (4096 * k) :: QWORD) + PAGE_SIZE = of_nat (4096 * Suc k)" by simp
    have "VmReturnRights_loop r a n (of_nat (4096 * Suc k)) = Some (\<forall>j \<ge> Suc k. 4096 * j < unat n \<longrightarrow> a + of_nat (4096 * j) \<in> committed r)"
      using True n by (intro less.hyps) auto
    moreover have "(\<forall>j \<ge> k. P j) \<longleftrightarrow> P k \<and> (\<forall>j \<ge> Suc k. P j)" for P by (metis Suc_leD not_less_eq_eq order_antisym order_refl)
    ultimately show ?thesis
      using lt v True by (subst VmReturnRights_loop.simps) (simp add: next_k del: of_nat_mult of_nat_Suc)
  qed
qed

lemma pages_suffice:
  assumes "reservation_inv r" and "va_range a n \<subseteq> covers r" and "n \<noteq> 0" and "unat a + unat n < 2 ^ 64"
    and "unat a mod 4096 = 0 \<or> unat a mod 4096 + unat n \<le> 4096"
  shows "(\<forall>j \<ge> 0. 4096 * j < unat n \<longrightarrow> a + of_nat (4096 * j) \<in> committed r) \<longleftrightarrow> va_range a n \<subseteq> committed r"
proof
  have step: "unat (a + of_nat (4096 * j)) = unat a + 4096 * j" if "4096 * j < unat n" for j
  proof -
    have "unat (of_nat (4096 * j) :: QWORD) = 4096 * j" using that assms(4) by (subst unat_of_nat) simp
    with that assms(4) show ?thesis by (subst unat_plus_if_small) auto
  qed
  {
    assume sub: "va_range a n \<subseteq> committed r"
    show "\<forall>j \<ge> 0. 4096 * j < unat n \<longrightarrow> a + of_nat (4096 * j) \<in> committed r"
    proof (intro allI impI)
      fix j :: nat assume j: "4096 * j < unat n"
      then have "a + of_nat (4096 * j) \<in> va_range a n" using step [OF j] by (simp add: va_range_def)
      then show "a + of_nat (4096 * j) \<in> committed r" using sub by blast
    qed
  next
    assume all: "\<forall>j \<ge> 0. 4096 * j < unat n \<longrightarrow> a + of_nat (4096 * j) \<in> committed r"
    show "va_range a n \<subseteq> committed r"
    proof
      fix x assume x: "x \<in> va_range a n"
      define d where "d = unat x - unat a"
      have d: "unat x = unat a + d" "d < unat n" using x by (auto simp: d_def va_range_def)
      have s: "unat (StartVa r) \<le> unat a" using assms(2) va_range_subset [OF assms(3,4)] by (simp add: covers_def)
      define m where "m = unat a mod 4096"
      obtain e where e: "unat a = unat (StartVa r) + e" using s le_Suc_ex by blast
      then have "(unat a - unat (StartVa r)) mod 4096 = m"
        using assms(1) mod_add_left_eq [of "unat (StartVa r)" 4096 e] by (simp add: m_def reservation_inv_def)
      then obtain i where i: "unat a - unat (StartVa r) = 4096 * i + m" by (metis mult_div_mod_eq)
      define j where "j = (if m = 0 then d div 4096 else 0)"
      have j: "4096 * j < unat n" using d(2) by (auto simp: j_def)
      have "(4096 * i + m + d) div 4096 = (4096 * i + m + 4096 * j) div 4096"
        using assms(5) d(2) unfolding m_def [symmetric] by (auto simp: j_def add.assoc)
      moreover have "unat a + d - unat (StartVa r) = 4096 * i + m + d" "unat a + 4096 * j - unat (StartVa r) = 4096 * i + m + 4096 * j"
        using i s by linarith+
      ultimately have "page_of r x = page_of r (a + of_nat (4096 * j))" using d(1) unfolding page_of_def step [OF j] by simp
      moreover have "a + of_nat (4096 * j) \<in> committed r" using all j by blast
      ultimately show "x \<in> committed r" using x assms(2) by (auto simp: committed_def)
    qed
  }
qed

lemma buffer_valid_ok:
  assumes "space_ok sp" and "a \<noteq> NULL" and "n \<noteq> 0" and "unat a + unat n < 2 ^ 64"
    and "unat a mod 4096 = 0 \<or> unat a mod 4096 + unat n \<le> 4096"
  shows "\<exists>st. VmmIsBufferValid cpu sp a n q KernelAccess = Some (st, cpu, sp)
    \<and> (st = STATUS_SUCCESS \<longleftrightarrow> (KernelAccess \<or> \<not> VmIsKernelAddress a \<and> \<not> VmIsKernelAddress (a + (n - 1)))
      \<and> granted sp q (va_range a n))"
proof -
  let ?rs = "Reservations sp" and ?l = "ReservationLock sp"
  note inv = space_okD [OF assms(1)]
  note sec = rw_section(2) [OF inv(2), of cpu] rw_restore(2) [OF inv(2), of cpu]
  have fail: "\<not> SUCCEEDED STATUS_MEMORY_IS_NOT_COMMITED" by (simp add: SUCCEEDED_def FAIL_MASK_def)
  have ne: "a \<in> va_range a n" by (rule va_range_nonempty [OF assms(3)])
  show ?thesis
  proof (cases "\<not> KernelAccess \<and> (VmIsKernelAddress a \<or> VmIsKernelAddress (a + (n - 1)))")
    case True
    then show ?thesis using assms(2,3) by (auto simp: VmmIsBufferValid_def VmIsKernelRange_def)
  next
    case False
    then have kr: "(if KernelAccess then Some False else VmIsKernelRange a n) = Some False" using assms(3) by (auto simp: VmIsKernelRange_def)
    let ?sp = "sp\<lparr>ReservationLock := ?l\<lparr>ActiveReaders := 1\<rparr>\<rparr>"
    consider (found) i where "VmFindReservation ?sp a n = Some (STATUS_SUCCESS, Some i)" "active ?rs i" "va_range a n \<subseteq> covers (?rs ! i)"
      | (none) "VmFindReservation ?sp a n = Some (STATUS_ELEMENT_NOT_FOUND, None)" "\<forall>i. active ?rs i \<longrightarrow> \<not> va_range a n \<subseteq> covers (?rs ! i)"
      using find_range [of ?sp a n] slots_inv_ok [OF inv(1)] assms(2-4) by auto
    then show ?thesis
    proof cases
      case none
      then have "VmmIsBufferValid cpu sp a n q KernelAccess = Some (STATUS_MEMORY_IS_NOT_COMMITED, cpu, sp)"
        using assms(2,3) kr sec fail by (simp add: VmmIsBufferValid_def VmReservationReturnRightsForAddress_def Let_def)
      moreover have "\<not> granted sp q (va_range a n)" using none(2) by (intro not_granted) blast
      ultimately show ?thesis by auto
    next
      case (found i)
      let ?r = "?rs ! i"
      have i: "i < length ?rs" using found by (simp add: active_def)
      have r: "reservation_inv ?r" by (rule slots_inv_active [OF inv(1) found(2)])
      have lp: "VmReturnRights_loop ?r a n 0 = Some (va_range a n \<subseteq> committed ?r)"
        using return_rights_loop [OF r found(3) assms(3,4), of 0] pages_suffice [OF r found(3) assms(3-5)] by simp
      have ex: "granted sp q (va_range a n) \<longleftrightarrow> va_range a n \<subseteq> committed ?r \<and> IsBooleanFlagOn (PageRights ?r) q"
        using granted_iff [OF inv(1) found(2) ne] found(3) ne by blast
      have "VmmIsBufferValid cpu sp a n q KernelAccess = Some (if \<not> va_range a n \<subseteq> committed ?r then STATUS_MEMORY_IS_NOT_COMMITED
          else if \<not> IsBooleanFlagOn (PageRights ?r) q then STATUS_MEMORY_INSUFFICIENT_ACCESS_RIGHTS else STATUS_SUCCESS, cpu, sp)"
        using assms(2,3) kr sec fail found(1) i lp by (simp add: VmmIsBufferValid_def VmReservationReturnRightsForAddress_def Let_def)
      then show ?thesis unfolding ex using False by auto
    qed
  qed
qed

section \<open>Requests that are refused\<close>

definition region_over :: "VMM_RESERVATION_SPACE \<Rightarrow> ptr \<Rightarrow> QWORD \<Rightarrow> PAGE_RIGHTS \<Rightarrow> bool \<Rightarrow> bool" where
  "region_over sp p n rights uc = (\<exists>s k file C. (s, k, rights, uc, file, C) \<in> regions sp \<and> va_range p n \<subseteq> va_range s k)"

lemma region_over_active:
  "region_over sp p n rights uc \<longleftrightarrow> (\<exists>i. active (Reservations sp) i \<and> va_range p n \<subseteq> covers (Reservations sp ! i)
    \<and> PageRights (Reservations sp ! i) = rights \<and> Uncacheable (Reservations sp ! i) = uc)"
  unfolding region_over_def regions_def region_of_def covers_def by (simp add: image_iff) blast

text \<open>An error of the change of the state is the error of the request, and the space is as before.\<close>

lemma alloc_refused:
  assumes "space_ok sp" and "Size \<noteq> 0" and "base \<noteq> NULL" and "p = AlignAddressLower base PAGE_SIZE"
    and "n = AlignAddressUpper (Size + (base - p)) PAGE_SIZE" and "StartOfVirtualAddressSpace sp \<le> p" and "\<not> SUCCEEDED st"
    and "k = (if IsBooleanFlagOn t VMM_ALLOC_TYPE_RESERVE then VMM_ALLOC_TYPE_RESERVE else VMM_ALLOC_TYPE_COMMIT)"
    and "IsBooleanFlagOn t VMM_ALLOC_TYPE_RESERVE \<or> IsBooleanFlagOn t VMM_ALLOC_TYPE_COMMIT"
    and "VmChangeVaReservationState (sp\<lparr>ReservationLock := (ReservationLock sp)\<lparr>ActiveWriter := 1\<rparr>\<rparr>) p n k rights uc file =
      Some (st, sp\<lparr>ReservationLock := (ReservationLock sp)\<lparr>ActiveWriter := 1\<rparr>\<rparr>)"
  shows "VmReservationSpaceAllocRegion cpu pCpu sp base Size t rights uc file = Some (st, None, cpu, map_option (\<lambda>_. False) pCpu, sp)"
proof -
  note inv = space_okD [OF assms(1)]
  have "IsFlagOn t (VMM_ALLOC_TYPE_COMMIT OR VMM_ALLOC_TYPE_RESERVE)" by (rule alloc_type_flag [OF assms(9)])
  then show ?thesis
    using assms(2,3,7-10) rw_section(1) [OF inv(2)] rw_restore(1) [OF inv(2)]
    by (cases "IsBooleanFlagOn t VMM_ALLOC_TYPE_RESERVE")
      (simp_all add: VmReservationSpaceAllocRegion_def Let_def bind_ASSERT assms(4,5)[symmetric] leD [OF assms(6)] option.map_comp comp_def)
qed

lemma memory_errors [simp]:
  "\<not> SUCCEEDED STATUS_MEMORY_IS_NOT_RESERVED" "\<not> SUCCEEDED STATUS_MEMORY_ALREADY_RESERVED"
  "\<not> SUCCEEDED STATUS_MEMORY_CONFLICTING_ACCESS_RIGHTS" "\<not> SUCCEEDED STATUS_MEMORY_CONFLICTING_CACHEABILITY"
  by (simp_all add: SUCCEEDED_def FAIL_MASK_def)

text \<open>The state of a range that is to be reserved or committed, up to the first error.\<close>

lemma change_state_refused:
  assumes "slots_inv sp" and "p \<noteq> NULL" and "n \<noteq> 0" and "unat p mod 4096 = 0" and "unat n mod 4096 = 0" and "unat p + unat n < 2 ^ 64"
  shows "region_over sp p n r u \<Longrightarrow> VmChangeVaReservationState sp p n VMM_ALLOC_TYPE_RESERVE rights uc file = Some (STATUS_MEMORY_ALREADY_RESERVED, sp)"
    and "\<not> (\<exists>r u. region_over sp p n r u) \<Longrightarrow>
      VmChangeVaReservationState sp p n VMM_ALLOC_TYPE_COMMIT rights uc file = Some (STATUS_MEMORY_IS_NOT_RESERVED, sp)"
    and "region_over sp p n r u \<Longrightarrow> r \<noteq> rights \<Longrightarrow>
      VmChangeVaReservationState sp p n VMM_ALLOC_TYPE_COMMIT rights uc file = Some (STATUS_MEMORY_CONFLICTING_ACCESS_RIGHTS, sp)"
    and "region_over sp p n rights u \<Longrightarrow> u \<noteq> uc \<Longrightarrow>
      VmChangeVaReservationState sp p n VMM_ALLOC_TYPE_COMMIT rights uc file = Some (STATUS_MEMORY_CONFLICTING_CACHEABILITY, sp)"
proof -
  note ch = VmChangeVaReservationState_def bind_ASSERT IsAddressAligned_page
  have in_region: "\<exists>i < length (Reservations sp). VmFindReservation sp p n = Some (STATUS_SUCCESS, Some i)
      \<and> PageRights (Reservations sp ! i) = r \<and> Uncacheable (Reservations sp ! i) = u" if "region_over sp p n r u" for r u
  proof -
    from that obtain i where "active (Reservations sp) i" "va_range p n \<subseteq> covers (Reservations sp ! i)"
      "PageRights (Reservations sp ! i) = r" "Uncacheable (Reservations sp ! i) = u" by (auto simp: region_over_active)
    with find_range_in [OF slots_inv_ok [OF assms(1)] assms(2,3,6)] show ?thesis by (auto simp: active_def)
  qed
  show "region_over sp p n r u \<Longrightarrow> VmChangeVaReservationState sp p n VMM_ALLOC_TYPE_RESERVE rights uc file = Some (STATUS_MEMORY_ALREADY_RESERVED, sp)"
    using in_region [of r u] assms(2-5) by (auto simp: ch)
  show "region_over sp p n r u \<Longrightarrow> r \<noteq> rights \<Longrightarrow>
      VmChangeVaReservationState sp p n VMM_ALLOC_TYPE_COMMIT rights uc file = Some (STATUS_MEMORY_CONFLICTING_ACCESS_RIGHTS, sp)"
    using in_region [of r u] assms(2-5) by (auto simp: ch)
  show "region_over sp p n rights u \<Longrightarrow> u \<noteq> uc \<Longrightarrow>
      VmChangeVaReservationState sp p n VMM_ALLOC_TYPE_COMMIT rights uc file = Some (STATUS_MEMORY_CONFLICTING_CACHEABILITY, sp)"
    using in_region [of rights u] assms(2-5) by (auto simp: ch)
  assume "\<not> (\<exists>r u. region_over sp p n r u)"
  then have "VmFindReservation sp p n = Some (STATUS_ELEMENT_NOT_FOUND, None)"
    using find_range [OF slots_inv_ok [OF assms(1)] assms(2,3,6)] by (auto simp: region_over_active)
  then show "VmChangeVaReservationState sp p n VMM_ALLOC_TYPE_COMMIT rights uc file = Some (STATUS_MEMORY_IS_NOT_RESERVED, sp)"
    using assms(2-5) by (simp add: ch)
qed

section \<open>A space over its life\<close>

text \<open>
  The requests of the clients of a space, each at any processor and with any attributes, in any order. What the
  code does not check is up to the client: a range that is to be reserved must not overlap a region in part
  (\<open>reserve_accepts_overlap\<close>), the pages that are taken back belong to one region, and a slot is left, so that
  nothing is written behind the array.
\<close>

inductive vm_step :: "VMM_RESERVATION_SPACE \<Rightarrow> VMM_RESERVATION_SPACE \<Rightarrow> bool" where
  reserve: "VmReservationSpaceAllocRegion cpu pCpu sp base Size t rights uc file = Some (st, res, cpu', pCpu', sp') \<Longrightarrow>
    IsBooleanFlagOn t VMM_ALLOC_TYPE_RESERVE \<Longrightarrow>
    unat (if base = NULL then FreeVirtualAddressPointer sp else base) + unat Size + 4095 < 2 ^ 64 \<Longrightarrow> requested sp base Size = (p, n, F) \<Longrightarrow>
    unused sp p n \<or> (\<exists>r u. region_over sp p n r u) \<Longrightarrow> \<not> Overrun sp' \<Longrightarrow> vm_step sp sp'"
| commit: "VmReservationSpaceAllocRegion cpu pCpu sp base Size t rights uc file = Some (st, res, cpu', pCpu', sp') \<Longrightarrow> base \<noteq> NULL \<Longrightarrow>
    \<not> IsBooleanFlagOn t VMM_ALLOC_TYPE_RESERVE \<Longrightarrow> unat base + unat Size + 4095 < 2 ^ 64 \<Longrightarrow> vm_step sp sp'"
| decommit: "VmReservationSpaceFreeRegion cpu pCpu sp a Size VMM_FREE_TYPE_DECOMMIT = Some (p, n, effects, cpu', pCpu', sp') \<Longrightarrow>
    (s, k, rights, uc, file, C) \<in> regions sp \<Longrightarrow> va_range a Size \<subseteq> va_range s k \<Longrightarrow> unat a + unat Size + 4095 < 2 ^ 64 \<Longrightarrow> vm_step sp sp'"
| release: "VmReservationSpaceFreeRegion cpu pCpu sp a 0 VMM_FREE_TYPE_RELEASE = Some (p, n, effects, cpu', pCpu', sp') \<Longrightarrow>
    a \<noteq> MAX_QWORD \<Longrightarrow> vm_step sp sp'"
| fault: "VmReservationCanAddressBeAccessed cpu pCpu sp a q = Some (d, cpu', sp') \<Longrightarrow> a \<noteq> MAX_QWORD \<Longrightarrow> vm_step sp sp'"

lemma aligned_inside:
  assumes "reservation_inv r" and "Size \<noteq> 0" and "p = AlignAddressLower a PAGE_SIZE" and "n = AlignAddressUpper (Size + (a - p)) PAGE_SIZE"
    and "unat a + unat Size + 4095 < 2 ^ 64" and "va_range a Size \<subseteq> covers r"
  shows "va_range p n \<subseteq> covers r"
proof -
  note req = aligned_request [OF assms(2-5)]
  have a: "unat (StartVa r) \<le> unat a" "unat a + unat Size \<le> unat (StartVa r) + unat (ReservationSize r)"
    using va_range_subset [of Size a "StartVa r" "ReservationSize r"] assms(2,5,6) by (simp_all add: covers_def)
  have p: "unat p = unat a div 4096 * 4096" using assms(3) by (simp add: AlignAddressLower_page)
  obtain c where c: "unat (StartVa r) = 4096 * c" using assms(1) by (auto simp: reservation_inv_def mod_eq_0_iff_dvd)
  obtain d where d: "unat (ReservationSize r) = 4096 * d" using assms(1) by (auto simp: reservation_inv_def mod_eq_0_iff_dvd)
  obtain m where m: "unat n = 4096 * m" using req(4) by (auto simp: mod_eq_0_iff_dvd)
  have "c \<le> unat a div 4096" using a(1) c by (simp add: less_eq_div_iff_mult_less_eq mult.commute)
  moreover have "unat n \<le> unat Size + unat a mod 4096 + 4095"
  proof -
    have off: "unat (a - p) = unat a mod 4096" using p by (simp add: unat_sub word_le_nat_alt minus_div_mult_eq_mod)
    have "unat (Size + (a - p)) = unat Size + unat a mod 4096"
      using assms(5) off mod_less_eq_dividend [of "unat a" 4096] by (subst unat_plus_if_small) auto
    then show ?thesis using AlignAddressUpper_page [of "Size + (a - p)"] assms(4,5) mod_less_eq_dividend [of "unat a" 4096] by simp
  qed
  then have "unat p + unat n < unat a + unat Size + 4096" using p div_mult_mod_eq [of "unat a" 4096] by linarith
  then have "4096 * (unat a div 4096 + m) < 4096 * (c + d + 1)" using a(2) c d m p by simp
  then have "unat a div 4096 + m \<le> c + d" by simp
  ultimately show ?thesis using c d m p by (subst covers_def, subst va_range_subset [OF req(1,2)]) simp
qed

inductive_cases vm_stepE: "vm_step sp sp'"

lemma commit_step_inv:
  assumes "VmReservationSpaceAllocRegion cpu pCpu sp base Size t rights uc file = Some (st, res, cpu', pCpu', sp')" and "space_ok sp"
    and "base \<noteq> NULL" and "\<not> IsBooleanFlagOn t VMM_ALLOC_TYPE_RESERVE" and "unat base + unat Size + 4095 < 2 ^ 64"
  shows "space_ok sp'"
proof -
  define p where "p = AlignAddressLower base PAGE_SIZE"
  define n where "n = AlignAddressUpper (Size + (base - p)) PAGE_SIZE"
  note inv = space_okD [OF assms(2)]
  have sz: "Size \<noteq> 0" using assms(1) by (auto simp: VmReservationSpaceAllocRegion_def bind_ASSERT split: if_splits)
  note req = aligned_request [OF sz p_def n_def assms(5)]
  let ?sp = "sp\<lparr>ReservationLock := (ReservationLock sp)\<lparr>ActiveWriter := 1\<rparr>\<rparr>"
  consider (below) "p < StartOfVirtualAddressSpace sp" | (none) "\<not> IsBooleanFlagOn t VMM_ALLOC_TYPE_COMMIT"
    | (null) "\<not> p < StartOfVirtualAddressSpace sp" "IsBooleanFlagOn t VMM_ALLOC_TYPE_COMMIT" "p = NULL"
    | (some) "\<not> p < StartOfVirtualAddressSpace sp" "IsBooleanFlagOn t VMM_ALLOC_TYPE_COMMIT" "p \<noteq> NULL" by blast
  then show ?thesis
  proof cases
    case below
    with assms show ?thesis by (auto simp: VmReservationSpaceAllocRegion_def bind_ASSERT Let_def p_def [symmetric] split: if_splits)
  next
    case none
    with assms rw_section(1) [OF inv(2), of cpu] rw_restore(1) [OF inv(2), of cpu] show ?thesis
      by (auto simp: VmReservationSpaceAllocRegion_def bind_ASSERT Let_def split: if_splits)
  next
    case null
    with assms rw_section(1) [OF inv(2), of cpu] show ?thesis
      by (auto simp: VmReservationSpaceAllocRegion_def bind_ASSERT Let_def p_def [symmetric] VmChangeVaReservationState_def split: if_splits)
  next
    case some
    have over: "region_over ?sp p n r u = region_over sp p n r u" for r u by (simp add: region_over_active)
    note ref = change_state_refused [of ?sp p n, unfolded over, OF _ some(3) req(1,3,4,2)]
    note result = alloc_refused [OF assms(2) sz assms(3) p_def n_def _ _ _ _, of _ VMM_ALLOC_TYPE_COMMIT t rights uc "file" cpu pCpu]
    consider (not_reserved) "\<not> (\<exists>r u. region_over sp p n r u)" | (rights) r u where "region_over sp p n r u" "r \<noteq> rights"
      | (caching) u where "region_over sp p n rights u" "u \<noteq> uc" | (ok) "region_over sp p n rights uc" by blast
    then show ?thesis
    proof cases
      case ok
      then obtain i where i: "active (Reservations sp) i" "va_range p n \<subseteq> covers (Reservations sp ! i)"
        "PageRights (Reservations sp ! i) = rights" "Uncacheable (Reservations sp ! i) = uc" by (auto simp: region_over_active)
      from alloc_commit_ok [OF assms(2) sz assms(4) some(2) assms(3) p_def n_def assms(5) _ i, of cpu pCpu "file"] some(1) assms(1)
      show ?thesis by auto
    qed (use ref result inv(1) some assms(1,2,4) in \<open>auto simp: not_less\<close>)
  qed
qed

lemma reserve_step_inv:
  assumes "VmReservationSpaceAllocRegion cpu pCpu sp base Size t rights uc file = Some (st, res, cpu', pCpu', sp')" and "space_ok sp"
    and "IsBooleanFlagOn t VMM_ALLOC_TYPE_RESERVE" and "unat (if base = NULL then FreeVirtualAddressPointer sp else base) + unat Size + 4095 < 2 ^ 64"
    and "requested sp base Size = (p, n, F)" and "unused sp p n \<or> (\<exists>r u. region_over sp p n r u)" and "\<not> Overrun sp'"
  shows "space_ok sp'"
proof (cases "base \<noteq> NULL \<and> p < StartOfVirtualAddressSpace sp")
  case True
  then have "p = AlignAddressLower base PAGE_SIZE" using assms(5) by (auto simp: requested_def Let_def)
  with True assms(1,2) show ?thesis by (auto simp: VmReservationSpaceAllocRegion_def bind_ASSERT Let_def split: if_splits)
next
  case False
  then have start: "base \<noteq> NULL \<Longrightarrow> StartOfVirtualAddressSpace sp \<le> p" by auto
  have sz: "Size \<noteq> 0" using assms(1) by (auto simp: VmReservationSpaceAllocRegion_def bind_ASSERT split: if_splits)
  note inv = space_okD [OF assms(2)]
  note pg = request_pages [OF inv(1) sz assms(5,4)] and eq = alloc_request [OF assms(2) sz assms(3,5) start, of cpu pCpu rights uc "file"]
  have p0: "p \<noteq> NULL" using assms(1) eq by (auto simp: VmChangeVaReservationState_def bind_ASSERT split: if_splits)
  show ?thesis
  proof (cases "unused sp p n")
    case True
    note req = sz assms(3,5,4) p0 start True
    have "unat n div 4096 \<le> 0xFFFFFFFF \<and> bitmap_room sp n"
      using alloc_reserve_halts [OF assms(2) req, of cpu pCpu rights uc "file"] assms(1) by auto
    then show ?thesis using alloc_reserve_ok [OF assms(2) req, of cpu pCpu rights uc "file"] assms(1,7) by auto
  next
    case False
    then obtain r u where "region_over (held sp F) p n r u" using assms(6) by (auto simp: region_over_active)
    from change_state_refused(1) [OF slots_inv_held [OF inv(1) pg(5,6)] p0 pg(1,3,2,4) this] eq rw_restore(1) [OF inv(2), of cpu] assms(1)
    have "sp' = sp\<lparr>FreeVirtualAddressPointer := F\<rparr>" by simp
    with inv pg(5,6) show ?thesis by (simp add: space_ok_def slots_inv_def)
  qed
qed

lemma vm_step_inv:
  assumes "vm_step sp sp'" and "space_ok sp"
  shows "space_ok sp'"
  using assms
proof cases
  case (reserve cpu pCpu base Size t rights uc f st res cpu' pCpu' p n F)
  then show ?thesis using reserve_step_inv assms(2) by blast
next
  case (commit cpu pCpu base Size t rights uc f st res cpu' pCpu')
  then show ?thesis using commit_step_inv assms(2) by blast
next
  case (decommit cpu pCpu a Size p n effects cpu' pCpu' s k rights uc f C)
  have sz: "Size \<noteq> 0"
    using decommit(1) by (auto simp: VmReservationSpaceFreeRegion_def bind_ASSERT IsBooleanFlagOn_def split: if_splits)
  from decommit(2) obtain i where i: "active (Reservations sp) i" "StartVa (Reservations sp ! i) = s" "ReservationSize (Reservations sp ! i) = k"
    by (auto simp: regions_def region_of_def)
  then have sub: "va_range a Size \<subseteq> covers (Reservations sp ! i)" using decommit(3) by (simp add: covers_def)
  note inside = aligned_inside [OF slots_inv_active [OF space_okD(1) [OF assms(2)] i(1)] sz refl refl decommit(4) sub]
  have "a \<in> covers (Reservations sp ! i)" using sub va_range_nonempty [OF sz] by blast
  from free_decommit_ok [OF assms(2) i(1) sz this refl refl decommit(4) inside, of cpu pCpu] decommit(1) show ?thesis by auto
next
  case (release cpu pCpu a p n effects cpu' pCpu')
  note inv = space_okD [OF assms(2)]
  let ?sp = "sp\<lparr>ReservationLock := (ReservationLock sp)\<lparr>ActiveWriter := 1\<rparr>\<rparr>"
  have a: "a \<noteq> NULL" using release(1) by (auto simp: VmReservationSpaceFreeRegion_def bind_ASSERT split: if_splits)
  have "VmFindReservation ?sp a 1 \<noteq> Some (STATUS_ELEMENT_NOT_FOUND, None)"
    using release(1) rw_section(1) [OF inv(2), of cpu] by (auto simp: VmReservationSpaceFreeRegion_def bind_ASSERT Let_def split: if_splits)
  then obtain i where "active (Reservations sp) i" "a \<in> covers (Reservations sp ! i)"
    using find_address [of ?sp a] slots_inv_ok [OF inv(1)] a release(2) by auto
  from free_release_ok [OF assms(2) this, of cpu pCpu] release(1) show ?thesis by auto
next
  case (fault cpu pCpu a q d cpu')
  have off: "CpuIntr cpu = INTR_OFF" using fault(1) by (auto simp: VmReservationCanAddressBeAccessed_def bind_ASSERT CpuIntrGetState_def split: if_splits)
  show ?thesis
  proof (cases "a = NULL \<or> CHECK_BOUNDS a 1 (ReservationList sp) (ReservedAreaSize sp)")
    case True
    with fault(1) assms(2) show ?thesis by (auto simp: VmReservationCanAddressBeAccessed_def bind_ASSERT split: if_splits)
  next
    case False
    then show ?thesis using can_access_ok [OF assms(2) off _ fault(2), of pCpu q] fault(1) assms(2) by auto
  qed
qed

text \<open>A space that was just set up is empty. A fifth of the metadata area is the array, and it has to be whole pages.\<close>

lemma space_init_ok:
  assumes "base \<noteq> NULL" and "unat base mod 4096 = 0" and "msize \<noteq> 0" and "unat msize mod 20480 = 0" and "unat msize * 2000 < 2 ^ 64"
    and "unat base + unat msize + 2 ^ 32 \<le> 2 ^ 64" and "unat start mod 4096 = 0"
  shows "\<exists>sp1 sp2. VmReservationSpaceInit slots base start msize sp = Some sp1 \<and> VmReservationSpaceFinishInit sp1 = Some sp2
    \<and> space_inv sp2 \<and> regions sp2 = {} \<and> FreeVirtualAddressPointer sp2 = (if start = NULL then base + msize else start)"
proof -
  obtain k where k: "unat msize = 20480 * k" using assms(4) by (auto simp: mod_eq_0_iff_dvd)
  have "unat msize \<noteq> 0" using assms(3) by (simp add: unat_eq_zero)
  then have k0: "0 < k" using k by auto
  have m: "unat (msize * 2000) = unat msize * 2000" using assms(5) by (simp add: unat_mult_lem [THEN iffD1])
  have "unat (msize * 2000 div 10000) = 4096 * k" using k m by (simp add: unat_div)
  then have l: "unat (msize * ucast (2000 :: WORD) div 10000) = 4096 * k" by simp
  have "unat (MAX_QWORD div ucast (2000 :: WORD)) = (2 ^ 64 - 1) div 2000" by simp
  then have "MAX_QWORD div ucast (2000 :: WORD) \<ge> msize" using assms(5) unfolding word_le_nat_alt by linarith
  then have pc: "CalculatePercentage msize (20 * 100) = Some (msize * ucast (2000 :: WORD) div 10000)"
    by (simp add: CalculatePercentage_def bind_ASSERT)
  let ?f = "if start = NULL then base + msize else start" and ?b = "base + msize * ucast (2000 :: WORD) div 10000"
  have f: "unat (base + msize) = unat base + unat msize" using assms(6) by (intro unat_plus_if_small) simp
  have fs: "unat ?f mod 4096 = 0" using assms(2,7) f k by (simp add: mod_add_left_eq [symmetric])
  have fn: "?f \<noteq> NULL" using assms(1) f by (auto simp: unat_eq_zero [symmetric])
  have b: "unat ?b = unat base + 4096 * k" using assms(6) k l by (subst unat_plus_if_small) auto
  define rs where "rs = map slots [0..<slots_below (msize * ucast (2000 :: WORD) div 10000)]"
  have len: "0 < length rs" using l k0 by (simp add: rs_def slots_below_def)
  define sp1 where "sp1 = sp\<lparr>ReservationList := base, Reservations := rs, BitmapAddressStart := ?b, FreeBitmapAddress := ?b, FreeVirtualAddressPointer := ?f,
    StartOfVirtualAddressSpace := ?f, ReservedAreaSize := msize, ReservationLock := RwSpinlockInit (ReservationLock sp), Overrun := False\<rparr>"
  define sp2 where "sp2 = sp1\<lparr>Reservations := rs[0 := (rs ! 0)\<lparr>ReservationState := VmmReservationStateLast\<rparr>]\<rparr>"
  have "VmReservationSpaceInit slots base start msize sp = Some sp1"
    using assms(1-3) pc by (simp add: VmReservationSpaceInit_def Let_def bind_ASSERT IsAddressAligned_page rs_def sp1_def)
  moreover have "VmReservationSpaceFinishInit sp1 = Some sp2"
    using len l k0 by (simp add: VmReservationSpaceFinishInit_def VmSetLast_def slot_below_def sp1_def sp2_def)
  moreover have no: "\<not> active (Reservations sp2) i" for i using len by (cases i) (auto simp: active_def sp2_def)
  moreover have "space_inv sp2"
  proof -
    have "metadata_inv sp1" using assms(2,6) b k unfolding metadata_inv_def sp1_def by (simp add: mod_add_left_eq [symmetric] rs_def)
    moreover have "length (Reservations sp1) = length rs" by (simp add: sp1_def)
    ultimately have "metadata_inv sp2" by (simp add: sp2_def)
    moreover have "last_slot (Reservations sp2) 0" using len by (simp add: last_slot_def sp2_def)
    moreover have "FreeVirtualAddressPointer sp2 = ?f" "rw_free (ReservationLock sp2)"
      by (simp_all add: sp1_def sp2_def rw_free_def RwSpinlockInit_def)
    moreover have "\<not> Overrun sp2" by (simp add: sp1_def sp2_def)
    ultimately show ?thesis using fs fn no unfolding space_inv_def space_ok_def slots_inv_def slots_ok_def below_free_def by auto
  qed
  moreover have "FreeVirtualAddressPointer sp2 = ?f" by (simp add: sp1_def sp2_def)
  ultimately show ?thesis by (auto simp: regions_def)
qed

section \<open>The contract of an address space\<close>

text \<open>
  What the clients of a space rely on: a step keeps the invariant, and under the invariant the regions do
  not overlap. Then in every reachable state an address belongs to one region at most.
\<close>

locale address_space =
  fixes inv :: "'s \<Rightarrow> bool" and regs :: "'s \<Rightarrow> region set" and step :: "'s \<Rightarrow> 's \<Rightarrow> bool"
  assumes step_keeps: "inv s \<Longrightarrow> step s s' \<Longrightarrow> inv s'"
    and no_overlap: "inv s \<Longrightarrow> (p, n, r, u, f, C) \<in> regs s \<Longrightarrow> (p', n', r', u', f', C') \<in> regs s
      \<Longrightarrow> (p, n, r, u, f, C) \<noteq> (p', n', r', u', f', C') \<Longrightarrow> va_range p n \<inter> va_range p' n' = {}"
    and committed_inside: "inv s \<Longrightarrow> (p, n, r, u, f, C) \<in> regs s \<Longrightarrow> C \<subseteq> va_range p n"
begin

lemma reachable_inv: "step\<^sup>*\<^sup>* s s' \<Longrightarrow> inv s \<Longrightarrow> inv s'"
  by (induction rule: rtranclp_induct) (auto intro: step_keeps)

lemma committed_once:
  assumes "step\<^sup>*\<^sup>* s s'" and "inv s" and "R \<in> regs s'" and "R' \<in> regs s'" and "a \<in> snd (snd (snd (snd (snd R))))" and "a \<in> snd (snd (snd (snd (snd R'))))"
  shows "R = R'"
proof (rule ccontr)
  obtain p n r u f C where R: "R = (p, n, r, u, f, C)" by (metis prod.exhaust)
  obtain p' n' r' u' f' C' where R': "R' = (p', n', r', u', f', C')" by (metis prod.exhaust)
  assume "R \<noteq> R'"
  with R R' assms(3,4) have "va_range p n \<inter> va_range p' n' = {}" using no_overlap [OF reachable_inv [OF assms(1,2)]] by blast
  moreover have "a \<in> va_range p n" "a \<in> va_range p' n'"
    using assms(3-6) R R' committed_inside [OF reachable_inv [OF assms(1,2)], of p n r u f C]
      committed_inside [OF reachable_inv [OF assms(1,2)], of p' n' r' u' f' C'] by auto
  ultimately show False by blast
qed

end

lemma regions_disjoint:
  assumes "slots_inv sp" and "R \<in> regions sp" and "R' \<in> regions sp" and "R \<noteq> R'"
  shows "va_range (fst R) (fst (snd R)) \<inter> va_range (fst R') (fst (snd R')) = {}"
proof -
  from assms obtain i j where ij: "active (Reservations sp) i" "R = region_of (Reservations sp ! i)" "active (Reservations sp) j" "R' = region_of (Reservations sp ! j)"
    by (auto simp: regions_def)
  then have "i \<noteq> j" using assms(4) by blast
  then have "covers (Reservations sp ! i) \<inter> covers (Reservations sp ! j) = {}" using assms(1) ij unfolding slots_inv_def slots_ok_def by blast
  then show ?thesis using ij by (simp add: region_of_def covers_def)
qed

lemma regions_committed: "(p, n, r, u, f, C) \<in> regions sp \<Longrightarrow> C \<subseteq> va_range p n"
  by (auto simp: regions_def region_of_def committed_def covers_def)

interpretation vm: address_space space_ok regions vm_step
proof
  fix s p n r u f C p' n' r' u' f' C'
  assume "space_ok s" "(p, n, r, u, f, C) \<in> regions s" "(p', n', r', u', f', C') \<in> regions s" "(p, n, r, u, f, C) \<noteq> (p', n', r', u', f', C')"
  from regions_disjoint [OF space_okD(1) [OF this(1)] this(2-4)] show "va_range p n \<inter> va_range p' n' = {}" by simp
qed (auto intro: vm_step_inv dest: regions_committed)

section \<open>Properties\<close>


definition ex_space :: VMM_RESERVATION_SPACE where
  "ex_space = \<lparr>FreeVirtualAddressPointer = 0x20000, StartOfVirtualAddressSpace = 0x10000, BitmapAddressStart = 0x2000, ReservedAreaSize = 0x5000,
     ReservationLock = \<lparr>WaitingWriters = 0, ActiveWriter = 0, ActiveReaders = 0\<rparr>, FreeBitmapAddress = 0x3000, ReservationList = 0x1000,
     Reservations = [\<lparr>StartVa = 0x10000, ReservationSize = 0x2000, PageRights = PAGE_RIGHTS_READWRITE, ReservationState = VmmReservationStateUsed,
         Uncacheable = False, BackingFile = NULL, CommitBitmap = \<lparr>BitmapBuffer = Some [1], BufferSize = 1, BitCount = 2\<rparr>, CommitBitmapAddress = 0x2000\<rparr>,
       zero_VMM_RESERVATION\<lparr>ReservationState := VmmReservationStateLast\<rparr>] @ replicate 72 zero_VMM_RESERVATION, Overrun = False\<rparr>"

lemma ex_space_last: "last_slot (Reservations ex_space) 1"
  by (simp add: last_slot_def ex_space_def zero_VMM_RESERVATION_def)

lemma ex_space_active: "active (Reservations ex_space) i \<longleftrightarrow> i = 0"
proof
  assume "active (Reservations ex_space) i"
  with active_less_last [OF ex_space_last] show "i = 0" by simp
qed (simp add: active_def ex_space_def)

lemma ex_space_bits: "bm_set (CommitBitmap (Reservations ex_space ! 0)) = {0}"
  by (auto simp: ex_space_def bm_set_def bm_bit_def bit_at_def bit_1_iff)

lemma ex_space_inv: "space_inv ex_space"
proof -
  have "reservation_inv (Reservations ex_space ! 0)" by (simp add: reservation_inv_def ex_space_def bitmap_inv_def)
  moreover have "metadata_inv ex_space" by (simp add: ex_space_def metadata_inv_def slots_below_def)
  moreover note ex_space_last
  ultimately show ?thesis unfolding space_inv_def space_ok_def slots_inv_def slots_ok_def below_free_def ex_space_active
    by (auto simp: ex_space_def rw_free_def)
qed

lemma ex_space_room: "alloc_room ex_space 0x1000"
proof -
  have "slot_room ex_space" unfolding slot_room_def using ex_space_last by (intro exI [of _ 1]) (simp add: ex_space_def slot_below_def)
  then show ?thesis by (simp add: alloc_room_def bitmap_room_def bitmap_bytes_def) (simp add: ex_space_def)
qed

lemma ex_page: "AlignAddressUpper 0x10 PAGE_SIZE = PAGE_SIZE"
  by (simp add: AlignAddressUpper_def AlignAddressLower_def)

abbreviation ex_cpu :: CPU where "ex_cpu \<equiv> \<lparr>CpuSelf = 1, CpuIntr = INTR_OFF\<rparr>"

lemma ex_space_fields:
  "FreeVirtualAddressPointer ex_space = 0x20000" "StartOfVirtualAddressSpace ex_space = 0x10000" "ReservationList ex_space = 0x1000"
  "ReservedAreaSize ex_space = 0x5000"
  by (simp_all add: ex_space_def)


text \<open>
  C28: From a space that was just set up, the requests of the clients may come in any order: reserving at the next
  free address or at one that the caller chooses, committing, taking pages back, releasing, page faults. If no range
  that is reserved overlaps a region in part, pages are only taken back inside of one region, and a slot is left for
  each reservation, then between the requests the lock is free, the invariant holds, and no two regions have an
  address in common. The code checks none of the three conditions (\<open>reserve_accepts_overlap\<close>). The first one always
  holds at the next free address, unless a caller has chosen a range above it (\<open>fresh_request\<close>).
\<close>

theorem vm_regions_disjoint:
  assumes "base \<noteq> NULL" and "unat base mod 4096 = 0" and "msize \<noteq> 0" and "unat msize mod 20480 = 0" and "unat msize * 2000 < 2 ^ 64"
    and "unat base + unat msize + 2 ^ 32 \<le> 2 ^ 64" and "unat start mod 4096 = 0"
  shows "\<exists>sp1 sp2. VmReservationSpaceInit slots base start msize sp0 = Some sp1 \<and> VmReservationSpaceFinishInit sp1 = Some sp2 \<and> regions sp2 = {}
    \<and> space_inv sp2 \<and> (\<forall>sp. vm_step\<^sup>*\<^sup>* sp2 sp \<longrightarrow> space_ok sp
      \<and> (\<forall>R \<in> regions sp. \<forall>R' \<in> regions sp. R \<noteq> R' \<longrightarrow> va_range (fst R) (fst (snd R)) \<inter> va_range (fst R') (fst (snd R')) = {}))"
proof -
  from space_init_ok [OF assms] obtain sp1 sp2 where init: "VmReservationSpaceInit slots base start msize sp0 = Some sp1"
    "VmReservationSpaceFinishInit sp1 = Some sp2" "space_inv sp2" "regions sp2 = {}" by blast
  have "space_ok sp" if "vm_step\<^sup>*\<^sup>* sp2 sp" for sp using vm.reachable_inv that space_invD(3) [OF init(3)] by blast
  then show ?thesis using init regions_disjoint space_okD(1) by blast
qed

text \<open>The space that was just set up at address 4096 with five pages for its slots and bitmaps.\<close>

definition ex_new :: VMM_RESERVATION_SPACE where
  "ex_new = \<lparr>FreeVirtualAddressPointer = 0x6000, StartOfVirtualAddressSpace = 0x6000, BitmapAddressStart = 0x2000, ReservedAreaSize = 0x5000,
     ReservationLock = \<lparr>WaitingWriters = 0, ActiveWriter = 0, ActiveReaders = 0\<rparr>, FreeBitmapAddress = 0x2000, ReservationList = 0x1000,
     Reservations = zero_VMM_RESERVATION\<lparr>ReservationState := VmmReservationStateLast\<rparr> # replicate 73 zero_VMM_RESERVATION, Overrun = False\<rparr>"

declare RwSpinlockAcquire_spin.simps [code]

lemma ex_new_init: "VmReservationSpaceInit (\<lambda>_. zero_VMM_RESERVATION) 0x1000 NULL 0x5000 ex_space \<bind> VmReservationSpaceFinishInit = Some ex_new"
  by code_simp

lemma ex_new_room: "bitmap_room ex_new 0x2000" "slot_room ex_new"
proof -
  show "bitmap_room ex_new 0x2000" by (simp add: bitmap_room_def bitmap_bytes_def ex_new_def)
  have "last_slot (Reservations ex_new) 0" by (simp add: last_slot_def ex_new_def)
  then show "slot_room ex_new" unfolding slot_room_def by (intro exI [of _ 0]) (simp add: slot_below_def ex_new_def)
qed

text \<open>From it, a region of two pages at the next free address and one of one page at a chosen address behind it.\<close>

lemma ex_chosen:
  "case VmReservationSpaceAllocRegion ex_cpu None ex_new NULL 0x2000 1 1 False NULL of None \<Rightarrow> False
   | Some (_, _, _, _, sp3) \<Rightarrow> StartOfVirtualAddressSpace sp3 = 0x6000
     \<and> (case VmReservationSpaceAllocRegion ex_cpu None sp3 0x9000 0x1000 1 1 False NULL of None \<Rightarrow> False | Some (_, _, _, _, sp4) \<Rightarrow> \<not> Overrun sp4)"
  by code_simp

lemma ex_steps:
  "\<exists>sp3 sp4. vm_step ex_new sp3 \<and> vm_step sp3 sp4 \<and> regions sp4 = {(0x6000, 0x2000, 1, False, NULL, {}), (0x9000, 0x1000, 1, False, NULL, {})}"
proof -
  have t: "IsBooleanFlagOn 1 VMM_ALLOC_TYPE_RESERVE" "\<not> IsBooleanFlagOn 1 VMM_ALLOC_TYPE_COMMIT" by (simp_all add: IsBooleanFlagOn_def)
  have new: "space_ok ex_new" "regions ex_new = {}"
    using space_init_ok [of "0x1000" "0x5000" NULL "\<lambda>_. zero_VMM_RESERVATION" ex_space] ex_new_init by (auto simp: space_inv_def)
  have r1: "requested ex_new NULL 0x2000 = (0x6000, 0x2000, 0x8000)"
    by (simp add: requested_def Let_def ex_new_def AlignAddressUpper_def AlignAddressLower_def)
  have f: "FreeVirtualAddressPointer ex_new = 0x6000" by (simp add: ex_new_def)
  have un: "unused ex_new 0x6000 0x2000" using new(2) by (simp add: unused_regions)
  from alloc_reserve_ok [OF new(1) _ t(1) r1 _ _ _ un _ ex_new_room(1), of ex_cpu None 1 False NULL] obtain sp3 where
    sp3: "VmReservationSpaceAllocRegion ex_cpu None ex_new NULL 0x2000 1 1 False NULL = Some (STATUS_SUCCESS, Some (0x6000, 0x2000), ex_cpu, None, sp3)"
      "\<not> Overrun sp3" "space_ok sp3" "regions sp3 = {(0x6000, 0x2000, 1, False, NULL, {})}"
    using ex_new_room(2) new(2) t(2) f by auto
  have step3: "vm_step ex_new sp3" using f by (intro vm_step.reserve [OF sp3(1) t(1) _ r1 disjI1 [OF un] sp3(2)]) simp
  have r2: "requested sp3 0x9000 0x1000 = (0x9000, 0x1000, FreeVirtualAddressPointer sp3)"
    by (simp add: requested_def Let_def AlignAddressUpper_def AlignAddressLower_def)
  have un: "unused sp3 0x9000 0x1000" unfolding unused_regions sp3(4) by (auto simp: va_range_def)
  from ex_chosen sp3(1) obtain st res cpu pCpu sp4 where
    sp4: "VmReservationSpaceAllocRegion ex_cpu None sp3 0x9000 0x1000 1 1 False NULL = Some (st, res, cpu, pCpu, sp4)" "\<not> Overrun sp4"
    and start: "StartOfVirtualAddressSpace sp3 \<le> 0x9000" by (auto split: option.splits)
  have step4: "vm_step sp3 sp4" by (intro vm_step.reserve [OF sp4(1) t(1) _ r2 disjI1 [OF un] sp4(2)]) simp
  have "unat (0x1000 :: QWORD) div 4096 \<le> 0xFFFFFFFF \<and> bitmap_room sp3 0x1000"
    using alloc_reserve_halts [OF sp3(3) _ t(1) r2 _ _ start un, of ex_cpu None 1 False NULL] sp4(1) by auto
  then have "regions sp4 = {(0x6000, 0x2000, 1, False, NULL, {}), (0x9000, 0x1000, 1, False, NULL, {})}"
    using alloc_reserve_ok [OF sp3(3) _ t(1) r2 _ _ start un, of ex_cpu None 1 False NULL] sp4 sp3(4) t(2) by auto
  with step3 step4 show ?thesis by blast
qed

theorem vm_regions_disjoint_witness:
  "\<exists>sp3 sp4. vm_step ex_new sp3 \<and> vm_step sp3 sp4 \<and> regions sp4 = {(0x6000, 0x2000, 1, False, NULL, {}), (0x9000, 0x1000, 1, False, NULL, {})}
    \<and> space_ok sp4 \<and> va_range 0x6000 0x2000 \<inter> va_range 0x9000 0x1000 = {}"
proof -
  from ex_steps obtain sp3 sp4 where sp: "vm_step ex_new sp3" "vm_step sp3 sp4"
    "regions sp4 = {(0x6000, 0x2000, 1, False, NULL, {}), (0x9000, 0x1000, 1, False, NULL, {})}" by blast
  have "(0x1000 :: ptr) \<noteq> NULL" "unat (0x1000 :: ptr) mod 4096 = 0" "(0x5000 :: QWORD) \<noteq> 0" "unat (0x5000 :: QWORD) mod 20480 = 0"
    "unat (0x5000 :: QWORD) * 2000 < 2 ^ 64" "unat (0x1000 :: ptr) + unat (0x5000 :: QWORD) + 2 ^ 32 \<le> 2 ^ 64" "unat (NULL :: ptr) mod 4096 = 0" by simp_all
  from vm_regions_disjoint [OF this, of "\<lambda>_. zero_VMM_RESERVATION" ex_space] obtain sp1 sp2 where
    init: "VmReservationSpaceInit (\<lambda>_. zero_VMM_RESERVATION) 0x1000 NULL 0x5000 ex_space = Some sp1" "VmReservationSpaceFinishInit sp1 = Some sp2"
    and all: "\<And>sp. vm_step\<^sup>*\<^sup>* sp2 sp \<Longrightarrow> space_ok sp
      \<and> (\<forall>R \<in> regions sp. \<forall>R' \<in> regions sp. R \<noteq> R' \<longrightarrow> va_range (fst R) (fst (snd R)) \<inter> va_range (fst R') (fst (snd R')) = {})" by blast
  from init ex_new_init have "sp2 = ex_new" by simp
  with sp(1,2) have "vm_step\<^sup>*\<^sup>* sp2 sp4" by simp
  from all [OF this] show ?thesis using sp by (intro exI [of _ sp3] exI [of _ sp4]) simp
qed

text \<open>
  A page fault outside of the metadata area is granted exactly if a region has the address among its
  committed ones and its rights include the requested ones; the description of the page has the rights,
  the caching and the file of this region and the offset of the page in the file. The space, the lock and
  the interrupt state are as before.
\<close>

theorem vm_page_fault_spec:
  assumes "space_inv sp" and "CpuIntr cpu = INTR_OFF" and "a \<noteq> NULL" and "a \<noteq> MAX_QWORD"
    and "\<not> CHECK_BOUNDS a 1 (ReservationList sp) (ReservedAreaSize sp)"
  shows "\<exists>d. VmReservationCanAddressBeAccessed cpu pCpu sp a q = Some (d, cpu, sp) \<and> (d \<noteq> None \<longleftrightarrow> granted sp q {a})
    \<and> (\<forall>D. d = Some D \<longrightarrow> (\<exists>p n C. (p, n, MemoryRights D, PageUncacheable D, PageFile D, C) \<in> regions sp \<and> a \<in> C
      \<and> IsBooleanFlagOn (MemoryRights D) q \<and> FileOffset D = (if PageFile D \<noteq> NULL then AlignAddressLower (a - p) PAGE_SIZE else 0)))"
  by (rule can_access_ok [OF space_invD(3) [OF assms(1)] assms(2-5)])

lemma ex_space_committed: "committed (Reservations ex_space ! 0) = va_range 0x10000 0x1000"
proof -
  have "x \<in> committed (Reservations ex_space ! 0) \<longleftrightarrow> x \<in> va_range 0x10000 0x1000" for x
  proof -
    have "page_of (Reservations ex_space ! 0) x = 0 \<longleftrightarrow> unat x - 0x10000 < 4096" by (simp add: page_of_def ex_space_def div_eq_0_iff)
    then show ?thesis unfolding committed_def ex_space_bits by (auto simp: covers_def va_range_def ex_space_def)
  qed
  then show ?thesis by blast
qed

lemma ex_space_granted: "A \<subseteq> va_range 0x10000 0x1000 \<Longrightarrow> 0x10000 \<in> A \<Longrightarrow> granted ex_space PAGE_RIGHTS_WRITE A"
  using granted_iff [of ex_space 0 "0x10000" A PAGE_RIGHTS_WRITE] space_invD(1) [OF ex_space_inv]
  by (simp add: ex_space_active ex_space_committed) (simp add: ex_space_def covers_def va_range_def IsBooleanFlagOn_def)

theorem vm_page_fault_spec_witness:
  "\<exists>D. VmReservationCanAddressBeAccessed ex_cpu None ex_space 0x10000 PAGE_RIGHTS_WRITE = Some (Some D, ex_cpu, ex_space)"
  using vm_page_fault_spec [of ex_space ex_cpu "0x10000" None PAGE_RIGHTS_WRITE] ex_space_inv ex_space_granted [of "{0x10000}"]
  by (auto simp: ex_space_fields CHECK_BOUNDS_def va_range_def)

text \<open>
  Releasing a region by any of its addresses removes it and no other region. The result is the whole range
  of the region, to be unmapped; the buffer of its bitmap is unmapped and its file is closed, once each.
  Afterwards no access to an address of the region is granted.
\<close>

theorem vm_release_spec:
  assumes "space_inv sp" and "active (Reservations sp) i" and "r = Reservations sp ! i" and "a \<in> covers r"
  shows "\<exists>sp'. VmReservationSpaceFreeRegion cpu pCpu sp a 0 VMM_FREE_TYPE_RELEASE =
      Some (StartVa r, ReservationSize r, MmuUnmapMemory (CommitBitmapAddress r) (BufferSize (CommitBitmap r))
        # (if BackingFile r \<noteq> NULL then [IoCloseFile (BackingFile r)] else []), cpu, map_option (\<lambda>_. False) pCpu, sp')
    \<and> space_inv sp' \<and> regions sp' = regions sp - {region_of r} \<and> (\<forall>x q. x \<in> covers r \<longrightarrow> \<not> granted sp' q {x})"
proof -
  from release_inv [OF assms(1,2), of a cpu pCpu] assms(3,4) obtain sp' where
    sp': "VmReservationSpaceFreeRegion cpu pCpu sp a 0 VMM_FREE_TYPE_RELEASE =
      Some (StartVa r, ReservationSize r, MmuUnmapMemory (CommitBitmapAddress r) (BufferSize (CommitBitmap r))
        # (if BackingFile r \<noteq> NULL then [IoCloseFile (BackingFile r)] else []), cpu, map_option (\<lambda>_. False) pCpu, sp')"
    "space_inv sp'" "regions sp' = regions sp - {region_of r}" by auto
  have mem: "region_of r \<in> regions sp" using assms(2,3) by (auto simp: regions_def)
  have "\<not> granted sp' q {x}" if x: "x \<in> covers r" for x q
  proof
    assume "granted sp' q {x}"
    then obtain p n rights uc f C where R: "(p, n, rights, uc, f, C) \<in> regions sp" "(p, n, rights, uc, f, C) \<noteq> region_of r" "x \<in> C"
      using sp'(3) by (auto simp: granted_def)
    then have "va_range p n \<inter> covers r = {}"
      using regions_disjoint [OF space_invD(1) [OF assms(1)] R(1) mem] by (simp add: region_of_def covers_def)
    then show False using x R(3) regions_committed [OF R(1)] by blast
  qed
  with sp' show ?thesis by auto
qed

theorem vm_release_spec_witness:
  "\<exists>sp'. VmReservationSpaceFreeRegion ex_cpu None ex_space 0x11234 0 VMM_FREE_TYPE_RELEASE =
    Some (0x10000, 0x2000, [MmuUnmapMemory 0x2000 1], ex_cpu, None, sp') \<and> space_inv sp'"
proof -
  have "0x11234 \<in> covers (Reservations ex_space ! 0)" by (simp add: ex_space_def covers_def va_range_def)
  moreover have "Reservations ex_space ! 0 = \<lparr>StartVa = 0x10000, ReservationSize = 0x2000, PageRights = PAGE_RIGHTS_READWRITE,
      ReservationState = VmmReservationStateUsed, Uncacheable = False, BackingFile = NULL,
      CommitBitmap = \<lparr>BitmapBuffer = Some [1], BufferSize = 1, BitCount = 2\<rparr>, CommitBitmapAddress = 0x2000\<rparr>" by (simp add: ex_space_def)
  ultimately show ?thesis
    using vm_release_spec [OF ex_space_inv _ refl, of 0 "0x11234" ex_cpu None] by (auto simp: ex_space_active)
qed

text \<open>
  The errors of a request at an address that the caller chooses. Below the start of the space it cannot be
  reserved; reserving inside of a region fails; committing fails outside of every region, and inside of one
  with other rights or another caching. The status names the reason and nothing has changed.
\<close>

theorem vm_alloc_errors:
  assumes "space_inv sp" and "Size \<noteq> 0" and "base \<noteq> NULL" and "p = AlignAddressLower base PAGE_SIZE"
    and "n = AlignAddressUpper (Size + (base - p)) PAGE_SIZE" and "unat base + unat Size + 4095 < 2 ^ 64" and "StartOfVirtualAddressSpace sp \<noteq> NULL"
    and "IsBooleanFlagOn t VMM_ALLOC_TYPE_RESERVE \<or> IsBooleanFlagOn t VMM_ALLOC_TYPE_COMMIT"
  shows "VmReservationSpaceAllocRegion cpu pCpu sp base Size t rights uc file =
     (if p < StartOfVirtualAddressSpace sp then Some (STATUS_MEMORY_CANNOT_BE_RESERVED, None, cpu, pCpu, sp)
      else if IsBooleanFlagOn t VMM_ALLOC_TYPE_RESERVE \<and> (\<exists>r u. region_over sp p n r u)
        then Some (STATUS_MEMORY_ALREADY_RESERVED, None, cpu, map_option (\<lambda>_. False) pCpu, sp)
      else if \<not> IsBooleanFlagOn t VMM_ALLOC_TYPE_RESERVE \<and> \<not> (\<exists>r u. region_over sp p n r u)
        then Some (STATUS_MEMORY_IS_NOT_RESERVED, None, cpu, map_option (\<lambda>_. False) pCpu, sp)
      else if \<not> IsBooleanFlagOn t VMM_ALLOC_TYPE_RESERVE \<and> (\<exists>r u. region_over sp p n r u \<and> r \<noteq> rights)
        then Some (STATUS_MEMORY_CONFLICTING_ACCESS_RIGHTS, None, cpu, map_option (\<lambda>_. False) pCpu, sp)
      else if \<not> IsBooleanFlagOn t VMM_ALLOC_TYPE_RESERVE \<and> region_over sp p n rights (\<not> uc)
        then Some (STATUS_MEMORY_CONFLICTING_CACHEABILITY, None, cpu, map_option (\<lambda>_. False) pCpu, sp)
      else VmReservationSpaceAllocRegion cpu pCpu sp base Size t rights uc file)"
proof -
  note req = aligned_request [OF assms(2,4,5,6)] and flag = alloc_type_flag [OF assms(8)]
  let ?sp = "sp\<lparr>ReservationLock := (ReservationLock sp)\<lparr>ActiveWriter := 1\<rparr>\<rparr>"
  show ?thesis
  proof (cases "p < StartOfVirtualAddressSpace sp")
    case True
    then show ?thesis using assms(2,3) flag by (simp add: VmReservationSpaceAllocRegion_def Let_def assms(4)[symmetric])
  next
    case False
    then have p: "StartOfVirtualAddressSpace sp \<le> p" "p \<noteq> NULL" using assms(7) by (auto simp: word_gt_0)
    have over: "region_over ?sp p n r u = region_over sp p n r u" for r u by (simp add: region_over_active)
    note ref = change_state_refused [of ?sp p n, unfolded over, OF _ p(2) req(1,3,4,2)]
    note result = alloc_refused [OF space_invD(3) [OF assms(1)] assms(2-5) p(1) _ _ assms(8), of _ _ rights uc "file" cpu pCpu]
    show ?thesis using False ref result space_invD(1) [OF assms(1)] by (auto simp del: not_less)
  qed
qed

lemma ex_over: "\<exists>r u. region_over ex_space 0x10000 0x1000 r u"
  unfolding region_over_active ex_space_active by (auto simp: ex_space_def covers_def va_range_def)

theorem vm_alloc_errors_witness:
  "VmReservationSpaceAllocRegion ex_cpu None ex_space 0x10008 0x10 1 0 False NULL = Some (STATUS_MEMORY_ALREADY_RESERVED, None, ex_cpu, None, ex_space)"
proof -
  have "AlignAddressLower 0x10008 PAGE_SIZE = 0x10000" "AlignAddressUpper (0x10 + (0x10008 - 0x10000)) PAGE_SIZE = 0x1000"
    by (simp_all add: AlignAddressUpper_def AlignAddressLower_def)
  then show ?thesis
    using vm_alloc_errors [of ex_space "0x10" "0x10008" "0x10000" "0x1000" 1 ex_cpu None 0 False NULL] ex_space_inv ex_over
    by (simp add: ex_space_fields IsBooleanFlagOn_def)
qed

text \<open>
  C29: \<open>VmmIsBufferValid\<close> accepts a buffer that starts at a page or stays inside of one exactly if every byte of
  it is committed in one region whose rights include the requested ones and, for a caller in user mode,
  neither end of it is a kernel address. The space is as before.
\<close>

theorem vm_buffer_valid_spec:
  assumes "space_inv sp" and "a \<noteq> NULL" and "n \<noteq> 0" and "unat a + unat n < 2 ^ 64"
    and "unat a mod 4096 = 0 \<or> unat a mod 4096 + unat n \<le> 4096"
  shows "\<exists>st. VmmIsBufferValid cpu sp a n q KernelAccess = Some (st, cpu, sp)
    \<and> (st = STATUS_SUCCESS \<longleftrightarrow> (KernelAccess \<or> \<not> VmIsKernelAddress a \<and> \<not> VmIsKernelAddress (a + (n - 1)))
      \<and> granted sp q (va_range a n))"
  by (rule buffer_valid_ok [OF space_invD(3) [OF assms(1)] assms(2-5)])

theorem vm_buffer_valid_spec_witness:
  "VmmIsBufferValid ex_cpu ex_space 0x10000 0x800 PAGE_RIGHTS_WRITE False = Some (STATUS_SUCCESS, ex_cpu, ex_space)"
proof -
  have "granted ex_space PAGE_RIGHTS_WRITE (va_range 0x10000 0x800)" by (intro ex_space_granted) (auto simp: va_range_def)
  moreover have "\<not> VmIsKernelAddress 0x10000" "\<not> VmIsKernelAddress (0x10000 + (0x800 - 1))"
    by (simp_all add: VmIsKernelAddress_def IsBooleanFlagOn_def)
  ultimately show ?thesis
    using vm_buffer_valid_spec [of ex_space "0x10000" "0x800" ex_cpu PAGE_RIGHTS_WRITE False] ex_space_inv by auto
qed

text \<open>
  A buffer that crosses into a second page is accepted although only its first byte is committed: the loop
  looks at the first address and then 4096 bytes further, which is past the end.
\<close>

lemma buffer_check_misses_page:
  "\<exists>cpu sp a n. space_inv sp \<and> VmmIsBufferValid cpu sp a n PAGE_RIGHTS_WRITE False = Some (STATUS_SUCCESS, cpu, sp) \<and> \<not> granted sp PAGE_RIGHTS_WRITE (va_range a n)"
proof -
  let ?r = "Reservations ex_space ! 0" and ?a = "0x10FFF :: ptr"
  note inv = space_invD [OF ex_space_inv] and r = slots_inv_active [OF space_invD(1) [OF ex_space_inv], of 0, unfolded ex_space_active, OF refl]
  have sub: "va_range ?a 2 \<subseteq> covers ?r" by (auto simp: va_range_def covers_def ex_space_def)
  have "VmReturnRights_loop ?r ?a 2 0 = Some True"
    using return_rights_loop [OF r sub, of 0] by (auto simp: ex_space_committed va_range_def)
  moreover have "VmFindReservation (ex_space\<lparr>ReservationLock := (ReservationLock ex_space)\<lparr>ActiveReaders := 1\<rparr>\<rparr>) ?a 2 = Some (STATUS_SUCCESS, Some 0)"
    using slots_inv_ok [OF inv(1)] sub by (intro find_range_in) (simp_all add: ex_space_active)
  moreover have "\<not> VmIsKernelAddress ?a" "\<not> VmIsKernelAddress (?a + (2 - 1))" by (simp_all add: VmIsKernelAddress_def IsBooleanFlagOn_def)
  ultimately have "VmmIsBufferValid ex_cpu ex_space ?a 2 PAGE_RIGHTS_WRITE False = Some (STATUS_SUCCESS, ex_cpu, ex_space)"
    using rw_section(2) [OF inv(2), of ex_cpu] rw_restore(2) [OF inv(2), of ex_cpu]
    by (simp add: VmmIsBufferValid_def VmReservationReturnRightsForAddress_def VmIsKernelRange_def Let_def) (simp add: ex_space_def IsBooleanFlagOn_def)
  moreover have "\<not> granted ex_space PAGE_RIGHTS_WRITE (va_range ?a 2)"
  proof -
    have "0x11000 \<in> va_range ?a 2" "0x11000 \<notin> va_range 0x10000 0x1000" by (simp_all add: va_range_def)
    moreover have "?a \<in> covers ?r" using sub va_range_nonempty [of 2 ?a] by auto
    ultimately show ?thesis
      using granted_iff [OF inv(1), of 0 ?a "va_range ?a 2" PAGE_RIGHTS_WRITE] va_range_nonempty [of 2 ?a]
      by (auto simp: ex_space_active ex_space_committed)
  qed
  ultimately show ?thesis using ex_space_inv by blast
qed

text \<open>
  A region at an address of the choice of the caller is checked only against the regions that contain it: one
  that overlaps a region in part is accepted.
\<close>

lemma reserve_accepts_overlap:
  "case VmReservationSpaceAllocRegion ex_cpu None ex_space 0x11000 0x2000 VMM_ALLOC_TYPE_RESERVE 1 False NULL of
     Some (st, res, cpu, pcpu, sp) \<Rightarrow> st = STATUS_SUCCESS
       \<and> map (\<lambda>i. (ReservationState (Reservations sp ! i), StartVa (Reservations sp ! i), ReservationSize (Reservations sp ! i))) [0, 1]
         = [(VmmReservationStateUsed, 0x10000, 0x2000), (VmmReservationStateUsed, 0x11000, 0x2000)]
   | None \<Rightarrow> False"
  by code_simp

text \<open>
  The slots below the bitmaps are in use, and the mark is in the last one that fits. The next reservation succeeds,
  and the mark is written behind the array.
\<close>

lemma reserve_overruns:
  "case VmReservationSpaceAllocRegion ex_cpu None (ex_space\<lparr>FreeVirtualAddressPointer := 0x100000, Reservations :=
       map (\<lambda>i. zero_VMM_RESERVATION\<lparr>StartVa := 0x10000 + of_nat i * 0x1000, ReservationSize := 0x1000, ReservationState := VmmReservationStateUsed\<rparr>) [0..<72]
       @ [zero_VMM_RESERVATION\<lparr>ReservationState := VmmReservationStateLast\<rparr>, zero_VMM_RESERVATION]\<rparr>) NULL 0x1000 VMM_ALLOC_TYPE_RESERVE 1 False NULL of
     Some (st, res, cpu, pcpu, sp) \<Rightarrow> st = STATUS_SUCCESS \<and> res = Some (0x100000, 0x1000) \<and> Overrun sp
   | None \<Rightarrow> False"
  by code_simp

end
