(* ===== verification/Paging.thy ===== *)
theory Paging
  imports VmReservation
begin

text \<open>
  The page tables: the entries (\<open>HAL/src/pte.c\<close>, \<open>HAL/inc/pte.h\<close>) and the part of \<open>HAL9000/src/vmm.c\<close> that
  walks the four levels of tables to map and unmap pages and to look up the frame of a page.

  The machine holds the 64-bit entries of the tables by the virtual address of the entry. All tables are pages
  and all entries start at multiples of 8, so two different addresses are two different entries. The pages
  whose translation is discarded with \<^verbatim>\<open>invlpg\<close> and the frames that are given back are recorded in order.
\<close>

section \<open>Layout of the entries\<close>

text \<open>A bit field structure is the list of its fields with their widths, from the lowest bit on.\<close>

type_synonym bit_layout = "(string \<times> nat) list"

primrec field_from :: "nat \<Rightarrow> bit_layout \<Rightarrow> string \<Rightarrow> nat \<times> nat" where
  "field_from b [] n = (b, 0)"
| "field_from b (f # fs) n = (if fst f = n then (b, snd f) else field_from (b + snd f) fs n)"

definition bf_get :: "bit_layout \<Rightarrow> string \<Rightarrow> QWORD \<Rightarrow> QWORD" where
  "bf_get L n e = (let (b, w) = field_from 0 L n in take_bit w (drop_bit b e))"

definition bf_set :: "bit_layout \<Rightarrow> string \<Rightarrow> QWORD \<Rightarrow> QWORD \<Rightarrow> QWORD" where
  "bf_set L n v e = (let (b, w) = field_from 0 L n in (e AND NOT (push_bit b (mask w))) OR push_bit b (take_bit w v))"

definition PML4_Pcide :: bit_layout where
  "PML4_Pcide = [(''PCID'', 12), (''PhysicalAddress'', 40), (''Reserved'', 12)]"

definition PML4_ENTRY :: bit_layout where
  "PML4_ENTRY = [(''Present'', 1), (''ReadWrite'', 1), (''UserSupervisor'', 1), (''PWT'', 1), (''PCD'', 1), (''Accessed'', 1),
     (''Ignored0'', 1), (''Reserved'', 1), (''Ignored1'', 4), (''PhysicalAddress'', 40), (''Ignored2'', 11), (''XD'', 1)]"

definition PD_ENTRY_PT :: bit_layout where
  "PD_ENTRY_PT = [(''Present'', 1), (''ReadWrite'', 1), (''UserSupervisor'', 1), (''PWT'', 1), (''PCD'', 1), (''Accessed'', 1),
     (''Ignored0'', 1), (''PageSize'', 1), (''Ignored1'', 4), (''PhysicalAddress'', 40), (''Ignored2'', 11), (''XD'', 1)]"

definition PD_ENTRY_2MB :: bit_layout where
  "PD_ENTRY_2MB = [(''Present'', 1), (''ReadWrite'', 1), (''UserSupervisor'', 1), (''PWT'', 1), (''PCD'', 1), (''Accessed'', 1),
     (''Dirty'', 1), (''PageSize'', 1), (''Global'', 1), (''Ignored'', 3), (''PAT'', 1), (''Reserved'', 8), (''PhysicalAddress'', 31),
     (''Ignored2'', 11), (''XD'', 1)]"

definition PT_ENTRY :: bit_layout where
  "PT_ENTRY = [(''Present'', 1), (''ReadWrite'', 1), (''UserSupervisor'', 1), (''PWT'', 1), (''PCD'', 1), (''Accessed'', 1),
     (''Dirty'', 1), (''PAT'', 1), (''Global'', 1), (''Ignored0'', 3), (''PhysicalAddress'', 40), (''Ignored1'', 11), (''XD'', 1)]"

section \<open>State\<close>

type_synonym PML4 = QWORD

record PAGING_DATA =
  BasePhysicalAddress :: ptr
  NumberOfFrames :: DWORD
  CurrentIndex :: DWORD
  KernelSpace :: bool

definition zero_PAGING_DATA :: PAGING_DATA where
  "zero_PAGING_DATA = \<lparr>BasePhysicalAddress = NULL, NumberOfFrames = 0, CurrentIndex = 0, KernelSpace = False\<rparr>"

record PTE_MAP_FLAGS =
  PatIndex :: "3 word"
  Writable :: bool
  Executable :: bool
  PagingStructure :: bool
  UserAccess :: bool
  GlobalPage :: bool

definition zero_PTE_MAP_FLAGS :: PTE_MAP_FLAGS where
  "zero_PTE_MAP_FLAGS = \<lparr>PatIndex = 0, Writable = False, Executable = False, PagingStructure = False, UserAccess = False, GlobalPage = False\<rparr>"

text \<open>\<open>WriteBackIndex\<close> and \<open>UncacheableIndex\<close> are those of \<open>m_vmmData\<close>.\<close>

record PAGING_MACHINE =
  Entries :: "ptr \<Rightarrow> QWORD"
  gVirtualToPhysicalOffset :: QWORD
  WriteBackIndex :: BYTE
  UncacheableIndex :: BYTE
  TlbInvalidations :: "ptr list"
  ReleasedFrames :: "(ptr \<times> DWORD) list"

definition PA2VA :: "PAGING_MACHINE \<Rightarrow> ptr \<Rightarrow> ptr" where
  "PA2VA m addr = addr + gVirtualToPhysicalOffset m"

definition wr_entry :: "ptr \<Rightarrow> QWORD \<Rightarrow> PAGING_MACHINE \<Rightarrow> PAGING_MACHINE" where
  "wr_entry p e m = m\<lparr>Entries := (Entries m)(p := e)\<rparr>"

definition memzero_page :: "ptr \<Rightarrow> PAGING_MACHINE \<Rightarrow> PAGING_MACHINE" where
  "memzero_page p m = m\<lparr>Entries := (\<lambda>a. if a - p < PAGE_SIZE then 0 else Entries m a)\<rparr>"

definition PageInvalidateTlb :: "ptr \<Rightarrow> PAGING_MACHINE \<Rightarrow> PAGING_MACHINE" where
  "PageInvalidateTlb Page m = m\<lparr>TlbInvalidations := TlbInvalidations m @ [Page]\<rparr>"

section \<open>Entries\<close>

definition PteMap :: "ptr \<Rightarrow> ptr \<Rightarrow> PTE_MAP_FLAGS \<Rightarrow> PAGING_MACHINE \<Rightarrow> PAGING_MACHINE option" where
  "PteMap PageTable PhysicalAddress Flags m = do {
     ASSERT (NULL \<noteq> PageTable);
     let e = 0;
     let e = bf_set PT_ENTRY ''PhysicalAddress'' (drop_bit 12 PhysicalAddress) e;
     let e = bf_set PT_ENTRY ''Present'' 1 e;
     let e = bf_set PT_ENTRY ''ReadWrite'' (of_bool (Writable Flags)) e;
     let e = bf_set PT_ENTRY ''XD'' (of_bool (\<not> Executable Flags)) e;
     let e = bf_set PT_ENTRY ''UserSupervisor'' (of_bool (UserAccess Flags)) e;
     let e = (if \<not> PagingStructure Flags then
         let e = bf_set PT_ENTRY ''PAT'' (drop_bit 2 (ucast (PatIndex Flags)) AND 1) e;
             e = bf_set PT_ENTRY ''PCD'' (drop_bit 1 (ucast (PatIndex Flags)) AND 1) e;
             e = bf_set PT_ENTRY ''PWT'' (drop_bit 0 (ucast (PatIndex Flags)) AND 1) e
         in bf_set PT_ENTRY ''Global'' (of_bool (GlobalPage Flags)) e
       else e);
     Some (wr_entry PageTable e m)
   }"

definition PteUnmap :: "ptr \<Rightarrow> PAGING_MACHINE \<Rightarrow> PAGING_MACHINE option" where
  "PteUnmap PageTable m = do {
     ASSERT (NULL \<noteq> PageTable);
     Some (wr_entry PageTable 0 m)
   }"

definition PteGetPhysicalAddress :: "ptr \<Rightarrow> PAGING_MACHINE \<Rightarrow> ptr option" where
  "PteGetPhysicalAddress PageTable m = do {
     ASSERT (NULL \<noteq> PageTable);
     Some (push_bit 12 (bf_get PT_ENTRY ''PhysicalAddress'' (Entries m PageTable)))
   }"

definition PteLargePageGetPhysicalAddress :: "ptr \<Rightarrow> PAGING_MACHINE \<Rightarrow> ptr option" where
  "PteLargePageGetPhysicalAddress PageTable m = do {
     ASSERT (NULL \<noteq> PageTable);
     Some (push_bit 21 (bf_get PD_ENTRY_2MB ''PhysicalAddress'' (Entries m PageTable)))
   }"

definition PteIsPresent :: "ptr \<Rightarrow> PAGING_MACHINE \<Rightarrow> bool option" where
  "PteIsPresent PageTable m = do {
     ASSERT (NULL \<noteq> PageTable);
     Some (1 = bf_get PML4_ENTRY ''Present'' (Entries m PageTable))
   }"

section \<open>Walking the tables\<close>

definition MASK_PML4_OFFSET :: "ptr \<Rightarrow> QWORD" where "MASK_PML4_OFFSET va = drop_bit 39 va AND 0x1FF"
definition MASK_PDPTE_OFFSET :: "ptr \<Rightarrow> QWORD" where "MASK_PDPTE_OFFSET va = drop_bit 30 va AND 0x1FF"
definition MASK_PDE_OFFSET :: "ptr \<Rightarrow> QWORD" where "MASK_PDE_OFFSET va = drop_bit 21 va AND 0x1FF"
definition MASK_PTE_OFFSET :: "ptr \<Rightarrow> QWORD" where "MASK_PTE_OFFSET va = drop_bit 12 va AND 0x1FF"

type_synonym 'c page_walk_callback = "PML4 \<Rightarrow> ptr \<Rightarrow> ptr \<Rightarrow> BYTE \<Rightarrow> 'c \<Rightarrow> PAGING_MACHINE \<Rightarrow> (bool \<times> 'c \<times> PAGING_MACHINE) option"

text \<open>The loop over the levels; the list holds the levels that are left with the offsets in their tables.\<close>

fun VmWalkPagingTables_levels ::
  "'c page_walk_callback \<Rightarrow> PML4 \<Rightarrow> ptr \<Rightarrow> (BYTE \<times> QWORD) list \<Rightarrow> ptr \<Rightarrow> 'c \<Rightarrow> PAGING_MACHINE \<Rightarrow> ('c \<times> PAGING_MACHINE) option" where
  "VmWalkPagingTables_levels WalkCallback Cr3 currentVa [] curStructPa ctx m = Some (ctx, m)"
| "VmWalkPagingTables_levels WalkCallback Cr3 currentVa ((i, off) # levels) curStructPa ctx m = do {
     let pCurrentEntry = PA2VA m curStructPa + 8 * off;
     (cont, ctx, m) \<leftarrow> WalkCallback Cr3 pCurrentEntry currentVa i ctx m;
     if \<not> cont then Some (ctx, m)
     else do {
       ASSERT (i = 4 \<or> bf_get PD_ENTRY_PT ''PageSize'' (Entries m pCurrentEntry) = 0);
       curStructPa \<leftarrow> PteGetPhysicalAddress pCurrentEntry m;
       VmWalkPagingTables_levels WalkCallback Cr3 currentVa levels curStructPa ctx m
     }
   }"

partial_function (option) VmWalkPagingTables_loop ::
  "'c page_walk_callback \<Rightarrow> PML4 \<Rightarrow> ptr \<Rightarrow> QWORD \<Rightarrow> QWORD \<Rightarrow> 'c \<Rightarrow> PAGING_MACHINE \<Rightarrow> ('c \<times> PAGING_MACHINE) option" where
  "VmWalkPagingTables_loop WalkCallback Cr3 BaseAddress Size offset ctx m =
     (if offset < Size then do {
        let currentVa = BaseAddress + offset;
        let offsets = [(1, MASK_PML4_OFFSET currentVa), (2, MASK_PDPTE_OFFSET currentVa), (3, MASK_PDE_OFFSET currentVa), (4, MASK_PTE_OFFSET currentVa)];
        let curStructPa = push_bit 12 (bf_get PML4_Pcide ''PhysicalAddress'' Cr3);
        (ctx, m) \<leftarrow> VmWalkPagingTables_levels WalkCallback Cr3 currentVa offsets curStructPa ctx m;
        VmWalkPagingTables_loop WalkCallback Cr3 BaseAddress Size (offset + PAGE_SIZE) ctx m
      }
      else Some (ctx, m))"

definition VmWalkPagingTables ::
  "PML4 \<Rightarrow> ptr \<Rightarrow> QWORD \<Rightarrow> 'c page_walk_callback \<Rightarrow> 'c \<Rightarrow> PAGING_MACHINE \<Rightarrow> ('c \<times> PAGING_MACHINE) option" where
  "VmWalkPagingTables Cr3 BaseAddress Size WalkCallback ctx m = VmWalkPagingTables_loop WalkCallback Cr3 BaseAddress Size 0 ctx m"

section \<open>What is done at a level\<close>

record VMM_MAP_UNMAP_PAGE_WALK_CONTEXT =
  CtxPagingData :: PAGING_DATA
  PhysicalAddressBase :: ptr
  VirtualAddressBase :: ptr
  CtxPageRights :: PAGE_RIGHTS
  CtxInvalidate :: bool
  CtxUncacheable :: bool
  ReleaseMemory :: bool

definition zero_MAP_CONTEXT :: VMM_MAP_UNMAP_PAGE_WALK_CONTEXT where
  "zero_MAP_CONTEXT = \<lparr>CtxPagingData = zero_PAGING_DATA, PhysicalAddressBase = NULL, VirtualAddressBase = NULL, CtxPageRights = 0,
     CtxInvalidate = False, CtxUncacheable = False, ReleaseMemory = False\<rparr>"

record VMM_RETRIEVE_PHYS_ACCESS_PAGE_WALK_CONTEXT =
  CtxPhysicalAddress :: ptr
  CtxAccessed :: bool
  CtxDirty :: bool
  ClearAccessed :: bool
  ClearDirty :: bool

text \<open>The product of the index and the page size is a 32-bit number.\<close>

definition VmRetrieveNextPhysicalAddressForPagingStructure :: "PAGING_DATA \<Rightarrow> (ptr \<times> PAGING_DATA) option" where
  "VmRetrieveNextPhysicalAddressForPagingStructure PagingData = do {
     let currentIndex = CurrentIndex PagingData;
     ASSERT (currentIndex < NumberOfFrames PagingData);
     Some (BasePhysicalAddress PagingData + ucast (currentIndex * 0x1000), PagingData\<lparr>CurrentIndex := CurrentIndex PagingData + 1\<rparr>)
   }"

definition VmSetupPagingStructure :: "PAGING_DATA \<Rightarrow> ptr \<Rightarrow> PAGING_MACHINE \<Rightarrow> (PAGING_DATA \<times> PAGING_MACHINE) option" where
  "VmSetupPagingStructure PagingData Structure m = do {
     ASSERT (NULL \<noteq> Structure);
     (physicalAddr, PagingData) \<leftarrow> VmRetrieveNextPhysicalAddressForPagingStructure PagingData;
     let flags = zero_PTE_MAP_FLAGS\<lparr>Writable := True, Executable := True, PagingStructure := True, UserAccess := \<not> KernelSpace PagingData\<rparr>;
     m \<leftarrow> PteMap Structure physicalAddr flags m;
     let m = PageInvalidateTlb (PA2VA m physicalAddr) m;
     Some (PagingData, memzero_page (PA2VA m physicalAddr) m)
   }"

definition VmMapPage :: "VMM_MAP_UNMAP_PAGE_WALK_CONTEXT page_walk_callback" where
  "VmMapPage Cr3 PageTable VirtualAddress PageLevel ctx m = do {
     ASSERT (PageTable \<noteq> NULL);
     ASSERT (VirtualAddress \<noteq> NULL);
     ASSERT (1 \<le> PageLevel \<and> PageLevel \<le> 4);
     present \<leftarrow> PteIsPresent PageTable m;
     if present \<and> \<not> (PageLevel = 4 \<and> CtxInvalidate ctx) then Some (True, ctx, m)
     else if PageLevel = 4 then do {
       let physAddr = PhysicalAddressBase ctx + (VirtualAddress - VirtualAddressBase ctx);
       let flags = zero_PTE_MAP_FLAGS\<lparr>
         Executable := IsBooleanFlagOn (CtxPageRights ctx) PAGE_RIGHTS_EXECUTE,
         Writable := IsBooleanFlagOn (CtxPageRights ctx) PAGE_RIGHTS_WRITE,
         PatIndex := ucast (if CtxUncacheable ctx then UncacheableIndex m else WriteBackIndex m),
         GlobalPage := KernelSpace (CtxPagingData ctx),
         UserAccess := \<not> KernelSpace (CtxPagingData ctx)\<rparr>;
       m \<leftarrow> PteMap PageTable physAddr flags m;
       Some (True, ctx, PageInvalidateTlb VirtualAddress m)
     }
     else do {
       (PagingData, m) \<leftarrow> VmSetupPagingStructure (CtxPagingData ctx) PageTable m;
       Some (True, ctx\<lparr>CtxPagingData := PagingData\<rparr>, m)
     }
   }"

text \<open>
  \<open>MmuReleaseMemory\<close> appends an item to the list of the frames that the zero worker thread has to zero and to
  give back. The list is given by its items. The lock of the list and the signal are modelled with the worker.
\<close>

definition MmuReleaseMemory :: "ptr \<Rightarrow> DWORD \<Rightarrow> PAGING_MACHINE \<Rightarrow> PAGING_MACHINE option" where
  "MmuReleaseMemory PhysicalAddr NoOfFrames m = do {
     ASSERT (IsAddressAligned PhysicalAddr PAGE_SIZE);
     ASSERT (0 \<noteq> NoOfFrames);
     Some (m\<lparr>ReleasedFrames := ReleasedFrames m @ [(PhysicalAddr, NoOfFrames)]\<rparr>)
   }"

definition VmUnmapPage :: "VMM_MAP_UNMAP_PAGE_WALK_CONTEXT page_walk_callback" where
  "VmUnmapPage Cr3 PageTable VirtualAddress PageLevel ctx m = do {
     ASSERT (PageTable \<noteq> NULL);
     ASSERT (VirtualAddress \<noteq> NULL);
     ASSERT (1 \<le> PageLevel \<and> PageLevel \<le> 4);
     present \<leftarrow> PteIsPresent PageTable m;
     if \<not> present then Some (False, ctx, m)
     else if PageLevel = 4 then do {
       pa \<leftarrow> PteGetPhysicalAddress PageTable m;
       m \<leftarrow> PteUnmap PageTable m;
       let m = PageInvalidateTlb VirtualAddress m;
       m \<leftarrow> (if ReleaseMemory ctx then MmuReleaseMemory pa 1 m else Some m);
       Some (True, ctx, m)
     }
     else Some (True, ctx, m)
   }"

text \<open>The \<^verbatim>\<open>__finally\<close> part of \<open>_VmRetrievePhyAccess\<close>, once the page is found.\<close>

definition VmRetrievePhyAccess_found ::
  "ptr \<Rightarrow> ptr \<Rightarrow> VMM_RETRIEVE_PHYS_ACCESS_PAGE_WALK_CONTEXT \<Rightarrow> PAGING_MACHINE \<Rightarrow> bool \<times> VMM_RETRIEVE_PHYS_ACCESS_PAGE_WALK_CONTEXT \<times> PAGING_MACHINE" where
  "VmRetrievePhyAccess_found PageTable VirtualAddress ctx m =
     (let e = Entries m PageTable;
          ctx = ctx\<lparr>CtxAccessed := bf_get PT_ENTRY ''Accessed'' e \<noteq> 0, CtxDirty := bf_get PT_ENTRY ''Dirty'' e \<noteq> 0\<rparr>;
          m = (if ClearAccessed ctx then wr_entry PageTable (bf_set PT_ENTRY ''Accessed'' 0 (Entries m PageTable)) m else m);
          m = (if ClearDirty ctx then wr_entry PageTable (bf_set PT_ENTRY ''Dirty'' 0 (Entries m PageTable)) m else m);
          m = (if ClearAccessed ctx \<or> ClearDirty ctx then PageInvalidateTlb VirtualAddress m else m)
      in (False, ctx, m))"

definition VmRetrievePhyAccess :: "VMM_RETRIEVE_PHYS_ACCESS_PAGE_WALK_CONTEXT page_walk_callback" where
  "VmRetrievePhyAccess Cr3 PageTable VirtualAddress PageLevel ctx m = do {
     ASSERT (PageTable \<noteq> NULL);
     ASSERT (VirtualAddress \<noteq> NULL);
     ASSERT (1 \<le> PageLevel \<and> PageLevel \<le> 4);
     present \<leftarrow> PteIsPresent PageTable m;
     if \<not> present then Some (False, ctx\<lparr>CtxPhysicalAddress := NULL\<rparr>, m)
     else if PageLevel < 3 then Some (True, ctx, m)
     else if PageLevel = 3 then
       (if bf_get PD_ENTRY_2MB ''PageSize'' (Entries m PageTable) = 1 then do {
          pa \<leftarrow> PteLargePageGetPhysicalAddress PageTable m;
          Some (VmRetrievePhyAccess_found PageTable VirtualAddress
            (ctx\<lparr>CtxPhysicalAddress := pa + (VirtualAddress AND 0x1FFFFF)\<rparr>) m)
        }
        else Some (True, ctx, m))
     else do {
       ASSERT (PageLevel = 4);
       pa \<leftarrow> PteGetPhysicalAddress PageTable m;
       Some (VmRetrievePhyAccess_found PageTable VirtualAddress (ctx\<lparr>CtxPhysicalAddress := pa\<rparr>) m)
     }
   }"

section \<open>Operations\<close>

definition VmmMapMemoryInternal ::
  "PAGING_DATA \<Rightarrow> ptr \<Rightarrow> QWORD \<Rightarrow> ptr \<Rightarrow> PAGE_RIGHTS \<Rightarrow> bool \<Rightarrow> bool \<Rightarrow> PAGING_MACHINE \<Rightarrow> (PAGING_DATA \<times> PAGING_MACHINE) option" where
  "VmmMapMemoryInternal PagingData PhysicalAddress Size BaseAddress Rights Invalidate Uncached m = do {
     ASSERT (IsAddressAligned PhysicalAddress PAGE_SIZE);
     ASSERT (0 \<noteq> Size \<and> IsAddressAligned Size PAGE_SIZE);
     let ctx = zero_MAP_CONTEXT\<lparr>CtxPagingData := PagingData, PhysicalAddressBase := PhysicalAddress, VirtualAddressBase := BaseAddress,
       CtxPageRights := Rights, CtxInvalidate := Invalidate, CtxUncacheable := Uncached\<rparr>;
     let cr3 = BasePhysicalAddress PagingData;
     (ctx, m) \<leftarrow> VmWalkPagingTables cr3 BaseAddress Size VmMapPage ctx m;
     Some (CtxPagingData ctx, m)
   }"

definition VmmMapMemoryEx ::
  "PAGING_DATA \<Rightarrow> ptr \<Rightarrow> QWORD \<Rightarrow> PAGE_RIGHTS \<Rightarrow> bool \<Rightarrow> bool \<Rightarrow> VMM_RESERVATION_SPACE \<Rightarrow> PAGING_MACHINE
    \<Rightarrow> (ptr \<times> VMM_RESERVATION_SPACE \<times> PAGING_DATA \<times> PAGING_MACHINE) option" where
  "VmmMapMemoryEx PagingData PhysicalAddress Size Rights Invalidate Uncached sp m =
     (if \<not> IsAddressAligned PhysicalAddress PAGE_SIZE then Some (NULL, sp, PagingData, m)
      else if 0 = Size \<or> \<not> IsAddressAligned Size PAGE_SIZE then Some (NULL, sp, PagingData, m)
      else do {
        let (pVirtualAddress, sp) = VmReservationSpaceDetermineNextFreeVirtualAddress sp Size;
        ASSERT (IsAddressAligned pVirtualAddress PAGE_SIZE);
        (PagingData, m) \<leftarrow> VmmMapMemoryInternal PagingData PhysicalAddress Size pVirtualAddress Rights Invalidate Uncached m;
        Some (pVirtualAddress, sp, PagingData, m)
      })"

definition VmmUnmapMemoryEx :: "PML4 \<Rightarrow> ptr \<Rightarrow> QWORD \<Rightarrow> bool \<Rightarrow> PAGING_MACHINE \<Rightarrow> PAGING_MACHINE option" where
  "VmmUnmapMemoryEx Cr3 VirtualAddress Size Release m =
     (if NULL = VirtualAddress \<or> \<not> IsAddressAligned VirtualAddress PAGE_SIZE then Some m
      else if 0 = Size \<or> \<not> IsAddressAligned Size PAGE_SIZE then Some m
      else do {
        (ctx, m) \<leftarrow> VmWalkPagingTables Cr3 VirtualAddress Size VmUnmapPage (zero_MAP_CONTEXT\<lparr>ReleaseMemory := Release\<rparr>) m;
        Some m
      })"

text \<open>\<open>WantAccessed\<close> and \<open>WantDirty\<close> say if the caller passes a place for the bit; the result has the bits that are stored there.\<close>

definition VmmGetPhysicalAddressEx :: "PML4 \<Rightarrow> ptr \<Rightarrow> bool \<Rightarrow> bool \<Rightarrow> PAGING_MACHINE \<Rightarrow> (ptr \<times> bool \<times> bool \<times> PAGING_MACHINE) option" where
  "VmmGetPhysicalAddressEx Cr3 VirtualAddress WantAccessed WantDirty m = do {
     ASSERT (NULL \<noteq> VirtualAddress);
     ASSERT (IsAddressAligned VirtualAddress PAGE_SIZE);
     let ctx = \<lparr>CtxPhysicalAddress = NULL, CtxAccessed = False, CtxDirty = False, ClearAccessed = WantAccessed, ClearDirty = WantDirty\<rparr>;
     (ctx, m) \<leftarrow> VmWalkPagingTables Cr3 VirtualAddress PAGE_SIZE VmRetrievePhyAccess ctx m;
     Some (CtxPhysicalAddress ctx, CtxAccessed ctx, CtxDirty ctx, m)
   }"

text \<open>The loop over the bytes of the register, with the index and what was found so far.\<close>

fun VmDeterminePatIndices_loop :: "BYTE list \<Rightarrow> BYTE \<Rightarrow> BYTE option \<Rightarrow> BYTE option \<Rightarrow> BYTE option \<times> BYTE option" where
  "VmDeterminePatIndices_loop [] i wb uc = (wb, uc)"
| "VmDeterminePatIndices_loop (v # vs) i wb uc =
     (if v = 0 then VmDeterminePatIndices_loop vs (i + 1) wb (if uc = None then Some i else uc)
      else if v = 6 then VmDeterminePatIndices_loop vs (i + 1) (if wb = None then Some i else wb) uc
      else VmDeterminePatIndices_loop vs (i + 1) wb uc)"

definition VmDeterminePatIndices :: "QWORD \<Rightarrow> BYTE option \<times> BYTE option" where
  "VmDeterminePatIndices PatValues = VmDeterminePatIndices_loop (map (\<lambda>k. ucast (drop_bit (8 * k) PatValues)) [0..<8]) 0 None None"

abbreviation STATUS_PAT_LAYOUT_NOT_COMPATIBLE :: STATUS where "STATUS_PAT_LAYOUT_NOT_COMPATIBLE \<equiv> 0xE0100008"

text \<open>The value of the register \<^verbatim>\<open>IA32_PAT\<close> is an argument.\<close>

definition VmmPreparePagingData :: "QWORD \<Rightarrow> PAGING_MACHINE \<Rightarrow> STATUS \<times> PAGING_MACHINE" where
  "VmmPreparePagingData ia32PatValues m =
     (let (wb, uc) = VmDeterminePatIndices ia32PatValues;
          m = m\<lparr>WriteBackIndex := (case wb of None \<Rightarrow> WriteBackIndex m | Some i \<Rightarrow> i)\<rparr>;
          m = m\<lparr>UncacheableIndex := (case uc of None \<Rightarrow> UncacheableIndex m | Some i \<Rightarrow> i)\<rparr>
      in if \<not> (wb \<noteq> None \<and> uc \<noteq> None) then (STATUS_PAT_LAYOUT_NOT_COMPATIBLE, m) else (STATUS_SUCCESS, m))"

text \<open>
  \<open>PagingDataWhereToMap\<close> is None if it is the same structure as \<open>PagingData\<close>. The result has the structure
  where the tables were mapped, if it is another one, and \<open>PagingData\<close>.
\<close>

definition VmmSetupPageTables ::
  "PAGING_DATA option \<Rightarrow> PAGING_DATA \<Rightarrow> ptr \<Rightarrow> DWORD \<Rightarrow> bool \<Rightarrow> PAGING_MACHINE
    \<Rightarrow> (STATUS \<times> PAGING_DATA option \<times> PAGING_DATA \<times> PAGING_MACHINE) option" where
  "VmmSetupPageTables PagingDataWhereToMap PagingData PhysicalBase FramesReserved KernelStructures m = do {
     ASSERT (PhysicalBase \<noteq> NULL);
     ASSERT (FramesReserved \<noteq> 0);
     let pBaseVirtualAddress = PA2VA m PhysicalBase;
     ASSERT (FramesReserved \<le> MAX_DWORD div 0x1000);
     let sizeReservedForPagingStructures = FramesReserved * 0x1000;
     let PagingData = PagingData\<lparr>CurrentIndex := 1, NumberOfFrames := FramesReserved, BasePhysicalAddress := PhysicalBase, KernelSpace := KernelStructures\<rparr>;
     case PagingDataWhereToMap of
       None \<Rightarrow> do {
         (PagingData, m) \<leftarrow> VmmMapMemoryInternal PagingData (BasePhysicalAddress PagingData) (ucast sizeReservedForPagingStructures) pBaseVirtualAddress
           PAGE_RIGHTS_READWRITE True False m;
         Some (STATUS_SUCCESS, None, PagingData, m)
       }
     | Some other \<Rightarrow> do {
         (other, m) \<leftarrow> VmmMapMemoryInternal other (BasePhysicalAddress PagingData) (ucast sizeReservedForPagingStructures) pBaseVirtualAddress
           PAGE_RIGHTS_READWRITE True False m;
         Some (STATUS_SUCCESS, Some other, PagingData, memzero_page pBaseVirtualAddress m)
       }
   }"

section \<open>Fields of an entry\<close>

lemmas layout_defs = PML4_Pcide_def PML4_ENTRY_def PD_ENTRY_PT_def PD_ENTRY_2MB_def PT_ENTRY_def

definition present :: "QWORD \<Rightarrow> bool" where "present e = bit e 0"
definition large :: "QWORD \<Rightarrow> bool" where "large e = bit e 7"
definition phys :: "QWORD \<Rightarrow> ptr" where "phys e = push_bit 12 (take_bit 40 (drop_bit 12 e))"

lemma one_bit_eq:
  fixes x :: QWORD
  shows "take_bit 1 (drop_bit n x) = (if bit x n then 1 else 0)"
  by (simp add: bit_iff_odd_drop_bit odd_iff_mod_2_eq_one)

lemma field_values:
  "bf_get PML4_Pcide ''PhysicalAddress'' e = take_bit 40 (drop_bit 12 e)"
  "bf_get PT_ENTRY ''PhysicalAddress'' e = take_bit 40 (drop_bit 12 e)"
  "bf_get PD_ENTRY_2MB ''PhysicalAddress'' e = take_bit 31 (drop_bit 21 e)"
  "bf_get PML4_ENTRY ''Present'' e = (if present e then 1 else 0)"
  "bf_get PD_ENTRY_PT ''PageSize'' e = (if large e then 1 else 0)"
  "bf_get PD_ENTRY_2MB ''PageSize'' e = (if large e then 1 else 0)"
  "bf_get PT_ENTRY ''Accessed'' e = (if bit e 5 then 1 else 0)"
  "bf_get PT_ENTRY ''Dirty'' e = (if bit e 6 then 1 else 0)"
  using one_bit_eq [of 0 e]
  by (simp_all add: bf_get_def layout_defs present_def large_def one_bit_eq del: One_nat_def)

lemma bit_bf_set:
  assumes "field_from 0 L n = (b, w)" and "b + w \<le> 64"
  shows "bit (bf_set L n v e) k = (if b \<le> k \<and> k < b + w then bit v (k - b) else bit e k)"
proof (cases "k < 64")
  case True
  then show ?thesis by (auto simp: bf_set_def assms bit_simps simp del: bit_0)
next
  case False
  then have "\<not> bit e k" "\<not> bit (bf_set L n v e) k" "\<not> k < b + w"
    using assms(2) by (auto dest: bit_imp_le_length)
  then show ?thesis by simp
qed

lemma bit_bf_set_one:
  assumes "field_from 0 L n = (b, 1)" and "b < 64"
  shows "bit (bf_set L n v e) k = (if k = b then bit v 0 else bit e k)"
  using bit_bf_set [OF assms(1)] assms(2) by (auto simp del: bit_0)

lemma set_fields:
  "bit (bf_set PT_ENTRY ''PhysicalAddress'' v e) k = (if 12 \<le> k \<and> k < 52 then bit v (k - 12) else bit e k)"
  "bit (bf_set PT_ENTRY ''Present'' v e) k = (if k = 0 then bit v 0 else bit e k)"
  "bit (bf_set PT_ENTRY ''ReadWrite'' v e) k = (if k = 1 then bit v 0 else bit e k)"
  "bit (bf_set PT_ENTRY ''UserSupervisor'' v e) k = (if k = 2 then bit v 0 else bit e k)"
  "bit (bf_set PT_ENTRY ''PWT'' v e) k = (if k = 3 then bit v 0 else bit e k)"
  "bit (bf_set PT_ENTRY ''PCD'' v e) k = (if k = 4 then bit v 0 else bit e k)"
  "bit (bf_set PT_ENTRY ''Accessed'' v e) k = (if k = 5 then bit v 0 else bit e k)"
  "bit (bf_set PT_ENTRY ''Dirty'' v e) k = (if k = 6 then bit v 0 else bit e k)"
  "bit (bf_set PT_ENTRY ''PAT'' v e) k = (if k = 7 then bit v 0 else bit e k)"
  "bit (bf_set PT_ENTRY ''Global'' v e) k = (if k = 8 then bit v 0 else bit e k)"
  "bit (bf_set PT_ENTRY ''XD'' v e) k = (if k = 63 then bit v 0 else bit e k)"
  by ((subst bit_bf_set_one bit_bf_set, simp add: layout_defs, simp, simp only: numeral_plus_numeral semiring_norm)+)

text \<open>The entry that \<open>PteMap\<close> stores.\<close>

definition pte_of :: "ptr \<Rightarrow> PTE_MAP_FLAGS \<Rightarrow> QWORD" where
  "pte_of pa f = the (map_option (\<lambda>m. Entries m 1) (PteMap 1 pa f undefined))"

lemma PteMap_eq: "p \<noteq> NULL \<Longrightarrow> PteMap p pa f m = Some (wr_entry p (pte_of pa f) m)"
  by (simp add: pte_of_def PteMap_def wr_entry_def Let_def)

lemma bit_pte_of:
  "bit (pte_of pa f) k \<longleftrightarrow> k = 0 \<or> k = 1 \<and> Writable f \<or> k = 2 \<and> UserAccess f
     \<or> \<not> PagingStructure f \<and> (k = 3 \<and> bit (PatIndex f) 0 \<or> k = 4 \<and> bit (PatIndex f) 1 \<or> k = 7 \<and> bit (PatIndex f) 2 \<or> k = 8 \<and> GlobalPage f)
     \<or> 12 \<le> k \<and> k < 52 \<and> bit pa k \<or> k = 63 \<and> \<not> Executable f"
  by (auto simp: pte_of_def PteMap_def wr_entry_def Let_def set_fields bit_simps bit_1_iff simp del: bit_0)

lemma phys_aligned_id:
  assumes "unat pa mod 4096 = 0" and "unat pa < 2 ^ 52"
  shows "phys pa = pa"
proof -
  have "take_bit 12 pa = 0"
    by (rule word_unat_eq_iff [THEN iffD2]) (simp only: unsigned_take_bit_eq, simp add: take_bit_eq_mod assms)
  moreover have "take_bit 52 pa = pa"
    using assms(2) by (intro word_unat_eq_iff [THEN iffD2]) (simp only: unsigned_take_bit_eq, simp add: take_bit_eq_mod)
  ultimately have "12 \<le> k \<and> k < 52" if "bit pa k" for k
    using that by (metis bit_take_bit_iff bit_0_eq bot_apply bot_bool_def not_le)
  then show ?thesis
    by (intro bit_word_eqI) (fastforce simp: phys_def bit_simps)
qed

lemma phys_is_aligned [simp]: "IsAddressAligned (phys e) PAGE_SIZE"
proof -
  have "take_bit 12 (phys e) = 0" by (rule bit_word_eqI) (auto simp: phys_def bit_simps)
  then show ?thesis by (simp add: IsAddressAligned_def take_bit_eq_mask mask_eq_exp_minus_1)
qed

lemma phys_pte_of: "phys (pte_of pa f) = phys pa"
  by (rule bit_word_eqI) (auto simp: phys_def bit_simps bit_pte_of)

lemma pte_of_flags [simp]:
  "present (pte_of pa f)" "PagingStructure f \<Longrightarrow> \<not> large (pte_of pa f)"
  by (auto simp: present_def large_def bit_pte_of simp del: bit_0)

lemma zero_entry [simp]: "\<not> present 0" "\<not> large 0"
  by (simp_all add: present_def large_def)

section \<open>The tree of tables\<close>

text \<open>The frames of the tables, and the entries of a table.\<close>

definition table_frame :: "PAGING_DATA \<Rightarrow> nat \<Rightarrow> ptr" where
  "table_frame pd i = BasePhysicalAddress pd + of_nat (i * 4096)"

abbreviation entry_at :: "PAGING_MACHINE \<Rightarrow> ptr \<Rightarrow> nat \<Rightarrow> ptr" where
  "entry_at m t k \<equiv> PA2VA m t + 8 * of_nat k"

definition entry :: "PAGING_MACHINE \<Rightarrow> ptr \<Rightarrow> nat \<Rightarrow> QWORD" where
  "entry m t k = Entries m (entry_at m t k)"

text \<open>The table that is reached from another one along a list of offsets, the way the processor does it.\<close>

fun walk_to :: "PAGING_MACHINE \<Rightarrow> ptr \<Rightarrow> nat list \<Rightarrow> ptr option" where
  "walk_to m t [] = Some t"
| "walk_to m t (k # ks) = (if present (entry m t k) then walk_to m (phys (entry m t k)) ks else None)"

lemma walk_to_snoc:
  "walk_to m t (ks @ [k]) = (case walk_to m t ks of None \<Rightarrow> None | Some u \<Rightarrow> if present (entry m u k) then Some (phys (entry m u k)) else None)"
  by (induction ks arbitrary: t) auto

text \<open>The offsets of an address in the tables, and the entry that maps its page, if there is one.\<close>

definition table_path :: "ptr \<Rightarrow> nat list" where
  "table_path va = [unat (MASK_PML4_OFFSET va), unat (MASK_PDPTE_OFFSET va), unat (MASK_PDE_OFFSET va)]"

definition page_slot :: "ptr \<Rightarrow> nat" where
  "page_slot va = unat (MASK_PTE_OFFSET va)"

definition translate :: "PAGING_MACHINE \<Rightarrow> ptr \<Rightarrow> ptr \<Rightarrow> QWORD option" where
  "translate m root va = (case walk_to m root (table_path va) of None \<Rightarrow> None
     | Some t \<Rightarrow> if present (entry m t (page_slot va)) then Some (entry m t (page_slot va)) else None)"

text \<open>The number of the page of an address; the upper 16 bits of an address take no part in the translation.\<close>

definition vpn :: "ptr \<Rightarrow> QWORD" where
  "vpn va = take_bit 36 (drop_bit 12 va)"

text \<open>
  The tables: their frames are contiguous, lie below \<^term>\<open>2 ^ 52\<close> and are accessible at their virtual
  addresses, and the frames in use form a tree whose root is the first one; \<open>lv i\<close> is the level of frame \<open>i\<close>.
\<close>

definition frames_ok :: "PAGING_DATA \<Rightarrow> PAGING_MACHINE \<Rightarrow> bool" where
  "frames_ok pd m \<longleftrightarrow> unat (BasePhysicalAddress pd) mod 4096 = 0
     \<and> unat (BasePhysicalAddress pd) + unat (NumberOfFrames pd) * 4096 \<le> 2 ^ 52
     \<and> unat (NumberOfFrames pd) \<le> 2 ^ 20 \<and> 0 < unat (CurrentIndex pd) \<and> unat (CurrentIndex pd) \<le> unat (NumberOfFrames pd)
     \<and> 0 < unat (PA2VA m (BasePhysicalAddress pd)) \<and> unat (PA2VA m (BasePhysicalAddress pd)) mod 4096 = 0
     \<and> unat (PA2VA m (BasePhysicalAddress pd)) + unat (NumberOfFrames pd) * 4096 \<le> 2 ^ 64"

definition tables_wf :: "(nat \<Rightarrow> nat) \<Rightarrow> PAGING_DATA \<Rightarrow> PAGING_MACHINE \<Rightarrow> bool" where
  "tables_wf lv pd m \<longleftrightarrow> frames_ok pd m \<and> lv 0 = 1 \<and> (\<forall>i < unat (CurrentIndex pd). 1 \<le> lv i \<and> lv i \<le> 4)
     \<and> (\<forall>i k. i < unat (CurrentIndex pd) \<longrightarrow> lv i < 4 \<longrightarrow> k < 512 \<longrightarrow> present (entry m (table_frame pd i) k) \<longrightarrow>
          \<not> large (entry m (table_frame pd i) k)
          \<and> (\<exists>j. 0 < j \<and> j < unat (CurrentIndex pd) \<and> phys (entry m (table_frame pd i) k) = table_frame pd j \<and> lv j = Suc (lv i)))
     \<and> (\<forall>i k i' k'. i < unat (CurrentIndex pd) \<longrightarrow> i' < unat (CurrentIndex pd) \<longrightarrow> lv i < 4 \<longrightarrow> lv i' < 4 \<longrightarrow> k < 512 \<longrightarrow> k' < 512 \<longrightarrow>
          present (entry m (table_frame pd i) k) \<longrightarrow> present (entry m (table_frame pd i') k') \<longrightarrow>
          phys (entry m (table_frame pd i) k) = phys (entry m (table_frame pd i') k') \<longrightarrow> i = i' \<and> k = k')"

definition tables_ok :: "PAGING_DATA \<Rightarrow> PAGING_MACHINE \<Rightarrow> bool" where
  "tables_ok pd m \<longleftrightarrow> (\<exists>lv. tables_wf lv pd m)"

lemma tables_wfD:
  assumes "tables_wf lv pd m"
  shows "frames_ok pd m" "lv 0 = 1" "i < unat (CurrentIndex pd) \<Longrightarrow> 1 \<le> lv i \<and> lv i \<le> 4" "0 < unat (CurrentIndex pd)"
    and "i < unat (CurrentIndex pd) \<Longrightarrow> lv i < 4 \<Longrightarrow> k < 512 \<Longrightarrow> present (entry m (table_frame pd i) k) \<Longrightarrow>
      \<not> large (entry m (table_frame pd i) k)
      \<and> (\<exists>j. 0 < j \<and> j < unat (CurrentIndex pd) \<and> phys (entry m (table_frame pd i) k) = table_frame pd j \<and> lv j = Suc (lv i))"
    and "i < unat (CurrentIndex pd) \<Longrightarrow> i' < unat (CurrentIndex pd) \<Longrightarrow> lv i < 4 \<Longrightarrow> lv i' < 4 \<Longrightarrow> k < 512 \<Longrightarrow> k' < 512 \<Longrightarrow>
      present (entry m (table_frame pd i) k) \<Longrightarrow> present (entry m (table_frame pd i') k') \<Longrightarrow>
      phys (entry m (table_frame pd i) k) = phys (entry m (table_frame pd i') k') \<Longrightarrow> i = i' \<and> k = k'"
  using assms unfolding tables_wf_def frames_ok_def by blast+

section \<open>Addresses of tables and entries\<close>

lemma unat_of_nat_small: "a < 2 ^ 64 \<Longrightarrow> unat (of_nat a :: QWORD) = a"
  by (simp add: unsigned_of_nat take_bit_nat_eq_self)

lemma of_nat_inj_small:
  "a < 2 ^ 64 \<Longrightarrow> b < 2 ^ 64 \<Longrightarrow> (of_nat a :: QWORD) = of_nat b \<longleftrightarrow> a = b"
  using unat_of_nat_small [of a] unat_of_nat_small [of b] by metis

lemma entry_offset:
  assumes "i < 2 ^ 20" "k < 512" "j < 2 ^ 20" "k' < 512"
  shows "entry_at m (table_frame pd i) k = entry_at m (table_frame pd j) k' \<longleftrightarrow> i = j \<and> k = k'"
proof -
  have "entry_at m (table_frame pd i) k = PA2VA m (BasePhysicalAddress pd) + of_nat (i * 4096 + 8 * k)" for i k
    by (simp add: table_frame_def PA2VA_def algebra_simps)
  then have "entry_at m (table_frame pd i) k = entry_at m (table_frame pd j) k' \<longleftrightarrow> (of_nat (i * 4096 + 8 * k) :: QWORD) = of_nat (j * 4096 + 8 * k')"
    by simp
  also have "\<dots> \<longleftrightarrow> i * 4096 + 8 * k = j * 4096 + 8 * k'"
    using assms by (intro of_nat_inj_small) simp_all
  also have "\<dots> \<longleftrightarrow> i * 512 + k = j * 512 + k'"
    by linarith
  also have "\<dots> \<longleftrightarrow> i = j \<and> k = k'"
    using assms(2,4) by (metis add_left_cancel div_mult_self3 div_less add_0 mult.commute zero_neq_numeral add_0_right)
  finally show ?thesis .
qed

lemma table_frame_inj:
  assumes "i < 2 ^ 20" "j < 2 ^ 20"
  shows "table_frame pd i = table_frame pd j \<longleftrightarrow> i = j"
  using assms of_nat_inj_small [of "i * 4096" "j * 4096"] by (simp add: table_frame_def)

lemma frames_okD:
  assumes "frames_ok pd m" and "i < unat (NumberOfFrames pd)"
  shows "unat (table_frame pd i) = unat (BasePhysicalAddress pd) + i * 4096" and "phys (table_frame pd i) = table_frame pd i"
    and "i < 2 ^ 20" and "k < 512 \<Longrightarrow> entry_at m (table_frame pd i) k \<noteq> NULL"
proof -
  let ?b = "unat (BasePhysicalAddress pd)" and ?v = "unat (PA2VA m (BasePhysicalAddress pd))"
  have h: "?b mod 4096 = 0" "?b + unat (NumberOfFrames pd) * 4096 \<le> 2 ^ 52" "unat (NumberOfFrames pd) \<le> 2 ^ 20"
    "0 < ?v" "?v + unat (NumberOfFrames pd) * 4096 \<le> 2 ^ 64"
    using assms(1) by (auto simp: frames_ok_def)
  show i: "i < 2 ^ 20" using h assms(2) by simp
  have n: "unat (of_nat (i * 4096) :: QWORD) = i * 4096"
    using i by (intro unat_of_nat_small) simp
  show u: "unat (table_frame pd i) = ?b + i * 4096"
    unfolding table_frame_def using h assms(2) unat_plus_if_small [of "BasePhysicalAddress pd" "of_nat (i * 4096)", unfolded n] by fastforce
  show "phys (table_frame pd i) = table_frame pd i"
    using h assms(2) by (intro phys_aligned_id) (simp_all add: u mod_add_eq [symmetric])
  show "entry_at m (table_frame pd i) k \<noteq> NULL" if "k < 512"
  proof -
    have e: "entry_at m (table_frame pd i) k = PA2VA m (BasePhysicalAddress pd) + of_nat (i * 4096 + 8 * k)"
      by (simp add: table_frame_def PA2VA_def algebra_simps)
    have s: "i * 4096 + 8 * k < unat (NumberOfFrames pd) * 4096" using that assms(2) by linarith
    then have "unat (entry_at m (table_frame pd i) k) = ?v + (i * 4096 + 8 * k)"
      unfolding e using h unat_of_nat_small [of "i * 4096 + 8 * k"] by (subst unat_plus_if_small) auto
    then show ?thesis using h(4) by (metis add_is_0 not_gr_zero unsigned_0)
  qed
qed

lemma offsets_lt_512:
  "unat (MASK_PML4_OFFSET va) < 512" "unat (MASK_PDPTE_OFFSET va) < 512" "unat (MASK_PDE_OFFSET va) < 512" "page_slot va < 512"
proof -
  have "unat (x AND (0x1FF :: QWORD)) < 512" for x
  proof -
    have "x AND 0x1FF = take_bit 9 x" by (simp add: take_bit_eq_mask mask_eq_exp_minus_1)
    then show ?thesis by (simp only: unsigned_take_bit_eq) (simp add: take_bit_eq_mod)
  qed
  then show "unat (MASK_PML4_OFFSET va) < 512" "unat (MASK_PDPTE_OFFSET va) < 512" "unat (MASK_PDE_OFFSET va) < 512" "page_slot va < 512"
    by (simp_all only: MASK_PML4_OFFSET_def MASK_PDPTE_OFFSET_def MASK_PDE_OFFSET_def MASK_PTE_OFFSET_def page_slot_def)
qed

lemma table_path_simps [simp]: "length (table_path va) = 3" "\<forall>k \<in> set (table_path va). k < 512"
  using offsets_lt_512 by (simp_all add: table_path_def)

lemma bits_eq_iff:
  fixes x y :: QWORD
  assumes "w \<le> 64"
  shows "take_bit w (drop_bit b x) = take_bit w (drop_bit b y) \<longleftrightarrow> (\<forall>k. b \<le> k \<longrightarrow> k < b + w \<longrightarrow> bit x k = bit y k)" (is "?l \<longleftrightarrow> ?r")
proof
  assume ?l
  then have "bit (take_bit w (drop_bit b x)) n = bit (take_bit w (drop_bit b y)) n" for n by simp
  then have "n < w \<Longrightarrow> bit x (b + n) = bit y (b + n)" for n by (auto simp: bit_simps)
  then show ?r by (metis add_less_cancel_left le_add_diff_inverse)
next
  assume ?r
  then show ?l by (intro bit_word_eqI) (auto simp: bit_simps)
qed

lemma bits_join:
  "a \<le> b \<Longrightarrow> b \<le> c \<Longrightarrow> (\<forall>k. b \<le> k \<longrightarrow> k < c \<longrightarrow> P k) \<and> (\<forall>k. a \<le> k \<longrightarrow> k < b \<longrightarrow> P k) \<longleftrightarrow> (\<forall>k::nat. a \<le> k \<longrightarrow> k < c \<longrightarrow> P k)"
  by (meson le_trans less_le_trans not_le)

lemma same_page_iff: "table_path va = table_path w \<and> page_slot va = page_slot w \<longleftrightarrow> vpn va = vpn w"
proof -
  have m: "x AND 0x1FF = take_bit 9 x" for x :: QWORD by (simp add: take_bit_eq_mask mask_eq_exp_minus_1)
  let ?e = "\<lambda>a b. \<forall>k. a \<le> k \<longrightarrow> k < b \<longrightarrow> bit va k = bit w k"
  have "table_path va = table_path w \<and> page_slot va = page_slot w \<longleftrightarrow> ?e 39 48 \<and> ?e 30 39 \<and> ?e 21 30 \<and> ?e 12 21"
    using bits_eq_iff [of 9 39 va w] bits_eq_iff [of 9 30 va w] bits_eq_iff [of 9 21 va w] bits_eq_iff [of 9 12 va w]
    by (simp add: table_path_def page_slot_def MASK_PML4_OFFSET_def MASK_PDPTE_OFFSET_def MASK_PDE_OFFSET_def MASK_PTE_OFFSET_def m
        flip: word_unat_eq_iff)
  also have "\<dots> \<longleftrightarrow> ?e 12 48"
    by (simp add: bits_join flip: conj_assoc)
  also have "\<dots> \<longleftrightarrow> vpn va = vpn w"
    using bits_eq_iff [of 36 12 va w] by (simp add: vpn_def)
  finally show ?thesis .
qed

lemma translate_vpn: "vpn x = vpn y \<Longrightarrow> translate m root x = translate m root y"
  using same_page_iff [of x y] by (simp add: translate_def cong: option.case_cong if_cong)

section \<open>Paths in the tree\<close>

text \<open>A path of offsets from the root leads to a frame whose level is one more than its length, and no two paths meet.\<close>

lemma walk_to_frame:
  assumes "tables_wf lv pd m" and "walk_to m (BasePhysicalAddress pd) ks = Some t" and "\<forall>k \<in> set ks. k < 512" and "length ks \<le> 3"
  shows "\<exists>i < unat (CurrentIndex pd). t = table_frame pd i \<and> lv i = Suc (length ks)"
  using assms(2-)
proof (induction ks arbitrary: t rule: rev_induct)
  case Nil
  then show ?case using tables_wfD [OF assms(1)] by (auto simp: table_frame_def intro: exI [of _ 0])
next
  case (snoc k ks)
  then obtain u where u: "walk_to m (BasePhysicalAddress pd) ks = Some u" "present (entry m u k)" "t = phys (entry m u k)"
    by (auto simp: walk_to_snoc split: option.splits if_splits)
  with snoc obtain i where "i < unat (CurrentIndex pd)" "u = table_frame pd i" "lv i = Suc (length ks)" by auto
  with snoc.prems u tables_wfD(5) [OF assms(1), of i k] show ?case by auto
qed

lemma walk_to_unique:
  assumes "tables_wf lv pd m" and "walk_to m (BasePhysicalAddress pd) ks = Some t" and "walk_to m (BasePhysicalAddress pd) ls = Some t"
    and "\<forall>k \<in> set ks. k < 512" and "\<forall>k \<in> set ls. k < 512" and "length ks \<le> 3" and "length ls = length ks"
  shows "ls = ks"
  using assms(2-)
proof (induction ks arbitrary: t ls rule: rev_induct)
  case (snoc k ks)
  from snoc.prems obtain ls' l where ls: "ls = ls' @ [l]" "length ls' = length ks" by (metis length_append_singleton length_Suc_conv_rev)
  from snoc.prems(1) obtain u where u: "walk_to m (BasePhysicalAddress pd) ks = Some u" "present (entry m u k)" "t = phys (entry m u k)"
    by (auto simp: walk_to_snoc split: option.splits if_splits)
  from snoc.prems(2) obtain v where v: "walk_to m (BasePhysicalAddress pd) ls' = Some v" "present (entry m v l)" "t = phys (entry m v l)"
    by (auto simp: ls walk_to_snoc split: option.splits if_splits)
  obtain i where i: "i < unat (CurrentIndex pd)" "u = table_frame pd i" "lv i = Suc (length ks)"
    using walk_to_frame [OF assms(1) u(1)] snoc.prems by auto
  obtain j where j: "j < unat (CurrentIndex pd)" "v = table_frame pd j" "lv j = Suc (length ks)"
    using walk_to_frame [OF assms(1) v(1)] snoc.prems ls by auto
  have "i = j \<and> k = l"
    using tables_wfD(6) [OF assms(1) i(1) j(1)] i j u v snoc.prems ls by auto
  with snoc.IH [OF u(1)] v(1) i j snoc.prems ls show ?case by auto
qed simp

section \<open>Changing an entry\<close>

text \<open>Adding a table: a free entry of a table above the last level now refers to the next frame, which is zero.\<close>

definition adds_table :: "PAGING_DATA \<Rightarrow> nat \<Rightarrow> nat \<Rightarrow> QWORD \<Rightarrow> PAGING_MACHINE \<Rightarrow> PAGING_MACHINE \<Rightarrow> bool" where
  "adds_table pd i k e m m' \<longleftrightarrow> gVirtualToPhysicalOffset m' = gVirtualToPhysicalOffset m \<and> present e \<and> \<not> large e \<and> phys e = table_frame pd (unat (CurrentIndex pd))
     \<and> \<not> present (entry m (table_frame pd i) k) \<and> entry m' (table_frame pd i) k = e
     \<and> (\<forall>j k'. j < unat (CurrentIndex pd) \<longrightarrow> k' < 512 \<longrightarrow> (j, k') \<noteq> (i, k) \<longrightarrow> entry m' (table_frame pd j) k' = entry m (table_frame pd j) k')
     \<and> (\<forall>k' < 512. entry m' (table_frame pd (unat (CurrentIndex pd))) k' = 0)"

text \<open>Changing the entry of a page in a table of the last level.\<close>

definition sets_page :: "PAGING_DATA \<Rightarrow> nat \<Rightarrow> nat \<Rightarrow> QWORD \<Rightarrow> PAGING_MACHINE \<Rightarrow> PAGING_MACHINE \<Rightarrow> bool" where
  "sets_page pd i k e m m' \<longleftrightarrow> gVirtualToPhysicalOffset m' = gVirtualToPhysicalOffset m \<and> entry m' (table_frame pd i) k = e
     \<and> (\<forall>j k'. j < unat (CurrentIndex pd) \<longrightarrow> k' < 512 \<longrightarrow> (j, k') \<noteq> (i, k) \<longrightarrow> entry m' (table_frame pd j) k' = entry m (table_frame pd j) k')"

lemma next_index:
  assumes "frames_ok pd m" and "unat (CurrentIndex pd) < unat (NumberOfFrames pd)"
  shows "unat (CurrentIndex (pd\<lparr>CurrentIndex := CurrentIndex pd + 1\<rparr>)) = Suc (unat (CurrentIndex pd))"
  using assms unat_plus_if_small [of "CurrentIndex pd" 1] by (simp add: frames_ok_def)

lemma adds_table_walk:
  assumes "tables_wf lv pd m" and "adds_table pd i k e m m'" and "i < unat (CurrentIndex pd)" and "lv i < 4" and "k < 512"
    and "unat (CurrentIndex pd) < unat (NumberOfFrames pd)" and "\<forall>l \<in> set ks. l < 512" and "length ks \<le> 3"
  shows "walk_to m' (BasePhysicalAddress pd) ks =
    (if \<exists>ls. ks = ls @ [k] \<and> walk_to m (BasePhysicalAddress pd) ls = Some (table_frame pd i) then Some (table_frame pd (unat (CurrentIndex pd)))
     else walk_to m (BasePhysicalAddress pd) ks)"
  using assms(7-)
proof (induction ks rule: rev_induct)
  case (snoc l ks)
  note new = assms(2) [unfolded adds_table_def]
  have IH: "walk_to m' (BasePhysicalAddress pd) ks =
    (if \<exists>ls. ks = ls @ [k] \<and> walk_to m (BasePhysicalAddress pd) ls = Some (table_frame pd i) then Some (table_frame pd (unat (CurrentIndex pd)))
     else walk_to m (BasePhysicalAddress pd) ks)"
    using snoc by simp
  show ?case
  proof (cases "\<exists>ls. ks = ls @ [k] \<and> walk_to m (BasePhysicalAddress pd) ls = Some (table_frame pd i)")
    case True
    then have "walk_to m (BasePhysicalAddress pd) ks = None" using new by (auto simp: walk_to_snoc)
    with True IH new snoc.prems show ?thesis by (auto simp: walk_to_snoc)
  next
    case False
    have eq: "walk_to m' (BasePhysicalAddress pd) ks = walk_to m (BasePhysicalAddress pd) ks"
      using IH unfolding if_not_P [OF False] .
    show ?thesis
    proof (cases "walk_to m (BasePhysicalAddress pd) ks")
      case None
      with eq show ?thesis by (auto simp: walk_to_snoc)
    next
      case (Some t)
      then obtain j where j: "j < unat (CurrentIndex pd)" "t = table_frame pd j"
        using walk_to_frame [OF assms(1) Some] snoc.prems by auto
      have "table_frame pd j = table_frame pd i \<longleftrightarrow> j = i"
        using table_frame_inj frames_okD(3) [OF tables_wfD(1) [OF assms(1)]] j(1) assms(3,6) by (meson less_trans)
      with eq Some j new snoc.prems show ?thesis by (cases "(j, l) = (i, k)") (auto simp: walk_to_snoc)
    qed
  qed
qed simp

lemma table_frame_index [simp]: "table_frame (pd\<lparr>CurrentIndex := x\<rparr>) = table_frame pd"
  by (simp add: table_frame_def fun_eq_iff)

lemma frames_ok_next:
  assumes "frames_ok pd m" and "unat (CurrentIndex pd) < unat (NumberOfFrames pd)" and "gVirtualToPhysicalOffset m' = gVirtualToPhysicalOffset m"
  shows "frames_ok (pd\<lparr>CurrentIndex := CurrentIndex pd + 1\<rparr>) m'"
  using assms next_index [OF assms(1,2)] by (simp add: frames_ok_def PA2VA_def)

lemma tables_frame_inj:
  assumes "tables_wf lv pd m" and "i < unat (NumberOfFrames pd)" and "j < unat (NumberOfFrames pd)"
  shows "table_frame pd i = table_frame pd j \<longleftrightarrow> i = j"
  using table_frame_inj frames_okD(3) [OF tables_wfD(1) [OF assms(1)]] assms by blast

lemma index_lt_frames:
  assumes "tables_wf lv pd m" and "i < unat (CurrentIndex pd)"
  shows "i < unat (NumberOfFrames pd)"
  using tables_wfD(1) [OF assms(1)] assms(2) by (auto simp: frames_ok_def)

lemma adds_table_wf:
  assumes wf: "tables_wf lv pd m" and add: "adds_table pd i k e m m'" and i: "i < unat (CurrentIndex pd)" "lv i < 4" "k < 512"
    and room: "unat (CurrentIndex pd) < unat (NumberOfFrames pd)"
  shows "tables_wf (lv(unat (CurrentIndex pd) := Suc (lv i))) (pd\<lparr>CurrentIndex := CurrentIndex pd + 1\<rparr>) m'"
proof -
  let ?c = "unat (CurrentIndex pd)" and ?lv = "lv(unat (CurrentIndex pd) := Suc (lv i))" and ?E = "\<lambda>m j. entry m (table_frame pd j)"
  note ad = add [unfolded adds_table_def] and old = tables_wfD [OF wf]
  note idx = next_index [OF old(1) room]
  have c0: "0 < ?c" using old(4) .
  have ent: "present (?E m' j l) \<Longrightarrow> j < Suc ?c \<Longrightarrow> l < 512 \<Longrightarrow> (j, l) \<noteq> (i, k) \<Longrightarrow> j < ?c \<and> present (?E m j l) \<and> ?E m' j l = ?E m j l" for j l
    using ad by (cases "j = ?c") auto
  have lt: "?lv j < 4 \<Longrightarrow> j < ?c \<Longrightarrow> lv j < 4" for j by simp
  have child: "\<not> large (?E m' j l) \<and> (\<exists>n. 0 < n \<and> n < Suc ?c \<and> phys (?E m' j l) = table_frame pd n \<and> ?lv n = Suc (?lv j))"
    if "j < Suc ?c" "?lv j < 4" "l < 512" "present (?E m' j l)" for j l
  proof (cases "(j, l) = (i, k)")
    case True
    then show ?thesis using ad i(1) c0 by (auto intro!: exI [of _ ?c])
  next
    case False
    note h = ent [OF that(4,1,3) False] and p = that(2,3)
    obtain n where "0 < n" "n < ?c" "phys (?E m j l) = table_frame pd n" "lv n = Suc (lv j)" "\<not> large (?E m j l)"
      using old(5) [of j l] h p by auto
    then show ?thesis using h by (intro conjI exI [of _ n]) auto
  qed
  have uniq: "j = j' \<and> l = l'"
    if "j < Suc ?c" "j' < Suc ?c" "?lv j < 4" "?lv j' < 4" "l < 512" "l' < 512" "present (?E m' j l)" "present (?E m' j' l')"
      "phys (?E m' j l) = phys (?E m' j' l')" for j l j' l'
  proof -
    have fresh: "phys (?E m' a b) \<noteq> table_frame pd ?c" if ab: "(a, b) \<noteq> (i, k)" "a < Suc ?c" "?lv a < 4" "b < 512" "present (?E m' a b)" for a b
    proof -
      note h = ent [OF ab(5,2,4,1)]
      obtain n where "n < ?c" "phys (?E m a b) = table_frame pd n" using old(5) [of a b] h ab by auto
      moreover have "table_frame pd n \<noteq> table_frame pd ?c"
        using tables_frame_inj [OF wf _ room] index_lt_frames [OF wf] \<open>n < ?c\<close> by blast
      ultimately show ?thesis using h by simp
    qed
    have phi: "phys (?E m' i k) = table_frame pd ?c" using ad by simp
    consider "(j, l) = (i, k)" "(j', l') = (i, k)" | "(j, l) = (i, k)" "(j', l') \<noteq> (i, k)" | "(j, l) \<noteq> (i, k)" "(j', l') = (i, k)"
      | "(j, l) \<noteq> (i, k)" "(j', l') \<noteq> (i, k)" by blast
    then show ?thesis
    proof cases
      case 4
      then show ?thesis using ent [of j l] ent [of j' l'] old(6) [of j j' l l'] that by auto
    qed (use fresh [of j l] fresh [of j' l'] phi that in auto)
  qed
  have fo: "frames_ok (pd\<lparr>CurrentIndex := CurrentIndex pd + 1\<rparr>) m'" using frames_ok_next [OF old(1) room] ad by simp
  have lv0: "?lv 0 = 1" using old(2) c0 by simp
  have bnd: "1 \<le> ?lv j \<and> ?lv j \<le> 4" if "j < Suc ?c" for j using that old(3) [of j] i(2) by (auto simp: less_Suc_eq)
  show ?thesis
    unfolding tables_wf_def idx table_frame_index using fo lv0 bnd child uniq by blast
qed

lemma adds_table_translate:
  assumes "tables_wf lv pd m" and "adds_table pd i k e m m'" and "i < unat (CurrentIndex pd)" and "lv i < 4" and "k < 512"
    and "unat (CurrentIndex pd) < unat (NumberOfFrames pd)"
  shows "translate m' (BasePhysicalAddress pd) = translate m (BasePhysicalAddress pd)"
proof
  fix va
  note new = assms(2) [unfolded adds_table_def]
  note w = adds_table_walk [OF assms, of "table_path va", simplified]
  show "translate m' (BasePhysicalAddress pd) va = translate m (BasePhysicalAddress pd) va"
  proof (cases "\<exists>ls. table_path va = ls @ [k] \<and> walk_to m (BasePhysicalAddress pd) ls = Some (table_frame pd i)")
    case True
    then have "walk_to m (BasePhysicalAddress pd) (table_path va) = None" using new by (auto simp: walk_to_snoc)
    with True w new offsets_lt_512(4) [of va] show ?thesis by (simp add: translate_def)
  next
    case False
    have eq: "walk_to m' (BasePhysicalAddress pd) (table_path va) = walk_to m (BasePhysicalAddress pd) (table_path va)"
      using w unfolding if_not_P [OF False] .
    show ?thesis
    proof (cases "walk_to m (BasePhysicalAddress pd) (table_path va)")
      case (Some t)
      then obtain j where j: "j < unat (CurrentIndex pd)" "t = table_frame pd j" "lv j = 4"
        using walk_to_frame [OF assms(1) Some] by auto
      then have "entry m' t (page_slot va) = entry m t (page_slot va)"
        using new assms(4) offsets_lt_512(4) [of va] by (cases "j = i") auto
      then show ?thesis by (simp add: translate_def eq Some)
    qed (simp add: translate_def eq)
  qed
qed

lemma sets_page_walk:
  assumes "tables_wf lv pd m" and "sets_page pd i k e m m'" and "lv i = 4" and "\<forall>l \<in> set ks. l < 512" and "length ks \<le> 3"
  shows "walk_to m' (BasePhysicalAddress pd) ks = walk_to m (BasePhysicalAddress pd) ks"
  using assms(4-)
proof (induction ks rule: rev_induct)
  case (snoc l ks)
  then have eq: "walk_to m' (BasePhysicalAddress pd) ks = walk_to m (BasePhysicalAddress pd) ks" by simp
  show ?case
  proof (cases "walk_to m (BasePhysicalAddress pd) ks")
    case (Some t)
    then obtain j where "j < unat (CurrentIndex pd)" "t = table_frame pd j" "lv j = Suc (length ks)"
      using walk_to_frame [OF assms(1) Some] snoc.prems by auto
    then have "entry m' t l = entry m t l"
      using assms(2,3) snoc.prems by (cases "j = i") (auto simp: sets_page_def)
    then show ?thesis by (simp add: walk_to_snoc eq Some)
  qed (simp add: walk_to_snoc eq)
qed simp

lemma sets_page_wf:
  assumes "tables_wf lv pd m" and "sets_page pd i k e m m'" and "lv i = 4"
  shows "tables_wf lv pd m'"
proof -
  have "frames_ok pd m'"
    using tables_wfD(1) [OF assms(1)] assms(2) by (simp add: frames_ok_def sets_page_def PA2VA_def)
  moreover have "j < unat (CurrentIndex pd) \<Longrightarrow> lv j < 4 \<Longrightarrow> l < 512 \<Longrightarrow> entry m' (table_frame pd j) l = entry m (table_frame pd j) l" for j l
    using assms(2,3) by (cases "j = i") (auto simp: sets_page_def)
  ultimately show ?thesis
    using assms(1) by (simp add: tables_wf_def)
qed

lemma sets_page_translate:
  assumes "tables_wf lv pd m" and "sets_page pd i k e m m'" and "lv i = 4" and "i < unat (CurrentIndex pd)"
    and "walk_to m (BasePhysicalAddress pd) (table_path va) = Some (table_frame pd i)" and "k = page_slot va"
  shows "translate m' (BasePhysicalAddress pd) w =
    (if vpn w = vpn va then (if present e then Some e else None) else translate m (BasePhysicalAddress pd) w)"
proof -
  note eq = sets_page_walk [OF assms(1-3), of "table_path w", simplified]
  show ?thesis
  proof (cases "walk_to m (BasePhysicalAddress pd) (table_path w)")
    case None
    then have "vpn w \<noteq> vpn va" using assms(5) same_page_iff [of w va] by auto
    then show ?thesis using None by (simp add: translate_def eq)
  next
    case (Some t)
    then obtain j where j: "j < unat (CurrentIndex pd)" "t = table_frame pd j"
      using walk_to_frame [OF assms(1) Some] by auto
    have "(j, page_slot w) = (i, k) \<longleftrightarrow> vpn w = vpn va"
      using walk_to_unique [OF assms(1) assms(5), of "table_path w"] same_page_iff [of w va] Some j assms(4-6)
        tables_frame_inj [OF assms(1)] index_lt_frames [OF assms(1)] by auto
    then show ?thesis
      using assms(2) j offsets_lt_512(4) [of w] by (auto simp: translate_def eq Some sets_page_def)
  qed
qed

section \<open>The steps of a walk\<close>

lemma entry_simps [simp]:
  "PA2VA (wr_entry p e m) = PA2VA m" "PA2VA (memzero_page q m) = PA2VA m" "PA2VA (PageInvalidateTlb v m) = PA2VA m"
  "PA2VA (m\<lparr>ReleasedFrames := r\<rparr>) = PA2VA m"
  "entry (PageInvalidateTlb v m) = entry m" "entry (m\<lparr>ReleasedFrames := r\<rparr>) = entry m"
  "gVirtualToPhysicalOffset (wr_entry p e m) = gVirtualToPhysicalOffset m"
  "gVirtualToPhysicalOffset (memzero_page q m) = gVirtualToPhysicalOffset m"
  "gVirtualToPhysicalOffset (PageInvalidateTlb v m) = gVirtualToPhysicalOffset m"
  by (auto simp: PA2VA_def wr_entry_def memzero_page_def PageInvalidateTlb_def entry_def fun_eq_iff)

lemma entry_wr_entry:
  assumes "i < 2 ^ 20" "k < 512" "j < 2 ^ 20" "l < 512"
  shows "entry (wr_entry (entry_at m (table_frame pd i) k) e m) (table_frame pd j) l = (if j = i \<and> l = k then e else entry m (table_frame pd j) l)"
  using entry_offset [OF assms(3,4,1,2), of m pd] unfolding entry_def entry_simps by (simp add: wr_entry_def)

lemma entry_memzero:
  assumes "i < 2 ^ 20" "j < 2 ^ 20" "l < 512"
  shows "entry (memzero_page (PA2VA m (table_frame pd i)) m) (table_frame pd j) l = (if j = i then 0 else entry m (table_frame pd j) l)"
proof -
  let ?d = "entry_at m (table_frame pd j) l - PA2VA m (table_frame pd i)"
  have d: "of_nat (i * 4096) + ?d = of_nat (j * 4096 + 8 * l)"
    by (simp add: table_frame_def PA2VA_def algebra_simps)
  have "?d < PAGE_SIZE \<longleftrightarrow> j = i"
  proof
    assume "?d < PAGE_SIZE"
    then have u: "unat ?d < 4096" by (simp add: word_less_nat_alt)
    have "(of_nat (i * 4096 + unat ?d) :: QWORD) = of_nat (j * 4096 + 8 * l)" using d by simp
    then have "i * 4096 + unat ?d = j * 4096 + 8 * l"
      using assms u by (subst (asm) of_nat_inj_small) (simp_all del: of_nat_add)
    then have "(i * 4096 + unat ?d) div 4096 = (j * 4096 + 8 * l) div 4096" by simp
    then show "j = i" using u assms(3) by simp
  next
    assume "j = i"
    then have "?d = of_nat (8 * l)" by (simp add: PA2VA_def)
    moreover have "unat (of_nat (8 * l) :: QWORD) = 8 * l" using assms(3) by (intro unat_of_nat_small) simp
    ultimately show "?d < PAGE_SIZE" using assms(3) by (simp only: word_less_nat_alt) simp
  qed
  then show ?thesis unfolding entry_def entry_simps by (simp add: memzero_page_def)
qed

lemma next_frame:
  assumes "frames_ok pd m" and "unat (CurrentIndex pd) < unat (NumberOfFrames pd)"
  shows "VmRetrieveNextPhysicalAddressForPagingStructure pd =
    Some (table_frame pd (unat (CurrentIndex pd)), pd\<lparr>CurrentIndex := CurrentIndex pd + 1\<rparr>)"
proof -
  have "unat (CurrentIndex pd) < 2 ^ 20" using frames_okD(3) [OF assms] .
  then have "unat (CurrentIndex pd * 0x1000) = unat (CurrentIndex pd) * 4096"
    by (subst unat_mult_lem [THEN iffD1]) simp_all
  then have "(ucast (CurrentIndex pd * 0x1000) :: QWORD) = of_nat (unat (CurrentIndex pd) * 4096)"
    by (metis of_nat_unat)
  then show ?thesis
    using assms(2) by (simp add: VmRetrieveNextPhysicalAddressForPagingStructure_def table_frame_def word_less_nat_alt Let_def del: of_nat_mult)
qed

lemma setup_structure:
  assumes wf: "tables_wf lv pd m" and i: "i < unat (CurrentIndex pd)" "k < 512" and room: "unat (CurrentIndex pd) < unat (NumberOfFrames pd)"
    and free: "\<not> present (entry m (table_frame pd i) k)"
  shows "\<exists>m' e. VmSetupPagingStructure pd (entry_at m (table_frame pd i) k) m = Some (pd\<lparr>CurrentIndex := CurrentIndex pd + 1\<rparr>, m')
    \<and> adds_table pd i k e m m' \<and> WriteBackIndex m' = WriteBackIndex m \<and> UncacheableIndex m' = UncacheableIndex m
    \<and> ReleasedFrames m' = ReleasedFrames m \<and> set (TlbInvalidations m) \<subseteq> set (TlbInvalidations m')"
proof -
  let ?c = "unat (CurrentIndex pd)" and ?p = "entry_at m (table_frame pd i) k"
  note fo = tables_wfD(1) [OF wf] and f = frames_okD [OF tables_wfD(1) [OF wf]]
  have iN: "i < unat (NumberOfFrames pd)" using index_lt_frames [OF wf i(1)] .
  have c20: "?c < 2 ^ 20" and i20: "i < 2 ^ 20" using f(3) room iN by blast+
  define fl where "fl = zero_PTE_MAP_FLAGS\<lparr>Writable := True, Executable := True, PagingStructure := True, UserAccess := \<not> KernelSpace pd\<rparr>"
  define m1 where "m1 = PageInvalidateTlb (PA2VA m (table_frame pd ?c)) (wr_entry ?p (pte_of (table_frame pd ?c) fl) m)"
  define m' where "m' = memzero_page (PA2VA m1 (table_frame pd ?c)) m1"
  have "PagingStructure fl" by (simp add: fl_def)
  then have e: "present (pte_of (table_frame pd ?c) fl)" "\<not> large (pte_of (table_frame pd ?c) fl)"
    "phys (pte_of (table_frame pd ?c) fl) = table_frame pd ?c"
    using f(2) [OF room] by (simp_all add: phys_pte_of)
  have ent: "entry m' (table_frame pd j) l = (if j = ?c then 0 else if j = i \<and> l = k then pte_of (table_frame pd ?c) fl else entry m (table_frame pd j) l)"
    if "j \<le> ?c" "l < 512" for j l
  proof -
    have "j < 2 ^ 20" using that(1) c20 by simp
    then show ?thesis
      using entry_memzero [OF c20 \<open>j < 2 ^ 20\<close> that(2), of m1 pd] entry_wr_entry [OF i20 i(2) \<open>j < 2 ^ 20\<close> that(2), of m pd]
      by (simp add: m'_def m1_def)
  qed
  have "VmSetupPagingStructure pd ?p m = Some (pd\<lparr>CurrentIndex := CurrentIndex pd + 1\<rparr>, m')"
    using f(4) [OF iN i(2)] by (simp add: VmSetupPagingStructure_def next_frame [OF fo room] PteMap_eq m'_def m1_def fl_def)
  moreover have "adds_table pd i k (pte_of (table_frame pd ?c) fl) m m'"
    using ent e free i by (auto simp: adds_table_def m'_def m1_def)
  ultimately show ?thesis
    by (intro exI [of _ m'] exI [of _ "pte_of (table_frame pd ?c) fl"] conjI)
      (auto simp: m'_def m1_def memzero_page_def PageInvalidateTlb_def wr_entry_def)
qed

text \<open>The tables may have grown, but no page is mapped differently.\<close>

definition extends :: "PAGING_DATA \<Rightarrow> PAGING_MACHINE \<Rightarrow> PAGING_DATA \<Rightarrow> PAGING_MACHINE \<Rightarrow> bool" where
  "extends pd m pd' m' \<longleftrightarrow> (\<exists>c. pd' = pd\<lparr>CurrentIndex := c\<rparr>) \<and> unat (CurrentIndex pd) \<le> unat (CurrentIndex pd')
     \<and> PA2VA m' = PA2VA m \<and> WriteBackIndex m' = WriteBackIndex m \<and> UncacheableIndex m' = UncacheableIndex m
     \<and> ReleasedFrames m' = ReleasedFrames m \<and> set (TlbInvalidations m) \<subseteq> set (TlbInvalidations m')
     \<and> translate m' (BasePhysicalAddress pd) = translate m (BasePhysicalAddress pd)
     \<and> (\<forall>ks t. (\<forall>k \<in> set ks. k < 512) \<longrightarrow> length ks \<le> 3 \<longrightarrow> walk_to m (BasePhysicalAddress pd) ks = Some t \<longrightarrow> walk_to m' (BasePhysicalAddress pd) ks = Some t)"

lemma extends_refl: "extends pd m pd m"
  unfolding extends_def by (auto intro: exI [of _ "CurrentIndex pd"])

lemma extends_trans: "extends pd m pd' m' \<Longrightarrow> extends pd' m' pd'' m'' \<Longrightarrow> extends pd m pd'' m''"
  unfolding extends_def by auto

lemma extends_walk:
  "extends pd m pd' m' \<Longrightarrow> walk_to m (BasePhysicalAddress pd) ks \<noteq> None \<Longrightarrow> \<forall>k \<in> set ks. k < 512 \<Longrightarrow> length ks \<le> 3 \<Longrightarrow> walk_to m' (BasePhysicalAddress pd) ks \<noteq> None"
  unfolding extends_def by blast

lemma PteIsPresent_eq: "p \<noteq> NULL \<Longrightarrow> PteIsPresent p m = Some (present (Entries m p))"
  by (simp add: PteIsPresent_def field_values)

lemma PteGetPhysicalAddress_eq: "p \<noteq> NULL \<Longrightarrow> PteGetPhysicalAddress p m = Some (phys (Entries m p))"
  by (simp add: PteGetPhysicalAddress_def field_values phys_def)

lemma tables_okE:
  assumes "tables_ok pd m" and "walk_to m (BasePhysicalAddress pd) ks = Some t" and "\<forall>l \<in> set ks. l < 512" and "length ks \<le> 3"
  obtains lv i where "tables_wf lv pd m" "i < unat (CurrentIndex pd)" "t = table_frame pd i" "lv i = Suc (length ks)"
    "\<And>k. k < 512 \<Longrightarrow> entry_at m t k \<noteq> NULL"
proof -
  obtain lv where wf: "tables_wf lv pd m" using assms(1) by (auto simp: tables_ok_def)
  obtain i where i: "i < unat (CurrentIndex pd)" "t = table_frame pd i" "lv i = Suc (length ks)"
    using walk_to_frame [OF wf assms(2-)] by auto
  show ?thesis
    using that wf i frames_okD(4) [OF tables_wfD(1) [OF wf] index_lt_frames [OF wf i(1)]] by blast
qed

text \<open>At the levels above the last one mapping makes sure that there is a table to go on with.\<close>

lemma map_step:
  assumes ok: "tables_ok (CtxPagingData ctx) m" and w: "walk_to m (BasePhysicalAddress (CtxPagingData ctx)) ks = Some t"
    and ks: "\<forall>l \<in> set ks. l < 512" "length ks < 3" and k: "k < 512"
    and room0: "present (entry m t k) \<or> unat (CurrentIndex (CtxPagingData ctx)) < unat (NumberOfFrames (CtxPagingData ctx))" and va: "va \<noteq> NULL" and lvl: "1 \<le> lvl" "lvl < 4"
  shows "\<exists>pd' m' t'. VmMapPage cr3 (entry_at m t k) va lvl ctx m = Some (True, ctx\<lparr>CtxPagingData := pd'\<rparr>, m')
    \<and> tables_ok pd' m' \<and> extends (CtxPagingData ctx) m pd' m' \<and> unat (CurrentIndex pd') \<le> unat (CurrentIndex (CtxPagingData ctx)) + (if present (entry m t k) then 0 else 1)
    \<and> entry_at m t k \<noteq> NULL \<and> \<not> large (Entries m' (entry_at m t k)) \<and> phys (Entries m' (entry_at m t k)) = t'
    \<and> walk_to m' (BasePhysicalAddress pd') (ks @ [k]) = Some t'"
proof -
  let ?pd = "CtxPagingData ctx" and ?p = "entry_at m t k"
  obtain lv i where i: "tables_wf lv ?pd m" "i < unat (CurrentIndex ?pd)" "t = table_frame ?pd i" "lv i = Suc (length ks)" "?p \<noteq> NULL"
    using tables_okE [OF ok w ks(1)] ks(2) k by (metis less_imp_le)
  have l4: "lvl \<noteq> 4" "lvl \<le> 4" "lv i < 4" using lvl ks(2) i(4) by auto
  show ?thesis
  proof (cases "present (entry m t k)")
    case True
    then have p: "present (Entries m ?p)" by (simp add: entry_def)
    have "\<not> large (entry m t k)" using tables_wfD(5) [OF i(1,2) l4(3) k] True i(3) by simp
    then have "\<not> large (Entries m ?p)" by (simp add: entry_def)
    moreover have "VmMapPage cr3 ?p va lvl ctx m = Some (True, ctx\<lparr>CtxPagingData := ?pd\<rparr>, m)"
      using i(5) va l4 lvl(1) p by (simp add: VmMapPage_def PteIsPresent_eq)
    moreover have "walk_to m (BasePhysicalAddress ?pd) (ks @ [k]) = Some (phys (Entries m ?p))"
      using w True by (simp add: walk_to_snoc entry_def)
    ultimately show ?thesis using ok i(5) extends_refl by (intro exI [of _ ?pd] exI [of _ m]) auto
  next
    case False
    then have np: "\<not> present (Entries m ?p)" by (simp add: entry_def)
    have room: "unat (CurrentIndex ?pd) < unat (NumberOfFrames ?pd)" using False room0 by simp
    obtain m' e where m': "VmSetupPagingStructure ?pd ?p m = Some (?pd\<lparr>CurrentIndex := CurrentIndex ?pd + 1\<rparr>, m')"
      "adds_table ?pd i k e m m'" "WriteBackIndex m' = WriteBackIndex m" "UncacheableIndex m' = UncacheableIndex m"
      "ReleasedFrames m' = ReleasedFrames m" "set (TlbInvalidations m) \<subseteq> set (TlbInvalidations m')"
      using setup_structure [OF i(1,2) k room] False i(3) by blast
    let ?pd' = "?pd\<lparr>CurrentIndex := CurrentIndex ?pd + 1\<rparr>" and ?t' = "table_frame ?pd (unat (CurrentIndex ?pd))"
    note aw = adds_table_walk [OF i(1) m'(2) i(2) l4(3) k room]
    have g: "gVirtualToPhysicalOffset m' = gVirtualToPhysicalOffset m" using m'(2) by (simp add: adds_table_def)
    then have pa: "PA2VA m' = PA2VA m" by (simp add: PA2VA_def fun_eq_iff)
    have e: "entry m' t k = e" "\<not> large e" "phys e = ?t'" using m'(2) i(3) by (auto simp: adds_table_def)
    then have ent: "Entries m' ?p = e" by (simp add: entry_def pa)
    have "VmMapPage cr3 ?p va lvl ctx m = Some (True, ctx\<lparr>CtxPagingData := ?pd'\<rparr>, m')"
      using i(5) va l4 lvl(1) np m'(1) by (simp add: VmMapPage_def PteIsPresent_eq)
    moreover have "tables_ok ?pd' m'"
      using adds_table_wf [OF i(1) m'(2) i(2) l4(3) k room] by (auto simp: tables_ok_def)
    moreover have "extends ?pd m ?pd' m'"
    proof -
      have "walk_to m' (BasePhysicalAddress ?pd) ls = Some u"
        if h: "\<forall>l \<in> set ls. l < 512" "length ls \<le> 3" "walk_to m (BasePhysicalAddress ?pd) ls = Some u" for ls u
      proof -
        have n: "\<nexists>ns. ls = ns @ [k] \<and> walk_to m (BasePhysicalAddress ?pd) ns = Some (table_frame ?pd i)"
          using h(3) False i(3) by (auto simp: walk_to_snoc)
        show ?thesis using aw [OF h(1,2)] h(3) unfolding if_not_P [OF n] by simp
      qed
      then show ?thesis
        using next_index [OF tables_wfD(1) [OF i(1)] room] pa m'(3-) adds_table_translate [OF i(1) m'(2) i(2) l4(3) k room]
        by (auto simp: extends_def)
    qed
    moreover have "walk_to m' (BasePhysicalAddress ?pd') (ks @ [k]) = Some ?t'"
      using aw [of "ks @ [k]"] ks k w i(3) by auto
    ultimately show ?thesis
      using next_index [OF tables_wfD(1) [OF i(1)] room] ent e i(5) False by (intro exI [of _ ?pd'] exI [of _ m'] exI [of _ ?t']) auto
  qed
qed

section \<open>One page\<close>

text \<open>The flags of a page that is mapped.\<close>

definition page_flags :: "PAGE_RIGHTS \<Rightarrow> bool \<Rightarrow> bool \<Rightarrow> PAGING_MACHINE \<Rightarrow> PTE_MAP_FLAGS" where
  "page_flags rights uncached ks m = zero_PTE_MAP_FLAGS\<lparr>Executable := IsBooleanFlagOn rights PAGE_RIGHTS_EXECUTE,
     Writable := IsBooleanFlagOn rights PAGE_RIGHTS_WRITE, PatIndex := ucast (if uncached then UncacheableIndex m else WriteBackIndex m),
     GlobalPage := ks, UserAccess := \<not> ks\<rparr>"

text \<open>Two machines that differ at most in their entries and logs.\<close>

definition same_machine :: "PAGING_MACHINE \<Rightarrow> PAGING_MACHINE \<Rightarrow> bool" where
  "same_machine m m' \<longleftrightarrow> PA2VA m' = PA2VA m \<and> WriteBackIndex m' = WriteBackIndex m \<and> UncacheableIndex m' = UncacheableIndex m
     \<and> set (TlbInvalidations m) \<subseteq> set (TlbInvalidations m')"

lemma same_machine_trans: "same_machine m m' \<Longrightarrow> same_machine m' m'' \<Longrightarrow> same_machine m m''"
  by (auto simp: same_machine_def)

lemma same_machine_refl [simp]: "same_machine m m"
  by (simp add: same_machine_def)

lemma extends_machine: "extends pd m pd' m' \<Longrightarrow> same_machine m m'"
  by (simp add: extends_def same_machine_def)

lemma page_flags_cong: "same_machine m m' \<Longrightarrow> page_flags r u ks m' = page_flags r u ks m"
  by (simp add: page_flags_def same_machine_def)

text \<open>Writing the entry of a page whose table is there.\<close>

lemma set_page_entry:
  assumes ok: "tables_ok pd m" and w: "walk_to m (BasePhysicalAddress pd) (table_path va) = Some t"
    and m': "PA2VA m' = PA2VA m" "Entries m' = (Entries m)(entry_at m t (page_slot va) := e)"
  shows "tables_ok pd m'" and "translate m' (BasePhysicalAddress pd) w =
    (if vpn w = vpn va then (if present e then Some e else None) else translate m (BasePhysicalAddress pd) w)"
proof -
  obtain lv i where i: "tables_wf lv pd m" "i < unat (CurrentIndex pd)" "t = table_frame pd i" "lv i = 4"
    by (rule tables_okE [OF ok w table_path_simps(2)]) (auto simp: numeral_eq_Suc)
  have small: "j < unat (CurrentIndex pd) \<Longrightarrow> j < 2 ^ 20" for j
    using frames_okD(3) [OF tables_wfD(1) [OF i(1)] index_lt_frames [OF i(1)]] .
  have "gVirtualToPhysicalOffset m' = gVirtualToPhysicalOffset m"
    using m'(1) by (metis PA2VA_def add_left_cancel)
  then have s: "sets_page pd i (page_slot va) e m m'"
    unfolding sets_page_def entry_def m' i(3)
    using entry_offset [OF small offsets_lt_512(4) small [OF i(2)] offsets_lt_512(4)] entry_offset [OF small _ small [OF i(2)] offsets_lt_512(4)] i(2) by auto
  show "tables_ok pd m'" using sets_page_wf [OF i(1) s i(4)] by (auto simp: tables_ok_def)
  show "translate m' (BasePhysicalAddress pd) w =
    (if vpn w = vpn va then (if present e then Some e else None) else translate m (BasePhysicalAddress pd) w)"
    using sets_page_translate [OF i(1) s i(4,2), of va w] w i(3) by simp
qed

lemma map_last:
  assumes ok: "tables_ok pd m" and w: "walk_to m (BasePhysicalAddress pd) (table_path va) = Some t" and va: "va \<noteq> NULL"
    and c: "CtxPagingData ctx = pd" "BasePhysicalAddress pd = root" "KernelSpace pd = ks" "translate m root = tr" "ReleasedFrames m = rel"
    "PhysicalAddressBase ctx = pb" "VirtualAddressBase ctx = vb" "CtxPageRights ctx = rights" "CtxUncacheable ctx = uc" "CtxInvalidate ctx = iv"
  shows "\<exists>m'. VmMapPage cr3 (entry_at m t (page_slot va)) va 4 ctx m = Some (True, ctx, m') \<and> tables_ok pd m'
    \<and> same_machine m m' \<and> ReleasedFrames m' = rel \<and> entry_at m t (page_slot va) \<noteq> NULL
    \<and> (iv \<or> tr va = None \<longrightarrow> va \<in> set (TlbInvalidations m'))
    \<and> translate m' root = (\<lambda>x. if vpn x = vpn va \<and> (iv \<or> tr va = None) then Some (pte_of (pb + (va - vb)) (page_flags rights uc ks m)) else tr x)"
proof -
  let ?p = "entry_at m t (page_slot va)" and ?e = "pte_of (pb + (va - vb)) (page_flags rights uc ks m)"
  have p: "?p \<noteq> NULL" using tables_okE [OF ok w] offsets_lt_512(4) [of va] by (metis table_path_simps order_refl)
  have tr: "tr va = (if present (Entries m ?p) then Some (Entries m ?p) else None)"
    using w c(2,4) by (simp add: translate_def entry_def flip: c(4))
  show ?thesis
  proof (cases "present (Entries m ?p) \<and> \<not> iv")
    case True
    then have "VmMapPage cr3 ?p va 4 ctx m = Some (True, ctx, m)" using p va c by (simp add: VmMapPage_def PteIsPresent_eq)
    then show ?thesis using ok p True tr c by (intro exI [of _ m]) auto
  next
    case False
    let ?m' = "PageInvalidateTlb va (wr_entry ?p ?e m)"
    have "VmMapPage cr3 ?p va 4 ctx m = Some (True, ctx, ?m')"
      using p va False c by (auto simp: VmMapPage_def PteIsPresent_eq PteMap_eq page_flags_def)
    moreover have "PA2VA ?m' = PA2VA m" "Entries ?m' = (Entries m)(?p := ?e)"
      by (simp_all add: PageInvalidateTlb_def wr_entry_def PA2VA_def fun_eq_iff)
    note sp = set_page_entry [OF ok w this]
    moreover have "same_machine m ?m'" "ReleasedFrames ?m' = ReleasedFrames m" "va \<in> set (TlbInvalidations ?m')"
      by (auto simp: same_machine_def PageInvalidateTlb_def wr_entry_def PA2VA_def fun_eq_iff)
    ultimately show ?thesis using False tr p c by (intro exI [of _ ?m']) (auto simp: fun_eq_iff)
  qed
qed

lemma levels_step:
  assumes "cb cr3 (entry_at m t k) va i ctx m = Some (True, ctx', m')" and "entry_at m t k \<noteq> NULL" and "i = 4 \<or> \<not> large (Entries m' (entry_at m t k))"
    and "off = of_nat k"
  shows "VmWalkPagingTables_levels cb cr3 va ((i, off) # ls) t ctx m = VmWalkPagingTables_levels cb cr3 va ls (phys (Entries m' (entry_at m t k))) ctx' m'"
  using assms by (auto simp: field_values PteGetPhysicalAddress_eq Let_def)

declare VmWalkPagingTables_levels.simps [simp del]

abbreviation page_offsets :: "ptr \<Rightarrow> (BYTE \<times> QWORD) list" where
  "page_offsets va \<equiv> [(1, MASK_PML4_OFFSET va), (2, MASK_PDPTE_OFFSET va), (3, MASK_PDE_OFFSET va), (4, MASK_PTE_OFFSET va)]"

lemma offset_of_nat:
  "MASK_PML4_OFFSET va = of_nat (unat (MASK_PML4_OFFSET va))" "MASK_PDPTE_OFFSET va = of_nat (unat (MASK_PDPTE_OFFSET va))"
  "MASK_PDE_OFFSET va = of_nat (unat (MASK_PDE_OFFSET va))" "MASK_PTE_OFFSET va = of_nat (page_slot va)"
  by (simp_all add: page_slot_def)

text \<open>Mapping one page uses up to three new tables.\<close>

lemma map_page:
  assumes ok: "tables_ok (CtxPagingData ctx) m" 
    and room: "walk_to m root (table_path va) \<noteq> None \<or> unat (CurrentIndex (CtxPagingData ctx)) + 3 \<le> unat (NumberOfFrames (CtxPagingData ctx))"
    and va: "va \<noteq> NULL" and root: "root = BasePhysicalAddress (CtxPagingData ctx)"
  shows "\<exists>pd' m'. VmWalkPagingTables_levels VmMapPage cr3 va (page_offsets va) root ctx m = Some (ctx\<lparr>CtxPagingData := pd'\<rparr>, m')
    \<and> tables_ok pd' m' \<and> same_machine m m' \<and> ReleasedFrames m' = ReleasedFrames m
    \<and> (\<exists>c. pd' = (CtxPagingData ctx)\<lparr>CurrentIndex := c\<rparr>) \<and> unat (CurrentIndex pd') \<le> unat (CurrentIndex (CtxPagingData ctx)) + (if walk_to m root (table_path va) = None then 3 else 0)
    \<and> walk_to m' root (table_path va) \<noteq> None
    \<and> (CtxInvalidate ctx \<or> translate m root va = None \<longrightarrow> va \<in> set (TlbInvalidations m'))
    \<and> translate m' root = (\<lambda>x. if vpn x = vpn va \<and> (CtxInvalidate ctx \<or> translate m root va = None)
        then Some (pte_of (PhysicalAddressBase ctx + (va - VirtualAddressBase ctx)) (page_flags (CtxPageRights ctx) (CtxUncacheable ctx) (KernelSpace (CtxPagingData ctx)) m))
        else translate m root x)"
proof -
  let ?pd = "CtxPagingData ctx" and ?c = "unat (CurrentIndex (CtxPagingData ctx))"
  let ?k1 = "unat (MASK_PML4_OFFSET va)" and ?k2 = "unat (MASK_PDPTE_OFFSET va)" and ?k3 = "unat (MASK_PDE_OFFSET va)"
  note k = offsets_lt_512 [of va]
  let ?there = "walk_to m root (table_path va) \<noteq> None"
  have there: "walk_to m root [?k1] \<noteq> None" "walk_to m root [?k1, ?k2] \<noteq> None" "walk_to m root [?k1, ?k2, ?k3] \<noteq> None" if ?there
    using that by (auto simp: table_path_def split: if_splits)
  obtain pd1 m1 t1 where 1: "VmMapPage cr3 (entry_at m root ?k1) va 1 ctx m = Some (True, ctx\<lparr>CtxPagingData := pd1\<rparr>, m1)"
    "tables_ok pd1 m1" "extends ?pd m pd1 m1" "unat (CurrentIndex pd1) \<le> ?c + (if ?there then 0 else 1)" "entry_at m root ?k1 \<noteq> NULL"
    "\<not> large (Entries m1 (entry_at m root ?k1))" "phys (Entries m1 (entry_at m root ?k1)) = t1" "walk_to m1 (BasePhysicalAddress pd1) [?k1] = Some t1"
    using map_step [OF ok, of "[]" root ?k1 va 1 cr3] room va k root there(1) by (fastforce split: if_splits)
  then have p1: "BasePhysicalAddress pd1 = root" "NumberOfFrames pd1 = NumberOfFrames ?pd" by (auto simp: extends_def root)
  have e2: "present (entry m1 t1 ?k2)" if ?there
  proof -
    have "walk_to m1 root [?k1, ?k2] \<noteq> None" using extends_walk [OF 1(3) there(2) [OF that, unfolded root]] k root by fastforce
    then show ?thesis using 1(8) p1 walk_to_snoc [of m1 root "[?k1]" ?k2] by (auto split: if_splits)
  qed
  obtain pd2 m2 t2 where 2: "VmMapPage cr3 (entry_at m1 t1 ?k2) va 2 (ctx\<lparr>CtxPagingData := pd1\<rparr>) m1 = Some (True, ctx\<lparr>CtxPagingData := pd2\<rparr>, m2)"
    "tables_ok pd2 m2" "extends pd1 m1 pd2 m2" "unat (CurrentIndex pd2) \<le> unat (CurrentIndex pd1) + (if ?there then 0 else 1)" "entry_at m1 t1 ?k2 \<noteq> NULL"
    "\<not> large (Entries m2 (entry_at m1 t1 ?k2))" "phys (Entries m2 (entry_at m1 t1 ?k2)) = t2" "walk_to m2 (BasePhysicalAddress pd2) [?k1, ?k2] = Some t2"
    using map_step [of "ctx\<lparr>CtxPagingData := pd1\<rparr>" m1 "[?k1]" t1 ?k2 va 2 cr3] 1(2,4,8) p1(2) room va k e2 by (fastforce split: if_splits)
  then have p2: "BasePhysicalAddress pd2 = root" "NumberOfFrames pd2 = NumberOfFrames ?pd" using p1 by (auto simp: extends_def)
  have e3: "present (entry m2 t2 ?k3)" if ?there
  proof -
    have "walk_to m2 root [?k1, ?k2, ?k3] \<noteq> None"
      using extends_walk [OF extends_trans [OF 1(3) 2(3)] there(3) [OF that, unfolded root]] k root by fastforce
    then show ?thesis using 2(8) p2 walk_to_snoc [of m2 root "[?k1, ?k2]" ?k3] by (auto split: if_splits)
  qed
  obtain pd3 m3 t3 where 3: "VmMapPage cr3 (entry_at m2 t2 ?k3) va 3 (ctx\<lparr>CtxPagingData := pd2\<rparr>) m2 = Some (True, ctx\<lparr>CtxPagingData := pd3\<rparr>, m3)"
    "tables_ok pd3 m3" "extends pd2 m2 pd3 m3" "unat (CurrentIndex pd3) \<le> unat (CurrentIndex pd2) + (if ?there then 0 else 1)" "entry_at m2 t2 ?k3 \<noteq> NULL"
    "\<not> large (Entries m3 (entry_at m2 t2 ?k3))" "phys (Entries m3 (entry_at m2 t2 ?k3)) = t3" "walk_to m3 (BasePhysicalAddress pd3) [?k1, ?k2, ?k3] = Some t3"
    using map_step [of "ctx\<lparr>CtxPagingData := pd2\<rparr>" m2 "[?k1, ?k2]" t2 ?k3 va 3 cr3] 1(4) 2(2,4,8) p2(2) room va k e3 by (fastforce split: if_splits)
  have ext: "extends ?pd m pd3 m3" using 1(3) 2(3) 3(3) extends_trans by blast
  then have p3: "BasePhysicalAddress pd3 = root" "KernelSpace pd3 = KernelSpace ?pd" "\<exists>c. pd3 = ?pd\<lparr>CurrentIndex := c\<rparr>"
    "translate m3 root = translate m root" "ReleasedFrames m3 = ReleasedFrames m" by (auto simp: extends_def root)
  have w3: "walk_to m3 (BasePhysicalAddress pd3) (table_path va) = Some t3" using 3(8) by (simp add: table_path_def)
  let ?ctx3 = "ctx\<lparr>CtxPagingData := pd3\<rparr>"
  have c: "CtxPagingData ?ctx3 = pd3" "PhysicalAddressBase ?ctx3 = PhysicalAddressBase ctx" "VirtualAddressBase ?ctx3 = VirtualAddressBase ctx"
    "CtxPageRights ?ctx3 = CtxPageRights ctx" "CtxUncacheable ?ctx3 = CtxUncacheable ctx" "CtxInvalidate ?ctx3 = CtxInvalidate ctx" by simp_all
  obtain m' where 4: "VmMapPage cr3 (entry_at m3 t3 (page_slot va)) va 4 (ctx\<lparr>CtxPagingData := pd3\<rparr>) m3 = Some (True, ctx\<lparr>CtxPagingData := pd3\<rparr>, m')"
    "tables_ok pd3 m'" "same_machine m3 m'" "ReleasedFrames m' = ReleasedFrames m" "entry_at m3 t3 (page_slot va) \<noteq> NULL"
    "CtxInvalidate ctx \<or> translate m root va = None \<longrightarrow> va \<in> set (TlbInvalidations m')"
    "translate m' root = (\<lambda>x. if vpn x = vpn va \<and> (CtxInvalidate ctx \<or> translate m root va = None)
        then Some (pte_of (PhysicalAddressBase ctx + (va - VirtualAddressBase ctx)) (page_flags (CtxPageRights ctx) (CtxUncacheable ctx) (KernelSpace ?pd) m3))
        else translate m root x)"
    using map_last [OF 3(2) w3 va c(1) p3(1,2,4,5) c(2-6)] by blast
  have "VmWalkPagingTables_levels VmMapPage cr3 va (page_offsets va) root ctx m = Some (ctx\<lparr>CtxPagingData := pd3\<rparr>, m')"
    using levels_step [where cb = VmMapPage, OF 1(1,5) _ offset_of_nat(1) [of va]] levels_step [where cb = VmMapPage, OF 2(1,5) _ offset_of_nat(2) [of va]] levels_step [where cb = VmMapPage, OF 3(1,5) _ offset_of_nat(3) [of va]]
      levels_step [where cb = VmMapPage, OF 4(1,5) _ offset_of_nat(4) [of va]] 1(6,7) 2(6,7) 3(6,7) by (simp add: VmWalkPagingTables_levels.simps(1))
  moreover have "same_machine m m'" using extends_machine [OF ext] 4(3) same_machine_trans by blast
  moreover have "unat (CurrentIndex pd3) \<le> ?c + (if walk_to m root (table_path va) = None then 3 else 0)"
    using 1(4) 2(4) 3(4) by (simp split: if_splits)
  moreover have "translate m' root va \<noteq> None" by (simp add: 4(7))
  then have "walk_to m' root (table_path va) \<noteq> None" by (cases "walk_to m' root (table_path va)") (simp_all add: translate_def)
  ultimately show ?thesis using 4(2,4,6) 4(7) [unfolded page_flags_cong [OF extends_machine [OF ext]]] p3(3)
    by - (intro exI [of _ pd3] exI [of _ m'] conjI; assumption)
qed

section \<open>A range of pages\<close>

definition page_at :: "ptr \<Rightarrow> nat \<Rightarrow> ptr" where
  "page_at base j = base + of_nat (j * 4096)"

lemma page_at_0 [simp]: "page_at base 0 = base"
  by (simp add: page_at_def)

lemma unat_vpn: "unat (vpn a) = unat a div 4096 mod 2 ^ 36"
  by (simp add: vpn_def take_bit_eq_mod drop_bit_eq_div unat_mod unat_div)

text \<open>A range of pages that does not wrap around and is not larger than what the tables can map.\<close>

definition page_range :: "ptr \<Rightarrow> nat \<Rightarrow> bool" where
  "page_range base n \<longleftrightarrow> base \<noteq> NULL \<and> unat base mod 4096 = 0 \<and> unat base + n * 4096 \<le> 2 ^ 64 \<and> n \<le> 2 ^ 36"

lemma unat_page_at:
  assumes "page_range base n" and "j < n"
  shows "unat (page_at base j) = unat base + j * 4096"
proof -
  have "unat base + j * 4096 < 2 ^ 64" using assms unfolding page_range_def by auto
  then show ?thesis using unat_of_nat_small [of "j * 4096"] unat_plus_if_small [of base "of_nat (j * 4096)"] by (auto simp: page_at_def)
qed

lemma page_at_not_null: "page_range base n \<Longrightarrow> j < n \<Longrightarrow> page_at base j \<noteq> NULL"
  using unat_page_at [of base n j] by (auto simp: page_range_def unat_eq_zero [symmetric] simp del: unat_eq_zero)

lemma mod_add_left_inj:
  fixes i j q m :: nat
  assumes "(q + i) mod m = (q + j) mod m" and "i < m" and "j < m"
  shows "i = j"
proof -
  have "i = j" if le: "i \<le> j" and e: "(q + j) mod m = (q + i) mod m" and j: "j < m" for i j
  proof -
    obtain s where "q + j = q + i + m * s" using mod_eq_nat1E [OF e] le by auto
    then show ?thesis using j by (cases s) auto
  qed
  then show ?thesis using assms by (metis nat_le_linear)
qed

lemma vpn_page_at_inj:
  assumes "page_range base n" and "i < n" and "j < n"
  shows "vpn (page_at base i) = vpn (page_at base j) \<longleftrightarrow> i = j"
proof
  assume "vpn (page_at base i) = vpn (page_at base j)"
  then have "(unat base + i * 4096) div 4096 mod 2 ^ 36 = (unat base + j * 4096) div 4096 mod 2 ^ 36"
    using unat_page_at [OF assms(1,2)] unat_page_at [OF assms(1,3)] unat_vpn by metis
  then have "(unat base div 4096 + i) mod 2 ^ 36 = (unat base div 4096 + j) mod 2 ^ 36" by (simp add: add.commute)
  moreover have "i < 2 ^ 36" "j < 2 ^ 36" using assms by (auto simp: page_range_def)
  ultimately show "i = j" by (rule mod_add_left_inj)
qed simp

text \<open>
  The number of new tables that mapping a range takes at most: three for its first page, and three more where
  the range goes on in another table of the last level.
\<close>

definition crossings :: "ptr \<Rightarrow> nat \<Rightarrow> nat \<Rightarrow> nat" where
  "crossings base k n = length (filter (\<lambda>j. (unat base div 4096 + j) mod 512 = 0) [Suc k..<n])"

lemma crossings_step: "k < n \<Longrightarrow> Suc k < n \<Longrightarrow>
    crossings base k n = (if (unat base div 4096 + Suc k) mod 512 = 0 then 1 else 0) + crossings base (Suc k) n"
  by (simp add: crossings_def upt_conv_Cons [of "Suc k"])

lemma table_path_eqI:
  assumes "unat a div 2 ^ 21 = unat b div 2 ^ 21"
  shows "table_path a = table_path b"
proof -
  have "unat (drop_bit 21 a) = unat (drop_bit 21 b)" using assms by (simp add: drop_bit_eq_div unat_div)
  then have e: "drop_bit 21 a = drop_bit 21 b" by (rule word_unat_eq_iff [THEN iffD2])
  moreover have "drop_bit 9 (drop_bit 21 x) = drop_bit 30 x" "drop_bit 18 (drop_bit 21 x) = drop_bit 39 x" for x :: QWORD
    by (simp_all only: drop_bit_drop_bit) simp_all
  ultimately have "drop_bit 30 a = drop_bit 30 b" "drop_bit 39 a = drop_bit 39 b" by metis+
  with e show ?thesis by (simp only: table_path_def MASK_PML4_OFFSET_def MASK_PDPTE_OFFSET_def MASK_PDE_OFFSET_def)
qed

lemma same_table_next:
  assumes "page_range base n" and "Suc k < n" and "(unat base div 4096 + Suc k) mod 512 \<noteq> 0"
  shows "table_path (page_at base (Suc k)) = table_path (page_at base k)"
proof (rule table_path_eqI)
  have "unat base mod 4096 = 0" using assms(1) by (simp add: page_range_def)
  then have "unat base = unat base div 4096 * 4096" by (simp add: mod_eq_0_iff_dvd)
  then have "unat base + j * 4096 = (unat base div 4096 + j) * 4096" for j by (simp only: add_mult_distrib)
  then have "unat (page_at base j) div 2 ^ 21 = (unat base div 4096 + j) div 512" if "j < n" for j
    using unat_page_at [OF assms(1) that] div_mult2_eq [of "(unat base div 4096 + j) * 4096" 4096 512] by simp
  moreover have "(unat base div 4096 + Suc k) div 512 = (unat base div 4096 + k) div 512"
    using assms(3) by (simp add: div_Suc mod_Suc split: if_splits)
  ultimately show "unat (page_at base (Suc k)) div 2 ^ 21 = unat (page_at base k) div 2 ^ 21" using assms(2) by simp
qed

text \<open>The translation after the pages \<open>k\<close>, \<dots>, \<open>n - 1\<close> of a range were given the entries \<open>pte j\<close>.\<close>

definition pages_changed :: "(nat \<Rightarrow> QWORD option) \<Rightarrow> ptr \<Rightarrow> nat \<Rightarrow> nat \<Rightarrow> (ptr \<Rightarrow> QWORD option) \<Rightarrow> (ptr \<Rightarrow> QWORD option) \<Rightarrow> bool" where
  "pages_changed new base k n tr tr' \<longleftrightarrow> (\<forall>x. (\<forall>j. k \<le> j \<and> j < n \<longrightarrow> vpn x \<noteq> vpn (page_at base j)) \<longrightarrow> tr' x = tr x)
     \<and> (\<forall>j. k \<le> j \<and> j < n \<longrightarrow> (\<forall>x. vpn x = vpn (page_at base j) \<longrightarrow> tr' x = new j))"

lemma pages_changed_none: "pages_changed new base n n tr tr"
  unfolding pages_changed_def by auto

lemma pages_changed_cong:
  "pages_changed f base k n tr tr' \<Longrightarrow> (\<And>j. k \<le> j \<Longrightarrow> j < n \<Longrightarrow> f j = g j) \<Longrightarrow> pages_changed g base k n tr tr'"
  unfolding pages_changed_def by auto

lemma pages_changed_step:
  assumes "page_range base n" and "k < n"
    and "tr' = (\<lambda>x. if vpn x = vpn (page_at base k) then new k else tr x)"
    and "pages_changed new base (Suc k) n tr' tr''"
  shows "pages_changed new base k n tr tr''"
  unfolding pages_changed_def
proof (intro conjI allI impI)
  fix x assume "\<forall>j. k \<le> j \<and> j < n \<longrightarrow> vpn x \<noteq> vpn (page_at base j)"
  then have "tr'' x = tr' x" "tr' x = tr x" using assms by (auto simp: pages_changed_def)
  then show "tr'' x = tr x" by simp
next
  fix j x assume j: "k \<le> j \<and> j < n" "vpn x = vpn (page_at base j)"
  show "tr'' x = new j"
  proof (cases "j = k")
    case True
    then have "tr'' x = tr' x" using vpn_page_at_inj [OF assms(1,2)] assms(4) j by (auto simp: pages_changed_def)
    then show ?thesis using assms(3) j True by simp
  next
    case False
    then show ?thesis using assms(4) j by (auto simp: pages_changed_def)
  qed
qed

lemma walk_loop_next:
  assumes "page_range base n" and "unat Size = n * 4096" and "k < n" and "root = push_bit 12 (bf_get PML4_Pcide ''PhysicalAddress'' cr3)"
    and "VmWalkPagingTables_levels cb cr3 (page_at base k) (page_offsets (page_at base k)) root ctx m = Some (ctx', m')"
  shows "VmWalkPagingTables_loop cb cr3 base Size (of_nat (k * 4096)) ctx m = VmWalkPagingTables_loop cb cr3 base Size (of_nat (Suc k * 4096)) ctx' m'"
proof -
  have "k * 4096 < 2 ^ 64" using assms(1,3) unfolding page_range_def by auto
  then have "of_nat (k * 4096) < Size"
    using assms(2,3) unat_of_nat_small [of "k * 4096"] by (simp add: word_less_nat_alt del: of_nat_mult)
  then have "VmWalkPagingTables_loop cb cr3 base Size (of_nat (k * 4096)) ctx m = VmWalkPagingTables_loop cb cr3 base Size (of_nat (k * 4096) + PAGE_SIZE) ctx' m'"
    using assms(4,5) by (subst VmWalkPagingTables_loop.simps) (simp add: Let_def page_at_def del: of_nat_mult)
  moreover have "of_nat (k * 4096) + PAGE_SIZE = (of_nat (Suc k * 4096) :: QWORD)"
    by (simp add: algebra_simps)
  ultimately show ?thesis by (simp only:)
qed

lemma walk_loop_end:
  assumes "page_range base n" and "unat Size = n * 4096"
  shows "VmWalkPagingTables_loop cb cr3 base Size (of_nat (n * 4096)) ctx m = Some (ctx, m)"
proof -
  have "(of_nat (n * 4096) :: QWORD) = Size" using assms(2) by (metis of_nat_unat ucast_id)
  then show ?thesis by (subst VmWalkPagingTables_loop.simps) simp
qed

lemma map_loop:
  assumes r: "page_range base n" and Size: "unat Size = n * 4096" and cr3: "root = push_bit 12 (bf_get PML4_Pcide ''PhysicalAddress'' cr3)"
    and "k \<le> n" and "tables_ok (CtxPagingData ctx) m" and "BasePhysicalAddress (CtxPagingData ctx) = root"
    and "unat (CurrentIndex (CtxPagingData ctx)) + (if k < n \<and> walk_to m root (table_path (page_at base k)) = None then 3 else 0)
      + 3 * crossings base k n \<le> unat (NumberOfFrames (CtxPagingData ctx))"
  shows "\<exists>pd' m'. VmWalkPagingTables_loop VmMapPage cr3 base Size (of_nat (k * 4096)) ctx m = Some (ctx\<lparr>CtxPagingData := pd'\<rparr>, m')
    \<and> tables_ok pd' m' \<and> same_machine m m' \<and> ReleasedFrames m' = ReleasedFrames m
    \<and> (\<exists>c. pd' = (CtxPagingData ctx)\<lparr>CurrentIndex := c\<rparr>) 
    \<and> unat (CurrentIndex pd') \<le> unat (CurrentIndex (CtxPagingData ctx))
        + (if k < n \<and> walk_to m root (table_path (page_at base k)) = None then 3 else 0) + 3 * crossings base k n
    \<and> (\<forall>j. k \<le> j \<and> j < n \<longrightarrow> CtxInvalidate ctx \<or> translate m root (page_at base j) = None \<longrightarrow> page_at base j \<in> set (TlbInvalidations m'))
    \<and> pages_changed (\<lambda>j. if CtxInvalidate ctx \<or> translate m root (page_at base j) = None
        then Some (pte_of (PhysicalAddressBase ctx + (page_at base j - VirtualAddressBase ctx))
          (page_flags (CtxPageRights ctx) (CtxUncacheable ctx) (KernelSpace (CtxPagingData ctx)) m))
        else translate m root (page_at base j)) base k n (translate m root) (translate m' root)"
  using assms(4-)
proof (induction "n - k" arbitrary: k ctx m)
  case 0
  then have "k = n" by simp
  then show ?case
    using walk_loop_end [OF r Size] 0 pages_changed_none by (intro exI [of _ "CtxPagingData ctx"] exI [of _ m]) (auto intro: exI [of _ "CurrentIndex (CtxPagingData ctx)"])
next
  case (Suc d)
  then have k: "k < n" "d = n - Suc k" by simp_all
  let ?p = "page_at base k" and ?pd = "CtxPagingData ctx"
  let ?new = "\<lambda>j. if CtxInvalidate ctx \<or> translate m root (page_at base j) = None
        then Some (pte_of (PhysicalAddressBase ctx + (page_at base j - VirtualAddressBase ctx))
          (page_flags (CtxPageRights ctx) (CtxUncacheable ctx) (KernelSpace (CtxPagingData ctx)) m))
        else translate m root (page_at base j)"
  have room: "walk_to m root (table_path ?p) \<noteq> None \<or> unat (CurrentIndex ?pd) + 3 \<le> unat (NumberOfFrames ?pd)"
    using Suc.prems(4) k(1) by (auto split: if_splits)
  obtain pd1 m1 where 1: "VmWalkPagingTables_levels VmMapPage cr3 ?p (page_offsets ?p) root ctx m = Some (ctx\<lparr>CtxPagingData := pd1\<rparr>, m1)"
    "tables_ok pd1 m1" "same_machine m m1" "ReleasedFrames m1 = ReleasedFrames m" "\<exists>c. pd1 = ?pd\<lparr>CurrentIndex := c\<rparr>"
    "unat (CurrentIndex pd1) \<le> unat (CurrentIndex ?pd) + (if walk_to m root (table_path ?p) = None then 3 else 0)"
    "CtxInvalidate ctx \<or> translate m root ?p = None \<longrightarrow> ?p \<in> set (TlbInvalidations m1)"
    "translate m1 root = (\<lambda>x. if vpn x = vpn ?p \<and> (CtxInvalidate ctx \<or> translate m root ?p = None)
        then Some (pte_of (PhysicalAddressBase ctx + (?p - VirtualAddressBase ctx)) (page_flags (CtxPageRights ctx) (CtxUncacheable ctx) (KernelSpace ?pd) m))
        else translate m root x)"
    "walk_to m1 root (table_path ?p) \<noteq> None"
    using map_page [OF Suc.prems(2) room page_at_not_null [OF r k(1)] Suc.prems(3) [symmetric], of cr3]
    by (elim exE conjE) (rule that, (assumption | rule exI)+)
  let ?ctx = "ctx\<lparr>CtxPagingData := pd1\<rparr>"
  have pd1: "BasePhysicalAddress pd1 = root" "NumberOfFrames pd1 = NumberOfFrames ?pd" "KernelSpace pd1 = KernelSpace ?pd" using 1(5) Suc.prems(3) by auto
  let ?first = "\<lambda>m k. if k < n \<and> walk_to m root (table_path (page_at base k)) = None then 3 else (0::nat)"
  have cost: "unat (CurrentIndex pd1) + ?first m1 (Suc k) + 3 * crossings base (Suc k) n \<le> unat (CurrentIndex ?pd) + ?first m k + 3 * crossings base k n"
  proof (cases "Suc k < n")
    case True
    then show ?thesis using 1(6,9) k(1) crossings_step [of k n base] same_table_next [OF r True] by (auto split: if_splits)
  next
    case False
    then show ?thesis using 1(6) k(1) by (simp add: crossings_def split: if_splits)
  qed
  have "d = n - Suc k" "Suc k \<le> n" "unat (CurrentIndex pd1) + ?first m1 (Suc k) + 3 * crossings base (Suc k) n \<le> unat (NumberOfFrames pd1)"
    using k cost pd1(2) Suc.prems(4) by simp_all
  with Suc.hyps(1) [of "Suc k" ?ctx m1] 1(2) pd1(1)
  obtain pd' m' where 2: "VmWalkPagingTables_loop VmMapPage cr3 base Size (of_nat (Suc k * 4096)) ?ctx m1 = Some (?ctx\<lparr>CtxPagingData := pd'\<rparr>, m')"
    "tables_ok pd' m'" "same_machine m1 m'" "ReleasedFrames m' = ReleasedFrames m1" "\<exists>c. pd' = pd1\<lparr>CurrentIndex := c\<rparr>"
    "unat (CurrentIndex pd') \<le> unat (CurrentIndex pd1) + ?first m1 (Suc k) + 3 * crossings base (Suc k) n"
    "\<forall>j. Suc k \<le> j \<and> j < n \<longrightarrow> CtxInvalidate ctx \<or> translate m1 root (page_at base j) = None \<longrightarrow> page_at base j \<in> set (TlbInvalidations m')"
    "pages_changed (\<lambda>j. if CtxInvalidate ctx \<or> translate m1 root (page_at base j) = None
        then Some (pte_of (PhysicalAddressBase ctx + (page_at base j - VirtualAddressBase ctx))
          (page_flags (CtxPageRights ctx) (CtxUncacheable ctx) (KernelSpace pd1) m1))
        else translate m1 root (page_at base j)) base (Suc k) n (translate m1 root) (translate m' root)"
    by (simp del: of_nat_mult cong: if_cong) blast
  have tr: "translate m1 root (page_at base j) = translate m root (page_at base j)" if "Suc k \<le> j" "j < n" for j
    using 1(8) vpn_page_at_inj [OF r that(2) k(1)] that by simp
  have "pages_changed ?new base (Suc k) n (translate m1 root) (translate m' root)"
    using 2(8) by (rule pages_changed_cong) (simp add: tr pd1 page_flags_cong [OF 1(3)])
  moreover have "translate m1 root = (\<lambda>x. if vpn x = vpn ?p then ?new k else translate m root x)"
  proof
    fix x show "translate m1 root x = (if vpn x = vpn ?p then ?new k else translate m root x)"
      using translate_vpn [of x ?p m root] by (cases "vpn x = vpn ?p") (simp_all add: 1(8))
  qed
  ultimately have "pages_changed ?new base k n (translate m root) (translate m' root)"
    by (rule pages_changed_step [OF r k(1), rotated])
  moreover have "page_at base j \<in> set (TlbInvalidations m')" if "k \<le> j" "j < n" "CtxInvalidate ctx \<or> translate m root (page_at base j) = None" for j
    using that 1(7) 2(3,7) tr [of j] by (cases "j = k") (auto simp: same_machine_def)
  moreover have "\<exists>c. pd' = ?pd\<lparr>CurrentIndex := c\<rparr>" using 1(5) 2(5) by auto
  moreover have "VmWalkPagingTables_loop VmMapPage cr3 base Size (of_nat (k * 4096)) ctx m = Some (ctx\<lparr>CtxPagingData := pd'\<rparr>, m')"
    using walk_loop_next [OF r Size k(1) cr3 1(1)] 2(1) by simp
  moreover have "unat (CurrentIndex pd') \<le> unat (CurrentIndex ?pd) + ?first m k + 3 * crossings base k n" using 2(6) cost by linarith
  moreover have "same_machine m m'" "ReleasedFrames m' = ReleasedFrames m" using 1(3,4) 2(3,4) same_machine_trans by auto
  ultimately show ?case using 2(2) by (intro exI [of _ pd'] exI [of _ m'] conjI allI impI) blast+
qed

section \<open>Walks that add no tables\<close>

text \<open>A callback that only goes on to the next table, if there is one, until the last level is reached.\<close>

locale table_reader =
  fixes cb :: "'c page_walk_callback" and missing :: "'c \<Rightarrow> 'c"
  assumes upper: "p \<noteq> NULL \<Longrightarrow> va \<noteq> NULL \<Longrightarrow> i = 1 \<or> i = 2 \<or> i = 3 \<Longrightarrow> (present (Entries m p) \<Longrightarrow> \<not> large (Entries m p)) \<Longrightarrow>
    cb cr3 p va i ctx m = Some (present (Entries m p), if present (Entries m p) then ctx else missing ctx, m)"
begin

lemma reader_step:
  assumes ok: "tables_ok pd m" and w: "walk_to m (BasePhysicalAddress pd) ks = Some t" and ks: "\<forall>l \<in> set ks. l < 512" "length ks < 3"
    and k: "k < 512" "off = of_nat k" and va: "va \<noteq> NULL" and i: "i = 1 \<or> i = 2 \<or> i = 3"
  shows "VmWalkPagingTables_levels cb cr3 va ((i, off) # ls) t ctx m =
      (if present (entry m t k) then VmWalkPagingTables_levels cb cr3 va ls (phys (entry m t k)) ctx m else Some (missing ctx, m))"
    and "present (entry m t k) \<Longrightarrow> walk_to m (BasePhysicalAddress pd) (ks @ [k]) = Some (phys (entry m t k))"
proof -
  obtain lv n where n: "tables_wf lv pd m" "n < unat (CurrentIndex pd)" "t = table_frame pd n" "lv n = Suc (length ks)" "entry_at m t k \<noteq> NULL"
    using tables_okE [OF ok w ks(1)] ks(2) k(1) by (metis less_imp_le)
  have nl: "present (Entries m (entry_at m t k)) \<Longrightarrow> \<not> large (Entries m (entry_at m t k))"
    using tables_wfD(5) [OF n(1,2) _ k(1)] n(3,4) ks(2) by (simp add: entry_def)
  have i4: "i \<noteq> 4" using i by auto
  show "VmWalkPagingTables_levels cb cr3 va ((i, off) # ls) t ctx m =
      (if present (entry m t k) then VmWalkPagingTables_levels cb cr3 va ls (phys (entry m t k)) ctx m else Some (missing ctx, m))"
    using upper [OF n(5) va i nl] nl n(5) i4 k(2) by (simp add: VmWalkPagingTables_levels.simps(2) Let_def field_values PteGetPhysicalAddress_eq entry_def)
  show "present (entry m t k) \<Longrightarrow> walk_to m (BasePhysicalAddress pd) (ks @ [k]) = Some (phys (entry m t k))"
    using w by (simp add: walk_to_snoc)
qed

lemma reader_levels:
  assumes ok: "tables_ok pd m" and va: "va \<noteq> NULL" and root: "root = BasePhysicalAddress pd"
  shows "walk_to m root (table_path va) = None \<Longrightarrow> VmWalkPagingTables_levels cb cr3 va (page_offsets va) root ctx m = Some (missing ctx, m)"
    and "walk_to m root (table_path va) = Some t \<Longrightarrow>
      VmWalkPagingTables_levels cb cr3 va (page_offsets va) root ctx m = VmWalkPagingTables_levels cb cr3 va [(4, MASK_PTE_OFFSET va)] t ctx m"
proof -
  let ?k1 = "unat (MASK_PML4_OFFSET va)" and ?k2 = "unat (MASK_PDPTE_OFFSET va)" and ?k3 = "unat (MASK_PDE_OFFSET va)"
  note k = offsets_lt_512 [of va] and ofs = offset_of_nat [of va]
  let ?e1 = "entry m root ?k1"
  let ?e2 = "entry m (phys ?e1) ?k2"
  let ?e3 = "entry m (phys ?e2) ?k3"
  have s1: "walk_to m (BasePhysicalAddress pd) [] = Some root" using root by simp
  have s2: "walk_to m (BasePhysicalAddress pd) [?k1] = Some (phys ?e1)" if "present ?e1" using that root by simp
  have s3: "walk_to m (BasePhysicalAddress pd) [?k1, ?k2] = Some (phys ?e2)" if "present ?e1" "present ?e2" using that root by simp
  have "VmWalkPagingTables_levels cb cr3 va (page_offsets va) root ctx m =
    (if present ?e1 \<and> present ?e2 \<and> present ?e3 then VmWalkPagingTables_levels cb cr3 va [(4, MASK_PTE_OFFSET va)] (phys ?e3) ctx m else Some (missing ctx, m))"
    using reader_step(1) [OF ok s1 _ _ k(1) ofs(1) va, of 1] reader_step(1) [OF ok s2 _ _ k(2) ofs(2) va, of 2]
      reader_step(1) [OF ok s3 _ _ k(3) ofs(3) va, of 3] k by simp
  moreover have "walk_to m root (table_path va) = (if present ?e1 \<and> present ?e2 \<and> present ?e3 then Some (phys ?e3) else None)"
    by (simp add: table_path_def)
  ultimately show "walk_to m root (table_path va) = None \<Longrightarrow> VmWalkPagingTables_levels cb cr3 va (page_offsets va) root ctx m = Some (missing ctx, m)"
    and "walk_to m root (table_path va) = Some t \<Longrightarrow>
      VmWalkPagingTables_levels cb cr3 va (page_offsets va) root ctx m = VmWalkPagingTables_levels cb cr3 va [(4, MASK_PTE_OFFSET va)] t ctx m"
    by (auto split: if_splits)
qed

end

interpretation unmap: table_reader VmUnmapPage "\<lambda>ctx. ctx"
  by unfold_locales (auto simp: VmUnmapPage_def PteIsPresent_eq)

interpretation retrieve: table_reader VmRetrievePhyAccess "\<lambda>ctx. ctx\<lparr>CtxPhysicalAddress := NULL\<rparr>"
  by unfold_locales (auto simp: VmRetrievePhyAccess_def PteIsPresent_eq field_values)

text \<open>At the last level.\<close>

lemma last_level_eq:
  assumes "entry_at m t (page_slot va) \<noteq> NULL" and "cb cr3 (entry_at m t (page_slot va)) va 4 ctx m = Some (c, ctx', m')"
  shows "VmWalkPagingTables_levels cb cr3 va [(4, MASK_PTE_OFFSET va)] t ctx m = Some (ctx', m')"
  using assms offset_of_nat(4) [of va] by (auto simp: VmWalkPagingTables_levels.simps Let_def PteGetPhysicalAddress_eq split: prod.splits)

lemma last_level_entry:
  assumes "tables_ok pd m" and "walk_to m (BasePhysicalAddress pd) (table_path va) = Some t"
  shows "entry_at m t (page_slot va) \<noteq> NULL"
  using tables_okE [OF assms] offsets_lt_512(4) [of va] by (metis table_path_simps order_refl)

definition released_by :: "bool \<Rightarrow> QWORD option \<Rightarrow> (ptr \<times> DWORD) list" where
  "released_by rel e = (case e of None \<Rightarrow> [] | Some x \<Rightarrow> if rel then [(phys x, 1)] else [])"

lemma unmap_page:
  assumes ok: "tables_ok pd m" and va: "va \<noteq> NULL" and root: "root = BasePhysicalAddress pd"
  shows "\<exists>m'. VmWalkPagingTables_levels VmUnmapPage cr3 va (page_offsets va) root ctx m = Some (ctx, m') \<and> tables_ok pd m' \<and> same_machine m m'
    \<and> ReleasedFrames m' = ReleasedFrames m @ released_by (ReleaseMemory ctx) (translate m root va)
    \<and> (translate m root va \<noteq> None \<longrightarrow> va \<in> set (TlbInvalidations m'))
    \<and> translate m' root = (\<lambda>x. if vpn x = vpn va then None else translate m root x)"
proof (cases "translate m root va")
  case None
  have "VmUnmapPage cr3 (entry_at m t (page_slot va)) va 4 ctx m = Some (False, ctx, m)"
    if "walk_to m root (table_path va) = Some t" for t
    using last_level_entry [OF ok] that root None va by (simp add: VmUnmapPage_def PteIsPresent_eq translate_def entry_def split: if_splits)
  then have "VmWalkPagingTables_levels VmUnmapPage cr3 va (page_offsets va) root ctx m = Some (ctx, m)"
    using unmap.reader_levels [OF ok va root] last_level_eq last_level_entry [OF ok] root by (cases "walk_to m root (table_path va)") fastforce+
  moreover have "translate m root x = (if vpn x = vpn va then None else translate m root x)" for x
    using None translate_vpn [of x va m root] by simp
  ultimately show ?thesis
    using ok None by (intro exI [of _ m] conjI ext) (auto simp: released_by_def)
next
  case (Some e)
  then obtain t where t: "walk_to m root (table_path va) = Some t" "entry m t (page_slot va) = e" "present e"
    by (auto simp: translate_def split: option.splits if_splits)
  let ?p = "entry_at m t (page_slot va)"
  let ?m1 = "PageInvalidateTlb va (wr_entry ?p 0 m)"
  let ?m' = "if ReleaseMemory ctx then ?m1\<lparr>ReleasedFrames := ReleasedFrames m @ [(phys e, 1)]\<rparr> else ?m1"
  have p: "?p \<noteq> NULL" "Entries m ?p = e" using last_level_entry [OF ok] t root by (simp_all add: entry_def)
  have u: "VmUnmapPage cr3 ?p va 4 ctx m = Some (True, ctx, ?m')"
    using p t(3) va by (simp add: VmUnmapPage_def PteIsPresent_eq PteGetPhysicalAddress_eq PteUnmap_def PageInvalidateTlb_def wr_entry_def MmuReleaseMemory_def)
  have "VmWalkPagingTables_levels VmUnmapPage cr3 va (page_offsets va) root ctx m = Some (ctx, ?m')"
    using unmap.reader_levels(2) [OF ok va root t(1)] last_level_eq [where cb = VmUnmapPage, OF p(1) u] by (simp only:)
  moreover have "PA2VA ?m' = PA2VA m" "Entries ?m' = (Entries m)(?p := 0)"
    by (simp_all add: PageInvalidateTlb_def wr_entry_def PA2VA_def fun_eq_iff)
  note set_page_entry [OF ok t(1) [unfolded root] this]
  moreover have "same_machine m ?m'" "va \<in> set (TlbInvalidations ?m')"
    "ReleasedFrames ?m' = ReleasedFrames m @ released_by (ReleaseMemory ctx) (translate m root va)"
    by (auto simp: same_machine_def PageInvalidateTlb_def wr_entry_def PA2VA_def fun_eq_iff released_by_def Some)
  ultimately show ?thesis using root by (intro exI [of _ ?m'] conjI) auto
qed

text \<open>Looking up a page gives the frame of its entry and its bits; at most these bits change.\<close>

definition clear_bits :: "bool \<Rightarrow> bool \<Rightarrow> QWORD \<Rightarrow> QWORD" where
  "clear_bits a d e = (let e = (if a then bf_set PT_ENTRY ''Accessed'' 0 e else e) in if d then bf_set PT_ENTRY ''Dirty'' 0 e else e)"

lemma bit_clear_bits: "bit (clear_bits a d e) k \<longleftrightarrow> bit e k \<and> \<not> (a \<and> k = 5) \<and> \<not> (d \<and> k = 6)"
  by (auto simp: clear_bits_def set_fields)

lemma lookup_page:
  assumes ok: "tables_ok pd m" and va: "va \<noteq> NULL" and root: "root = BasePhysicalAddress pd"
    and ctx: "ClearAccessed ctx = a" "ClearDirty ctx = d"
  shows "case translate m root va of
      None \<Rightarrow> VmWalkPagingTables_levels VmRetrievePhyAccess cr3 va (page_offsets va) root ctx m = Some (ctx\<lparr>CtxPhysicalAddress := NULL\<rparr>, m)
    | Some e \<Rightarrow> (\<exists>m'. VmWalkPagingTables_levels VmRetrievePhyAccess cr3 va (page_offsets va) root ctx m =
          Some (ctx\<lparr>CtxPhysicalAddress := phys e, CtxAccessed := bit e 5, CtxDirty := bit e 6\<rparr>, m')
        \<and> tables_ok pd m' \<and> same_machine m m' \<and> ReleasedFrames m' = ReleasedFrames m
        \<and> translate m' root = (\<lambda>x. if vpn x = vpn va then Some (clear_bits a d e) else translate m root x))"
proof (cases "translate m root va")
  case None
  have "VmRetrievePhyAccess cr3 (entry_at m t (page_slot va)) va 4 ctx m = Some (False, ctx\<lparr>CtxPhysicalAddress := NULL\<rparr>, m)"
    if "walk_to m root (table_path va) = Some t" for t
    using last_level_entry [OF ok] that root None va by (simp add: VmRetrievePhyAccess_def PteIsPresent_eq translate_def entry_def split: if_splits)
  then have "VmWalkPagingTables_levels VmRetrievePhyAccess cr3 va (page_offsets va) root ctx m = Some (ctx\<lparr>CtxPhysicalAddress := NULL\<rparr>, m)"
    using retrieve.reader_levels [OF ok va root] last_level_eq last_level_entry [OF ok] root by (cases "walk_to m root (table_path va)") fastforce+
  then show ?thesis by (simp add: None)
next
  case (Some e)
  then obtain t where t: "walk_to m root (table_path va) = Some t" "entry m t (page_slot va) = e" "present e"
    by (auto simp: translate_def split: option.splits if_splits)
  let ?p = "entry_at m t (page_slot va)"
  have p: "?p \<noteq> NULL" "Entries m ?p = e" using last_level_entry [OF ok] t root by (simp_all add: entry_def)
  obtain m' ctx' where m': "VmRetrievePhyAccess_found ?p va (ctx\<lparr>CtxPhysicalAddress := phys e\<rparr>) m = (False, ctx', m')" by (simp add: VmRetrievePhyAccess_found_def Let_def)
  have f: "ctx' = ctx\<lparr>CtxPhysicalAddress := phys e, CtxAccessed := bit e 5, CtxDirty := bit e 6\<rparr>" "PA2VA m' = PA2VA m"
    "Entries m' = (Entries m)(?p := clear_bits a d e)" "same_machine m m'" "ReleasedFrames m' = ReleasedFrames m"
    using m' ctx p(2) by (auto simp: VmRetrievePhyAccess_found_def Let_def field_values clear_bits_def wr_entry_def PageInvalidateTlb_def
        PA2VA_def same_machine_def fun_eq_iff split: if_splits)
  have u: "VmRetrievePhyAccess cr3 ?p va 4 ctx m = Some (False, ctx', m')"
    using p t(3) va m' by (simp add: VmRetrievePhyAccess_def PteIsPresent_eq PteGetPhysicalAddress_eq)
  have "VmWalkPagingTables_levels VmRetrievePhyAccess cr3 va (page_offsets va) root ctx m = Some (ctx', m')"
    using retrieve.reader_levels(2) [OF ok va root t(1)] last_level_eq [where cb = VmRetrievePhyAccess, OF p(1) u] by (simp only:)
  moreover note set_page_entry [OF ok t(1) [unfolded root] f(2,3)]
  moreover have "present (clear_bits a d e)" using t(3) by (simp add: present_def bit_clear_bits del: bit_0)
  ultimately show ?thesis unfolding Some option.case using f(1,4,5) root by (intro exI [of _ m'] conjI) (auto simp: fun_eq_iff)
qed

lemma unmap_loop:
  assumes r: "page_range base n" and Size: "unat Size = n * 4096" and cr3: "root = push_bit 12 (bf_get PML4_Pcide ''PhysicalAddress'' cr3)"
    and root: "root = BasePhysicalAddress pd" and "k \<le> n" and "tables_ok pd m"
  shows "\<exists>m'. VmWalkPagingTables_loop VmUnmapPage cr3 base Size (of_nat (k * 4096)) ctx m = Some (ctx, m')
    \<and> tables_ok pd m' \<and> same_machine m m'
    \<and> ReleasedFrames m' = ReleasedFrames m @ concat (map (\<lambda>j. released_by (ReleaseMemory ctx) (translate m root (page_at base j))) [k..<n])
    \<and> (\<forall>j. k \<le> j \<and> j < n \<longrightarrow> translate m root (page_at base j) \<noteq> None \<longrightarrow> page_at base j \<in> set (TlbInvalidations m'))
    \<and> pages_changed (\<lambda>j. None) base k n (translate m root) (translate m' root)"
  using assms(5-)
proof (induction "n - k" arbitrary: k m)
  case 0
  then have "k = n" by simp
  then show ?case using walk_loop_end [OF r Size] 0 pages_changed_none by (intro exI [of _ m]) auto
next
  case (Suc d)
  then have k: "k < n" "d = n - Suc k" "Suc k \<le> n" by simp_all
  let ?p = "page_at base k" and ?rel = "\<lambda>m j. released_by (ReleaseMemory ctx) (translate m root (page_at base j))"
  obtain m1 where 1: "VmWalkPagingTables_levels VmUnmapPage cr3 ?p (page_offsets ?p) root ctx m = Some (ctx, m1)" "tables_ok pd m1" "same_machine m m1"
    "ReleasedFrames m1 = ReleasedFrames m @ ?rel m k" "translate m root ?p \<noteq> None \<longrightarrow> ?p \<in> set (TlbInvalidations m1)"
    "translate m1 root = (\<lambda>x. if vpn x = vpn ?p then None else translate m root x)"
    using unmap_page [OF Suc.prems(2) page_at_not_null [OF r k(1)] root] by blast
  obtain m' where 2: "VmWalkPagingTables_loop VmUnmapPage cr3 base Size (of_nat (Suc k * 4096)) ctx m1 = Some (ctx, m')" "tables_ok pd m'" "same_machine m1 m'"
    "ReleasedFrames m' = ReleasedFrames m1 @ concat (map (?rel m1) [Suc k..<n])"
    "\<forall>j. Suc k \<le> j \<and> j < n \<longrightarrow> translate m1 root (page_at base j) \<noteq> None \<longrightarrow> page_at base j \<in> set (TlbInvalidations m')"
    "pages_changed (\<lambda>j. None) base (Suc k) n (translate m1 root) (translate m' root)"
    using Suc.hyps(1) [OF k(2,3) 1(2)] by blast
  have tr: "translate m1 root (page_at base j) = translate m root (page_at base j)" if "Suc k \<le> j" "j < n" for j
    using 1(6) vpn_page_at_inj [OF r that(2) k(1)] that by simp
  have "map (?rel m1) [Suc k..<n] = map (?rel m) [Suc k..<n]" by (simp add: tr)
  then have "ReleasedFrames m' = ReleasedFrames m @ concat (map (?rel m) [k..<n])"
    unfolding 2(4) 1(4) upt_conv_Cons [OF k(1)] list.map concat.simps append_assoc by (simp only:)
  moreover have "pages_changed (\<lambda>j. None) base k n (translate m root) (translate m' root)"
    by (rule pages_changed_step [OF r k(1) _ 2(6)]) (rule 1(6))
  moreover have "page_at base j \<in> set (TlbInvalidations m')" if "k \<le> j" "j < n" "translate m root (page_at base j) \<noteq> None" for j
    using that 1(5) 2(3,5) tr [of j] by (cases "j = k") (auto simp: same_machine_def)
  moreover have "VmWalkPagingTables_loop VmUnmapPage cr3 base Size (of_nat (k * 4096)) ctx m = Some (ctx, m')"
    using walk_loop_next [OF r Size k(1) cr3 1(1)] 2(1) by simp
  moreover have "same_machine m m'" using 1(3) 2(3) same_machine_trans by blast
  ultimately show ?case using 2(2) by (intro exI [of _ m'] conjI allI impI) blast+
qed

section \<open>What a mapping grants\<close>

text \<open>What the processor reads from the entry of a page: its frame, the accesses it allows and the index of its memory type.\<close>

record PAGE_VIEW =
  FrameOf :: ptr
  CanWrite :: bool
  CanExecute :: bool
  CanUser :: bool
  IsGlobal :: bool
  PatOf :: nat

definition page_view :: "QWORD \<Rightarrow> PAGE_VIEW" where
  "page_view e = \<lparr>FrameOf = phys e, CanWrite = bit e 1, CanExecute = (\<not> bit e 63), CanUser = bit e 2, IsGlobal = bit e 8,
     PatOf = 4 * of_bool (bit e 7) + 2 * of_bool (bit e 4) + of_bool (bit e 3)\<rparr>"

definition view_of :: "PAGING_MACHINE \<Rightarrow> PAGING_DATA \<Rightarrow> ptr \<Rightarrow> PAGE_VIEW option" where
  "view_of m pd va = map_option page_view (translate m (BasePhysicalAddress pd) va)"

lemma unat_three_bits: "4 * of_bool (bit x 2) + 2 * of_bool (bit x 1) + of_bool (bit x 0) = unat (x :: 3 word)"
proof -
  have "take_bit 3 (unat x) = horner_sum of_bool 2 (map (bit (unat x)) [0..<3])"
    by (rule horner_sum_bit_eq_take_bit [symmetric])
  also have "\<dots> = 4 * of_bool (bit x 2) + 2 * of_bool (bit x 1) + of_bool (bit x 0)"
    by (simp add: eval_nat_numeral bit_unsigned_iff del: bit_0)
  finally have "take_bit 3 (unat x) = 4 * of_bool (bit x 2) + 2 * of_bool (bit x 1) + of_bool (bit x 0)" .
  moreover have "take_bit 3 (unat x) = unat x"
    using unsigned_less [of x, where 'a = nat] by (intro take_bit_nat_eq_self) simp
  ultimately show ?thesis by (simp only:)
qed

lemma page_view_pte:
  assumes "unat pa mod 4096 = 0" and "unat pa < 2 ^ 52"
  shows "page_view (pte_of pa (page_flags rights uncached ks m)) = \<lparr>FrameOf = pa, CanWrite = IsBooleanFlagOn rights PAGE_RIGHTS_WRITE,
    CanExecute = IsBooleanFlagOn rights PAGE_RIGHTS_EXECUTE, CanUser = (\<not> ks), IsGlobal = ks,
    PatOf = unat (if uncached then UncacheableIndex m else WriteBackIndex m) mod 8\<rparr>"
proof -
  let ?x = "ucast (if uncached then UncacheableIndex m else WriteBackIndex m) :: 3 word"
  have "unat ?x = unat (if uncached then UncacheableIndex m else WriteBackIndex m) mod 8"
    by (simp add: unsigned_ucast_eq take_bit_eq_mod)
  then show ?thesis
    using unat_three_bits [of ?x] phys_aligned_id [OF assms]
    by (simp add: page_view_def phys_pte_of bit_pte_of page_flags_def zero_PTE_MAP_FLAGS_def del: bit_0)
qed

section \<open>Mapping, looking up and unmapping ranges\<close>

lemma cr3_root:
  assumes "tables_ok pd m"
  shows "push_bit 12 (bf_get PML4_Pcide ''PhysicalAddress'' (BasePhysicalAddress pd)) = BasePhysicalAddress pd"
proof -
  obtain lv where wf: "tables_wf lv pd m" using assms by (auto simp: tables_ok_def)
  have "0 < unat (NumberOfFrames pd)" using tables_wfD(1,4) [OF wf] by (auto simp: frames_ok_def)
  then show ?thesis
    using frames_okD(2) [OF tables_wfD(1) [OF wf], of 0] by (simp add: table_frame_def field_values phys_def)
qed

lemma page_at_diff: "pa + (page_at base j - base) = page_at pa j"
  by (simp add: page_at_def)

lemma page_at_phys:
  assumes "unat pa mod 4096 = 0" and "unat pa + n * 4096 \<le> 2 ^ 52" and "j < n"
  shows "unat (page_at pa j) = unat pa + j * 4096" "unat (page_at pa j) mod 4096 = 0" "unat (page_at pa j) < 2 ^ 52"
proof -
  have b: "unat pa + j * 4096 < 2 ^ 52" using assms(2,3) by linarith
  then show u: "unat (page_at pa j) = unat pa + j * 4096"
    using unat_of_nat_small [of "j * 4096"] unat_plus_if_small [of pa "of_nat (j * 4096)"] by (auto simp: page_at_def)
  show "unat (page_at pa j) mod 4096 = 0" "unat (page_at pa j) < 2 ^ 52" using b assms(1) by (simp_all add: u)
qed

text \<open>What a page of a range looks like after it was mapped to the frame at \<open>pa\<close>.\<close>

definition mapped_view :: "PAGING_MACHINE \<Rightarrow> bool \<Rightarrow> PAGE_RIGHTS \<Rightarrow> bool \<Rightarrow> ptr \<Rightarrow> PAGE_VIEW" where
  "mapped_view m kspace rights uncached pa = \<lparr>FrameOf = pa, CanWrite = IsBooleanFlagOn rights PAGE_RIGHTS_WRITE,
     CanExecute = IsBooleanFlagOn rights PAGE_RIGHTS_EXECUTE, CanUser = (\<not> kspace), IsGlobal = kspace,
     PatOf = unat (if uncached then UncacheableIndex m else WriteBackIndex m) mod 8\<rparr>"

lemma map_memory:
  assumes ok: "tables_ok pd m" and r: "page_range base n" "0 < n" and Size: "unat Size = n * 4096"
    and pa: "unat pa mod 4096 = 0" "unat pa + n * 4096 \<le> 2 ^ 52"
    and room: "unat (CurrentIndex pd) + 3 + 3 * crossings base 0 n \<le> unat (NumberOfFrames pd)"
  shows "\<exists>pd' m'. VmmMapMemoryInternal pd pa Size base rights Inval Uncached m = Some (pd', m') \<and> tables_ok pd' m' \<and> same_machine m m'
    \<and> ReleasedFrames m' = ReleasedFrames m \<and> (\<exists>c. pd' = pd\<lparr>CurrentIndex := c\<rparr>)
    \<and> unat (CurrentIndex pd') \<le> unat (CurrentIndex pd) + 3 + 3 * crossings base 0 n
    \<and> (\<forall>j < n. (Inval \<or> view_of m pd (page_at base j) = None \<longrightarrow> page_at base j \<in> set (TlbInvalidations m'))
        \<and> (\<forall>x. vpn x = vpn (page_at base j) \<longrightarrow> view_of m' pd' x =
            (if Inval \<or> view_of m pd x = None then Some (mapped_view m (KernelSpace pd) rights Uncached (page_at pa j)) else view_of m pd x)))
    \<and> (\<forall>x. (\<forall>j < n. vpn x \<noteq> vpn (page_at base j)) \<longrightarrow> view_of m' pd' x = view_of m pd x)"
proof -
  let ?root = "BasePhysicalAddress pd"
  define ctx where "ctx = zero_MAP_CONTEXT\<lparr>CtxPagingData := pd, PhysicalAddressBase := pa, VirtualAddressBase := base,
    CtxPageRights := rights, CtxInvalidate := Inval, CtxUncacheable := Uncached\<rparr>"
  have c: "CtxPagingData ctx = pd" "PhysicalAddressBase ctx = pa" "VirtualAddressBase ctx = base" "CtxPageRights ctx = rights"
    "CtxInvalidate ctx = Inval" "CtxUncacheable ctx = Uncached" by (simp_all add: ctx_def)
  have room': "unat (CurrentIndex pd) + (if 0 < n \<and> walk_to m ?root (table_path (page_at base 0)) = None then 3 else 0) + 3 * crossings base 0 n
      \<le> unat (NumberOfFrames pd)" using room by simp
  obtain pd' m' where 1: "VmWalkPagingTables_loop VmMapPage ?root base Size (of_nat (0 * 4096)) ctx m = Some (ctx\<lparr>CtxPagingData := pd'\<rparr>, m')"
    "tables_ok pd' m'" "same_machine m m'" "ReleasedFrames m' = ReleasedFrames m" "\<exists>c. pd' = pd\<lparr>CurrentIndex := c\<rparr>"
    "unat (CurrentIndex pd') \<le> unat (CurrentIndex pd) + (if 0 < n \<and> walk_to m ?root (table_path (page_at base 0)) = None then 3 else 0) + 3 * crossings base 0 n"
    "\<forall>j. 0 \<le> j \<and> j < n \<longrightarrow> Inval \<or> translate m ?root (page_at base j) = None \<longrightarrow> page_at base j \<in> set (TlbInvalidations m')"
    "pages_changed (\<lambda>j. if Inval \<or> translate m ?root (page_at base j) = None
        then Some (pte_of (pa + (page_at base j - base)) (page_flags rights Uncached (KernelSpace pd) m))
        else translate m ?root (page_at base j)) base 0 n (translate m ?root) (translate m' ?root)"
    using map_loop [OF r(1) Size cr3_root [OF ok, symmetric] le0, of ctx m, unfolded c, OF ok refl room']
    by (elim exE conjE) (rule that, (assumption | rule exI)+)
  have "unat Size mod 4096 = 0" "Size \<noteq> 0" using Size r(2) by (auto simp: unat_eq_zero [symmetric] simp del: unat_eq_zero)
  then have "VmmMapMemoryInternal pd pa Size base rights Inval Uncached m = Some (pd', m')"
    using 1(1) pa(1) by (simp add: VmmMapMemoryInternal_def IsAddressAligned_page VmWalkPagingTables_def ctx_def [symmetric] Let_def)
  moreover have root': "BasePhysicalAddress pd' = ?root" using 1(5) by auto
  have "view_of m' pd' x = (if Inval \<or> view_of m pd x = None then Some (mapped_view m (KernelSpace pd) rights Uncached (page_at pa j)) else view_of m pd x)"
    if j: "j < n" "vpn x = vpn (page_at base j)" for j x
    using 1(8) j translate_vpn [OF j(2), of m ?root] page_view_pte [OF page_at_phys(2,3) [OF pa j(1)]]
    by (simp add: pages_changed_def view_of_def root' page_at_diff mapped_view_def)
  moreover have "view_of m' pd' x = view_of m pd x" if "\<forall>j < n. vpn x \<noteq> vpn (page_at base j)" for x
    using 1(8) that by (simp add: pages_changed_def view_of_def root')
  moreover have "unat (CurrentIndex pd') \<le> unat (CurrentIndex pd) + 3 + 3 * crossings base 0 n" using 1(6) by (simp split: if_splits)
  moreover have "page_at base j \<in> set (TlbInvalidations m')" if "j < n" "Inval \<or> view_of m pd (page_at base j) = None" for j
    using 1(7) that by (auto simp: view_of_def)
  ultimately show ?thesis using 1(2-5) by (intro exI [of _ pd'] exI [of _ m'] conjI allI impI) blast+
qed

lemma unmap_memory:
  assumes ok: "tables_ok pd m" and r: "page_range base n" "0 < n" and Size: "unat Size = n * 4096"
  shows "\<exists>m'. VmmUnmapMemoryEx (BasePhysicalAddress pd) base Size Release m = Some m' \<and> tables_ok pd m' \<and> same_machine m m'
    \<and> ReleasedFrames m' = ReleasedFrames m @ concat (map (\<lambda>j. case view_of m pd (page_at base j) of None \<Rightarrow> []
        | Some v \<Rightarrow> if Release then [(FrameOf v, 1)] else []) [0..<n])
    \<and> (\<forall>j < n. (view_of m pd (page_at base j) \<noteq> None \<longrightarrow> page_at base j \<in> set (TlbInvalidations m'))
        \<and> (\<forall>x. vpn x = vpn (page_at base j) \<longrightarrow> view_of m' pd x = None))
    \<and> (\<forall>x. (\<forall>j < n. vpn x \<noteq> vpn (page_at base j)) \<longrightarrow> view_of m' pd x = view_of m pd x)"
proof -
  let ?root = "BasePhysicalAddress pd" and ?ctx = "zero_MAP_CONTEXT\<lparr>ReleaseMemory := Release\<rparr>"
  have rel: "ReleaseMemory ?ctx = Release" by simp
  obtain m' where 1: "VmWalkPagingTables_loop VmUnmapPage ?root base Size (of_nat (0 * 4096)) ?ctx m = Some (?ctx, m')" "tables_ok pd m'" "same_machine m m'"
    "ReleasedFrames m' = ReleasedFrames m @ concat (map (\<lambda>j. released_by Release (translate m ?root (page_at base j))) [0..<n])"
    "\<forall>j. 0 \<le> j \<and> j < n \<longrightarrow> translate m ?root (page_at base j) \<noteq> None \<longrightarrow> page_at base j \<in> set (TlbInvalidations m')"
    "pages_changed (\<lambda>j. None) base 0 n (translate m ?root) (translate m' ?root)"
    using unmap_loop [OF r(1) Size cr3_root [OF ok, symmetric] refl le0 ok, of ?ctx, unfolded rel] by blast
  have "released_by Release (translate m ?root x) = (case view_of m pd x of None \<Rightarrow> [] | Some v \<Rightarrow> if Release then [(FrameOf v, 1)] else [])" for x
    by (simp add: released_by_def view_of_def page_view_def split: option.split)
  note 1(4) [unfolded this]
  moreover have "base \<noteq> NULL" "unat base mod 4096 = 0" "unat Size mod 4096 = 0" "Size \<noteq> 0"
    using r Size by (auto simp: page_range_def unat_eq_zero [symmetric] simp del: unat_eq_zero)
  then have "VmmUnmapMemoryEx ?root base Size Release m = Some m'"
    using 1(1) by (simp add: VmmUnmapMemoryEx_def IsAddressAligned_page VmWalkPagingTables_def)
  moreover have "view_of m' pd x = None" if "j < n" "vpn x = vpn (page_at base j)" for j x
    using 1(6) that by (simp add: pages_changed_def view_of_def)
  moreover have "view_of m' pd x = view_of m pd x" if "\<forall>j < n. vpn x \<noteq> vpn (page_at base j)" for x
    using 1(6) that by (simp add: pages_changed_def view_of_def)
  moreover have "page_at base j \<in> set (TlbInvalidations m')" if "j < n" "view_of m pd (page_at base j) \<noteq> None" for j
    using 1(5) that by (auto simp: view_of_def)
  ultimately show ?thesis using 1(2,3) by (intro exI [of _ m'] conjI allI impI) blast+
qed

lemma page_range_one:
  assumes "va \<noteq> NULL" and "unat va mod 4096 = 0"
  shows "page_range va 1"
proof -
  define q where "q = unat va div 4096"
  have q: "unat va = q * 4096" using assms(2) by (simp add: q_def mod_eq_0_iff_dvd)
  moreover have "unat va < 18446744073709551616" by simp
  ultimately have "q < 4503599627370496" by linarith
  then have "unat va + 4096 \<le> 18446744073709551616" using q by linarith
  then show ?thesis using assms by (simp add: page_range_def)
qed

lemma lookup_memory:
  assumes ok: "tables_ok pd m" and va: "va \<noteq> NULL" "unat va mod 4096 = 0"
  shows "\<exists>acc dirty m'. VmmGetPhysicalAddressEx (BasePhysicalAddress pd) va a d m =
      Some (case view_of m pd va of None \<Rightarrow> NULL | Some v \<Rightarrow> FrameOf v, acc, dirty, m')
    \<and> tables_ok pd m' \<and> view_of m' pd = view_of m pd \<and> same_machine m m' \<and> ReleasedFrames m' = ReleasedFrames m"
proof -
  let ?root = "BasePhysicalAddress pd"
  let ?ctx = "\<lparr>CtxPhysicalAddress = NULL, CtxAccessed = False, CtxDirty = False, ClearAccessed = a, ClearDirty = d\<rparr>"
  have r: "page_range va 1" using va by (rule page_range_one)
  have loop: "VmmGetPhysicalAddressEx ?root va a d m = map_option (\<lambda>(ctx, m). (CtxPhysicalAddress ctx, CtxAccessed ctx, CtxDirty ctx, m))
      (VmWalkPagingTables_levels VmRetrievePhyAccess ?root va (page_offsets va) ?root ?ctx m)"
  proof (cases "VmWalkPagingTables_levels VmRetrievePhyAccess ?root va (page_offsets va) ?root ?ctx m")
    case None
    then show ?thesis
      using va cr3_root [OF ok] by (simp add: VmmGetPhysicalAddressEx_def IsAddressAligned_page VmWalkPagingTables_def VmWalkPagingTables_loop.simps Let_def)
  next
    case (Some x)
    then show ?thesis
      using va walk_loop_next [OF r, of PAGE_SIZE 0 ?root ?root VmRetrievePhyAccess ?ctx m "fst x" "snd x"]
        walk_loop_end [OF r, of PAGE_SIZE VmRetrievePhyAccess ?root "fst x" "snd x"] cr3_root [OF ok]
      by (simp add: VmmGetPhysicalAddressEx_def IsAddressAligned_page VmWalkPagingTables_def split: prod.splits)
  qed
  have c: "ClearAccessed ?ctx = a" "ClearDirty ?ctx = d" by simp_all
  note l = lookup_page [OF ok va(1) refl c, of ?root]
  show ?thesis
  proof (cases "translate m ?root va")
    case None
    then show ?thesis using l ok by (auto simp: loop view_of_def)
  next
    case (Some e)
    then obtain m' where m': "VmWalkPagingTables_levels VmRetrievePhyAccess ?root va (page_offsets va) ?root ?ctx m =
          Some (?ctx\<lparr>CtxPhysicalAddress := phys e, CtxAccessed := bit e 5, CtxDirty := bit e 6\<rparr>, m')"
      "tables_ok pd m'" "same_machine m m'" "ReleasedFrames m' = ReleasedFrames m"
      "translate m' ?root = (\<lambda>x. if vpn x = vpn va then Some (clear_bits a d e) else translate m ?root x)"
      using l by auto
    have "phys (clear_bits a d e) = phys e" by (rule bit_word_eqI) (auto simp: phys_def bit_simps bit_clear_bits)
    then have "page_view (clear_bits a d e) = page_view e" by (simp add: page_view_def bit_clear_bits del: bit_0)
    then have "view_of m' pd x = view_of m pd x" for x
      using Some translate_vpn [of x va m ?root] by (simp add: view_of_def m'(5))
    then show ?thesis using m' Some by (auto simp: loop view_of_def page_view_def fun_eq_iff)
  qed
qed

section \<open>New tables\<close>

lemma fresh_tables:
  assumes "frames_ok pd m" and "CurrentIndex pd = 1" and "\<forall>k < 512. entry m (BasePhysicalAddress pd) k = 0"
  shows "tables_ok pd m" and "view_of m pd va = None"
proof -
  have f: "table_frame pd 0 = BasePhysicalAddress pd" by (simp add: table_frame_def)
  have "tables_wf (\<lambda>_. 1) pd m"
    using assms f by (auto simp: tables_wf_def)
  then show "tables_ok pd m" by (auto simp: tables_ok_def)
  have "walk_to m (BasePhysicalAddress pd) (table_path va) = None"
    using assms(3) offsets_lt_512(1) [of va] by (simp add: table_path_def)
  then show "view_of m pd va = None" by (simp add: view_of_def translate_def)
qed

text \<open>The memory types of the register, by their index.\<close>

definition pat_bytes :: "QWORD \<Rightarrow> BYTE list" where
  "pat_bytes v = map (\<lambda>k. ucast (drop_bit (8 * k) v)) [0..<8]"

lemma pat_loop_found:
  "VmDeterminePatIndices_loop vs i wb uc = (if wb = None then map_option (\<lambda>k. i + of_nat k) (if 6 \<in> set vs then Some (length (takeWhile (\<lambda>x. x \<noteq> 6) vs)) else None) else wb,
     if uc = None then map_option (\<lambda>k. i + of_nat k) (if 0 \<in> set vs then Some (length (takeWhile (\<lambda>x. x \<noteq> 0) vs)) else None) else uc)"
  by (induction vs i wb uc rule: VmDeterminePatIndices_loop.induct) (simp_all add: add.assoc)

lemma nth_takeWhile_first: "x \<in> set xs \<Longrightarrow> length (takeWhile (\<lambda>y. y \<noteq> x) xs) < length xs \<and> xs ! length (takeWhile (\<lambda>y. y \<noteq> x) xs) = x"
  by (induction xs) auto

lemma prepare_paging:
  "fst (VmmPreparePagingData v m) = STATUS_SUCCESS \<longleftrightarrow> 6 \<in> set (pat_bytes v) \<and> 0 \<in> set (pat_bytes v)"
  "fst (VmmPreparePagingData v m) = STATUS_SUCCESS \<Longrightarrow> m' = snd (VmmPreparePagingData v m) \<Longrightarrow>
     unat (WriteBackIndex m') < 8 \<and> pat_bytes v ! unat (WriteBackIndex m') = 6 \<and> unat (UncacheableIndex m') < 8 \<and> pat_bytes v ! unat (UncacheableIndex m') = 0"
proof -
  let ?i = "\<lambda>x. length (takeWhile (\<lambda>y. y \<noteq> x) (pat_bytes v))"
  have len: "length (pat_bytes v) = 8" by (simp add: pat_bytes_def)
  have d: "VmDeterminePatIndices v = (if 6 \<in> set (pat_bytes v) then Some (of_nat (?i 6)) else None, if 0 \<in> set (pat_bytes v) then Some (of_nat (?i 0)) else None)"
    unfolding VmDeterminePatIndices_def pat_loop_found pat_bytes_def [symmetric] by simp
  show s: "fst (VmmPreparePagingData v m) = STATUS_SUCCESS \<longleftrightarrow> 6 \<in> set (pat_bytes v) \<and> 0 \<in> set (pat_bytes v)"
    by (simp add: VmmPreparePagingData_def d)
  assume h: "fst (VmmPreparePagingData v m) = STATUS_SUCCESS" "m' = snd (VmmPreparePagingData v m)"
  have u: "unat (of_nat k :: BYTE) = k" if "k < 8" for k using that by (simp add: unsigned_of_nat take_bit_nat_eq_self)
  have "WriteBackIndex m' = of_nat (?i 6)" "UncacheableIndex m' = of_nat (?i 0)"
    using h s by (simp_all add: VmmPreparePagingData_def d)
  then show "unat (WriteBackIndex m') < 8 \<and> pat_bytes v ! unat (WriteBackIndex m') = 6 \<and> unat (UncacheableIndex m') < 8 \<and> pat_bytes v ! unat (UncacheableIndex m') = 0"
    using nth_takeWhile_first [of 6 "pat_bytes v"] nth_takeWhile_first [of 0 "pat_bytes v"] s h(1) len u by simp
qed

text \<open>A machine and tables without mappings, as an example: the tables lie at 1 MB and have 16 frames.\<close>

definition sample_machine :: PAGING_MACHINE where
  "sample_machine = \<lparr>Entries = (\<lambda>_. 0), gVirtualToPhysicalOffset = 0xFFFF800000000000, WriteBackIndex = 0, UncacheableIndex = 3,
     TlbInvalidations = [], ReleasedFrames = []\<rparr>"

definition sample_paging :: PAGING_DATA where
  "sample_paging = \<lparr>BasePhysicalAddress = 0x100000, NumberOfFrames = 16, CurrentIndex = 1, KernelSpace = True\<rparr>"

lemma sample_kernel: "KernelSpace sample_paging = True"
  by (simp add: sample_paging_def)

lemma sample_tables: "tables_ok sample_paging sample_machine" "view_of sample_machine sample_paging va = None"
proof -
  have f: "frames_ok sample_paging sample_machine" "\<forall>k < 512. entry sample_machine (BasePhysicalAddress sample_paging) k = 0"
    by (simp_all add: frames_ok_def sample_paging_def sample_machine_def PA2VA_def entry_def)
  show "tables_ok sample_paging sample_machine" "view_of sample_machine sample_paging va = None"
    using fresh_tables [OF f(1) _ f(2)] by (simp_all add: sample_paging_def)
qed

section \<open>Properties\<close>

text \<open>
  C30: Mapping a range of pages. With enough frames for new tables (three for the first page and three for each
  further table of the last level), \<open>VmmMapMemoryInternal\<close> returns, the tables are a tree again, and the
  translation has changed as asked for: page \<open>j\<close> of the range is mapped to frame \<open>j\<close> of the physical range, with
  the write and execute rights, the user access and the memory type that were asked for, unless it was mapped
  before and the caller did not ask to replace it; all other pages are mapped as before. The translation of each
  changed page is discarded from the TLB, and no frame is given back.
\<close>

theorem paging_map_spec:
  assumes "tables_ok pd m" and "page_range base n" and "0 < n" and "unat Size = n * 4096"
    and "unat pa mod 4096 = 0" and "unat pa + n * 4096 \<le> 2 ^ 52"
    and "unat (CurrentIndex pd) + 3 + 3 * crossings base 0 n \<le> unat (NumberOfFrames pd)"
  shows "\<exists>pd' m'. VmmMapMemoryInternal pd pa Size base rights Inval Uncached m = Some (pd', m') \<and> tables_ok pd' m'
    \<and> (\<forall>j < n. \<forall>x. vpn x = vpn (page_at base j) \<longrightarrow> view_of m' pd' x =
        (if Inval \<or> view_of m pd x = None then Some (mapped_view m (KernelSpace pd) rights Uncached (page_at pa j)) else view_of m pd x))
    \<and> (\<forall>x. (\<forall>j < n. vpn x \<noteq> vpn (page_at base j)) \<longrightarrow> view_of m' pd' x = view_of m pd x)
    \<and> (\<forall>j < n. Inval \<or> view_of m pd (page_at base j) = None \<longrightarrow> page_at base j \<in> set (TlbInvalidations m'))
    \<and> ReleasedFrames m' = ReleasedFrames m"
proof -
  let ?new = "\<lambda>x j. if Inval \<or> view_of m pd x = None then Some (mapped_view m (KernelSpace pd) rights Uncached (page_at pa j)) else view_of m pd x"
  obtain pd' m' where 1: "VmmMapMemoryInternal pd pa Size base rights Inval Uncached m = Some (pd', m')" "tables_ok pd' m'" "ReleasedFrames m' = ReleasedFrames m"
    and 2: "\<forall>j < n. (Inval \<or> view_of m pd (page_at base j) = None \<longrightarrow> page_at base j \<in> set (TlbInvalidations m'))
        \<and> (\<forall>x. vpn x = vpn (page_at base j) \<longrightarrow> view_of m' pd' x = ?new x j)"
    and 3: "\<forall>x. (\<forall>j < n. vpn x \<noteq> vpn (page_at base j)) \<longrightarrow> view_of m' pd' x = view_of m pd x"
    using map_memory [OF assms, of rights Inval Uncached] by (elim exE conjE) (rule that, assumption+)
  have "\<forall>j < n. \<forall>x. vpn x = vpn (page_at base j) \<longrightarrow> view_of m' pd' x = ?new x j"
    "\<forall>j < n. Inval \<or> view_of m pd (page_at base j) = None \<longrightarrow> page_at base j \<in> set (TlbInvalidations m')" using 2 by simp_all
  then show ?thesis using 1 3 by - (intro exI [of _ pd'] exI [of _ m'] conjI; assumption)
qed

text \<open>Two pages at the start of the kernel half are mapped to the frames at 2 MB.\<close>

theorem paging_map_spec_witness:
  "\<exists>pd' m'. VmmMapMemoryInternal sample_paging 0x200000 0x2000 0xFFFF900000000000 1 True False sample_machine = Some (pd', m')
    \<and> view_of m' pd' 0xFFFF900000001000 = Some \<lparr>FrameOf = 0x201000, CanWrite = True, CanExecute = False, CanUser = False, IsGlobal = True, PatOf = 0\<rparr>
    \<and> view_of m' pd' 0xFFFF900000002000 = None"
proof -
  have v: "page_at 0xFFFF900000000000 1 = 0xFFFF900000001000" "page_at 0x200000 1 = (0x201000 :: ptr)" by (simp_all add: page_at_def)
  have r: "page_range 0xFFFF900000000000 2" "unat (0x2000 :: QWORD) = 2 * 4096" "unat (0x200000 :: ptr) mod 4096 = 0" "unat (0x200000 :: ptr) + 2 * 4096 \<le> 2 ^ 52"
    by (simp_all add: page_range_def)
  have c: "unat (CurrentIndex sample_paging) + 3 + 3 * crossings 0xFFFF900000000000 0 2 \<le> unat (NumberOfFrames sample_paging)"
    by (simp add: sample_paging_def crossings_def upt_rec)
  obtain pd' m' where m': "VmmMapMemoryInternal sample_paging 0x200000 0x2000 0xFFFF900000000000 1 True False sample_machine = Some (pd', m')"
    "\<forall>j < 2. \<forall>x. vpn x = vpn (page_at 0xFFFF900000000000 j) \<longrightarrow> view_of m' pd' x = Some (mapped_view sample_machine True 1 False (page_at 0x200000 j))"
    "\<forall>x. (\<forall>j < 2. vpn x \<noteq> vpn (page_at 0xFFFF900000000000 j)) \<longrightarrow> view_of m' pd' x = None"
    using paging_map_spec [OF sample_tables(1) r(1) _ r(2-4) c, of 1 True False] sample_kernel by (simp add: sample_tables(2)) blast
  have "vpn 0xFFFF900000001000 = vpn (page_at 0xFFFF900000000000 1)" by (simp only: v)
  then have "view_of m' pd' 0xFFFF900000001000 = Some (mapped_view sample_machine True 1 False (page_at 0x200000 1))" using m'(2) by force
  moreover have "vpn 0xFFFF900000002000 \<noteq> vpn (page_at 0xFFFF900000000000 j)" if "j < 2" for j
    using that by (auto simp: less_2_cases_iff v [unfolded One_nat_def] vpn_def)
  then have "view_of m' pd' 0xFFFF900000002000 = None" using m'(3) by simp
  ultimately show ?thesis
    using m'(1) by (intro exI [of _ pd'] exI [of _ m']) (simp add: mapped_view_def v [unfolded One_nat_def] sample_machine_def IsBooleanFlagOn_def)
qed



text \<open>
  \<open>VmmGetPhysicalAddressEx\<close> agrees with the processor: it returns the frame that the page of the address is
  mapped to and NULL if it is not mapped. Reading and clearing the accessed and dirty bits changes no mapping.
\<close>

theorem paging_lookup_spec:
  assumes "tables_ok pd m" and "va \<noteq> NULL" and "unat va mod 4096 = 0"
  shows "\<exists>acc dirty m'. VmmGetPhysicalAddressEx (BasePhysicalAddress pd) va WantAccessed WantDirty m =
      Some (case view_of m pd va of None \<Rightarrow> NULL | Some v \<Rightarrow> FrameOf v, acc, dirty, m')
    \<and> tables_ok pd m' \<and> view_of m' pd = view_of m pd"
  using lookup_memory [OF assms, of WantAccessed WantDirty] by blast

theorem paging_lookup_spec_witness:
  "\<exists>acc dirty m'. VmmGetPhysicalAddressEx (BasePhysicalAddress sample_paging) 0xFFFF900000000000 True True sample_machine = Some (NULL, acc, dirty, m')"
  using paging_lookup_spec [OF sample_tables(1), of "0xFFFF900000000000" True True] by (auto simp: sample_tables(2))

end
