(* ===== verification/Mmu.thy ===== *)
theory Mmu
  imports Pmm Paging
begin

text \<open>
  The memory manager: how the physical memory manager, the reservations and the page tables work together
  (the rest of \<open>HAL9000/src/vmm.c\<close>, the operations of \<open>HAL9000/src/mmu.c\<close> on them, and the memory descriptor
  lists of \<open>HAL9000/src/mdl.c\<close>).

  The state has the system and one process; an argument that is NULL for the system in C is the selector
  \<open>SystemSpace\<close>. What is written to virtual memory (zeroing a page, reading a file into it) and the files that
  are closed are recorded in order. The file system is an argument: the function that reads from a file.
\<close>

abbreviation STATUS_UNSUCCESSFUL :: STATUS where "STATUS_UNSUCCESSFUL \<equiv> 0xE8000003"
abbreviation STATUS_INSUFFICIENT_MEMORY :: STATUS where "STATUS_INSUFFICIENT_MEMORY \<equiv> 0xE0100003"
abbreviation STATUS_PHYSICAL_MEMORY_NOT_AVAILABLE :: STATUS where "STATUS_PHYSICAL_MEMORY_NOT_AVAILABLE \<equiv> 0xE0100007"
abbreviation STATUS_MEMORY_CANNOT_BE_COMMITED :: STATUS where "STATUS_MEMORY_CANNOT_BE_COMMITED \<equiv> 0xE010000B"

section \<open>State\<close>

record PAGING_LOCK_DATA =
  PagingLock :: REC_RW_SPINLOCK
  PagingDataOf :: PAGING_DATA

datatype address_space_of = SystemSpace | ProcessSpace

datatype memory_effect = ZeroedMemory ptr DWORD | FileReadInto ptr ptr QWORD | FileClosed ptr

text \<open>\<open>CurrentSpace\<close> says if the process of the current thread is the system process.\<close>

record MMU_STATE =
  MmuCpu :: CPU
  MmuPcpu :: pcpu
  PageFaults :: QWORD
  CurrentSpace :: address_space_of
  MmuPmm :: PMM_DATA
  SystemVa :: VMM_RESERVATION_SPACE
  ProcessVa :: VMM_RESERVATION_SPACE
  SystemPaging :: PAGING_LOCK_DATA
  ProcessPaging :: PAGING_LOCK_DATA
  Machine :: PAGING_MACHINE
  MemoryEffects :: "memory_effect list"

text \<open>
  The environment of the operations: the functions of the locks, the return address they record, and
  \<open>IoReadFile\<close>, which gets the file, the number of bytes, the offset and the buffer and returns the status and
  the number of bytes that were read.
\<close>

record MMU_ENV =
  EnvLocks :: LOCK_OPS
  EnvReturn :: ptr
  EnvReadFile :: "ptr \<Rightarrow> QWORD \<Rightarrow> QWORD \<Rightarrow> ptr \<Rightarrow> STATUS \<times> QWORD"

definition va_of :: "address_space_of \<Rightarrow> MMU_STATE \<Rightarrow> VMM_RESERVATION_SPACE" where
  "va_of w s = (case w of SystemSpace \<Rightarrow> SystemVa s | ProcessSpace \<Rightarrow> ProcessVa s)"

definition put_va :: "address_space_of \<Rightarrow> VMM_RESERVATION_SPACE \<Rightarrow> MMU_STATE \<Rightarrow> MMU_STATE" where
  "put_va w v s = (case w of SystemSpace \<Rightarrow> s\<lparr>SystemVa := v\<rparr> | ProcessSpace \<Rightarrow> s\<lparr>ProcessVa := v\<rparr>)"

definition paging_of :: "address_space_of \<Rightarrow> MMU_STATE \<Rightarrow> PAGING_LOCK_DATA" where
  "paging_of w s = (case w of SystemSpace \<Rightarrow> SystemPaging s | ProcessSpace \<Rightarrow> ProcessPaging s)"

definition put_paging :: "address_space_of \<Rightarrow> PAGING_LOCK_DATA \<Rightarrow> MMU_STATE \<Rightarrow> MMU_STATE" where
  "put_paging w p s = (case w of SystemSpace \<Rightarrow> s\<lparr>SystemPaging := p\<rparr> | ProcessSpace \<Rightarrow> s\<lparr>ProcessPaging := p\<rparr>)"

definition add_effects :: "memory_effect list \<Rightarrow> MMU_STATE \<Rightarrow> MMU_STATE" where
  "add_effects es s = s\<lparr>MemoryEffects := MemoryEffects s @ es\<rparr>"

section \<open>Mapping under the lock of the page tables\<close>

definition MmuMapMemoryInternal ::
  "ptr \<Rightarrow> QWORD \<Rightarrow> PAGE_RIGHTS \<Rightarrow> ptr \<Rightarrow> bool \<Rightarrow> bool \<Rightarrow> address_space_of \<Rightarrow> MMU_STATE \<Rightarrow> MMU_STATE option" where
  "MmuMapMemoryInternal PhysicalAddress Size Rights VirtualAddress Invalidate Uncached w s = do {
     ASSERT (0 \<noteq> Size);
     ASSERT (IsAddressAligned Size PAGE_SIZE);
     ASSERT (NULL \<noteq> VirtualAddress);
     ASSERT (IsAddressAligned VirtualAddress PAGE_SIZE);
     let pPagingData = paging_of w s;
     (oldState, cpu, l) \<leftarrow> RecRwSpinlockAcquire (MmuCpu s) (PagingLock pPagingData) True;
     (pd, m) \<leftarrow> VmmMapMemoryInternal (PagingDataOf pPagingData) PhysicalAddress Size VirtualAddress Rights Invalidate Uncached (Machine s);
     (cpu, l) \<leftarrow> RecRwSpinlockRelease cpu l oldState True;
     Some (put_paging w \<lparr>PagingLock = l, PagingDataOf = pd\<rparr> (s\<lparr>MmuCpu := cpu, Machine := m\<rparr>))
   }"

text \<open>The virtual address is taken from the space of the system, whatever the tables.\<close>

definition MmuMapMemoryEx ::
  "ptr \<Rightarrow> QWORD \<Rightarrow> PAGE_RIGHTS \<Rightarrow> bool \<Rightarrow> bool \<Rightarrow> address_space_of \<Rightarrow> MMU_STATE \<Rightarrow> (ptr \<times> MMU_STATE) option" where
  "MmuMapMemoryEx PhysicalAddress Size Rights Invalidate Uncached w s = do {
     ASSERT (Size \<noteq> 0);
     let alignedPhysicalAddress = AlignAddressLower PhysicalAddress PAGE_SIZE;
     let alignmentDifferences = PhysicalAddress AND (PAGE_SIZE - 1);
     let alignedSize = AlignAddressUpper (Size + alignmentDifferences) PAGE_SIZE;
     ASSERT (alignedPhysicalAddress < PmmGetHighestPhysicalMemoryAddressPresent (MmuPmm s) - alignedSize);
     let pPagingData = paging_of w s;
     (oldState, cpu, l) \<leftarrow> RecRwSpinlockAcquire (MmuCpu s) (PagingLock pPagingData) True;
     (pCurPointer, sp, pd, m) \<leftarrow> VmmMapMemoryEx (PagingDataOf pPagingData) alignedPhysicalAddress alignedSize Rights Invalidate Uncached (SystemVa s) (Machine s);
     (cpu, l) \<leftarrow> RecRwSpinlockRelease cpu l oldState True;
     let s = put_paging w \<lparr>PagingLock = l, PagingDataOf = pd\<rparr> (s\<lparr>MmuCpu := cpu, Machine := m, SystemVa := sp\<rparr>);
     Some (if NULL = pCurPointer then NULL else pCurPointer + alignmentDifferences, s)
   }"

text \<open>The aligned size is a 32-bit number.\<close>

definition MmuUnmapMemoryEx :: "ptr \<Rightarrow> QWORD \<Rightarrow> bool \<Rightarrow> address_space_of \<Rightarrow> MMU_STATE \<Rightarrow> MMU_STATE option" where
  "MmuUnmapMemoryEx VirtualAddress Size Release w s = do {
     ASSERT (VirtualAddress \<noteq> NULL);
     ASSERT (Size \<noteq> 0);
     let pPagingData = paging_of w s;
     let alignedVirtualAddress = AlignAddressLower VirtualAddress PAGE_SIZE;
     let alignmentDifferences = (ucast (VirtualAddress - alignedVirtualAddress) :: DWORD);
     let alignedSize = (ucast (AlignAddressUpper (Size + ucast alignmentDifferences) PAGE_SIZE) :: DWORD);
     (oldState, cpu, l) \<leftarrow> RecRwSpinlockAcquire (MmuCpu s) (PagingLock pPagingData) True;
     m \<leftarrow> VmmUnmapMemoryEx (BasePhysicalAddress (PagingDataOf pPagingData)) alignedVirtualAddress (ucast alignedSize) Release (Machine s);
     (cpu, l) \<leftarrow> RecRwSpinlockRelease cpu l oldState True;
     Some (put_paging w (pPagingData\<lparr>PagingLock := l\<rparr>) (s\<lparr>MmuCpu := cpu, Machine := m\<rparr>))
   }"

text \<open>The tables are those of a space, whose lock is taken, or those at a value of \<^verbatim>\<open>CR3\<close>.\<close>

definition MmuGetPhysicalAddressEx :: "ptr \<Rightarrow> address_space_of + ptr \<Rightarrow> MMU_STATE \<Rightarrow> (ptr \<times> MMU_STATE) option" where
  "MmuGetPhysicalAddressEx VirtualAddress tables s =
     (if NULL = VirtualAddress then Some (NULL, s)
      else do {
        let alignedAddress = AlignAddressLower VirtualAddress PAGE_SIZE;
        let alignmentDifference = VirtualAddress AND (PAGE_SIZE - 1);
        (case tables of
           Inl w \<Rightarrow> do {
             (oldState, cpu, l) \<leftarrow> RecRwSpinlockAcquire (MmuCpu s) (PagingLock (paging_of w s)) False;
             (pa, acc, dirty, m) \<leftarrow> VmmGetPhysicalAddressEx (BasePhysicalAddress (PagingDataOf (paging_of w s))) alignedAddress False False (Machine s);
             (cpu, l) \<leftarrow> RecRwSpinlockRelease cpu l oldState False;
             Some (pa + alignmentDifference, put_paging w ((paging_of w s)\<lparr>PagingLock := l\<rparr>) (s\<lparr>MmuCpu := cpu, Machine := m\<rparr>))
           }
         | Inr cr3 \<Rightarrow> do {
             (pa, acc, dirty, m) \<leftarrow> VmmGetPhysicalAddressEx cr3 alignedAddress False False (Machine s);
             Some (pa + alignmentDifference, s\<lparr>Machine := m\<rparr>)
           })
      })"

section \<open>Memory descriptor lists\<close>

record MDL_TRANSLATION_PAIR =
  PairAddress :: ptr
  NumberOfBytes :: DWORD

record MDL =
  MdlStartVa :: ptr
  ByteCount :: DWORD
  ByteOffset :: DWORD
  NumberOfTranslationPairs :: DWORD
  Translations :: "MDL_TRANSLATION_PAIR list"

text \<open>
  Both loops of \<open>MdlAllocateEx\<close> run over the pages of the buffer after the first one. The first one counts the
  pairs, the second one stores a pair when the next page is not adjacent.
\<close>

partial_function (option) MdlCount_loop ::
  "ptr \<Rightarrow> address_space_of + ptr \<Rightarrow> DWORD \<Rightarrow> DWORD \<Rightarrow> MDL_TRANSLATION_PAIR \<Rightarrow> DWORD \<Rightarrow> MMU_STATE \<Rightarrow> (DWORD \<times> MMU_STATE) option" where
  "MdlCount_loop pAlignedAddress tables alignedSize offset mdlCurPair noOfPairs s =
     (if offset < alignedSize then do {
        let pCurAddr = pAlignedAddress + ucast offset;
        (pa, s) \<leftarrow> MmuGetPhysicalAddressEx pCurAddr tables s;
        ASSERT (NULL \<noteq> pa);
        (if PairAddress mdlCurPair + ucast (NumberOfBytes mdlCurPair) = pa
         then MdlCount_loop pAlignedAddress tables alignedSize (offset + 0x1000) (mdlCurPair\<lparr>NumberOfBytes := NumberOfBytes mdlCurPair + 0x1000\<rparr>) noOfPairs s
         else MdlCount_loop pAlignedAddress tables alignedSize (offset + 0x1000) \<lparr>PairAddress = pa, NumberOfBytes = 0x1000\<rparr> (noOfPairs + 1) s)
      }
      else Some (noOfPairs, s))"

partial_function (option) MdlFill_loop ::
  "ptr \<Rightarrow> address_space_of + ptr \<Rightarrow> DWORD \<Rightarrow> DWORD \<Rightarrow> MDL_TRANSLATION_PAIR \<Rightarrow> DWORD \<Rightarrow> MDL_TRANSLATION_PAIR list \<Rightarrow> MMU_STATE
    \<Rightarrow> (MDL_TRANSLATION_PAIR \<times> DWORD \<times> MDL_TRANSLATION_PAIR list \<times> MMU_STATE) option" where
  "MdlFill_loop pAlignedAddress tables alignedSize offset mdlCurPair indexInMdlArray translations s =
     (if offset < alignedSize then do {
        let pCurAddr = pAlignedAddress + ucast offset;
        (pa, s) \<leftarrow> MmuGetPhysicalAddressEx pCurAddr tables s;
        ASSERT (NULL \<noteq> pa);
        (if PairAddress mdlCurPair + ucast (NumberOfBytes mdlCurPair) = pa
         then MdlFill_loop pAlignedAddress tables alignedSize (offset + 0x1000)
           (mdlCurPair\<lparr>NumberOfBytes := NumberOfBytes mdlCurPair + 0x1000\<rparr>) indexInMdlArray translations s
         else do {
           translations \<leftarrow> wr_at translations (unat indexInMdlArray) mdlCurPair;
           MdlFill_loop pAlignedAddress tables alignedSize (offset + 0x1000) \<lparr>PairAddress = pa, NumberOfBytes = 0x1000\<rparr>
             (indexInMdlArray + 1) translations s
         })
      }
      else Some (mdlCurPair, indexInMdlArray, translations, s))"

definition MdlGetNumberOfPairs :: "MDL \<Rightarrow> DWORD" where
  "MdlGetNumberOfPairs Mdl = NumberOfTranslationPairs Mdl"

definition MdlGetTranslationPair :: "MDL \<Rightarrow> DWORD \<Rightarrow> MDL_TRANSLATION_PAIR option" where
  "MdlGetTranslationPair Mdl Index =
     (if Index < NumberOfTranslationPairs Mdl then rd_at (Translations Mdl) (unat Index) else None)"

section \<open>Regions\<close>

abbreviation VMM_ALLOC_TYPE_NOT_LAZY :: VMM_ALLOC_TYPE where "VMM_ALLOC_TYPE_NOT_LAZY \<equiv> 4"
abbreviation VMM_ALLOC_TYPE_ZERO :: VMM_ALLOC_TYPE where "VMM_ALLOC_TYPE_ZERO \<equiv> 8"

definition VmmMapDescribedRegion :: "ptr \<Rightarrow> MDL \<Rightarrow> PAGE_RIGHTS \<Rightarrow> address_space_of \<Rightarrow> MMU_STATE \<Rightarrow> MMU_STATE option" where
  "VmmMapDescribedRegion Base Mdl Rights w s = do {
     ASSERT (Base \<noteq> NULL);
     ASSERT (IsAddressAligned Base PAGE_SIZE);
     (currentOffset, s) \<leftarrow> for_upto (unat (MdlGetNumberOfPairs Mdl)) (\<lambda>i (currentOffset, s). do {
         pMdlPair \<leftarrow> MdlGetTranslationPair Mdl (of_nat i);
         let alignedPa = AlignAddressLower (PairAddress pMdlPair) PAGE_SIZE;
         let alignedPaSize = AlignAddressUpper (ucast (NumberOfBytes pMdlPair) + (PairAddress pMdlPair AND (PAGE_SIZE - 1))) PAGE_SIZE;
         s \<leftarrow> MmuMapMemoryInternal alignedPa alignedPaSize Rights (Base + currentOffset) False False w s;
         Some (currentOffset + alignedPaSize, s)
       }) (0, s);
     Some s
   }"

text \<open>What \<open>VmReservationSpaceFreeRegion\<close> does besides: the buffer of the bitmap is unmapped and the file is closed.\<close>

fun run_vm_effects :: "vm_effect list \<Rightarrow> MMU_STATE \<Rightarrow> MMU_STATE option" where
  "run_vm_effects [] s = Some s"
| "run_vm_effects (MmuUnmapMemory a n # es) s = do { s \<leftarrow> MmuUnmapMemoryEx a (ucast n) True SystemSpace s; run_vm_effects es s }"
| "run_vm_effects (IoCloseFile f # es) s = run_vm_effects es (add_effects [FileClosed f] s)"

definition FreeRegion_in :: "address_space_of \<Rightarrow> ptr \<Rightarrow> QWORD \<Rightarrow> VMM_FREE_TYPE \<Rightarrow> MMU_STATE \<Rightarrow> (ptr \<times> QWORD \<times> MMU_STATE) option" where
  "FreeRegion_in w Address Size FreeType s = do {
     (alignedAddress, alignedSize, effects, cpu, pCpu, sp) \<leftarrow> VmReservationSpaceFreeRegion (MmuCpu s) (MmuPcpu s) (va_of w s) Address Size FreeType;
     s \<leftarrow> run_vm_effects effects (put_va w sp (s\<lparr>MmuCpu := cpu, MmuPcpu := pCpu\<rparr>));
     Some (alignedAddress, alignedSize, s)
   }"

text \<open>
  \<open>w\<close> selects the reservations and \<open>pw\<close> the page tables. The result is NULL if the status is an error; then the
  region is released and, if frames were reserved, unmapped.
\<close>

definition VmmAllocRegionEx ::
  "MMU_ENV \<Rightarrow> ptr \<Rightarrow> QWORD \<Rightarrow> VMM_ALLOC_TYPE \<Rightarrow> PAGE_RIGHTS \<Rightarrow> bool \<Rightarrow> ptr \<Rightarrow> address_space_of \<Rightarrow> address_space_of \<Rightarrow> MDL option \<Rightarrow> MMU_STATE
    \<Rightarrow> (ptr \<times> MMU_STATE) option" where
  "VmmAllocRegionEx env Base Size AllocType Rights Uncached FileObject w pw Mdl s = do {
     ASSERT (Size \<noteq> 0);
     ASSERT (IsFlagOn AllocType (VMM_ALLOC_TYPE_COMMIT OR VMM_ALLOC_TYPE_RESERVE));
     ASSERT (Mdl = None \<or> IsBooleanFlagOn AllocType VMM_ALLOC_TYPE_NOT_LAZY);
     ASSERT (\<not> IsBooleanFlagOn AllocType VMM_ALLOC_TYPE_ZERO);
     ASSERT (Mdl = None \<or> FileObject = NULL);
     (status, mapped, cpu, pCpu, sp) \<leftarrow> VmReservationSpaceAllocRegion (MmuCpu s) (MmuPcpu s) (va_of w s) Base Size AllocType Rights Uncached FileObject;
     let s = put_va w sp (s\<lparr>MmuCpu := cpu, MmuPcpu := pCpu\<rparr>);
     if \<not> SUCCEEDED status then Some (NULL, s)
     else do {
       (pBaseAddress, alignedSize) \<leftarrow> mapped;
       ASSERT (NULL \<noteq> pBaseAddress);
       if \<not> IsBooleanFlagOn AllocType VMM_ALLOC_TYPE_NOT_LAZY then Some (pBaseAddress, s)
       else do {
         ASSERT (IsBooleanFlagOn AllocType VMM_ALLOC_TYPE_COMMIT);
         case Mdl of
           Some mdl \<Rightarrow> do {
             ASSERT (ucast (ByteCount mdl) \<le> alignedSize);
             s \<leftarrow> VmmMapDescribedRegion pBaseAddress mdl Rights pw s;
             Some (pBaseAddress, s)
           }
         | None \<Rightarrow> do {
             ASSERT (alignedSize div PAGE_SIZE \<le> ucast MAX_DWORD);
             (pa, cpu, pmm) \<leftarrow> PmmReserveMemory (EnvLocks env) (EnvReturn env) (MmuCpu s) (MmuPmm s) (ucast (alignedSize div PAGE_SIZE));
             let s = s\<lparr>MmuCpu := cpu, MmuPmm := pmm\<rparr>;
             if NULL = pa then Some (pBaseAddress, s)
             else do {
               s \<leftarrow> MmuMapMemoryInternal pa alignedSize Rights pBaseAddress True Uncached pw s;
               if FileObject = NULL then Some (pBaseAddress, s)
               else do {
                 let (status, bytesRead) = EnvReadFile env FileObject alignedSize 0 pBaseAddress;
                 let s = add_effects [FileReadInto FileObject pBaseAddress bytesRead] s;
                 if \<not> SUCCEEDED status then do {
                   (pAlignedAddress, alignedSize, s) \<leftarrow> FreeRegion_in w pBaseAddress 0 VMM_FREE_TYPE_RELEASE s;
                   ASSERT (pAlignedAddress = pBaseAddress);
                   s \<leftarrow> MmuUnmapMemoryEx pAlignedAddress (ucast (ucast alignedSize :: DWORD)) True pw s;
                   Some (NULL, s)
                 }
                 else do {
                   ASSERT (alignedSize - bytesRead \<le> ucast MAX_DWORD);
                   Some (pBaseAddress, add_effects [ZeroedMemory (pBaseAddress + bytesRead) (ucast (alignedSize - bytesRead))] s)
                 }
               }
             }
           }
       }
     }
   }"

definition VmmFreeRegionEx ::
  "ptr \<Rightarrow> QWORD \<Rightarrow> VMM_FREE_TYPE \<Rightarrow> bool \<Rightarrow> address_space_of \<Rightarrow> address_space_of \<Rightarrow> MMU_STATE \<Rightarrow> MMU_STATE option" where
  "VmmFreeRegionEx Address Size FreeType Release w pw s = do {
     ASSERT (Address \<noteq> NULL);
     ASSERT (IsBooleanFlagOn FreeType VMM_FREE_TYPE_RELEASE \<noteq> IsBooleanFlagOn FreeType VMM_FREE_TYPE_DECOMMIT);
     ASSERT (IsBooleanFlagOn FreeType VMM_FREE_TYPE_RELEASE \<and> Size = 0 \<or> IsBooleanFlagOn FreeType VMM_FREE_TYPE_DECOMMIT \<and> Size \<noteq> 0);
     (alignedAddress, alignedSize, s) \<leftarrow> FreeRegion_in w Address Size FreeType s;
     if IsFlagOn FreeType (VMM_FREE_TYPE_DECOMMIT OR VMM_FREE_TYPE_RELEASE) then do {
       ASSERT (NULL \<noteq> alignedAddress);
       ASSERT (0 \<noteq> alignedSize);
       MmuUnmapMemoryEx alignedAddress alignedSize Release pw s
     }
     else Some s
   }"

section \<open>Page faults\<close>

definition VmmRetrieveReservationSpaceForAddress :: "ptr \<Rightarrow> MMU_STATE \<Rightarrow> address_space_of" where
  "VmmRetrieveReservationSpaceForAddress VirtualAddress s =
     (if VmIsKernelAddress VirtualAddress then SystemSpace else CurrentSpace s)"

text \<open>
  The steps of \<open>VmmSolvePageFault\<close> after the page was mapped: it is read from the file, if there is one, and the
  rest is zeroed with the write protection of the processor off. When the file cannot be read the page stays mapped.
\<close>

definition VmmSolvePageFault_fill :: "MMU_ENV \<Rightarrow> PAGE_DESCRIPTION \<Rightarrow> ptr \<Rightarrow> MMU_STATE \<Rightarrow> (bool \<times> MMU_STATE) option" where
  "VmmSolvePageFault_fill env page alignedAddress s = do {
     let (status, bytesReadFromFile) =
       (if PageFile page \<noteq> NULL then EnvReadFile env (PageFile page) PAGE_SIZE (FileOffset page) alignedAddress else (STATUS_SUCCESS, 0));
     let s = (if PageFile page \<noteq> NULL then add_effects [FileReadInto (PageFile page) alignedAddress bytesReadFromFile] s else s);
     if \<not> SUCCEEDED status then Some (False, s)
     else do {
       ASSERT (bytesReadFromFile \<le> PAGE_SIZE);
       let s = (if bytesReadFromFile \<noteq> PAGE_SIZE
         then add_effects [ZeroedMemory (alignedAddress + bytesReadFromFile) (0x1000 - ucast bytesReadFromFile)] s else s);
       Some (True, if MmuPcpu s \<noteq> None then s\<lparr>PageFaults := PageFaults s + 1\<rparr> else s)
     }
   }"

text \<open>\<open>pw\<close> selects the page tables.\<close>

definition VmmSolvePageFault :: "MMU_ENV \<Rightarrow> ptr \<Rightarrow> PAGE_RIGHTS \<Rightarrow> address_space_of \<Rightarrow> MMU_STATE \<Rightarrow> (bool \<times> MMU_STATE) option" where
  "VmmSolvePageFault env FaultingAddress RightsRequested pw s = do {
     ASSERT (INTR_OFF = CpuIntrGetState (MmuCpu s));
     let bKernelAddress = VmIsKernelAddress FaultingAddress;
     if NULL = AlignAddressLower FaultingAddress PAGE_SIZE then Some (False, s)
     else if bKernelAddress \<and> \<not> KernelSpace (PagingDataOf (paging_of pw s)) then Some (False, s)
     else if \<not> bKernelAddress \<and> KernelSpace (PagingDataOf (paging_of pw s)) then Some (False, s)
     else do {
       let w = VmmRetrieveReservationSpaceForAddress FaultingAddress s;
       (access, cpu, sp) \<leftarrow> VmReservationCanAddressBeAccessed (MmuCpu s) (MmuPcpu s) (va_of w s) FaultingAddress RightsRequested;
       let s = put_va w sp (s\<lparr>MmuCpu := cpu\<rparr>);
       case access of
         None \<Rightarrow> Some (False, s)
       | Some page \<Rightarrow> do {
           (pa, cpu, pmm) \<leftarrow> PmmReserveMemory (EnvLocks env) (EnvReturn env) (MmuCpu s) (MmuPmm s) 1;
           ASSERT (NULL \<noteq> pa);
           let s = s\<lparr>MmuCpu := cpu, MmuPmm := pmm\<rparr>;
           let alignedAddress = AlignAddressLower FaultingAddress PAGE_SIZE;
           s \<leftarrow> MmuMapMemoryInternal pa PAGE_SIZE (MemoryRights page) alignedAddress True (PageUncacheable page) pw s;
           VmmSolvePageFault_fill env page alignedAddress s
         }
     }
   }"

definition MmuSolvePageFault :: "MMU_ENV \<Rightarrow> ptr \<Rightarrow> DWORD \<Rightarrow> MMU_STATE \<Rightarrow> (bool \<times> MMU_STATE) option" where
  "MmuSolvePageFault env FaultingAddress ErrorCode s = do {
     ASSERT (INTR_OFF = CpuIntrGetState (MmuCpu s));
     let rightsRequested = (if bit ErrorCode 1 then PAGE_RIGHTS_WRITE else 0) OR (if bit ErrorCode 4 then PAGE_RIGHTS_EXECUTE else 0);
     VmmSolvePageFault env FaultingAddress rightsRequested (if bit ErrorCode 2 then CurrentSpace s else SystemSpace) s
   }"

section \<open>Probing memory and describing a buffer\<close>

text \<open>
  A read access to a page. The processor translates the address with the tables of the buffer. If the page is not
  present, the handler of the page fault runs with interrupts disabled; a fault in the kernel that it does not solve
  halts the machine.
\<close>

definition MmuProbePage :: "MMU_ENV \<Rightarrow> address_space_of + ptr \<Rightarrow> ptr \<Rightarrow> MMU_STATE \<Rightarrow> MMU_STATE option" where
  "MmuProbePage env tables va s =
     (if translate (Machine s) (case tables of Inl w \<Rightarrow> BasePhysicalAddress (PagingDataOf (paging_of w s)) | Inr cr3 \<Rightarrow> cr3) va \<noteq> None then Some s
      else do {
        let oldState = CpuIntrGetState (MmuCpu s);
        (solved, s) \<leftarrow> MmuSolvePageFault env va 0 (s\<lparr>MmuCpu := (MmuCpu s)\<lparr>CpuIntr := INTR_OFF\<rparr>\<rparr>);
        ASSERT solved;
        Some (s\<lparr>MmuCpu := (MmuCpu s)\<lparr>CpuIntr := oldState\<rparr>\<rparr>)
      })"

partial_function (option) MmuProbe_loop ::
  "MMU_ENV \<Rightarrow> address_space_of + ptr \<Rightarrow> ptr \<Rightarrow> DWORD \<Rightarrow> DWORD \<Rightarrow> MMU_STATE \<Rightarrow> MMU_STATE option" where
  "MmuProbe_loop env tables pBuffer alignedSize offset s =
     (if offset < alignedSize then do {
        s \<leftarrow> MmuProbePage env tables (pBuffer + ucast offset) s;
        MmuProbe_loop env tables pBuffer alignedSize (offset + 0x1000) s
      }
      else Some s)"

definition MmuProbeMemory :: "MMU_ENV \<Rightarrow> address_space_of + ptr \<Rightarrow> ptr \<Rightarrow> DWORD \<Rightarrow> MMU_STATE \<Rightarrow> MMU_STATE option" where
  "MmuProbeMemory env tables Buffer ByteNumber s = do {
     ASSERT (NULL \<noteq> Buffer);
     ASSERT (0 \<noteq> ByteNumber);
     let pBuffer = AlignAddressLower Buffer PAGE_SIZE;
     let alignmentDifferences = (ucast (Buffer AND (PAGE_SIZE - 1)) :: DWORD);
     let alignedSize = (ucast (AlignAddressUpper (ucast (ByteNumber + alignmentDifferences)) PAGE_SIZE) :: DWORD);
     MmuProbe_loop env tables pBuffer alignedSize 0 s
   }"

text \<open>
  \<open>allocated\<close> says if the heap has room for the descriptor, whose array is zeroed. The pages of kernel memory are
  probed beforehand. The result is None for NULL.
\<close>

definition zero_MDL_TRANSLATION_PAIR :: MDL_TRANSLATION_PAIR where
  "zero_MDL_TRANSLATION_PAIR = \<lparr>PairAddress = NULL, NumberOfBytes = 0\<rparr>"

definition MdlAllocateEx :: "MMU_ENV \<Rightarrow> bool \<Rightarrow> ptr \<Rightarrow> DWORD \<Rightarrow> address_space_of + ptr \<Rightarrow> MMU_STATE \<Rightarrow> (MDL option \<times> MMU_STATE) option" where
  "MdlAllocateEx env allocated VirtualAddress Len tables s = do {
     ASSERT (NULL \<noteq> VirtualAddress);
     ASSERT (0 \<noteq> Len);
     let pAlignedAddress = AlignAddressLower VirtualAddress PAGE_SIZE;
     let alignmentDifferences = (ucast (VirtualAddress AND (PAGE_SIZE - 1)) :: DWORD);
     let alignedSize = (ucast (AlignAddressUpper (ucast (Len + alignmentDifferences)) PAGE_SIZE) :: DWORD);
     let bKernelMemory = (case tables of Inl w \<Rightarrow> KernelSpace (PagingDataOf (paging_of w s)) | Inr cr3 \<Rightarrow> True);
     s \<leftarrow> (if bKernelMemory then MmuProbeMemory env tables VirtualAddress Len s else Some s);
     (firstAddress, s) \<leftarrow> MmuGetPhysicalAddressEx VirtualAddress tables s;
     if firstAddress = NULL then do {
       ASSERT (\<not> bKernelMemory);
       Some (None, s)
     }
     else do {
       let mdlCurPair = \<lparr>PairAddress = firstAddress, NumberOfBytes = 0x1000 - alignmentDifferences\<rparr>;
       (noOfPairs, s) \<leftarrow> MdlCount_loop pAlignedAddress tables alignedSize 0x1000 mdlCurPair 1 s;
       if \<not> allocated then Some (None, s)
       else do {
         (firstAddress, s) \<leftarrow> MmuGetPhysicalAddressEx VirtualAddress tables s;
         ASSERT (firstAddress \<noteq> NULL);
         let mdlCurPair = \<lparr>PairAddress = firstAddress, NumberOfBytes = 0x1000 - alignmentDifferences\<rparr>;
         (mdlCurPair, indexInMdlArray, translations, s) \<leftarrow> MdlFill_loop pAlignedAddress tables alignedSize 0x1000 mdlCurPair 0
           (replicate (unat noOfPairs) zero_MDL_TRANSLATION_PAIR) s;
         translations \<leftarrow> wr_at translations (unat indexInMdlArray) mdlCurPair;
         ASSERT (indexInMdlArray + 1 = noOfPairs);
         Some (Some \<lparr>MdlStartVa = pAlignedAddress, ByteCount = Len, ByteOffset = alignmentDifferences,
           NumberOfTranslationPairs = indexInMdlArray + 1, Translations = translations\<rparr>, s)
       }
     }
   }"

section \<open>Stacks and buffers\<close>

abbreviation STACK_GUARD_SIZE :: DWORD where "STACK_GUARD_SIZE \<equiv> 0x2000"

text \<open>\<open>w\<close> is the system if no process is given. A stack that cannot be committed stays reserved.\<close>

definition MmuAllocStack :: "MMU_ENV \<Rightarrow> DWORD \<Rightarrow> bool \<Rightarrow> bool \<Rightarrow> address_space_of \<Rightarrow> MMU_STATE \<Rightarrow> (ptr \<times> MMU_STATE) option" where
  "MmuAllocStack env StackSize ProtectStack LazyMap w s = do {
     ASSERT (IsAddressAligned (ucast StackSize) PAGE_SIZE);
     let stackGuardSize = (if ProtectStack then STACK_GUARD_SIZE else 0);
     let totalAllocationSize = StackSize + stackGuardSize;
     let allocTypeCommit = VMM_ALLOC_TYPE_COMMIT OR (if LazyMap then 0 else VMM_ALLOC_TYPE_NOT_LAZY);
     (pStackBase, s) \<leftarrow> VmmAllocRegionEx env NULL (ucast totalAllocationSize) VMM_ALLOC_TYPE_RESERVE PAGE_RIGHTS_READWRITE False NULL w w None s;
     if NULL = pStackBase then Some (NULL, s)
     else do {
       (pCommitedStackBase, s) \<leftarrow> VmmAllocRegionEx env (pStackBase + ucast stackGuardSize) (ucast StackSize) allocTypeCommit PAGE_RIGHTS_READWRITE False NULL w w None s;
       Some (if NULL = pCommitedStackBase then NULL else pStackBase + ucast totalAllocationSize, s)
     }
   }"

definition MmuFreeStack :: "ptr \<Rightarrow> address_space_of \<Rightarrow> MMU_STATE \<Rightarrow> MMU_STATE option" where
  "MmuFreeStack Stack w s = do {
     ASSERT (Stack \<noteq> NULL);
     VmmFreeRegionEx Stack 0 VMM_FREE_TYPE_RELEASE True w w s
   }"

text \<open>The image of the process is given by its base and its size.\<close>

definition MmuIsBufferValid ::
  "ptr \<Rightarrow> QWORD \<Rightarrow> PAGE_RIGHTS \<Rightarrow> (ptr \<times> DWORD \<times> address_space_of) option \<Rightarrow> MMU_STATE \<Rightarrow> (STATUS \<times> MMU_STATE) option" where
  "MmuIsBufferValid Buffer BufferSz RightsRequested Process s =
     (if Buffer = NULL then Some (STATUS_INVALID_PARAMETER1, s)
      else if BufferSz = 0 then Some (STATUS_INVALID_PARAMETER2, s)
      else case Process of
        None \<Rightarrow> Some (STATUS_INVALID_PARAMETER4, s)
      | Some (ImageBase, ImageSize, w) \<Rightarrow>
          (if ImageBase \<le> Buffer \<and> Buffer < ImageBase + ucast ImageSize then Some (STATUS_SUCCESS, s)
           else do {
             (status, cpu, sp) \<leftarrow> VmmIsBufferValid (MmuCpu s) (va_of w s) Buffer BufferSz RightsRequested (KernelSpace (PagingDataOf (paging_of w s)));
             Some (status, put_va w sp (s\<lparr>MmuCpu := cpu\<rparr>))
           }))"

text \<open>\<open>allocated\<close> says if the heap has room for the descriptor of the buffer. The result has the address if the status is a success.\<close>

definition MmuGetSystemVirtualAddressForUserBuffer ::
  "MMU_ENV \<Rightarrow> bool \<Rightarrow> ptr \<Rightarrow> QWORD \<Rightarrow> PAGE_RIGHTS \<Rightarrow> address_space_of option \<Rightarrow> bool \<Rightarrow> MMU_STATE \<Rightarrow> (STATUS \<times> ptr option \<times> MMU_STATE) option" where
  "MmuGetSystemVirtualAddressForUserBuffer env allocated UserAddress Size Rights Process KernelAddressGiven s =
     (if UserAddress = NULL then Some (STATUS_INVALID_PARAMETER1, None, s)
      else if Size = 0 then Some (STATUS_INVALID_PARAMETER2, None, s)
      else case Process of
        None \<Rightarrow> Some (STATUS_INVALID_PARAMETER3, None, s)
      | Some w \<Rightarrow>
          (if \<not> KernelAddressGiven then Some (STATUS_INVALID_PARAMETER4, None, s)
           else do {
             ASSERT (Size \<le> ucast MAX_DWORD);
             (pMdl, s) \<leftarrow> MdlAllocateEx env allocated UserAddress (ucast Size) (Inl w) s;
             (case pMdl of
                None \<Rightarrow> Some (STATUS_UNSUCCESSFUL, None, s)
              | Some mdl \<Rightarrow> do {
                  (pKernelAddress, s) \<leftarrow> VmmAllocRegionEx env NULL Size (VMM_ALLOC_TYPE_RESERVE OR VMM_ALLOC_TYPE_COMMIT OR VMM_ALLOC_TYPE_NOT_LAZY) Rights False NULL
                    SystemSpace SystemSpace (Some mdl) s;
                  Some (if pKernelAddress = NULL then (STATUS_MEMORY_CANNOT_BE_COMMITED, None, s)
                        else (STATUS_SUCCESS, Some (pKernelAddress + (UserAddress AND (PAGE_SIZE - 1))), s))
                })
           }))"

definition MmuFreeSystemVirtualAddressForUserBuffer :: "ptr \<Rightarrow> MMU_STATE \<Rightarrow> MMU_STATE option" where
  "MmuFreeSystemVirtualAddressForUserBuffer KernelAddress s = do {
     ASSERT (KernelAddress \<noteq> NULL);
     VmmFreeRegionEx KernelAddress 0 VMM_FREE_TYPE_RELEASE False SystemSpace SystemSpace s
   }"

section \<open>The zero worker\<close>

text \<open>
  The worker thread and the threads that release frames share the list of the items (\<open>ReleasedFrames\<close>), its lock and
  the event \<open>NewPagesEvent\<close>. The event is of the notification type: a wait returns while it is signaled and leaves it
  signaled. The worker is about to do one of four actions, each of which is atomic for the other threads: the wait,
  taking the head of the list under the lock, clearing the event after the list was found empty, and the work on
  an item. \<open>FreedItems\<close> are the items that were given back to the pool.
\<close>

datatype ZERO_WORKER_AT = WaitForSignal | RemoveHead | ClearSignal | ZeroItem "ptr \<times> DWORD"

record ZERO_THREAD_DATA =
  NewPagesSignaled :: bool
  PagesLock :: LOCK
  WorkerAt :: ZERO_WORKER_AT
  FreedItems :: "(ptr \<times> DWORD) list"

text \<open>The work on an item: its frames are mapped, zeroed, given back to the physical memory manager and unmapped.\<close>

definition MmuZeroItem :: "MMU_ENV \<Rightarrow> ptr \<times> DWORD \<Rightarrow> MMU_STATE \<Rightarrow> MMU_STATE option" where
  "MmuZeroItem env pItem s = (case pItem of (pa, frames) \<Rightarrow> do {
     let noOfBytes = frames * 0x1000;
     (pAddr, s) \<leftarrow> MmuMapMemoryEx pa (ucast noOfBytes) PAGE_RIGHTS_READWRITE False False SystemSpace s;
     ASSERT (NULL \<noteq> pAddr);
     let s = add_effects [ZeroedMemory pAddr noOfBytes] s;
     (cpu, pmm) \<leftarrow> PmmReleaseMemory (EnvLocks env) (EnvReturn env) (MmuCpu s) (MmuPmm s) pa frames;
     let s = s\<lparr>MmuCpu := cpu, MmuPmm := pmm\<rparr>;
     MmuUnmapMemoryEx pAddr (ucast noOfBytes) False SystemSpace s
   })"

text \<open>One action of the worker. Without the signal it stays in the wait.\<close>

definition MmuZeroWorkerThreadFunction_step ::
  "MMU_ENV \<Rightarrow> ZERO_THREAD_DATA \<Rightarrow> MMU_STATE \<Rightarrow> (ZERO_THREAD_DATA \<times> MMU_STATE) option" where
  "MmuZeroWorkerThreadFunction_step env w s = (case WorkerAt w of
     WaitForSignal \<Rightarrow> Some (if NewPagesSignaled w then w\<lparr>WorkerAt := RemoveHead\<rparr> else w, s)
   | RemoveHead \<Rightarrow> do {
       (oldState, cpu, l) \<leftarrow> LockAcquire (EnvLocks env) (MmuCpu s) (EnvReturn env) (PagesLock w);
       let items = ReleasedFrames (Machine s);
       let pCurrentEntry = (case items of [] \<Rightarrow> None | item # _ \<Rightarrow> Some item);
       let s = s\<lparr>Machine := (Machine s)\<lparr>ReleasedFrames := tl items\<rparr>\<rparr>;
       (cpu, l) \<leftarrow> LockRelease (EnvLocks env) cpu l oldState;
       let w = w\<lparr>PagesLock := l\<rparr>;
       Some (w\<lparr>WorkerAt := (case pCurrentEntry of None \<Rightarrow> ClearSignal | Some item \<Rightarrow> ZeroItem item)\<rparr>, s\<lparr>MmuCpu := cpu\<rparr>)
     }
   | ClearSignal \<Rightarrow> Some (w\<lparr>NewPagesSignaled := False, WorkerAt := WaitForSignal\<rparr>, s)
   | ZeroItem item \<Rightarrow> do {
       s \<leftarrow> MmuZeroItem env item s;
       Some (w\<lparr>FreedItems := FreedItems w @ [item], WorkerAt := WaitForSignal\<rparr>, s)
     })"

text \<open>The first \<open>n\<close> actions of the loop, which has no end.\<close>

primrec MmuZeroWorkerThreadFunction :: "nat \<Rightarrow> MMU_ENV \<Rightarrow> ZERO_THREAD_DATA \<Rightarrow> MMU_STATE \<Rightarrow> (ZERO_THREAD_DATA \<times> MMU_STATE) option" where
  "MmuZeroWorkerThreadFunction 0 env w s = Some (w, s)"
| "MmuZeroWorkerThreadFunction (Suc n) env w s = do {
     (w, s) \<leftarrow> MmuZeroWorkerThreadFunction_step env w s;
     MmuZeroWorkerThreadFunction n env w s
   }"

text \<open>The two actions of \<open>MmuReleaseMemory\<close> in another thread: the insertion under the lock, and then the signal.\<close>

definition MmuReleaseMemory_insert ::
  "MMU_ENV \<Rightarrow> ptr \<Rightarrow> DWORD \<Rightarrow> ZERO_THREAD_DATA \<Rightarrow> MMU_STATE \<Rightarrow> (ZERO_THREAD_DATA \<times> MMU_STATE) option" where
  "MmuReleaseMemory_insert env PhysicalAddr NoOfFrames w s = do {
     (oldState, cpu, l) \<leftarrow> LockAcquire (EnvLocks env) (MmuCpu s) (EnvReturn env) (PagesLock w);
     m \<leftarrow> MmuReleaseMemory PhysicalAddr NoOfFrames (Machine s);
     (cpu, l) \<leftarrow> LockRelease (EnvLocks env) cpu l oldState;
     Some (w\<lparr>PagesLock := l\<rparr>, s\<lparr>MmuCpu := cpu, Machine := m\<rparr>)
   }"

definition MmuReleaseMemory_signal :: "ZERO_THREAD_DATA \<Rightarrow> ZERO_THREAD_DATA" where
  "MmuReleaseMemory_signal w = w\<lparr>NewPagesSignaled := True\<rparr>"

section \<open>Address spaces\<close>

abbreviation VMM_SIZE_FOR_RESERVATION_METADATA :: QWORD where "VMM_SIZE_FOR_RESERVATION_METADATA \<equiv> 0x50000000000"
abbreviation VA_METADATA_SIZE_FOR_UM_PROCESS :: QWORD where "VA_METADATA_SIZE_FOR_UM_PROCESS \<equiv> 0x140000000"
abbreviation VA_ALLOCATIONS_START_OFFSET_FROM_IMAGE_BASE :: QWORD where "VA_ALLOCATIONS_START_OFFSET_FROM_IMAGE_BASE \<equiv> 0x40000000"

text \<open>\<open>slots\<close> is what the metadata area holds.\<close>

definition VmmInit :: "(nat \<Rightarrow> VMM_RESERVATION) \<Rightarrow> ptr \<Rightarrow> MMU_STATE \<Rightarrow> (STATUS \<times> MMU_STATE) option" where
  "VmmInit slots Base s =
     (if Base = NULL then Some (STATUS_INVALID_PARAMETER1, s)
      else do {
        sp \<leftarrow> VmReservationSpaceInit slots Base NULL VMM_SIZE_FOR_RESERVATION_METADATA (SystemVa s);
        Some (STATUS_SUCCESS, s\<lparr>SystemVa := sp\<rparr>)
      })"

definition VmmInitReservationSystem :: "MMU_STATE \<Rightarrow> MMU_STATE option" where
  "VmmInitReservationSystem s = do {
     sp \<leftarrow> VmReservationSpaceFinishInit (SystemVa s);
     Some (s\<lparr>SystemVa := sp\<rparr>)
   }"

text \<open>
  \<open>header\<close> is the zeroed structure from the heap, if there is room for one. The second check of the code is of the
  pointer again and not of the size, so it never fails.
\<close>

definition VmmCreateVirtualAddressSpace ::
  "MMU_ENV \<Rightarrow> (nat \<Rightarrow> VMM_RESERVATION) \<Rightarrow> VMM_RESERVATION_SPACE option \<Rightarrow> bool \<Rightarrow> QWORD \<Rightarrow> ptr \<Rightarrow> MMU_STATE
    \<Rightarrow> (STATUS \<times> VMM_RESERVATION_SPACE option \<times> MMU_STATE) option" where
  "VmmCreateVirtualAddressSpace env slots header ReservationSpaceGiven ReservationMetadataSize StartOfSpace s =
     (if \<not> ReservationSpaceGiven then Some (STATUS_INVALID_PARAMETER1, None, s)
      else if StartOfSpace = NULL then Some (STATUS_INVALID_PARAMETER3, None, s)
      else case header of
        None \<Rightarrow> Some (STATUS_INSUFFICIENT_MEMORY, None, s)
      | Some pProcessVaHeader \<Rightarrow> do {
          (pReservationMetadataStart, s) \<leftarrow> VmmAllocRegionEx env NULL ReservationMetadataSize (VMM_ALLOC_TYPE_RESERVE OR VMM_ALLOC_TYPE_COMMIT)
            PAGE_RIGHTS_READWRITE False NULL SystemSpace SystemSpace None s;
          if pReservationMetadataStart = NULL then Some (STATUS_INSUFFICIENT_MEMORY, None, s)
          else do {
            sp \<leftarrow> VmReservationSpaceInit slots pReservationMetadataStart StartOfSpace ReservationMetadataSize pProcessVaHeader;
            sp \<leftarrow> VmReservationSpaceFinishInit sp;
            Some (STATUS_SUCCESS, Some sp, s)
          }
        })"

definition VmmDestroyVirtualAddressSpace :: "VMM_RESERVATION_SPACE \<Rightarrow> MMU_STATE \<Rightarrow> MMU_STATE option" where
  "VmmDestroyVirtualAddressSpace sp s =
     (if ReservationList sp \<noteq> NULL then VmmFreeRegionEx (ReservationList sp) 0 VMM_FREE_TYPE_RELEASE True SystemSpace SystemSpace s else Some s)"

abbreviation PAGING_STRUCTURES_BASE_MEMORY :: DWORD where "PAGING_STRUCTURES_BASE_MEMORY \<equiv> 0x20000"
abbreviation PAGING_STRUCTURES_PERCENTAGE :: WORD where "PAGING_STRUCTURES_PERCENTAGE \<equiv> 25"
abbreviation PML4_OFFSET_OF_KERNEL_STRUCTURES :: QWORD where "PML4_OFFSET_OF_KERNEL_STRUCTURES \<equiv> 0x800"
abbreviation PML4_NO_OF_KERNEL_ENTRIES :: QWORD where "PML4_NO_OF_KERNEL_ENTRIES \<equiv> 0x800"

definition MmuCalculateReservedFrames :: "DWORD \<Rightarrow> WORD \<Rightarrow> QWORD \<Rightarrow> DWORD option" where
  "MmuCalculateReservedFrames BaseSize HundredsOfPercentage AvailableSystemMemory = do {
     p \<leftarrow> CalculatePercentage AvailableSystemMemory HundredsOfPercentage;
     let sizeInBytes = ucast BaseSize + p;
     let sizeInFrames = AlignAddressUpper sizeInBytes (2 * MB_SIZE) div PAGE_SIZE;
     ASSERT (sizeInFrames < ucast MAX_DWORD);
     Some (ucast sizeInFrames)
   }"

definition memcpy_entries :: "ptr \<Rightarrow> ptr \<Rightarrow> QWORD \<Rightarrow> PAGING_MACHINE \<Rightarrow> PAGING_MACHINE" where
  "memcpy_entries dst src n m = m\<lparr>Entries := (\<lambda>a. if a - dst < n then Entries m (src + (a - dst)) else Entries m a)\<rparr>"

text \<open>\<open>allocated\<close> says if the heap has room for the structure, which is zeroed.\<close>

definition zero_REC_RW_SPINLOCK :: REC_RW_SPINLOCK where
  "zero_REC_RW_SPINLOCK = \<lparr>RwSpinlock = \<lparr>WaitingWriters = 0, ActiveWriter = 0, ActiveReaders = 0\<rparr>, CurrentRecursivityDepth = 0,
     MaxRecursivityDepth = 0, RwHolder = NULL\<rparr>"

definition MmuCreatePagingTables :: "MMU_ENV \<Rightarrow> bool \<Rightarrow> MMU_STATE \<Rightarrow> (STATUS \<times> PAGING_LOCK_DATA option \<times> MMU_STATE) option" where
  "MmuCreatePagingTables env allocated s =
     (if \<not> allocated then Some (STATUS_INSUFFICIENT_MEMORY, None, s)
      else do {
        let lock = RecRwSpinlockInit 0 zero_REC_RW_SPINLOCK;
        framesForPagingStructures \<leftarrow> MmuCalculateReservedFrames PAGING_STRUCTURES_BASE_MEMORY PAGING_STRUCTURES_PERCENTAGE (PmmGetTotalSystemMemory (MmuPmm s));
        (basePa, cpu, pmm) \<leftarrow> PmmReserveMemory (EnvLocks env) (EnvReturn env) (MmuCpu s) (MmuPmm s) framesForPagingStructures;
        let s = s\<lparr>MmuCpu := cpu, MmuPmm := pmm\<rparr>;
        if NULL = basePa then Some (STATUS_PHYSICAL_MEMORY_NOT_AVAILABLE, None, s)
        else do {
          (oldState, cpu, l) \<leftarrow> RecRwSpinlockAcquire (MmuCpu s) (PagingLock (SystemPaging s)) True;
          (status, other, pd, m) \<leftarrow> VmmSetupPageTables (Some (PagingDataOf (SystemPaging s))) zero_PAGING_DATA basePa framesForPagingStructures False (Machine s);
          (cpu, l) \<leftarrow> RecRwSpinlockRelease cpu l oldState True;
          system \<leftarrow> other;
          let s = s\<lparr>MmuCpu := cpu, SystemPaging := \<lparr>PagingLock = l, PagingDataOf = system\<rparr>, Machine := m\<rparr>;
          if \<not> SUCCEEDED status then do {
            (cpu, pmm) \<leftarrow> PmmReleaseMemory (EnvLocks env) (EnvReturn env) (MmuCpu s) (MmuPmm s) basePa framesForPagingStructures;
            Some (status, None, s\<lparr>MmuCpu := cpu, MmuPmm := pmm\<rparr>)
          }
          else do {
            let m = memcpy_entries (PA2VA m (BasePhysicalAddress pd + PML4_OFFSET_OF_KERNEL_STRUCTURES))
              (PA2VA m (BasePhysicalAddress system + PML4_OFFSET_OF_KERNEL_STRUCTURES)) PML4_NO_OF_KERNEL_ENTRIES m;
            Some (status, Some \<lparr>PagingLock = lock, PagingDataOf = pd\<rparr>, s\<lparr>Machine := m\<rparr>)
          }
        }
      })"

text \<open>The product is a 32-bit number.\<close>

definition MmuDestroyPagingTables :: "PAGING_LOCK_DATA \<Rightarrow> MMU_STATE \<Rightarrow> MMU_STATE option" where
  "MmuDestroyPagingTables PagingTables s =
     MmuUnmapMemoryEx (PA2VA (Machine s) (BasePhysicalAddress (PagingDataOf PagingTables))) (ucast (NumberOfFrames (PagingDataOf PagingTables) * 0x1000)) True SystemSpace s"

definition MmuReserveAndMapMemory ::
  "MMU_ENV \<Rightarrow> PAGING_DATA \<Rightarrow> ptr \<Rightarrow> DWORD \<Rightarrow> ptr \<Rightarrow> PAGE_RIGHTS \<Rightarrow> MMU_STATE \<Rightarrow> (STATUS \<times> PAGING_DATA \<times> MMU_STATE) option" where
  "MmuReserveAndMapMemory env PagingData VirtualAddress Size PhysicalAddress AccessRights s = do {
     ASSERT (NULL \<noteq> VirtualAddress);
     ASSERT (0 \<noteq> Size);
     ASSERT (IsAddressAligned (ucast Size) PAGE_SIZE);
     let noOfFrames = Size div 0x1000;
     (pa, cpu, pmm) \<leftarrow> PmmReserveMemoryEx (EnvLocks env) (EnvReturn env) (MmuCpu s) (MmuPmm s) noOfFrames PhysicalAddress;
     let s = s\<lparr>MmuCpu := cpu, MmuPmm := pmm\<rparr>;
     if NULL = pa \<or> pa \<noteq> PhysicalAddress then Some (STATUS_PHYSICAL_MEMORY_NOT_AVAILABLE, PagingData, s)
     else do {
       (pd, m) \<leftarrow> VmmMapMemoryInternal PagingData pa (ucast Size) VirtualAddress AccessRights True False (Machine s);
       Some (STATUS_SUCCESS, pd, s\<lparr>Machine := m\<rparr>)
     }
   }"

section \<open>Selectors\<close>

lemma paging_of_simps [simp]:
  "paging_of w (put_paging w p s) = p"
  "paging_of w (s\<lparr>MmuCpu := cpu\<rparr>) = paging_of w s" "paging_of w (s\<lparr>MmuPcpu := pcpu\<rparr>) = paging_of w s"
  "paging_of w (s\<lparr>PageFaults := f\<rparr>) = paging_of w s"
  "paging_of w (s\<lparr>MmuPmm := pmm\<rparr>) = paging_of w s" "paging_of w (s\<lparr>Machine := m\<rparr>) = paging_of w s"
  "paging_of w (s\<lparr>SystemVa := sp\<rparr>) = paging_of w s" "paging_of w (put_va v sp s) = paging_of w s" "paging_of w (add_effects es s) = paging_of w s"
  by (simp_all add: paging_of_def put_paging_def put_va_def add_effects_def split: address_space_of.splits)

lemma va_of_simps [simp]:
  "va_of w (put_va w sp s) = sp"
  "va_of w (s\<lparr>MmuCpu := cpu\<rparr>) = va_of w s" "va_of w (s\<lparr>MmuPcpu := pcpu\<rparr>) = va_of w s" "va_of w (s\<lparr>PageFaults := f\<rparr>) = va_of w s"
  "va_of w (s\<lparr>MmuPmm := pmm\<rparr>) = va_of w s" "va_of w (s\<lparr>Machine := m\<rparr>) = va_of w s"
  "va_of w (put_paging v p s) = va_of w s" "va_of w (add_effects es s) = va_of w s"
  by (simp_all add: va_of_def put_paging_def put_va_def add_effects_def split: address_space_of.splits)

lemma put_same [simp]:
  "put_va w (va_of w s) s = s" "put_paging w (paging_of w s) s = s"
  by (simp_all add: put_va_def va_of_def put_paging_def paging_of_def split: address_space_of.splits)

lemma put_fields [simp]:
  "MmuCpu (put_va w sp s) = MmuCpu s" "MmuPcpu (put_va w sp s) = MmuPcpu s" "PageFaults (put_va w sp s) = PageFaults s"
  "MmuPmm (put_va w sp s) = MmuPmm s" "Machine (put_va w sp s) = Machine s" "MemoryEffects (put_va w sp s) = MemoryEffects s"
  "CurrentSpace (put_va w sp s) = CurrentSpace s"
  "MmuCpu (put_paging w p s) = MmuCpu s" "MmuPcpu (put_paging w p s) = MmuPcpu s" "PageFaults (put_paging w p s) = PageFaults s"
  "MmuPmm (put_paging w p s) = MmuPmm s" "Machine (put_paging w p s) = Machine s" "MemoryEffects (put_paging w p s) = MemoryEffects s"
  "CurrentSpace (put_paging w p s) = CurrentSpace s"
  "MmuCpu (add_effects es s) = MmuCpu s" "MmuPcpu (add_effects es s) = MmuPcpu s" "PageFaults (add_effects es s) = PageFaults s"
  "MmuPmm (add_effects es s) = MmuPmm s" "Machine (add_effects es s) = Machine s" "CurrentSpace (add_effects es s) = CurrentSpace s"
  "MemoryEffects (add_effects es s) = MemoryEffects s @ es"
  by (simp_all add: put_va_def put_paging_def add_effects_def split: address_space_of.splits)

section \<open>The lock of the page tables\<close>

definition rec_free :: "REC_RW_SPINLOCK \<Rightarrow> bool" where
  "rec_free l \<longleftrightarrow> rw_free (RwSpinlock l) \<and> CurrentRecursivityDepth l = 0 \<and> RwHolder l = NULL"

text \<open>A lock that is free is free again after a section, and the interrupts are as before.\<close>

lemma rec_section:
  assumes "rec_free l" and "CpuSelf cpu \<noteq> NULL"
  shows "\<exists>cpu' l'. RecRwSpinlockAcquire cpu l ex = Some (CpuIntr cpu, cpu', l') \<and> RecRwSpinlockRelease cpu' l' (CpuIntr cpu) ex = Some (cpu, l)"
proof (cases ex)
  case True
  then show ?thesis
    using assms rw_section(1) [of "RwSpinlock l" "cpu\<lparr>CpuIntr := INTR_OFF\<rparr>"] rw_section(3) [where l = "RwSpinlock l" and cpu = cpu and b = INTR_OFF and st = "CpuIntr cpu"]
    by (cases l) (simp add: RecRwSpinlockAcquire_def RecRwSpinlockRelease_def rec_free_def cpu_defs Let_def bind_ASSERT)
next
  case False
  then show ?thesis
    using assms rw_section(2) [of "RwSpinlock l" "cpu\<lparr>CpuIntr := INTR_OFF\<rparr>"] rw_section(4) [where l = "RwSpinlock l" and cpu = cpu and b = INTR_OFF and st = "CpuIntr cpu"]
    by (cases l) (simp add: RecRwSpinlockAcquire_def RecRwSpinlockRelease_def rec_free_def cpu_defs Let_def bind_ASSERT)
qed

lemma AlignAddressLower_page_id: "unat a mod 4096 = 0 \<Longrightarrow> AlignAddressLower a PAGE_SIZE = a"
  by (rule word_unat_eq_iff [THEN iffD2]) (simp add: AlignAddressLower_page mod_eq_0_iff_dvd)

text \<open>So an operation under the lock is the operation on the tables.\<close>

lemma mmu_map_locked:
  assumes "rec_free (PagingLock (paging_of w s))" and "CpuSelf (MmuCpu s) \<noteq> NULL"
    and "0 \<noteq> Size" and "unat Size mod 4096 = 0" and "va \<noteq> NULL" and "unat va mod 4096 = 0"
  shows "MmuMapMemoryInternal pa Size rights va inval uc w s =
    map_option (\<lambda>(pd, m). put_paging w ((paging_of w s)\<lparr>PagingDataOf := pd\<rparr>) (s\<lparr>Machine := m\<rparr>))
      (VmmMapMemoryInternal (PagingDataOf (paging_of w s)) pa Size va rights inval uc (Machine s))"
proof -
  obtain cpu' l' where l: "RecRwSpinlockAcquire (MmuCpu s) (PagingLock (paging_of w s)) True = Some (CpuIntr (MmuCpu s), cpu', l')"
    "RecRwSpinlockRelease cpu' l' (CpuIntr (MmuCpu s)) True = Some (MmuCpu s, PagingLock (paging_of w s))"
    using rec_section [OF assms(1,2), of True] by blast
  show ?thesis
    using assms(3-6) l by (cases "VmmMapMemoryInternal (PagingDataOf (paging_of w s)) pa Size va rights inval uc (Machine s)")
      (auto simp: MmuMapMemoryInternal_def bind_ASSERT IsAddressAligned_page Let_def intro!: arg_cong [where f = "\<lambda>p. put_paging w p _"])
qed

lemma mmu_unmap_locked:
  assumes "rec_free (PagingLock (paging_of w s))" and "CpuSelf (MmuCpu s) \<noteq> NULL" and "Size \<noteq> 0" and "va \<noteq> NULL" and "unat va mod 4096 = 0"
  shows "MmuUnmapMemoryEx va Size rel w s =
    map_option (\<lambda>m. s\<lparr>Machine := m\<rparr>)
      (VmmUnmapMemoryEx (BasePhysicalAddress (PagingDataOf (paging_of w s))) va (ucast (ucast (AlignAddressUpper Size PAGE_SIZE) :: DWORD)) rel (Machine s))"
proof -
  obtain cpu' l' where l: "RecRwSpinlockAcquire (MmuCpu s) (PagingLock (paging_of w s)) True = Some (CpuIntr (MmuCpu s), cpu', l')"
    "RecRwSpinlockRelease cpu' l' (CpuIntr (MmuCpu s)) True = Some (MmuCpu s, PagingLock (paging_of w s))"
    using rec_section [OF assms(1,2), of True] by blast
  have p: "put_paging w (paging_of w s) (s\<lparr>Machine := m\<rparr>) = s\<lparr>Machine := m\<rparr>" for m
    using put_same(2) [of w "s\<lparr>Machine := m\<rparr>"] by simp
  note AlignAddressLower_page_id [OF assms(5)]
  then show ?thesis
    using assms(3,4) l p by (cases "VmmUnmapMemoryEx (BasePhysicalAddress (PagingDataOf (paging_of w s))) va (ucast (ucast (AlignAddressUpper Size PAGE_SIZE) :: DWORD)) rel (Machine s)")
      (auto simp: MmuUnmapMemoryEx_def bind_ASSERT Let_def)
qed

section \<open>Solving a page fault\<close>

text \<open>
  The locks are free, frame 0 is never handed out, and the tables are a tree.
\<close>

definition mmu_inv :: "address_space_of \<Rightarrow> MMU_STATE \<Rightarrow> bool" where
  "mmu_inv w s \<longleftrightarrow> CpuSelf (MmuCpu s) \<noteq> NULL \<and> pmm_inv (MmuPmm s) \<and> 0 \<in> pmm_used (MmuPmm s)
     \<and> rec_free (PagingLock (paging_of w s)) \<and> tables_ok (PagingDataOf (paging_of w s)) (Machine s)"

text \<open>What a page looks like in a space.\<close>

definition mmu_view :: "address_space_of \<Rightarrow> MMU_STATE \<Rightarrow> ptr \<Rightarrow> PAGE_VIEW option" where
  "mmu_view w s = view_of (Machine s) (PagingDataOf (paging_of w s))"

lemma reserve_frames:
  assumes "pmm_inv pmm" and "0 \<in> pmm_used pmm" and "CpuSelf cpu \<noteq> NULL" and "n \<noteq> 0"
    and "k + unat n \<le> pmm_frames pmm" and "pmm_used pmm \<inter> {k..<k + unat n} = {}"
  obtains pa pmm' where "PmmReserveMemory (LockSystemInit mon) ra cpu pmm n = Some (pa, cpu, pmm')" "pmm_inv pmm'" "pmm_frames pmm' = pmm_frames pmm"
    "pa \<noteq> NULL" "unat pa mod 4096 = 0" "frame pa + unat n \<le> pmm_frames pmm" "unat pa + unat n * 4096 \<le> 2 ^ 52"
    "pmm_used pmm \<inter> pa_frames pa n = {}" "pmm_used pmm' = pmm_used pmm \<union> pa_frames pa n"
proof -
  have "IsAddressAligned 0 PAGE_SIZE" "frame 0 < 4294967296" by (simp_all add: IsAddressAligned_page frame_def)
  from PmmReserveMemoryEx_ok [OF assms(1,3,4) this, of mon ra] assms(5,6) obtain pa pmm' where
    r: "PmmReserveMemoryEx (LockSystemInit mon) ra cpu pmm n 0 = Some (pa, cpu, pmm')" "pmm_inv pmm'" "pmm_frames pmm' = pmm_frames pmm"
    "IsAddressAligned pa PAGE_SIZE" "frame pa + unat n \<le> pmm_frames pmm" "pmm_used pmm \<inter> pa_frames pa n = {}" "pmm_used pmm' = pmm_used pmm \<union> pa_frames pa n"
    by (auto simp: frame_def)
  have n0: "0 < unat n" using assms(4) by (simp add: unat_gt_0)
  have "pa \<noteq> NULL"
  proof
    assume "pa = NULL"
    then have "0 \<in> pa_frames pa n" using n0 by (simp add: pa_frames_def frame_def)
    then show False using r(6) assms(2) by blast
  qed
  moreover have al: "unat pa mod 4096 = 0" using r(4) by (simp add: IsAddressAligned_page)
  moreover have "unat pa + unat n * 4096 \<le> 2 ^ 52"
  proof -
    have "frame pa + unat n < 4294967296" by (rule order_le_less_trans [OF r(5) [unfolded pmm_frames_def] unat_DWORD_less])
    moreover have "unat pa = frame pa * 4096" using al by (simp add: frame_def mod_eq_0_iff_dvd unat_div)
    ultimately show ?thesis by simp
  qed
  ultimately show ?thesis using r by (intro that) (simp_all add: PmmReserveMemory_def)
qed

lemma vpn_page: "vpn (AlignAddressLower a PAGE_SIZE) = vpn a"
  by (rule word_unat_eq_iff [THEN iffD2]) (simp add: unat_vpn AlignAddressLower_page)

text \<open>One page of a space is mapped to a frame.\<close>

lemma mmu_map_page:
  assumes inv: "mmu_inv w s" and room: "unat (CurrentIndex (PagingDataOf (paging_of w s))) + 3 \<le> unat (NumberOfFrames (PagingDataOf (paging_of w s)))"
    and va: "va \<noteq> NULL" "unat va mod 4096 = 0" and pa: "unat pa mod 4096 = 0" "unat pa + 4096 \<le> 2 ^ 52"
  obtains pd' m' where "MmuMapMemoryInternal pa PAGE_SIZE rights va True uc w s = Some (put_paging w ((paging_of w s)\<lparr>PagingDataOf := pd'\<rparr>) (s\<lparr>Machine := m'\<rparr>))"
    "tables_ok pd' m'" "ReleasedFrames m' = ReleasedFrames (Machine s)" "va \<in> set (TlbInvalidations m')"
    "view_of m' pd' = (\<lambda>x. if vpn x = vpn va then Some (mapped_view (Machine s) (KernelSpace (PagingDataOf (paging_of w s))) rights uc pa) else mmu_view w s x)"
proof -
  let ?pd = "PagingDataOf (paging_of w s)" and ?m = "Machine s"
  have z: "unat (PAGE_SIZE :: QWORD) = 1 * 4096" "unat pa + 1 * 4096 \<le> 2 ^ 52" "unat (CurrentIndex ?pd) + 3 + 3 * crossings va 0 1 \<le> unat (NumberOfFrames ?pd)"
    using pa room by (simp_all add: crossings_def)
  obtain pd' m' where 1: "VmmMapMemoryInternal ?pd pa PAGE_SIZE va rights True uc ?m = Some (pd', m')" "tables_ok pd' m'" "ReleasedFrames m' = ReleasedFrames ?m"
    "va \<in> set (TlbInvalidations m')" "\<forall>x. vpn x = vpn va \<longrightarrow> view_of m' pd' x = Some (mapped_view ?m (KernelSpace ?pd) rights uc pa)"
    "\<forall>x. vpn x \<noteq> vpn va \<longrightarrow> view_of m' pd' x = view_of ?m ?pd x"
    using map_memory [OF _ page_range_one [OF va] _ z(1) pa(1) z(2,3), of ?m rights True uc] inv
    by (auto simp: mmu_inv_def)
  then show ?thesis
    using mmu_map_locked [of w s PAGE_SIZE va pa rights True uc] inv va
    by (intro that [of pd' m']) (auto simp: mmu_inv_def mmu_view_def)
qed

text \<open>What is done to the memory of a page: it is read from the file, if there is one, and the rest is zeroed.\<close>

definition fault_fill :: "MMU_ENV \<Rightarrow> ptr \<Rightarrow> QWORD \<Rightarrow> ptr \<Rightarrow> memory_effect list" where
  "fault_fill env f off page = (if f = NULL then [ZeroedMemory page 0x1000]
     else let (st, k) = EnvReadFile env f PAGE_SIZE off page
          in FileReadInto f page k # (if SUCCEEDED st \<and> k \<noteq> PAGE_SIZE then [ZeroedMemory (page + k) (0x1000 - ucast k)] else []))"

definition fault_read :: "MMU_ENV \<Rightarrow> ptr \<Rightarrow> QWORD \<Rightarrow> ptr \<Rightarrow> bool" where
  "fault_read env f off page = (f = NULL \<or> SUCCEEDED (fst (EnvReadFile env f PAGE_SIZE off page)))"

text \<open>The accesses that are allowed.\<close>

definition fault_allowed :: "ptr \<Rightarrow> PAGE_RIGHTS \<Rightarrow> address_space_of \<Rightarrow> MMU_STATE \<Rightarrow> bool" where
  "fault_allowed a q pw s \<longleftrightarrow> AlignAddressLower a PAGE_SIZE \<noteq> NULL \<and> (VmIsKernelAddress a \<longleftrightarrow> KernelSpace (PagingDataOf (paging_of pw s)))
     \<and> granted (va_of (VmmRetrieveReservationSpaceForAddress a s) s) q {a}"

text \<open>An address outside of the area where the space keeps its reservations.\<close>

definition plain_address :: "ptr \<Rightarrow> MMU_STATE \<Rightarrow> bool" where
  "plain_address a s \<longleftrightarrow> (let sp = va_of (VmmRetrieveReservationSpaceForAddress a s) s
     in space_inv sp \<and> a \<noteq> MAX_QWORD \<and> \<not> CHECK_BOUNDS a 1 (ReservationList sp) (ReservedAreaSize sp))"

lemma page_not_null: "AlignAddressLower a PAGE_SIZE \<noteq> NULL \<Longrightarrow> a \<noteq> NULL"
  by (auto simp: AlignAddressLower_def)

lemma page_is_aligned [simp]: "unat (AlignAddressLower a PAGE_SIZE) mod 4096 = 0"
  by (simp add: AlignAddressLower_page)

lemma fault_access:
  assumes "CpuIntr (MmuCpu s) = INTR_OFF" and "plain_address a s" and "AlignAddressLower a PAGE_SIZE \<noteq> NULL"
    and "VmIsKernelAddress a \<longleftrightarrow> KernelSpace (PagingDataOf (paging_of pw s))"
  obtains d where "VmReservationCanAddressBeAccessed (MmuCpu s) (MmuPcpu s) (va_of (VmmRetrieveReservationSpaceForAddress a s) s) a q =
      Some (d, MmuCpu s, va_of (VmmRetrieveReservationSpaceForAddress a s) s)"
    "d \<noteq> None \<longleftrightarrow> fault_allowed a q pw s"
    "\<forall>D. d = Some D \<longrightarrow> (\<exists>p n C. (p, n, MemoryRights D, PageUncacheable D, PageFile D, C) \<in> regions (va_of (VmmRetrieveReservationSpaceForAddress a s) s) \<and> a \<in> C
      \<and> IsBooleanFlagOn (MemoryRights D) q \<and> FileOffset D = (if PageFile D \<noteq> NULL then AlignAddressLower (a - p) PAGE_SIZE else 0))"
proof -
  let ?sp = "va_of (VmmRetrieveReservationSpaceForAddress a s) s"
  have p: "space_inv ?sp" "a \<noteq> MAX_QWORD" "\<not> CHECK_BOUNDS a 1 (ReservationList ?sp) (ReservedAreaSize ?sp)"
    using assms(2) by (simp_all add: plain_address_def Let_def)
  have "granted ?sp q {a} \<longleftrightarrow> fault_allowed a q pw s" using assms(3,4) by (simp add: fault_allowed_def)
  with can_access_ok [OF space_invD(3) [OF p(1)] assms(1) page_not_null [OF assms(3)] p(2,3), of "MmuPcpu s" q] show ?thesis
    by (elim exE conjE) (rule that, assumption, simp, assumption)
qed

lemma fault_denied:
  assumes "CpuIntr (MmuCpu s) = INTR_OFF" and "plain_address a s" and "\<not> fault_allowed a q pw s"
  shows "VmmSolvePageFault env a q pw s = Some (False, s)"
proof (cases "AlignAddressLower a PAGE_SIZE \<noteq> NULL \<and> (VmIsKernelAddress a \<longleftrightarrow> KernelSpace (PagingDataOf (paging_of pw s)))")
  case True
  then obtain d where "VmReservationCanAddressBeAccessed (MmuCpu s) (MmuPcpu s) (va_of (VmmRetrieveReservationSpaceForAddress a s) s) a q =
      Some (d, MmuCpu s, va_of (VmmRetrieveReservationSpaceForAddress a s) s)" "d \<noteq> None \<longleftrightarrow> fault_allowed a q pw s"
    using fault_access [OF assms(1,2)] by metis
  then show ?thesis using True assms by (simp add: VmmSolvePageFault_def bind_ASSERT Let_def CpuIntrGetState_def)
next
  case False
  then show ?thesis using assms(1) by (auto simp: VmmSolvePageFault_def bind_ASSERT Let_def CpuIntrGetState_def)
qed

lemma fill_ok:
  assumes "\<And>f off buf. snd (EnvReadFile env f PAGE_SIZE off buf) \<le> PAGE_SIZE"
  shows "VmmSolvePageFault_fill env D page s = Some (fault_read env (PageFile D) (FileOffset D) page,
    (add_effects (fault_fill env (PageFile D) (FileOffset D) page) s)
      \<lparr>PageFaults := PageFaults s + (if fault_read env (PageFile D) (FileOffset D) page \<and> MmuPcpu s \<noteq> None then 1 else 0)\<rparr>)"
proof (cases "PageFile D = NULL")
  case True
  then show ?thesis by (simp add: VmmSolvePageFault_fill_def fault_fill_def fault_read_def add_effects_def bind_ASSERT)
next
  case False
  obtain st k where r: "EnvReadFile env (PageFile D) PAGE_SIZE (FileOffset D) page = (st, k)" by fastforce
  then have "k \<le> PAGE_SIZE" using assms [of "PageFile D" "FileOffset D" page] by simp
  then show ?thesis using False r
    by (cases "SUCCEEDED st") (simp_all add: VmmSolvePageFault_fill_def fault_fill_def fault_read_def add_effects_def bind_ASSERT Let_def)
qed

lemma fault_resolved:
  assumes inv: "mmu_inv pw s" and intr: "CpuIntr (MmuCpu s) = INTR_OFF" and plain: "plain_address a s" and allowed: "fault_allowed a q pw s"
    and room: "unat (CurrentIndex (PagingDataOf (paging_of pw s))) + 3 \<le> unat (NumberOfFrames (PagingDataOf (paging_of pw s)))"
    and free: "k < pmm_frames (MmuPmm s)" "k \<notin> pmm_used (MmuPmm s)"
    and env: "EnvLocks env = LockSystemInit mon" "\<And>f off buf. snd (EnvReadFile env f PAGE_SIZE off buf) \<le> PAGE_SIZE"
  shows "\<exists>p n rights uc f C off pa s'. VmmSolvePageFault env a q pw s = Some (fault_read env f off (AlignAddressLower a PAGE_SIZE), s')
    \<and> (p, n, rights, uc, f, C) \<in> regions (va_of (VmmRetrieveReservationSpaceForAddress a s) s) \<and> a \<in> C \<and> IsBooleanFlagOn rights q
    \<and> (f \<noteq> NULL \<longrightarrow> off = AlignAddressLower (a - p) PAGE_SIZE)
    \<and> mmu_inv pw s' \<and> MmuCpu s' = MmuCpu s \<and> SystemVa s' = SystemVa s \<and> ProcessVa s' = ProcessVa s
    \<and> frame pa \<notin> pmm_used (MmuPmm s) \<and> pmm_used (MmuPmm s') = insert (frame pa) (pmm_used (MmuPmm s))
    \<and> mmu_view pw s' = (\<lambda>x. if vpn x = vpn a then Some (mapped_view (Machine s) (KernelSpace (PagingDataOf (paging_of pw s))) rights uc pa) else mmu_view pw s x)
    \<and> AlignAddressLower a PAGE_SIZE \<in> set (TlbInvalidations (Machine s')) \<and> ReleasedFrames (Machine s') = ReleasedFrames (Machine s)
    \<and> MemoryEffects s' = MemoryEffects s @ fault_fill env f off (AlignAddressLower a PAGE_SIZE)"
proof -
  let ?w = "VmmRetrieveReservationSpaceForAddress a s" and ?page = "AlignAddressLower a PAGE_SIZE" and ?pd = "PagingDataOf (paging_of pw s)"
  have page: "?page \<noteq> NULL" "VmIsKernelAddress a \<longleftrightarrow> KernelSpace ?pd" using allowed by (simp_all add: fault_allowed_def)
  obtain D p n C where D: "VmReservationCanAddressBeAccessed (MmuCpu s) (MmuPcpu s) (va_of ?w s) a q = Some (Some D, MmuCpu s, va_of ?w s)"
    "(p, n, MemoryRights D, PageUncacheable D, PageFile D, C) \<in> regions (va_of ?w s)" "a \<in> C" "IsBooleanFlagOn (MemoryRights D) q"
    "FileOffset D = (if PageFile D \<noteq> NULL then AlignAddressLower (a - p) PAGE_SIZE else 0)"
    by (rule fault_access [OF intr plain page, of q]) (use allowed in \<open>auto intro: that simp del: if_split\<close>)
  obtain pa pmm' where pa: "PmmReserveMemory (LockSystemInit mon) (EnvReturn env) (MmuCpu s) (MmuPmm s) 1 = Some (pa, MmuCpu s, pmm')" "pmm_inv pmm'"
    "pa \<noteq> NULL" "unat pa mod 4096 = 0" "unat pa + 4096 \<le> 2 ^ 52" "frame pa \<notin> pmm_used (MmuPmm s)" "pmm_used pmm' = insert (frame pa) (pmm_used (MmuPmm s))"
    by (rule reserve_frames [of "MmuPmm s" "MmuCpu s" 1 k mon "EnvReturn env"]) (use inv free in \<open>auto simp: mmu_inv_def pa_frames_def intro: that\<close>)
  define s1 where "s1 = s\<lparr>MmuPmm := pmm'\<rparr>"
  have s1: "mmu_inv pw s1" "paging_of pw s1 = paging_of pw s" "Machine s1 = Machine s" "mmu_view pw s1 = mmu_view pw s" "MmuPmm s1 = pmm'"
    "PageFaults s1 = PageFaults s" "MmuPcpu s1 = MmuPcpu s"
    using inv pa(2,7) by (auto simp: s1_def mmu_inv_def mmu_view_def)
  obtain pd' m' where m': "MmuMapMemoryInternal pa PAGE_SIZE (MemoryRights D) ?page True (PageUncacheable D) pw s1 =
      Some (put_paging pw ((paging_of pw s)\<lparr>PagingDataOf := pd'\<rparr>) (s1\<lparr>Machine := m'\<rparr>))"
    "tables_ok pd' m'" "ReleasedFrames m' = ReleasedFrames (Machine s)" "?page \<in> set (TlbInvalidations m')"
    "view_of m' pd' = (\<lambda>x. if vpn x = vpn a then Some (mapped_view (Machine s) (KernelSpace ?pd) (MemoryRights D) (PageUncacheable D) pa) else mmu_view pw s x)"
    by (rule mmu_map_page [OF s1(1) _ page(1) page_is_aligned pa(4,5), unfolded s1(2-4) vpn_page, OF room]) (rule that)
  let ?s2 = "put_paging pw ((paging_of pw s)\<lparr>PagingDataOf := pd'\<rparr>) (s1\<lparr>Machine := m'\<rparr>)"
  let ?fill = "fault_fill env (PageFile D) (FileOffset D) ?page" and ?ok = "fault_read env (PageFile D) (FileOffset D) ?page"
  define s3 where "s3 = (add_effects ?fill ?s2)\<lparr>PageFaults := PageFaults s + (if ?ok \<and> MmuPcpu s \<noteq> None then 1 else 0)\<rparr>"
  have "VmmSolvePageFault env a q pw s = Some (?ok, s3)"
    using page D(1) pa(1,3) m'(1) intr by (simp add: s3_def VmmSolvePageFault_def bind_ASSERT Let_def CpuIntrGetState_def env(1) s1_def [symmetric] fill_ok [OF env(2)] s1(6,7))
  moreover have "mmu_inv pw s3" using s1 m'(2) inv by (simp add: s3_def mmu_inv_def s1_def)
  moreover have "SystemVa s3 = SystemVa s" "ProcessVa s3 = ProcessVa s" "MmuCpu s3 = MmuCpu s"
    by (simp_all add: s3_def s1_def add_effects_def put_paging_def split: address_space_of.split)
  moreover have "mmu_view pw s3 = (\<lambda>x. if vpn x = vpn a then Some (mapped_view (Machine s) (KernelSpace ?pd) (MemoryRights D) (PageUncacheable D) pa) else mmu_view pw s x)"
    unfolding m'(5) [symmetric] by (simp add: s3_def mmu_view_def)
  moreover have "MemoryEffects s3 = MemoryEffects s @ ?fill" "pmm_used (MmuPmm s3) = insert (frame pa) (pmm_used (MmuPmm s))"
    "?page \<in> set (TlbInvalidations (Machine s3))" "ReleasedFrames (Machine s3) = ReleasedFrames (Machine s)"
    using pa(7) m'(3,4) by (simp_all add: s3_def s1_def)
  moreover have "PageFile D \<noteq> NULL \<longrightarrow> FileOffset D = AlignAddressLower (a - p) PAGE_SIZE" using D(5) by simp
  ultimately show ?thesis using D(2-4) pa(6) by - (rule exI conjI | assumption)+
qed

section \<open>The zero worker\<close>

lemma page_offset_zero: "unat a mod 4096 = 0 \<Longrightarrow> (a :: ptr) AND 4095 = 0"
  using IsAddressAligned_page [of a] by (simp add: IsAddressAligned_def)

lemma mmu_map_ex_locked:
  assumes "rec_free (PagingLock (paging_of w s))" and "CpuSelf (MmuCpu s) \<noteq> NULL" and "unat pa mod 4096 = 0"
    and "pa < HighestPhysicalAddressPresent (MmuPmm s) - PAGE_SIZE"
    and "va = FreeVirtualAddressPointer (SystemVa s)" and "va \<noteq> NULL" and "unat va mod 4096 = 0"
  shows "MmuMapMemoryEx pa PAGE_SIZE rights inval uc w s =
    map_option (\<lambda>(pd, m). (va, put_paging w ((paging_of w s)\<lparr>PagingDataOf := pd\<rparr>)
        (s\<lparr>Machine := m, SystemVa := (SystemVa s)\<lparr>FreeVirtualAddressPointer := va + PAGE_SIZE\<rparr>\<rparr>)))
      (VmmMapMemoryInternal (PagingDataOf (paging_of w s)) pa PAGE_SIZE va rights inval uc (Machine s))"
proof -
  obtain cpu' l' where l: "RecRwSpinlockAcquire (MmuCpu s) (PagingLock (paging_of w s)) True = Some (CpuIntr (MmuCpu s), cpu', l')"
    "RecRwSpinlockRelease cpu' l' (CpuIntr (MmuCpu s)) True = Some (MmuCpu s, PagingLock (paging_of w s))"
    using rec_section [OF assms(1,2), of True] by blast
  have a: "AlignAddressUpper PAGE_SIZE PAGE_SIZE = PAGE_SIZE"
    by (rule word_unat_eq_iff [THEN iffD2]) (simp add: AlignAddressUpper_page)
  note id = AlignAddressLower_page_id [OF assms(3)] page_offset_zero [OF assms(3)]
  show ?thesis
    using assms(4-7) l by (cases "VmmMapMemoryInternal (PagingDataOf (paging_of w s)) pa PAGE_SIZE va rights inval uc (Machine s)")
      (auto simp: MmuMapMemoryEx_def VmmMapMemoryEx_def VmReservationSpaceDetermineNextFreeVirtualAddress_def bind_ASSERT IsAddressAligned_page Let_def
        id a PmmGetHighestPhysicalMemoryAddressPresent_def assms(3) intro!: arg_cong [where f = "\<lambda>p. put_paging w p _"])
qed

text \<open>
  Nothing is mapped from the next free kernel address on for \<open>k\<close> pages, which do not wrap around, and there are
  frames for their tables.
\<close>

definition free_pages :: "nat \<Rightarrow> MMU_STATE \<Rightarrow> bool" where
  "free_pages k s \<longleftrightarrow> (let va = FreeVirtualAddressPointer (SystemVa s); pd = PagingDataOf (SystemPaging s) in
     page_range va (Suc k) \<and> unat (CurrentIndex pd) + 3 * k \<le> unat (NumberOfFrames pd)
     \<and> (\<forall>j < k. mmu_view SystemSpace s (page_at va j) = None))"

text \<open>A frame that is on its way back: one frame of memory, other than frame 0.\<close>

definition returning :: "MMU_STATE \<Rightarrow> ptr \<times> DWORD \<Rightarrow> bool" where
  "returning s item \<longleftrightarrow> snd item = 1 \<and> unat (fst item) mod 4096 = 0 \<and> 0 < frame (fst item) \<and> frame (fst item) < pmm_frames (MmuPmm s)
     \<and> fst item < HighestPhysicalAddressPresent (MmuPmm s) - PAGE_SIZE"

lemma release_used:
  assumes "pmm_inv pmm" and "CpuSelf cpu \<noteq> NULL" and "unat pa mod 4096 = 0" and "frame pa < pmm_frames pmm"
  obtains pmm' where "PmmReleaseMemory (LockSystemInit mon) ra cpu pmm pa 1 = Some (cpu, pmm')" "pmm_inv pmm'" "pmm_frames pmm' = pmm_frames pmm"
    "pmm_used pmm' = pmm_used pmm - {frame pa}" "HighestPhysicalAddressPresent pmm' = HighestPhysicalAddressPresent pmm"
proof -
  from PmmReleaseMemory_ok [OF assms(1,2) _ assms(4), of 1 mon ra] assms(3,4) obtain pmm' where
    r: "PmmReleaseMemory (LockSystemInit mon) ra cpu pmm pa 1 = Some (cpu, pmm')" "pmm_inv pmm'" "pmm_frames pmm' = pmm_frames pmm"
    "pmm_used pmm' = pmm_used pmm - {frame pa}"
    by (auto simp: IsAddressAligned_page pa_frames_def)
  moreover have "HighestPhysicalAddressPresent pmm' = HighestPhysicalAddressPresent pmm"
    using r(1) by (auto simp: PmmReleaseMemory_def Let_def bind_ASSERT bind_eq_Some_conv split: if_splits)
  ultimately show ?thesis by (rule that)
qed

lemma released_entry [simp]: "entry (m\<lparr>ReleasedFrames := r\<rparr>) = entry m"
  by (intro ext) (simp add: entry_def PA2VA_def)

lemma tables_ok_released [simp]: "tables_ok pd (m\<lparr>ReleasedFrames := r\<rparr>) = tables_ok pd m"
  by (simp add: tables_ok_def tables_wf_def frames_ok_def PA2VA_def)

lemma view_of_released [simp]: "view_of (m\<lparr>ReleasedFrames := r\<rparr>) pd = view_of m pd"
proof -
  have "walk_to (m\<lparr>ReleasedFrames := r\<rparr>) t ks = walk_to m t ks" for t ks by (induction ks arbitrary: t) simp_all
  then show ?thesis by (intro ext) (simp add: view_of_def translate_def cong: option.case_cong if_cong)
qed

lemma view_of_vpn: "vpn x = vpn y \<Longrightarrow> view_of m pd x = view_of m pd y"
  using translate_vpn [of x y] by (simp add: view_of_def)

lemma next_page:
  assumes "page_range va (Suc (Suc k))"
  shows "page_range (va + PAGE_SIZE) (Suc k)" "page_at (va + PAGE_SIZE) j = page_at va (Suc j)"
proof -
  have p: "va + PAGE_SIZE = page_at va 1" by (simp add: page_at_def)
  have u: "unat (page_at va 1) = unat va + 4096" using unat_page_at [OF assms, of 1] by simp
  then show "page_range (va + PAGE_SIZE) (Suc k)" using assms page_at_not_null [OF assms, of 1] unfolding p by (simp add: page_range_def)
  show "page_at (va + PAGE_SIZE) j = page_at va (Suc j)" by (simp add: page_at_def)
qed

lemma zero_worker_round:
  assumes inv: "mmu_inv SystemSpace s" and items: "ReleasedFrames (Machine s) = item # items" "returning s item" and free: "free_pages (Suc k) s"
    and env: "EnvLocks env = LockSystemInit mon"
  obtains s1 s' where "MmuMapMemoryEx (fst item) PAGE_SIZE PAGE_RIGHTS_READWRITE False False SystemSpace (s\<lparr>Machine := (Machine s)\<lparr>ReleasedFrames := items\<rparr>\<rparr>)
        = Some (FreeVirtualAddressPointer (SystemVa s), s1)"
    "map_option FrameOf (mmu_view SystemSpace s1 (FreeVirtualAddressPointer (SystemVa s))) = Some (fst item)"
    "MmuZeroItem env item (s\<lparr>Machine := (Machine s)\<lparr>ReleasedFrames := items\<rparr>\<rparr>) = Some s'" "mmu_inv SystemSpace s'" "ReleasedFrames (Machine s') = items"
    "pmm_used (MmuPmm s') = pmm_used (MmuPmm s) - {frame (fst item)}" "pmm_frames (MmuPmm s') = pmm_frames (MmuPmm s)"
    "HighestPhysicalAddressPresent (MmuPmm s') = HighestPhysicalAddressPresent (MmuPmm s)"
    "mmu_view SystemSpace s' = mmu_view SystemSpace s" "free_pages k s'"
    "SystemVa s' = (SystemVa s)\<lparr>FreeVirtualAddressPointer := FreeVirtualAddressPointer (SystemVa s) + PAGE_SIZE\<rparr>"
    "MemoryEffects s' = MemoryEffects s @ [ZeroedMemory (FreeVirtualAddressPointer (SystemVa s)) 0x1000]"
proof -
  let ?va = "FreeVirtualAddressPointer (SystemVa s)" and ?pd = "PagingDataOf (SystemPaging s)" and ?pa = "fst item"
  define m0 where "m0 = (Machine s)\<lparr>ReleasedFrames := items\<rparr>"
  define s0 where "s0 = s\<lparr>Machine := m0\<rparr>"
  have pg: "paging_of SystemSpace x = SystemPaging x" for x by (simp add: paging_of_def)
  have fp: "page_range ?va (Suc (Suc k))" "unat (CurrentIndex ?pd) + 3 * Suc k \<le> unat (NumberOfFrames ?pd)" "\<forall>j < Suc k. mmu_view SystemSpace s (page_at ?va j) = None"
    using free by (simp_all add: free_pages_def Let_def)
  have va: "?va \<noteq> NULL" "unat ?va mod 4096 = 0" using fp(1) by (simp_all add: page_range_def)
  have it: "snd item = 1" "unat ?pa mod 4096 = 0" "0 < frame ?pa" "frame ?pa < pmm_frames (MmuPmm s)" "?pa < HighestPhysicalAddressPresent (MmuPmm s) - PAGE_SIZE"
    using items(2) by (simp_all add: returning_def)
  have inv0: "CpuSelf (MmuCpu s) \<noteq> NULL" "pmm_inv (MmuPmm s)" "rec_free (PagingLock (SystemPaging s))" "tables_ok ?pd m0" "0 \<in> pmm_used (MmuPmm s)"
    using inv by (simp_all add: mmu_inv_def m0_def pg)
  have pa52: "unat ?pa + 1 * 4096 \<le> 2 ^ 52"
  proof -
    have "frame ?pa < 4294967296" by (rule order_less_trans [OF it(4) [unfolded pmm_frames_def] unat_DWORD_less])
    moreover have "unat ?pa = frame ?pa * 4096" using it(2) by (simp add: frame_def mod_eq_0_iff_dvd)
    ultimately show ?thesis by simp
  qed
  have z: "unat (PAGE_SIZE :: QWORD) = 1 * 4096" "unat (CurrentIndex ?pd) + 3 + 3 * crossings ?va 0 1 \<le> unat (NumberOfFrames ?pd)"
    using fp(2) by (simp_all add: crossings_def)
  have none: "view_of m0 ?pd x = None" if "vpn x = vpn ?va" for x
    using fp(3) view_of_vpn [OF that, of "Machine s" ?pd] by (auto simp: m0_def mmu_view_def pg)
  obtain pd1 m1 where 1: "VmmMapMemoryInternal ?pd ?pa PAGE_SIZE ?va PAGE_RIGHTS_READWRITE False False m0 = Some (pd1, m1)" "tables_ok pd1 m1"
    "ReleasedFrames m1 = items" "\<exists>c. pd1 = ?pd\<lparr>CurrentIndex := c\<rparr>" "unat (CurrentIndex pd1) \<le> unat (CurrentIndex ?pd) + 3"
    "\<forall>x. vpn x = vpn ?va \<longrightarrow> view_of m1 pd1 x = Some (mapped_view m0 (KernelSpace ?pd) PAGE_RIGHTS_READWRITE False ?pa)"
    "\<forall>x. vpn x \<noteq> vpn ?va \<longrightarrow> view_of m1 pd1 x = view_of m0 ?pd x"
    using map_memory [OF inv0(4) page_range_one [OF va] _ z(1) it(2) pa52 z(2), of PAGE_RIGHTS_READWRITE False False] none
    by (auto simp: crossings_def m0_def)
  obtain m2 where 2: "VmmUnmapMemoryEx (BasePhysicalAddress pd1) ?va PAGE_SIZE False m1 = Some m2" "tables_ok pd1 m2" "ReleasedFrames m2 = items"
    "\<forall>x. vpn x = vpn ?va \<longrightarrow> view_of m2 pd1 x = None" "\<forall>x. vpn x \<noteq> vpn ?va \<longrightarrow> view_of m2 pd1 x = view_of m1 pd1 x"
    using unmap_memory [OF 1(2) page_range_one [OF va] _ z(1), of False] 1(3) by (auto split: option.splits)
  obtain pmm' where pmm': "PmmReleaseMemory (LockSystemInit mon) (EnvReturn env) (MmuCpu s) (MmuPmm s) ?pa 1 = Some (MmuCpu s, pmm')" "pmm_inv pmm'"
    "pmm_frames pmm' = pmm_frames (MmuPmm s)" "pmm_used pmm' = pmm_used (MmuPmm s) - {frame ?pa}" "HighestPhysicalAddressPresent pmm' = HighestPhysicalAddressPresent (MmuPmm s)"
    by (rule release_used [OF inv0(2,1) it(2,4)]) (rule that)
  let ?sp = "(SystemVa s)\<lparr>FreeVirtualAddressPointer := ?va + PAGE_SIZE\<rparr>" and ?sys = "(SystemPaging s)\<lparr>PagingDataOf := pd1\<rparr>"
  define s1 where "s1 = s\<lparr>Machine := m1, SystemVa := ?sp, SystemPaging := ?sys\<rparr>"
  have map: "MmuMapMemoryEx ?pa PAGE_SIZE PAGE_RIGHTS_READWRITE False False SystemSpace s0 = Some (?va, s1)"
    using mmu_map_ex_locked [of SystemSpace s0 ?pa ?va PAGE_RIGHTS_READWRITE False False] inv0(1,3) it va 1(1)
    by (simp add: s0_def s1_def pg put_paging_def)
  define s' where "s' = s\<lparr>Machine := m2, SystemVa := ?sp, SystemPaging := ?sys, MmuPmm := pmm', MemoryEffects := MemoryEffects s @ [ZeroedMemory ?va 0x1000]\<rparr>"
  have up: "ucast (ucast (AlignAddressUpper PAGE_SIZE PAGE_SIZE) :: DWORD) = (PAGE_SIZE :: QWORD)" by (simp add: AlignAddressUpper_def AlignAddressLower_def)
  have "MmuUnmapMemoryEx ?va PAGE_SIZE False SystemSpace (add_effects [ZeroedMemory ?va 0x1000] s1\<lparr>MmuPmm := pmm'\<rparr>) = Some s'"
    using mmu_unmap_locked [of SystemSpace "add_effects [ZeroedMemory ?va 0x1000] s1\<lparr>MmuPmm := pmm'\<rparr>" PAGE_SIZE ?va False] inv0(1,3) va 2(1)
    by (simp add: s1_def s'_def pg add_effects_def up)
  moreover have "s1\<lparr>MmuCpu := MmuCpu s, MmuPmm := pmm'\<rparr> = s1\<lparr>MmuPmm := pmm'\<rparr>" by (simp add: s1_def)
  ultimately have round: "MmuZeroItem env item s0 = Some s'"
    using map pmm'(1) va it(1)
    by (cases item) (simp add: MmuZeroItem_def s0_def m0_def env bind_ASSERT Let_def add_effects_def s1_def)
  have view: "mmu_view SystemSpace s' = mmu_view SystemSpace s"
  proof
    fix x
    show "mmu_view SystemSpace s' x = mmu_view SystemSpace s x"
      using none [of x] 1(7) 2(4,5) by (cases "vpn x = vpn ?va") (simp_all add: s'_def mmu_view_def pg m0_def)
  qed
  have "free_pages k s'"
    using fp 1(4,5) next_page [OF fp(1)] view by (auto simp: free_pages_def Let_def s'_def)
  moreover have "mmu_inv SystemSpace s'" using inv0 pmm' 2(2) it(3) by (simp add: mmu_inv_def s'_def pg)
  ultimately show ?thesis using map round view 1(6) pmm' 2(3)
    by (intro that [of s1 s']) (simp_all add: s0_def m0_def s1_def s'_def mmu_view_def pg mapped_view_def)
qed

lemma zero_worker_append:
  "MmuZeroWorkerThreadFunction (m + n) env w s =
    do { (w, s) \<leftarrow> MmuZeroWorkerThreadFunction m env w s; MmuZeroWorkerThreadFunction n env w s }"
proof (induction m arbitrary: w s)
  case (Suc m)
  then show ?case by (cases "MmuZeroWorkerThreadFunction_step env w s") auto
qed simp

text \<open>The worker in the wait, with the event signaled and the lock of the list free.\<close>

definition worker_ready :: "ZERO_THREAD_DATA \<Rightarrow> bool" where
  "worker_ready w = (WorkerAt w = WaitForSignal \<and> NewPagesSignaled w \<and> lock_free (PagesLock w))"

lemma zero_worker_item:
  assumes "worker_ready w" and "CpuSelf (MmuCpu s) \<noteq> NULL" and "EnvLocks env = LockSystemInit mon" and "ReleasedFrames (Machine s) = item # items"
    and "MmuZeroItem env item (s\<lparr>Machine := (Machine s)\<lparr>ReleasedFrames := items\<rparr>\<rparr>) = Some s'"
  shows "\<exists>l. lock_free l \<and> MmuZeroWorkerThreadFunction 3 env w s = Some (w\<lparr>PagesLock := l, FreedItems := FreedItems w @ [item]\<rparr>, s')"
proof -
  have w: "WorkerAt w = WaitForSignal" "NewPagesSignaled w" "lock_free (PagesLock w)" using assms(1) by (simp_all add: worker_ready_def)
  obtain l1 l2 where "LockAcquire (LockSystemInit mon) (MmuCpu s) (EnvReturn env) (PagesLock w) = Some (CpuIntr (MmuCpu s), (MmuCpu s)\<lparr>CpuIntr := INTR_OFF\<rparr>, l1)"
    "LockRelease (LockSystemInit mon) ((MmuCpu s)\<lparr>CpuIntr := INTR_OFF\<rparr>) l1 (CpuIntr (MmuCpu s)) = Some (MmuCpu s, l2)" "lock_free l2"
    by (rule lock_bracket [OF w(3) assms(2)]) (rule that)
  then show ?thesis
    using w assms(3-5) by (intro exI [of _ l2]) (simp add: numeral_3_eq_3 MmuZeroWorkerThreadFunction_step_def)
qed

lemma zero_worker_empty:
  assumes "worker_ready w" and "CpuSelf (MmuCpu s) \<noteq> NULL" and "EnvLocks env = LockSystemInit mon" and "ReleasedFrames (Machine s) = []"
  shows "\<exists>l. lock_free l \<and> MmuZeroWorkerThreadFunction 3 env w s = Some (w\<lparr>PagesLock := l, NewPagesSignaled := False\<rparr>, s)"
proof -
  have w: "WorkerAt w = WaitForSignal" "NewPagesSignaled w" "lock_free (PagesLock w)" using assms(1) by (simp_all add: worker_ready_def)
  obtain l1 l2 where "LockAcquire (LockSystemInit mon) (MmuCpu s) (EnvReturn env) (PagesLock w) = Some (CpuIntr (MmuCpu s), (MmuCpu s)\<lparr>CpuIntr := INTR_OFF\<rparr>, l1)"
    "LockRelease (LockSystemInit mon) ((MmuCpu s)\<lparr>CpuIntr := INTR_OFF\<rparr>) l1 (CpuIntr (MmuCpu s)) = Some (MmuCpu s, l2)" "lock_free l2"
    by (rule lock_bracket [OF w(3) assms(2)]) (rule that)
  then show ?thesis
    using w assms(3,4) by (intro exI [of _ l2]) (simp add: numeral_3_eq_3 MmuZeroWorkerThreadFunction_step_def)
qed

lemma zero_worker_drains:
  assumes "mmu_inv SystemSpace s" and "ReleasedFrames (Machine s) = items" and "\<forall>item \<in> set items. returning s item"
    and "free_pages (length items) s" and "EnvLocks env = LockSystemInit mon" and "worker_ready w"
  shows "\<exists>w' s'. MmuZeroWorkerThreadFunction (3 * length items + 3) env w s = Some (w', s')
    \<and> WorkerAt w' = WaitForSignal \<and> \<not> NewPagesSignaled w' \<and> lock_free (PagesLock w') \<and> FreedItems w' = FreedItems w @ items
    \<and> mmu_inv SystemSpace s' \<and> ReleasedFrames (Machine s') = []
    \<and> pmm_used (MmuPmm s') = pmm_used (MmuPmm s) - (frame \<circ> fst) ` set items \<and> mmu_view SystemSpace s' = mmu_view SystemSpace s
    \<and> MemoryEffects s' = MemoryEffects s @ map (\<lambda>j. ZeroedMemory (page_at (FreeVirtualAddressPointer (SystemVa s)) j) 0x1000) [0..<length items]"
  using assms(1-4,6)
proof (induction items arbitrary: s w)
  case Nil
  then have cpu: "CpuSelf (MmuCpu s) \<noteq> NULL" and at: "WorkerAt w = WaitForSignal" by (simp_all add: mmu_inv_def worker_ready_def)
  from zero_worker_empty [OF Nil.prems(5) cpu assms(5) Nil.prems(2)] obtain l where
    "lock_free l" "MmuZeroWorkerThreadFunction 3 env w s = Some (w\<lparr>PagesLock := l, NewPagesSignaled := False\<rparr>, s)" by blast
  then show ?case using Nil.prems at by simp
next
  case (Cons item items)
  let ?va = "FreeVirtualAddressPointer (SystemVa s)"
  have it: "returning s item" "free_pages (Suc (length items)) s" using Cons.prems by simp_all
  obtain s1 where s1: "MmuZeroItem env item (s\<lparr>Machine := (Machine s)\<lparr>ReleasedFrames := items\<rparr>\<rparr>) = Some s1" "mmu_inv SystemSpace s1" "ReleasedFrames (Machine s1) = items"
    "pmm_used (MmuPmm s1) = pmm_used (MmuPmm s) - {frame (fst item)}" "pmm_frames (MmuPmm s1) = pmm_frames (MmuPmm s)"
    "HighestPhysicalAddressPresent (MmuPmm s1) = HighestPhysicalAddressPresent (MmuPmm s)" "mmu_view SystemSpace s1 = mmu_view SystemSpace s"
    "free_pages (length items) s1" "SystemVa s1 = (SystemVa s)\<lparr>FreeVirtualAddressPointer := ?va + PAGE_SIZE\<rparr>"
    "MemoryEffects s1 = MemoryEffects s @ [ZeroedMemory ?va 0x1000]"
    by (rule zero_worker_round [OF Cons.prems(1,2) it assms(5)]) (rule that)
  have cpu: "CpuSelf (MmuCpu s) \<noteq> NULL" using Cons.prems(1) by (simp add: mmu_inv_def)
  from zero_worker_item [OF Cons.prems(5) cpu assms(5) Cons.prems(2) s1(1)] obtain l where
    l: "lock_free l" "MmuZeroWorkerThreadFunction 3 env w s = Some (w\<lparr>PagesLock := l, FreedItems := FreedItems w @ [item]\<rparr>, s1)" by blast
  let ?w = "w\<lparr>PagesLock := l, FreedItems := FreedItems w @ [item]\<rparr>"
  have ready: "worker_ready ?w" using Cons.prems(5) l(1) by (simp add: worker_ready_def)
  have "\<forall>item \<in> set items. returning s1 item" using Cons.prems(3) s1(5,6) by (simp add: returning_def)
  from Cons.IH [OF s1(2,3) this s1(8) ready] obtain w' s' where s': "MmuZeroWorkerThreadFunction (3 * length items + 3) env ?w s1 = Some (w', s')"
    "WorkerAt w' = WaitForSignal" "\<not> NewPagesSignaled w'" "lock_free (PagesLock w')" "FreedItems w' = FreedItems w @ item # items" "mmu_inv SystemSpace s'"
    "ReleasedFrames (Machine s') = []" "pmm_used (MmuPmm s') = pmm_used (MmuPmm s1) - (frame \<circ> fst) ` set items" "mmu_view SystemSpace s' = mmu_view SystemSpace s1"
    "MemoryEffects s' = MemoryEffects s1 @ map (\<lambda>j. ZeroedMemory (page_at (?va + PAGE_SIZE) j) 0x1000) [0..<length items]"
    by (auto simp: s1(9))
  have "MmuZeroWorkerThreadFunction (3 + (3 * length items + 3)) env w s = Some (w', s')"
    using s'(1) by (subst zero_worker_append) (simp add: l(2))
  moreover have "3 + (3 * length items + 3) = 3 * length (item # items) + 3" by simp
  moreover have "page_range ?va (Suc (Suc (length items)))" using it(2) by (simp add: free_pages_def Let_def)
  then have "[ZeroedMemory ?va 0x1000] @ map (\<lambda>j. ZeroedMemory (page_at (?va + PAGE_SIZE) j) 0x1000) [0..<length items] =
      map (\<lambda>j. ZeroedMemory (page_at ?va j) 0x1000) [0..<Suc (length items)]"
    using next_page(2) by (simp only: upt_conv_Cons [of 0 "Suc _"] map_Suc_upt [symmetric]) (simp add: comp_def)
  ultimately show ?case using s' s1 by (auto simp: Diff_insert2 [symmetric])
qed

text \<open>
  While frames wait and the event is signaled, the worker does not clear it, unless it has found the list empty
  before. In this case the frames that were inserted since then are lost to it: the signal of the other thread is
  cleared, and the worker stays in the wait until frames are released again.
\<close>

lemma zero_worker_keeps_signal:
  assumes "NewPagesSignaled w" and "WorkerAt w \<noteq> ClearSignal" and "ReleasedFrames (Machine s) \<noteq> []"
    and "MmuZeroWorkerThreadFunction_step env w s = Some (w', s')"
  shows "NewPagesSignaled w' \<and> WorkerAt w' \<noteq> ClearSignal"
  using assms by (auto simp: MmuZeroWorkerThreadFunction_step_def Let_def bind_eq_Some_conv split: ZERO_WORKER_AT.splits list.splits)

lemma zero_worker_lost_wakeup:
  assumes "WorkerAt w = ClearSignal" and "lock_free (PagesLock w)" and "CpuSelf (MmuCpu s) \<noteq> NULL" and "EnvLocks env = LockSystemInit mon"
    and "unat pa mod 4096 = 0" and "frames \<noteq> 0"
  shows "\<exists>w1 s1 w2. MmuReleaseMemory_insert env pa frames w s = Some (w1, s1) \<and> ReleasedFrames (Machine s1) = ReleasedFrames (Machine s) @ [(pa, frames)]
    \<and> WorkerAt w2 = WaitForSignal \<and> (\<forall>n. MmuZeroWorkerThreadFunction (Suc n) env (MmuReleaseMemory_signal w1) s1 = Some (w2, s1))"
proof -
  obtain l1 l2 where l: "LockAcquire (LockSystemInit mon) (MmuCpu s) (EnvReturn env) (PagesLock w) = Some (CpuIntr (MmuCpu s), (MmuCpu s)\<lparr>CpuIntr := INTR_OFF\<rparr>, l1)"
    "LockRelease (LockSystemInit mon) ((MmuCpu s)\<lparr>CpuIntr := INTR_OFF\<rparr>) l1 (CpuIntr (MmuCpu s)) = Some (MmuCpu s, l2)" "lock_free l2"
    by (rule lock_bracket [OF assms(2,3)]) (rule that)
  let ?m = "(Machine s)\<lparr>ReleasedFrames := ReleasedFrames (Machine s) @ [(pa, frames)]\<rparr>"
  define w2 where "w2 = w\<lparr>PagesLock := l2, NewPagesSignaled := False, WorkerAt := WaitForSignal\<rparr>"
  have stay: "MmuZeroWorkerThreadFunction n env w2 x = Some (w2, x)" for n x
    by (induction n) (simp_all add: MmuZeroWorkerThreadFunction_step_def w2_def)
  have "MmuReleaseMemory_insert env pa frames w s = Some (w\<lparr>PagesLock := l2\<rparr>, s\<lparr>Machine := ?m\<rparr>)"
    using l assms(4-6) by (simp add: MmuReleaseMemory_insert_def MmuReleaseMemory_def bind_ASSERT IsAddressAligned_page)
  moreover have "MmuZeroWorkerThreadFunction (Suc n) env (MmuReleaseMemory_signal (w\<lparr>PagesLock := l2\<rparr>)) x = Some (w2, x)" for n x
    using assms(1) stay by (simp add: MmuZeroWorkerThreadFunction_step_def MmuReleaseMemory_signal_def w2_def)
  ultimately show ?thesis by (intro exI [of _ "w\<lparr>PagesLock := l2\<rparr>"] exI [of _ "s\<lparr>Machine := ?m\<rparr>"] exI [of _ w2]) (simp add: w2_def)
qed

section \<open>Regions that are mapped at once, and their release\<close>

text \<open>The frames of the pages of a range that are mapped, in order.\<close>

definition mapped_frames :: "MMU_STATE \<Rightarrow> ptr \<Rightarrow> nat \<Rightarrow> (ptr \<times> DWORD) list" where
  "mapped_frames s base n = concat (map (\<lambda>j. case mmu_view SystemSpace s (page_at base j) of None \<Rightarrow> [] | Some v \<Rightarrow> [(FrameOf v, 1)]) [0..<n])"

definition outside :: "ptr \<Rightarrow> nat \<Rightarrow> ptr \<Rightarrow> bool" where
  "outside base n x \<longleftrightarrow> (\<forall>j < n. vpn x \<noteq> vpn (page_at base j))"

lemma le_2_31: "(x :: nat) \<le> 2 ^ 31 \<longleftrightarrow> x \<le> 2147483648"
  by simp

lemma align_truncated:
  assumes "Size \<noteq> 0" and "unat Size \<le> 2 ^ 31"
  shows "unat (ucast (ucast (AlignAddressUpper Size PAGE_SIZE) :: DWORD) :: QWORD) = (unat Size + 4095) div 4096 * 4096"
proof -
  have "unat (AlignAddressUpper Size PAGE_SIZE) = (unat Size + 4095) div 4096 * 4096" using assms by (intro AlignAddressUpper_page) simp
  moreover have "(unat Size + 4095) div 4096 * 4096 < 4294967296" using iffD1 [OF le_2_31 assms(2)] div_times_less_eq_dividend [of "unat Size + 4095" 4096] by linarith
  moreover have "unat (ucast (ucast x :: DWORD) :: QWORD) = unat x mod 4294967296" for x :: QWORD
    by (simp add: unat_ucast_QWORD unsigned_ucast_eq take_bit_eq_mod unat_mod)
  ultimately show ?thesis by (simp only: mod_less)
qed

lemma mmu_unmap_range:
  assumes inv: "mmu_inv SystemSpace s" and Size: "Size \<noteq> 0" "unat Size \<le> 2 ^ 31" "n = (unat Size + 4095) div 4096" and r: "page_range base n"
  obtains m' where "MmuUnmapMemoryEx base Size True SystemSpace s = Some (s\<lparr>Machine := m'\<rparr>)" "mmu_inv SystemSpace (s\<lparr>Machine := m'\<rparr>)"
    "ReleasedFrames m' = ReleasedFrames (Machine s) @ mapped_frames s base n"
    "mmu_view SystemSpace (s\<lparr>Machine := m'\<rparr>) = (\<lambda>x. if outside base n x then mmu_view SystemSpace s x else None)"
proof -
  let ?pd = "PagingDataOf (SystemPaging s)" and ?z = "ucast (ucast (AlignAddressUpper Size PAGE_SIZE) :: DWORD) :: QWORD"
  have pg: "paging_of SystemSpace x = SystemPaging x" for x by (simp add: paging_of_def)
  have n0: "0 < n" using Size(1,3) by (simp add: div_greater_zero_iff unat_gt_0 Suc_le_eq)
  have z: "unat ?z = n * 4096" using align_truncated [OF Size(1,2)] Size(3) by simp
  have ok: "tables_ok ?pd (Machine s)" using inv by (simp add: mmu_inv_def pg)
  obtain m' where m': "VmmUnmapMemoryEx (BasePhysicalAddress ?pd) base ?z True (Machine s) = Some m'" "tables_ok ?pd m'"
    "ReleasedFrames m' = ReleasedFrames (Machine s) @ concat (map (\<lambda>j. case view_of (Machine s) ?pd (page_at base j) of None \<Rightarrow> [] | Some v \<Rightarrow> if True then [(FrameOf v, 1)] else []) [0..<n])"
    "\<forall>j < n. (view_of (Machine s) ?pd (page_at base j) \<noteq> None \<longrightarrow> page_at base j \<in> set (TlbInvalidations m')) \<and> (\<forall>x. vpn x = vpn (page_at base j) \<longrightarrow> view_of m' ?pd x = None)"
    "\<forall>x. (\<forall>j < n. vpn x \<noteq> vpn (page_at base j)) \<longrightarrow> view_of m' ?pd x = view_of (Machine s) ?pd x"
    using unmap_memory [OF ok r n0 z, of True] by blast
  have "base \<noteq> NULL" "unat base mod 4096 = 0" using r by (simp_all add: page_range_def)
  then have "MmuUnmapMemoryEx base Size True SystemSpace s = Some (s\<lparr>Machine := m'\<rparr>)"
    using mmu_unmap_locked [of SystemSpace s Size base True] inv Size(1) m'(1) by (simp add: mmu_inv_def pg)
  moreover have "mmu_view SystemSpace (s\<lparr>Machine := m'\<rparr>) = (\<lambda>x. if outside base n x then mmu_view SystemSpace s x else None)"
    using m'(4,5) by (intro ext) (auto simp: mmu_view_def pg outside_def)
  ultimately show ?thesis using m'(2) m'(3) [unfolded if_True] inv by (intro that) (auto simp: mmu_inv_def pg mapped_frames_def mmu_view_def)
qed

lemma mapped_frames_cong:
  "(\<And>j. j < n \<Longrightarrow> mmu_view SystemSpace s' (page_at base j) = mmu_view SystemSpace s (page_at base j)) \<Longrightarrow> mapped_frames s' base n = mapped_frames s base n"
  unfolding mapped_frames_def by (intro arg_cong [where f = concat] map_cong refl) simp

lemma region_release:
  assumes inv: "mmu_inv SystemSpace s" "space_inv (SystemVa s)" and r: "active (Reservations (SystemVa s)) i" "r = Reservations (SystemVa s) ! i" "a \<in> covers r"
    and size: "unat (ReservationSize r) = n * 4096" "n \<le> 2 ^ 19"
    and bm: "BufferSize (CommitBitmap r) \<noteq> 0" "unat (BufferSize (CommitBitmap r)) \<le> 2 ^ 31" "b = (unat (BufferSize (CommitBitmap r)) + 4095) div 4096"
      "page_range (CommitBitmapAddress r) b" "\<forall>j < n. outside (CommitBitmapAddress r) b (page_at (StartVa r) j)"
  obtains s' where "VmmFreeRegionEx a 0 VMM_FREE_TYPE_RELEASE True SystemSpace SystemSpace s = Some s'" "mmu_inv SystemSpace s'" "space_inv (SystemVa s')"
    "regions (SystemVa s') = regions (SystemVa s) - {region_of r}" "MmuPmm s' = MmuPmm s" "MmuCpu s' = MmuCpu s"
    "ReleasedFrames (Machine s') = ReleasedFrames (Machine s) @ mapped_frames s (CommitBitmapAddress r) b @ mapped_frames s (StartVa r) n"
    "mmu_view SystemSpace s' = (\<lambda>x. if outside (StartVa r) n x \<and> outside (CommitBitmapAddress r) b x then mmu_view SystemSpace s x else None)"
    "MemoryEffects s' = MemoryEffects s @ (if BackingFile r = NULL then [] else [FileClosed (BackingFile r)])"
proof -
  have pg: "paging_of SystemSpace x = SystemPaging x" "va_of SystemSpace x = SystemVa x" "put_va SystemSpace sp x = x\<lparr>SystemVa := sp\<rparr>" for x sp
    by (simp_all add: paging_of_def va_of_def put_va_def)
  have ri: "reservation_inv r" using slots_inv_active [OF space_invD(1) [OF inv(2)] r(1)] r(2) by simp
  then have rv: "StartVa r \<noteq> NULL" "ReservationSize r \<noteq> 0" "page_range (StartVa r) n" "unat (StartVa r) mod 4096 = 0"
    using size by (simp_all add: reservation_inv_def page_range_def)
  have n: "n = (unat (ReservationSize r) + 4095) div 4096" "unat (ReservationSize r) \<le> 2 ^ 31" using size by simp_all
  have a0: "a \<noteq> NULL" using r(3) rv(1) by (auto simp: covers_def va_range_def unat_eq_zero [symmetric] simp del: unat_eq_zero)
  let ?es = "if BackingFile r \<noteq> NULL then [IoCloseFile (BackingFile r)] else []"
  obtain sp' where sp': "VmReservationSpaceFreeRegion (MmuCpu s) (MmuPcpu s) (SystemVa s) a 0 VMM_FREE_TYPE_RELEASE =
      Some (StartVa r, ReservationSize r, MmuUnmapMemory (CommitBitmapAddress r) (BufferSize (CommitBitmap r)) # ?es, MmuCpu s, map_option (\<lambda>_. False) (MmuPcpu s), sp')"
    "space_inv sp'" "regions sp' = regions (SystemVa s) - {region_of r}"
    using release_inv [OF inv(2) r(1), of a "MmuCpu s" "MmuPcpu s"] r(2,3) by auto
  define s1 where "s1 = s\<lparr>MmuPcpu := map_option (\<lambda>_. False) (MmuPcpu s), SystemVa := sp'\<rparr>"
  have s1: "mmu_inv SystemSpace s1" "mmu_view SystemSpace s1 = mmu_view SystemSpace s" "Machine s1 = Machine s"
    using inv(1) by (simp_all add: s1_def mmu_inv_def mmu_view_def pg)
  have bm': "ucast (BufferSize (CommitBitmap r)) \<noteq> (0 :: QWORD)" "unat (ucast (BufferSize (CommitBitmap r)) :: QWORD) \<le> 2 ^ 31"
    "b = (unat (ucast (BufferSize (CommitBitmap r)) :: QWORD) + 4095) div 4096"
    using bm(1-3) by (simp_all add: unat_ucast_QWORD unat_eq_zero [symmetric] del: unat_eq_zero)
  obtain m2 where m2: "MmuUnmapMemoryEx (CommitBitmapAddress r) (ucast (BufferSize (CommitBitmap r))) True SystemSpace s1 = Some (s1\<lparr>Machine := m2\<rparr>)"
    "mmu_inv SystemSpace (s1\<lparr>Machine := m2\<rparr>)" "ReleasedFrames m2 = ReleasedFrames (Machine s) @ mapped_frames s1 (CommitBitmapAddress r) b"
    "mmu_view SystemSpace (s1\<lparr>Machine := m2\<rparr>) = (\<lambda>x. if outside (CommitBitmapAddress r) b x then mmu_view SystemSpace s x else None)"
    by (rule mmu_unmap_range [OF s1(1) bm' bm(4), unfolded s1(2,3)]) (rule that)
  define s3 where "s3 = s1\<lparr>Machine := m2, MemoryEffects := MemoryEffects s @ (if BackingFile r = NULL then [] else [FileClosed (BackingFile r)])\<rparr>"
  have s3: "mmu_inv SystemSpace s3" "mmu_view SystemSpace s3 = mmu_view SystemSpace (s1\<lparr>Machine := m2\<rparr>)" "Machine s3 = m2"
    using m2(2) by (simp_all add: s3_def mmu_inv_def mmu_view_def pg)
  obtain m4 where m4: "MmuUnmapMemoryEx (StartVa r) (ReservationSize r) True SystemSpace s3 = Some (s3\<lparr>Machine := m4\<rparr>)"
    "mmu_inv SystemSpace (s3\<lparr>Machine := m4\<rparr>)" "ReleasedFrames m4 = ReleasedFrames m2 @ mapped_frames s3 (StartVa r) n"
    "mmu_view SystemSpace (s3\<lparr>Machine := m4\<rparr>) = (\<lambda>x. if outside (StartVa r) n x then mmu_view SystemSpace s3 x else None)"
    by (rule mmu_unmap_range [OF s3(1) rv(2) n(2,1) rv(3), unfolded s3(3)]) (rule that)
  have fr: "FreeRegion_in SystemSpace a 0 VMM_FREE_TYPE_RELEASE s = Some (StartVa r, ReservationSize r, s3)"
    using sp'(1) m2(1) by (simp add: FreeRegion_in_def pg s1_def s3_def add_effects_def)
  have "VmmFreeRegionEx a 0 VMM_FREE_TYPE_RELEASE True SystemSpace SystemSpace s = Some (s3\<lparr>Machine := m4\<rparr>)"
    using a0 fr m4(1) rv(1,2) by (simp add: VmmFreeRegionEx_def bind_ASSERT IsBooleanFlagOn_def IsFlagOn_def)
  moreover have f1: "mapped_frames s1 base k = mapped_frames s base k" for base k by (rule mapped_frames_cong) (simp add: s1(2))
  have f3: "mapped_frames s3 (StartVa r) n = mapped_frames s (StartVa r) n" by (rule mapped_frames_cong) (use bm(5) in \<open>simp add: s3(2) m2(4)\<close>)
  moreover have "mmu_view SystemSpace (s3\<lparr>Machine := m4\<rparr>) = (\<lambda>x. if outside (StartVa r) n x \<and> outside (CommitBitmapAddress r) b x then mmu_view SystemSpace s x else None)"
    by (rule ext) (simp add: m4(4) s3(2) m2(4))
  moreover have "ReleasedFrames (Machine (s3\<lparr>Machine := m4\<rparr>)) = ReleasedFrames (Machine s) @ mapped_frames s (CommitBitmapAddress r) b @ mapped_frames s (StartVa r) n"
    by (simp add: m4(3) m2(3) f1 f3)
  ultimately show ?thesis using m4(2) sp'(2,3) by (intro that [of "s3\<lparr>Machine := m4\<rparr>"]; (assumption | simp add: s3_def s1_def)?)
qed

text \<open>Both requests of a region that is mapped at once: reserve and commit, and not lazily.\<close>

abbreviation ALLOC_AT_ONCE :: VMM_ALLOC_TYPE where "ALLOC_AT_ONCE \<equiv> VMM_ALLOC_TYPE_RESERVE OR VMM_ALLOC_TYPE_COMMIT OR VMM_ALLOC_TYPE_NOT_LAZY"

lemma alloc_at_once_flags:
  "IsBooleanFlagOn ALLOC_AT_ONCE VMM_ALLOC_TYPE_RESERVE" "IsBooleanFlagOn ALLOC_AT_ONCE VMM_ALLOC_TYPE_COMMIT"
  "IsBooleanFlagOn ALLOC_AT_ONCE VMM_ALLOC_TYPE_NOT_LAZY" "\<not> IsBooleanFlagOn ALLOC_AT_ONCE VMM_ALLOC_TYPE_ZERO"
  "IsFlagOn ALLOC_AT_ONCE (VMM_ALLOC_TYPE_COMMIT OR VMM_ALLOC_TYPE_RESERVE)"
  by (simp_all add: IsBooleanFlagOn_def IsFlagOn_def)

lemma region_alloc:
  assumes inv: "mmu_inv SystemSpace s" "space_inv (SystemVa s)" and va: "va = FreeVirtualAddressPointer (SystemVa s)"
    and Size: "Size \<noteq> 0" "N = AlignAddressUpper Size PAGE_SIZE" "unat N = n * 4096" "unat va + unat Size + 4095 < 2 ^ 64" "alloc_room (SystemVa s) N" "0 < n" "n \<le> 2 ^ 19"
    and room: "unat (CurrentIndex (PagingDataOf (SystemPaging s))) + 3 + 3 * crossings va 0 n \<le> unat (NumberOfFrames (PagingDataOf (SystemPaging s)))"
    and free: "k + n \<le> pmm_frames (MmuPmm s)" "pmm_used (MmuPmm s) \<inter> {k..<k + n} = {}" and env: "EnvLocks env = LockSystemInit mon"
  obtains pa s' where "VmmAllocRegionEx env NULL Size ALLOC_AT_ONCE rights uc NULL SystemSpace SystemSpace None s = Some (va, s')"
    "mmu_inv SystemSpace s'" "space_inv (SystemVa s')" "regions (SystemVa s') = insert (va, N, rights, uc, NULL, va_range va N) (regions (SystemVa s))"
    "pmm_used (MmuPmm s) \<inter> {frame pa..<frame pa + n} = {}" "pmm_used (MmuPmm s') = pmm_used (MmuPmm s) \<union> {frame pa..<frame pa + n}"
    "\<forall>j < n. mmu_view SystemSpace s' (page_at va j) = Some (mapped_view (Machine s) (KernelSpace (PagingDataOf (SystemPaging s))) rights uc (page_at pa j))"
    "\<forall>x. outside va n x \<longrightarrow> mmu_view SystemSpace s' x = mmu_view SystemSpace s x" "ReleasedFrames (Machine s') = ReleasedFrames (Machine s)"
    "MmuCpu s' = MmuCpu s" "MemoryEffects s' = MemoryEffects s"
proof -
  have pg: "paging_of SystemSpace x = SystemPaging x" "va_of SystemSpace x = SystemVa x" "put_va SystemSpace sp x = x\<lparr>SystemVa := sp\<rparr>" "put_paging SystemSpace p x = x\<lparr>SystemPaging := p\<rparr>" for x sp p
    by (simp_all add: paging_of_def va_of_def put_va_def put_paging_def)
  let ?pd = "PagingDataOf (SystemPaging s)" and ?pcpu = "map_option (\<lambda>_. False) (MmuPcpu s)"
  let ?n = "ucast (N div PAGE_SIZE) :: DWORD"
  obtain sp' where sp': "VmReservationSpaceAllocRegion (MmuCpu s) (MmuPcpu s) (SystemVa s) NULL Size ALLOC_AT_ONCE rights uc NULL =
      Some (STATUS_SUCCESS, Some (va, N), MmuCpu s, ?pcpu, sp')" "space_inv sp'" "regions sp' = insert (va, N, rights, uc, NULL, va_range va N) (regions (SystemVa s))"
    using alloc_fresh_ok [OF inv(2) Size(1) alloc_at_once_flags(1) Size(2) _ Size(5), of "MmuCpu s" "MmuPcpu s" rights uc NULL] Size(4) va alloc_at_once_flags(2) by auto
  have vr: "va \<noteq> NULL" "unat va mod 4096 = 0" using inv(2) va by (simp_all add: space_inv_def space_ok_def slots_inv_def)
  have N: "unat (N div PAGE_SIZE) = n" using Size(3) by (simp add: unat_div)
  then have n32: "unat ?n = n" "?n \<noteq> 0" "N div PAGE_SIZE \<le> ucast MAX_DWORD" "N \<noteq> 0"
    using Size(3,6,7) by (auto simp: unsigned_ucast_eq take_bit_eq_mod unat_mod word_le_nat_alt unat_eq_zero [symmetric] simp del: unat_eq_zero)
  have r: "page_range va n" using vr Size(2-4,7) AlignAddressUpper_page [of Size] by (auto simp: page_range_def)
  have pi: "pmm_inv (MmuPmm s)" "0 \<in> pmm_used (MmuPmm s)" "CpuSelf (MmuCpu s) \<noteq> NULL" "tables_ok ?pd (Machine s)" "rec_free (PagingLock (SystemPaging s))"
    using inv(1) by (simp_all add: mmu_inv_def pg)
  obtain pa pmm' where pa: "PmmReserveMemory (LockSystemInit mon) (EnvReturn env) (MmuCpu s) (MmuPmm s) ?n = Some (pa, MmuCpu s, pmm')" "pmm_inv pmm'"
    "pa \<noteq> NULL" "unat pa mod 4096 = 0" "unat pa + n * 4096 \<le> 2 ^ 52"
    "pmm_used (MmuPmm s) \<inter> {frame pa..<frame pa + n} = {}" "pmm_used pmm' = pmm_used (MmuPmm s) \<union> {frame pa..<frame pa + n}"
    by (rule reserve_frames [OF pi(1-3) n32(2), unfolded n32(1) pa_frames_def, OF free, where mon = mon and ra = "EnvReturn env"]) (rule that)
  obtain pd' m' where m': "VmmMapMemoryInternal ?pd pa N va rights True uc (Machine s) = Some (pd', m')" "tables_ok pd' m'" "ReleasedFrames m' = ReleasedFrames (Machine s)"
    "\<forall>j < n. \<forall>x. vpn x = vpn (page_at va j) \<longrightarrow> view_of m' pd' x = Some (mapped_view (Machine s) (KernelSpace ?pd) rights uc (page_at pa j))"
    "\<forall>x. (\<forall>j < n. vpn x \<noteq> vpn (page_at va j)) \<longrightarrow> view_of m' pd' x = view_of (Machine s) ?pd x"
    using map_memory [OF pi(4) r Size(6,3) pa(4,5) room, of rights True uc] by auto
  define s1 where "s1 = s\<lparr>MmuPcpu := ?pcpu, SystemVa := sp', MmuPmm := pmm'\<rparr>"
  define s' where "s' = s1\<lparr>Machine := m', SystemPaging := (SystemPaging s)\<lparr>PagingDataOf := pd'\<rparr>\<rparr>"
  have "MmuMapMemoryInternal pa N rights va True uc SystemSpace s1 = Some s'"
    using mmu_map_locked [of SystemSpace s1 N va pa rights True uc] pi(3,5) n32(4) Size(3) vr m'(1) by (simp add: pg s1_def s'_def)
  then have "VmmAllocRegionEx env NULL Size ALLOC_AT_ONCE rights uc NULL SystemSpace SystemSpace None s = Some (va, s')"
    using sp'(1) pa(1,3) Size(1) vr(1) n32(3) alloc_at_once_flags
    by (simp add: VmmAllocRegionEx_def bind_ASSERT pg Let_def env s1_def [symmetric])
  then show ?thesis
    using sp'(2,3) pa(2,6,7) m' pi by (intro that [of s' pa]) (auto simp: mmu_inv_def mmu_view_def pg s'_def s1_def outside_def)
qed

end
