(* ===== verification/MmuProps.thy ===== *)
theory MmuProps
  imports Mmu
begin

text \<open>
  Results on the memory manager of \<open>Mmu\<close>: memory descriptor lists, page faults, regions that are mapped at once and released, and the
  worker that zeroes frames.
\<close>

section \<open>Memory descriptor lists\<close>

text \<open>The pairs of a list of frames, with adjacent frames joined: what the loops compute.\<close>

fun coalesce :: "MDL_TRANSLATION_PAIR \<Rightarrow> ptr list \<Rightarrow> MDL_TRANSLATION_PAIR list" where
  "coalesce cur [] = [cur]"
| "coalesce cur (pa # pas) =
     (if PairAddress cur + ucast (NumberOfBytes cur) = pa then coalesce (cur\<lparr>NumberOfBytes := NumberOfBytes cur + 0x1000\<rparr>) pas
      else cur # coalesce \<lparr>PairAddress = pa, NumberOfBytes = 0x1000\<rparr> pas)"

definition bytes_from :: "ptr \<Rightarrow> nat \<Rightarrow> ptr list" where
  "bytes_from pa n = map (\<lambda>k. pa + of_nat k) [0..<n]"

definition pair_bytes :: "MDL_TRANSLATION_PAIR \<Rightarrow> ptr list" where
  "pair_bytes p = bytes_from (PairAddress p) (unat (NumberOfBytes p))"

lemma coalesce_not_Nil [simp]: "coalesce cur pas \<noteq> []"
  by (induction cur pas rule: coalesce.induct) simp_all

lemma bytes_from_append: "bytes_from pa (a + b) = bytes_from pa a @ bytes_from (pa + of_nat a) b"
  by (induction b) (simp_all add: bytes_from_def add.assoc)

lemma coalesce_bytes:
  "unat (NumberOfBytes cur) + 4096 * length pas < 2 ^ 32 \<Longrightarrow>
    concat (map pair_bytes (coalesce cur pas)) = pair_bytes cur @ concat (map (\<lambda>pa. bytes_from pa 4096) pas)"
proof (induction cur pas rule: coalesce.induct)
  case (2 cur pa pas)
  have u: "unat (NumberOfBytes cur + 0x1000) = unat (NumberOfBytes cur) + 4096" using 2(3) by (simp add: unat_word_ariths)
  show ?case
  proof (cases "PairAddress cur + ucast (NumberOfBytes cur) = pa")
    case True
    have "(of_nat (unat (NumberOfBytes cur)) :: QWORD) = ucast (NumberOfBytes cur)" by (simp add: unsigned_ucast_eq)
    then show ?thesis using True 2(1) [OF True] 2(3) u bytes_from_append [of "PairAddress cur" "unat (NumberOfBytes cur)" 4096] by (auto simp: pair_bytes_def)
  next
    case False
    then show ?thesis using 2(2) [OF False] 2(3) by (simp add: pair_bytes_def)
  qed
qed simp

lemma coalesce_hd: "PairAddress (hd (coalesce cur pas)) = PairAddress cur"
  by (induction cur pas rule: coalesce.induct) simp_all

lemma coalesce_maximal:
  "Suc i < length (coalesce cur pas) \<Longrightarrow> PairAddress (coalesce cur pas ! i) + ucast (NumberOfBytes (coalesce cur pas ! i)) \<noteq> PairAddress (coalesce cur pas ! Suc i)"
proof (induction cur pas arbitrary: i rule: coalesce.induct)
  case (2 cur pa pas)
  have hd: "PairAddress (coalesce p pas ! 0) = PairAddress p" for p using coalesce_hd [of p pas] by (simp add: hd_conv_nth)
  show ?case
  proof (cases "PairAddress cur + ucast (NumberOfBytes cur) = pa")
    case True
    then show ?thesis using 2(1) [OF True, of i] 2(3) by simp
  next
    case False
    then show ?thesis using 2(2) [OF False] 2(3) hd by (cases i) simp_all
  qed
qed simp

lemma coalesce_length: "length (coalesce cur pas) \<le> Suc (length pas)"
  by (induction cur pas rule: coalesce.induct) auto

text \<open>Looking up an address changes nothing that can be seen.\<close>

definition same_tables :: "address_space_of \<Rightarrow> MMU_STATE \<Rightarrow> MMU_STATE \<Rightarrow> bool" where
  "same_tables w s s' \<longleftrightarrow> (\<exists>m'. s' = s\<lparr>Machine := m'\<rparr>) \<and> (mmu_inv w s \<longrightarrow> mmu_inv w s') \<and> mmu_view w s' = mmu_view w s"

lemma same_tables_refl [simp]: "same_tables w s s"
  by (auto simp: same_tables_def intro: exI [of _ "Machine s"])

lemma same_tables_trans: "same_tables w s s' \<Longrightarrow> same_tables w s' s'' \<Longrightarrow> same_tables w s s''"
  by (auto simp: same_tables_def)

lemma get_physical:
  assumes inv: "mmu_inv w s" and va: "AlignAddressLower va PAGE_SIZE \<noteq> NULL" and v: "mmu_view w s va = Some v"
  obtains s' where "MmuGetPhysicalAddressEx va (Inl w) s = Some (FrameOf v + (va AND 4095), s')" "same_tables w s s'"
proof -
  let ?page = "AlignAddressLower va PAGE_SIZE" and ?pd = "PagingDataOf (paging_of w s)"
  obtain cpu' l' where l: "RecRwSpinlockAcquire (MmuCpu s) (PagingLock (paging_of w s)) False = Some (CpuIntr (MmuCpu s), cpu', l')"
    "RecRwSpinlockRelease cpu' l' (CpuIntr (MmuCpu s)) False = Some (MmuCpu s, PagingLock (paging_of w s))"
    using rec_section [of "PagingLock (paging_of w s)" "MmuCpu s" False] inv by (auto simp: mmu_inv_def)
  have ok: "tables_ok ?pd (Machine s)" using inv by (simp add: mmu_inv_def)
  have "view_of (Machine s) ?pd ?page = Some v" using v view_of_vpn [OF vpn_page, of "Machine s" ?pd va] by (simp add: mmu_view_def)
  then obtain acc dirty m' where m': "VmmGetPhysicalAddressEx (BasePhysicalAddress ?pd) ?page False False (Machine s) = Some (FrameOf v, acc, dirty, m')"
    "tables_ok ?pd m'" "view_of m' ?pd = view_of (Machine s) ?pd"
    using lookup_memory [OF ok va page_is_aligned, of False False] by auto
  have "put_paging w (paging_of w s) (s\<lparr>Machine := m'\<rparr>) = s\<lparr>Machine := m'\<rparr>" using put_same(2) [of w "s\<lparr>Machine := m'\<rparr>"] by simp
  then have "MmuGetPhysicalAddressEx va (Inl w) s = Some (FrameOf v + (va AND 4095), s\<lparr>Machine := m'\<rparr>)"
    using l m'(1) page_not_null [OF va] by (simp add: MmuGetPhysicalAddressEx_def Let_def)
  moreover have "same_tables w s (s\<lparr>Machine := m'\<rparr>)" using m'(2,3) by (auto simp: same_tables_def mmu_inv_def mmu_view_def)
  ultimately show ?thesis by (rule that)
qed

text \<open>The frame of a page that is mapped, and the buffers whose pages all are, to frames other than 0.\<close>

definition frame_of :: "address_space_of \<Rightarrow> MMU_STATE \<Rightarrow> ptr \<Rightarrow> ptr" where
  "frame_of w s x = FrameOf (the (mmu_view w s x))"

definition all_mapped :: "address_space_of \<Rightarrow> MMU_STATE \<Rightarrow> ptr \<Rightarrow> nat \<Rightarrow> bool" where
  "all_mapped w s base n \<longleftrightarrow> (\<forall>j < n. mmu_view w s (page_at base j) \<noteq> None \<and> frame_of w s (page_at base j) \<noteq> NULL)"

abbreviation frames_from :: "address_space_of \<Rightarrow> MMU_STATE \<Rightarrow> ptr \<Rightarrow> nat \<Rightarrow> nat \<Rightarrow> ptr list" where
  "frames_from w s base j n \<equiv> map (\<lambda>i. frame_of w s (page_at base i)) [j..<n]"

lemma same_tables_frames: "same_tables w s s' \<Longrightarrow> frame_of w s' = frame_of w s"
  "same_tables w s s' \<Longrightarrow> all_mapped w s' base n = all_mapped w s base n" "same_tables w s s' \<Longrightarrow> mmu_inv w s \<Longrightarrow> mmu_inv w s'"
  by (auto simp: same_tables_def frame_of_def all_mapped_def fun_eq_iff)

text \<open>The offset of page \<open>j\<close> in a buffer, as a 32-bit number.\<close>

definition page_dword :: "nat \<Rightarrow> DWORD" where
  "page_dword j = of_nat (j * 4096)"

lemma dword_pages:
  assumes "n \<le> 2 ^ 19" and "j \<le> n"
  shows "unat (page_dword j) = j * 4096" "page_dword j < page_dword n \<longleftrightarrow> j < n" "page_dword j + 0x1000 = page_dword (Suc j)"
    "base + ucast (page_dword j) = page_at base j"
proof -
  have u: "unat (page_dword i) = i * 4096" if "i \<le> n" for i
    using that assms(1) unfolding page_dword_def by (simp only: unsigned_of_nat) (simp add: take_bit_nat_eq_self)
  show uj: "unat (page_dword j) = j * 4096" using u assms(2) by blast
  show "page_dword j < page_dword n \<longleftrightarrow> j < n"
    unfolding word_less_nat_alt u [OF assms(2)] u [OF order_refl] by simp
  show "page_dword j + 0x1000 = page_dword (Suc j)" by (simp add: page_dword_def)
  have "(ucast (page_dword j) :: QWORD) = of_nat (unat (page_dword j))" by (simp add: unsigned_ucast_eq)
  then show "base + ucast (page_dword j) = page_at base j" by (simp only: uj page_at_def)
qed

lemma page_lookup:
  assumes "mmu_inv w s" and "page_range base n" and "all_mapped w s base n" and "j < n"
  obtains s' where "MmuGetPhysicalAddressEx (page_at base j) (Inl w) s = Some (frame_of w s (page_at base j), s')" "same_tables w s s'"
    "frame_of w s (page_at base j) \<noteq> NULL"
proof -
  have u: "unat (page_at base j) mod 4096 = 0" using unat_page_at [OF assms(2,4)] assms(2) by (simp add: page_range_def)
  obtain v where v: "mmu_view w s (page_at base j) = Some v" "frame_of w s (page_at base j) \<noteq> NULL" using assms(3,4) by (auto simp: all_mapped_def)
  note al = AlignAddressLower_page_id [OF u]
  obtain s' where s': "MmuGetPhysicalAddressEx (page_at base j) (Inl w) s = Some (FrameOf v + (page_at base j AND 4095), s')" "same_tables w s s'"
    by (rule get_physical [OF assms(1) _ v(1)]) (use page_at_not_null [OF assms(2,4)] al in \<open>auto intro: that\<close>)
  then show ?thesis using v page_offset_zero [OF u] by (intro that) (auto simp: frame_of_def)
qed

lemma MdlCount_loop_ok:
  assumes "mmu_inv w s" and "page_range base n" and "all_mapped w s base n" and "n \<le> 2 ^ 19" and "j \<le> n"
  shows "\<exists>s'. MdlCount_loop base (Inl w) (page_dword n) (page_dword j) cur c s =
      Some (c + of_nat (length (coalesce cur (frames_from w s base j n)) - 1), s') \<and> same_tables w s s'"
  using assms
proof (induction "n - j" arbitrary: j cur c s)
  case 0
  then show ?case using dword_pages [OF 0(5,6)] by (subst MdlCount_loop.simps) simp
next
  case (Suc d)
  then have j: "j < n" "d = n - Suc j" "Suc j \<le> n" by simp_all
  let ?pa = "frame_of w s (page_at base j)"
  obtain s1 where s1: "MmuGetPhysicalAddressEx (page_at base j) (Inl w) s = Some (?pa, s1)" "same_tables w s s1" "?pa \<noteq> NULL"
    by (rule page_lookup [OF Suc.prems(1-3) j(1)]) (rule that)
  note st = same_tables_frames [OF s1(2)]
  have fr: "frames_from w s base j n = ?pa # frames_from w s base (Suc j) n" by (simp add: upt_conv_Cons [OF j(1)])
  note IH = Suc.hyps(1) [OF j(2) st(3) [OF Suc.prems(1)] Suc.prems(2) _ Suc.prems(4) j(3), unfolded st(1,2), OF Suc.prems(3)]
  note dw = dword_pages [OF Suc.prems(4) Suc.prems(5)]
  show ?case
  proof (cases "PairAddress cur + ucast (NumberOfBytes cur) = ?pa")
    case True
    obtain s' where "MdlCount_loop base (Inl w) (page_dword n) (page_dword (Suc j)) (cur\<lparr>NumberOfBytes := NumberOfBytes cur + 0x1000\<rparr>) c s1 =
        Some (c + of_nat (length (coalesce (cur\<lparr>NumberOfBytes := NumberOfBytes cur + 0x1000\<rparr>) (frames_from w s base (Suc j) n)) - 1), s')" "same_tables w s1 s'"
      using IH by blast
    then show ?thesis using True s1 j(1) same_tables_trans [OF s1(2)] fr
      by (subst MdlCount_loop.simps) (simp add: dw(2-4) bind_ASSERT Let_def)
  next
    case False
    obtain s' where "MdlCount_loop base (Inl w) (page_dword n) (page_dword (Suc j)) \<lparr>PairAddress = ?pa, NumberOfBytes = 0x1000\<rparr> (c + 1) s1 =
        Some (c + 1 + of_nat (length (coalesce \<lparr>PairAddress = ?pa, NumberOfBytes = 0x1000\<rparr> (frames_from w s base (Suc j) n)) - 1), s')" "same_tables w s1 s'"
      using IH by blast
    moreover obtain k where "length (coalesce \<lparr>PairAddress = ?pa, NumberOfBytes = 0x1000\<rparr> (frames_from w s base (Suc j) n)) = Suc k"
      by (cases "coalesce \<lparr>PairAddress = ?pa, NumberOfBytes = 0x1000\<rparr> (frames_from w s base (Suc j) n)") auto
    ultimately show ?thesis using False s1 j(1) same_tables_trans [OF s1(2)] fr
      by (subst MdlCount_loop.simps) (simp add: dw(2-4) bind_ASSERT Let_def add.assoc)
  qed
qed

lemma MdlFill_loop_ok:
  assumes "mmu_inv w s" and "page_range base n" and "all_mapped w s base n" and "n \<le> 2 ^ 19" and "j \<le> n"
    and "L = coalesce cur (frames_from w s base j n)" and "unat idx + length L \<le> length tr" and "length tr < 2 ^ 32"
  shows "\<exists>s'. MdlFill_loop base (Inl w) (page_dword n) (page_dword j) cur idx tr s =
      Some (last L, idx + of_nat (length L - 1), take (unat idx) tr @ butlast L @ drop (unat idx + length L - 1) tr, s') \<and> same_tables w s s'"
  using assms
proof (induction "n - j" arbitrary: j cur idx tr s L)
  case 0
  then show ?case using dword_pages [OF 0(5,6)] by (subst MdlFill_loop.simps) simp
next
  case (Suc d)
  then have j: "j < n" "d = n - Suc j" "Suc j \<le> n" by simp_all
  let ?pa = "frame_of w s (page_at base j)" and ?fs = "frames_from w s base (Suc j) n"
  obtain s1 where s1: "MmuGetPhysicalAddressEx (page_at base j) (Inl w) s = Some (?pa, s1)" "same_tables w s s1" "?pa \<noteq> NULL"
    by (rule page_lookup [OF Suc.prems(1-3) j(1)]) (rule that)
  note st = same_tables_frames [OF s1(2)]
  have fr: "frames_from w s base j n = ?pa # ?fs" by (simp add: upt_conv_Cons [OF j(1)])
  note IH = Suc.hyps(1) [OF j(2) st(3) [OF Suc.prems(1)] Suc.prems(2) _ Suc.prems(4) j(3) _ _, unfolded st(1,2), OF Suc.prems(3) refl]
  note dw = dword_pages [OF Suc.prems(4) Suc.prems(5)]
  show ?case
  proof (cases "PairAddress cur + ucast (NumberOfBytes cur) = ?pa")
    case True
    let ?cur = "cur\<lparr>NumberOfBytes := NumberOfBytes cur + 0x1000\<rparr>"
    have L: "L = coalesce ?cur ?fs" using True Suc.prems(6) fr by simp
    obtain s' where "MdlFill_loop base (Inl w) (page_dword n) (page_dword (Suc j)) ?cur idx tr s1 =
        Some (last L, idx + of_nat (length L - 1), take (unat idx) tr @ butlast L @ drop (unat idx + length L - 1) tr, s')" "same_tables w s1 s'"
      using IH [of idx ?cur tr] Suc.prems(7,8) L by auto
    then show ?thesis using True s1 j(1) same_tables_trans [OF s1(2)]
      by (subst MdlFill_loop.simps) (simp add: dw(2-4) bind_ASSERT Let_def)
  next
    case False
    let ?cur = "\<lparr>PairAddress = ?pa, NumberOfBytes = 0x1000\<rparr>" and ?tr = "tr[unat idx := cur]"
    define L' where "L' = coalesce ?cur ?fs"
    have L: "L = cur # L'" "L' \<noteq> []" using False Suc.prems(6) fr by (simp_all add: L'_def)
    then have idx: "unat (idx + 1) = Suc (unat idx)" "unat idx < length tr" using Suc.prems(7,8) by (auto simp: unat_word_ariths)
    obtain s' where s': "MdlFill_loop base (Inl w) (page_dword n) (page_dword (Suc j)) ?cur (idx + 1) ?tr s1 =
        Some (last L', idx + 1 + of_nat (length L' - 1), take (Suc (unat idx)) ?tr @ butlast L' @ drop (Suc (unat idx) + length L' - 1) ?tr, s')" "same_tables w s1 s'"
      using IH [of "idx + 1" ?cur ?tr] Suc.prems(7,8) L idx by (auto simp: L'_def)
    obtain k where k: "length L' = Suc k" using L(2) by (cases L') auto
    have "take (Suc (unat idx)) ?tr = take (unat idx) tr @ [cur]" using idx(2) by (simp add: take_Suc_conv_app_nth)
    then show ?thesis using False s1 j(1) same_tables_trans [OF s1(2)] s' L k idx(2)
      by (subst MdlFill_loop.simps) (simp add: dw(2-4) bind_ASSERT Let_def add.assoc)
  qed
qed

lemma unat_offset: "unat ((va :: ptr) AND 4095) = unat va mod 4096"
proof -
  have "(4095 :: ptr) = mask 12" by (simp add: mask_eq_exp_minus_1)
  then have "va AND 4095 = take_bit 12 va" by (simp only: take_bit_eq_mask)
  then show ?thesis by (simp add: take_bit_eq_mod unat_mod)
qed

lemma unat_offset_dword: "unat (ucast ((va :: ptr) AND 4095) :: DWORD) = unat va mod 4096"
  by (simp add: unsigned_ucast_eq unat_offset take_bit_nat_eq_self)

lemma view_frame:
  assumes "mmu_view w s x = Some v"
  shows "unat (FrameOf v) mod 4096 = 0" "unat (FrameOf v) < 2 ^ 52"
proof -
  obtain e where v: "FrameOf v = phys e" using assms by (auto simp: mmu_view_def view_of_def page_view_def)
  show "unat (FrameOf v) mod 4096 = 0" using phys_is_aligned [of e] by (simp add: v IsAddressAligned_page)
  have "phys e = take_bit 52 (phys e)" by (rule bit_word_eqI) (auto simp: phys_def bit_simps)
  then have "unat (phys e) = take_bit 52 (unat (phys e))" by (metis unsigned_take_bit_eq)
  then show "unat (FrameOf v) < 2 ^ 52" unfolding v by (metis take_bit_nat_less_exp)
qed

text \<open>The bytes of a buffer in physical memory, up to the end of its last page.\<close>

definition buffer_bytes :: "address_space_of \<Rightarrow> MMU_STATE \<Rightarrow> ptr \<Rightarrow> nat \<Rightarrow> ptr list" where
  "buffer_bytes w s va n = drop (unat va mod 4096)
     (concat (map (\<lambda>j. bytes_from (frame_of w s (page_at (AlignAddressLower va PAGE_SIZE) j)) 4096) [0..<n]))"

lemma first_pair:
  assumes "mmu_view w s va = Some v"
  shows "pair_bytes \<lparr>PairAddress = FrameOf v + (va AND 4095), NumberOfBytes = 0x1000 - ucast (va AND 4095)\<rparr> = drop (unat va mod 4096) (bytes_from (FrameOf v) 4096)"
    and "unat (0x1000 - ucast (va AND 4095) :: DWORD) = 4096 - unat va mod 4096"
proof -
  let ?o = "unat va mod 4096"
  note u = unat_offset_dword [of va]
  then have "ucast (va AND 4095) \<le> (0x1000 :: DWORD)" by (simp add: word_le_nat_alt)
  then show n: "unat (0x1000 - ucast (va AND 4095) :: DWORD) = 4096 - ?o" by (simp add: unat_sub u)
  have "?o + (4096 - ?o) = 4096" by simp
  then have "bytes_from (FrameOf v) 4096 = bytes_from (FrameOf v) ?o @ bytes_from (FrameOf v + of_nat ?o) (4096 - ?o)"
    using bytes_from_append [of "FrameOf v" ?o "4096 - ?o"] by (simp only:)
  moreover have "length (bytes_from (FrameOf v) ?o) = ?o" by (simp add: bytes_from_def)
  moreover have "of_nat ?o = va AND 4095" unfolding unat_offset [symmetric] by simp
  ultimately show "pair_bytes \<lparr>PairAddress = FrameOf v + (va AND 4095), NumberOfBytes = 0x1000 - ucast (va AND 4095)\<rparr> = drop ?o (bytes_from (FrameOf v) 4096)"
    using n by (simp add: pair_bytes_def)
qed

lemma aligned_length:
  fixes Len :: DWORD and va :: ptr
  assumes "unat Len + 4095 < 2 ^ 31" and "n = (unat va mod 4096 + unat Len + 4095) div 4096"
  shows "ucast (AlignAddressUpper (ucast (Len + ucast (va AND 4095))) PAGE_SIZE) = page_dword n" "n \<le> 2 ^ 19"
proof -
  let ?o = "unat va mod 4096"
  have o: "?o < 4096" by simp
  then have "unat (Len + ucast (va AND 4095)) = unat Len + ?o"
    using assms(1) unat_offset_dword [of va] unat_plus_simple [THEN iffD1, of Len "ucast (va AND 4095)"]
    by (simp add: unat_word_ariths)
  then have "unat (AlignAddressUpper (ucast (Len + ucast (va AND 4095))) PAGE_SIZE) = n * 4096"
    using assms AlignAddressUpper_page [of "ucast (Len + ucast (va AND 4095))"] by (simp add: unat_ucast_QWORD add.commute add.left_commute)
  then have "ucast (AlignAddressUpper (ucast (Len + ucast (va AND 4095))) PAGE_SIZE) = (of_nat (n * 4096) :: DWORD)"
    by (metis of_nat_unat)
  then show "ucast (AlignAddressUpper (ucast (Len + ucast (va AND 4095))) PAGE_SIZE) = page_dword n" by (simp only: page_dword_def)
  have "unat Len + 4095 < 2147483648" using assms(1) by simp
  then have "?o + unat Len + 4095 < 2147483648 + 4096" using o by linarith
  then show "n \<le> 2 ^ 19" using assms(2) by simp
qed

text \<open>Probing memory that is mapped changes nothing.\<close>

lemma MmuProbe_loop_mapped:
  assumes "page_range base n" and "j \<le> n" and "n \<le> 2 ^ 19" and "all_mapped w s base n"
  shows "MmuProbe_loop env (Inl w) base (page_dword n) (page_dword j) s = Some s"
  using assms(2)
proof (induction "n - j" arbitrary: j)
  case 0
  then show ?case using dword_pages [OF assms(3) 0(2)] by (subst MmuProbe_loop.simps) simp
next
  case (Suc k)
  then have j: "j < n" by simp
  note dw = dword_pages [OF assms(3) Suc.prems]
  have "translate (Machine s) (BasePhysicalAddress (PagingDataOf (paging_of w s))) (page_at base j) \<noteq> None"
    using assms(4) j by (auto simp: all_mapped_def mmu_view_def view_of_def)
  then have "MmuProbePage env (Inl w) (page_at base j) s = Some s" by (simp add: MmuProbePage_def)
  moreover have "MmuProbe_loop env (Inl w) base (page_dword n) (page_dword (Suc j)) s = Some s" using Suc j by simp
  ultimately show ?case using j by (subst MmuProbe_loop.simps) (simp add: dw(2-4))
qed

lemma mdl_allocate:
  assumes inv: "mmu_inv w s" and base: "base = AlignAddressLower va PAGE_SIZE" and n: "n = (unat va mod 4096 + unat Len + 4095) div 4096"
    and Len: "Len \<noteq> 0" "unat Len + 4095 < 2 ^ 31" and r: "page_range base n" and m: "all_mapped w s base n"
  obtains s' mdl where "MdlAllocateEx env True va Len (Inl w) s = Some (Some mdl, s')" "same_tables w s s'"
    "MdlStartVa mdl = base" "ByteCount mdl = Len" "unat (ByteOffset mdl) = unat va mod 4096"
    "unat (NumberOfTranslationPairs mdl) = length (Translations mdl)" "concat (map pair_bytes (Translations mdl)) = buffer_bytes w s va n"
    "\<forall>i. Suc i < length (Translations mdl) \<longrightarrow> PairAddress (Translations mdl ! i) + ucast (NumberOfBytes (Translations mdl ! i)) \<noteq> PairAddress (Translations mdl ! Suc i)"
proof -
  note al = aligned_length [OF Len(2) n]
  have n0: "0 < n" using Len(1) n by (simp add: div_greater_zero_iff unat_gt_0 Suc_le_eq)
  obtain v where v: "mmu_view w s va = Some v" "frame_of w s base = FrameOf v" "FrameOf v \<noteq> NULL"
    using m n0 view_of_vpn [OF vpn_page, of "Machine s" "PagingDataOf (paging_of w s)" va] page_at_0 [of base]
    by (auto simp: all_mapped_def base mmu_view_def frame_of_def)
  have bn: "AlignAddressLower va PAGE_SIZE \<noteq> NULL" using r base by (simp add: page_range_def)
  let ?pa = "FrameOf v + (va AND 4095)" and ?o = "ucast (va AND 4095) :: DWORD"
  let ?cur = "\<lparr>PairAddress = ?pa, NumberOfBytes = 0x1000 - ?o\<rparr>"
  have "unat ?pa = unat (FrameOf v) + unat va mod 4096"
    using view_frame [OF v(1)] unat_plus_if_small [of "FrameOf v" "va AND 4095"] by (simp add: unat_offset)
  moreover have "unat (FrameOf v) \<noteq> 0" using v(3) by (simp add: unat_eq_zero)
  ultimately have pa0: "?pa \<noteq> NULL" by (metis add_is_0 unat_0)
  define L where "L = coalesce ?cur (frames_from w s base 1 n)"
  obtain k where k: "length L = Suc k" unfolding L_def by (cases "coalesce ?cur (frames_from w s base 1 n)") auto
  have len: "length L \<le> n" using coalesce_length [of ?cur "frames_from w s base 1 n"] n0 by (simp add: L_def)
  then have len32: "length L < 2 ^ 32" using al(2) by simp
  have un: "unat (1 + of_nat (length L - 1) :: DWORD) = length L"
    using len32 k by (simp only: k diff_Suc_1) (simp add: unsigned_of_nat take_bit_nat_eq_self flip: of_nat_Suc)
  have bytes: "concat (map pair_bytes L) = buffer_bytes w s va n"
  proof -
    have "unat (NumberOfBytes ?cur) + 4096 * length (frames_from w s base 1 n) < 2 ^ 32"
      using first_pair(2) [OF v(1)] al(2) by simp
    from coalesce_bytes [OF this] first_pair(1) [OF v(1)] v(2)
    have "concat (map pair_bytes L) = drop (unat va mod 4096) (bytes_from (frame_of w s base) 4096) @ concat (map (\<lambda>pa. bytes_from pa 4096) (frames_from w s base 1 n))"
      by (simp add: L_def)
    moreover have "unat va mod 4096 \<le> length (bytes_from (frame_of w s base) 4096)" by (simp add: bytes_from_def)
    ultimately show ?thesis by (simp add: buffer_bytes_def base [symmetric] upt_conv_Cons [OF n0] comp_def)
  qed
  have one: "(0x1000 :: DWORD) = page_dword 1" by (simp add: page_dword_def)
  obtain s1 where s1: "MmuGetPhysicalAddressEx va (Inl w) s = Some (?pa, s1)" "same_tables w s s1" by (rule get_physical [OF inv bn v(1)]) (rule that)
  note e1 = same_tables_frames [OF s1(2)]
  obtain s2 where s2: "MdlCount_loop base (Inl w) (page_dword n) (page_dword 1) ?cur 1 s1 = Some (1 + of_nat (length L - 1), s2)" "same_tables w s1 s2"
    using MdlCount_loop_ok [OF e1(3) [OF inv] r _ al(2), of 1 ?cur 1] m n0 by (auto simp: e1(1,2) L_def)
  note t2 = same_tables_trans [OF s1(2) s2(2)]
  note e2 = same_tables_frames [OF t2]
  have "mmu_view w s2 va = Some v" using t2 v(1) by (simp add: same_tables_def)
  then obtain s3 where s3: "MmuGetPhysicalAddressEx va (Inl w) s2 = Some (?pa, s3)" "same_tables w s2 s3" using get_physical [OF e2(3) [OF inv] bn] by metis
  note t3 = same_tables_trans [OF t2 s3(2)]
  note e3 = same_tables_frames [OF t3]
  let ?z = "replicate (length L) zero_MDL_TRANSLATION_PAIR"
  obtain s4 where s4: "MdlFill_loop base (Inl w) (page_dword n) (page_dword 1) ?cur 0 ?z s3 =
      Some (last L, of_nat (length L - 1), butlast L @ drop (length L - 1) ?z, s4)" "same_tables w s3 s4"
    using MdlFill_loop_ok [OF e3(3) [OF inv] r _ al(2) _ refl, where j = 1 and cur = ?cur and idx = 0 and tr = ?z] m n0 len32 by (auto simp: e3(1,2) L_def)
  have i: "unat (of_nat (length L - 1) :: DWORD) = length L - 1" using len32 by (simp only: unsigned_of_nat) (simp add: take_bit_nat_eq_self)
  have "drop (length L - 1) ?z = [zero_MDL_TRANSLATION_PAIR]" by (simp only: drop_replicate) (simp add: k)
  then have "(butlast L @ drop (length L - 1) ?z)[length L - 1 := last L] = L"
    using k by (cases L rule: rev_cases) (simp_all add: list_update_append)
  then have w: "wr_at (butlast L @ drop (length L - 1) ?z) (length L - 1) (last L) = Some L" using k by (simp add: wr_at_def)
  define mdl where "mdl = \<lparr>MdlStartVa = base, ByteCount = Len, ByteOffset = ?o, NumberOfTranslationPairs = of_nat (length L - 1) + 1, Translations = L\<rparr>"
  have "MmuProbeMemory env (Inl w) va Len s = Some s"
    using MmuProbe_loop_mapped [OF r _ al(2) m, of 0 env] page_not_null [OF bn] Len(1)
    by (simp add: MmuProbeMemory_def bind_ASSERT Let_def al(1) [simplified] base [symmetric] add.commute) (simp add: page_dword_def)
  then have probe: "(if b then MmuProbeMemory env (Inl w) va Len s else Some s) = Some s" for b by simp
  have "MdlAllocateEx env True va Len (Inl w) s = Some (Some mdl, s4)"
    using page_not_null [OF bn] Len(1) pa0 s1(1) s2(1) [folded one] s3(1) s4(1) [folded one] un i w
    by (simp add: MdlAllocateEx_def probe bind_ASSERT Let_def al(1) [simplified] base [symmetric] mdl_def add.commute)
  moreover have "\<forall>i. Suc i < length L \<longrightarrow> PairAddress (L ! i) + ucast (NumberOfBytes (L ! i)) \<noteq> PairAddress (L ! Suc i)"
    using coalesce_maximal by (simp add: L_def)
  ultimately show ?thesis
    using same_tables_trans [OF t3 s4(2)] unat_offset_dword [of va] un bytes
    by (intro that [of mdl s4]) (simp_all add: mdl_def add.commute)
qed

text \<open>
  The offset in the page is added to the result even if the page is not mapped, so only an address at the start
  of a page is reported as not mapped.
\<close>

lemma get_physical_unmapped:
  assumes inv: "mmu_inv w s" and va: "AlignAddressLower va PAGE_SIZE \<noteq> NULL" and v: "mmu_view w s va = None"
  obtains s' where "MmuGetPhysicalAddressEx va (Inl w) s = Some (va AND 4095, s')" "same_tables w s s'"
proof -
  let ?page = "AlignAddressLower va PAGE_SIZE" and ?pd = "PagingDataOf (paging_of w s)"
  obtain cpu' l' where l: "RecRwSpinlockAcquire (MmuCpu s) (PagingLock (paging_of w s)) False = Some (CpuIntr (MmuCpu s), cpu', l')"
    "RecRwSpinlockRelease cpu' l' (CpuIntr (MmuCpu s)) False = Some (MmuCpu s, PagingLock (paging_of w s))"
    using rec_section [of "PagingLock (paging_of w s)" "MmuCpu s" False] inv by (auto simp: mmu_inv_def)
  have ok: "tables_ok ?pd (Machine s)" using inv by (simp add: mmu_inv_def)
  have "view_of (Machine s) ?pd ?page = None" using v view_of_vpn [OF vpn_page, of "Machine s" ?pd va] by (simp add: mmu_view_def)
  then obtain acc dirty m' where m': "VmmGetPhysicalAddressEx (BasePhysicalAddress ?pd) ?page False False (Machine s) = Some (NULL, acc, dirty, m')"
    "tables_ok ?pd m'" "view_of m' ?pd = view_of (Machine s) ?pd"
    using lookup_memory [OF ok va page_is_aligned, of False False] by auto
  have "put_paging w (paging_of w s) (s\<lparr>Machine := m'\<rparr>) = s\<lparr>Machine := m'\<rparr>" using put_same(2) [of w "s\<lparr>Machine := m'\<rparr>"] by simp
  then have "MmuGetPhysicalAddressEx va (Inl w) s = Some (va AND 4095, s\<lparr>Machine := m'\<rparr>)"
    using l m'(1) page_not_null [OF va] by (simp add: MmuGetPhysicalAddressEx_def Let_def)
  moreover have "same_tables w s (s\<lparr>Machine := m'\<rparr>)" using m'(2,3) by (auto simp: same_tables_def mmu_inv_def mmu_view_def)
  ultimately show ?thesis by (rule that)
qed

section \<open>An example state\<close>

definition sample_user_paging :: PAGING_DATA where
  "sample_user_paging = \<lparr>BasePhysicalAddress = 0x200000, NumberOfFrames = 16, CurrentIndex = 1, KernelSpace = False\<rparr>"

definition sample_lock :: REC_RW_SPINLOCK where
  "sample_lock = RecRwSpinlockInit 0 zero_REC_RW_SPINLOCK"

definition sample_mmu :: MMU_STATE where
  "sample_mmu = \<lparr>MmuCpu = \<lparr>CpuSelf = 1, CpuIntr = INTR_OFF\<rparr>, MmuPcpu = Some False, PageFaults = 0, CurrentSpace = ProcessSpace,
     MmuPmm = ex_pmm\<lparr>HighestPhysicalAddressPresent := 0x100000\<rparr>, SystemVa = ex_space, ProcessVa = ex_space,
     SystemPaging = \<lparr>PagingLock = sample_lock, PagingDataOf = sample_paging\<rparr>,
     ProcessPaging = \<lparr>PagingLock = sample_lock, PagingDataOf = sample_user_paging\<rparr>, Machine = sample_machine, MemoryEffects = []\<rparr>"

lemma sample_user_tables: "tables_ok sample_user_paging sample_machine" "view_of sample_machine sample_user_paging va = None"
proof -
  have f: "frames_ok sample_user_paging sample_machine" "\<forall>k < 512. entry sample_machine (BasePhysicalAddress sample_user_paging) k = 0"
    by (simp_all add: frames_ok_def sample_user_paging_def sample_machine_def PA2VA_def entry_def)
  show "tables_ok sample_user_paging sample_machine" "view_of sample_machine sample_user_paging va = None"
    using fresh_tables [OF f(1) _ f(2)] by (simp_all add: sample_user_paging_def)
qed

lemma sample_lock_free: "rec_free sample_lock"
  by (simp add: sample_lock_def rec_free_def rw_free_def RecRwSpinlockInit_def RwSpinlockInit_def Let_def)

lemma sample_pmm:
  "pmm_inv (ex_pmm\<lparr>HighestPhysicalAddressPresent := h\<rparr>)" "pmm_used (ex_pmm\<lparr>HighestPhysicalAddressPresent := h\<rparr>) = pmm_used ex_pmm"
  "pmm_frames (ex_pmm\<lparr>HighestPhysicalAddressPresent := h\<rparr>) = 9" "4 \<notin> pmm_used ex_pmm"
  using ex_pmm_inv by (simp_all add: pmm_inv_def pmm_used_def pmm_frames_def ex_pmm_def bm_set_def bm_bit_def bit_at_def ex_bitmap_def)

lemma sample_inv: "mmu_inv w sample_mmu" "mmu_view w sample_mmu x = None"
  using sample_tables sample_user_tables sample_lock_free sample_pmm(1,2) ex_pmm_inv
  by (cases w; simp add: mmu_inv_def mmu_view_def sample_mmu_def paging_of_def)+

section \<open>Properties\<close>

lemma MmuSolvePageFault_eq:
  assumes "CpuIntr (MmuCpu s) = INTR_OFF"
  shows "MmuSolvePageFault env a ec s = VmmSolvePageFault env a ((if bit ec 1 then PAGE_RIGHTS_WRITE else 0) OR (if bit ec 4 then PAGE_RIGHTS_EXECUTE else 0))
    (if bit ec 2 then CurrentSpace s else SystemSpace) s"
  using assms by (simp only: MmuSolvePageFault_def Let_def CpuIntrGetState_def) simp

text \<open>
  C33: An access that is not allowed. A fault in the first page, a fault at an address of the other half than that
  of the page tables, and a fault at an address that is in no region, is not committed there or whose region does not
  have the right that the error code asks for is not solved, and nothing has changed: no frame is taken, nothing is
  mapped, written or locked.
\<close>

theorem page_fault_denied:
  assumes "CpuIntr (MmuCpu s) = INTR_OFF" and "plain_address a s"
    and "q = (if bit ec 1 then PAGE_RIGHTS_WRITE else 0) OR (if bit ec 4 then PAGE_RIGHTS_EXECUTE else 0)"
    and "w = (if bit ec 2 then CurrentSpace s else SystemSpace)" and "\<not> fault_allowed a q w s"
  shows "MmuSolvePageFault env a ec s = Some (False, s)"
  using fault_denied [OF assms(1,2,5), of env] MmuSolvePageFault_eq [OF assms(1), of env a ec] assms(3,4) by simp

definition sample_env :: MMU_ENV where
  "sample_env = \<lparr>EnvLocks = LockSystemInit False, EnvReturn = 8, EnvReadFile = (\<lambda>f n off buf. (STATUS_SUCCESS, n))\<rparr>"

lemma sample_fields:
  "CpuIntr (MmuCpu sample_mmu) = INTR_OFF" "CurrentSpace sample_mmu = ProcessSpace" "va_of w sample_mmu = ex_space" "MmuPmm sample_mmu = ex_pmm\<lparr>HighestPhysicalAddressPresent := 0x100000\<rparr>"
  "PagingDataOf (paging_of ProcessSpace sample_mmu) = sample_user_paging" "PagingDataOf (SystemPaging sample_mmu) = sample_paging" "SystemVa sample_mmu = ex_space" "Machine sample_mmu = sample_machine"
  by (simp_all add: sample_mmu_def va_of_def paging_of_def split: address_space_of.split)

lemma sample_plain: "plain_address 0x10000 sample_mmu"
  by (simp add: plain_address_def Let_def sample_fields ex_space_inv ex_space_fields CHECK_BOUNDS_def)

lemma sample_error_code: "\<not> bit (0x14 :: DWORD) 1" "bit (0x14 :: DWORD) 2" "bit (0x14 :: DWORD) 4" "bit (6 :: DWORD) 1" "bit (6 :: DWORD) 2" "\<not> bit (6 :: DWORD) 4"
  by (simp_all add: bit_numeral_rec)

text \<open>A user mode fetch from a page that can be read and written.\<close>

theorem page_fault_denied_witness:
  "MmuSolvePageFault sample_env 0x10000 0x14 sample_mmu = Some (False, sample_mmu)"
proof -
  have "\<not> granted ex_space PAGE_RIGHTS_EXECUTE {0x10000}"
    using granted_iff [of ex_space 0 "0x10000" "{0x10000}" PAGE_RIGHTS_EXECUTE] space_invD(1) [OF ex_space_inv]
    by (simp add: ex_space_active) (simp add: ex_space_def covers_def va_range_def IsBooleanFlagOn_def)
  then have "\<not> fault_allowed 0x10000 PAGE_RIGHTS_EXECUTE ProcessSpace sample_mmu" by (simp add: fault_allowed_def sample_fields)
  then show ?thesis
    using page_fault_denied [OF sample_fields(1) sample_plain, of PAGE_RIGHTS_EXECUTE "0x14" ProcessSpace sample_env]
    by (simp add: sample_error_code sample_fields)
qed

text \<open>
  C32: An access that is allowed. If a frame is free and the file system reads no more than it is asked to, the page of
  the address is mapped to a frame that was free, and that is now used, with the rights and the memory type of the
  region that has the address, for user mode exactly if the tables are those of a process; all other pages are mapped
  as before and the translation of the page is discarded. Then the page is filled from the file of the region at the
  offset of the page, and what the file does not have is zeroed. The fault is solved unless the file cannot be read.
  The regions and the locks are as before.
\<close>

theorem page_fault_resolved:
  assumes "CpuIntr (MmuCpu s) = INTR_OFF" and "plain_address a s"
    and "q = (if bit ec 1 then PAGE_RIGHTS_WRITE else 0) OR (if bit ec 4 then PAGE_RIGHTS_EXECUTE else 0)"
    and "w = (if bit ec 2 then CurrentSpace s else SystemSpace)" and "fault_allowed a q w s" and "mmu_inv w s"
    and "unat (CurrentIndex (PagingDataOf (paging_of w s))) + 3 \<le> unat (NumberOfFrames (PagingDataOf (paging_of w s)))"
    and "k < pmm_frames (MmuPmm s)" and "k \<notin> pmm_used (MmuPmm s)"
    and "EnvLocks env = LockSystemInit mon" and "\<And>f off buf. snd (EnvReadFile env f PAGE_SIZE off buf) \<le> PAGE_SIZE"
  shows "\<exists>p n rights uc f C off pa s'. MmuSolvePageFault env a ec s = Some (fault_read env f off (AlignAddressLower a PAGE_SIZE), s')
    \<and> (p, n, rights, uc, f, C) \<in> regions (va_of (VmmRetrieveReservationSpaceForAddress a s) s) \<and> a \<in> C \<and> IsBooleanFlagOn rights q
    \<and> (f \<noteq> NULL \<longrightarrow> off = AlignAddressLower (a - p) PAGE_SIZE)
    \<and> mmu_inv w s' \<and> MmuCpu s' = MmuCpu s \<and> SystemVa s' = SystemVa s \<and> ProcessVa s' = ProcessVa s
    \<and> frame pa \<notin> pmm_used (MmuPmm s) \<and> pmm_used (MmuPmm s') = insert (frame pa) (pmm_used (MmuPmm s))
    \<and> mmu_view w s' = (\<lambda>x. if vpn x = vpn a then Some (mapped_view (Machine s) (KernelSpace (PagingDataOf (paging_of w s))) rights uc pa) else mmu_view w s x)
    \<and> AlignAddressLower a PAGE_SIZE \<in> set (TlbInvalidations (Machine s')) \<and> ReleasedFrames (Machine s') = ReleasedFrames (Machine s)
    \<and> MemoryEffects s' = MemoryEffects s @ fault_fill env f off (AlignAddressLower a PAGE_SIZE)"
  unfolding MmuSolvePageFault_eq [OF assms(1), of env a ec, folded assms(3,4)]
  by (rule fault_resolved [OF assms(6,1,2,5,7-11)])

text \<open>A user mode write to a page that was not touched before.\<close>

theorem page_fault_resolved_witness:
  "\<exists>s'. MmuSolvePageFault sample_env 0x10000 6 sample_mmu = Some (True, s') \<and> MemoryEffects s' = [ZeroedMemory 0x10000 0x1000]
    \<and> map_option CanUser (mmu_view ProcessSpace s' 0x10000) = Some True"
proof -
  have f: "f = NULL" if "(p, n, rights, uc, f, C) \<in> regions ex_space" for p n rights uc f C
    using that by (auto simp: regions_def ex_space_active region_of_def) (simp_all add: ex_space_def)
  have pg: "AlignAddressLower 0x10000 PAGE_SIZE = 0x10000" by (simp add: AlignAddressLower_page_id)
  have al: "fault_allowed 0x10000 PAGE_RIGHTS_WRITE ProcessSpace sample_mmu"
    using ex_space_granted [of "{0x10000}"] pg by (simp add: fault_allowed_def sample_fields va_range_def VmIsKernelAddress_def IsBooleanFlagOn_def) (simp add: sample_user_paging_def)
  have h: "unat (CurrentIndex sample_user_paging) + 3 \<le> unat (NumberOfFrames sample_user_paging)" "\<not> KernelSpace sample_user_paging" by (simp_all add: sample_user_paging_def)
  have e: "EnvLocks sample_env = LockSystemInit False" "\<And>f off buf. snd (EnvReadFile sample_env f PAGE_SIZE off buf) \<le> PAGE_SIZE" by (simp_all add: sample_env_def)
  from page_fault_resolved [OF sample_fields(1) sample_plain, of PAGE_RIGHTS_WRITE 6 ProcessSpace 4 sample_env False] al sample_inv(1) h(1) e sample_pmm
  obtain p n rights uc f C off pa s' where s': "MmuSolvePageFault sample_env 0x10000 6 sample_mmu = Some (fault_read sample_env f off 0x10000, s')"
    "(p, n, rights, uc, f, C) \<in> regions ex_space" "MemoryEffects s' = MemoryEffects sample_mmu @ fault_fill sample_env f off 0x10000"
    "mmu_view ProcessSpace s' = (\<lambda>x. if vpn x = vpn 0x10000 then Some (mapped_view (Machine sample_mmu) (KernelSpace (PagingDataOf (paging_of ProcessSpace sample_mmu))) rights uc pa) else mmu_view ProcessSpace sample_mmu x)"
    by (simp add: sample_error_code sample_fields pg) (elim exE conjE, rule that, assumption+)
  have "MemoryEffects sample_mmu = []" by (simp add: sample_mmu_def)
  then show ?thesis using s' f [OF s'(2)] h(2) by (simp add: fault_read_def fault_fill_def mapped_view_def sample_fields)
qed



text \<open>The size of the pages that are unmapped is cut to 32 bits.\<close>

lemma ucast_plus: "(ucast (a + b) :: DWORD) = ucast (a :: QWORD) + ucast b"
  by transfer (simp, subst (1 2) take_bit_add [symmetric], simp)

lemma align_upper_cut:
  "(ucast (AlignAddressUpper (Size + 0x100000000) PAGE_SIZE) :: DWORD) = ucast (AlignAddressUpper (Size :: QWORD) PAGE_SIZE)"
proof -
  have "(ucast (0x100000FFF + Size) :: DWORD) = ucast (0xFFF + Size)" by (simp add: ucast_plus)
  then show ?thesis by (simp add: AlignAddressUpper_def AlignAddressLower_def unsigned_and_eq)
qed

lemma unmap_cuts_size:
  assumes "unat va mod 4096 = 0" and "Size \<noteq> 0" and "unat Size + 2 ^ 32 < 2 ^ 64"
  shows "MmuUnmapMemoryEx va (Size + 0x100000000) Release w s = MmuUnmapMemoryEx va Size Release w s"
proof -
  have "unat (Size + 0x100000000) = unat Size + 2 ^ 32" using assms(3) by (subst unat_plus_if_small) simp_all
  then have "Size + 0x100000000 \<noteq> 0" by (metis add_is_0 unat_0 zero_neq_numeral power_not_zero)
  moreover have "AlignAddressLower va PAGE_SIZE = va" using assms(1) by (simp add: word_unat_eq_iff AlignAddressLower_page minus_mod_eq_div_mult [symmetric])
  ultimately show ?thesis using assms(2) by (simp add: MmuUnmapMemoryEx_def Let_def align_upper_cut)
qed
text \<open>The system with one page of the kernel mapped to the frame at 4 MB.\<close>

lemma sample_mapped:
  assumes va: "va \<noteq> NULL" "unat va mod 4096 = 0"
  obtains s where "mmu_inv SystemSpace s" "SystemVa s = ex_space" "ReleasedFrames (Machine s) = []"
    "\<And>x. vpn x = vpn va \<Longrightarrow> map_option FrameOf (mmu_view SystemSpace s x) = Some 0x400000"
    "\<And>x. vpn x \<noteq> vpn va \<Longrightarrow> mmu_view SystemSpace s x = None"
proof -
  have h: "unat (CurrentIndex (PagingDataOf (paging_of SystemSpace sample_mmu))) + 3 \<le> unat (NumberOfFrames (PagingDataOf (paging_of SystemSpace sample_mmu)))"
    by (simp add: paging_of_def sample_mmu_def sample_paging_def)
  obtain pd' m' where m': "tables_ok pd' m'" "ReleasedFrames m' = ReleasedFrames (Machine sample_mmu)" "view_of m' pd' = (\<lambda>x. if vpn x = vpn va then
      Some (mapped_view (Machine sample_mmu) (KernelSpace (PagingDataOf (paging_of SystemSpace sample_mmu))) 1 False 0x400000) else mmu_view SystemSpace sample_mmu x)"
    by (rule mmu_map_page [OF sample_inv(1) h va, of "0x400000" 1 False]) (simp, simp, rule that)
  define s where "s = put_paging SystemSpace ((paging_of SystemSpace sample_mmu)\<lparr>PagingDataOf := pd'\<rparr>) (sample_mmu\<lparr>Machine := m'\<rparr>)"
  have "mmu_inv SystemSpace s" using sample_inv(1) [of SystemSpace] m'(1) by (simp add: s_def mmu_inv_def)
  moreover have "mmu_view SystemSpace s = (\<lambda>x. if vpn x = vpn va then
      Some (mapped_view (Machine sample_mmu) (KernelSpace (PagingDataOf (paging_of SystemSpace sample_mmu))) 1 False 0x400000) else None)"
    by (simp add: mmu_view_def s_def m'(3)) (simp add: sample_inv(2) cong: if_cong)
  moreover have "SystemVa s = ex_space" "ReleasedFrames (Machine s) = []"
    using m'(2) by (simp_all add: s_def put_paging_def sample_mmu_def sample_machine_def)
  ultimately show ?thesis by (intro that [of s]) (simp_all add: mapped_view_def)
qed




definition sample_worker :: ZERO_THREAD_DATA where
  "sample_worker = \<lparr>NewPagesSignaled = True, PagesLock = LockInit (LockSystemInit False) zero_LOCK, WorkerAt = WaitForSignal, FreedItems = []\<rparr>"


text \<open>
  C37: The memory descriptor list of a buffer of less than 2 GB. If all pages of the buffer are mapped, to frames other
  than frame 0, \<open>MdlAllocateEx\<close> returns a list whose pairs, one after the other, are the physical addresses of the bytes
  from the start of the buffer to the end of its last page, in order: the last pair covers all of the last page, also
  the part behind the buffer. No two neighbouring pairs could be joined, the number of pairs is right, and probing and
  looking up the pages changed no mapping. (A page that is not mapped is described as a part of physical page 0 if the
  buffer does not start at it: \<open>get_physical_unmapped\<close>.)
\<close>

theorem mdl_describes_buffer:
  assumes "mmu_inv w s" and "base = AlignAddressLower va PAGE_SIZE" and "n = (unat va mod 4096 + unat Len + 4095) div 4096"
    and "Len \<noteq> 0" and "unat Len + 4095 < 2 ^ 31" and "page_range base n" and "all_mapped w s base n"
  shows "\<exists>s' mdl. MdlAllocateEx env True va Len (Inl w) s = Some (Some mdl, s') \<and> mmu_view w s' = mmu_view w s
    \<and> MdlStartVa mdl = base \<and> ByteCount mdl = Len \<and> unat (ByteOffset mdl) = unat va mod 4096
    \<and> unat (MdlGetNumberOfPairs mdl) = length (Translations mdl) \<and> concat (map pair_bytes (Translations mdl)) = buffer_bytes w s va n
    \<and> (\<forall>i. Suc i < length (Translations mdl) \<longrightarrow>
        PairAddress (Translations mdl ! i) + ucast (NumberOfBytes (Translations mdl ! i)) \<noteq> PairAddress (Translations mdl ! Suc i))"
proof -
  obtain s' mdl where "MdlAllocateEx env True va Len (Inl w) s = Some (Some mdl, s')" "same_tables w s s'"
    "MdlStartVa mdl = base" "ByteCount mdl = Len" "unat (ByteOffset mdl) = unat va mod 4096"
    "unat (NumberOfTranslationPairs mdl) = length (Translations mdl)" "concat (map pair_bytes (Translations mdl)) = buffer_bytes w s va n"
    "\<forall>i. Suc i < length (Translations mdl) \<longrightarrow> PairAddress (Translations mdl ! i) + ucast (NumberOfBytes (Translations mdl ! i)) \<noteq> PairAddress (Translations mdl ! Suc i)"
    by (rule mdl_allocate [OF assms]) (rule that)
  then show ?thesis by (auto simp: same_tables_def MdlGetNumberOfPairs_def)
qed

text \<open>Sixteen bytes in a page that is mapped to the frame at 4 MB.\<close>

theorem mdl_describes_buffer_witness:
  "\<exists>s s' mdl. MdlAllocateEx sample_env True 0x20010 0x10 (Inl SystemSpace) s = Some (Some mdl, s') \<and> hd (concat (map pair_bytes (Translations mdl))) = 0x400010"
proof -
  obtain s where s: "mmu_inv SystemSpace s" "\<And>x. vpn x = vpn 0x20000 \<Longrightarrow> map_option FrameOf (mmu_view SystemSpace s x) = Some 0x400000"
    by (rule sample_mapped [of "0x20000"]) (simp, simp, rule that)
  obtain v where "mmu_view SystemSpace s 0x20000 = Some v" "FrameOf v = 0x400000" using s(2) [of "0x20000"] by auto
  then have v: "frame_of SystemSpace s 0x20000 = 0x400000" "mmu_view SystemSpace s 0x20000 \<noteq> None" by (simp_all add: frame_of_def)
  have b: "AlignAddressLower 0x20010 PAGE_SIZE = 0x20000" by (simp add: AlignAddressLower_def)
  have "bytes_from 0x400000 4096 ! 16 = 0x400010" "16 < length (bytes_from 0x400000 4096)" by (simp_all add: bytes_from_def)
  then have "hd (buffer_bytes SystemSpace s 0x20010 1) = 0x400010" using v(1) by (simp add: buffer_bytes_def b hd_drop_conv_nth del: hd_drop_conv_nth) (simp add: hd_drop_conv_nth)
  then show ?thesis
    using mdl_describes_buffer [OF s(1), of "0x20000" "0x20010" 1 "0x10" sample_env] b v by - (rule exI [of _ s], auto simp: page_range_def all_mapped_def)
qed

end
