(* ===== verification/Fat32.thy ===== *)
theory Fat32
  imports Hal_Prelude
begin

text \<open>
  The FAT32 file system: the allocation table and directory entries (\<open>FAT32/src/fat_utils.c\<close>) and reading, writing and mounting
  (\<open>fat_operations.c\<close>). The volume is its bytes. A buffer is the function from an offset to the byte there.

  The pool and the driver below are seen through their answers, which are arguments: for each call, in order, if the allocation succeeds, the status of
  the request, and if its whole length was transferred; and the time. A request that fails transfers nothing.
\<close>

section \<open>The volume\<close>

abbreviation STATUS_UNSUCCESSFUL :: STATUS where "STATUS_UNSUCCESSFUL \<equiv> 0xE8000003"
abbreviation STATUS_TIME_INVALID :: STATUS where "STATUS_TIME_INVALID \<equiv> 0xE800001C"
abbreviation STATUS_HEAP_NO_MORE_MEMORY :: STATUS where "STATUS_HEAP_NO_MORE_MEMORY \<equiv> 0xE0200003"
abbreviation STATUS_DISK_MBR_NOT_PRESENT :: STATUS where "STATUS_DISK_MBR_NOT_PRESENT \<equiv> 0xE0040001"
abbreviation STATUS_DISK_FULL :: STATUS where "STATUS_DISK_FULL \<equiv> 0xE0040002"
abbreviation STATUS_DEVICE_FILESYSTEM_UNSUPPORTED :: STATUS where "STATUS_DEVICE_FILESYSTEM_UNSUPPORTED \<equiv> 0xE001000C"
abbreviation STATUS_DEVICE_CLUSTER_INVALID :: STATUS where "STATUS_DEVICE_CLUSTER_INVALID \<equiv> 0xE001000D"
abbreviation STATUS_BUFFER_TOO_SMALL :: STATUS where "STATUS_BUFFER_TOO_SMALL \<equiv> 0xE0100002"

type_synonym buffer = "QWORD \<Rightarrow> BYTE"

record DATE =
  DateDay :: BYTE
  DateMonth :: BYTE
  DateYear :: WORD

record TIME =
  TimeSecond :: BYTE
  TimeMinute :: BYTE
  TimeHour :: BYTE

record DATETIME =
  DatePart :: DATE
  TimePart :: TIME

record VOLUME =
  VolumeBytes :: buffer
  VolumeCalls :: nat

record VOLUME_ANSWERS =
  AllocOk :: "nat \<Rightarrow> bool"
  IoStatus :: "nat \<Rightarrow> STATUS"
  IoFull :: "nat \<Rightarrow> bool"
  IoGetCurrentDateTime :: "nat \<Rightarrow> DATETIME"
  DeviceAlignment :: DWORD

definition called :: "VOLUME \<Rightarrow> VOLUME" where "called v = v\<lparr>VolumeCalls := VolumeCalls v + 1\<rparr>"

definition ExAllocatePoolWithTag :: "VOLUME_ANSWERS \<Rightarrow> VOLUME \<Rightarrow> bool \<times> VOLUME" where
  "ExAllocatePoolWithTag env v = (AllocOk env (VolumeCalls v), called v)"

definition IoReadDevice :: "VOLUME_ANSWERS \<Rightarrow> QWORD \<Rightarrow> QWORD \<Rightarrow> buffer \<Rightarrow> VOLUME \<Rightarrow> STATUS \<times> bool \<times> buffer \<times> VOLUME" where
  "IoReadDevice env Length Offset Buffer v = (let status = IoStatus env (VolumeCalls v) in
     (status, IoFull env (VolumeCalls v), if SUCCEEDED status then (\<lambda>i. if i < Length then VolumeBytes v (Offset + i) else Buffer i) else Buffer, called v))"

definition IoWriteDevice :: "VOLUME_ANSWERS \<Rightarrow> QWORD \<Rightarrow> QWORD \<Rightarrow> buffer \<Rightarrow> VOLUME \<Rightarrow> STATUS \<times> bool \<times> VOLUME" where
  "IoWriteDevice env Length Offset Buffer v = (let status = IoStatus env (VolumeCalls v) in
     (status, IoFull env (VolumeCalls v),
      called (if SUCCEEDED status then v\<lparr>VolumeBytes := \<lambda>a. if a - Offset < Length then Buffer (a - Offset) else VolumeBytes v a\<rparr> else v)))"

text \<open>Numbers in a buffer, the lowest byte first.\<close>

definition rd_word :: "buffer \<Rightarrow> QWORD \<Rightarrow> WORD" where
  "rd_word b a = ucast (b a) OR push_bit 8 (ucast (b (a + 1)))"

definition rd_dword :: "buffer \<Rightarrow> QWORD \<Rightarrow> DWORD" where
  "rd_dword b a = ucast (b a) OR push_bit 8 (ucast (b (a + 1))) OR push_bit 16 (ucast (b (a + 2))) OR push_bit 24 (ucast (b (a + 3)))"

definition wr_word :: "buffer \<Rightarrow> QWORD \<Rightarrow> WORD \<Rightarrow> buffer" where
  "wr_word b a w = b(a := ucast w, a + 1 := ucast (drop_bit 8 w))"

definition wr_dword :: "buffer \<Rightarrow> QWORD \<Rightarrow> DWORD \<Rightarrow> buffer" where
  "wr_dword b a w = b(a := ucast w, a + 1 := ucast (drop_bit 8 w), a + 2 := ucast (drop_bit 16 w), a + 3 := ucast (drop_bit 24 w))"

definition zeroed :: buffer where "zeroed = (\<lambda>_. 0)"

section \<open>Clusters and sectors\<close>

record FAT_DATA =
  CountOfClusters :: DWORD
  RootDirectoryStartSector :: QWORD
  ReservedSectors :: DWORD
  FirstDataSector :: DWORD
  SectorsPerCluster :: DWORD
  BytesPerSector :: DWORD
  EntriesPerSector :: DWORD
  AllocationSize :: DWORD

abbreviation FAT32_CLUSTER_MASK :: DWORD where "FAT32_CLUSTER_MASK \<equiv> 0x0FFFFFFF"
abbreviation FAT32_EOC_MARK :: DWORD where "FAT32_EOC_MARK \<equiv> 0x0FFFFFFF"
abbreviation FAT32_BAD_CLUSTER :: DWORD where "FAT32_BAD_CLUSTER \<equiv> 0x0FFFFFF7"
abbreviation FAT32_UNKNOWN :: DWORD where "FAT32_UNKNOWN \<equiv> 0xFFFFFFFF"
abbreviation SIZEOF_FAT32_ENTRY :: QWORD where "SIZEOF_FAT32_ENTRY \<equiv> 4"

definition FAT32_EOC :: "QWORD \<Rightarrow> bool" where "FAT32_EOC cluster = (cluster > ucast FAT32_BAD_CLUSTER)"

text \<open>The sector is only stored on success.\<close>

definition FirstSectorOfCluster :: "FAT_DATA \<Rightarrow> QWORD \<Rightarrow> STATUS \<times> QWORD option" where
  "FirstSectorOfCluster fd Cluster =
     (if Cluster > ucast (CountOfClusters fd + 1) \<or> Cluster < 2 then (STATUS_DEVICE_CLUSTER_INVALID, None)
      else (STATUS_SUCCESS, Some ((Cluster - 2) * ucast (SectorsPerCluster fd) + ucast (FirstDataSector fd))))"

text \<open>A division by zero is a fault.\<close>

definition ClusterOfSector :: "FAT_DATA \<Rightarrow> QWORD \<Rightarrow> (STATUS \<times> QWORD) option" where
  "ClusterOfSector fd Sector = do {
     ASSERT (SectorsPerCluster fd \<noteq> 0);
     let Cluster = (Sector - ucast (FirstDataSector fd)) div ucast (SectorsPerCluster fd) + 2;
     Some (if Cluster > ucast (CountOfClusters fd + 1) \<or> Cluster < 2 then STATUS_DEVICE_CLUSTER_INVALID else STATUS_SUCCESS, Cluster)
   }"

text \<open>The sector of the table, the offset of this sector in the volume, and the index in the sector of the entry of a cluster.\<close>

definition FatEntryAt :: "FAT_DATA \<Rightarrow> QWORD \<Rightarrow> (QWORD \<times> QWORD) option" where
  "FatEntryAt fd cluster = do {
     ASSERT (BytesPerSector fd \<noteq> 0 \<and> ucast (BytesPerSector fd) div SIZEOF_FAT32_ENTRY \<noteq> 0);
     let sectorNumber = ucast (ReservedSectors fd) + cluster * SIZEOF_FAT32_ENTRY div ucast (BytesPerSector fd);
     Some (sectorNumber, cluster mod (ucast (BytesPerSector fd) div SIZEOF_FAT32_ENTRY))
   }"

text \<open>\<^verbatim>\<open>pFat32Entries[i] &= ~FAT32_CLUSTER_MASK; pFat32Entries[i] |= v\<close>\<close>

definition FatEntrySet :: "buffer \<Rightarrow> QWORD \<Rightarrow> DWORD \<Rightarrow> buffer" where
  "FatEntrySet buf i w = wr_dword buf (i * SIZEOF_FAT32_ENTRY) ((rd_dword buf (i * SIZEOF_FAT32_ENTRY) AND NOT FAT32_CLUSTER_MASK) OR w)"

definition NextClusterInChain :: "VOLUME_ANSWERS \<Rightarrow> FAT_DATA \<Rightarrow> QWORD \<Rightarrow> VOLUME \<Rightarrow> (STATUS \<times> QWORD \<times> VOLUME) option" where
  "NextClusterInChain env fd CurrentCluster v = do {
     (sectorNumber, indexInSector) \<leftarrow> FatEntryAt fd CurrentCluster;
     let n = ucast (BytesPerSector fd);
     let offset = sectorNumber * n;
     let (ok, v) = ExAllocatePoolWithTag env v;
     if \<not> ok then Some (STATUS_HEAP_NO_MORE_MEMORY, 0, v)
     else do {
       let (status, full, buf, v) = IoReadDevice env n offset zeroed v;
       if \<not> SUCCEEDED status then Some (status, 0, v)
       else do {
         ASSERT full;
         let nextCluster = (ucast (rd_dword buf (indexInSector * SIZEOF_FAT32_ENTRY) AND FAT32_CLUSTER_MASK) :: QWORD);
         if 0 = nextCluster then do {
           let (status, full, v) = IoWriteDevice env n offset (FatEntrySet buf indexInSector FAT32_EOC_MARK) v;
           if \<not> SUCCEEDED status then Some (status, ucast FAT32_EOC_MARK, v)
           else do { ASSERT full; Some (STATUS_SUCCESS, ucast FAT32_EOC_MARK, v) }
         }
         else if ucast FAT32_BAD_CLUSTER = nextCluster then Some (STATUS_SUCCESS, ucast FAT32_EOC_MARK, v)
         else Some (STATUS_SUCCESS, nextCluster, v)
       }
     }
   }"

section \<open>Free clusters\<close>

text \<open>The entries of a sector from \<open>i\<close> on: the first one that is free.\<close>

lemma word_index_measure:
  fixes i n :: QWORD
  assumes "i < n"
  shows "unat n - unat (i + 1) < unat n - unat i"
proof -
  have "unat i < unat n" using assms by (simp add: word_less_nat_alt)
  moreover have "unat i + 1 < 18446744073709551616" using calculation unat_QWORD_less [of n] by linarith
  then have "unat (i + 1) = unat i + 1" using unat_plus_if_small [of i 1] by simp
  ultimately show ?thesis by simp
qed

function FirstFree_index :: "buffer \<Rightarrow> QWORD \<Rightarrow> QWORD \<Rightarrow> QWORD option" where
  "FirstFree_index buf n i =
     (if i < n then if 0 = rd_dword buf (i * SIZEOF_FAT32_ENTRY) AND FAT32_CLUSTER_MASK then Some i else FirstFree_index buf n (i + 1) else None)"
  by auto
termination
  by (relation "measure (\<lambda>(buf, n, i). unat n - unat i)") (auto simp: word_index_measure)

declare FirstFree_index.simps [simp del]

text \<open>The sectors of the table from \<open>currentSector\<close> on. The status is the one of the last request.\<close>

partial_function (option) FirstFree_loop ::
  "VOLUME_ANSWERS \<Rightarrow> FAT_DATA \<Rightarrow> bool \<Rightarrow> QWORD \<Rightarrow> STATUS \<Rightarrow> buffer \<Rightarrow> QWORD \<Rightarrow> QWORD \<Rightarrow> VOLUME \<Rightarrow> (STATUS \<times> QWORD \<times> VOLUME) option" where
  "FirstFree_loop env fd MarkReserved sectorsPerFat status buf currentSector indexInSector v =
     (if \<not> currentSector < sectorsPerFat then Some (status, 0, v)
      else do {
        let n = ucast (BytesPerSector fd);
        let (status, full, buf, v) = IoReadDevice env n (currentSector * n) buf v;
        if \<not> SUCCEEDED status then Some (status, 0, v)
        else do {
          ASSERT full;
          case FirstFree_index buf (n div SIZEOF_FAT32_ENTRY) indexInSector of
            None \<Rightarrow> FirstFree_loop env fd MarkReserved sectorsPerFat status buf (currentSector + 1) 0 v
          | Some i \<Rightarrow> do {
              let (status, full, v) = (if MarkReserved then IoWriteDevice env n (currentSector * n) (FatEntrySet buf i FAT32_EOC_MARK) v else (status, full, v));
              if \<not> SUCCEEDED status then Some (status, 0, v)
              else do {
                ASSERT full;
                let clusterIndex = (currentSector - ucast (ReservedSectors fd)) * (n div SIZEOF_FAT32_ENTRY) + i;
                ASSERT (2 \<le> clusterIndex \<and> clusterIndex < ucast (CountOfClusters fd + 2));
                ASSERT (ucast FAT32_UNKNOWN \<noteq> clusterIndex);
                Some (status, clusterIndex, v)
              }
            }
        }
      })"

definition FirstFreeCluster :: "VOLUME_ANSWERS \<Rightarrow> FAT_DATA \<Rightarrow> QWORD \<Rightarrow> bool \<Rightarrow> VOLUME \<Rightarrow> (STATUS \<times> QWORD \<times> VOLUME) option" where
  "FirstFreeCluster env fd FirstCheckedCluster MarkReserved v = do {
     let (ok, v) = ExAllocatePoolWithTag env v;
     if \<not> ok then Some (STATUS_HEAP_NO_MORE_MEMORY, 0, v)
     else do {
       ASSERT (BytesPerSector fd \<noteq> 0);
       let entriesPerFat = ucast (CountOfClusters fd + 2);
       let sectorsPerFat = entriesPerFat * SIZEOF_FAT32_ENTRY div ucast (BytesPerSector fd);
       if entriesPerFat \<le> FirstCheckedCluster then Some (STATUS_SUCCESS, 0, v)
       else do {
         (currentSector, indexInSector) \<leftarrow> FatEntryAt fd (if ucast FAT32_UNKNOWN = FirstCheckedCluster then 2 else FirstCheckedCluster);
         FirstFree_loop env fd MarkReserved sectorsPerFat STATUS_UNSUCCESSFUL zeroed currentSector indexInSector v
       }
     }
   }"

abbreviation FSI_Free_Count_at :: QWORD where "FSI_Free_Count_at \<equiv> 0x1E8"
abbreviation FSI_Nxt_Free_at :: QWORD where "FSI_Nxt_Free_at \<equiv> 0x1EC"
abbreviation SIZEOF_FSINFO :: QWORD where "SIZEOF_FSINFO \<equiv> 0x200"

text \<open>The loop that counts the free clusters after \<open>freeCluster\<close>. It returns the status and the count.\<close>

partial_function (option) FreeCount_loop :: "VOLUME_ANSWERS \<Rightarrow> FAT_DATA \<Rightarrow> QWORD \<Rightarrow> DWORD \<Rightarrow> VOLUME \<Rightarrow> (STATUS \<times> DWORD \<times> VOLUME) option" where
  "FreeCount_loop env fd freeCluster count v = do {
     (status, freeCluster, v) \<leftarrow> FirstFreeCluster env fd (freeCluster + 1) False v;
     if \<not> SUCCEEDED status then Some (status, count, v)
     else if 0 = freeCluster then Some (status, count, v)
     else FreeCount_loop env fd freeCluster (count + 1) v
   }"

text \<open>
  The body of \<open>_AddNewClusterToChain\<close> up to its \<^verbatim>\<open>__finally\<close>: the cluster that was reserved and the \<open>FSINFO\<close> to be written back. The status is overwritten there.
\<close>

definition AddNewCluster_body :: "VOLUME_ANSWERS \<Rightarrow> FAT_DATA \<Rightarrow> QWORD \<Rightarrow> VOLUME \<Rightarrow> (QWORD \<times> buffer \<times> VOLUME) option" where
  "AddNewCluster_body env fd LastClusterFromChain v = do {
     let n = ucast (BytesPerSector fd);
     let (status, full, fsi, v) = IoReadDevice env SIZEOF_FSINFO (1 * n) zeroed v;
     if \<not> SUCCEEDED status then Some (0, fsi, v)
     else do {
       ASSERT (full \<and> SIZEOF_FSINFO = n);
       if 0 = rd_dword fsi FSI_Free_Count_at then Some (0, wr_dword fsi FSI_Nxt_Free_at FAT32_UNKNOWN, v)
       else do {
         (status, reservedCluster, v) \<leftarrow> FirstFreeCluster env fd (ucast (rd_dword fsi FSI_Nxt_Free_at)) True v;
         if \<not> SUCCEEDED status then Some (reservedCluster, fsi, v)
         else if 0 = reservedCluster then do {
           ASSERT (FAT32_UNKNOWN = rd_dword fsi FSI_Free_Count_at);
           Some (reservedCluster, wr_dword (wr_dword fsi FSI_Free_Count_at 0) FSI_Nxt_Free_at FAT32_UNKNOWN, v)
         }
         else do {
           let (ok, v) = ExAllocatePoolWithTag env v;
           if \<not> ok then Some (reservedCluster, fsi, v)
           else do {
             (sectorFromFat, indexInSector) \<leftarrow> FatEntryAt fd LastClusterFromChain;
             let (status, full, buf, v) = IoReadDevice env n (sectorFromFat * n) zeroed v;
             if \<not> SUCCEEDED status then Some (reservedCluster, fsi, v)
             else do {
               ASSERT full;
               let (status, full, v) = IoWriteDevice env n (sectorFromFat * n) (FatEntrySet buf indexInSector (ucast reservedCluster)) v;
               if \<not> SUCCEEDED status then Some (reservedCluster, fsi, v)
               else do {
                 ASSERT full;
                 let fsi = wr_dword fsi FSI_Nxt_Free_at (ucast reservedCluster);
                 if FAT32_UNKNOWN = rd_dword fsi FSI_Free_Count_at then do {
                   (status, count, v) \<leftarrow> FreeCount_loop env fd reservedCluster 0 v;
                   Some (reservedCluster, wr_dword fsi FSI_Free_Count_at count, v)
                 }
                 else Some (reservedCluster, wr_dword fsi FSI_Free_Count_at (rd_dword fsi FSI_Free_Count_at - 1), v)
               }
             }
           }
         }
       }
     }
   }"

text \<open>When there is no memory for the \<open>FSINFO\<close>, writing it back in \<^verbatim>\<open>__finally\<close> halts on its null buffer.\<close>

definition AddNewClusterToChain :: "VOLUME_ANSWERS \<Rightarrow> FAT_DATA \<Rightarrow> QWORD \<Rightarrow> VOLUME \<Rightarrow> (STATUS \<times> QWORD \<times> VOLUME) option" where
  "AddNewClusterToChain env fd LastClusterFromChain v = do {
     ASSERT (\<not> FAT32_EOC LastClusterFromChain);
     let (ok, v) = ExAllocatePoolWithTag env v;
     ASSERT ok;
     (reservedCluster, fsi, v) \<leftarrow> AddNewCluster_body env fd LastClusterFromChain v;
     let (status, full, v) = IoWriteDevice env SIZEOF_FSINFO (1 * ucast (BytesPerSector fd)) fsi v;
     ASSERT (full \<and> SIZEOF_FSINFO = ucast (BytesPerSector fd));
     Some (status, reservedCluster, v)
   }"

text \<open>The next sector is 0 at the end of the chain. When the function fails it is not stored.\<close>

definition NextSectorInClusterChain :: "VOLUME_ANSWERS \<Rightarrow> FAT_DATA \<Rightarrow> QWORD \<Rightarrow> bool \<Rightarrow> VOLUME \<Rightarrow> (STATUS \<times> QWORD option \<times> VOLUME) option" where
  "NextSectorInClusterChain env fd CurrentSector ExtendChain v = do {
     (status, currentCluster) \<leftarrow> ClusterOfSector fd CurrentSector;
     if \<not> SUCCEEDED status then Some (status, None, v)
     else do {
       (status, nextCluster, v) \<leftarrow> NextClusterInChain env fd currentCluster v;
       if \<not> SUCCEEDED status then Some (status, None, v)
       else if FAT32_EOC nextCluster \<and> \<not> ExtendChain then Some (status, Some 0, v)
       else do {
         (status, nextCluster, v) \<leftarrow> (if FAT32_EOC nextCluster then AddNewClusterToChain env fd currentCluster v else Some (status, nextCluster, v));
         if \<not> SUCCEEDED status then Some (status, None, v)
         else (case FirstSectorOfCluster fd nextCluster of (status, s) \<Rightarrow> Some (status, s, v))
       }
     }
   }"

section \<open>Dates and names\<close>

text \<open>A field of a date or a time keeps as many bits of an assigned value as it has.\<close>

record FATDATE =
  FatDay :: WORD
  FatMonth :: WORD
  FatYear :: WORD

record FATTIME =
  FatSecond :: WORD
  FatMinute :: WORD
  FatHour :: WORD

definition FATDATE_of :: "WORD \<Rightarrow> FATDATE" where
  "FATDATE_of w = \<lparr>FatDay = take_bit 5 w, FatMonth = take_bit 4 (drop_bit 5 w), FatYear = take_bit 7 (drop_bit 9 w)\<rparr>"

definition WORD_of_FATDATE :: "FATDATE \<Rightarrow> WORD" where
  "WORD_of_FATDATE d = FatDay d OR push_bit 5 (FatMonth d) OR push_bit 9 (FatYear d)"

definition FATTIME_of :: "WORD \<Rightarrow> FATTIME" where
  "FATTIME_of w = \<lparr>FatSecond = take_bit 5 w, FatMinute = take_bit 6 (drop_bit 5 w), FatHour = take_bit 5 (drop_bit 11 w)\<rparr>"

definition WORD_of_FATTIME :: "FATTIME \<Rightarrow> WORD" where
  "WORD_of_FATTIME t = FatSecond t OR push_bit 5 (FatMinute t) OR push_bit 11 (FatHour t)"

definition ConvertFatDateToDate :: "FATDATE \<Rightarrow> DATE \<Rightarrow> STATUS \<times> DATE" where
  "ConvertFatDateToDate FatDate RealDate = (
     let RealDate = RealDate\<lparr>DateDay := ucast (FatDay FatDate)\<rparr> in
     if DateDay RealDate < 1 \<or> DateDay RealDate > 31 then (STATUS_TIME_INVALID, RealDate)
     else let RealDate = RealDate\<lparr>DateMonth := ucast (FatMonth FatDate)\<rparr> in
     if DateMonth RealDate < 1 \<or> DateMonth RealDate > 12 then (STATUS_TIME_INVALID, RealDate)
     else (STATUS_SUCCESS, RealDate\<lparr>DateYear := FatYear FatDate + 1980\<rparr>))"

definition ConvertFatTimeToTime :: "FATTIME \<Rightarrow> TIME \<Rightarrow> STATUS \<times> TIME" where
  "ConvertFatTimeToTime FatTime RealTime = (
     let RealTime = RealTime\<lparr>TimeSecond := ucast (FatSecond FatTime)\<rparr> in
     if TimeSecond RealTime < 0 \<or> TimeSecond RealTime > 29 then (STATUS_TIME_INVALID, RealTime)
     else let RealTime = RealTime\<lparr>TimeSecond := TimeSecond RealTime * 2, TimeMinute := ucast (FatMinute FatTime)\<rparr> in
     if TimeMinute RealTime < 0 \<or> TimeMinute RealTime > 59 then (STATUS_TIME_INVALID, RealTime)
     else let RealTime = RealTime\<lparr>TimeHour := ucast (FatHour FatTime)\<rparr> in
     if TimeHour RealTime < 0 \<or> TimeHour RealTime > 23 then (STATUS_TIME_INVALID, RealTime)
     else (STATUS_SUCCESS, RealTime))"

definition ConvertFatDateTimeToDateTime :: "FATDATE \<Rightarrow> FATTIME \<Rightarrow> DATETIME \<Rightarrow> STATUS \<times> DATETIME" where
  "ConvertFatDateTimeToDateTime FatDate FatTime DateTime = (
     let (status, d) = ConvertFatDateToDate FatDate (DatePart DateTime); DateTime = DateTime\<lparr>DatePart := d\<rparr> in
     if \<not> SUCCEEDED status then (status, DateTime)
     else let (status, t) = ConvertFatTimeToTime FatTime (TimePart DateTime) in (status, DateTime\<lparr>TimePart := t\<rparr>))"

definition ConvertDateToFatDate :: "DATE \<Rightarrow> FATDATE" where
  "ConvertDateToFatDate RealDate =
     \<lparr>FatDay = take_bit 5 (ucast (DateDay RealDate)), FatMonth = take_bit 4 (ucast (DateMonth RealDate)), FatYear = take_bit 7 (DateYear RealDate - 1980)\<rparr>"

definition ConvertTimeToFatTime :: "TIME \<Rightarrow> FATTIME" where
  "ConvertTimeToFatTime RealTime =
     \<lparr>FatSecond = take_bit 5 (ucast (TimeSecond RealTime div 2)), FatMinute = take_bit 6 (ucast (TimeMinute RealTime)), FatHour = take_bit 5 (ucast (TimeHour RealTime))\<rparr>"

definition ConvertDateTimeToFatDateTime :: "DATETIME \<Rightarrow> FATDATE \<times> FATTIME" where
  "ConvertDateTimeToFatDateTime DateTime = (ConvertDateToFatDate (DatePart DateTime), ConvertTimeToFatTime (TimePart DateTime))"

text \<open>
  A short name: the index where the trailing spaces of the first 8 characters start, and the number of characters of the extension before a space. The
  result is the status, the length and the text that is written to the buffer.
\<close>

primrec LastSpace_loop :: "BYTE list \<Rightarrow> nat \<Rightarrow> nat \<Rightarrow> nat" where
  "LastSpace_loop [] i lastSpaceIndex = lastSpaceIndex"
| "LastSpace_loop (c # cs) i lastSpaceIndex =
     LastSpace_loop cs (Suc i) (if c = 0x20 then if lastSpaceIndex > i then i else lastSpaceIndex else 8)"

definition ConvertFatNameToName :: "BYTE list \<Rightarrow> DWORD \<Rightarrow> STATUS \<times> nat \<times> BYTE list" where
  "ConvertFatNameToName FatName BufferSize = (
     let normalName = takeWhile (\<lambda>c. c \<noteq> 0) (take (LastSpace_loop (take 8 FatName) 0 8) FatName);
         ext = takeWhile (\<lambda>c. c \<noteq> 0x20) (take 3 (drop 8 FatName));
         i = length ext;
         nameLen = length normalName + i + (if 0 \<noteq> i then 1 else 0) in
     if unat BufferSize \<le> nameLen then (STATUS_BUFFER_TOO_SMALL, nameLen, [])
     else (STATUS_SUCCESS, nameLen, if 0 = i then normalName else normalName @ 0x2E # takeWhile (\<lambda>c. c \<noteq> 0) ext))"

text \<open>A part of a long name: 13 characters of two bytes each in three pieces of the entry.\<close>

abbreviation LONG_NAME_ORD_END_MASK :: BYTE where "LONG_NAME_ORD_END_MASK \<equiv> 0x40"
abbreviation LONG_NAME_TOTAL_CHARS :: DWORD where "LONG_NAME_TOTAL_CHARS \<equiv> 13"

definition LongNameChars :: "BYTE list \<Rightarrow> BYTE list" where
  "LongNameChars LongDirEntry = map (\<lambda>k. LongDirEntry ! k) [1, 3, 5, 7, 9, 14, 16, 18, 20, 22, 24, 28, 30]"

text \<open>The loop over the characters: the status, the index and the buffer, and whether all was written.\<close>

primrec LongName_loop :: "BYTE list \<Rightarrow> DWORD \<Rightarrow> DWORD \<Rightarrow> BYTE list \<Rightarrow> (STATUS \<times> DWORD \<times> BYTE list) option" where
  "LongName_loop [] BufferSize bufferWriteIndex Buffer = Some (STATUS_SUCCESS, bufferWriteIndex, Buffer)"
| "LongName_loop (c # cs) BufferSize bufferWriteIndex Buffer =
     (if 0 = c then Some (STATUS_SUCCESS, bufferWriteIndex, Buffer)
      else if BufferSize - 1 \<le> bufferWriteIndex then Some (STATUS_BUFFER_TOO_SMALL, bufferWriteIndex, Buffer)
      else do {
        Buffer \<leftarrow> wr_at Buffer (unat bufferWriteIndex) c;
        LongName_loop cs BufferSize (bufferWriteIndex + 1) Buffer
      })"

definition WritePartialLongFatNameToName :: "BYTE list \<Rightarrow> DWORD \<Rightarrow> BYTE list \<Rightarrow> (STATUS \<times> BYTE list) option" where
  "WritePartialLongFatNameToName LongDirEntry BufferSize Buffer = do {
     ASSERT (0 \<noteq> BufferSize);
     let LDIR_Ord = LongDirEntry ! 0;
     let entryOrdinal = ucast (LDIR_Ord AND NOT LONG_NAME_ORD_END_MASK) - 1;
     (status, bufferWriteIndex, Buffer) \<leftarrow> LongName_loop (LongNameChars LongDirEntry) BufferSize (LONG_NAME_TOTAL_CHARS * entryOrdinal) Buffer;
     if status \<noteq> STATUS_SUCCESS then Some (status, Buffer)
     else if IsBooleanFlagOn LDIR_Ord LONG_NAME_ORD_END_MASK then do {
       Buffer \<leftarrow> wr_at Buffer (unat bufferWriteIndex) 0;
       Some (status, Buffer)
     }
     else Some (status, Buffer)
   }"

section \<open>Directory entries\<close>

abbreviation SIZEOF_DIR_ENTRY :: QWORD where "SIZEOF_DIR_ENTRY \<equiv> 0x20"
abbreviation FREE_ENTRY :: BYTE where "FREE_ENTRY \<equiv> 0xE5"
abbreviation FREE_JAP_ENTRY :: BYTE where "FREE_JAP_ENTRY \<equiv> 0x05"
abbreviation ATTR_LONG_NAME :: BYTE where "ATTR_LONG_NAME \<equiv> 0x0F"
abbreviation ATTR_LONG_NAME_MASK :: BYTE where "ATTR_LONG_NAME_MASK \<equiv> 0x3F"
abbreviation DIR_Attr_at :: QWORD where "DIR_Attr_at \<equiv> 0xB"
abbreviation DIR_LstAccDate_at :: QWORD where "DIR_LstAccDate_at \<equiv> 0x12"
abbreviation DIR_FstClusHI_at :: QWORD where "DIR_FstClusHI_at \<equiv> 0x14"
abbreviation DIR_WrtTime_at :: QWORD where "DIR_WrtTime_at \<equiv> 0x16"
abbreviation DIR_WrtDate_at :: QWORD where "DIR_WrtDate_at \<equiv> 0x18"
abbreviation DIR_FstClusLO_at :: QWORD where "DIR_FstClusLO_at \<equiv> 0x1A"
abbreviation DIR_FileSize_at :: QWORD where "DIR_FileSize_at \<equiv> 0x1C"

definition WORDS_TO_DWORD :: "WORD \<Rightarrow> WORD \<Rightarrow> DWORD" where
  "WORDS_TO_DWORD x y = push_bit 16 (ucast x) OR ucast y"

definition DirEntryCluster :: "buffer \<Rightarrow> QWORD \<Rightarrow> DWORD" where
  "DirEntryCluster buf base = WORDS_TO_DWORD (rd_word buf (base + DIR_FstClusHI_at)) (rd_word buf (base + DIR_FstClusLO_at))"

text \<open>The entries of a cluster of a directory from \<open>index\<close> on: the first one in use, with a short name, whose file starts at the given cluster.\<close>

function DirEntry_loop :: "buffer \<Rightarrow> QWORD \<Rightarrow> QWORD \<Rightarrow> QWORD \<Rightarrow> QWORD option" where
  "DirEntry_loop buf count cluster index =
     (if index < count then let base = index * SIZEOF_DIR_ENTRY in
        if FREE_ENTRY = buf base \<or> FREE_JAP_ENTRY = buf base then DirEntry_loop buf count cluster (index + 1)
        else if buf (base + DIR_Attr_at) AND ATTR_LONG_NAME_MASK = ATTR_LONG_NAME then DirEntry_loop buf count cluster (index + 1)
        else if cluster = ucast (DirEntryCluster buf base) then Some index
        else DirEntry_loop buf count cluster (index + 1)
      else None)"
  by auto
termination
  by (relation "measure (\<lambda>(buf, count, cluster, index). unat count - unat index)") (auto simp: word_index_measure)

declare DirEntry_loop.simps [simp del]

definition GetDirEntryFromSector :: "VOLUME_ANSWERS \<Rightarrow> FAT_DATA \<Rightarrow> QWORD \<Rightarrow> QWORD \<Rightarrow> VOLUME \<Rightarrow> (STATUS \<times> QWORD \<times> buffer \<times> VOLUME) option" where
  "GetDirEntryFromSector env fd EntrySector DirFirstSector v = do {
     let bytesToRead = (ucast (BytesPerSector fd * SectorsPerCluster fd) :: QWORD);
     let (ok, v) = ExAllocatePoolWithTag env v;
     if \<not> ok then Some (STATUS_HEAP_NO_MORE_MEMORY, 0, zeroed, v)
     else do {
       let (status, full, buf, v) = IoReadDevice env bytesToRead (EntrySector * ucast (BytesPerSector fd)) zeroed v;
       if \<not> SUCCEEDED status then Some (status, 0, zeroed, v)
       else do {
         ASSERT full;
         (status, dirFstClusterToSearch) \<leftarrow> ClusterOfSector fd DirFirstSector;
         if \<not> SUCCEEDED status then Some (status, 0, zeroed, v)
         else (case DirEntry_loop buf (bytesToRead div SIZEOF_DIR_ENTRY) dirFstClusterToSearch 0 of
             Some index \<Rightarrow> Some (STATUS_SUCCESS, index, \<lambda>i. if i < SIZEOF_DIR_ENTRY then buf (index * SIZEOF_DIR_ENTRY + i) else 0, v)
           | None \<Rightarrow> Some (STATUS_ELEMENT_NOT_FOUND, ucast MAX_DWORD, zeroed, v))
       }
     }
   }"

text \<open>An index outside of the cluster is an access outside of the buffer.\<close>

definition WriteDirEntryToSector :: "VOLUME_ANSWERS \<Rightarrow> FAT_DATA \<Rightarrow> QWORD \<Rightarrow> QWORD \<Rightarrow> buffer \<Rightarrow> VOLUME \<Rightarrow> (STATUS \<times> VOLUME) option" where
  "WriteDirEntryToSector env fd EntrySector EntryIndex DirEntry v = do {
     let bytesToReadWrite = (ucast (BytesPerSector fd * SectorsPerCluster fd) :: QWORD);
     let offset = EntrySector * ucast (BytesPerSector fd);
     let (ok, v) = ExAllocatePoolWithTag env v;
     if \<not> ok then Some (STATUS_HEAP_NO_MORE_MEMORY, v)
     else do {
       let (status, full, buf, v) = IoReadDevice env bytesToReadWrite offset zeroed v;
       if \<not> SUCCEEDED status then Some (status, v)
       else do {
         ASSERT full;
         ASSERT (EntryIndex < bytesToReadWrite div SIZEOF_DIR_ENTRY);
         let base = EntryIndex * SIZEOF_DIR_ENTRY;
         let (status, full, v) = IoWriteDevice env bytesToReadWrite offset (\<lambda>i. if i - base < SIZEOF_DIR_ENTRY then DirEntry (i - base) else buf i) v;
         if \<not> SUCCEEDED status then Some (status, v)
         else do { ASSERT full; Some (STATUS_SUCCESS, v) }
       }
     }
   }"

section \<open>Reading and writing files\<close>

text \<open>The loop that skips the clusters before the offset. The result is the status and the first sector of the cluster that is reached.\<close>

partial_function (option) FatTraverse_loop :: "VOLUME_ANSWERS \<Rightarrow> FAT_DATA \<Rightarrow> QWORD \<Rightarrow> bool \<Rightarrow> QWORD \<Rightarrow> QWORD \<Rightarrow> VOLUME \<Rightarrow> (STATUS \<times> QWORD \<times> VOLUME) option" where
  "FatTraverse_loop env fd SectorOffset ExtendChain currentSector sectorsTraversed v =
     (if sectorsTraversed + ucast (SectorsPerCluster fd) \<le> SectorOffset then do {
        ASSERT (SectorOffset \<ge> ucast (SectorsPerCluster fd));
        (status, nextSector, v) \<leftarrow> NextSectorInClusterChain env fd currentSector ExtendChain v;
        if \<not> SUCCEEDED status then Some (status, currentSector, v)
        else FatTraverse_loop env fd SectorOffset ExtendChain (case nextSector of Some s \<Rightarrow> s | None \<Rightarrow> 0) (sectorsTraversed + ucast (SectorsPerCluster fd)) v
      }
      else Some (STATUS_SUCCESS, currentSector, v))"

text \<open>The loop that reads the rest of the current cluster and goes on to the next one; \<open>pData\<close> is an offset in the buffer.\<close>

partial_function (option) FatRead_loop ::
  "VOLUME_ANSWERS \<Rightarrow> FAT_DATA \<Rightarrow> QWORD \<Rightarrow> QWORD \<Rightarrow> QWORD \<Rightarrow> QWORD \<Rightarrow> buffer \<Rightarrow> VOLUME \<Rightarrow> (STATUS \<times> QWORD \<times> buffer \<times> VOLUME) option" where
  "FatRead_loop env fd currentSector sectorsToRead sectorsRemaining pData Buffer v = do {
     let n = ucast (BytesPerSector fd);
     let bytesToRead = sectorsToRead * n;
     let (status, full, chunk, v) = IoReadDevice env bytesToRead (currentSector * n) (\<lambda>i. Buffer (pData + i)) v;
     if \<not> SUCCEEDED status then Some (status, sectorsRemaining, Buffer, v)
     else do {
       ASSERT full;
       let Buffer = (\<lambda>i. chunk (i - pData));
       let sectorsRemaining = sectorsRemaining - sectorsToRead;
       if 0 = sectorsRemaining then Some (status, sectorsRemaining, Buffer, v)
       else do {
         (status, nextSector, v) \<leftarrow> NextSectorInClusterChain env fd currentSector False v;
         if \<not> SUCCEEDED status then Some (status, sectorsRemaining, Buffer, v)
         else (case nextSector of
             None \<Rightarrow> Some (status, sectorsRemaining, Buffer, v)
           | Some s \<Rightarrow> if 0 = s then Some (status, sectorsRemaining, Buffer, v)
               else FatRead_loop env fd s (min (ucast (SectorsPerCluster fd)) sectorsRemaining) sectorsRemaining (pData + bytesToRead) Buffer v)
       }
     }
   }"

text \<open>The number of sectors is only stored when there is nothing to read and at the end.\<close>

definition FatReadFile :: "VOLUME_ANSWERS \<Rightarrow> FAT_DATA \<Rightarrow> QWORD \<Rightarrow> QWORD \<Rightarrow> QWORD \<Rightarrow> buffer \<Rightarrow> QWORD \<Rightarrow> VOLUME \<Rightarrow> (STATUS \<times> QWORD option \<times> buffer \<times> VOLUME) option" where
  "FatReadFile env fd BaseFileSector SectorOffset DirEntrySector Buffer SectorsToRead v = do {
     ASSERT (IsAddressAligned BaseFileSector (ucast (SectorsPerCluster fd)));
     if 0 = SectorsToRead then Some (STATUS_SUCCESS, Some 0, Buffer, v)
     else do {
       (status, currentSector, v) \<leftarrow> FatTraverse_loop env fd SectorOffset False BaseFileSector 0 v;
       if \<not> SUCCEEDED status then Some (status, None, Buffer, v)
       else do {
         ASSERT (0 \<noteq> currentSector);
         ASSERT (SectorsPerCluster fd \<noteq> 0);
         let inCluster = SectorOffset mod ucast (SectorsPerCluster fd);
         (status, sectorsRemaining, Buffer, v) \<leftarrow> FatRead_loop env fd (currentSector + inCluster)
           (min SectorsToRead (ucast (SectorsPerCluster fd) - inCluster)) SectorsToRead 0 Buffer v;
         if \<not> SUCCEEDED status then Some (status, None, Buffer, v)
         else do {
           (status, dirEntryIndex, dirEntry, v) \<leftarrow> GetDirEntryFromSector env fd DirEntrySector BaseFileSector v;
           if \<not> SUCCEEDED status then Some (status, None, Buffer, v)
           else do {
             let (fatDate, fatTime) = ConvertDateTimeToFatDateTime (IoGetCurrentDateTime env (VolumeCalls v));
             let dirEntry = wr_word dirEntry DIR_LstAccDate_at (WORD_of_FATDATE fatDate);
             (status, v) \<leftarrow> WriteDirEntryToSector env fd DirEntrySector dirEntryIndex dirEntry v;
             if \<not> SUCCEEDED status then Some (status, None, Buffer, v)
             else Some (status, Some (SectorsToRead - sectorsRemaining), Buffer, v)
           }
         }
       }
     }
   }"

text \<open>Writing extends the chain of clusters when it ends.\<close>

partial_function (option) FatWrite_loop ::
  "VOLUME_ANSWERS \<Rightarrow> FAT_DATA \<Rightarrow> QWORD \<Rightarrow> QWORD \<Rightarrow> QWORD \<Rightarrow> QWORD \<Rightarrow> buffer \<Rightarrow> VOLUME \<Rightarrow> (STATUS \<times> VOLUME) option" where
  "FatWrite_loop env fd currentSector sectorsToWrite sectorsRemaining pData Buffer v = do {
     let n = ucast (BytesPerSector fd);
     let bytesToWrite = sectorsToWrite * n;
     let (status, full, v) = IoWriteDevice env bytesToWrite (currentSector * n) (\<lambda>i. Buffer (pData + i)) v;
     if \<not> SUCCEEDED status then Some (status, v)
     else do {
       ASSERT full;
       let sectorsRemaining = sectorsRemaining - sectorsToWrite;
       if 0 = sectorsRemaining then Some (status, v)
       else do {
         (status, nextSector, v) \<leftarrow> NextSectorInClusterChain env fd currentSector True v;
         if \<not> SUCCEEDED status then Some (status, v)
         else FatWrite_loop env fd (case nextSector of Some s \<Rightarrow> s | None \<Rightarrow> 0) (min (ucast (SectorsPerCluster fd)) sectorsRemaining) sectorsRemaining
           (pData + bytesToWrite) Buffer v
       }
     }
   }"

definition FatWriteFile :: "VOLUME_ANSWERS \<Rightarrow> FAT_DATA \<Rightarrow> QWORD \<Rightarrow> QWORD \<Rightarrow> QWORD \<Rightarrow> buffer \<Rightarrow> QWORD \<Rightarrow> VOLUME \<Rightarrow> (STATUS \<times> QWORD option \<times> VOLUME) option" where
  "FatWriteFile env fd BaseFileSector SectorOffset DirEntrySector Buffer SectorsToWrite v = do {
     ASSERT (IsAddressAligned BaseFileSector (ucast (SectorsPerCluster fd)));
     if 0 = SectorsToWrite then Some (STATUS_SUCCESS, Some 0, v)
     else do {
       (status, currentSector, v) \<leftarrow> FatTraverse_loop env fd SectorOffset True BaseFileSector 0 v;
       if \<not> SUCCEEDED status then Some (status, None, v)
       else do {
         ASSERT (0 \<noteq> currentSector);
         ASSERT (SectorsPerCluster fd \<noteq> 0);
         let inCluster = SectorOffset mod ucast (SectorsPerCluster fd);
         (status, v) \<leftarrow> FatWrite_loop env fd (currentSector + inCluster)
           (min SectorsToWrite (ucast (SectorsPerCluster fd) - inCluster)) SectorsToWrite 0 Buffer v;
         if \<not> SUCCEEDED status then Some (status, None, v)
         else do {
           (status, dirEntryIndex, dirEntry, v) \<leftarrow> GetDirEntryFromSector env fd DirEntrySector BaseFileSector v;
           if \<not> SUCCEEDED status then Some (status, None, v)
           else do {
             let nextByteToWrite = ucast (SectorOffset + SectorsToWrite) * BytesPerSector fd;
             let dirEntry = (if nextByteToWrite > rd_dword dirEntry DIR_FileSize_at then wr_dword dirEntry DIR_FileSize_at nextByteToWrite else dirEntry);
             let (fatDate, fatTime) = ConvertDateTimeToFatDateTime (IoGetCurrentDateTime env (VolumeCalls v));
             let dirEntry = wr_word dirEntry DIR_LstAccDate_at (WORD_of_FATDATE fatDate);
             let dirEntry = wr_word dirEntry DIR_WrtDate_at (WORD_of_FATDATE fatDate);
             let dirEntry = wr_word dirEntry DIR_WrtTime_at (WORD_of_FATTIME fatTime);
             (status, v) \<leftarrow> WriteDirEntryToSector env fd DirEntrySector dirEntryIndex dirEntry v;
             if \<not> SUCCEEDED status then Some (status, None, v)
             else Some (status, Some SectorsToWrite, v)
           }
         }
       }
     }
   }"

section \<open>Mounting\<close>

abbreviation FAT12_MAX_CLUSTERS :: DWORD where "FAT12_MAX_CLUSTERS \<equiv> 4085"
abbreviation FAT16_MAX_CLUSTERS :: DWORD where "FAT16_MAX_CLUSTERS \<equiv> 65525"
abbreviation MBR_BOOT_SIGNATURE :: WORD where "MBR_BOOT_SIGNATURE \<equiv> 0xAA55"

text \<open>The boot sector has its fields at these offsets: sector size 11, cluster size 13, reserved sectors 14, tables 16, sectors 19 and 32, size of a table 22 and 36, root cluster 44.\<close>

definition FatInitVolume :: "VOLUME_ANSWERS \<Rightarrow> FAT_DATA \<Rightarrow> VOLUME \<Rightarrow> (STATUS \<times> FAT_DATA \<times> VOLUME) option" where
  "FatInitVolume env fd v = do {
     let (status, full, bpb, v) = IoReadDevice env 0x200 0 zeroed v;
     if \<not> SUCCEEDED status then Some (status, fd, v)
     else if MBR_BOOT_SIGNATURE \<noteq> rd_word bpb 510 then Some (STATUS_DISK_MBR_NOT_PRESENT, fd, v)
     else do {
       let fatSize = (if 0 \<noteq> rd_word bpb 22 then ucast (rd_word bpb 22) else rd_dword bpb 36);
       let totalSectors = (if 0 \<noteq> rd_word bpb 19 then ucast (rd_word bpb 19) else rd_dword bpb 32);
       let RsvdSecCnt = (ucast (rd_word bpb 14) :: DWORD);
       let NumFATs = (ucast (bpb 16) :: DWORD);
       let dataSectors = totalSectors - (RsvdSecCnt + NumFATs * fatSize);
       ASSERT (bpb 13 \<noteq> 0);
       let fd = fd\<lparr>CountOfClusters := dataSectors div ucast (bpb 13)\<rparr>;
       if CountOfClusters fd < FAT12_MAX_CLUSTERS then Some (STATUS_DEVICE_FILESYSTEM_UNSUPPORTED, fd, v)
       else if CountOfClusters fd < FAT16_MAX_CLUSTERS then Some (STATUS_DEVICE_FILESYSTEM_UNSUPPORTED, fd, v)
       else do {
         let fd = fd\<lparr>FirstDataSector := RsvdSecCnt + NumFATs * fatSize, SectorsPerCluster := ucast (bpb 13)\<rparr>;
         let (status, root) = FirstSectorOfCluster fd (ucast (rd_dword bpb 44));
         let fd = (case root of Some s \<Rightarrow> fd\<lparr>RootDirectoryStartSector := s\<rparr> | None \<Rightarrow> fd);
         if \<not> SUCCEEDED status then Some (status, fd, v)
         else do {
           let fd = fd\<lparr>EntriesPerSector := ucast (rd_word bpb 11) div 0x20, ReservedSectors := RsvdSecCnt, BytesPerSector := ucast (rd_word bpb 11)\<rparr>;
           let fd = fd\<lparr>AllocationSize := SectorsPerCluster fd * BytesPerSector fd\<rparr>;
           ASSERT (DeviceAlignment env \<le> AllocationSize fd);
           Some (status, fd, v)
         }
       }
     }
   }"

end
