(* ===== verification/Fat32Props.thy ===== *)
theory Fat32Props
  imports Fat32
begin

text \<open>
  What the FAT32 file system does to a volume: the clusters and sectors of a volume of sound geometry, following a chain in the allocation table,
  reading and writing a file over all its clusters, and the dates of a directory entry.
\<close>

section \<open>Geometry\<close>

text \<open>The sizes of a volume as natural numbers, and what is required of them: the table lies before the data, and all sectors have 32-bit numbers.\<close>

abbreviation bps :: "FAT_DATA \<Rightarrow> nat" where "bps fd \<equiv> unat (BytesPerSector fd)"
abbreviation spc :: "FAT_DATA \<Rightarrow> nat" where "spc fd \<equiv> unat (SectorsPerCluster fd)"
abbreviation clusters :: "FAT_DATA \<Rightarrow> nat" where "clusters fd \<equiv> unat (CountOfClusters fd)"

definition geometry :: "FAT_DATA \<Rightarrow> bool" where
  "geometry fd \<longleftrightarrow> 512 \<le> bps fd \<and> bps fd \<le> 4096 \<and> 32 dvd bps fd \<and> 0 < spc fd \<and> spc fd \<le> 128 \<and> clusters fd \<le> 0xFFFFFF5
     \<and> unat (FirstDataSector fd) + clusters fd * spc fd < 4294967296 \<and> 0 < unat (ReservedSectors fd)
     \<and> unat (ReservedSectors fd) * bps fd + 4 * (clusters fd + 2) \<le> unat (FirstDataSector fd) * bps fd"

definition valid :: "FAT_DATA \<Rightarrow> nat \<Rightarrow> bool" where "valid fd k \<longleftrightarrow> 2 \<le> k \<and> k \<le> clusters fd + 1"

definition sector_of :: "FAT_DATA \<Rightarrow> nat \<Rightarrow> nat" where "sector_of fd k = unat (FirstDataSector fd) + (k - 2) * spc fd"

definition entry_addr :: "FAT_DATA \<Rightarrow> nat \<Rightarrow> nat" where "entry_addr fd k = unat (ReservedSectors fd) * bps fd + 4 * k"

definition fat_next :: "buffer \<Rightarrow> FAT_DATA \<Rightarrow> nat \<Rightarrow> DWORD" where
  "fat_next bytes fd k = rd_dword bytes (of_nat (entry_addr fd k)) AND FAT32_CLUSTER_MASK"

lemma geometryD:
  assumes "geometry fd"
  shows "512 \<le> bps fd" "bps fd \<le> 4096" "32 dvd bps fd" "0 < spc fd" "spc fd \<le> 128" "clusters fd \<le> 0xFFFFFF5"
    "unat (FirstDataSector fd) + clusters fd * spc fd < 4294967296" "0 < unat (ReservedSectors fd)"
    "unat (ReservedSectors fd) * bps fd + 4 * (clusters fd + 2) \<le> unat (FirstDataSector fd) * bps fd"
  using assms by (simp_all add: geometry_def)

lemma unat_nat_QWORD: "n < 18446744073709551616 \<Longrightarrow> unat (of_nat n :: QWORD) = n"
  by (simp add: unat_of_nat)

lemma ucast_of_nat: "(ucast (x :: DWORD) :: QWORD) = of_nat (unat x)"
  by simp

lemma sector_bound:
  assumes "geometry fd" "valid fd k" "j < spc fd"
  shows "sector_of fd k + j < 4294967296" "sector_of fd k + j < unat (FirstDataSector fd) + clusters fd * spc fd"
proof -
  have "(k - 2 + 1) * spc fd \<le> clusters fd * spc fd" using assms(2) by (intro mult_le_mono1) (auto simp: valid_def)
  then have "(k - 2) * spc fd + j < clusters fd * spc fd" using assms(3) by (simp add: algebra_simps)
  then show "sector_of fd k + j < unat (FirstDataSector fd) + clusters fd * spc fd" by (simp add: sector_of_def)
  then show "sector_of fd k + j < 4294967296" using geometryD(7) [OF assms(1)] by linarith
qed

lemma count_plus:
  assumes "geometry fd"
  shows "(ucast (CountOfClusters fd + 1) :: QWORD) = of_nat (clusters fd + 1)" "(ucast (CountOfClusters fd + 2) :: QWORD) = of_nat (clusters fd + 2)"
proof -
  have "unat (CountOfClusters fd + 1) = clusters fd + 1" "unat (CountOfClusters fd + 2) = clusters fd + 2"
    using geometryD(6) [OF assms] by (simp_all add: unat_plus_if_small)
  then show "(ucast (CountOfClusters fd + 1) :: QWORD) = of_nat (clusters fd + 1)" "(ucast (CountOfClusters fd + 2) :: QWORD) = of_nat (clusters fd + 2)"
    by (simp_all only: ucast_of_nat)
qed

text \<open>From a cluster to its first sector and from a sector back to its cluster.\<close>

lemma FirstSectorOfCluster_ok:
  assumes g: "geometry fd" and k: "valid fd k"
  shows "FirstSectorOfCluster fd (of_nat k) = (STATUS_SUCCESS, Some (of_nat (sector_of fd k)))"
proof -
  have kb: "k < 18446744073709551616" "2 \<le> k" "k \<le> clusters fd + 1" using k geometryD(6) [OF g] by (auto simp: valid_def)
  have c: "clusters fd + 1 < 18446744073709551616" using geometryD(6) [OF g] by simp
  have "\<not> of_nat k > (of_nat (clusters fd + 1) :: QWORD)" "\<not> of_nat k < (2 :: QWORD)"
    using kb unat_nat_QWORD [OF kb(1)] unat_nat_QWORD [OF c] by (simp_all add: word_less_nat_alt)
  moreover have "(of_nat k - 2 :: QWORD) = of_nat (k - 2)" using kb(2) by simp
  ultimately show ?thesis unfolding FirstSectorOfCluster_def count_plus(1) [OF g] by (simp add: sector_of_def)
qed

lemma ClusterOfSector_ok:
  assumes g: "geometry fd" and k: "valid fd k" and j: "j < spc fd"
  shows "ClusterOfSector fd (of_nat (sector_of fd k + j)) = Some (STATUS_SUCCESS, of_nat k)"
proof -
  have kb: "k < 18446744073709551616" "2 \<le> k" "k \<le> clusters fd + 1" using k geometryD(6) [OF g] by (auto simp: valid_def)
  have c: "clusters fd + 1 < 18446744073709551616" using geometryD(6) [OF g] by simp
  let ?q = "(k - 2) * spc fd + j"
  have q: "?q < 18446744073709551616" using sector_bound(1) [OF g k j] by (simp add: sector_of_def)
  have "(of_nat (sector_of fd k + j) - ucast (FirstDataSector fd) :: QWORD) = of_nat ?q" by (simp add: sector_of_def)
  moreover have "(of_nat ?q div ucast (SectorsPerCluster fd) :: QWORD) = of_nat (k - 2)"
  proof -
    have "unat (of_nat ?q div ucast (SectorsPerCluster fd) :: QWORD) = ?q div spc fd" unfolding unat_div unat_nat_QWORD [OF q] unat_ucast_QWORD ..
    also have "\<dots> = k - 2" using j by simp
    finally show ?thesis using kb(1) unat_nat_QWORD [of "k - 2"] by (simp only: word_unat_eq_iff)
  qed
  ultimately have "(of_nat (sector_of fd k + j) - ucast (FirstDataSector fd)) div ucast (SectorsPerCluster fd) + 2 = (of_nat k :: QWORD)" using kb(2) by (simp only: of_nat_diff) simp
  moreover have "\<not> of_nat k > (of_nat (clusters fd + 1) :: QWORD)" "\<not> of_nat k < (2 :: QWORD)"
    using kb unat_nat_QWORD [OF kb(1)] unat_nat_QWORD [OF c] by (simp_all add: word_less_nat_alt)
  moreover have "SectorsPerCluster fd \<noteq> 0" using geometryD(4) [OF g] by auto
  ultimately show ?thesis unfolding ClusterOfSector_def Let_def count_plus(1) [OF g] by simp
qed

section \<open>Following a chain\<close>

definition answers_ok :: "VOLUME_ANSWERS \<Rightarrow> bool" where
  "answers_ok env \<longleftrightarrow> (\<forall>n. AllocOk env n \<and> IoStatus env n = STATUS_SUCCESS \<and> IoFull env n)"

text \<open>The clusters of a file: each is valid and names the next one in the table, the last one has the mark of the end or of a bad cluster.\<close>

fun chain :: "buffer \<Rightarrow> FAT_DATA \<Rightarrow> nat list \<Rightarrow> bool" where
  "chain bytes fd [] \<longleftrightarrow> False"
| "chain bytes fd [k] \<longleftrightarrow> valid fd k \<and> FAT32_BAD_CLUSTER \<le> fat_next bytes fd k"
| "chain bytes fd (k # l # ks) \<longleftrightarrow> valid fd k \<and> unat (fat_next bytes fd k) = l \<and> chain bytes fd (l # ks)"

lemma chain_valid: "chain bytes fd ks \<Longrightarrow> k \<in> set ks \<Longrightarrow> valid fd k"
  by (induction bytes fd ks rule: chain.induct) auto

lemma chain_Cons: "chain bytes fd (k # ks) \<Longrightarrow> ks \<noteq> [] \<Longrightarrow> chain bytes fd ks"
  by (cases ks) auto

lemma chain_drop: "chain bytes fd ks \<Longrightarrow> n < length ks \<Longrightarrow> chain bytes fd (drop n ks)"
proof (induction n arbitrary: ks)
  case (Suc n)
  then obtain k ks' where "ks = k # ks'" by (cases ks) auto
  then show ?case using Suc by (cases ks') auto
qed simp

lemma rd_dword_window:
  assumes "i + 3 < n" "off + i + 3 < 18446744073709551616" "n < 18446744073709551616"
  shows "rd_dword (\<lambda>a. if a < of_nat n then bytes (of_nat off + a) else d a) (of_nat i) = rd_dword bytes (of_nat (off + i))"
proof -
  have u: "unat (of_nat i + j :: QWORD) = i + unat j" if "unat j \<le> 3" for j
    using assms that unat_plus_if_small [of "of_nat i :: QWORD" j] unat_nat_QWORD [of i] by simp
  have lt: "of_nat i + j < (of_nat n :: QWORD)" if "unat j \<le> 3" for j
    using u [OF that] assms(1,3) that unat_nat_QWORD [of n] by (simp add: word_less_nat_alt)
  show ?thesis using lt [of 0] lt [of 1] lt [of 2] lt [of 3] by (simp add: rd_dword_def add.assoc)
qed

lemma FatEntryAt_ok:
  assumes g: "geometry fd" and k: "valid fd k"
  shows "FatEntryAt fd (of_nat k) = Some (of_nat (unat (ReservedSectors fd) + 4 * k div bps fd), of_nat (k mod (bps fd div 4)))"
proof -
  have b: "512 \<le> bps fd" "BytesPerSector fd \<noteq> 0" using geometryD(1) [OF g] by auto
  have kb: "4 * k < 18446744073709551616" using k geometryD(6) [OF g] by (auto simp: valid_def)
  have u4: "unat (of_nat k * SIZEOF_FAT32_ENTRY) = 4 * k"
  proof -
    have "of_nat k * SIZEOF_FAT32_ENTRY = of_nat (4 * k)" by simp
    then show ?thesis using unat_nat_QWORD [OF kb] by (simp only:)
  qed
  have "unat (of_nat k * SIZEOF_FAT32_ENTRY div ucast (BytesPerSector fd)) = 4 * k div bps fd" unfolding unat_div u4 unat_ucast_QWORD ..
  moreover have "4 * k div bps fd < 18446744073709551616" using kb div_le_dividend order_le_less_trans by blast
  ultimately have d: "of_nat k * SIZEOF_FAT32_ENTRY div ucast (BytesPerSector fd) = of_nat (4 * k div bps fd)" using unat_nat_QWORD by (simp only: word_unat_eq_iff)
  have n4: "unat (ucast (BytesPerSector fd) div SIZEOF_FAT32_ENTRY) = bps fd div 4" unfolding unat_div unat_ucast_QWORD by simp
  have "unat (of_nat k mod (ucast (BytesPerSector fd) div SIZEOF_FAT32_ENTRY)) = k mod (bps fd div 4)"
    unfolding unat_mod n4 using unat_nat_QWORD [of k] kb by simp
  moreover have "k mod (bps fd div 4) < 18446744073709551616" using kb mod_less_eq_dividend [of k "bps fd div 4"] by linarith
  ultimately have m: "of_nat k mod (ucast (BytesPerSector fd) div SIZEOF_FAT32_ENTRY) = of_nat (k mod (bps fd div 4))" using unat_nat_QWORD by (simp only: word_unat_eq_iff)
  have "unat (ucast (BytesPerSector fd) div SIZEOF_FAT32_ENTRY) \<noteq> 0" using n4 b(1) by simp
  then have "ucast (BytesPerSector fd) div SIZEOF_FAT32_ENTRY \<noteq> 0" by auto
  then show ?thesis unfolding FatEntryAt_def Let_def d m using b(2) by simp
qed

lemma entry_addr_split:
  assumes g: "geometry fd"
  shows "(unat (ReservedSectors fd) + 4 * k div bps fd) * bps fd + 4 * (k mod (bps fd div 4)) = entry_addr fd k" "4 * (k mod (bps fd div 4)) + 3 < bps fd"
proof -
  define m where "m = bps fd div 4"
  have "4 dvd bps fd" using geometryD(3) [OF g] by (rule dvd_trans [rotated]) simp
  then have b: "bps fd = 4 * m" by (simp add: m_def)
  have m0: "0 < m" using geometryD(1) [OF g] b by simp
  have "4 * (k div m * m + k mod m) = 4 * k" by simp
  then have dm: "k div m * (4 * m) + 4 * (k mod m) = 4 * k" by (simp only: distrib_left ac_simps)
  show "(unat (ReservedSectors fd) + 4 * k div bps fd) * bps fd + 4 * (k mod (bps fd div 4)) = entry_addr fd k"
    unfolding entry_addr_def m_def [symmetric] b by (simp add: dm distrib_right)
  have "k mod m < m" using m0 by simp
  then have "4 * (k mod m) + 3 < bps fd" unfolding b by linarith
  then show "4 * (k mod (bps fd div 4)) + 3 < bps fd" unfolding m_def .
qed

lemma entry_addr_bound:
  assumes g: "geometry fd" and k: "valid fd k"
  shows "entry_addr fd k + 4 \<le> unat (FirstDataSector fd) * bps fd" "entry_addr fd k + 4 < 18446744073709551616"
proof -
  show le: "entry_addr fd k + 4 \<le> unat (FirstDataSector fd) * bps fd" using geometryD(9) [OF g] k by (simp add: entry_addr_def valid_def)
  have "unat (FirstDataSector fd) * bps fd \<le> 4294967295 * 4096" using geometryD(2) [OF g] unat_DWORD_less [of "FirstDataSector fd"] by (intro mult_le_mono) linarith+
  then show "entry_addr fd k + 4 < 18446744073709551616" using le by linarith
qed

text \<open>Two calls are made: the pool and one read.\<close>

lemma NextClusterInChain_ok:
  assumes g: "geometry fd" and env: "answers_ok env" and k: "valid fd k" and nz: "fat_next (VolumeBytes v) fd k \<noteq> 0"
  shows "NextClusterInChain env fd (of_nat k) v =
     Some (STATUS_SUCCESS, ucast (if fat_next (VolumeBytes v) fd k = FAT32_BAD_CLUSTER then FAT32_EOC_MARK else fat_next (VolumeBytes v) fd k), called (called v))"
proof -
  let ?s = "unat (ReservedSectors fd) + 4 * k div bps fd" and ?i = "k mod (bps fd div 4)"
  note e = entry_addr_split [OF g, of k] and eb = entry_addr_bound [OF g k]
  have off: "(of_nat ?s * of_nat (bps fd) :: QWORD) = of_nat (?s * bps fd)" by (simp only: of_nat_mult)
  have i4: "(of_nat ?i * SIZEOF_FAT32_ENTRY :: QWORD) = of_nat (4 * ?i)" by simp
  have n: "ucast (BytesPerSector fd) = (of_nat (bps fd) :: QWORD)" by simp
  have "rd_dword (\<lambda>a. if a < of_nat (bps fd) then VolumeBytes (called v) (of_nat (?s * bps fd) + a) else zeroed a) (of_nat (4 * ?i)) = rd_dword (VolumeBytes v) (of_nat (entry_addr fd k))"
    using rd_dword_window [of "4 * ?i" "bps fd" "?s * bps fd"] e eb geometryD(2) [OF g] by (simp add: called_def)
  then have r: "rd_dword (\<lambda>a. if a < of_nat (bps fd) then VolumeBytes (called v) (of_nat (?s * bps fd) + a) else zeroed a) (of_nat (4 * ?i)) AND FAT32_CLUSTER_MASK = fat_next (VolumeBytes v) fd k"
    by (simp add: fat_next_def)
  have nz': "(ucast (fat_next (VolumeBytes v) fd k) :: QWORD) \<noteq> 0" using nz by (metis unat_0 unat_eq_zero unat_ucast_QWORD)
  have bad: "ucast FAT32_BAD_CLUSTER = (ucast (fat_next (VolumeBytes v) fd k) :: QWORD) \<longleftrightarrow> fat_next (VolumeBytes v) fd k = FAT32_BAD_CLUSTER"
    by (metis unat_ucast_QWORD word_unat_eq_iff)
  have a: "AllocOk env m" "IoStatus env m = STATUS_SUCCESS" "IoFull env m" for m using env by (simp_all add: answers_ok_def)
  show ?thesis
    unfolding NextClusterInChain_def FatEntryAt_ok [OF g k] ExAllocatePoolWithTag_def IoReadDevice_def Let_def
    by (simp only: bind.bind_lunit prod.case a SUCCEEDED_SUCCESS if_True not_True_eq_False if_False n off i4 r ASSERT_True nz' [THEN not_sym] bad)
      simp
qed

lemma FAT32_EOC_ucast: "FAT32_EOC (ucast (x :: DWORD)) \<longleftrightarrow> FAT32_BAD_CLUSTER < x"
  unfolding FAT32_EOC_def word_less_nat_alt unat_ucast_QWORD ..

lemma valid_not_eoc:
  assumes "geometry fd" "valid fd k" "unat x = k"
  shows "\<not> FAT32_BAD_CLUSTER \<le> (x :: DWORD)" "x \<noteq> 0" "(ucast x :: QWORD) = of_nat k"
  using assms geometryD(6) [OF assms(1)] by (auto simp: valid_def word_le_nat_alt)

lemma NextSector_ok:
  assumes g: "geometry fd" and env: "answers_ok env" and c: "chain (VolumeBytes v) fd (k # ks)" and j: "j < spc fd"
  shows "ks = l # ks' \<Longrightarrow> NextSectorInClusterChain env fd (of_nat (sector_of fd k + j)) ext v = Some (STATUS_SUCCESS, Some (of_nat (sector_of fd l)), called (called v))"
    and "ks = [] \<Longrightarrow> NextSectorInClusterChain env fd (of_nat (sector_of fd k + j)) False v = Some (STATUS_SUCCESS, Some 0, called (called v))"
proof -
  have k: "valid fd k" using chain_valid [OF c] by simp
  note co = ClusterOfSector_ok [OF g k j]
  {
    assume ks: "ks = l # ks'"
    have l: "valid fd l" "unat (fat_next (VolumeBytes v) fd k) = l" using c ks chain_valid [OF c, of l] by auto
    note ve = valid_not_eoc [OF g l]
    have "fat_next (VolumeBytes v) fd k \<noteq> FAT32_BAD_CLUSTER" using ve(1) by auto
    then have n: "NextClusterInChain env fd (of_nat k) v = Some (STATUS_SUCCESS, ucast (fat_next (VolumeBytes v) fd k), called (called v))"
      using NextClusterInChain_ok [OF g env k ve(2)] by simp
    have "\<not> FAT32_BAD_CLUSTER < fat_next (VolumeBytes v) fd k" using ve(1) by auto
    then have "\<not> FAT32_EOC (of_nat l)" using FAT32_EOC_ucast [of "fat_next (VolumeBytes v) fd k"] by (simp add: ve(3))
    then show "NextSectorInClusterChain env fd (of_nat (sector_of fd k + j)) ext v = Some (STATUS_SUCCESS, Some (of_nat (sector_of fd l)), called (called v))"
      unfolding NextSectorInClusterChain_def co using n FirstSectorOfCluster_ok [OF g l(1)] by (simp add: ve(3))
  next
    assume ks: "ks = []"
    then have e: "FAT32_BAD_CLUSTER \<le> fat_next (VolumeBytes v) fd k" using c by simp
    then have nz: "fat_next (VolumeBytes v) fd k \<noteq> 0" by auto
    have "FAT32_BAD_CLUSTER < (if fat_next (VolumeBytes v) fd k = FAT32_BAD_CLUSTER then FAT32_EOC_MARK else fat_next (VolumeBytes v) fd k)" using e by auto
    then show "NextSectorInClusterChain env fd (of_nat (sector_of fd k + j)) False v = Some (STATUS_SUCCESS, Some 0, called (called v))"
      unfolding NextSectorInClusterChain_def co using NextClusterInChain_ok [OF g env k nz] by (simp add: FAT32_EOC_ucast)
  }
qed

section \<open>Reading a file\<close>

lemma le_of_nat_QWORD:
  assumes "m < 18446744073709551616" "n < 18446744073709551616"
  shows "(of_nat m :: QWORD) \<le> of_nat n \<longleftrightarrow> m \<le> n" "(of_nat m :: QWORD) < of_nat n \<longleftrightarrow> m < n" "(of_nat m :: QWORD) = of_nat n \<longleftrightarrow> m = n"
  using unat_nat_QWORD [OF assms(1)] unat_nat_QWORD [OF assms(2)] by (auto simp: word_le_nat_alt word_less_nat_alt word_unat_eq_iff)

lemma Traverse_ok:
  assumes g: "geometry fd" and env: "answers_ok env" and c: "chain (VolumeBytes v) fd ks" and off: "off div spc fd < length ks" "off < 4294967296"
    and i: "i \<le> off div spc fd"
  shows "\<exists>v'. FatTraverse_loop env fd (of_nat off) ext (of_nat (sector_of fd (ks ! i))) (of_nat (i * spc fd)) v
       = Some (STATUS_SUCCESS, of_nat (sector_of fd (ks ! (off div spc fd))), v') \<and> VolumeBytes v' = VolumeBytes v"
  using c i
proof (induction "off div spc fd - i" arbitrary: i v)
  case 0
  then have i: "i = off div spc fd" by simp
  have s0: "0 < spc fd" "spc fd \<le> 128" using geometryD(4,5) [OF g] by simp_all
  have "off < (i + 1) * spc fd" using dividend_less_div_times [OF s0(1), of off] i by simp
  moreover have "i * spc fd \<le> off" using i by simp
  ultimately have "\<not> (of_nat (i * spc fd + spc fd) :: QWORD) \<le> of_nat off"
    using le_of_nat_QWORD(1) [of "i * spc fd + spc fd" off] off(2) s0(2) by simp
  then have "\<not> of_nat (i * spc fd) + ucast (SectorsPerCluster fd) \<le> (of_nat off :: QWORD)" by simp
  then show ?case unfolding i [symmetric] by (subst FatTraverse_loop.simps) simp
next
  case (Suc n)
  have s0: "0 < spc fd" "spc fd \<le> 128" using geometryD(4,5) [OF g] by simp_all
  have i: "i + 1 \<le> off div spc fd" using Suc.hyps(2) by simp
  have le: "(i + 1) * spc fd \<le> off" using i s0(1) by (meson div_times_less_eq_dividend le_trans mult_le_mono1)
  have c1: "(of_nat (i * spc fd) + ucast (SectorsPerCluster fd) :: QWORD) = of_nat ((i + 1) * spc fd)" by (simp add: algebra_simps)
  have c2: "(of_nat ((i + 1) * spc fd) :: QWORD) \<le> of_nat off" using le_of_nat_QWORD(1) [of "(i + 1) * spc fd" off] le off(2) by simp
  have "spc fd \<le> off" using le by simp
  then have c3: "ucast (SectorsPerCluster fd) \<le> (of_nat off :: QWORD)" using le_of_nat_QWORD(1) [of "spc fd" off] off(2) s0(2) by simp
  have "chain (VolumeBytes v) fd (drop i ks)" using chain_drop [OF Suc.prems(1)] i off(1) by simp
  moreover have "drop i ks = ks ! i # ks ! (i + 1) # drop (i + 2) ks" using i off(1) by (simp add: Cons_nth_drop_Suc)
  ultimately have "NextSectorInClusterChain env fd (of_nat (sector_of fd (ks ! i))) ext v = Some (STATUS_SUCCESS, Some (of_nat (sector_of fd (ks ! (i + 1)))), called (called v))"
    using NextSector_ok(1) [OF g env _ s0(1), of v "ks ! i" "ks ! (i + 1) # drop (i + 2) ks"] by simp
  note ns = this
  have "FatTraverse_loop env fd (of_nat off) ext (of_nat (sector_of fd (ks ! i))) (of_nat (i * spc fd)) v
      = FatTraverse_loop env fd (of_nat off) ext (of_nat (sector_of fd (ks ! (i + 1)))) (of_nat ((i + 1) * spc fd)) (called (called v))"
    unfolding FatTraverse_loop.simps [of env fd "of_nat off" ext "of_nat (sector_of fd (ks ! i))"] c1 using ns c2 c3 by (simp only: if_True ASSERT_True) simp
  moreover have "VolumeBytes (called (called v)) = VolumeBytes v" by (simp add: called_def)
  ultimately show ?case using Suc.hyps(1) [of "i + 1" "called (called v)"] Suc.hyps(2) Suc.prems i by simp
qed

text \<open>The byte \<open>q\<close> of the file that is stored in the clusters \<open>ks\<close>, as an address on the volume.\<close>

definition file_addr :: "FAT_DATA \<Rightarrow> nat list \<Rightarrow> nat \<Rightarrow> nat" where
  "file_addr fd ks q = sector_of fd (ks ! (q div (spc fd * bps fd))) * bps fd + q mod (spc fd * bps fd)"

lemma file_addr_first:
  assumes "q < spc fd * bps fd"
  shows "file_addr fd (k # ks) q = sector_of fd k * bps fd + q"
  using assms by (simp add: file_addr_def)

lemma file_addr_next:
  assumes "0 < spc fd * bps fd"
  shows "file_addr fd (k # ks) (spc fd * bps fd + q) = file_addr fd ks q"
proof -
  define c where "c = spc fd * bps fd"
  have "(c + q) div c = Suc (q div c)" "(c + q) mod c = q mod c" using assms by (simp_all add: c_def [symmetric] div_add_self1)
  then show ?thesis unfolding file_addr_def c_def [symmetric] by simp
qed

text \<open>How many sectors of \<open>m\<close> are left to read from the sector \<open>j\<close> of the first cluster on, when the chain has \<open>n\<close> clusters.\<close>

definition readable :: "FAT_DATA \<Rightarrow> nat \<Rightarrow> nat \<Rightarrow> nat \<Rightarrow> nat" where "readable fd n j m = min m (n * spc fd - j)"

lemma Read_step:
  assumes g: "geometry fd" and k: "valid fd k" and m: "t \<le> spc fd - j" "done * bps fd + t * bps fd < 18446744073709551616" and i: "done * bps fd \<le> unat i"
  shows "i - of_nat (done * bps fd) < of_nat (t * bps fd) \<longleftrightarrow> unat i < (done + t) * bps fd"
    "unat i < (done + t) * bps fd \<Longrightarrow> of_nat ((sector_of fd k + j) * bps fd) + (i - of_nat (done * bps fd)) = (of_nat (sector_of fd k * bps fd + (j * bps fd + (unat i - done * bps fd))) :: QWORD)"
proof -
  have e: "i = of_nat (unat i)" by simp
  have "i - of_nat (done * bps fd) = of_nat (unat i - done * bps fd)" using i by (subst e, subst of_nat_diff) simp_all
  moreover have "(of_nat (unat i - done * bps fd) :: QWORD) < of_nat (t * bps fd) \<longleftrightarrow> unat i - done * bps fd < t * bps fd"
    using m(2) by (intro le_of_nat_QWORD(2) order_le_less_trans [OF diff_le_self unat_QWORD_less]) simp
  ultimately show "i - of_nat (done * bps fd) < of_nat (t * bps fd) \<longleftrightarrow> unat i < (done + t) * bps fd" using i by (auto simp: algebra_simps)
  show "of_nat ((sector_of fd k + j) * bps fd) + (i - of_nat (done * bps fd)) = (of_nat (sector_of fd k * bps fd + (j * bps fd + (unat i - done * bps fd))) :: QWORD)"
    if "unat i < (done + t) * bps fd"
    using \<open>i - of_nat (done * bps fd) = of_nat (unat i - done * bps fd)\<close> by (simp add: algebra_simps)
qed

text \<open>The buffer after \<open>t\<close> sectors were read into it behind the first \<open>done\<close> ones, from the byte \<open>q\<close> of the file on.\<close>

definition filled :: "buffer \<Rightarrow> FAT_DATA \<Rightarrow> nat list \<Rightarrow> nat \<Rightarrow> nat \<Rightarrow> nat \<Rightarrow> buffer \<Rightarrow> buffer" where
  "filled bytes fd ks q done t B = (\<lambda>i. if done * bps fd \<le> unat i \<and> unat i < (done + t) * bps fd then bytes (of_nat (file_addr fd ks (q + (unat i - done * bps fd)))) else B i)"

lemma Read_chunk:
  assumes g: "geometry fd" and env: "answers_ok env" and k: "valid fd k" and j: "j + t \<le> spc fd" and d: "(done + t) * bps fd < 18446744073709551616"
  shows "(case IoReadDevice env (of_nat t * ucast (BytesPerSector fd)) (of_nat (sector_of fd k + j) * ucast (BytesPerSector fd)) (\<lambda>i. B (of_nat (done * bps fd) + i)) v of
      (status, full, chunk, v') \<Rightarrow> (status, full, \<lambda>i. chunk (i - of_nat (done * bps fd)), v')) = (STATUS_SUCCESS, True, filled (VolumeBytes v) fd (k # ks) (j * bps fd) done t B, called v)"
proof -
  let ?D = "of_nat (done * bps fd) :: QWORD"
  have o: "(of_nat t * ucast (BytesPerSector fd) :: QWORD) = of_nat (t * bps fd)" "(of_nat (sector_of fd k + j) * ucast (BytesPerSector fd) :: QWORD) = of_nat ((sector_of fd k + j) * bps fd)"
    by (simp_all only: of_nat_mult ucast_of_nat)
  have dd: "done * bps fd + t * bps fd < 18446744073709551616" using d by (simp add: algebra_simps)
  have tj: "t \<le> spc fd - j" using j by simp
  have "(if i - ?D < of_nat (t * bps fd) then VolumeBytes v (of_nat ((sector_of fd k + j) * bps fd) + (i - ?D)) else B (?D + (i - ?D))) = filled (VolumeBytes v) fd (k # ks) (j * bps fd) done t B i" for i
  proof (cases "done * bps fd \<le> unat i")
    case True
    note st = Read_step [OF g k tj dd True]
    show ?thesis
    proof (cases "unat i < (done + t) * bps fd")
      case in_range: True
      have "j * bps fd + (unat i - done * bps fd) < (j + t) * bps fd" using in_range True by (simp add: algebra_simps)
      also have "\<dots> \<le> spc fd * bps fd" using j by simp
      finally have "file_addr fd (k # ks) (j * bps fd + (unat i - done * bps fd)) = sector_of fd k * bps fd + (j * bps fd + (unat i - done * bps fd))" by (rule file_addr_first)
      then show ?thesis using st True in_range by (simp only: filled_def) simp
    next
      case False
      then show ?thesis using st(1) by (simp add: filled_def)
    qed
  next
    case False
    have du: "unat ?D = done * bps fd" using dd by (intro unat_nat_QWORD) simp
    have "unat (i - ?D) = unat i + 18446744073709551616 - done * bps fd"
      using False du by (simp add: unat_sub_if_size word_size)
    moreover have "unat (of_nat (t * bps fd) :: QWORD) = t * bps fd" using dd by (intro unat_nat_QWORD) simp
    ultimately have "\<not> i - ?D < of_nat (t * bps fd)" using dd by (simp add: word_less_nat_alt)
    then show ?thesis using False by (simp add: filled_def)
  qed
  note f = this
  have "IoStatus env m = STATUS_SUCCESS" "IoFull env m" for m using env by (simp_all add: answers_ok_def)
  then show ?thesis unfolding IoReadDevice_def Let_def o by (simp only: prod.case SUCCEEDED_SUCCESS if_True f)
qed

lemma Read_loop_unfold:
  assumes g: "geometry fd" and env: "answers_ok env" and k: "valid fd k" and j: "j + t \<le> spc fd" and d: "(done + t) * bps fd < 18446744073709551616"
    and m: "t \<le> m" "m < 4294967296"
  shows "FatRead_loop env fd (of_nat (sector_of fd k + j)) (of_nat t) (of_nat m) (of_nat (done * bps fd)) B v =
     (let B = filled (VolumeBytes v) fd (k # ks) (j * bps fd) done t B in
      if t = m then Some (STATUS_SUCCESS, of_nat (m - t), B, called v)
      else do {
        (status, nextSector, v) \<leftarrow> NextSectorInClusterChain env fd (of_nat (sector_of fd k + j)) False (called v);
        if \<not> SUCCEEDED status then Some (status, of_nat (m - t), B, v)
        else (case nextSector of
             None \<Rightarrow> Some (status, of_nat (m - t), B, v)
           | Some s \<Rightarrow> if 0 = s then Some (status, of_nat (m - t), B, v)
               else FatRead_loop env fd s (of_nat (min (spc fd) (m - t))) (of_nat (m - t)) (of_nat ((done + t) * bps fd)) B v)
      })"
proof -
  have r: "(of_nat m - of_nat t :: QWORD) = of_nat (m - t)" using m by simp
  have z: "(0 :: QWORD) = of_nat (m - t) \<longleftrightarrow> t = m" using le_of_nat_QWORD(3) [of 0 "m - t"] m by auto
  have s: "min (ucast (SectorsPerCluster fd)) (of_nat (m - t)) = (of_nat (min (spc fd) (m - t)) :: QWORD)"
    unfolding min_def ucast_of_nat using le_of_nat_QWORD(1) [of "spc fd" "m - t"] m geometryD(5) [OF g] by auto
  have p: "(of_nat (done * bps fd) + of_nat t * ucast (BytesPerSector fd) :: QWORD) = of_nat ((done + t) * bps fd)"
    by (simp only: ucast_of_nat of_nat_mult of_nat_add distrib_right)
  obtain status full chunk v' where io: "IoReadDevice env (of_nat t * ucast (BytesPerSector fd)) (of_nat (sector_of fd k + j) * ucast (BytesPerSector fd))
      (\<lambda>i. B (of_nat (done * bps fd) + i)) v = (status, full, chunk, v')"
    by (rule prod_cases4)
  have "(status, full, \<lambda>i. chunk (i - of_nat (done * bps fd)), v') = (STATUS_SUCCESS, True, filled (VolumeBytes v) fd (k # ks) (j * bps fd) done t B, called v)"
    using Read_chunk [OF g env k j d, of B v ks] unfolding io prod.case .
  then have c: "status = STATUS_SUCCESS" "full = True" "(\<lambda>i. chunk (i - of_nat (done * bps fd))) = filled (VolumeBytes v) fd (k # ks) (j * bps fd) done t B" "v' = called v"
    by (simp_all only: prod.inject)
  show ?thesis
    unfolding FatRead_loop.simps [of env fd "of_nat (sector_of fd k + j)"] Let_def io prod.case c r z s p
    by (simp only: SUCCEEDED_SUCCESS not_True_eq_False if_False ASSERT_True bind.bind_lunit)
qed

lemma filled_append:
  assumes "0 < spc fd * bps fd" "j + t = spc fd"
  shows "filled bytes fd ks 0 (done + t) t' (filled bytes fd (k # ks) (j * bps fd) done t B) = filled bytes fd (k # ks) (j * bps fd) done (t + t') B"
proof
  fix i :: QWORD
  have a: "file_addr fd ks (unat i - (done + t) * bps fd) = file_addr fd (k # ks) (j * bps fd + (unat i - done * bps fd))" if "(done + t) * bps fd \<le> unat i"
  proof -
    have "j * bps fd + (unat i - done * bps fd) = (j + t) * bps fd + (unat i - (done + t) * bps fd)" using that by (simp add: algebra_simps)
    then show ?thesis using file_addr_next [OF assms(1), of k ks] by (simp only: assms(2))
  qed
  have le: "done * bps fd \<le> (done + t) * bps fd" "(done + t) * bps fd \<le> (done + (t + t')) * bps fd" by simp_all
  show "filled bytes fd ks 0 (done + t) t' (filled bytes fd (k # ks) (j * bps fd) done t B) i = filled bytes fd (k # ks) (j * bps fd) done (t + t') B i"
  proof (cases "(done + t) * bps fd \<le> unat i")
    case True
    then have "done * bps fd \<le> unat i" using le(1) by linarith
    then show ?thesis using True a [OF True] by (simp add: filled_def add.assoc)
  next
    case False
    then have "unat i < (done + (t + t')) * bps fd" using le(2) by linarith
    then show ?thesis using False by (simp add: filled_def)
  qed
qed

lemma min_shift: "(t :: nat) < m \<Longrightarrow> min m (t + n) = t + min (m - t) n"
  by (simp add: min_def) linarith

lemma Read_loop_ok:
  assumes g: "geometry fd" and env: "answers_ok env"
  shows "chain (VolumeBytes v) fd (k # ks) \<Longrightarrow> j < spc fd \<Longrightarrow> 0 < m \<Longrightarrow> m < 4294967296 \<Longrightarrow> (done + m) * bps fd < 18446744073709551616 \<Longrightarrow>
     \<exists>v'. FatRead_loop env fd (of_nat (sector_of fd k + j)) (of_nat (min m (spc fd - j))) (of_nat m) (of_nat (done * bps fd)) B v
       = Some (STATUS_SUCCESS, of_nat (m - readable fd (length (k # ks)) j m), filled (VolumeBytes v) fd (k # ks) (j * bps fd) done (readable fd (length (k # ks)) j m) B, v')
     \<and> VolumeBytes v' = VolumeBytes v"
proof (induction ks arbitrary: k j m "done" B v)
  case Nil
  define t where "t = min m (spc fd - j)"
  have t: "j + t \<le> spc fd" "t \<le> m" "readable fd (length [k]) j m = t" using Nil.prems(2) by (auto simp: t_def readable_def)
  have d: "(done + t) * bps fd < 18446744073709551616" by (rule order_le_less_trans [OF _ Nil.prems(5)]) (simp add: t(2))
  have k: "valid fd k" using Nil.prems(1) by simp
  have "NextSectorInClusterChain env fd (of_nat (sector_of fd k + j)) False (called v) = Some (STATUS_SUCCESS, Some 0, called (called (called v)))"
    using NextSector_ok(2) [OF g env _ Nil.prems(2), of "called v" k "[]"] Nil.prems(1) by (simp add: called_def)
  then show ?case
    unfolding t(3) t_def [symmetric] Read_loop_unfold [OF g env k t(1) d t(2) Nil.prems(4), of B v "[]"] Let_def
    by (cases "t = m") (simp_all add: called_def)
next
  case (Cons l ks)
  define t where "t = min m (spc fd - j)"
  have t: "j + t \<le> spc fd" "t \<le> m" using Cons.prems(2) by (auto simp: t_def)
  have d: "(done + t) * bps fd < 18446744073709551616" by (rule order_le_less_trans [OF _ Cons.prems(5)]) (simp add: t(2))
  have k: "valid fd k" using Cons.prems(1) by simp
  have s0: "0 < spc fd" "spc fd \<le> 128" "0 < spc fd * bps fd" using geometryD(1,4,5) [OF g] by simp_all
  note un = Read_loop_unfold [OF g env k t(1) d t(2) Cons.prems(4), of B v "l # ks"]
  show ?case
  proof (cases "t = m")
    case True
    then have "readable fd (length (k # l # ks)) j m = m" using t(1) by (simp add: readable_def)
    then show ?thesis unfolding t_def [symmetric] un Let_def using True by (simp add: called_def)
  next
    case False
    then have tm: "t = spc fd - j" "t < m" "j + t = spc fd" using t Cons.prems(2) by (auto simp: t_def min_def split: if_splits)
    let ?v = "called (called (called v))" and ?B = "filled (VolumeBytes v) fd (k # l # ks) (j * bps fd) done t B"
    have vb: "VolumeBytes ?v = VolumeBytes v" "VolumeBytes (called v) = VolumeBytes v" by (simp_all add: called_def)
    have c: "chain (VolumeBytes ?v) fd (l # ks)" using Cons.prems(1) vb by simp
    have l: "valid fd l" using chain_valid [OF c] by simp
    have ns: "NextSectorInClusterChain env fd (of_nat (sector_of fd k + j)) False (called v) = Some (STATUS_SUCCESS, Some (of_nat (sector_of fd l)), ?v)"
      using NextSector_ok(1) [OF g env _ Cons.prems(2), of "called v" k "l # ks" l ks] Cons.prems(1) vb by simp
    have "0 < sector_of fd l" using geometryD(8,9) [OF g] by (auto simp: sector_of_def intro: ccontr)
    then have nz: "(0 :: QWORD) \<noteq> of_nat (sector_of fd l)" using le_of_nat_QWORD(3) [of 0 "sector_of fd l"] sector_bound(1) [OF g l s0(1)] by simp
    have d2: "(done + t + (m - t)) * bps fd < 18446744073709551616" using Cons.prems(5) tm(2) by simp
    have "length (k # l # ks) * spc fd - j = t + length (l # ks) * spc fd" using tm(3) by simp
    then have rd: "readable fd (length (k # l # ks)) j m = t + readable fd (length (l # ks)) 0 (m - t)" using min_shift [OF tm(2)] by (simp only: readable_def diff_zero)
    have mt: "0 < m - t" "m - t < 4294967296" using tm(2) Cons.prems(4) by linarith+
    obtain v' where v': "FatRead_loop env fd (of_nat (sector_of fd l)) (of_nat (min (m - t) (spc fd))) (of_nat (m - t)) (of_nat ((done + t) * bps fd)) ?B ?v
        = Some (STATUS_SUCCESS, of_nat (m - t - readable fd (length (l # ks)) 0 (m - t)), filled (VolumeBytes ?v) fd (l # ks) 0 (done + t) (readable fd (length (l # ks)) 0 (m - t)) ?B, v')"
      "VolumeBytes v' = VolumeBytes v"
      using Cons.IH [OF c s0(1) mt d2, of ?B] vb by auto
    show ?thesis
      unfolding t_def [symmetric] un Let_def ns rd filled_append [OF s0(3) tm(3), symmetric] using False nz v' vb(1)
      by (simp add: min.commute [of "spc fd"] diff_diff_left)
  qed
qed

section \<open>Directory entries on the volume\<close>

definition dir_cluster :: "buffer \<Rightarrow> FAT_DATA \<Rightarrow> nat \<Rightarrow> buffer" where
  "dir_cluster bytes fd D = (\<lambda>i. if i < of_nat (bps fd * spc fd) then bytes (of_nat (D * bps fd) + i) else zeroed i)"

text \<open>The index in the cluster at sector \<open>D\<close> of the entry of the file that starts at cluster \<open>k\<close>.\<close>

definition dir_index :: "buffer \<Rightarrow> FAT_DATA \<Rightarrow> nat \<Rightarrow> nat \<Rightarrow> QWORD option" where
  "dir_index bytes fd D k = DirEntry_loop (dir_cluster bytes fd D) (of_nat (bps fd * spc fd) div SIZEOF_DIR_ENTRY) (of_nat k) 0"

lemma cluster_bytes:
  assumes "geometry fd"
  shows "(ucast (BytesPerSector fd * SectorsPerCluster fd) :: QWORD) = of_nat (bps fd * spc fd)" "bps fd * spc fd \<le> 524288"
proof -
  have "bps fd * spc fd \<le> 4096 * 128" using geometryD(2,5) [OF assms] by (rule mult_le_mono)
  then show "bps fd * spc fd \<le> 524288" by simp
  then have "unat (BytesPerSector fd * SectorsPerCluster fd) = bps fd * spc fd" using unat_mult_lem [of "BytesPerSector fd" "SectorsPerCluster fd"] by simp
  then show "(ucast (BytesPerSector fd * SectorsPerCluster fd) :: QWORD) = of_nat (bps fd * spc fd)" by (simp only: ucast_of_nat)
qed

lemma DirEntry_loop_less: "DirEntry_loop buf count c i = Some x \<Longrightarrow> x < count"
  by (induction buf count c i rule: DirEntry_loop.induct) (subst (asm) DirEntry_loop.simps, auto simp: Let_def split: if_splits)

lemma GetDirEntry_ok:
  assumes g: "geometry fd" and env: "answers_ok env" and k: "valid fd k" and x: "dir_index (VolumeBytes v) fd D k = Some x"
  shows "GetDirEntryFromSector env fd (of_nat D) (of_nat (sector_of fd k)) v
    = Some (STATUS_SUCCESS, x, (\<lambda>i. if i < SIZEOF_DIR_ENTRY then dir_cluster (VolumeBytes v) fd D (x * SIZEOF_DIR_ENTRY + i) else 0), called (called v))"
proof -
  have a: "AllocOk env m" "IoStatus env m = STATUS_SUCCESS" "IoFull env m" for m using env by (simp_all add: answers_ok_def)
  have o: "(of_nat D * ucast (BytesPerSector fd) :: QWORD) = of_nat (D * bps fd)" by (simp only: of_nat_mult ucast_of_nat)
  have b: "(\<lambda>i. if i < of_nat (bps fd * spc fd) then VolumeBytes (called v) (of_nat (D * bps fd) + i) else zeroed i) = dir_cluster (VolumeBytes v) fd D"
    by (simp add: dir_cluster_def called_def cong: if_cong)
  have cs: "ClusterOfSector fd (of_nat (sector_of fd k)) = Some (STATUS_SUCCESS, of_nat k)" using ClusterOfSector_ok [OF g k, of 0] geometryD(4) [OF g] by simp
  show ?thesis
    unfolding GetDirEntryFromSector_def Let_def ExAllocatePoolWithTag_def IoReadDevice_def prod.case cluster_bytes(1) [OF g] o
    by (simp only: a SUCCEEDED_SUCCESS if_True not_True_eq_False if_False ASSERT_True bind.bind_lunit b cs prod.case x [unfolded dir_index_def] option.case)
qed

lemma WriteDirEntry_ok:
  assumes g: "geometry fd" and env: "answers_ok env" and x: "x < of_nat (bps fd * spc fd) div SIZEOF_DIR_ENTRY"
  shows "\<exists>v'. WriteDirEntryToSector env fd (of_nat D) x de v = Some (STATUS_SUCCESS, v')
    \<and> VolumeBytes v' = (\<lambda>a. if a - (of_nat (D * bps fd) + x * SIZEOF_DIR_ENTRY) < SIZEOF_DIR_ENTRY then de (a - (of_nat (D * bps fd) + x * SIZEOF_DIR_ENTRY)) else VolumeBytes v a)"
proof -
  let ?O = "of_nat (D * bps fd) :: QWORD" and ?L = "of_nat (bps fd * spc fd) :: QWORD"
  have a: "AllocOk env m" "IoStatus env m = STATUS_SUCCESS" "IoFull env m" for m using env by (simp_all add: answers_ok_def)
  have o: "(of_nat D * ucast (BytesPerSector fd) :: QWORD) = ?O" by (simp only: of_nat_mult ucast_of_nat)
  have L: "unat ?L = bps fd * spc fd" using cluster_bytes(2) [OF g] by (intro unat_nat_QWORD) simp
  have "unat x < bps fd * spc fd div 32" using x unfolding word_less_nat_alt unat_div L by simp
  then have x32: "unat x * 32 + 32 \<le> bps fd * spc fd" by (simp add: less_eq_div_iff_mult_less_eq flip: Suc_le_eq)
  have ux: "unat (x * SIZEOF_DIR_ENTRY) = unat x * 32" using x32 cluster_bytes(2) [OF g] unat_mult_lem [of x "0x20"] by simp
  have far: "\<not> d - x * SIZEOF_DIR_ENTRY < SIZEOF_DIR_ENTRY" if "\<not> d < ?L" for d
  proof -
    have "bps fd * spc fd \<le> unat d" using that L by (simp add: word_less_nat_alt)
    then have "x * SIZEOF_DIR_ENTRY \<le> d" "32 \<le> unat d - unat x * 32" using x32 ux by (simp_all add: word_le_nat_alt)
    then show ?thesis using ux by (simp add: word_less_nat_alt unat_sub)
  qed
  have "(if c - ?O < ?L then (if c - ?O - x * SIZEOF_DIR_ENTRY < SIZEOF_DIR_ENTRY then de (c - ?O - x * SIZEOF_DIR_ENTRY)
        else if c - ?O < ?L then VolumeBytes (called v) (?O + (c - ?O)) else zeroed (c - ?O)) else VolumeBytes (called (called v)) c)
      = (if c - (?O + x * SIZEOF_DIR_ENTRY) < SIZEOF_DIR_ENTRY then de (c - (?O + x * SIZEOF_DIR_ENTRY)) else VolumeBytes v c)" for c
    using far [of "c - ?O"] by (simp add: called_def diff_diff_add)
  then have b: "(\<lambda>c. if c - ?O < ?L then (if c - ?O - x * SIZEOF_DIR_ENTRY < SIZEOF_DIR_ENTRY then de (c - ?O - x * SIZEOF_DIR_ENTRY)
        else if c - ?O < ?L then VolumeBytes (called v) (?O + (c - ?O)) else zeroed (c - ?O)) else VolumeBytes (called (called v)) c)
      = (\<lambda>c. if c - (?O + x * SIZEOF_DIR_ENTRY) < SIZEOF_DIR_ENTRY then de (c - (?O + x * SIZEOF_DIR_ENTRY)) else VolumeBytes v c)" by (rule ext)
  show ?thesis
    unfolding WriteDirEntryToSector_def Let_def ExAllocatePoolWithTag_def IoReadDevice_def IoWriteDevice_def prod.case cluster_bytes(1) [OF g] o
    by (simp only: a SUCCEEDED_SUCCESS if_True not_True_eq_False if_False ASSERT_True bind.bind_lunit prod.case x b) (simp add: called_def)
qed

lemma entry_in_cluster:
  assumes g: "geometry fd" and x: "x < of_nat (bps fd * spc fd) div SIZEOF_DIR_ENTRY" and d: "d < SIZEOF_DIR_ENTRY"
  shows "dir_cluster bytes fd D (x * SIZEOF_DIR_ENTRY + d) = bytes (of_nat (D * bps fd) + x * SIZEOF_DIR_ENTRY + d)"
proof -
  have L: "unat (of_nat (bps fd * spc fd) :: QWORD) = bps fd * spc fd" using cluster_bytes(2) [OF g] by (intro unat_nat_QWORD) simp
  have "unat x < bps fd * spc fd div 32" using x unfolding word_less_nat_alt unat_div L by simp
  then have x32: "unat x * 32 + 32 \<le> bps fd * spc fd" by (simp add: less_eq_div_iff_mult_less_eq flip: Suc_le_eq)
  have ux: "unat (x * SIZEOF_DIR_ENTRY) = unat x * 32" using x32 cluster_bytes(2) [OF g] unat_mult_lem [of x "0x20"] by simp
  have "unat d < 32" using d by (simp add: word_less_nat_alt)
  then have "unat (x * SIZEOF_DIR_ENTRY + d) < bps fd * spc fd" using ux x32 cluster_bytes(2) [OF g] unat_plus_if_small [of "x * SIZEOF_DIR_ENTRY" d] by simp
  then have "x * SIZEOF_DIR_ENTRY + d < of_nat (bps fd * spc fd)" unfolding word_less_nat_alt L .
  then show ?thesis unfolding dir_cluster_def by (simp only: if_True add.assoc)
qed

lemma file_addr_drop:
  assumes "n \<le> length ks" "0 < spc fd * bps fd"
  shows "file_addr fd (drop n ks) q = file_addr fd ks (n * (spc fd * bps fd) + q)"
proof -
  define c where "c = spc fd * bps fd"
  have "(n * c + q) div c = n + q div c" "(n * c + q) mod c = q mod c" using assms(2) by (simp_all add: c_def [symmetric])
  then show ?thesis unfolding file_addr_def c_def [symmetric] using assms(1) by simp
qed

lemma Traverse_start:
  assumes g: "geometry fd" and env: "answers_ok env" and c: "chain (VolumeBytes v) fd ks" and off: "off div spc fd < length ks" "off < 4294967296"
  shows "\<exists>v'. FatTraverse_loop env fd (of_nat off) ext (of_nat (sector_of fd (hd ks))) 0 v
       = Some (STATUS_SUCCESS, of_nat (sector_of fd (ks ! (off div spc fd))), v') \<and> VolumeBytes v' = VolumeBytes v"
proof -
  have "ks ! 0 = hd ks" using c by (cases ks) auto
  then show ?thesis using Traverse_ok [OF g env c off, of 0 ext] by simp
qed

lemma current_sector:
  assumes g: "geometry fd" and c: "chain bytes fd ks" and off: "off div spc fd < length ks" "off < 4294967296"
  shows "(0 :: QWORD) \<noteq> of_nat (sector_of fd (ks ! (off div spc fd)))" "SectorsPerCluster fd \<noteq> 0"
    "(of_nat off mod ucast (SectorsPerCluster fd) :: QWORD) = of_nat (off mod spc fd)"
    "m < 4294967296 \<Longrightarrow> min (of_nat m) (ucast (SectorsPerCluster fd) - of_nat (off mod spc fd)) = (of_nat (min m (spc fd - off mod spc fd)) :: QWORD)"
proof -
  have s0: "0 < spc fd" "spc fd \<le> 128" using geometryD(4,5) [OF g] by simp_all
  have v: "valid fd (ks ! (off div spc fd))" using chain_valid [OF c] off(1) by simp
  have "0 < sector_of fd (ks ! (off div spc fd))" using geometryD(8,9) [OF g] by (auto simp: sector_of_def intro: ccontr)
  then show "(0 :: QWORD) \<noteq> of_nat (sector_of fd (ks ! (off div spc fd)))" using le_of_nat_QWORD(3) [of 0] sector_bound(1) [OF g v s0(1)] by simp
  show "SectorsPerCluster fd \<noteq> 0" using s0(1) by auto
  have "unat (of_nat off mod ucast (SectorsPerCluster fd) :: QWORD) = off mod spc fd"
    unfolding unat_mod unat_ucast_QWORD using unat_nat_QWORD [of off] off(2) by simp
  moreover have "off mod spc fd < spc fd" using s0(1) by simp
  then have j: "off mod spc fd < 18446744073709551616" "off mod spc fd \<le> spc fd" using s0(2) by linarith+
  ultimately show "(of_nat off mod ucast (SectorsPerCluster fd) :: QWORD) = of_nat (off mod spc fd)" using unat_nat_QWORD [OF j(1)] by (simp only: word_unat_eq_iff)
  assume m: "m < 4294967296"
  have "(ucast (SectorsPerCluster fd) - of_nat (off mod spc fd) :: QWORD) = of_nat (spc fd - off mod spc fd)" using j(2) by (simp only: ucast_of_nat of_nat_diff)
  moreover have "(of_nat m :: QWORD) \<le> of_nat (spc fd - off mod spc fd) \<longleftrightarrow> m \<le> spc fd - off mod spc fd" using m s0(2) by (intro le_of_nat_QWORD) simp_all
  ultimately show "min (of_nat m) (ucast (SectorsPerCluster fd) - of_nat (off mod spc fd)) = (of_nat (min m (spc fd - off mod spc fd)) :: QWORD)" by (simp only: min_def) simp
qed

text \<open>The sectors that are read from the offset on, over all clusters.\<close>

lemma Read_from_offset:
  assumes g: "geometry fd" and env: "answers_ok env" and c: "chain (VolumeBytes v) fd ks" and off: "off div spc fd < length ks" and m: "0 < m" "m < 4294967296"
  defines "n \<equiv> min m (length ks * spc fd - off)"
  shows "\<exists>v'. FatRead_loop env fd (of_nat (sector_of fd (ks ! (off div spc fd)) + off mod spc fd)) (of_nat (min m (spc fd - off mod spc fd))) (of_nat m) 0 B v
      = Some (STATUS_SUCCESS, of_nat (m - n), (\<lambda>i. if unat i < n * bps fd then VolumeBytes v (of_nat (file_addr fd ks (off * bps fd + unat i))) else B i), v') \<and> VolumeBytes v' = VolumeBytes v"
proof -
  define p where "p = off div spc fd"
  define j where "j = off mod spc fd"
  have s0: "0 < spc fd" "bps fd \<le> 4096" "0 < spc fd * bps fd" using geometryD(1,2,4) [OF g] by simp_all
  have oj: "p * spc fd + j = off" by (simp add: p_def j_def)
  have pl: "p \<le> length ks" using off by (simp add: p_def)
  have dr: "drop p ks = ks ! p # drop (Suc p) ks" using off by (simp add: p_def Cons_nth_drop_Suc)
  have ch: "chain (VolumeBytes v) fd (ks ! p # drop (Suc p) ks)" using chain_drop [OF c off] dr by (simp add: p_def)
  have "m * bps fd \<le> 4294967296 * 4096" using m(2) s0(2) by (intro mult_le_mono) simp_all
  then have d: "(0 + m) * bps fd < 18446744073709551616" by simp
  have "length (ks ! p # drop (Suc p) ks) = length ks - p" using off by (simp add: p_def)
  then have "length (ks ! p # drop (Suc p) ks) * spc fd - j = length ks * spc fd - off" using oj by (simp add: diff_mult_distrib)
  then have rd: "readable fd (length (ks ! p # drop (Suc p) ks)) j m = n" by (simp only: readable_def n_def)
  have "filled (VolumeBytes v) fd (drop p ks) (j * bps fd) 0 n B i = (if unat i < n * bps fd then VolumeBytes v (of_nat (file_addr fd ks (off * bps fd + unat i))) else B i)" for i
  proof -
    have "p * (spc fd * bps fd) + (j * bps fd + unat i) = off * bps fd + unat i" unfolding oj [symmetric] by (simp add: algebra_simps)
    then have "file_addr fd (drop p ks) (j * bps fd + unat i) = file_addr fd ks (off * bps fd + unat i)" by (simp only: file_addr_drop [OF pl s0(3)])
    then show ?thesis by (simp add: filled_def)
  qed
  then have "filled (VolumeBytes v) fd (drop p ks) (j * bps fd) 0 n B = (\<lambda>i. if unat i < n * bps fd then VolumeBytes v (of_nat (file_addr fd ks (off * bps fd + unat i))) else B i)" by (rule ext)
  then show ?thesis using Read_loop_ok [OF g env ch _ m d, of j B] s0(1) rd dr unfolding p_def [symmetric] j_def [symmetric] by (auto simp: j_def)
qed

text \<open>What is written to a directory entry whose other bytes are as they were.\<close>

lemma entry_updated:
  assumes g: "geometry fd" and env: "answers_ok env" and x: "x < of_nat (bps fd * spc fd) div SIZEOF_DIR_ENTRY"
    and de: "\<And>d. d < SIZEOF_DIR_ENTRY \<Longrightarrow> d \<notin> A \<Longrightarrow> de d = dir_cluster (VolumeBytes v) fd D (x * SIZEOF_DIR_ENTRY + d)"
  shows "\<exists>v'. WriteDirEntryToSector env fd (of_nat D) x de v = Some (STATUS_SUCCESS, v')
    \<and> (\<forall>a. a - (of_nat (D * bps fd) + x * SIZEOF_DIR_ENTRY) \<notin> A \<longrightarrow> VolumeBytes v' a = VolumeBytes v a)
    \<and> (\<forall>d < SIZEOF_DIR_ENTRY. VolumeBytes v' (of_nat (D * bps fd) + x * SIZEOF_DIR_ENTRY + d) = de d)"
proof -
  let ?E = "of_nat (D * bps fd) + x * SIZEOF_DIR_ENTRY"
  obtain v' where v': "WriteDirEntryToSector env fd (of_nat D) x de v = Some (STATUS_SUCCESS, v')" "VolumeBytes v' = (\<lambda>a. if a - ?E < SIZEOF_DIR_ENTRY then de (a - ?E) else VolumeBytes v a)"
    using WriteDirEntry_ok [OF g env x] by blast
  have "VolumeBytes v' a = VolumeBytes v a" if "a - ?E \<notin> A" for a
    using de [OF _ that] entry_in_cluster [OF g x, of "a - ?E" "VolumeBytes v" D] unfolding v'(2) by simp
  moreover have "VolumeBytes v' (?E + d) = de d" if "d < SIZEOF_DIR_ENTRY" for d using that unfolding v'(2) by simp
  ultimately show ?thesis using v'(1) by blast
qed

text \<open>
  C38: Reading a file whose clusters are \<open>ks\<close>, from an offset inside of them, on a volume where the first sector of the file
  is a multiple of the sectors per cluster. The call returns; it stores in the buffer exactly the bytes of the file from
  the offset on, as many sectors as asked for or as there are in the clusters, and reports how many; on the volume only
  the date of the last access in its directory entry changes. (At an offset just behind the last cluster, and on a volume
  whose data area is not aligned, an assertion of the code halts the machine.)\<close>
theorem fat_read_file_spec:
  assumes g: "geometry fd" and env: "answers_ok env" and c: "chain (VolumeBytes v) fd ks"
    and al: "IsAddressAligned (of_nat (sector_of fd (hd ks))) (ucast (SectorsPerCluster fd))"
    and off: "off div spc fd < length ks" "off < 4294967296" and m: "0 < m" "m < 4294967296" and x: "dir_index (VolumeBytes v) fd D (hd ks) = Some x"
  shows "let n = min m (length ks * spc fd - off); E = of_nat (D * bps fd) + x * SIZEOF_DIR_ENTRY in
     \<exists>B' v'. FatReadFile env fd (of_nat (sector_of fd (hd ks))) (of_nat off) (of_nat D) B (of_nat m) v = Some (STATUS_SUCCESS, Some (of_nat n), B', v')
     \<and> (\<forall>i. B' i = (if unat i < n * bps fd then VolumeBytes v (of_nat (file_addr fd ks (off * bps fd + unat i))) else B i))
     \<and> (\<forall>a. a - E \<notin> {DIR_LstAccDate_at, DIR_LstAccDate_at + 1} \<longrightarrow> VolumeBytes v' a = VolumeBytes v a)"
proof -
  define n where "n = min m (length ks * spc fd - off)"
  let ?B' = "\<lambda>i. if unat i < n * bps fd then VolumeBytes v (of_nat (file_addr fd ks (off * bps fd + unat i))) else B i"
  obtain v1 where v1: "FatTraverse_loop env fd (of_nat off) False (of_nat (sector_of fd (hd ks))) 0 v = Some (STATUS_SUCCESS, of_nat (sector_of fd (ks ! (off div spc fd))), v1)" "VolumeBytes v1 = VolumeBytes v"
    using Traverse_start [OF g env c off] by blast
  note cu = current_sector [OF g c off]
  obtain v2 where v2: "FatRead_loop env fd (of_nat (sector_of fd (ks ! (off div spc fd)) + off mod spc fd)) (of_nat (min m (spc fd - off mod spc fd))) (of_nat m) 0 B v1
      = Some (STATUS_SUCCESS, of_nat (m - n), ?B', v2)" "VolumeBytes v2 = VolumeBytes v"
    using Read_from_offset [OF g env _ off(1) m, of v1 B, unfolded v1(2) n_def [symmetric]] c by blast
  let ?de = "\<lambda>i. if i < SIZEOF_DIR_ENTRY then dir_cluster (VolumeBytes v) fd D (x * SIZEOF_DIR_ENTRY + i) else 0"
  have k: "valid fd (hd ks)" using chain_valid [OF c] c by (cases ks) auto
  have gd: "GetDirEntryFromSector env fd (of_nat D) (of_nat (sector_of fd (hd ks))) v2 = Some (STATUS_SUCCESS, x, ?de, called (called v2))"
    by (rule GetDirEntry_ok [OF g env k, of v2 D x, unfolded v2(2), OF x])
  have xl: "x < of_nat (bps fd * spc fd) div SIZEOF_DIR_ENTRY" using x unfolding dir_index_def by (rule DirEntry_loop_less)
  let ?v = "called (called v2)" and ?date = "fst (ConvertDateTimeToFatDateTime (IoGetCurrentDateTime env (VolumeCalls (called (called v2)))))"
  have vb: "VolumeBytes ?v = VolumeBytes v" using v2(2) by (simp add: called_def)
  obtain v3 where v3: "WriteDirEntryToSector env fd (of_nat D) x (wr_word ?de DIR_LstAccDate_at (WORD_of_FATDATE ?date)) ?v = Some (STATUS_SUCCESS, v3)"
    "\<forall>a. a - (of_nat (D * bps fd) + x * SIZEOF_DIR_ENTRY) \<notin> {DIR_LstAccDate_at, DIR_LstAccDate_at + 1} \<longrightarrow> VolumeBytes v3 a = VolumeBytes v a"
    using entry_updated [OF g env xl, of "{DIR_LstAccDate_at, DIR_LstAccDate_at + 1}" "wr_word ?de DIR_LstAccDate_at (WORD_of_FATDATE ?date)" ?v D] vb by (auto simp: wr_word_def)
  have "(0 :: QWORD) \<noteq> of_nat m" "(of_nat m - of_nat (m - n) :: QWORD) = of_nat n" using m le_of_nat_QWORD(3) [of 0 m] by (simp_all add: n_def)
  then have "FatReadFile env fd (of_nat (sector_of fd (hd ks))) (of_nat off) (of_nat D) B (of_nat m) v = Some (STATUS_SUCCESS, Some (of_nat n), ?B', v3)"
    using al v1(1) v2(1) gd v3(1) cu(1-3) cu(4) [OF m(2)] unfolding FatReadFile_def Let_def by (simp add: case_prod_beta)
  then show ?thesis unfolding Let_def n_def [symmetric] using v3(2) by blast
qed

section \<open>Writing a file\<close>

lemma rd_wr_dword: "rd_dword (wr_dword b a w) a = w"
proof -
  have n: "a + 1 \<noteq> a" "a + 2 \<noteq> a" "a + 3 \<noteq> a" "a + 2 \<noteq> a + 1" "a + 3 \<noteq> a + 1" "a + 3 \<noteq> a + 2" by simp_all
  have x: "ucast (ucast w :: BYTE) OR push_bit 8 (ucast (ucast (drop_bit 8 w) :: BYTE)) OR push_bit 16 (ucast (ucast (drop_bit 16 w) :: BYTE)) OR push_bit 24 (ucast (ucast (drop_bit 24 w) :: BYTE)) = w"
  proof (rule bit_word_eqI)
    fix n :: nat
    assume "n < LENGTH(32)"
    then show "bit (ucast (ucast w :: BYTE) OR push_bit 8 (ucast (ucast (drop_bit 8 w) :: BYTE)) OR push_bit 16 (ucast (ucast (drop_bit 16 w) :: BYTE)) OR push_bit 24 (ucast (ucast (drop_bit 24 w) :: BYTE)) :: DWORD) n = bit w n"
      by (cases "n < 8"; cases "n < 16"; cases "n < 24") (auto simp: bit_simps)
  qed
  show ?thesis using n n [THEN not_sym] x by (simp add: rd_dword_def wr_dword_def)
qed

lemma file_addr_inj:
  assumes g: "geometry fd" and d: "distinct ks" and v: "\<And>k. k \<in> set ks \<Longrightarrow> valid fd k"
    and i: "i < length ks * (spc fd * bps fd)" "i' < length ks * (spc fd * bps fd)"
  shows "file_addr fd ks i = file_addr fd ks i' \<longleftrightarrow> i = i'"
proof
  assume e: "file_addr fd ks i = file_addr fd ks i'"
  define c where "c = spc fd * bps fd"
  have c0: "0 < c" using geometryD(1,4) [OF g] by (simp add: c_def)
  have sec: "sector_of fd k * bps fd = unat (FirstDataSector fd) * bps fd + (k - 2) * c" for k by (simp add: sector_of_def c_def algebra_simps)
  have q: "i div c < length ks" "i' div c < length ks" using i c0 by (simp_all add: c_def [symmetric] less_mult_imp_div_less)
  have "(ks ! (i div c) - 2) * c + i mod c = (ks ! (i' div c) - 2) * c + i' mod c" using e unfolding file_addr_def c_def [symmetric] sec by simp
  then have "((ks ! (i div c) - 2) * c + i mod c) div c = ((ks ! (i' div c) - 2) * c + i' mod c) div c" "((ks ! (i div c) - 2) * c + i mod c) mod c = ((ks ! (i' div c) - 2) * c + i' mod c) mod c" by simp_all
  then have k: "ks ! (i div c) - 2 = ks ! (i' div c) - 2" and r: "i mod c = i' mod c" using c0 by simp_all
  have "2 \<le> ks ! (i div c)" "2 \<le> ks ! (i' div c)" using v [OF nth_mem] q by (auto simp: valid_def)
  then have "i div c = i' div c" using k d q by (simp add: nth_eq_iff_index_eq [symmetric])
  then show "i = i'" using r by (metis div_mult_mod_eq)
qed simp

lemma file_addr_bounds:
  assumes g: "geometry fd" and v: "\<And>k. k \<in> set ks \<Longrightarrow> valid fd k" and i: "i < length ks * (spc fd * bps fd)"
  shows "unat (FirstDataSector fd) * bps fd \<le> file_addr fd ks i" "file_addr fd ks i < 18446744073709551616"
proof -
  define c where "c = spc fd * bps fd"
  have c0: "0 < c" "bps fd \<le> 4096" "spc fd \<le> 128" "0 < spc fd" using geometryD(1,2,4,5) [OF g] by (simp_all add: c_def)
  have "i div c < length ks" using i by (simp add: c_def [symmetric] less_mult_imp_div_less)
  then have k: "valid fd (ks ! (i div c))" using v nth_mem by blast
  have "unat (FirstDataSector fd) \<le> sector_of fd (ks ! (i div c))" by (simp add: sector_of_def)
  then show "unat (FirstDataSector fd) * bps fd \<le> file_addr fd ks i" unfolding file_addr_def c_def [symmetric] by (simp add: trans_le_add1)
  have "sector_of fd (ks ! (i div c)) * bps fd \<le> 4294967296 * 4096" using sector_bound(1) [OF g k c0(4)] c0(2) by (intro mult_le_mono) simp_all
  moreover have "i mod c < c" "c \<le> 524288" using c0(1) cluster_bytes(2) [OF g] by (simp_all add: c_def mult.commute)
  ultimately show "file_addr fd ks i < 18446744073709551616" unfolding file_addr_def c_def [symmetric] by linarith
qed

text \<open>The table is not changed by a write to the data.\<close>

lemma chain_data_write:
  assumes g: "geometry fd" and c: "chain bytes fd ks" and s: "\<And>a. unat a < unat (FirstDataSector fd) * bps fd \<Longrightarrow> bytes' a = bytes a"
  shows "chain bytes' fd ks"
proof -
  have "fat_next bytes' fd k = fat_next bytes fd k" if "valid fd k" for k
  proof -
    note b = entry_addr_bound [OF g that]
    have "unat (of_nat (entry_addr fd k) + j :: QWORD) = entry_addr fd k + unat j" if "unat j \<le> 3" for j
      using b(2) that unat_nat_QWORD [of "entry_addr fd k"] unat_plus_if_small [of "of_nat (entry_addr fd k) :: QWORD" j] by simp
    from this [of 0] this [of 1] this [of 2] this [of 3] show ?thesis using b(1) by (simp add: fat_next_def rd_dword_def s)
  qed
  then show ?thesis using c by (induction bytes fd ks rule: chain.induct) auto
qed

text \<open>The bytes \<open>q, \<dots>, q + n - 1\<close> of a file are taken from a buffer from the byte \<open>p\<close> on, and nothing else on the volume is changed.\<close>

definition stored :: "FAT_DATA \<Rightarrow> nat list \<Rightarrow> nat \<Rightarrow> nat \<Rightarrow> nat \<Rightarrow> buffer \<Rightarrow> buffer \<Rightarrow> buffer \<Rightarrow> bool" where
  "stored fd ks q n p B bytes bytes' \<longleftrightarrow> (\<forall>i < n. bytes' (of_nat (file_addr fd ks (q + i))) = B (of_nat (p + i)))
     \<and> (\<forall>a. (\<forall>i < n. a \<noteq> of_nat (file_addr fd ks (q + i))) \<longrightarrow> bytes' a = bytes a)"

lemma Write_chunk:
  assumes g: "geometry fd" and env: "answers_ok env" and k: "valid fd k" and j: "j + t \<le> spc fd"
  shows "\<exists>v'. IoWriteDevice env (of_nat t * ucast (BytesPerSector fd)) (of_nat (sector_of fd k + j) * ucast (BytesPerSector fd)) (\<lambda>i. B (of_nat p + i)) v = (STATUS_SUCCESS, True, v')
     \<and> stored fd (k # ks) (j * bps fd) (t * bps fd) p B (VolumeBytes v) (VolumeBytes v')"
proof -
  let ?O = "(sector_of fd k + j) * bps fd" and ?L = "t * bps fd"
  have o: "(of_nat t * ucast (BytesPerSector fd) :: QWORD) = of_nat ?L" "(of_nat (sector_of fd k + j) * ucast (BytesPerSector fd) :: QWORD) = of_nat ?O"
    by (simp_all only: of_nat_mult ucast_of_nat)
  have a: "IoStatus env m = STATUS_SUCCESS" "IoFull env m" for m using env by (simp_all add: answers_ok_def)
  let ?V = "\<lambda>c. if c - of_nat ?O < of_nat ?L then B (of_nat p + (c - of_nat ?O)) else VolumeBytes v c"
  have "t \<le> spc fd" using j by simp
  then have "?L \<le> bps fd * spc fd" by (metis mult.commute mult_le_mono1)
  then have L1: "?L < 18446744073709551616" using cluster_bytes(2) [OF g] by linarith
  note L = L1 unat_nat_QWORD [OF L1]
  have f: "file_addr fd (k # ks) (j * bps fd + i) = ?O + i" if "i < ?L" for i
  proof -
    have "j * bps fd + i < (j + t) * bps fd" using that by (simp add: distrib_right)
    also have "\<dots> \<le> spc fd * bps fd" using j by simp
    finally show ?thesis using file_addr_first [of "j * bps fd + i" fd k ks] by (simp add: distrib_right)
  qed
  have h1: "?V (of_nat (?O + i)) = B (of_nat (p + i))" if "i < ?L" for i
  proof -
    have "(of_nat (?O + i) - of_nat ?O :: QWORD) = of_nat i" by simp
    moreover have "(of_nat i :: QWORD) < of_nat ?L" using that L by (intro le_of_nat_QWORD(2) [THEN iffD2]) simp_all
    ultimately show ?thesis by (simp only: if_True of_nat_add)
  qed
  have h2: "?V c = VolumeBytes v c" if "\<And>i. i < ?L \<Longrightarrow> c \<noteq> of_nat (?O + i)" for c
  proof -
    have "\<not> c - of_nat ?O < of_nat ?L"
    proof
      assume "c - of_nat ?O < of_nat ?L"
      then have "unat (c - of_nat ?O) < ?L" using L(2) by (simp only: word_less_nat_alt)
      from that [OF this] show False by simp
    qed
    then show ?thesis by (simp only: if_False)
  qed
  have "stored fd (k # ks) (j * bps fd) ?L p B (VolumeBytes v) ?V"
    unfolding stored_def
  proof (intro conjI allI impI)
    fix i
    assume "i < ?L"
    then show "?V (of_nat (file_addr fd (k # ks) (j * bps fd + i))) = B (of_nat (p + i))" unfolding f [OF \<open>i < ?L\<close>] by (rule h1)
  next
    fix c :: QWORD
    assume "\<forall>i < ?L. c \<noteq> of_nat (file_addr fd (k # ks) (j * bps fd + i))"
    then show "?V c = VolumeBytes v c" using f by (intro h2) metis
  qed
  moreover have "VolumeBytes (called (v\<lparr>VolumeBytes := ?V\<rparr>)) = ?V" by (simp add: called_def)
  ultimately show ?thesis unfolding IoWriteDevice_def Let_def o by (simp only: a SUCCEEDED_SUCCESS if_True) auto
qed

lemma stored_append:
  assumes g: "geometry fd" and d: "distinct (k # ks)" and v: "\<And>l. l \<in> set (k # ks) \<Longrightarrow> valid fd l" and j: "j + t = spc fd" and n: "n \<le> length ks * (spc fd * bps fd)"
    and s1: "stored fd (k # ks) (j * bps fd) (t * bps fd) p B b0 b1" and s2: "stored fd ks 0 n (p + t * bps fd) B b1 b2"
  shows "stored fd (k # ks) (j * bps fd) (t * bps fd + n) p B b0 b2"
proof -
  have c0: "0 < spc fd * bps fd" using geometryD(1,4) [OF g] by simp
  have nx: "file_addr fd (k # ks) (j * bps fd + (t * bps fd + i)) = file_addr fd ks i" for i
  proof -
    have "j * bps fd + (t * bps fd + i) = spc fd * bps fd + i" unfolding j [symmetric] by (simp add: distrib_right)
    then show ?thesis using file_addr_next [OF c0] by (simp only:)
  qed
  have "j * bps fd + t * bps fd = spc fd * bps fd" unfolding j [symmetric] by (simp add: distrib_right)
  then have N: "j * bps fd + (t * bps fd + n) \<le> length (k # ks) * (spc fd * bps fd)" using n by simp
  have new: "(of_nat (file_addr fd (k # ks) (j * bps fd + i)) :: QWORD) = of_nat (file_addr fd (k # ks) (j * bps fd + i')) \<longleftrightarrow> i = i'"
    if "i < t * bps fd + n" "i' < t * bps fd + n" for i i'
  proof -
    have ii: "j * bps fd + i < length (k # ks) * (spc fd * bps fd)" "j * bps fd + i' < length (k # ks) * (spc fd * bps fd)" using that N by linarith+
    show ?thesis using le_of_nat_QWORD(3) [OF file_addr_bounds(2) [OF g v ii(1)] file_addr_bounds(2) [OF g v ii(2)]] file_addr_inj [OF g d v ii] by simp
  qed
  show ?thesis
    unfolding stored_def
  proof (intro conjI allI impI)
    fix i
    assume i: "i < t * bps fd + n"
    show "b2 (of_nat (file_addr fd (k # ks) (j * bps fd + i))) = B (of_nat (p + i))"
    proof (cases "i < t * bps fd")
      case True
      have "of_nat (file_addr fd (k # ks) (j * bps fd + i)) \<noteq> (of_nat (file_addr fd ks (0 + i')) :: QWORD)" if "i' < n" for i'
        using new [OF i, of "t * bps fd + i'"] that True nx [of i'] by simp
      then have "b2 (of_nat (file_addr fd (k # ks) (j * bps fd + i))) = b1 (of_nat (file_addr fd (k # ks) (j * bps fd + i)))" using s2 unfolding stored_def by blast
      then show ?thesis using s1 True unfolding stored_def by simp
    next
      case False
      then obtain i' where i': "i = t * bps fd + i'" "i' < n" using i by (metis add_less_cancel_left le_Suc_ex not_less)
      then have "b2 (of_nat (file_addr fd ks (0 + i'))) = B (of_nat (p + t * bps fd + i'))" using s2 unfolding stored_def by blast
      then show ?thesis unfolding i'(1) nx by (simp add: add.assoc)
    qed
  next
    fix a :: QWORD
    assume a: "\<forall>i < t * bps fd + n. a \<noteq> of_nat (file_addr fd (k # ks) (j * bps fd + i))"
    have "\<forall>i < n. a \<noteq> of_nat (file_addr fd ks (0 + i))" using a nx by (metis add_0 add_less_cancel_left)
    then have "b2 a = b1 a" using s2 unfolding stored_def by blast
    moreover have "b1 a = b0 a" using a s1 unfolding stored_def by (simp add: trans_less_add1)
    ultimately show "b2 a = b0 a" by simp
  qed
qed

lemma stored_table:
  assumes g: "geometry fd" and v: "\<And>l. l \<in> set ks \<Longrightarrow> valid fd l" and n: "q + n \<le> length ks * (spc fd * bps fd)" and s: "stored fd ks q n p B b0 b1"
    and a: "unat a < unat (FirstDataSector fd) * bps fd"
  shows "b1 a = b0 a"
proof -
  have "a \<noteq> of_nat (file_addr fd ks (q + i))" if "i < n" for i
  proof -
    have "q + i < length ks * (spc fd * bps fd)" using n that by linarith
    note b = file_addr_bounds [OF g v this]
    have "unat (of_nat (file_addr fd ks (q + i)) :: QWORD) = file_addr fd ks (q + i)" by (rule unat_nat_QWORD [OF b(2)])
    then show ?thesis using a b(1) by auto
  qed
  then show ?thesis using s unfolding stored_def by blast
qed

lemma Write_loop_unfold:
  assumes g: "geometry fd" and env: "answers_ok env" and k: "valid fd k" and j: "j + t \<le> spc fd" and m: "t \<le> m" "m < 4294967296"
  shows "\<exists>v'. stored fd (k # ks) (j * bps fd) (t * bps fd) (done * bps fd) B (VolumeBytes v) (VolumeBytes v')
     \<and> FatWrite_loop env fd (of_nat (sector_of fd k + j)) (of_nat t) (of_nat m) (of_nat (done * bps fd)) B v =
      (if t = m then Some (STATUS_SUCCESS, v')
       else do {
         (status, nextSector, v) \<leftarrow> NextSectorInClusterChain env fd (of_nat (sector_of fd k + j)) True v';
         if \<not> SUCCEEDED status then Some (status, v)
         else FatWrite_loop env fd (case nextSector of Some s \<Rightarrow> s | None \<Rightarrow> 0) (of_nat (min (spc fd) (m - t))) (of_nat (m - t)) (of_nat ((done + t) * bps fd)) B v
       })"
proof -
  have r: "(of_nat m - of_nat t :: QWORD) = of_nat (m - t)" using m by simp
  have z: "(0 :: QWORD) = of_nat (m - t) \<longleftrightarrow> t = m" using le_of_nat_QWORD(3) [of 0 "m - t"] m by auto
  have s: "min (ucast (SectorsPerCluster fd)) (of_nat (m - t)) = (of_nat (min (spc fd) (m - t)) :: QWORD)"
    unfolding min_def ucast_of_nat using le_of_nat_QWORD(1) [of "spc fd" "m - t"] m geometryD(5) [OF g] by auto
  have p: "(of_nat (done * bps fd) + of_nat t * ucast (BytesPerSector fd) :: QWORD) = of_nat ((done + t) * bps fd)"
    by (simp only: ucast_of_nat of_nat_mult of_nat_add distrib_right)
  obtain v' where w: "IoWriteDevice env (of_nat t * ucast (BytesPerSector fd)) (of_nat (sector_of fd k + j) * ucast (BytesPerSector fd)) (\<lambda>i. B (of_nat (done * bps fd) + i)) v = (STATUS_SUCCESS, True, v')"
    "stored fd (k # ks) (j * bps fd) (t * bps fd) (done * bps fd) B (VolumeBytes v) (VolumeBytes v')"
    using Write_chunk [OF g env k j] by blast
  show ?thesis
    unfolding FatWrite_loop.simps [of env fd "of_nat (sector_of fd k + j)"] Let_def w(1) prod.case r z s p
    by (rule exI [of _ v']) (simp only: w(2) SUCCEEDED_SUCCESS not_True_eq_False if_False ASSERT_True bind.bind_lunit simp_thms)
qed

lemma Write_loop_ok:
  assumes g: "geometry fd" and env: "answers_ok env"
  shows "chain (VolumeBytes v) fd (k # ks) \<Longrightarrow> distinct (k # ks) \<Longrightarrow> j < spc fd \<Longrightarrow> 0 < m \<Longrightarrow> m < 4294967296 \<Longrightarrow> j + m \<le> length (k # ks) * spc fd \<Longrightarrow>
     \<exists>v'. FatWrite_loop env fd (of_nat (sector_of fd k + j)) (of_nat (min m (spc fd - j))) (of_nat m) (of_nat (done * bps fd)) B v = Some (STATUS_SUCCESS, v')
     \<and> stored fd (k # ks) (j * bps fd) (m * bps fd) (done * bps fd) B (VolumeBytes v) (VolumeBytes v')"
proof (induction ks arbitrary: k j m "done" v)
  case Nil
  then have t: "min m (spc fd - j) = m" "j + m \<le> spc fd" "valid fd k" by auto
  then show ?case using Write_loop_unfold [OF g env t(3,2) le_refl Nil.prems(5), of "[]" "done" B v] by auto
next
  case (Cons l ks)
  define t where "t = min m (spc fd - j)"
  have t: "j + t \<le> spc fd" "t \<le> m" using Cons.prems(3) by (auto simp: t_def)
  have vl: "x \<in> set (k # l # ks) \<Longrightarrow> valid fd x" for x using chain_valid [OF Cons.prems(1)] .
  have k: "valid fd k" using vl by simp
  have s0: "0 < spc fd" using geometryD(4) [OF g] .
  obtain v1 where v1: "stored fd (k # l # ks) (j * bps fd) (t * bps fd) (done * bps fd) B (VolumeBytes v) (VolumeBytes v1)"
    "FatWrite_loop env fd (of_nat (sector_of fd k + j)) (of_nat t) (of_nat m) (of_nat (done * bps fd)) B v =
      (if t = m then Some (STATUS_SUCCESS, v1)
       else do {
         (status, nextSector, v) \<leftarrow> NextSectorInClusterChain env fd (of_nat (sector_of fd k + j)) True v1;
         if \<not> SUCCEEDED status then Some (status, v)
         else FatWrite_loop env fd (case nextSector of Some s \<Rightarrow> s | None \<Rightarrow> 0) (of_nat (min (spc fd) (m - t))) (of_nat (m - t)) (of_nat ((done + t) * bps fd)) B v
       })"
    using Write_loop_unfold [OF g env k t Cons.prems(5), of "l # ks" "done" B v] by blast
  show ?case
  proof (cases "t = m")
    case True
    then show ?thesis unfolding t_def [symmetric] using v1 by auto
  next
    case False
    then have tm: "t < m" "j + t = spc fd" using t Cons.prems(3) by (auto simp: t_def min_def split: if_splits)
    let ?v = "called (called v1)"
    have vb: "VolumeBytes ?v = VolumeBytes v1" by (simp add: called_def)
    have "(j + t) * bps fd \<le> length (k # l # ks) * (spc fd * bps fd)" using tm(2) by simp
    then have q: "j * bps fd + t * bps fd \<le> length (k # l # ks) * (spc fd * bps fd)" by (simp add: distrib_right)
    have c1: "chain (VolumeBytes v1) fd (k # l # ks)" using Cons.prems(1) by (rule chain_data_write [OF g]) (rule stored_table [OF g vl q v1(1)])
    have ns: "NextSectorInClusterChain env fd (of_nat (sector_of fd k + j)) True v1 = Some (STATUS_SUCCESS, Some (of_nat (sector_of fd l)), ?v)"
      using NextSector_ok(1) [OF g env c1 Cons.prems(3)] by simp
    have c2: "chain (VolumeBytes ?v) fd (l # ks)" using c1 vb by simp
    have mt: "0 < m - t" "m - t < 4294967296" "0 + (m - t) \<le> length (l # ks) * spc fd" using tm Cons.prems(5,6) by simp_all
    obtain v' where v': "FatWrite_loop env fd (of_nat (sector_of fd l)) (of_nat (min (m - t) (spc fd))) (of_nat (m - t)) (of_nat ((done + t) * bps fd)) B ?v = Some (STATUS_SUCCESS, v')"
      "stored fd (l # ks) 0 ((m - t) * bps fd) ((done + t) * bps fd) B (VolumeBytes v1) (VolumeBytes v')"
      using Cons.IH [OF c2 _ s0 mt, of "done + t"] Cons.prems(2) vb by auto
    have "(m - t) * bps fd \<le> length (l # ks) * (spc fd * bps fd)" using mult_le_mono1 [OF mt(3), of "bps fd"] by (simp only: mult.assoc add_0)
    then have "stored fd (k # l # ks) (j * bps fd) (t * bps fd + (m - t) * bps fd) (done * bps fd) B (VolumeBytes v) (VolumeBytes v')"
      using v'(2) by (intro stored_append [OF g Cons.prems(2) vl tm(2) _ v1(1)]) (simp_all add: distrib_right)
    moreover have "t * bps fd + (m - t) * bps fd = m * bps fd" using tm(1) by (simp flip: distrib_right)
    ultimately show ?thesis unfolding t_def [symmetric] v1(2) ns using False v'(1) by (simp add: min.commute [of "spc fd"])
  qed
qed

text \<open>A cluster that is not one of the file has no byte of the file.\<close>

lemma other_cluster:
  assumes g: "geometry fd" and d: "distinct (kd # ks)" and v: "\<And>l. l \<in> set (kd # ks) \<Longrightarrow> valid fd l"
    and i: "i < spc fd * bps fd" and i': "i' < length ks * (spc fd * bps fd)"
  shows "of_nat (sector_of fd kd * bps fd + i) \<noteq> (of_nat (file_addr fd ks i') :: QWORD)"
proof -
  have c0: "0 < spc fd * bps fd" using i by linarith
  have b: "i < length (kd # ks) * (spc fd * bps fd)" "spc fd * bps fd + i' < length (kd # ks) * (spc fd * bps fd)" using i i' by simp_all
  have "file_addr fd (kd # ks) i \<noteq> file_addr fd (kd # ks) (spc fd * bps fd + i')" using file_addr_inj [OF g d v b] i by simp
  then have "(of_nat (file_addr fd (kd # ks) i) :: QWORD) \<noteq> of_nat (file_addr fd (kd # ks) (spc fd * bps fd + i'))"
    using le_of_nat_QWORD(3) [OF file_addr_bounds(2) [OF g v b(1)] file_addr_bounds(2) [OF g v b(2)]] by simp
  then show ?thesis unfolding file_addr_next [OF c0] file_addr_first [OF i] .
qed

lemma stored_other_cluster:
  assumes g: "geometry fd" and d: "distinct (kd # ks)" and v: "\<And>l. l \<in> set (kd # ks) \<Longrightarrow> valid fd l" and n: "q + n \<le> length ks * (spc fd * bps fd)"
    and s: "stored fd ks q n p B b0 b1" and i: "i < spc fd * bps fd"
  shows "b1 (of_nat (sector_of fd kd * bps fd + i)) = b0 (of_nat (sector_of fd kd * bps fd + i))"
proof -
  have "of_nat (sector_of fd kd * bps fd + i) \<noteq> (of_nat (file_addr fd ks (q + i')) :: QWORD)" if "i' < n" for i'
    using n that by (intro other_cluster [OF g d v i]) simp_all
  then show ?thesis using s unfolding stored_def by blast
qed

lemma stored_dir_cluster:
  assumes "geometry fd" "distinct (kd # ks)" "\<And>l. l \<in> set (kd # ks) \<Longrightarrow> valid fd l" "q + n \<le> length ks * (spc fd * bps fd)" "stored fd ks q n p B b0 b1"
  shows "dir_cluster b1 fd (sector_of fd kd) = dir_cluster b0 fd (sector_of fd kd)"
proof
  fix i :: QWORD
  have L: "unat (of_nat (bps fd * spc fd) :: QWORD) = bps fd * spc fd" using cluster_bytes(2) [OF assms(1)] by (intro unat_nat_QWORD) simp
  have "b1 (of_nat (sector_of fd kd * bps fd) + i) = b0 (of_nat (sector_of fd kd * bps fd) + i)" if "i < of_nat (bps fd * spc fd)"
  proof -
    have "unat i < spc fd * bps fd" using that unfolding word_less_nat_alt L by (simp only: mult.commute)
    from stored_other_cluster [OF assms this] show ?thesis by simp
  qed
  then show "dir_cluster b1 fd (sector_of fd kd) i = dir_cluster b0 fd (sector_of fd kd) i" by (simp only: dir_cluster_def) simp
qed

text \<open>The entry after a write: the size grows if the write ends behind it, and the dates are set.\<close>

abbreviation DIR_written :: "QWORD set" where
  "DIR_written \<equiv> {DIR_LstAccDate_at, DIR_LstAccDate_at + 1, DIR_WrtTime_at, DIR_WrtTime_at + 1, DIR_WrtDate_at, DIR_WrtDate_at + 1,
     DIR_FileSize_at, DIR_FileSize_at + 1, DIR_FileSize_at + 2, DIR_FileSize_at + 3}"

definition written_entry :: "DATETIME \<Rightarrow> DWORD \<Rightarrow> buffer \<Rightarrow> buffer" where
  "written_entry now sz de = (
     let de = (if sz > rd_dword de DIR_FileSize_at then wr_dword de DIR_FileSize_at sz else de); (fatDate, fatTime) = ConvertDateTimeToFatDateTime now in
     wr_word (wr_word (wr_word de DIR_LstAccDate_at (WORD_of_FATDATE fatDate)) DIR_WrtDate_at (WORD_of_FATDATE fatDate)) DIR_WrtTime_at (WORD_of_FATTIME fatTime))"

lemma written_entry_size: "rd_dword (written_entry now sz de) DIR_FileSize_at = max (rd_dword de DIR_FileSize_at) sz"
proof -
  have "rd_dword (wr_word (wr_word (wr_word b DIR_LstAccDate_at d1) DIR_WrtDate_at d2) DIR_WrtTime_at d3) DIR_FileSize_at = rd_dword b DIR_FileSize_at" for b d1 d2 d3
    by (simp add: rd_dword_def wr_word_def)
  then show ?thesis by (auto simp: written_entry_def Let_def case_prod_beta rd_wr_dword max_def)
qed

lemma written_entry_other: "d \<notin> DIR_written \<Longrightarrow> written_entry now sz de d = de d"
  by (simp add: written_entry_def Let_def case_prod_beta wr_word_def wr_dword_def)

text \<open>The sectors that are written from the offset on, over all clusters.\<close>

lemma Write_from_offset:
  assumes g: "geometry fd" and env: "answers_ok env" and c: "chain (VolumeBytes v) fd ks" and d: "distinct ks" and m: "0 < m" "m < 4294967296" "off + m \<le> length ks * spc fd"
  shows "\<exists>v'. FatWrite_loop env fd (of_nat (sector_of fd (ks ! (off div spc fd)) + off mod spc fd)) (of_nat (min m (spc fd - off mod spc fd))) (of_nat m) 0 B v = Some (STATUS_SUCCESS, v')
      \<and> stored fd ks (off * bps fd) (m * bps fd) 0 B (VolumeBytes v) (VolumeBytes v')"
proof -
  define p where "p = off div spc fd"
  define j where "j = off mod spc fd"
  have s0: "0 < spc fd" "0 < spc fd * bps fd" using geometryD(1,4) [OF g] by simp_all
  have oj: "p * spc fd + j = off" by (simp add: p_def j_def)
  have "off < length ks * spc fd" using m(1,3) by linarith
  then have pl: "p < length ks" by (simp add: p_def less_mult_imp_div_less)
  have dr: "drop p ks = ks ! p # drop (Suc p) ks" using pl by (simp add: Cons_nth_drop_Suc)
  have ch: "chain (VolumeBytes v) fd (ks ! p # drop (Suc p) ks)" using chain_drop [OF c pl] dr by simp
  have dd: "distinct (ks ! p # drop (Suc p) ks)" using d dr by (metis distinct_drop)
  have "length (ks ! p # drop (Suc p) ks) = length ks - p" using pl by simp
  then have jm: "j + m \<le> length (ks ! p # drop (Suc p) ks) * spc fd" using m(3) oj by (simp add: diff_mult_distrib)
  have "j < spc fd" using s0(1) by (simp add: j_def)
  then obtain v' where v': "FatWrite_loop env fd (of_nat (sector_of fd (ks ! p) + j)) (of_nat (min m (spc fd - j))) (of_nat m) 0 B v = Some (STATUS_SUCCESS, v')"
    "stored fd (drop p ks) (j * bps fd) (m * bps fd) 0 B (VolumeBytes v) (VolumeBytes v')"
    using Write_loop_ok [OF g env ch dd _ m(1,2) jm, of 0 B] dr by auto
  have "file_addr fd (drop p ks) (j * bps fd + i) = file_addr fd ks (off * bps fd + i)" for i
  proof -
    have "p * (spc fd * bps fd) + (j * bps fd + i) = off * bps fd + i" unfolding oj [symmetric] by (simp add: algebra_simps)
    then show ?thesis by (simp only: file_addr_drop [OF less_imp_le [OF pl] s0(2)])
  qed
  then have "stored fd ks (off * bps fd) (m * bps fd) 0 B (VolumeBytes v) (VolumeBytes v')" using v'(2) by (simp only: stored_def)
  then show ?thesis using v'(1) unfolding p_def [symmetric] j_def [symmetric] by blast
qed

lemma stored_file:
  assumes g: "geometry fd" and d: "distinct ks" and v: "\<And>l. l \<in> set ks \<Longrightarrow> valid fd l" and n: "q + n \<le> length ks * (spc fd * bps fd)" and s: "stored fd ks q n 0 B b0 b1"
    and i: "i < length ks * (spc fd * bps fd)"
  shows "b1 (of_nat (file_addr fd ks i)) = (if q \<le> i \<and> i < q + n then B (of_nat (i - q)) else b0 (of_nat (file_addr fd ks i)))"
proof (cases "q \<le> i \<and> i < q + n")
  case True
  then have "b1 (of_nat (file_addr fd ks (q + (i - q)))) = B (of_nat (0 + (i - q)))" using s unfolding stored_def by (metis le_add_diff_inverse add_less_cancel_left)
  then show ?thesis using True by simp
next
  case False
  have "of_nat (file_addr fd ks i) \<noteq> (of_nat (file_addr fd ks (q + i')) :: QWORD)" if "i' < n" for i'
  proof -
    have b: "q + i' < length ks * (spc fd * bps fd)" "i \<noteq> q + i'" using n that False by auto
    then show ?thesis using le_of_nat_QWORD(3) [OF file_addr_bounds(2) [OF g v i] file_addr_bounds(2) [OF g v b(1)]] file_addr_inj [OF g d v i b(1)] by simp
  qed
  then show ?thesis using s False unfolding stored_def by auto
qed

lemma ucast_low: "(ucast (x :: QWORD) :: DWORD) = of_nat (unat x)"
  by simp

text \<open>The entry \<open>x\<close> of a directory lies in the cluster of the directory.\<close>

lemma entry_not_in_file:
  assumes g: "geometry fd" and d: "distinct (kd # ks)" and v: "\<And>l. l \<in> set (kd # ks) \<Longrightarrow> valid fd l" and x: "x < of_nat (bps fd * spc fd) div SIZEOF_DIR_ENTRY"
    and i: "i < length ks * (spc fd * bps fd)"
  shows "\<not> of_nat (file_addr fd ks i) - (of_nat (sector_of fd kd * bps fd) + x * SIZEOF_DIR_ENTRY) < SIZEOF_DIR_ENTRY"
proof
  let ?d = "of_nat (file_addr fd ks i) - (of_nat (sector_of fd kd * bps fd) + x * SIZEOF_DIR_ENTRY)"
  assume "?d < SIZEOF_DIR_ENTRY"
  then have u: "unat ?d < 32" by (simp add: word_less_nat_alt)
  have L: "unat (of_nat (bps fd * spc fd) :: QWORD) = bps fd * spc fd" using cluster_bytes(2) [OF g] by (intro unat_nat_QWORD) simp
  have "unat x < bps fd * spc fd div 32" using x unfolding word_less_nat_alt unat_div L by simp
  then have x32: "unat x * 32 + 32 \<le> spc fd * bps fd" by (simp add: less_eq_div_iff_mult_less_eq mult.commute flip: Suc_le_eq)
  have "(of_nat (sector_of fd kd * bps fd + (unat x * 32 + unat ?d)) :: QWORD) = of_nat (file_addr fd ks i)"
    by simp
  then show False using other_cluster [OF g d v _ i, of "unat x * 32 + unat ?d"] x32 u by simp
qed

text \<open>The run: the data is stored, then the entry is written back.\<close>

lemma FatWriteFile_ok:
  assumes g: "geometry fd" and env: "answers_ok env" and c: "chain (VolumeBytes v) fd ks" and d: "distinct (kd # ks)" and kd: "valid fd kd"
    and al: "IsAddressAligned (of_nat (sector_of fd (hd ks))) (ucast (SectorsPerCluster fd))"
    and m: "0 < m" "off + m \<le> length ks * spc fd" "(off + m) * bps fd < 4294967296" and x: "dir_index (VolumeBytes v) fd (sector_of fd kd) (hd ks) = Some x"
  defines "E \<equiv> of_nat (sector_of fd kd * bps fd) + x * SIZEOF_DIR_ENTRY"
  shows "\<exists>b v'. FatWriteFile env fd (of_nat (sector_of fd (hd ks))) (of_nat off) (of_nat (sector_of fd kd)) B (of_nat m) v = Some (STATUS_SUCCESS, Some (of_nat m), v')
     \<and> stored fd ks (off * bps fd) (m * bps fd) 0 B (VolumeBytes v) b \<and> (\<forall>a. a - E \<notin> DIR_written \<longrightarrow> VolumeBytes v' a = b a)
     \<and> rd_dword (VolumeBytes v') (E + DIR_FileSize_at) = max (rd_dword (VolumeBytes v) (E + DIR_FileSize_at)) (of_nat ((off + m) * bps fd))"
proof -
  let ?D = "sector_of fd kd"
  have s0: "0 < spc fd" "512 \<le> bps fd" using geometryD(1,4) [OF g] by simp_all
  have "off + m \<le> (off + m) * bps fd" using s0(2) by simp
  then have ob: "off < 4294967296" "m < 4294967296" using m(3) by linarith+
  have "off < length ks * spc fd" using m(1,2) by linarith
  then have off: "off div spc fd < length ks" by (rule less_mult_imp_div_less)
  have vl: "l \<in> set (kd # ks) \<Longrightarrow> valid fd l" for l using kd chain_valid [OF c] by auto
  obtain v1 where v1: "FatTraverse_loop env fd (of_nat off) True (of_nat (sector_of fd (hd ks))) 0 v = Some (STATUS_SUCCESS, of_nat (sector_of fd (ks ! (off div spc fd))), v1)" "VolumeBytes v1 = VolumeBytes v"
    using Traverse_start [OF g env c off ob(1)] by blast
  note cu = current_sector [OF g c off ob(1)]
  obtain v2 where v2: "FatWrite_loop env fd (of_nat (sector_of fd (ks ! (off div spc fd)) + off mod spc fd)) (of_nat (min m (spc fd - off mod spc fd))) (of_nat m) 0 B v1 = Some (STATUS_SUCCESS, v2)"
    "stored fd ks (off * bps fd) (m * bps fd) 0 B (VolumeBytes v) (VolumeBytes v2)"
    using Write_from_offset [OF g env _ _ m(1) ob(2) m(2), of v1 B, unfolded v1(2)] c d by auto
  have qn: "off * bps fd + m * bps fd \<le> length ks * (spc fd * bps fd)" using mult_le_mono1 [OF m(2), of "bps fd"] by (simp add: algebra_simps)
  have dc: "dir_cluster (VolumeBytes v2) fd ?D = dir_cluster (VolumeBytes v) fd ?D" by (rule stored_dir_cluster [OF g d vl qn v2(2)])
  then have x2: "dir_index (VolumeBytes v2) fd ?D (hd ks) = Some x" using x by (simp add: dir_index_def)
  have xl: "x < of_nat (bps fd * spc fd) div SIZEOF_DIR_ENTRY" using x unfolding dir_index_def by (rule DirEntry_loop_less)
  let ?de = "\<lambda>i. if i < SIZEOF_DIR_ENTRY then dir_cluster (VolumeBytes v2) fd ?D (x * SIZEOF_DIR_ENTRY + i) else 0"
  have k: "valid fd (hd ks)" using vl c by (cases ks) auto
  note gd = GetDirEntry_ok [OF g env k x2]
  let ?v = "called (called v2)"
  have vb: "VolumeBytes ?v = VolumeBytes v2" by (simp add: called_def)
  have "(ucast (of_nat (off + m) :: QWORD) :: DWORD) = of_nat (off + m)"
    unfolding ucast_low using ob by (subst unat_nat_QWORD) simp_all
  then have sz: "ucast (of_nat off + of_nat m :: QWORD) * BytesPerSector fd = of_nat ((off + m) * bps fd)" by simp
  define de where "de = written_entry (IoGetCurrentDateTime env (VolumeCalls ?v)) (ucast (of_nat off + of_nat m :: QWORD) * BytesPerSector fd) ?de"
  have "de i = dir_cluster (VolumeBytes ?v) fd ?D (x * SIZEOF_DIR_ENTRY + i)" if "i < SIZEOF_DIR_ENTRY" "i \<notin> DIR_written" for i
    using that(1) unfolding de_def vb written_entry_other [OF that(2)] by simp
  then obtain v3 where v3: "WriteDirEntryToSector env fd (of_nat ?D) x de ?v = Some (STATUS_SUCCESS, v3)" "\<forall>a. a - E \<notin> DIR_written \<longrightarrow> VolumeBytes v3 a = VolumeBytes v2 a"
      "\<forall>i < SIZEOF_DIR_ENTRY. VolumeBytes v3 (E + i) = de i"
    using entry_updated [OF g env xl, of DIR_written de ?v ?D] unfolding vb E_def by blast
  have "(0 :: QWORD) \<noteq> of_nat m" using m(1) ob(2) le_of_nat_QWORD(3) [of 0 m] by simp
  then have run: "FatWriteFile env fd (of_nat (sector_of fd (hd ks))) (of_nat off) (of_nat ?D) B (of_nat m) v = Some (STATUS_SUCCESS, Some (of_nat m), v3)"
    using al v1(1) v2(1) gd v3(1) [unfolded de_def written_entry_def Let_def] cu(1-3) cu(4) [OF ob(2)] unfolding FatWriteFile_def Let_def by (simp add: case_prod_beta split del: if_split cong: if_cong)
  have "rd_dword (VolumeBytes v3) (E + DIR_FileSize_at) = max (rd_dword (VolumeBytes v) (E + DIR_FileSize_at)) (of_nat ((off + m) * bps fd))"
  proof -
    have "?de i = VolumeBytes v (E + i)" if "i < SIZEOF_DIR_ENTRY" for i using that entry_in_cluster [OF g xl that, of "VolumeBytes v"] by (simp add: dc E_def)
    then have "rd_dword ?de DIR_FileSize_at = rd_dword (VolumeBytes v) (E + DIR_FileSize_at)" by (simp add: rd_dword_def add.assoc)
    moreover have "rd_dword (VolumeBytes v3) (E + DIR_FileSize_at) = rd_dword de DIR_FileSize_at" using v3(3) by (simp add: rd_dword_def add.assoc)
    ultimately show ?thesis by (simp only: de_def written_entry_size sz)
  qed
  then show ?thesis using run v2(2) v3(2) by blast
qed

text \<open>
  C39: Writing to a file inside its clusters \<open>ks\<close> returns; the bytes of the file from the offset on are those of the buffer, the others are
  as before, the size in the directory entry grows to the end of what was written if it was smaller, and besides the dates in this entry nothing else on the volume changes.\<close>
theorem fat_write_file_spec:
  assumes g: "geometry fd" and env: "answers_ok env" and c: "chain (VolumeBytes v) fd ks" and d: "distinct (kd # ks)" and kd: "valid fd kd"
    and al: "IsAddressAligned (of_nat (sector_of fd (hd ks))) (ucast (SectorsPerCluster fd))"
    and m: "0 < m" "off + m \<le> length ks * spc fd" "(off + m) * bps fd < 4294967296" and x: "dir_index (VolumeBytes v) fd (sector_of fd kd) (hd ks) = Some x"
  shows "let E = of_nat (sector_of fd kd * bps fd) + x * SIZEOF_DIR_ENTRY in
     \<exists>v'. FatWriteFile env fd (of_nat (sector_of fd (hd ks))) (of_nat off) (of_nat (sector_of fd kd)) B (of_nat m) v = Some (STATUS_SUCCESS, Some (of_nat m), v')
     \<and> (\<forall>i < length ks * (spc fd * bps fd). VolumeBytes v' (of_nat (file_addr fd ks i))
          = (if off * bps fd \<le> i \<and> i < (off + m) * bps fd then B (of_nat (i - off * bps fd)) else VolumeBytes v (of_nat (file_addr fd ks i))))
     \<and> rd_dword (VolumeBytes v') (E + DIR_FileSize_at) = max (rd_dword (VolumeBytes v) (E + DIR_FileSize_at)) (of_nat ((off + m) * bps fd))
     \<and> (\<forall>a. a - E \<notin> DIR_written \<and> (\<forall>i < length ks * (spc fd * bps fd). a \<noteq> of_nat (file_addr fd ks i)) \<longrightarrow> VolumeBytes v' a = VolumeBytes v a)"
proof -
  define E where "E = of_nat (sector_of fd kd * bps fd) + x * SIZEOF_DIR_ENTRY"
  obtain b v' where r: "FatWriteFile env fd (of_nat (sector_of fd (hd ks))) (of_nat off) (of_nat (sector_of fd kd)) B (of_nat m) v = Some (STATUS_SUCCESS, Some (of_nat m), v')"
    "stored fd ks (off * bps fd) (m * bps fd) 0 B (VolumeBytes v) b" "\<forall>a. a - E \<notin> DIR_written \<longrightarrow> VolumeBytes v' a = b a"
    "rd_dword (VolumeBytes v') (E + DIR_FileSize_at) = max (rd_dword (VolumeBytes v) (E + DIR_FileSize_at)) (of_nat ((off + m) * bps fd))"
    using FatWriteFile_ok [OF assms] unfolding E_def by blast
  have vl: "l \<in> set (kd # ks) \<Longrightarrow> valid fd l" for l using kd chain_valid [OF c] by auto
  have qn: "off * bps fd + m * bps fd \<le> length ks * (spc fd * bps fd)" using mult_le_mono1 [OF m(2), of "bps fd"] by (simp add: algebra_simps)
  have xl: "x < of_nat (bps fd * spc fd) div SIZEOF_DIR_ENTRY" using x unfolding dir_index_def by (rule DirEntry_loop_less)
  have "VolumeBytes v' (of_nat (file_addr fd ks i)) = b (of_nat (file_addr fd ks i))" if "i < length ks * (spc fd * bps fd)" for i
  proof -
    have "of_nat (file_addr fd ks i) - E \<notin> DIR_written" using entry_not_in_file [OF g d vl xl that] unfolding E_def [symmetric] by auto
    then show ?thesis using r(3) by blast
  qed
  moreover have "VolumeBytes v' a = VolumeBytes v a" if "a - E \<notin> DIR_written" "\<forall>i < length ks * (spc fd * bps fd). a \<noteq> of_nat (file_addr fd ks i)" for a
  proof -
    have "b a = VolumeBytes v a" using r(2) that(2) qn unfolding stored_def by (meson add_less_cancel_left order_less_le_trans)
    then show ?thesis using r(3) that(1) by simp
  qed
  ultimately show ?thesis unfolding Let_def E_def [symmetric] using r(1,4) stored_file [OF g _ _ qn r(2)] d vl by (intro exI [of _ v']) (simp add: distrib_right)
qed

section \<open>An example volume\<close>

text \<open>Ten clusters of one sector: the directory is cluster 2, its first entry is a file in the clusters 3 and 4 with the bytes 0x41 and 0x42 at the start of the second.\<close>

definition example_fd :: FAT_DATA where
  "example_fd = \<lparr>CountOfClusters = 10, RootDirectoryStartSector = 2, ReservedSectors = 1, FirstDataSector = 2, SectorsPerCluster = 1, BytesPerSector = 512,
     EntriesPerSector = 16, AllocationSize = 512\<rparr>"

definition example_volume :: VOLUME where
  "example_volume = \<lparr>VolumeBytes = zeroed(524 := 4, 528 := 0xF8, 529 := 0xFF, 530 := 0xFF, 531 := 0xF, 1024 := 0x46, 1050 := 3, 1053 := 1, 2048 := 0x41, 2049 := 0x42), VolumeCalls = 0\<rparr>"

definition example_answers :: VOLUME_ANSWERS where
  "example_answers = \<lparr>AllocOk = \<lambda>_. True, IoStatus = \<lambda>_. STATUS_SUCCESS, IoFull = \<lambda>_. True,
     IoGetCurrentDateTime = \<lambda>_. \<lparr>DatePart = \<lparr>DateDay = 1, DateMonth = 2, DateYear = 2024\<rparr>, TimePart = \<lparr>TimeSecond = 4, TimeMinute = 5, TimeHour = 6\<rparr>\<rparr>, DeviceAlignment = 512\<rparr>"

lemma example_ok: "geometry example_fd" "answers_ok example_answers" "chain (VolumeBytes example_volume) example_fd [3, 4]" "distinct [2, 3, 4 :: nat]" "valid example_fd 2"
  "sector_of example_fd 3 = 3" "sector_of example_fd 2 = 2" "bps example_fd = 512" "spc example_fd = 1" "IsAddressAligned 3 (ucast (SectorsPerCluster example_fd))"
  by (simp_all add: example_fd_def example_answers_def example_volume_def geometry_def answers_ok_def valid_def sector_of_def IsAddressAligned_def fat_next_def entry_addr_def
      rd_dword_def zeroed_def word_le_nat_alt)

lemma example_entry: "dir_index (VolumeBytes example_volume) example_fd 2 3 = Some 0"
  by (simp add: dir_index_def DirEntry_loop.simps dir_cluster_def example_fd_def example_volume_def zeroed_def DirEntryCluster_def WORDS_TO_DWORD_def rd_word_def)

lemma example_file: "file_addr example_fd [3, 4] 512 = 2048" "file_addr example_fd [3, 4] 513 = 2049"
  by (simp_all add: file_addr_def example_fd_def sector_of_def)

theorem fat_read_file_spec_witness:
  "\<exists>B' v'. FatReadFile example_answers example_fd 3 1 2 zeroed 5 example_volume = Some (STATUS_SUCCESS, Some 1, B', v') \<and> B' 0 = 0x41 \<and> B' 1 = 0x42 \<and> B' 512 = 0 \<and> VolumeBytes v' 1050 = 3"
proof -
  have "\<exists>B' v'. FatReadFile example_answers example_fd 3 1 2 zeroed 5 example_volume = Some (STATUS_SUCCESS, Some 1, B', v')
      \<and> (\<forall>i. B' i = (if unat i < 512 then VolumeBytes example_volume (of_nat (file_addr example_fd [3, 4] (512 + unat i))) else zeroed i))
      \<and> (\<forall>a. a - 1024 \<notin> {DIR_LstAccDate_at, DIR_LstAccDate_at + 1} \<longrightarrow> VolumeBytes v' a = VolumeBytes example_volume a)"
    using fat_read_file_spec [OF example_ok(1-3), of 1 5 2 0 zeroed] by (simp add: example_ok example_entry del: chain.simps split del: if_split cong: if_cong)
  then obtain B' v' where r: "FatReadFile example_answers example_fd 3 1 2 zeroed 5 example_volume = Some (STATUS_SUCCESS, Some 1, B', v')"
    "\<And>i. B' i = (if unat i < 512 then VolumeBytes example_volume (of_nat (file_addr example_fd [3, 4] (512 + unat i))) else zeroed i)"
    "\<And>a. a - 1024 \<notin> {DIR_LstAccDate_at, DIR_LstAccDate_at + 1} \<Longrightarrow> VolumeBytes v' a = VolumeBytes example_volume a" by blast
  have "B' 0 = 0x41" "B' 1 = 0x42" "B' 512 = 0" "VolumeBytes v' 1050 = 3" by (simp_all add: r(2,3) example_file) (simp_all add: example_volume_def zeroed_def)
  then show ?thesis using r(1) by blast
qed

theorem fat_write_file_spec_witness:
  "\<exists>v'. FatWriteFile example_answers example_fd 3 1 2 (\<lambda>_. 7) 1 example_volume = Some (STATUS_SUCCESS, Some 1, v') \<and> VolumeBytes v' 2049 = 7 \<and> rd_dword (VolumeBytes v') 1052 = 1024"
proof -
  have "\<exists>v'. FatWriteFile example_answers example_fd 3 1 2 (\<lambda>_. 7) 1 example_volume = Some (STATUS_SUCCESS, Some 1, v')
      \<and> (\<forall>i < 1024. VolumeBytes v' (of_nat (file_addr example_fd [3, 4] i)) = (if 512 \<le> i \<and> i < 1024 then 7 else VolumeBytes example_volume (of_nat (file_addr example_fd [3, 4] i))))
      \<and> rd_dword (VolumeBytes v') 1052 = max (rd_dword (VolumeBytes example_volume) 1052) 1024
      \<and> (\<forall>a. a - 1024 \<notin> DIR_written \<and> (\<forall>i < 1024. a \<noteq> of_nat (file_addr example_fd [3, 4] i)) \<longrightarrow> VolumeBytes v' a = VolumeBytes example_volume a)"
    using fat_write_file_spec [OF example_ok(1-3), of 2 1 1 0 "\<lambda>_. 7"] by (simp add: example_ok example_entry del: chain.simps split del: if_split cong: if_cong)
  then obtain v' where r: "FatWriteFile example_answers example_fd 3 1 2 (\<lambda>_. 7) 1 example_volume = Some (STATUS_SUCCESS, Some 1, v')"
    "\<And>i. i < 1024 \<Longrightarrow> VolumeBytes v' (of_nat (file_addr example_fd [3, 4] i)) = (if 512 \<le> i \<and> i < 1024 then 7 else VolumeBytes example_volume (of_nat (file_addr example_fd [3, 4] i)))"
    "rd_dword (VolumeBytes v') 1052 = max (rd_dword (VolumeBytes example_volume) 1052) 1024" by blast
  have "VolumeBytes v' 2049 = 7" using r(2) [of 513] by (simp add: example_file)
  moreover have "rd_dword (VolumeBytes v') 1052 = 1024" unfolding r(3) by (simp add: example_volume_def zeroed_def rd_dword_def max_def word_le_nat_alt)
  ultimately show ?thesis using r(1) by blast
qed

section \<open>Dates\<close>

lemma take_bit_small: "unat (w :: 'a :: len word) < 2 ^ n \<Longrightarrow> take_bit n w = w"
  by (simp add: word_unat_eq_iff unsigned_take_bit_eq take_bit_nat_eq_self)

lemma field_of_byte: "unat (w :: BYTE) < 2 ^ n \<Longrightarrow> ucast (take_bit n (ucast w :: WORD)) = w"
proof -
  assume "unat w < 2 ^ n"
  moreover have "ucast (take_bit n (ucast w :: WORD)) = take_bit n w" by (rule bit_word_eqI) (auto simp: bit_simps)
  ultimately show ?thesis by (simp add: take_bit_small)
qed

lemma stored_date: "FATDATE_of (WORD_of_FATDATE (ConvertDateToFatDate d)) = ConvertDateToFatDate d"
proof -
  have "take_bit 5 (take_bit 5 a OR push_bit 5 (take_bit 4 b) OR push_bit 9 (take_bit 7 c)) = take_bit 5 a"
    "take_bit 4 (drop_bit 5 (take_bit 5 a OR push_bit 5 (take_bit 4 b) OR push_bit 9 (take_bit 7 c))) = take_bit 4 b"
    "take_bit 7 (drop_bit 9 (take_bit 5 a OR push_bit 5 (take_bit 4 b) OR push_bit 9 (take_bit 7 c))) = take_bit 7 c" for a b c :: WORD
    by (rule bit_word_eqI; auto simp: bit_simps)+
  then show ?thesis by (simp add: FATDATE_of_def WORD_of_FATDATE_def ConvertDateToFatDate_def)
qed

lemma stored_time: "FATTIME_of (WORD_of_FATTIME (ConvertTimeToFatTime t)) = ConvertTimeToFatTime t"
proof -
  have "take_bit 5 (take_bit 5 a OR push_bit 5 (take_bit 6 b) OR push_bit 11 (take_bit 5 c)) = take_bit 5 a"
    "take_bit 6 (drop_bit 5 (take_bit 5 a OR push_bit 5 (take_bit 6 b) OR push_bit 11 (take_bit 5 c))) = take_bit 6 b"
    "take_bit 5 (drop_bit 11 (take_bit 5 a OR push_bit 5 (take_bit 6 b) OR push_bit 11 (take_bit 5 c))) = take_bit 5 c" for a b c :: WORD
    by (rule bit_word_eqI; auto simp: bit_simps)+
  then show ?thesis by (simp add: FATTIME_of_def WORD_of_FATTIME_def ConvertTimeToFatTime_def)
qed

definition calendar :: "DATETIME \<Rightarrow> bool" where
  "calendar dt \<longleftrightarrow> (let d = DatePart dt; t = TimePart dt in unat (DateDay d) \<in> {1..31} \<and> unat (DateMonth d) \<in> {1..12} \<and> unat (DateYear d) \<in> {1980..2107}
     \<and> unat (TimeSecond t) < 60 \<and> unat (TimeMinute t) < 60 \<and> unat (TimeHour t) < 24)"

lemma date_back:
  assumes "unat (DateDay d) \<in> {1..31}" "unat (DateMonth d) \<in> {1..12}" "unat (DateYear d) \<in> {1980..2107}"
  shows "ConvertFatDateToDate (ConvertDateToFatDate d) d0 = (STATUS_SUCCESS, d)"
proof -
  have "unat (DateYear d - 1980) = unat (DateYear d) - 1980" using assms(3) by (simp add: unat_sub word_le_nat_alt)
  then have y: "take_bit 7 (DateYear d - 1980) = DateYear d - 1980" using assms(3) by (intro take_bit_small) auto
  have "\<not> DateDay d < 1" "\<not> 31 < DateDay d" "\<not> DateMonth d < 1" "\<not> 12 < DateMonth d" using assms(1,2) by (auto simp: word_less_nat_alt)
  then show ?thesis using assms(1,2) by (simp add: ConvertFatDateToDate_def ConvertDateToFatDate_def Let_def y field_of_byte)
qed

lemma time_back:
  assumes "unat (TimeSecond t) < 60" "unat (TimeMinute t) < 60" "unat (TimeHour t) < 24"
  shows "ConvertFatTimeToTime (ConvertTimeToFatTime t) t0 = (STATUS_SUCCESS, t\<lparr>TimeSecond := TimeSecond t div 2 * 2\<rparr>)"
proof -
  have s: "unat (TimeSecond t div 2) < 30" unfolding unat_div using assms(1) by simp
  have "\<not> 29 < TimeSecond t div 2" "\<not> 59 < TimeMinute t" "\<not> 23 < TimeHour t" using s assms(2,3) by (simp_all only: word_less_nat_alt) simp_all
  then show ?thesis using assms s by (simp add: ConvertFatTimeToTime_def ConvertTimeToFatTime_def Let_def field_of_byte)
qed

text \<open>
  A date and time of the calendar of the years 1980 to 2107 that is converted to the two words of a directory entry and read back is the same, with
  the seconds rounded down to an even number.\<close>
theorem fat_date_roundtrip:
  assumes "calendar dt"
  shows "case ConvertDateTimeToFatDateTime dt of (d, t) \<Rightarrow>
    ConvertFatDateTimeToDateTime (FATDATE_of (WORD_of_FATDATE d)) (FATTIME_of (WORD_of_FATTIME t)) old
      = (STATUS_SUCCESS, dt\<lparr>TimePart := (TimePart dt)\<lparr>TimeSecond := TimeSecond (TimePart dt) div 2 * 2\<rparr>\<rparr>)"
  using assms by (simp add: calendar_def Let_def ConvertDateTimeToFatDateTime_def ConvertFatDateTimeToDateTime_def stored_date stored_time date_back time_back)

theorem fat_date_roundtrip_witness:
  "let dt = \<lparr>DatePart = \<lparr>DateDay = 29, DateMonth = 2, DateYear = 2024\<rparr>, TimePart = \<lparr>TimeSecond = 59, TimeMinute = 58, TimeHour = 23\<rparr>\<rparr>; (d, t) = ConvertDateTimeToFatDateTime dt in
     calendar dt \<and> ConvertFatDateTimeToDateTime (FATDATE_of (WORD_of_FATDATE d)) (FATTIME_of (WORD_of_FATTIME t)) dt
       = (STATUS_SUCCESS, dt\<lparr>TimePart := \<lparr>TimeSecond = 58, TimeMinute = 58, TimeHour = 23\<rparr>\<rparr>)"
  using fat_date_roundtrip [of "\<lparr>DatePart = \<lparr>DateDay = 29, DateMonth = 2, DateYear = 2024\<rparr>, TimePart = \<lparr>TimeSecond = 59, TimeMinute = 58, TimeHour = 23\<rparr>\<rparr>"
    "\<lparr>DatePart = \<lparr>DateDay = 29, DateMonth = 2, DateYear = 2024\<rparr>, TimePart = \<lparr>TimeSecond = 59, TimeMinute = 58, TimeHour = 23\<rparr>\<rparr>"]
  by (simp add: calendar_def Let_def case_prod_beta)

end
