(* ===== verification/FatAlloc.thy ===== *)
theory FatAlloc
  imports Fat32Props
begin

text \<open>
  Extending a file: the search for a free cluster in the allocation table, and how the cluster that was found becomes the last one of the chain
  while the other chains, the data and the counters stay right.
\<close>

section \<open>Writing an entry of the table\<close>

definition link :: "buffer \<Rightarrow> FAT_DATA \<Rightarrow> nat \<Rightarrow> DWORD \<Rightarrow> buffer" where
  "link bytes fd k w = wr_dword bytes (of_nat (entry_addr fd k)) ((rd_dword bytes (of_nat (entry_addr fd k)) AND NOT FAT32_CLUSTER_MASK) OR w)"

lemma wr_dword_window:
  assumes "i + 3 < n" "off + n < 18446744073709551616"
  shows "(\<lambda>a. if a - of_nat off < of_nat n then wr_dword (\<lambda>a. if a < of_nat n then bytes (of_nat off + a) else d a) (of_nat i) w (a - of_nat off) else bytes a)
    = wr_dword bytes (of_nat (off + i)) w"
proof
  fix a :: QWORD
  have u: "unat (of_nat i + j :: QWORD) = i + unat j" if "unat j \<le> 3" for j
    using assms that unat_plus_if_small [of "of_nat i :: QWORD" j] unat_nat_QWORD [of i] by simp
  have lt: "of_nat i + j < (of_nat n :: QWORD)" if "unat j \<le> 3" for j
    using u [OF that] assms that unat_nat_QWORD [of n] by (simp add: word_less_nat_alt)
  have e: "a - of_nat off = of_nat i + j \<longleftrightarrow> a = of_nat (off + i) + j" for j by (auto simp: algebra_simps)
  have "(if a - of_nat off < of_nat n then wr_dword (\<lambda>a. if a < of_nat n then bytes (of_nat off + a) else d a) (of_nat i) w (a - of_nat off) else bytes a) = wr_dword bytes (of_nat (off + i)) w a"
    using e [of 0] e [of 1] e [of 2] e [of 3] lt [of 0] lt [of 1] lt [of 2] lt [of 3] by (auto simp: wr_dword_def)
  then show "(if a - of_nat off < of_nat n then wr_dword (\<lambda>a. if a < of_nat n then bytes (of_nat off + a) else d a) (of_nat i) w (a - of_nat off) else bytes a) = wr_dword bytes (of_nat (off + i)) w a" .
qed

text \<open>A sector of the table that is read, changed in one entry and written back.\<close>

lemma table_write:
  assumes g: "geometry fd" and k: "valid fd k"
  defines "s \<equiv> unat (ReservedSectors fd) + 4 * k div bps fd" and "i \<equiv> k mod (bps fd div 4)"
  shows "(\<lambda>a. if a - of_nat (s * bps fd) < of_nat (bps fd) then FatEntrySet (\<lambda>a. if a < of_nat (bps fd) then bytes (of_nat (s * bps fd) + a) else d a) (of_nat i) w (a - of_nat (s * bps fd)) else bytes a)
    = link bytes fd k w"
proof -
  note e = entry_addr_split [OF g, of k, folded s_def i_def]
  have "unat (FirstDataSector fd) * bps fd \<le> 4294967295 * 4096" using geometryD(2) [OF g] unat_DWORD_less [of "FirstDataSector fd"] by (intro mult_le_mono) linarith+
  then have ds: "s * bps fd + bps fd < 18446744073709551616" using e(1) entry_addr_bound(1) [OF g k] geometryD(2) [OF g] by linarith
  have i4: "(of_nat i * SIZEOF_FAT32_ENTRY :: QWORD) = of_nat (4 * i)" by simp
  have b: "4 * i + 3 < bps fd" "s * bps fd + 4 * i + 3 < 18446744073709551616" "bps fd < 18446744073709551616" using e ds by simp_all
  show ?thesis
    unfolding FatEntrySet_def i4 link_def rd_dword_window [OF b(1,2,3)] wr_dword_window [OF b(1) ds] e(1) ..
qed

lemma rd_wr_dword_apart:
  assumes "m + 4 \<le> n \<or> n + 4 \<le> m" "m + 4 < 18446744073709551616" "n + 4 < 18446744073709551616"
  shows "rd_dword (wr_dword b (of_nat m) w) (of_nat n) = rd_dword b (of_nat n)"
proof -
  have "(of_nat n + of_nat j :: QWORD) \<noteq> of_nat m + of_nat j'" if "j < 4" "j' < 4" for j j'
    using le_of_nat_QWORD(3) [of "n + j" "m + j'"] assms that by auto
  from this [of 0 0] this [of 0 1] this [of 0 2] this [of 0 3] this [of 1 0] this [of 1 1] this [of 1 2] this [of 1 3]
    this [of 2 0] this [of 2 1] this [of 2 2] this [of 2 3] this [of 3 0] this [of 3 1] this [of 3 2] this [of 3 3]
  show ?thesis by (simp add: rd_dword_def wr_dword_def)
qed

lemma wr_dword_other:
  assumes "unat a < m \<or> m + 4 \<le> unat a" "m + 4 < 18446744073709551616"
  shows "wr_dword b (of_nat m) w a = b a"
proof -
  have "a \<noteq> of_nat m + of_nat j" if "j < 4" for j
    using assms that unat_nat_QWORD [of "m + j"] by auto
  from this [of 0] this [of 1] this [of 2] this [of 3] show ?thesis by (simp add: wr_dword_def)
qed

lemma fat_next_link:
  assumes g: "geometry fd" and k: "valid fd k" and j: "valid fd j" and w: "w AND FAT32_CLUSTER_MASK = w"
  shows "fat_next (link bytes fd k w) fd j = (if j = k then w else fat_next bytes fd j)"
proof (cases "j = k")
  case True
  have "((x AND NOT FAT32_CLUSTER_MASK) OR w) AND FAT32_CLUSTER_MASK = w" for x by (simp add: w bit.conj_disj_distrib2 and.assoc)
  then show ?thesis using True by (simp add: fat_next_def link_def rd_wr_dword)
next
  case False
  have "entry_addr fd k + 4 \<le> entry_addr fd j \<or> entry_addr fd j + 4 \<le> entry_addr fd k" using False by (auto simp: entry_addr_def)
  then show ?thesis using False rd_wr_dword_apart [OF _ entry_addr_bound(2) [OF g k] entry_addr_bound(2) [OF g j]] by (simp add: fat_next_def link_def)
qed

lemma link_other:
  assumes "geometry fd" "valid fd k" "unat a < entry_addr fd k \<or> entry_addr fd k + 4 \<le> unat a"
  shows "link bytes fd k w a = bytes a"
  unfolding link_def by (rule wr_dword_other [OF assms(3) entry_addr_bound(2) [OF assms(1,2)]])

section \<open>The search for a free cluster\<close>

lemma FirstFree_index_step:
  assumes "i < n" "n < 18446744073709551616"
  shows "FirstFree_index buf (of_nat n) (of_nat i) = (if rd_dword buf (of_nat (4 * i)) AND FAT32_CLUSTER_MASK = 0 then Some (of_nat i) else FirstFree_index buf (of_nat n) (of_nat (Suc i)))"
proof -
  have "(of_nat i :: QWORD) < of_nat n" using le_of_nat_QWORD(2) [of i n] assms by simp
  moreover have "(of_nat i * SIZEOF_FAT32_ENTRY :: QWORD) = of_nat (4 * i)" "(of_nat i + 1 :: QWORD) = of_nat (Suc i)" by simp_all
  ultimately show ?thesis by (subst FirstFree_index.simps) (simp only: if_True eq_commute [of 0])
qed

lemma FirstFree_index_found:
  assumes "i \<le> k" "k < n" "n < 18446744073709551616" "\<And>j. i \<le> j \<Longrightarrow> j < k \<Longrightarrow> rd_dword buf (of_nat (4 * j)) AND FAT32_CLUSTER_MASK \<noteq> 0"
    "rd_dword buf (of_nat (4 * k)) AND FAT32_CLUSTER_MASK = 0"
  shows "FirstFree_index buf (of_nat n) (of_nat i) = Some (of_nat k)"
  using assms(1,4)
proof (induction rule: inc_induct)
  case base
  then show ?case using FirstFree_index_step [OF assms(2,3)] assms(5) by simp
next
  case (step i)
  have "i < n" using step.hyps assms(2) by simp
  then show ?case using FirstFree_index_step [OF _ assms(3)] step by simp
qed

lemma FirstFree_index_none:
  assumes "i \<le> n" "n < 18446744073709551616" "\<And>j. i \<le> j \<Longrightarrow> j < n \<Longrightarrow> rd_dword buf (of_nat (4 * j)) AND FAT32_CLUSTER_MASK \<noteq> 0"
  shows "FirstFree_index buf (of_nat n) (of_nat i) = None"
  using assms(1,3)
proof (induction rule: inc_induct)
  case base
  then show ?case by (subst FirstFree_index.simps) simp
next
  case (step i)
  then show ?case using FirstFree_index_step [OF step.hyps(2) assms(2)] by simp
qed

text \<open>The entries of a sector: \<open>s\<close> counts the sectors of the table, \<open>j\<close> the entries of the sector.\<close>

abbreviation eps :: "FAT_DATA \<Rightarrow> nat" where "eps fd \<equiv> bps fd div 4"

lemma bps_eps: "geometry fd \<Longrightarrow> bps fd = 4 * eps fd" "geometry fd \<Longrightarrow> 0 < eps fd" "geometry fd \<Longrightarrow> 4 * k div bps fd = k div eps fd"
proof -
  assume g: "geometry fd"
  have "4 dvd bps fd" using geometryD(3) [OF g] by (rule dvd_trans [rotated]) simp
  then show b: "bps fd = 4 * eps fd" by simp
  show "0 < eps fd" using geometryD(1) [OF g] by (simp add: div_greater_zero_iff)
  show "4 * k div bps fd = k div eps fd" by (subst b) simp
qed

lemma sector_entry:
  assumes g: "geometry fd" and j: "j < eps fd" and v: "valid fd (s * eps fd + j)"
  shows "rd_dword (\<lambda>a. if a < of_nat (bps fd) then bytes (of_nat ((unat (ReservedSectors fd) + s) * bps fd) + a) else d a) (of_nat (4 * j)) AND FAT32_CLUSTER_MASK
    = fat_next bytes fd (s * eps fd + j)"
proof -
  have "(unat (ReservedSectors fd) + s) * bps fd + 4 * j = entry_addr fd (s * eps fd + j)" using bps_eps(1) [OF g] by (simp add: entry_addr_def algebra_simps)
  moreover have "4 * j + 3 < bps fd" using j bps_eps(1) [OF g] by simp
  moreover have "bps fd < 18446744073709551616" using geometryD(2) [OF g] by simp
  ultimately show ?thesis using rd_dword_window [of "4 * j" "bps fd" "(unat (ReservedSectors fd) + s) * bps fd"] entry_addr_bound(2) [OF g v] by (simp only: fat_next_def)
qed

lemma FirstFree_loop_read:
  fixes buf :: buffer and v :: VOLUME
  assumes g: "geometry fd" and env: "answers_ok env" and s: "unat (ReservedSectors fd) + s < SPF" "SPF < 18446744073709551616"
  defines "win \<equiv> \<lambda>a. if a < of_nat (bps fd) then VolumeBytes v (of_nat ((unat (ReservedSectors fd) + s) * bps fd) + a) else buf a"
  shows "FirstFree_loop env fd True (of_nat SPF) status buf (of_nat (unat (ReservedSectors fd) + s)) i v =
     (case FirstFree_index win (of_nat (eps fd)) i of
        None \<Rightarrow> FirstFree_loop env fd True (of_nat SPF) STATUS_SUCCESS win (of_nat (unat (ReservedSectors fd) + Suc s)) 0 (called v)
      | Some x \<Rightarrow> do {
          let c = of_nat s * of_nat (eps fd) + x;
          ASSERT (2 \<le> c \<and> c < of_nat (clusters fd + 2));
          ASSERT (ucast FAT32_UNKNOWN \<noteq> c);
          Some (STATUS_SUCCESS, c, called (called v\<lparr>VolumeBytes := \<lambda>a. if a - of_nat ((unat (ReservedSectors fd) + s) * bps fd) < of_nat (bps fd)
            then FatEntrySet win x FAT32_EOC_MARK (a - of_nat ((unat (ReservedSectors fd) + s) * bps fd)) else VolumeBytes v a\<rparr>))
        })"
proof -
  let ?R = "unat (ReservedSectors fd)"
  have lt: "(of_nat (?R + s) :: QWORD) < of_nat SPF" using le_of_nat_QWORD(2) [of "?R + s" SPF] s by simp
  have n: "ucast (BytesPerSector fd) = (of_nat (bps fd) :: QWORD)" "ucast (ReservedSectors fd) = (of_nat ?R :: QWORD)" by (simp_all only: ucast_of_nat)
  have off: "(of_nat (?R + s) * of_nat (bps fd) :: QWORD) = of_nat ((?R + s) * bps fd)" by (simp only: of_nat_mult)
  have "unat (of_nat (bps fd) div SIZEOF_FAT32_ENTRY) = eps fd" unfolding unat_div using unat_nat_QWORD [of "bps fd"] geometryD(2) [OF g] by simp
  then have e: "of_nat (bps fd) div SIZEOF_FAT32_ENTRY = of_nat (eps fd)" using unat_nat_QWORD [of "eps fd"] geometryD(2) [OF g] by (simp only: word_unat_eq_iff)
  have nx: "(of_nat (?R + s) + 1 :: QWORD) = of_nat (?R + Suc s)" "(of_nat (?R + s) - of_nat ?R :: QWORD) = of_nat s" by simp_all
  have a: "IoStatus env m = STATUS_SUCCESS" "IoFull env m" for m using env by (simp_all add: answers_ok_def)
  have vb: "VolumeBytes (called v) = VolumeBytes v" by (simp add: called_def)
  show ?thesis
    unfolding FirstFree_loop.simps [of env fd True "of_nat SPF" status] IoReadDevice_def IoWriteDevice_def Let_def n off
    by (simp only: lt a SUCCEEDED_SUCCESS if_True not_True_eq_False if_False prod.case ASSERT_True bind.bind_lunit e nx vb win_def [symmetric] count_plus(2) [OF g])
qed

lemma FirstFree_loop_ok:
  assumes g: "geometry fd" and env: "answers_ok env" and k: "valid fd k" "fat_next bytes fd k = 0" and spf: "unat (ReservedSectors fd) + k div eps fd < SPF" "SPF < 18446744073709551616"
  shows "s \<le> k div eps fd \<Longrightarrow> s * eps fd + i \<le> k \<Longrightarrow> i < eps fd \<Longrightarrow> 2 \<le> s * eps fd + i \<Longrightarrow> VolumeBytes v = bytes \<Longrightarrow>
     (\<And>j. s * eps fd + i \<le> j \<Longrightarrow> j < k \<Longrightarrow> fat_next bytes fd j \<noteq> 0) \<Longrightarrow>
     \<exists>v'. FirstFree_loop env fd True (of_nat SPF) status buf (of_nat (unat (ReservedSectors fd) + s)) (of_nat i) v = Some (STATUS_SUCCESS, of_nat k, v')
       \<and> VolumeBytes v' = link bytes fd k FAT32_EOC_MARK"
proof (induction "k div eps fd - s" arbitrary: s i status buf v)
  case 0
  then have s: "s = k div eps fd" by simp
  let ?R = "unat (ReservedSectors fd)" and ?m = "k mod eps fd" and ?w = "\<lambda>a. if a < of_nat (bps fd) then bytes (of_nat ((unat (ReservedSectors fd) + s) * bps fd) + a) else buf a"
  have e: "eps fd < 18446744073709551616" "?m < eps fd" using geometryD(2) [OF g] bps_eps(2) [OF g] by simp_all
  have km: "s * eps fd + ?m = k" unfolding s by (rule div_mult_mod_eq)
  then have i: "i \<le> ?m" using 0(3) by linarith
  have vj: "valid fd (s * eps fd + j)" if "i \<le> j" "j \<le> ?m" for j using that 0(5) km k(1) by (auto simp: valid_def)
  have nz: "fat_next bytes fd (s * eps fd + j) \<noteq> 0" if "i \<le> j" "j < ?m" for j using 0(7) [of "s * eps fd + j"] that km by linarith
  have idx: "FirstFree_index ?w (of_nat (eps fd)) (of_nat i) = Some (of_nat ?m)"
  proof (rule FirstFree_index_found [OF i e(2,1)])
    fix j assume j: "i \<le> j" "j < ?m"
    then show "rd_dword ?w (of_nat (4 * j)) AND FAT32_CLUSTER_MASK \<noteq> 0" using sector_entry [OF g _ vj, of j bytes buf] nz [OF j] e(2) by simp
  next
    show "rd_dword ?w (of_nat (4 * ?m)) AND FAT32_CLUSTER_MASK = 0" using sector_entry [OF g e(2) vj [OF i le_refl], of bytes buf] k(2) km by simp
  qed
  have c: "(of_nat s * of_nat (eps fd) + of_nat ?m :: QWORD) = of_nat k" using km by (metis of_nat_add of_nat_mult)
  have as: "2 \<le> (of_nat k :: QWORD)" "of_nat k < (of_nat (clusters fd + 2) :: QWORD)" "ucast FAT32_UNKNOWN \<noteq> (of_nat k :: QWORD)"
    using k(1) geometryD(6) [OF g] le_of_nat_QWORD(1) [of 2 k] le_of_nat_QWORD(2) [of k "clusters fd + 2"] le_of_nat_QWORD(3) [of "unat FAT32_UNKNOWN" k] by (auto simp: valid_def)
  have sp: "?R + s < SPF" using spf(1) s by simp
  note tw = table_write [OF g k(1), of bytes buf FAT32_EOC_MARK, unfolded bps_eps(3) [OF g], folded s]
  show ?case
    unfolding FirstFree_loop_read [OF g env sp spf(2), where v = v and buf = buf] 0(6) idx option.case Let_def c tw
    by (simp only: as simp_thms ASSERT_True bind.bind_lunit) (simp add: called_def)
next
  case (Suc n)
  then have s: "s < k div eps fd" by simp
  let ?w = "\<lambda>a. if a < of_nat (bps fd) then bytes (of_nat ((unat (ReservedSectors fd) + s) * bps fd) + a) else buf a"
  have e: "eps fd < 18446744073709551616" "0 < eps fd" using geometryD(2) [OF g] bps_eps(2) [OF g] by simp_all
  have "Suc s * eps fd \<le> k div eps fd * eps fd" using s by (intro mult_le_mono1) simp
  then have sk: "s * eps fd + eps fd \<le> k" using div_times_less_eq_dividend [of k "eps fd"] unfolding mult_Suc by linarith
  have nz: "fat_next bytes fd (s * eps fd + j) \<noteq> 0" "valid fd (s * eps fd + j)" if "i \<le> j" "j < eps fd" for j
    using Suc(8) [of "s * eps fd + j"] that sk Suc(6) k(1) by (auto simp: valid_def)
  have idx: "FirstFree_index ?w (of_nat (eps fd)) (of_nat i) = None"
  proof (rule FirstFree_index_none [OF less_imp_le [OF Suc(5)] e(1)])
    fix j assume j: "i \<le> j" "j < eps fd"
    then show "rd_dword ?w (of_nat (4 * j)) AND FAT32_CLUSTER_MASK \<noteq> 0" using sector_entry [OF g j(2) nz(2) [OF j], of bytes buf] nz(1) [OF j] by simp
  qed
  have "\<exists>v'. FirstFree_loop env fd True (of_nat SPF) STATUS_SUCCESS ?w (of_nat (unat (ReservedSectors fd) + Suc s)) (of_nat 0) (called v) = Some (STATUS_SUCCESS, of_nat k, v')
      \<and> VolumeBytes v' = link bytes fd k FAT32_EOC_MARK"
    using Suc(2,5,6,7,8) s sk e(2) by (intro Suc(1)) (simp_all add: called_def)
  moreover have sp: "unat (ReservedSectors fd) + s < SPF" using spf(1) s by simp
  ultimately show ?case unfolding FirstFree_loop_read [OF g env sp spf(2), where v = v and buf = buf] Suc(7) idx option.case by simp
qed

lemma FirstFreeCluster_ok:
  assumes g: "geometry fd" and env: "answers_ok env" and k: "valid fd k" "fat_next (VolumeBytes v) fd k = 0" and h: "2 \<le> h" "h \<le> k" "\<And>j. h \<le> j \<Longrightarrow> j < k \<Longrightarrow> fat_next (VolumeBytes v) fd j \<noteq> 0"
    and spf: "unat (ReservedSectors fd) + k div eps fd < 4 * (clusters fd + 2) div bps fd"
  shows "\<exists>v'. FirstFreeCluster env fd (of_nat h) True v = Some (STATUS_SUCCESS, of_nat k, v') \<and> VolumeBytes v' = link (VolumeBytes v) fd k FAT32_EOC_MARK"
proof -
  let ?n = "clusters fd + 2" and ?R = "unat (ReservedSectors fd)"
  have b: "k < ?n" "?n \<le> 0xFFFFFF7" "valid fd h" using k(1) h geometryD(6) [OF g] by (auto simp: valid_def)
  have "unat (of_nat ?n * SIZEOF_FAT32_ENTRY div of_nat (bps fd)) = 4 * ?n div bps fd"
  proof -
    have "(of_nat ?n * SIZEOF_FAT32_ENTRY :: QWORD) = of_nat (4 * ?n)" by simp
    then show ?thesis unfolding unat_div using unat_nat_QWORD [of "4 * ?n"] unat_nat_QWORD [of "bps fd"] b(2) geometryD(2) [OF g] by (simp only:) simp
  qed
  moreover have q: "4 * ?n div bps fd < 18446744073709551616" by (rule order_le_less_trans [OF div_le_dividend]) (use b(2) in simp)
  ultimately have spf': "of_nat ?n * SIZEOF_FAT32_ENTRY div of_nat (bps fd) = (of_nat (4 * ?n div bps fd) :: QWORD)" using unat_nat_QWORD [OF q] by (simp only: word_unat_eq_iff)
  have hn: "\<not> of_nat ?n \<le> (of_nat h :: QWORD)" "ucast FAT32_UNKNOWN \<noteq> (of_nat h :: QWORD)"
    using b h(2) le_of_nat_QWORD(1) [of ?n h] le_of_nat_QWORD(3) [of "unat FAT32_UNKNOWN" h] by auto
  have e: "h mod eps fd < eps fd" "h div eps fd \<le> k div eps fd" "h div eps fd * eps fd + h mod eps fd = h" using bps_eps(2) [OF g] h(2) by (simp_all only: mod_less_divisor div_le_mono div_mult_mod_eq)
  have "\<exists>v'. FirstFree_loop env fd True (of_nat (4 * ?n div bps fd)) STATUS_UNSUCCESSFUL zeroed (of_nat (?R + h div eps fd)) (of_nat (h mod eps fd)) (called v) = Some (STATUS_SUCCESS, of_nat k, v')
      \<and> VolumeBytes v' = link (VolumeBytes v) fd k FAT32_EOC_MARK"
    by (rule FirstFree_loop_ok [OF g env k spf q e(2)]) (use e h in \<open>simp_all only: e(3)\<close>, simp_all add: called_def)
  moreover have "BytesPerSector fd \<noteq> 0" using geometryD(1) [OF g] by auto
  ultimately show ?thesis
    unfolding FirstFreeCluster_def ExAllocatePoolWithTag_def Let_def prod.case count_plus(2) [OF g] ucast_of_nat [of "BytesPerSector fd"] spf'
    using env hn FatEntryAt_ok [OF g b(3), unfolded bps_eps(3) [OF g]] by (auto simp: answers_ok_def)
qed

text \<open>With an unknown hint nothing is searched: the mark is larger than every number of entries.\<close>

lemma FirstFreeCluster_unknown:
  assumes "geometry fd" "answers_ok env"
  shows "FirstFreeCluster env fd (ucast FAT32_UNKNOWN) mark v = Some (STATUS_SUCCESS, 0, called v)"
proof -
  have "(of_nat (clusters fd + 2) :: QWORD) \<le> ucast FAT32_UNKNOWN"
    using geometryD(6) [OF assms(1)] le_of_nat_QWORD(1) [of "clusters fd + 2" "unat FAT32_UNKNOWN"] by simp
  moreover have "BytesPerSector fd \<noteq> 0" using geometryD(1) [OF assms(1)] by auto
  ultimately show ?thesis unfolding FirstFreeCluster_def ExAllocatePoolWithTag_def Let_def prod.case count_plus(2) [OF assms(1)] using assms(2) by (simp add: answers_ok_def)
qed

section \<open>Extending a chain\<close>

lemma fat_next_cong:
  assumes g: "geometry fd" and k: "valid fd k" and b: "\<And>a. entry_addr fd k \<le> unat a \<Longrightarrow> unat a < entry_addr fd k + 4 \<Longrightarrow> bytes' a = bytes a"
  shows "fat_next bytes' fd k = fat_next bytes fd k"
proof -
  have "unat (of_nat (entry_addr fd k) + j :: QWORD) = entry_addr fd k + unat j" if "unat j \<le> 3" for j
    using entry_addr_bound(2) [OF g k] that unat_nat_QWORD [of "entry_addr fd k"] unat_plus_if_small [of "of_nat (entry_addr fd k) :: QWORD" j] by simp
  from this [of 0] this [of 1] this [of 2] this [of 3] show ?thesis by (simp add: fat_next_def rd_dword_def b)
qed

lemma chain_snoc:
  assumes "chain b fd ks" "distinct ks" "valid fd k" "k \<notin> set ks" "\<And>j. valid fd j \<Longrightarrow> j \<noteq> last ks \<Longrightarrow> j \<noteq> k \<Longrightarrow> fat_next b' fd j = fat_next b fd j"
    "unat (fat_next b' fd (last ks)) = k" "FAT32_BAD_CLUSTER \<le> fat_next b' fd k"
  shows "chain b' fd (ks @ [k])"
  using assms
proof (induction b fd ks rule: chain.induct)
  case (3 b fd k' l ks)
  have "k' \<noteq> last (l # ks)" using 3(3) last_in_set [of "l # ks"] by auto
  then show ?case using 3 by auto
qed auto

text \<open>A cluster of a chain is not free.\<close>

lemma chain_not_free: "geometry fd \<Longrightarrow> chain b fd ks \<Longrightarrow> k \<in> set ks \<Longrightarrow> fat_next b fd k \<noteq> 0"
proof (induction b fd ks rule: chain.induct)
  case (3 b fd k' l ks)
  then have "valid fd l" using chain_valid [of b fd "l # ks" l] by simp
  then show ?case using 3 by (auto simp: valid_def)
qed auto

lemma chain_last: "chain b fd ks \<Longrightarrow> valid fd (last ks)" "chain b fd ks \<Longrightarrow> FAT32_BAD_CLUSTER \<le> fat_next b fd (last ks)" "chain b fd ks \<Longrightarrow> last ks \<in> set ks"
  by (induction b fd ks rule: chain.induct) auto

text \<open>The number of free clusters and the hint in the \<open>FSINFO\<close> in sector 1.\<close>

definition free_count :: "buffer \<Rightarrow> DWORD" where "free_count bytes = rd_dword bytes (0x200 + FSI_Free_Count_at)"
definition next_free :: "buffer \<Rightarrow> DWORD" where "next_free bytes = rd_dword bytes (0x200 + FSI_Nxt_Free_at)"

lemma fsinfo_read:
  "rd_dword (\<lambda>a. if a < SIZEOF_FSINFO then bytes (0x200 + a) else zeroed a) FSI_Free_Count_at = free_count bytes"
  "rd_dword (\<lambda>a. if a < SIZEOF_FSINFO then bytes (0x200 + a) else zeroed a) FSI_Nxt_Free_at = next_free bytes"
  by (simp_all add: rd_dword_def free_count_def next_free_def)

text \<open>What is in the sector after the counters were updated and written back.\<close>

lemma fsinfo_written:
  fixes fsi bytes :: buffer and k n :: DWORD
  defines "b \<equiv> \<lambda>a. if a - 0x200 < SIZEOF_FSINFO then wr_dword (wr_dword fsi FSI_Nxt_Free_at k) FSI_Free_Count_at n (a - 0x200) else bytes a"
  shows "free_count b = n" "next_free b = k" "\<not> (512 \<le> unat a \<and> unat a < 1024) \<Longrightarrow> b a = bytes a"
proof -
  have "free_count b = rd_dword (wr_dword (wr_dword fsi FSI_Nxt_Free_at k) FSI_Free_Count_at n) FSI_Free_Count_at"
    "next_free b = rd_dword (wr_dword (wr_dword fsi FSI_Nxt_Free_at k) FSI_Free_Count_at n) FSI_Nxt_Free_at"
    by (simp_all add: free_count_def next_free_def rd_dword_def b_def)
  moreover have "rd_dword (wr_dword (wr_dword fsi FSI_Nxt_Free_at k) FSI_Free_Count_at n) FSI_Nxt_Free_at = k"
    using rd_wr_dword_apart [of "0x1E8" "0x1EC" "wr_dword fsi FSI_Nxt_Free_at k" n] rd_wr_dword [of fsi FSI_Nxt_Free_at k] by simp
  ultimately show "free_count b = n" "next_free b = k" by (simp_all add: rd_wr_dword)
  assume "\<not> (512 \<le> unat a \<and> unat a < 1024)"
  then have "\<not> a - 0x200 < SIZEOF_FSINFO" by (auto simp: word_less_nat_alt unat_sub_if_size word_size split: if_splits)
  then show "b a = bytes a" by (simp add: b_def)
qed

lemma ucast_cluster:
  assumes "geometry fd" "valid fd k"
  shows "(ucast (of_nat k :: QWORD) :: DWORD) = of_nat k" "unat (of_nat k :: DWORD) = k" "of_nat k AND FAT32_CLUSTER_MASK = (of_nat k :: DWORD)"
proof -
  have k: "k < 0x10000000" using assms geometryD(6) [OF assms(1)] by (simp add: valid_def)
  then show u: "unat (of_nat k :: DWORD) = k" by (simp add: unat_of_nat)
  show "(ucast (of_nat k :: QWORD) :: DWORD) = of_nat k" unfolding ucast_low using k by (subst unat_nat_QWORD) simp_all
  have "take_bit 28 (of_nat k :: DWORD) = of_nat k" using k u by (intro take_bit_small) simp
  then show "of_nat k AND FAT32_CLUSTER_MASK = (of_nat k :: DWORD)" by (simp add: take_bit_eq_mask mask_eq_exp_minus_1)
qed

lemma AddNewCluster_ok:
  assumes g: "geometry fd" and env: "answers_ok env" and b: "BytesPerSector fd = 512" and l: "valid fd l"
    and fsi: "free_count (VolumeBytes v) \<notin> {0, FAT32_UNKNOWN}"
    and k: "valid fd k" "fat_next (VolumeBytes v) fd k = 0" "unat (ReservedSectors fd) + k div 128 < (clusters fd + 2) div 128"
    and h: "2 \<le> unat (next_free (VolumeBytes v))" "unat (next_free (VolumeBytes v)) \<le> k" "\<And>j. unat (next_free (VolumeBytes v)) \<le> j \<Longrightarrow> j < k \<Longrightarrow> fat_next (VolumeBytes v) fd j \<noteq> 0"
  shows "\<exists>v' fsi. AddNewClusterToChain env fd (of_nat l) v = Some (STATUS_SUCCESS, of_nat k, v')
     \<and> VolumeBytes v' = (\<lambda>a. if a - 0x200 < SIZEOF_FSINFO then wr_dword (wr_dword fsi FSI_Nxt_Free_at (of_nat k)) FSI_Free_Count_at (free_count (VolumeBytes v) - 1) (a - 0x200)
          else link (link (VolumeBytes v) fd k FAT32_EOC_MARK) fd l (of_nat k) a)"
proof -
  let ?b = "VolumeBytes v" and ?w = "\<lambda>a. if a < SIZEOF_FSINFO then VolumeBytes v (0x200 + a) else zeroed a"
  have u: "bps fd = 512" using b by simp
  have a: "AllocOk env m" "IoStatus env m = STATUS_SUCCESS" "IoFull env m" for m using env by (simp_all add: answers_ok_def)
  have vb: "VolumeBytes (called x) = VolumeBytes x" for x by (simp add: called_def)
  have "unat (ReservedSectors fd) + k div eps fd < 4 * (clusters fd + 2) div bps fd" using k(3) div_mult_mult1 [of 4 "clusters fd + 2" 128] unfolding u by simp
  then obtain v2 where v2: "FirstFreeCluster env fd (ucast (next_free ?b)) True (called (called v)) = Some (STATUS_SUCCESS, of_nat k, v2)" "VolumeBytes v2 = link ?b fd k FAT32_EOC_MARK"
    using FirstFreeCluster_ok [OF g env k(1), of "called (called v)" "unat (next_free ?b)", unfolded vb] k(2) h unfolding ucast_of_nat by blast
  have k0: "(0 :: QWORD) \<noteq> of_nat k" using k(1) geometryD(6) [OF g] le_of_nat_QWORD(3) [of 0 k] by (simp add: valid_def)
  have l0: "\<not> FAT32_EOC (of_nat l)" using valid_not_eoc [OF g l ucast_cluster(2) [OF g l]] FAT32_EOC_ucast [of "of_nat l"] by auto
  define s where "s = unat (ReservedSectors fd) + 4 * l div bps fd"
  define i where "i = l mod eps fd"
  have off: "(of_nat s * 0x200 :: QWORD) = of_nat (s * 512)" by simp
  note fe = FatEntryAt_ok [OF g l, folded s_def i_def]
  have fc: "rd_dword (wr_dword ?w FSI_Nxt_Free_at (of_nat k)) FSI_Free_Count_at = free_count ?b"
    using rd_wr_dword_apart [of "0x1EC" "0x1E8" ?w "of_nat k"] fsinfo_read(1) [of ?b] by simp
  have n: "(ucast (512 :: DWORD) :: QWORD) = 0x200" "(1 * 0x200 :: QWORD) = 0x200" "(of_nat 512 :: QWORD) = 0x200" by simp_all
  note tw = table_write [OF g l, of "link ?b fd k FAT32_EOC_MARK" zeroed "of_nat k", folded s_def i_def, unfolded u n(3)]
  have ne: "0 \<noteq> free_count ?b" "FAT32_UNKNOWN \<noteq> free_count ?b" using fsi by auto
  show ?thesis
    unfolding AddNewClusterToChain_def AddNewCluster_body_def ExAllocatePoolWithTag_def IoReadDevice_def IoWriteDevice_def Let_def prod.case b n
    by (simp only: a SUCCEEDED_SUCCESS if_True not_True_eq_False if_False ASSERT_True bind.bind_lunit prod.case vb simp_thms v2 fe off n ucast_cluster(1) [OF g k(1)] refl
        fsinfo_read ne fc k0 l0 tw VOLUME.simps option.inject prod.inject ex_simps) (auto intro!: exI [of _ ?w] cong: if_cong)
qed

text \<open>
  C40: Extending the chain \<open>ks\<close> of a file, on a volume with sectors of 512 bytes and at least two reserved sectors whose FSINFO
  has a hint and a number of free clusters other than 0, if the first free cluster from the hint on lies in the part of the
  table that is searched (not in its last \<open>ReservedSectors\<close> sectors). This cluster is appended: the next sector of the last
  cluster of the file is the first one of the new cluster, which ends the chain. No other entry of the table and no byte of the
  data changes, there is one free cluster less, and the hint is the new cluster. (With an unknown hint no cluster is found:
  \<open>FirstFreeCluster_unknown\<close>; without a free cluster in the part that is searched an assertion halts the machine.)
\<close>
theorem fat_extend_chain:
  assumes g: "geometry fd" and env: "answers_ok env" and b: "BytesPerSector fd = 512" "2 \<le> unat (ReservedSectors fd)"
    and c: "chain (VolumeBytes v) fd ks" "distinct ks" and j: "j < spc fd" and fsi: "free_count (VolumeBytes v) \<notin> {0, FAT32_UNKNOWN}"
    and k: "valid fd k" "fat_next (VolumeBytes v) fd k = 0" "unat (ReservedSectors fd) + k div 128 < (clusters fd + 2) div 128"
    and h: "2 \<le> unat (next_free (VolumeBytes v))" "unat (next_free (VolumeBytes v)) \<le> k" "\<forall>j. unat (next_free (VolumeBytes v)) \<le> j \<and> j < k \<longrightarrow> fat_next (VolumeBytes v) fd j \<noteq> 0"
  shows "\<exists>v'. NextSectorInClusterChain env fd (of_nat (sector_of fd (last ks) + j)) True v = Some (STATUS_SUCCESS, Some (of_nat (sector_of fd k)), v')
     \<and> chain (VolumeBytes v') fd (ks @ [k])
     \<and> (\<forall>i. valid fd i \<and> i \<notin> {last ks, k} \<longrightarrow> fat_next (VolumeBytes v') fd i = fat_next (VolumeBytes v) fd i)
     \<and> (\<forall>a. unat (FirstDataSector fd) * bps fd \<le> unat a \<longrightarrow> VolumeBytes v' a = VolumeBytes v a)
     \<and> free_count (VolumeBytes v') = free_count (VolumeBytes v) - 1 \<and> next_free (VolumeBytes v') = of_nat k"
proof -
  let ?b = "VolumeBytes v" and ?l = "last ks"
  have l: "valid fd ?l" "FAT32_BAD_CLUSTER \<le> fat_next ?b fd ?l" "?l \<in> set ks" using chain_last [OF c(1)] .
  have kl: "k \<notin> set ks" using chain_not_free [OF g c(1)] k(2) by blast
  have vb: "VolumeBytes (called (called v)) = ?b" by (simp add: called_def)
  obtain v' fsi where v': "AddNewClusterToChain env fd (of_nat ?l) (called (called v)) = Some (STATUS_SUCCESS, of_nat k, v')"
    "VolumeBytes v' = (\<lambda>a. if a - 0x200 < SIZEOF_FSINFO then wr_dword (wr_dword fsi FSI_Nxt_Free_at (of_nat k)) FSI_Free_Count_at (free_count ?b - 1) (a - 0x200)
          else link (link ?b fd k FAT32_EOC_MARK) fd ?l (of_nat k) a)"
    using AddNewCluster_ok [OF g env b(1) l(1), of "called (called v)" k, unfolded vb] fsi k h by blast
  note w = fsinfo_written [where fsi = fsi and k = "of_nat k" and n = "free_count ?b - 1" and bytes = "link (link ?b fd k FAT32_EOC_MARK) fd ?l (of_nat k)", folded v'(2)]
  have w3: "VolumeBytes v' a = link (link ?b fd k FAT32_EOC_MARK) fd ?l (of_nat k) a" if "\<not> (512 \<le> unat a \<and> unat a < 1024)" for a
    using fsinfo_written(3) [OF that] unfolding v'(2) .
  have nz: "fat_next ?b fd ?l \<noteq> 0" using chain_not_free [OF g c(1) l(3)] .
  have "FAT32_BAD_CLUSTER < (if fat_next ?b fd ?l = FAT32_BAD_CLUSTER then FAT32_EOC_MARK else fat_next ?b fd ?l)" using l(2) by auto
  then have run: "NextSectorInClusterChain env fd (of_nat (sector_of fd ?l + j)) True v = Some (STATUS_SUCCESS, Some (of_nat (sector_of fd k)), v')"
    unfolding NextSectorInClusterChain_def ClusterOfSector_ok [OF g l(1) j] using NextClusterInChain_ok [OF g env l(1) nz] v'(1) FirstSectorOfCluster_ok [OF g k(1)] by (simp add: FAT32_EOC_ucast)
  have fn: "fat_next (VolumeBytes v') fd i = (if i = ?l then of_nat k else if i = k then FAT32_EOC_MARK else fat_next ?b fd i)" if i: "valid fd i" for i
  proof -
    have "1024 \<le> entry_addr fd i" using b mult_le_mono1 [OF b(2), of "bps fd"] by (simp add: entry_addr_def)
    then have "fat_next (VolumeBytes v') fd i = fat_next (link (link ?b fd k FAT32_EOC_MARK) fd ?l (of_nat k)) fd i" by (intro fat_next_cong [OF g i] w3) simp
    then show ?thesis using fat_next_link [OF g l(1) i ucast_cluster(3) [OF g k(1)]] fat_next_link [OF g k(1) i, of FAT32_EOC_MARK] by simp
  qed
  have "chain (VolumeBytes v') fd (ks @ [k])"
    using kl l fn [OF l(1)] fn [OF k(1)] ucast_cluster(2) [OF g k(1)] by (intro chain_snoc [OF c k(1) kl]) (auto simp: fn)
  moreover have "VolumeBytes v' a = ?b a" if a: "unat (FirstDataSector fd) * bps fd \<le> unat a" for a
  proof -
    have "1024 \<le> unat a" using a entry_addr_bound(1) [OF g k(1)] mult_le_mono1 [OF b(2), of "bps fd"] b(1) by (simp add: entry_addr_def)
    moreover have "link bytes fd m x a = bytes a" if "valid fd m" for bytes m x using link_other [OF g that] entry_addr_bound(1) [OF g that] a by simp
    ultimately show ?thesis using w3 [of a] k(1) l(1) by simp
  qed
  ultimately show ?thesis using run fn w(1,2) by auto
qed


section \<open>An example\<close>

text \<open>A volume of 400 clusters where the file in cluster 3 is extended by cluster 4.\<close>

definition example_table :: FAT_DATA where
  "example_table = example_fd\<lparr>CountOfClusters := 400, ReservedSectors := 2, FirstDataSector := 6\<rparr>"

definition example_free :: VOLUME where
  "example_free = \<lparr>VolumeBytes = zeroed(1000 := 5, 1004 := 3, 1036 := 0xF8, 1037 := 0xFF, 1038 := 0xFF, 1039 := 0xF), VolumeCalls = 0\<rparr>"

theorem fat_extend_chain_witness:
  "\<exists>v'. NextSectorInClusterChain example_answers example_table 7 True example_free = Some (STATUS_SUCCESS, Some 8, v') \<and> chain (VolumeBytes v') example_table [3, 4]
     \<and> free_count (VolumeBytes v') = 4 \<and> next_free (VolumeBytes v') = 4"
proof -
  have g: "geometry example_table" "valid example_table 3" "valid example_table 4" "sector_of example_table 3 = 7" "sector_of example_table 4 = 8" "BytesPerSector example_table = 512"
    "2 \<le> unat (ReservedSectors example_table)" "spc example_table = 1" "clusters example_table = 400" "unat (ReservedSectors example_table) = 2"
    by (simp_all add: example_table_def example_fd_def geometry_def valid_def sector_of_def)
  have f: "free_count (VolumeBytes example_free) = 5" "next_free (VolumeBytes example_free) = 3" "fat_next (VolumeBytes example_free) example_table 4 = 0"
    "fat_next (VolumeBytes example_free) example_table 3 = 0xFFFFFF8"
    by (simp_all add: free_count_def next_free_def rd_dword_def example_free_def zeroed_def fat_next_def entry_addr_def example_table_def example_fd_def)
  have "(3 :: nat) \<le> j \<and> j < 4 \<longleftrightarrow> j = 3" for j by linarith
  then have "chain (VolumeBytes example_free) example_table [3]" "\<forall>j. 3 \<le> j \<and> j < 4 \<longrightarrow> fat_next (VolumeBytes example_free) example_table j \<noteq> 0"
    using f(4) g(2) by simp_all
  then show ?thesis using fat_extend_chain [OF g(1) example_ok(2) g(6,7), of example_free "[3]" 0 4] g f by (auto simp del: chain.simps)
qed

end
