(* ===== verification/Spec2Isabelle.thy ===== *)
theory Spec2Isabelle
  imports Lists ClHeap Pmm HashTable Sync RwLocks ThreadLife Strings MmuProps FatAlloc
begin

text \<open>
  \<^bold>\<open>Verification of the core of HAL9000\<close>, a 64-bit operating system kernel written in C (sources under \<open>src/src\<close>). The theories
  model the data structures and locks of \<open>CommonLib\<close>, and on top of them the physical memory manager, the virtual memory
  manager, the threads with their scheduler, the synchronisation objects of \<open>HAL9000\<close>, and the files of the FAT32 file system.
  Every definition has the name of the C function or structure it translates (without a leading underscore, with a suffix such
  as \<open>_loop\<close> for a loop).

  \<^bold>\<open>How the code is translated.\<close> Integers keep their width (\<open>BYTE\<close>, \<open>WORD\<close>, \<open>DWORD\<close>, \<open>QWORD\<close> are words; arithmetic wraps around).
  A structure is a record. A function takes the state it works on and returns the new one. The result is an option whenever the code can
  stop: \<open>None\<close> is a failed \<^verbatim>\<open>ASSERT\<close>, an access outside of memory, or a loop that does not end, so a theorem with \<open>f x = Some y\<close>
  says that none of these happens. Errors are status values, as in the code. A loop is a recursive function; one that may run
  forever is a \<open>partial_function\<close>, and there is no fuel anywhere. Calls to a lock are part of the functions that take it.
  Concurrency is given where the code relies on it: a lock is also a relation of atomic steps of any number of processors, and the
  worker that zeroes frames is a sequence of atomic actions.

  \<^bold>\<open>The theories.\<close>

  \<^item> \<open>Hal_Prelude\<close>: integer types, status codes, flags, alignment (\<open>CommonLib/inc\<close>), halting, and the lemmas on words all others use.
  \<^item> \<open>Lists\<close> (\<open>CommonLib/src/list.c\<close>): doubly linked lists as pointer reads and writes. The abstraction \<open>is_list\<close> relates the memory to a
    sequence of entries; the lemmas give the effect of every function on it and that nothing else is written. The locale \<open>fifo\<close> is what
    the users of a queue rely on.
  \<^item> \<open>Bitmaps\<close> (\<open>bitmap.c\<close>): bits in a buffer, and the scans for a run of bits with their loops. The locale \<open>range_allocator\<close> is what the
    memory managers rely on: a first fit allocator of ranges.
  \<^item> \<open>ClHeap\<close> (\<open>cl_heap.c\<close>): the heap, with headers, tails and the ordered list of allocations. The invariant \<open>heap_inv\<close> says that the
    allocations do not overlap, are sorted, and that the counters are exact; it is kept by allocating (at the end, or in a gap
    found by the search) and by freeing a block other than the one where the search restarts.
  \<^item> \<open>Locks\<close> (\<open>spinlock.c\<close>, \<open>monlock.c\<close>, \<open>lock_common.c\<close>) and \<open>RwLocks\<close> (\<open>rw_spinlock.c\<close>, \<open>rec_rw_spinlock.c\<close>): the locale
    \<open>exclusive_lock\<close> is the contract of a lock, interpreted for both locks and for the function pointers of the lock interface; mutual
    exclusion is an invariant of the interleaved steps.
  \<^item> \<open>Sync\<close> (\<open>ref_cnt.c\<close>, \<open>event.c\<close>, \<open>checkin_queue.c\<close>): reference counts, busy-wait events, the queue processors check in to.
  \<^item> \<open>ClMemory\<close> (\<open>cl_memory.c\<close>) and \<open>Strings\<close> (\<open>cl_string.c\<close>, \<open>strutils.c\<close>): bytes in memory, strings, numbers as text, formatting.
  \<^item> \<open>HashTable\<close> (\<open>hash_table.c\<close>): buckets of sorted lists, with the keys in the byte memory. It refines a finite map (locale \<open>kv_store\<close>).
  \<^item> \<open>Pmm\<close> (\<open>HAL9000/src/pmm.c\<close>): frames in a bitmap under a lock, over the \<open>range_allocator\<close> and the lock contract.
  \<^item> \<open>VmReservation\<close> (\<open>vm_reservation_space.c\<close>): the regions of an address space and their committed pages. In every sequence of requests
    the regions stay disjoint (locale \<open>address_space\<close>), as long as the callers do not reserve a range that overlaps a region in part, take pages
    back inside of one region only, and slots are left; the code checks none of this.
  \<^item> \<open>Paging\<close> (\<open>HAL/src/pte.c\<close> and the tables of \<open>vmm.c\<close>): entries with their bit fields, and the walk over the four levels that maps, unmaps
    and looks up; the locale \<open>table_reader\<close> is shared by unmapping and looking up. The tables refine a map from pages to frames and rights.
  \<^item> \<open>Mmu\<close> and \<open>MmuProps\<close> (\<open>vmm.c\<close>, \<open>mmu.c\<close>, \<open>mdl.c\<close>): page faults, regions with their frames, stacks, the worker that zeroes frames with its event and
    its lock, probing of memory, and memory descriptor lists: how \<open>Pmm\<close>, \<open>VmReservation\<close> and \<open>Paging\<close> work together.
  \<^item> \<open>Threads\<close>, \<open>Scheduler\<close>, \<open>ExSync\<close>, \<open>ThreadLife\<close> (\<open>thread.c\<close>, \<open>ex_event.c\<close>, \<open>mutex.c\<close>, parts of \<open>process.c\<close>, \<open>isr.c\<close>, \<open>gdtmu.c\<close>): threads as objects by
    address, the ready list, switching, blocking and waking; mutexes and events over it; creation, exit and release of threads.

  \<^item> \<open>Fat32\<close>, \<open>Fat32Props\<close>, \<open>FatAlloc\<close> (\<open>FAT32/src/fat_operations.c\<close>, \<open>fat_utils.c\<close>): mounting a volume, following the chain of the clusters
    of a file, reading and writing its sectors with the update of its directory entry, and extending a chain by a free cluster. The volume is
    an array of bytes; the answers of the pool, of the driver below and of the clock are arguments.

  \<^bold>\<open>Interfaces.\<close> What one component relies on is a locale, interpreted on the model of the component that provides it:
  \<open>fifo\<close> (by \<open>is_list\<close>, for the queues of threads), \<open>range_allocator\<close> (by the bitmap, for frames and reservations), \<open>exclusive_lock\<close>
  (by the spinlock, the monitor lock and the lock interface), \<open>kv_store\<close> (by the hash table), \<open>address_space\<close> (by the reservations),
  \<open>table_reader\<close> (by unmapping and by looking up).

  \<^bold>\<open>What is shown.\<close> For each component the effect of every operation on an abstraction of its state (a sequence, a set, a map), that its
  invariant is kept, what happens on the error paths, and that the loops end. The theorems that are the results of the development are marked
  with a number (C1, C2, \<open>\<dots>\<close>) in the text before them; a theorem with assumptions has an instance on a concrete state after it
  (\<open>_witness\<close>). Where the code does not do what it means to do, a lemma states what it does: the wrap-around of a check in the bitmap
  (\<open>bitmap_set_guard_wraps\<close>), overlapping reservations (\<open>reserve_accepts_overlap\<close>) and slots written over the bitmaps (\<open>reserve_overruns\<close>), the
  search of the heap that halts (\<open>ClHeapGap_halts\<close>), the iterator that leaves its table (\<open>hash_iterator_overrun\<close>), addresses of pages that are
  not mapped (\<open>get_physical_unmapped\<close>), regions of 4 GB that are released in part (\<open>unmap_cuts_size\<close>), the lost signal of the zero worker
  (\<open>zero_worker_lost_wakeup\<close>), and others.

  \<^bold>\<open>Bounds.\<close> The heap is at most 2 GB large and lies below the last 8 GB of the address space, so that its signed differences and rounded
  addresses do not wrap around (the code gives it less). There are fewer than 65536 processors at a reader-writer lock, whose counters
  are 16 bits wide. The page tables of an address space are those below its own root: the kernel half that a process copies from the
  system is seen from the system. A FAT32 volume has sectors of 512 to 4096 bytes, clusters of 1 to 128 sectors, fewer than 2^32 sectors, and
  its allocation table below the data area (\<open>geometry\<close>).

  \<^bold>\<open>Not modelled.\<close> Code that consists of access to devices, ports and processor registers (HAL, interrupt controllers, PCI, ATA, network
  card, display, keyboard, serial line), the assembly of boot and transitions, the start of the system with the loader of images, the driver
  and request objects of the input and output manager and the drivers above it, the lookup, creation and listing of directory entries and the
  dispatch of requests in the FAT32 driver, the swap file system, the third-party ACPI library, the command interpreter with its dumps, and the
  tests. Of processes only the accounting of threads, references and termination is modelled.
\<close>

end
